(* ===== verification/UA_Prelude.thy ===== *)
theory UA_Prelude
  imports Main "HOL-Library.Word" "HOL-Library.Monad_Syntax"
begin

unbundle bit_operations_syntax

text \<open>
  Shared vocabulary of the development.

  \<^item> A panic (the crate is built with \<open>panic = "abort"\<close>) is the value \<^term>\<open>None\<close> of the
    option monad; code that cannot panic is a plain function. A Rust \<open>Result<T, AllocError>\<close>
    is a sum, \<^term>\<open>Inl\<close> holding the error.
  \<^item> \<open>Cargo.toml\<close> switches the overflow checks off, so \<open>usize\<close> arithmetic wraps: a \<open>usize\<close> is a
    \<^typ>\<open>nat\<close> below \<open>2 ^ 64\<close> and every operation that could leave that range is written with
    \<open>wadd\<close>, \<open>wsub\<close> or \<open>wmul\<close>. Bit-level code uses \<^typ>\<open>64 word\<close> instead.
  \<^item> Debug assertions are kept (the development profile), as panics.
\<close>

section \<open>Collections of the development\<close>

named_theorems usize_simps \<open>wrap-around arithmetic that stays in range\<close>
named_theorems panic_simps \<open>unfolding of assertions and checked indexing\<close>

section \<open>Allocation errors\<close>

datatype alloc_error = ENOMEM | EDBFRE | EUAF | ELAYOUT | ESIZE | EOOB | ECPU | EFATAL

fun to_raw_errno :: "alloc_error \<Rightarrow> int" where
  "to_raw_errno ENOMEM = -1"
| "to_raw_errno EDBFRE = -2"
| "to_raw_errno EUAF = -3"
| "to_raw_errno ELAYOUT = -4"
| "to_raw_errno ESIZE = -5"
| "to_raw_errno EOOB = -6"
| "to_raw_errno ECPU = -7"
| "to_raw_errno EFATAL = -8"

section \<open>Panics\<close>

text \<open>\<open>assert!\<close> and \<open>debug_assert!\<close>.\<close>

definition ensure :: "bool \<Rightarrow> unit option" where
  "ensure b = (if b then Some () else None)"

lemma ensure_Some [panic_simps, simp]: "ensure b = Some u \<longleftrightarrow> b"
  by (simp add: ensure_def)

lemma ensure_bind [panic_simps, simp]: "ensure b \<bind> f = (if b then f () else None)"
  by (simp add: ensure_def)

text \<open>Slice indexing \<open>xs[i]\<close> and its assignment panic out of range.\<close>

definition aget :: "'a list \<Rightarrow> nat \<Rightarrow> 'a option" where
  "aget xs i = (if i < length xs then Some (xs ! i) else None)"

definition aset :: "'a list \<Rightarrow> nat \<Rightarrow> 'a \<Rightarrow> 'a list option" where
  "aset xs i v = (if i < length xs then Some (xs[i := v]) else None)"

lemma aget_Some [panic_simps]: "aget xs i = Some x \<longleftrightarrow> i < length xs \<and> xs ! i = x"
  by (auto simp: aget_def)

lemma aget_in [simp]: "i < length xs \<Longrightarrow> aget xs i = Some (xs ! i)"
  by (simp add: aget_def)

lemma aget_out [simp]: "length xs \<le> i \<Longrightarrow> aget xs i = None"
  by (simp add: aget_def)

lemma aset_Some [panic_simps]: "aset xs i v = Some ys \<longleftrightarrow> i < length xs \<and> ys = xs[i := v]"
  by (auto simp: aset_def)

lemma aset_in [simp]: "i < length xs \<Longrightarrow> aset xs i v = Some (xs[i := v])"
  by (simp add: aset_def)

lemma aset_out [simp]: "length xs \<le> i \<Longrightarrow> aset xs i v = None"
  by (simp add: aset_def)

section \<open>Wrap-around arithmetic on usize\<close>

abbreviation usize_range :: nat where
  "usize_range \<equiv> 2 ^ 64"

definition wadd :: "nat \<Rightarrow> nat \<Rightarrow> nat" where
  "wadd a b = (a + b) mod usize_range"

definition wsub :: "nat \<Rightarrow> nat \<Rightarrow> nat" where
  "wsub a b = (a + usize_range - b) mod usize_range"

definition wmul :: "nat \<Rightarrow> nat \<Rightarrow> nat" where
  "wmul a b = (a * b) mod usize_range"

text \<open>Shifts mask their amount when overflow checks are off.\<close>

definition wshr :: "nat \<Rightarrow> nat \<Rightarrow> nat" where
  "wshr a k = drop_bit (k mod 64) a"

definition wshl :: "nat \<Rightarrow> nat \<Rightarrow> nat" where
  "wshl a k = push_bit (k mod 64) a mod usize_range"

lemma wadd_exact [usize_simps, simp]: "a + b < 2 ^ 64 \<Longrightarrow> wadd a b = a + b"
  by (simp add: wadd_def)

lemma wsub_exact [usize_simps, simp]: "b \<le> a \<Longrightarrow> a < 2 ^ 64 \<Longrightarrow> wsub a b = a - b"
proof -
  assume "b \<le> a" and a: "a < 2 ^ 64"
  then have "a + 2 ^ 64 - b = (a - b) + 2 ^ 64" by (simp only: Nat.add_diff_assoc2)
  then have "wsub a b = (a - b) mod 2 ^ 64" by (simp only: wsub_def mod_add_self2)
  also have "\<dots> = a - b" using a by (intro mod_less) linarith
  finally show ?thesis .
qed

lemma wmul_exact [usize_simps, simp]: "a * b < 2 ^ 64 \<Longrightarrow> wmul a b = a * b"
  by (simp add: wmul_def)

lemma wadd_range [simp]: "wadd a b < 2 ^ 64"
  by (simp add: wadd_def)

lemma wsub_range [simp]: "wsub a b < 2 ^ 64"
  by (simp add: wsub_def)

lemma wmul_range [simp]: "wmul a b < 2 ^ 64"
  by (simp add: wmul_def)

lemma wrap_range_numeral [simp]:
  "wadd a b < 18446744073709551616" "wsub a b < 18446744073709551616" "wmul a b < 18446744073709551616"
  using wadd_range [of a b] wsub_range [of a b] wmul_range [of a b] by simp_all

lemma wsub_wrap: "a < b \<Longrightarrow> b < 2 ^ 64 \<Longrightarrow> wsub a b = a + 2 ^ 64 - b"
  by (simp add: wsub_def)

lemma wadd_wsub_cancel: "a < 2 ^ 64 \<Longrightarrow> b < 2 ^ 64 \<Longrightarrow> wsub (wadd a b) b = a"
proof (cases "a + b < 2 ^ 64")
  case True
  then show ?thesis by simp
next
  case False
  assume ab: "a < 2 ^ 64" "b < 2 ^ 64"
  with False have "wadd a b = a + b - 2 ^ 64"
    by (simp add: wadd_def mod_if)
  with ab False show ?thesis by (simp add: wsub_def)
qed

section \<open>Bit counting\<close>

text \<open>\<open>leading_zeros\<close> and \<open>trailing_zeros\<close> of a 64-bit value.\<close>

fun bit_length :: "nat \<Rightarrow> nat" where
  "bit_length n = (if n = 0 then 0 else Suc (bit_length (n div 2)))"

declare bit_length.simps [simp del]

definition leading_zeros :: "nat \<Rightarrow> nat" where
  "leading_zeros n = 64 - bit_length n"

fun ctz :: "nat \<Rightarrow> nat" where
  "ctz n = (if n = 0 then 64 else if odd n then 0 else Suc (ctz (n div 2)))"

declare ctz.simps [simp del]

lemma bit_length_0 [simp]: "bit_length 0 = 0"
  by (simp add: bit_length.simps)

lemma bit_length_pos: "0 < n \<Longrightarrow> bit_length n = Suc (bit_length (n div 2))"
  by (simp add: bit_length.simps)

lemma bit_length_bounds:
  "0 < n \<Longrightarrow> 2 ^ (bit_length n - 1) \<le> n \<and> n < 2 ^ bit_length n"
proof (induction n rule: bit_length.induct)
  case (1 n)
  show ?case
  proof (cases "n div 2 = 0")
    case True
    with "1.prems" have "n = 1" by linarith
    then show ?thesis by (simp add: bit_length_pos)
  next
    case False
    with "1.prems" have IH: "2 ^ (bit_length (n div 2) - 1) \<le> n div 2"
      "n div 2 < 2 ^ bit_length (n div 2)"
      using "1.IH" by auto
    from False have "bit_length (n div 2) \<noteq> 0" by (subst bit_length.simps) simp
    then obtain k where k: "bit_length (n div 2) = Suc k" using not0_implies_Suc by blast
    show ?thesis using IH "1.prems" by (simp add: bit_length_pos k) linarith
  qed
qed

lemma bit_length_unique:
  assumes "2 ^ k \<le> n" and "n < 2 ^ Suc k"
  shows "bit_length n = Suc k"
proof -
  have pos: "0 < n" using assms(1) by (rule less_le_trans [rotated]) simp
  note b = bit_length_bounds [OF pos]
  have "bit_length n \<noteq> 0" using pos by (subst bit_length.simps) simp
  then obtain m where m: "bit_length n = Suc m" using not0_implies_Suc by blast
  from b m have "2 ^ m \<le> n" "n < 2 ^ Suc m" by auto
  with assms have lt: "(2::nat) ^ m < 2 ^ Suc k" "(2::nat) ^ k < 2 ^ Suc m" by linarith+
  have "m < Suc k" using lt(1) by (rule power_less_imp_less_exp [rotated]) simp
  moreover have "k < Suc m" using lt(2) by (rule power_less_imp_less_exp [rotated]) simp
  ultimately show ?thesis using m by simp
qed

lemma bit_length_le: "n < 2 ^ k \<Longrightarrow> bit_length n \<le> k"
proof (cases "n = 0")
  case False
  assume "n < 2 ^ k"
  with False bit_length_bounds [of n] have "(2::nat) ^ (bit_length n - 1) < 2 ^ k" by linarith
  then have "bit_length n - 1 < k" by (simp add: power_strict_increasing_iff)
  then show ?thesis by simp
qed simp

text \<open>\<open>next_power_of_two\<close>, which wraps to 0 above \<open>2 ^ 63\<close> when overflow checks are off.\<close>

definition next_power_of_two :: "nat \<Rightarrow> nat" where
  "next_power_of_two n = (if n \<le> 1 then 1 else 2 ^ bit_length (n - 1) mod usize_range)"

section \<open>Alignment masks\<close>

definition is_pow2 :: "nat \<Rightarrow> bool" where
  "is_pow2 n \<longleftrightarrow> n = 2 ^ (bit_length n - 1)"

lemma is_pow2_power [simp]: "is_pow2 (2 ^ k)"
  by (simp add: is_pow2_def bit_length_unique [of k])

lemma is_pow2_iff: "is_pow2 n \<longleftrightarrow> (\<exists>k. n = 2 ^ k)"
  using is_pow2_power is_pow2_def by blast

lemma is_pow2_pos: "is_pow2 n \<Longrightarrow> 0 < n"
  by (auto simp: is_pow2_iff)

lemma and_mask_mod: "is_pow2 a \<Longrightarrow> x AND (a - 1) = x mod (a::nat)"
proof -
  assume "is_pow2 a"
  then obtain k where "a = 2 ^ k" by (auto simp: is_pow2_iff)
  then have "x AND (a - 1) = x AND mask k" by (simp add: mask_eq_exp_minus_1)
  also have "\<dots> = x mod a" by (simp add: take_bit_eq_mask [symmetric] take_bit_eq_mod \<open>a = 2 ^ k\<close>)
  finally show ?thesis .
qed

text \<open>Clearing the low bits, \<open>x & !(a - 1)\<close>, rounds down to a multiple of a power of two.\<close>

definition align_down :: "nat \<Rightarrow> nat \<Rightarrow> nat" where
  "align_down x a = x - (x AND (a - 1))"

lemma align_down_eq: "is_pow2 a \<Longrightarrow> align_down x a = x div a * a"
  by (simp only: align_down_def and_mask_mod minus_mod_eq_div_mult)

lemma align_down_le: "is_pow2 a \<Longrightarrow> align_down x a \<le> x"
  by (simp add: align_down_eq)

lemma align_down_dvd: "is_pow2 a \<Longrightarrow> a dvd align_down x a"
  by (simp add: align_down_eq)

lemma align_down_gt: "is_pow2 a \<Longrightarrow> x < align_down x a + a"
  using dividend_less_div_times [of a x] is_pow2_pos [of a] by (simp add: align_down_eq add.commute)

section \<open>Pages\<close>

text \<open>The page size of x86-64: the constant of the buddy system, of the free list (\<open>PG_SIZE\<close>) and the one
  \<open>build.rs\<close> writes into \<open>consts.rs\<close>.\<close>

definition PAGE_SIZE :: nat where "PAGE_SIZE = 0x1000"

lemma page_pow2 [simp]: "is_pow2 PAGE_SIZE"
  using is_pow2_power [of 12] by (simp add: PAGE_SIZE_def)

lemma ctz_page [simp]: "ctz PAGE_SIZE = 12"
  by (simp add: PAGE_SIZE_def ctz.simps)

section \<open>Layouts\<close>

text \<open>
  \<open>core::alloc::Layout\<close>: \<open>from_size_align\<close> of the pinned toolchain (nightly-2022-07-01) rejects an
  alignment that is not a power of two and a size whose rounding to it would overflow.
\<close>

record layout =
  lsize :: nat
  lalign :: nat

definition layout_from_size_align :: "nat \<Rightarrow> nat \<Rightarrow> layout option" where
  "layout_from_size_align sz algn =
     (if is_pow2 algn \<and> sz \<le> usize_range - 1 - (algn - 1)
      then Some \<lparr>lsize = sz, lalign = algn\<rparr> else None)"

definition valid_layout :: "layout \<Rightarrow> bool" where
  "valid_layout l \<longleftrightarrow> is_pow2 (lalign l) \<and> lsize l \<le> usize_range - 1 - (lalign l - 1)
     \<and> lalign l < usize_range"

section \<open>Searches in lists\<close>

lemma find_append: "find P (xs @ ys) = (case find P xs of None \<Rightarrow> find P ys | Some x \<Rightarrow> Some x)"
  by (induction xs) auto

lemma find_map_eq: "find P (map f xs) = map_option f (find (\<lambda>x. P (f x)) xs)"
  by (induction xs) auto

lemma find_skip:
  assumes "t \<le> n" and "\<And>i. i < t \<Longrightarrow> \<not> P i"
  shows "find P [0..<n] = find P [t..<n]"
proof -
  have "[0..<n] = [0..<t] @ [t..<n]" using assms(1) upt_add_eq_append [of 0 t "n - t"] by simp
  moreover have "find P [0..<t] = None" using assms(2) by (simp add: find_None_iff)
  ultimately show ?thesis by (simp add: find_append)
qed

lemma filter_skip:
  assumes "t \<le> n" and "\<And>i. i < t \<Longrightarrow> \<not> P i"
  shows "filter P [0..<n] = filter P [t..<n]"
proof -
  have "[0..<n] = [0..<t] @ [t..<n]" using assms(1) upt_add_eq_append [of 0 t "n - t"] by simp
  then show ?thesis using assms(2) by (simp add: filter_empty_conv)
qed

end
