(* ===== verification/SizeClass.thy ===== *)
theory SizeClass
  imports UA_Prelude
begin

text \<open>
  The size classes (\<open>unialloc/src/size_class\<close>), the generator of the page counts in
  \<open>alloc_macros\<close> and the one in \<open>build.rs\<close>. Three tables exist: \<open>tc\<close> (the one compiled by default),
  \<open>mi\<close> (its page counts come from the \<open>generate_num_pages!\<close> macro) and \<open>small\<close> (the feature
  \<open>fixed_heap\<close>). A lookup is \<^term>\<open>None\<close> where the array index panics.
\<close>

section \<open>size\_class/mod.rs\<close>

datatype size_class = Base nat | Large nat

fun index :: "size_class \<Rightarrow> nat" where
  "index (Base cl) = cl"
| "index (Large cl) = cl"

fun inner :: "size_class \<Rightarrow> nat" where
  "inner (Base cl) = cl"
| "inner (Large cl) = cl"

section \<open>tc\_size\_class.rs\<close>

definition TC_MAX_LEN :: nat where "TC_MAX_LEN = 63"

definition TC_MAX_SIZE :: nat where "TC_MAX_SIZE = 28032"

definition IDX_ARRAY :: "nat list" where
  "IDX_ARRAY = [
    0, 1, 2, 3, 4, 5, 6, 7, 8, 9, 10, 11, 12, 13, 14, 15, 16, 17, 17, 18, 18, 19, 19, 20, 20,
    21, 21, 22, 22, 23, 23, 24, 24, 25, 25, 25, 26, 26, 26, 27, 27, 27, 27, 27, 27, 28, 28,
    28, 28, 29, 29, 29, 29, 29, 30, 30, 30, 30, 30, 30, 30, 31, 31, 31, 31, 32, 32, 32, 32,
    32, 32, 32, 32, 33, 33, 33, 33, 33, 33, 33, 33, 34, 34, 34, 34, 34, 34, 34, 34, 35, 35,
    35, 35, 35, 35, 35, 35, 35, 35, 35, 35, 35, 35, 35, 35, 36, 36, 36, 36, 36, 36, 36, 36,
    37, 37, 37, 37, 37, 37, 37, 37, 37, 37, 37, 37, 37, 37, 37, 37, 38, 39, 40, 41, 42, 42,
    43, 43, 44, 45, 46, 47, 47, 47, 47, 48, 48, 49, 49, 49, 50, 50, 50, 50, 51, 51, 51, 51,
    52, 52, 52, 52, 52, 52, 53, 53, 53, 53, 53, 53, 53, 53, 53, 54, 54, 54, 54, 54, 54, 54,
    54, 54, 54, 54, 54, 54, 55, 55, 55, 55, 55, 55, 55, 55, 55, 56, 56, 56, 56, 56, 56, 56,
    56, 56, 56, 56, 56, 57, 57, 57, 57, 57, 57, 57, 57, 57, 57, 57, 57, 57, 57, 57, 57, 57,
    58, 58, 58, 58, 58, 58, 58, 59, 59, 59, 59, 59, 59, 59, 59, 59, 59, 59, 59, 59, 59, 59,
    59, 59, 59, 59, 60, 60, 60, 60, 60, 60, 60, 60, 60, 60, 60, 60, 60, 60, 60, 60, 60, 60,
    60, 60, 60, 61, 61, 61, 61, 61, 61, 61, 61, 61, 61, 61, 61, 61, 61, 61, 61, 61, 61, 61,
    61, 61, 62, 62, 62, 62, 62, 62, 62, 62, 62, 62, 62, 62, 62, 62, 62, 62, 62, 62, 62, 62,
    62, 62, 63, 63, 63, 63, 63, 63, 63, 63, 63, 63, 63, 63, 63, 63, 63, 63, 63, 63, 63, 63,
    63, 63, 63, 63, 63, 63, 63]"

definition TC_SIZE_ARRAY :: "nat list" where
  "TC_SIZE_ARRAY = [
    0, 8, 16, 24, 32, 40, 48, 56, 64, 72, 80, 88, 96, 104, 112, 120, 128, 144, 160, 176, 192,
    208, 224, 240, 256, 280, 304, 352, 384, 424, 480, 512, 576, 640, 704, 832, 896, 1024,
    1152, 1280, 1408, 1536, 1792, 2048, 2176, 2304, 2432, 2944, 3200, 3584, 4096, 4608, 5376,
    6528, 8192, 9344, 10880, 13056, 13952, 16384, 19072, 21760, 24576, 28032]"

definition SIZE_CLASSES :: "nat list" where
  "SIZE_CLASSES = [
    0, 8, 16, 24, 32, 40, 48, 56, 64, 72, 80, 88, 96, 104, 112, 120, 128, 144, 160, 176, 192,
    208, 224, 240, 256, 280, 304, 352, 384, 424, 480, 512, 576, 640, 704, 832, 896, 1024,
    1152, 1280, 1408, 1536, 1792, 2048, 2176, 2304, 2432, 2944, 3200, 3584, 4096, 4608, 5376,
    6528, 8192, 9344, 10880, 13056, 13952, 16384, 19072, 21760, 24576, 28032]"

definition SIZE_CLASS_PAGES :: "nat list" where
  "SIZE_CLASS_PAGES = [
    0, 1, 1, 1, 1, 1, 1, 1, 1, 1, 1, 1, 1, 1, 1, 1, 1, 1, 1, 1, 1, 1, 1, 1, 2, 2, 2, 2, 2, 2,
    2, 4, 4, 4, 4, 4, 4, 8, 8, 8, 8, 8, 8, 16, 16, 16, 16, 16, 16, 16, 32, 32, 32, 32, 64, 64,
    64, 64, 64, 64, 64, 64, 64, 64]"

definition TOTAL_SIZE_CLASS :: nat where "TOTAL_SIZE_CLASS = 64"

definition get_sizeclass_tuple2 :: "nat \<Rightarrow> (size_class \<times> nat) option" where
  "get_sizeclass_tuple2 req_size =
     (if req_size \<le> 1024 then do {
        let idx = drop_bit 3 (req_size + 7);
        new_size_idx \<leftarrow> aget IDX_ARRAY idx;
        new_size \<leftarrow> aget TC_SIZE_ARRAY new_size_idx;
        Some (Base new_size_idx, new_size) }
      else if req_size \<le> TC_MAX_SIZE then do {
        let idx = drop_bit 7 (req_size + 127 + push_bit 7 120);
        new_size_idx \<leftarrow> aget IDX_ARRAY idx;
        new_size \<leftarrow> aget TC_SIZE_ARRAY new_size_idx;
        Some (Base new_size_idx, new_size) }
      else Some (Large req_size, req_size))"

definition get_index_and_size :: "nat \<Rightarrow> (size_class \<times> nat) option" where
  "get_index_and_size req_size = get_sizeclass_tuple2 req_size"

definition get_size_from_idx :: "nat \<Rightarrow> nat option" where
  "get_size_from_idx idx = aget TC_SIZE_ARRAY idx"

definition get_size_class :: "nat \<Rightarrow> size_class option" where
  "get_size_class req = map_option fst (get_sizeclass_tuple2 req)"

definition get_rounded_size_by_idx :: "nat \<Rightarrow> nat option" where
  "get_rounded_size_by_idx idx = aget SIZE_CLASSES idx"

definition get_size_class_by_idx :: "nat \<Rightarrow> nat option" where
  "get_size_class_by_idx idx = aget SIZE_CLASSES idx"

definition get_num_pages_by_idx :: "nat \<Rightarrow> nat option" where
  "get_num_pages_by_idx idx = aget SIZE_CLASS_PAGES idx"

definition get_rounded_size :: "nat \<Rightarrow> nat option" where
  "get_rounded_size sz = do {
     cl \<leftarrow> get_size_class sz;
     let idx = index cl;
     get_rounded_size_by_idx idx }"

definition get_size_class_tuple :: "nat \<Rightarrow> (size_class \<times> nat) option" where
  "get_size_class_tuple sz = do {
     cl \<leftarrow> get_size_class sz;
     s \<leftarrow> get_rounded_size_by_idx (index cl);
     Some (cl, s) }"

text \<open>
  The deprecated \<open>get_size_class_index\<close> is a match over 63 ranges; the model searches the list of the
  ranges in the order of the arms.
\<close>

definition size_class_arms :: "(nat \<times> nat) list" where
  "size_class_arms = [
    (0, 8), (9, 16), (17, 24), (25, 32), (33, 40), (41, 48), (49, 56), (57, 64), (65, 72),
    (73, 80), (81, 88), (89, 96), (97, 104), (105, 112), (113, 120), (121, 128), (129, 144),
    (145, 160), (161, 176), (177, 192), (193, 208), (209, 224), (225, 240), (241, 256),
    (257, 280), (281, 304), (305, 352), (353, 384), (385, 424), (425, 480), (481, 512),
    (513, 576), (577, 640), (641, 704), (705, 832), (833, 896), (897, 1024), (1025, 1152),
    (1153, 1280), (1281, 1408), (1409, 1536), (1537, 1792), (1793, 2048), (2049, 2176),
    (2177, 2304), (2305, 2432), (2433, 2944), (2945, 3200), (3201, 3584), (3585, 4096),
    (4097, 4608), (4609, 5376), (5377, 6528), (6529, 8192), (8193, 9344), (9345, 10880),
    (10881, 13056), (13057, 13952), (13953, 16384), (16385, 19072), (19073, 21760),
    (21761, 24576), (24577, 28032)]"

fun match_arm :: "(nat \<times> nat) list \<Rightarrow> nat \<Rightarrow> nat \<Rightarrow> nat option" where
  "match_arm [] i req = None"
| "match_arm ((lo, hi) # arms) i req =
     (if lo \<le> req \<and> req \<le> hi then Some i else match_arm arms (Suc i) req)"

definition get_size_class_index :: "nat \<Rightarrow> size_class" where
  "get_size_class_index req_size =
     (case match_arm size_class_arms 0 req_size of Some i \<Rightarrow> Base i | None \<Rightarrow> Large req_size)"

text \<open>
  The loop of \<open>binary_search_size\<close>: \<open>left\<close> and \<open>right\<close> are \<open>i32\<close> and stay between \<open>-1\<close> and
  \<open>MAX_LEN\<close>; the division is exact on the non-negative difference.
\<close>

function binary_search_loop :: "nat list \<Rightarrow> nat \<Rightarrow> int \<Rightarrow> int \<Rightarrow> int option" where
  "binary_search_loop arr target left right =
     (if left \<le> right then
        (let mid = left + (right - left) div 2 in
         if mid < 0 then None else do {
           x \<leftarrow> aget arr (nat mid);
           if x < target then binary_search_loop arr target (mid + 1) right
           else if target \<le> x then binary_search_loop arr target left (mid - 1)
           else binary_search_loop arr target left right })
      else Some left)"
  by pat_completeness auto
termination
  by (relation "measure (\<lambda>(arr, target, left, right). nat (right - left + 1))") auto

declare binary_search_loop.simps [simp del]

definition binary_search_size :: "nat list \<Rightarrow> nat \<Rightarrow> nat option option" where
  "binary_search_size arr target =
     (if TC_MAX_SIZE < target then Some None else do {
        left \<leftarrow> binary_search_loop arr target 0 (int TC_MAX_LEN - 1);
        x \<leftarrow> aget arr (nat left);
        if x = target then Some (Some (nat left))
        else Some (Some (wsub (nat left) 1)) })"

section \<open>mi\_size\_class.rs\<close>

definition SZOFUSIZE :: nat where "SZOFUSIZE = 8"

definition MI_TOTAL_SIZE_CLASS :: nat where "MI_TOTAL_SIZE_CLASS = 46"

definition MI_MAX_SIZE :: nat where "MI_MAX_SIZE = 40960"

definition MI_SIZE_ARRAY :: "nat list" where
  "MI_SIZE_ARRAY = [
    8, 8, 16, 24, 32, 40, 48, 56, 64, 80, 96, 112, 128, 160, 192, 224, 256, 320, 384, 448,
    512, 640, 768, 896, 1024, 1280, 1536, 1792, 2048, 2560, 3072, 3584, 4096, 5120, 6144,
    7168, 8192, 10240, 12288, 14336, 16384, 20480, 24576, 28672, 32768, 40960]"

text \<open>\<open>63 - x.leading_zeros()\<close> on \<open>u32\<close>, truncated to \<open>u8\<close>.\<close>

definition bsr :: "nat \<Rightarrow> nat" where
  "bsr x = (63 + 2 ^ 32 - leading_zeros x) mod 2 ^ 32 mod 2 ^ 8"

definition get_num_of_usize :: "nat \<Rightarrow> nat" where
  "get_num_of_usize req =
     (if usize_range - 1 - SZOFUSIZE < req then req div SZOFUSIZE
      else if req mod SZOFUSIZE = 0 then req div SZOFUSIZE
      else (let res = align_down (req + SZOFUSIZE - 1) SZOFUSIZE in res div SZOFUSIZE))"

text \<open>The index formula \<open>((b << 2) + ((n >> (b - 2)) & 0x03) as u8) - 3\<close> of the two lookups, on \<open>u8\<close>.\<close>

definition mi_index :: "nat \<Rightarrow> nat" where
  "mi_index n =
     (let b = bsr n;
          q = (wshr n ((b + 2 ^ 8 - 2) mod 2 ^ 8) AND 3) mod 2 ^ 8
      in (push_bit 2 b mod 2 ^ 8 + q + 2 ^ 8 - 3) mod 2 ^ 8)"

definition get_idx_by_size :: "nat \<Rightarrow> nat" where
  "get_idx_by_size req = (let n = wsub (get_num_of_usize req) 1 in mi_index n)"

definition mi_get_size_class :: "nat \<Rightarrow> size_class" where
  "mi_get_size_class req =
     (if MI_MAX_SIZE < req then Large req
      else let n = get_num_of_usize req in
        if n \<le> 8 then Base n else let n = n - 1 in Base (mi_index n))"

definition mi_get_rounded_size_by_idx :: "nat \<Rightarrow> nat option" where
  "mi_get_rounded_size_by_idx idx = aget MI_SIZE_ARRAY idx"

section \<open>small\_size\_class.rs\<close>

definition SMALL_SIZE_ARRAY :: "nat list" where
  "SMALL_SIZE_ARRAY = [0, 8, 16, 32, 64, 128, 256, 512, 1024, 2048]"

definition SMALL_MAX_SIZE :: nat where "SMALL_MAX_SIZE = 2048"

definition small_get_rounded_size_by_idx :: "nat \<Rightarrow> nat option" where
  "small_get_rounded_size_by_idx idx = aget SMALL_SIZE_ARRAY idx"

definition small_get_size_class_by_idx :: "nat \<Rightarrow> nat option" where
  "small_get_size_class_by_idx idx = aget SMALL_SIZE_ARRAY idx"

definition small_get_num_pages_by_idx :: "nat \<Rightarrow> nat" where
  "small_get_num_pages_by_idx idx = 1"

definition small_get_size_class :: "nat \<Rightarrow> size_class" where
  "small_get_size_class req =
     (let final_size = align_down (wadd req 7) 8 in
      if final_size \<le> SMALL_MAX_SIZE then
        (let idx = ctz final_size in Base (wsub idx 2))
      else Large req)"

definition small_get_rounded_size :: "nat \<Rightarrow> nat option" where
  "small_get_rounded_size sz = small_get_rounded_size_by_idx (index (small_get_size_class sz))"

section \<open>alloc\_macros: gcd, lcm and the generated page counts\<close>

text \<open>
  The arms of \<open>gcd\<close> in their order; in \<open>((x, y), (0, 1)) | ((y, x), (1, 0))\<close> the even operand is bound
  to \<open>x\<close>.
\<close>

function gcd_rs :: "nat \<Rightarrow> nat \<Rightarrow> nat" where
  "gcd_rs a b =
     (if a = b then b
      else if a = 0 then b
      else if b = 0 then a
      else if even a \<and> odd b then gcd_rs (a div 2) b
      else if odd a \<and> even b then gcd_rs (b div 2) a
      else if even a \<and> even b then gcd_rs (a div 2) (b div 2) * 2
      else (let x = min a b; y = max a b in gcd_rs ((y - x) div 2) x))"
  by pat_completeness auto
termination
  by (relation "measure (\<lambda>(a, b). a + b)") (auto simp: min_def max_def elim!: oddE evenE)

declare gcd_rs.simps [simp del]

text \<open>A division by zero panics.\<close>

definition lcm_rs :: "nat \<Rightarrow> nat \<Rightarrow> nat option" where
  "lcm_rs a b = (if gcd_rs a b = 0 then None else Some (wmul a b div gcd_rs a b))"

fun generate_num_pages :: "nat list \<Rightarrow> nat list option" where
  "generate_num_pages [] = Some []"
| "generate_num_pages (cl # cls) = do {
     l \<leftarrow> lcm_rs 4096 cl;
     rest \<leftarrow> generate_num_pages cls;
     Some (l div 4096 # rest) }"

section \<open>build.rs\<close>

definition IDX_BIT :: nat where "IDX_BIT = 32"

definition BUILD_SIZE_ARRAY :: "nat list" where
  "BUILD_SIZE_ARRAY = [
    8, 16, 24, 32, 40, 48, 56, 64, 72, 80, 88, 96, 104, 112, 120, 128, 144, 160, 176, 192,
    208, 224, 240, 256, 280, 304, 352, 384, 424, 480, 512, 576, 640, 704, 832, 896, 1024,
    1152, 1280, 1408, 1536, 1792, 2048, 2176, 2304, 2432, 2944, 3200, 3584, 4096, 4608, 5376,
    6528, 8192, 9344, 10880, 13056, 13952, 16384, 19072, 21760, 24576, 28032]"

text \<open>
  The loop \<open>while ratio < 8 && num_in_pg <= 32\<close> of \<open>calculate_val\<close>; it makes at most seven turns, so
  \<open>pa_size\<close> does not leave the range of a \<open>usize\<close> for a page size.
\<close>

function calculate_loop :: "nat \<Rightarrow> nat \<Rightarrow> nat \<Rightarrow> nat \<Rightarrow> nat" where
  "calculate_loop tar ratio pa_size num_in_pg =
     (if ratio < 8 \<and> num_in_pg \<le> 32 then
        (let ratio = ratio + 1; pa_size = wshl pa_size 1; num_in_pg = pa_size div tar
         in calculate_loop tar ratio pa_size num_in_pg)
      else pa_size)"
  by pat_completeness auto
termination
  by (relation "measure (\<lambda>(tar, ratio, pa_size, num_in_pg). 8 - ratio)") auto

declare calculate_loop.simps [simp del]

definition calculate_val :: "nat \<Rightarrow> nat \<Rightarrow> (nat \<times> nat \<times> nat) option" where
  "calculate_val pg tar =
     (if tar = 0 \<or> pg = 0 then None else
      let num_in_pg = pg div tar in
      if IDX_BIT < num_in_pg then Some ((num_in_pg + IDX_BIT - 1) div IDX_BIT, tar, 1)
      else (let pa_size = wshr (calculate_loop tar 1 pg num_in_pg) 1; num_in_pg = pa_size div tar
            in Some ((num_in_pg + IDX_BIT - 1) div IDX_BIT, tar, pa_size div pg)))"

text \<open>The loop of \<open>generate_sizeclass\<close>: the three generated arrays \<open>IDX_NP\<close>, \<open>OFFSET_ARRAY\<close> and \<open>OFFSET_LIMIT\<close>.\<close>

fun generate_loop :: "nat \<Rightarrow> nat list \<Rightarrow> nat \<Rightarrow> (nat list \<times> nat list \<times> nat list \<times> nat) option" where
  "generate_loop page [] start = Some ([], [], [], start)"
| "generate_loop page (val # vals) start = do {
     (w, tar, ratio) \<leftarrow> calculate_val page val;
     let num = ratio * page div val;
     let start' = (if is_pow2 num then start + 2 * num else start + 2 * next_power_of_two num);
     (nps, offs, lims, final) \<leftarrow> generate_loop page vals start';
     Some (num # nps, start # offs, start' # lims, final) }"

definition generate_sizeclass :: "nat \<Rightarrow> (nat list \<times> nat list \<times> nat list) option" where
  "generate_sizeclass page = do {
     let start = next_power_of_two (length BUILD_SIZE_ARRAY) div 4;
     (nps, offs, lims, final) \<leftarrow> generate_loop page BUILD_SIZE_ARRAY start;
     ensure (final * 8 \<le> 14 * page);
     Some (nps, offs, lims) }"

section \<open>The lookup of the default table\<close>

lemma tc_table_small:
  "list_all (\<lambda>(i, k). k < 64 \<and> 8 * i \<le> TC_SIZE_ARRAY ! k \<and> (0 < k \<longrightarrow> TC_SIZE_ARRAY ! (k - 1) + 8 \<le> 8 * i))
     (enumerate 0 (take 129 IDX_ARRAY))"
  by (simp add: IDX_ARRAY_def TC_SIZE_ARRAY_def)

lemma tc_table_large:
  "list_all (\<lambda>(i, k). 0 < k \<and> k < 64 \<and> 128 * i \<le> TC_SIZE_ARRAY ! k + 15360 \<and> TC_SIZE_ARRAY ! (k - 1) + 15488 \<le> 128 * i)
     (enumerate 129 (drop 129 IDX_ARRAY))"
  by (simp add: IDX_ARRAY_def TC_SIZE_ARRAY_def)

lemma tc_sizes_sorted: "sorted_wrt (<) TC_SIZE_ARRAY"
  by (simp add: TC_SIZE_ARRAY_def)

lemma tc_lengths [simp]:
  "length IDX_ARRAY = 340" "length TC_SIZE_ARRAY = 64" "length SIZE_CLASSES = 64"
  "length SIZE_CLASS_PAGES = 64"
  by (simp_all add: IDX_ARRAY_def TC_SIZE_ARRAY_def SIZE_CLASSES_def SIZE_CLASS_PAGES_def)

lemma size_classes_eq: "SIZE_CLASSES = TC_SIZE_ARRAY"
  by (simp add: SIZE_CLASSES_def TC_SIZE_ARRAY_def)

lemma tc_idx_small:
  assumes "i < 129"
  shows "IDX_ARRAY ! i < 64" and "8 * i \<le> TC_SIZE_ARRAY ! (IDX_ARRAY ! i)"
    and "0 < IDX_ARRAY ! i \<Longrightarrow> TC_SIZE_ARRAY ! (IDX_ARRAY ! i - 1) + 8 \<le> 8 * i"
proof -
  have "(i, IDX_ARRAY ! i) \<in> set (enumerate 0 (take 129 IDX_ARRAY))"
    using assms by (auto simp: in_set_enumerate_eq)
  with tc_table_small show "IDX_ARRAY ! i < 64" "8 * i \<le> TC_SIZE_ARRAY ! (IDX_ARRAY ! i)"
    "0 < IDX_ARRAY ! i \<Longrightarrow> TC_SIZE_ARRAY ! (IDX_ARRAY ! i - 1) + 8 \<le> 8 * i"
    by (auto simp: list_all_iff dest!: bspec)
qed

lemma tc_idx_large:
  assumes "129 \<le> i" and "i < 340"
  shows "0 < IDX_ARRAY ! i" and "IDX_ARRAY ! i < 64"
    and "128 * i \<le> TC_SIZE_ARRAY ! (IDX_ARRAY ! i) + 15360"
    and "TC_SIZE_ARRAY ! (IDX_ARRAY ! i - 1) + 15488 \<le> 128 * i"
proof -
  have "(i, IDX_ARRAY ! i) \<in> set (enumerate 129 (drop 129 IDX_ARRAY))"
    using assms by (auto simp: in_set_enumerate_eq)
  with tc_table_large show "0 < IDX_ARRAY ! i" "IDX_ARRAY ! i < 64"
    "128 * i \<le> TC_SIZE_ARRAY ! (IDX_ARRAY ! i) + 15360"
    "TC_SIZE_ARRAY ! (IDX_ARRAY ! i - 1) + 15488 \<le> 128 * i"
    by (auto simp: list_all_iff dest!: bspec)
qed

text \<open>What a size-class lookup promises: the least class that holds the request.\<close>

definition least_class :: "nat list \<Rightarrow> nat \<Rightarrow> nat \<Rightarrow> bool" where
  "least_class sizes req k \<longleftrightarrow> k < length sizes \<and> req \<le> sizes ! k \<and> (\<forall>j < k. sizes ! j < req)"

lemma least_class_unique: "least_class sizes req k \<Longrightarrow> least_class sizes req k' \<Longrightarrow> k = k'"
  unfolding least_class_def by (meson leD linorder_neqE_nat)

lemma least_class_by_pred:
  assumes "sorted_wrt (<) sizes" and "k < length sizes" and "req \<le> sizes ! k"
    and "0 < k \<Longrightarrow> sizes ! (k - 1) < req"
  shows "least_class sizes req k"
proof -
  have "sizes ! j < req" if "j < k" for j
  proof -
    have "sizes ! j \<le> sizes ! (k - 1)"
      using that assms(1,2) by (cases "j = k - 1") (auto simp: sorted_wrt_iff_nth_less less_imp_le)
    with assms(4) that show ?thesis by linarith
  qed
  with assms show ?thesis by (simp add: least_class_def)
qed

lemma tuple2_small:
  assumes "req \<le> 1024"
  shows "get_sizeclass_tuple2 req = Some (Base (IDX_ARRAY ! ((req + 7) div 8)),
           TC_SIZE_ARRAY ! (IDX_ARRAY ! ((req + 7) div 8)))"
    and "least_class TC_SIZE_ARRAY req (IDX_ARRAY ! ((req + 7) div 8))"
proof -
  let ?i = "(req + 7) div 8"
  have i: "?i < 129" and r: "req \<le> 8 * ?i" "8 * ?i < req + 8" using assms by auto
  note t = tc_idx_small [OF i]
  show "get_sizeclass_tuple2 req = Some (Base (IDX_ARRAY ! ?i), TC_SIZE_ARRAY ! (IDX_ARRAY ! ?i))"
    using assms i t(1) by (simp add: get_sizeclass_tuple2_def drop_bit_eq_div)
  show "least_class TC_SIZE_ARRAY req (IDX_ARRAY ! ?i)"
    using t r by (intro least_class_by_pred tc_sizes_sorted) auto
qed

lemma tuple2_large:
  assumes "1024 < req" and "req \<le> TC_MAX_SIZE"
  shows "get_sizeclass_tuple2 req = Some (Base (IDX_ARRAY ! ((req + 15487) div 128)),
           TC_SIZE_ARRAY ! (IDX_ARRAY ! ((req + 15487) div 128)))"
    and "least_class TC_SIZE_ARRAY req (IDX_ARRAY ! ((req + 15487) div 128))"
proof -
  let ?i = "(req + 15487) div 128"
  have i: "129 \<le> ?i" "?i < 340" and r: "req + 15360 \<le> 128 * ?i" "128 * ?i < req + 15488"
    using assms by (auto simp: TC_MAX_SIZE_def)
  note t = tc_idx_large [OF i]
  show "get_sizeclass_tuple2 req = Some (Base (IDX_ARRAY ! ?i), TC_SIZE_ARRAY ! (IDX_ARRAY ! ?i))"
  proof -
    have "drop_bit 7 (req + 127 + push_bit 7 120) = ?i"
      by (simp add: drop_bit_eq_div push_bit_eq_mult add.commute)
    with assms i t(2) show ?thesis by (simp only: get_sizeclass_tuple2_def) simp
  qed
  show "least_class TC_SIZE_ARRAY req (IDX_ARRAY ! ?i)"
    using t r by (intro least_class_by_pred tc_sizes_sorted) auto
qed

lemma tuple2_least:
  assumes "req \<le> TC_MAX_SIZE"
  obtains k where "get_sizeclass_tuple2 req = Some (Base k, TC_SIZE_ARRAY ! k)"
    and "least_class TC_SIZE_ARRAY req k"
  using tuple2_small [of req] tuple2_large [of req] assms by (cases "req \<le> 1024") auto

text \<open>C32: The table lookup of the size class never panics: for a request of at most 28032 bytes it is the least class
  that holds the request, with the size of that class; a greater request is \<open>Large\<close> and keeps its size.\<close>

theorem tc_lookup_least_class:
  "get_sizeclass_tuple2 req =
     (if req \<le> TC_MAX_SIZE then
        (let k = (LEAST k. req \<le> TC_SIZE_ARRAY ! k) in Some (Base k, TC_SIZE_ARRAY ! k))
      else Some (Large req, req))
   \<and> (req \<le> TC_MAX_SIZE \<longrightarrow> least_class TC_SIZE_ARRAY req (LEAST k. req \<le> TC_SIZE_ARRAY ! k))"
proof (cases "req \<le> TC_MAX_SIZE")
  case True
  then obtain k where k: "get_sizeclass_tuple2 req = Some (Base k, TC_SIZE_ARRAY ! k)"
    and l: "least_class TC_SIZE_ARRAY req k" by (rule tuple2_least)
  from l have "(LEAST k. req \<le> TC_SIZE_ARRAY ! k) = k"
    by (intro Least_equality) (auto simp: least_class_def not_le [symmetric])
  with k l True show ?thesis by (simp add: Let_def)
next
  case False
  then show ?thesis by (simp add: get_sizeclass_tuple2_def TC_MAX_SIZE_def)
qed

theorem tc_lookup_least_class_witness:
  "get_sizeclass_tuple2 100 =
     (if 100 \<le> TC_MAX_SIZE then
        (let k = (LEAST k. 100 \<le> TC_SIZE_ARRAY ! k) in Some (Base k, TC_SIZE_ARRAY ! k))
      else Some (Large 100, 100))
   \<and> least_class TC_SIZE_ARRAY 100 (LEAST k. 100 \<le> TC_SIZE_ARRAY ! k)"
  using tc_lookup_least_class [of 100] by (simp add: TC_MAX_SIZE_def)

section \<open>The deprecated index and the binary search\<close>

lemma match_arm_Some:
  "match_arm arms i req = Some k \<Longrightarrow> i \<le> k \<and> k - i < length arms \<and>
     fst (arms ! (k - i)) \<le> req \<and> req \<le> snd (arms ! (k - i))"
  by (induction arms i req rule: match_arm.induct)
     (force split: if_splits simp: nth_Cons' Suc_diff_le)+

lemma match_arm_None:
  "match_arm arms i req = None \<Longrightarrow> a \<in> set arms \<Longrightarrow> \<not> (fst a \<le> req \<and> req \<le> snd a)"
  by (induction arms i req rule: match_arm.induct) (auto split: if_splits)

lemma arms_shape:
  "map snd size_class_arms = tl TC_SIZE_ARRAY"
  "map fst size_class_arms = 0 # map Suc (butlast (tl TC_SIZE_ARRAY))"
  by (simp_all add: size_class_arms_def TC_SIZE_ARRAY_def)

lemma arms_length [simp]: "length size_class_arms = 63"
  by (simp add: size_class_arms_def)

lemma arm_snd: "k < 63 \<Longrightarrow> snd (size_class_arms ! k) = TC_SIZE_ARRAY ! Suc k"
  using arg_cong [OF arms_shape(1), of "\<lambda>l. l ! k"] by (simp add: nth_tl)

lemma arm_fst: "k < 63 \<Longrightarrow> fst (size_class_arms ! k) = (if k = 0 then 0 else Suc (TC_SIZE_ARRAY ! k))"
  using arg_cong [OF arms_shape(2), of "\<lambda>l. l ! k"]
  by (cases k) (auto simp: nth_butlast nth_tl)

lemma tc_ends: "TC_SIZE_ARRAY ! 0 = 0" "TC_SIZE_ARRAY ! 63 = 28032" "TC_SIZE_ARRAY ! 1 = 8"
  by (simp_all add: TC_SIZE_ARRAY_def)

text \<open>The deprecated chain of comparisons, for every positive request, gives the class of the table lookup
  less one: it numbers the classes from 0 for 8 bytes, where the table in use has class 0 for the empty request.\<close>

theorem deprecated_index_is_one_below:
  assumes "0 < req"
  shows "get_size_class req =
    Some (case get_size_class_index req of Base k \<Rightarrow> Base (Suc k) | Large r \<Rightarrow> Large r)"
proof (cases "req \<le> TC_MAX_SIZE")
  case True
  then obtain k where k: "get_sizeclass_tuple2 req = Some (Base k, TC_SIZE_ARRAY ! k)"
    and l: "least_class TC_SIZE_ARRAY req k" by (rule tuple2_least)
  from l assms have kpos: "0 < k" by (cases k) (auto simp: least_class_def tc_ends)
  have k64: "k < 64" using l by (simp add: least_class_def)
  define j where "j = k - 1"
  have j: "j < 63" "k = Suc j" using kpos k64 by (auto simp: j_def)
  have "fst (size_class_arms ! j) \<le> req" "req \<le> snd (size_class_arms ! j)"
    using l j by (auto simp: arm_fst arm_snd least_class_def Suc_le_eq)
  moreover have "size_class_arms ! j \<in> set size_class_arms" using j by simp
  ultimately obtain i where i: "match_arm size_class_arms 0 req = Some i"
    using match_arm_None by blast
  from match_arm_Some [OF i] have "i < 63" and lo: "fst (size_class_arms ! i) \<le> req"
    and hi: "req \<le> snd (size_class_arms ! i)" by auto
  have "least_class TC_SIZE_ARRAY req (Suc i)"
    using \<open>i < 63\<close> lo hi assms
    by (intro least_class_by_pred tc_sizes_sorted) (auto simp: arm_fst arm_snd tc_ends Suc_le_eq split: if_splits)
  with l have "Suc i = k" by (rule least_class_unique [symmetric])
  with i k show ?thesis by (simp add: get_size_class_def get_size_class_index_def)
next
  case False
  have "match_arm size_class_arms 0 req = None"
  proof (rule ccontr)
    assume "match_arm size_class_arms 0 req \<noteq> None"
    then obtain i where "match_arm size_class_arms 0 req = Some i" by auto
    from match_arm_Some [OF this] have "i < 63" "req \<le> TC_SIZE_ARRAY ! Suc i"
      by (auto simp: arm_snd)
    moreover have "TC_SIZE_ARRAY ! Suc i \<le> TC_SIZE_ARRAY ! 63"
      using \<open>i < 63\<close> tc_sizes_sorted by (cases "i = 62") (auto simp: sorted_wrt_iff_nth_less less_imp_le)
    ultimately show False using False by (simp add: tc_ends TC_MAX_SIZE_def)
  qed
  with False show ?thesis
    by (simp add: get_size_class_def get_size_class_index_def get_sizeclass_tuple2_def TC_MAX_SIZE_def)
qed

theorem deprecated_index_is_one_below_witness:
  "get_size_class 100 =
    Some (case get_size_class_index 100 of Base k \<Rightarrow> Base (Suc k) | Large r \<Rightarrow> Large r)"
  by (rule deprecated_index_is_one_below) simp

text \<open>The search keeps everything below \<open>left\<close> under the target and everything above \<open>right\<close> at or over it.\<close>

lemma binary_search_loop_correct:
  assumes "sorted arr" and "0 \<le> left" and "left \<le> right + 1" and "right \<le> H" and "H < int (length arr)"
    and "\<forall>i. int i < left \<longrightarrow> arr ! i < target"
    and "\<forall>i. right < int i \<and> int i \<le> H \<longrightarrow> target \<le> arr ! i"
  shows "\<exists>l. binary_search_loop arr target left right = Some l \<and> 0 \<le> l \<and> l \<le> H + 1 \<and>
     (\<forall>i. int i < l \<longrightarrow> arr ! i < target) \<and> (\<forall>i. l \<le> int i \<and> int i \<le> H \<longrightarrow> target \<le> arr ! i)"
  using assms
proof (induction arr target left right rule: binary_search_loop.induct)
  case (1 arr target left right)
  show ?case
  proof (cases "left \<le> right")
    case False
    with "1.prems" show ?thesis by (subst binary_search_loop.simps) auto
  next
    case True
    define mid where "mid = left + (right - left) div 2"
    have mid: "left \<le> mid" "mid \<le> right" "0 \<le> mid" using True "1.prems" by (auto simp: mid_def)
    then have in_range: "nat mid < length arr" using "1.prems" by linarith
    note step = binary_search_loop.simps [of arr target left right, folded mid_def]
    show ?thesis
    proof (cases "arr ! nat mid < target")
      case lt: True
      have "\<forall>i. int i < mid + 1 \<longrightarrow> arr ! i < target"
      proof (intro allI impI)
        fix i assume "int i < mid + 1"
        then have "i \<le> nat mid" by linarith
        then have "arr ! i \<le> arr ! nat mid" using "1.prems"(1) in_range by (intro sorted_nth_mono)
        with lt show "arr ! i < target" by simp
      qed
      then have "\<exists>l. binary_search_loop arr target (mid + 1) right = Some l \<and> 0 \<le> l \<and> l \<le> H + 1 \<and>
         (\<forall>i. int i < l \<longrightarrow> arr ! i < target) \<and> (\<forall>i. l \<le> int i \<and> int i \<le> H \<longrightarrow> target \<le> arr ! i)"
        using mid True in_range lt "1.prems" "1.IH"(1) [OF True mid_def, of "arr ! nat mid"] by auto
      with step True mid in_range lt show ?thesis by (simp add: Let_def mid_def)
    next
      case ge: False
      have "\<forall>i. mid - 1 < int i \<and> int i \<le> H \<longrightarrow> target \<le> arr ! i"
      proof (intro allI impI)
        fix i assume i: "mid - 1 < int i \<and> int i \<le> H"
        then have "nat mid \<le> i" "i < length arr" using mid "1.prems"(5) by linarith+
        then have "arr ! nat mid \<le> arr ! i" using "1.prems"(1) by (intro sorted_nth_mono)
        with ge show "target \<le> arr ! i" by simp
      qed
      then have "\<exists>l. binary_search_loop arr target left (mid - 1) = Some l \<and> 0 \<le> l \<and> l \<le> H + 1 \<and>
         (\<forall>i. int i < l \<longrightarrow> arr ! i < target) \<and> (\<forall>i. l \<le> int i \<and> int i \<le> H \<longrightarrow> target \<le> arr ! i)"
        using mid True in_range ge "1.prems" "1.IH"(2) [OF True mid_def, of "arr ! nat mid"] by auto
      with step True mid in_range ge show ?thesis by (simp add: Let_def mid_def)
    qed
  qed
qed

text \<open>The binary search over 64 increasing sizes ends without an index out of range and returns the last size that is
  at most the request: unlike every other lookup it rounds down.\<close>

theorem binary_search_rounds_down:
  assumes "sorted_wrt (<) arr" and "length arr = 64" and "arr ! 0 \<le> target" and "target \<le> TC_MAX_SIZE"
    and "target \<le> arr ! 63"
  shows "\<exists>k < 64. binary_search_size arr target = Some (Some k) \<and> arr ! k \<le> target
     \<and> (\<forall>j. k < j \<and> j < 64 \<longrightarrow> target < arr ! j)"
proof -
  have sorted: "sorted arr" using assms(1) by (rule strict_sorted_imp_sorted)
  have mono: "arr ! i < arr ! j" if "i < j" "j < 64" for i j
    using assms(1,2) that by (simp add: sorted_wrt_iff_nth_less)
  obtain l where l: "binary_search_loop arr target 0 (int TC_MAX_LEN - 1) = Some l" "0 \<le> l" "l \<le> 63"
    and below: "\<forall>i. int i < l \<longrightarrow> arr ! i < target"
    and above: "\<forall>i. l \<le> int i \<and> int i \<le> 62 \<longrightarrow> target \<le> arr ! i"
    using binary_search_loop_correct [OF sorted, of 0 "int TC_MAX_LEN - 1" 62 target] assms(2)
    by (auto simp: TC_MAX_LEN_def)
  define n where "n = nat l"
  have n: "n < 64" using l by (simp add: n_def)
  have above': "target \<le> arr ! j" if "n \<le> j" "j < 64" for j
    using above assms(5) that l by (cases "j = 63") (auto simp: n_def)
  show ?thesis
  proof (cases "arr ! n = target")
    case True
    have "binary_search_size arr target = Some (Some n)"
      using l n True assms(2,4) by (simp add: binary_search_size_def n_def)
    moreover have "\<forall>j. n < j \<and> j < 64 \<longrightarrow> target < arr ! j"
      using True mono by auto
    ultimately show ?thesis using n True by auto
  next
    case False
    have "target < arr ! n" using False above' [of n] n by auto
    then have "n \<noteq> 0" using assms(3) by (cases n) auto
    then have "arr ! (n - 1) < target" using below l by (auto simp: n_def)
    moreover have "binary_search_size arr target = Some (Some (n - 1))"
      using l n False assms(2,4) \<open>n \<noteq> 0\<close> by (simp add: binary_search_size_def n_def)
    moreover have "\<forall>j. n - 1 < j \<and> j < 64 \<longrightarrow> target < arr ! j"
    proof (intro allI impI)
      fix j assume j: "n - 1 < j \<and> j < 64"
      then have "n \<le> j" using \<open>n \<noteq> 0\<close> by linarith
      with j show "target < arr ! j"
        using \<open>target < arr ! n\<close> mono [of n j] by (cases "j = n") auto
    qed
    ultimately show ?thesis using n by (intro exI [of _ "n - 1"]) auto
  qed
qed

theorem binary_search_rounds_down_witness:
  "\<exists>k < 64. binary_search_size TC_SIZE_ARRAY 100 = Some (Some k) \<and> TC_SIZE_ARRAY ! k \<le> 100
     \<and> (\<forall>j. k < j \<and> j < 64 \<longrightarrow> 100 < TC_SIZE_ARRAY ! j)"
  by (rule binary_search_rounds_down) (simp_all add: TC_SIZE_ARRAY_def TC_MAX_SIZE_def)

section \<open>The binary gcd and the generated page counts\<close>

lemma odd_half_gcd: "odd (b::nat) \<Longrightarrow> gcd (2 * a) b = gcd a b"
  by (simp add: gcd_mult_left_left_cancel gcd_mult_left_right_cancel)

text \<open>The binary gcd of the macro crate ends on every input, also on zeroes, and is the greatest common divisor.\<close>

theorem gcd_rs_is_gcd: "gcd_rs a b = gcd a b"
proof (induction a b rule: gcd_rs.induct)
  case (1 a b)
  note step = gcd_rs.simps [of a b]
  consider (eq) "a = b" | (az) "a \<noteq> b" "a = 0" | (bz) "a \<noteq> b" "a \<noteq> 0" "b = 0"
    | (eo) "a \<noteq> b" "a \<noteq> 0" "b \<noteq> 0" "even a" "odd b"
    | (oe) "a \<noteq> b" "a \<noteq> 0" "b \<noteq> 0" "odd a" "even b"
    | (ee) "a \<noteq> b" "a \<noteq> 0" "b \<noteq> 0" "even a" "even b"
    | (oo) "a \<noteq> b" "a \<noteq> 0" "b \<noteq> 0" "odd a" "odd b" by blast
  then show ?case
  proof cases
    case eo
    then obtain k where k: "a = 2 * k" by blast
    have "gcd_rs (a div 2) b = gcd (a div 2) b" using "1.IH"(1) eo by simp
    with step eo k show ?thesis by (simp add: odd_half_gcd)
  next
    case oe
    then obtain k where k: "b = 2 * k" by blast
    have "gcd_rs (b div 2) a = gcd (b div 2) a" using "1.IH"(2) oe by simp
    moreover have "gcd k a = gcd a b" using oe k odd_half_gcd [of a k] by (simp add: gcd.commute)
    ultimately show ?thesis using step oe k by simp
  next
    case ee
    then obtain k m where k: "a = 2 * k" "b = 2 * m" by blast
    have "gcd_rs (a div 2) (b div 2) = gcd (a div 2) (b div 2)" using "1.IH"(3) ee by simp
    with step ee k show ?thesis by (simp add: gcd_mult_distrib_nat [of 2, symmetric])
  next
    case oo
    define x y where "x = min a b" and "y = max a b"
    have xy: "x \<le> y" "odd x" "odd y" using oo by (auto simp: x_def y_def min_def max_def)
    then have ev: "even (y - x)" by simp
    have "gcd_rs ((y - x) div 2) x = gcd ((y - x) div 2) x"
      using "1.IH"(4) oo by (simp add: x_def y_def)
    also have "\<dots> = gcd (y - x) x"
      using ev xy odd_half_gcd [of x "(y - x) div 2"] by simp
    also have "\<dots> = gcd y x" using xy by (simp add: gcd_diff1_nat)
    also have "\<dots> = gcd a b" by (auto simp: x_def y_def min_def max_def gcd.commute)
    finally show ?thesis using step oo by (simp add: Let_def x_def y_def)
  qed (use step in auto)
qed

lemma lcm_rs_eq: "0 < a \<or> 0 < b \<Longrightarrow> a * b < 2 ^ 64 \<Longrightarrow> lcm_rs a b = Some (lcm a b)"
  by (auto simp: lcm_rs_def gcd_rs_is_gcd lcm_nat_def)

text \<open>
  Every class gets the least number of 4096-byte pages that it divides: no chunk crosses the end of
  its run of pages.
\<close>

definition fits_exactly :: "nat \<Rightarrow> nat \<Rightarrow> bool" where
  "fits_exactly cl pages \<longleftrightarrow> 0 < pages \<and> cl dvd pages * 4096 \<and>
     (\<forall>p. 0 < p \<and> cl dvd p * 4096 \<longrightarrow> pages \<le> p)"

lemma lcm_fits_exactly: "0 < cl \<Longrightarrow> fits_exactly cl (lcm 4096 cl div 4096)"
proof -
  assume cl: "0 < cl"
  have d: "lcm 4096 cl div 4096 * 4096 = lcm 4096 cl" by (simp add: dvd_div_mult_self)
  have "0 < lcm 4096 cl" using cl by (simp add: lcm_pos_nat)
  then have pos: "0 < lcm 4096 cl div 4096" using d by (metis gr0I mult_0 less_irrefl)
  have "lcm 4096 cl div 4096 \<le> p" if "0 < p" "cl dvd p * 4096" for p
  proof -
    have "lcm 4096 cl dvd p * 4096" using that by simp
    then have "lcm 4096 cl \<le> p * 4096" using that by (intro dvd_imp_le) auto
    with d show ?thesis by (metis mult_le_cancel2 zero_less_numeral)
  qed
  with pos d show ?thesis by (simp add: fits_exactly_def)
qed

text \<open>The generated page count of a size class is the least number of pages that the class divides, so that a slab
  of that many pages is cut into objects with nothing left.\<close>

theorem generated_pages_fit:
  assumes "\<forall>cl \<in> set cls. 0 < cl \<and> cl < 2 ^ 52"
  shows "\<exists>pages. generate_num_pages cls = Some pages \<and> list_all2 fits_exactly cls pages"
  using assms
proof (induction cls)
  case (Cons cl cls)
  then obtain pages where "generate_num_pages cls = Some pages" "list_all2 fits_exactly cls pages"
    by auto
  moreover have "lcm_rs 4096 cl = Some (lcm 4096 cl)" using Cons.prems by (intro lcm_rs_eq) auto
  ultimately show ?case using Cons.prems lcm_fits_exactly [of cl] by simp
qed simp

theorem generated_pages_fit_witness:
  "\<exists>pages. generate_num_pages MI_SIZE_ARRAY = Some pages \<and> list_all2 fits_exactly MI_SIZE_ARRAY pages"
  by (rule generated_pages_fit) (simp add: MI_SIZE_ARRAY_def)

section \<open>The mi table\<close>

lemma num_of_usize_ceil: "req \<le> MI_MAX_SIZE \<Longrightarrow> get_num_of_usize req = (req + 7) div 8"
proof -
  assume "req \<le> MI_MAX_SIZE"
  then have r: "req \<le> 40960" by (simp add: MI_MAX_SIZE_def)
  have pow: "is_pow2 8" using is_pow2_power [of 3] by simp
  have "req mod 8 = 0 \<Longrightarrow> req div 8 = (req + 7) div 8" by presburger
  then show ?thesis using r pow
    by (auto simp: get_num_of_usize_def SZOFUSIZE_def Let_def align_down_eq)
qed

lemma bsr_eq: "2 ^ k \<le> x \<Longrightarrow> x < 2 ^ Suc k \<Longrightarrow> k < 64 \<Longrightarrow> bsr x = k"
proof -
  assume a: "2 ^ k \<le> x" "x < 2 ^ Suc k" "k < 64"
  from a(1,2) have "bit_length x = Suc k" by (rule bit_length_unique)
  then have "leading_zeros x = 63 - k" using a(3) by (simp add: leading_zeros_def)
  then have "bsr x = (k + 2 ^ 32) mod 2 ^ 32 mod 2 ^ 8" using a(3) by (simp add: bsr_def)
  then show ?thesis using a(3) by simp
qed

lemma mi_index_eq:
  assumes "2 ^ b \<le> n" and "n < 2 ^ Suc b" and "3 \<le> b" and "b \<le> 12"
  shows "mi_index n = 4 * b + (n div 2 ^ (b - 2)) mod 4 - 3"
proof -
  have b: "bsr n = b" using assms by (intro bsr_eq) auto
  have "wshr n ((b + 2 ^ 8 - 2) mod 2 ^ 8) = n div 2 ^ (b - 2)"
  proof -
    have "(b + 2 ^ 8 - 2) mod 2 ^ 8 = b - 2" using assms by (simp add: mod_if)
    then show ?thesis using assms by (simp add: wshr_def drop_bit_eq_div)
  qed
  moreover have "x AND 3 = x mod 4" for x :: nat
    using and_mask_mod [of 4 x] is_pow2_power [of 2] by simp
  moreover have "push_bit 2 b mod 2 ^ 8 = 4 * b" using assms by (simp add: push_bit_eq_mult)
  ultimately have "mi_index n = (4 * b + (n div 2 ^ (b - 2)) mod 4 + 2 ^ 8 - 3) mod 2 ^ 8"
    by (simp add: mi_index_def Let_def b)
  moreover have "(n div 2 ^ (b - 2)) mod 4 \<le> 3" by linarith
  moreover have "(m + 2 ^ 8 - 3) mod 2 ^ 8 = m - 3" if "3 \<le> m" "m < 100" for m :: nat
    using that by (simp add: mod_if)
  ultimately show ?thesis using assms by simp
qed

text \<open>The class with index \<open>4 b + q - 3\<close> holds \<open>(5 + q) 2^(b - 2)\<close> words.\<close>

lemma mi_table:
  "\<forall>b \<in> set [3..<13]. \<forall>q \<in> set [0..<4]. 4 * b + q - 3 < 46 \<longrightarrow>
     MI_SIZE_ARRAY ! (4 * b + q - 3) = (5 + q) * 2 ^ (b - 2) * 8 \<and>
     MI_SIZE_ARRAY ! (4 * b + q - 3 - 1) = (4 + q) * 2 ^ (b - 2) * 8"
  by (simp add: MI_SIZE_ARRAY_def upt_rec)

lemma mi_small_table: "\<forall>n \<in> set [1..<9]. MI_SIZE_ARRAY ! n = n * 8"
  by (simp add: MI_SIZE_ARRAY_def upt_rec)

lemma mi_length [simp]: "length MI_SIZE_ARRAY = 46"
  by (simp add: MI_SIZE_ARRAY_def)

lemma mi_large_lookup:
  assumes "9 \<le> n" and "n \<le> 5120"
  obtains k where "k = mi_index (n - 1)" "8 < k" "k < 46" "n * 8 \<le> MI_SIZE_ARRAY ! k"
    "MI_SIZE_ARRAY ! (k - 1) \<le> (n - 1) * 8"
proof -
  define m where "m = n - 1"
  have m: "8 \<le> m" "m \<le> 5119" "n = Suc m" using assms by (auto simp: m_def)
  define b where "b = bit_length m - 1"
  have pos: "0 < m" using m by simp
  have "bit_length m \<noteq> 0" using pos by (simp add: bit_length_pos)
  then have bs: "bit_length m = Suc b" by (simp add: b_def)
  have b: "2 ^ b \<le> m" "m < 2 ^ Suc b" using bit_length_bounds [OF pos] by (auto simp: bs)
  have "(2::nat) ^ 3 < 2 ^ Suc b" using m b by simp
  then have b3: "3 \<le> b" using power_less_imp_less_exp [of "2::nat" 3 "Suc b"] by linarith
  have "(2::nat) ^ b < 2 ^ 13" using m b by simp
  then have b12: "b \<le> 12" using power_less_imp_less_exp [of "2::nat" b 13] by linarith
  define p where "p = b - 2"
  have p: "b = p + 2" using b3 by (simp add: p_def)
  have pw: "(2::nat) ^ b = 4 * 2 ^ p" "(2::nat) ^ Suc b = 8 * 2 ^ p" by (simp_all add: p power_add)
  define q where "q = m div 2 ^ p - 4"
  have "4 \<le> m div 2 ^ p" using b(1) by (simp add: pw less_eq_div_iff_mult_less_eq)
  moreover have "m div 2 ^ p < 8" using b(2) by (simp add: pw less_mult_imp_div_less)
  ultimately have q: "m div 2 ^ p = 4 + q" "q < 4" by (auto simp: q_def)
  have "m div 2 ^ p mod 4 = q" using q by simp
  then have k: "mi_index m = 4 * b + q - 3" using mi_index_eq [OF b b3 b12] by (simp add: p_def)
  have "m div 2 ^ p * 2 ^ p \<le> m" by simp
  then have lo: "(4 + q) * 2 ^ p \<le> m" by (simp only: q(1))
  have "m < m div 2 ^ p * 2 ^ p + 2 ^ p"
    using dividend_less_div_times [of "2 ^ p" m] by (simp add: add.commute)
  then have hi: "m < (5 + q) * 2 ^ p" by (simp add: q(1) algebra_simps)
  have k46: "4 * b + q - 3 < 46"
  proof (rule ccontr)
    assume "\<not> ?thesis"
    with b12 q(2) have "b = 12" "1 \<le> q" by linarith+
    then have "5 * 2 ^ 10 \<le> (4 + q) * 2 ^ p" by (simp add: p_def)
    with lo m show False by simp
  qed
  have "b \<in> set [3..<13]" "q \<in> set [0..<4]" using b3 b12 q(2) unfolding set_upt by auto
  note entry = mi_table [rule_format, OF this k46]
  then have "MI_SIZE_ARRAY ! (4 * b + q - 3) = (5 + q) * 2 ^ p * 8"
    "MI_SIZE_ARRAY ! (4 * b + q - 3 - 1) = (4 + q) * 2 ^ p * 8"
    unfolding p_def by simp_all
  moreover have "8 < 4 * b + q - 3" using b3 by linarith
  moreover have "n \<le> (5 + q) * 2 ^ p" using hi by (simp only: m(3) Suc_le_eq)
  ultimately show thesis using that [of "4 * b + q - 3"] k k46 lo by (simp only: m_def mult_le_mono1)
qed

lemma mi_sizes_sorted: "sorted_wrt (<) (tl MI_SIZE_ARRAY)"
  by (simp add: MI_SIZE_ARRAY_def)

text \<open>The bit arithmetic of the mi table gives, for a request of 1 to 40960 bytes, the least class of the table that
  holds it.\<close>

theorem mi_lookup_rounds_up:
  assumes "0 < req" and "req \<le> MI_MAX_SIZE"
  shows "\<exists>k. mi_get_size_class req = Base k \<and> 0 < k \<and> k < MI_TOTAL_SIZE_CLASS \<and> req \<le> MI_SIZE_ARRAY ! k
     \<and> (1 < k \<longrightarrow> MI_SIZE_ARRAY ! (k - 1) < req) \<and> (8 < k \<longrightarrow> get_idx_by_size req = k)"
proof -
  define n where "n = (req + 7) div 8"
  have n: "get_num_of_usize req = n" using assms(2) by (simp add: n_def num_of_usize_ceil)
  have bounds: "req \<le> n * 8" "(n - 1) * 8 < req" "1 \<le> n" "n \<le> 5120"
    using assms by (auto simp: n_def MI_MAX_SIZE_def)
  show ?thesis
  proof (cases "n \<le> 8")
    case True
    then have "MI_SIZE_ARRAY ! n = n * 8" "1 < n \<Longrightarrow> MI_SIZE_ARRAY ! (n - 1) = (n - 1) * 8"
      using bounds mi_small_table by auto
    with True bounds assms n show ?thesis
      by (auto simp: mi_get_size_class_def MI_TOTAL_SIZE_CLASS_def)
  next
    case False
    with bounds obtain k where "k = mi_index (n - 1)" "8 < k" "k < 46" "n * 8 \<le> MI_SIZE_ARRAY ! k"
      "MI_SIZE_ARRAY ! (k - 1) \<le> (n - 1) * 8"
      using mi_large_lookup [of n] by auto
    with False bounds assms n show ?thesis
      by (auto simp: mi_get_size_class_def MI_TOTAL_SIZE_CLASS_def get_idx_by_size_def)
  qed
qed

theorem mi_lookup_rounds_up_witness:
  "\<exists>k. mi_get_size_class 81 = Base k \<and> 0 < k \<and> k < MI_TOTAL_SIZE_CLASS \<and> 81 \<le> MI_SIZE_ARRAY ! k
     \<and> (1 < k \<longrightarrow> MI_SIZE_ARRAY ! (k - 1) < 81) \<and> (8 < k \<longrightarrow> get_idx_by_size 81 = k)"
  by (rule mi_lookup_rounds_up) (simp_all add: MI_MAX_SIZE_def)

section \<open>The small table\<close>

lemma ctz_decomp: "0 < n \<Longrightarrow> \<exists>m. odd m \<and> n = m * 2 ^ ctz n"
proof (induction n rule: ctz.induct)
  case (1 n)
  show ?case
  proof (cases "odd n")
    case True
    then show ?thesis by (intro exI [of _ n]) (simp add: ctz.simps [of n])
  next
    case False
    then obtain k where k: "n = 2 * k" by blast
    with "1.prems" have "0 < n div 2" by simp
    with "1.IH" "1.prems" False obtain m where m: "odd m" "n div 2 = m * 2 ^ ctz (n div 2)" by auto
    have "ctz n = Suc (ctz (n div 2))" using False "1.prems" by (simp add: ctz.simps [of n])
    with m k have "n = m * 2 ^ ctz n" by simp
    with m(1) show ?thesis by blast
  qed
qed

lemma ctz_power: "odd m \<Longrightarrow> ctz (m * 2 ^ k) = k"
proof (induction k)
  case 0
  then have "m \<noteq> 0" by (auto intro: ccontr)
  with 0 show ?case by (simp add: ctz.simps [of m])
next
  case (Suc k)
  then have "m \<noteq> 0" by (auto intro: ccontr)
  with Suc have "m * 2 ^ Suc k \<noteq> 0" "even (m * 2 ^ Suc k)" "m * 2 ^ Suc k div 2 = m * 2 ^ k" by auto
  with Suc show ?case by (simp only: ctz.simps [of "m * 2 ^ Suc k"]) simp
qed

lemma small_table: "\<forall>k \<in> set [3..<12]. SMALL_SIZE_ARRAY ! (k - 2) = 2 ^ k"
  by (simp add: SMALL_SIZE_ARRAY_def upt_rec)

text \<open>The class of the small table is the largest power of two that divides the request rounded to eight
  bytes: it holds the request exactly when that multiple is itself a power of two.\<close>

theorem small_class_holds_iff_power_of_two:
  assumes "0 < req" and "req \<le> SMALL_MAX_SIZE"
  shows "\<exists>s. small_get_rounded_size req = Some s \<and> s dvd (req + 7) div 8 * 8 \<and>
     (req \<le> s \<longleftrightarrow> is_pow2 ((req + 7) div 8 * 8))"
proof -
  define f where "f = (req + 7) div 8 * 8"
  have pow: "is_pow2 8" using is_pow2_power [of 3] by simp
  have f: "align_down (wadd req 7) 8 = f" "req \<le> f" "f < req + 8" "0 < f" "f \<le> 2048"
    using assms pow by (auto simp: f_def align_down_eq SMALL_MAX_SIZE_def)
  obtain m where m: "odd m" "f = m * 2 ^ ctz f" using ctz_decomp f(4) by blast
  obtain m8 where m8: "odd m8" "f div 8 = m8 * 2 ^ ctz (f div 8)"
    using ctz_decomp [of "f div 8"] f(4) by (auto simp: f_def)
  have "f = m8 * 2 ^ (ctz (f div 8) + 3)"
  proof -
    have "f = f div 8 * 8" by (simp add: f_def)
    then show ?thesis using m8(2) by (simp add: power_add)
  qed
  then have "ctz f = ctz (f div 8) + 3" using ctz_power [OF m8(1)] by metis
  then have c3: "3 \<le> ctz f" by simp
  have "(2::nat) ^ ctz f \<le> f" using m by (metis dvd_imp_le dvd_triv_right f(4))
  then have "(2::nat) ^ ctz f < 2 ^ 12" using f(5) by simp
  then have c12: "ctz f < 12" using power_less_imp_less_exp [of "2::nat" "ctz f" 12] by linarith
  have s: "small_get_rounded_size req = Some (2 ^ ctz f)"
  proof -
    have "ctz f \<in> set [3..<12]" using c3 c12 unfolding set_upt by simp
    then have "SMALL_SIZE_ARRAY ! (ctz f - 2) = 2 ^ ctz f" by (rule small_table [rule_format])
    moreover have "length SMALL_SIZE_ARRAY = 10" by (simp add: SMALL_SIZE_ARRAY_def)
    ultimately show ?thesis using f c3 c12
      by (simp add: small_get_rounded_size_def small_get_size_class_def Let_def SMALL_MAX_SIZE_def
          small_get_rounded_size_by_idx_def del: wadd_exact)
  qed
  have "req \<le> 2 ^ ctz f \<longleftrightarrow> is_pow2 f"
  proof
    assume "req \<le> 2 ^ ctz f"
    moreover have "(8::nat) dvd 2 ^ ctz f" using c3 by (simp add: le_imp_power_dvd [of 3, where a = "2::nat", simplified])
    ultimately have "f \<le> 2 ^ ctz f" unfolding f_def by (auto elim!: dvdE)
    with m f(4) have "f = 2 ^ ctz f" by (metis dvd_imp_le dvd_triv_right le_antisym)
    then show "is_pow2 f" by (metis is_pow2_power)
  next
    assume "is_pow2 f"
    then obtain k where "f = 2 ^ k" by (auto simp: is_pow2_iff)
    then have "ctz f = k" using ctz_power [of 1 k] by simp
    then show "req \<le> 2 ^ ctz f" using f(2) \<open>f = 2 ^ k\<close> by simp
  qed
  with s m show ?thesis unfolding f_def by (metis dvd_triv_right)
qed

theorem small_class_holds_iff_power_of_two_witness:
  "\<exists>s. small_get_rounded_size 24 = Some s \<and> s dvd (24 + 7) div 8 * 8 \<and>
     ((24::nat) \<le> s \<longleftrightarrow> is_pow2 ((24 + 7) div 8 * 8))"
  by (rule small_class_holds_iff_power_of_two) (simp_all add: SMALL_MAX_SIZE_def)

theorem small_class_24_is_8: "small_get_rounded_size 24 = Some 8"
  by (simp add: small_get_rounded_size_def small_get_size_class_def small_get_rounded_size_by_idx_def
      align_down_def SMALL_MAX_SIZE_def SMALL_SIZE_ARRAY_def ctz.simps)

section \<open>The generated batch sizes\<close>

text \<open>
  The loop doubles the run of pages while at most 32 chunks fit, seven times at most; the size it is
  cut back to holds at most 32 chunks, so one \<open>u32\<close> bitmap word is enough for it.
\<close>

lemma calculate_loop_result:
  assumes "0 < tar" and "0 < pg" and "pg * 2 ^ 7 < 2 ^ 64" and "1 \<le> ratio" and "ratio \<le> 8"
    and "num = pg * 2 ^ (ratio - 1) div tar"
    and "1 < ratio \<longrightarrow> pg * 2 ^ (ratio - 2) div tar \<le> 32"
    and "ratio = 1 \<longrightarrow> num \<le> 32"
  shows "\<exists>j \<le> 6. calculate_loop tar ratio (pg * 2 ^ (ratio - 1)) num = pg * 2 ^ Suc j
     \<and> pg * 2 ^ j div tar \<le> 32 \<and> (j < 6 \<longrightarrow> 32 < pg * 2 ^ Suc j div tar)"
  using assms(4-)
proof (induction "8 - ratio" arbitrary: ratio num)
  case 0
  then have "ratio = 8" by simp
  with 0 show ?case
    by (intro exI [of _ 6]) (simp add: calculate_loop.simps [of tar 8])
next
  case (Suc d)
  then have r: "ratio < 8" by simp
  note step = calculate_loop.simps [of tar ratio "pg * 2 ^ (ratio - 1)" num]
  show ?case
  proof (cases "num \<le> 32")
    case True
    have "pg * 2 ^ ratio \<le> pg * 2 ^ 7" using r by (intro mult_le_mono2 power_increasing) auto
    then have in_range: "pg * 2 ^ ratio < 2 ^ 64" using assms(3) by linarith
    have dbl: "wshl (pg * 2 ^ (ratio - 1)) 1 = pg * 2 ^ ratio"
    proof -
      have "push_bit 1 (pg * 2 ^ (ratio - 1)) = pg * 2 ^ ratio"
        using Suc.prems(1) by (cases ratio) (simp_all add: push_bit_eq_mult)
      moreover have "(1::nat) mod 64 = 1" by simp
      ultimately show ?thesis using in_range by (simp only: wshl_def mod_less)
    qed
    have "\<exists>j \<le> 6. calculate_loop tar (ratio + 1) (pg * 2 ^ (ratio + 1 - 1)) (pg * 2 ^ ratio div tar) = pg * 2 ^ Suc j
      \<and> pg * 2 ^ j div tar \<le> 32 \<and> (j < 6 \<longrightarrow> 32 < pg * 2 ^ Suc j div tar)"
      using Suc.hyps(2) Suc.prems True r
      by (intro Suc.hyps(1)) (auto simp: numeral_2_eq_2)
    with step True r dbl show ?thesis by (simp add: Let_def)
  next
    case False
    then have r2: "1 < ratio" using Suc.prems by (cases "ratio = 1") auto
    define j where "j = ratio - 2"
    have j: "ratio = Suc (Suc j)" using r2 by (simp add: j_def)
    with False step r Suc.prems show ?thesis
      by (intro exI [of _ j]) auto
  qed
qed

text \<open>The build script doubles the number of pages at most six times, until a slab has more than 32 objects, and never
  overflows: the result is the batch, the size and the least such number of pages, or 64 pages.\<close>

theorem calculate_val_batch:
  assumes "0 < tar" and "0 < pg" and "pg * 2 ^ 7 < 2 ^ 64"
  shows "if 32 < pg div tar
     then calculate_val pg tar = Some ((pg div tar + 31) div 32, tar, 1)
     else \<exists>j \<le> 6. calculate_val pg tar = Some ((pg * 2 ^ j div tar + 31) div 32, tar, 2 ^ j)
        \<and> pg * 2 ^ j div tar \<le> 32 \<and> (j < 6 \<longrightarrow> 32 < pg * 2 ^ Suc j div tar)"
proof (cases "32 < pg div tar")
  case True
  then show ?thesis using assms by (simp add: calculate_val_def IDX_BIT_def Let_def)
next
  case False
  obtain j where j: "j \<le> 6" "calculate_loop tar 1 (pg * 2 ^ (1 - 1)) (pg div tar) = pg * 2 ^ Suc j"
    "pg * 2 ^ j div tar \<le> 32" "j < 6 \<longrightarrow> 32 < pg * 2 ^ Suc j div tar"
    using calculate_loop_result [OF assms, of 1 "pg div tar"] False by auto
  have "wshr (pg * 2 ^ Suc j) 1 = pg * 2 ^ j" by (simp add: wshr_def drop_bit_eq_div)
  with j False assms have "calculate_val pg tar = Some ((pg * 2 ^ j div tar + 31) div 32, tar, 2 ^ j)"
    by (simp add: calculate_val_def IDX_BIT_def Let_def)
  with j False show ?thesis by auto
qed

theorem calculate_val_batch_witness:
  "if 32 < (4096::nat) div 1152
     then calculate_val 4096 1152 = Some ((4096 div 1152 + 31) div 32, 1152, 1)
     else \<exists>j \<le> 6. calculate_val 4096 1152 = Some ((4096 * 2 ^ j div 1152 + 31) div 32, 1152, 2 ^ j)
        \<and> (4096::nat) * 2 ^ j div 1152 \<le> 32 \<and> (j < 6 \<longrightarrow> 32 < (4096::nat) * 2 ^ Suc j div 1152)"
  by (rule calculate_val_batch) simp_all

end
