(* ===== verification/BuddyTree.thy ===== *)
theory BuddyTree
  imports UA_Prelude
begin

text \<open>
  The tree of the buddy allocator (\<open>unialloc/src/buddy_system/buddy.rs\<close>): a flat array of one byte per
  node, a 1-indexed complete binary tree. A node holds 0 when no block under it is free and otherwise
  one plus the order of the largest free block under it. The abstract view is a datatype of free, used
  and split blocks; \<open>block_tree\<close> reads it off the array and \<open>buddy_ok\<close> is the invariant.
\<close>

section \<open>The model\<close>

definition LEVEL_COUNT :: nat where "LEVEL_COUNT = 23"

text \<open>The literal of \<open>(1 << levels) - 1\<close> is an \<open>i32\<close>, whose shift amount is masked.\<close>

definition blocks_in_tree :: "nat \<Rightarrow> nat" where
  "blocks_in_tree levels = 2 ^ (levels mod 32) - 1"

definition blocks_in_level :: "nat \<Rightarrow> nat" where
  "blocks_in_level level = blocks_in_tree (level + 1) - blocks_in_tree level"

definition BLOCKS_IN_TREE :: nat where
  "BLOCKS_IN_TREE = blocks_in_tree LEVEL_COUNT"

record block =
  order_free :: nat

definition new_free :: "nat \<Rightarrow> block" where
  "new_free order = \<lparr>order_free = order + 1\<rparr>"

definition new_used :: block where
  "new_used = \<lparr>order_free = 0\<rparr>"

definition left_child :: "nat \<Rightarrow> nat" where
  "left_child index = push_bit 1 index"

definition parent :: "nat \<Rightarrow> nat" where
  "parent index = drop_bit 1 index"

text \<open>
  The const parameters \<open>BASE_ORDER\<close> and \<open>MAX_ORDER\<close> are fields; \<open>flat_blocks\<close> is the array of
  \<open>BLOCKS_IN_TREE\<close> blocks, every access to which is bounds-checked by \<open>block_at\<close> and \<open>block_mut\<close>.
\<close>

record buddy_tree =
  base_order :: nat
  max_order :: nat
  flat_blocks :: "nat \<Rightarrow> block"

definition max_order_size :: "buddy_tree \<Rightarrow> nat" where
  "max_order_size t = base_order t + max_order t"

definition blocks_in_order :: "buddy_tree \<Rightarrow> nat \<Rightarrow> nat" where
  "blocks_in_order t order = 2 ^ (base_order t + order) div 2 ^ base_order t"

definition block_at :: "buddy_tree \<Rightarrow> nat \<Rightarrow> nat option" where
  "block_at t i = (if i < BLOCKS_IN_TREE then Some (order_free (flat_blocks t i)) else None)"

definition block_mut :: "buddy_tree \<Rightarrow> nat \<Rightarrow> nat \<Rightarrow> buddy_tree option" where
  "block_mut t i v = (if i < BLOCKS_IN_TREE
     then Some (t\<lparr>flat_blocks := (flat_blocks t)(i := \<lparr>order_free = v\<rparr>)\<rparr>) else None)"

text \<open>
  \<open>BuddyTree::new\<close> on x86-64 does not compute the tree: it writes 23 runs of bytes.
\<close>

definition write_table :: "(nat \<times> nat \<times> nat) list" where
  "write_table = [(0, 23, 1), (1, 22, 2), (3, 21, 4), (7, 20, 8), (15, 19, 16), (31, 18, 32),
     (63, 17, 64), (127, 16, 128), (255, 15, 256), (511, 14, 512), (1023, 13, 1024),
     (2047, 12, 2048), (4095, 11, 4096), (8191, 10, 8192), (16383, 9, 16384), (32767, 8, 32768),
     (65535, 7, 65536), (131071, 6, 131072), (262143, 5, 262144), (524287, 4, 524288),
     (1048575, 3, 1048576), (2097151, 2, 2097152), (4194303, 1, 4194304)]"

definition write_bytes :: "(nat \<Rightarrow> block) \<Rightarrow> nat \<times> nat \<times> nat \<Rightarrow> nat \<Rightarrow> block" where
  "write_bytes blocks w =
     (case w of (dst, v, count) \<Rightarrow>
        \<lambda>i. if dst \<le> i \<and> i < dst + count then \<lparr>order_free = v\<rparr> else blocks i)"

definition buddy_new :: "nat \<Rightarrow> nat \<Rightarrow> (nat \<Rightarrow> block) \<Rightarrow> buddy_tree" where
  "buddy_new base mx blocks =
     \<lparr>base_order = base, max_order = mx, flat_blocks = foldl write_bytes blocks write_table\<rparr>"

text \<open>The descent of \<open>allocate\<close>; \<open>rem\<close> is the number of turns left of \<open>for level in 0..max_level\<close>.\<close>

fun alloc_descend :: "buddy_tree \<Rightarrow> nat \<Rightarrow> nat \<Rightarrow> nat \<Rightarrow> nat \<Rightarrow> nat \<Rightarrow> (nat \<times> nat) option" where
  "alloc_descend t desired level 0 node addr = Some (node, addr)"
| "alloc_descend t desired level (Suc rem) node addr = do {
     let left_child_index = left_child node;
     f \<leftarrow> block_at t (left_child_index - 1);
     if f \<noteq> 0 \<and> desired < f
     then alloc_descend t desired (level + 1) rem left_child_index addr
     else alloc_descend t desired (level + 1) rem (left_child_index + 1)
            (wadd addr (2 ^ (max_order_size t - level - 1))) }"

text \<open>One turn of the upward loop of \<open>allocate\<close>; \<open>node & !1\<close> clears the lowest bit.\<close>

definition alloc_fix_parent :: "buddy_tree \<times> nat \<Rightarrow> (buddy_tree \<times> nat) option" where
  "alloc_fix_parent s = (case s of (t, node) \<Rightarrow> do {
     let right_index = align_down node 2;
     let node = parent node;
     left \<leftarrow> block_at t (wsub right_index 1);
     right \<leftarrow> block_at t right_index;
     t \<leftarrow> block_mut t (wsub node 1) (max left right);
     Some (t, node) })"

fun alloc_ascend :: "nat \<Rightarrow> buddy_tree \<times> nat \<Rightarrow> (buddy_tree \<times> nat) option" where
  "alloc_ascend 0 s = Some s"
| "alloc_ascend (Suc rem) s = alloc_fix_parent s \<bind> alloc_ascend rem"

definition allocate :: "buddy_tree \<Rightarrow> nat \<Rightarrow> (buddy_tree \<times> nat option) option" where
  "allocate t desired = do {
     root \<leftarrow> block_at t 0;
     if root = 0 \<or> root - 1 < desired then Some (t, None)
     else do {
       let max_level = (max_order t + 2 ^ 8 - desired) mod 2 ^ 8;
       (node, addr) \<leftarrow> alloc_descend t desired 0 max_level 1 0;
       t \<leftarrow> block_mut t (node - 1) 0;
       (t, node) \<leftarrow> alloc_ascend max_level (t, node);
       Some (t, Some addr) } }"

definition update_block :: "buddy_tree \<Rightarrow> nat \<Rightarrow> nat \<Rightarrow> buddy_tree option" where
  "update_block t node order = do {
     ensure (order \<noteq> 0);
     ensure (node \<noteq> 0);
     let left_index = left_child node - 1;
     left \<leftarrow> block_at t left_index;
     right \<leftarrow> block_at t (left_index + 1);
     if left = order \<and> right = order then block_mut t (node - 1) (order + 1)
     else block_mut t (node - 1) (max left right) }"

text \<open>\<open>for order in order + 1..=MAX_ORDER\<close>, with \<open>rem\<close> turns left.\<close>

fun update_blocks_above :: "nat \<Rightarrow> buddy_tree \<times> nat \<times> nat \<Rightarrow> (buddy_tree \<times> nat \<times> nat) option" where
  "update_blocks_above 0 s = Some s"
| "update_blocks_above (Suc rem) s = (case s of (t, node, order) \<Rightarrow> do {
     let node = parent node;
     t \<leftarrow> update_block t node order;
     update_blocks_above rem (t, node, order + 1) })"

definition deallocate :: "buddy_tree \<Rightarrow> nat \<Rightarrow> nat \<Rightarrow> buddy_tree option" where
  "deallocate t ptr order = do {
     ensure (order \<le> max_order t);
     let level = max_order t - order;
     let level_offset = blocks_in_tree level;
     let index = wadd (wadd level_offset (wshr ptr (order + base_order t))) 1;
     ensure (index < BLOCKS_IN_TREE);
     f \<leftarrow> block_at t (wsub index 1);
     ensure (f = 0);
     t \<leftarrow> block_mut t (wsub index 1) (order + 1);
     (t, node, ord) \<leftarrow> update_blocks_above (max_order t - order) (t, index, order + 1);
     Some t }"

section \<open>The abstract tree\<close>

datatype blocks = Free | Used | Split blocks blocks

definition node_val :: "buddy_tree \<Rightarrow> nat \<Rightarrow> nat" where
  "node_val t n = order_free (flat_blocks t (n - 1))"

fun all_free :: "(nat \<Rightarrow> nat) \<Rightarrow> nat \<Rightarrow> nat \<Rightarrow> bool" where
  "all_free f n 0 = (f n = 1)"
| "all_free f n (Suc k) = (f n = k + 2 \<and> all_free f (2 * n) k \<and> all_free f (2 * n + 1) k)"

fun rep :: "(nat \<Rightarrow> nat) \<Rightarrow> nat \<Rightarrow> nat \<Rightarrow> blocks \<Rightarrow> bool" where
  "rep f n k Free = all_free f n k"
| "rep f n 0 Used = (f n = 0)"
| "rep f n (Suc k) Used = (f n = 0 \<and> all_free f (2 * n) k \<and> all_free f (2 * n + 1) k)"
| "rep f n 0 (Split l r) = False"
| "rep f n (Suc k) (Split l r) =
     (f n = max (f (2 * n)) (f (2 * n + 1)) \<and> rep f (2 * n) k l \<and> rep f (2 * n + 1) k r
      \<and> \<not> (l = Free \<and> r = Free))"

fun read_tree :: "(nat \<Rightarrow> nat) \<Rightarrow> nat \<Rightarrow> nat \<Rightarrow> blocks" where
  "read_tree f n 0 = (if f n = 0 then Used else Free)"
| "read_tree f n (Suc k) =
     (if f n = k + 2 then Free
      else if f n = 0 \<and> f (2 * n) = k + 1 \<and> f (2 * n + 1) = k + 1 then Used
      else Split (read_tree f (2 * n) k) (read_tree f (2 * n + 1) k))"

text \<open>The blocks in use, as pairs of an offset (in blocks of order 0) and an order.\<close>

fun used_blocks :: "nat \<Rightarrow> nat \<Rightarrow> blocks \<Rightarrow> (nat \<times> nat) set" where
  "used_blocks k off Free = {}"
| "used_blocks k off Used = {(off, k)}"
| "used_blocks k off (Split l r) =
     used_blocks (k - 1) off l \<union> used_blocks (k - 1) (off + 2 ^ (k - 1)) r"

definition block_tree :: "buddy_tree \<Rightarrow> blocks" where
  "block_tree t = read_tree (node_val t) 1 (max_order t)"

definition allocated :: "buddy_tree \<Rightarrow> (nat \<times> nat) set" where
  "allocated t = used_blocks (max_order t) 0 (block_tree t)"

definition buddy_ok :: "buddy_tree \<Rightarrow> bool" where
  "buddy_ok t \<longleftrightarrow> rep (node_val t) 1 (max_order t) (block_tree t) \<and> max_order t < LEVEL_COUNT
     \<and> base_order t + max_order t < 64"

text \<open>Two blocks overlap when their ranges of order-0 blocks meet.\<close>

definition overlap :: "nat \<times> nat \<Rightarrow> nat \<times> nat \<Rightarrow> bool" where
  "overlap b c = (fst b < fst c + 2 ^ snd c \<and> fst c < fst b + 2 ^ snd b)"

fun tree_alloc :: "nat \<Rightarrow> nat \<Rightarrow> blocks \<Rightarrow> (nat \<times> blocks) option" where
  "tree_alloc d k Used = None"
| "tree_alloc d k Free =
     (if k \<le> d then (if k = d then Some (0, Used) else None)
      else map_option (\<lambda>(a, t). (a, Split t Free)) (tree_alloc d (k - 1) Free))"
| "tree_alloc d k (Split l r) =
     (if k \<le> d then None else
      case tree_alloc d (k - 1) l of
        Some (a, l') \<Rightarrow> Some (a, Split l' r)
      | None \<Rightarrow> map_option (\<lambda>(a, r'). (a + 2 ^ (k - 1), Split l r')) (tree_alloc d (k - 1) r))"

definition merge :: "blocks \<Rightarrow> blocks \<Rightarrow> blocks" where
  "merge l r = (if l = Free \<and> r = Free then Free else Split l r)"

fun tree_free :: "nat \<Rightarrow> nat \<Rightarrow> nat \<Rightarrow> blocks \<Rightarrow> blocks" where
  "tree_free d k a Free = Free"
| "tree_free d k a Used = (if k = d then Free else Used)"
| "tree_free d k a (Split l r) =
     (if a < 2 ^ (k - 1) then merge (tree_free d (k - 1) a l) r
      else merge l (tree_free d (k - 1) (a - 2 ^ (k - 1)) r))"

section \<open>The nodes of a subtree\<close>

fun subtree :: "nat \<Rightarrow> nat \<Rightarrow> nat set" where
  "subtree n 0 = {n}"
| "subtree n (Suc k) = insert n (subtree (2 * n) k \<union> subtree (2 * n + 1) k)"

lemma subtree_div: "m \<in> subtree n k \<Longrightarrow> \<exists>j \<le> k. m div 2 ^ j = n"
proof (induction k arbitrary: n)
  case (Suc k)
  then consider "m = n" | "m \<in> subtree (2 * n) k" | "m \<in> subtree (2 * n + 1) k" by auto
  then show ?case
  proof cases
    case 1
    then show ?thesis by (intro exI [of _ 0]) simp
  next
    case 2
    then obtain j where "j \<le> k" "m div 2 ^ j = 2 * n" using Suc.IH by blast
    then show ?thesis by (intro exI [of _ "Suc j"]) (simp add: power_Suc2 div_mult2_eq del: power_Suc)
  next
    case 3
    then obtain j where "j \<le> k" "m div 2 ^ j = 2 * n + 1" using Suc.IH by blast
    then show ?thesis by (intro exI [of _ "Suc j"]) (simp add: power_Suc2 div_mult2_eq del: power_Suc)
  qed
qed simp

lemma subtree_ge: "m \<in> subtree n k \<Longrightarrow> n \<le> m"
  using subtree_div div_le_dividend by metis

lemma subtree_root [simp]: "n \<in> subtree n k"
  by (cases k) auto

lemma subtree_siblings:
  assumes "0 < n" "m \<in> subtree (2 * n) k" "m \<in> subtree (2 * n + 1) k"
  shows False
proof -
  obtain i j where i: "m div 2 ^ i = 2 * n" and j: "m div 2 ^ j = 2 * n + 1"
    using assms subtree_div by metis
  consider "i \<le> j" | "j \<le> i" by linarith
  then show False
  proof cases
    case 1
    then have "m div 2 ^ j = (m div 2 ^ i) div 2 ^ (j - i)"
      by (simp add: div_mult2_eq [symmetric] power_add [symmetric])
    then have "m div 2 ^ j \<le> 2 * n" using i by (metis div_le_dividend)
    then show False using j by simp
  next
    case 2
    then have e: "m div 2 ^ i = (m div 2 ^ j) div 2 ^ (i - j)"
      by (simp add: div_mult2_eq [symmetric] power_add [symmetric])
    show False
    proof (cases "i = j")
      case True
      then show False using i j by simp
    next
      case False
      with 2 obtain r where "i - j = Suc r" by (metis Suc_diff_Suc le_neq_implies_less)
      with e i j have "2 * n = n div 2 ^ r" by (simp add: div_mult2_eq)
      then have "2 * n \<le> n" by (metis div_le_dividend)
      with \<open>0 < n\<close> show False by simp
    qed
  qed
qed

lemma subtree_le: "m \<in> subtree n k \<Longrightarrow> m < (n + 1) * 2 ^ k"
proof (induction k arbitrary: n)
  case (Suc k)
  have "(n + 1) * 1 \<le> (n + 1) * 2 ^ Suc k" by (intro mult_le_mono2) simp
  then show ?case using Suc.prems Suc.IH [of "2 * n"] Suc.IH [of "2 * n + 1"]
    by (auto simp: algebra_simps)
qed simp

section \<open>What the array says of a subtree\<close>

lemma all_free_cong: "(\<And>m. m \<in> subtree n k \<Longrightarrow> f m = g m) \<Longrightarrow> all_free f n k = all_free g n k"
  by (induction k arbitrary: n) auto

lemma rep_cong: "(\<And>m. m \<in> subtree n k \<Longrightarrow> f m = g m) \<Longrightarrow> rep f n k t = rep g n k t"
proof (induction k arbitrary: n t)
  case 0
  then show ?case by (cases t) auto
next
  case (Suc k)
  have "f (2 * n) = g (2 * n)" "f (2 * n + 1) = g (2 * n + 1)" "f n = g n"
    using Suc.prems [of "2 * n"] Suc.prems [of "2 * n + 1"] Suc.prems [of n]
    by (auto simp del: One_nat_def)
  then show ?case
    using Suc.IH [of "2 * n"] Suc.IH [of "2 * n + 1"] Suc.prems
      all_free_cong [of "2 * n" k f g] all_free_cong [of "2 * n + 1" k f g]
    by (cases t) auto
qed

lemma all_free_root: "all_free f n k \<Longrightarrow> f n = k + 1"
  by (cases k) auto

lemma rep_root_le: "rep f n k t \<Longrightarrow> f n \<le> k + 1"
proof (induction f n k t rule: rep.induct)
  case (5 f n k l r)
  then show ?case by fastforce
qed (auto simp: all_free_root)

lemma rep_root_free: "rep f n k t \<Longrightarrow> f n = k + 1 \<Longrightarrow> t = Free"
proof (induction f n k t rule: rep.induct)
  case (5 f n k l r)
  then have "f (2 * n) \<le> k + 1" "f (2 * n + 1) \<le> k + 1" using rep_root_le by auto
  with 5 show ?case by (auto simp: max_def split: if_splits)
qed auto

lemma rep_Free [simp]: "rep f n k Free = all_free f n k"
  by (cases k) auto

lemma rep_read: "rep f n k t \<Longrightarrow> read_tree f n k = t"
proof (induction f n k t rule: rep.induct)
  case (1 f n k)
  then show ?case by (cases k) (auto simp: all_free_root)
next
  case (3 f n k)
  then show ?case by (auto simp: all_free_root)
next
  case (5 f n k l r)
  have le: "f (2 * n) \<le> k + 1" "f (2 * n + 1) \<le> k + 1" using 5 rep_root_le by auto
  have "\<not> (f (2 * n) = k + 1 \<and> f (2 * n + 1) = k + 1)"
    using 5 rep_root_free by (metis rep.simps(5))
  moreover have "f n \<noteq> k + 2" using 5 le by auto
  ultimately show ?case using 5 by auto
qed auto

lemma rep_unique: "rep f n k t \<Longrightarrow> rep f n k u \<Longrightarrow> t = u"
  using rep_read by metis

section \<open>The abstract tree\<close>

text \<open>\<open>fits k t\<close>: the tree is no deeper than its order, and no two free halves are left unmerged.\<close>

fun fits :: "nat \<Rightarrow> blocks \<Rightarrow> bool" where
  "fits k (Split l r) = (0 < k \<and> fits (k - 1) l \<and> fits (k - 1) r \<and> \<not> (l = Free \<and> r = Free))"
| "fits k t = True"

lemma rep_fits: "rep f n k t \<Longrightarrow> fits k t"
  by (induction f n k t rule: rep.induct) auto

lemma blocks_Suc_cases:
  assumes "fits (Suc k) t"
  obtains "t = Free" | "t = Used"
  | l r where "t = Split l r" "fits k l" "fits k r" "\<not> (l = Free \<and> r = Free)"
      "\<And>off. used_blocks (Suc k) off t = used_blocks k off l \<union> used_blocks k (off + 2 ^ k) r"
  using assms by (cases t) auto

lemma used_in_range:
  "fits k t \<Longrightarrow> (a, d) \<in> used_blocks k off t \<Longrightarrow>
     d \<le> k \<and> off \<le> a \<and> a + 2 ^ d \<le> off + 2 ^ k \<and> 2 ^ d dvd a - off"
proof (induction k arbitrary: t off)
  case 0
  then show ?case by (cases t) auto
next
  case (Suc k)
  from Suc.prems(1) show ?case
  proof (cases rule: blocks_Suc_cases)
    case (3 l r)
    consider "(a, d) \<in> used_blocks k off l" | "(a, d) \<in> used_blocks k (off + 2 ^ k) r"
      using 3 Suc.prems by blast
    then show ?thesis
    proof cases
      case 1
      from Suc.IH [OF 3(2) 1] show ?thesis by simp
    next
      case 2
      from Suc.IH [OF 3(3) 2] have R: "d \<le> k" "off + 2 ^ k \<le> a" "a + 2 ^ d \<le> off + 2 ^ k + 2 ^ k"
        "2 ^ d dvd a - (off + 2 ^ k)" by blast+
      from R have "(2::nat) ^ d dvd 2 ^ k" by (intro le_imp_power_dvd)
      with R(4) have "2 ^ d dvd (a - (off + 2 ^ k)) + 2 ^ k" by (intro dvd_add)
      moreover have e: "a - off = (a - (off + 2 ^ k)) + 2 ^ k" using R(2) by simp
      ultimately have "2 ^ d dvd a - off" by (subst e)
      then show ?thesis using R(1-3) by simp
    qed
  qed (use Suc.prems in auto)
qed

lemma used_below: "fits k t \<Longrightarrow> (a, d) \<in> used_blocks k off t \<Longrightarrow> off \<le> a \<and> a < off + 2 ^ k"
  using used_in_range [of k t a d off] zero_less_power [of "2::nat" d] by linarith

lemma used_blocks_apart:
  "fits k t \<Longrightarrow> b \<in> used_blocks k off t \<Longrightarrow> c \<in> used_blocks k off t \<Longrightarrow> b \<noteq> c \<Longrightarrow> \<not> overlap b c"
proof (induction k arbitrary: t off)
  case 0
  then show ?case by (cases t) auto
next
  case (Suc k)
  from Suc.prems(1) show ?case
  proof (cases rule: blocks_Suc_cases)
    case (3 l r)
    have L: "fst x + 2 ^ snd x \<le> off + 2 ^ k" if "x \<in> used_blocks k off l" for x
      using used_in_range [of k l "fst x" "snd x" off] that 3(2) by simp
    have R: "off + 2 ^ k \<le> fst x" if "x \<in> used_blocks k (off + 2 ^ k) r" for x
      using used_in_range [of k r "fst x" "snd x" "off + 2 ^ k"] that 3(3) by simp
    have LR: "\<not> overlap x y" "\<not> overlap y x"
      if "x \<in> used_blocks k off l" "y \<in> used_blocks k (off + 2 ^ k) r" for x y
      using L [OF that(1)] R [OF that(2)] by (auto simp: overlap_def)
    show ?thesis
      using Suc.prems 3(5) Suc.IH [OF 3(2)] Suc.IH [OF 3(3)] LR by blast
  qed (use Suc.prems in auto)
qed

declare tree_alloc.simps(2) [simp del]

lemma tree_alloc_Free_simps [simp]:
  "tree_alloc d 0 Free = (if d = 0 then Some (0, Used) else None)"
  "tree_alloc d (Suc k) Free =
     (if d = Suc k then Some (0, Used)
      else if d \<le> k then map_option (\<lambda>(a, t). (a, Split t Free)) (tree_alloc d k Free) else None)"
  by (auto simp: tree_alloc.simps(2))

lemma tree_alloc_used:
  "fits k t \<Longrightarrow> tree_alloc d k t = Some (a, t') \<Longrightarrow>
     used_blocks k off t' = insert (off + a, d) (used_blocks k off t) \<and> fits k t' \<and> t' \<noteq> Free
     \<and> (off + a, d) \<notin> used_blocks k off t"
proof (induction k arbitrary: t a t' off)
  case 0
  then show ?case by (cases t) (auto split: if_splits)
next
  case (Suc k)
  show ?case
  proof (cases t)
    case Free
    show ?thesis
    proof (cases "d = Suc k")
      case True
      then show ?thesis using Free Suc.prems by auto
    next
      case False
      with Free Suc.prems obtain u where u: "tree_alloc d k Free = Some (a, u)" "t' = Split u Free"
        by (auto split: if_splits)
      show ?thesis using Suc.IH [OF _ u(1), of off] u Free by auto
    qed
  next
    case Used
    then show ?thesis using Suc by simp
  next
    case (Split l r)
    show ?thesis
    proof (cases "tree_alloc d k l")
      case None
      with Suc.prems Split obtain b r' where r': "tree_alloc d k r = Some (b, r')"
        "a = b + 2 ^ k" "t' = Split l r'" by (auto split: if_splits)
      with Suc.IH [OF _ r'(1), of "off + 2 ^ k"] Suc.prems Split
      have IH: "used_blocks k (off + 2 ^ k) r' = insert (off + a, d) (used_blocks k (off + 2 ^ k) r)"
        "fits k r'" "r' \<noteq> Free" "(off + a, d) \<notin> used_blocks k (off + 2 ^ k) r"
        by (auto simp: add_ac)
      have "(off + a, d) \<notin> used_blocks k off l"
        using used_below [of k l "off + a" d off] Suc.prems Split r' by auto
      then show ?thesis using IH r' Split Suc.prems by auto
    next
      case (Some p)
      then obtain b l' where l': "tree_alloc d k l = Some (b, l')" by (cases p) auto
      with Suc.prems Split have e: "a = b" "t' = Split l' r" by (auto split: if_splits)
      with Suc.IH [OF _ l', of off] Suc.prems Split
      have IH: "used_blocks k off l' = insert (off + a, d) (used_blocks k off l)"
        "fits k l'" "l' \<noteq> Free" "(off + a, d) \<notin> used_blocks k off l" by auto
      have "a < 2 ^ k" using used_below [of k l' "off + a" d off] IH by auto
      then have "(off + a, d) \<notin> used_blocks k (off + 2 ^ k) r"
        using used_below [of k r "off + a" d "off + 2 ^ k"] Suc.prems Split by auto
      then show ?thesis using IH e Split Suc.prems by auto
    qed
  qed
qed

lemma tree_alloc_free:
  "fits k t \<Longrightarrow> tree_alloc d k t = Some (a, t') \<Longrightarrow> tree_free d k a t' = t"
proof (induction k arbitrary: t a t')
  case 0
  then show ?case by (cases t) (auto split: if_splits)
next
  case (Suc k)
  have r: "a < 2 ^ k" if "fits k u" "tree_alloc d k u = Some (a, u')" for a u u'
  proof -
    have "(a, d) \<in> used_blocks k 0 u'" "fits k u'" using tree_alloc_used [OF that, of 0] by auto
    then show ?thesis using used_below by fastforce
  qed
  show ?case
  proof (cases t)
    case Free
    show ?thesis
    proof (cases "d = Suc k")
      case True
      then show ?thesis using Free Suc.prems by auto
    next
      case False
      with Free Suc.prems obtain u where u: "tree_alloc d k Free = Some (a, u)" "t' = Split u Free"
        by (auto split: if_splits)
      show ?thesis using Suc.IH [OF _ u(1)] r [OF _ u(1)] u Free by (simp add: merge_def)
    qed
  next
    case Used
    then show ?thesis using Suc by simp
  next
    case (Split x y)
    show ?thesis
    proof (cases "tree_alloc d k x")
      case None
      with Suc.prems Split obtain b u where u: "tree_alloc d k y = Some (b, u)"
        "a = b + 2 ^ k" "t' = Split x u" by (auto split: if_splits)
      show ?thesis using Suc.IH [OF _ u(1)] u Split Suc.prems by (simp add: merge_def)
    next
      case (Some p)
      then obtain u where u: "tree_alloc d k x = Some (a, u)" "t' = Split u y"
        using Suc.prems Split by (cases p) (auto split: if_splits)
      show ?thesis using Suc.IH [OF _ u(1)] r [OF _ u(1)] u Split Suc.prems by (simp add: merge_def)
    qed
  qed
qed

lemma tree_free_used:
  "fits k t \<Longrightarrow> (off + a, d) \<in> used_blocks k off t \<Longrightarrow>
     used_blocks k off (tree_free d k a t) = used_blocks k off t - {(off + a, d)}
     \<and> fits k (tree_free d k a t)"
proof (induction k arbitrary: t a off)
  case 0
  then show ?case by (cases t) auto
next
  case (Suc k)
  show ?case
  proof (cases t)
    case (Split l r)
    have m: "used_blocks (Suc k) off (merge x y) = used_blocks k off x \<union> used_blocks k (off + 2 ^ k) y"
      "fits k x \<Longrightarrow> fits k y \<Longrightarrow> fits (Suc k) (merge x y)" for x y
      by (auto simp: merge_def)
    have L: "(off + a, d) \<in> used_blocks k off l \<Longrightarrow> a < 2 ^ k"
      using used_below [of k l "off + a" d off] Suc.prems Split by simp
    have R: "(off + a, d) \<in> used_blocks k (off + 2 ^ k) r \<Longrightarrow> 2 ^ k \<le> a"
      using used_below [of k r "off + a" d "off + 2 ^ k"] Suc.prems Split by auto
    show ?thesis
    proof (cases "a < 2 ^ k")
      case True
      then have u: "(off + a, d) \<in> used_blocks k off l" "(off + a, d) \<notin> used_blocks k (off + 2 ^ k) r"
        using Suc.prems Split R by auto
      with Suc.IH [of l off a] Suc.prems Split True m show ?thesis by auto
    next
      case False
      then have u: "(off + 2 ^ k + (a - 2 ^ k), d) \<in> used_blocks k (off + 2 ^ k) r"
        "(off + a, d) \<notin> used_blocks k off l"
        using Suc.prems Split L by auto
      with Suc.IH [of r "off + 2 ^ k" "a - 2 ^ k"] Suc.prems Split False m show ?thesis by auto
    qed
  qed (use Suc in auto)
qed

text \<open>Allocation fails only when every aligned range of the wanted order meets a block in use.\<close>

lemma tree_alloc_None:
  "fits k t \<Longrightarrow> d \<le> k \<Longrightarrow> tree_alloc d k t = None \<Longrightarrow> off \<le> a \<Longrightarrow> 2 ^ d dvd a - off \<Longrightarrow>
   a + 2 ^ d \<le> off + 2 ^ k \<Longrightarrow> \<exists>b \<in> used_blocks k off t. overlap (a, d) b"
proof (induction k arbitrary: t a off)
  case 0
  then show ?case by (cases t) (auto simp: overlap_def split: if_splits)
next
  case (Suc k)
  have free: "d \<le> k \<Longrightarrow> tree_alloc d k Free \<noteq> None" for k
    by (induction k) (auto simp: le_Suc_eq)
  show ?case
  proof (cases t)
    case Free
    then show ?thesis using free [of "Suc k"] Suc.prems by simp
  next
    case Used
    have "(1::nat) \<le> 2 ^ d" by simp
    then have "off < a + 2 ^ d" "a < off + 2 ^ Suc k" using Suc.prems(4,6) by linarith+
    then show ?thesis using Used by (simp add: overlap_def)
  next
    case (Split l r)
    show ?thesis
    proof (cases "d \<le> k")
      case False
      then have d: "d = Suc k" using Suc.prems by simp
      then have a: "a = off" using Suc.prems by simp
      obtain b where b: "b \<in> used_blocks (Suc k) off t"
      proof -
        have "\<exists>b. b \<in> used_blocks j off u" if "fits j u" "u \<noteq> Free" for j off u
          using that by (induction j off u rule: used_blocks.induct) auto
        then show ?thesis using that Suc.prems Split by blast
      qed
      then have "off \<le> fst b \<and> fst b + 2 ^ snd b \<le> off + 2 ^ Suc k"
        using used_in_range [of "Suc k" t "fst b" "snd b" off] Suc.prems by auto
      moreover have "(0::nat) < 2 ^ snd b" by simp
      ultimately have "overlap (a, d) b" unfolding overlap_def fst_conv snd_conv a d by linarith
      then show ?thesis using b by blast
    next
      case True
      with Suc.prems Split have n: "tree_alloc d k l = None" "tree_alloc d k r = None"
        by (auto split: option.splits)
      have dv: "(2::nat) ^ d dvd 2 ^ k" using True by (rule le_imp_power_dvd)
      show ?thesis
      proof (cases "a < off + 2 ^ k")
        case True
        obtain q where q: "a - off = 2 ^ d * q" using Suc.prems by blast
        obtain p where p: "(2::nat) ^ k = 2 ^ d * p" using dv by blast
        have "2 ^ d * q < 2 ^ d * p" using q p True Suc.prems by linarith
        then have "q + 1 \<le> p" by simp
        then have "2 ^ d * (q + 1) \<le> 2 ^ d * p" by (rule mult_le_mono2)
        then have "a + 2 ^ d \<le> off + 2 ^ k" using q p Suc.prems by (simp add: algebra_simps)
        then show ?thesis using Suc.IH [of l off a] n Split Suc.prems \<open>d \<le> k\<close> by auto
      next
        case False
        then have "a - (off + 2 ^ k) = (a - off) - 2 ^ k" by simp
        moreover have "2 ^ d dvd (a - off) - 2 ^ k" using Suc.prems(5) dv by (rule dvd_diff_nat)
        ultimately have "2 ^ d dvd a - (off + 2 ^ k)" by (simp only:)
        then show ?thesis using Suc.IH [of r "off + 2 ^ k" a] n Split Suc.prems \<open>d \<le> k\<close> False by auto
      qed
    qed
  qed
qed

section \<open>The operations on the array\<close>

abbreviation in_tree :: "nat \<Rightarrow> bool" where
  "in_tree n \<equiv> 0 < n \<and> n \<le> BLOCKS_IN_TREE"

text \<open>The nodes of the tree, as the ranges the descent and the ascent go through.\<close>

lemma block_at_node: "in_tree n \<Longrightarrow> block_at t (n - 1) = Some (node_val t n)"
  by (auto simp: block_at_def node_val_def)

lemma block_mut_node:
  assumes "in_tree n"
  obtains t' where "block_mut t (n - 1) v = Some t'" "base_order t' = base_order t"
    "max_order t' = max_order t" "\<And>m. 0 < m \<Longrightarrow> node_val t' m = (if m = n then v else node_val t m)"
proof -
  let ?t = "t\<lparr>flat_blocks := (flat_blocks t)(n - 1 := \<lparr>order_free = v\<rparr>)\<rparr>"
  have "block_mut t (n - 1) v = Some ?t" using assms by (auto simp: block_mut_def)
  moreover have "node_val ?t m = (if m = n then v else node_val t m)" if "0 < m" for m
    using that assms by (auto simp: node_val_def)
  ultimately show ?thesis using that [of ?t] by simp
qed

lemma BLOCKS_IN_TREE_val: "BLOCKS_IN_TREE = 2 ^ 23 - 1"
  by (simp add: BLOCKS_IN_TREE_def LEVEL_COUNT_def blocks_in_tree_def)

lemma in_tree_small: "in_tree n \<Longrightarrow> n < 2 ^ 23"
  by (simp add: BLOCKS_IN_TREE_val)

lemma in_tree_wsub: "in_tree n \<Longrightarrow> wsub n 1 = n - 1"
  using in_tree_small [of n] by (intro wsub_exact) auto

lemma left_child_double [simp]: "left_child n = 2 * n"
  by (simp add: left_child_def push_bit_eq_mult)

lemma parent_half [simp]: "parent n = n div 2"
  by (simp add: parent_def drop_bit_eq_div)

lemma alloc_ascend_Suc: "alloc_ascend (Suc j) s = alloc_ascend j s \<bind> alloc_fix_parent"
proof (induction j arbitrary: s)
  case 0
  then show ?case by (cases "alloc_fix_parent s") auto
next
  case (Suc j)
  then show ?case by (cases "alloc_fix_parent s") auto
qed

text \<open>\<open>buddy_frame\<close>: two states of a tree that differ only in the subtree of \<open>n\<close> of height \<open>k\<close>.\<close>

definition buddy_frame :: "nat \<Rightarrow> nat \<Rightarrow> buddy_tree \<Rightarrow> buddy_tree \<Rightarrow> bool" where
  "buddy_frame n k t t' \<longleftrightarrow> base_order t' = base_order t \<and> max_order t' = max_order t
     \<and> (\<forall>m > 0. m \<notin> subtree n k \<longrightarrow> node_val t' m = node_val t m)"

lemma buddy_frame_rep:
  assumes "buddy_frame (2 * n + b) k t t'" "b \<le> 1" "c \<le> 1" "b \<noteq> c" "0 < n"
  shows "rep (node_val t') (2 * n + c) k u = rep (node_val t) (2 * n + c) k u"
proof (rule rep_cong)
  fix m assume m: "m \<in> subtree (2 * n + c) k"
  then have "0 < m" using subtree_ge [of m] assms(5) by force
  moreover have "m \<notin> subtree (2 * n + b) k"
    using m assms(2-5) subtree_siblings [of n m k] by (auto simp: le_Suc_eq)
  ultimately show "node_val t' m = node_val t m" using assms(1) by (simp add: buddy_frame_def)
qed

text \<open>One turn of the upward loop of \<open>allocate\<close>, at the child \<open>2 * n + b\<close>.\<close>

lemma alloc_fix_parent_child:
  assumes "0 < n" "b \<le> 1" "2 * n + 1 \<le> BLOCKS_IN_TREE"
  obtains t' where "alloc_fix_parent (t, 2 * n + b) = Some (t', n)"
    "base_order t' = base_order t" "max_order t' = max_order t"
    "\<And>m. 0 < m \<Longrightarrow> node_val t' m =
       (if m = n then max (node_val t (2 * n)) (node_val t (2 * n + 1)) else node_val t m)"
proof -
  have it: "in_tree (2 * n)" "in_tree (2 * n + 1)" "in_tree n" using assms by auto
  have al: "align_down (2 * n + b) 2 = 2 * n"
    using align_down_eq [of 2 "2 * n + b"] assms is_pow2_power [of 1] by (simp add: mult.commute)
  have pa: "(2 * n + b) div 2 = n" using assms by simp
  have B: "block_at t (2 * n) = Some (node_val t (2 * n + 1))"
    using block_at_node [OF it(2), of t] by simp
  have "block_at t (wsub (2 * n) 1) = Some (node_val t (2 * n))"
    using block_at_node [OF it(1), of t] in_tree_wsub [OF it(1)] by simp
  moreover obtain t' where "block_mut t (n - 1) (max (node_val t (2 * n)) (node_val t (2 * n + 1))) = Some t'"
    "base_order t' = base_order t" "max_order t' = max_order t"
    "\<And>m. 0 < m \<Longrightarrow> node_val t' m =
       (if m = n then max (node_val t (2 * n)) (node_val t (2 * n + 1)) else node_val t m)"
    using block_mut_node [OF it(3)] by metis
  ultimately show ?thesis
    using that [of t'] B in_tree_wsub [OF it(3)] by (simp add: alloc_fix_parent_def al pa)
qed

text \<open>The effect of the descent, the mark and the ascent on the subtree of a node.\<close>

definition alloc_finish :: "buddy_tree \<Rightarrow> nat \<Rightarrow> nat \<times> nat \<Rightarrow> (buddy_tree \<times> nat \<times> nat) option" where
  "alloc_finish t rem p = do {
     t \<leftarrow> block_mut t (fst p - 1) 0;
     s \<leftarrow> alloc_ascend rem (t, fst p);
     Some (fst s, snd s, snd p) }"

definition fix_step :: "buddy_tree \<times> nat \<times> nat \<Rightarrow> (buddy_tree \<times> nat \<times> nat) option" where
  "fix_step q = alloc_fix_parent (fst q, fst (snd q)) \<bind> (\<lambda>s. Some (fst s, snd s, snd (snd q)))"

definition alloc_at :: "buddy_tree \<Rightarrow> nat \<Rightarrow> nat \<Rightarrow> nat \<Rightarrow> nat \<Rightarrow> nat \<Rightarrow> (buddy_tree \<times> nat \<times> nat) option" where
  "alloc_at t d level rem n addr = alloc_descend t d level rem n addr \<bind> alloc_finish t rem"

lemma alloc_finish_Suc: "alloc_finish t (Suc rem) p = alloc_finish t rem p \<bind> fix_step"
  unfolding alloc_finish_def alloc_ascend_Suc fix_step_def by (simp add: Option.bind_assoc)

lemma alloc_finish_Suc_fun: "alloc_finish t (Suc rem) = (\<lambda>p. alloc_finish t rem p \<bind> fix_step)"
  by (rule ext) (rule alloc_finish_Suc)

lemma alloc_at_Suc:
  assumes "block_at t (2 * n - 1) = Some f"
  shows "alloc_at t d level (Suc rem) n addr =
    (if f \<noteq> 0 \<and> d < f then alloc_at t d (level + 1) rem (2 * n) addr
     else alloc_at t d (level + 1) rem (2 * n + 1) (wadd addr (2 ^ (max_order_size t - level - 1))))
    \<bind> fix_step"
  using assms unfolding alloc_at_def
  by (simp add: Option.bind_assoc alloc_finish_Suc_fun)

lemma alloc_at_here:
  assumes "rep (node_val t) n d T" "d < node_val t n" "0 < n" "n \<le> BLOCKS_IN_TREE" "addr < 2 ^ 64"
  shows "\<exists>t'. alloc_at t d level 0 n addr = Some (t', n, addr) \<and> T = Free
    \<and> rep (node_val t') n d Used \<and> buddy_frame n d t t'"
proof -
  have f: "node_val t n = d + 1" using rep_root_le [OF assms(1)] assms(2) by simp
  then have T: "T = Free" using rep_root_free [OF assms(1)] by simp
  obtain t' where t': "block_mut t (n - 1) 0 = Some t'" "base_order t' = base_order t"
    "max_order t' = max_order t" "\<And>m. 0 < m \<Longrightarrow> node_val t' m = (if m = n then 0 else node_val t m)"
    using block_mut_node [of n t 0] assms by auto
  have "buddy_frame n d t t'" using t' by (auto simp: buddy_frame_def)
  moreover have "rep (node_val t') n d Used"
  proof (cases d)
    case 0
    then show ?thesis using t' assms by simp
  next
    case (Suc k)
    have "all_free (node_val t') c k = all_free (node_val t) c k" if "n < c" for c
      by (rule all_free_cong, drule subtree_ge, subst t'(4)) (use that in auto)
    from this [of "2 * n"] this [of "2 * n + 1"]
    have "all_free (node_val t') (2 * n) k" "all_free (node_val t') (2 * n + 1) k"
      using assms(1,3) T Suc by simp_all
    then show ?thesis using Suc t'(4) [OF assms(3)] by simp
  qed
  ultimately show ?thesis using t' T by (simp add: alloc_at_def alloc_finish_def)
qed

text \<open>The step from a child to its parent keeps the representation.\<close>

lemma fix_step_child:
  assumes "buddy_frame (2 * n + b) k t t1" "b \<le> 1" "0 < n" "2 * n + 1 \<le> BLOCKS_IN_TREE"
    and "rep (node_val t1) (2 * n) k l" "rep (node_val t1) (2 * n + 1) k r" "\<not> (l = Free \<and> r = Free)"
  shows "\<exists>t2. fix_step (t1, 2 * n + b, a) = Some (t2, n, a) \<and> rep (node_val t2) n (Suc k) (Split l r)
    \<and> buddy_frame n (Suc k) t t2"
proof -
  obtain t2 where t2: "alloc_fix_parent (t1, 2 * n + b) = Some (t2, n)"
    "base_order t2 = base_order t1" "max_order t2 = max_order t1"
    and v: "\<And>m. 0 < m \<Longrightarrow> node_val t2 m =
       (if m = n then max (node_val t1 (2 * n)) (node_val t1 (2 * n + 1)) else node_val t1 m)"
    using alloc_fix_parent_child [OF assms(3,2,4)] by metis
  have c: "rep (node_val t2) c k u = rep (node_val t1) c k u" if "n < c" for c u
    by (rule rep_cong, drule subtree_ge, subst v) (use that in auto)
  have sub: "subtree (2 * n + b) k \<subseteq> subtree n (Suc k)" using assms(2) by (auto simp: le_Suc_eq)
  have fr: "buddy_frame n (Suc k) t t2"
    unfolding buddy_frame_def
  proof (intro conjI allI impI)
    fix m :: nat assume m: "0 < m" "m \<notin> subtree n (Suc k)"
    then have "m \<noteq> n" by auto
    then show "node_val t2 m = node_val t m"
      using m sub v [OF m(1)] assms(1) by (auto simp: buddy_frame_def)
  qed (use t2 assms(1) in \<open>auto simp: buddy_frame_def\<close>)
  have "rep (node_val t2) n (Suc k) (Split l r)"
    using assms(3,5-7) v [of n] v [of "2 * n"] v [of "2 * n + 1"] c [of "2 * n"] c [of "2 * n + 1"]
    by simp
  then show ?thesis using t2(1) fr by (simp add: fix_step_def)
qed

lemma wadd_assoc: "wadd (wadd a b) c = wadd a (b + c)"
  by (simp add: wadd_def mod_simps add.assoc)

lemma rep_alloc_None: "rep f n k T \<Longrightarrow> d \<le> k \<Longrightarrow> f n \<le> d \<Longrightarrow> tree_alloc d k T = None"
proof (induction k arbitrary: n T)
  case 0
  then show ?case by (cases T) auto
next
  case (Suc k)
  show ?case
  proof (cases T)
    case (Split l r)
    then show ?thesis using Suc.prems Suc.IH [of "2 * n" l] Suc.IH [of "2 * n + 1" r]
      by (cases "d = Suc k") auto
  qed (use Suc.prems in auto)
qed

lemma alloc_at_correct:
  assumes "rep (node_val t) n k T" "d \<le> k" "d < node_val t n" "0 < n"
    "(n + 1) * 2 ^ k \<le> BLOCKS_IN_TREE + 1" "max_order t = level + k"
    "base_order t + max_order t < 64" "addr < 2 ^ 64"
  shows "\<exists>t' a T'. alloc_at t d level (k - d) n addr = Some (t', n, wadd addr (a * 2 ^ base_order t))
    \<and> tree_alloc d k T = Some (a, T') \<and> rep (node_val t') n k T' \<and> T' \<noteq> Free \<and> buddy_frame n k t t'"
  using assms
proof (induction k arbitrary: n level addr T)
  case 0
  then show ?case using alloc_at_here [of t n d T addr level] by (fastforce simp: wadd_def)
next
  case (Suc k)
  have nk: "(2 * n + 1 + 1) * 2 ^ k \<le> BLOCKS_IN_TREE + 1" "(2 * n + 1) * 2 ^ k \<le> BLOCKS_IN_TREE + 1"
    using Suc.prems(5) by (simp_all add: algebra_simps)
  have "(2 * n + 1 + 1) * 1 \<le> (2 * n + 1 + 1) * 2 ^ k" by (intro mult_le_mono2) simp
  then have sm: "2 * n + 1 \<le> BLOCKS_IN_TREE" using nk(1) unfolding mult_1_right by linarith
  show ?case
  proof (cases "d = Suc k")
    case True
    have "n \<le> BLOCKS_IN_TREE" using sm by simp
    with True show ?thesis
      using alloc_at_here [of t n d T addr level] Suc.prems by (fastforce simp: wadd_def)
  next
    case False
    then have d: "d \<le> k" "Suc k - d = Suc (k - d)" using Suc.prems by auto
    have lf: "block_at t (2 * n - 1) = Some (node_val t (2 * n))"
      using block_at_node [of "2 * n" t] sm Suc.prems by simp
    have ms: "max_order_size t - level - 1 = base_order t + k" 
      using Suc.prems by (simp add: max_order_size_def)
    define l where "l = (case T of Split l r \<Rightarrow> l | _ \<Rightarrow> Free)"
    define r where "r = (case T of Split l r \<Rightarrow> r | _ \<Rightarrow> Free)"
    have T: "T \<noteq> Used" using Suc.prems by auto
    have L: "rep (node_val t) (2 * n) k l" and R: "rep (node_val t) (2 * n + 1) k r"
      using Suc.prems(1) T by (cases T; simp add: l_def r_def)+
    have A: "tree_alloc d (Suc k) T = (case tree_alloc d k l of Some (a, l') \<Rightarrow> Some (a, Split l' r)
      | None \<Rightarrow> map_option (\<lambda>(a, r'). (a + 2 ^ k, Split l r')) (tree_alloc d k r))"
      using T d False by (cases T) (auto simp: l_def r_def split: option.splits)
    show ?thesis
    proof (cases "d < node_val t (2 * n)")
      case True
      obtain t1 a l' where 1: "alloc_at t d (level + 1) (k - d) (2 * n) addr
          = Some (t1, 2 * n, wadd addr (a * 2 ^ base_order t))"
        "tree_alloc d k l = Some (a, l')" "rep (node_val t1) (2 * n) k l'" "l' \<noteq> Free"
        "buddy_frame (2 * n) k t t1"
        using Suc.IH [OF L d(1) True, of "level + 1" addr] Suc.prems nk by auto
      have "rep (node_val t1) (2 * n + 1) k r"
        using buddy_frame_rep [of n 0 k t t1 1 r] 1(5) R Suc.prems by simp
      then obtain t2 where "fix_step (t1, 2 * n + 0, wadd addr (a * 2 ^ base_order t))
          = Some (t2, n, wadd addr (a * 2 ^ base_order t))"
        "rep (node_val t2) n (Suc k) (Split l' r)" "buddy_frame n (Suc k) t t2"
        using fix_step_child [of n 0 k t t1 l' r] 1 Suc.prems sm by auto
      then show ?thesis using alloc_at_Suc [OF lf, of d level "k - d" addr] True d 1(1,2) A by auto
    next
      case False
      have max: "node_val t n = max (node_val t (2 * n)) (node_val t (2 * n + 1))"
        using Suc.prems(1) T False d(1) by (cases T) (auto dest: all_free_root)
      then have rt: "d < node_val t (2 * n + 1)" using False Suc.prems(3) by simp
      let ?x = "wadd addr (2 ^ (base_order t + k))"
      obtain t1 a r' where 1: "alloc_at t d (level + 1) (k - d) (2 * n + 1) ?x
          = Some (t1, 2 * n + 1, wadd ?x (a * 2 ^ base_order t))"
        "tree_alloc d k r = Some (a, r')" "rep (node_val t1) (2 * n + 1) k r'" "r' \<noteq> Free"
        "buddy_frame (2 * n + 1) k t t1"
        using Suc.IH [OF R d(1) rt, of "level + 1" ?x] Suc.prems nk by auto
      have N: "tree_alloc d k l = None" using rep_alloc_None [OF L d(1)] False by simp
      have x: "wadd ?x (a * 2 ^ base_order t) = wadd addr ((a + 2 ^ k) * 2 ^ base_order t)"
        by (simp add: wadd_assoc power_add algebra_simps)
      have "rep (node_val t1) (2 * n + 0) k l"
        using buddy_frame_rep [of n 1 k t t1 0 l] 1(5) L Suc.prems by simp
      then obtain t2 where "fix_step (t1, 2 * n + 1, wadd addr ((a + 2 ^ k) * 2 ^ base_order t))
          = Some (t2, n, wadd addr ((a + 2 ^ k) * 2 ^ base_order t))"
        "rep (node_val t2) n (Suc k) (Split l r')" "buddy_frame n (Suc k) t t2"
        using fix_step_child [of n 1 k t t1 l r'] 1 Suc.prems sm by auto
      then show ?thesis
        using alloc_at_Suc [OF lf, of d level "k - d" addr] False d 1(1,2) A N x ms by auto
    qed
  qed
qed

section \<open>Deallocation on the array\<close>

definition up_step :: "buddy_tree \<times> nat \<times> nat \<Rightarrow> (buddy_tree \<times> nat \<times> nat) option" where
  "up_step s = (case s of (t, node, order) \<Rightarrow>
     update_block t (parent node) order \<bind> (\<lambda>t. Some (t, parent node, order + 1)))"

lemma update_blocks_above_Suc: "update_blocks_above (Suc j) s = update_blocks_above j s \<bind> up_step"
proof (induction j arbitrary: s)
  case 0
  obtain t node order where s: "s = (t, node, order)" by (cases s)
  show ?case by (cases "update_block t (node div 2) order") (auto simp: s up_step_def)
next
  case (Suc j)
  obtain t node order where s: "s = (t, node, order)" by (cases s)
  have f: "update_blocks_above (Suc j) = (\<lambda>s. update_blocks_above j s \<bind> up_step)"
    by (rule ext) (rule Suc)
  have "update_blocks_above (Suc (Suc j)) s = up_step s \<bind> update_blocks_above (Suc j)"
    by (simp add: s up_step_def Option.bind_assoc Let_def)
  also have "\<dots> = (up_step s \<bind> update_blocks_above j) \<bind> up_step"
    by (simp only: Option.bind_assoc f)
  also have "up_step s \<bind> update_blocks_above j = update_blocks_above (Suc j) s"
    by (simp add: s up_step_def Option.bind_assoc Let_def)
  finally show ?case .
qed

text \<open>One turn of the upward loop of \<open>deallocate\<close> keeps the representation and merges free halves.\<close>

lemma up_step_child:
  assumes "buddy_frame (2 * n + b) k t t1" "b \<le> 1" "0 < n" "2 * n + 1 \<le> BLOCKS_IN_TREE"
    and "rep (node_val t1) (2 * n) k l" "rep (node_val t1) (2 * n + 1) k r"
  shows "\<exists>t2. up_step (t1, 2 * n + b, k + 1) = Some (t2, n, Suc k + 1)
    \<and> rep (node_val t2) n (Suc k) (merge l r) \<and> buddy_frame n (Suc k) t t2"
proof -
  let ?l = "node_val t1 (2 * n)" and ?r = "node_val t1 (2 * n + 1)"
  let ?v = "if ?l = k + 1 \<and> ?r = k + 1 then k + 2 else max ?l ?r"
  have it: "in_tree (2 * n)" "in_tree (2 * n + 1)" "in_tree n" using assms by auto
  have pa: "parent (2 * n + b) = n" using assms(2) by simp
  obtain t2 where t2: "block_mut t1 (n - 1) ?v = Some t2"
    "base_order t2 = base_order t1" "max_order t2 = max_order t1"
    and v: "\<And>m. 0 < m \<Longrightarrow> node_val t2 m = (if m = n then ?v else node_val t1 m)"
    using block_mut_node [OF it(3), of t1 ?v] by blast
  have "block_at t1 (2 * n - 1 + 1) = Some ?r" using block_at_node [OF it(2), of t1] it by simp
  then have "update_block t1 n (k + 1) = block_mut t1 (n - 1) ?v"
    using block_at_node [OF it(1), of t1] assms(3) by (simp add: update_block_def)
  then have up: "up_step (t1, 2 * n + b, k + 1) = Some (t2, n, Suc k + 1)"
    unfolding up_step_def prod.case pa using t2(1) by simp
  have c: "rep (node_val t2) c k u = rep (node_val t1) c k u" if "n < c" for c u
    by (rule rep_cong, drule subtree_ge, subst v) (use that in auto)
  have sub: "subtree (2 * n + b) k \<subseteq> subtree n (Suc k)" using assms(2) by (auto simp: le_Suc_eq)
  have fr: "buddy_frame n (Suc k) t t2"
    unfolding buddy_frame_def
  proof (intro conjI allI impI)
    fix m :: nat assume m: "0 < m" "m \<notin> subtree n (Suc k)"
    then have "m \<noteq> n" by auto
    then show "node_val t2 m = node_val t m"
      using m sub v [OF m(1)] assms(1) by (auto simp: buddy_frame_def)
  qed (use t2 assms(1) in \<open>auto simp: buddy_frame_def\<close>)
  have LR: "rep (node_val t2) (2 * n) k l" "rep (node_val t2) (2 * n + 1) k r"
    using assms(3,5,6) c by simp_all
  have vn: "node_val t2 n = ?v" "node_val t2 (2 * n) = ?l" "node_val t2 (2 * n + 1) = ?r"
    using v [of n] v [of "2 * n"] v [of "2 * n + 1"] assms(3) by simp_all
  have "rep (node_val t2) n (Suc k) (merge l r)"
  proof (cases "l = Free \<and> r = Free")
    case True
    then have "?l = k + 1" "?r = k + 1" using assms(5,6) by (simp_all add: all_free_root)
    then show ?thesis using True LR vn by (simp add: merge_def)
  next
    case False
    then have "\<not> (?l = k + 1 \<and> ?r = k + 1)" using rep_root_free assms(5,6) by blast
    then have "node_val t2 n = max ?l ?r" using vn by simp
    moreover have "merge l r = Split l r" using False by (auto simp: merge_def)
    ultimately show ?thesis using False LR vn by simp
  qed
  then show ?thesis using up fr by blast
qed

text \<open>Freeing the block of a node that is used as a whole.\<close>

lemma free_at_here:
  assumes "rep (node_val t) n k Used" "0 < n" "block_mut t (n - 1) (k + 1) = Some t1" "n \<le> BLOCKS_IN_TREE"
  shows "rep (node_val t1) n k Free \<and> buddy_frame n k t t1"
proof -
  obtain t2 where t2: "block_mut t (n - 1) (k + 1) = Some t2"
    "base_order t2 = base_order t" "max_order t2 = max_order t"
    and v: "\<And>m. 0 < m \<Longrightarrow> node_val t2 m = (if m = n then k + 1 else node_val t m)"
    using block_mut_node [of n t "k + 1"] assms by blast
  then have e: "t1 = t2" using assms(3) by simp
  have c: "all_free (node_val t2) c j = all_free (node_val t) c j" if "n < c" for c j
    by (rule all_free_cong, drule subtree_ge, subst v) (use that in auto)
  have "rep (node_val t2) n k Free"
    using assms(1,2) v [of n] c [of "2 * n"] c [of "2 * n + 1"] by (cases k) auto
  moreover have "buddy_frame n k t t2" using t2 v by (auto simp: buddy_frame_def)
  ultimately show ?thesis using e by simp
qed

lemma used_blocks_shift:
  "(a + c, d) \<in> used_blocks k (off + c) t \<longleftrightarrow> (a, d) \<in> used_blocks k off t"
proof (induction t arbitrary: k off)
  case (Split l r)
  have "off + c + 2 ^ (k - 1) = off + 2 ^ (k - 1) + c" by simp
  then show ?case
    using Split(1) [of "k - 1" off] Split(2) [of "k - 1" "off + 2 ^ (k - 1)"] by (simp add: add_ac)
qed auto

lemma free_at_correct:
  assumes "rep (node_val t) n k T" "(a, d) \<in> used_blocks k 0 T" "0 < n"
    "(n + 1) * 2 ^ k \<le> BLOCKS_IN_TREE + 1"
  shows "node_val t (n * 2 ^ (k - d) + a div 2 ^ d) = 0 \<and> in_tree (n * 2 ^ (k - d) + a div 2 ^ d)
    \<and> (\<forall>t1. block_mut t (n * 2 ^ (k - d) + a div 2 ^ d - 1) (d + 1) = Some t1 \<longrightarrow>
    (\<exists>t'. update_blocks_above (k - d) (t1, n * 2 ^ (k - d) + a div 2 ^ d, d + 1) = Some (t', n, k + 1)
      \<and> rep (node_val t') n k (tree_free d k a T) \<and> buddy_frame n k t t'))"
  using assms
proof (induction k arbitrary: n a T)
  case 0
  then have T: "T = Used" "a = 0" "d = 0" by (cases T; simp)+
  then show ?case using 0 free_at_here [of t n 0] by auto
next
  case (Suc k)
  have nk: "(2 * n + 1 + 1) * 2 ^ k \<le> BLOCKS_IN_TREE + 1" "(2 * n + 1) * 2 ^ k \<le> BLOCKS_IN_TREE + 1"
    using Suc.prems(4) by (simp_all add: algebra_simps)
  have "(2 * n + 1 + 1) * 1 \<le> (2 * n + 1 + 1) * 2 ^ k" by (intro mult_le_mono2) simp
  then have sm: "2 * n + 1 \<le> BLOCKS_IN_TREE" using nk(1) unfolding mult_1_right by linarith
  show ?case
  proof (cases T)
    case Free
    then show ?thesis using Suc.prems(2) by simp
  next
    case Used
    then have "a = 0" "d = Suc k" using Suc.prems(2) by simp_all
    then show ?thesis using Used Suc.prems sm free_at_here [of t n "Suc k"] by auto
  next
    case (Split l r)
    have F: "fits k l" "fits k r" using rep_fits [OF Suc.prems(1)] Split by simp_all
    have L: "rep (node_val t) (2 * n) k l" and R: "rep (node_val t) (2 * n + 1) k r"
      using Suc.prems(1) Split by simp_all
    show ?thesis
    proof (cases "(a, d) \<in> used_blocks k 0 l")
      case True
      have dk: "d \<le> k" "a < 2 ^ k" using used_in_range [OF F(1) True] used_below [OF F(1) True] by simp_all
      have m: "n * 2 ^ (Suc k - d) + a div 2 ^ d = 2 * n * 2 ^ (k - d) + a div 2 ^ d"
        using dk by (simp add: Suc_diff_le)
      note IH = Suc.IH [OF L True _ nk(2)]
      show ?thesis unfolding m
      proof (intro conjI allI impI)
        fix t1 assume "block_mut t (2 * n * 2 ^ (k - d) + a div 2 ^ d - 1) (d + 1) = Some t1"
        then obtain t2 where t2: "update_blocks_above (k - d)
            (t1, 2 * n * 2 ^ (k - d) + a div 2 ^ d, d + 1) = Some (t2, 2 * n, k + 1)"
          "rep (node_val t2) (2 * n) k (tree_free d k a l)" "buddy_frame (2 * n) k t t2"
          using IH Suc.prems(3) by auto
        have "rep (node_val t2) (2 * n + 1) k r"
          using buddy_frame_rep [of n 0 k t t2 1 r] t2(3) R Suc.prems(3) by simp
        then obtain t3 where "up_step (t2, 2 * n + 0, k + 1) = Some (t3, n, Suc k + 1)"
          "rep (node_val t3) n (Suc k) (merge (tree_free d k a l) r)" "buddy_frame n (Suc k) t t3"
          using up_step_child [of n 0 k t t2 "tree_free d k a l" r] t2(2,3) Suc.prems(3) sm by auto
        then show "\<exists>t'. update_blocks_above (Suc k - d) (t1, 2 * n * 2 ^ (k - d) + a div 2 ^ d, d + 1)
            = Some (t', n, Suc k + 1) \<and> rep (node_val t') n (Suc k) (tree_free d (Suc k) a T)
            \<and> buddy_frame n (Suc k) t t'"
          using t2(1) dk Split unfolding Suc_diff_le [OF dk(1)] update_blocks_above_Suc by simp
      qed (use IH Suc.prems(3) in auto)
    next
      case False
      then have "(a, d) \<in> used_blocks k (2 ^ k) r" using Suc.prems(2) Split by simp
      note b = used_in_range [OF F(2) this] this
      define c where "c = a - 2 ^ k"
      have a: "a = c + 2 ^ k" using b by (simp add: c_def)
      have cr: "(c, d) \<in> used_blocks k 0 r" using b(2) used_blocks_shift [of c "2 ^ k" d k 0 r] a by simp
      have "(2::nat) ^ k = 2 ^ (k - d) * 2 ^ d" using b by (simp add: power_add [symmetric])
      then have "a div 2 ^ d = 2 ^ (k - d) + c div 2 ^ d" by (simp add: a)
      then have m: "n * 2 ^ (Suc k - d) + a div 2 ^ d = (2 * n + 1) * 2 ^ (k - d) + c div 2 ^ d"
        using b by (simp add: Suc_diff_le)
      have dk: "d \<le> k" using b by simp
      note IH = Suc.IH [OF R cr _ nk(1)]
      show ?thesis unfolding m
      proof (intro conjI allI impI)
        fix t1 assume "block_mut t ((2 * n + 1) * 2 ^ (k - d) + c div 2 ^ d - 1) (d + 1) = Some t1"
        then obtain t2 where t2: "update_blocks_above (k - d)
            (t1, (2 * n + 1) * 2 ^ (k - d) + c div 2 ^ d, d + 1) = Some (t2, 2 * n + 1, k + 1)"
          "rep (node_val t2) (2 * n + 1) k (tree_free d k c r)" "buddy_frame (2 * n + 1) k t t2"
          using IH by auto
        have "rep (node_val t2) (2 * n + 0) k l"
          using buddy_frame_rep [of n 1 k t t2 0 l] t2(3) L Suc.prems(3) by simp
        then obtain t3 where "up_step (t2, 2 * n + 1, k + 1) = Some (t3, n, Suc k + 1)"
          "rep (node_val t3) n (Suc k) (merge l (tree_free d k c r))" "buddy_frame n (Suc k) t t3"
          using up_step_child [of n 1 k t t2 l "tree_free d k c r"] t2(2,3) Suc.prems(3) sm by auto
        then show "\<exists>t'. update_blocks_above (Suc k - d) (t1, (2 * n + 1) * 2 ^ (k - d) + c div 2 ^ d, d + 1)
            = Some (t', n, Suc k + 1) \<and> rep (node_val t') n (Suc k) (tree_free d (Suc k) a T)
            \<and> buddy_frame n (Suc k) t t'"
          using t2(1) Split a unfolding Suc_diff_le [OF dk] update_blocks_above_Suc by simp
      qed (use IH in auto)
    qed
  qed
qed


section \<open>Allocation and deallocation of the tree\<close>

lemma buddy_ok_rep: "buddy_ok t \<Longrightarrow> rep (node_val t) 1 (max_order t) (block_tree t)"
  by (simp add: buddy_ok_def)

lemma rep_block_tree: "rep (node_val t) 1 (max_order t) T \<Longrightarrow> block_tree t = T"
  by (simp add: block_tree_def rep_read)

lemma buddy_ok_fits: "buddy_ok t \<Longrightarrow> fits (max_order t) (block_tree t)"
  using buddy_ok_rep rep_fits by blast

lemma buddy_ok_size:
  assumes "buddy_ok t"
  shows "(1 + 1) * 2 ^ max_order t \<le> BLOCKS_IN_TREE + 1"
proof -
  have "max_order t + 1 \<le> 23" using assms by (simp add: buddy_ok_def LEVEL_COUNT_def)
  then have "(2::nat) ^ (max_order t + 1) \<le> 2 ^ 23" by (rule power_increasing) simp
  then show ?thesis by (simp add: BLOCKS_IN_TREE_val)
qed

lemma wmul_offset: "buddy_ok t \<Longrightarrow> (a::nat) < 2 ^ max_order t \<Longrightarrow> a * 2 ^ base_order t < 2 ^ 64"
proof -
  assume b: "buddy_ok t" and a: "a < 2 ^ max_order t"
  have "a * 2 ^ base_order t < 2 ^ max_order t * 2 ^ base_order t" using a by simp
  also have "\<dots> = 2 ^ (base_order t + max_order t)" by (simp add: power_add)
  also have "\<dots> \<le> 2 ^ 64" using b by (intro power_increasing) (simp_all add: buddy_ok_def)
  finally show ?thesis .
qed

lemma allocate_cases:
  assumes ok: "buddy_ok t" and d: "d \<le> max_order t"
  shows "(case tree_alloc d (max_order t) (block_tree t) of
     None \<Rightarrow> allocate t d = Some (t, None)
   | Some (a, T') \<Rightarrow> a < 2 ^ max_order t \<and> (\<exists>t'. allocate t d = Some (t', Some (a * 2 ^ base_order t))
       \<and> buddy_ok t' \<and> block_tree t' = T' \<and> max_order t' = max_order t \<and> base_order t' = base_order t
       \<and> (\<forall>m>0. m \<notin> subtree 1 (max_order t) \<longrightarrow> node_val t' m = node_val t m)))"
proof -
  let ?k = "max_order t"
  note rp = buddy_ok_rep [OF ok]
  have root: "block_at t 0 = Some (node_val t 1)" using block_at_node [of 1 t] by (simp add: BLOCKS_IN_TREE_val)
  show ?thesis
  proof (cases "d < node_val t 1")
    case False
    then have "tree_alloc d ?k (block_tree t) = None" using rep_alloc_None [OF rp d] by simp
    moreover have "node_val t 1 = 0 \<or> node_val t 1 - 1 < d" using False by linarith
    ultimately show ?thesis using root by (simp add: allocate_def)
  next
    case True
    have lt: "?k < 2 ^ 8" "base_order t + ?k < 64" using ok by (auto simp: buddy_ok_def LEVEL_COUNT_def)
    obtain t' a T' where r: "alloc_at t d 0 (?k - d) 1 0 = Some (t', 1, wadd 0 (a * 2 ^ base_order t))"
      "tree_alloc d ?k (block_tree t) = Some (a, T')" "rep (node_val t') 1 ?k T'"
      "buddy_frame 1 ?k t t'"
      using alloc_at_correct [OF rp d True _ buddy_ok_size [OF ok] _ lt(2), of 0 0] by auto
    have a: "a < 2 ^ ?k"
      using tree_alloc_used [OF buddy_ok_fits [OF ok] r(2), of 0] used_below [of ?k T' a d 0] by auto
    then have "wadd 0 (a * 2 ^ base_order t) = a * 2 ^ base_order t"
      using wmul_offset [OF ok a] by simp
    with r(1) obtain n a' t1 where s: "alloc_descend t d 0 (?k - d) 1 0 = Some (n, a')"
      "block_mut t (n - 1) 0 = Some t1" "alloc_ascend (?k - d) (t1, n) = Some (t', 1)"
      "a' = a * 2 ^ base_order t"
      by (auto simp: alloc_at_def alloc_finish_def split: Option.bind_splits)
    have ml: "(?k + 2 ^ 8 - d) mod 2 ^ 8 = ?k - d"
    proof -
      have "?k + 2 ^ 8 - d = (?k - d) + 2 ^ 8" using d by simp
      then show ?thesis using lt(1) by (metis mod_add_self2 mod_less less_imp_diff_less)
    qed
    have "allocate t d = Some (t', Some (a * 2 ^ base_order t))"
      using root True s unfolding allocate_def ml by simp
    moreover have m: "max_order t' = ?k" "base_order t' = base_order t"
      using r(4) by (simp_all add: buddy_frame_def)
    moreover have T': "block_tree t' = T'" using r(3) rep_block_tree [of t' T'] m by simp
    moreover have "buddy_ok t'" using r(3) ok unfolding buddy_ok_def T' m by simp
    ultimately show ?thesis using r(2,4) a by (simp add: buddy_frame_def)
  qed
qed


lemma deallocate_cases:
  assumes ok: "buddy_ok t" and u: "(a, d) \<in> allocated t"
    and last: "a + 1 < 2 ^ max_order t \<or> 0 < d \<or> max_order t < LEVEL_COUNT - 1"
  shows "\<exists>t'. deallocate t (a * 2 ^ base_order t) d = Some t' \<and> buddy_ok t'
    \<and> block_tree t' = tree_free d (max_order t) a (block_tree t)
    \<and> max_order t' = max_order t \<and> base_order t' = base_order t
    \<and> (\<forall>m>0. m \<notin> subtree 1 (max_order t) \<longrightarrow> node_val t' m = node_val t m)"
proof -
  let ?k = "max_order t"
  let ?m = "1 * 2 ^ (?k - d) + a div 2 ^ d"
  note rp = buddy_ok_rep [OF ok] and fits = buddy_ok_fits [OF ok]
  have u': "(a, d) \<in> used_blocks ?k 0 (block_tree t)" using u by (simp add: allocated_def)
  note rg = used_in_range [OF fits u'] and bl = used_below [OF fits u']
  have kl: "?k < 23" "base_order t + ?k < 64" using ok by (simp_all add: buddy_ok_def LEVEL_COUNT_def)
  note F = free_at_correct [OF rp u' _ buddy_ok_size [OF ok]]
  have it: "in_tree ?m" "node_val t ?m = 0" using F by simp_all
  have sh: "wshr (a * 2 ^ base_order t) (d + base_order t) = a div 2 ^ d"
  proof -
    have "(d + base_order t) mod 64 = base_order t + d" using kl rg by simp
    then have "wshr (a * 2 ^ base_order t) (d + base_order t) = a * 2 ^ base_order t div (2 ^ base_order t * 2 ^ d)"
      by (simp add: wshr_def drop_bit_eq_div power_add)
    then show ?thesis by (simp add: div_mult2_eq)
  qed
  have bt: "blocks_in_tree (?k - d) = 2 ^ (?k - d) - 1" using kl by (simp add: blocks_in_tree_def)
  have sm: "?m < 2 ^ 23" using in_tree_small [OF it(1)] .
  have ix: "wadd (wadd (blocks_in_tree (?k - d)) (wshr (a * 2 ^ base_order t) (d + base_order t))) 1 = ?m"
    unfolding sh bt using sm by (simp add: wadd_def)
  have strict: "?m < BLOCKS_IN_TREE"
  proof -
    have "a < 2 ^ (?k - d) * 2 ^ d" using bl rg by (simp add: power_add [symmetric])
    then have q: "a div 2 ^ d < 2 ^ (?k - d)" by (rule less_mult_imp_div_less)
    show ?thesis
    proof (cases "0 < d \<or> ?k < 22")
      case True
      then have "?k - d + 1 \<le> 22" using kl rg by linarith
      then have "(2::nat) ^ (?k - d + 1) \<le> 2 ^ 22" by (rule power_increasing) simp
      then show ?thesis using q by (simp add: BLOCKS_IN_TREE_val)
    next
      case False
      then have "d = 0" "?k = 22" using kl by simp_all
      then show ?thesis using last by (simp add: BLOCKS_IN_TREE_val LEVEL_COUNT_def)
    qed
  qed
  obtain t1 where t1: "block_mut t (?m - 1) (d + 1) = Some t1" "max_order t1 = ?k"
    using block_mut_node [OF it(1), of t "d + 1"] by blast
  then obtain t' where t': "update_blocks_above (?k - d) (t1, ?m, d + 1) = Some (t', 1, ?k + 1)"
    "rep (node_val t') 1 ?k (tree_free d ?k a (block_tree t))" "buddy_frame 1 ?k t t'"
    using F by auto
  have "deallocate t (a * 2 ^ base_order t) d = Some t'"
    unfolding deallocate_def Let_def ix in_tree_wsub [OF it(1)] block_at_node [OF it(1)]
    using rg strict it(2) t1 t'(1) by simp
  moreover have m: "max_order t' = ?k" "base_order t' = base_order t"
    using t'(3) by (simp_all add: buddy_frame_def)
  moreover have T': "block_tree t' = tree_free d ?k a (block_tree t)"
    using t'(2) rep_block_tree [of t'] m by simp
  moreover have "buddy_ok t'" using t'(2) ok unfolding buddy_ok_def T' m by simp
  ultimately show ?thesis using t'(3) by (auto simp: buddy_frame_def)
qed

lemma all_free_determines:
  "all_free f n k \<Longrightarrow> all_free g n k \<Longrightarrow> m \<in> subtree n k \<Longrightarrow> f m = g m"
proof (induction k arbitrary: n)
  case (Suc k)
  then show ?case using Suc.IH [of "2 * n"] Suc.IH [of "2 * n + 1"] by auto
qed simp

text \<open>The abstract tree determines the bytes of the array.\<close>

lemma rep_determines: "rep f n k T \<Longrightarrow> rep g n k T \<Longrightarrow> m \<in> subtree n k \<Longrightarrow> f m = g m"
proof (induction k arbitrary: n T m)
  case 0
  then show ?case by (cases T) auto
next
  case (Suc k)
  have A: "f c = g c" if "rep f (2 * n) k l" "rep g (2 * n) k l" "rep f (2 * n + 1) k r"
    "rep g (2 * n + 1) k r" "c \<in> subtree (2 * n) k \<union> subtree (2 * n + 1) k" for l r c
    using Suc.IH that by blast
  have B: "f (2 * n) = g (2 * n)" "f (2 * n + 1) = g (2 * n + 1)"
    if "rep f (2 * n) k l" "rep g (2 * n) k l" "rep f (2 * n + 1) k r" "rep g (2 * n + 1) k r" for l r
    using A [OF that, of "2 * n"] A [OF that, of "2 * n + 1"] by auto
  show ?case
  proof (cases T)
    case Free
    then show ?thesis using Suc.prems all_free_determines [of f n "Suc k" g] by simp
  next
    case Used
    then show ?thesis using Suc.prems A [of Free Free m] by auto
  next
    case (Split l r)
    then show ?thesis using Suc.prems A [of l r m] B [of l r] by auto
  qed
qed

lemma same_nodes:
  assumes "base_order t' = base_order t" "max_order t' = max_order t"
    "\<And>m. 0 < m \<Longrightarrow> node_val t' m = node_val t m"
  shows "t' = t"
proof -
  have "flat_blocks t' i = flat_blocks t i" for i
    using assms(3) [of "Suc i"] by (simp add: node_val_def)
  then show ?thesis using assms(1,2) by (cases t; cases t') (auto intro: ext)
qed

text \<open>What a successful allocation and a deallocation do to the blocks in use.\<close>

lemma allocate_block:
  assumes "buddy_ok t" "d \<le> max_order t" "allocate t d = Some (t', Some p)"
  obtains a where "p = a * 2 ^ base_order t" "buddy_ok t'" "2 ^ d dvd a" "a + 2 ^ d \<le> 2 ^ max_order t"
    "\<forall>b \<in> allocated t. \<not> overlap (a, d) b" "allocated t' = insert (a, d) (allocated t)"
    "max_order t' = max_order t" "base_order t' = base_order t" "a < 2 ^ max_order t"
proof -
  note fits = buddy_ok_fits [OF assms(1)]
  obtain a T' where q: "tree_alloc d (max_order t) (block_tree t) = Some (a, T')"
    using allocate_cases [OF assms(1,2)] assms(3)
    by (cases "tree_alloc d (max_order t) (block_tree t)") auto
  note A = tree_alloc_used [OF fits q, of 0, simplified]
  have t': "p = a * 2 ^ base_order t" "buddy_ok t'" "block_tree t' = T'" "max_order t' = max_order t"
    "base_order t' = base_order t" "a < 2 ^ max_order t"
    using allocate_cases [OF assms(1,2)] assms(3) q by auto
  have al: "allocated t' = insert (a, d) (allocated t)" using A t' by (simp add: allocated_def)
  have rg: "2 ^ d dvd a" "a + 2 ^ d \<le> 2 ^ max_order t"
    using used_in_range [of "max_order t" T' a d 0] A by simp_all
  have "\<not> overlap (a, d) b" if "b \<in> allocated t" for b
    using used_blocks_apart [of "max_order t" T' "(a, d)" 0 b] A that by (auto simp: allocated_def)
  then show ?thesis using that t' al rg by blast
qed

lemma allocate_none:
  assumes "buddy_ok t" "d \<le> max_order t" "allocate t d = Some (t', None)"
  shows "t' = t \<and> (2 ^ d dvd a \<and> a + 2 ^ d \<le> 2 ^ max_order t \<longrightarrow> (\<exists>b \<in> allocated t. overlap (a, d) b))"
proof -
  have n: "tree_alloc d (max_order t) (block_tree t) = None"
    using allocate_cases [OF assms(1,2)] assms(3)
    by (cases "tree_alloc d (max_order t) (block_tree t)") auto
  then show ?thesis
    using allocate_cases [OF assms(1,2)] assms(3)
      tree_alloc_None [OF buddy_ok_fits [OF assms(1)] assms(2) n, of 0 a] by (auto simp: allocated_def)
qed

lemma allocate_returns:
  "buddy_ok t \<Longrightarrow> d \<le> max_order t \<Longrightarrow> allocate t d \<noteq> None"
  using allocate_cases [of t d] by (auto split: option.splits)

lemma deallocate_block:
  assumes "buddy_ok t" "(a, d) \<in> allocated t"
    and "a + 1 < 2 ^ max_order t \<or> 0 < d \<or> max_order t < LEVEL_COUNT - 1"
  obtains t' where "deallocate t (a * 2 ^ base_order t) d = Some t'" "buddy_ok t'"
    "allocated t' = allocated t - {(a, d)}" "max_order t' = max_order t" "base_order t' = base_order t"
proof -
  obtain t' where t': "deallocate t (a * 2 ^ base_order t) d = Some t'" "buddy_ok t'"
    "block_tree t' = tree_free d (max_order t) a (block_tree t)" "max_order t' = max_order t"
    "base_order t' = base_order t"
    using deallocate_cases [OF assms] by blast
  have "allocated t' = allocated t - {(a, d)}"
    using tree_free_used [OF buddy_ok_fits [OF assms(1)], of 0 a d] assms(2) t'
    by (simp add: allocated_def)
  then show ?thesis using that t' by blast
qed

lemma allocated_in_range:
  "buddy_ok t \<Longrightarrow> (a, d) \<in> allocated t \<Longrightarrow> d \<le> max_order t \<and> a + 2 ^ d \<le> 2 ^ max_order t \<and> 2 ^ d dvd a"
  using used_in_range [OF buddy_ok_fits, of t a d 0] by (auto simp: allocated_def)

text \<open>C20: An allocation of order \<open>d\<close> never panics. When it succeeds it returns the address of an
  aligned block inside the tree that overlaps no block in use, and exactly that block becomes used;
  when it fails the tree is unchanged and every aligned block of that order meets one in use, so the
  allocator never reports exhaustion while a fitting block is free.\<close>

theorem buddy_allocate_correct:
  assumes "buddy_ok t" "d \<le> max_order t"
  shows "case allocate t d of
      Some (t', Some p) \<Rightarrow> buddy_ok t' \<and> (\<exists>a. p = a * 2 ^ base_order t \<and> 2 ^ d dvd a \<and> a + 2 ^ d \<le> 2 ^ max_order t
        \<and> (\<forall>b \<in> allocated t. \<not> overlap (a, d) b) \<and> allocated t' = insert (a, d) (allocated t))
    | Some (t', None) \<Rightarrow> t' = t \<and> (\<forall>a. 2 ^ d dvd a \<and> a + 2 ^ d \<le> 2 ^ max_order t \<longrightarrow>
        (\<exists>b \<in> allocated t. overlap (a, d) b))
    | None \<Rightarrow> False"
proof (cases "allocate t d")
  case None
  then show ?thesis using allocate_returns [OF assms] by simp
next
  case (Some q)
  obtain t' r where q: "q = (t', r)" by (cases q)
  show ?thesis
  proof (cases r)
    case None
    then show ?thesis using allocate_none [OF assms, of t'] Some q by auto
  next
    case p: (Some p)
    then have "allocate t d = Some (t', Some p)" using Some q by simp
    from allocate_block [OF assms this] show ?thesis
      using Some q p by simp blast
  qed
qed

text \<open>C21: Freeing a block in use never panics, keeps the tree well formed, and takes exactly that block
  out of the blocks in use, whatever merging of free halves it causes. The last smallest block of a
  tree as large as the array is excepted.\<close>

theorem buddy_deallocate_correct:
  assumes "buddy_ok t" "(a, d) \<in> allocated t"
    and "a + 1 < 2 ^ max_order t \<or> 0 < d \<or> max_order t < LEVEL_COUNT - 1"
  shows "\<exists>t'. deallocate t (a * 2 ^ base_order t) d = Some t' \<and> buddy_ok t'
    \<and> allocated t' = allocated t - {(a, d)}"
  using deallocate_block [OF assms] by metis

text \<open>Allocating a block and freeing it restores the tree byte for byte.\<close>

theorem buddy_alloc_dealloc_roundtrip:
  assumes "buddy_ok t" "d \<le> max_order t" "max_order t < LEVEL_COUNT - 1"
    and "allocate t d = Some (t', Some p)"
  shows "deallocate t' p d = Some t"
proof -
  note fits = buddy_ok_fits [OF assms(1)]
  obtain a T' where q: "tree_alloc d (max_order t) (block_tree t) = Some (a, T')"
    using allocate_cases [OF assms(1,2)] assms(4)
    by (cases "tree_alloc d (max_order t) (block_tree t)") auto
  have t': "p = a * 2 ^ base_order t" "buddy_ok t'" "block_tree t' = T'"
    "max_order t' = max_order t" "base_order t' = base_order t"
    "\<And>m. 0 < m \<Longrightarrow> m \<notin> subtree 1 (max_order t) \<Longrightarrow> node_val t' m = node_val t m"
    using allocate_cases [OF assms(1,2)] assms(4) q by auto
  have "(a, d) \<in> allocated t'"
    using tree_alloc_used [OF fits q, of 0] t' by (simp add: allocated_def)
  then obtain t2 where t2: "deallocate t' p d = Some t2"
    "block_tree t2 = tree_free d (max_order t') a (block_tree t')" "buddy_ok t2"
    "max_order t2 = max_order t'" "base_order t2 = base_order t'"
    "\<And>m. 0 < m \<Longrightarrow> m \<notin> subtree 1 (max_order t') \<Longrightarrow> node_val t2 m = node_val t' m"
    using deallocate_cases [OF t'(2), of a d] t' assms(3) by auto
  have bt: "block_tree t2 = block_tree t"
    using t2(2) tree_alloc_free [OF fits q] t' by simp
  have "node_val t2 m = node_val t m" if "0 < m" for m
  proof (cases "m \<in> subtree 1 (max_order t)")
    case True
    have "rep (node_val t2) 1 (max_order t) (block_tree t)"
      using buddy_ok_rep [OF t2(3)] bt t2(4) t'(4) by simp
    then show ?thesis using rep_determines buddy_ok_rep [OF assms(1)] True by blast
  next
    case False
    then show ?thesis using that t2(6) [OF that] t'(6) [OF that] t'(4) by simp
  qed
  then have "t2 = t" using same_nodes [of t2 t] t2(4,5) t' by simp
  then show ?thesis using t2(1) by simp
qed


section \<open>The fresh tree\<close>

lemma write_table_level:
  "l < 23 \<Longrightarrow> write_table ! l = (2 ^ l - 1, 23 - l, 2 ^ l)"
proof -
  assume "l < 23"
  then have "l = 0 \<or> l = 1 \<or> l = 2 \<or> l = 3 \<or> l = 4 \<or> l = 5 \<or> l = 6 \<or> l = 7 \<or>
      l = 8 \<or> l = 9 \<or> l = 10 \<or> l = 11 \<or> l = 12 \<or> l = 13 \<or> l = 14 \<or> l = 15
      \<or> l = 16 \<or> l = 17 \<or> l = 18 \<or> l = 19 \<or> l = 20 \<or> l = 21 \<or> l = 22" by presburger
  then show ?thesis by (elim disjE) (simp_all add: write_table_def)
qed

lemma write_bytes_outside:
  "(\<And>w. w \<in> set ws \<Longrightarrow> i < fst w) \<Longrightarrow> foldl write_bytes b ws i = b i"
proof (induction ws arbitrary: b)
  case (Cons w ws)
  have "i < fst w" using Cons.prems [of w] by simp
  then have "write_bytes b w i = b i" by (cases w) (simp add: write_bytes_def)
  then show ?case using Cons.IH [of "write_bytes b w"] Cons.prems by simp
qed simp

lemma buddy_new_level:
  assumes "2 ^ l \<le> n" "n < 2 ^ Suc l" "l < 23"
  shows "node_val (buddy_new base mx blocks) n = 23 - l"
proof -
  have len: "length write_table = 23" by (simp add: write_table_def)
  have later: "n - 1 < fst w" if "w \<in> set (drop (Suc l) write_table)" for w
  proof -
    obtain j where j: "w = write_table ! j" "Suc l \<le> j" "j < 23"
      using \<open>w \<in> _\<close> len by (auto simp: in_set_conv_nth)
    then have "(2::nat) ^ Suc l \<le> 2 ^ j" by (intro power_increasing) simp_all
    then have "n < 2 ^ j" using assms(2) by linarith
    moreover have "0 < n" using assms(1) by (rule less_le_trans [rotated]) simp
    ultimately show ?thesis using j write_table_level [of j] by simp
  qed
  have split: "write_table = take l write_table @ (2 ^ l - 1, 23 - l, 2 ^ l) # drop (Suc l) write_table"
    using id_take_nth_drop [of l write_table] assms(3) len write_table_level [of l] by simp
  have "2 ^ l - 1 \<le> n - 1" "n - 1 < 2 ^ l - 1 + 2 ^ l" using assms by simp_all
  then have "foldl write_bytes blocks write_table (n - 1) = \<lparr>order_free = 23 - l\<rparr>"
    by (subst split, simp only: foldl_append foldl_Cons write_bytes_outside [OF later])
      (simp add: write_bytes_def)
  then show ?thesis by (simp add: node_val_def buddy_new_def)
qed

lemma buddy_new_free:
  "l + k = 22 \<Longrightarrow> 2 ^ l \<le> n \<Longrightarrow> n < 2 ^ Suc l \<Longrightarrow> all_free (node_val (buddy_new base mx blocks)) n k"
proof (induction k arbitrary: n l)
  case 0
  then show ?case using buddy_new_level [of l n base mx blocks] by simp
next
  case (Suc k)
  have c: "2 ^ Suc l \<le> 2 * n" "2 * n + 1 < 2 ^ Suc (Suc l)" using Suc.prems by simp_all
  then have "2 * n < 2 ^ Suc (Suc l)" "2 ^ Suc l \<le> 2 * n + 1" by linarith+
  then have "all_free (node_val (buddy_new base mx blocks)) (2 * n) k"
    "all_free (node_val (buddy_new base mx blocks)) (2 * n + 1) k"
    using Suc.IH [of "Suc l" "2 * n"] Suc.IH [of "Suc l" "2 * n + 1"] Suc.prems(1) c by simp_all
  moreover have "node_val (buddy_new base mx blocks) n = k + 2"
    using buddy_new_level [of l n base mx blocks] Suc.prems by (simp add: eq_diff_iff)
  ultimately show ?case by simp
qed

text \<open>\<open>BuddyTree::new\<close> writes 23 runs of literal bytes instead of computing the tree; with the
  orders the heap uses (pages of \<open>2 ^ 12\<close> bytes, a largest order of 22) they are the tree of one free
  block, whatever was in the array before.\<close>

theorem buddy_new_all_free:
  "buddy_ok (buddy_new 12 22 blocks) \<and> block_tree (buddy_new 12 22 blocks) = Free
   \<and> allocated (buddy_new 12 22 blocks) = {}"
proof -
  have m: "max_order (buddy_new 12 22 blocks) = 22" "base_order (buddy_new 12 22 blocks) = 12"
    by (simp_all add: buddy_new_def)
  have "rep (node_val (buddy_new 12 22 blocks)) 1 22 Free"
    using buddy_new_free [of 0 22 1 12 22 blocks] by simp
  then show ?thesis using rep_block_tree [of "buddy_new 12 22 blocks" Free] m
    by (simp add: buddy_ok_def allocated_def LEVEL_COUNT_def)
qed

text \<open>The bound of the assertion in \<open>deallocate\<close> is strict although node indices start at 1, so the
  last smallest block of a tree that fills the array can be allocated but not freed: the call panics
  whatever the state.\<close>

theorem buddy_last_block_not_freed:
  assumes "max_order t = LEVEL_COUNT - 1" "base_order t + max_order t < 64"
  shows "deallocate t ((2 ^ max_order t - 1) * 2 ^ base_order t) 0 = None"
proof -
  have m: "max_order t = 22" using assms by (simp add: LEVEL_COUNT_def)
  then have b: "base_order t < 42" using assms by simp
  have "wshr ((2 ^ 22 - 1) * 2 ^ base_order t) (0 + base_order t) = 2 ^ 22 - 1"
    using b by (simp add: wshr_def drop_bit_eq_div)
  then show ?thesis using m
    by (simp add: deallocate_def blocks_in_tree_def BLOCKS_IN_TREE_val wadd_def)
qed

theorem buddy_last_block_not_freed_witness:
  "deallocate (buddy_new 12 22 (\<lambda>i. \<lparr>order_free = 0\<rparr>)) ((2 ^ 22 - 1) * 2 ^ 12) 0 = None"
  using buddy_last_block_not_freed [of "buddy_new 12 22 (\<lambda>i. \<lparr>order_free = 0\<rparr>)"]
  by (simp add: buddy_new_def LEVEL_COUNT_def)

definition demo_tree :: buddy_tree where
  "demo_tree = \<lparr>base_order = 12, max_order = 2,
     flat_blocks = (\<lambda>i. \<lparr>order_free = (if i = 0 then 2 else if i = 1 then 1 else if i = 2 then 2
       else if i = 4 then 1 else if i = 5 then 1 else if i = 6 then 1 else 0)\<rparr>)\<rparr>"

lemma demo_tree_ok:
  "block_tree demo_tree = Split (Split Used Free) Free" "buddy_ok demo_tree"
  "allocated demo_tree = {(0, 0)}" "max_order demo_tree = 2" "base_order demo_tree = 12"
  by (simp_all add: allocated_def buddy_ok_def block_tree_def demo_tree_def node_val_def
    numeral_2_eq_2 LEVEL_COUNT_def)

theorem buddy_allocate_correct_witness:
  "case allocate demo_tree 1 of
      Some (t', Some p) \<Rightarrow> buddy_ok t' \<and> (\<exists>a. p = a * 2 ^ 12 \<and> 2 ^ 1 dvd a \<and> a + 2 ^ 1 \<le> 2 ^ 2
        \<and> (\<forall>b \<in> {(0, 0)}. \<not> overlap (a, 1) b) \<and> allocated t' = insert (a, 1) {(0, 0)})
    | Some (t', None) \<Rightarrow> t' = demo_tree \<and> (\<forall>a. 2 ^ 1 dvd a \<and> a + 2 ^ 1 \<le> 2 ^ 2 \<longrightarrow>
        (\<exists>b \<in> {(0, 0)}. overlap (a, 1) b))
    | None \<Rightarrow> False"
  using buddy_allocate_correct [of demo_tree 1, unfolded demo_tree_ok(3-5), OF demo_tree_ok(2)] by simp

theorem buddy_deallocate_correct_witness:
  "\<exists>t'. deallocate demo_tree (0 * 2 ^ 12) 0 = Some t' \<and> buddy_ok t' \<and> allocated t' = {}"
  using buddy_deallocate_correct [of demo_tree 0 0] demo_tree_ok by (simp add: LEVEL_COUNT_def)

theorem buddy_alloc_dealloc_roundtrip_witness:
  "case allocate demo_tree 0 of Some (t', Some p) \<Rightarrow> p = 4096 \<and> deallocate t' p 0 = Some demo_tree | _ \<Rightarrow> False"
proof -
  have "tree_alloc 0 2 (Split (Split Used Free) Free) = Some (1, Split (Split Used Used) Free)"
    by (simp add: numeral_2_eq_2)
  then obtain t' where t': "allocate demo_tree 0 = Some (t', Some 4096)"
    using allocate_cases [of demo_tree 0] demo_tree_ok by auto
  show ?thesis using buddy_alloc_dealloc_roundtrip [OF demo_tree_ok(2) _ _ t'] demo_tree_ok t'
    by (simp add: LEVEL_COUNT_def)
qed

end
