(* ===== verification/BuddySystem.thy ===== *)
theory BuddySystem
  imports BuddyTree
begin

text \<open>
  The buddy system on a real heap (\<open>unialloc/src/buddy_system/heap.rs\<close>): the tree of
  \<open>BuddyTree\<close> behind a lock, a heap that starts at \<open>heap_start\<close>, and the \<open>GlobalAlloc\<close> and
  \<open>Allocator\<close> functions on it. The const parameters are the fields of the tree. The lock makes every
  operation atomic; an operation is a function of the heap. \<open>mmap\<close> and \<open>munmap\<close> of the operating
  system are parameters. Memory contents are a map from addresses to bytes, in \<open>buddy_mem\<close>; a write
  through a null pointer crashes, as a panic does.
\<close>

section \<open>Orders and sizes\<close>

definition next_page_size :: "nat \<Rightarrow> nat" where
  "next_page_size heap_size =
     (if heap_size mod PAGE_SIZE = 0 then heap_size
      else align_down (wsub (wadd heap_size PAGE_SIZE) 1) PAGE_SIZE)"

text \<open>The subtractions are on \<open>u32\<close>.\<close>

definition log2_rs :: "nat \<Rightarrow> nat" where
  "log2_rs n = (let n = next_power_of_two n in (64 + 2 ^ 32 - leading_zeros n - 1) mod 2 ^ 32)"

definition order :: "nat \<Rightarrow> nat \<Rightarrow> nat option" where
  "order BASE_ORDER val =
     (if val = 0 then Some 0 else
      let log2 = log2_rs val in
      if log2 > 255 then None
      else if log2 \<ge> BASE_ORDER then Some (log2 - BASE_ORDER) else Some 0)"

text \<open>Here the \<open>None\<close> is the function's own, not a panic.\<close>

definition order_checked :: "nat \<Rightarrow> nat \<Rightarrow> nat option" where
  "order_checked BASE_ORDER val =
     (if val = 0 then Some 0 else
      let log2 = log2_rs val in
      if log2 > 255 then None
      else if log2 \<ge> BASE_ORDER then Some (log2 - BASE_ORDER) else Some 0)"

definition order_u32 :: "nat \<Rightarrow> nat \<Rightarrow> nat" where
  "order_u32 BASE_ORDER val =
     (if val = 0 then 0 else
      let log2 = log2_rs val in if log2 \<ge> BASE_ORDER then log2 - BASE_ORDER else 0)"

definition get_heap_size_by_level :: "nat \<Rightarrow> nat \<Rightarrow> nat option" where
  "get_heap_size_by_level BASE_ORDER level = do {
     ensure (level \<le> 2 ^ 32 - 1);
     Some (2 ^ ((level + BASE_ORDER + 2 ^ 32 - 1) mod 2 ^ 32) mod usize_range) }"

definition tree_size :: nat where
  "tree_size = BLOCKS_IN_TREE"

definition heap_size :: "nat \<Rightarrow> nat \<Rightarrow> nat" where
  "heap_size BASE_ORDER MAX_ORDER = 2 ^ ((BASE_ORDER + MAX_ORDER) mod 256) mod usize_range"

section \<open>Creation and destruction\<close>

record buddy_system =
  tree_start :: nat
  heap_start :: nat
  tree :: buddy_tree

abbreviation BASE_ORDER :: "buddy_system \<Rightarrow> nat" where
  "BASE_ORDER s \<equiv> base_order (tree s)"

abbreviation MAX_ORDER :: "buddy_system \<Rightarrow> nat" where
  "MAX_ORDER s \<equiv> max_order (tree s)"

text \<open>\<open>blocks\<close> is what the memory at \<open>tree_start\<close> holds before the tree is written there.\<close>

definition new_with_start :: "nat \<Rightarrow> nat \<Rightarrow> nat \<Rightarrow> nat \<Rightarrow> (nat \<Rightarrow> block) \<Rightarrow> buddy_system" where
  "new_with_start base mx heap_start' tree_start' blocks =
     \<lparr>tree_start = tree_start', heap_start = heap_start', tree = buddy_new base mx blocks\<rparr>"

text \<open>\<open>mmap os size\<close> is the new state of the operating system and the address it returns.\<close>

definition alloc_large :: "('os \<Rightarrow> nat \<Rightarrow> 'os \<times> nat) \<Rightarrow> 'os \<Rightarrow> nat \<Rightarrow> ('os \<times> nat) option" where
  "alloc_large mmap os sz = do {
     let (os, p1) = mmap os (sz div 2);
     let (os, p2) = mmap os (sz div 2);
     ensure (p1 \<noteq> usize_range - 1);
     ensure (p2 \<noteq> usize_range - 1);
     let small = min p2 p1;
     ensure (wadd small (sz div 2) = max p2 p1);
     Some (os, small) }"

definition bs_new ::
  "('os \<Rightarrow> nat \<Rightarrow> 'os \<times> nat) \<Rightarrow> 'os \<Rightarrow> nat \<Rightarrow> nat \<Rightarrow> (nat \<Rightarrow> block) \<Rightarrow> ('os \<times> buddy_system) option" where
  "bs_new mmap os base mx blocks = do {
     let tree_size' = next_page_size tree_size;
     ensure (tree_size' mod PAGE_SIZE = 0);
     tree_layout \<leftarrow> layout_from_size_align tree_size' 8;
     heap_layout \<leftarrow> layout_from_size_align (heap_size base mx) 8;
     let (os, tree_start') = mmap os (lsize tree_layout);
     let (os, heap_start') = mmap os (lsize heap_layout);
     Some (os, new_with_start base mx heap_start' tree_start' blocks) }"

definition bs_drop :: "('os \<Rightarrow> nat \<Rightarrow> nat \<Rightarrow> 'os) \<Rightarrow> 'os \<Rightarrow> buddy_system \<Rightarrow> 'os option" where
  "bs_drop munmap os s = do {
     let tree_size' = next_page_size tree_size;
     ensure (tree_size' mod PAGE_SIZE = 0);
     tree_layout \<leftarrow> layout_from_size_align tree_size' 8;
     heap_layout \<leftarrow> layout_from_size_align (heap_size (BASE_ORDER s) (MAX_ORDER s)) 8;
     let os = munmap os (tree_start s) (lsize tree_layout);
     Some (munmap os (heap_start s) (lsize heap_layout)) }"

section \<open>The global allocator interface\<close>

text \<open>Each function returns the new heap and a pointer, 0 being null.\<close>

definition bs_alloc :: "buddy_system \<Rightarrow> layout \<Rightarrow> (buddy_system \<times> nat) option" where
  "bs_alloc s l =
     (if lsize l > 2 ^ 63 - 1 then Some (s, 0) else do {
        l \<leftarrow> layout_from_size_align (next_page_size (lsize l)) (lalign l);
        (case order_checked (BASE_ORDER s) (lsize l) of
           None \<Rightarrow> Some (s, 0)
         | Some ord \<Rightarrow> do {
             (t, ptr) \<leftarrow> allocate (tree s) ord;
             let s = s\<lparr>tree := t\<rparr>;
             (case ptr of
                None \<Rightarrow> Some (s, 0)
              | Some p \<Rightarrow> do {
                  ensure (lsize l < usize_range - 1);
                  Some (s, wadd p (heap_start s)) }) }) })"

definition bs_dealloc :: "buddy_system \<Rightarrow> nat \<Rightarrow> layout \<Rightarrow> buddy_system option" where
  "bs_dealloc s ptr l =
     (if ptr = 0 \<or> lsize l > 2 ^ 63 - 1 then Some s else do {
        l \<leftarrow> layout_from_size_align (next_page_size (lsize l)) (lalign l);
        ensure (ptr \<ge> heap_start s
          \<and> ptr < wadd (heap_start s) (heap_size (BASE_ORDER s) (MAX_ORDER s)));
        ord \<leftarrow> order_checked (BASE_ORDER s) (lsize l);
        let ptr_offset = wsub ptr (heap_start s);
        t \<leftarrow> deallocate (tree s) ptr_offset ord;
        Some (s\<lparr>tree := t\<rparr>) })"

record buddy_mem =
  bheap :: buddy_system
  bytes :: "nat \<Rightarrow> nat"

text \<open>\<open>copy_nonoverlapping\<close>, whose contract excludes ranges that meet, and \<open>write_bytes\<close>.\<close>

definition copy_bytes :: "(nat \<Rightarrow> nat) \<Rightarrow> nat \<Rightarrow> nat \<Rightarrow> nat \<Rightarrow> (nat \<Rightarrow> nat) option" where
  "copy_bytes m src dst n = do {
     ensure (n = 0 \<or> src + n \<le> dst \<or> dst + n \<le> src);
     Some (\<lambda>x. if dst \<le> x \<and> x < dst + n then m (src + (x - dst)) else m x) }"

definition set_bytes :: "(nat \<Rightarrow> nat) \<Rightarrow> nat \<Rightarrow> nat \<Rightarrow> nat \<Rightarrow> nat \<Rightarrow> nat" where
  "set_bytes m dst v n = (\<lambda>x. if dst \<le> x \<and> x < dst + n then v else m x)"

definition bs_realloc :: "buddy_mem \<Rightarrow> nat \<Rightarrow> layout \<Rightarrow> nat \<Rightarrow> (buddy_mem \<times> nat) option" where
  "bs_realloc m ptr l new_size =
     (if next_page_size (lsize l) = next_page_size new_size then Some (m, ptr) else do {
        let new_layout = \<lparr>lsize = new_size, lalign = lalign l\<rparr>;
        (s, new_ptr) \<leftarrow> bs_alloc (bheap m) new_layout;
        if new_ptr \<noteq> 0 then do {
          b \<leftarrow> copy_bytes (bytes m) ptr new_ptr (min (lsize l) new_size);
          s \<leftarrow> bs_dealloc s ptr l;
          Some (\<lparr>bheap = s, bytes = b\<rparr>, new_ptr) }
        else Some (m\<lparr>bheap := s\<rparr>, new_ptr) })"

text \<open>The free function zeroes the memory without looking at the pointer it got.\<close>

definition bs_alloc_zeroed :: "buddy_mem \<Rightarrow> layout \<Rightarrow> (buddy_mem \<times> nat) option" where
  "bs_alloc_zeroed m l = do {
     (s, ptr) \<leftarrow> bs_alloc (bheap m) l;
     ensure (ptr \<noteq> 0 \<or> next_page_size (lsize l) = 0);
     Some (\<lparr>bheap = s, bytes = set_bytes (bytes m) ptr 0 (next_page_size (lsize l))\<rparr>, ptr) }"

section \<open>The allocator interface\<close>

text \<open>
  A \<open>NonNull<[u8]>\<close> is a pair of an address and a length, and \<open>layout.dangling()\<close> is the alignment.
  \<open>BUDDY_HEAP\<close> is the only heap the functions below reach; \<open>self\<close> is that heap.
\<close>

definition bs_allocate :: "buddy_system \<Rightarrow> layout \<Rightarrow> (buddy_system \<times> (alloc_error + nat \<times> nat)) option" where
  "bs_allocate s l = do {
     (s, ptr) \<leftarrow> bs_alloc s l;
     ensure (ptr \<noteq> 0);
     Some (s, Inr (ptr, lsize l)) }"

definition bs_deallocate :: "buddy_system \<Rightarrow> nat \<Rightarrow> layout \<Rightarrow> buddy_system option" where
  "bs_deallocate s ptr l = bs_dealloc s ptr l"

definition alloc_impl :: "buddy_mem \<Rightarrow> layout \<Rightarrow> bool \<Rightarrow> (buddy_mem \<times> (alloc_error + nat \<times> nat)) option" where
  "alloc_impl m l zeroed =
     (if lsize l = 0 then Some (m, Inr (lalign l, 0)) else do {
        (m, raw_ptr) \<leftarrow>
          (if zeroed then bs_alloc_zeroed m l
           else map_option (\<lambda>(s, p). (m\<lparr>bheap := s\<rparr>, p)) (bs_alloc (bheap m) l));
        Some (m, if raw_ptr = 0 then Inl ENOMEM else Inr (raw_ptr, lsize l)) })"

definition grow_impl ::
  "buddy_mem \<Rightarrow> nat \<Rightarrow> layout \<Rightarrow> layout \<Rightarrow> bool \<Rightarrow> (buddy_mem \<times> (alloc_error + nat \<times> nat)) option" where
  "grow_impl m ptr old_layout new_layout zeroed = do {
     ensure (lsize new_layout \<ge> lsize old_layout);
     if lsize old_layout = 0 then alloc_impl m new_layout zeroed
     else if lalign old_layout = lalign new_layout then do {
       let new_size = lsize new_layout;
       (m, raw_ptr) \<leftarrow> bs_realloc m ptr old_layout new_size;
       if raw_ptr = 0 then Some (m, Inl ENOMEM)
       else do {
         let m = (if zeroed then m\<lparr>bytes := set_bytes (bytes m) (raw_ptr + lsize old_layout) 0
                                     (new_size - lsize old_layout)\<rparr> else m);
         Some (m, Inr (raw_ptr, new_size)) } }
     else do {
       (m, r) \<leftarrow> alloc_impl m new_layout zeroed;
       (case r of
          Inl e \<Rightarrow> Some (m, Inl e)
        | Inr (new_ptr, n) \<Rightarrow> do {
            b \<leftarrow> copy_bytes (bytes m) ptr new_ptr (lsize old_layout);
            s \<leftarrow> bs_dealloc (bheap m) ptr old_layout;
            Some (\<lparr>bheap = s, bytes = b\<rparr>, Inr (new_ptr, n)) }) } }"

definition bsa_allocate :: "buddy_system \<Rightarrow> layout \<Rightarrow> (buddy_system \<times> (alloc_error + nat \<times> nat)) option" where
  "bsa_allocate s l =
     (if lsize l = 0 then Some (s, Inr (lalign l, 0)) else do {
        l' \<leftarrow> layout_from_size_align (next_page_size (lsize l)) (lalign l);
        (s, raw_ptr) \<leftarrow> bs_alloc s l';
        Some (s, if raw_ptr = 0 then Inl ENOMEM else Inr (raw_ptr, lsize l)) })"

definition bsa_deallocate :: "buddy_system \<Rightarrow> nat \<Rightarrow> layout \<Rightarrow> buddy_system option" where
  "bsa_deallocate s ptr l =
     (if lsize l \<noteq> 0 then do {
        l' \<leftarrow> layout_from_size_align (next_page_size (lsize l)) (lalign l);
        bs_dealloc s ptr l' }
      else Some s)"

definition bs_grow ::
  "buddy_mem \<Rightarrow> nat \<Rightarrow> layout \<Rightarrow> layout \<Rightarrow> (buddy_mem \<times> (alloc_error + nat \<times> nat)) option" where
  "bs_grow m ptr old_layout new_layout = grow_impl m ptr old_layout new_layout False"

definition bsa_grow ::
  "buddy_mem \<Rightarrow> nat \<Rightarrow> layout \<Rightarrow> layout \<Rightarrow> (buddy_mem \<times> (alloc_error + nat \<times> nat)) option" where
  "bsa_grow m ptr old_layout new_layout = grow_impl m ptr old_layout new_layout False"

section \<open>The contract\<close>

text \<open>The blocks in use, as ranges of addresses, and the invariant of a heap.\<close>

definition heap_blocks :: "buddy_system \<Rightarrow> (nat \<times> nat) set" where
  "heap_blocks s =
     (\<lambda>(a, d). (heap_start s + a * 2 ^ BASE_ORDER s, 2 ^ (BASE_ORDER s + d))) ` allocated (tree s)"

definition heap_end :: "buddy_system \<Rightarrow> nat" where
  "heap_end s = heap_start s + 2 ^ (BASE_ORDER s + MAX_ORDER s)"

definition bs_ok :: "buddy_system \<Rightarrow> bool" where
  "bs_ok s \<longleftrightarrow> buddy_ok (tree s) \<and> 0 < heap_start s \<and> heap_end s < usize_range \<and> BASE_ORDER s = 12"

text \<open>The bytes of the block that a layout is given.\<close>

definition block_bytes :: "layout \<Rightarrow> nat" where
  "block_bytes l = 2 ^ max 12 (log2_rs (next_page_size (lsize l)))"

definition ranges_apart :: "nat \<times> nat \<Rightarrow> nat \<times> nat \<Rightarrow> bool" where
  "ranges_apart x y \<longleftrightarrow> fst x + snd x \<le> fst y \<or> fst y + snd y \<le> fst x"

section \<open>Sizes\<close>

lemma npot_bit_length:
  assumes "n \<le> 2 ^ 63"
  shows "next_power_of_two n = 2 ^ bit_length (n - 1)" "bit_length (n - 1) \<le> 63"
proof -
  have l: "bit_length (n - 1) \<le> 63"
  proof (cases "n = 0")
    case False
    then have "n - 1 < 2 ^ 63" using assms by linarith
    then show ?thesis by (rule bit_length_le)
  qed simp
  have "(2::nat) ^ bit_length (n - 1) < 2 ^ 64" using l by (intro power_strict_increasing) simp_all
  then show "next_power_of_two n = 2 ^ bit_length (n - 1)"
    by (cases "n \<le> 1") (auto simp: next_power_of_two_def le_Suc_eq)
  show "bit_length (n - 1) \<le> 63" by (rule l)
qed

lemma log2_rs_eq:
  assumes "n \<le> 2 ^ 63"
  shows "log2_rs n = bit_length (n - 1)"
proof -
  note b = npot_bit_length [OF assms]
  have "bit_length (2 ^ bit_length (n - 1)) = Suc (bit_length (n - 1))"
    by (rule bit_length_unique) simp_all
  then have "leading_zeros (next_power_of_two n) = 63 - bit_length (n - 1)"
    using b by (simp add: leading_zeros_def)
  then have "log2_rs n = (bit_length (n - 1) + 2 ^ 32) mod 2 ^ 32"
    unfolding log2_rs_def Let_def using b(2) by (intro arg_cong [of _ _ "\<lambda>x. x mod 2 ^ 32"]) simp
  then show ?thesis using b(2) by (simp add: mod_add_self2)
qed

lemma log2_rs_covers: "n \<le> 2 ^ 63 \<Longrightarrow> n \<le> 2 ^ log2_rs n"
  using bit_length_bounds [of "n - 1"] by (cases "n \<le> 1") (auto simp: log2_rs_eq le_Suc_eq)

lemma log2_rs_63: "n \<le> 2 ^ 63 \<Longrightarrow> log2_rs n \<le> 63"
  using npot_bit_length log2_rs_eq by simp

lemma log2_rs_tight: "1 < n \<Longrightarrow> n \<le> 2 ^ 63 \<Longrightarrow> 2 ^ (log2_rs n - 1) < n"
  using bit_length_bounds [of "n - 1"] by (auto simp: log2_rs_eq)

text \<open>Rounding up to a page: the least multiple of the page size that is no smaller.\<close>

lemma next_page_size_eq:
  assumes "n \<le> 2 ^ 63"
  shows "next_page_size n = (n + 4095) div 4096 * 4096"
proof (cases "n mod PAGE_SIZE = 0")
  case True
  then obtain q where "n = 4096 * q" by (auto simp: PAGE_SIZE_def)
  then show ?thesis by (simp add: next_page_size_def PAGE_SIZE_def)
next
  case False
  have "wadd n PAGE_SIZE = n + 4096" using assms by (simp add: PAGE_SIZE_def)
  then have "wsub (wadd n PAGE_SIZE) 1 = n + 4095" using assms by simp
  then have "next_page_size n = align_down (n + 4095) 4096"
    using False by (simp add: next_page_size_def) (simp add: PAGE_SIZE_def)
  also have "\<dots> = (n + 4095) div 4096 * 4096"
    using align_down_eq [of 4096] page_pow2 by (simp add: PAGE_SIZE_def)
  finally show ?thesis .
qed

lemma next_page_size_bounds:
  "n \<le> 2 ^ 63 \<Longrightarrow> n \<le> next_page_size n \<and> next_page_size n \<le> 2 ^ 63 \<and> next_page_size n < n + 4096
    \<and> 4096 dvd next_page_size n"
proof -
  assume n: "n \<le> 2 ^ 63"
  have "(n + 4095) div 4096 \<le> (2 ^ 63 + 4095) div 4096" using n by (intro div_le_mono) simp
  then have "(n + 4095) div 4096 * 4096 \<le> 2 ^ 63" by simp
  moreover have "n \<le> (n + 4095) div 4096 * 4096" "(n + 4095) div 4096 * 4096 < n + 4096"
    by linarith+
  ultimately show ?thesis unfolding next_page_size_eq [OF n] by simp
qed

lemma next_page_layout:
  assumes "lsize l \<le> 2 ^ 63 - 1" "valid_layout l"
  shows "layout_from_size_align (next_page_size (lsize l)) (lalign l) =
     Some \<lparr>lsize = next_page_size (lsize l), lalign = lalign l\<rparr>"
proof -
  have p: "is_pow2 (lalign l)" "lalign l < 2 ^ 64" using assms by (auto simp: valid_layout_def)
  then obtain k where k: "lalign l = 2 ^ k" by (auto simp: is_pow2_iff)
  have "k < 64" using p(2) unfolding k by (rule power_less_imp_less_exp [rotated]) simp
  then have "(2::nat) ^ k \<le> 2 ^ 63" by (intro power_increasing) simp_all
  moreover have "next_page_size (lsize l) \<le> 2 ^ 63" using next_page_size_bounds [of "lsize l"] assms by simp
  ultimately have "next_page_size (lsize l) \<le> 2 ^ 64 - 1 - (lalign l - 1)"
    unfolding k by simp
  then show ?thesis using p by (simp add: layout_from_size_align_def)
qed

lemma order_checked_eq:
  "n \<le> 2 ^ 63 \<Longrightarrow> order_checked 12 n = Some (max 12 (log2_rs n) - 12)"
  using log2_rs_63 [of n] by (auto simp: order_checked_def Let_def log2_rs_eq max_def)

lemma block_bytes_covers: "lsize l \<le> 2 ^ 63 - 1 \<Longrightarrow> lsize l \<le> block_bytes l"
proof -
  assume "lsize l \<le> 2 ^ 63 - 1"
  then have b: "lsize l \<le> next_page_size (lsize l)" "next_page_size (lsize l) \<le> 2 ^ 63"
    using next_page_size_bounds [of "lsize l"] by simp_all
  then have "lsize l \<le> 2 ^ log2_rs (next_page_size (lsize l))"
    using log2_rs_covers [of "next_page_size (lsize l)"] by linarith
  also have "\<dots> \<le> block_bytes l" unfolding block_bytes_def by (intro power_increasing) simp_all
  finally show ?thesis .
qed


section \<open>Allocation\<close>

lemma bs_ok_orders:
  assumes "bs_ok s"
  shows "MAX_ORDER s < 23" "heap_size (BASE_ORDER s) (MAX_ORDER s) = 2 ^ (12 + MAX_ORDER s)"
    "heap_end s = heap_start s + 2 ^ (12 + MAX_ORDER s)" "2 ^ (12 + MAX_ORDER s) < (2::nat) ^ 64"
proof -
  show m: "MAX_ORDER s < 23" using assms by (simp add: bs_ok_def buddy_ok_def LEVEL_COUNT_def)
  then show p: "2 ^ (12 + MAX_ORDER s) < (2::nat) ^ 64"
    by (intro power_strict_increasing) simp_all
  have "BASE_ORDER s = 12" using assms by (simp add: bs_ok_def)
  then show "heap_size (BASE_ORDER s) (MAX_ORDER s) = 2 ^ (12 + MAX_ORDER s)"
    using m p by (simp add: heap_size_def)
  show "heap_end s = heap_start s + 2 ^ (12 + MAX_ORDER s)"
    using assms by (simp add: heap_end_def bs_ok_def)
qed

lemma bs_alloc_cases:
  assumes ok: "bs_ok s" and l: "valid_layout l"
  obtains "bs_alloc s l = Some (s, 0)"
  | t a d where "bs_alloc s l = Some (s\<lparr>tree := t\<rparr>, heap_start s + a * 2 ^ 12)"
    "lsize l \<le> 2 ^ 63 - 1" "d = max 12 (log2_rs (next_page_size (lsize l))) - 12"
    "allocate (tree s) d = Some (t, Some (a * 2 ^ 12))" "d \<le> MAX_ORDER s"
    "a < 2 ^ MAX_ORDER s"
proof (cases "lsize l > 2 ^ 63 - 1")
  case True
  then show ?thesis using that(1) by (simp add: bs_alloc_def)
next
  case False
  define d where "d = max 12 (log2_rs (next_page_size (lsize l))) - 12"
  have b: "BASE_ORDER s = 12" "buddy_ok (tree s)" using ok by (simp_all add: bs_ok_def)
  have np: "next_page_size (lsize l) \<le> 2 ^ 63" using next_page_size_bounds [of "lsize l"] False by simp
  have al: "bs_alloc s l = do {
      (t, ptr) \<leftarrow> allocate (tree s) d;
      (case ptr of None \<Rightarrow> Some (s\<lparr>tree := t\<rparr>, 0)
       | Some p \<Rightarrow> Some (s\<lparr>tree := t\<rparr>, wadd p (heap_start s))) }"
    using False next_page_layout [of l] l order_checked_eq [OF np] np b
    by (simp add: bs_alloc_def d_def Let_def cong: option.case_cong prod.case_cong)
  show ?thesis
  proof (cases "d \<le> MAX_ORDER s")
    case False
    have "node_val (tree s) 1 \<le> MAX_ORDER s + 1" using buddy_ok_rep [OF b(2)] rep_root_le by blast
    moreover have "block_at (tree s) 0 = Some (node_val (tree s) 1)"
      using block_at_node [of 1 "tree s"] by (simp add: BLOCKS_IN_TREE_val)
    ultimately have "allocate (tree s) d = Some (tree s, None)"
      using False by (auto simp: allocate_def)
    then show ?thesis using that(1) al by simp
  next
    case dm: True
    show ?thesis
    proof (cases "tree_alloc d (MAX_ORDER s) (block_tree (tree s))")
      case None
      then have "allocate (tree s) d = Some (tree s, None)" using allocate_cases [OF b(2) dm] by simp
      then show ?thesis using that(1) al by simp
    next
      case (Some q)
      then obtain a t where a: "a < 2 ^ MAX_ORDER s" "allocate (tree s) d = Some (t, Some (a * 2 ^ 12))"
        using allocate_cases [OF b(2) dm] b by (cases q) auto
      have "a * 2 ^ 12 < 2 ^ (12 + MAX_ORDER s)" using a by (simp add: power_add)
      then have "a * 2 ^ 12 + heap_start s < 2 ^ 64"
        using ok bs_ok_orders(3) [OF ok] by (simp add: bs_ok_def)
      then have "wadd (a * 2 ^ 12) (heap_start s) = heap_start s + a * 2 ^ 12" by simp
      then show ?thesis using that(2) [OF _ _ d_def a(2) dm a(1)] al a False by simp
    qed
  qed
qed


lemma heap_blocks_iff:
  "BASE_ORDER s = 12 \<Longrightarrow> x \<in> heap_blocks s \<longleftrightarrow>
     (\<exists>a d. (a, d) \<in> allocated (tree s) \<and> x = (heap_start s + a * 2 ^ 12, 2 ^ (12 + d)))"
  by (auto simp: heap_blocks_def)

lemma block_apart:
  "\<not> overlap (a, d) (b, e) \<Longrightarrow>
     ranges_apart (h + a * 2 ^ 12, 2 ^ (12 + d)) (h + b * 2 ^ 12, 2 ^ (12 + e))"
proof -
  have p: "(2::nat) ^ (12 + d) = 2 ^ d * 2 ^ 12" "(2::nat) ^ (12 + e) = 2 ^ e * 2 ^ 12"
    by (simp_all add: power_add)
  assume "\<not> overlap (a, d) (b, e)"
  then consider "a + 2 ^ d \<le> b" | "b + 2 ^ e \<le> a" by (auto simp: overlap_def)
  then have "(a + 2 ^ d) * 2 ^ 12 \<le> b * 2 ^ 12 \<or> (b + 2 ^ e) * 2 ^ 12 \<le> a * 2 ^ 12"
    by cases simp_all
  then show ?thesis unfolding ranges_apart_def p fst_conv snd_conv by (auto simp: add_mult_distrib)
qed

lemma block_bytes_order:
  "block_bytes l = 2 ^ (12 + (max 12 (log2_rs (next_page_size (lsize l))) - 12))"
  by (simp add: block_bytes_def)

lemma bs_alloc_block:
  assumes "bs_ok s" "valid_layout l" "bs_alloc s l = Some (s', p)" "p \<noteq> 0"
  shows "bs_ok s' \<and> lsize l \<le> 2 ^ 63 - 1 \<and> lsize l \<le> block_bytes l \<and> heap_start s \<le> p
    \<and> p + block_bytes l \<le> heap_end s \<and> block_bytes l dvd p - heap_start s
    \<and> (\<forall>x \<in> heap_blocks s. ranges_apart (p, block_bytes l) x)
    \<and> heap_blocks s' = insert (p, block_bytes l) (heap_blocks s) \<and> heap_end s' = heap_end s
    \<and> MAX_ORDER s' = MAX_ORDER s"
  using bs_alloc_cases [OF assms(1,2)]
proof cases
  case 1
  then show ?thesis using assms(3,4) by simp
next
  case (2 t a d)
  have b: "BASE_ORDER s = 12" "buddy_ok (tree s)" "0 < heap_start s"
    using assms(1) by (simp_all add: bs_ok_def)
  let ?s = "s\<lparr>tree := t\<rparr>" and ?p = "heap_start s + a * 2 ^ 12"
  have bb: "block_bytes l = 2 ^ (12 + d)" unfolding block_bytes_order 2(3) ..
  obtain a' where "a * 2 ^ 12 = a' * 2 ^ BASE_ORDER s" and A': "buddy_ok t" "2 ^ d dvd a'"
    "a' + 2 ^ d \<le> 2 ^ MAX_ORDER s" "\<forall>x \<in> allocated (tree s). \<not> overlap (a', d) x"
    "allocated t = insert (a', d) (allocated (tree s))"
    "max_order t = MAX_ORDER s" "base_order t = BASE_ORDER s"
    using allocate_block [OF b(2) 2(5) 2(4)] by metis
  then have "a = a'" using b(1) by simp
  note A = A' [folded this]
  have fit: "a * 2 ^ 12 + 2 ^ (12 + d) \<le> 2 ^ (12 + MAX_ORDER s)"
    using A(3) mult_le_mono1 [of "a + 2 ^ d" "2 ^ MAX_ORDER s" "2 ^ 12"]
    by (simp add: power_add add_mult_distrib)
  have ends: "heap_end s = heap_start s + 2 ^ (12 + MAX_ORDER s)" "heap_end ?s = heap_end s"
    using bs_ok_orders [OF assms(1)] A by (simp_all add: heap_end_def)
  have "bs_ok ?s" using assms(1) A ends by (simp add: bs_ok_def)
  moreover have "heap_blocks ?s = insert (?p, block_bytes l) (heap_blocks s)"
    using A b bb by (simp add: heap_blocks_def)
  moreover have "\<forall>x \<in> heap_blocks s. ranges_apart (?p, block_bytes l) x"
  proof
    fix x assume "x \<in> heap_blocks s"
    then obtain c e where x: "(c, e) \<in> allocated (tree s)" "x = (heap_start s + c * 2 ^ 12, 2 ^ (12 + e))"
      unfolding heap_blocks_iff [OF b(1)] by blast
    then show "ranges_apart (?p, block_bytes l) x"
      unfolding bb x(2) by (intro block_apart) (use A(4) in blast)
  qed
  moreover have "block_bytes l dvd a * 2 ^ 12"
    using A(2) unfolding bb power_add by (simp add: mult.commute)
  ultimately show ?thesis
    using 2(1,2) assms(3) ends b(3) fit bb block_bytes_covers [of l] A by auto
qed

lemma bs_alloc_null:
  assumes "bs_ok s" "valid_layout l"
  shows "\<exists>s' p. bs_alloc s l = Some (s', p) \<and> (p = 0 \<longrightarrow> s' = s)"
  using bs_alloc_cases [OF assms] assms(1) by (metis add_is_0 bs_ok_def less_numeral_extra(3))

text \<open>C22: The heap's \<open>alloc\<close> never panics. It returns null and leaves the heap as it was, or a block
  inside the heap that is at least as large as the request, aligned (relative to the heap's start) to
  its own size, apart from every block in use, and exactly that block becomes used.\<close>

theorem buddy_heap_alloc_correct:
  assumes "bs_ok s" "valid_layout l"
  shows "\<exists>s' p. bs_alloc s l = Some (s', p) \<and> bs_ok s' \<and>
    (if p = 0 then s' = s else
      lsize l \<le> block_bytes l \<and> heap_start s \<le> p \<and> p + block_bytes l \<le> heap_end s
      \<and> block_bytes l dvd p - heap_start s \<and> (\<forall>x \<in> heap_blocks s. ranges_apart (p, block_bytes l) x)
      \<and> heap_blocks s' = insert (p, block_bytes l) (heap_blocks s) \<and> heap_end s' = heap_end s)"
proof -
  obtain s' p where s': "bs_alloc s l = Some (s', p)" "p = 0 \<longrightarrow> s' = s"
    using bs_alloc_null [OF assms] by blast
  then show ?thesis using bs_alloc_block [OF assms s'(1)] assms(1) by auto
qed

lemma bs_dealloc_block:
  assumes "bs_ok s" "valid_layout l" "lsize l \<le> 2 ^ 63 - 1" "(p, block_bytes l) \<in> heap_blocks s"
    and "MAX_ORDER s < 22 \<or> p + 4096 < heap_end s \<or> 4096 < block_bytes l"
  obtains s' where "bs_dealloc s p l = Some s'" "bs_ok s'"
    "heap_blocks s' = heap_blocks s - {(p, block_bytes l)}" "heap_end s' = heap_end s"
proof -
  have b: "BASE_ORDER s = 12" "buddy_ok (tree s)" "0 < heap_start s" "heap_end s < 2 ^ 64"
    using assms(1) by (simp_all add: bs_ok_def)
  define d where "d = max 12 (log2_rs (next_page_size (lsize l))) - 12"
  have bb: "block_bytes l = 2 ^ (12 + d)" unfolding block_bytes_order d_def ..
  have inj: "inj_on (\<lambda>(a, d). (heap_start s + a * 2 ^ 12, (2::nat) ^ (12 + d))) X" for X
    by (auto simp: inj_on_def)
  obtain a where a: "(a, d) \<in> allocated (tree s)" "p = heap_start s + a * 2 ^ 12"
    using assms(4) unfolding heap_blocks_iff [OF b(1)] bb by auto
  note rg = allocated_in_range [OF b(2) a(1)]
  have fit: "a * 2 ^ 12 + 2 ^ (12 + d) \<le> 2 ^ (12 + MAX_ORDER s)"
    using rg mult_le_mono1 [of "a + 2 ^ d" "2 ^ MAX_ORDER s" "2 ^ 12"]
    by (simp add: power_add add_mult_distrib)
  note o = bs_ok_orders [OF assms(1)]
  have last: "a + 1 < 2 ^ MAX_ORDER s \<or> 0 < d \<or> MAX_ORDER s < LEVEL_COUNT - 1"
    using assms(5) a(2) bb o(3) by (cases d) (auto simp: LEVEL_COUNT_def power_add)
  obtain t where t: "deallocate (tree s) (a * 2 ^ 12) d = Some t" "buddy_ok t"
    "allocated t = allocated (tree s) - {(a, d)}" "max_order t = MAX_ORDER s" "base_order t = BASE_ORDER s"
    using deallocate_block [OF b(2) a(1) last] b(1) by metis
  let ?s = "s\<lparr>tree := t\<rparr>"
  have np: "next_page_size (lsize l) \<le> 2 ^ 63" using next_page_size_bounds [of "lsize l"] assms(3) by simp
  have "(1::nat) \<le> 2 ^ (12 + d)" by simp
  then have range: "heap_start s \<le> p" "p < heap_end s" using a(2) fit o(3) by linarith+
  have wa: "wadd (heap_start s) (heap_size (BASE_ORDER s) (MAX_ORDER s)) = heap_end s"
    using o(2,3) b(4) by simp
  have ws: "wsub p (heap_start s) = a * 2 ^ 12" using a(2) range b(4) by simp
  have "bs_dealloc s p l = Some ?s"
    unfolding bs_dealloc_def wa ws Let_def
    using assms(2,3) range b next_page_layout [of l] order_checked_eq [OF np] t(1) d_def by simp
  moreover have "heap_end ?s = heap_end s" using t by (simp add: heap_end_def)
  moreover have "heap_blocks ?s = heap_blocks s - {(p, block_bytes l)}"
    using image_set_diff [OF inj [of UNIV], of "allocated (tree s)" "{(a, d)}"] t a b bb
    by (simp add: heap_blocks_def)
  moreover have "bs_ok ?s" using assms(1) t calculation by (simp add: bs_ok_def)
  ultimately show ?thesis using that by blast
qed


text \<open>C23: \<open>dealloc\<close> with the layout of the allocation never panics and takes exactly that block out of
  the blocks in use (the last page of a heap as large as the tree array excepted).\<close>

theorem buddy_heap_dealloc_correct:
  assumes "bs_ok s" "valid_layout l" "lsize l \<le> 2 ^ 63 - 1" "(p, block_bytes l) \<in> heap_blocks s"
    and "MAX_ORDER s < 22 \<or> p + 4096 < heap_end s \<or> 4096 < block_bytes l"
  shows "\<exists>s'. bs_dealloc s p l = Some s' \<and> bs_ok s'
    \<and> heap_blocks s' = heap_blocks s - {(p, block_bytes l)} \<and> heap_end s' = heap_end s"
  using bs_dealloc_block [OF assms] by metis

section \<open>Reallocation\<close>

lemma copy_bytes_apart:
  assumes "ranges_apart (src, n) (dst, n')" "k \<le> n" "k \<le> n'"
  obtains b where "copy_bytes m src dst k = Some b" "\<And>i. i < k \<Longrightarrow> b (dst + i) = m (src + i)"
    "\<And>r c i. ranges_apart (dst, n') (r, c) \<Longrightarrow> i < c \<Longrightarrow> b (r + i) = m (r + i)"
proof -
  let ?b = "\<lambda>x. if dst \<le> x \<and> x < dst + k then m (src + (x - dst)) else m x"
  have "copy_bytes m src dst k = Some ?b"
    using assms by (auto simp: copy_bytes_def ranges_apart_def)
  moreover have "?b (r + i) = m (r + i)" if "ranges_apart (dst, n') (r, c)" "i < c" for r c i
    using that assms(3) by (auto simp: ranges_apart_def)
  ultimately show ?thesis using that [of ?b] by simp
qed

text \<open>\<open>realloc\<close> never panics. When it fails, nothing changed. When it succeeds, the old block has been
  replaced by one of the new size, the common part of its contents has been kept, and the contents of
  every other block in use are untouched.\<close>

theorem buddy_realloc_preserves:
  assumes ok: "bs_ok (bheap m)" and l: "valid_layout l" "valid_layout l'" "lsize l \<le> 2 ^ 63 - 1"
    and l': "l' = l\<lparr>lsize := n\<rparr>" "n \<le> 2 ^ 63 - 1"
    and own: "(ptr, block_bytes l) \<in> heap_blocks (bheap m)"
    and last: "MAX_ORDER (bheap m) < 22 \<or> ptr + 4096 < heap_end (bheap m) \<or> 4096 < block_bytes l"
  shows "\<exists>m' q. bs_realloc m ptr l n = Some (m', q) \<and> bs_ok (bheap m') \<and> (if q = 0 then m' = m else
      heap_blocks (bheap m') = insert (q, block_bytes l') (heap_blocks (bheap m) - {(ptr, block_bytes l)})
      \<and> (\<forall>i < min (lsize l) n. bytes m' (q + i) = bytes m (ptr + i))
      \<and> (\<forall>(r, c) \<in> heap_blocks (bheap m) - {(ptr, block_bytes l)}. \<forall>i < c. bytes m' (r + i) = bytes m (r + i)))"
proof (cases "next_page_size (lsize l) = next_page_size n")
  case True
  have "block_bytes l' = block_bytes l" using True l'(1) by (simp add: block_bytes_def)
  then show ?thesis using True ok own by (auto simp: bs_realloc_def)
next
  case False
  have ll: "\<lparr>lsize = n, lalign = lalign l\<rparr> = l'" using l'(1) by (cases l) simp
  obtain s q where s: "bs_alloc (bheap m) l' = Some (s, q)" "q = 0 \<longrightarrow> s = bheap m"
    using bs_alloc_null [OF ok l(2)] by blast
  show ?thesis
  proof (cases "q = 0")
    case True
    then show ?thesis using False s ok by (simp add: bs_realloc_def ll)
  next
    case q: False
    note A = bs_alloc_block [OF ok l(2) s(1) q]
    obtain s2 where s2: "bs_dealloc s ptr l = Some s2" "bs_ok s2"
      "heap_blocks s2 = heap_blocks s - {(ptr, block_bytes l)}"
    proof -
      have "(ptr, block_bytes l) \<in> heap_blocks s" "MAX_ORDER s < 22 \<or> ptr + 4096 < heap_end s \<or> 4096 < block_bytes l"
        using A own last by simp_all
      then show ?thesis using bs_dealloc_block [of s l ptr] A l(1,3) that by blast
    qed
    have ap: "ranges_apart (ptr, block_bytes l) (q, block_bytes l')"
      using A own by (auto simp: ranges_apart_def)
    have k: "min (lsize l) n \<le> block_bytes l" "min (lsize l) n \<le> block_bytes l'"
      using block_bytes_covers [OF l(3)] A l'(1) by auto
    obtain b where b: "copy_bytes (bytes m) ptr q (min (lsize l) n) = Some b"
      "\<And>i. i < min (lsize l) n \<Longrightarrow> b (q + i) = bytes m (ptr + i)"
      "\<And>r c i. ranges_apart (q, block_bytes l') (r, c) \<Longrightarrow> i < c \<Longrightarrow> b (r + i) = bytes m (r + i)"
      using copy_bytes_apart [OF ap k, of "bytes m"] by blast
    have ne: "(q, block_bytes l') \<noteq> (ptr, block_bytes l)"
      using ap by (auto simp: ranges_apart_def block_bytes_def)
    have "bs_realloc m ptr l n = Some (\<lparr>bheap = s2, bytes = b\<rparr>, q)"
      using False s(1) q b(1) s2(1) by (simp add: bs_realloc_def ll)
    moreover have "heap_blocks s2 = insert (q, block_bytes l') (heap_blocks (bheap m) - {(ptr, block_bytes l)})"
      using s2(3) A ne by auto
    ultimately show ?thesis using s2(2) q b A by fastforce
  qed
qed

text \<open>\<open>alloc_zeroed\<close> writes zeroes through the pointer it got without looking at it: a request that
  no block can hold crashes instead of returning null.\<close>

theorem buddy_alloc_zeroed_null_crash:
  assumes "bs_ok (bheap m)" "valid_layout l" "heap_end (bheap m) - heap_start (bheap m) < lsize l"
    "lsize l \<le> 2 ^ 63 - 1"
  shows "bs_alloc_zeroed m l = None"
proof -
  obtain s p where s: "bs_alloc (bheap m) l = Some (s, p)" using bs_alloc_null [OF assms(1,2)] by blast
  have "p = 0"
  proof (rule ccontr)
    assume "p \<noteq> 0"
    from bs_alloc_block [OF assms(1,2) s this] show False using assms(3) by linarith
  qed
  moreover have "next_page_size (lsize l) \<noteq> 0" using next_page_size_bounds [of "lsize l"] assms(3,4) by linarith
  ultimately show ?thesis using s by (simp add: bs_alloc_zeroed_def)
qed


section \<open>A small heap\<close>

definition demo_heap :: buddy_system where
  "demo_heap = \<lparr>tree_start = 0x1000, heap_start = 0x10000, tree = demo_tree\<rparr>"

lemma demo_heap_ok: "bs_ok demo_heap" "heap_blocks demo_heap = {(0x10000, 0x1000)}"
  "heap_end demo_heap = 0x14000" "heap_start demo_heap = 0x10000" "MAX_ORDER demo_heap = 2"
  using demo_tree_ok by (simp_all add: bs_ok_def heap_blocks_def heap_end_def demo_heap_def)

lemma demo_layout:
  "valid_layout \<lparr>lsize = 100, lalign = 8\<rparr>" "valid_layout \<lparr>lsize = 5000, lalign = 8\<rparr>"
  "valid_layout \<lparr>lsize = 100000, lalign = 8\<rparr>"
  "block_bytes \<lparr>lsize = 100, lalign = 8\<rparr> = 4096" "block_bytes \<lparr>lsize = 5000, lalign = 8\<rparr> = 8192"
proof -
  have "is_pow2 8" using is_pow2_power [of 3] by simp
  then show "valid_layout \<lparr>lsize = 100, lalign = 8\<rparr>" "valid_layout \<lparr>lsize = 5000, lalign = 8\<rparr>"
    "valid_layout \<lparr>lsize = 100000, lalign = 8\<rparr>"
    by (simp_all add: valid_layout_def)
  show "block_bytes \<lparr>lsize = 100, lalign = 8\<rparr> = 4096" "block_bytes \<lparr>lsize = 5000, lalign = 8\<rparr> = 8192"
    using bit_length_unique [of 11 4095] bit_length_unique [of 12 8191]
    by (simp_all add: block_bytes_def next_page_size_eq log2_rs_eq)
qed

theorem buddy_heap_alloc_correct_witness:
  "\<exists>s' p. bs_alloc demo_heap \<lparr>lsize = 5000, lalign = 8\<rparr> = Some (s', p) \<and> bs_ok s' \<and>
    (p = 0 \<or> 0x10000 \<le> p \<and> p + 8192 \<le> 0x14000 \<and> heap_blocks s' = {(p, 8192), (0x10000, 0x1000)})"
  using buddy_heap_alloc_correct [OF demo_heap_ok(1) demo_layout(2)] demo_heap_ok demo_layout
  by (auto split: if_splits)

theorem buddy_heap_dealloc_correct_witness:
  "\<exists>s'. bs_dealloc demo_heap 0x10000 \<lparr>lsize = 100, lalign = 8\<rparr> = Some s' \<and> heap_blocks s' = {}"
  using buddy_heap_dealloc_correct [OF demo_heap_ok(1) demo_layout(1), of "0x10000"] demo_heap_ok demo_layout
  by auto

theorem buddy_realloc_preserves_witness:
  "\<exists>m' q. bs_realloc \<lparr>bheap = demo_heap, bytes = id\<rparr> 0x10000 \<lparr>lsize = 100, lalign = 8\<rparr> 5000 = Some (m', q)
    \<and> (q = 0 \<or> heap_blocks (bheap m') = {(q, 8192)} \<and> bytes m' (q + 7) = 0x10007)"
proof -
  let ?m = "\<lparr>bheap = demo_heap, bytes = id\<rparr>"
  have h: "bheap ?m = demo_heap" "bytes ?m = id" by simp_all
  have "\<lparr>lsize = 5000, lalign = 8\<rparr> = \<lparr>lsize = 100, lalign = 8\<rparr>\<lparr>lsize := 5000\<rparr>" by simp
  from buddy_realloc_preserves [of ?m, OF _ demo_layout(1,2) _ this, of "0x10000", unfolded h demo_layout(4,5) demo_heap_ok]
  obtain m' q where r: "bs_realloc ?m 0x10000 \<lparr>lsize = 100, lalign = 8\<rparr> 5000 = Some (m', q)"
    "if q = 0 then m' = ?m else heap_blocks (bheap m') = insert (q, 8192) ({(65536, 4096)} - {(65536, 4096)})
      \<and> (\<forall>i<min 100 5000. bytes m' (q + i) = 65536 + i)"
    using demo_heap_ok(1) by (fastforce simp del: min_def)
  then show ?thesis by (cases "q = 0") (use r in \<open>auto dest: spec [of _ 7]\<close>)
qed

theorem buddy_alloc_zeroed_null_crash_witness:
  "bs_alloc_zeroed \<lparr>bheap = demo_heap, bytes = id\<rparr> \<lparr>lsize = 100000, lalign = 8\<rparr> = None"
  using buddy_alloc_zeroed_null_crash [of "\<lparr>bheap = demo_heap, bytes = id\<rparr>" "\<lparr>lsize = 100000, lalign = 8\<rparr>"]
    demo_heap_ok demo_layout by simp

end
