(* ===== verification/PageMap.thy ===== *)
theory PageMap
  imports UA_Prelude
begin

text \<open>
  The interface of the page map (the trait \<open>TreeNode\<close> of \<open>collections/radix_tree.rs\<close>): a map from pages to
  64-bit words, with range insertion, range removal and lookup, each keyed by a page's address shifted
  left by 16. A slab registers its pages through it (\<open>sc/efficient_sc.rs\<close>). The locale \<open>page_map\<close> states
  what a map promises; \<open>RadixTree\<close> gives the two instances the crate has.
\<close>

section \<open>Keys\<close>

text \<open>\<open>align_12k\<close> scales addresses to 4 KiB pages.\<close>

definition align_12k :: "nat \<Rightarrow> nat" where
  "align_12k ptr =
     (let page_vaddr = align_down ptr PAGE_SIZE;
          tz = ctz PAGE_SIZE in
      if 12 > tz then wshl page_vaddr (12 - tz)
      else if 12 < tz then wshr page_vaddr (tz - 12)
      else page_vaddr)"

definition page_key :: "nat \<Rightarrow> nat" where
  "page_key p = p * 2 ^ 28"

lemma align_12k_eq: "align_12k a = a div 4096 * 4096"
  using align_down_eq [OF page_pow2, of a] unfolding align_12k_def ctz_page by (simp add: PAGE_SIZE_def)

lemma align_12k_key:
  assumes "a < 2 ^ 48"
  shows "wshl (align_12k a) 16 = page_key (a div 4096)"
proof -
  have "a div 4096 * 4096 \<le> a" by simp
  then have "a div 4096 * 4096 * 2 ^ 16 < 2 ^ 64" using assms by simp
  then show ?thesis by (simp add: wshl_def align_12k_eq push_bit_eq_mult page_key_def)
qed

lemma offset_key:
  assumes "a div 4096 + r < 2 ^ 36"
  shows "wshl (wadd (align_12k a) (wmul 4096 r)) 16 = page_key (a div 4096 + r)"
proof -
  have b: "(a div 4096 + r) * 4096 < 2 ^ 48" using assms by simp
  then have "wadd (align_12k a) (wmul 4096 r) = (a div 4096 + r) * 4096"
    by (simp add: align_12k_eq add_mult_distrib mult.commute)
  then show ?thesis using b by (simp add: wshl_def push_bit_eq_mult page_key_def)
qed

section \<open>Registering the pages of a slab\<close>

text \<open>
  \<open>RadixTree\<close> is a type alias that a feature selects; the functions take the operations of the trait as
  arguments. The result of \<open>expect\<close> is the argument's, a panic inside is \<^term>\<open>None\<close>.
\<close>

definition handle_rd_tree_insert ::
  "('m \<Rightarrow> nat \<Rightarrow> int \<Rightarrow> nat \<Rightarrow> 'm option) \<Rightarrow> nat \<Rightarrow> 'm \<Rightarrow> nat \<Rightarrow> nat \<Rightarrow> 'm option" where
  "handle_rd_tree_insert tn_insert pg_num ptr_map idx addr = do {
     let num = 2 ^ 16;
     let rem = num - (drop_bit (ctz PAGE_SIZE) addr AND (num - 1));
     let ptr = align_12k addr;
     if rem \<ge> pg_num then tn_insert ptr_map (wshl ptr 16) (int idx) pg_num
     else do {
       ptr_map \<leftarrow> tn_insert ptr_map (wshl ptr 16) (int idx) rem;
       tn_insert ptr_map (wshl (wadd ptr (wmul 4096 rem)) 16) (int idx) (pg_num - rem) } }"

definition handle_rd_tree_remove ::
  "('m \<Rightarrow> nat \<Rightarrow> nat \<Rightarrow> 'm option) \<Rightarrow> nat \<Rightarrow> 'm \<Rightarrow> nat \<Rightarrow> 'm option" where
  "handle_rd_tree_remove tn_remove pg_num ptr_map addr = do {
     let rem = 4096 - drop_bit (ctz PAGE_SIZE) addr mod 4096;
     let ptr = align_12k addr;
     if rem \<ge> pg_num then tn_remove ptr_map (wshl ptr 16) pg_num
     else do {
       ptr_map \<leftarrow> tn_remove ptr_map (wshl ptr 16) rem;
       tn_remove ptr_map (wshl (wadd ptr (wmul 4096 rem)) 16) (pg_num - rem) } }"

section \<open>The interface\<close>

text \<open>
  \<open>view\<close> is the map a state stands for, by page number. \<open>room\<close> says that the pages of a range can be keyed
  at all, \<open>in_range\<close> that one call may be made for the whole range.
\<close>

definition fill :: "(nat \<Rightarrow> int) \<Rightarrow> nat \<Rightarrow> nat \<Rightarrow> int \<Rightarrow> nat \<Rightarrow> int" where
  "fill f p n v = (\<lambda>q. if p \<le> q \<and> q < p + n then v else f q)"

lemma fill_split: "fill (fill f p m v) (p + m) n v = fill f p (m + n) v"
  by (auto simp: fill_def)

locale page_map =
  fixes ok :: "'m \<Rightarrow> bool"
    and view :: "'m \<Rightarrow> nat \<Rightarrow> int"
    and room in_range :: "'m \<Rightarrow> nat \<Rightarrow> nat \<Rightarrow> bool"
    and tn_insert :: "'m \<Rightarrow> nat \<Rightarrow> int \<Rightarrow> nat \<Rightarrow> 'm option"
    and tn_remove :: "'m \<Rightarrow> nat \<Rightarrow> nat \<Rightarrow> 'm option"
    and tn_get :: "'m \<Rightarrow> nat \<Rightarrow> int option"
  assumes room_split: "room m p (j + n) \<Longrightarrow> room m p j \<and> room m (p + j) n"
    and room_bound: "room m p n \<Longrightarrow> 0 < n \<Longrightarrow> p + n \<le> 2 ^ 36"
    and room_in_range: "room m p n \<Longrightarrow> p mod 2 ^ 16 + n \<le> 2 ^ 16 \<Longrightarrow> in_range m p n"
    and insert_fills: "ok m \<Longrightarrow> in_range m p n \<Longrightarrow> 0 < n \<Longrightarrow> \<exists>m'. tn_insert m (page_key p) v n = Some m' \<and> ok m'
      \<and> view m' = fill (view m) p n v \<and> room m' = room m"
    and remove_clears: "ok m \<Longrightarrow> in_range m p n \<Longrightarrow> 0 < n \<Longrightarrow> \<exists>m'. tn_remove m (page_key p) n = Some m' \<and> ok m'
      \<and> view m' = fill (view m) p n 0 \<and> room m' = room m"
    and get_views: "ok m \<Longrightarrow> in_range m p 1 \<Longrightarrow> tn_get m (page_key p) = Some (view m p)"
begin

lemma get_after_insert:
  assumes "ok m" "in_range m p n" "tn_insert m (page_key p) v n = Some m'" "p \<le> q" "q < p + n" "room m q 1"
  shows "tn_get m' (page_key q) = Some v"
proof -
  obtain m2 where "tn_insert m (page_key p) v n = Some m2" "ok m2" "view m2 = fill (view m) p n v"
    "room m2 = room m"
    using insert_fills [OF assms(1,2)] assms(4,5) by fastforce
  moreover have "q mod 2 ^ 16 + 1 \<le> 2 ^ 16" using mod_less_divisor [of "2 ^ 16" q] by (simp add: Suc_le_eq)
  ultimately show ?thesis using assms room_in_range [of m' q 1] get_views [of m' q] by (auto simp: fill_def)
qed

text \<open>A call that stays in a block of \<open>2 ^ 16\<close> pages.\<close>

lemma first_part:
  assumes "room m p n" "0 < j" "j \<le> n" "j \<le> 2 ^ b - p mod 2 ^ b" "b \<le> 16"
  shows "in_range m p j"
proof -
  have "room m p j" using room_split [of m p j "n - j"] assms by simp
  moreover have "p mod 2 ^ 16 + j \<le> 2 ^ 16"
  proof -
    obtain c where c: "16 = b + c" using assms(5) by (metis le_add_diff_inverse)
    have "p mod 2 ^ 16 = 2 ^ b * ((p div 2 ^ b) mod 2 ^ c) + p mod 2 ^ b"
      unfolding c power_add by (simp add: mod_mult2_eq)
    moreover have "(p div 2 ^ b) mod 2 ^ c + 1 \<le> 2 ^ c" using mod_less_divisor [of "2 ^ c" "p div 2 ^ b"] by (simp add: Suc_le_eq)
    then have "2 ^ b * ((p div 2 ^ b) mod 2 ^ c + 1) \<le> 2 ^ b * 2 ^ c" by (rule mult_le_mono2)
    moreover have "p mod 2 ^ b < 2 ^ b" by simp
    ultimately have "p mod 2 ^ 16 + j \<le> 2 ^ b * 2 ^ c"
      using assms(4) unfolding distrib_left mult_1_right by linarith
    then show ?thesis unfolding c power_add .
  qed
  ultimately show ?thesis by (rule room_in_range)
qed

lemma second_part:
  assumes "room m p n" "j < n" "n \<le> 2 ^ b" "j = 2 ^ b - p mod 2 ^ b" "b \<le> 16"
  shows "in_range m (p + j) (n - j)"
proof -
  have r: "room m (p + j) (n - j)" using room_split [of m p j "n - j"] assms by simp
  have "p + j = (p div 2 ^ b + 1) * 2 ^ b"
  proof -
    have "p mod 2 ^ b < 2 ^ b" by simp
    then show ?thesis using assms(4) div_mult_mod_eq [of p "2 ^ b"]
      unfolding add_mult_distrib mult_1 by linarith
  qed
  then have z: "(p + j) mod 2 ^ b = 0" by simp
  have "n - j \<le> 2 ^ b - (p + j) mod 2 ^ b" unfolding z using assms(3) by linarith
  then show ?thesis using assms(2) by (intro first_part [OF r _ _ _ assms(5)]) simp_all
qed

text \<open>Both split points are aligned, so a slab of at most a block is always registered as a whole.\<close>

lemma register_slab:
  assumes "ok m" "room m (addr div 4096) pg_num" "0 < pg_num" "pg_num \<le> 2 ^ 16" "addr < 2 ^ 48"
  obtains m' where "handle_rd_tree_insert tn_insert pg_num m idx addr = Some m'" "ok m'"
    "view m' = fill (view m) (addr div 4096) pg_num (int idx)" "room m' = room m"
proof -
  let ?p = "addr div 4096"
  define r where "r = 2 ^ 16 - ?p mod 2 ^ 16"
  have pos: "0 < r" using mod_less_divisor [of "2 ^ 16" ?p] by (simp add: r_def)
  have k: "wshl (align_12k addr) 16 = page_key ?p" by (rule align_12k_key [OF assms(5)])
  have rr: "2 ^ 16 - (drop_bit (ctz PAGE_SIZE) addr AND (2 ^ 16 - 1)) = r"
    unfolding ctz_page using and_mask_mod [of "2 ^ 16" "drop_bit 12 addr"] is_pow2_power [of 16]
    by (simp add: drop_bit_eq_div r_def)
  show ?thesis
  proof (cases "pg_num \<le> r")
    case True
    have "in_range m ?p pg_num" by (rule first_part [OF assms(2,3) _ True [unfolded r_def]]) simp_all
    then obtain m' where "tn_insert m (page_key ?p) (int idx) pg_num = Some m'" "ok m'"
      "view m' = fill (view m) ?p pg_num (int idx)" "room m' = room m"
      using insert_fills [OF assms(1) _ assms(3)] by blast
    then show ?thesis using that [of m'] True k rr by (simp add: handle_rd_tree_insert_def Let_def)
  next
    case False
    then have lt: "r < pg_num" by simp
    have "in_range m ?p r" by (rule first_part [OF assms(2) pos, of 16]) (use lt in \<open>simp_all add: r_def\<close>)
    then obtain m1 where m1: "tn_insert m (page_key ?p) (int idx) r = Some m1" "ok m1"
      "view m1 = fill (view m) ?p r (int idx)" "room m1 = room m"
      using insert_fills [OF assms(1) _ pos] by blast
    have "in_range m1 (?p + r) (pg_num - r)"
      by (rule second_part [OF _ lt assms(4) r_def]) (use m1(4) assms(2) in simp_all)
    then obtain m2 where m2: "tn_insert m1 (page_key (?p + r)) (int idx) (pg_num - r) = Some m2" "ok m2"
      "view m2 = fill (view m1) (?p + r) (pg_num - r) (int idx)" "room m2 = room m1"
      using insert_fills [OF m1(2), of "?p + r" "pg_num - r"] lt by auto
    have "?p + pg_num \<le> 2 ^ 36" using room_bound [OF assms(2,3)] .
    then have k2: "wshl (wadd (align_12k addr) (wmul 4096 r)) 16 = page_key (?p + r)"
      using lt by (intro offset_key) linarith
    have v: "view m2 = fill (view m) ?p pg_num (int idx)"
      unfolding m2(3) m1(3) fill_split using lt by simp
    show ?thesis using that [of m2] v m1 m2 False k k2 rr by (simp add: handle_rd_tree_insert_def Let_def)
  qed
qed

lemma unregister_slab:
  assumes "ok m" "room m (addr div 4096) pg_num" "0 < pg_num" "pg_num \<le> 2 ^ 12" "addr < 2 ^ 48"
  obtains m' where "handle_rd_tree_remove tn_remove pg_num m addr = Some m'" "ok m'"
    "view m' = fill (view m) (addr div 4096) pg_num 0" "room m' = room m"
proof -
  let ?p = "addr div 4096"
  define r where "r = 2 ^ 12 - ?p mod 2 ^ 12"
  have pos: "0 < r" using mod_less_divisor [of "2 ^ 12" ?p] by (simp add: r_def)
  have k: "wshl (align_12k addr) 16 = page_key ?p" by (rule align_12k_key [OF assms(5)])
  have rr: "4096 - drop_bit (ctz PAGE_SIZE) addr mod 4096 = r"
    unfolding ctz_page by (simp add: drop_bit_eq_div r_def)
  show ?thesis
  proof (cases "pg_num \<le> r")
    case True
    have "in_range m ?p pg_num" by (rule first_part [OF assms(2,3) _ True [unfolded r_def]]) simp_all
    then obtain m' where "tn_remove m (page_key ?p) pg_num = Some m'" "ok m'"
      "view m' = fill (view m) ?p pg_num 0" "room m' = room m"
      using remove_clears [OF assms(1) _ assms(3)] by blast
    then show ?thesis using that [of m'] True k rr by (simp add: handle_rd_tree_remove_def Let_def)
  next
    case False
    then have lt: "r < pg_num" by simp
    have "in_range m ?p r" by (rule first_part [OF assms(2) pos, of 12]) (use lt in \<open>simp_all add: r_def\<close>)
    then obtain m1 where m1: "tn_remove m (page_key ?p) r = Some m1" "ok m1"
      "view m1 = fill (view m) ?p r 0" "room m1 = room m"
      using remove_clears [OF assms(1) _ pos] by blast
    have "in_range m1 (?p + r) (pg_num - r)"
      by (rule second_part [OF _ lt assms(4) r_def]) (use m1(4) assms(2) in simp_all)
    then obtain m2 where m2: "tn_remove m1 (page_key (?p + r)) (pg_num - r) = Some m2" "ok m2"
      "view m2 = fill (view m1) (?p + r) (pg_num - r) 0" "room m2 = room m1"
      using remove_clears [OF m1(2), of "?p + r" "pg_num - r"] lt by auto
    have "?p + pg_num \<le> 2 ^ 36" using room_bound [OF assms(2,3)] .
    then have k2: "wshl (wadd (align_12k addr) (wmul 4096 r)) 16 = page_key (?p + r)"
      using lt by (intro offset_key) linarith
    have v: "view m2 = fill (view m) ?p pg_num 0"
      unfolding m2(3) m1(3) fill_split using lt by simp
    show ?thesis using that [of m2] v m1 m2 False k k2 rr by (simp add: handle_rd_tree_remove_def Let_def)
  qed
qed

end

end
