(* ===== verification/RadixTree.thy ===== *)
theory RadixTree
  imports PageMap
begin

text \<open>
  The page maps of \<open>unialloc/src/collections\<close>: the two-level radix tree (\<open>radix_tree.rs\<close>), the flat array that
  a fixed heap uses, and the six-level tree for 128-bit keys (\<open>radix_tree_128.rs\<close>). The first two interpret
  the interface of \<open>PageMap\<close>. A node fresh from \<open>mmap\<close> is zero: a null pointer or the value 0 in every entry; a
  failing \<open>mmap\<close> is not modelled here.
\<close>

section \<open>The two-level radix tree\<close>

text \<open>The index bits of a key, \<open>(mask & k) >> 46\<close>.\<close>

definition top18 :: "nat \<Rightarrow> nat" where
  "top18 k = (let mask = 2 ^ 64 - 2 ^ 46 in drop_bit 46 (mask AND k))"

type_synonym bottom_node = "nat \<Rightarrow> int"

type_synonym radix_tree = "nat \<Rightarrow> bottom_node option"

text \<open>The loops \<open>for i in 0..n\<close> over the \<open>1 << 18\<close> entries of a bottom node.\<close>

fun bottom_write :: "bottom_node \<Rightarrow> nat \<Rightarrow> int \<Rightarrow> nat \<Rightarrow> bottom_node option" where
  "bottom_write b idx v 0 = Some b"
| "bottom_write b idx v (Suc n) = do {
     b \<leftarrow> bottom_write b idx v n;
     ensure (idx + n < 2 ^ 18);
     Some (b(idx + n := v)) }"

definition bottom_insert :: "bottom_node \<Rightarrow> nat \<Rightarrow> int \<Rightarrow> nat \<Rightarrow> bottom_node option" where
  "bottom_insert b k v n = bottom_write b (top18 k) v n"

definition bottom_remove :: "bottom_node \<Rightarrow> nat \<Rightarrow> nat \<Rightarrow> bottom_node option" where
  "bottom_remove b k n = bottom_write b (top18 k) 0 n"

definition bottom_get_mut :: "bottom_node \<Rightarrow> nat \<Rightarrow> int option" where
  "bottom_get_mut b k = (let idx = top18 k in if idx < 2 ^ 18 then Some (b idx) else None)"

definition allocate_node :: bottom_node where
  "allocate_node = (\<lambda>_. 0)"

text \<open>
  \<open>race\<close> is what the compare-exchange finds in the slot when it was null at the load: \<^term>\<open>None\<close> when this
  thread installs its node, the other thread's node when that thread was faster.
\<close>

definition radix_insert :: "bottom_node option \<Rightarrow> radix_tree \<Rightarrow> nat \<Rightarrow> int \<Rightarrow> nat \<Rightarrow> radix_tree option" where
  "radix_insert race t k v n = do {
     let idx = top18 k;
     ensure (idx < 2 ^ 18);
     let node = (case t idx of
         None \<Rightarrow> (case race of None \<Rightarrow> allocate_node | Some cur_ptr \<Rightarrow> cur_ptr)
       | Some node_ptr \<Rightarrow> node_ptr);
     node \<leftarrow> bottom_insert node (wshl k 18) v n;
     Some (t(idx := Some node)) }"

definition radix_remove :: "radix_tree \<Rightarrow> nat \<Rightarrow> nat \<Rightarrow> radix_tree option" where
  "radix_remove t k n = do {
     let idx = top18 k;
     ensure (idx < 2 ^ 18);
     (case t idx of
        None \<Rightarrow> Some t
      | Some node \<Rightarrow> do {
          node \<leftarrow> bottom_remove node (wshl k 18) n;
          Some (t(idx := Some node)) }) }"

definition radix_get_mut :: "radix_tree \<Rightarrow> nat \<Rightarrow> int option" where
  "radix_get_mut t k = do {
     let idx = top18 k;
     ensure (idx < 2 ^ 18);
     (case t idx of None \<Rightarrow> Some 0 | Some node \<Rightarrow> bottom_get_mut node (wshl k 18)) }"

text \<open>The global tree, made on first use; the thread that loses the race takes the other's.\<close>

definition get_rd_tree :: "radix_tree option \<Rightarrow> radix_tree option \<Rightarrow> radix_tree" where
  "get_rd_tree RDPTR race =
     (case RDPTR of
        None \<Rightarrow> (case race of None \<Rightarrow> (\<lambda>_. None) | Some eptr \<Rightarrow> eptr)
      | Some ptr \<Rightarrow> ptr)"

definition radix_view :: "radix_tree \<Rightarrow> nat \<Rightarrow> int" where
  "radix_view t p = (if p < 2 ^ 36 then
     (case t (p div 2 ^ 18) of None \<Rightarrow> 0 | Some b \<Rightarrow> b (p mod 2 ^ 18)) else 0)"

definition radix_room :: "radix_tree \<Rightarrow> nat \<Rightarrow> nat \<Rightarrow> bool" where
  "radix_room t p n \<longleftrightarrow> p + n \<le> 2 ^ 36"

definition radix_in_range :: "radix_tree \<Rightarrow> nat \<Rightarrow> nat \<Rightarrow> bool" where
  "radix_in_range t p n \<longleftrightarrow> p + n \<le> 2 ^ 36 \<and> p mod 2 ^ 18 + n \<le> 2 ^ 18"

lemma top18_eq:
  assumes "k < 2 ^ 64"
  shows "top18 k = k div 2 ^ 46"
proof -
  have "k div 2 ^ 46 < 2 ^ 18" using assms by (simp add: less_mult_imp_div_less)
  moreover have "drop_bit 46 (2 ^ 64 - 2 ^ 46 :: nat) = 2 ^ 18 - 1" by (simp add: drop_bit_eq_div)
  then have "top18 k = (k div 2 ^ 46) AND (2 ^ 18 - 1)"
    unfolding top18_def Let_def drop_bit_and by (simp add: drop_bit_eq_div and.commute)
  moreover have "(k div 2 ^ 46) AND (2 ^ 18 - 1) = (k div 2 ^ 46) mod 2 ^ 18"
    by (rule and_mask_mod) (use is_pow2_power [of 18] in simp)
  ultimately show ?thesis by simp
qed

lemma page_key_bits:
  assumes "p < 2 ^ 36"
  shows "top18 (page_key p) = p div 2 ^ 18" "top18 (wshl (page_key p) 18) = p mod 2 ^ 18"
    "p div 2 ^ 18 < 2 ^ 18"
proof -
  have k: "page_key p < 2 ^ 64" using assms by (simp add: page_key_def)
  have "page_key p div 2 ^ 46 = p * 2 ^ 28 div (2 ^ 28 * 2 ^ 18)" by (simp add: page_key_def)
  also have "\<dots> = p div 2 ^ 18" by (simp add: div_mult2_eq)
  finally show "top18 (page_key p) = p div 2 ^ 18" by (simp add: top18_eq [OF k])
  have "push_bit 18 (p * 2 ^ 28) = p * 2 ^ 46" unfolding push_bit_eq_mult by simp
  then have "wshl (page_key p) 18 = p * 2 ^ 46 mod (2 ^ 18 * 2 ^ 46)"
    by (simp add: wshl_def page_key_def)
  also have "\<dots> = p mod 2 ^ 18 * 2 ^ 46" by (rule mult_mod_left [symmetric])
  finally have "wshl (page_key p) 18 = p mod 2 ^ 18 * 2 ^ 46" .
  moreover have "wshl (page_key p) 18 < 2 ^ 64" by (simp add: wshl_def)
  ultimately show "top18 (wshl (page_key p) 18) = p mod 2 ^ 18" by (simp add: top18_eq)
  show "p div 2 ^ 18 < 2 ^ 18" using assms by (simp add: less_mult_imp_div_less)
qed

lemma bottom_write_fills:
  "idx + n \<le> 2 ^ 18 \<Longrightarrow> bottom_write b idx v n = Some (fill b idx n v)"
  by (induction n) (auto simp: fill_def fun_eq_iff)

lemma same_node:
  assumes "p mod 2 ^ w + n \<le> 2 ^ w"
  shows "p \<le> q \<and> q < p + n \<longleftrightarrow>
    q div 2 ^ w = p div 2 ^ w \<and> p mod 2 ^ w \<le> q mod 2 ^ w \<and> q mod 2 ^ w < p mod 2 ^ w + (n::nat)"
proof -
  define a b c e where "a = p div 2 ^ w" and "b = p mod 2 ^ w" and "c = q div 2 ^ w" and "e = q mod 2 ^ w"
  have d: "p = a * 2 ^ w + b" "q = c * 2 ^ w + e" "e < 2 ^ w" "b + n \<le> 2 ^ w"
    using assms unfolding a_def b_def c_def e_def by (simp_all only: div_mult_mod_eq) simp
  have ca: "c = a" if "p \<le> q" "q < p + n"
  proof -
    have "a * 2 ^ w < (c + 1) * 2 ^ w" using that d by simp
    moreover have "c * 2 ^ w < (a + 1) * 2 ^ w" using that d by simp
    ultimately have "a < c + 1" "c < a + 1" by (simp_all only: mult_less_cancel2)
    then show ?thesis by simp
  qed
  have "p \<le> q \<and> q < p + n \<longleftrightarrow> c = a \<and> b \<le> e \<and> e < b + n"
    using ca d by (cases "c = a") auto
  then show ?thesis by (simp add: a_def b_def c_def e_def)
qed

lemma radix_fill_view:
  assumes "p + n \<le> 2 ^ 36" "p mod 2 ^ 18 + n \<le> 2 ^ 18" "0 < n"
    "b = (case t (p div 2 ^ 18) of None \<Rightarrow> (\<lambda>_. 0) | Some c \<Rightarrow> c)"
  shows "radix_view (t(p div 2 ^ 18 := Some (fill b (p mod 2 ^ 18) n v))) = fill (radix_view t) p n v"
proof
  fix q
  show "radix_view (t(p div 2 ^ 18 := Some (fill b (p mod 2 ^ 18) n v))) q = fill (radix_view t) p n v q"
    using same_node [OF assms(2), of q] assms(1,4)
    by (auto simp: radix_view_def fill_def split: option.splits)
qed

interpretation radix: page_map "\<lambda>_. True" radix_view radix_room radix_in_range
  "radix_insert None" radix_remove radix_get_mut
proof
  fix m :: radix_tree and p j n :: nat and v :: int
  show "radix_room m p (j + n) \<Longrightarrow> radix_room m p j \<and> radix_room m (p + j) n"
    by (simp add: radix_room_def)
  show "radix_room m p n \<Longrightarrow> 0 < n \<Longrightarrow> p + n \<le> 2 ^ 36"
    by (simp add: radix_room_def)
  show "radix_room m p n \<Longrightarrow> p mod 2 ^ 16 + n \<le> 2 ^ 16 \<Longrightarrow> radix_in_range m p n"
    unfolding radix_room_def radix_in_range_def using mod_mult2_eq [of p "2 ^ 16" "2 ^ 2"]
      mod_less_divisor [of 4 "p div 2 ^ 16"] by simp
  assume r: "radix_in_range m p n"
  show "0 < n \<Longrightarrow> \<exists>m'. radix_insert None m (page_key p) v n = Some m' \<and> True
      \<and> radix_view m' = fill (radix_view m) p n v \<and> radix_room m' = radix_room m"
    using r page_key_bits [of p] bottom_write_fills [of "p mod 2 ^ 18" n _ v]
      radix_fill_view [of p n _ m v, OF _ _ _ refl]
    by (auto simp: radix_insert_def bottom_insert_def radix_in_range_def radix_room_def [abs_def] allocate_node_def
        split: option.splits)
  show "0 < n \<Longrightarrow> \<exists>m'. radix_remove m (page_key p) n = Some m' \<and> True
      \<and> radix_view m' = fill (radix_view m) p n 0 \<and> radix_room m' = radix_room m"
  proof (cases "m (p div 2 ^ 18)")
    case None
    assume "0 < n"
    have "radix_view m q = 0" if "p \<le> q" "q < p + n" for q
      using same_node [of p 18 n q] that r None by (auto simp: radix_in_range_def radix_view_def)
    then have "fill (radix_view m) p n 0 = radix_view m" by (auto simp: fill_def)
    then show ?thesis using None r \<open>0 < n\<close> page_key_bits [of p]
      by (auto simp: radix_remove_def radix_in_range_def)
  next
    case (Some b)
    assume "0 < n"
    then show ?thesis using Some r page_key_bits [of p] bottom_write_fills [of "p mod 2 ^ 18" n b 0]
      radix_fill_view [of p n b m 0] by (auto simp: radix_remove_def bottom_remove_def radix_in_range_def radix_room_def [abs_def])
  qed
next
  fix m :: radix_tree and p
  show "radix_in_range m p 1 \<Longrightarrow> radix_get_mut m (page_key p) = Some (radix_view m p)"
    using page_key_bits [of p] by (auto simp: radix_in_range_def radix_get_mut_def bottom_get_mut_def
        radix_view_def split: option.splits)
qed


lemma page_of_slab:
  assumes "(addr::nat) mod 4096 = 0" "x < 2 ^ 48"
  shows "addr div 4096 \<le> x div 4096 \<and> x div 4096 < addr div 4096 + n \<longleftrightarrow> addr \<le> x \<and> x < addr + 4096 * n"
proof -
  obtain a where a: "addr = 4096 * a" using assms(1) by (auto simp: dvd_def mod_eq_0_iff_dvd)
  then show ?thesis by simp linarith
qed

lemma radix_get_address:
  assumes "x < 2 ^ 48"
  shows "radix_get_mut t (wshl (align_12k x) 16) = Some (radix_view t (x div 4096))"
proof -
  have "x div 4096 < 2 ^ 36" using assms by (simp add: less_mult_imp_div_less)
  then show ?thesis unfolding align_12k_key [OF assms]
    by (intro radix.get_views) (auto simp: radix_in_range_def Suc_le_eq)
qed

text \<open>C34: After a slab of \<open>pg_num\<close> pages is registered, the lookup of any address inside it, through the page
  map's key arithmetic and whatever node boundary the slab straddles, gives the slab's header, and the
  lookup of every other address gives what it gave before.\<close>

theorem radix_slab_lookup:
  assumes "addr mod 4096 = 0" "0 < pg_num" "pg_num \<le> 2 ^ 16" "addr + 4096 * pg_num \<le> 2 ^ 48"
  shows "\<exists>t'. handle_rd_tree_insert (radix_insert None) pg_num t idx addr = Some t' \<and> (\<forall>x < 2 ^ 48.
    radix_get_mut t' (wshl (align_12k x) 16) =
      (if addr \<le> x \<and> x < addr + 4096 * pg_num then Some (int idx)
       else radix_get_mut t (wshl (align_12k x) 16)))"
proof -
  have r: "radix_room t (addr div 4096) pg_num" "addr < 2 ^ 48"
    using assms by (auto simp: radix_room_def mod_eq_0_iff_dvd dvd_def)
  obtain t' where t': "handle_rd_tree_insert (radix_insert None) pg_num t idx addr = Some t'"
    "radix_view t' = fill (radix_view t) (addr div 4096) pg_num (int idx)"
    using radix.register_slab [OF _ r(1) assms(2,3) r(2)] by blast
  show ?thesis
    using t' page_of_slab [OF assms(1)] by (auto simp: radix_get_address fill_def)
qed

theorem radix_slab_lookup_witness:
  "\<exists>t'. handle_rd_tree_insert (radix_insert None) 4 (\<lambda>_. None) 77 0x3ffff000 = Some t'
    \<and> radix_get_mut t' (wshl (align_12k 0x40000123) 16) = Some 77"
proof -
  obtain t' where t': "handle_rd_tree_insert (radix_insert None) 4 (\<lambda>_. None) 77 0x3ffff000 = Some t'"
    "\<forall>x < 2 ^ 48. radix_get_mut t' (wshl (align_12k x) 16) =
      (if 0x3ffff000 \<le> x \<and> x < 0x3ffff000 + 4096 * 4 then Some (int 77)
       else radix_get_mut (\<lambda>_. None) (wshl (align_12k x) 16))"
    using radix_slab_lookup [of "0x3ffff000" 4 "\<lambda>_. None" 77] by auto
  show ?thesis using t'(1) t'(2) [rule_format, of "0x40000123"] by simp
qed

text \<open>C35: Unregistering a slab takes its pages, and only them, out of the map: afterwards an address of the
  slab is looked up as 0, as if it had never been registered.\<close>

theorem radix_slab_roundtrip:
  assumes "addr mod 4096 = 0" "0 < pg_num" "pg_num \<le> 2 ^ 12" "addr + 4096 * pg_num \<le> 2 ^ 48"
    and "\<And>x. addr \<le> x \<Longrightarrow> x < addr + 4096 * pg_num \<Longrightarrow> radix_get_mut t (wshl (align_12k x) 16) = Some 0"
  shows "\<exists>t1 t2. handle_rd_tree_insert (radix_insert None) pg_num t idx addr = Some t1
    \<and> handle_rd_tree_remove radix_remove pg_num t1 addr = Some t2
    \<and> (\<forall>x < 2 ^ 48. radix_get_mut t2 (wshl (align_12k x) 16) = radix_get_mut t (wshl (align_12k x) 16))"
proof -
  have r: "radix_room t (addr div 4096) pg_num" "addr < 2 ^ 48" and le: "pg_num \<le> 2 ^ 16"
    using assms by (auto simp: radix_room_def mod_eq_0_iff_dvd dvd_def)
  obtain t1 where t1: "handle_rd_tree_insert (radix_insert None) pg_num t idx addr = Some t1"
    "radix_view t1 = fill (radix_view t) (addr div 4096) pg_num (int idx)" "radix_room t1 = radix_room t"
    using radix.register_slab [OF _ r(1) assms(2) le r(2)] by blast
  have "radix_room t1 (addr div 4096) pg_num" using t1(3) r(1) by simp
  then obtain t2 where t2: "handle_rd_tree_remove radix_remove pg_num t1 addr = Some t2"
    "radix_view t2 = fill (radix_view t1) (addr div 4096) pg_num 0"
    using radix.unregister_slab [OF _ _ assms(2,3) r(2)] by blast
  have "radix_view t2 (x div 4096) = radix_view t (x div 4096)" if x: "x < 2 ^ 48" for x
    using page_of_slab [OF assms(1) x, of pg_num] assms(5) [of x] radix_get_address [OF x, of t]
    by (auto simp: t2(2) t1(2) fill_def)
  then show ?thesis using t1(1) t2(1) by (auto simp: radix_get_address)
qed

theorem radix_slab_roundtrip_witness:
  "\<exists>t1 t2. handle_rd_tree_insert (radix_insert None) 4 (\<lambda>_. None) 77 0x3ffff000 = Some t1
    \<and> handle_rd_tree_remove radix_remove 4 t1 0x3ffff000 = Some t2
    \<and> (\<forall>x < 2 ^ 48. radix_get_mut t2 (wshl (align_12k x) 16) = radix_get_mut (\<lambda>_. None) (wshl (align_12k x) 16))"
proof (rule radix_slab_roundtrip)
  fix x :: nat assume "x < 0x3ffff000 + 4096 * 4"
  then show "radix_get_mut (\<lambda>_. None) (wshl (align_12k x) 16) = Some 0"
    using radix_get_address [of x "\<lambda>_. None"] by (simp add: radix_view_def)
qed simp_all

text \<open>The lost race: inserting into the other thread's node is inserting after that thread.\<close>

lemma radix_insert_race:
  "t (top18 k) = None \<Longrightarrow> radix_insert (Some b) t k v n = radix_insert None (t(top18 k := Some b)) k v n"
  by (cases "top18 k < 2 ^ 18") (auto simp: radix_insert_def Let_def)

section \<open>The flat array of a fixed heap\<close>

text \<open>
  \<open>nodes\<close> is the raw pointer with the words behind it; \<^term>\<open>None\<close> is null. \<open>get_slice\<close> builds a slice of
  the length the access needs, so only the memory itself bounds it: an access past it is undefined, here
  \<^term>\<open>None\<close>.
\<close>

record array_node =
  an_base :: nat
  an_nodes :: "(nat \<times> int list) option"

definition array_new :: array_node where
  "array_new = \<lparr>an_base = 0, an_nodes = None\<rparr>"

definition array_init_with_range :: "array_node \<Rightarrow> nat \<Rightarrow> nat \<times> int list \<Rightarrow> array_node" where
  "array_init_with_range a start arr = a\<lparr>an_base := start, an_nodes := Some arr\<rparr>"

text \<open>\<open>arr\<close> is the address and the words of the memory the backend allocator returns.\<close>

definition array_extend_with_range ::
  "array_node \<Rightarrow> nat \<Rightarrow> nat \<Rightarrow> nat \<Rightarrow> nat \<times> int list \<Rightarrow> (array_node \<times> nat \<times> nat) option" where
  "array_extend_with_range a sz new_end page_size arr = do {
     (prev, old) \<leftarrow> an_nodes a;
     let count = wsub (wsub new_end sz) (an_base a) div page_size;
     ensure (count \<le> length old \<and> count \<le> length (snd arr));
     Some (a\<lparr>an_nodes := Some (fst arr, take count old @ drop count (snd arr))\<rparr>, prev, count) }"

definition array_get_slice_len :: "array_node \<Rightarrow> nat \<Rightarrow> nat \<Rightarrow> nat" where
  "array_get_slice_len a k n =
     (let idx = wsub (wadd (wsub k (an_base a) div PAGE_SIZE) n) 1 in wadd idx 1)"

fun array_write :: "int list \<Rightarrow> nat \<Rightarrow> nat \<Rightarrow> int \<Rightarrow> nat \<Rightarrow> int list option" where
  "array_write ns len start v 0 = Some ns"
| "array_write ns len start v (Suc n) = do {
     ns \<leftarrow> array_write ns len start v n;
     ensure (start + n < len);
     aset ns (start + n) v }"

definition array_insert :: "array_node \<Rightarrow> nat \<Rightarrow> int \<Rightarrow> nat \<Rightarrow> array_node option" where
  "array_insert a k v n = do {
     (ptr, nodes) \<leftarrow> an_nodes a;
     let k = wshr k 16;
     let start = wsub k (an_base a) div PAGE_SIZE;
     nodes \<leftarrow> array_write nodes (array_get_slice_len a k n) start v n;
     Some (a\<lparr>an_nodes := Some (ptr, nodes)\<rparr>) }"

definition array_remove :: "array_node \<Rightarrow> nat \<Rightarrow> nat \<Rightarrow> array_node option" where
  "array_remove a k n = do {
     (ptr, nodes) \<leftarrow> an_nodes a;
     let k = wshr k 16;
     let start = wsub k (an_base a) div PAGE_SIZE;
     nodes \<leftarrow> array_write nodes (array_get_slice_len a k n) start 0 n;
     Some (a\<lparr>an_nodes := Some (ptr, nodes)\<rparr>) }"

definition array_get_mut :: "array_node \<Rightarrow> nat \<Rightarrow> int option" where
  "array_get_mut a k = do {
     (ptr, nodes) \<leftarrow> an_nodes a;
     let k = wshr k 16;
     let start = wsub k (an_base a) div PAGE_SIZE;
     ensure (start < array_get_slice_len a k 1);
     aget nodes start }"

definition array_ok :: "array_node \<Rightarrow> bool" where
  "array_ok a \<longleftrightarrow> an_nodes a \<noteq> None \<and> an_base a mod 4096 = 0"

definition array_words :: "array_node \<Rightarrow> int list" where
  "array_words a = (case an_nodes a of None \<Rightarrow> [] | Some (p, ns) \<Rightarrow> ns)"

definition array_view :: "array_node \<Rightarrow> nat \<Rightarrow> int" where
  "array_view a p = (if an_base a div 4096 \<le> p \<and> p - an_base a div 4096 < length (array_words a)
     then array_words a ! (p - an_base a div 4096) else 0)"

definition array_room :: "array_node \<Rightarrow> nat \<Rightarrow> nat \<Rightarrow> bool" where
  "array_room a p n \<longleftrightarrow> p + n \<le> 2 ^ 36 \<and> an_base a div 4096 \<le> p
     \<and> p + n \<le> an_base a div 4096 + length (array_words a)"

lemma array_write_fills:
  "start + n \<le> length ns \<Longrightarrow> start + n \<le> len \<Longrightarrow> \<exists>ms. array_write ns len start v n = Some ms \<and> length ms = length ns
     \<and> (\<forall>i < length ns. ms ! i = (if start \<le> i \<and> i < start + n then v else ns ! i))"
proof (induction n)
  case (Suc n)
  then obtain ms where ms: "array_write ns len start v n = Some ms" "length ms = length ns"
    "\<forall>i < length ns. ms ! i = (if start \<le> i \<and> i < start + n then v else ns ! i)" by auto
  have "array_write ns len start v (Suc n) = Some (ms[start + n := v])"
    using ms Suc.prems by simp
  moreover have "\<forall>i < length ns. ms[start + n := v] ! i = (if start \<le> i \<and> i < start + Suc n then v else ns ! i)"
    using ms(2,3) by (auto simp: nth_list_update less_Suc_eq)
  ultimately show ?case using ms(2) by auto
qed auto


lemma array_fill_view:
  assumes "array_room a p n" "0 < n" "an_nodes a = Some (ptr, ns)" "length ms = length ns"
    "\<forall>i < length ns. ms ! i = (if p - an_base a div 4096 \<le> i \<and> i < p - an_base a div 4096 + n then v else ns ! i)"
  shows "array_view (a\<lparr>an_nodes := Some (ptr, ms)\<rparr>) = fill (array_view a) p n v"
proof
  fix q
  define b where "b = an_base a div 4096"
  have w: "array_words a = ns" "array_words (a\<lparr>an_nodes := Some (ptr, ms)\<rparr>) = ms"
    using assms(3) by (simp_all add: array_words_def)
  have r: "b \<le> p" "p + n \<le> b + length ns" using assms(1) w by (simp_all add: array_room_def b_def)
  have m: "q - b < length ns \<Longrightarrow> ms ! (q - b) = (if p - b \<le> q - b \<and> q - b < p - b + n then v else ns ! (q - b))"
    using assms(5) unfolding b_def [symmetric] by blast
  have L: "array_view (a\<lparr>an_nodes := Some (ptr, ms)\<rparr>) q = (if b \<le> q \<and> q - b < length ns then ms ! (q - b) else 0)"
    "array_view a q = (if b \<le> q \<and> q - b < length ns then ns ! (q - b) else 0)"
    unfolding array_view_def w b_def by (simp_all add: assms(4))
  show "array_view (a\<lparr>an_nodes := Some (ptr, ms)\<rparr>) q = fill (array_view a) p n v q"
  proof (cases "b \<le> q \<and> q - b < length ns")
    case True
    then have "(p - b \<le> q - b \<and> q - b < p - b + n) = (p \<le> q \<and> q < p + n)" using r by linarith
    then show ?thesis using True m unfolding fill_def L by simp
  next
    case False
    then have "\<not> (p \<le> q \<and> q < p + n)" using r by linarith
    then show ?thesis using False unfolding fill_def L by auto
  qed
qed

lemma array_start:
  assumes "array_ok a" "array_room a p n" "0 < n"
  shows "wshr (page_key p) 16 = 4096 * p" "wsub (4096 * p) (an_base a) div PAGE_SIZE = p - an_base a div 4096"
    "array_get_slice_len a (4096 * p) n = p - an_base a div 4096 + n"
proof -
  obtain b where b: "an_base a = 4096 * b" using assms(1) by (auto simp: array_ok_def mod_eq_0_iff_dvd dvd_def)
  have r: "b \<le> p" "p + n \<le> 2 ^ 36" using assms(2) b by (simp_all add: array_room_def)
  show "wshr (page_key p) 16 = 4096 * p" by (simp add: wshr_def page_key_def drop_bit_eq_div)
  have w: "wsub (4096 * p) (4096 * b) = 4096 * (p - b)" using r by (simp add: diff_mult_distrib2)
  then show d: "wsub (4096 * p) (an_base a) div PAGE_SIZE = p - an_base a div 4096"
    using b by (simp add: PAGE_SIZE_def)
  show "array_get_slice_len a (4096 * p) n = p - an_base a div 4096 + n"
    using r assms(3) unfolding array_get_slice_len_def d by (simp add: b)
qed

interpretation array: page_map array_ok array_view array_room array_room array_insert array_remove array_get_mut
proof
  fix a :: array_node and p j n :: nat and v :: int
  show "array_room a p (j + n) \<Longrightarrow> array_room a p j \<and> array_room a (p + j) n"
    by (auto simp: array_room_def)
  show "array_room a p n \<Longrightarrow> 0 < n \<Longrightarrow> p + n \<le> 2 ^ 36"
    by (simp add: array_room_def)
  show "array_room a p n \<Longrightarrow> p mod 2 ^ 16 + n \<le> 2 ^ 16 \<Longrightarrow> array_room a p n" .
  assume ok: "array_ok a" and r: "array_room a p n" and n: "0 < n"
  obtain ptr ns where ns: "an_nodes a = Some (ptr, ns)" using ok by (auto simp: array_ok_def)
  have w: "array_words a = ns" using ns by (simp add: array_words_def)
  have wr: "\<exists>ms. array_write ns (p - an_base a div 4096 + n) (p - an_base a div 4096) v n = Some ms \<and> length ms = length ns
     \<and> (\<forall>i < length ns. ms ! i = (if p - an_base a div 4096 \<le> i \<and> i < p - an_base a div 4096 + n then v else ns ! i))" for v
    using r w by (intro array_write_fills) (auto simp: array_room_def)
  have rest: "array_ok (a\<lparr>an_nodes := Some (ptr, ms)\<rparr>)"
    "length ms = length ns \<Longrightarrow> array_room (a\<lparr>an_nodes := Some (ptr, ms)\<rparr>) = array_room a" for ms
    using ok w by (auto simp: array_ok_def array_room_def [abs_def] array_words_def ns)
  note st = array_start [OF ok r n]
  show "\<exists>m'. array_insert a (page_key p) v n = Some m' \<and> array_ok m' \<and> array_view m' = fill (array_view a) p n v
      \<and> array_room m' = array_room a"
    using wr [of v] array_fill_view [OF r n ns, of _ v] rest st ns by (auto simp: array_insert_def)
  show "\<exists>m'. array_remove a (page_key p) n = Some m' \<and> array_ok m' \<and> array_view m' = fill (array_view a) p n 0
      \<and> array_room m' = array_room a"
    using wr [of 0] array_fill_view [OF r n ns, of _ 0] rest st ns by (auto simp: array_remove_def)
next
  fix a :: array_node and p
  assume ok: "array_ok a" and r: "array_room a p 1"
  then obtain ptr ns where ns: "an_nodes a = Some (ptr, ns)" by (auto simp: array_ok_def)
  then show "array_get_mut a (page_key p) = Some (array_view a p)"
    using r array_start [OF ok r] by (auto simp: array_get_mut_def array_view_def array_room_def array_words_def)
qed

text \<open>Growing the flat array keeps every word of a page it already covered; the words of the new pages are
  whatever the backend's memory held, as nothing clears them.\<close>

theorem array_extend_keeps:
  assumes "array_ok a" "array_extend_with_range a sz new_end 4096 (ptr, ws) = Some (a', prev, count)"
    and "length ws = (new_end - an_base a) div 4096" "an_base a + sz \<le> new_end" "new_end < 2 ^ 48" "sz mod 4096 = 0"
    "length (array_words a) = count"
  shows "array_ok a' \<and> (\<forall>p. an_base a div 4096 \<le> p \<and> p < an_base a div 4096 + count \<longrightarrow> array_view a' p = array_view a p)
    \<and> (\<forall>p. an_base a div 4096 + count \<le> p \<and> p < new_end div 4096 \<longrightarrow>
        array_view a' p = ws ! (p - an_base a div 4096))"
proof -
  obtain old where old: "an_nodes a = Some (prev, old)" "count \<le> length old" "count \<le> length ws"
    "a' = a\<lparr>an_nodes := Some (ptr, take count old @ drop count ws)\<rparr>"
    using assms(2) by (auto simp: array_extend_with_range_def Let_def split: Option.bind_splits if_splits)
  obtain b where b: "an_base a = 4096 * b" using assms(1) by (auto simp: array_ok_def mod_eq_0_iff_dvd dvd_def)
  have l: "length old = count" using assms(7) old by (simp add: array_words_def)
  have lw: "length ws = new_end div 4096 - b" using assms(3) b by simp
  show ?thesis using old b l lw assms(1) by (auto simp: array_ok_def array_view_def array_words_def nth_append)
qed


theorem array_extend_keeps_witness:
  "case array_extend_with_range \<lparr>an_base = 4096, an_nodes = Some (64, [3, 4])\<rparr> 8192 20480 4096 (128, [0, 9, 8, 7]) of
     Some (a', prev, count) \<Rightarrow> array_view a' 1 = 3 \<and> array_view a' 3 = 8 | None \<Rightarrow> False"
proof -
  let ?a = "\<lparr>an_base = 4096, an_nodes = Some (64, [3, 4])\<rparr>"
  have e: "array_extend_with_range ?a 8192 20480 4096 (128, [0, 9, 8, 7])
      = Some (?a\<lparr>an_nodes := Some (128, [3, 4, 8, 7])\<rparr>, 64, 2)"
    by (simp add: array_extend_with_range_def Let_def)
  have ok: "array_ok ?a" "array_words ?a = [3, 4]" "array_view ?a 1 = 3"
    by (simp_all add: array_ok_def array_view_def array_words_def)
  from array_extend_keeps [OF ok(1) e] ok(2,3)
  have "(\<forall>p. 1 \<le> p \<and> p < 3 \<longrightarrow> array_view (?a\<lparr>an_nodes := Some (128, [3, 4, 8, 7])\<rparr>) p = array_view ?a p)
    \<and> (\<forall>p. 3 \<le> p \<and> p < 5 \<longrightarrow> array_view (?a\<lparr>an_nodes := Some (128, [3, 4, 8, 7])\<rparr>) p = [0, 9, 8, 7] ! (p - 1))"
    by simp
  then show ?thesis unfolding e using ok(3) by (simp add: numeral_2_eq_2)
qed

section \<open>The tree for 128-bit keys\<close>

text \<open>
  The nesting of the generic nodes is a datatype; the type of a child, which \<open>allocate_node\<close> is called at, is
  the depth. An absent node reads as -1, a removed entry as 0.
\<close>

datatype tree128 = Bottom128 "nat \<Rightarrow> int" | Head128 "nat \<Rightarrow> tree128 option"

definition allocate_node128 :: "nat \<Rightarrow> tree128" where
  "allocate_node128 d = (if d = 0 then Bottom128 (\<lambda>_. 0) else Head128 (\<lambda>_. None))"

definition shl128 :: "nat \<Rightarrow> nat" where
  "shl128 k = push_bit 21 k mod 2 ^ 128"

definition head_idx128 :: "nat \<Rightarrow> nat" where
  "head_idx128 k = (let mask = 2 ^ 128 - 2 ^ 107 in drop_bit 107 (mask AND k))"

definition bottom_idx128 :: "nat \<Rightarrow> nat" where
  "bottom_idx128 k = (let mask = 2 ^ 128 - 2 ^ 105 in drop_bit 105 (mask AND k))"

fun bottom_write128 :: "(nat \<Rightarrow> int) \<Rightarrow> nat \<Rightarrow> int \<Rightarrow> nat \<Rightarrow> (nat \<Rightarrow> int) option" where
  "bottom_write128 b idx v 0 = Some b"
| "bottom_write128 b idx v (Suc n) = do {
     b \<leftarrow> bottom_write128 b idx v n;
     ensure (idx + n < 2 ^ 23);
     Some (b(idx + n := v)) }"

primrec insert128 :: "nat \<Rightarrow> tree128 \<Rightarrow> nat \<Rightarrow> int \<Rightarrow> nat \<Rightarrow> tree128 option" where
  "insert128 0 t k v n = (case t of
     Bottom128 b \<Rightarrow> map_option Bottom128 (bottom_write128 b (bottom_idx128 k) v n) | Head128 _ \<Rightarrow> None)"
| "insert128 (Suc d) t k v n = (case t of
     Head128 nodes \<Rightarrow> do {
       let idx = head_idx128 k;
       ensure (idx < 2 ^ 21);
       let node = (case nodes idx of None \<Rightarrow> allocate_node128 d | Some node_ptr \<Rightarrow> node_ptr);
       node \<leftarrow> insert128 d node (shl128 k) v n;
       Some (Head128 (nodes(idx := Some node))) }
   | Bottom128 _ \<Rightarrow> None)"

primrec remove128 :: "nat \<Rightarrow> tree128 \<Rightarrow> nat \<Rightarrow> nat \<Rightarrow> tree128 option" where
  "remove128 0 t k n = (case t of
     Bottom128 b \<Rightarrow> map_option Bottom128 (bottom_write128 b (bottom_idx128 k) 0 n) | Head128 _ \<Rightarrow> None)"
| "remove128 (Suc d) t k n = (case t of
     Head128 nodes \<Rightarrow> do {
       let idx = head_idx128 k;
       ensure (idx < 2 ^ 21);
       (case nodes idx of
          None \<Rightarrow> Some t
        | Some node \<Rightarrow> do {
            node \<leftarrow> remove128 d node (shl128 k) n;
            Some (Head128 (nodes(idx := Some node))) }) }
   | Bottom128 _ \<Rightarrow> None)"

primrec get_mut128 :: "nat \<Rightarrow> tree128 \<Rightarrow> nat \<Rightarrow> int option" where
  "get_mut128 0 t k = (case t of
     Bottom128 b \<Rightarrow> (let idx = bottom_idx128 k in if idx < 2 ^ 23 then Some (b idx) else None)
   | Head128 _ \<Rightarrow> None)"
| "get_mut128 (Suc d) t k = (case t of
     Head128 nodes \<Rightarrow> do {
       let idx = head_idx128 k;
       ensure (idx < 2 ^ 21);
       (case nodes idx of None \<Rightarrow> Some (-1) | Some node \<Rightarrow> get_mut128 d node (shl128 k)) }
   | Bottom128 _ \<Rightarrow> None)"

primrec shape128 :: "nat \<Rightarrow> tree128 \<Rightarrow> bool" where
  "shape128 0 t = (case t of Bottom128 _ \<Rightarrow> True | Head128 _ \<Rightarrow> False)"
| "shape128 (Suc d) t = (case t of
     Head128 nodes \<Rightarrow> (\<forall>i node. nodes i = Some node \<longrightarrow> shape128 d node) | Bottom128 _ \<Rightarrow> False)"


lemma idx128:
  assumes "k < 2 ^ 128"
  shows "head_idx128 k = k div 2 ^ 107" "bottom_idx128 k = k div 2 ^ 105"
proof -
  have h: "drop_bit 107 (2 ^ 128 - 2 ^ 107 :: nat) = 2 ^ 21 - 1" "drop_bit 105 (2 ^ 128 - 2 ^ 105 :: nat) = 2 ^ 23 - 1"
    by (simp_all add: drop_bit_eq_div)
  have "k div 2 ^ 107 < 2 ^ 21" "k div 2 ^ 105 < 2 ^ 23" using assms by (simp_all add: less_mult_imp_div_less)
  then have m: "(k div 2 ^ 107) AND (2 ^ 21 - 1) = k div 2 ^ 107" "(k div 2 ^ 105) AND (2 ^ 23 - 1) = k div 2 ^ 105"
    unfolding and_mask_mod [OF is_pow2_power] by simp_all
  show "head_idx128 k = k div 2 ^ 107"
    unfolding head_idx128_def Let_def drop_bit_and h by (subst and.commute) (simp only: drop_bit_eq_div m)
  show "bottom_idx128 k = k div 2 ^ 105"
    unfolding bottom_idx128_def Let_def drop_bit_and h by (subst and.commute) (simp only: drop_bit_eq_div m)
qed

text \<open>A key at depth \<open>d\<close>: its remaining bits at the top of the word.\<close>

definition key128 :: "nat \<Rightarrow> nat \<Rightarrow> nat" where
  "key128 d K = K * 2 ^ (105 - 21 * d)"

lemma key128_Suc:
  assumes "K < 2 ^ (21 * Suc d + 23)" "Suc d \<le> 5"
  shows "head_idx128 (key128 (Suc d) K) = K div 2 ^ (21 * d + 23)"
    "shl128 (key128 (Suc d) K) = key128 d (K mod 2 ^ (21 * d + 23))" "K div 2 ^ (21 * d + 23) < 2 ^ 21"
proof -
  let ?s = "105 - 21 * Suc d" and ?w = "21 * d + 23"
  have e: "?s + ?w = 107" "?s + 21 = 105 - 21 * d" "?w + (105 - 21 * d) = 128" "?w + 21 = 21 * Suc d + 23"
    using assms(2) by simp_all
  have "K * 2 ^ ?s < 2 ^ (21 * Suc d + 23) * 2 ^ ?s" using assms(1) by simp
  also have "(2::nat) ^ (21 * Suc d + 23) * 2 ^ ?s = 2 ^ 128"
    using assms(2) by (simp add: power_add [symmetric])
  finally have k: "key128 (Suc d) K < 2 ^ 128" by (simp add: key128_def)
  have "(2::nat) ^ 107 = 2 ^ ?s * 2 ^ ?w" by (simp only: power_add [symmetric] e)
  then show "head_idx128 (key128 (Suc d) K) = K div 2 ^ ?w"
    unfolding idx128(1) [OF k] unfolding key128_def by (simp only: div_mult2_eq) simp
  have p: "(2::nat) ^ 128 = 2 ^ ?w * 2 ^ (105 - 21 * d)" by (simp only: power_add [symmetric] e)
  have "shl128 (key128 (Suc d) K) = K * (2 ^ ?s * 2 ^ 21) mod 2 ^ 128"
    by (simp only: shl128_def key128_def push_bit_eq_mult mult.assoc)
  also have "\<dots> = K * 2 ^ (105 - 21 * d) mod (2 ^ ?w * 2 ^ (105 - 21 * d))"
    by (simp only: power_add [symmetric] e)
  also have "\<dots> = K mod 2 ^ ?w * 2 ^ (105 - 21 * d)" by (rule mult_mod_left [symmetric])
  finally show "shl128 (key128 (Suc d) K) = key128 d (K mod 2 ^ ?w)" by (simp only: key128_def)
  have "(2::nat) ^ (21 * Suc d + 23) = 2 ^ 21 * 2 ^ ?w" by (simp add: power_add)
  then have "K < 2 ^ 21 * 2 ^ ?w" using assms(1) by simp
  then show "K div 2 ^ ?w < 2 ^ 21" by (rule less_mult_imp_div_less)
qed

lemma bottom_write128_fills:
  "idx + n \<le> 2 ^ 23 \<Longrightarrow> bottom_write128 b idx v n = Some (fill b idx n v)"
  by (induction n) (auto simp: fill_def fun_eq_iff)

lemma key128_0: "K < 2 ^ 23 \<Longrightarrow> bottom_idx128 (key128 0 K) = K"
  using idx128(2) [of "key128 0 K"] by (simp add: key128_def)

lemma fresh128:
  "d \<le> 5 \<Longrightarrow> Q < 2 ^ (21 * d + 23) \<Longrightarrow> shape128 d (allocate_node128 d)
    \<and> (0 < d \<longrightarrow> get_mut128 d (allocate_node128 d) (key128 d Q) = Some (-1))"
  using key128_Suc(1,3) [of Q "d - 1"] by (cases d) (auto simp: allocate_node128_def)

lemma insert128_get:
  assumes "d \<le> 5" "shape128 d t" "K < 2 ^ (21 * d + 23)" "K mod 2 ^ 23 + n \<le> 2 ^ 23" "0 < n"
  shows "\<exists>t'. insert128 d t (key128 d K) v n = Some t' \<and> shape128 d t' \<and> (\<forall>Q < 2 ^ (21 * d + 23).
     (K \<le> Q \<and> Q < K + n \<longrightarrow> get_mut128 d t' (key128 d Q) = Some v)
     \<and> (Q div 2 ^ 23 \<noteq> K div 2 ^ 23 \<longrightarrow> get_mut128 d t' (key128 d Q) = get_mut128 d t (key128 d Q)))"
  using assms
proof (induction d arbitrary: t K)
  case 0
  then obtain b where t: "t = Bottom128 b" by (cases t) auto
  have K: "K < 2 ^ 23" "K + n \<le> 2 ^ 23" using "0.prems" by simp_all
  have "insert128 0 t (key128 0 K) v n = Some (Bottom128 (fill b K n v))"
    using key128_0 [OF K(1)] bottom_write128_fills [OF K(2)] t by simp
  moreover have "\<forall>Q < 2 ^ 23. get_mut128 0 (Bottom128 c) (key128 0 Q) = Some (c Q)" for c
    by (simp add: key128_0 Let_def)
  ultimately show ?case using t K by (simp add: fill_def)
next
  case (Suc d)
  let ?w = "21 * d + 23"
  obtain nodes where t: "t = Head128 nodes" using Suc.prems(2) by (cases t) auto
  note k = key128_Suc [OF Suc.prems(3,1)]
  define node where "node = (case nodes (K div 2 ^ ?w) of None \<Rightarrow> allocate_node128 d | Some c \<Rightarrow> c)"
  have sh: "shape128 d node"
    using Suc.prems(1,2) t fresh128 [of d 0] by (auto simp: node_def split: option.splits)
  let ?K = "K mod 2 ^ ?w"
  have dv: "(2::nat) ^ 23 dvd 2 ^ ?w" by (rule le_imp_power_dvd) simp
  have Kw: "?K < 2 ^ ?w" "?K mod 2 ^ 23 + n \<le> 2 ^ 23"
    using Suc.prems(4) mod_mod_cancel [OF dv, of K] by simp_all
  obtain c where c: "insert128 d node (key128 d ?K) v n = Some c" "shape128 d c"
    and g: "\<And>Q. Q < 2 ^ ?w \<Longrightarrow> (?K \<le> Q \<and> Q < ?K + n \<longrightarrow> get_mut128 d c (key128 d Q) = Some v)
     \<and> (Q div 2 ^ 23 \<noteq> ?K div 2 ^ 23 \<longrightarrow> get_mut128 d c (key128 d Q) = get_mut128 d node (key128 d Q))"
    using Suc.IH [OF _ sh Kw Suc.prems(5)] Suc.prems(1) by auto
  let ?t = "Head128 (nodes(K div 2 ^ ?w := Some c))"
  have "insert128 (Suc d) t (key128 (Suc d) K) v n = Some ?t"
    using k c(1) t by (simp add: node_def Let_def)
  moreover have "shape128 (Suc d) ?t" using Suc.prems(2) t c(2) by auto
  moreover have "(K \<le> Q \<and> Q < K + n \<longrightarrow> get_mut128 (Suc d) ?t (key128 (Suc d) Q) = Some v)
     \<and> (Q div 2 ^ 23 \<noteq> K div 2 ^ 23 \<longrightarrow> get_mut128 (Suc d) ?t (key128 (Suc d) Q) = get_mut128 (Suc d) t (key128 (Suc d) Q))"
    if Q: "Q < 2 ^ (21 * Suc d + 23)" for Q
  proof (cases "Q div 2 ^ ?w = K div 2 ^ ?w")
    case False
    note q = key128_Suc [OF Q Suc.prems(1)]
    have "Q div 2 ^ 23 \<noteq> K div 2 ^ 23"
    proof
      assume "Q div 2 ^ 23 = K div 2 ^ 23"
      then have "Q div 2 ^ 23 div 2 ^ (21 * d) = K div 2 ^ 23 div 2 ^ (21 * d)" by simp
      then show False using False by (simp only: div_mult2_eq [symmetric] power_add [symmetric] add.commute)
    qed
    moreover have "\<not> (K \<le> Q \<and> Q < K + n)"
      using same_node [OF Suc.prems(4), of Q] calculation by blast
    ultimately show ?thesis using False q t by (auto simp: Let_def)
  next
    case True
    note q = key128_Suc [OF Q Suc.prems(1)]
    let ?Q = "Q mod 2 ^ ?w"
    have ge: "get_mut128 (Suc d) ?t (key128 (Suc d) Q) = get_mut128 d c (key128 d ?Q)"
      using True q by (simp add: Let_def)
    have Qs: "Q = K div 2 ^ ?w * 2 ^ ?w + ?Q" "K = K div 2 ^ ?w * 2 ^ ?w + ?K"
      using div_mult_mod_eq [of Q "2 ^ ?w"] div_mult_mod_eq [of K "2 ^ ?w"] True by simp_all
    have rng: "K \<le> Q \<and> Q < K + n \<longleftrightarrow> ?K \<le> ?Q \<and> ?Q < ?K + n" using Qs by linarith
    have dq: "Q div 2 ^ 23 = K div 2 ^ ?w * 2 ^ (21 * d) + ?Q div 2 ^ 23"
      "K div 2 ^ 23 = K div 2 ^ ?w * 2 ^ (21 * d) + ?K div 2 ^ 23"
    proof -
      have p: "(2::nat) ^ ?w = 2 ^ 23 * 2 ^ (21 * d)" by (simp only: power_add [symmetric] add.commute)
      have "(a * 2 ^ ?w + b) div 2 ^ 23 = a * 2 ^ (21 * d) + b div (2::nat) ^ 23" for a b
      proof -
        have "a * 2 ^ ?w + b = b + a * 2 ^ (21 * d) * 2 ^ 23" unfolding p by simp
        then show ?thesis by (simp only: div_mult_self1) simp
      qed
      then show "Q div 2 ^ 23 = K div 2 ^ ?w * 2 ^ (21 * d) + ?Q div 2 ^ 23"
        "K div 2 ^ 23 = K div 2 ^ ?w * 2 ^ (21 * d) + ?K div 2 ^ 23"
        using Qs by metis+
    qed
    have gs: "Q div 2 ^ 23 \<noteq> K div 2 ^ 23 \<Longrightarrow> get_mut128 d node (key128 d ?Q) = get_mut128 (Suc d) t (key128 (Suc d) Q)"
    proof (cases "nodes (K div 2 ^ ?w)")
      case None
      assume ne: "Q div 2 ^ 23 \<noteq> K div 2 ^ 23"
      have "0 < d"
      proof (rule ccontr)
        assume "\<not> 0 < d"
        then have "?Q div 2 ^ 23 = 0" "?K div 2 ^ 23 = 0" by simp_all
        then show False using ne dq by simp
      qed
      then have "get_mut128 d node (key128 d ?Q) = Some (-1)"
        using fresh128 [of d ?Q] Suc.prems(1) None by (simp add: node_def)
      then show ?thesis using None True q t by (simp add: Let_def)
    next
      case (Some x)
      then show ?thesis using True q t by (simp add: node_def Let_def)
    qed
    have "?Q < 2 ^ ?w" by simp
    from g [OF this] show ?thesis unfolding ge rng using gs dq by auto
  qed
  ultimately show ?case by blast
qed


text \<open>In the six-level tree of 128-bit keys, inserting a range that stays within one bottom node makes
  exactly the keys of the range read as the inserted value, and no key of any other bottom node reads
  differently.\<close>

theorem radix128_insert_get:
  assumes "shape128 5 t" "k < 2 ^ 128" "k mod 2 ^ 23 + n \<le> 2 ^ 23" "0 < n"
  shows "\<exists>t'. insert128 5 t k v n = Some t' \<and> shape128 5 t' \<and> (\<forall>q < 2 ^ 128.
     (k \<le> q \<and> q < k + n \<longrightarrow> get_mut128 5 t' q = Some v)
     \<and> (q div 2 ^ 23 \<noteq> k div 2 ^ 23 \<longrightarrow> get_mut128 5 t' q = get_mut128 5 t q))"
proof -
  have k5: "key128 5 x = x" for x by (simp add: key128_def)
  have e: "21 * 5 + 23 = (128 :: nat)" by simp
  show ?thesis using insert128_get [of 5 t k n v] assms unfolding k5 e by simp
qed

theorem radix128_insert_get_witness:
  "\<exists>t'. insert128 5 (allocate_node128 5) (2 ^ 127 + 5) 9 3 = Some t' \<and> get_mut128 5 t' (2 ^ 127 + 6) = Some 9"
proof -
  have "\<exists>t'. insert128 5 (allocate_node128 5) (2 ^ 127 + 5) 9 3 = Some t' \<and> shape128 5 t' \<and> (\<forall>q < 2 ^ 128.
     (2 ^ 127 + 5 \<le> q \<and> q < 2 ^ 127 + 5 + 3 \<longrightarrow> get_mut128 5 t' q = Some 9)
     \<and> (q div 2 ^ 23 \<noteq> (2 ^ 127 + 5) div 2 ^ 23 \<longrightarrow> get_mut128 5 t' q = get_mut128 5 (allocate_node128 5) q))"
    by (rule radix128_insert_get) (use fresh128 [of 5 0] in simp_all)
  then show ?thesis by (auto dest: spec [of _ "2 ^ 127 + 6"])
qed

end
