(* ===== verification/Machine.thy ===== *)
theory Machine
  imports UA_Prelude
begin

text \<open>
  The memory and the operating system as the allocator sees them. Memory is a map from addresses to the
  64-bit words stored there: the links of the free objects are words in the objects themselves.
  \<open>answers\<close> are the addresses that the coming calls of \<open>mmap\<close> return (\<open>pal/sys_alloc.rs\<close>); the all-ones
  address, and no answer left, is a failure. Fresh mappings are zero. \<open>mapped\<close> and \<open>unmapped\<close> record the calls.
\<close>

record machine =
  mem :: "nat \<Rightarrow> nat"
  answers :: "nat list"
  mapped :: "(nat \<times> nat) list"
  unmapped :: "(nat \<times> nat) list"

definition usize_max :: nat where "usize_max = 2 ^ 64 - 1"

definition zero_range :: "(nat \<Rightarrow> nat) \<Rightarrow> nat \<Rightarrow> nat \<Rightarrow> nat \<Rightarrow> nat" where
  "zero_range f p n = (\<lambda>x. if p \<le> x \<and> x < p + n then 0 else f x)"

definition os_mmap :: "machine \<Rightarrow> nat \<Rightarrow> machine \<times> nat" where
  "os_mmap m req = (case answers m of
      [] \<Rightarrow> (m, usize_max)
    | p # ps \<Rightarrow> (if p = usize_max then (m\<lparr>answers := ps\<rparr>, usize_max)
        else (m\<lparr>answers := ps, mem := zero_range (mem m) p req, mapped := (p, req) # mapped m\<rparr>, p)))"

definition os_munmap :: "machine \<Rightarrow> nat \<Rightarrow> nat \<Rightarrow> machine" where
  "os_munmap m ptr sz = m\<lparr>unmapped := (ptr, sz) # unmapped m\<rparr>"

section \<open>Ranges\<close>

definition apart :: "nat \<times> nat \<Rightarrow> nat \<times> nat \<Rightarrow> bool" where
  "apart x y \<longleftrightarrow> fst x + snd x \<le> fst y \<or> fst y + snd y \<le> fst x"

definition within :: "nat \<times> nat \<Rightarrow> nat \<times> nat \<Rightarrow> bool" where
  "within x y \<longleftrightarrow> fst y \<le> fst x \<and> fst x + snd x \<le> fst y + snd y"

lemma apart_sym: "apart x y = apart y x"
  by (auto simp: apart_def)

lemma apart_within: "apart x y \<Longrightarrow> within z x \<Longrightarrow> apart z y"
  by (auto simp: apart_def within_def)

lemma within_refl [simp]: "within x x"
  by (simp add: within_def)

lemma within_trans: "within x y \<Longrightarrow> within y z \<Longrightarrow> within x z"
  by (simp add: within_def)

section \<open>Protection bits\<close>

text \<open>\<open>prots::get_prot\<close> with the values of Linux.\<close>

definition PROT_NONE :: nat where "PROT_NONE = 0"
definition PROT_READ :: nat where "PROT_READ = 1"
definition PROT_WRITE :: nat where "PROT_WRITE = 2"
definition PROT_EXEC :: nat where "PROT_EXEC = 4"

fun get_prot :: "bool \<Rightarrow> bool \<Rightarrow> bool \<Rightarrow> nat" where
  "get_prot False False False = PROT_NONE"
| "get_prot True False False = PROT_READ"
| "get_prot False True False = PROT_WRITE"
| "get_prot False False True = PROT_EXEC"
| "get_prot True True False = PROT_READ OR PROT_WRITE"
| "get_prot True False True = PROT_READ OR PROT_EXEC"
| "get_prot False True True = PROT_WRITE OR PROT_EXEC"
| "get_prot True True True = PROT_READ OR PROT_WRITE OR PROT_EXEC"

lemma get_prot_bits:
  "bit (get_prot r w x) 0 = r \<and> bit (get_prot r w x) 1 = w \<and> bit (get_prot r w x) 2 = x"
  by (cases r; cases w; cases x)
    (simp_all add: PROT_NONE_def PROT_READ_def PROT_WRITE_def PROT_EXEC_def bit_or_iff bit_0)

record page_heap =
  ph_read :: bool
  ph_write :: bool
  ph_exec :: bool

definition page_heap_default :: page_heap where
  "page_heap_default = \<lparr>ph_read = True, ph_write = True, ph_exec = False\<rparr>"

definition page_heap_alloc :: "machine \<Rightarrow> page_heap \<Rightarrow> layout \<Rightarrow> (machine \<times> nat) option" where
  "page_heap_alloc m h l = do {
     ensure (lsize l mod 0x1000 = 0);
     Some (os_mmap m (lsize l)) }"

definition page_heap_dealloc :: "machine \<Rightarrow> nat \<Rightarrow> layout \<Rightarrow> machine option" where
  "page_heap_dealloc m ptr l = do {
     ensure (lsize l mod 0x1000 = 0);
     ensure (ptr mod 0x1000 = 0);
     Some (os_munmap m ptr (lsize l)) }"

section \<open>Chains of words\<close>

text \<open>
  \<open>chain m p xs q\<close>: from the pointer \<open>p\<close>, following the words, one meets exactly the objects \<open>xs\<close> and then
  the pointer \<open>q\<close>.
\<close>

fun chain :: "(nat \<Rightarrow> nat) \<Rightarrow> nat \<Rightarrow> nat list \<Rightarrow> nat \<Rightarrow> bool" where
  "chain m p [] q = (p = q)"
| "chain m p (x # xs) q = (p = x \<and> x \<noteq> 0 \<and> chain m (m x) xs q)"

lemma chain_append: "chain m p (xs @ ys) q \<longleftrightarrow> (\<exists>r. chain m p xs r \<and> chain m r ys q)"
  by (induction xs arbitrary: p) auto

lemma chain_cong: "(\<And>x. x \<in> set xs \<Longrightarrow> m x = m' x) \<Longrightarrow> chain m p xs q = chain m' p xs q"
  by (induction xs arbitrary: p) auto

lemma chain_upd: "x \<notin> set xs \<Longrightarrow> chain (m(x := v)) p xs q = chain m p xs q"
  by (rule chain_cong) auto

lemma chain_nonzero: "chain m p xs q \<Longrightarrow> 0 \<notin> set xs"
  by (induction xs arbitrary: p) auto

lemma chain_zero_iff: "chain m p xs 0 \<Longrightarrow> p = 0 \<longleftrightarrow> xs = []"
  by (cases xs) auto

text \<open>Redirecting the last object of a chain.\<close>

lemma chain_snoc_upd:
  "distinct (xs @ [x]) \<Longrightarrow> chain m p (xs @ [x]) q \<Longrightarrow> chain (m(x := v)) p (xs @ [x]) v"
  by (auto simp: chain_append chain_upd)

text \<open>Taking an object out of a chain: its predecessor is redirected.\<close>

lemma chain_remove:
  assumes "chain m p (xs @ w # x # ys) q" "distinct (xs @ w # x # ys)"
  shows "chain (m(w := m x)) p (xs @ w # ys) q"
  using assms by (auto simp: chain_append chain_upd)

end
