(* ===== verification/Bump.thy ===== *)
theory Bump
  imports Machine
begin

text \<open>
  The bump allocators: \<open>BUMP\<close> (\<open>freelist/bump.rs\<close>), the backend of last resort; \<open>PG_BUMP\<close>
  (\<open>page/mod.rs\<close>), which makes the headers of slabs; and \<open>META_BUMP\<close> (\<open>sc/mod.rs\<close>), which makes metadata and
  keeps the freed units on a list. Each takes requests from the top of a chunk and maps a new chunk when
  the old one is used up. The locale \<open>bump_allocator\<close> is the contract the three share, and its main lemma
  says that in any run no two requests get overlapping memory.
\<close>

section \<open>The backend bump allocator\<close>

record bump =
  check_point :: nat
  bcurrent :: nat

definition bump_new :: bump where
  "bump_new = \<lparr>check_point = 0, bcurrent = 0\<rparr>"

definition BUMP_DEFAULT_SIZE :: nat where "BUMP_DEFAULT_SIZE = 0x100000000"

definition bump_init :: "machine \<Rightarrow> bump \<Rightarrow> machine \<times> bump" where
  "bump_init m b =
     (let m = (if check_point b \<noteq> bcurrent b
               then os_munmap m (check_point b) (wsub (bcurrent b) (check_point b)) else m);
          (m, ptr) = os_mmap m BUMP_DEFAULT_SIZE;
          start = (if ptr = usize_max then 0 else ptr)
      in (m, \<lparr>check_point = start, bcurrent = wadd start BUMP_DEFAULT_SIZE\<rparr>))"

definition bump_round :: "nat \<Rightarrow> nat" where
  "bump_round sz = wmul (wsub (wadd sz PAGE_SIZE) 1 div PAGE_SIZE) PAGE_SIZE"

definition bump_alloc :: "machine \<Rightarrow> bump \<Rightarrow> nat \<Rightarrow> machine \<times> bump \<times> (alloc_error + nat)" where
  "bump_alloc m b sz =
     (let alloc_size = bump_round sz;
          (m, b) = (if wadd (check_point b) alloc_size > bcurrent b then bump_init m b else (m, b));
          ptr = bcurrent b
      in if alloc_size \<le> ptr
         then (m, b\<lparr>bcurrent := ptr - alloc_size\<rparr>, Inr (ptr - alloc_size))
         else (m, b, Inl EFATAL))"

text \<open>With the feature \<open>fixed_heap\<close> the chunk is given and grows upwards; \<open>check_point\<close> is its end.\<close>

definition bump_init_with_range :: "bump \<Rightarrow> nat \<Rightarrow> nat \<Rightarrow> bump" where
  "bump_init_with_range b start end' = \<lparr>check_point = end', bcurrent = start\<rparr>"

definition bump_extend_with_range :: "bump \<Rightarrow> nat \<Rightarrow> bump \<times> nat" where
  "bump_extend_with_range b sz =
     (let b = b\<lparr>check_point := wadd (check_point b) sz\<rparr> in (b, check_point b))"

definition bump_alloc_fixed :: "bump \<Rightarrow> nat \<Rightarrow> bump \<times> (alloc_error + nat)" where
  "bump_alloc_fixed b sz =
     (let alloc_size = bump_round sz; current_ptr = bcurrent b in
      if wsub (check_point b) alloc_size < current_ptr then (b, Inl ENOMEM)
      else if current_ptr + alloc_size < usize_range
        then (b\<lparr>bcurrent := current_ptr + alloc_size\<rparr>, Inr current_ptr)
        else (b, Inl EFATAL))"

section \<open>The bump allocator of slab headers\<close>

record page_bump =
  pb_start :: nat
  pb_current :: nat

definition page_bump_new :: page_bump where
  "page_bump_new = \<lparr>pb_start = 0, pb_current = 0\<rparr>"

text \<open>The size of \<open>EfObjectPage\<close>: five words.\<close>

definition OBJECT_PAGE_BYTES :: nat where "OBJECT_PAGE_BYTES = 40"

definition PB_DEFAULT_SIZE :: nat where "PB_DEFAULT_SIZE = OBJECT_PAGE_BYTES * PAGE_SIZE"

definition page_bump_init_with_range :: "page_bump \<Rightarrow> nat \<Rightarrow> nat \<Rightarrow> page_bump" where
  "page_bump_init_with_range b start end' = \<lparr>pb_start = start, pb_current = end'\<rparr>"

definition page_bump_try_extend :: "page_bump \<Rightarrow> nat \<Rightarrow> nat \<Rightarrow> nat \<Rightarrow> page_bump \<times> bool" where
  "page_bump_try_extend b start end' page_size =
     (if end' = pb_start b then (b\<lparr>pb_start := align_down start page_size\<rparr>, True) else (b, False))"

definition page_bump_alloc :: "machine \<Rightarrow> page_bump \<Rightarrow> nat \<Rightarrow> (machine \<times> page_bump \<times> nat) option" where
  "page_bump_alloc m b sz = do {
     ensure (sz = OBJECT_PAGE_BYTES);
     let cur = pb_current b;
     let cur_start = pb_start b;
     let (m, b) = (if cur \<le> cur_start \<or> cur - cur_start > PB_DEFAULT_SIZE then
         (let (m, ptr) = os_mmap m PB_DEFAULT_SIZE;
              start = (if ptr = usize_max then 0 else ptr);
              end' = wadd start PB_DEFAULT_SIZE
          in (m, \<lparr>pb_start = start, pb_current = end'\<rparr>)) else (m, b));
     let new_cur = wsub (pb_current b) sz;
     Some (m, b\<lparr>pb_current := new_cur\<rparr>, new_cur) }"

text \<open>With \<open>fixed_heap\<close> a new chunk is a page of the backend; \<open>page\<close> is the pointer the backend returns.\<close>

definition page_bump_alloc_fixed :: "page_bump \<Rightarrow> nat \<Rightarrow> nat \<Rightarrow> (page_bump \<times> nat) option" where
  "page_bump_alloc_fixed b sz page = do {
     ensure (sz = OBJECT_PAGE_BYTES);
     let cur = pb_current b;
     let cur_start = pb_start b;
     let b = (if cur \<le> cur_start \<or> cur - cur_start > PB_DEFAULT_SIZE
              then \<lparr>pb_start = page, pb_current = wadd page 4096\<rparr> else b);
     let new_cur = wsub (pb_current b) sz;
     Some (b\<lparr>pb_current := new_cur\<rparr>, new_cur) }"

section \<open>The bump allocator of metadata\<close>

record meta_bump =
  mb_start :: nat
  mb_current :: nat
  backup :: nat

definition meta_bump_new :: meta_bump where
  "meta_bump_new = \<lparr>mb_start = 0, mb_current = 0, backup = 0\<rparr>"

definition MB_DEFAULT_SIZE :: nat where "MB_DEFAULT_SIZE = 4 * 2 ^ 24"

text \<open>The size of a \<open>ThreadCache\<close>: 64 units of 32 bytes.\<close>

definition ALLOC_UNIT :: nat where "ALLOC_UNIT = 2048"

definition sc_bump_alloc :: "machine \<Rightarrow> meta_bump \<Rightarrow> nat \<Rightarrow> machine \<times> meta_bump \<times> nat" where
  "sc_bump_alloc m b sz =
     (let cur_start = mb_start b;
          (m, b) = (if \<not> (mb_current b > mb_start b \<and> mb_current b - cur_start \<le> MB_DEFAULT_SIZE) then
              (let (m, ptr) = os_mmap m MB_DEFAULT_SIZE;
                   start = (if ptr = usize_max then 0 else ptr)
               in (m, b\<lparr>mb_start := start, mb_current := wadd start MB_DEFAULT_SIZE\<rparr>)) else (m, b));
          new_cur = wsub (mb_current b) sz
      in (m, b\<lparr>mb_current := new_cur\<rparr>, new_cur))"

text \<open>With \<open>fixed_heap\<close> a spent chunk is an error.\<close>

definition sc_bump_alloc_fixed :: "meta_bump \<Rightarrow> nat \<Rightarrow> meta_bump \<times> (alloc_error + nat)" where
  "sc_bump_alloc_fixed b sz =
     (let cur_start = mb_start b in
      if \<not> (mb_current b > mb_start b \<and> mb_current b - cur_start \<le> MB_DEFAULT_SIZE) then (b, Inl ENOMEM)
      else (let new_cur = wsub (mb_current b) sz in (b\<lparr>mb_current := new_cur\<rparr>, Inr new_cur)))"

definition unit_round :: "nat \<Rightarrow> nat" where
  "unit_round sz = wmul (wsub (wadd sz ALLOC_UNIT) 1 div ALLOC_UNIT) ALLOC_UNIT"

definition meta_bump_alloc :: "machine \<Rightarrow> meta_bump \<Rightarrow> nat \<Rightarrow> machine \<times> meta_bump \<times> nat" where
  "meta_bump_alloc m b sz =
     (let alloc_unit = ALLOC_UNIT; sz = unit_round sz; head = backup b in
      if sz = alloc_unit \<and> head \<noteq> 0 then (m, b\<lparr>backup := mem m head\<rparr>, head)
      else sc_bump_alloc m b sz)"

definition meta_bump_dealloc :: "machine \<Rightarrow> meta_bump \<Rightarrow> nat \<Rightarrow> machine \<times> meta_bump" where
  "meta_bump_dealloc m b ptr =
     (let head = backup b in (m\<lparr>mem := (mem m)(ptr := head)\<rparr>, b\<lparr>backup := ptr\<rparr>))"

text \<open>The \<open>Allocator\<close> on top: a null pointer is an error, and every deallocation is taken for a unit.\<close>

definition meta_allocate :: "machine \<Rightarrow> meta_bump \<Rightarrow> layout \<Rightarrow> machine \<times> meta_bump \<times> (alloc_error + nat \<times> nat)" where
  "meta_allocate m b l =
     (let (m, b, raw_ptr) = meta_bump_alloc m b (lsize l)
      in (m, b, if raw_ptr = 0 then Inl ENOMEM else Inr (raw_ptr, lsize l)))"

definition meta_deallocate :: "machine \<Rightarrow> meta_bump \<Rightarrow> nat \<Rightarrow> layout \<Rightarrow> machine \<times> meta_bump" where
  "meta_deallocate m b ptr l = meta_bump_dealloc m b ptr"

section \<open>The contract\<close>

text \<open>
  A run is a sequence of successful requests; \<open>given\<close> are the ranges handed out, with the bytes each takes.
  In a run the operating system does not fail.
\<close>

inductive bump_run ::
  "(machine \<Rightarrow> 'b \<Rightarrow> nat \<Rightarrow> (machine \<times> 'b \<times> nat) option) \<Rightarrow> (nat \<Rightarrow> bool) \<Rightarrow> (nat \<Rightarrow> nat)
    \<Rightarrow> machine \<Rightarrow> 'b \<Rightarrow> machine \<Rightarrow> 'b \<Rightarrow> (nat \<times> nat) list \<Rightarrow> bool"
  for alloc :: "machine \<Rightarrow> 'b \<Rightarrow> nat \<Rightarrow> (machine \<times> 'b \<times> nat) option"
    and req_ok :: "nat \<Rightarrow> bool" and taken :: "nat \<Rightarrow> nat" and m0 :: machine and b0 :: 'b where
  start: "bump_run alloc req_ok taken m0 b0 m0 b0 []"
| request: "bump_run alloc req_ok taken m0 b0 m b given \<Longrightarrow> req_ok sz \<Longrightarrow> answers m \<noteq> [] \<Longrightarrow>
    alloc m b sz = Some (m', b', p) \<Longrightarrow> bump_run alloc req_ok taken m0 b0 m' b' ((p, taken sz) # given)"

text \<open>What the operating system promises: the chunks it will map lie apart from each other.\<close>

definition fresh_answers :: "nat \<Rightarrow> nat list \<Rightarrow> bool" where
  "fresh_answers chunk ps \<longleftrightarrow> (\<forall>p \<in> set ps. 0 < p \<and> p + chunk < 2 ^ 64)
     \<and> sorted_wrt (\<lambda>p q. apart (p, chunk) (q, chunk)) ps"

locale bump_allocator =
  fixes alloc :: "machine \<Rightarrow> 'b \<Rightarrow> nat \<Rightarrow> (machine \<times> 'b \<times> nat) option"
    and inv :: "'b \<Rightarrow> bool" and lo cur :: "'b \<Rightarrow> nat"
    and req_ok :: "nat \<Rightarrow> bool" and taken :: "nat \<Rightarrow> nat" and chunk :: nat
  assumes inv_region: "inv b \<Longrightarrow> lo b \<le> cur b"
    and taken_pos: "req_ok sz \<Longrightarrow> 0 < taken sz"
    and alloc_step: "inv b \<Longrightarrow> req_ok sz \<Longrightarrow> answers m = p # ps \<Longrightarrow> 0 < p \<Longrightarrow> p + chunk < 2 ^ 64 \<Longrightarrow>
      \<exists>m' b' q. alloc m b sz = Some (m', b', q) \<and> inv b' \<and> cur b' = q \<and> lo b' \<le> q
       \<and> (lo b' = lo b \<and> q + taken sz = cur b \<and> answers m' = answers m \<and> mapped m' = mapped m \<and> unmapped m' = unmapped m
        \<or> lo b' = p \<and> q + taken sz = p + chunk \<and> answers m' = ps \<and> mapped m' = (p, chunk) # mapped m
          \<and> (unmapped m' = unmapped m \<or> lo b < cur b \<and> unmapped m' = (lo b, cur b - lo b) # unmapped m))"
begin

text \<open>What is left of the chunk, what was given, and what may still be mapped lie apart.\<close>

definition run_inv :: "machine \<Rightarrow> 'b \<Rightarrow> (nat \<times> nat) list \<Rightarrow> bool" where
  "run_inv m b given \<longleftrightarrow> inv b \<and> fresh_answers chunk (answers m)
     \<and> sorted_wrt apart given
     \<and> (\<forall>r \<in> set given. apart (lo b, cur b - lo b) r \<and> (\<exists>c \<in> set (mapped m). within r c)
        \<and> (\<forall>p \<in> set (answers m). apart (p, chunk) r) \<and> (\<forall>u \<in> set (unmapped m). apart u r))
     \<and> (lo b < cur b \<longrightarrow> (\<exists>c \<in> set (mapped m). within (lo b, cur b - lo b) c)
        \<and> (\<forall>p \<in> set (answers m). apart (p, chunk) (lo b, cur b - lo b)))
     \<and> (\<forall>u \<in> set (unmapped m). (\<forall>p \<in> set (answers m). apart (p, chunk) u) \<and> apart u (lo b, cur b - lo b))"

lemma run_inv_step:
  assumes r: "run_inv m b given" and ok: "req_ok sz" and some: "answers m \<noteq> []"
    and a: "alloc m b sz = Some (m', b', q)"
  shows "run_inv m' b' ((q, taken sz) # given)"
proof -
  obtain p ps where ans: "answers m = p # ps" using some by (cases "answers m") auto
  have fr: "fresh_answers chunk (p # ps)" and iv: "inv b" using r ans by (auto simp: run_inv_def)
  have pp: "0 < p" "p + chunk < 2 ^ 64" using fr by (auto simp: fresh_answers_def)
  have frps: "fresh_answers chunk ps" and apps: "\<And>x. x \<in> set ps \<Longrightarrow> apart (p, chunk) (x, chunk)"
    using fr by (auto simp: fresh_answers_def)
  note tp = taken_pos [OF ok]
  from alloc_step [OF iv ok ans pp] a have st: "inv b'" "cur b' = q" "lo b' \<le> q" and
    cs: "lo b' = lo b \<and> q + taken sz = cur b \<and> answers m' = answers m \<and> mapped m' = mapped m \<and> unmapped m' = unmapped m
        \<or> lo b' = p \<and> q + taken sz = p + chunk \<and> answers m' = ps \<and> mapped m' = (p, chunk) # mapped m
          \<and> (unmapped m' = unmapped m \<or> lo b < cur b \<and> unmapped m' = (lo b, cur b - lo b) # unmapped m)"
    by auto
  from cs show ?thesis
  proof
    assume "lo b' = lo b \<and> q + taken sz = cur b \<and> answers m' = answers m \<and> mapped m' = mapped m \<and> unmapped m' = unmapped m"
    then have e: "lo b' = lo b" "q + taken sz = cur b" "answers m' = answers m" "mapped m' = mapped m"
      "unmapped m' = unmapped m" by auto
    have lt: "lo b < cur b" using e(2) tp st(3) e(1) by simp
    have w1: "within (lo b', cur b' - lo b') (lo b, cur b - lo b)"
      and w2: "within (q, taken sz) (lo b, cur b - lo b)" and ap: "apart (lo b', cur b' - lo b') (q, taken sz)"
      using e st by (auto simp: within_def apart_def)
    have r': "\<And>x. x \<in> set given \<Longrightarrow> apart (lo b, cur b - lo b) x"
      "\<And>u. u \<in> set (unmapped m) \<Longrightarrow> apart u (lo b, cur b - lo b)"
      "\<And>x. x \<in> set (answers m) \<Longrightarrow> apart (x, chunk) (lo b, cur b - lo b)"
      "\<exists>c \<in> set (mapped m). within (lo b, cur b - lo b) c"
      using r lt unfolding run_inv_def by auto
    have sub: "\<And>x y. apart x (lo b, cur b - lo b) \<Longrightarrow> within y (lo b, cur b - lo b) \<Longrightarrow> apart x y"
      using apart_sym apart_within by blast
    show ?thesis
      using r r' w1 w2 ap st e(3-5) sub unfolding run_inv_def
      by (auto intro: apart_within within_trans)
  next
    assume "lo b' = p \<and> q + taken sz = p + chunk \<and> answers m' = ps \<and> mapped m' = (p, chunk) # mapped m
      \<and> (unmapped m' = unmapped m \<or> lo b < cur b \<and> unmapped m' = (lo b, cur b - lo b) # unmapped m)"
    then have e: "lo b' = p" "q + taken sz = p + chunk" "answers m' = ps" "mapped m' = (p, chunk) # mapped m"
      and u: "unmapped m' = unmapped m \<or> lo b < cur b \<and> unmapped m' = (lo b, cur b - lo b) # unmapped m"
      by auto
    have r': "\<And>x. x \<in> set given \<Longrightarrow> apart (p, chunk) x"
      "\<And>u. u \<in> set (unmapped m) \<Longrightarrow> apart (p, chunk) u"
      "lo b < cur b \<Longrightarrow> apart (p, chunk) (lo b, cur b - lo b)"
      "\<And>x z. lo b < cur b \<Longrightarrow> x \<in> set ps \<Longrightarrow> apart (x, chunk) (lo b, cur b - lo b)"
      "\<And>x. x \<in> set given \<Longrightarrow> apart (lo b, cur b - lo b) x"
      using r ans unfolding run_inv_def by auto
    have w1: "within (lo b', cur b' - lo b') (p, chunk)" and w2: "within (q, taken sz) (p, chunk)"
      and ap: "apart (lo b', cur b' - lo b') (q, taken sz)"
      using e st by (auto simp: within_def apart_def)
    have um: "\<And>u. u \<in> set (unmapped m') \<Longrightarrow> u \<in> set (unmapped m) \<or> lo b < cur b \<and> u = (lo b, cur b - lo b)"
      using u by auto
    have sub: "\<And>x y. apart x (p, chunk) \<Longrightarrow> within y (p, chunk) \<Longrightarrow> apart x y"
      using apart_sym apart_within by blast
    have um1: "apart v (lo b', cur b' - lo b')" "apart v (q, taken sz)" "\<And>x. x \<in> set given \<Longrightarrow> apart v x"
      "\<And>x. x \<in> set ps \<Longrightarrow> apart (x, chunk) v" if "v \<in> set (unmapped m')" for v
    proof -
      have pv: "apart (p, chunk) v" using um [OF that] r'(2) [of v] r'(3) by (cases v) auto
      show "apart v (lo b', cur b' - lo b')" "apart v (q, taken sz)"
        using sub [OF _ w1] sub [OF _ w2] pv apart_sym by blast+
      show "apart v x" if "x \<in> set given" for x
        using um [OF \<open>v \<in> set (unmapped m')\<close>] r that r'(5) unfolding run_inv_def by blast
      show "apart (x, chunk) v" if "x \<in> set ps" for x
        using um [OF \<open>v \<in> set (unmapped m')\<close>] r'(4) r that ans unfolding run_inv_def by (cases v) auto
    qed
    have g: "\<And>x. x \<in> set given \<Longrightarrow> apart (lo b', cur b' - lo b') x \<and> apart (q, taken sz) x"
      using r'(1) w1 w2 apart_within by blast
    have n: "\<And>x. x \<in> set ps \<Longrightarrow> apart (x, chunk) (q, taken sz) \<and> apart (x, chunk) (lo b', cur b' - lo b')"
      using apart_within [OF apps w1] apart_within [OF apps w2] apart_sym by blast
    show ?thesis
      using r ans um1 g n w1 w2 ap st(1) frps e(3,4) unfolding run_inv_def by simp
  qed
qed

text \<open>In any run, the ranges given lie apart from each other, in mapped memory, and are not given back.\<close>

lemma run_apart:
  assumes "bump_run alloc req_ok taken m0 b0 m b given" and "inv b0" and "lo b0 = cur b0"
    and "fresh_answers chunk (answers m0)" and "unmapped m0 = []"
  shows "run_inv m b given"
  using assms(1)
proof induction
  case start
  show ?case using assms(2-) by (simp add: run_inv_def)
next
  case (request m b given sz m' b' p)
  then show ?case using run_inv_step by blast
qed

lemma run_given:
  assumes "bump_run alloc req_ok taken m0 b0 m b given" and "inv b0" and "lo b0 = cur b0"
    and "fresh_answers chunk (answers m0)" and "unmapped m0 = []"
  shows "sorted_wrt apart given" and "\<forall>r \<in> set given. \<exists>c \<in> set (mapped m). within r c"
    and "\<forall>r \<in> set given. \<forall>u \<in> set (unmapped m). apart u r"
  using run_apart [OF assms] by (auto simp: run_inv_def)

end

section \<open>The three allocators keep the contract\<close>

definition bump_request :: "machine \<Rightarrow> bump \<Rightarrow> nat \<Rightarrow> (machine \<times> bump \<times> nat) option" where
  "bump_request m b sz = (case bump_alloc m b sz of
      (m, b, Inr p) \<Rightarrow> Some (m, b, p) | (m, b, Inl e) \<Rightarrow> None)"

definition bump_inv :: "bump \<Rightarrow> bool" where
  "bump_inv b \<longleftrightarrow> check_point b \<le> bcurrent b \<and> bcurrent b \<le> check_point b + BUMP_DEFAULT_SIZE
     \<and> check_point b + BUMP_DEFAULT_SIZE < 2 ^ 64"

definition bump_fits :: "nat \<Rightarrow> bool" where
  "bump_fits sz \<longleftrightarrow> 0 < sz \<and> sz \<le> BUMP_DEFAULT_SIZE"

lemma bump_round_eq: "sz < 2 ^ 63 \<Longrightarrow> bump_round sz = (sz + 4095) div 4096 * 4096"
  by (simp add: bump_round_def PAGE_SIZE_def)

lemma bump_round_bounds:
  "bump_fits sz \<Longrightarrow> sz \<le> bump_round sz \<and> 0 < bump_round sz \<and> bump_round sz \<le> BUMP_DEFAULT_SIZE"
proof -
  assume f: "bump_fits sz"
  define k where "k = (sz + 4095) div 4096"
  have "sz + 4095 = k * 4096 + (sz + 4095) mod 4096" "(sz + 4095) mod 4096 < 4096" by (simp_all add: k_def)
  moreover have "k \<le> (0x100000000 + 4095) div 4096" using f unfolding k_def
    by (intro div_le_mono) (simp add: bump_fits_def BUMP_DEFAULT_SIZE_def)
  moreover have "0 < sz" "bump_round sz = k * 4096"
    using f by (simp_all add: bump_round_eq bump_fits_def BUMP_DEFAULT_SIZE_def k_def)
  ultimately show ?thesis unfolding BUMP_DEFAULT_SIZE_def by (intro conjI; simp; linarith)
qed

lemma bump_alloc_step:
  assumes "bump_inv b" and f: "bump_fits sz" and "answers m = p # ps" and "0 < p" and "p + BUMP_DEFAULT_SIZE < 2 ^ 64"
  shows "\<exists>m' b' q. bump_request m b sz = Some (m', b', q) \<and> bump_inv b' \<and> bcurrent b' = q \<and> check_point b' \<le> q
     \<and> (check_point b' = check_point b \<and> q + bump_round sz = bcurrent b \<and> answers m' = answers m
        \<and> mapped m' = mapped m \<and> unmapped m' = unmapped m
      \<or> check_point b' = p \<and> q + bump_round sz = p + BUMP_DEFAULT_SIZE \<and> answers m' = ps
        \<and> mapped m' = (p, BUMP_DEFAULT_SIZE) # mapped m
        \<and> (unmapped m' = unmapped m \<or> check_point b < bcurrent b
          \<and> unmapped m' = (check_point b, bcurrent b - check_point b) # unmapped m))"
proof -
  define a where "a = bump_round sz"
  have a: "a \<le> BUMP_DEFAULT_SIZE" using bump_round_bounds [OF f] by (simp add: a_def)
  show ?thesis
    using assms a unfolding bump_request_def bump_alloc_def a_def [symmetric]
    by (auto simp: bump_inv_def bump_init_def os_mmap_def os_munmap_def usize_max_def
        BUMP_DEFAULT_SIZE_def Let_def)
qed

interpretation backend: bump_allocator bump_request bump_inv check_point bcurrent bump_fits bump_round BUMP_DEFAULT_SIZE
proof
  show "bump_inv b \<Longrightarrow> check_point b \<le> bcurrent b" for b by (simp add: bump_inv_def)
  show "bump_fits sz \<Longrightarrow> 0 < bump_round sz" for sz using bump_round_bounds by simp
qed (rule bump_alloc_step)

definition page_bump_inv :: "page_bump \<Rightarrow> bool" where
  "page_bump_inv b \<longleftrightarrow> pb_start b \<le> pb_current b \<and> (pb_current b - pb_start b) mod OBJECT_PAGE_BYTES = 0
     \<and> pb_current b - pb_start b \<le> PB_DEFAULT_SIZE \<and> pb_start b + PB_DEFAULT_SIZE < 2 ^ 64"

definition header_request :: "nat \<Rightarrow> bool" where
  "header_request sz \<longleftrightarrow> sz = OBJECT_PAGE_BYTES"

lemma page_bump_step:
  assumes "page_bump_inv b" and f: "header_request sz" and "answers m = p # ps" and "0 < p" and "p + PB_DEFAULT_SIZE < 2 ^ 64"
  shows "\<exists>m' b' q. page_bump_alloc m b sz = Some (m', b', q) \<and> page_bump_inv b' \<and> pb_current b' = q \<and> pb_start b' \<le> q
     \<and> (pb_start b' = pb_start b \<and> q + id sz = pb_current b \<and> answers m' = answers m
        \<and> mapped m' = mapped m \<and> unmapped m' = unmapped m
      \<or> pb_start b' = p \<and> q + id sz = p + PB_DEFAULT_SIZE \<and> answers m' = ps
        \<and> mapped m' = (p, PB_DEFAULT_SIZE) # mapped m
        \<and> (unmapped m' = unmapped m \<or> pb_start b < pb_current b
          \<and> unmapped m' = (pb_start b, pb_current b - pb_start b) # unmapped m))"
proof (cases "pb_current b \<le> pb_start b")
  case True
  with assms show ?thesis
    by (simp add: page_bump_alloc_def header_request_def page_bump_inv_def os_mmap_def usize_max_def
        OBJECT_PAGE_BYTES_def PB_DEFAULT_SIZE_def PAGE_SIZE_def Let_def)
next
  case False
  define d where "d = (pb_current b - pb_start b) div 40"
  have "pb_current b = pb_start b + 40 * d" "0 < d" "40 * d \<le> 163840" "pb_start b + 163840 < 2 ^ 64"
    using False assms(1) unfolding page_bump_inv_def d_def
    by (auto simp: OBJECT_PAGE_BYTES_def PB_DEFAULT_SIZE_def PAGE_SIZE_def)
  moreover obtain e where "d = Suc e" using \<open>0 < d\<close> by (cases d) auto
  ultimately show ?thesis using assms(2-)
    by (simp add: page_bump_alloc_def header_request_def page_bump_inv_def OBJECT_PAGE_BYTES_def PB_DEFAULT_SIZE_def
        PAGE_SIZE_def Let_def)
qed

interpretation headers: bump_allocator page_bump_alloc page_bump_inv pb_start pb_current header_request id PB_DEFAULT_SIZE
proof
  show "page_bump_inv b \<Longrightarrow> pb_start b \<le> pb_current b" for b by (simp add: page_bump_inv_def)
  show "header_request sz \<Longrightarrow> 0 < id sz" for sz by (simp add: header_request_def OBJECT_PAGE_BYTES_def)
qed (rule page_bump_step)

definition meta_bump_inv :: "meta_bump \<Rightarrow> bool" where
  "meta_bump_inv b \<longleftrightarrow> mb_start b \<le> mb_current b \<and> (mb_current b - mb_start b) mod ALLOC_UNIT = 0
     \<and> mb_current b - mb_start b \<le> MB_DEFAULT_SIZE \<and> mb_start b + MB_DEFAULT_SIZE < 2 ^ 64 \<and> backup b = 0"

definition unit_request :: "nat \<Rightarrow> bool" where
  "unit_request sz \<longleftrightarrow> 0 < sz \<and> sz \<le> ALLOC_UNIT"

lemma unit_round_unit: "unit_request sz \<Longrightarrow> unit_round sz = ALLOC_UNIT"
proof -
  assume f: "unit_request sz"
  then have "(sz + 2047) div 2048 = 1" by (intro div_nat_eqI) (simp_all add: unit_request_def ALLOC_UNIT_def)
  with f show ?thesis by (simp add: unit_round_def unit_request_def ALLOC_UNIT_def add.commute)
qed

lemma meta_bump_step:
  assumes "meta_bump_inv b" and f: "unit_request sz" and "answers m = p # ps" and "0 < p" and "p + MB_DEFAULT_SIZE < 2 ^ 64"
  shows "\<exists>m' b' q. Some (meta_bump_alloc m b sz) = Some (m', b', q) \<and> meta_bump_inv b' \<and> mb_current b' = q \<and> mb_start b' \<le> q
     \<and> (mb_start b' = mb_start b \<and> q + unit_round sz = mb_current b \<and> answers m' = answers m
        \<and> mapped m' = mapped m \<and> unmapped m' = unmapped m
      \<or> mb_start b' = p \<and> q + unit_round sz = p + MB_DEFAULT_SIZE \<and> answers m' = ps
        \<and> mapped m' = (p, MB_DEFAULT_SIZE) # mapped m
        \<and> (unmapped m' = unmapped m \<or> mb_start b < mb_current b
          \<and> unmapped m' = (mb_start b, mb_current b - mb_start b) # unmapped m))"
proof (cases "mb_current b \<le> mb_start b")
  case True
  with assms show ?thesis
    by (simp add: meta_bump_alloc_def sc_bump_alloc_def unit_round_unit meta_bump_inv_def os_mmap_def usize_max_def
        ALLOC_UNIT_def MB_DEFAULT_SIZE_def Let_def)
next
  case False
  define d where "d = (mb_current b - mb_start b) div 2048"
  have "mb_current b = mb_start b + 2048 * d" "0 < d" "2048 * d \<le> 67108864" "mb_start b + 67108864 < 2 ^ 64" "backup b = 0"
    using False assms(1) unfolding meta_bump_inv_def d_def
    by (auto simp: ALLOC_UNIT_def MB_DEFAULT_SIZE_def)
  moreover obtain e where "d = Suc e" using \<open>0 < d\<close> by (cases d) auto
  ultimately show ?thesis using assms(2-)
    by (simp add: meta_bump_alloc_def sc_bump_alloc_def unit_round_unit meta_bump_inv_def ALLOC_UNIT_def MB_DEFAULT_SIZE_def
        Let_def)
qed

interpretation metadata: bump_allocator "\<lambda>m b sz. Some (meta_bump_alloc m b sz)" meta_bump_inv mb_start mb_current
  unit_request unit_round MB_DEFAULT_SIZE
proof
  show "meta_bump_inv b \<Longrightarrow> mb_start b \<le> mb_current b" for b by (simp add: meta_bump_inv_def)
  show "unit_request sz \<Longrightarrow> 0 < unit_round sz" for sz by (simp add: unit_round_unit ALLOC_UNIT_def)
qed (rule meta_bump_step)

section \<open>What the clients rely on\<close>


text \<open>In any run of the allocator of slab headers no two headers overlap, and each lies in a mapped chunk.\<close>

theorem slab_headers_apart:
  assumes "bump_run page_bump_alloc header_request id m0 page_bump_new m b given"
    and "fresh_answers PB_DEFAULT_SIZE (answers m0)" and "unmapped m0 = []"
  shows "sorted_wrt apart given \<and> (\<forall>r \<in> set given. \<exists>c \<in> set (mapped m). within r c)"
proof -
  have "page_bump_inv page_bump_new" "pb_start page_bump_new = pb_current page_bump_new"
    by (simp_all add: page_bump_inv_def page_bump_new_def PB_DEFAULT_SIZE_def OBJECT_PAGE_BYTES_def PAGE_SIZE_def)
  from headers.run_given [OF assms(1) this assms(2,3)] show ?thesis by blast
qed

text \<open>In any run of unit requests without deallocation the metadata lies apart.\<close>

lemma metadata_apart:
  assumes "bump_run (\<lambda>m b sz. Some (meta_bump_alloc m b sz)) unit_request unit_round m0 meta_bump_new m b given"
    and "fresh_answers MB_DEFAULT_SIZE (answers m0)" and "unmapped m0 = []"
  shows "sorted_wrt apart given \<and> (\<forall>r \<in> set given. \<exists>c \<in> set (mapped m). within r c)"
proof -
  have "meta_bump_inv meta_bump_new" "mb_start meta_bump_new = mb_current meta_bump_new"
    by (simp_all add: meta_bump_inv_def meta_bump_new_def MB_DEFAULT_SIZE_def)
  from metadata.run_given [OF assms(1) this assms(2,3)] show ?thesis by blast
qed

text \<open>A unit that was freed is the next one given, and freed units are kept as a chain.\<close>

lemma meta_alloc_dealloc:
  assumes "chain (mem m) (backup b) us 0" and "p \<notin> set us" and "p \<noteq> 0" and "unit_request sz"
    and "meta_bump_dealloc m b p = (m', b')"
  shows "chain (mem m') (backup b') (p # us) 0
    \<and> (\<exists>b''. meta_bump_alloc m' b' sz = (m', b'', p) \<and> chain (mem m') (backup b'') us 0)"
  using assms by (auto simp: meta_bump_dealloc_def meta_bump_alloc_def unit_round_unit chain_upd Let_def)

text \<open>When the operating system refuses to map the first chunk the backend bump allocator still reports
  success, with an address that was never mapped.\<close>

theorem bump_mmap_failure_unreported:
  assumes "answers m = []" and "0 < sz" and "sz \<le> 0x100000000" and "bump_alloc m bump_new sz = (m', b', r)"
  shows "r = Inr (0x100000000 - bump_round sz) \<and> mapped m' = mapped m"
proof -
  have "bump_fits sz" using assms(2,3) by (simp add: bump_fits_def BUMP_DEFAULT_SIZE_def)
  from bump_round_bounds [OF this] have "0 < bump_round sz" "bump_round sz \<le> 0x100000000"
    by (simp_all add: BUMP_DEFAULT_SIZE_def)
  with assms(1,4) show ?thesis
    by (auto simp: bump_alloc_def bump_init_def bump_new_def os_mmap_def usize_max_def BUMP_DEFAULT_SIZE_def Let_def)
qed

text \<open>With \<open>fixed_heap\<close> a chunk of headers is one page, and 4096 is not a multiple of 40: the header after the
  hundred and second begins 24 bytes below the page.\<close>

lemma fixed_headers_overrun:
  assumes "24 \<le> page" and "page + 4096 < 2 ^ 64"
  shows "page_bump_alloc_fixed \<lparr>pb_start = page, pb_current = page + (4096 - 102 * 40)\<rparr> 40 p
    = Some (\<lparr>pb_start = page, pb_current = page - 24\<rparr>, page - 24)"
  using assms by (simp add: page_bump_alloc_fixed_def OBJECT_PAGE_BYTES_def PB_DEFAULT_SIZE_def PAGE_SIZE_def
      ensure_def Let_def)

text \<open>A request for several units is never checked against what is left of the chunk.\<close>

lemma meta_bump_overrun:
  assumes "ALLOC_UNIT \<le> s" and "s + MB_DEFAULT_SIZE < 2 ^ 64"
  shows "sc_bump_alloc m \<lparr>mb_start = s, mb_current = s + ALLOC_UNIT, backup = 0\<rparr> (2 * ALLOC_UNIT)
    = (m, \<lparr>mb_start = s, mb_current = s - ALLOC_UNIT, backup = 0\<rparr>, s - ALLOC_UNIT)"
  using assms by (simp add: sc_bump_alloc_def ALLOC_UNIT_def MB_DEFAULT_SIZE_def Let_def)

text \<open>A concrete run: two requests, the second for more than the rest of the page.\<close>

definition demo_machine :: machine where
  "demo_machine = \<lparr>mem = \<lambda>_. 0, answers = [0x7000000000, 0x9000000000], mapped = [], unmapped = []\<rparr>"

lemma demo_fresh: "fresh_answers BUMP_DEFAULT_SIZE (answers demo_machine)" "fresh_answers PB_DEFAULT_SIZE (answers demo_machine)"
  by (simp_all add: fresh_answers_def demo_machine_def apart_def BUMP_DEFAULT_SIZE_def PB_DEFAULT_SIZE_def
      OBJECT_PAGE_BYTES_def PAGE_SIZE_def)


lemma slab_headers_apart_witness:
  "\<exists>m b given. bump_run page_bump_alloc header_request id demo_machine page_bump_new m b given \<and> length given = 2
     \<and> sorted_wrt apart given"
proof -
  let ?R = "bump_run page_bump_alloc header_request id demo_machine page_bump_new"
  have "\<exists>m b p. page_bump_alloc demo_machine page_bump_new 40 = Some (m, b, p) \<and> answers m \<noteq> []
     \<and> (\<exists>m' b' q. page_bump_alloc m b 40 = Some (m', b', q))"
    by (simp add: page_bump_alloc_def page_bump_new_def os_mmap_def demo_machine_def usize_max_def
        OBJECT_PAGE_BYTES_def PB_DEFAULT_SIZE_def PAGE_SIZE_def Let_def)
  then obtain m b p m' b' q where a: "page_bump_alloc demo_machine page_bump_new 40 = Some (m, b, p)" "answers m \<noteq> []"
    "page_bump_alloc m b 40 = Some (m', b', q)" by blast
  have f: "header_request 40" "answers demo_machine \<noteq> []"
    by (simp_all add: header_request_def OBJECT_PAGE_BYTES_def demo_machine_def)
  have r: "?R m' b' [(q, id 40), (p, id 40)]"
    using f a by (auto intro!: bump_run.request [where sz = 40] bump_run.start simp del: id_apply)
  have "sorted_wrt apart [(q, id 40), (p, id 40)]"
    using slab_headers_apart [OF r demo_fresh(2)] by (simp add: demo_machine_def)
  with r show ?thesis by (intro exI [of _ m'] exI [of _ b'] exI [of _ "[(q, id 40), (p, id 40)]"]) simp
qed

lemma bump_mmap_failure_unreported_witness:
  "\<exists>m' b'. bump_alloc (demo_machine\<lparr>answers := []\<rparr>) bump_new 100 = (m', b', Inr 0xFFFFF000) \<and> mapped m' = []"
proof -
  obtain m' b' r where e: "bump_alloc (demo_machine\<lparr>answers := []\<rparr>) bump_new 100 = (m', b', r)"
    using prod_cases3 by blast
  have "r = Inr (0x100000000 - bump_round 100) \<and> mapped m' = mapped (demo_machine\<lparr>answers := []\<rparr>)"
    by (rule bump_mmap_failure_unreported [OF _ _ _ e]) simp_all
  with e show ?thesis by (simp add: demo_machine_def bump_round_def PAGE_SIZE_def)
qed

end
