(* ===== verification/FreeList.thy ===== *)
theory FreeList
  imports RadixTree Bump SizeClass
begin

text \<open>
  The page allocator behind the slabs (\<open>freelist/mod.rs\<close>): 128 doubly linked lists of free blocks, list
  \<open>i\<close> with the blocks of \<open>i + 1\<close> pages. The links are in the blocks, the first and the last page of a free
  block are flagged in the radix tree with a negative word, and a request that no list can serve goes to
  \<open>BUMP\<close>. The abstract state is the lists by page number; \<open>fl_ok\<close> relates the two, \<open>spec_alloc\<close> is the
  specification of an allocation, and the theorems say that the code implements it and that
  freeing a block never joins it to its neighbours. One thread is modelled.
\<close>

section \<open>The doubly linked list in the blocks\<close>

record double_linked_list =
  dprev :: "nat option"
  dnext :: "nat option"

type_synonym dll_heap = "nat \<Rightarrow> double_linked_list"

definition dll_new :: double_linked_list where
  "dll_new = \<lparr>dprev = None, dnext = None\<rparr>"

definition get_ref :: "nat \<Rightarrow> nat option" where
  "get_ref ptr = (if ptr = 0 then None else Some ptr)"

definition set_dprev :: "dll_heap \<Rightarrow> nat \<Rightarrow> nat option \<Rightarrow> dll_heap" where
  "set_dprev h a v = h(a := (h a)\<lparr>dprev := v\<rparr>)"

definition set_dnext :: "dll_heap \<Rightarrow> nat \<Rightarrow> nat option \<Rightarrow> dll_heap" where
  "set_dnext h a v = h(a := (h a)\<lparr>dnext := v\<rparr>)"

definition push_before_head :: "dll_heap \<Rightarrow> nat \<Rightarrow> nat \<Rightarrow> dll_heap option" where
  "push_before_head h self new_node = do {
     let h = set_dprev h self (Some new_node);
     let self_ptr = self;
     n \<leftarrow> get_ref new_node;
     let h = set_dnext h n (Some self_ptr);
     Some (set_dprev h n None) }"

definition remove_current :: "dll_heap \<Rightarrow> nat \<Rightarrow> (dll_heap \<times> nat option) option" where
  "remove_current h self = (case dprev (h self) of
      Some prev \<Rightarrow> (case dnext (h self) of
          Some next \<Rightarrow> do {
            p \<leftarrow> get_ref prev;
            let h = set_dnext h p (Some next);
            n \<leftarrow> get_ref next;
            Some (set_dprev h n (Some prev), None) }
        | None \<Rightarrow> do {
            p \<leftarrow> get_ref prev;
            Some (set_dnext h p None, None) })
    | None \<Rightarrow> (case dnext (h self) of
          Some next \<Rightarrow> do {
            n \<leftarrow> get_ref next;
            let h = set_dprev h n None;
            n \<leftarrow> get_ref next;
            Some (h, Some n) }
        | None \<Rightarrow> Some (h, None)))"

section \<open>The lists\<close>

definition PG_SIZE :: nat where "PG_SIZE = 4096"

definition BACKEND_MAX_PAGE :: nat where "BACKEND_MAX_PAGE = 128"

text \<open>\<open>lists\<close> is the address of the heads, null before the first use, and the heads.\<close>

record free_list =
  lists :: "nat \<times> nat option list"
  nodes :: dll_heap
  rd_tree :: radix_tree
  fl_bump :: bump
  fl_meta :: meta_bump
  fl_os :: machine

definition SLICE_BYTES :: nat where "SLICE_BYTES = 16 * BACKEND_MAX_PAGE"

definition get_slice :: "free_list \<Rightarrow> free_list \<times> nat option list" where
  "get_slice s =
     (let ptr_val = fst (lists s) in
      if ptr_val = 0
      then (let (m, mb, new_ptr) = meta_bump_alloc (fl_os s) (fl_meta s) SLICE_BYTES;
                slice = replicate BACKEND_MAX_PAGE None
            in (s\<lparr>lists := (new_ptr, slice), fl_os := m, fl_meta := mb\<rparr>, slice))
      else (s, snd (lists s)))"

definition set_head :: "free_list \<Rightarrow> nat \<Rightarrow> nat option \<Rightarrow> free_list" where
  "set_head s idx v = s\<lparr>lists := (fst (lists s), (snd (lists s))[idx := v])\<rparr>"

definition remove_one :: "free_list \<Rightarrow> nat \<Rightarrow> (free_list \<times> nat option) option" where
  "remove_one s idx = do {
     let (s, slice) = get_slice s;
     locked \<leftarrow> aget slice idx;
     (case locked of
        Some to_remove \<Rightarrow> do {
          let ans = to_remove;
          t \<leftarrow> radix_remove (rd_tree s) (wshl ans 16) 1;
          t \<leftarrow> radix_remove t (wshl (wadd ans (wmul idx PG_SIZE)) 16) 1;
          (h, new) \<leftarrow> remove_current (nodes s) to_remove;
          let s = s\<lparr>rd_tree := t, nodes := h\<rparr>;
          Some (set_head s idx new, Some ans) }
      | None \<Rightarrow> Some (s, None)) }"

text \<open>Negation of an \<open>i64\<close>.\<close>

definition neg64 :: "int \<Rightarrow> int" where
  "neg64 v = (if v = - (2 ^ 63) then v else - v)"

definition remove_spec_one :: "free_list \<Rightarrow> nat \<Rightarrow> nat \<Rightarrow> (free_list \<times> nat option) option" where
  "remove_spec_one s idx ptr = do {
     let (s, slice) = get_slice s;
     cur \<leftarrow> aget slice idx;
     v \<leftarrow> radix_get_mut (rd_tree s) (wshl ptr 16);
     if 0 < neg64 v then do {
       target \<leftarrow> get_ref ptr;
       (case dnext (nodes s target) of
          Some prev_next \<Rightarrow>
            if prev_next = ptr then do {
              t \<leftarrow> radix_remove (rd_tree s) (wshl ptr 16) 1;
              t \<leftarrow> radix_remove t (wshl (wadd ptr (wmul idx PG_SIZE)) 16) 1;
              (h, new_head) \<leftarrow> remove_current (nodes s) target;
              let s = s\<lparr>rd_tree := t, nodes := h\<rparr>;
              Some (case new_head of Some n \<Rightarrow> set_head s idx (Some n) | None \<Rightarrow> s, Some ptr) }
            else Some (s, None)
        | None \<Rightarrow> Some (s, None)) }
     else Some (s, None) }"

definition flag :: "nat \<Rightarrow> int" where
  "flag idx = - (int idx + 1) * 2 ^ 48"

definition insert_one :: "free_list \<Rightarrow> nat \<Rightarrow> nat \<Rightarrow> free_list option" where
  "insert_one s idx node = do {
     let (s, slice) = get_slice s;
     locked \<leftarrow> aget slice idx;
     h \<leftarrow> (case locked of Some to_remove \<Rightarrow> push_before_head (nodes s) to_remove node | None \<Rightarrow> Some (nodes s));
     t \<leftarrow> radix_insert None (rd_tree s) (wshl node 16) (flag idx) 1;
     t \<leftarrow> radix_insert None t (wshl (wadd node (wmul idx PG_SIZE)) 16) (flag idx) 1;
     Some (set_head (s\<lparr>nodes := h, rd_tree := t\<rparr>) idx (Some node)) }"

definition page_index :: "nat \<Rightarrow> nat" where
  "page_index sz = wsub (wsub (wadd sz PG_SIZE) 1 div PG_SIZE) 1"

text \<open>The \<open>while\<close> loop over the lists of longer blocks.\<close>

function fl_scan :: "free_list \<Rightarrow> nat \<Rightarrow> nat \<Rightarrow> (free_list \<times> nat option) option" where
  "fl_scan s origin_size parent_idx =
     (if parent_idx < BACKEND_MAX_PAGE then do {
        (s, parent) \<leftarrow> remove_one s parent_idx;
        (case parent of
           Some parent \<Rightarrow> do {
             let remain = wadd parent (wmul PG_SIZE (origin_size + 1));
             node \<leftarrow> get_ref remain;
             let s = s\<lparr>nodes := (nodes s)(node := dll_new)\<rparr>;
             s \<leftarrow> insert_one s (parent_idx - origin_size - 1) node;
             Some (s, Some parent) }
         | None \<Rightarrow> fl_scan s origin_size (parent_idx + 1)) }
      else Some (s, None))"
  by pat_completeness auto
termination by (relation "measure (\<lambda>(s, o', p). BACKEND_MAX_PAGE - p)") auto

declare fl_scan.simps [simp del]

definition fl_bump_alloc :: "free_list \<Rightarrow> nat \<Rightarrow> free_list \<times> (alloc_error + nat)" where
  "fl_bump_alloc s sz =
     (let (m, b, r) = bump_alloc (fl_os s) (fl_bump s) sz in (s\<lparr>fl_os := m, fl_bump := b\<rparr>, r))"

definition fl_alloc :: "free_list \<Rightarrow> nat \<Rightarrow> (free_list \<times> (alloc_error + nat)) option" where
  "fl_alloc s sz = do {
     let origin_size = page_index sz;
     let (s, slice) = get_slice s;
     if origin_size < length slice then do {
       (s, ans) \<leftarrow> remove_one s origin_size;
       (case ans of
          Some ans \<Rightarrow> Some (s, Inr ans)
        | None \<Rightarrow> do {
            (s, parent) \<leftarrow> fl_scan s origin_size (origin_size + 1);
            (case parent of
               Some parent \<Rightarrow> Some (s, Inr parent)
             | None \<Rightarrow> Some (fl_bump_alloc s sz)) }) }
     else Some (fl_bump_alloc s sz) }"

text \<open>The number of pages that a word in the radix tree flags, at the first or the last page of a free block.\<close>

definition page_flag :: "free_list \<Rightarrow> nat \<Rightarrow> int option" where
  "page_flag s ptr = do { v \<leftarrow> radix_get_mut (rd_tree s) (wshl ptr 16); Some (- drop_bit 48 v) }"

definition fl_free :: "free_list \<Rightarrow> nat \<Rightarrow> nat \<Rightarrow> free_list option" where
  "fl_free s ptr sz = do {
     let origin_size = page_index sz;
     let prev = wsub ptr PG_SIZE;
     pflag \<leftarrow> page_flag s prev;
     (s, final_ptr, final_idx) \<leftarrow>
       (if pflag > 0 then do {
          let start = wsub ptr (wmul (nat pflag) PG_SIZE);
          (s, prev_ptr) \<leftarrow> remove_spec_one s (nat (pflag - 1)) start;
          Some (case prev_ptr of
            Some prev_ptr \<Rightarrow> (s, prev_ptr, wadd origin_size (nat pflag))
          | None \<Rightarrow> (s, ptr, origin_size)) }
        else Some (s, ptr, origin_size));
     let next = wadd ptr (wmul (wadd origin_size 1) PG_SIZE);
     nflag \<leftarrow> page_flag s next;
     (s, final_idx) \<leftarrow>
       (if nflag > 0 then do {
          (s, found) \<leftarrow> remove_spec_one s (nat nflag - 1) next;
          Some (s, if found \<noteq> None then wadd final_idx (nat nflag) else final_idx) }
        else Some (s, final_idx));
     let (s, slice) = get_slice s;
     if final_idx < length slice then do {
       node \<leftarrow> get_ref final_ptr;
       let s = s\<lparr>nodes := (nodes s)(node := dll_new)\<rparr>;
       insert_one s final_idx node }
     else Some (s\<lparr>fl_os := os_munmap (fl_os s) final_ptr (wmul (wadd final_idx 1) PG_SIZE)\<rparr>) }"

text \<open>The \<open>GlobalAlloc\<close> and the \<open>Allocator\<close> on top (\<open>BuddySystemAllocator\<close>); \<open>dangling\<close> is the alignment.\<close>

definition ISIZE_MAX :: nat where "ISIZE_MAX = 2 ^ 63 - 1"

definition bsa_alloc :: "free_list \<Rightarrow> layout \<Rightarrow> (free_list \<times> nat) option" where
  "bsa_alloc s l = (if lsize l > ISIZE_MAX then Some (s, 0) else do {
     (s, r) \<leftarrow> fl_alloc s (lsize l);
     Some (s, case r of Inr p \<Rightarrow> p | Inl e \<Rightarrow> 0) })"

definition bsa_dealloc :: "free_list \<Rightarrow> nat \<Rightarrow> layout \<Rightarrow> free_list option" where
  "bsa_dealloc s ptr l = fl_free s ptr (lsize l)"

definition bsa_allocator_allocate :: "free_list \<Rightarrow> layout \<Rightarrow> (free_list \<times> (unit + nat \<times> nat)) option" where
  "bsa_allocator_allocate s l = (if lsize l = 0 then Some (s, Inr (lalign l, 0)) else do {
     (s, raw_ptr) \<leftarrow> bsa_alloc s l;
     Some (s, if raw_ptr = 0 then Inl () else Inr (raw_ptr, lsize l)) })"

definition bsa_allocator_deallocate :: "free_list \<Rightarrow> nat \<Rightarrow> layout \<Rightarrow> free_list option" where
  "bsa_allocator_deallocate s ptr l = (if lsize l \<noteq> 0 then bsa_dealloc s ptr l else Some s)"

section \<open>The abstract state\<close>

text \<open>\<open>B i\<close> is list \<open>i\<close>, by the numbers of the first pages of its blocks.\<close>

type_synonym free_blocks = "nat \<Rightarrow> nat list"

definition head_of :: "nat list \<Rightarrow> nat option" where
  "head_of ps = (case ps of [] \<Rightarrow> None | p # _ \<Rightarrow> Some (p * 4096))"

fun dll :: "dll_heap \<Rightarrow> nat option \<Rightarrow> nat list \<Rightarrow> bool" where
  "dll h pv [] = True"
| "dll h pv (p # ps) = (dprev (h (p * 4096)) = pv \<and> dnext (h (p * 4096)) = head_of ps \<and> dll h (Some (p * 4096)) ps)"

definition clear_of :: "free_blocks \<Rightarrow> nat \<Rightarrow> nat \<Rightarrow> bool" where
  "clear_of B p i \<longleftrightarrow> (\<forall>j. \<forall>q \<in> set (B j). p + i < q \<or> q + j < p)"

definition blocks_ok :: "free_blocks \<Rightarrow> bool" where
  "blocks_ok B \<longleftrightarrow> (\<forall>i. distinct (B i)) \<and> (\<forall>i. \<forall>p \<in> set (B i). i < 128 \<and> 0 < p \<and> p + i + 1 < 2 ^ 36)
     \<and> (\<forall>i j. \<forall>p \<in> set (B i). \<forall>q \<in> set (B j). (i, p) \<noteq> (j, q) \<longrightarrow> p + i < q \<or> q + j < p)"

definition flags_ok :: "(nat \<Rightarrow> int) \<Rightarrow> free_blocks \<Rightarrow> bool" where
  "flags_ok v B \<longleftrightarrow> (\<forall>i. \<forall>p \<in> set (B i). v p = flag i \<and> v (p + i) = flag i)
     \<and> (\<forall>q < 2 ^ 36. v q < 0 \<longrightarrow> (\<exists>i. \<exists>p \<in> set (B i). v q = flag i \<and> (q = p \<or> q = p + i)))"

definition fl_ok :: "free_list \<Rightarrow> free_blocks \<Rightarrow> bool" where
  "fl_ok s B \<longleftrightarrow> fst (lists s) \<noteq> 0 \<and> length (snd (lists s)) = 128 \<and> (\<forall>i < 128. snd (lists s) ! i = head_of (B i))
     \<and> (\<forall>i. dll (nodes s) None (B i)) \<and> blocks_ok B \<and> flags_ok (radix_view (rd_tree s)) B"

lemma dll_cong: "(\<And>p. p \<in> set ps \<Longrightarrow> h (p * 4096) = h' (p * 4096)) \<Longrightarrow> dll h pv ps = dll h' pv ps"
  by (induction ps arbitrary: pv) auto

lemma dll_upd: "p \<notin> set ps \<Longrightarrow> dll (h(p * 4096 := v)) pv ps = dll h pv ps"
  by (rule dll_cong) auto

lemma get_slice_ready: "fl_ok s B \<Longrightarrow> get_slice s = (s, snd (lists s))"
  by (simp add: get_slice_def fl_ok_def)

text \<open>The first use makes the heads.\<close>

lemma fl_start:
  assumes "fst (lists s) = 0" and "get_slice s = (s', hs)" and "fst (lists s') \<noteq> 0" and "rd_tree s = (\<lambda>_. None)"
  shows "fl_ok s' (\<lambda>_. [])"
proof -
  have "radix_view (rd_tree s') = (\<lambda>_. 0)" using assms(1,2,4)
    by (auto simp: get_slice_def radix_view_def fun_eq_iff Let_def split: prod.splits)
  then show ?thesis using assms(1-3)
    by (auto simp: fl_ok_def get_slice_def blocks_ok_def flags_ok_def head_of_def BACKEND_MAX_PAGE_def Let_def
        split: prod.splits)
qed

section \<open>Pages and words of the radix tree\<close>

lemma page_shift: "p < 2 ^ 36 \<Longrightarrow> wshl (p * 4096) 16 = page_key p"
  by (simp add: wshl_def push_bit_eq_mult page_key_def)

lemma last_page: "p + i < 2 ^ 36 \<Longrightarrow> i < 128 \<Longrightarrow> wshl (wadd (p * 4096) (wmul i PG_SIZE)) 16 = page_key (p + i)"
proof -
  assume a: "p + i < 2 ^ 36" "i < 128"
  then have "wadd (p * 4096) (wmul i PG_SIZE) = (p + i) * 4096" by (simp add: PG_SIZE_def)
  then show ?thesis using page_shift [OF a(1)] by simp
qed

lemma one_page: "p < 2 ^ 36 \<Longrightarrow> radix_in_range t p 1"
  using mod_less_divisor [of "2 ^ 18" p] by (simp add: radix_in_range_def)

lemma set_flag:
  assumes "p < 2 ^ 36"
  obtains t' where "radix_insert None t (page_key p) v 1 = Some t'" "radix_view t' = (radix_view t)(p := v)"
proof -
  obtain t' where "radix_insert None t (page_key p) v 1 = Some t'" "radix_view t' = fill (radix_view t) p 1 v"
    using radix.insert_fills [OF TrueI one_page [OF assms], where v = v and m = t] by auto
  then show ?thesis using that [of t'] by (simp add: fill_def fun_eq_iff)
qed

lemma clear_flag:
  assumes "p < 2 ^ 36"
  obtains t' where "radix_remove t (page_key p) 1 = Some t'" "radix_view t' = (radix_view t)(p := 0)"
proof -
  obtain t' where "radix_remove t (page_key p) 1 = Some t'" "radix_view t' = fill (radix_view t) p 1 0"
    using radix.remove_clears [OF TrueI one_page [OF assms], where m = t] by auto
  then show ?thesis using that [of t'] by (simp add: fill_def fun_eq_iff)
qed

lemma read_flag: "p < 2 ^ 36 \<Longrightarrow> radix_get_mut t (page_key p) = Some (radix_view t p)"
  using radix.get_views [OF TrueI one_page] by simp

lemma flag_neg: "flag i < 0" "i < 128 \<Longrightarrow> - drop_bit 48 (flag i) = int i + 1" "i < 128 \<Longrightarrow> 0 < neg64 (flag i)"
  by (auto simp: flag_def neg64_def drop_bit_eq_div)

section \<open>Changing the lists\<close>

lemma blocks_apart:
  "blocks_ok B \<Longrightarrow> p \<in> set (B i) \<Longrightarrow> q \<in> set (B j) \<Longrightarrow> (i, p) \<noteq> (j, q) \<Longrightarrow> p + i < q \<or> q + j < p"
  by (auto simp: blocks_ok_def)

lemma blocks_insert:
  assumes "blocks_ok B" and "clear_of B p i" and "i < 128" and "0 < p" and "p + i + 1 < 2 ^ 36"
  shows "blocks_ok (B(i := p # B i))"
proof -
  have n: "p \<notin> set (B i)" using assms(2) by (auto simp: clear_of_def)
  have c: "\<And>j q. q \<in> set (B j) \<Longrightarrow> p + i < q \<or> q + j < p" using assms(2) by (auto simp: clear_of_def)
  show ?thesis using assms(1,3-5) n c unfolding blocks_ok_def by (auto split: if_splits)
qed

lemma blocks_remove:
  assumes "blocks_ok B" and "B i = p # ps"
  shows "blocks_ok (B(i := ps))" and "clear_of (B(i := ps)) p i"
proof -
  have sub: "set ((B(i := ps)) j) \<subseteq> set (B j)" for j using assms(2) by auto
  have "distinct ((B(i := ps)) j)" for j using assms by (auto simp: blocks_ok_def dest: spec [of _ i])
  with assms(1) sub show "blocks_ok (B(i := ps))" unfolding blocks_ok_def by (meson subsetD)
  have "p \<notin> set ps" using assms by (metis blocks_ok_def distinct.simps(2))
  then have "p + i < q \<or> q + j < p" if "q \<in> set ((B(i := ps)) j)" for j q
    using blocks_apart [OF assms(1), of p i q j] assms(2) that by (auto split: if_splits)
  then show "clear_of (B(i := ps)) p i" by (simp add: clear_of_def)
qed

lemma flags_insert:
  assumes "flags_ok v B" and "clear_of B p i"
  shows "flags_ok (v(p := flag i, p + i := flag i)) (B(i := p # B i))"
proof -
  have c: "p \<noteq> q \<and> p \<noteq> q + j \<and> p + i \<noteq> q \<and> p + i \<noteq> q + j" if "q \<in> set (B j)" for j q
    using assms(2) [unfolded clear_of_def, rule_format, OF that] by auto
  have 1: "(v(p := flag i, p + i := flag i)) q = flag j \<and> (v(p := flag i, p + i := flag i)) (q + j) = flag j"
    if "q \<in> set ((B(i := p # B i)) j)" for j q
    using that assms(1) c [of q j] by (auto simp: flags_ok_def split: if_splits)
  have 2: "\<exists>j. \<exists>r \<in> set ((B(i := p # B i)) j). (v(p := flag i, p + i := flag i)) q = flag j \<and> (q = r \<or> q = r + j)"
    if "q < 2 ^ 36" "(v(p := flag i, p + i := flag i)) q < 0" for q
  proof (cases "q = p \<or> q = p + i")
    case True
    then show ?thesis by (intro exI [of _ i] bexI [of _ p]) auto
  next
    case False
    then have n: "q < 2 ^ 36" "v q < 0" using that by auto
    obtain j r where "r \<in> set (B j)" "v q = flag j" "q = r \<or> q = r + j"
      using assms(1) n unfolding flags_ok_def by blast
    then show ?thesis using False by (intro exI [of _ j] bexI [of _ r]) auto
  qed
  from 1 2 show ?thesis unfolding flags_ok_def by blast
qed

lemma flags_remove:
  assumes "flags_ok v B" and "blocks_ok B" and "B i = p # ps"
  shows "flags_ok (v(p := 0, p + i := 0)) (B(i := ps))"
proof -
  have c: "p \<noteq> q \<and> p \<noteq> q + j \<and> p + i \<noteq> q \<and> p + i \<noteq> q + j" if "q \<in> set ((B(i := ps)) j)" for j q
    using blocks_remove(2) [OF assms(2,3)] that by (fastforce simp: clear_of_def)
  have 1: "(v(p := 0, p + i := 0)) q = flag j \<and> (v(p := 0, p + i := 0)) (q + j) = flag j"
    if "q \<in> set ((B(i := ps)) j)" for j q
  proof -
    have "q \<in> set (B j)" using that assms(3) by (auto split: if_splits)
    then show ?thesis using assms(1) c [OF that] by (auto simp: flags_ok_def)
  qed
  have 2: "\<exists>j. \<exists>r \<in> set ((B(i := ps)) j). (v(p := 0, p + i := 0)) q = flag j \<and> (q = r \<or> q = r + j)"
    if "q < 2 ^ 36" "(v(p := 0, p + i := 0)) q < 0" for q
  proof -
    have q: "q \<noteq> p" "q \<noteq> p + i" "v q < 0" "q < 2 ^ 36" using that by (auto split: if_splits)
    obtain j r where r: "r \<in> set (B j)" "v q = flag j" "q = r \<or> q = r + j"
      using assms(1) q(3,4) unfolding flags_ok_def by blast
    then have "r \<in> set ((B(i := ps)) j)" using q assms(3) by auto
    then show ?thesis using r q by (intro exI [of _ j] bexI [of _ r]) auto
  qed
  from 1 2 show ?thesis unfolding flags_ok_def by blast
qed

section \<open>The operations on the abstract lists\<close>

definition same_rest :: "free_list \<Rightarrow> free_list \<Rightarrow> bool" where
  "same_rest s s' \<longleftrightarrow> fl_bump s' = fl_bump s \<and> fl_meta s' = fl_meta s \<and> fl_os s' = fl_os s"

lemma page_in_list: "fl_ok s B \<Longrightarrow> p \<in> set (B i) \<Longrightarrow> i < 128 \<and> 0 < p \<and> p + i < 2 ^ 36 \<and> p < 2 ^ 36"
proof -
  assume "fl_ok s B" "p \<in> set (B i)"
  then have "i < 128" "0 < p" "p + i + 1 < 2 ^ 36" unfolding fl_ok_def blocks_ok_def by blast+
  then show ?thesis by simp
qed

lemma other_list:
  assumes "blocks_ok B" and "q \<in> set (B i)" and "j \<noteq> i"
  shows "q \<notin> set (B j)"
  using blocks_apart [OF assms(1,2), of q j] assms(3) by auto

lemma remove_head:
  assumes "blocks_ok B" and "\<forall>j. dll h None (B j)" and "B i = p # ps"
  obtains h' where "remove_current h (p * 4096) = Some (h', head_of ps)" and "\<forall>j. dll h' None ((B(i := ps)) j)"
proof (cases ps)
  case Nil
  have "dprev (h (p * 4096)) = None" "dnext (h (p * 4096)) = None"
    using assms(2) [rule_format, of i] assms(3) Nil by (auto simp: head_of_def)
  then have "remove_current h (p * 4096) = Some (h, head_of ps)" by (simp add: remove_current_def head_of_def Nil)
  then show ?thesis using that [of h] assms(2) Nil by simp
next
  case (Cons q qs)
  have d: "dprev (h (p * 4096)) = None" "dnext (h (p * 4096)) = Some (q * 4096)" "dll h (Some (p * 4096)) (q # qs)"
    using assms(2) [rule_format, of i] assms(3) Cons by (auto simp: head_of_def)
  have q: "q \<in> set (B i)" "0 < q" "q \<notin> set qs"
    using assms(1,3) Cons by (auto simp: blocks_ok_def dest: spec [of _ i])
  let ?h = "set_dprev h (q * 4096) None"
  have "remove_current h (p * 4096) = Some (?h, head_of ps)"
    using d q(2) by (simp add: remove_current_def head_of_def Cons get_ref_def Let_def)
  moreover have "dll ?h None ((B(i := ps)) j)" for j
  proof (cases "j = i")
    case True
    then show ?thesis using d(3) q(3) Cons by (simp add: set_dprev_def dll_upd)
  next
    case False
    then show ?thesis using assms(2) other_list [OF assms(1) q(1) False] by (simp add: set_dprev_def dll_upd)
  qed
  ultimately show ?thesis using that by blast
qed

lemma heads_update:
  assumes "length hs = 128" and "\<forall>i < 128. hs ! i = head_of (B i)"
  shows "\<forall>j < 128. hs[i := head_of ps] ! j = head_of ((B(i := ps)) j)"
  using assms by (auto simp: nth_list_update)

lemma remove_one_cons:
  assumes ok: "fl_ok s B" and B: "B i = p # ps"
  obtains s' where "remove_one s i = Some (s', Some (p * 4096))" and "fl_ok s' (B(i := ps))" and "same_rest s s'"
proof -
  have b: "blocks_ok B" and hd: "length (snd (lists s)) = 128" "\<forall>i < 128. snd (lists s) ! i = head_of (B i)"
    and d: "\<forall>j. dll (nodes s) None (B j)" and f: "flags_ok (radix_view (rd_tree s)) B"
    using ok by (auto simp: fl_ok_def)
  have p: "i < 128" "0 < p" "p + i < 2 ^ 36" "p < 2 ^ 36" using page_in_list [OF ok, of p i] B by auto
  obtain t1 where t1: "radix_remove (rd_tree s) (page_key p) 1 = Some t1"
    "radix_view t1 = (radix_view (rd_tree s))(p := 0)" by (rule clear_flag [OF p(4)])
  obtain t2 where t2: "radix_remove t1 (page_key (p + i)) 1 = Some t2"
    "radix_view t2 = (radix_view t1)(p + i := 0)" by (rule clear_flag [OF p(3)])
  obtain h where h: "remove_current (nodes s) (p * 4096) = Some (h, head_of ps)" "\<forall>j. dll h None ((B(i := ps)) j)"
    by (rule remove_head [OF b d B])
  let ?s = "set_head (s\<lparr>rd_tree := t2, nodes := h\<rparr>) i (head_of ps)"
  have "snd (lists s) ! i = Some (p * 4096)" using hd p(1) B by (simp add: head_of_def)
  then have "remove_one s i = Some (?s, Some (p * 4096))"
    using get_slice_ready [OF ok] hd(1) p(1) t1(1) t2(1) h(1) page_shift [OF p(4)] last_page [OF p(3,1)]
    by (simp add: remove_one_def)
  moreover have "fl_ok ?s (B(i := ps))"
    using ok blocks_remove(1) [where ?B = B, OF b B] flags_remove [OF f b B] h(2) hd heads_update [OF hd] t1(2) t2(2)
    by (simp add: fl_ok_def set_head_def)
  ultimately show ?thesis using that by (simp add: same_rest_def set_head_def)
qed

lemma remove_one_nil:
  assumes "fl_ok s B" and "B i = []" and "i < 128"
  shows "remove_one s i = Some (s, None)"
proof -
  have "snd (lists s) ! i = None" "length (snd (lists s)) = 128"
    using assms by (auto simp: fl_ok_def head_of_def)
  then show ?thesis using get_slice_ready [OF assms(1)] assms(3) by (simp add: remove_one_def)
qed

lemma push_node:
  assumes "blocks_ok B" and "\<forall>j. dll h None (B j)" and "clear_of B p i" and "0 < p"
  obtains h' where "(case head_of (B i) of Some r \<Rightarrow> push_before_head (h(p * 4096 := dll_new)) r (p * 4096)
      | None \<Rightarrow> Some (h(p * 4096 := dll_new))) = Some h'"
    and "\<forall>j. dll h' None ((B(i := p # B i)) j)"
proof -
  have out: "p \<notin> set (B j)" for j using assms(3) by (auto simp: clear_of_def)
  have d: "dll (h(p * 4096 := v)) None (B j)" for v j using assms(2) dll_upd [OF out] by simp
  show ?thesis
  proof (cases "B i")
    case Nil
    have "dll (h(p * 4096 := dll_new)) None ((B(i := p # B i)) j)" for j
      using d [of dll_new j] Nil by (auto simp: head_of_def dll_new_def)
    then show ?thesis using that [of "h(p * 4096 := dll_new)"] Nil by (simp add: head_of_def)
  next
    case (Cons q qs)
    have q: "q \<in> set (B i)" "q \<notin> set qs" "q \<noteq> p" using assms(1) Cons out [of i] by (auto simp: blocks_ok_def dest: spec [of _ i])
    let ?h = "set_dprev (set_dnext (set_dprev (h(p * 4096 := dll_new)) (q * 4096) (Some (p * 4096))) (p * 4096)
      (Some (q * 4096))) (p * 4096) None"
    have "push_before_head (h(p * 4096 := dll_new)) (q * 4096) (p * 4096) = Some ?h"
      using assms(4) by (simp add: push_before_head_def get_ref_def Let_def)
    moreover have "dll ?h None ((B(i := p # B i)) j)" for j
    proof (cases "j = i")
      case True
      have "dll h None (q # qs)" using assms(2) Cons by metis
      then have "dll ?h (Some (p * 4096)) (q # qs)" using q out [of i] Cons
        by (simp add: set_dprev_def set_dnext_def dll_upd)
      moreover have "dprev (?h (p * 4096)) = None" "dnext (?h (p * 4096)) = Some (q * 4096)"
        by (simp_all add: set_dprev_def set_dnext_def)
      ultimately show ?thesis using True Cons by (simp add: head_of_def)
    next
      case False
      have "q \<notin> set (B j)" by (rule other_list [OF assms(1) q(1) False])
      then show ?thesis using False d out by (simp add: set_dprev_def set_dnext_def dll_upd)
    qed
    ultimately show ?thesis using that [of ?h] Cons by (simp add: head_of_def)
  qed
qed

lemma insert_one_block:
  assumes ok: "fl_ok s B" and c: "clear_of B p i" and p: "i < 128" "0 < p" "p + i + 1 < 2 ^ 36"
  obtains s' where "insert_one (s\<lparr>nodes := (nodes s)(p * 4096 := dll_new)\<rparr>) i (p * 4096) = Some s'"
    and "fl_ok s' (B(i := p # B i))" and "same_rest s s'"
proof -
  have b: "blocks_ok B" and hd: "length (snd (lists s)) = 128" "\<forall>i < 128. snd (lists s) ! i = head_of (B i)"
    and d: "\<forall>j. dll (nodes s) None (B j)" and f: "flags_ok (radix_view (rd_tree s)) B"
    using ok by (auto simp: fl_ok_def)
  have p': "p + i < 2 ^ 36" "p < 2 ^ 36" using p(3) by auto
  obtain t1 where t1: "radix_insert None (rd_tree s) (page_key p) (flag i) 1 = Some t1"
    "radix_view t1 = (radix_view (rd_tree s))(p := flag i)" by (rule set_flag [OF p'(2)])
  obtain t2 where t2: "radix_insert None t1 (page_key (p + i)) (flag i) 1 = Some t2"
    "radix_view t2 = (radix_view t1)(p + i := flag i)" by (rule set_flag [OF p'(1)])
  obtain h where h: "(case head_of (B i) of Some r \<Rightarrow> push_before_head ((nodes s)(p * 4096 := dll_new)) r (p * 4096)
      | None \<Rightarrow> Some ((nodes s)(p * 4096 := dll_new))) = Some h" "\<forall>j. dll h None ((B(i := p # B i)) j)"
    by (rule push_node [OF b d c p(2)])
  let ?w = "s\<lparr>nodes := (nodes s)(p * 4096 := dll_new)\<rparr>"
  let ?s = "set_head (?w\<lparr>nodes := h, rd_tree := t2\<rparr>) i (head_of (p # B i))"
  have "get_slice ?w = (?w, snd (lists s))" using get_slice_ready [OF ok] ok by (simp add: get_slice_def fl_ok_def)
  moreover have "snd (lists s) ! i = head_of (B i)" using hd p(1) by simp
  ultimately have "insert_one ?w i (p * 4096) = Some ?s"
    using hd(1) p(1) t1(1) t2(1) h(1) page_shift [OF p'(2)] last_page [OF p'(1) p(1)]
    by (simp add: insert_one_def head_of_def [of "p # B i"] cong: option.case_cong)
  moreover have "fl_ok ?s (B(i := p # B i))"
    using ok blocks_insert [OF b c p] flags_insert [OF f c] h(2) hd heads_update [OF hd, of i "p # B i"] t1(2) t2(2)
    by (simp add: fl_ok_def set_head_def)
  ultimately show ?thesis using that by (simp add: same_rest_def set_head_def)
qed

section \<open>The specification\<close>

text \<open>The first list from \<open>k\<close> on that has a block.\<close>

definition first_list :: "free_blocks \<Rightarrow> nat \<Rightarrow> nat option" where
  "first_list B k = find (\<lambda>j. B j \<noteq> []) [k..<128]"

text \<open>
  An allocation of \<open>i + 1\<close> pages: the head of list \<open>i\<close>; or the head of the first longer list, and what is left
  of it is put on the list of its length; or nothing.
\<close>

definition spec_alloc :: "free_blocks \<Rightarrow> nat \<Rightarrow> (free_blocks \<times> nat) option" where
  "spec_alloc B i = (case first_list B i of
      None \<Rightarrow> None
    | Some k \<Rightarrow> (let p = hd (B k); B' = B(k := tl (B k)) in
        Some (if k = i then B' else B'(k - i - 1 := (p + i + 1) # B' (k - i - 1)), p)))"

lemma first_list_rec:
  "first_list B k = (if k < 128 then (if B k \<noteq> [] then Some k else first_list B (k + 1)) else None)"
  by (simp add: first_list_def upt_rec [of k 128])

lemma split_block:
  assumes ok: "fl_ok s B" and B: "B k = p # ps" and ik: "i < k"
  obtains s' where "fl_scan s i k = Some (s', Some (p * 4096))" and "same_rest s s'"
    and "fl_ok s' (B(k := ps, k - i - 1 := (p + i + 1) # (B(k := ps)) (k - i - 1)))"
proof -
  have b: "blocks_ok B" using ok by (simp add: fl_ok_def)
  have p: "k < 128" "0 < p" "p + k + 1 < 2 ^ 36" using b B by (auto simp: blocks_ok_def dest!: spec [of _ k])
  obtain s1 where s1: "remove_one s k = Some (s1, Some (p * 4096))" "fl_ok s1 (B(k := ps))" "same_rest s s1"
    by (rule remove_one_cons [OF ok B])
  have "clear_of (B(k := ps)) p k" by (rule blocks_remove(2) [where ?B = B, OF b B])
  then have c: "clear_of (B(k := ps)) (p + i + 1) (k - i - 1)" using ik unfolding clear_of_def by fastforce
  have "k - i - 1 < 128" "0 < p + i + 1" "p + i + 1 + (k - i - 1) + 1 < 2 ^ 36" using p ik by auto
  from insert_one_block [OF s1(2) c this] obtain s2 where
    s2: "insert_one (s1\<lparr>nodes := (nodes s1)((p + i + 1) * 4096 := dll_new)\<rparr>) (k - i - 1) ((p + i + 1) * 4096) = Some s2"
    "fl_ok s2 (B(k := ps, k - i - 1 := (p + i + 1) # (B(k := ps)) (k - i - 1)))" "same_rest s1 s2" by blast
  have "wadd (p * 4096) (wmul PG_SIZE (i + 1)) = (p + i + 1) * 4096" using p ik by (simp add: PG_SIZE_def)
  then have "fl_scan s i k = Some (s2, Some (p * 4096))"
    using s1(1) s2(1) p(1) by (subst fl_scan.simps) (simp add: BACKEND_MAX_PAGE_def get_ref_def Let_def)
  then show ?thesis using that s2(2,3) s1(3) by (simp add: same_rest_def)
qed

lemma fl_scan_implements:
  assumes "fl_ok s B" and "i < k"
  shows "(case first_list B k of
      None \<Rightarrow> fl_scan s i k = Some (s, None)
    | Some j \<Rightarrow> \<exists>s'. fl_scan s i k = Some (s', Some (hd (B j) * 4096)) \<and> same_rest s s' \<and> i < j
        \<and> fl_ok s' (B(j := tl (B j), j - i - 1 := (hd (B j) + i + 1) # (B(j := tl (B j))) (j - i - 1))))"
  using assms(2)
proof (induction "128 - k" arbitrary: k)
  case 0
  then show ?case by (subst first_list_rec, subst fl_scan.simps) (simp add: BACKEND_MAX_PAGE_def)
next
  case (Suc n)
  show ?case
  proof (cases "B k")
    case Nil
    have k: "k < 128" using Suc.hyps(2) by simp
    have "fl_scan s i k = fl_scan s i (k + 1)"
      using k remove_one_nil [OF assms(1) Nil k] by (subst fl_scan.simps) (simp add: BACKEND_MAX_PAGE_def)
    moreover have "first_list B k = first_list B (k + 1)" using Nil k by (subst first_list_rec) simp
    moreover have "n = 128 - (k + 1)" "i < k + 1" using Suc.hyps(2) Suc.prems by auto
    note Suc.hyps(1) [OF this]
    ultimately show ?thesis by (simp only:)
  next
    case (Cons p ps)
    have "first_list B k = Some k" using Cons Suc.hyps(2) by (subst first_list_rec) simp
    moreover obtain s' where "fl_scan s i k = Some (s', Some (p * 4096))" "same_rest s s'"
      "fl_ok s' (B(k := ps, k - i - 1 := (p + i + 1) # (B(k := ps)) (k - i - 1)))"
      by (rule split_block [OF assms(1) Cons Suc.prems])
    ultimately show ?thesis using Cons Suc.prems by auto
  qed
qed

text \<open>Sizes in pages.\<close>

lemma page_index_eq:
  assumes "0 < n" and "n < 2 ^ 40" and "(n - 1) * 4096 < sz" and "sz \<le> n * 4096"
  shows "page_index sz = n - 1"
proof -
  have "sz < 2 ^ 52 + 1" using assms(2,4) by simp
  moreover have "(sz + 4095) div 4096 = n" using assms(1,3,4) by (intro div_nat_eqI) (simp_all add: diff_mult_distrib)
  ultimately show ?thesis using assms(1,2) by (simp add: page_index_def PG_SIZE_def add.commute)
qed

lemma first_list_some:
  "first_list B k = Some j \<Longrightarrow> k \<le> j \<and> j < 128 \<and> B j \<noteq> []"
  by (auto simp: first_list_def find_Some_iff)

text \<open>The block given lies in a free block, and apart from all that stay free.\<close>

lemma spec_alloc_apart:
  assumes "blocks_ok B" and "spec_alloc B i = Some (B', p)"
  shows "clear_of B' p i \<and> (\<exists>k \<ge> i. p \<in> set (B k))"
proof -
  obtain k where k: "first_list B i = Some k" and p: "p = hd (B k)"
    and B': "B' = (if k = i then B(k := tl (B k))
      else (B(k := tl (B k)))(k - i - 1 := (p + i + 1) # (B(k := tl (B k))) (k - i - 1)))"
    using assms(2) by (auto simp: spec_alloc_def Let_def split: option.splits if_splits)
  have kB: "i \<le> k" "B k = p # tl (B k)" using first_list_some [OF k] p by auto
  have c: "clear_of (B(k := tl (B k))) p k" by (rule blocks_remove(2) [where ?B = B, OF assms(1) kB(2)])
  then have "clear_of (B(k := tl (B k))) p i" using kB(1) unfolding clear_of_def by fastforce
  then have "clear_of B' p i" unfolding B' by (auto simp: clear_of_def)
  moreover have "p \<in> set (B k)" by (subst kB(2)) simp
  ultimately show ?thesis using kB(1) by blast
qed

text \<open>C19: An allocation of \<open>n\<close> pages implements its specification: the block is the head of list \<open>n - 1\<close>, or else
  the front of the head of the first longer list, whose rest goes to the list of its length; it comes out of a free block
  and overlaps no block that stays free, and when no list has a block the request goes to the bump allocator.\<close>

theorem fl_alloc_implements:
  assumes "fl_ok s B" and "0 < n" and "n < 2 ^ 40" and "(n - 1) * 4096 < sz" and "sz \<le> n * 4096"
  shows "(case (if n \<le> 128 then spec_alloc B (n - 1) else None) of
      Some (B', p) \<Rightarrow> (\<exists>s'. fl_alloc s sz = Some (s', Inr (p * 4096)) \<and> fl_ok s' B' \<and> same_rest s s')
        \<and> clear_of B' p (n - 1) \<and> (\<exists>k \<ge> n - 1. p \<in> set (B k))
    | None \<Rightarrow> fl_alloc s sz = Some (fl_bump_alloc s sz))"
proof -
  obtain i where n: "n = Suc i" using assms(2) by (cases n) auto
  have idx: "page_index sz = i" using page_index_eq [OF assms(2-5)] n by simp
  note sl = get_slice_ready [OF assms(1)]
  have len: "length (snd (lists s)) = 128" and b: "blocks_ok B" using assms(1) by (auto simp: fl_ok_def)
  show ?thesis
  proof (cases "n \<le> 128")
    case False
    then show ?thesis using sl len idx n by (simp add: fl_alloc_def)
  next
    case True
    then have lt: "i < 128" using n by simp
    show ?thesis
    proof (cases "B i")
      case (Cons p ps)
      obtain s' where "remove_one s i = Some (s', Some (p * 4096))" "fl_ok s' (B(i := ps))" "same_rest s s'"
        by (rule remove_one_cons [OF assms(1) Cons])
      moreover have "spec_alloc B i = Some (B(i := ps), p)"
        using Cons lt by (simp add: spec_alloc_def first_list_rec [of B i])
      ultimately show ?thesis
        using spec_alloc_apart [OF b, of i "B(i := ps)" p] sl len idx lt n by (simp add: fl_alloc_def)
    next
      case Nil
      note r = remove_one_nil [OF assms(1) Nil lt]
      have f: "first_list B i = first_list B (i + 1)" using Nil lt by (subst first_list_rec) simp
      note sc = fl_scan_implements [OF assms(1), of i "i + 1"]
      show ?thesis
      proof (cases "first_list B (i + 1)")
        case None
        then have "fl_scan s i (i + 1) = Some (s, None)" using sc by simp
        then show ?thesis using None f r sl len idx lt n by (simp add: fl_alloc_def spec_alloc_def)
      next
        case (Some j)
        define B' where "B' = B(j := tl (B j), j - i - 1 := (hd (B j) + i + 1) # (B(j := tl (B j))) (j - i - 1))"
        obtain s' where "fl_scan s i (i + 1) = Some (s', Some (hd (B j) * 4096))" "same_rest s s'" "i < j"
          "fl_ok s' B'" using sc Some unfolding B'_def by auto
        moreover have "spec_alloc B i = Some (B', hd (B j))"
          using Some f \<open>i < j\<close> unfolding spec_alloc_def B'_def by (simp add: Let_def)
        ultimately show ?thesis using spec_alloc_apart [OF b, of i B' "hd (B j)"] r sl len idx lt n
          by (simp add: fl_alloc_def)
      qed
    qed
  qed
qed

section \<open>Freeing\<close>

lemma page_flag_view:
  "p < 2 ^ 36 \<Longrightarrow> page_flag s (p * 4096) = Some (- drop_bit 48 (radix_view (rd_tree s) p))"
  using page_shift [of p] read_flag [of p] by (simp add: page_flag_def)

lemma dll_not_self: "dll h pv ps \<Longrightarrow> distinct ps \<Longrightarrow> r \<in> set ps \<Longrightarrow> dnext (h (r * 4096)) \<noteq> Some (r * 4096)"
proof (induction ps arbitrary: pv)
  case (Cons p ps)
  show ?case
  proof (cases "r = p")
    case True
    have "dnext (h (p * 4096)) = head_of ps" "p \<notin> set ps" using Cons.prems by auto
    then show ?thesis using True by (cases ps) (auto simp: head_of_def)
  next
    case False
    then show ?thesis using Cons.IH [of "Some (p * 4096)"] Cons.prems by simp
  qed
qed simp

text \<open>A block on a list is never its own successor, so the test in \<open>remove_spec_one\<close> fails.\<close>

lemma remove_spec_one_fails:
  assumes ok: "fl_ok s B" and r: "r \<in> set (B j)"
  shows "remove_spec_one s j (r * 4096) = Some (s, None)"
proof -
  have p: "j < 128" "0 < r" "r < 2 ^ 36" using page_in_list [OF ok r] by auto
  have len: "length (snd (lists s)) = 128" using ok by (simp add: fl_ok_def)
  have "dll (nodes s) None (B j)" "distinct (B j)" "radix_view (rd_tree s) r = flag j"
    using ok r unfolding fl_ok_def blocks_ok_def flags_ok_def by blast+
  with dll_not_self [OF this(1,2) r] p len get_slice_ready [OF ok] page_shift [OF p(3)] read_flag [OF p(3)]
    flag_neg(3) [OF p(1)] show ?thesis
    by (simp add: remove_spec_one_def get_ref_def split: option.splits)
qed

lemma flagged_block:
  assumes "flags_ok v B" and "blocks_ok B" and "q < 2 ^ 36" and "0 < - drop_bit 48 (v q)"
  obtains j r where "r \<in> set (B j)" and "- drop_bit 48 (v q) = int j + 1" and "q = r \<or> q = r + j" and "j < 128"
proof -
  have "v q < 0" using assms(4) by (simp add: drop_bit_eq_div)
  then obtain j r where r: "r \<in> set (B j)" "v q = flag j" "q = r \<or> q = r + j"
    using assms(1,3) unfolding flags_ok_def by blast
  moreover have "j < 128" using r(1) assms(2) by (auto simp: blocks_ok_def)
  ultimately show ?thesis using that flag_neg(2) by metis
qed

text \<open>Freeing a block of at most 128 pages puts exactly it at the head of its list and never joins it to a
  free neighbour; a longer block is unmapped.\<close>

theorem fl_free_never_coalesces:
  assumes "fl_ok s B" and "0 < n" and "n < 2 ^ 40" and "(n - 1) * 4096 < sz" and "sz \<le> n * 4096"
    and "0 < p" and "p + n < 2 ^ 36" and "clear_of B p (n - 1)"
  shows "if n \<le> 128
    then \<exists>s'. fl_free s (p * 4096) sz = Some s' \<and> fl_ok s' (B(n - 1 := p # B (n - 1))) \<and> same_rest s s'
    else fl_free s (p * 4096) sz = Some (s\<lparr>fl_os := os_munmap (fl_os s) (p * 4096) (n * 4096)\<rparr>)"
proof -
  obtain i where n: "n = Suc i" using assms(2) by (cases n) auto
  have idx: "page_index sz = i" using page_index_eq [OF assms(2-5)] n by simp
  note sl = get_slice_ready [OF assms(1)]
  have len: "length (snd (lists s)) = 128" and b: "blocks_ok B" and f: "flags_ok (radix_view (rd_tree s)) B"
    using assms(1) by (auto simp: fl_ok_def)
  have c: "\<And>j r. r \<in> set (B j) \<Longrightarrow> p + i < r \<or> r + j < p" using assms(8) n by (auto simp: clear_of_def)
  define pf where "pf = - drop_bit 48 (radix_view (rd_tree s) (p - 1))"
  define nf where "nf = - drop_bit 48 (radix_view (rd_tree s) (p + n))"
  define nx where "nx = (p + n) * 4096"
  have e: "wsub (p * 4096) PG_SIZE = (p - 1) * 4096" "wadd (p * 4096) (wmul (wadd i 1) PG_SIZE) = nx"
    using assms(3,6,7) n by (simp_all add: PG_SIZE_def diff_mult_distrib nx_def)
  have v: "page_flag s ((p - 1) * 4096) = Some pf" "page_flag s nx = Some nf"
    using assms(6,7) by (simp_all add: pf_def nf_def page_flag_view nx_def del: distrib_right_numeral)
  have 1: "remove_spec_one s (nat (pf - 1)) (wsub (p * 4096) (wmul (nat pf) PG_SIZE)) = Some (s, None)" if "0 < pf"
  proof -
    have "p - 1 < 2 ^ 36" using assms(7) by simp
    from flagged_block [OF f b this that [unfolded pf_def]] obtain j r where
      r: "r \<in> set (B j)" "pf = int j + 1" "p - 1 = r \<or> p - 1 = r + j" "j < 128" unfolding pf_def by metis
    have p: "p = r + j + 1" using c [OF r(1)] r(3) assms(6) by auto
    have "wsub (p * 4096) (wmul (nat pf) PG_SIZE) = r * 4096"
      using r(2,4) assms(7) unfolding p by (simp add: PG_SIZE_def nat_add_distrib)
    then show ?thesis using remove_spec_one_fails [OF assms(1) r(1)] r(2) by simp
  qed
  have 2: "remove_spec_one s (nat nf - 1) nx = Some (s, None)" if "0 < nf"
  proof -
    from flagged_block [OF f b assms(7) that [unfolded nf_def]] obtain j r where
      r: "r \<in> set (B j)" "nf = int j + 1" "p + n = r \<or> p + n = r + j" unfolding nf_def by metis
    have "r = p + n" using c [OF r(1)] r(3) n by auto
    then show ?thesis using remove_spec_one_fails [OF assms(1) r(1)] r(2) by (simp add: nat_add_distrib nx_def)
  qed
  have free: "fl_free s (p * 4096) sz = (if i < 128
     then insert_one (s\<lparr>nodes := (nodes s)(p * 4096 := dll_new)\<rparr>) i (p * 4096)
     else Some (s\<lparr>fl_os := os_munmap (fl_os s) (p * 4096) (wmul (wadd i 1) PG_SIZE)\<rparr>))"
    using 1 2 sl len assms(6) by (simp add: fl_free_def idx e v get_ref_def Let_def del: One_nat_def wadd_exact)
  show ?thesis
  proof (cases "n \<le> 128")
    case True
    then have i: "i < 128" "p + i + 1 < 2 ^ 36" using n assms(7) by auto
    have c': "clear_of B p i" using assms(8) n by simp
    show ?thesis using insert_one_block [OF assms(1) c' i(1) assms(6) i(2)] free i(1) n by auto
  next
    case False
    then show ?thesis using free assms(3) n by (simp add: PG_SIZE_def)
  qed
qed

section \<open>A concrete state\<close>

definition demo_free_list :: free_list where
  "demo_free_list = \<lparr>lists = (64, replicate 128 None), nodes = \<lambda>_. dll_new, rd_tree = \<lambda>_. None, fl_bump = bump_new,
     fl_meta = meta_bump_new, fl_os = demo_machine\<rparr>"

lemma demo_free_list_ok: "fl_ok demo_free_list (\<lambda>_. [])"
  by (simp add: fl_ok_def demo_free_list_def head_of_def blocks_ok_def flags_ok_def radix_view_def)

lemma fl_alloc_implements_witness:
  "\<exists>s s'. fl_ok s ((\<lambda>_. [])(2 := [5])) \<and> fl_alloc s 4096 = Some (s', Inr 0x5000) \<and> fl_ok s' ((\<lambda>_. [])(1 := [6]))"
proof -
  obtain s where s: "fl_ok s ((\<lambda>_. [])(2 := [5]))"
    using insert_one_block [OF demo_free_list_ok, of 5 2] by (auto simp: clear_of_def)
  have f: "first_list ((\<lambda>_. [])(2 := [5])) 0 = Some 2" by (simp add: first_list_rec)
  have "spec_alloc ((\<lambda>_. [])(2 := [5])) 0 = Some (((\<lambda>_. [])(2 := [5]))(2 := [], 1 := [6]), 5)"
    by (simp add: spec_alloc_def f)
  moreover have "((\<lambda>_. [])(2 := [5]))(2 := [], 1 := [6]) = ((\<lambda>_. [])(1 := [6]) :: free_blocks)" by (simp add: fun_eq_iff)
  ultimately show ?thesis using s fl_alloc_implements [OF s, of 1 4096] by auto
qed

lemma fl_free_never_coalesces_witness:
  "\<exists>s s'. fl_ok s ((\<lambda>_. [])(2 := [5])) \<and> fl_free s 0x8000 4096 = Some s' \<and> fl_ok s' ((\<lambda>_. [])(2 := [5], 0 := [8]))"
proof -
  obtain s where s: "fl_ok s ((\<lambda>_. [])(2 := [5]))"
    using insert_one_block [OF demo_free_list_ok, of 5 2] by (auto simp: clear_of_def)
  then show ?thesis using fl_free_never_coalesces [OF s, of 1 4096 8] by (auto simp: clear_of_def)
qed

lemma bsa_alloc_too_large: "ISIZE_MAX < lsize l \<Longrightarrow> bsa_alloc s l = Some (s, 0)"
  by (simp add: bsa_alloc_def)

lemma bsa_allocate_zero: "lsize l = 0 \<Longrightarrow> bsa_allocator_allocate s l = Some (s, Inr (lalign l, 0))
    \<and> bsa_allocator_deallocate s p l = Some s"
  by (simp add: bsa_allocator_allocate_def bsa_allocator_deallocate_def)

end
