(* ===== verification/CircList.thy ===== *)
theory CircList
  imports UA_Prelude
begin

text \<open>
  Circular doubly linked lists. The slabs of an \<open>SCAllocator\<close> and the nodes of an
  \<open>ArrayLinkedList\<close> are linked in rings; both are stores with fallible accessors of a next and a
  previous link. The locale \<open>linked_store\<close> is that interface (the trait \<open>Linkedlist\<close> of
  \<open>collections/linklist.rs\<close>); its lemmas say what unlinking a node and linking a node before a head do
  to a ring. \<open>ArrayLinkedList\<close> is modelled here and interprets the locale.
\<close>

section \<open>Rings\<close>

fun linked :: "(nat \<Rightarrow> nat) \<Rightarrow> (nat \<Rightarrow> nat) \<Rightarrow> nat list \<Rightarrow> bool" where
  "linked nx pv (x # y # xs) = (nx x = y \<and> pv y = x \<and> linked nx pv (y # xs))"
| "linked nx pv xs = True"

definition ring :: "(nat \<Rightarrow> nat) \<Rightarrow> (nat \<Rightarrow> nat) \<Rightarrow> nat list \<Rightarrow> bool" where
  "ring nx pv xs \<longleftrightarrow> distinct xs \<and> linked nx pv xs
     \<and> (xs \<noteq> [] \<longrightarrow> nx (last xs) = hd xs \<and> pv (hd xs) = last xs)"

lemma linked_append:
  "linked nx pv (xs @ ys) \<longleftrightarrow> linked nx pv xs \<and> linked nx pv ys
     \<and> (xs \<noteq> [] \<and> ys \<noteq> [] \<longrightarrow> nx (last xs) = hd ys \<and> pv (hd ys) = last xs)"
proof (induction xs rule: induct_list012)
  case (2 x)
  then show ?case by (cases ys) auto
qed auto

lemma linked_cong:
  "(\<And>x. x \<in> set (butlast xs) \<Longrightarrow> nx x = nx' x) \<Longrightarrow> (\<And>x. x \<in> set (tl xs) \<Longrightarrow> pv x = pv' x) \<Longrightarrow>
     linked nx pv xs = linked nx' pv' xs"
  by (induction xs rule: induct_list012) (auto split: if_splits)

lemma ring_cong:
  "(\<And>x. x \<in> set xs \<Longrightarrow> nx x = nx' x) \<Longrightarrow> (\<And>x. x \<in> set xs \<Longrightarrow> pv x = pv' x) \<Longrightarrow>
     ring nx pv xs = ring nx' pv' xs"
  unfolding ring_def using linked_cong [of xs nx nx' pv pv'] by (metis hd_in_set last_in_set in_set_butlastD list.set_sel(2) tl_Nil)

lemma ring_distinct: "ring nx pv xs \<Longrightarrow> distinct xs"
  by (simp add: ring_def)

lemma ring_single [simp]: "ring nx pv [x] \<longleftrightarrow> nx x = x \<and> pv x = x"
  by (auto simp: ring_def)

lemma ring_rotate: "ring nx pv (xs @ ys) \<longleftrightarrow> ring nx pv (ys @ xs)"
  by (cases "xs = []"; cases "ys = []") (auto simp: ring_def linked_append)

lemma ring_head:
  assumes "ring nx pv (x # ys)" "ys \<noteq> []"
  shows "nx x = hd ys" "pv x = last ys" "nx (last ys) = x" "pv (hd ys) = x"
  using assms by (auto simp: ring_def neq_Nil_conv)

lemma linked_ends:
  "distinct xs \<Longrightarrow> linked (nx(last xs := a)) (pv(hd xs := b)) xs = linked nx pv xs"
proof (intro linked_cong)
  fix x assume d: "distinct xs"
  { assume "x \<in> set (butlast xs)"
    then have "x \<noteq> last xs" using d
      by (metis append_butlast_last_id distinct_append disjoint_iff empty_iff list.set_intros(1) list.set(1) butlast.simps(1))
    then show "(nx(last xs := a)) x = nx x" by simp }
  { assume "x \<in> set (tl xs)"
    then have "x \<noteq> hd xs" using d by (cases xs) auto
    then show "(pv(hd xs := b)) x = pv x" by simp }
qed

text \<open>Unlinking a node, and linking a node before the head (that is, at the tail).\<close>

lemma ring_unlink_head:
  assumes "ring nx pv (x # ys)" "ys \<noteq> []"
  shows "ring (nx(pv x := nx x)) (pv(nx x := pv x)) ys"
proof -
  note h = ring_head [OF assms]
  have d: "distinct ys" "linked nx pv ys"
    using assms by (auto simp: ring_def neq_Nil_conv)
  show ?thesis unfolding h ring_def using d linked_ends [OF d(1)] by simp
qed

lemma ring_unlink:
  assumes "ring nx pv (xs @ x # ys)" "xs @ ys \<noteq> []"
  shows "ring (nx(pv x := nx x)) (pv(nx x := pv x)) (xs @ ys)"
  using ring_unlink_head [of nx pv x "ys @ xs"] assms ring_rotate [of nx pv xs "x # ys"]
    ring_rotate [of _ _ xs ys] by auto

lemma ring_link:
  assumes "ring nx pv (h # xs)" "x \<notin> set (h # xs)"
  shows "ring (nx(pv h := x, x := h)) (pv(x := pv h, h := x)) (h # xs @ [x])"
proof -
  let ?hs = "h # xs"
  have pv: "pv h = last ?hs" using assms(1) by (simp add: ring_def)
  have d: "distinct ?hs" "linked nx pv ?hs" using assms(1) by (simp_all add: ring_def)
  have "linked (nx(pv h := x, x := h)) (pv(x := pv h, h := x)) ?hs
    = linked (nx(last ?hs := x)) (pv(hd ?hs := x)) ?hs"
    using assms(2) by (intro linked_cong) (auto simp: pv dest: in_set_butlastD)
  then have l: "linked (nx(pv h := x, x := h)) (pv(x := pv h, h := x)) ?hs"
    using linked_ends [OF d(1)] d(2) by simp
  have x: "x \<noteq> h" "x \<noteq> pv h" "last ?hs = pv h" using assms(2) pv by (auto dest: last_in_set)
  have "linked (nx(pv h := x, x := h)) (pv(x := pv h, h := x)) (?hs @ [x])"
    unfolding linked_append using l x by auto
  then show ?thesis unfolding ring_def using d(1) assms(2) x by auto
qed

section \<open>The interface of a store of links\<close>

text \<open>
  \<open>next_of\<close> and \<open>prev_of\<close> are the links of a state; the other four are the accessors the code calls,
  which may fail outside the valid nodes.
\<close>

locale linked_store =
  fixes valid :: "'s \<Rightarrow> nat \<Rightarrow> bool"
    and next_of prev_of :: "'s \<Rightarrow> nat \<Rightarrow> nat"
    and get_next get_prev :: "'s \<Rightarrow> nat \<Rightarrow> nat option"
    and set_next set_prev :: "'s \<Rightarrow> nat \<Rightarrow> nat \<Rightarrow> 's option"
  assumes get_next_valid: "valid s i \<Longrightarrow> valid s (next_of s i) \<Longrightarrow> get_next s i = Some (next_of s i)"
    and get_prev_valid: "valid s i \<Longrightarrow> valid s (prev_of s i) \<Longrightarrow> get_prev s i = Some (prev_of s i)"
    and set_next_valid: "valid s i \<Longrightarrow> \<exists>s'. set_next s i v = Some s' \<and> valid s' = valid s
      \<and> next_of s' = (next_of s)(i := v) \<and> prev_of s' = prev_of s"
    and set_prev_valid: "valid s i \<Longrightarrow> \<exists>s'. set_prev s i v = Some s' \<and> valid s' = valid s
      \<and> next_of s' = next_of s \<and> prev_of s' = (prev_of s)(i := v)"
begin

definition ring_at :: "'s \<Rightarrow> nat list \<Rightarrow> bool" where
  "ring_at s xs \<longleftrightarrow> ring (next_of s) (prev_of s) xs \<and> (\<forall>x \<in> set xs. valid s x)"

text \<open>The same links outside a set of nodes.\<close>

definition links_kept :: "nat set \<Rightarrow> 's \<Rightarrow> 's \<Rightarrow> bool" where
  "links_kept A s s' \<longleftrightarrow> valid s' = valid s
     \<and> (\<forall>x. x \<notin> A \<longrightarrow> next_of s' x = next_of s x \<and> prev_of s' x = prev_of s x)"

lemma ring_at_kept:
  "links_kept A s s' \<Longrightarrow> A \<inter> set xs = {} \<Longrightarrow> ring_at s' xs = ring_at s xs"
  unfolding ring_at_def links_kept_def
  using ring_cong [of xs "next_of s'" "next_of s" "prev_of s'" "prev_of s"] by auto

lemma ring_at_neighbours:
  assumes "ring_at s xs" "x \<in> set xs"
  shows "valid s x" "valid s (next_of s x)" "valid s (prev_of s x)"
    "next_of s x \<in> set xs" "prev_of s x \<in> set xs"
proof -
  obtain us vs where xs: "xs = us @ x # vs" using assms(2) by (meson split_list)
  have r: "ring (next_of s) (prev_of s) (x # vs @ us)"
    using assms(1) ring_rotate [of _ _ us "x # vs"] by (simp add: ring_at_def xs)
  have "next_of s x \<in> set xs \<and> prev_of s x \<in> set xs"
  proof (cases "vs @ us = []")
    case True
    then show ?thesis using r xs by auto
  next
    case False
    have "hd (vs @ us) \<in> set (vs @ us)" "last (vs @ us) \<in> set (vs @ us)"
      using False hd_in_set last_in_set by blast+
    then show ?thesis using ring_head [OF r False] unfolding xs by auto
  qed
  then show "valid s x" "valid s (next_of s x)" "valid s (prev_of s x)"
    "next_of s x \<in> set xs" "prev_of s x \<in> set xs"
    using assms by (auto simp: ring_at_def)
qed

lemma ring_gets:
  assumes "ring_at s xs" "x \<in> set xs"
  shows "get_next s x = Some (next_of s x)" "get_prev s x = Some (prev_of s x)"
  using ring_at_neighbours [OF assms] get_next_valid get_prev_valid by blast+

text \<open>The two calls that take a node out: the neighbours are linked to each other.\<close>

lemma unlink_calls:
  assumes "ring_at s (xs @ x # ys)" "xs @ ys \<noteq> []"
  obtains s1 s2 where "set_prev s (next_of s x) (prev_of s x) = Some s1"
    "valid s1 = valid s" "next_of s1 x = next_of s x" "prev_of s1 x = prev_of s x"
    "set_next s1 (prev_of s x) (next_of s x) = Some s2"
    "ring_at s2 (xs @ ys)" "links_kept (set (xs @ ys)) s s2"
    "next_of s2 x = next_of s x" "prev_of s2 x = prev_of s x"
proof -
  have x: "x \<in> set (xs @ x # ys)" by simp
  note nb = ring_at_neighbours [OF assms(1) x]
  have rg: "ring (next_of s) (prev_of s) (xs @ x # ys)" using assms(1) by (simp add: ring_at_def)
  then have r: "ring (next_of s) (prev_of s) (x # ys @ xs)" using ring_rotate [of _ _ xs "x # ys"] by simp
  have ne: "ys @ xs \<noteq> []" using assms(2) by auto
  have mem: "next_of s x \<in> set (xs @ ys)" "prev_of s x \<in> set (xs @ ys)"
    using ring_head [OF r ne] hd_in_set [OF ne] last_in_set [OF ne] by auto
  have xn: "x \<notin> set (xs @ ys)" using ring_distinct [OF rg] by auto
  obtain s1 where s1: "set_prev s (next_of s x) (prev_of s x) = Some s1" "valid s1 = valid s"
    "next_of s1 = next_of s" "prev_of s1 = (prev_of s)(next_of s x := prev_of s x)"
    using set_prev_valid [OF nb(2)] by blast
  have "valid s1 (prev_of s x)" using s1 nb by simp
  then obtain s2 where s2: "set_next s1 (prev_of s x) (next_of s x) = Some s2" "valid s2 = valid s1"
    "next_of s2 = (next_of s1)(prev_of s x := next_of s x)" "prev_of s2 = prev_of s1"
    using set_next_valid by blast
  have "ring_at s2 (xs @ ys)"
    using ring_unlink [OF rg assms(2)] assms(1) s1 s2 by (simp add: ring_at_def)
  moreover have "links_kept (set (xs @ ys)) s s2" using s1 s2 mem by (auto simp: links_kept_def)
  moreover have "x \<noteq> next_of s x" "x \<noteq> prev_of s x" using mem xn by auto
  ultimately show ?thesis using that [of s1 s2] s1 s2 by simp
qed

text \<open>The four calls that link a node before the head of a ring.\<close>

lemma link_calls:
  assumes "ring_at s (h # xs)" "x \<notin> set (h # xs)" "valid s x"
  obtains s1 s2 s3 s4 where "set_prev s x (prev_of s h) = Some s1" "set_next s1 x h = Some s2"
    "prev_of s1 h = prev_of s h" "prev_of s2 h = prev_of s h"
    "valid s1 = valid s" "valid s2 = valid s" "valid s3 = valid s"
    "set_next s2 (prev_of s h) x = Some s3" "set_prev s3 h x = Some s4"
    "ring_at s4 (h # xs @ [x])" "links_kept (set (h # xs @ [x])) s s4"
proof -
  have hm: "h \<in> set (h # xs)" by simp
  note nb = ring_at_neighbours [OF assms(1) hm]
  have rg: "ring (next_of s) (prev_of s) (h # xs)" using assms(1) by (simp add: ring_at_def)
  have ne: "x \<noteq> h" "x \<noteq> prev_of s h" using assms(2) nb by auto
  obtain s1 where s1: "set_prev s x (prev_of s h) = Some s1" "valid s1 = valid s"
    "next_of s1 = next_of s" "prev_of s1 = (prev_of s)(x := prev_of s h)"
    using set_prev_valid [OF assms(3)] by blast
  have "valid s1 x" using s1 assms(3) by simp
  then obtain s2 where s2: "set_next s1 x h = Some s2" "valid s2 = valid s1"
    "next_of s2 = (next_of s1)(x := h)" "prev_of s2 = prev_of s1"
    using set_next_valid by blast
  have "valid s2 (prev_of s h)" using s1 s2 nb by simp
  then obtain s3 where s3: "set_next s2 (prev_of s h) x = Some s3" "valid s3 = valid s2"
    "next_of s3 = (next_of s2)(prev_of s h := x)" "prev_of s3 = prev_of s2"
    using set_next_valid by blast
  have "valid s3 h" using s1 s2 s3 nb by simp
  then obtain s4 where s4: "set_prev s3 h x = Some s4" "valid s4 = valid s3"
    "next_of s4 = next_of s3" "prev_of s4 = (prev_of s3)(h := x)"
    using set_prev_valid by blast
  have nx: "next_of s4 = (next_of s)(prev_of s h := x, x := h)"
    using s1 s2 s3 s4 ne by (simp add: fun_upd_twist)
  have pv: "prev_of s4 = (prev_of s)(x := prev_of s h, h := x)"
    using s1 s2 s3 s4 by simp
  have "ring_at s4 (h # xs @ [x])"
    using ring_link [OF rg assms(2)] assms(1,3) s1 s2 s3 s4 by (simp add: ring_at_def nx pv)
  moreover have "links_kept (set (h # xs @ [x])) s s4"
    using s1(2) s2(2) s3(2) s4(2) nb(5) by (auto simp: links_kept_def nx pv)
  ultimately show ?thesis using that [of s1 s2 s3 s4] s1 s2 s3 s4 ne by simp
qed

text \<open>A node on its own.\<close>

lemma self_link_calls:
  assumes "valid s x"
  obtains s1 s2 where "set_prev s x x = Some s1" "valid s1 = valid s" "set_next s1 x x = Some s2"
    "ring_at s2 [x]" "links_kept {x} s s2"
proof -
  obtain s1 where s1: "set_prev s x x = Some s1" "valid s1 = valid s"
    "next_of s1 = next_of s" "prev_of s1 = (prev_of s)(x := x)"
    using set_prev_valid [OF assms] by blast
  have "valid s1 x" using s1 assms by simp
  then obtain s2 where s2: "set_next s1 x x = Some s2" "valid s2 = valid s1"
    "next_of s2 = (next_of s1)(x := x)" "prev_of s2 = prev_of s1"
    using set_next_valid by blast
  show ?thesis using that [of s1 s2] s1 s2 assms by (auto simp: ring_at_def links_kept_def)
qed

text \<open>The same four calls with the neighbours first, the last two in either order.\<close>

lemma splice_calls:
  assumes "ring_at s (h # xs)" "x \<notin> set (h # xs)" "valid s x"
  obtains s1 s2 s3 s4 t3 t4 where "set_next s (prev_of s h) x = Some s1" "set_prev s1 h x = Some s2"
    "set_next s2 x h = Some s3" "set_prev s3 x (prev_of s h) = Some s4"
    "ring_at s4 (h # xs @ [x])" "links_kept (set (h # xs @ [x])) s s4"
    "set_prev s2 x (prev_of s h) = Some t3" "set_next t3 x h = Some t4"
    "ring_at t4 (h # xs @ [x])" "links_kept (set (h # xs @ [x])) s t4"
proof -
  have hm: "h \<in> set (h # xs)" by simp
  note nb = ring_at_neighbours [OF assms(1) hm]
  have rg: "ring (next_of s) (prev_of s) (h # xs)" using assms(1) by (simp add: ring_at_def)
  have xh: "x \<noteq> h" using assms(2) by auto
  obtain s1 where s1: "set_next s (prev_of s h) x = Some s1" "valid s1 = valid s"
    "next_of s1 = (next_of s)(prev_of s h := x)" "prev_of s1 = prev_of s"
    using set_next_valid [OF nb(3)] by blast
  have "valid s1 h" using s1 nb by simp
  then obtain s2 where s2: "set_prev s1 h x = Some s2" "valid s2 = valid s1"
    "next_of s2 = next_of s1" "prev_of s2 = (prev_of s1)(h := x)"
    using set_prev_valid by blast
  have v2: "valid s2 x" using s1 s2 assms by simp
  then obtain s3 where s3: "set_next s2 x h = Some s3" "valid s3 = valid s2"
    "next_of s3 = (next_of s2)(x := h)" "prev_of s3 = prev_of s2"
    using set_next_valid by blast
  have "valid s3 x" using s3 v2 by simp
  then obtain s4 where s4: "set_prev s3 x (prev_of s h) = Some s4" "valid s4 = valid s3"
    "next_of s4 = next_of s3" "prev_of s4 = (prev_of s3)(x := prev_of s h)"
    using set_prev_valid by blast
  obtain t3 where t3: "set_prev s2 x (prev_of s h) = Some t3" "valid t3 = valid s2"
    "next_of t3 = next_of s2" "prev_of t3 = (prev_of s2)(x := prev_of s h)"
    using set_prev_valid [OF v2] by blast
  have "valid t3 x" using t3 v2 by simp
  then obtain t4 where t4: "set_next t3 x h = Some t4" "valid t4 = valid t3"
    "next_of t4 = (next_of t3)(x := h)" "prev_of t4 = prev_of t3"
    using set_next_valid by blast
  have nx: "next_of s4 = (next_of s)(prev_of s h := x, x := h)" "next_of t4 = next_of s4"
    using s1 s2 s3 s4 t3 t4 by simp_all
  have pv: "prev_of s4 = (prev_of s)(x := prev_of s h, h := x)" "prev_of t4 = prev_of s4"
    using s1 s2 s3 s4 t3 t4 xh by (simp_all add: fun_upd_twist)
  have vs: "valid s4 = valid s" "valid t4 = valid s" using s1 s2 s3 s4 t3 t4 by simp_all
  have "ring_at s4 (h # xs @ [x])" "ring_at t4 (h # xs @ [x])"
    using ring_link [OF rg assms(2)] assms(1,3) by (simp_all add: ring_at_def nx pv vs)
  moreover have "links_kept (set (h # xs @ [x])) s s4" "links_kept (set (h # xs @ [x])) s t4"
    using nb(5) by (auto simp: links_kept_def nx pv vs)
  ultimately show ?thesis using that s1(1) s2(1) s3(1) s4(1) t3(1) t4(1) by blast
qed

end

text \<open>A store read backwards is a store: every lemma on what comes before has its mirror image.\<close>

lemma linked_rev: "linked pv nx (rev xs) \<longleftrightarrow> linked nx pv xs"
  by (induction xs rule: induct_list012) (auto simp: linked_append)

lemma ring_rev: "ring pv nx (rev xs) \<longleftrightarrow> ring nx pv xs"
  by (auto simp: ring_def linked_rev hd_rev last_rev)

sublocale linked_store \<subseteq> flip: linked_store valid prev_of next_of get_prev get_next set_prev set_next
  using get_next_valid get_prev_valid set_next_valid set_prev_valid by unfold_locales blast+

context linked_store
begin

lemma flip_ring_at: "flip.ring_at s (rev xs) = ring_at s xs"
  by (simp add: flip.ring_at_def ring_at_def ring_rev)

lemma flip_links_kept: "flip.links_kept = links_kept"
  by (intro ext) (auto simp: flip.links_kept_def links_kept_def)

end

section \<open>ArrayLinkedList\<close>

text \<open>The vector of triples of a previous index, a next index and an item; indexing panics out of range.\<close>

type_synonym 'a array_list = "(nat \<times> nat \<times> 'a) list"

definition all_new :: "'a array_list" where
  "all_new = []"

definition all_len :: "'a array_list \<Rightarrow> nat" where
  "all_len l = length l"

text \<open>\<open>get\<close> does not panic: its \<open>None\<close> is the function's own; \<open>get_mut\<close> is modelled with the write through it.\<close>

definition all_get :: "'a array_list \<Rightarrow> nat \<Rightarrow> 'a option" where
  "all_get l idx = map_option (\<lambda>(p, n, x). x) (aget l idx)"

definition all_get_mut :: "'a array_list \<Rightarrow> nat \<Rightarrow> 'a \<Rightarrow> 'a array_list option" where
  "all_get_mut l idx v = (case aget l idx of Some (p, n, x) \<Rightarrow> Some (l[idx := (p, n, v)]) | None \<Rightarrow> None)"

definition all_tail :: "'a array_list \<Rightarrow> nat" where
  "all_tail l = wsub (length l) 1"

definition all_get_prev :: "'a array_list \<Rightarrow> nat \<Rightarrow> nat option" where
  "all_get_prev l idx = do { (p, n, x) \<leftarrow> aget l idx; Some p }"

definition all_get_next :: "'a array_list \<Rightarrow> nat \<Rightarrow> nat option" where
  "all_get_next l idx = do { (p, n, x) \<leftarrow> aget l idx; Some n }"

definition all_set_prev :: "'a array_list \<Rightarrow> nat \<Rightarrow> nat \<Rightarrow> 'a array_list option" where
  "all_set_prev l cur new_prev = do { (p, n, x) \<leftarrow> aget l cur; aset l cur (new_prev, n, x) }"

definition all_set_next :: "'a array_list \<Rightarrow> nat \<Rightarrow> nat \<Rightarrow> 'a array_list option" where
  "all_set_next l cur new_next = do { (p, n, x) \<leftarrow> aget l cur; aset l cur (p, new_next, x) }"

definition all_reset_links :: "'a array_list \<Rightarrow> nat \<Rightarrow> 'a array_list option" where
  "all_reset_links l idx = do { l \<leftarrow> all_set_prev l idx idx; all_set_next l idx idx }"

definition all_push :: "'a array_list \<Rightarrow> 'a \<Rightarrow> 'a array_list" where
  "all_push l item = (let new_idx = length l in l @ [(new_idx, new_idx, item)])"

definition all_remove_node :: "'a array_list \<Rightarrow> nat \<Rightarrow> 'a array_list option" where
  "all_remove_node l idx = do {
     prev_idx \<leftarrow> all_get_prev l idx;
     next_idx \<leftarrow> all_get_next l idx;
     l \<leftarrow> all_set_prev l next_idx prev_idx;
     l \<leftarrow> all_set_next l prev_idx next_idx;
     l \<leftarrow> all_set_prev l idx idx;
     all_set_next l idx idx }"

definition all_insert_to_next :: "'a array_list \<Rightarrow> nat \<Rightarrow> nat \<Rightarrow> 'a array_list option" where
  "all_insert_to_next l base idx = do {
     next_idx \<leftarrow> all_get_next l base;
     l \<leftarrow> all_set_prev l next_idx idx;
     l \<leftarrow> all_set_next l base idx;
     l \<leftarrow> all_set_next l idx next_idx;
     all_set_prev l idx base }"

definition all_insert_to_prev :: "'a array_list \<Rightarrow> nat \<Rightarrow> nat \<Rightarrow> 'a array_list option" where
  "all_insert_to_prev l base idx = do {
     prev_idx \<leftarrow> all_get_prev l base;
     l \<leftarrow> all_set_next l prev_idx idx;
     l \<leftarrow> all_set_prev l base idx;
     l \<leftarrow> all_set_next l idx base;
     all_set_prev l idx prev_idx }"

definition all_pop :: "'a array_list \<Rightarrow> ('a array_list \<times> 'a option) option" where
  "all_pop l = do {
     l \<leftarrow> all_remove_node l (wsub (length l) 1);
     Some (if l = [] then (l, None) else (butlast l, Some (snd (snd (last l))))) }"

text \<open>The views of the array and the interpretation of the interface.\<close>

definition arr_valid :: "'a array_list \<Rightarrow> nat \<Rightarrow> bool" where
  "arr_valid l i \<longleftrightarrow> i < length l"

definition arr_next :: "'a array_list \<Rightarrow> nat \<Rightarrow> nat" where
  "arr_next l i = (if i < length l then fst (snd (l ! i)) else 0)"

definition arr_prev :: "'a array_list \<Rightarrow> nat \<Rightarrow> nat" where
  "arr_prev l i = (if i < length l then fst (l ! i) else 0)"

lemma arr_set_prev:
  "arr_valid l i \<Longrightarrow> \<exists>l'. all_set_prev l i v = Some l' \<and> arr_valid l' = arr_valid l
     \<and> arr_prev l' = (arr_prev l)(i := v) \<and> arr_next l' = arr_next l \<and> map (snd \<circ> snd) l' = map (snd \<circ> snd) l"
  by (cases "l ! i")
    (auto simp: all_set_prev_def arr_valid_def arr_prev_def arr_next_def fun_eq_iff nth_list_update map_update
      list_update_same_conv)

lemma arr_set_next:
  "arr_valid l i \<Longrightarrow> \<exists>l'. all_set_next l i v = Some l' \<and> arr_valid l' = arr_valid l
     \<and> arr_next l' = (arr_next l)(i := v) \<and> arr_prev l' = arr_prev l \<and> map (snd \<circ> snd) l' = map (snd \<circ> snd) l"
  by (cases "l ! i")
    (auto simp: all_set_next_def arr_valid_def arr_prev_def arr_next_def fun_eq_iff nth_list_update map_update
      list_update_same_conv)

lemma arr_get_next: "arr_valid l i \<Longrightarrow> all_get_next l i = Some (arr_next l i)"
  by (simp add: all_get_next_def arr_valid_def arr_next_def split_def)

lemma arr_get_prev: "arr_valid l i \<Longrightarrow> all_get_prev l i = Some (arr_prev l i)"
  by (simp add: all_get_prev_def arr_valid_def arr_prev_def split_def)

interpretation arr: linked_store arr_valid arr_next arr_prev all_get_next all_get_prev all_set_next all_set_prev
proof
  fix l :: "'a array_list" and i v
  show "arr_valid l i \<Longrightarrow> arr_valid l (arr_next l i) \<Longrightarrow> all_get_next l i = Some (arr_next l i)"
    by (rule arr_get_next)
  show "arr_valid l i \<Longrightarrow> arr_valid l (arr_prev l i) \<Longrightarrow> all_get_prev l i = Some (arr_prev l i)"
    by (rule arr_get_prev)
  show "arr_valid l i \<Longrightarrow> \<exists>s'. all_set_next l i v = Some s' \<and> arr_valid s' = arr_valid l \<and>
      arr_next s' = (arr_next l)(i := v) \<and> arr_prev s' = arr_prev l"
    using arr_set_next by blast
  show "arr_valid l i \<Longrightarrow> \<exists>s'. all_set_prev l i v = Some s' \<and> arr_valid s' = arr_valid l \<and>
      arr_next s' = arr_next l \<and> arr_prev s' = (arr_prev l)(i := v)"
    using arr_set_prev by blast
qed


definition arr_ring :: "'a array_list \<Rightarrow> nat list \<Rightarrow> bool" where
  "arr_ring l xs \<longleftrightarrow> ring (arr_next l) (arr_prev l) xs \<and> (\<forall>x \<in> set xs. x < length l)"

lemma arr_ring_at: "arr.ring_at l xs = arr_ring l xs"
  by (simp add: arr.ring_at_def arr_ring_def arr_valid_def)

lemma arr_items:
  "all_set_prev l i v = Some l' \<Longrightarrow> map (snd \<circ> snd) l' = map (snd \<circ> snd) l"
  "all_set_next l i v = Some l' \<Longrightarrow> map (snd \<circ> snd) l' = map (snd \<circ> snd) l"
  by (cases "i < length l"; cases "l ! i";
      auto simp: all_set_prev_def all_set_next_def map_update list_update_same_conv)+

lemma arr_links_kept_ring:
  "arr.links_kept A l l' \<Longrightarrow> A \<inter> set xs = {} \<Longrightarrow> arr_ring l xs \<Longrightarrow> arr_ring l' xs"
  using arr.ring_at_kept [of A l l' xs] by (simp add: arr_ring_at)

lemma all_remove_node_ring:
  assumes "arr_ring l (xs @ x # ys)" "xs @ ys \<noteq> []"
  obtains l' where "all_remove_node l x = Some l'" "arr_ring l' (xs @ ys)" "arr_ring l' [x]"
    "map (snd \<circ> snd) l' = map (snd \<circ> snd) l" "arr.links_kept (set (xs @ x # ys)) l l'"
proof -
  have r: "arr.ring_at l (xs @ x # ys)" using assms(1) by (simp add: arr_ring_at)
  have v: "arr_valid l x" using r by (simp add: arr.ring_at_def)
  obtain l1 l2 where u: "all_set_prev l (arr_next l x) (arr_prev l x) = Some l1"
    "arr_valid l1 = arr_valid l" "all_set_next l1 (arr_prev l x) (arr_next l x) = Some l2"
    "arr.ring_at l2 (xs @ ys)" "arr.links_kept (set (xs @ ys)) l l2"
    using arr.unlink_calls [OF r assms(2)] by metis
  have "arr_valid l2 x" using u(5) v by (simp add: arr.links_kept_def)
  then obtain l3 l4 where w: "all_set_prev l2 x x = Some l3" "all_set_next l3 x x = Some l4"
    "arr.ring_at l4 [x]" "arr.links_kept {x} l2 l4"
    using arr.self_link_calls by metis
  have "x \<notin> set (xs @ ys)" using r by (auto simp: arr.ring_at_def dest: ring_distinct)
  then have "arr.ring_at l4 (xs @ ys)" using arr.ring_at_kept [OF w(4)] u(4) by simp
  moreover have "arr.links_kept (set (xs @ x # ys)) l l4" using u(5) w(4) by (auto simp: arr.links_kept_def)
  moreover have "all_remove_node l x = Some l4"
    using u w arr_get_next [OF v] arr_get_prev [OF v] by (simp add: all_remove_node_def)
  ultimately show ?thesis
    using that [of l4] w(3) arr_items(1) [OF u(1)] arr_items(2) [OF u(3)] arr_items(1) [OF w(1)]
      arr_items(2) [OF w(2)] by (simp add: arr_ring_at)
qed

lemma all_insert_to_prev_ring:
  assumes "arr_ring l (h # xs)" "x \<notin> set (h # xs)" "x < length l"
  obtains l' where "all_insert_to_prev l h x = Some l'" "arr_ring l' (h # xs @ [x])"
    "map (snd \<circ> snd) l' = map (snd \<circ> snd) l" "arr.links_kept (set (h # xs @ [x])) l l'"
proof -
  have r: "arr.ring_at l (h # xs)" using assms(1) by (simp add: arr_ring_at)
  have v: "arr_valid l h" "arr_valid l x" using r assms(3) by (simp_all add: arr.ring_at_def arr_valid_def)
  obtain l1 l2 l3 l4 where w: "all_set_next l (arr_prev l h) x = Some l1" "all_set_prev l1 h x = Some l2"
    "all_set_next l2 x h = Some l3" "all_set_prev l3 x (arr_prev l h) = Some l4"
    "arr.ring_at l4 (h # xs @ [x])" "arr.links_kept (set (h # xs @ [x])) l l4"
    by (rule arr.splice_calls [OF r assms(2) v(2)]) (rule that)
  then show ?thesis using that [of l4] arr_get_prev [OF v(1)] arr_items(2) [OF w(1)]
      arr_items(1) [OF w(2)] arr_items(2) [OF w(3)] arr_items(1) [OF w(4)]
    by (simp add: all_insert_to_prev_def arr_ring_at)
qed

lemma all_insert_to_next_ring:
  assumes "arr_ring l (h # xs)" "x \<notin> set (h # xs)" "x < length l"
  obtains l' where "all_insert_to_next l h x = Some l'" "arr_ring l' (h # x # xs)"
    "map (snd \<circ> snd) l' = map (snd \<circ> snd) l" "arr.links_kept (set (h # xs @ [x])) l l'"
proof -
  have r: "arr.ring_at l (xs @ [h])"
    using assms(1) ring_rotate [of _ _ "[h]" xs] by (auto simp: arr.ring_at_def arr_ring_def arr_valid_def)
  then have f: "arr.flip.ring_at l (h # rev xs)" using arr.flip_ring_at [of l "xs @ [h]"] by simp
  have v: "arr_valid l h" "arr_valid l x" using r assms(3) by (simp_all add: arr.ring_at_def arr_valid_def)
  have n: "x \<notin> set (h # rev xs)" using assms(2) by simp
  obtain l1 l2 l3 l4 where w: "all_set_prev l (arr_next l h) x = Some l1" "all_set_next l1 h x = Some l2"
    "all_set_next l2 x (arr_next l h) = Some l3" "all_set_prev l3 x h = Some l4"
    "arr.flip.ring_at l4 (h # rev xs @ [x])" "arr.flip.links_kept (set (h # rev xs @ [x])) l l4"
    by (rule arr.flip.splice_calls [OF f n v(2)]) (rule that)
  have "arr.ring_at l4 (x # xs @ [h])" using w(5) arr.flip_ring_at [of l4 "x # xs @ [h]"] by simp
  then have "arr_ring l4 (h # x # xs)"
    using ring_rotate [of _ _ "[h]" "x # xs"] by (auto simp: arr.ring_at_def arr_ring_def arr_valid_def)
  moreover have "arr.links_kept (set (h # xs @ [x])) l l4"
    using w(6) by (simp add: arr.flip_links_kept)
  ultimately show ?thesis using that [of l4] w arr_get_next [OF v(1)] arr_items(1) [OF w(1)]
      arr_items(2) [OF w(2)] arr_items(2) [OF w(3)] arr_items(1) [OF w(4)]
    by (simp add: all_insert_to_next_def)
qed

text \<open>Removing a node of an \<open>ArrayLinkedList\<close> closes the ring over its neighbours in the same order,
  leaves the node linked to itself, and touches neither the items nor the ring of any other nodes.\<close>

theorem array_list_remove_node:
  assumes "arr_ring l (xs @ x # ys)" "xs @ ys \<noteq> []" "arr_ring l zs" "set zs \<inter> set (xs @ x # ys) = {}"
  shows "\<exists>l'. all_remove_node l x = Some l' \<and> arr_ring l' (xs @ ys) \<and> arr_ring l' [x] \<and> arr_ring l' zs
    \<and> map (snd \<circ> snd) l' = map (snd \<circ> snd) l"
proof -
  obtain l' where l': "all_remove_node l x = Some l'" "arr_ring l' (xs @ ys)" "arr_ring l' [x]"
    "map (snd \<circ> snd) l' = map (snd \<circ> snd) l" "arr.links_kept (set (xs @ x # ys)) l l'"
    by (rule all_remove_node_ring [OF assms(1,2)])
  then show ?thesis using arr_links_kept_ring [OF l'(5) _ assms(3)] assms(4) by blast
qed

text \<open>Inserting a free node next to \<open>base\<close> puts it right after \<open>base\<close> in the ring, inserting it to the
  previous side puts it right before, and in both cases the other rings and the items stay.\<close>

theorem array_list_insert:
  assumes "arr_ring l (h # xs)" "x \<notin> set (h # xs)" "x < length l"
    and "arr_ring l zs" "set zs \<inter> set (h # xs @ [x]) = {}"
  shows "(\<exists>l'. all_insert_to_next l h x = Some l' \<and> arr_ring l' (h # x # xs) \<and> arr_ring l' zs
      \<and> map (snd \<circ> snd) l' = map (snd \<circ> snd) l)
    \<and> (\<exists>l'. all_insert_to_prev l h x = Some l' \<and> arr_ring l' (x # h # xs) \<and> arr_ring l' zs
      \<and> map (snd \<circ> snd) l' = map (snd \<circ> snd) l)"
proof -
  obtain l1 where l1: "all_insert_to_next l h x = Some l1" "arr_ring l1 (h # x # xs)"
    "map (snd \<circ> snd) l1 = map (snd \<circ> snd) l" "arr.links_kept (set (h # xs @ [x])) l l1"
    by (rule all_insert_to_next_ring [OF assms(1-3)])
  obtain l2 where l2: "all_insert_to_prev l h x = Some l2" "arr_ring l2 (h # xs @ [x])"
    "map (snd \<circ> snd) l2 = map (snd \<circ> snd) l" "arr.links_kept (set (h # xs @ [x])) l l2"
    by (rule all_insert_to_prev_ring [OF assms(1-3)])
  have dj: "set (h # xs @ [x]) \<inter> set zs = {}" using assms(5) by blast
  have z: "arr_ring l1 zs" "arr_ring l2 zs"
    using arr_links_kept_ring [OF l1(4) dj assms(4)] arr_links_kept_ring [OF l2(4) dj assms(4)] .
  have "arr_ring l2 (x # h # xs)"
    using l2(2) ring_rotate [of "arr_next l2" "arr_prev l2" "h # xs" "[x]"] by (simp add: arr_ring_def)
  then show ?thesis using l1 l2 z by blast
qed

definition demo_list :: "nat array_list" where
  "demo_list = [(2, 1, 7), (0, 2, 8), (1, 0, 9), (3, 3, 5)]"

lemma demo_list_ring: "arr_ring demo_list ([0] @ 1 # [2])" "arr_ring demo_list [3]" "length demo_list = 4"
  by (simp_all add: demo_list_def arr_ring_def ring_def arr_next_def arr_prev_def)

theorem array_list_remove_node_witness:
  "\<exists>l'. all_remove_node demo_list 1 = Some l' \<and> arr_ring l' [0, 2] \<and> arr_ring l' [1] \<and> arr_ring l' [3]"
  using array_list_remove_node [OF demo_list_ring(1) _ demo_list_ring(2)] by auto

theorem array_list_insert_witness:
  "\<exists>l'. all_insert_to_next demo_list 0 3 = Some l' \<and> arr_ring l' [0, 3, 1, 2]"
  using array_list_insert [of demo_list 0 "[1, 2]" 3 "[]"] demo_list_ring by (auto simp: arr_ring_def ring_def)

end
