(* ===== verification/Slab.thy ===== *)
theory Slab
  imports FreeList CircList PageMap
begin

text \<open>
  The slab allocator of one size class (\<open>sc/efficient_sc.rs\<close>) and its slabs (\<open>page/efficient_page.rs\<close>).
  A slab has a header, made by \<open>PG_BUMP\<close>, and pages from the backend that the radix tree maps to the header.
  The slabs are on four rings of headers: full, partial, empty and without pages. The freed objects of a slab
  are chained through their first words. \<open>slab_ok\<close> says what lists the state stands for; the theorems
  say that an allocation takes all the objects of one slab and that a freed batch goes back to the slabs
  its objects came from.
\<close>

section \<open>Headers\<close>

record object_page =
  pcounter :: nat
  pdata :: nat
  pptr :: nat
  pprev :: nat
  pnext :: nat

definition object_page_new :: object_page where
  "object_page_new = \<lparr>pcounter = 0, pdata = 0, pptr = 0, pprev = 0, pnext = 0\<rparr>"

text \<open>The headers by address, the backend with its machine and radix tree, and the allocator of headers.\<close>

type_synonym page_store = "nat \<Rightarrow> object_page"

record world =
  pgs :: page_store
  backend :: free_list
  pgb :: page_bump

definition page_has_next :: "page_store \<Rightarrow> nat \<Rightarrow> bool" where
  "page_has_next st a = (pnext (st a) \<noteq> 0)"

definition page_has_prev :: "page_store \<Rightarrow> nat \<Rightarrow> bool" where
  "page_has_prev st a = (pprev (st a) \<noteq> 0)"

definition page_get_prev :: "page_store \<Rightarrow> nat \<Rightarrow> nat option" where
  "page_get_prev st a = (if pprev (st a) = 0 then None else Some (pprev (st a)))"

definition page_get_next :: "page_store \<Rightarrow> nat \<Rightarrow> nat option" where
  "page_get_next st a = (if pnext (st a) = 0 then None else Some (pnext (st a)))"

definition page_set_prev :: "page_store \<Rightarrow> nat \<Rightarrow> nat \<Rightarrow> page_store" where
  "page_set_prev st a nprev = st(a := (st a)\<lparr>pprev := nprev\<rparr>)"

definition page_set_next :: "page_store \<Rightarrow> nat \<Rightarrow> nat \<Rightarrow> page_store" where
  "page_set_next st a nnext = st(a := (st a)\<lparr>pnext := nnext\<rparr>)"

definition is_inited :: "page_store \<Rightarrow> nat \<Rightarrow> bool" where
  "is_inited st a = (pdata (st a) \<noteq> 0)"

definition is_full :: "page_store \<Rightarrow> nat \<Rightarrow> nat \<Rightarrow> bool" where
  "is_full st a pg_count = (pg_count \<le> pcounter (st a))"

definition is_empty :: "page_store \<Rightarrow> nat \<Rightarrow> bool" where
  "is_empty st a = (pcounter (st a) = 0)"

definition allocate_page :: "world \<Rightarrow> nat \<Rightarrow> nat \<Rightarrow> (world \<times> nat) option" where
  "allocate_page w a pg_num = do {
     (b, ans) \<leftarrow> bsa_alloc (backend w) \<lparr>lsize = wmul PAGE_SIZE pg_num, lalign = 8\<rparr>;
     ensure (ans \<noteq> 0);
     Some (w\<lparr>backend := b, pgs := (pgs w)(a := (pgs w a)\<lparr>pdata := ans, pptr := 0, pcounter := 0\<rparr>)\<rparr>, ans) }"

definition get_data_ptr :: "page_store \<Rightarrow> nat \<Rightarrow> nat option" where
  "get_data_ptr st a = (if pdata (st a) \<noteq> 0 then Some (pdata (st a)) else None)"

definition destroy_page :: "world \<Rightarrow> nat \<Rightarrow> nat \<Rightarrow> (world \<times> nat) option" where
  "destroy_page w a pg_num =
     (if pdata (pgs w a) \<noteq> 0 then do {
        let p = pdata (pgs w a);
        b \<leftarrow> bsa_dealloc (backend w) p \<lparr>lsize = wmul PAGE_SIZE pg_num, lalign = 8\<rparr>;
        Some (w\<lparr>backend := b, pgs := (pgs w)(a := (pgs w a)\<lparr>pdata := 0, pptr := 0, pcounter := 0\<rparr>)\<rparr>, p) }
      else None)"

definition allocate_all :: "page_store \<Rightarrow> nat \<Rightarrow> nat \<Rightarrow> nat \<Rightarrow> page_store \<times> nat \<times> nat \<times> nat option" where
  "allocate_all st a pg_count pg_align =
     (if pcounter (st a) = 0
      then (st(a := (st a)\<lparr>pcounter := pg_count, pptr := 0\<rparr>), pdata (st a), pg_count, Some pg_align)
      else (let to_allocate = wsub pg_count (pcounter (st a)); ans = pptr (st a)
            in (st(a := (st a)\<lparr>pcounter := pg_count, pptr := 0\<rparr>), ans, to_allocate, None)))"

text \<open>The walk over the objects of a freed batch that lie in one slab; \<open>cur\<close> is the last of them.\<close>

partial_function (option) free_walk ::
  "(nat \<Rightarrow> nat) \<Rightarrow> nat \<Rightarrow> nat \<Rightarrow> nat \<Rightarrow> nat \<Rightarrow> (nat \<times> nat \<times> nat) option" where
  "free_walk m base limit cur counter =
     (let next = m cur in
      if next \<ge> base \<and> next < limit then free_walk m base limit next (wadd counter 1)
      else Some (cur, counter, next))"

abbreviation words :: "world \<Rightarrow> nat \<Rightarrow> nat" where
  "words w \<equiv> mem (fl_os (backend w))"

definition set_word :: "world \<Rightarrow> nat \<Rightarrow> nat \<Rightarrow> world" where
  "set_word w a v = w\<lparr>backend := (backend w)\<lparr>fl_os := (fl_os (backend w))\<lparr>mem := (words w)(a := v)\<rparr>\<rparr>\<rparr>"

definition page_deallocate :: "world \<Rightarrow> nat \<Rightarrow> nat \<Rightarrow> nat \<Rightarrow> (world \<times> nat) option" where
  "page_deallocate w a free_ptr pg_num = do {
     let base = pdata (pgs w a);
     ensure (free_ptr \<ge> base);
     ensure (free_ptr < wadd base (wmul pg_num PAGE_SIZE));
     ensure (pcounter (pgs w a) > 0);
     (cur, counter, next) \<leftarrow> free_walk (words w) base (wadd base (wmul pg_num PAGE_SIZE)) free_ptr 1;
     let w = set_word w cur (pptr (pgs w a));
     ensure (pcounter (pgs w a) \<ge> counter);
     Some (w\<lparr>pgs := (pgs w)(a := (pgs w a)\<lparr>pptr := free_ptr, pcounter := pcounter (pgs w a) - counter\<rparr>)\<rparr>, next) }"

section \<open>The allocator of one size class\<close>

record sc_allocator =
  full_start :: nat
  partial_start :: nat
  empty_start :: nat
  uninit_start :: nat
  empty_count :: nat
  pg_num :: nat
  pg_count :: int
  pg_align :: int

text \<open>The conversions between \<open>usize\<close> and \<open>i32\<close>.\<close>

definition as_i32 :: "nat \<Rightarrow> int" where
  "as_i32 n = (let r = int n mod 2 ^ 32 in if r < 2 ^ 31 then r else r - 2 ^ 32)"

definition as_usize :: "int \<Rightarrow> nat" where
  "as_usize i = nat (i mod 2 ^ 64)"

definition sc_new :: "nat \<Rightarrow> nat \<Rightarrow> sc_allocator option" where
  "sc_new class_size num_os_pages =
     (if class_size = 0
      then Some \<lparr>full_start = 0, partial_start = 0, empty_start = 0, uninit_start = 0, empty_count = 0, pg_num = 0,
        pg_count = 0, pg_align = 0\<rparr>
      else do {
        let pg_count = wmul PAGE_SIZE num_os_pages div class_size;
        ensure (pg_count \<noteq> 0);
        let perfect_align = wmul PAGE_SIZE num_os_pages div pg_count;
        let diff_align = wsub perfect_align class_size;
        let min_align = (if next_power_of_two diff_align div 2 = 0 then 1 else next_power_of_two diff_align div 2);
        let rem = (if class_size mod min_align = 0 then class_size else wmul (class_size div min_align + 1) min_align);
        let algn = (if is_pow2 perfect_align then perfect_align else rem);
        Some \<lparr>full_start = 0, partial_start = 0, empty_start = 0, uninit_start = 0, empty_count = 0,
          pg_num = num_os_pages, pg_count = as_i32 pg_count, pg_align = as_i32 algn\<rparr> })"

text \<open>The rings. The four lists are handled alike, so the calls are written once, for a head.\<close>

definition ring_unlink_calls :: "page_store \<Rightarrow> nat \<Rightarrow> (page_store \<times> nat) option" where
  "ring_unlink_calls st idx = do {
     prev \<leftarrow> page_get_prev st idx;
     n \<leftarrow> page_get_next st idx;
     let st = page_set_prev st n prev;
     next \<leftarrow> page_get_next st idx;
     p \<leftarrow> page_get_prev st idx;
     Some (page_set_next st p next, next) }"

definition ring_remove :: "page_store \<Rightarrow> nat \<Rightarrow> nat \<Rightarrow> (page_store \<times> nat) option" where
  "ring_remove st head idx = do {
     ensure (head \<noteq> 0);
     n \<leftarrow> page_get_next st head;
     if n = head then do { ensure (idx = head); Some (st, 0) }
     else do {
       (st, next) \<leftarrow> ring_unlink_calls st idx;
       Some (st, if head = idx then next else head) } }"

definition ring_insert :: "page_store \<Rightarrow> nat \<Rightarrow> nat \<Rightarrow> (page_store \<times> nat) option" where
  "ring_insert st head idx =
     (if head \<noteq> 0 then do {
        prev \<leftarrow> page_get_prev st head;
        let st = page_set_prev st idx prev;
        let st = page_set_next st idx head;
        let st = page_set_next st prev idx;
        Some (page_set_prev st head idx, head) }
      else Some (page_set_next (page_set_prev st idx idx) idx idx, idx))"

definition remove_full :: "sc_allocator \<Rightarrow> page_store \<Rightarrow> nat \<Rightarrow> (sc_allocator \<times> page_store) option" where
  "remove_full sc st idx = do { (st, h) \<leftarrow> ring_remove st (full_start sc) idx; Some (sc\<lparr>full_start := h\<rparr>, st) }"

definition insert_full :: "sc_allocator \<Rightarrow> page_store \<Rightarrow> nat \<Rightarrow> (sc_allocator \<times> page_store) option" where
  "insert_full sc st idx = do { (st, h) \<leftarrow> ring_insert st (full_start sc) idx; Some (sc\<lparr>full_start := h\<rparr>, st) }"

definition insert_partial :: "sc_allocator \<Rightarrow> page_store \<Rightarrow> nat \<Rightarrow> (sc_allocator \<times> page_store) option" where
  "insert_partial sc st idx = do { (st, h) \<leftarrow> ring_insert st (partial_start sc) idx; Some (sc\<lparr>partial_start := h\<rparr>, st) }"

definition remove_partial :: "sc_allocator \<Rightarrow> page_store \<Rightarrow> nat \<Rightarrow> (sc_allocator \<times> page_store) option" where
  "remove_partial sc st idx = do { (st, h) \<leftarrow> ring_remove st (partial_start sc) idx; Some (sc\<lparr>partial_start := h\<rparr>, st) }"

definition remove_uninit :: "sc_allocator \<Rightarrow> page_store \<Rightarrow> (sc_allocator \<times> page_store \<times> nat) option" where
  "remove_uninit sc st = do {
     let uninit_head = uninit_start sc;
     (st, h) \<leftarrow> ring_remove st uninit_head uninit_head;
     Some (sc\<lparr>uninit_start := h\<rparr>, st, uninit_head) }"

definition remove_empty :: "sc_allocator \<Rightarrow> page_store \<Rightarrow> (sc_allocator \<times> page_store \<times> nat) option" where
  "remove_empty sc st = do {
     ensure (empty_start sc \<noteq> 0);
     ensure (empty_count sc > 0);
     let ety_head = empty_start sc;
     (st, next) \<leftarrow> ring_unlink_calls st ety_head;
     Some (sc\<lparr>empty_start := (if empty_count sc > 1 then next else 0), empty_count := empty_count sc - 1\<rparr>, st, ety_head) }"

definition get_uninit :: "sc_allocator \<Rightarrow> world \<Rightarrow> (sc_allocator \<times> world \<times> nat \<times> nat) option" where
  "get_uninit sc w =
     (if uninit_start sc \<noteq> 0 then do {
        (sc, st, res) \<leftarrow> remove_uninit sc (pgs w);
        (w, ptr) \<leftarrow> allocate_page (w\<lparr>pgs := st\<rparr>) res (pg_num sc);
        Some (sc, w, res, ptr) }
      else do {
        (m, pb, memory) \<leftarrow> page_bump_alloc (fl_os (backend w)) (pgb w) OBJECT_PAGE_BYTES;
        ensure (memory \<noteq> 0);
        let w = w\<lparr>backend := (backend w)\<lparr>fl_os := m\<rparr>, pgb := pb, pgs := (pgs w)(memory := object_page_new)\<rparr>;
        (w, ptr) \<leftarrow> allocate_page w memory (pg_num sc);
        Some (sc, w, memory, ptr) })"

definition get_empty :: "sc_allocator \<Rightarrow> world \<Rightarrow> (sc_allocator \<times> world \<times> nat \<times> nat option) option" where
  "get_empty sc w =
     (if empty_start sc \<noteq> 0 then do {
        (sc, st, res) \<leftarrow> remove_empty sc (pgs w);
        Some (sc, w\<lparr>pgs := st\<rparr>, res, None) }
      else do { (sc, w, res, ptr) \<leftarrow> get_uninit sc w; Some (sc, w, res, Some ptr) })"

definition insert_uninit :: "sc_allocator \<Rightarrow> world \<Rightarrow> nat \<Rightarrow> (sc_allocator \<times> world \<times> nat) option" where
  "insert_uninit sc w idx = do {
     (st, h) \<leftarrow> ring_insert (pgs w) (uninit_start sc) idx;
     (w, p) \<leftarrow> destroy_page (w\<lparr>pgs := st\<rparr>) idx (pg_num sc);
     Some (sc\<lparr>uninit_start := h\<rparr>, w, p) }"

definition try_insert_ety :: "sc_allocator \<Rightarrow> page_store \<Rightarrow> nat \<Rightarrow> nat option option" where
  "try_insert_ety sc st idx =
     (if empty_count sc > 2048 then do { ptr \<leftarrow> get_data_ptr st idx; Some (Some ptr) } else Some None)"

definition insert_ety :: "sc_allocator \<Rightarrow> world \<Rightarrow> nat \<Rightarrow> (sc_allocator \<times> world \<times> nat option) option" where
  "insert_ety sc w idx =
     (if empty_count sc > 2048 then do { (sc, w, ptr) \<leftarrow> insert_uninit sc w idx; Some (sc, w, Some ptr) }
      else do {
        (st, h) \<leftarrow> ring_insert (pgs w) (empty_start sc) idx;
        Some (sc\<lparr>empty_start := h, empty_count := wadd (empty_count sc) 1\<rparr>, w\<lparr>pgs := st\<rparr>, None) })"

definition set_rd_tree :: "world \<Rightarrow> radix_tree \<Rightarrow> world" where
  "set_rd_tree w t = w\<lparr>backend := (backend w)\<lparr>rd_tree := t\<rparr>\<rparr>"

definition allocate_batch_v2 ::
  "sc_allocator \<Rightarrow> world \<Rightarrow> nat \<Rightarrow> (sc_allocator \<times> world \<times> nat \<times> nat \<times> nat option) option" where
  "allocate_batch_v2 sc w align =
     (if partial_start sc \<noteq> 0 \<and> align = 1 then do {
        let idx = partial_start sc;
        let (st, ans) = allocate_all (pgs w) idx (as_usize (pg_count sc)) (as_usize (pg_align sc));
        (sc, st) \<leftarrow> remove_partial sc st idx;
        (sc, st) \<leftarrow> insert_full sc st idx;
        Some (sc, w\<lparr>pgs := st\<rparr>, ans) }
      else do {
        (sc, w, obj, new_page) \<leftarrow> get_empty sc w;
        let (st, ans) = allocate_all (pgs w) obj (as_usize (pg_count sc)) (as_usize (pg_align sc));
        t \<leftarrow> (case new_page of
            Some addr \<Rightarrow> handle_rd_tree_insert (radix_insert None) (pg_num sc) (rd_tree (backend w)) obj addr
          | None \<Rightarrow> Some (rd_tree (backend w)));
        let w = set_rd_tree w t;
        (sc, st) \<leftarrow> insert_full sc st obj;
        Some (sc, w\<lparr>pgs := st\<rparr>, ans) })"

text \<open>One turn of the loop of \<open>deallocate_batch\<close>, and the loop.\<close>

definition deallocate_turn :: "sc_allocator \<Rightarrow> world \<Rightarrow> nat \<Rightarrow> (sc_allocator \<times> world \<times> nat) option" where
  "deallocate_turn sc w head = do {
     let page_vaddr = align_12k head;
     v \<leftarrow> radix_get_mut (rd_tree (backend w)) (wshl page_vaddr 16);
     let idx = nat (v AND (2 ^ 48 - 1));
     ensure (idx \<noteq> 0);
     let back_partial = is_full (pgs w) idx (as_usize (pg_count sc));
     (w, head) \<leftarrow> page_deallocate w idx head (pg_num sc);
     if is_empty (pgs w) idx then do {
       (sc, st) \<leftarrow> (if back_partial then remove_full sc (pgs w) idx else remove_partial sc (pgs w) idx);
       found \<leftarrow> try_insert_ety sc st idx;
       t \<leftarrow> (case found of
           Some p \<Rightarrow> handle_rd_tree_remove radix_remove (pg_num sc) (rd_tree (backend w)) p
         | None \<Rightarrow> Some (rd_tree (backend w)));
       (sc, w, p) \<leftarrow> insert_ety sc (set_rd_tree (w\<lparr>pgs := st\<rparr>) t) idx;
       Some (sc, w, head) }
     else if back_partial then do {
       (sc, st) \<leftarrow> remove_full sc (pgs w) idx;
       (sc, st) \<leftarrow> insert_partial sc st idx;
       Some (sc, w\<lparr>pgs := st\<rparr>, head) }
     else Some (sc, w, head) }"

partial_function (option) deallocate_batch :: "sc_allocator \<Rightarrow> world \<Rightarrow> nat \<Rightarrow> (sc_allocator \<times> world) option" where
  "deallocate_batch sc w head =
     (if head \<noteq> 0 then do {
        (sc, w, head) \<leftarrow> deallocate_turn sc w head;
        deallocate_batch sc w head }
      else Some (sc, w))"

section \<open>The objects of a slab fit in its pages\<close>

lemma i32_round: "n < 2 ^ 31 \<Longrightarrow> as_usize (as_i32 n) = n"
  by (simp add: as_usize_def as_i32_def)

lemma half_pow2:
  assumes "d < 2 ^ 32"
  defines "m \<equiv> (if next_power_of_two d div 2 = 0 then 1 else next_power_of_two d div 2)"
  shows "0 < m \<and> (m = 1 \<or> m < d)"
proof (cases "d \<le> 1")
  case True
  then show ?thesis by (simp add: m_def next_power_of_two_def)
next
  case False
  then have d: "0 < d - 1" by simp
  note b = bit_length_bounds [OF d]
  have "bit_length (d - 1) \<le> 32" using assms(1) by (intro bit_length_le) simp
  then have lt: "(2::nat) ^ bit_length (d - 1) < 2 ^ 64" by (intro power_strict_increasing) auto
  have "bit_length (d - 1) \<noteq> 0" using bit_length_pos [OF d] by simp
  then obtain k where k: "bit_length (d - 1) = Suc k" using not0_implies_Suc by blast
  have "next_power_of_two d = 2 * 2 ^ k" using False lt k by (simp add: next_power_of_two_def)
  then have "m = 2 ^ k" by (simp add: m_def)
  then show ?thesis using b k d by auto
qed

lemma round_up_bound:
  assumes "0 < m" "s mod m \<noteq> 0"
  shows "s \<le> (s div m + 1) * m \<and> (s div m + 1) * m < s + (m::nat)"
  using assms dividend_less_div_times [OF assms(1), of s] div_mult_mod_eq [of s m]
  unfolding add_mult_distrib mult_1 by linarith

lemma sc_new_fits:
  assumes "0 < s" and "s \<le> 4096 * n" and "n \<le> 2 ^ 18"
  shows "\<exists>sc. sc_new s n = Some sc \<and> pg_num sc = n \<and> as_usize (pg_count sc) = 4096 * n div s
    \<and> 0 < as_usize (pg_count sc) \<and> s \<le> as_usize (pg_align sc)
    \<and> as_usize (pg_count sc) * as_usize (pg_align sc) \<le> 4096 * n"
proof -
  define T where "T = 4096 * n"
  define c where "c = T div s"
  define P where "P = T div c"
  define m where "m = (if next_power_of_two (P - s) div 2 = 0 then 1 else next_power_of_two (P - s) div 2)"
  define r where "r = (if s mod m = 0 then s else (s div m + 1) * m)"
  have T: "T \<le> 2 ^ 30" "s \<le> T" using assms by (simp_all add: T_def)
  have c: "0 < c" "c \<le> T" using assms(1) T(2) by (simp_all add: c_def div_greater_zero_iff)
  have cs: "c * s \<le> T" by (simp add: c_def)
  have P: "s \<le> P" "P \<le> T" "c * P \<le> T" using cs c(1)
    by (simp_all add: P_def less_eq_div_iff_mult_less_eq mult.commute)
  have d: "P - s < 2 ^ 32" using P T by simp
  have m: "0 < m" "m = 1 \<or> m < P - s" using half_pow2 [OF d] unfolding m_def by auto
  have r: "s \<le> r" "r \<le> P"
  proof -
    have "s \<le> r \<and> r \<le> P"
    proof (cases "s mod m = 0")
      case True
      then show ?thesis using P(1) by (simp add: r_def)
    next
      case False
      then have "m < P - s" using m by auto
      moreover have "r = (s div m + 1) * m" using False by (simp only: r_def if_False)
      ultimately show ?thesis using round_up_bound [OF m(1) False, THEN conjunct1]
          round_up_bound [OF m(1) False, THEN conjunct2] by (intro conjI) linarith+
    qed
    then show "s \<le> r" "r \<le> P" by auto
  qed
  define a where "a = (if is_pow2 P then P else r)"
  have a: "s \<le> a" "a \<le> P" using r P(1) by (auto simp: a_def)
  have lim: "c < 2 ^ 31" "a < 2 ^ 31" using c(2) a(2) P(2) T(1) by auto
  have w: "wmul PAGE_SIZE n = T" using assms(3) by (simp add: T_def PAGE_SIZE_def)
  have w2: "wsub P s = P - s" by (intro wsub_exact) (use P T in simp_all)
  have w3: "s mod m \<noteq> 0 \<Longrightarrow> wmul (s div m + 1) m = (s div m + 1) * m"
  proof -
    assume "s mod m \<noteq> 0"
    then have "(s div m + 1) * m \<le> P" using r(2) by (simp add: r_def)
    then have "(s div m + 1) * m < 2 ^ 64" using P(2) T(1) by simp
    then show ?thesis by (rule wmul_exact)
  qed
  define sc where "sc = \<lparr>full_start = 0, partial_start = 0, empty_start = 0, uninit_start = 0, empty_count = 0,
    pg_num = n, pg_count = as_i32 c, pg_align = as_i32 a\<rparr>"
  have re: "(if s mod m = 0 then s else wmul (s div m + 1) m) = r" using w3 unfolding r_def by auto
  have "s \<noteq> 0" "c \<noteq> 0" using assms(1) c(1) by auto
  then have "sc_new s n = Some sc"
    unfolding sc_new_def Let_def w c_def [symmetric] P_def [symmetric] w2 m_def [symmetric] re a_def [symmetric]
    by (simp add: sc_def)
  moreover have "c * a \<le> T" using mult_le_mono2 [OF a(2), of c] P(3) by linarith
  ultimately show ?thesis using a(1) c(1) i32_round [OF lim(1)] i32_round [OF lim(2)]
    by (simp add: sc_def T_def c_def)
qed

text \<open>C33: For every size class that is at most a slab, the objects that a slab is cut into are at least as large as the
  class, and all \<open>pg_count\<close> of them at stride \<open>pg_align\<close> lie inside the pages of the slab.\<close>

theorem sc_new_objects_fit:
  assumes "0 < s" and "s \<le> 4096 * n" and "n \<le> 2 ^ 18"
  shows "\<exists>sc. sc_new s n = Some sc \<and> pg_num sc = n \<and> as_usize (pg_count sc) = 4096 * n div s
    \<and> 0 < as_usize (pg_count sc) \<and> s \<le> as_usize (pg_align sc)
    \<and> as_usize (pg_count sc) * as_usize (pg_align sc) \<le> 4096 * n"
  using assms by (rule sc_new_fits)

lemma sc_new_objects_fit_witness:
  "\<exists>sc. sc_new 48 2 = Some sc \<and> as_usize (pg_count sc) = 170 \<and> 48 \<le> as_usize (pg_align sc)
    \<and> 170 * as_usize (pg_align sc) \<le> 8192"
  using sc_new_objects_fit [of 48 2] by auto

section \<open>Rings of headers\<close>

definition first :: "nat list \<Rightarrow> nat" where
  "first xs = (case xs of [] \<Rightarrow> 0 | x # _ \<Rightarrow> x)"

definition nonzero :: "page_store \<Rightarrow> nat \<Rightarrow> bool" where
  "nonzero st a \<longleftrightarrow> a \<noteq> 0"

definition next_link :: "page_store \<Rightarrow> nat \<Rightarrow> nat" where
  "next_link st a = pnext (st a)"

definition prev_link :: "page_store \<Rightarrow> nat \<Rightarrow> nat" where
  "prev_link st a = pprev (st a)"

text \<open>What a header holds beside its links.\<close>

definition payload :: "page_store \<Rightarrow> nat \<Rightarrow> nat \<times> nat \<times> nat" where
  "payload st a = (pcounter (st a), pdata (st a), pptr (st a))"

interpretation pages: linked_store nonzero next_link prev_link page_get_next page_get_prev
  "\<lambda>st a v. Some (page_set_next st a v)" "\<lambda>st a v. Some (page_set_prev st a v)"
proof
  fix st :: page_store and i v
  show "nonzero st i \<Longrightarrow> nonzero st (next_link st i) \<Longrightarrow> page_get_next st i = Some (next_link st i)"
    by (simp add: nonzero_def next_link_def page_get_next_def)
  show "nonzero st i \<Longrightarrow> nonzero st (prev_link st i) \<Longrightarrow> page_get_prev st i = Some (prev_link st i)"
    by (simp add: nonzero_def prev_link_def page_get_prev_def)
  show "nonzero st i \<Longrightarrow> \<exists>st'. Some (page_set_next st i v) = Some st' \<and> nonzero st' = nonzero st
      \<and> next_link st' = (next_link st)(i := v) \<and> prev_link st' = prev_link st"
    by (intro exI [of _ "page_set_next st i v"])
      (simp add: nonzero_def next_link_def prev_link_def page_set_next_def fun_eq_iff)
  show "nonzero st i \<Longrightarrow> \<exists>st'. Some (page_set_prev st i v) = Some st' \<and> nonzero st' = nonzero st
      \<and> next_link st' = next_link st \<and> prev_link st' = (prev_link st)(i := v)"
    by (intro exI [of _ "page_set_prev st i v"])
      (simp add: nonzero_def next_link_def prev_link_def page_set_prev_def fun_eq_iff)
qed

lemma payload_links [simp]:
  "payload (page_set_next st a v) = payload st" "payload (page_set_prev st a v) = payload st"
  by (auto simp: payload_def page_set_next_def page_set_prev_def fun_eq_iff)

lemma unlink_calls_ok:
  assumes "pages.ring_at st (us @ x # vs)" "us @ vs \<noteq> []"
  obtains st' where "ring_unlink_calls st x = Some (st', next_link st x)" "pages.ring_at st' (us @ vs)"
    "pages.links_kept (set (us @ vs)) st st'" "payload st' = payload st"
proof -
  have x: "x \<in> set (us @ x # vs)" by simp
  note g = pages.ring_gets [OF assms(1) x]
  obtain s1 s2 where s: "Some (page_set_prev st (next_link st x) (prev_link st x)) = Some s1"
    "nonzero s1 = nonzero st" "next_link s1 x = next_link st x" "prev_link s1 x = prev_link st x"
    "Some (page_set_next s1 (prev_link st x) (next_link st x)) = Some s2"
    "pages.ring_at s2 (us @ vs)" "pages.links_kept (set (us @ vs)) st s2"
    by (rule pages.unlink_calls [OF assms]) (rule that)
  have "page_get_next s1 x = Some (next_link st x)" "page_get_prev s1 x = Some (prev_link st x)"
    using s(3,4) pages.ring_at_neighbours [OF assms(1) x]
    by (auto simp: page_get_next_def page_get_prev_def next_link_def prev_link_def nonzero_def)
  then have "ring_unlink_calls st x = Some (s2, next_link st x)"
    using g s(1,5) by (auto simp: ring_unlink_calls_def Let_def)
  then show ?thesis using that s by auto
qed

lemma first_append: "us \<noteq> [] \<Longrightarrow> first (us @ vs) = first us"
  by (cases us) (auto simp: first_def)

lemma ring_next_first: "pages.ring_at st (x # vs) \<Longrightarrow> vs \<noteq> [] \<Longrightarrow> next_link st x = first vs"
  using ring_head(1) [of "next_link st" "prev_link st" x vs] by (cases vs) (auto simp: pages.ring_at_def first_def)

text \<open>Removing a header from its ring, the other rings in place.\<close>

lemma ring_remove_ok:
  assumes r: "pages.ring_at st xs" and x: "x \<in> set xs"
  obtains st' where "ring_remove st (first xs) x = Some (st', first (remove1 x xs))"
    "pages.ring_at st' (remove1 x xs)" "pages.links_kept (set xs) st st'" "payload st' = payload st"
proof -
  obtain h ys where xs: "xs = h # ys" using x by (cases xs) auto
  have dist: "distinct xs" using r by (auto simp: pages.ring_at_def dest: ring_distinct)
  have h: "h \<in> set xs" "h \<noteq> 0" using r by (auto simp: xs pages.ring_at_def nonzero_def)
  note g = pages.ring_gets [OF r h(1)]
  show ?thesis
  proof (cases "ys = []")
    case True
    then have "next_link st h = h" "x = h" using r x by (auto simp: pages.ring_at_def xs)
    then have "ring_remove st (first xs) x = Some (st, first (remove1 x xs))"
      using g h(2) by (simp add: ring_remove_def xs first_def True)
    then show ?thesis using that [of st] True \<open>x = h\<close>
      by (simp add: xs pages.ring_at_def ring_def pages.links_kept_def)
  next
    case False
    have nx: "next_link st h = first ys" using ring_next_first r False xs by simp
    have nh: "next_link st h \<noteq> h" unfolding nx using False dist xs by (cases ys) (auto simp: first_def)
    obtain us vs where s: "xs = us @ x # vs" using x by (meson split_list)
    have ne: "us @ vs \<noteq> []" using s xs False by (cases us) auto
    have rm: "remove1 x xs = us @ vs" using s dist by (simp add: remove1_append)
    obtain st' where u: "ring_unlink_calls st x = Some (st', next_link st x)" "pages.ring_at st' (us @ vs)"
      "pages.links_kept (set (us @ vs)) st st'" "payload st' = payload st"
      by (rule unlink_calls_ok [OF r [unfolded s] ne])
    have k: "pages.links_kept (set xs) st st'" using u(3) s by (auto simp: pages.links_kept_def)
    have "(if h = x then next_link st x else h) = first (us @ vs)"
    proof (cases us)
      case Nil
      then show ?thesis using s xs nx by auto
    next
      case (Cons u us')
      then have "h = u" "x \<noteq> h" using s xs dist by auto
      then show ?thesis using Cons by (simp add: first_def)
    qed
    then have "ring_remove st (first xs) x = Some (st', first (remove1 x xs))"
      using g(1) h(2) nh u(1) rm by (simp add: ring_remove_def xs first_def [of "h # ys"])
    then show ?thesis using that u(2,4) k rm by simp
  qed
qed

lemma ring_insert_ok:
  assumes r: "pages.ring_at st xs" and x: "x \<notin> set xs" "x \<noteq> 0"
  obtains st' where "ring_insert st (first xs) x = Some (st', first (xs @ [x]))"
    "pages.ring_at st' (xs @ [x])" "pages.links_kept (insert x (set xs)) st st'" "payload st' = payload st"
proof (cases xs)
  case Nil
  have v: "nonzero st x" using x by (simp add: nonzero_def)
  obtain s1 s2 where "Some (page_set_prev st x x) = Some s1" "Some (page_set_next s1 x x) = Some s2"
    "pages.ring_at s2 [x]" "pages.links_kept {x} st s2"
    using pages.self_link_calls [OF v] by metis
  then show ?thesis using that [of s2] Nil by (auto simp: ring_insert_def first_def)
next
  case (Cons h ys)
  have v: "nonzero st x" using x by (simp add: nonzero_def)
  have h: "h \<in> set xs" "h \<noteq> 0" using r by (auto simp: Cons pages.ring_at_def nonzero_def)
  obtain s1 s2 s3 s4 where s: "Some (page_set_prev st x (prev_link st h)) = Some s1" "Some (page_set_next s1 x h) = Some s2"
    "prev_link s1 h = prev_link st h" "prev_link s2 h = prev_link st h" "nonzero s1 = nonzero st" "nonzero s2 = nonzero st"
    "nonzero s3 = nonzero st"
    "Some (page_set_next s2 (prev_link st h) x) = Some s3" "Some (page_set_prev s3 h x) = Some s4"
    "pages.ring_at s4 (h # ys @ [x])" "pages.links_kept (set (h # ys @ [x])) st s4"
    by (rule pages.link_calls [OF r [unfolded Cons] x(1) [unfolded Cons] v]) (rule that)
  have "ring_insert st (first xs) x = Some (s4, first (xs @ [x]))"
    using pages.ring_gets(2) [OF r h(1)] h(2) s(1,2,8,9) by (auto simp: ring_insert_def Cons first_def Let_def)
  moreover have "payload s4 = payload st" using s(1,2,8,9) by auto
  ultimately show ?thesis using that s(10,11) Cons by (simp add: insert_commute)
qed

section \<open>What a state stands for\<close>

text \<open>The four rings from their heads on, and the chain of free objects of each slab.\<close>

record slabs =
  fulls :: "nat list"
  partials :: "nat list"
  empties :: "nat list"
  uninits :: "nat list"
  frees :: "nat \<Rightarrow> nat list"

definition all_slabs :: "slabs \<Rightarrow> nat list" where
  "all_slabs g = fulls g @ partials g @ empties g @ uninits g"

definition owned :: "slabs \<Rightarrow> nat set" where
  "owned g = set (fulls g) \<union> set (partials g) \<union> set (empties g)"

definition rings_ok :: "sc_allocator \<Rightarrow> page_store \<Rightarrow> slabs \<Rightarrow> bool" where
  "rings_ok sc st g \<longleftrightarrow> pages.ring_at st (fulls g) \<and> pages.ring_at st (partials g) \<and> pages.ring_at st (empties g)
     \<and> pages.ring_at st (uninits g) \<and> full_start sc = first (fulls g) \<and> partial_start sc = first (partials g)
     \<and> empty_start sc = first (empties g) \<and> uninit_start sc = first (uninits g)
     \<and> empty_count sc = length (empties g) \<and> distinct (all_slabs g)"

definition in_slab :: "page_store \<Rightarrow> nat \<Rightarrow> nat \<Rightarrow> nat \<Rightarrow> bool" where
  "in_slab st n h x \<longleftrightarrow> pdata (st h) \<le> x \<and> x < pdata (st h) + n"

text \<open>A slab of \<open>N\<close> objects on \<open>n\<close> bytes: the objects that are not handed out are chained from \<open>ptr\<close>.\<close>

definition page_ok :: "page_store \<Rightarrow> (nat \<Rightarrow> nat) \<Rightarrow> nat \<Rightarrow> nat \<Rightarrow> nat list \<Rightarrow> nat \<Rightarrow> bool" where
  "page_ok st m N n fs h \<longleftrightarrow> pdata (st h) \<noteq> 0 \<and> pdata (st h) mod 4096 = 0 \<and> pdata (st h) + n \<le> 2 ^ 48
     \<and> pcounter (st h) + length fs = N \<and> chain m (pptr (st h)) fs 0 \<and> distinct fs \<and> (\<forall>x \<in> set fs. in_slab st n h x)"

definition base_ok :: "nat \<Rightarrow> nat \<Rightarrow> page_store \<Rightarrow> (nat \<Rightarrow> nat) \<Rightarrow> radix_tree \<Rightarrow> slabs \<Rightarrow> bool" where
  "base_ok N n st m t g \<longleftrightarrow>
     (\<forall>h \<in> owned g. page_ok st m N n (frees g h) h \<and> h < 2 ^ 48
        \<and> (\<forall>x. in_slab st n h x \<longrightarrow> radix_view t (x div 4096) = int h))
     \<and> (\<forall>h \<in> owned g. \<forall>h' \<in> owned g. h \<noteq> h' \<longrightarrow> apart (pdata (st h), n) (pdata (st h'), n))"

definition kinds_ok :: "nat \<Rightarrow> page_store \<Rightarrow> slabs \<Rightarrow> bool" where
  "kinds_ok N st g \<longleftrightarrow> (\<forall>h \<in> set (fulls g). pcounter (st h) = N)
     \<and> (\<forall>h \<in> set (partials g). 0 < pcounter (st h) \<and> pcounter (st h) < N)
     \<and> (\<forall>h \<in> set (empties g). pcounter (st h) = 0)"

definition config_ok :: "sc_allocator \<Rightarrow> bool" where
  "config_ok sc \<longleftrightarrow> 0 < as_usize (pg_count sc) \<and> as_usize (pg_count sc) < 2 ^ 32 \<and> 0 < pg_num sc \<and> pg_num sc \<le> 2 ^ 12"

definition slab_ok :: "sc_allocator \<Rightarrow> world \<Rightarrow> slabs \<Rightarrow> bool" where
  "slab_ok sc w g \<longleftrightarrow> config_ok sc \<and> rings_ok sc (pgs w) g
     \<and> base_ok (as_usize (pg_count sc)) (4096 * pg_num sc) (pgs w) (words w) (rd_tree (backend w)) g
     \<and> kinds_ok (as_usize (pg_count sc)) (pgs w) g"

lemma payload_eq:
  "payload st' = payload st \<Longrightarrow> pcounter (st' h) = pcounter (st h) \<and> pdata (st' h) = pdata (st h) \<and> pptr (st' h) = pptr (st h)"
  unfolding payload_def fun_eq_iff by blast

lemma base_ok_payload: "payload st' = payload st \<Longrightarrow> base_ok N n st' m t g = base_ok N n st m t g"
  using payload_eq [of st' st] by (simp add: base_ok_def page_ok_def in_slab_def)

lemma kinds_ok_payload: "payload st' = payload st \<Longrightarrow> kinds_ok N st' g = kinds_ok N st g"
  using payload_eq [of st' st] by (simp add: kinds_ok_def)

lemma base_ok_lists: "owned g' = owned g \<Longrightarrow> frees g' = frees g \<Longrightarrow> base_ok N n st m t g' = base_ok N n st m t g"
  by (simp add: base_ok_def)

section \<open>Moving slabs between the rings\<close>

text \<open>No header outside \<open>A\<close> changes.\<close>

definition headers_kept :: "nat set \<Rightarrow> page_store \<Rightarrow> page_store \<Rightarrow> bool" where
  "headers_kept A st st' \<longleftrightarrow> (\<forall>k. k \<notin> A \<longrightarrow> st' k = st k)"

lemma headers_kept_refl [simp]: "headers_kept A st st"
  by (simp add: headers_kept_def)

lemma headers_kept_trans: "headers_kept A st st1 \<Longrightarrow> headers_kept B st1 st2 \<Longrightarrow> A \<subseteq> C \<Longrightarrow> B \<subseteq> C \<Longrightarrow> headers_kept C st st2"
  unfolding headers_kept_def by (metis subsetD)

lemma headers_kept_steps:
  "headers_kept A st st1 \<Longrightarrow> headers_kept A st1 st2 \<Longrightarrow> headers_kept A st2 st3 \<Longrightarrow> headers_kept A st st3"
  by (simp add: headers_kept_def)

lemma headers_kept_mono: "headers_kept A st st' \<Longrightarrow> A \<subseteq> B \<Longrightarrow> headers_kept B st st'"
  unfolding headers_kept_def by blast

lemma headers_kept_upd: "h \<in> A \<Longrightarrow> headers_kept A st (st(h := v))"
  by (simp add: headers_kept_def)

lemma links_headers_kept:
  assumes "pages.links_kept A st st'" and "payload st' = payload st" and "A \<subseteq> B"
  shows "headers_kept B st st'"
proof -
  have "st' k = st k" if k: "k \<notin> A" for k
  proof (rule object_page.equality)
    have "next_link st' k = next_link st k" "prev_link st' k = prev_link st k"
      using assms(1) k by (auto simp: pages.links_kept_def)
    then show "pnext (st' k) = pnext (st k)" "pprev (st' k) = pprev (st k)" by (simp_all add: next_link_def prev_link_def)
  qed (use payload_eq [OF assms(2), of k] in simp_all)
  then show ?thesis using assms(3) by (auto simp: headers_kept_def)
qed

text \<open>Two states of the allocator of one class.\<close>

definition same_class :: "sc_allocator \<Rightarrow> sc_allocator \<Rightarrow> bool" where
  "same_class sc sc' \<longleftrightarrow> pg_num sc' = pg_num sc \<and> pg_count sc' = pg_count sc \<and> pg_align sc' = pg_align sc"

lemma same_class_refl [simp]: "same_class sc sc"
  by (simp add: same_class_def)

lemma same_class_trans: "same_class sc sc1 \<Longrightarrow> same_class sc1 sc2 \<Longrightarrow> same_class sc sc2"
  by (simp add: same_class_def)

text \<open>The links change only in one ring, so the others stay.\<close>

lemma kept_disjoint:
  "pages.links_kept A st st' \<Longrightarrow> A \<inter> set ys = {} \<Longrightarrow> pages.ring_at st ys \<Longrightarrow> pages.ring_at st' ys"
  using pages.ring_at_kept by blast

lemma remove_full_ok:
  assumes "rings_ok sc st g" and "h \<in> set (fulls g)"
  obtains st' where "remove_full sc st h = Some (sc\<lparr>full_start := first (remove1 h (fulls g))\<rparr>, st')"
    "rings_ok (sc\<lparr>full_start := first (remove1 h (fulls g))\<rparr>) st' (g\<lparr>fulls := remove1 h (fulls g)\<rparr>)"
    "payload st' = payload st" "headers_kept (owned g) st st'"
proof -
  obtain st' where r: "ring_remove st (first (fulls g)) h = Some (st', first (remove1 h (fulls g)))"
    "pages.ring_at st' (remove1 h (fulls g))" "pages.links_kept (set (fulls g)) st st'" "payload st' = payload st"
    using ring_remove_ok [OF _ assms(2)] assms(1) unfolding rings_ok_def by metis
  have d: "distinct (all_slabs g)" using assms(1) by (simp add: rings_ok_def)
  have o: "pages.ring_at st' (partials g)" "pages.ring_at st' (empties g)" "pages.ring_at st' (uninits g)"
    using assms(1) d kept_disjoint [OF r(3)] unfolding rings_ok_def all_slabs_def by auto
  have "distinct (all_slabs (g\<lparr>fulls := remove1 h (fulls g)\<rparr>))"
    using d set_remove1_subset [of h "fulls g"] by (auto simp: all_slabs_def)
  moreover have "headers_kept (owned g) st st'" by (rule links_headers_kept [OF r(3,4)]) (auto simp: owned_def)
  ultimately show ?thesis using that [of st'] r o assms(1) by (simp add: remove_full_def rings_ok_def)
qed

lemma remove_partial_ok:
  assumes "rings_ok sc st g" and "h \<in> set (partials g)"
  obtains st' where "remove_partial sc st h = Some (sc\<lparr>partial_start := first (remove1 h (partials g))\<rparr>, st')"
    "rings_ok (sc\<lparr>partial_start := first (remove1 h (partials g))\<rparr>) st' (g\<lparr>partials := remove1 h (partials g)\<rparr>)"
    "payload st' = payload st" "headers_kept (owned g) st st'"
proof -
  obtain st' where r: "ring_remove st (first (partials g)) h = Some (st', first (remove1 h (partials g)))"
    "pages.ring_at st' (remove1 h (partials g))" "pages.links_kept (set (partials g)) st st'" "payload st' = payload st"
    using ring_remove_ok [OF _ assms(2)] assms(1) unfolding rings_ok_def by metis
  have d: "distinct (all_slabs g)" using assms(1) by (simp add: rings_ok_def)
  have o: "pages.ring_at st' (fulls g)" "pages.ring_at st' (empties g)" "pages.ring_at st' (uninits g)"
    using assms(1) d kept_disjoint [OF r(3)] unfolding rings_ok_def all_slabs_def by auto
  have "distinct (all_slabs (g\<lparr>partials := remove1 h (partials g)\<rparr>))"
    using d set_remove1_subset [of h "partials g"] by (auto simp: all_slabs_def)
  moreover have "headers_kept (owned g) st st'" by (rule links_headers_kept [OF r(3,4)]) (auto simp: owned_def)
  ultimately show ?thesis using that [of st'] r o assms(1) by (simp add: remove_partial_def rings_ok_def)
qed

lemma insert_full_ok:
  assumes "rings_ok sc st g" and "h \<notin> set (all_slabs g)" and "h \<noteq> 0"
  obtains st' where "insert_full sc st h = Some (sc\<lparr>full_start := first (fulls g @ [h])\<rparr>, st')"
    "rings_ok (sc\<lparr>full_start := first (fulls g @ [h])\<rparr>) st' (g\<lparr>fulls := fulls g @ [h]\<rparr>)" "payload st' = payload st"
    "headers_kept (insert h (owned g)) st st'"
proof -
  have n: "h \<notin> set (fulls g)" using assms(2) by (simp add: all_slabs_def)
  obtain st' where r: "ring_insert st (first (fulls g)) h = Some (st', first (fulls g @ [h]))"
    "pages.ring_at st' (fulls g @ [h])" "pages.links_kept (insert h (set (fulls g))) st st'" "payload st' = payload st"
    using ring_insert_ok [OF _ n assms(3)] assms(1) unfolding rings_ok_def by metis
  have d: "distinct (all_slabs g)" using assms(1) by (simp add: rings_ok_def)
  have o: "pages.ring_at st' (partials g)" "pages.ring_at st' (empties g)" "pages.ring_at st' (uninits g)"
    using assms(1,2) d kept_disjoint [OF r(3)] unfolding rings_ok_def all_slabs_def by auto
  have "distinct (all_slabs (g\<lparr>fulls := fulls g @ [h]\<rparr>))" using d assms(2) by (auto simp: all_slabs_def)
  moreover have "headers_kept (insert h (owned g)) st st'" by (rule links_headers_kept [OF r(3,4)]) (auto simp: owned_def)
  ultimately show ?thesis using that [of st'] r o assms(1) by (simp add: insert_full_def rings_ok_def)
qed

lemma insert_partial_ok:
  assumes "rings_ok sc st g" and "h \<notin> set (all_slabs g)" and "h \<noteq> 0"
  obtains st' where "insert_partial sc st h = Some (sc\<lparr>partial_start := first (partials g @ [h])\<rparr>, st')"
    "rings_ok (sc\<lparr>partial_start := first (partials g @ [h])\<rparr>) st' (g\<lparr>partials := partials g @ [h]\<rparr>)"
    "payload st' = payload st" "headers_kept (insert h (owned g)) st st'"
proof -
  have n: "h \<notin> set (partials g)" using assms(2) by (simp add: all_slabs_def)
  obtain st' where r: "ring_insert st (first (partials g)) h = Some (st', first (partials g @ [h]))"
    "pages.ring_at st' (partials g @ [h])" "pages.links_kept (insert h (set (partials g))) st st'" "payload st' = payload st"
    using ring_insert_ok [OF _ n assms(3)] assms(1) unfolding rings_ok_def by metis
  have d: "distinct (all_slabs g)" using assms(1) by (simp add: rings_ok_def)
  have o: "pages.ring_at st' (fulls g)" "pages.ring_at st' (empties g)" "pages.ring_at st' (uninits g)"
    using assms(1,2) d kept_disjoint [OF r(3)] unfolding rings_ok_def all_slabs_def by auto
  have "distinct (all_slabs (g\<lparr>partials := partials g @ [h]\<rparr>))" using d assms(2) by (auto simp: all_slabs_def)
  moreover have "headers_kept (insert h (owned g)) st st'" by (rule links_headers_kept [OF r(3,4)]) (auto simp: owned_def)
  ultimately show ?thesis using that [of st'] r o assms(1) by (simp add: insert_partial_def rings_ok_def)
qed

lemma insert_ety_ok:
  assumes "rings_ok sc (pgs w) g" and "h \<notin> set (all_slabs g)" and "h \<noteq> 0" and "length (empties g) \<le> 2048"
  obtains sc' st' where "insert_ety sc w h = Some (sc', w\<lparr>pgs := st'\<rparr>, None)"
    "rings_ok sc' st' (g\<lparr>empties := empties g @ [h]\<rparr>)" "payload st' = payload (pgs w)"
    "same_class sc sc'" "headers_kept (insert h (owned g)) (pgs w) st'"
proof -
  have n: "h \<notin> set (empties g)" using assms(2) by (simp add: all_slabs_def)
  obtain st' where r: "ring_insert (pgs w) (first (empties g)) h = Some (st', first (empties g @ [h]))"
    "pages.ring_at st' (empties g @ [h])" "pages.links_kept (insert h (set (empties g))) (pgs w) st'"
    "payload st' = payload (pgs w)"
    using ring_insert_ok [OF _ n assms(3)] assms(1) unfolding rings_ok_def by metis
  have d: "distinct (all_slabs g)" using assms(1) by (simp add: rings_ok_def)
  have o: "pages.ring_at st' (fulls g)" "pages.ring_at st' (partials g)" "pages.ring_at st' (uninits g)"
    using assms(1,2) d kept_disjoint [OF r(3)] unfolding rings_ok_def all_slabs_def by auto
  have "distinct (all_slabs (g\<lparr>empties := empties g @ [h]\<rparr>))" using d assms(2) by (auto simp: all_slabs_def)
  moreover have "headers_kept (insert h (owned g)) (pgs w) st'" by (rule links_headers_kept [OF r(3,4)]) (auto simp: owned_def)
  ultimately show ?thesis
    using that [of "sc\<lparr>empty_start := first (empties g @ [h]), empty_count := wadd (empty_count sc) 1\<rparr>" st'] r o assms(1,4)
    by (simp add: insert_ety_def rings_ok_def same_class_def)
qed

lemma remove_empty_ok:
  assumes "rings_ok sc st g" and e: "empties g = h # es"
  obtains sc' st' where "remove_empty sc st = Some (sc', st', h)" "rings_ok sc' st' (g\<lparr>empties := es\<rparr>)"
    "payload st' = payload st" "same_class sc sc'" "headers_kept (owned g) st st'"
proof -
  have d: "distinct (all_slabs g)" and h0: "h \<noteq> 0" using assms by (auto simp: rings_ok_def pages.ring_at_def nonzero_def)
  have ra: "pages.ring_at st ([] @ h # es)" using assms by (simp add: rings_ok_def)
  obtain st' where r: "ring_unlink_calls st h = Some (st', next_link st h)" "pages.ring_at st' es"
    "pages.links_kept (set (h # es)) st st'" "payload st' = payload st" "es \<noteq> [] \<longrightarrow> next_link st h = first es"
  proof (cases "es = []")
    case True
    have g: "page_get_next st h = Some h" "page_get_prev st h = Some h" "next_link st h = h"
      using ra True h0 by (auto simp: pages.ring_at_def page_get_next_def page_get_prev_def next_link_def prev_link_def)
    let ?st = "page_set_next (page_set_prev st h h) h h"
    have "pnext (page_set_prev st h h h) = h" "pprev (page_set_prev st h h h) = h"
      using g h0 by (auto simp: page_set_prev_def page_get_next_def split: if_splits)
    then have "ring_unlink_calls st h = Some (?st, next_link st h)"
      using g h0 by (simp add: ring_unlink_calls_def page_get_next_def [of "page_set_prev st h h"]
          page_get_prev_def [of "page_set_prev st h h"] Let_def)
    moreover have "pages.links_kept (set [h]) st ?st"
      by (auto simp: pages.links_kept_def nonzero_def next_link_def prev_link_def page_set_next_def page_set_prev_def)
    ultimately show ?thesis using that [of ?st] True by (simp add: pages.ring_at_def ring_def)
  next
    case False
    obtain st' where "ring_unlink_calls st h = Some (st', next_link st h)" "pages.ring_at st' ([] @ es)"
      "pages.links_kept (set ([] @ es)) st st'" "payload st' = payload st"
      using unlink_calls_ok [OF ra] False by auto
    then show ?thesis using that [of st'] ring_next_first ra False by (auto simp: pages.links_kept_def)
  qed
  have o: "pages.ring_at st' (fulls g)" "pages.ring_at st' (partials g)" "pages.ring_at st' (uninits g)"
    using assms d kept_disjoint [OF r(3)] unfolding rings_ok_def all_slabs_def by auto
  let ?sc = "sc\<lparr>empty_start := (if empty_count sc > 1 then next_link st h else 0), empty_count := empty_count sc - 1\<rparr>"
  have "remove_empty sc st = Some (?sc, st', h)"
    using assms r(1) h0 by (simp add: remove_empty_def rings_ok_def first_def Let_def)
  moreover have "rings_ok ?sc st' (g\<lparr>empties := es\<rparr>)"
    using assms(1) r o d e by (cases es) (auto simp: rings_ok_def all_slabs_def first_def)
  moreover have "headers_kept (owned g) st st'" using e by (intro links_headers_kept [OF r(3,4)]) (auto simp: owned_def)
  ultimately show ?thesis using that r(4) by (simp add: same_class_def)
qed

section \<open>Giving a batch back\<close>

text \<open>The walk stops at the first object outside the slab.\<close>

lemma free_walk_run:
  assumes "chain m x (x # rs) nxt" and "\<forall>y \<in> set rs. base \<le> y \<and> y < limit" and "\<not> (base \<le> nxt \<and> nxt < limit)"
    and "k + length rs < 2 ^ 64"
  shows "free_walk m base limit x k = Some (last (x # rs), k + length rs, nxt)"
  using assms
proof (induction rs arbitrary: x k)
  case Nil
  then show ?case by (subst free_walk.simps) (auto simp: Let_def)
next
  case (Cons r rs)
  have r: "m x = r" "base \<le> r" "r < limit" "chain m r (r # rs) nxt" using Cons.prems(1,2) by auto
  have "free_walk m base limit x k = free_walk m base limit r (k + 1)"
    using r Cons.prems(4) by (subst free_walk.simps) (simp add: Let_def)
  also have "\<dots> = Some (last (r # rs), k + 1 + length rs, nxt)"
    using Cons.prems by (intro Cons.IH r(4)) auto
  finally show ?case by simp
qed

lemma chain_run:
  assumes "chain m x run nxt" and "run \<noteq> []" and "distinct run" and "chain m p fs q" and "set run \<inter> set fs = {}"
  shows "chain (m(last run := p)) x (run @ fs) q"
proof -
  have "chain (m(last run := p)) x run p" using assms(1-3)
    by (metis append_butlast_last_id chain_snoc_upd)
  moreover have "last run \<notin> set fs" using assms(2,5) last_in_set by blast
  then have "chain (m(last run := p)) p fs q" using assms(4) by (simp add: chain_upd)
  ultimately show ?thesis by (auto simp: chain_append)
qed

text \<open>The world after the objects \<open>run\<close> of slab \<open>h\<close> are pushed on its chain.\<close>

definition give_back :: "world \<Rightarrow> nat \<Rightarrow> nat list \<Rightarrow> world" where
  "give_back w h run = (set_word w (last run) (pptr (pgs w h)))\<lparr>pgs :=
     (pgs w)(h := (pgs w h)\<lparr>pptr := hd run, pcounter := pcounter (pgs w h) - length run\<rparr>)\<rparr>"

lemma page_deallocate_run:
  assumes "page_ok (pgs w) (words w) N (4096 * n) fs h" and "n \<le> 2 ^ 12"
    and "chain (words w) x (x # rs) nxt" and "\<forall>y \<in> set (x # rs). in_slab (pgs w) (4096 * n) h y"
    and "\<not> in_slab (pgs w) (4096 * n) h nxt" and "length (x # rs) \<le> pcounter (pgs w h)" and "N < 2 ^ 32"
  shows "page_deallocate w h x n = Some (give_back w h (x # rs), nxt)"
proof -
  have lim: "wadd (pdata (pgs w h)) (wmul n PAGE_SIZE) = pdata (pgs w h) + 4096 * n"
    using assms(1,2) by (simp add: page_ok_def PAGE_SIZE_def)
  have c: "pcounter (pgs w h) \<le> N" using assms(1) by (simp add: page_ok_def)
  have "free_walk (words w) (pdata (pgs w h)) (pdata (pgs w h) + 4096 * n) x 1 = Some (last (x # rs), 1 + length rs, nxt)"
    using assms(3-7) c by (intro free_walk_run) (auto simp: in_slab_def)
  then show ?thesis using assms(4,6)
    by (simp add: page_deallocate_def lim in_slab_def give_back_def set_word_def Let_def)
qed

lemma mask48: "h < 2 ^ 48 \<Longrightarrow> int h AND (2 ^ 48 - 1) = int h"
proof -
  assume "h < 2 ^ 48"
  then have h: "int h < 2 ^ 48" by simp
  have "int h AND mask 48 = int h mod 2 ^ 48" by (simp only: take_bit_eq_mask [symmetric] take_bit_eq_mod)
  also have "\<dots> = int h" using h by (intro mod_pos_pos_trivial) simp_all
  finally show ?thesis by (simp add: mask_eq_exp_minus_1)
qed

text \<open>What giving back keeps of the pages.\<close>

definition with_run :: "slabs \<Rightarrow> nat \<Rightarrow> nat list \<Rightarrow> slabs" where
  "with_run g h run = g\<lparr>frees := (frees g)(h := run @ frees g h)\<rparr>"

lemma one_slab:
  "base_ok N n st m t g \<Longrightarrow> h \<in> owned g \<Longrightarrow> h' \<in> owned g \<Longrightarrow> in_slab st n h x \<Longrightarrow> in_slab st n h' x \<Longrightarrow> h = h'"
  unfolding base_ok_def in_slab_def apart_def by fastforce

lemma give_back_base:
  assumes b: "base_ok N n (pgs w) (words w) t g" and h: "h \<in> owned g"
    and run: "chain (words w) (hd run) run nxt" "run \<noteq> []" "distinct run" "\<forall>y \<in> set run. in_slab (pgs w) n h y"
    and new: "set run \<inter> set (frees g h) = {}" "length run \<le> pcounter (pgs w h)"
  shows "base_ok N n (pgs (give_back w h run)) (words (give_back w h run)) t (with_run g h run)"
proof -
  let ?w = "give_back w h run"
  have data: "pdata (pgs ?w k) = pdata (pgs w k)" for k by (simp add: give_back_def)
  have sl: "in_slab (pgs ?w) n k x = in_slab (pgs w) n k x" for k x by (simp add: in_slab_def data)
  have wd: "words ?w = (words w)(last run := pptr (pgs w h))" by (simp add: give_back_def set_word_def)
  have lr: "last run \<in> set run" using run(2) by simp
  have pg: "page_ok (pgs ?w) (words ?w) N n (frees (with_run g h run) k) k" if k: "k \<in> owned g" for k
  proof (cases "k = h")
    case True
    have p: "page_ok (pgs w) (words w) N n (frees g h) h" using b h by (simp add: base_ok_def)
    then have "chain (words ?w) (hd run) (run @ frees g h) 0"
      using chain_run [OF run(1-3) _ new(1)] wd by (simp add: page_ok_def)
    then show ?thesis using p True run new sl [of h]
      by (auto simp: page_ok_def with_run_def give_back_def)
  next
    case False
    have p: "page_ok (pgs w) (words w) N n (frees g k) k" using b k by (simp add: base_ok_def)
    have "last run \<notin> set (frees g k)"
      using one_slab [OF b h k, of "last run"] p run(4) lr False by (auto simp: page_ok_def)
    then have "chain (words ?w) (pptr (pgs w k)) (frees g k) 0" using p wd by (simp add: page_ok_def chain_upd)
    then show ?thesis using p False sl [of k] by (simp add: page_ok_def with_run_def give_back_def)
  qed
  have "owned (with_run g h run) = owned g" by (simp add: owned_def with_run_def)
  then show ?thesis using b pg unfolding base_ok_def by (simp add: data sl)
qed

lemma rings_ok_links:
  "next_link st' = next_link st \<Longrightarrow> prev_link st' = prev_link st \<Longrightarrow> rings_ok sc st' g = rings_ok sc st g"
  by (simp add: rings_ok_def pages.ring_at_def nonzero_def)

lemma rings_ok_frees: "rings_ok sc st (g\<lparr>frees := f\<rparr>) = rings_ok sc st g"
  by (simp add: rings_ok_def all_slabs_def)

text \<open>One turn: the slab of the first object takes the run, and changes its ring if it was full or becomes empty.\<close>

definition after_turn :: "slabs \<Rightarrow> page_store \<Rightarrow> nat \<Rightarrow> nat \<Rightarrow> nat list \<Rightarrow> slabs" where
  "after_turn g st N h run =
     (let g' = with_run g h run; c = pcounter (st h) - length run in
      if c = 0 then g'\<lparr>fulls := remove1 h (fulls g), partials := remove1 h (partials g), empties := empties g @ [h]\<rparr>
      else if h \<in> set (fulls g) then g'\<lparr>fulls := remove1 h (fulls g), partials := partials g @ [h]\<rparr>
      else g')"

lemma after_turn_base:
  assumes "rings_ok sc st g" and "h \<in> set (fulls g) \<union> set (partials g)"
  shows "owned (after_turn g st N h run) = owned g" and "frees (after_turn g st N h run) = frees (with_run g h run)"
proof -
  have "distinct (all_slabs g)" using assms(1) by (simp add: rings_ok_def)
  then show "owned (after_turn g st N h run) = owned g"
    using assms(2) by (auto simp: after_turn_def owned_def with_run_def all_slabs_def Let_def)
  show "frees (after_turn g st N h run) = frees (with_run g h run)" by (simp add: after_turn_def Let_def)
qed

lemma after_turn_kinds:
  assumes "kinds_ok N st g" and "distinct (all_slabs g)" and "h \<in> set (fulls g) \<union> set (partials g)"
    and "\<And>k. k \<noteq> h \<Longrightarrow> pcounter (st' k) = pcounter (st k)" and "pcounter (st' h) = pcounter (st h) - length run"
    and "run \<noteq> []" and "0 < N"
  shows "kinds_ok N st' (after_turn g st N h run)"
proof -
  let ?g = "after_turn g st N h run"
  have d: "distinct (fulls g)" "distinct (partials g)" "h \<notin> set (empties g)" "h \<in> set (partials g) \<Longrightarrow> h \<notin> set (fulls g)"
    using assms(2,3) by (auto simp: all_slabs_def)
  have sets: "set (fulls ?g) \<subseteq> set (fulls g) - {h}"
    "set (partials ?g) \<subseteq> set (partials g) - {h} \<union> (if pcounter (st h) - length run = 0 then {} else {h})"
    "set (empties ?g) \<subseteq> set (empties g) \<union> (if pcounter (st h) - length run = 0 then {h} else {})"
    using d by (auto simp: after_turn_def with_run_def set_remove1_eq Let_def)
  have len: "0 < length run" using assms(6) by simp
  have F: "pcounter (st k) = N" if "k \<in> set (fulls g)" for k using assms(1) that by (simp add: kinds_ok_def)
  have P: "0 < pcounter (st k) \<and> pcounter (st k) < N" if "k \<in> set (partials g)" for k using assms(1) that by (simp add: kinds_ok_def)
  have E: "pcounter (st k) = 0" if "k \<in> set (empties g)" for k using assms(1) that by (simp add: kinds_ok_def)
  have k1: "pcounter (st' k) = N" if "k \<in> set (fulls ?g)" for k
  proof -
    have "k \<in> set (fulls g) \<and> k \<noteq> h"
      using that sets(1) by blast
    then show ?thesis using F assms(4) by simp
  qed
  have k2: "0 < pcounter (st' k) \<and> pcounter (st' k) < N" if "k \<in> set (partials ?g)" for k
  proof -
    have "k \<in> set (partials g) \<and> k \<noteq> h \<or> k = h \<and> pcounter (st h) - length run \<noteq> 0"
      using that sets(2) by (auto split: if_splits)
    moreover have "pcounter (st h) \<le> N" using assms(3) F P less_imp_le by auto
    then have "pcounter (st h) - length run < N" using len assms(7) by linarith
    ultimately show ?thesis using P assms(4,5) by auto
  qed
  have k3: "pcounter (st' k) = 0" if "k \<in> set (empties ?g)" for k
  proof -
    have "k \<in> set (empties g) \<and> k \<noteq> h \<or> k = h \<and> pcounter (st h) - length run = 0"
      using that sets(3) d(3) by (auto split: if_splits)
    then show ?thesis using E assms(4,5) by auto
  qed
  show ?thesis using k1 k2 k3 by (simp add: kinds_ok_def)
qed

lemma deallocate_turn_run:
  assumes ok: "slab_ok sc w g" and h: "h \<in> set (fulls g) \<union> set (partials g)"
    and run: "chain (words w) x (x # rs) nxt" "distinct (x # rs)"
      "\<forall>y \<in> set (x # rs). in_slab (pgs w) (4096 * pg_num sc) h y" "\<not> in_slab (pgs w) (4096 * pg_num sc) h nxt"
    and new: "set (x # rs) \<inter> set (frees g h) = {}" "length (x # rs) \<le> pcounter (pgs w h)"
    and few: "length (empties g) \<le> 2048"
  obtains sc' w' where "deallocate_turn sc w x = Some (sc', w', nxt)"
    "slab_ok sc' w' (after_turn g (pgs w) (as_usize (pg_count sc)) h (x # rs))"
    "words w' = words (give_back w h (x # rs))" "payload (pgs w') = payload (pgs (give_back w h (x # rs)))"
    "same_class sc sc'" "headers_kept (owned g) (pgs w) (pgs w')" "rd_tree (backend w') = rd_tree (backend w)"
proof -
  let ?run = "x # rs" and ?N = "as_usize (pg_count sc)" and ?n = "4096 * pg_num sc"
  let ?g = "after_turn g (pgs w) ?N h ?run" and ?w = "give_back w h ?run"
  have cfg: "config_ok sc" and rg: "rings_ok sc (pgs w) g" and kd: "kinds_ok ?N (pgs w) g"
    and bs: "base_ok ?N ?n (pgs w) (words w) (rd_tree (backend w)) g" using ok by (auto simp: slab_ok_def)
  have ds: "distinct (all_slabs g)" using rg by (simp add: rings_ok_def)
  have ho: "h \<in> owned g" using h by (auto simp: owned_def)
  have pg: "page_ok (pgs w) (words w) ?N ?n (frees g h) h" "h < 2 ^ 48"
    "\<And>y. in_slab (pgs w) ?n h y \<Longrightarrow> radix_view (rd_tree (backend w)) (y div 4096) = int h"
    using bs ho by (auto simp: base_ok_def)
  have h0: "h \<noteq> 0" using rg h by (auto simp: rings_ok_def pages.ring_at_def nonzero_def)
  have xs: "in_slab (pgs w) ?n h x" using run(3) by simp
  have x48: "x < 2 ^ 48" using xs pg(1) by (simp add: in_slab_def page_ok_def)
  have v: "radix_get_mut (rd_tree (backend w)) (wshl (align_12k x) 16) = Some (int h)"
    using radix_get_address [OF x48] pg(3) [OF xs] by simp
  have pd: "page_deallocate w h x (pg_num sc) = Some (?w, nxt)"
    using cfg by (intro page_deallocate_run [OF pg(1) _ run(1,3,4) new(2)]) (auto simp: config_ok_def)
  have rd: "rd_tree (backend ?w) = rd_tree (backend w)" by (simp add: give_back_def set_word_def)
  have cn: "pcounter (pgs ?w h) = pcounter (pgs w h) - length ?run" "\<And>k. k \<noteq> h \<Longrightarrow> pcounter (pgs ?w k) = pcounter (pgs w k)"
    by (simp_all add: give_back_def)
  have rg1: "rings_ok sc (pgs ?w) g"
    using rg rings_ok_links [of "pgs ?w" "pgs w" sc g] by (simp add: give_back_def next_link_def prev_link_def fun_eq_iff)
  have ch: "chain (words w) (hd ?run) ?run nxt" using run(1) by simp
  have bs1: "base_ok ?N ?n (pgs ?w) (words ?w) (rd_tree (backend w)) ?g"
    using give_back_base [OF bs ho ch _ run(2,3) new] after_turn_base [OF rg h]
      base_ok_lists [of ?g "with_run g h ?run"] by (simp add: owned_def with_run_def)
  have kd1: "kinds_ok ?N (pgs ?w) ?g"
    using cfg by (intro after_turn_kinds [OF kd ds h cn(2,1)]) (simp_all add: config_ok_def)
  have full: "is_full (pgs w) h ?N \<longleftrightarrow> h \<in> set (fulls g)"
    using kd h by (auto simp: kinds_ok_def is_full_def)
  have emp: "is_empty (pgs ?w) h \<longleftrightarrow> pcounter (pgs w h) - length ?run = 0" by (simp only: is_empty_def cn)
  have ins: "h \<notin> set (all_slabs (g\<lparr>fulls := remove1 h (fulls g)\<rparr>))" if "h \<in> set (fulls g)"
    using ds that by (auto simp: all_slabs_def)
  have ins': "h \<notin> set (all_slabs (g\<lparr>partials := remove1 h (partials g)\<rparr>))" if "h \<notin> set (fulls g)"
    using ds h that by (auto simp: all_slabs_def)
  have tryf: "empty_count sc' = empty_count sc \<Longrightarrow> try_insert_ety sc' st h = Some None" for sc' :: sc_allocator and st
    using few rg by (simp add: try_insert_ety_def rings_ok_def)
  have hk: "headers_kept (owned g) (pgs w) (pgs ?w)" using ho by (simp add: give_back_def headers_kept_upd)
  note outer = that
  have finish: thesis if t: "deallocate_turn sc w x = Some (sc', w1\<lparr>pgs := st\<rparr>, nxt)" and r: "rings_ok sc' st g1"
    and w1: "backend w1 = backend ?w" and p: "payload st = payload (pgs ?w)"
    and c: "same_class sc sc'" and k: "headers_kept (owned g) (pgs ?w) st"
    and g1: "fulls g1 = fulls ?g" "partials g1 = partials ?g" "empties g1 = empties ?g" "uninits g1 = uninits g" for sc' w1 st g1
  proof (rule outer [OF t])
    have "all_slabs ?g = all_slabs g1" using g1 by (simp add: all_slabs_def after_turn_def with_run_def Let_def)
    then have "rings_ok sc' st ?g" using r g1 by (simp add: rings_ok_def after_turn_def with_run_def Let_def)
    then show "slab_ok sc' (w1\<lparr>pgs := st\<rparr>) ?g"
      using cfg bs1 kd1 c base_ok_payload [OF p] kinds_ok_payload [OF p] by (simp add: slab_ok_def config_ok_def same_class_def w1 rd)
    show "headers_kept (owned g) (pgs w) (pgs (w1\<lparr>pgs := st\<rparr>))" using headers_kept_trans [OF hk k] by simp
  qed (use c w1 p rd in simp_all)
  note turn = deallocate_turn_def v mask48 [OF pg(2), simplified] pd
  consider "is_empty (pgs ?w) h" "h \<in> set (fulls g)" | "is_empty (pgs ?w) h" "h \<notin> set (fulls g)"
    | "\<not> is_empty (pgs ?w) h" "h \<in> set (fulls g)" | "\<not> is_empty (pgs ?w) h" "h \<notin> set (fulls g)" by blast
  then show ?thesis
  proof cases
    case 4
    then show ?thesis using h0 full emp rg1
      by (intro finish [where sc' = sc and ?w1.0 = ?w and st = "pgs ?w" and ?g1.0 = g]) (simp_all add: turn after_turn_def with_run_def Let_def)
  next
    case 3
    obtain st1 where r1: "remove_full sc (pgs ?w) h = Some (sc\<lparr>full_start := first (remove1 h (fulls g))\<rparr>, st1)"
      "rings_ok (sc\<lparr>full_start := first (remove1 h (fulls g))\<rparr>) st1 (g\<lparr>fulls := remove1 h (fulls g)\<rparr>)"
      "payload st1 = payload (pgs ?w)" "headers_kept (owned g) (pgs ?w) st1" by (rule remove_full_ok [OF rg1 3(2)])
    let ?sc1 = "sc\<lparr>full_start := first (remove1 h (fulls g))\<rparr>"
    let ?sc2 = "?sc1\<lparr>partial_start := first (partials g @ [h])\<rparr>"
    have "\<exists>st2. insert_partial ?sc1 st1 h = Some (?sc2, st2)
      \<and> rings_ok ?sc2 st2 (g\<lparr>fulls := remove1 h (fulls g), partials := partials g @ [h]\<rparr>) \<and> payload st2 = payload st1
      \<and> headers_kept (insert h (owned (g\<lparr>fulls := remove1 h (fulls g)\<rparr>))) st1 st2"
      by (rule insert_partial_ok [OF r1(2) ins [OF 3(2)] h0]) auto
    then obtain st2 where r2: "insert_partial ?sc1 st1 h = Some (?sc2, st2)"
      "rings_ok ?sc2 st2 (g\<lparr>fulls := remove1 h (fulls g), partials := partials g @ [h]\<rparr>)"
      "payload st2 = payload st1" "headers_kept (insert h (owned (g\<lparr>fulls := remove1 h (fulls g)\<rparr>))) st1 st2" by blast
    have k: "headers_kept (owned g) (pgs ?w) st2" by (rule headers_kept_trans [OF r1(4) r2(4)]) (use ho in \<open>auto simp: owned_def dest: set_remove1_subset [THEN subsetD]\<close>)
    show ?thesis using 3 h0 full emp r1 r2 k
      by (intro finish [OF _ r2(2), where ?w1.0 = ?w]) (simp_all add: turn after_turn_def with_run_def same_class_def Let_def)
  next
    case 1
    obtain st1 where r1: "remove_full sc (pgs ?w) h = Some (sc\<lparr>full_start := first (remove1 h (fulls g))\<rparr>, st1)"
      "rings_ok (sc\<lparr>full_start := first (remove1 h (fulls g))\<rparr>) st1 (g\<lparr>fulls := remove1 h (fulls g)\<rparr>)"
      "payload st1 = payload (pgs ?w)" "headers_kept (owned g) (pgs ?w) st1" by (rule remove_full_ok [OF rg1 1(2)])
    let ?v = "set_rd_tree (?w\<lparr>pgs := st1\<rparr>) (rd_tree (backend ?w))"
    have "rings_ok (sc\<lparr>full_start := first (remove1 h (fulls g))\<rparr>) (pgs ?v) (g\<lparr>fulls := remove1 h (fulls g)\<rparr>)"
      using r1(2) by (simp add: set_rd_tree_def)
    note ie = insert_ety_ok [OF this ins [OF 1(2)] h0]
    have "\<exists>sc2 st2. insert_ety (sc\<lparr>full_start := first (remove1 h (fulls g))\<rparr>) ?v h = Some (sc2, ?v\<lparr>pgs := st2\<rparr>, None)
      \<and> rings_ok sc2 st2 (g\<lparr>fulls := remove1 h (fulls g), empties := empties g @ [h]\<rparr>)
      \<and> payload st2 = payload (pgs ?v) \<and> same_class sc sc2
      \<and> headers_kept (insert h (owned (g\<lparr>fulls := remove1 h (fulls g)\<rparr>))) (pgs ?v) st2"
      by (rule ie) (use few in \<open>auto simp: same_class_def\<close>)
    then obtain sc2 st2 where r2: "insert_ety (sc\<lparr>full_start := first (remove1 h (fulls g))\<rparr>) ?v h = Some (sc2, ?v\<lparr>pgs := st2\<rparr>, None)"
      "rings_ok sc2 st2 (g\<lparr>fulls := remove1 h (fulls g), empties := empties g @ [h]\<rparr>)"
      "payload st2 = payload (pgs ?v)" "same_class sc sc2"
      "headers_kept (insert h (owned (g\<lparr>fulls := remove1 h (fulls g)\<rparr>))) (pgs ?v) st2" by blast
    have pv: "pgs ?v = st1" by (simp add: set_rd_tree_def)
    have k: "headers_kept (owned g) (pgs ?w) st2"
      by (rule headers_kept_trans [OF r1(4) r2(5) [unfolded pv]]) (use ho in \<open>auto simp: owned_def dest: set_remove1_subset [THEN subsetD]\<close>)
    have "h \<notin> set (partials g)" using 1(2) ds by (auto simp: all_slabs_def)
    then show ?thesis using 1 h0 full emp r1 r2 k
      by (intro finish [OF _ r2(2), where ?w1.0 = ?v]) (simp_all add: turn after_turn_def with_run_def remove1_idem set_rd_tree_def tryf Let_def)
  next
    case 2
    have hp: "h \<in> set (partials g)" using 2 h by blast
    obtain st1 where r1: "remove_partial sc (pgs ?w) h = Some (sc\<lparr>partial_start := first (remove1 h (partials g))\<rparr>, st1)"
      "rings_ok (sc\<lparr>partial_start := first (remove1 h (partials g))\<rparr>) st1 (g\<lparr>partials := remove1 h (partials g)\<rparr>)"
      "payload st1 = payload (pgs ?w)" "headers_kept (owned g) (pgs ?w) st1" by (rule remove_partial_ok [OF rg1 hp])
    let ?v = "set_rd_tree (?w\<lparr>pgs := st1\<rparr>) (rd_tree (backend ?w))"
    have "rings_ok (sc\<lparr>partial_start := first (remove1 h (partials g))\<rparr>) (pgs ?v) (g\<lparr>partials := remove1 h (partials g)\<rparr>)"
      using r1(2) by (simp add: set_rd_tree_def)
    note ie = insert_ety_ok [OF this ins' [OF 2(2)] h0]
    have "\<exists>sc2 st2. insert_ety (sc\<lparr>partial_start := first (remove1 h (partials g))\<rparr>) ?v h = Some (sc2, ?v\<lparr>pgs := st2\<rparr>, None)
      \<and> rings_ok sc2 st2 (g\<lparr>partials := remove1 h (partials g), empties := empties g @ [h]\<rparr>)
      \<and> payload st2 = payload (pgs ?v) \<and> same_class sc sc2
      \<and> headers_kept (insert h (owned (g\<lparr>partials := remove1 h (partials g)\<rparr>))) (pgs ?v) st2"
      by (rule ie) (use few in \<open>auto simp: same_class_def\<close>)
    then obtain sc2 st2 where r2: "insert_ety (sc\<lparr>partial_start := first (remove1 h (partials g))\<rparr>) ?v h = Some (sc2, ?v\<lparr>pgs := st2\<rparr>, None)"
      "rings_ok sc2 st2 (g\<lparr>partials := remove1 h (partials g), empties := empties g @ [h]\<rparr>)"
      "payload st2 = payload (pgs ?v)" "same_class sc sc2"
      "headers_kept (insert h (owned (g\<lparr>partials := remove1 h (partials g)\<rparr>))) (pgs ?v) st2" by blast
    have pv: "pgs ?v = st1" by (simp add: set_rd_tree_def)
    have k: "headers_kept (owned g) (pgs ?w) st2"
      by (rule headers_kept_trans [OF r1(4) r2(5) [unfolded pv]]) (use ho in \<open>auto simp: owned_def dest: set_remove1_subset [THEN subsetD]\<close>)
    show ?thesis using 2 h0 full emp r1 r2 k
      by (intro finish [OF _ r2(2), where ?w1.0 = ?v]) (simp_all add: turn after_turn_def with_run_def remove1_idem set_rd_tree_def tryf Let_def)
  qed
qed

text \<open>What a batch must be: objects that are handed out, each of a slab that is full or partial.\<close>

definition batch_ok :: "sc_allocator \<Rightarrow> world \<Rightarrow> slabs \<Rightarrow> nat list \<Rightarrow> bool" where
  "batch_ok sc w g xs \<longleftrightarrow> distinct xs
     \<and> (\<forall>x \<in> set xs. \<exists>h \<in> set (fulls g) \<union> set (partials g). in_slab (pgs w) (4096 * pg_num sc) h x \<and> x \<notin> set (frees g h))
     \<and> (\<forall>h \<in> owned g. length (filter (in_slab (pgs w) (4096 * pg_num sc) h) xs) \<le> pcounter (pgs w h))"

definition batch_result :: "nat \<Rightarrow> world \<Rightarrow> slabs \<Rightarrow> nat list \<Rightarrow> world \<Rightarrow> slabs \<Rightarrow> bool" where
  "batch_result n w g xs w' g' \<longleftrightarrow> owned g' = owned g \<and> uninits g' = uninits g
     \<and> headers_kept (owned g) (pgs w) (pgs w') \<and> rd_tree (backend w') = rd_tree (backend w)
     \<and> (\<forall>a. a \<notin> set xs \<longrightarrow> words w' a = words w a) \<and> (\<forall>h \<in> owned g.
     pdata (pgs w' h) = pdata (pgs w h)
     \<and> pcounter (pgs w' h) = pcounter (pgs w h) - length (filter (in_slab (pgs w) n h) xs)
     \<and> set (frees g' h) = set (frees g h) \<union> {x \<in> set xs. in_slab (pgs w) n h x})"

lemma after_turn_in_use:
  assumes "k \<in> set (fulls g) \<union> set (partials g)" and "k = h \<Longrightarrow> pcounter (st h) - length run \<noteq> 0"
  shows "k \<in> set (fulls (after_turn g st N h run)) \<union> set (partials (after_turn g st N h run))"
  using assms by (cases "k = h") (auto simp: after_turn_def with_run_def Let_def in_set_remove1)

text \<open>The run of one slab at the front of a batch, and the rest.\<close>

lemma split_run:
  assumes bs: "base_ok N n st m t g" and ch: "chain m x (x # xs) 0" and h: "h \<in> owned g" "in_slab st n h x"
  obtains rs rest nxt where "x # xs = (x # rs) @ rest" "\<forall>y \<in> set (x # rs). in_slab st n h y" "\<not> in_slab st n h nxt"
    "chain m x (x # rs) nxt" "chain m nxt rest 0"
proof -
  let ?rs = "takeWhile (in_slab st n h) xs" and ?rest = "dropWhile (in_slab st n h) xs"
  have e: "x # xs = (x # ?rs) @ ?rest" by simp
  have "chain m x ((x # ?rs) @ ?rest) 0" using ch by (simp only: e [symmetric])
  then obtain nxt where c: "chain m x (x # ?rs) nxt" "chain m nxt ?rest 0" unfolding chain_append by blast
  have "pdata (st h) \<noteq> 0" using bs h(1) by (simp add: base_ok_def page_ok_def)
  have "\<not> in_slab st n h nxt"
  proof (cases ?rest)
    case Nil
    have "nxt = 0" using c(2) unfolding Nil by simp
    then show ?thesis using \<open>pdata (st h) \<noteq> 0\<close> by (simp add: in_slab_def)
  next
    case (Cons y ys)
    have "nxt = y" using c(2) unfolding Cons by simp
    moreover have "\<not> in_slab st n h y" using Cons by (simp add: dropWhile_eq_Cons_conv)
    ultimately show ?thesis by simp
  qed
  moreover have "\<forall>y \<in> set (x # ?rs). in_slab st n h y" using h(2) set_takeWhileD by fastforce
  ultimately show ?thesis using that e c by blast
qed

lemma deallocate_batch_step:
  assumes ok: "slab_ok sc w g" and ch: "chain (words w) x (x # xs) 0" and b: "batch_ok sc w g (x # xs)"
    and few: "length (empties g) + length (x # xs) \<le> 2048"
  obtains sc' w' g' nxt run rest where "deallocate_turn sc w x = Some (sc', w', nxt)" "slab_ok sc' w' g'"
    "x # xs = run @ rest" "run \<noteq> []" "chain (words w') nxt rest 0" "batch_ok sc' w' g' rest"
    "length (empties g') + length rest \<le> 2048" "same_class sc sc'"
    "batch_result (4096 * pg_num sc) w g run w' g'"
proof -
  let ?N = "as_usize (pg_count sc)" and ?n = "4096 * pg_num sc"
  have rg: "rings_ok sc (pgs w) g" and bs: "base_ok ?N ?n (pgs w) (words w) (rd_tree (backend w)) g"
    using ok by (auto simp: slab_ok_def)
  have dist: "distinct (x # xs)" and use: "\<And>y. y \<in> set (x # xs) \<Longrightarrow> \<exists>h \<in> set (fulls g) \<union> set (partials g).
      in_slab (pgs w) ?n h y \<and> y \<notin> set (frees g h)"
    and cnt: "\<And>h. h \<in> owned g \<Longrightarrow> length (filter (in_slab (pgs w) ?n h) (x # xs)) \<le> pcounter (pgs w h)"
    using b by (auto simp: batch_ok_def)
  obtain h where h: "h \<in> set (fulls g) \<union> set (partials g)" "in_slab (pgs w) ?n h x" using use [of x] by auto
  have own: "\<And>k. k \<in> set (fulls g) \<union> set (partials g) \<Longrightarrow> k \<in> owned g" by (auto simp: owned_def)
  note ho = own [OF h(1)]
  obtain rs rest nxt where r: "x # xs = (x # rs) @ rest" "\<forall>y \<in> set (x # rs). in_slab (pgs w) ?n h y"
    "\<not> in_slab (pgs w) ?n h nxt" "chain (words w) x (x # rs) nxt" "chain (words w) nxt rest 0"
    by (rule split_run [OF bs ch ho h(2)])
  let ?run = "x # rs"
  have fr: "filter (in_slab (pgs w) ?n h) ?run = ?run" using r(2) by (simp add: filter_id_conv)
  have fk: "filter (in_slab (pgs w) ?n k) ?run = []" if "k \<in> owned g" "k \<noteq> h" for k
    using one_slab [OF bs that(1) ho] r(2) that(2) by (auto simp: filter_empty_conv)
  have c1: "length ?run + length (filter (in_slab (pgs w) ?n h) rest) \<le> pcounter (pgs w h)"
    using cnt [OF ho] fr unfolding r(1) filter_append length_append by simp
  have nf: "set ?run \<inter> set (frees g h) = {}"
  proof -
    have "y \<notin> set (frees g h)" if "y \<in> set ?run" for y
    proof -
      have "y \<in> set (x # xs)" unfolding r(1) using that by auto
      then obtain k where "k \<in> set (fulls g) \<union> set (partials g)" "in_slab (pgs w) ?n k y" "y \<notin> set (frees g k)"
        using use by blast
      then show ?thesis using one_slab [OF bs own ho] r(2) that by blast
    qed
    then show ?thesis by blast
  qed
  have dr: "distinct ?run" "set ?run \<inter> set rest = {}" "distinct rest" using dist unfolding r(1) distinct_append by auto
  have lr: "length ?run \<le> pcounter (pgs w h)" "length (empties g) \<le> 2048" using c1 few by auto
  let ?g = "after_turn g (pgs w) ?N h ?run"
  obtain sc' w' where t: "deallocate_turn sc w x = Some (sc', w', nxt)" "slab_ok sc' w' ?g"
    "words w' = words (give_back w h ?run)" "payload (pgs w') = payload (pgs (give_back w h ?run))" "same_class sc sc'"
    "headers_kept (owned g) (pgs w) (pgs w')" "rd_tree (backend w') = rd_tree (backend w)"
    by (rule deallocate_turn_run [OF ok h(1) r(4) dr(1) r(2,3) nf lr])
  have pd: "pdata (pgs w' k) = pdata (pgs w k)"
    "pcounter (pgs w' k) = (if k = h then pcounter (pgs w h) - length ?run else pcounter (pgs w k))" for k
    using payload_eq [OF t(4), of k] by (auto simp: give_back_def)
  have sl: "in_slab (pgs w') n k = in_slab (pgs w) n k" for n k by (simp add: in_slab_def pd fun_eq_iff)
  have fe: "frees ?g k = (if k = h then ?run @ frees g h else frees g k)" "owned ?g = owned g" "uninits ?g = uninits g" for k
    using after_turn_base [OF rg h(1), of ?N ?run] by (simp_all add: with_run_def) (simp add: after_turn_def with_run_def Let_def)
  have lst: "last ?run \<notin> set rest" using dr(2) last_in_set [of ?run] by auto
  have ch': "chain (words w') nxt rest 0" using r(5) lst t(3) by (simp add: give_back_def set_word_def chain_upd)
  have bt: "batch_ok sc' w' ?g rest"
  proof -
    have "\<exists>k \<in> set (fulls ?g) \<union> set (partials ?g). in_slab (pgs w) ?n k y \<and> y \<notin> set (frees ?g k)" if y: "y \<in> set rest" for y
    proof -
      have "y \<in> set (x # xs)" unfolding r(1) using y by auto
      then obtain k where k: "k \<in> set (fulls g) \<union> set (partials g)" "in_slab (pgs w) ?n k y" "y \<notin> set (frees g k)"
        using use by blast
      have "k = h \<Longrightarrow> pcounter (pgs w h) - length ?run \<noteq> 0"
      proof -
        assume "k = h"
        then have "filter (in_slab (pgs w) ?n h) rest \<noteq> []" using k(2) y by (auto simp: filter_empty_conv)
        then show ?thesis using c1 by (cases "filter (in_slab (pgs w) ?n h) rest") auto
      qed
      then have "k \<in> set (fulls ?g) \<union> set (partials ?g)" by (rule after_turn_in_use [OF k(1)])
      moreover have "y \<notin> set (frees ?g k)" using k(3) dr(2) y by (auto simp: fe)
      ultimately show ?thesis using k(2) by blast
    qed
    moreover have "length (filter (in_slab (pgs w) ?n k) rest) \<le> pcounter (pgs w' k)" if k: "k \<in> owned g" for k
    proof (cases "k = h")
      case True
      then show ?thesis using c1 pd(2) [of h] by simp
    next
      case False
      have "length (filter (in_slab (pgs w) ?n k) (?run @ rest)) \<le> pcounter (pgs w k)" using cnt [OF k] unfolding r(1) .
      then show ?thesis using fk [OF k False] pd(2) [of k] False unfolding filter_append by simp
    qed
    ultimately show ?thesis using dr(3) t(5) by (simp add: batch_ok_def sl fe(2) same_class_def)
  qed
  have le: "length (empties ?g) + length rest \<le> 2048"
  proof -
    have "length (x # xs) = length ?run + length rest" unfolding r(1) by simp
    then show ?thesis using few by (auto simp: after_turn_def with_run_def Let_def)
  qed
  have "batch_result ?n w g ?run w' ?g"
    unfolding batch_result_def
  proof (intro conjI ballI allI impI)
    show "words w' a = words w a" if "a \<notin> set ?run" for a
      using that last_in_set [of ?run] t(3) by (auto simp: give_back_def set_word_def)
  next
    fix k assume k: "k \<in> owned g"
    show "pcounter (pgs w' k) = pcounter (pgs w k) - length (filter (in_slab (pgs w) ?n k) ?run)"
      using fr fk [OF k] pd(2) [of k] by (cases "k = h") simp_all
    have "{y \<in> set ?run. in_slab (pgs w) ?n k y} = set (filter (in_slab (pgs w) ?n k) ?run)" by auto
    then show "set (frees ?g k) = set (frees g k) \<union> {y \<in> set ?run. in_slab (pgs w) ?n k y}"
      using fr fk [OF k] fe(1) [of k] by (cases "k = h") auto
  qed (simp_all add: fe pd t(6,7))
  then show ?thesis using that t(1,2,5) r(1) ch' bt le by blast
qed

lemma batch_result_nil: "batch_result n w g [] w g"
  by (simp add: batch_result_def)

lemma batch_result_append:
  assumes "batch_result n w g xs w1 g1" and "batch_result n w1 g1 ys w2 g2"
  shows "batch_result n w g (xs @ ys) w2 g2"
proof -
  have o: "owned g1 = owned g" using assms(1) by (simp add: batch_result_def)
  have sl: "in_slab (pgs w1) n h = in_slab (pgs w) n h" if "h \<in> owned g" for h
    using assms(1) that by (simp add: batch_result_def in_slab_def fun_eq_iff)
  have "headers_kept (owned g) (pgs w) (pgs w2)" "rd_tree (backend w2) = rd_tree (backend w)"
    using assms headers_kept_trans unfolding batch_result_def o by auto
  then show ?thesis using assms sl unfolding batch_result_def o by auto
qed

lemma deallocate_batch_ok:
  assumes "slab_ok sc w g" and "chain (words w) ptr xs 0" and "batch_ok sc w g xs"
    and "length (empties g) + length xs \<le> 2048"
  shows "\<exists>sc' w' g'. deallocate_batch sc w ptr = Some (sc', w') \<and> slab_ok sc' w' g' \<and> same_class sc sc'
    \<and> batch_result (4096 * pg_num sc) w g xs w' g'"
  using assms
proof (induction "length xs" arbitrary: sc w g ptr xs rule: less_induct)
  case less
  show ?case
  proof (cases xs)
    case Nil
    then have "deallocate_batch sc w ptr = Some (sc, w)"
      using less.prems(2) by (subst deallocate_batch.simps) simp
    then show ?thesis using less.prems(1) batch_result_nil Nil same_class_refl by blast
  next
    case (Cons x ys)
    have x: "ptr = x" "x \<noteq> 0" using less.prems(2) Cons by auto
    obtain sc1 w1 g1 nxt run rest where t: "deallocate_turn sc w x = Some (sc1, w1, nxt)" "slab_ok sc1 w1 g1"
      "x # ys = run @ rest" "run \<noteq> []" "chain (words w1) nxt rest 0" "batch_ok sc1 w1 g1 rest"
      "length (empties g1) + length rest \<le> 2048" "same_class sc sc1" "batch_result (4096 * pg_num sc) w g run w1 g1"
      using less.prems unfolding Cons x(1) by (rule deallocate_batch_step)
    have "length rest < length xs" using t(4) unfolding Cons t(3) by simp
    from less.hyps [OF this t(2,5,6,7)] obtain sc' w' g' where
      r: "deallocate_batch sc1 w1 nxt = Some (sc', w')" "slab_ok sc' w' g'" "batch_result (4096 * pg_num sc1) w1 g1 rest w' g'"
      "same_class sc1 sc'" by blast
    have "deallocate_batch sc w ptr = Some (sc', w')"
      using x t(1) r(1) by (subst deallocate_batch.simps) simp
    moreover have "batch_result (4096 * pg_num sc) w g xs w' g'"
      using batch_result_append [OF t(9)] r(3) t(8) unfolding Cons t(3) by (simp add: same_class_def)
    ultimately show ?thesis using r(2) same_class_trans [OF t(8) r(4)] by blast
  qed
qed


section \<open>Taking a batch\<close>

lemma allocate_all_full:
  "allocate_all st h N a = (st(h := (st h)\<lparr>pcounter := N, pptr := 0\<rparr>),
     if pcounter (st h) = 0 then (pdata (st h), N, Some a) else (pptr (st h), wsub N (pcounter (st h)), None))"
  by (simp add: allocate_all_def Let_def)

text \<open>The header after all its objects are handed out.\<close>

definition used_up :: "slabs \<Rightarrow> nat \<Rightarrow> slabs" where
  "used_up g h = g\<lparr>frees := (frees g)(h := [])\<rparr>"

lemma used_up_base:
  assumes "base_ok N n st m t g"
  shows "base_ok N n (st(h := (st h)\<lparr>pcounter := N, pptr := 0\<rparr>)) m t (used_up g h)"
proof -
  let ?st = "st(h := (st h)\<lparr>pcounter := N, pptr := 0\<rparr>)"
  have d: "pdata (?st k) = pdata (st k)" for k by simp
  have sl: "in_slab ?st n k x = in_slab st n k x" for k x by (simp add: in_slab_def)
  have "page_ok ?st m N n (frees (used_up g h) k) k" if "page_ok st m N n (frees g k) k" for k
    using that by (cases "k = h") (auto simp: page_ok_def used_up_def in_slab_def)
  moreover have "owned (used_up g h) = owned g" by (simp add: used_up_def owned_def)
  ultimately show ?thesis using assms unfolding base_ok_def by (simp only: d sl) blast
qed

lemma used_up_kinds:
  "kinds_ok N st g \<Longrightarrow> h \<notin> set (partials g) \<Longrightarrow> h \<notin> set (empties g) \<Longrightarrow>
    kinds_ok N (st(h := (st h)\<lparr>pcounter := N, pptr := 0\<rparr>)) (used_up g h)"
  by (auto simp: kinds_ok_def used_up_def)

lemma used_up_rings:
  "rings_ok sc (st(h := (st h)\<lparr>pcounter := N, pptr := 0\<rparr>)) (used_up g h) = rings_ok sc st g"
proof -
  have "rings_ok sc (st(h := (st h)\<lparr>pcounter := N, pptr := 0\<rparr>)) g = rings_ok sc st g"
    by (rule rings_ok_links) (simp_all add: next_link_def prev_link_def fun_eq_iff)
  then show ?thesis by (simp add: used_up_def rings_ok_frees)
qed

lemma allocate_batch_partial_ok:
  assumes ok: "slab_ok sc w g" and p: "partials g = h # ps"
  shows "\<exists>sc' w' g'. allocate_batch_v2 sc w 1 = Some (sc', w', hd (frees g h), length (frees g h), None)
    \<and> slab_ok sc' w' g' \<and> fulls g' = fulls g @ [h] \<and> partials g' = ps \<and> empties g' = empties g \<and> uninits g' = uninits g
    \<and> frees g' = (frees g)(h := []) \<and> words w' = words w \<and> chain (words w') (hd (frees g h)) (frees g h) 0
    \<and> (\<forall>k. pdata (pgs w' k) = pdata (pgs w k)) \<and> same_class sc sc' \<and> headers_kept (owned g) (pgs w) (pgs w')
    \<and> (\<forall>k. pcounter (pgs w' k) = (if k = h then as_usize (pg_count sc) else pcounter (pgs w k)))
    \<and> rd_tree (backend w') = rd_tree (backend w)"
proof -
  let ?N = "as_usize (pg_count sc)" and ?n = "4096 * pg_num sc"
  let ?st = "(pgs w)(h := (pgs w h)\<lparr>pcounter := ?N, pptr := 0\<rparr>)"
  have cfg: "config_ok sc" and rg: "rings_ok sc (pgs w) g" and kd: "kinds_ok ?N (pgs w) g"
    and bs: "base_ok ?N ?n (pgs w) (words w) (rd_tree (backend w)) g" using ok by (auto simp: slab_ok_def)
  have ds: "distinct (all_slabs g)" using rg by (simp add: rings_ok_def)
  have hp: "h \<in> set (partials g)" and h0: "h \<noteq> 0" using p rg by (auto simp: rings_ok_def pages.ring_at_def nonzero_def)
  have pg: "page_ok (pgs w) (words w) ?N ?n (frees g h) h" using bs hp by (auto simp: base_ok_def owned_def)
  have cn: "0 < pcounter (pgs w h)" "pcounter (pgs w h) < ?N" using kd hp by (auto simp: kinds_ok_def)
  have "frees g h \<noteq> []" using pg cn by (auto simp: page_ok_def)
  then obtain f fs where ff: "frees g h = f # fs" by (cases "frees g h") auto
  have fl: "wsub ?N (pcounter (pgs w h)) = length (frees g h)" "pptr (pgs w h) = hd (frees g h)"
    using pg cn cfg ff by (auto simp: page_ok_def config_ok_def)
  have rg1: "rings_ok sc ?st (used_up g h)" using rg used_up_rings by simp
  have hp1: "h \<in> set (partials (used_up g h))" using hp by (simp add: used_up_def)
  let ?sc1 = "sc\<lparr>partial_start := first (remove1 h (partials (used_up g h)))\<rparr>"
  obtain st1 where r1: "remove_partial sc ?st h = Some (?sc1, st1)"
    "rings_ok ?sc1 st1 ((used_up g h)\<lparr>partials := remove1 h (partials (used_up g h))\<rparr>)" "payload st1 = payload ?st"
    "headers_kept (owned (used_up g h)) ?st st1"
    by (rule remove_partial_ok [OF rg1 hp1])
  let ?g1 = "(used_up g h)\<lparr>partials := remove1 h (partials (used_up g h))\<rparr>"
  have nin: "h \<notin> set (all_slabs ?g1)" using ds p by (auto simp: all_slabs_def used_up_def)
  let ?sc2 = "?sc1\<lparr>full_start := first (fulls ?g1 @ [h])\<rparr>" and ?g2 = "?g1\<lparr>fulls := fulls ?g1 @ [h]\<rparr>"
  obtain st2 where r2: "insert_full ?sc1 st1 h = Some (?sc2, st2)" "rings_ok ?sc2 st2 ?g2" "payload st2 = payload st1"
    "headers_kept (insert h (owned ?g1)) st1 st2"
    by (rule insert_full_ok [OF r1(2) nin h0])
  have kept: "headers_kept (owned g) (pgs w) st2"
  proof -
    have "headers_kept (owned g) (pgs w) ?st" using hp by (simp add: headers_kept_upd owned_def)
    moreover have "headers_kept (owned g) ?st st1" using r1(4) by (simp add: used_up_def owned_def)
    moreover have "headers_kept (owned g) st1 st2"
      by (rule headers_kept_mono [OF r2(4)]) (use hp in \<open>auto simp: used_up_def owned_def dest: set_remove1_subset [THEN subsetD]\<close>)
    ultimately show ?thesis by (rule headers_kept_steps)
  qed
  have pay: "payload st2 = payload ?st" using r1(3) r2(3) by simp
  have own: "owned ?g2 = owned (used_up g h)" using p by (auto simp: owned_def used_up_def)
  have b2: "base_ok ?N ?n st2 (words w) (rd_tree (backend w)) ?g2"
    using used_up_base [OF bs, of h] base_ok_payload [OF pay] base_ok_lists [OF own] by simp
  have cnt: "pcounter (st2 k) = (if k = h then ?N else pcounter (pgs w k))" for k using payload_eq [OF pay, of k] by simp
  have k2: "kinds_ok ?N st2 ?g2" using kd ds p by (auto simp: kinds_ok_def used_up_def all_slabs_def cnt)
  have al: "allocate_batch_v2 sc w 1 = Some (?sc2, w\<lparr>pgs := st2\<rparr>, hd (frees g h), length (frees g h), None)"
    using r1(1) r2(1) rg p h0 cn fl by (simp add: allocate_batch_v2_def rings_ok_def first_def allocate_all_full Let_def)
  have "slab_ok ?sc2 (w\<lparr>pgs := st2\<rparr>) ?g2" using cfg r2(2) b2 k2 by (simp add: slab_ok_def config_ok_def)
  moreover have "chain (words w) (hd (frees g h)) (frees g h) 0" using pg fl(2) by (simp add: page_ok_def)
  moreover have "pdata (st2 k) = pdata (pgs w k)" for k using payload_eq [OF pay, of k] by simp
  ultimately show ?thesis using al p kept cnt
    by (intro exI [of _ ?sc2] exI [of _ "w\<lparr>pgs := st2\<rparr>"] exI [of _ ?g2]) (simp add: used_up_def same_class_def)
qed

text \<open>A batch for alignment 1 takes the whole free chain of the first partial slab: it returns the chain's first
  object and its length, the slab moves to the full ring, and the state stays well-formed.\<close>

theorem allocate_batch_partial:
  assumes ok: "slab_ok sc w g" and p: "partials g = h # ps"
  shows "\<exists>sc' w' g'. allocate_batch_v2 sc w 1 = Some (sc', w', hd (frees g h), length (frees g h), None)
    \<and> slab_ok sc' w' g' \<and> fulls g' = fulls g @ [h] \<and> partials g' = ps \<and> empties g' = empties g \<and> uninits g' = uninits g
    \<and> frees g' = (frees g)(h := []) \<and> words w' = words w \<and> chain (words w') (hd (frees g h)) (frees g h) 0"
  using allocate_batch_partial_ok [OF assms] by blast

text \<open>Putting a slab whose objects are all handed out on the full ring.\<close>

lemma move_to_full:
  assumes "config_ok sc" and "rings_ok sc st g" and "h \<notin> set (all_slabs g)" and "h \<noteq> 0"
    and "N = as_usize (pg_count sc)" and "base_ok N n st m t (g\<lparr>fulls := fulls g @ [h]\<rparr>)" and "kinds_ok N st g"
    and "pcounter (st h) = N"
  obtains st' where "insert_full sc st h = Some (sc\<lparr>full_start := first (fulls g @ [h])\<rparr>, st')"
    "rings_ok (sc\<lparr>full_start := first (fulls g @ [h])\<rparr>) st' (g\<lparr>fulls := fulls g @ [h]\<rparr>)"
    "base_ok N n st' m t (g\<lparr>fulls := fulls g @ [h]\<rparr>)" "kinds_ok N st' (g\<lparr>fulls := fulls g @ [h]\<rparr>)"
    "payload st' = payload st" "headers_kept (insert h (owned g)) st st'"
proof -
  obtain st' where r: "insert_full sc st h = Some (sc\<lparr>full_start := first (fulls g @ [h])\<rparr>, st')"
    "rings_ok (sc\<lparr>full_start := first (fulls g @ [h])\<rparr>) st' (g\<lparr>fulls := fulls g @ [h]\<rparr>)" "payload st' = payload st"
    "headers_kept (insert h (owned g)) st st'"
    by (rule insert_full_ok [OF assms(2-4)])
  have "kinds_ok N st (g\<lparr>fulls := fulls g @ [h]\<rparr>)" using assms(7,8) by (auto simp: kinds_ok_def)
  then show ?thesis using that r assms(6) base_ok_payload [OF r(3)] kinds_ok_payload [OF r(3)] by simp
qed

lemma allocate_batch_empty_ok:
  assumes ok: "slab_ok sc w g" and e: "empties g = h # es" and np: "partials g = [] \<or> align \<noteq> 1"
  shows "\<exists>sc' w' g'. allocate_batch_v2 sc w align = Some (sc', w', pdata (pgs w h), as_usize (pg_count sc), Some (as_usize (pg_align sc)))
    \<and> slab_ok sc' w' g' \<and> fulls g' = fulls g @ [h] \<and> partials g' = partials g \<and> empties g' = es \<and> uninits g' = uninits g
    \<and> frees g' = (frees g)(h := []) \<and> words w' = words w
    \<and> (\<forall>k. pdata (pgs w' k) = pdata (pgs w k)) \<and> same_class sc sc' \<and> headers_kept (owned g) (pgs w) (pgs w')
    \<and> (\<forall>k. pcounter (pgs w' k) = (if k = h then as_usize (pg_count sc) else pcounter (pgs w k)))
    \<and> rd_tree (backend w') = rd_tree (backend w)"
proof -
  let ?N = "as_usize (pg_count sc)" and ?n = "4096 * pg_num sc"
  have cfg: "config_ok sc" and rg: "rings_ok sc (pgs w) g" and kd: "kinds_ok ?N (pgs w) g"
    and bs: "base_ok ?N ?n (pgs w) (words w) (rd_tree (backend w)) g" using ok by (auto simp: slab_ok_def)
  have ds: "distinct (all_slabs g)" using rg by (simp add: rings_ok_def)
  have h0: "h \<noteq> 0" using e rg by (auto simp: rings_ok_def pages.ring_at_def nonzero_def)
  have cn: "pcounter (pgs w h) = 0" using kd e by (simp add: kinds_ok_def)
  obtain sc1 st1 where r1: "remove_empty sc (pgs w) = Some (sc1, st1, h)" "rings_ok sc1 st1 (g\<lparr>empties := es\<rparr>)"
    "payload st1 = payload (pgs w)" "same_class sc sc1" "headers_kept (owned g) (pgs w) st1"
    by (rule remove_empty_ok [OF rg e])
  have sm: "pg_count sc1 = pg_count sc" "pg_num sc1 = pg_num sc" "pg_align sc1 = pg_align sc"
    using r1(4) by (simp_all add: same_class_def)
  let ?st = "st1(h := (st1 h)\<lparr>pcounter := ?N, pptr := 0\<rparr>)"
  let ?g1 = "used_up (g\<lparr>empties := es\<rparr>) h"
  have p1: "pcounter (st1 k) = pcounter (pgs w k)" "pdata (st1 k) = pdata (pgs w k)" for k using payload_eq [OF r1(3), of k] by auto
  have rg1: "rings_ok sc1 ?st ?g1" using r1(2) used_up_rings by simp
  have nin: "h \<notin> set (all_slabs ?g1)" using ds e by (auto simp: all_slabs_def used_up_def)
  have own: "owned (?g1\<lparr>fulls := fulls ?g1 @ [h]\<rparr>) = owned (used_up g h)" using e by (auto simp: owned_def used_up_def)
  have b1: "base_ok ?N ?n ?st (words w) (rd_tree (backend w)) (?g1\<lparr>fulls := fulls ?g1 @ [h]\<rparr>)"
    using used_up_base [of ?N ?n st1 _ _ g h] bs base_ok_payload [OF r1(3)] base_ok_lists [OF own] by (simp add: used_up_def)
  have k1: "kinds_ok ?N ?st ?g1"
    using kd e ds by (auto simp: kinds_ok_def used_up_def all_slabs_def p1)
  let ?sc2 = "sc1\<lparr>full_start := first (fulls ?g1 @ [h])\<rparr>" and ?g2 = "?g1\<lparr>fulls := fulls ?g1 @ [h]\<rparr>"
  have cfg1: "config_ok sc1" "?N = as_usize (pg_count sc1)" using cfg sm by (simp_all add: config_ok_def)
  have ch: "pcounter (?st h) = ?N" by simp
  obtain st2 where r2: "insert_full sc1 ?st h = Some (?sc2, st2)" "rings_ok ?sc2 st2 ?g2"
    "base_ok ?N ?n st2 (words w) (rd_tree (backend w)) ?g2" "kinds_ok ?N st2 ?g2"
    "payload st2 = payload ?st" "headers_kept (insert h (owned ?g1)) ?st st2"
    by (rule move_to_full [OF cfg1(1) rg1 nin h0 cfg1(2) b1 k1 ch])
  have kept: "headers_kept (owned g) (pgs w) st2"
  proof -
    note r1(5)
    moreover have "headers_kept (owned g) st1 ?st" using e by (simp add: headers_kept_upd owned_def)
    moreover have "headers_kept (owned g) ?st st2"
      by (rule headers_kept_mono [OF r2(6)]) (use e in \<open>auto simp: used_up_def owned_def\<close>)
    ultimately show ?thesis by (rule headers_kept_steps)
  qed
  have pay: "pdata (st2 k) = pdata (pgs w k)" "pcounter (st2 k) = (if k = h then ?N else pcounter (pgs w k))" for k
    using payload_eq [OF r2(5), of k] p1 [of k] by auto
  have pn: "\<not> (partial_start sc \<noteq> 0 \<and> align = 1)" using np rg by (auto simp: rings_ok_def first_def)
  have en: "empty_start sc \<noteq> 0" using rg e h0 by (simp add: rings_ok_def first_def)
  have "allocate_batch_v2 sc w align = Some (?sc2, w\<lparr>pgs := st2\<rparr>, pdata (pgs w h), ?N, Some (as_usize (pg_align sc)))"
  proof -
    have ge: "get_empty sc w = Some (sc1, w\<lparr>pgs := st1\<rparr>, h, None)" using en r1(1) by (simp add: get_empty_def)
    have aa: "allocate_all st1 h (as_usize (pg_count sc1)) (as_usize (pg_align sc1))
      = (?st, pdata (pgs w h), ?N, Some (as_usize (pg_align sc)))" using cn by (simp add: allocate_all_full p1 sm)
    show ?thesis unfolding allocate_batch_v2_def if_not_P [OF pn]
      by (simp add: ge aa r2(1) set_rd_tree_def Let_def)
  qed
  moreover have "slab_ok ?sc2 (w\<lparr>pgs := st2\<rparr>) ?g2"
    using cfg1(1) r2 sm by (simp add: slab_ok_def config_ok_def)
  ultimately show ?thesis using kept pay sm
    by (intro exI [of _ ?sc2] exI [of _ "w\<lparr>pgs := st2\<rparr>"] exI [of _ ?g2]) (simp add: used_up_def same_class_def)
qed

text \<open>When no partial slab may be used and there is an empty one, a batch is all the objects of the first empty slab, to
  be cut at the stride \<open>pg_align\<close>; the slab moves to the full ring and the state stays well-formed.\<close>

theorem allocate_batch_empty:
  assumes ok: "slab_ok sc w g" and e: "empties g = h # es" and np: "partials g = [] \<or> align \<noteq> 1"
  shows "\<exists>sc' w' g'. allocate_batch_v2 sc w align = Some (sc', w', pdata (pgs w h), as_usize (pg_count sc), Some (as_usize (pg_align sc)))
    \<and> slab_ok sc' w' g' \<and> fulls g' = fulls g @ [h] \<and> partials g' = partials g \<and> empties g' = es \<and> uninits g' = uninits g
    \<and> frees g' = (frees g)(h := []) \<and> words w' = words w"
  using allocate_batch_empty_ok [OF assms] by blast

text \<open>A slab with new pages: what the calls of \<open>get_uninit\<close> on the backend must give.\<close>

definition new_slab ::
  "sc_allocator \<Rightarrow> world \<Rightarrow> slabs \<Rightarrow> nat \<Rightarrow> nat \<Rightarrow> machine \<Rightarrow> page_bump \<Rightarrow> free_list \<Rightarrow> bool" where
  "new_slab sc w g h p m pb b \<longleftrightarrow> page_bump_alloc (fl_os (backend w)) (pgb w) OBJECT_PAGE_BYTES = Some (m, pb, h)
     \<and> 0 < h \<and> h < 2 ^ 48 \<and> h \<notin> set (all_slabs g)
     \<and> bsa_alloc ((backend w)\<lparr>fl_os := m\<rparr>) \<lparr>lsize = wmul PAGE_SIZE (pg_num sc), lalign = 8\<rparr> = Some (b, p)
     \<and> 0 < p \<and> p mod 4096 = 0 \<and> p + 4096 * pg_num sc \<le> 2 ^ 48
     \<and> (\<forall>k \<in> owned g. apart (p, 4096 * pg_num sc) (pdata (pgs w k), 4096 * pg_num sc)
        \<and> (\<forall>x \<in> set (frees g k). mem (fl_os b) x = words w x)
        \<and> (\<forall>x. in_slab (pgs w) (4096 * pg_num sc) k x \<longrightarrow> radix_view (rd_tree b) (x div 4096) = int k))"

lemma new_slab_base:
  assumes bs: "base_ok N (4096 * pg_num sc) (pgs w) (words w) t g" and n: "new_slab sc w g h p m pb b"
    and v: "radix_view t' = fill (radix_view (rd_tree b)) (p div 4096) (pg_num sc) (int h)"
  shows "base_ok N (4096 * pg_num sc) ((pgs w)(h := object_page_new\<lparr>pcounter := N, pdata := p, pptr := 0\<rparr>)) (mem (fl_os b)) t'
    ((used_up g h)\<lparr>fulls := fulls g @ [h]\<rparr>)"
proof -
  let ?n = "4096 * pg_num sc" and ?st = "(pgs w)(h := object_page_new\<lparr>pcounter := N, pdata := p, pptr := 0\<rparr>)"
  let ?g = "(used_up g h)\<lparr>fulls := fulls g @ [h]\<rparr>"
  have nh: "h \<notin> owned g" using n by (auto simp: new_slab_def owned_def all_slabs_def)
  have own: "owned ?g = insert h (owned g)" by (auto simp: owned_def used_up_def)
  have ap: "\<And>k. k \<in> owned g \<Longrightarrow> apart (p, ?n) (pdata (pgs w k), ?n)" using n by (simp add: new_slab_def)
  have old: "page_ok ?st (mem (fl_os b)) N ?n (frees ?g k) k \<and> k < 2 ^ 48 \<and> (\<forall>x. in_slab ?st ?n k x \<longrightarrow> radix_view t' (x div 4096) = int k)"
    if k: "k \<in> owned g" for k
  proof -
    have ne: "k \<noteq> h" using k nh by auto
    have pg: "page_ok (pgs w) (words w) N ?n (frees g k) k" "k < 2 ^ 48" using bs k by (auto simp: base_ok_def)
    have "chain (mem (fl_os b)) (pptr (pgs w k)) (frees g k) 0"
      using pg(1) n k chain_cong [of "frees g k" "words w" "mem (fl_os b)"] by (simp add: page_ok_def new_slab_def)
    moreover have "radix_view t' (x div 4096) = int k" if x: "in_slab (pgs w) ?n k x" for x
    proof -
      have "p mod 4096 = 0" "pdata (pgs w k) mod 4096 = 0" using n pg(1) by (auto simp: new_slab_def page_ok_def)
      then have "\<not> (p div 4096 \<le> x div 4096 \<and> x div 4096 < p div 4096 + pg_num sc)"
        using ap [OF k] x page_of_slab [of p x "pg_num sc"] pg(1) by (auto simp: apart_def in_slab_def page_ok_def)
      then show ?thesis using n k x unfolding v by (auto simp: fill_def new_slab_def)
    qed
    ultimately show ?thesis using pg ne by (simp add: page_ok_def in_slab_def used_up_def)
  qed
  have new: "page_ok ?st (mem (fl_os b)) N ?n (frees ?g h) h \<and> h < 2 ^ 48 \<and> (\<forall>x. in_slab ?st ?n h x \<longrightarrow> radix_view t' (x div 4096) = int h)"
  proof -
    have "radix_view t' (x div 4096) = int h" if x: "p \<le> x" "x < p + ?n" for x
      using page_of_slab [of p x "pg_num sc"] x n unfolding v by (auto simp: fill_def new_slab_def)
    then show ?thesis using n by (auto simp: page_ok_def in_slab_def used_up_def new_slab_def)
  qed
  have apart': "apart (pdata (?st k), ?n) (pdata (?st k'), ?n)" if "k \<in> owned ?g" "k' \<in> owned ?g" "k \<noteq> k'" for k k'
    using that bs ap apart_sym unfolding own base_ok_def by (auto simp del: fun_upd_apply split: if_splits) (auto split: if_splits)
  show ?thesis using old new apart' unfolding base_ok_def own by blast
qed

lemma allocate_batch_new_ok:
  assumes ok: "slab_ok sc w g" and e: "empties g = []" "uninits g = []" and np: "partials g = [] \<or> align \<noteq> 1"
    and n: "new_slab sc w g h p m pb b"
  shows "\<exists>sc' w' g'. allocate_batch_v2 sc w align = Some (sc', w', p, as_usize (pg_count sc), Some (as_usize (pg_align sc)))
    \<and> slab_ok sc' w' g' \<and> fulls g' = fulls g @ [h] \<and> partials g' = partials g \<and> empties g' = [] \<and> uninits g' = []
    \<and> frees g' = (frees g)(h := [])
    \<and> (\<forall>x. p \<le> x \<and> x < p + 4096 * pg_num sc \<longrightarrow> radix_get_mut (rd_tree (backend w')) (wshl (align_12k x) 16) = Some (int h))
    \<and> (\<forall>k. pdata (pgs w' k) = (if k = h then p else pdata (pgs w k))) \<and> same_class sc sc'
    \<and> headers_kept (insert h (owned g)) (pgs w) (pgs w')
    \<and> (\<forall>k. pcounter (pgs w' k) = (if k = h then as_usize (pg_count sc) else pcounter (pgs w k)))
    \<and> words w' = mem (fl_os b)
    \<and> radix_view (rd_tree (backend w')) = fill (radix_view (rd_tree b)) (p div 4096) (pg_num sc) (int h)"
proof -
  let ?N = "as_usize (pg_count sc)" and ?n = "4096 * pg_num sc"
  have cfg: "config_ok sc" and rg: "rings_ok sc (pgs w) g" and kd: "kinds_ok ?N (pgs w) g"
    and bs: "base_ok ?N ?n (pgs w) (words w) (rd_tree (backend w)) g" using ok by (auto simp: slab_ok_def)
  have num: "0 < pg_num sc" "pg_num sc \<le> 2 ^ 16" using cfg by (simp_all add: config_ok_def)
  have pb: "page_bump_alloc (fl_os (backend w)) (pgb w) OBJECT_PAGE_BYTES = Some (m, pb, h)" "0 < h" "h \<notin> set (all_slabs g)"
    "bsa_alloc ((backend w)\<lparr>fl_os := m\<rparr>) \<lparr>lsize = wmul PAGE_SIZE (pg_num sc), lalign = 8\<rparr> = Some (b, p)"
    "0 < p" "p mod 4096 = 0" "p + 4096 * pg_num sc \<le> 2 ^ 48" using n unfolding new_slab_def by auto
  have room: "radix_room (rd_tree b) (p div 4096) (pg_num sc)" "p < 2 ^ 48"
    using pb(6,7) num by (auto simp: radix_room_def)
  obtain t where t: "handle_rd_tree_insert (radix_insert None) (pg_num sc) (rd_tree b) h p = Some t"
    "radix_view t = fill (radix_view (rd_tree b)) (p div 4096) (pg_num sc) (int h)"
    by (rule radix.register_slab [OF TrueI room(1) num room(2)]) (rule that)
  let ?st = "(pgs w)(h := object_page_new\<lparr>pcounter := ?N, pdata := p, pptr := 0\<rparr>)"
  let ?g1 = "used_up g h" and ?sc2 = "sc\<lparr>full_start := first (fulls g @ [h])\<rparr>"
  let ?g2 = "?g1\<lparr>fulls := fulls g @ [h]\<rparr>"
  have nin: "h \<notin> set (all_slabs ?g1)" using pb(3) by (simp add: all_slabs_def used_up_def)
  have k1: "kinds_ok ?N ?st ?g1" using kd pb(3) by (auto simp: kinds_ok_def used_up_def all_slabs_def)
  have rr: "pages.ring_at ?st xs = pages.ring_at (pgs w) xs" if "h \<notin> set xs" for xs
    using that by (intro pages.ring_at_kept [of "{h}"])
      (auto simp: pages.links_kept_def nonzero_def next_link_def prev_link_def)
  have rg1: "rings_ok sc ?st ?g1" using rg pb(3) rr by (simp add: rings_ok_def used_up_def all_slabs_def)
  have b1: "base_ok ?N ?n ?st (mem (fl_os b)) t (?g1\<lparr>fulls := fulls ?g1 @ [h]\<rparr>)"
    using new_slab_base [OF bs n t(2)] by (simp add: used_up_def)
  have h0: "h \<noteq> 0" and ch: "pcounter (?st h) = ?N" using pb(2) by simp_all
  have uu: "fulls ?g1 = fulls g" by (simp add: used_up_def)
  obtain st2 where r2: "insert_full sc ?st h = Some (?sc2, st2)" "rings_ok ?sc2 st2 ?g2"
    "base_ok ?N ?n st2 (mem (fl_os b)) t ?g2" "kinds_ok ?N st2 ?g2"
    "payload st2 = payload ?st" "headers_kept (insert h (owned ?g1)) ?st st2"
    by (rule move_to_full [OF cfg rg1 nin h0 refl b1 k1 ch, unfolded uu]) (rule that)
  have kept: "headers_kept (insert h (owned g)) (pgs w) st2"
    by (rule headers_kept_trans [OF headers_kept_upd [of h "{h}"] r2(6)]) (auto simp: used_up_def owned_def)
  have pay: "pdata (st2 k) = (if k = h then p else pdata (pgs w k))" "pcounter (st2 k) = (if k = h then ?N else pcounter (pgs w k))" for k
    using payload_eq [OF r2(5), of k] by auto
  let ?w1 = "w\<lparr>backend := b, pgb := pb, pgs := (pgs w)(h := object_page_new\<lparr>pdata := p, pptr := 0, pcounter := 0\<rparr>)\<rparr>"
  have pn: "\<not> (partial_start sc \<noteq> 0 \<and> align = 1)" using np rg by (auto simp: rings_ok_def first_def)
  have ge: "get_empty sc w = Some (sc, ?w1, h, Some p)"
    using rg e pb by (simp add: get_empty_def get_uninit_def allocate_page_def rings_ok_def first_def Let_def)
  have aa: "allocate_all (pgs ?w1) h ?N (as_usize (pg_align sc)) = (?st, p, ?N, Some (as_usize (pg_align sc)))"
    by (simp add: allocate_all_full object_page_new_def)
  let ?w2 = "set_rd_tree ?w1 t\<lparr>pgs := st2\<rparr>"
  have al: "allocate_batch_v2 sc w align = Some (?sc2, ?w2, p, ?N, Some (as_usize (pg_align sc)))"
    unfolding allocate_batch_v2_def if_not_P [OF pn] ge using t(1) r2(1) aa by (simp add: Let_def)
  have "slab_ok ?sc2 ?w2 ?g2" using cfg r2 by (simp add: slab_ok_def config_ok_def set_rd_tree_def)
  moreover have "radix_get_mut t (wshl (align_12k x) 16) = Some (int h)" if x: "p \<le> x" "x < p + ?n" for x
  proof -
    have x48: "x < 2 ^ 48" using x(2) pb(7) by simp
    then have "p div 4096 \<le> x div 4096 \<and> x div 4096 < p div 4096 + pg_num sc"
      using page_of_slab [OF pb(6) x48] x by simp
    then show ?thesis using radix_get_address [OF x48] t(2) by (simp add: fill_def)
  qed
  ultimately show ?thesis using al e kept pay t(2)
    by (intro exI [of _ ?sc2] exI [of _ ?w2] exI [of _ ?g2]) (simp add: used_up_def set_rd_tree_def same_class_def)
qed


section \<open>A concrete slab\<close>

definition demo_sc :: "nat \<Rightarrow> nat \<Rightarrow> nat \<Rightarrow> nat \<Rightarrow> sc_allocator" where
  "demo_sc f p e n = \<lparr>full_start = f, partial_start = p, empty_start = e, uninit_start = 0, empty_count = n,
     pg_num = 1, pg_count = 2, pg_align = 2048\<rparr>"

text \<open>One slab at \<open>0x5000\<close> with two objects, the header at 64.\<close>

definition demo_words :: "nat \<Rightarrow> nat" where
  "demo_words = (\<lambda>_. 0)(0x5000 := 0x5800)"

definition demo_world :: "nat \<Rightarrow> nat \<Rightarrow> world" where
  "demo_world counter ptr = \<lparr>pgs = (\<lambda>_. object_page_new)(64 := \<lparr>pcounter = counter, pdata = 0x5000, pptr = ptr, pprev = 64, pnext = 64\<rparr>),
     backend = demo_free_list\<lparr>rd_tree := (\<lambda>_. None)(0 := Some ((\<lambda>_. 0)(5 := 64))), fl_os := demo_machine\<lparr>mem := demo_words\<rparr>\<rparr>,
     pgb = page_bump_new\<rparr>"

definition demo_slabs :: "nat list \<Rightarrow> nat list \<Rightarrow> nat list \<Rightarrow> nat list \<Rightarrow> slabs" where
  "demo_slabs f p e fs = \<lparr>fulls = f, partials = p, empties = e, uninits = [], frees = (\<lambda>_. [])(64 := fs)\<rparr>"

lemma demo_rd:
  assumes "0x5000 \<le> x" and "x < 0x6000"
  shows "radix_view ((\<lambda>_. None)(0 := Some ((\<lambda>_. 0)(5 := 64)))) (x div 4096) = 64"
proof -
  have "x div 4096 = 5" using assms by (intro div_nat_eqI) simp_all
  then show ?thesis by (simp add: radix_view_def)
qed

lemmas demo_defs = demo_sc_def demo_world_def demo_slabs_def demo_words_def slab_ok_def config_ok_def as_usize_def
  rings_ok_def base_ok_def kinds_ok_def page_ok_def in_slab_def owned_def all_slabs_def first_def pages.ring_at_def
  nonzero_def next_link_def prev_link_def demo_free_list_def demo_machine_def

lemma demo_full_ok: "slab_ok (demo_sc 64 0 0 0) (demo_world 2 0) (demo_slabs [64] [] [] [])"
  by (simp add: demo_defs ring_def demo_rd)

lemma demo_partial_ok: "slab_ok (demo_sc 0 64 0 0) (demo_world 1 0x5800) (demo_slabs [] [64] [] [0x5800])"
  by (simp add: demo_defs ring_def demo_rd)

lemma demo_empty_ok: "slab_ok (demo_sc 0 0 64 1) (demo_world 0 0x5000) (demo_slabs [] [] [64] [0x5000, 0x5800])"
  by (simp add: demo_defs ring_def demo_rd)

lemma demo_none_ok: "slab_ok (demo_sc 0 0 0 0) (demo_world 0 0) (demo_slabs [] [] [] [])"
  by (simp add: demo_defs ring_def)


lemma allocate_batch_partial_witness:
  "\<exists>sc' w'. allocate_batch_v2 (demo_sc 0 64 0 0) (demo_world 1 0x5800) 1 = Some (sc', w', 0x5800, 1, None)"
  using allocate_batch_partial [OF demo_partial_ok, of 64 "[]"] by (auto simp: demo_slabs_def)

lemma allocate_batch_empty_witness:
  "\<exists>sc' w'. allocate_batch_v2 (demo_sc 0 0 64 1) (demo_world 0 0x5000) 8 = Some (sc', w', 0x5000, 2, Some 2048)"
proof -
  have e: "empties (demo_slabs [] [] [64] [0x5000, 0x5800]) = 64 # []" by (simp add: demo_slabs_def)
  have v: "pdata (pgs (demo_world 0 0x5000) 64) = 0x5000" "as_usize (pg_count (demo_sc 0 0 64 1)) = 2"
    "as_usize (pg_align (demo_sc 0 0 64 1)) = 2048" by (simp_all add: demo_world_def demo_sc_def as_usize_def)
  have "partials (demo_slabs [] [] [64] [0x5000, 0x5800]) = [] \<or> (8::nat) \<noteq> 1" by simp
  from allocate_batch_empty [OF demo_empty_ok e this] show ?thesis unfolding v by blast
qed

lemma fl_alloc_none:
  assumes "fl_ok s (\<lambda>_. [])" and "0 < sz" and "sz \<le> 4096"
  shows "fl_alloc s sz = Some (fl_bump_alloc s sz)"
proof -
  have i: "page_index sz = 0" using page_index_eq [of 1 sz] assms(2,3) by simp
  have f: "first_list (\<lambda>_. []) k = None" for k by (simp add: first_list_def find_None_iff)
  have "fl_scan s 0 1 = Some (s, None)" using fl_scan_implements [OF assms(1), of 0 1] f by simp
  moreover have "remove_one s 0 = Some (s, None)" using remove_one_nil [OF assms(1), of 0] by simp
  moreover have "length (snd (lists s)) = 128" using assms(1) by (simp add: fl_ok_def)
  ultimately show ?thesis using get_slice_ready [OF assms(1)] by (simp add: fl_alloc_def i)
qed


end
