(* ===== verification/Linklist.thy ===== *)
theory Linklist
  imports Machine
begin

text \<open>
  The intrusive free list of a thread cache (\<open>mm/linklist.rs\<close>): the link of a free object is the first word
  of the object. Its specification is a list of addresses: \<open>list_rep\<close> relates the two, and every operation
  has a one-line meaning on lists.
\<close>

record linklist =
  link :: nat
  ll_length :: nat

definition linklist_new :: linklist where
  "linklist_new = \<lparr>link = 0, ll_length = 0\<rparr>"

text \<open>An operation takes the words and the list, and returns the new ones.\<close>

definition push_unchecked :: "(nat \<Rightarrow> nat) \<Rightarrow> linklist \<Rightarrow> nat \<Rightarrow> ((nat \<Rightarrow> nat) \<times> linklist) option" where
  "push_unchecked m l ptr = do {
     ensure (ptr \<noteq> 0);
     let target = ptr;
     let current = link l;
     let m = m(target := current);
     Some (m, \<lparr>link = target, ll_length = wadd (ll_length l) 1\<rparr>) }"

text \<open>The walk of \<open>pop_unchecked_aligned\<close>; it does not return on a cycle without an aligned object.\<close>

partial_function (option) pop_scan ::
  "(nat \<Rightarrow> nat) \<Rightarrow> nat \<Rightarrow> nat \<Rightarrow> nat \<Rightarrow> ((nat \<Rightarrow> nat) \<times> nat \<times> bool) option" where
  "pop_scan m align pre now =
     (if now = 0 then Some (m, 0, False)
      else if now AND (align - 1) = 0 then Some (m(pre := m now), now, True)
      else pop_scan m align now (m now))"

definition pop_unchecked_aligned ::
  "(nat \<Rightarrow> nat) \<Rightarrow> linklist \<Rightarrow> nat \<Rightarrow> ((nat \<Rightarrow> nat) \<times> linklist \<times> nat) option" where
  "pop_unchecked_aligned m l align =
     (if ll_length l = 0 then Some (m, l, 0) else do {
        let result = link l;
        ensure (result \<noteq> 0);
        if result AND (align - 1) = 0 then do {
          let next' = m result;
          Some (m, \<lparr>link = next', ll_length = wsub (ll_length l) 1\<rparr>, result) }
        else do {
          let pre = result;
          let now = m pre;
          (m, now, found) \<leftarrow> pop_scan m align pre now;
          Some (m, if found then l\<lparr>ll_length := wsub (ll_length l) 1\<rparr> else l, now) } })"

section \<open>The list it stands for\<close>

definition list_rep :: "(nat \<Rightarrow> nat) \<Rightarrow> linklist \<Rightarrow> nat list \<Rightarrow> bool" where
  "list_rep m l xs \<longleftrightarrow> chain m (link l) xs 0 \<and> distinct xs \<and> ll_length l = length xs \<and> length xs < 2 ^ 63"

lemma list_rep_new [simp]: "list_rep m linklist_new []"
  by (simp add: list_rep_def linklist_new_def)

lemma list_rep_nonzero: "list_rep m l xs \<Longrightarrow> 0 \<notin> set xs"
  using chain_nonzero by (auto simp: list_rep_def)

lemma list_rep_cong: "(\<And>x. x \<in> set xs \<Longrightarrow> m x = m' x) \<Longrightarrow> list_rep m l xs = list_rep m' l xs"
  using chain_cong [of xs m m'] by (simp add: list_rep_def)

lemma push_rep:
  assumes "list_rep m l xs" "ptr \<noteq> 0" "ptr \<notin> set xs" "length xs < 2 ^ 63 - 1"
  obtains l' where "push_unchecked m l ptr = Some (m(ptr := link l), l')" "list_rep (m(ptr := link l)) l' (ptr # xs)"
  using assms by (auto simp: push_unchecked_def list_rep_def chain_upd)

text \<open>The walk finds the first aligned object after the head and unlinks it.\<close>

lemma pop_scan_finds:
  assumes "chain m pre (pre # xs) 0" "distinct (pre # xs)"
  shows "pop_scan m algn pre (m pre) =
    (case find (\<lambda>x. x AND (algn - 1) = 0) xs of
       None \<Rightarrow> Some (m, 0, False)
     | Some x \<Rightarrow> (let w = last (pre # takeWhile (\<lambda>x. x AND (algn - 1) \<noteq> 0) xs) in Some (m(w := m x), x, True)))"
  using assms
proof (induction xs arbitrary: pre)
  case Nil
  then show ?case by (subst pop_scan.simps) simp
next
  case (Cons x xs)
  have x: "m pre = x" "x \<noteq> 0" "chain m x (x # xs) 0" "distinct (x # xs)" using Cons.prems by auto
  show ?case
  proof (cases "x AND (algn - 1) = 0")
    case True
    then show ?thesis using x by (subst pop_scan.simps) simp
  next
    case False
    then have "pop_scan m algn pre (m pre) = pop_scan m algn x (m x)"
      using x by (subst pop_scan.simps) simp
    then show ?thesis using Cons.IH [OF x(3,4)] False by (auto simp: Let_def fun_eq_iff split: option.splits)
  qed
qed

lemma find_takeWhile:
  "find P xs = Some x \<Longrightarrow> \<exists>ys. xs = takeWhile (\<lambda>x. \<not> P x) xs @ x # ys \<and> P x"
  by (induction xs) (auto split: if_splits)

lemma remove1_split: "x \<notin> set us \<Longrightarrow> remove1 x (us @ x # vs) = us @ vs"
  by (simp add: remove1_append)

lemma pop_rep:
  assumes "list_rep m l xs"
  shows "\<exists>m' l'. pop_unchecked_aligned m l algn =
      Some (m', l', case find (\<lambda>x. x AND (algn - 1) = 0) xs of None \<Rightarrow> 0 | Some x \<Rightarrow> x)
    \<and> list_rep m' l' (case find (\<lambda>x. x AND (algn - 1) = 0) xs of None \<Rightarrow> xs | Some x \<Rightarrow> remove1 x xs)
    \<and> (\<forall>a. a \<notin> set xs \<longrightarrow> m' a = m a)"
proof (cases xs)
  case Nil
  then show ?thesis using assms by (simp add: pop_unchecked_aligned_def list_rep_def)
next
  case (Cons h hs)
  have c: "link l = h" "h \<noteq> 0" "chain m h (h # hs) 0" "distinct (h # hs)" "ll_length l = length (h # hs)"
    "length xs < 2 ^ 63"
    using assms Cons by (auto simp: list_rep_def)
  have len: "wsub (ll_length l) 1 = length hs" using c(5,6) Cons by simp
  show ?thesis
  proof (cases "h AND (algn - 1) = 0")
    case True
    then show ?thesis using c len Cons by (auto simp: pop_unchecked_aligned_def list_rep_def)
  next
    case False
    note S = pop_scan_finds [OF c(3,4), of algn]
    show ?thesis
    proof (cases "find (\<lambda>x. x AND (algn - 1) = 0) hs")
      case None
      then show ?thesis using S False c Cons assms by (simp add: pop_unchecked_aligned_def)
    next
      case (Some x)
      define us where "us = takeWhile (\<lambda>x. x AND (algn - 1) \<noteq> 0) hs"
      obtain vs where hs: "hs = us @ x # vs" using find_takeWhile [OF Some] by (auto simp: us_def)
      define w where "w = last (h # us)"
      obtain ws where ws: "h # us = ws @ [w]" unfolding w_def by (metis append_butlast_last_id list.distinct(1))
      have full: "h # hs = ws @ w # x # vs" using ws hs by (metis append.assoc append_Cons append_Nil)
      have ch: "chain (m(w := m x)) h (ws @ w # vs) 0" "distinct (ws @ w # vs)"
        using chain_remove [of m h ws w x vs 0] c(3,4) unfolding full by auto
      have r1: "remove1 x (h # hs) = ws @ w # vs"
        using c(4) unfolding full by (simp add: remove1_append)
      have "pop_unchecked_aligned m l algn = Some (m(w := m x), l\<lparr>ll_length := length hs\<rparr>, x)"
        using S Some False c len by (simp add: pop_unchecked_aligned_def us_def w_def Let_def)
      moreover have "list_rep (m(w := m x)) (l\<lparr>ll_length := length hs\<rparr>) (ws @ w # vs)"
        using ch c hs Cons r1 length_remove1 [of x "h # hs"] by (simp add: list_rep_def)
      moreover have "w \<in> set xs" using full Cons by (metis in_set_conv_decomp)
      ultimately show ?thesis using False Some r1 Cons by auto
    qed
  qed
qed

text \<open>Popping with an alignment returns the first object of the list that has it and takes exactly that
  object out, whatever its position; without such an object it returns null and keeps the list. The walk
  always ends, and no word outside the list's objects is written.\<close>

theorem linklist_pop_aligned:
  assumes "list_rep m l xs" "is_pow2 algn"
  shows "\<exists>m' l'. pop_unchecked_aligned m l algn =
      Some (m', l', case find (\<lambda>x. algn dvd x) xs of None \<Rightarrow> 0 | Some x \<Rightarrow> x)
    \<and> list_rep m' l' (case find (\<lambda>x. algn dvd x) xs of None \<Rightarrow> xs | Some x \<Rightarrow> remove1 x xs)
    \<and> (\<forall>a. a \<notin> set xs \<longrightarrow> m' a = m a)"
proof -
  have e: "(\<lambda>x. x AND (algn - 1) = 0) = (\<lambda>x. algn dvd x)"
    by (rule ext) (simp only: and_mask_mod [OF assms(2)] dvd_eq_mod_eq_0)
  show ?thesis using pop_rep [OF assms(1), of algn] unfolding e .
qed

theorem linklist_pop_aligned_witness:
  "\<exists>m' l'. pop_unchecked_aligned ((\<lambda>_. 0)(24 := 40, 40 := 48)) \<lparr>link = 24, ll_length = 3\<rparr> 16 = Some (m', l', 48)
    \<and> list_rep m' l' [24, 40]"
proof -
  have "is_pow2 16" using is_pow2_power [of 4] by simp
  moreover have "list_rep ((\<lambda>_. 0)(24 := 40, 40 := 48)) \<lparr>link = 24, ll_length = 3\<rparr> [24, 40, 48]"
    by (simp add: list_rep_def)
  ultimately show ?thesis
    using linklist_pop_aligned [of "(\<lambda>_. 0)(24 := 40, 40 := 48)" "\<lparr>link = 24, ll_length = 3\<rparr>" "[24, 40, 48]" 16]
    by auto
qed

text \<open>A freed object is the next one given out: pushing and then popping without an alignment demand
  returns the object and the list there was.\<close>

theorem linklist_push_pop:
  assumes "list_rep m l xs" "ptr \<noteq> 0" "ptr \<notin> set xs" "length xs < 2 ^ 63 - 1"
  shows "\<exists>m1 l1 l2. push_unchecked m l ptr = Some (m1, l1) \<and> list_rep m1 l1 (ptr # xs)
    \<and> pop_unchecked_aligned m1 l1 1 = Some (m1, l2, ptr) \<and> l2 = l"
  using assms by (auto simp: push_unchecked_def list_rep_def chain_upd pop_unchecked_aligned_def)

theorem linklist_push_pop_witness:
  "\<exists>m1 l1. push_unchecked (\<lambda>_. 0) linklist_new 64 = Some (m1, l1) \<and> pop_unchecked_aligned m1 l1 1 = Some (m1, linklist_new, 64)"
  using linklist_push_pop [of "\<lambda>_. 0" linklist_new "[]" 64] by auto

end
