(* ===== verification/ThreadCache.thy ===== *)
theory ThreadCache
  imports Slab Linklist BuddySystem "HOL-Library.Multiset"
begin

text \<open>
  The zone (\<open>zone.rs\<close>), one slab allocator for each size class; the thread cache on top of it
  (\<open>cache/thread_cache.rs\<close>), for each class a free list and what is left of a batch that is still to be cut;
  and \<open>RustAllocator\<close> (\<open>cache/mod.rs\<close>), the global allocator. One thread is modelled, so the locks of the
  zone are always free. The objects a unit of the cache holds are \<open>xs\<close> on its list and \<open>bs\<close> still uncut.
\<close>

section \<open>The zone\<close>

record zone =
  zslabs :: "sc_allocator list"
  zworld :: world

fun zone_slabs :: "nat \<Rightarrow> nat \<Rightarrow> sc_allocator list option" where
  "zone_slabs idx 0 = Some []"
| "zone_slabs idx (Suc n) = do {
     sz \<leftarrow> get_rounded_size_by_idx idx;
     pgs \<leftarrow> get_num_pages_by_idx idx;
     item \<leftarrow> sc_new sz pgs;
     items \<leftarrow> zone_slabs (Suc idx) n;
     Some (item # items) }"

definition zone_new :: "world \<Rightarrow> zone option" where
  "zone_new w = do { items \<leftarrow> zone_slabs 0 TOTAL_SIZE_CLASS; Some \<lparr>zslabs = items, zworld = w\<rparr> }"

definition allocate_batch_from_slab :: "zone \<Rightarrow> nat \<Rightarrow> nat \<Rightarrow> (zone \<times> nat \<times> nat \<times> nat option) option" where
  "allocate_batch_from_slab z idx align = do {
     ensure (idx < length (zslabs z));
     (sc, w, ans) \<leftarrow> allocate_batch_v2 (zslabs z ! idx) (zworld z) align;
     Some (\<lparr>zslabs = (zslabs z)[idx := sc], zworld = w\<rparr>, ans) }"

definition deallocate_batch_to_slab :: "zone \<Rightarrow> nat \<Rightarrow> nat \<Rightarrow> zone option" where
  "deallocate_batch_to_slab z idx ptr = do {
     ensure (idx < length (zslabs z));
     (sc, w) \<leftarrow> deallocate_batch (zslabs z ! idx) (zworld z) ptr;
     Some \<lparr>zslabs = (zslabs z)[idx := sc], zworld = w\<rparr> }"

definition allocate_large :: "zone \<Rightarrow> layout \<Rightarrow> (zone \<times> (alloc_error + nat)) option" where
  "allocate_large z l = do {
     (b, ptr) \<leftarrow> bsa_alloc (backend (zworld z)) l;
     Some (z\<lparr>zworld := (zworld z)\<lparr>backend := b\<rparr>\<rparr>, Inr ptr) }"

definition deallocate_large :: "zone \<Rightarrow> nat \<Rightarrow> layout \<Rightarrow> zone option" where
  "deallocate_large z page_ptr l = do {
     b \<leftarrow> bsa_dealloc (backend (zworld z)) page_ptr l;
     Some (z\<lparr>zworld := (zworld z)\<lparr>backend := b\<rparr>\<rparr>) }"

definition set_words :: "zone \<Rightarrow> (nat \<Rightarrow> nat) \<Rightarrow> zone" where
  "set_words z m = z\<lparr>zworld := (zworld z)\<lparr>backend := (backend (zworld z))\<lparr>fl_os :=
     (fl_os (backend (zworld z)))\<lparr>mem := m\<rparr>\<rparr>\<rparr>\<rparr>"

abbreviation zwords :: "zone \<Rightarrow> nat \<Rightarrow> nat" where
  "zwords z \<equiv> words (zworld z)"

section \<open>A unit of the cache\<close>

record thread_cache_unit =
  tlist :: linklist
  bump_ptr :: nat
  bump_count :: int
  bump_unit :: int

definition unit_new :: thread_cache_unit where
  "unit_new = \<lparr>tlist = linklist_new, bump_ptr = 0, bump_count = 0, bump_unit = 0\<rparr>"

definition unit_free :: "thread_cache_unit \<Rightarrow> zone \<Rightarrow> nat \<Rightarrow> (thread_cache_unit \<times> zone) option" where
  "unit_free u z ptr = do {
     (m, l) \<leftarrow> push_unchecked (zwords z) (tlist u) ptr;
     Some (u\<lparr>tlist := l\<rparr>, set_words z m) }"

text \<open>The statements after the early \<open>return\<close> of \<open>deallocate\<close> are dead.\<close>

definition unit_deallocate :: "thread_cache_unit \<Rightarrow> zone \<Rightarrow> nat \<Rightarrow> nat \<Rightarrow> nat \<Rightarrow> (thread_cache_unit \<times> zone) option" where
  "unit_deallocate u z idx ptr sz = do {
     (m, l) \<leftarrow> push_unchecked (zwords z) (tlist u) ptr;
     Some (u\<lparr>tlist := l\<rparr>, set_words z m) }"

definition advance :: "thread_cache_unit \<Rightarrow> thread_cache_unit" where
  "advance u = u\<lparr>bump_ptr := wadd (bump_ptr u) (as_usize (bump_unit u)), bump_count := bump_count u - 1\<rparr>"

text \<open>The loop of \<open>clean_up\<close>, and the loop of \<open>allocate\<close> over the uncut objects.\<close>

function cut_all :: "thread_cache_unit \<Rightarrow> zone \<Rightarrow> (thread_cache_unit \<times> zone) option" where
  "cut_all u z =
     (if bump_count u > 0 then do {
        (u', z) \<leftarrow> unit_free u z (bump_ptr u);
        cut_all (advance (u\<lparr>tlist := tlist u'\<rparr>)) z }
      else Some (u, z))"
  by pat_completeness auto
termination by (relation "measure (\<lambda>(u, z). nat (bump_count u))") (auto simp: advance_def)

declare cut_all.simps [simp del]

definition clean_up :: "thread_cache_unit \<Rightarrow> zone \<Rightarrow> nat \<Rightarrow> (thread_cache_unit \<times> zone) option" where
  "clean_up u z idx = do {
     (u, z) \<leftarrow> cut_all u z;
     z \<leftarrow> (if ll_length (tlist u) > 0 then deallocate_batch_to_slab z idx (link (tlist u)) else Some z);
     Some (unit_new, z) }"

function cut_aligned :: "thread_cache_unit \<Rightarrow> zone \<Rightarrow> nat \<Rightarrow> (thread_cache_unit \<times> zone \<times> nat) option" where
  "cut_aligned u z align =
     (if bump_count u > 0 then
        (if bump_ptr u AND (align - 1) = 0 then
           (if bump_ptr u \<noteq> 0 then Some (advance u, z, bump_ptr u) else cut_aligned (advance u) z align)
         else do {
           (u', z) \<leftarrow> unit_free u z (bump_ptr u);
           cut_aligned (advance (u\<lparr>tlist := tlist u'\<rparr>)) z align })
      else Some (u, z, 0))"
  by pat_completeness auto
termination by (relation "measure (\<lambda>(u, z, a). nat (bump_count u))") (auto simp: advance_def)

declare cut_aligned.simps [simp del]

definition nonnull :: "nat \<Rightarrow> nat option" where
  "nonnull p = (if p = 0 then None else Some p)"

definition refill :: "thread_cache_unit \<Rightarrow> zone \<Rightarrow> nat \<Rightarrow> nat \<Rightarrow> (thread_cache_unit \<times> zone \<times> nat) option" where
  "refill u z idx align = do {
     (z, p, n, stride) \<leftarrow> allocate_batch_from_slab z idx align;
     u \<leftarrow> (case stride of
         Some bump \<Rightarrow> Some (u\<lparr>bump_count := as_i32 (wsub n 1), bump_unit := as_i32 bump, bump_ptr := wadd p bump\<rparr>)
       | None \<Rightarrow> do {
           ensure (ll_length (tlist u) = 0);
           let head = zwords z p;
           Some (u\<lparr>tlist := \<lparr>link = head, ll_length = wsub n 1\<rparr>\<rparr>) });
     ans \<leftarrow> nonnull p;
     Some (u, z, ans) }"

definition unit_allocate :: "thread_cache_unit \<Rightarrow> zone \<Rightarrow> nat \<Rightarrow> nat \<Rightarrow> (thread_cache_unit \<times> zone \<times> nat) option" where
  "unit_allocate u z idx align = do {
     (u, z, ans) \<leftarrow> (if ll_length (tlist u) > 0 then do {
         (m, l, ans) \<leftarrow> pop_unchecked_aligned (zwords z) (tlist u) align;
         Some (u\<lparr>tlist := l\<rparr>, set_words z m, ans) }
       else Some (u, z, 0));
     if ans \<noteq> 0 then Some (u, z, ans)
     else do {
       (u, z, ans) \<leftarrow> cut_aligned u z align;
       if ans \<noteq> 0 then Some (u, z, ans) else refill u z idx align } }"

section \<open>The thread cache\<close>

definition thread_cache_new :: "thread_cache_unit list" where
  "thread_cache_new = replicate TOTAL_SIZE_CLASS unit_new"

fun cleanup_from :: "thread_cache_unit list \<Rightarrow> zone \<Rightarrow> nat \<Rightarrow> nat \<Rightarrow> (thread_cache_unit list \<times> zone) option" where
  "cleanup_from us z idx 0 = Some (us, z)"
| "cleanup_from us z idx (Suc n) = do {
     u \<leftarrow> aget us idx;
     (u, z) \<leftarrow> clean_up u z idx;
     cleanup_from (us[idx := u]) z (Suc idx) n }"

definition cleanup_cache_unchecked :: "thread_cache_unit list \<Rightarrow> zone \<Rightarrow> (thread_cache_unit list \<times> zone) option" where
  "cleanup_cache_unchecked us z = cleanup_from us z 1 (length us - 1)"

definition tc_allocate :: "thread_cache_unit list \<Rightarrow> zone \<Rightarrow> layout \<Rightarrow>
    (thread_cache_unit list \<times> zone \<times> (alloc_error + nat)) option" where
  "tc_allocate us z l = do {
     cls \<leftarrow> get_size_class (lsize l);
     (case cls of
        Base idx \<Rightarrow>
          if idx = 0 then Some (us, z, Inr 0x100000000000)
          else do {
            size_cache \<leftarrow> aget us idx;
            (u, z, ans) \<leftarrow> unit_allocate size_cache z idx (lalign l);
            Some (us[idx := u], z, Inr ans) }
      | Large _ \<Rightarrow> do {
          (z, r) \<leftarrow> allocate_large z l;
          Some (us, z, case r of Inr ans \<Rightarrow> Inr ans | Inl e \<Rightarrow> Inl ENOMEM) }) }"

definition tc_deallocate :: "thread_cache_unit list \<Rightarrow> zone \<Rightarrow> nat \<Rightarrow> layout \<Rightarrow> (thread_cache_unit list \<times> zone) option" where
  "tc_deallocate us z ptr l = do {
     cls \<leftarrow> get_size_class (lsize l);
     (case cls of
        Base idx \<Rightarrow>
          if idx = 0 then Some (us, z)
          else do {
            size_cache \<leftarrow> aget us idx;
            sz \<leftarrow> get_rounded_size_by_idx idx;
            (u, z) \<leftarrow> unit_deallocate size_cache z idx ptr sz;
            Some (us[idx := u], z) }
      | Large _ \<Rightarrow> do {
          z \<leftarrow> deallocate_large z ptr l;
          Some (us, z) }) }"

text \<open>The end of a thread: its cache is flushed and its memory goes back to \<open>META_BUMP\<close>.\<close>

definition free_thread_cache :: "thread_cache_unit list \<Rightarrow> zone \<Rightarrow> nat \<Rightarrow> (thread_cache_unit list \<times> zone) option" where
  "free_thread_cache us z ptr = do {
     ensure (ptr \<noteq> 0);
     (us, z) \<leftarrow> cleanup_cache_unchecked us z;
     let (m, mb) = meta_bump_dealloc (fl_os (backend (zworld z))) (fl_meta (backend (zworld z))) ptr;
     Some (us, z\<lparr>zworld := (zworld z)\<lparr>backend := (backend (zworld z))\<lparr>fl_os := m, fl_meta := mb\<rparr>\<rparr>\<rparr>) }"

section \<open>The global allocator\<close>

text \<open>\<open>data\<close> are the bytes the users of the objects store.\<close>

record heap_state =
  tcache :: "thread_cache_unit list"
  zoned :: zone
  data :: "nat \<Rightarrow> nat"

definition rust_alloc :: "heap_state \<Rightarrow> layout \<Rightarrow> (heap_state \<times> nat) option" where
  "rust_alloc s l = do {
     (us, z, r) \<leftarrow> tc_allocate (tcache s) (zoned s) l;
     Some (s\<lparr>tcache := us, zoned := z\<rparr>, case r of Inr p \<Rightarrow> p | Inl e \<Rightarrow> 0) }"

definition rust_dealloc :: "heap_state \<Rightarrow> nat \<Rightarrow> layout \<Rightarrow> heap_state option" where
  "rust_dealloc s ptr l = do {
     (us, z) \<leftarrow> tc_deallocate (tcache s) (zoned s) ptr l;
     Some (s\<lparr>tcache := us, zoned := z\<rparr>) }"

definition rust_realloc :: "heap_state \<Rightarrow> nat \<Rightarrow> layout \<Rightarrow> nat \<Rightarrow> (heap_state \<times> nat) option" where
  "rust_realloc s ptr l new_size = do {
     old_class \<leftarrow> get_size_class (lsize l);
     new_class \<leftarrow> get_size_class new_size;
     let old_idx = index old_class;
     let new_idx = index new_class;
     if old_idx = new_idx then Some (s, ptr)
     else do {
       let new_layout = \<lparr>lsize = new_size, lalign = lalign l\<rparr>;
       (s, new_ptr) \<leftarrow> rust_alloc s new_layout;
       if new_ptr \<noteq> 0 then do {
         d \<leftarrow> copy_bytes (data s) ptr new_ptr (min (lsize l) new_size);
         s \<leftarrow> rust_dealloc (s\<lparr>data := d\<rparr>) ptr l;
         Some (s, new_ptr) }
       else Some (s, new_ptr) } }"

text \<open>The \<open>Allocator\<close> on top wraps the pointer without looking at it.\<close>

definition rust_allocate :: "heap_state \<Rightarrow> layout \<Rightarrow> (heap_state \<times> nat \<times> nat) option" where
  "rust_allocate s l = do { (s, p) \<leftarrow> rust_alloc s l; Some (s, p, lsize l) }"

definition rust_deallocate :: "heap_state \<Rightarrow> nat \<Rightarrow> layout \<Rightarrow> heap_state option" where
  "rust_deallocate s ptr l = rust_dealloc s ptr l"

section \<open>What a unit stands for\<close>

fun uncut :: "nat \<Rightarrow> nat \<Rightarrow> nat \<Rightarrow> nat list" where
  "uncut p stride 0 = []"
| "uncut p stride (Suc n) = p # uncut (p + stride) stride n"

definition unit_ok :: "(nat \<Rightarrow> nat) \<Rightarrow> thread_cache_unit \<Rightarrow> nat list \<Rightarrow> nat list \<Rightarrow> bool" where
  "unit_ok m u xs bs \<longleftrightarrow> list_rep m (tlist u) xs \<and> 0 \<le> bump_count u
     \<and> bs = uncut (bump_ptr u) (as_usize (bump_unit u)) (nat (bump_count u))
     \<and> (bs \<noteq> [] \<longrightarrow> 0 < bump_ptr u \<and> 0 < as_usize (bump_unit u)
        \<and> bump_ptr u + nat (bump_count u) * as_usize (bump_unit u) < 2 ^ 63)
     \<and> distinct (xs @ bs) \<and> length (xs @ bs) < 2 ^ 62"

lemma unit_new_ok [simp]: "unit_ok m unit_new [] []"
  by (simp add: unit_ok_def unit_new_def)

lemma uncut_nil [simp]: "uncut p s n = [] \<longleftrightarrow> n = 0" "[] = uncut p s n \<longleftrightarrow> n = 0"
  by (cases n; auto)+

lemma zwords_set [simp]: "zwords (set_words z m) = m"
  by (simp add: set_words_def)

lemma set_words_twice [simp]: "set_words (set_words z m) m' = set_words z m'"
  by (simp add: set_words_def)

lemma set_words_same: "z' = set_words z m \<Longrightarrow> set_words z' (zwords z') = z'"
  by (simp add: set_words_def)

text \<open>Only the words of some objects change.\<close>

definition only_words :: "nat set \<Rightarrow> zone \<Rightarrow> zone \<Rightarrow> bool" where
  "only_words A z z' \<longleftrightarrow> z' = set_words z (zwords z') \<and> (\<forall>a. a \<notin> A \<longrightarrow> zwords z' a = zwords z a)"

lemma set_words_id [simp]: "set_words z (zwords z) = z"
  by (simp add: set_words_def)

lemma only_words_refl [simp]: "only_words A z z"
  by (simp add: only_words_def)

lemma only_words_trans: "only_words A z z1 \<Longrightarrow> only_words B z1 z2 \<Longrightarrow> only_words (A \<union> B) z z2"
  unfolding only_words_def by (metis UnCI set_words_twice)

lemma only_words_mono: "only_words A z z' \<Longrightarrow> A \<subseteq> B \<Longrightarrow> only_words B z z'"
  unfolding only_words_def by blast

text \<open>Taking the first uncut object, and moving it to the list.\<close>

lemma unit_ok_advance:
  assumes "unit_ok m u xs (b # bs)"
  shows "bump_ptr u = b" "0 < bump_count u" "0 < b" "unit_ok m (advance u) xs bs"
proof -
  let ?s = "as_usize (bump_unit u)"
  have e: "b # bs = uncut (bump_ptr u) ?s (nat (bump_count u))" and nn: "0 \<le> bump_count u"
    and bd: "0 < bump_ptr u" "0 < ?s" "bump_ptr u + nat (bump_count u) * ?s < 2 ^ 63"
    using assms by (auto simp: unit_ok_def)
  then obtain n where n: "nat (bump_count u) = Suc n" by (cases "nat (bump_count u)") auto
  then have b: "b = bump_ptr u" "bs = uncut (bump_ptr u + ?s) ?s n" using e by auto
  have nb: "nat (bump_count u - 1) = n" using n by simp
  have sm: "bump_ptr u + ?s + n * ?s < 2 ^ 63" using bd(3) n by simp
  then have w: "wadd (bump_ptr u) ?s = bump_ptr u + ?s" by simp
  show "bump_ptr u = b" "0 < bump_count u" "0 < b" using b n nn bd by auto
  show "unit_ok m (advance u) xs bs"
    using assms b w nb n nn bd sm by (auto simp: unit_ok_def advance_def)
qed

lemma unit_ok_push:
  assumes "unit_ok (zwords z) u xs (b # bs)"
  obtains u' z' where "unit_free u z (bump_ptr u) = Some (u', z')" "only_words {b} z z'"
    "unit_ok (zwords z') (advance (u\<lparr>tlist := tlist u'\<rparr>)) (b # xs) bs"
proof -
  note a = unit_ok_advance [OF assms]
  have r: "list_rep (zwords z) (tlist u) xs" "b \<notin> set xs" "length xs < 2 ^ 63 - 1" "b \<noteq> 0"
    using assms a(3) by (auto simp: unit_ok_def)
  obtain l where l: "push_unchecked (zwords z) (tlist u) b = Some ((zwords z)(b := link (tlist u)), l)"
    "list_rep ((zwords z)(b := link (tlist u))) l (b # xs)"
    by (rule push_rep [OF r(1,4,2,3)])
  let ?z = "set_words z ((zwords z)(b := link (tlist u)))"
  have "unit_free u z (bump_ptr u) = Some (u\<lparr>tlist := l\<rparr>, ?z)" using l(1) a(1) by (simp add: unit_free_def)
  moreover have "only_words {b} z ?z" by (simp add: only_words_def)
  moreover have "unit_ok (zwords ?z) (advance (u\<lparr>tlist := l\<rparr>)) (b # xs) bs"
    using a(4) l(2) assms by (auto simp: unit_ok_def advance_def)
  ultimately show ?thesis using that by simp
qed

lemma cut_all_ok:
  "unit_ok (zwords z) u xs bs \<Longrightarrow> \<exists>u' z'. cut_all u z = Some (u', z') \<and> only_words (set bs) z z'
    \<and> unit_ok (zwords z') u' (rev bs @ xs) []"
proof (induction bs arbitrary: u z xs)
  case Nil
  then have "\<not> bump_count u > 0" by (auto simp: unit_ok_def)
  then show ?case using Nil by (subst cut_all.simps) simp
next
  case (Cons b bs)
  note a = unit_ok_advance [OF Cons.prems]
  obtain u1 z1 where p: "unit_free u z (bump_ptr u) = Some (u1, z1)" "only_words {b} z z1"
    "unit_ok (zwords z1) (advance (u\<lparr>tlist := tlist u1\<rparr>)) (b # xs) bs" by (rule unit_ok_push [OF Cons.prems])
  obtain u' z' where c: "cut_all (advance (u\<lparr>tlist := tlist u1\<rparr>)) z1 = Some (u', z')" "only_words (set bs) z1 z'"
    "unit_ok (zwords z') u' (rev bs @ b # xs) []" using Cons.IH [OF p(3)] by blast
  have "cut_all u z = Some (u', z')" using a(2) p(1) c(1) by (subst cut_all.simps) simp
  moreover have "only_words (set (b # bs)) z z'" using only_words_trans [OF p(2) c(2)] by simp
  ultimately show ?case using c(3) by (intro exI [of _ u'] exI [of _ z']) simp
qed

lemma cut_aligned_ok:
  assumes "unit_ok (zwords z) u xs bs" and "is_pow2 algn"
  shows "\<exists>u' z'. only_words (set bs) z z' \<and> (case find (\<lambda>x. algn dvd x) bs of
      None \<Rightarrow> cut_aligned u z algn = Some (u', z', 0) \<and> unit_ok (zwords z') u' (rev bs @ xs) []
    | Some a \<Rightarrow> cut_aligned u z algn = Some (u', z', a)
        \<and> (\<exists>ns rest. bs = ns @ a # rest \<and> unit_ok (zwords z') u' (rev ns @ xs) rest))"
  using assms(1)
proof (induction bs arbitrary: u z xs)
  case Nil
  then have "\<not> bump_count u > 0" by (auto simp: unit_ok_def)
  then have "cut_aligned u z algn = Some (u, z, 0)" by (subst cut_aligned.simps) simp
  then show ?case using Nil by (intro exI [of _ u] exI [of _ z]) simp
next
  case (Cons b bs)
  note a = unit_ok_advance [OF Cons.prems]
  have al: "bump_ptr u AND (algn - 1) = 0 \<longleftrightarrow> algn dvd b"
    unfolding a(1) and_mask_mod [OF assms(2)] by (simp only: dvd_eq_mod_eq_0)
  show ?case
  proof (cases "algn dvd b")
    case True
    then have "cut_aligned u z algn = Some (advance u, z, b)" using al a by (subst cut_aligned.simps) simp
    moreover have "\<exists>ns rest. b # bs = ns @ b # rest \<and> unit_ok (zwords z) (advance u) (rev ns @ xs) rest"
      using a(4) by (intro exI [of _ "[]"] exI [of _ bs]) simp
    ultimately show ?thesis using True by (intro exI [of _ "advance u"] exI [of _ z]) simp
  next
    case False
    obtain u1 z1 where p: "unit_free u z (bump_ptr u) = Some (u1, z1)" "only_words {b} z z1"
      "unit_ok (zwords z1) (advance (u\<lparr>tlist := tlist u1\<rparr>)) (b # xs) bs" by (rule unit_ok_push [OF Cons.prems])
    have e: "cut_aligned u z algn = cut_aligned (advance (u\<lparr>tlist := tlist u1\<rparr>)) z1 algn"
      using al False a(2) p(1) by (subst cut_aligned.simps) simp
    obtain u' z' where c: "only_words (set bs) z1 z'" "case find (\<lambda>x. algn dvd x) bs of
        None \<Rightarrow> cut_aligned u z algn = Some (u', z', 0) \<and> unit_ok (zwords z') u' (rev bs @ b # xs) []
      | Some a \<Rightarrow> cut_aligned u z algn = Some (u', z', a)
        \<and> (\<exists>ns rest. bs = ns @ a # rest \<and> unit_ok (zwords z') u' (rev ns @ b # xs) rest)"
      using Cons.IH [OF p(3)] unfolding e by blast
    have o: "only_words (set (b # bs)) z z'" using only_words_trans [OF p(2) c(1)] by simp
    show ?thesis
    proof (cases "find (\<lambda>x. algn dvd x) bs")
      case None
      then show ?thesis using o c(2) False by (intro exI [of _ u'] exI [of _ z']) simp
    next
      case (Some x)
      then obtain ns rest where "bs = ns @ x # rest" "unit_ok (zwords z') u' (rev ns @ b # xs) rest"
        "cut_aligned u z algn = Some (u', z', x)" using c(2) by auto
      moreover have "\<exists>ns' rest'. b # bs = ns' @ x # rest' \<and> unit_ok (zwords z') u' (rev ns' @ xs) rest'"
        using calculation by (intro exI [of _ "b # ns"] exI [of _ rest]) simp
      ultimately show ?thesis using o Some False by (intro exI [of _ u'] exI [of _ z']) simp
    qed
  qed
qed

lemma pop_unit:
  assumes "unit_ok (zwords z) u xs bs" and "is_pow2 algn"
  obtains u' z' where "(if ll_length (tlist u) > 0 then do {
         (m, l, ans) \<leftarrow> pop_unchecked_aligned (zwords z) (tlist u) algn;
         Some (u\<lparr>tlist := l\<rparr>, set_words z m, ans) }
       else Some (u, z, 0)) = Some (u', z', case find (\<lambda>x. algn dvd x) xs of None \<Rightarrow> 0 | Some x \<Rightarrow> x)"
    "only_words (set xs) z z'"
    "unit_ok (zwords z') u' (case find (\<lambda>x. algn dvd x) xs of None \<Rightarrow> xs | Some x \<Rightarrow> remove1 x xs) bs"
proof (cases "xs = []")
  case True
  then have "ll_length (tlist u) = 0" using assms(1) by (simp add: unit_ok_def list_rep_def)
  then show ?thesis using that [of u z] assms(1) True by simp
next
  case False
  have e: "(\<lambda>x. x AND (algn - 1) = 0) = (\<lambda>x. algn dvd x)"
    by (rule ext) (simp only: and_mask_mod [OF assms(2)] dvd_eq_mod_eq_0)
  have r: "list_rep (zwords z) (tlist u) xs" using assms(1) by (simp add: unit_ok_def)
  obtain m' l' where p: "pop_unchecked_aligned (zwords z) (tlist u) algn =
      Some (m', l', case find (\<lambda>x. algn dvd x) xs of None \<Rightarrow> 0 | Some x \<Rightarrow> x)"
    "list_rep m' l' (case find (\<lambda>x. algn dvd x) xs of None \<Rightarrow> xs | Some x \<Rightarrow> remove1 x xs)"
    "\<And>a. a \<notin> set xs \<Longrightarrow> m' a = zwords z a"
    using pop_rep [OF r, of algn] unfolding e by blast
  have len: "ll_length (tlist u) > 0" using r False by (simp add: list_rep_def)
  have sub: "set (remove1 x xs) \<subseteq> set xs" "length (remove1 x xs) \<le> length xs" for x
    by (rule set_remove1_subset) (simp add: length_remove1)
  have "distinct (remove1 x xs @ bs)" "length (remove1 x xs @ bs) < 2 ^ 62" for x
    using assms(1) sub [of x] unfolding unit_ok_def by auto
  then have "unit_ok m' (u\<lparr>tlist := l'\<rparr>) (case find (\<lambda>x. algn dvd x) xs of None \<Rightarrow> xs | Some x \<Rightarrow> remove1 x xs) bs"
    using assms(1) p(2) unfolding unit_ok_def by (auto split: option.splits)
  then show ?thesis using that [of "u\<lparr>tlist := l'\<rparr>" "set_words z m'"] len p by (simp add: only_words_def)
qed

section \<open>Allocation\<close>

text \<open>When a unit of the cache holds an aligned object, on its list or still uncut, an allocation returns the first
  one without asking the zone; the unit keeps all its other objects and no word outside them is written.\<close>

theorem unit_allocate_hit:
  assumes "unit_ok (zwords z) u xs bs" and "is_pow2 algn" and "find (\<lambda>x. algn dvd x) (xs @ bs) = Some a"
  shows "\<exists>u' z' xs' bs'. unit_allocate u z idx algn = Some (u', z', a) \<and> unit_ok (zwords z') u' xs' bs'
    \<and> algn dvd a \<and> mset (xs' @ bs') + {#a#} = mset (xs @ bs)
    \<and> z' = set_words z (zwords z') \<and> (\<forall>p. p \<notin> set (xs @ bs) \<longrightarrow> zwords z' p = zwords z p)"
proof -
  obtain u1 z1 where p: "(if ll_length (tlist u) > 0 then do {
         (m, l, ans) \<leftarrow> pop_unchecked_aligned (zwords z) (tlist u) algn;
         Some (u\<lparr>tlist := l\<rparr>, set_words z m, ans) }
       else Some (u, z, 0)) = Some (u1, z1, case find (\<lambda>x. algn dvd x) xs of None \<Rightarrow> 0 | Some x \<Rightarrow> x)"
    "only_words (set xs) z z1"
    "unit_ok (zwords z1) u1 (case find (\<lambda>x. algn dvd x) xs of None \<Rightarrow> xs | Some x \<Rightarrow> remove1 x xs) bs"
    by (rule pop_unit [OF assms(1,2)])
  have dv: "algn dvd a" "a \<in> set (xs @ bs)"
    using assms(3) unfolding find_Some_iff by (auto simp del: set_append intro: nth_mem)
  have nz: "0 \<notin> set xs" using assms(1) list_rep_nonzero by (auto simp: unit_ok_def)
  show ?thesis
  proof (cases "find (\<lambda>x. algn dvd x) xs")
    case (Some x)
    then have x: "x = a" using assms(3) by (simp add: find_append)
    then have "a \<in> set xs" using Some unfolding find_Some_iff by auto
    then have x: "x = a" "a \<in> set xs" "a \<noteq> 0" using x nz by (auto intro: ccontr)
    have "unit_allocate u z idx algn = Some (u1, z1, a)"
      unfolding unit_allocate_def p(1) using Some x by simp
    moreover have "mset (remove1 a xs @ bs) + {#a#} = mset (xs @ bs)" using x(2) by simp
    ultimately show ?thesis using p(2,3) Some x dv only_words_mono [of "set xs" z z1 "set (xs @ bs)"]
      by (intro exI [of _ u1] exI [of _ z1] exI [of _ "remove1 a xs"] exI [of _ bs]) (auto simp: only_words_def)
  next
    case None
    then have f: "find (\<lambda>x. algn dvd x) bs = Some a" using assms(3) by (simp add: find_append)
    obtain u2 z2 ns rest where c: "only_words (set bs) z1 z2" "cut_aligned u1 z1 algn = Some (u2, z2, a)"
      "bs = ns @ a # rest" "unit_ok (zwords z2) u2 (rev ns @ xs) rest"
      using cut_aligned_ok [OF p(3) assms(2)] None f by auto
    have "a \<noteq> 0"
    proof
      assume "a = 0"
      then have "0 \<in> set bs" using c(3) by simp
      moreover have "0 \<notin> set (uncut q s n)" if "0 < q" for q s n using that by (induction n arbitrary: q) auto
      moreover have "bs = uncut (bump_ptr u) (as_usize (bump_unit u)) (nat (bump_count u))" "bs \<noteq> [] \<longrightarrow> 0 < bump_ptr u"
        using assms(1) by (auto simp: unit_ok_def)
      ultimately show False by (cases bs) auto
    qed
    then have "unit_allocate u z idx algn = Some (u2, z2, a)"
      unfolding unit_allocate_def p(1) using None c(2) by simp
    moreover have "only_words (set (xs @ bs)) z z2" using only_words_trans [OF p(2) c(1)] by simp
    moreover have "mset ((rev ns @ xs) @ rest) + {#a#} = mset (xs @ bs)" using c(3) by simp
    ultimately show ?thesis using c(4) dv(1)
      by (intro exI [of _ u2] exI [of _ z2] exI [of _ "rev ns @ xs"] exI [of _ rest]) (simp add: only_words_def)
  qed
qed

lemma pop_none:
  assumes "list_rep m l xs" and "\<forall>x \<in> set xs. x AND (algn - 1) \<noteq> 0"
  shows "pop_unchecked_aligned m l algn = Some (m, l, 0)"
proof (cases xs)
  case Nil
  then show ?thesis using assms by (simp add: pop_unchecked_aligned_def list_rep_def)
next
  case (Cons h hs)
  have c: "link l = h" "h \<noteq> 0" "chain m h (h # hs) 0" "distinct (h # hs)"
    using assms(1) Cons by (auto simp: list_rep_def)
  have "find (\<lambda>x. x AND (algn - 1) = 0) hs = None" using assms(2) Cons by (auto simp: find_None_iff)
  then show ?thesis using pop_scan_finds [OF c(3,4), of algn] c assms Cons by (simp add: pop_unchecked_aligned_def)
qed

lemma as_i32_small: "n < 2 ^ 31 \<Longrightarrow> as_i32 n = int n"
  by (simp add: as_i32_def)

lemma uncut_length [simp]: "length (uncut p s n) = n"
  by (induction n arbitrary: p) auto

text \<open>A unit with no aligned object and nothing uncut takes a batch from the zone and returns its first object: a new
  slab becomes the uncut objects, a chain of freed objects becomes the list.\<close>

lemma unit_allocate_miss:
  assumes u: "unit_ok (zwords z) u xs []" and al: "is_pow2 algn" "\<forall>x \<in> set xs. \<not> algn dvd x"
    and z: "allocate_batch_from_slab z idx algn = Some (z', p, n, stride)" "0 < p" "0 < n" "n < 2 ^ 30"
    and keep: "\<forall>x \<in> set xs. zwords z' x = zwords z x"
    and batch: "case stride of
        Some s \<Rightarrow> 0 < s \<and> s < 2 ^ 31 \<and> p + n * s < 2 ^ 63 \<and> ys = uncut (p + s) s (n - 1) \<and> distinct (xs @ ys) \<and> length xs < 2 ^ 61
      | None \<Rightarrow> xs = [] \<and> length ys = n - 1 \<and> distinct ys \<and> chain (zwords z') p (p # ys) 0"
  shows "\<exists>u'. unit_allocate u z idx algn = Some (u', z', p)
    \<and> (if stride = None then unit_ok (zwords z') u' ys [] else unit_ok (zwords z') u' xs ys)"
proof -
  have none: "find (\<lambda>x. algn dvd x) xs = None" using al(2) by (simp add: find_None_iff)
  have b0: "nat (bump_count u) = 0" "0 \<le> bump_count u" using u by (auto simp: unit_ok_def)
  have r: "list_rep (zwords z) (tlist u) xs" using u by (simp add: unit_ok_def)
  have e: "(\<lambda>x. x AND (algn - 1) = 0) = (\<lambda>x. algn dvd x)"
    by (rule ext) (simp only: and_mask_mod [OF al(1)] dvd_eq_mod_eq_0)
  have un: "\<forall>x \<in> set xs. x AND (algn - 1) \<noteq> 0" using al(2) fun_cong [OF e] by blast
  have first: "(if ll_length (tlist u) > 0 then do {
         (m, l, ans) \<leftarrow> pop_unchecked_aligned (zwords z) (tlist u) algn;
         Some (u\<lparr>tlist := l\<rparr>, set_words z m, ans) }
       else Some (u, z, 0)) = Some (u, z, 0)"
    using pop_none [OF r un] by simp
  have cut: "cut_aligned u z algn = Some (u, z, 0)" using b0 by (subst cut_aligned.simps) simp
  have ua: "unit_allocate u z idx algn = refill u z idx algn" unfolding unit_allocate_def first using cut by simp
  have n1: "wsub n 1 = n - 1" using z(3,4) by (intro wsub_exact) auto
  show ?thesis
  proof (cases stride)
    case (Some s)
    define k where k: "k = n - 1"
    have k30: "k < 2 ^ 30" "n = Suc k" using z(3,4) k by auto
    have B: "0 < s" "s < 2 ^ 31" "p + n * s < 2 ^ 63" "ys = uncut (p + s) s k" "distinct (xs @ ys)" "length xs < 2 ^ 61"
      using batch Some k by auto
    have ns: "n * s = s + k * s" using k30 by simp
    have "p + s < 2 ^ 63" using B(3) ns by linarith
    then have w: "wadd p s = p + s" by simp
    let ?u = "u\<lparr>bump_count := as_i32 k, bump_unit := as_i32 s, bump_ptr := p + s\<rparr>"
    have c: "as_i32 k = int k" using k30 by (intro as_i32_small) simp
    have lim: "p + s + k * s < 2 ^ 63" "length xs + k < 2 ^ 62" using B(3) ns B(6) k30 by auto
    have a: "refill u z idx algn = Some (?u, z', p)"
      using z n1 w Some k by (simp add: refill_def nonnull_def)
    have l: "list_rep (zwords z') (tlist u) xs" using r keep list_rep_cong [of xs "zwords z" "zwords z'"] by simp
    have len: "length ys = k" unfolding B(4) by simp
    have "unit_ok (zwords z') ?u xs ys"
      unfolding unit_ok_def using l B(1,4,5) c z(2) lim i32_round [OF B(2)] len
      by (simp del: One_nat_def int_ops)
    then show ?thesis using a ua Some by auto
  next
    case None
    have B: "xs = []" "length ys = n - 1" "distinct ys" "chain (zwords z') p (p # ys) 0" using batch None by auto
    have lim: "n - 1 < 2 ^ 62" "n - 1 < 2 ^ 63" using z(4) by auto
    have l0: "ll_length (tlist u) = 0" using r B(1) by (simp add: list_rep_def)
    let ?u = "u\<lparr>tlist := \<lparr>link = zwords z' p, ll_length = n - 1\<rparr>\<rparr>"
    have "refill u z idx algn = Some (?u, z', p)"
      using z n1 l0 None by (simp add: refill_def nonnull_def Let_def)
    moreover have "unit_ok (zwords z') ?u ys []"
      using B b0 lim by (simp add: unit_ok_def list_rep_def)
    ultimately show ?thesis using ua None by auto
  qed
qed

section \<open>Flushing the cache\<close>

lemma slab_ok_words:
  assumes "slab_ok sc (zworld z) g" and "only_words A z z'" and "\<And>h x. h \<in> owned g \<Longrightarrow> x \<in> set (frees g h) \<Longrightarrow> x \<notin> A"
  shows "slab_ok sc (zworld z') g"
proof -
  have z': "z' = set_words z (zwords z')" "\<And>a. a \<notin> A \<Longrightarrow> zwords z' a = zwords z a"
    using assms(2) by (auto simp: only_words_def)
  have w: "pgs (zworld z') = pgs (zworld z)" "rd_tree (backend (zworld z')) = rd_tree (backend (zworld z))"
    by (subst z'(1), simp add: set_words_def)+
  have "page_ok st (zwords z') N n (frees g h) h" if "h \<in> owned g" "page_ok st (zwords z) N n (frees g h) h" for st N n h
    using that assms(3) [OF that(1)] z'(2) chain_cong [of "frees g h" "zwords z" "zwords z'"] by (simp add: page_ok_def)
  then show ?thesis using assms(1) unfolding slab_ok_def base_ok_def w by blast
qed

lemma batch_not_free:
  assumes "slab_ok sc w g" and "batch_ok sc w g xs" and "h \<in> owned g" and "x \<in> set (frees g h)"
  shows "x \<notin> set xs"
proof
  assume "x \<in> set xs"
  then obtain k where k: "k \<in> owned g" "in_slab (pgs w) (4096 * pg_num sc) k x" "x \<notin> set (frees g k)"
    using assms(2) by (auto simp: batch_ok_def owned_def)
  have "in_slab (pgs w) (4096 * pg_num sc) h x" using assms(1,3,4) by (simp add: slab_ok_def base_ok_def page_ok_def)
  moreover have "h \<noteq> k" using k(3) assms(4) by blast
  then have "apart (pdata (pgs w h), 4096 * pg_num sc) (pdata (pgs w k), 4096 * pg_num sc)"
    using k(1) assms(1,3) by (simp add: slab_ok_def base_ok_def)
  ultimately show False using k(2) by (auto simp: apart_def in_slab_def)
qed

lemma batch_ok_perm:
  assumes "mset xs = mset ys"
  shows "batch_ok sc w g xs = batch_ok sc w g ys" "batch_result n w g xs w' g' = batch_result n w g ys w' g'"
proof -
  have "length (filter P xs) = length (filter P ys)" for P
    using assms by (metis mset_filter size_mset)
  moreover have "set xs = set ys" "distinct xs = distinct ys"
    using assms by (auto dest: mset_eq_setD mset_eq_imp_distinct_iff)
  ultimately show "batch_ok sc w g xs = batch_ok sc w g ys" "batch_result n w g xs w' g' = batch_result n w g ys w' g'"
    by (simp_all add: batch_ok_def batch_result_def)
qed

text \<open>An empty unit asked for an object of alignment 1, when the class has a partial slab, takes all the free objects of
  that slab: the first is returned, the others are its list, the slab allocator stays well-formed, and every object taken
  counts as handed out there, so that it can be given back.\<close>

theorem unit_allocate_refills:
  assumes "idx < length (zslabs z)" and ok: "slab_ok (zslabs z ! idx) (zworld z) g" and p: "partials g = h # ps"
    and u: "unit_ok (zwords z) u [] []" and small: "length (frees g h) < 2 ^ 30"
  shows "\<exists>u' z' g'. unit_allocate u z idx 1 = Some (u', z', hd (frees g h))
    \<and> unit_ok (zwords z') u' (tl (frees g h)) [] \<and> slab_ok (zslabs z' ! idx) (zworld z') g'
    \<and> batch_ok (zslabs z' ! idx) (zworld z') g' (frees g h) \<and> zwords z' = zwords z"
proof -
  let ?sc = "zslabs z ! idx" and ?fs = "frees g h"
  let ?N = "as_usize (pg_count ?sc)" and ?n = "4096 * pg_num ?sc"
  obtain sc' w' g' where a: "allocate_batch_v2 ?sc (zworld z) 1 = Some (sc', w', hd ?fs, length ?fs, None)"
    "slab_ok sc' w' g'" "fulls g' = fulls g @ [h]" "partials g' = ps" "empties g' = empties g"
    "frees g' = (frees g)(h := [])" "words w' = zwords z" "chain (words w') (hd ?fs) ?fs 0"
    "\<And>k. pdata (pgs w' k) = pdata (pgs (zworld z) k)" "pg_num sc' = pg_num ?sc" "pg_count sc' = pg_count ?sc"
    using allocate_batch_partial_ok [OF ok p] unfolding same_class_def by blast
  let ?z = "\<lparr>zslabs = (zslabs z)[idx := sc'], zworld = w'\<rparr>"
  have hp: "h \<in> set (partials g)" using p by simp
  then have pg: "page_ok (pgs (zworld z)) (zwords z) ?N ?n ?fs h"
    and cn: "pcounter (pgs (zworld z) h) < ?N" using ok by (auto simp: slab_ok_def base_ok_def owned_def kinds_ok_def)
  then have ne: "?fs \<noteq> []" by (auto simp: page_ok_def)
  then obtain f fs where ff: "?fs = f # fs" by (cases ?fs) auto
  have f0: "0 < f" "distinct ?fs" using pg chain_nonzero ff by (auto simp: page_ok_def)
  have b: "allocate_batch_from_slab z idx 1 = Some (?z, f, length ?fs, None)"
    using assms(1) a(1) ff by (simp add: allocate_batch_from_slab_def)
  have one: "is_pow2 1" using is_pow2_power [of 0] by simp
  obtain u' where u': "unit_allocate u z idx 1 = Some (u', ?z, f)" "unit_ok (zwords ?z) u' fs []"
    using unit_allocate_miss [OF u one _ b f0(1) _ small, of fs] a(7,8) ff f0(2) by auto
  have sl: "in_slab (pgs w') ?n k x = in_slab (pgs (zworld z)) ?n k x" for k x by (simp add: in_slab_def a(9))
  have mem: "in_slab (pgs w') ?n h x" if "x \<in> set ?fs" for x using pg that by (simp add: page_ok_def sl)
  then have all_mem: "\<forall>x \<in> set ?fs. in_slab (pgs w') ?n h x" by blast
  have hf: "h \<in> set (fulls g')" by (simp add: a(3))
  then have full: "pcounter (pgs w' h) = ?N" using a(2) by (simp add: slab_ok_def kinds_ok_def a(11))
  have "length (filter (in_slab (pgs w') ?n k) ?fs) \<le> pcounter (pgs w' k)" if k: "k \<in> owned g'" for k
  proof (cases "k = h")
    case True
    have "length ?fs \<le> ?N" using pg by (simp add: page_ok_def)
    then show ?thesis unfolding True full by (rule le_trans [OF length_filter_le])
  next
    case False
    have "h \<in> owned g'" using hf by (simp add: owned_def)
    then have "apart (pdata (pgs w' k), ?n) (pdata (pgs w' h), ?n)"
      using a(2) k False by (simp add: slab_ok_def base_ok_def a(10))
    then have "filter (in_slab (pgs w') ?n k) ?fs = []"
      using all_mem by (fastforce simp: filter_empty_conv in_slab_def apart_def)
    then show ?thesis by simp
  qed
  then have "batch_ok sc' w' g' ?fs" using mem hf f0(2) by (auto simp: batch_ok_def a(6,10))
  then show ?thesis using u' a(2,7) assms(1) ff
    by (intro exI [of _ u'] exI [of _ ?z] exI [of _ g']) simp
qed

lemma clean_up_ok:
  assumes "idx < length (zslabs z)" and "slab_ok (zslabs z ! idx) (zworld z) g" and "unit_ok (zwords z) u xs bs"
    and "batch_ok (zslabs z ! idx) (zworld z) g (xs @ bs)" and "length (empties g) + length (xs @ bs) \<le> 2048"
  shows "\<exists>z' sc' g'. clean_up u z idx = Some (unit_new, z') \<and> zslabs z' = (zslabs z)[idx := sc'] \<and> same_class (zslabs z ! idx) sc'
    \<and> slab_ok sc' (zworld z') g' \<and> batch_result (4096 * pg_num (zslabs z ! idx)) (zworld z) g (xs @ bs) (zworld z') g'"
proof -
  let ?sc = "zslabs z ! idx" and ?ys = "rev bs @ xs"
  have p: "mset ?ys = mset (xs @ bs)" by simp
  obtain u1 z1 where c: "cut_all u z = Some (u1, z1)" "only_words (set bs) z z1" "unit_ok (zwords z1) u1 ?ys []"
    using cut_all_ok [OF assms(3)] by blast
  have z1: "z1 = set_words z (zwords z1)" using c(2) by (simp add: only_words_def)
  have same: "zslabs z1 = zslabs z" "pgs (zworld z1) = pgs (zworld z)"
    by (subst z1, simp add: set_words_def)+
  have "slab_ok ?sc (zworld z1) g"
    using slab_ok_words [OF assms(2) c(2)] batch_not_free [OF assms(2,4)] by auto
  moreover have "batch_ok ?sc (zworld z1) g ?ys" using assms(4) batch_ok_perm [OF p] same(2) by (simp add: batch_ok_def)
  moreover have res: "batch_result n (zworld z) g (xs @ bs) w' g'" if "batch_result n (zworld z1) g ?ys w' g'" for n w' g'
  proof -
    have "rd_tree (backend (zworld z1)) = rd_tree (backend (zworld z))" by (subst z1, simp add: set_words_def)
    moreover have "zwords z1 a = zwords z a" if "a \<notin> set (xs @ bs)" for a using that c(2) by (simp add: only_words_def)
    ultimately show ?thesis using that batch_ok_perm(2) [OF p, of n "zworld z1" g w' g'] same(2) by (simp add: batch_result_def)
  qed
  moreover have "chain (words (zworld z1)) (link (tlist u1)) ?ys 0" "ll_length (tlist u1) = length ?ys"
    using c(3) by (auto simp: unit_ok_def list_rep_def)
  moreover have "length (empties g) + length ?ys \<le> 2048" using assms(5) by simp
  ultimately obtain sc' w' g' where d: "deallocate_batch ?sc (zworld z1) (link (tlist u1)) = Some (sc', w')"
    "slab_ok sc' w' g'" "batch_result (4096 * pg_num ?sc) (zworld z1) g ?ys w' g'" "ll_length (tlist u1) = length ?ys" "same_class ?sc sc'"
    using deallocate_batch_ok [of ?sc "zworld z1" g "link (tlist u1)" ?ys] by metis
  show ?thesis
  proof (cases "?ys = []")
    case True
    then have e: "xs = []" "bs = []" by auto
    have "clean_up u z idx = Some (unit_new, z1)" using c(1) d(4) True by (simp add: clean_up_def)
    moreover have "z1 = z" using c(2) e by (simp add: only_words_def set_words_def fun_eq_iff) (metis zwords_set set_words_id set_words_def ext)
    moreover have "batch_result (4096 * pg_num ?sc) (zworld z) g [] (zworld z) g" by (rule batch_result_nil)
    ultimately show ?thesis using assms(2) e by (intro exI [of _ z] exI [of _ ?sc] exI [of _ g]) simp
  next
    case False
    then have "clean_up u z idx = Some (unit_new, \<lparr>zslabs = (zslabs z)[idx := sc'], zworld = w'\<rparr>)"
      using c(1) d(1,4) same(1) assms(1) by (simp add: clean_up_def deallocate_batch_to_slab_def)
    then show ?thesis using d(2,5) res [OF d(3)] by (intro exI [of _ "\<lparr>zslabs = (zslabs z)[idx := sc'], zworld = w'\<rparr>"] exI [of _ sc'] exI [of _ g']) simp
  qed
qed

text \<open>Flushing a unit gives every object it holds, listed or still uncut, back to the slab it came from, ends, and leaves
  an empty unit and a well-formed slab allocator; the slab allocators of the other classes are untouched.\<close>

theorem clean_up_returns_all:
  assumes "idx < length (zslabs z)" and "slab_ok (zslabs z ! idx) (zworld z) g" and "unit_ok (zwords z) u xs bs"
    and "batch_ok (zslabs z ! idx) (zworld z) g (xs @ bs)" and "length (empties g) + length (xs @ bs) \<le> 2048"
  shows "\<exists>z' sc' g'. clean_up u z idx = Some (unit_new, z') \<and> zslabs z' = (zslabs z)[idx := sc']
    \<and> slab_ok sc' (zworld z') g' \<and> batch_result (4096 * pg_num (zslabs z ! idx)) (zworld z) g (xs @ bs) (zworld z') g'"
  using clean_up_ok [OF assms] by blast

section \<open>All classes\<close>

lemma zone_table:
  "list_all (\<lambda>(s, p). 0 < s \<and> s \<le> 4096 * p \<and> p \<le> 2 ^ 12) (zip (tl SIZE_CLASSES) (tl SIZE_CLASS_PAGES))"
  by (simp add: SIZE_CLASSES_def SIZE_CLASS_PAGES_def)

lemma zone_class:
  assumes "0 < k" and "k < 64"
  shows "0 < SIZE_CLASSES ! k" "SIZE_CLASSES ! k \<le> 4096 * SIZE_CLASS_PAGES ! k" "SIZE_CLASS_PAGES ! k \<le> 2 ^ 12"
proof -
  obtain i where i: "k = Suc i" using assms(1) by (cases k) auto
  have "(tl SIZE_CLASSES ! i, tl SIZE_CLASS_PAGES ! i) \<in> set (zip (tl SIZE_CLASSES) (tl SIZE_CLASS_PAGES))"
    using i assms(2) by (auto simp: in_set_zip intro!: exI [of _ i])
  then show "0 < SIZE_CLASSES ! k" "SIZE_CLASSES ! k \<le> 4096 * SIZE_CLASS_PAGES ! k" "SIZE_CLASS_PAGES ! k \<le> 2 ^ 12"
    using zone_table i assms(2) unfolding list_all_iff by (auto simp: nth_tl)
qed

lemma zone_first: "SIZE_CLASSES ! 0 = 0" "SIZE_CLASS_PAGES ! 0 = 0" "length SIZE_CLASSES = 64" "length SIZE_CLASS_PAGES = 64"
  by (simp_all add: SIZE_CLASSES_def SIZE_CLASS_PAGES_def)

text \<open>A slab allocator fresh for class \<open>k\<close>: no slab yet, and its objects hold the class and fit in the pages.\<close>

definition fresh_class :: "nat \<Rightarrow> sc_allocator \<Rightarrow> bool" where
  "fresh_class k sc \<longleftrightarrow> full_start sc = 0 \<and> partial_start sc = 0 \<and> empty_start sc = 0 \<and> uninit_start sc = 0
     \<and> empty_count sc = 0 \<and> pg_num sc = SIZE_CLASS_PAGES ! k
     \<and> (0 < k \<longrightarrow> 0 < as_usize (pg_count sc) \<and> TC_SIZE_ARRAY ! k \<le> as_usize (pg_align sc)
        \<and> as_usize (pg_count sc) * as_usize (pg_align sc) \<le> 4096 * pg_num sc)"

lemma sc_new_empty: "sc_new s n = Some sc \<Longrightarrow> full_start sc = 0 \<and> partial_start sc = 0 \<and> empty_start sc = 0
    \<and> uninit_start sc = 0 \<and> empty_count sc = 0"
proof (cases "s = 0")
  case False
  assume "sc_new s n = Some sc"
  then show ?thesis unfolding sc_new_def Let_def if_not_P [OF False] bind_eq_Some_conv by clarsimp
qed (auto simp: sc_new_def)

lemma sc_new_class:
  assumes "k < 64"
  shows "\<exists>sc. sc_new (SIZE_CLASSES ! k) (SIZE_CLASS_PAGES ! k) = Some sc \<and> fresh_class k sc"
proof (cases "k = 0")
  case True
  then show ?thesis using zone_first by (simp add: sc_new_def fresh_class_def)
next
  case False
  then have k: "0 < k" by simp
  note c = zone_class [OF k assms]
  have "SIZE_CLASS_PAGES ! k \<le> 2 ^ 18" using c(3) by simp
  then obtain sc where s: "sc_new (SIZE_CLASSES ! k) (SIZE_CLASS_PAGES ! k) = Some sc" "pg_num sc = SIZE_CLASS_PAGES ! k"
    "0 < as_usize (pg_count sc)" "SIZE_CLASSES ! k \<le> as_usize (pg_align sc)"
    "as_usize (pg_count sc) * as_usize (pg_align sc) \<le> 4096 * SIZE_CLASS_PAGES ! k"
    using sc_new_fits [OF c(1,2)] by auto
  then show ?thesis using sc_new_empty [OF s(1)] size_classes_eq by (auto simp: fresh_class_def)
qed

lemma zone_slabs_ok:
  "idx + n \<le> 64 \<Longrightarrow> \<exists>items. zone_slabs idx n = Some items \<and> length items = n \<and> (\<forall>i < n. fresh_class (idx + i) (items ! i))"
proof (induction n arbitrary: idx)
  case (Suc n)
  obtain items where i: "zone_slabs (Suc idx) n = Some items" "length items = n" "\<forall>i < n. fresh_class (Suc idx + i) (items ! i)"
    using Suc.IH [of "Suc idx"] Suc.prems by auto
  obtain sc where s: "sc_new (SIZE_CLASSES ! idx) (SIZE_CLASS_PAGES ! idx) = Some sc" "fresh_class idx sc"
    using sc_new_class [of idx] Suc.prems by auto
  have "zone_slabs idx (Suc n) = Some (sc # items)" using i(1) s(1) Suc.prems zone_first
    by (simp add: get_rounded_size_by_idx_def get_num_pages_by_idx_def aget_def)
  moreover have "fresh_class (idx + j) ((sc # items) ! j)" if "j < Suc n" for j
    using that i(3) s(2) by (cases j) auto
  ultimately show ?case using i(2) by auto
qed simp

text \<open>C31: \<open>ZoneAllocator::new\<close> never panics and makes one slab allocator for each of the 64 classes; for every class but the
  empty one its objects are at least as large as any request of the class, and all of them fit in its pages.\<close>

theorem zone_new_serves_all_classes:
  "\<exists>z. zone_new w = Some z \<and> zworld z = w \<and> length (zslabs z) = 64 \<and> (\<forall>k < 64. fresh_class k (zslabs z ! k))"
  using zone_slabs_ok [of 0 64] by (auto simp: zone_new_def TOTAL_SIZE_CLASS_def)

theorem zone_new_serves_all_classes_witness:
  "\<exists>z. zone_new (demo_world 0 0) = Some z \<and> fresh_class 63 (zslabs z ! 63)"
  using zone_new_serves_all_classes [of "demo_world 0 0"] by auto

section \<open>Reallocation\<close>

lemma class_of_small:
  assumes "sz \<le> TC_MAX_SIZE"
  obtains k where "get_size_class sz = Some (Base k)" "k < 64" "sz \<le> TC_SIZE_ARRAY ! k" "0 < sz \<Longrightarrow> 0 < k"
proof -
  obtain k where k: "get_sizeclass_tuple2 sz = Some (Base k, TC_SIZE_ARRAY ! k)" "least_class TC_SIZE_ARRAY sz k"
    by (rule tuple2_least [OF assms])
  have "k < 64" "sz \<le> TC_SIZE_ARRAY ! k" using k(2) by (auto simp: least_class_def)
  moreover have "0 < k" if "0 < sz" using that calculation(2) tc_ends(1) by (cases k) auto
  ultimately show ?thesis using that k(1) by (simp add: get_size_class_def)
qed

lemma class_of_large: "TC_MAX_SIZE < sz \<Longrightarrow> get_size_class sz = Some (Large sz)"
  by (simp add: get_size_class_def get_sizeclass_tuple2_def TC_MAX_SIZE_def)

lemma same_index_same_room:
  assumes "get_size_class a = Some c" and "get_size_class b = Some d" and "index c = index d"
  shows "if a \<le> TC_MAX_SIZE then \<exists>k < 64. c = Base k \<and> a \<le> TC_SIZE_ARRAY ! k \<and> b \<le> TC_SIZE_ARRAY ! k else b = a"
proof (cases "a \<le> TC_MAX_SIZE")
  case a: True
  obtain k where "get_size_class a = Some (Base k)" "k < 64" "a \<le> TC_SIZE_ARRAY ! k" by (rule class_of_small [OF a])
  then have k: "c = Base k" "k < 64" "a \<le> TC_SIZE_ARRAY ! k" using assms(1) by auto
  show ?thesis
  proof (cases "b \<le> TC_MAX_SIZE")
    case True
    obtain j where "get_size_class b = Some (Base j)" "b \<le> TC_SIZE_ARRAY ! j" by (rule class_of_small [OF True])
    then have "d = Base j" "b \<le> TC_SIZE_ARRAY ! j" using assms(2) by auto
    then show ?thesis using a k assms(3) by auto
  next
    case False
    then have "index d = b" using class_of_large assms(2) by auto
    then show ?thesis using False k assms(3) by (simp add: TC_MAX_SIZE_def)
  qed
next
  case a: False
  then have c: "c = Large a" using class_of_large assms(1) by auto
  show ?thesis
  proof (cases "b \<le> TC_MAX_SIZE")
    case True
    obtain j where "get_size_class b = Some (Base j)" "j < 64" by (rule class_of_small [OF True])
    then have "d = Base j" "j < 64" using assms(2) by auto
    then show ?thesis using a c assms(3) by (simp add: TC_MAX_SIZE_def)
  next
    case False
    then show ?thesis using class_of_large assms(2,3) a c by auto
  qed
qed

text \<open>\<open>realloc\<close> keeps the pointer exactly when both sizes have the same class index, and then the class holds the new
  size as it held the old one; a large block keeps its pointer only when the size is the same.\<close>

theorem rust_realloc_in_place:
  assumes "get_size_class (lsize l) = Some c" and "get_size_class n = Some d" and "index c = index d"
  shows "rust_realloc s p l n = Some (s, p)
    \<and> (if lsize l \<le> TC_MAX_SIZE then \<exists>k < 64. c = Base k \<and> lsize l \<le> TC_SIZE_ARRAY ! k \<and> n \<le> TC_SIZE_ARRAY ! k else n = lsize l)"
  using same_index_same_room [OF assms] assms by (simp add: rust_realloc_def Let_def)

lemma small_dealloc:
  assumes "get_size_class (lsize l) = Some (Base k)" and "0 < k" and "k < 64" and "length (tcache s) = 64" and "p \<noteq> 0"
  obtains s' where "rust_dealloc s p l = Some s'" "data s' = data s" "link (tlist (tcache s' ! k)) = p"
    "zwords (zoned s') p = link (tlist (tcache s ! k))"
proof -
  have "get_rounded_size_by_idx k = Some (SIZE_CLASSES ! k)"
    using assms(3) zone_first by (simp add: get_rounded_size_by_idx_def aget_def)
  then show ?thesis using assms that
    by (simp add: rust_dealloc_def tc_deallocate_def unit_deallocate_def push_unchecked_def aget_def Let_def)
qed

text \<open>When the class changes, \<open>realloc\<close> of a small block allocates the new size, copies the bytes both sizes have and
  frees the old block, which becomes the next free object of its class.\<close>

theorem rust_realloc_moves:
  assumes "get_size_class (lsize l) = Some (Base k)" and "0 < k" and "k < 64" and "get_size_class n = Some d" and "index d \<noteq> k"
    and "rust_alloc s \<lparr>lsize = n, lalign = lalign l\<rparr> = Some (s1, q)" and "q \<noteq> 0" and "p \<noteq> 0"
    and "length (tcache s1) = 64" and "p + min (lsize l) n \<le> q \<or> q + min (lsize l) n \<le> p"
  shows "\<exists>s'. rust_realloc s p l n = Some (s', q) \<and> (\<forall>i < min (lsize l) n. data s' (q + i) = data s (p + i))
    \<and> link (tlist (tcache s' ! k)) = p"
proof -
  let ?m = "min (lsize l) n"
  let ?d = "\<lambda>x. if q \<le> x \<and> x < q + ?m then data s1 (p + (x - q)) else data s1 x"
  have c: "copy_bytes (data s1) p q ?m = Some ?d" using assms(10) by (simp add: copy_bytes_def ensure_def)
  have ds: "data s1 = data s" using assms(6) by (auto simp: rust_alloc_def bind_eq_Some_conv)
  obtain s' where s': "rust_dealloc (s1\<lparr>data := ?d\<rparr>) p l = Some s'" "data s' = ?d" "link (tlist (tcache s' ! k)) = p"
    by (rule small_dealloc [OF assms(1-3), of "s1\<lparr>data := ?d\<rparr>" p]) (use assms in auto)
  have "rust_realloc s p l n = Some (s', q)"
    using assms(1,4-7) c s'(1) by (simp add: rust_realloc_def Let_def)
  then show ?thesis using s'(2,3) ds by auto
qed

section \<open>Concrete caches\<close>

definition demo_zone :: "sc_allocator \<Rightarrow> world \<Rightarrow> zone" where
  "demo_zone sc w = \<lparr>zslabs = [sc], zworld = w\<rparr>"

definition demo_unit :: thread_cache_unit where
  "demo_unit = \<lparr>tlist = \<lparr>link = 0x7000, ll_length = 1\<rparr>, bump_ptr = 0x8000, bump_count = 2, bump_unit = 64\<rparr>"

lemma uncut_two: "uncut p s 2 = [p, p + s]"
  by (simp add: numeral_2_eq_2)

lemma demo_unit_ok: "unit_ok (zwords (demo_zone sc (demo_world c p))) demo_unit [0x7000] [0x8000, 0x8040]"
  by (simp add: unit_ok_def demo_unit_def demo_zone_def list_rep_def as_usize_def uncut_two demo_world_def demo_words_def)

theorem unit_allocate_hit_witness:
  "\<exists>u' z' xs bs. unit_allocate demo_unit (demo_zone (demo_sc 0 0 0 0) (demo_world 0 0)) 0 8192 = Some (u', z', 0x8000)
    \<and> unit_ok (zwords z') u' xs bs \<and> mset (xs @ bs) + {#0x8000#} = {#0x7000, 0x8000, 0x8040#}"
proof -
  have "is_pow2 (8192::nat)" using is_pow2_power [of 13] by simp
  moreover have "find (\<lambda>x. (8192::nat) dvd x) ([0x7000] @ [0x8000, 0x8040]) = Some 0x8000" by simp
  ultimately show ?thesis using unit_allocate_hit [OF demo_unit_ok [of "demo_sc 0 0 0 0" 0 0], of 8192 "0x8000" 0] by auto
qed

theorem unit_allocate_refills_witness:
  "\<exists>u' z'. unit_allocate unit_new (demo_zone (demo_sc 0 64 0 0) (demo_world 1 0x5800)) 0 1 = Some (u', z', 0x5800)
    \<and> unit_ok (zwords z') u' [] []"
  using unit_allocate_refills [of 0 "demo_zone (demo_sc 0 64 0 0) (demo_world 1 0x5800)" "demo_slabs [] [64] [] [0x5800]" 64 "[]" unit_new]
    demo_partial_ok by (auto simp: demo_zone_def demo_slabs_def)

theorem clean_up_returns_all_witness:
  "\<exists>z'. clean_up \<lparr>tlist = linklist_new, bump_ptr = 0x5000, bump_count = 2, bump_unit = 2048\<rparr>
     (demo_zone (demo_sc 64 0 0 0) (demo_world 2 0)) 0 = Some (unit_new, z') \<and> pcounter (pgs (zworld z') 64) = 0"
proof -
  let ?z = "demo_zone (demo_sc 64 0 0 0) (demo_world 2 0)" and ?g = "demo_slabs [64] [] [] []"
  let ?u = "\<lparr>tlist = linklist_new, bump_ptr = 0x5000, bump_count = 2, bump_unit = 2048\<rparr>"
  have "unit_ok (zwords ?z) ?u [] [0x5000, 0x5800]"
    by (simp add: unit_ok_def as_usize_def uncut_two)
  moreover have "slab_ok (zslabs ?z ! 0) (zworld ?z) ?g" using demo_full_ok by (simp add: demo_zone_def)
  moreover have "batch_ok (zslabs ?z ! 0) (zworld ?z) ?g ([] @ [0x5000, 0x5800])"
    by (simp add: batch_ok_def demo_zone_def demo_defs)
  moreover have "length (empties ?g) + length ([] @ [0x5000::nat, 0x5800]) \<le> 2048" "0 < length (zslabs ?z)"
    by (simp_all add: demo_slabs_def demo_zone_def)
  ultimately obtain z' sc' g' where r: "clean_up ?u ?z 0 = Some (unit_new, z')"
    "batch_result (4096 * pg_num (zslabs ?z ! 0)) (zworld ?z) ?g ([] @ [0x5000, 0x5800]) (zworld z') g'"
    using clean_up_returns_all [of 0 ?z ?g ?u "[]" "[0x5000, 0x5800]"] by blast
  from r(2) have "pcounter (pgs (zworld z') 64) = 0" by (simp add: batch_result_def demo_zone_def demo_defs)
  with r(1) show ?thesis by blast
qed

lemma demo_classes: "get_size_class 100 = Some (Base 13)" "get_size_class 104 = Some (Base 13)" "get_size_class 0 = Some (Base 0)"
  by (simp_all add: get_size_class_def get_sizeclass_tuple2_def aget_def IDX_ARRAY_def TC_SIZE_ARRAY_def)

definition demo_state :: heap_state where
  "demo_state = \<lparr>tcache = thread_cache_new, zoned = demo_zone (demo_sc 0 0 0 0) (demo_world 0 0), data = id\<rparr>"

theorem rust_realloc_in_place_witness:
  "rust_realloc demo_state 0x7000 \<lparr>lsize = 100, lalign = 8\<rparr> 104 = Some (demo_state, 0x7000)"
  using rust_realloc_in_place [of "\<lparr>lsize = 100, lalign = 8\<rparr>" "Base 13" 104 "Base 13" demo_state "0x7000"] demo_classes
  by simp

theorem rust_realloc_moves_witness:
  "\<exists>s'. rust_realloc demo_state 0x7000
     \<lparr>lsize = 100, lalign = 8\<rparr> 0 = Some (s', 0x100000000000) \<and> link (tlist (tcache s' ! 13)) = 0x7000"
proof -
  have "rust_alloc demo_state \<lparr>lsize = 0, lalign = lalign \<lparr>lsize = 100, lalign = 8\<rparr>\<rparr> = Some (demo_state, 0x100000000000)"
    by (simp add: rust_alloc_def tc_allocate_def demo_classes)
  then show ?thesis
    using rust_realloc_moves [of "\<lparr>lsize = 100, lalign = 8\<rparr>" 13 0 "Base 0" demo_state demo_state "0x100000000000" "0x7000"] demo_classes
    by (auto simp: demo_state_def thread_cache_new_def TOTAL_SIZE_CLASS_def)
qed

end
