(* ===== verification/ClassRun.thy ===== *)
theory ClassRun
  imports ThreadCache
begin

text \<open>
  One size class as a whole: the slab allocator of the zone, the unit of the thread cache in front of it and the
  objects the program holds. \<open>class_ok\<close> says that every object of a slab is in exactly one place: on the free
  chain of its slab, in the unit, or held by the program. The lemmas show that an allocation (with its three ways
  to refill the unit), a deallocation, a flush and the program's own writes keep it, and what each of them leaves
  alone, which is what the other classes need.
\<close>

section \<open>The state of a class\<close>

abbreviation inside :: "sc_allocator \<Rightarrow> world \<Rightarrow> nat \<Rightarrow> nat \<Rightarrow> bool" where
  "inside sc w h \<equiv> in_slab (pgs w) (4096 * pg_num sc) h"

text \<open>The objects of a slab, at the stride of the class.\<close>

definition grid :: "sc_allocator \<Rightarrow> world \<Rightarrow> nat \<Rightarrow> nat set" where
  "grid sc w h = (\<lambda>i. pdata (pgs w h) + i * as_usize (pg_align sc)) ` {..<as_usize (pg_count sc)}"

text \<open>Objects of \<open>sz\<close> bytes fit in the stride, and all objects of a slab in its pages.\<close>

definition class_fits :: "nat \<Rightarrow> sc_allocator \<Rightarrow> bool" where
  "class_fits sz sc \<longleftrightarrow> 0 < sz \<and> sz \<le> as_usize (pg_align sc) \<and> 0 < as_usize (pg_count sc) \<and> 0 < pg_num sc
     \<and> as_usize (pg_count sc) * as_usize (pg_align sc) \<le> 4096 * pg_num sc \<and> pg_num sc \<le> 2 ^ 12"

text \<open>The objects \<open>ys\<close> are exactly those that the slabs count as handed out.\<close>

definition held_ok :: "sc_allocator \<Rightarrow> world \<Rightarrow> slabs \<Rightarrow> nat list \<Rightarrow> bool" where
  "held_ok sc w g ys \<longleftrightarrow> distinct ys
     \<and> (\<forall>y \<in> set ys. \<exists>h \<in> owned g. y \<in> grid sc w h \<and> y \<notin> set (frees g h))
     \<and> (\<forall>h \<in> owned g. set (frees g h) \<subseteq> grid sc w h \<and> length (filter (inside sc w h) ys) = pcounter (pgs w h))"

definition class_ok :: "nat \<Rightarrow> sc_allocator \<Rightarrow> thread_cache_unit \<Rightarrow> world \<Rightarrow> slabs \<Rightarrow> nat list \<Rightarrow> bool" where
  "class_ok sz sc u w g live \<longleftrightarrow> class_fits sz sc \<and> slab_ok sc w g \<and> uninits g = []
     \<and> (\<exists>xs bs. unit_ok (words w) u xs bs \<and> held_ok sc w g (live @ xs @ bs))"

lemma class_fits_bounds:
  assumes "class_fits sz sc"
  shows "0 < as_usize (pg_align sc)" "as_usize (pg_align sc) \<le> 2 ^ 24" "as_usize (pg_count sc) \<le> 2 ^ 24"
proof -
  let ?N = "as_usize (pg_count sc)" and ?s = "as_usize (pg_align sc)"
  have p: "0 < ?N" "0 < ?s" "?N * ?s \<le> 2 ^ 24" using assms by (auto simp: class_fits_def)
  have "?s \<le> ?N * ?s" "?N \<le> ?N * ?s" using p(1,2) by simp_all
  then show "0 < ?s" "?s \<le> 2 ^ 24" "?N \<le> 2 ^ 24" using p by linarith+
qed

lemma class_fits_same: "same_class sc sc' \<Longrightarrow> class_fits sz sc' = class_fits sz sc"
  by (simp add: same_class_def class_fits_def)

lemma grid_same: "same_class sc sc' \<Longrightarrow> pdata (pgs w' h) = pdata (pgs w h) \<Longrightarrow> grid sc' w' h = grid sc w h"
  by (simp add: grid_def same_class_def)

lemma inside_same: "same_class sc sc' \<Longrightarrow> pdata (pgs w' h) = pdata (pgs w h) \<Longrightarrow> inside sc' w' h = inside sc w h"
  by (simp add: in_slab_def same_class_def fun_eq_iff)

text \<open>An object lies in its slab with all its bytes.\<close>

lemma grid_inside:
  assumes "class_fits sz sc" and "x \<in> grid sc w h"
  shows "inside sc w h x" and "x + sz \<le> pdata (pgs w h) + 4096 * pg_num sc" and "pdata (pgs w h) \<le> x"
proof -
  let ?N = "as_usize (pg_count sc)" and ?s = "as_usize (pg_align sc)"
  obtain i where i: "i < ?N" "x = pdata (pgs w h) + i * ?s" using assms(2) by (auto simp: grid_def)
  have "i * ?s + ?s = Suc i * ?s" by simp
  also have "\<dots> \<le> ?N * ?s" using i(1) by (intro mult_le_mono1) simp
  finally have "i * ?s + sz \<le> 4096 * pg_num sc" using assms(1) by (simp add: class_fits_def)
  then show "x + sz \<le> pdata (pgs w h) + 4096 * pg_num sc" "pdata (pgs w h) \<le> x" "inside sc w h x"
    using i(2) assms(1) by (simp_all add: in_slab_def class_fits_def)
qed

text \<open>Two objects of one slab do not overlap.\<close>

lemma grid_apart:
  assumes f: "class_fits sz sc" and x: "x \<in> grid sc w h" and y: "y \<in> grid sc w h" and ne: "x \<noteq> y"
  shows "apart (x, sz) (y, sz)"
proof -
  let ?s = "as_usize (pg_align sc)" and ?p = "pdata (pgs w h)"
  obtain i j where ij: "x = ?p + i * ?s" "y = ?p + j * ?s" using x y by (auto simp: grid_def)
  have far: "a * ?s + sz \<le> b * ?s" if "a < b" for a b :: nat
  proof -
    have "Suc a * ?s \<le> b * ?s" using that by (intro mult_le_mono1) simp
    then show ?thesis using f by (simp add: class_fits_def)
  qed
  have "i < j \<or> j < i" using ij ne by auto
  then show ?thesis using far [of i j] far [of j i] ij by (auto simp: apart_def)
qed

text \<open>So the objects that are handed out do not overlap.\<close>

lemma held_place:
  assumes "held_ok sc w g ys" and "y \<in> set ys"
  obtains h where "h \<in> owned g" "y \<in> grid sc w h" "y \<notin> set (frees g h)"
  using assms by (auto simp: held_ok_def)

lemma slabs_apart:
  "slab_ok sc w g \<Longrightarrow> h \<in> owned g \<Longrightarrow> k \<in> owned g \<Longrightarrow> h \<noteq> k \<Longrightarrow>
    apart (pdata (pgs w h), 4096 * pg_num sc) (pdata (pgs w k), 4096 * pg_num sc)"
  by (simp add: slab_ok_def base_ok_def)

lemma class_places_apart:
  assumes "class_fits sz sc" and "slab_ok sc w g" and "h \<in> owned g" "x \<in> grid sc w h" and "k \<in> owned g" "y \<in> grid sc w k"
    and "x \<noteq> y"
  shows "apart (x, sz) (y, sz)"
proof (cases "h = k")
  case True
  then show ?thesis using grid_apart assms by simp
next
  case False
  then show ?thesis using slabs_apart [OF assms(2,3,5)] grid_inside [OF assms(1,4)] grid_inside [OF assms(1,6)]
    by (auto simp: apart_def)
qed

lemma class_held_apart:
  assumes "class_fits sz sc" and "slab_ok sc w g" and "held_ok sc w g ys" and "x \<in> set ys" "y \<in> set ys" "x \<noteq> y"
  shows "apart (x, sz) (y, sz)"
proof -
  obtain h where h: "h \<in> owned g" "x \<in> grid sc w h" by (rule held_place [OF assms(3,4)])
  obtain k where k: "k \<in> owned g" "y \<in> grid sc w k" by (rule held_place [OF assms(3,5)])
  show ?thesis by (rule class_places_apart [OF assms(1,2) h k assms(6)])
qed

lemma held_not_free:
  assumes "class_fits sz sc" and "slab_ok sc w g" and "held_ok sc w g ys" and "y \<in> set ys" and "h \<in> owned g"
  shows "y \<notin> set (frees g h)"
proof
  assume y: "y \<in> set (frees g h)"
  obtain k where k: "k \<in> owned g" "y \<in> grid sc w k" "y \<notin> set (frees g k)" by (rule held_place [OF assms(3,4)])
  then have "h \<noteq> k" using y by auto
  moreover have "y \<in> grid sc w h" using y assms(3,5) by (auto simp: held_ok_def)
  ultimately show False
    using slabs_apart [OF assms(2,5) k(1)] grid_inside [OF assms(1) k(2)] grid_inside [OF assms(1), of y w h]
    by (auto simp: apart_def in_slab_def)
qed

lemma held_perm:
  assumes "mset ys = mset ys'" and "held_ok sc w g ys"
  shows "held_ok sc w g ys'"
proof -
  have "length (filter P ys) = length (filter P ys')" for P
    using assms(1) by (metis mset_filter size_mset)
  moreover have "set ys = set ys'" "distinct ys = distinct ys'"
    using assms(1) by (auto dest: mset_eq_setD mset_eq_imp_distinct_iff)
  ultimately show ?thesis using assms(2) by (simp add: held_ok_def)
qed

lemma held_world:
  "held_ok sc w g ys \<Longrightarrow> (\<And>h. h \<in> owned g \<Longrightarrow> pdata (pgs w' h) = pdata (pgs w h) \<and> pcounter (pgs w' h) = pcounter (pgs w h)) \<Longrightarrow>
    held_ok sc w' g ys"
  unfolding held_ok_def grid_def in_slab_def by auto

text \<open>Addresses end at \<open>2 ^ 48\<close>, so only so many objects are handed out.\<close>

lemma held_few:
  assumes "class_fits sz sc" and "slab_ok sc w g" and "held_ok sc w g ys"
  shows "length ys < 2 ^ 61"
proof -
  have "set ys \<subseteq> {..<2 ^ 48}"
  proof
    fix y assume "y \<in> set ys"
    then obtain h where h: "h \<in> owned g" "y \<in> grid sc w h" by (rule held_place [OF assms(3)])
    have "pdata (pgs w h) + 4096 * pg_num sc \<le> 2 ^ 48" using assms(2) h(1) by (simp add: slab_ok_def base_ok_def page_ok_def)
    then show "y \<in> {..<2 ^ 48}" using grid_inside [OF assms(1) h(2)] assms(1) by (simp add: class_fits_def)
  qed
  then have "card (set ys) \<le> 2 ^ 48" using card_mono [of "{..<2 ^ 48}" "set ys"] by simp
  then have "length ys \<le> 2 ^ 48" using assms(3) by (simp add: held_ok_def distinct_card)
  then show ?thesis by (rule le_less_trans) simp
qed


section \<open>Taking and giving back a batch\<close>

lemma held_in_use:
  assumes "class_fits sz sc" and "slab_ok sc w g" and "held_ok sc w g ys" and "y \<in> set ys" and "h \<in> owned g" "y \<in> grid sc w h"
  shows "h \<in> set (fulls g) \<union> set (partials g)"
proof -
  have "y \<in> set (filter (inside sc w h) ys)" using assms(4) grid_inside [OF assms(1,6)] by simp
  then have "0 < length (filter (inside sc w h) ys)" by (metis length_pos_if_in_set)
  moreover have "length (filter (inside sc w h) ys) = pcounter (pgs w h)" using assms(3,5) unfolding held_ok_def by blast
  ultimately have "pcounter (pgs w h) \<noteq> 0" by linarith
  then have "h \<notin> set (empties g)" using assms(2) by (auto simp: slab_ok_def kinds_ok_def)
  then show ?thesis using assms(5) by (auto simp: owned_def)
qed

lemma held_batch:
  assumes "class_fits sz sc" and "slab_ok sc w g" and h: "held_ok sc w g (live @ ys)"
  shows "batch_ok sc w g ys"
proof -
  have "\<exists>h \<in> set (fulls g) \<union> set (partials g). inside sc w h y \<and> y \<notin> set (frees g h)" if "y \<in> set ys" for y
  proof -
    have y: "y \<in> set (live @ ys)" using that by simp
    obtain k where k: "k \<in> owned g" "y \<in> grid sc w k" "y \<notin> set (frees g k)" by (rule held_place [OF h y])
    then show ?thesis using held_in_use [OF assms y k(1,2)] grid_inside [OF assms(1) k(2)] by blast
  qed
  moreover have "length (filter (inside sc w k) ys) \<le> pcounter (pgs w k)" if "k \<in> owned g" for k
  proof -
    have "pcounter (pgs w k) = length (filter (inside sc w k) (live @ ys))" using h that unfolding held_ok_def by metis
    then show ?thesis unfolding filter_append length_append by linarith
  qed
  moreover have "distinct ys" using h by (simp add: held_ok_def)
  ultimately show ?thesis unfolding batch_ok_def by blast
qed

lemma held_given_back:
  assumes h: "held_ok sc w g (live @ ys)" and r: "batch_result (4096 * pg_num sc) w g ys w' g'" and c: "same_class sc sc'"
    and f: "class_fits sz sc" and ok: "slab_ok sc w g"
  shows "held_ok sc' w' g' live"
proof -
  have e: "owned g' = owned g" "\<And>k. k \<in> owned g \<Longrightarrow> pdata (pgs w' k) = pdata (pgs w k)
      \<and> pcounter (pgs w' k) = pcounter (pgs w k) - length (filter (inside sc w k) ys)
      \<and> set (frees g' k) = set (frees g k) \<union> {x \<in> set ys. inside sc w k x}"
    using r by (auto simp: batch_result_def)
  have gr: "grid sc' w' k = grid sc w k" "inside sc' w' k = inside sc w k" if "k \<in> owned g" for k
    using e(2) [OF that] grid_same [OF c] inside_same [OF c] by auto
  have cnt: "pcounter (pgs w k) = length (filter (inside sc w k) live) + length (filter (inside sc w k) ys)" if "k \<in> owned g" for k
    using h that unfolding held_ok_def filter_append length_append by metis
  have "set (frees g' k) \<subseteq> grid sc w k" if k: "k \<in> owned g" for k
  proof -
    have "x \<in> grid sc w k" if x: "x \<in> set ys" "inside sc w k x" for x
    proof -
      have "x \<in> set (live @ ys)" using x(1) by simp
      then obtain j where j: "j \<in> owned g" "x \<in> grid sc w j" by (rule held_place [OF h])
      have "j = k" using slabs_apart [OF ok j(1) k] grid_inside(1) [OF f j(2)] x(2) by (auto simp: apart_def in_slab_def)
      then show ?thesis using j(2) by simp
    qed
    then show ?thesis using e(2) [OF k] h k by (auto simp: held_ok_def)
  qed
  moreover have "\<exists>k \<in> owned g. y \<in> grid sc w k \<and> y \<notin> set (frees g' k)" if y: "y \<in> set live" for y
  proof -
    have "y \<in> set (live @ ys)" using y by simp
    then obtain j where j: "j \<in> owned g" "y \<in> grid sc w j" "y \<notin> set (frees g j)" by (rule held_place [OF h])
    moreover have "y \<notin> set ys" using h y by (auto simp: held_ok_def)
    ultimately show ?thesis using e(2) [OF j(1)] by auto
  qed
  moreover have "pcounter (pgs w' k) = length (filter (inside sc w k) live)" if "k \<in> owned g" for k
    using e(2) [OF that] cnt [OF that] by simp
  moreover have "distinct live" using h by (simp add: held_ok_def)
  ultimately show ?thesis by (simp add: held_ok_def e(1) gr)
qed

text \<open>A batch is all the free objects of one slab, which may be a new one.\<close>

lemma held_taken:
  assumes h: "held_ok sc w g ys" and c: "same_class sc sc'" and f: "class_fits sz sc" and ok: "slab_ok sc' w' g'"
    and own: "owned g' = insert h (owned g)" and fr: "frees g' = (frees g)(h := [])"
    and old: "\<And>k. k \<in> owned g \<Longrightarrow> pdata (pgs w' k) = pdata (pgs w k)"
      "\<And>k. k \<in> owned g \<Longrightarrow> k \<noteq> h \<Longrightarrow> pcounter (pgs w' k) = pcounter (pgs w k)"
    and cnt: "pcounter (pgs w' h) = length (filter (inside sc' w' h) ys) + length fs"
    and fs: "distinct fs" "set fs \<subseteq> grid sc' w' h" "set fs \<inter> set ys = {}"
  shows "held_ok sc' w' g' (ys @ fs)"
proof -
  have f': "class_fits sz sc'" using f class_fits_same [OF c] by simp
  have gr: "grid sc' w' k = grid sc w k" "inside sc' w' k = inside sc w k" if "k \<in> owned g" for k
    using old(1) [OF that] grid_same [OF c] inside_same [OF c] by auto
  have "\<exists>k \<in> owned g'. y \<in> grid sc' w' k \<and> y \<notin> set (frees g' k)" if y: "y \<in> set (ys @ fs)" for y
  proof (cases "y \<in> set fs")
    case True
    then show ?thesis using fs(2) own fr by auto
  next
    case False
    then have "y \<in> set ys" using y by simp
    then obtain k where k: "k \<in> owned g" "y \<in> grid sc w k" "y \<notin> set (frees g k)" by (rule held_place [OF h])
    then show ?thesis using gr(1) [OF k(1)] own fr by (intro bexI [of _ k]) auto
  qed
  moreover have "set (frees g' k) \<subseteq> grid sc' w' k \<and> length (filter (inside sc' w' k) (ys @ fs)) = pcounter (pgs w' k)"
    if k: "k \<in> owned g'" for k
  proof (cases "k = h")
    case True
    have "filter (inside sc' w' h) fs = fs" using fs(2) grid_inside(1) [OF f'] by (intro filter_True) blast
    then show ?thesis using True cnt fr by simp
  next
    case False
    then have o: "k \<in> owned g" using k own by simp
    have "\<not> inside sc' w' k x" if "x \<in> set fs" for x
    proof -
      have "x \<in> grid sc' w' h" using that fs(2) by blast
      then have "inside sc' w' h x" by (rule grid_inside(1) [OF f'])
      moreover have "h \<in> owned g'" using own by simp
      ultimately show ?thesis using slabs_apart [OF ok k _ False, of] by (auto simp: apart_def in_slab_def)
    qed
    then have "filter (inside sc' w' k) fs = []" by (simp add: filter_empty_conv)
    then show ?thesis using h o gr [OF o] old(2) [OF o False] fr False by (simp add: held_ok_def)
  qed
  ultimately show ?thesis using h fs by (simp add: held_ok_def Int_commute)
qed

text \<open>The objects of a whole slab, in the order in which the unit cuts them.\<close>

lemma uncut_set: "set (uncut p s n) = (\<lambda>i. p + i * s) ` {..<n}"
proof (induction n arbitrary: p)
  case (Suc n)
  have "{..<Suc n} = insert 0 (Suc ` {..<n})" by (simp add: lessThan_Suc_eq_insert_0)
  then show ?case using Suc [of "p + s"] by (simp add: image_image add.assoc)
qed simp

lemma uncut_distinct: "0 < s \<Longrightarrow> distinct (uncut p s n)"
proof (induction n arbitrary: p)
  case (Suc n)
  have "p \<notin> set (uncut (p + s) s n)" using Suc.prems by (auto simp: uncut_set)
  then show ?case using Suc by simp
qed simp

lemma uncut_grid: "uncut (pdata (pgs w h)) (as_usize (pg_align sc)) (as_usize (pg_count sc)) = ys \<Longrightarrow> set ys = grid sc w h"
  by (auto simp: uncut_set grid_def)

section \<open>What the other classes see\<close>

lemma rings_ok_kept:
  assumes "rings_ok sc st g" and "uninits g = []" and k: "\<And>h. h \<in> owned g \<Longrightarrow> st' h = st h"
  shows "rings_ok sc st' g"
proof -
  have l: "pages.links_kept (- owned g) st st'" using k
    by (auto simp: pages.links_kept_def nonzero_def next_link_def prev_link_def)
  have "pages.ring_at st' xs" if "pages.ring_at st xs" "set xs \<subseteq> owned g" for xs
    using kept_disjoint [OF l _ that(1)] that(2) by auto
  then show ?thesis using assms(1,2) by (auto simp: rings_ok_def owned_def)
qed

lemma class_ok_frame:
  assumes ok: "class_ok sz sc u w g live" and k: "\<And>h. h \<in> owned g \<Longrightarrow> pgs w' h = pgs w h"
    and c: "\<And>h x. h \<in> owned g \<Longrightarrow> inside sc w h x \<Longrightarrow> words w' x = words w x \<and> radix_view (rd_tree (backend w')) (x div 4096) = int h"
  shows "class_ok sz sc u w' g live"
proof -
  let ?N = "as_usize (pg_count sc)" and ?n = "4096 * pg_num sc"
  have f: "class_fits sz sc" and s: "slab_ok sc w g" and un: "uninits g = []" using ok by (auto simp: class_ok_def)
  obtain xs bs where u: "unit_ok (words w) u xs bs" and h: "held_ok sc w g (live @ xs @ bs)" using ok by (auto simp: class_ok_def)
  have "rings_ok sc (pgs w') g" using rings_ok_kept [of sc "pgs w" g] s un k by (simp add: slab_ok_def)
  moreover have "kinds_ok ?N (pgs w') g" using s k by (auto simp: slab_ok_def kinds_ok_def owned_def)
  moreover have "base_ok ?N ?n (pgs w') (words w') (rd_tree (backend w')) g"
  proof -
    have "page_ok (pgs w') (words w') ?N ?n (frees g a) a" if a: "a \<in> owned g" for a
    proof -
      have p: "page_ok (pgs w) (words w) ?N ?n (frees g a) a" using s a by (simp add: slab_ok_def base_ok_def)
      then have "chain (words w') (pptr (pgs w a)) (frees g a) 0"
        using c [OF a] chain_cong [of "frees g a" "words w" "words w'"] by (simp add: page_ok_def)
      then show ?thesis using p k [OF a] by (simp add: page_ok_def in_slab_def)
    qed
    then show ?thesis using s k c unfolding slab_ok_def base_ok_def by (simp add: in_slab_def)
  qed
  ultimately have "slab_ok sc w' g" using s by (simp add: slab_ok_def)
  moreover have "list_rep (words w') (tlist u) xs"
  proof -
    have "words w' x = words w x" if x: "x \<in> set xs" for x
    proof -
      have "x \<in> set (live @ xs @ bs)" using x by simp
      then obtain a where "a \<in> owned g" "x \<in> grid sc w a" by (rule held_place [OF h])
      then show ?thesis using c grid_inside(1) [OF f] by blast
    qed
    then show ?thesis using u list_rep_cong [of xs "words w" "words w'"] by (simp add: unit_ok_def)
  qed
  then have "unit_ok (words w') u xs bs" using u unfolding unit_ok_def by blast
  moreover have "held_ok sc w' g (live @ xs @ bs)" using held_world [OF h] k by simp
  ultimately show ?thesis using f un by (auto simp: class_ok_def)
qed


text \<open>The pages that lead to a header.\<close>

definition has_header :: "world \<Rightarrow> nat \<Rightarrow> bool" where
  "has_header w q \<longleftrightarrow> 0 < radix_view (rd_tree (backend w)) q \<and> radix_view (rd_tree (backend w)) q < 2 ^ 48"

text \<open>What a step of one class may change: its own headers, the contents of its own slabs, and memory that leads to no
  header; a slab it adds has a header and pages that nothing led to.\<close>

definition class_step :: "sc_allocator \<Rightarrow> world \<Rightarrow> slabs \<Rightarrow> sc_allocator \<Rightarrow> world \<Rightarrow> slabs \<Rightarrow> bool" where
  "class_step sc w g sc' w' g' \<longleftrightarrow> same_class sc sc' \<and> headers_kept (owned g') (pgs w) (pgs w')
     \<and> owned g \<subseteq> owned g' \<and> (\<forall>h \<in> owned g. pdata (pgs w' h) = pdata (pgs w h))
     \<and> (\<forall>x. has_header w (x div 4096) \<longrightarrow> (\<forall>h \<in> owned g. \<not> inside sc w h x) \<longrightarrow> words w' x = words w x
         \<and> radix_view (rd_tree (backend w')) (x div 4096) = radix_view (rd_tree (backend w)) (x div 4096))
     \<and> (\<forall>h \<in> owned g' - owned g. (\<forall>q. radix_view (rd_tree (backend w)) q \<noteq> int h)
         \<and> (\<forall>x. inside sc' w' h x \<longrightarrow> \<not> has_header w (x div 4096)))"

text \<open>A step that adds no slab and changes words only in the slabs.\<close>

lemma class_step_quiet:
  assumes "same_class sc sc'" and "headers_kept (owned g) (pgs w) (pgs w')" and "owned g' = owned g"
    and "\<And>h. h \<in> owned g \<Longrightarrow> pdata (pgs w' h) = pdata (pgs w h)" and "rd_tree (backend w') = rd_tree (backend w)"
    and "\<And>x. (\<forall>h \<in> owned g. \<not> inside sc w h x) \<Longrightarrow> words w' x = words w x"
  shows "class_step sc w g sc' w' g'"
  using assms by (simp add: class_step_def)

lemma only_words_world:
  assumes "only_words A z z'"
  shows "zslabs z' = zslabs z" "pgs (zworld z') = pgs (zworld z)" "rd_tree (backend (zworld z')) = rd_tree (backend (zworld z))"
    "\<And>a. a \<notin> A \<Longrightarrow> zwords z' a = zwords z a"
proof -
  have z': "z' = set_words z (zwords z')" using assms by (simp add: only_words_def)
  show "zslabs z' = zslabs z" "pgs (zworld z') = pgs (zworld z)" "rd_tree (backend (zworld z')) = rd_tree (backend (zworld z))"
    by (subst z', simp add: set_words_def)+
qed (use assms in \<open>simp add: only_words_def\<close>)

lemma class_step_words:
  assumes o: "only_words A z z1" and a: "\<And>x. x \<in> A \<Longrightarrow> \<exists>h \<in> owned g. inside sc (zworld z) h x"
    and s: "class_step sc (zworld z1) g sc' w' g'"
  shows "class_step sc (zworld z) g sc' w' g'"
proof -
  note w = only_words_world [OF o]
  have i: "inside sc (zworld z1) h = inside sc (zworld z) h" for h by (simp add: w(2))
  have "zwords z1 x = zwords z x" if "\<forall>h \<in> owned g. \<not> inside sc (zworld z) h x" for x using a that w(4) by blast
  then show ?thesis using s unfolding class_step_def i has_header_def w(2,3) by simp
qed

text \<open>The words stored in the objects \<open>live\<close> of \<open>sz\<close> bytes are not touched.\<close>

definition contents_kept :: "nat \<Rightarrow> nat list \<Rightarrow> (nat \<Rightarrow> nat) \<Rightarrow> (nat \<Rightarrow> nat) \<Rightarrow> bool" where
  "contents_kept sz live m m' \<longleftrightarrow> (\<forall>y \<in> set live. \<forall>x. y \<le> x \<and> x < y + sz \<longrightarrow> m' x = m x)"

lemma contents_kept_same: "m' = m \<Longrightarrow> contents_kept sz live m m'"
  by (simp add: contents_kept_def)

lemma contents_kept_trans: "contents_kept sz live m m1 \<Longrightarrow> contents_kept sz live m1 m2 \<Longrightarrow> contents_kept sz live m m2"
  by (simp add: contents_kept_def)

text \<open>Writing only at objects that are held elsewhere leaves them alone.\<close>

lemma held_contents_kept:
  assumes f: "class_fits sz sc" and s: "slab_ok sc w g" and h: "held_ok sc w g (live @ ys)"
    and a: "\<And>x. x \<notin> set ys \<Longrightarrow> m' x = m x"
  shows "contents_kept sz live m m'"
  unfolding contents_kept_def
proof (intro ballI allI impI a notI)
  fix y x assume y: "y \<in> set live" and x: "y \<le> x \<and> x < y + sz" "x \<in> set ys"
  have "x \<noteq> y" using h x(2) y by (auto simp: held_ok_def)
  then show False using class_held_apart [OF f s h, of x y] x y f by (auto simp: apart_def class_fits_def)
qed

section \<open>Allocation\<close>

lemma held_words:
  "only_words A z z' \<Longrightarrow> held_ok sc (zworld z) g ys \<Longrightarrow> held_ok sc (zworld z') g ys"
  using held_world [of sc "zworld z" g ys "zworld z'"] only_words_world(2) [of A z z'] by simp

lemma slab_held_words:
  assumes "only_words A z z'" and "class_fits sz sc" and "slab_ok sc (zworld z) g" and "held_ok sc (zworld z) g ys" and "A \<subseteq> set ys"
  shows "slab_ok sc (zworld z') g"
  using slab_ok_words [OF assms(3,1)] held_not_free [OF assms(2-4)] assms(5) by blast

lemma held_step_quiet:
  assumes "only_words A z z'" and "class_fits sz sc" and h: "held_ok sc (zworld z) g ys" and "A \<subseteq> set ys"
  shows "class_step sc (zworld z) g sc (zworld z') g"
proof (rule class_step_quiet)
  note w = only_words_world [OF assms(1)]
  show "headers_kept (owned g) (pgs (zworld z)) (pgs (zworld z'))" "rd_tree (backend (zworld z')) = rd_tree (backend (zworld z))"
    by (simp_all add: w)
  show "zwords z' x = zwords z x" if n: "\<forall>h \<in> owned g. \<not> inside sc (zworld z) h x" for x
  proof (rule w(4))
    show "x \<notin> A"
    proof
      assume "x \<in> A"
      then have "x \<in> set ys" using assms(4) by blast
      then obtain k where "k \<in> owned g" "x \<in> grid sc (zworld z) k" by (rule held_place [OF h])
      then show False using n grid_inside(1) [OF assms(2)] by blast
    qed
  qed
qed (simp_all add: only_words_world [OF assms(1)])

text \<open>The unit has an aligned object.\<close>

lemma class_hit:
  assumes f: "class_fits sz sc" and ok: "slab_ok sc (zworld z) g" and un: "uninits g = []"
    and u: "unit_ok (zwords z) u xs bs" and h: "held_ok sc (zworld z) g (live @ xs @ bs)"
    and al: "is_pow2 algn" and fnd: "find (\<lambda>x. algn dvd x) (xs @ bs) = Some a"
  shows "\<exists>u' z'. unit_allocate u z idx algn = Some (u', z', a) \<and> algn dvd a \<and> zslabs z' = zslabs z
    \<and> class_ok sz sc u' (zworld z') g (a # live) \<and> class_step sc (zworld z) g sc (zworld z') g
    \<and> contents_kept sz live (zwords z) (zwords z')"
proof -
  obtain u' z' xs' bs' where a: "unit_allocate u z idx algn = Some (u', z', a)" "unit_ok (zwords z') u' xs' bs'"
    "algn dvd a" "mset (xs' @ bs') + {#a#} = mset (xs @ bs)" "z' = set_words z (zwords z')"
    "\<forall>p. p \<notin> set (xs @ bs) \<longrightarrow> zwords z' p = zwords z p"
    using unit_allocate_hit [OF u al fnd, of idx] by metis
  have w: "only_words (set (xs @ bs)) z z'" using a(5,6) by (simp add: only_words_def)
  have sub: "set (xs @ bs) \<subseteq> set (live @ xs @ bs)" by auto
  have "mset (live @ xs @ bs) = mset ((a # live) @ xs' @ bs')" using a(4) by simp
  then have "held_ok sc (zworld z) g ((a # live) @ xs' @ bs')" using h by (rule held_perm)
  then have "held_ok sc (zworld z') g ((a # live) @ xs' @ bs')" by (rule held_words [OF w])
  moreover have "slab_ok sc (zworld z') g" by (rule slab_held_words [OF w f ok h sub])
  ultimately have "class_ok sz sc u' (zworld z') g (a # live)" using a(2) f un unfolding class_ok_def by blast
  moreover have "contents_kept sz live (zwords z) (zwords z')" by (rule held_contents_kept [OF f ok h]) (use a(6) in blast)
  ultimately show ?thesis using a(1,3) held_step_quiet [OF w f h sub] only_words_world(1) [OF w] by blast
qed

text \<open>It has none: everything uncut is cut first.\<close>

lemma unit_allocate_uncut:
  assumes "unit_ok (zwords z) u xs bs" and "is_pow2 algn" and "find (\<lambda>x. algn dvd x) (xs @ bs) = None"
  shows "\<exists>u1 z1. only_words (set (xs @ bs)) z z1 \<and> unit_ok (zwords z1) u1 (rev bs @ xs) []
    \<and> unit_allocate u z idx algn = unit_allocate u1 z1 idx algn"
proof -
  have no: "find (\<lambda>x. algn dvd x) xs = None" "find (\<lambda>x. algn dvd x) bs = None" "find (\<lambda>x. algn dvd x) (rev bs @ xs) = None"
    using assms(3) by (auto simp: find_None_iff)
  obtain u1 z1 where p: "(if ll_length (tlist u) > 0 then do {
         (m, l, ans) \<leftarrow> pop_unchecked_aligned (zwords z) (tlist u) algn;
         Some (u\<lparr>tlist := l\<rparr>, set_words z m, ans) }
       else Some (u, z, 0)) = Some (u1, z1, 0)" "only_words (set xs) z z1" "unit_ok (zwords z1) u1 xs bs"
    using pop_unit [OF assms(1,2)] unfolding no(1) option.case by metis
  obtain u2 z2 where c: "only_words (set bs) z1 z2" "cut_aligned u1 z1 algn = Some (u2, z2, 0)"
    "unit_ok (zwords z2) u2 (rev bs @ xs) []"
    using cut_aligned_ok [OF p(3) assms(2)] unfolding no(2) option.case by blast
  have e: "(\<lambda>x. x AND (algn - 1) = 0) = (\<lambda>x. algn dvd x)"
    by (rule ext) (simp only: and_mask_mod [OF assms(2)] dvd_eq_mod_eq_0)
  have "list_rep (zwords z2) (tlist u2) (rev bs @ xs)" using c(3) by (simp add: unit_ok_def)
  moreover have "\<forall>x \<in> set (rev bs @ xs). x AND (algn - 1) \<noteq> 0" using no(3) fun_cong [OF e] unfolding find_None_iff by blast
  ultimately have "pop_unchecked_aligned (zwords z2) (tlist u2) algn = Some (zwords z2, tlist u2, 0)" by (rule pop_none)
  then have q: "(if ll_length (tlist u2) > 0 then do {
         (m, l, ans) \<leftarrow> pop_unchecked_aligned (zwords z2) (tlist u2) algn;
         Some (u2\<lparr>tlist := l\<rparr>, set_words z2 m, ans) }
       else Some (u2, z2, 0)) = Some (u2, z2, 0)" by simp
  have "nat (bump_count u2) = 0" "0 \<le> bump_count u2" using c(3) by (auto simp: unit_ok_def)
  then have "cut_aligned u2 z2 algn = Some (u2, z2, 0)" by (subst cut_aligned.simps) simp
  then have "unit_allocate u z idx algn = unit_allocate u2 z2 idx algn"
    unfolding unit_allocate_def p(1) q using c(2) by simp
  moreover have "only_words (set (xs @ bs)) z z2" using only_words_trans [OF p(2) c(1)] by simp
  ultimately show ?thesis using c(3) by blast
qed


text \<open>A unit without an aligned object and a batch of the slab \<open>k\<close>: the first object of the batch is the answer, the
  others are in the unit.\<close>

lemma refill_class:
  assumes idx: "idx < length (zslabs z)" and sc: "zslabs z ! idx = sc" and f: "class_fits sz sc"
    and u: "unit_ok (zwords z) u xs []" and s: "slab_ok sc (zworld z) g" and h: "held_ok sc (zworld z) g (live @ xs)"
    and al: "is_pow2 algn" "\<forall>x \<in> set xs. \<not> algn dvd x"
    and a: "allocate_batch_v2 sc (zworld z) algn = Some (sc', w', p, length (p # ys), stride)"
    and ok: "slab_ok sc' w' g'" "uninits g' = []" "class_step sc (zworld z) g sc' w' g'"
    and own: "owned g' = insert k (owned g)" "frees g' = (frees g)(k := [])"
    and cnt: "\<And>j. j \<in> owned g \<Longrightarrow> j \<noteq> k \<Longrightarrow> pcounter (pgs w' j) = pcounter (pgs (zworld z) j)"
      "pcounter (pgs w' k) = length (filter (inside sc' w' k) (live @ xs)) + length (p # ys)"
    and fs: "distinct (p # ys)" "set (p # ys) \<subseteq> grid sc' w' k" "set (p # ys) \<inter> set (live @ xs) = {}"
    and keep: "\<forall>x \<in> set xs. words w' x = zwords z x"
    and b: "case stride of Some t \<Rightarrow> t = as_usize (pg_align sc) \<and> ys = uncut (p + t) t (length ys)
      | None \<Rightarrow> xs = [] \<and> chain (words w') p (p # ys) 0"
  shows "\<exists>u'. unit_allocate u z idx algn = Some (u', \<lparr>zslabs = (zslabs z)[idx := sc'], zworld = w'\<rparr>, p)
    \<and> class_ok sz sc' u' w' g' (p # live)"
proof -
  let ?z = "\<lparr>zslabs = (zslabs z)[idx := sc'], zworld = w'\<rparr>"
  have same: "same_class sc sc'" and old: "\<And>j. j \<in> owned g \<Longrightarrow> pdata (pgs w' j) = pdata (pgs (zworld z) j)"
    using ok(3) by (auto simp: class_step_def)
  have f': "class_fits sz sc'" using f class_fits_same [OF same] by simp
  have h': "held_ok sc' w' g' ((live @ xs) @ p # ys)"
    by (rule held_taken [OF h same f ok(1) own old cnt(1,2) fs])
  have kp: "page_ok (pgs w') (words w') (as_usize (pg_count sc')) (4096 * pg_num sc') (frees g' k) k"
    using ok(1) own(1) by (simp add: slab_ok_def base_ok_def)
  have n: "length (p # ys) \<le> 2 ^ 24"
    using cnt(2) kp class_fits_bounds(3) [OF f'] unfolding page_ok_def by linarith
  have p: "p \<in> grid sc' w' k" using fs(2) by simp
  have lim: "0 < p" "p < 2 ^ 48" using grid_inside(1) [OF f' p] kp by (auto simp: in_slab_def page_ok_def)
  have zb: "allocate_batch_from_slab z idx algn = Some (?z, p, length (p # ys), stride)"
    using idx sc a by (simp add: allocate_batch_from_slab_def)
  have few: "length xs < 2 ^ 61" using held_few [OF f s h] by simp
  have d: "distinct (xs @ ys)" "distinct ys" using h' by (auto simp: held_ok_def)
  have bt: "case stride of
      Some t \<Rightarrow> 0 < t \<and> t < 2 ^ 31 \<and> p + length (p # ys) * t < 2 ^ 63 \<and> ys = uncut (p + t) t (length (p # ys) - 1)
        \<and> distinct (xs @ ys) \<and> length xs < 2 ^ 61
    | None \<Rightarrow> xs = [] \<and> length ys = length (p # ys) - 1 \<and> distinct ys \<and> chain (zwords ?z) p (p # ys) 0"
  proof (cases stride)
    case (Some t)
    then have t: "t = as_usize (pg_align sc)" "ys = uncut (p + t) t (length ys)" using b by auto
    have tb: "0 < t" "t \<le> 2 ^ 24" using class_fits_bounds(1,2) [OF f] t(1) by auto
    have "length (p # ys) * t \<le> 2 ^ 24 * 2 ^ 24" by (rule mult_le_mono [OF n tb(2)])
    then have "p + length (p # ys) * t < 2 ^ 63" using lim(2) by simp
    then show ?thesis using Some t(2) tb d(1) few by simp
  qed (use b d in simp)
  have n30: "0 < length (p # ys)" "length (p # ys) < 2 ^ 30" using n by simp_all
  have kp2: "\<forall>x \<in> set xs. zwords ?z x = zwords z x" using keep by simp
  obtain u' where u': "unit_allocate u z idx algn = Some (u', ?z, p)"
    "if stride = None then unit_ok (zwords ?z) u' ys [] else unit_ok (zwords ?z) u' xs ys"
    using unit_allocate_miss [OF u al zb lim(1) n30 kp2 bt] by blast
  have "held_ok sc' w' g' ((p # live) @ xs @ ys)" by (rule held_perm [OF _ h']) simp
  moreover have "xs = []" if "stride = None" using b that by simp
  ultimately have "\<exists>xs bs. unit_ok (words w') u' xs bs \<and> held_ok sc' w' g' ((p # live) @ xs @ bs)"
    using u'(2) by (cases "stride = None") (force intro: exI [of _ ys])+
  then have "class_ok sz sc' u' w' g' (p # live)" using f' ok(1,2) unfolding class_ok_def by blast
  then show ?thesis using u'(1) by blast
qed

text \<open>The first partial slab.\<close>

lemma class_miss_partial:
  assumes idx: "idx < length (zslabs z)" and sc: "zslabs z ! idx = sc" and f: "class_fits sz sc" and un: "uninits g = []"
    and u: "unit_ok (zwords z) u [] []" and s: "slab_ok sc (zworld z) g" and h: "held_ok sc (zworld z) g live"
    and p: "partials g = k # ps"
  shows "\<exists>u' sc' w' g' p. unit_allocate u z idx 1 = Some (u', \<lparr>zslabs = (zslabs z)[idx := sc'], zworld = w'\<rparr>, p)
    \<and> class_ok sz sc' u' w' g' (p # live) \<and> class_step sc (zworld z) g sc' w' g' \<and> contents_kept sz live (zwords z) (words w')"
proof -
  let ?w = "zworld z"
  obtain sc' w' g' where a: "allocate_batch_v2 sc ?w 1 = Some (sc', w', hd (frees g k), length (frees g k), None)"
    "slab_ok sc' w' g'" "fulls g' = fulls g @ [k]" "partials g' = ps" "empties g' = empties g" "uninits g' = uninits g"
    "frees g' = (frees g)(k := [])" "words w' = words ?w" "chain (words w') (hd (frees g k)) (frees g k) 0"
    "\<forall>j. pdata (pgs w' j) = pdata (pgs ?w j)" "same_class sc sc'" "headers_kept (owned g) (pgs ?w) (pgs w')"
    "\<forall>j. pcounter (pgs w' j) = (if j = k then as_usize (pg_count sc) else pcounter (pgs ?w j))"
    "rd_tree (backend w') = rd_tree (backend ?w)"
    using allocate_batch_partial_ok [OF s p] by metis
  have k: "k \<in> owned g" "k \<in> set (partials g)" using p by (auto simp: owned_def)
  have own: "owned g' = owned g" using a(3-5) p by (auto simp: owned_def)
  then have own': "owned g' = insert k (owned g)" using k by auto
  have pg: "page_ok (pgs ?w) (words ?w) (as_usize (pg_count sc)) (4096 * pg_num sc) (frees g k) k"
    using s k by (simp add: slab_ok_def base_ok_def)
  have "pcounter (pgs ?w k) < as_usize (pg_count sc)" using s k(2) by (simp add: slab_ok_def kinds_ok_def)
  then have "frees g k \<noteq> []" using pg by (auto simp: page_ok_def)
  then obtain y ys where fr: "frees g k = y # ys" by (cases "frees g k") auto
  have st: "class_step sc ?w g sc' w' g'" by (rule class_step_quiet) (use a own in simp_all)
  have cn: "pcounter (pgs ?w k) = length (filter (inside sc ?w k) live)" using h k(1) unfolding held_ok_def by simp
  have gr: "grid sc' w' k = grid sc ?w k" "inside sc' w' k = inside sc ?w k"
    using a(10) grid_same [OF a(11)] inside_same [OF a(11)] by auto
  have one: "is_pow2 1" using is_pow2_power [of 0] by simp
  have "\<exists>u'. unit_allocate u z idx 1 = Some (u', \<lparr>zslabs = (zslabs z)[idx := sc'], zworld = w'\<rparr>, y)
    \<and> class_ok sz sc' u' w' g' (y # live)"
  proof (rule refill_class [where stride = None and xs = "[]" and ys = ys, OF idx sc f u s _ one _ _ a(2) _ st own' a(7)])
    show "held_ok sc ?w g (live @ [])" using h by simp
    show "allocate_batch_v2 sc ?w 1 = Some (sc', w', y, length (y # ys), None)" using a(1) fr by simp
    show "uninits g' = []" using a(6) un by simp
    show "pcounter (pgs w' k) = length (filter (inside sc' w' k) (live @ [])) + length (y # ys)"
      using a(13) cn gr(2) pg fr by (simp add: page_ok_def)
    show "distinct (y # ys)" using pg fr by (simp add: page_ok_def)
    show "set (y # ys) \<subseteq> grid sc' w' k" using h k(1) unfolding held_ok_def gr(1) fr [symmetric] by blast
    show "set (y # ys) \<inter> set (live @ []) = {}" using held_not_free [OF f s h _ k(1)] fr by auto
  qed (use a(9,13) fr in auto)
  then show ?thesis using st contents_kept_same [OF a(8)] by blast
qed

text \<open>The objects of a whole slab.\<close>

lemma whole_slab:
  assumes "0 < as_usize (pg_count sc)" and "0 < as_usize (pg_align sc)"
  defines "t \<equiv> as_usize (pg_align sc)"
  obtains ys where "length (pdata (pgs w k) # ys) = as_usize (pg_count sc)" "distinct (pdata (pgs w k) # ys)"
    "set (pdata (pgs w k) # ys) = grid sc w k" "ys = uncut (pdata (pgs w k) + t) t (length ys)"
proof -
  obtain n where n: "as_usize (pg_count sc) = Suc n" using assms(1) by (cases "as_usize (pg_count sc)") auto
  let ?ys = "uncut (pdata (pgs w k) + t) t n"
  have e: "pdata (pgs w k) # ?ys = uncut (pdata (pgs w k)) t (as_usize (pg_count sc))" by (simp add: n)
  have "distinct (pdata (pgs w k) # ?ys)" unfolding e by (rule uncut_distinct) (use assms(2) in \<open>simp add: t_def\<close>)
  moreover have "set (pdata (pgs w k) # ?ys) = grid sc w k" unfolding e by (simp add: uncut_set grid_def t_def)
  ultimately show ?thesis using that [of ?ys] n by simp
qed


text \<open>The first empty slab.\<close>

lemma slab_pos:
  assumes "slab_ok sc w g" and "h \<in> owned g"
  shows "0 < pdata (pgs w h)" and "pdata (pgs w h) mod 4096 = 0" and "pdata (pgs w h) + 4096 * pg_num sc \<le> 2 ^ 48"
    and "0 < h" and "h < 2 ^ 48"
proof -
  show "0 < pdata (pgs w h)" "pdata (pgs w h) mod 4096 = 0" "pdata (pgs w h) + 4096 * pg_num sc \<le> 2 ^ 48" "h < 2 ^ 48"
    using assms by (auto simp: slab_ok_def base_ok_def page_ok_def)
  show "0 < h" using assms by (auto simp: slab_ok_def rings_ok_def owned_def pages.ring_at_def nonzero_def)
qed

lemma dvd_page:
  assumes "is_pow2 algn" and "algn \<le> 4096" and "p mod 4096 = (0::nat)"
  shows "algn dvd p"
proof -
  obtain k where k: "algn = 2 ^ k" using assms(1) by (auto simp: is_pow2_iff)
  have "(2::nat) ^ k \<le> 2 ^ 12" using assms(2) k by simp
  then have "k \<le> 12" by (rule power_le_imp_le_exp [rotated]) simp
  then have "algn dvd 2 ^ 12" unfolding k by (rule le_imp_power_dvd)
  then have "algn dvd 4096" by simp
  then show ?thesis using assms(3) by (meson dvd_trans mod_eq_0_iff_dvd)
qed

lemma class_miss_empty:
  assumes idx: "idx < length (zslabs z)" and sc: "zslabs z ! idx = sc" and f: "class_fits sz sc" and un: "uninits g = []"
    and u: "unit_ok (zwords z) u xs []" and s: "slab_ok sc (zworld z) g" and h: "held_ok sc (zworld z) g (live @ xs)"
    and al: "is_pow2 algn" "\<forall>x \<in> set xs. \<not> algn dvd x" "algn \<le> 4096"
    and e: "empties g = k # es" and np: "partials g = [] \<or> algn \<noteq> 1"
  shows "\<exists>u' sc' w' g' p. unit_allocate u z idx algn = Some (u', \<lparr>zslabs = (zslabs z)[idx := sc'], zworld = w'\<rparr>, p)
    \<and> algn dvd p \<and> class_ok sz sc' u' w' g' (p # live) \<and> class_step sc (zworld z) g sc' w' g'
    \<and> contents_kept sz live (zwords z) (words w')"
proof -
  let ?w = "zworld z" and ?p = "pdata (pgs (zworld z) k)" and ?N = "as_usize (pg_count sc)" and ?t = "as_usize (pg_align sc)"
  obtain sc' w' g' where a: "allocate_batch_v2 sc ?w algn = Some (sc', w', ?p, ?N, Some ?t)"
    "slab_ok sc' w' g'" "fulls g' = fulls g @ [k]" "partials g' = partials g" "empties g' = es" "uninits g' = uninits g"
    "frees g' = (frees g)(k := [])" "words w' = words ?w"
    "\<forall>j. pdata (pgs w' j) = pdata (pgs ?w j)" "same_class sc sc'" "headers_kept (owned g) (pgs ?w) (pgs w')"
    "\<forall>j. pcounter (pgs w' j) = (if j = k then ?N else pcounter (pgs ?w j))" "rd_tree (backend w') = rd_tree (backend ?w)"
    using allocate_batch_empty_ok [OF s e np] by metis
  have k: "k \<in> owned g" using e by (auto simp: owned_def)
  have own: "owned g' = owned g" "owned g' = insert k (owned g)" using a(3-5) e by (auto simp: owned_def)
  have st: "class_step sc ?w g sc' w' g'" by (rule class_step_quiet) (use a own in simp_all)
  have gr: "grid sc' w' k = grid sc ?w k" "inside sc' w' k = inside sc ?w k"
    using a(9) grid_same [OF a(10)] inside_same [OF a(10)] by auto
  have "pcounter (pgs ?w k) = 0" using s e by (simp add: slab_ok_def kinds_ok_def)
  then have nil: "filter (inside sc ?w k) (live @ xs) = []" using h k unfolding held_ok_def by (metis length_0_conv)
  have Nt: "0 < ?N" "0 < ?t" using f class_fits_bounds(1) [OF f] by (auto simp: class_fits_def)
  obtain ys where ys: "length (?p # ys) = ?N" "distinct (?p # ys)" "set (?p # ys) = grid sc ?w k" "ys = uncut (?p + ?t) ?t (length ys)"
    by (rule whole_slab [OF Nt])
  have "\<exists>u'. unit_allocate u z idx algn = Some (u', \<lparr>zslabs = (zslabs z)[idx := sc'], zworld = w'\<rparr>, ?p)
    \<and> class_ok sz sc' u' w' g' (?p # live)"
  proof (rule refill_class [where stride = "Some ?t" and ys = ys, OF idx sc f u s h al(1,2) _ a(2) _ st own(2) a(7)])
    show "allocate_batch_v2 sc ?w algn = Some (sc', w', ?p, length (?p # ys), Some ?t)" using a(1) ys(1) by simp
    show "pcounter (pgs w' k) = length (filter (inside sc' w' k) (live @ xs)) + length (?p # ys)"
      using a(12) ys(1) unfolding gr nil by simp
    show "set (?p # ys) \<subseteq> grid sc' w' k" unfolding gr ys(3) by simp
    show "set (?p # ys) \<inter> set (live @ xs) = {}"
    proof -
      have "x \<notin> set (live @ xs)" if "x \<in> grid sc ?w k" for x
        using nil grid_inside(1) [OF f that] unfolding filter_empty_conv by blast
      then show ?thesis unfolding ys(3) by blast
    qed
    show "case Some ?t of Some t \<Rightarrow> t = ?t \<and> ys = uncut (?p + t) t (length ys) | None \<Rightarrow> xs = [] \<and> chain (words w') ?p (?p # ys) 0"
      using ys(4) by simp
  qed (use a(6,8,12) un ys(2) in simp_all)
  then show ?thesis using st dvd_page [OF al(1,3) slab_pos(2) [OF s k]] contents_kept_same [OF a(8)] by blast
qed

text \<open>A new slab: the header and the pages the backend answers are not in use, and it leaves the pages that lead to a
  header alone.\<close>

definition fresh_pages ::
  "sc_allocator \<Rightarrow> world \<Rightarrow> nat \<Rightarrow> nat \<Rightarrow> machine \<Rightarrow> page_bump \<Rightarrow> free_list \<Rightarrow> bool" where
  "fresh_pages sc w h p m pb b \<longleftrightarrow> page_bump_alloc (fl_os (backend w)) (pgb w) OBJECT_PAGE_BYTES = Some (m, pb, h)
     \<and> 0 < h \<and> h < 2 ^ 48 \<and> (\<forall>q. radix_view (rd_tree (backend w)) q \<noteq> int h)
     \<and> bsa_alloc ((backend w)\<lparr>fl_os := m\<rparr>) \<lparr>lsize = wmul PAGE_SIZE (pg_num sc), lalign = 8\<rparr> = Some (b, p)
     \<and> 0 < p \<and> p mod 4096 = 0 \<and> p + 4096 * pg_num sc \<le> 2 ^ 48
     \<and> (\<forall>q. p div 4096 \<le> q \<and> q < p div 4096 + pg_num sc \<longrightarrow> \<not> has_header w q)
     \<and> (\<forall>x. has_header w (x div 4096) \<longrightarrow> mem (fl_os b) x = words w x
         \<and> radix_view (rd_tree b) (x div 4096) = radix_view (rd_tree (backend w)) (x div 4096))"

lemma owned_mapped:
  assumes "slab_ok sc w g" and "h \<in> owned g" and "inside sc w h x"
  shows "radix_view (rd_tree (backend w)) (x div 4096) = int h" and "has_header w (x div 4096)"
proof -
  show v: "radix_view (rd_tree (backend w)) (x div 4096) = int h" using assms by (simp add: slab_ok_def base_ok_def)
  then show "has_header w (x div 4096)" using slab_pos(4,5) [OF assms(1,2)] by (simp add: has_header_def)
qed

lemma fresh_pages_outside:
  assumes "fresh_pages sc w h p m pb b" and "p \<le> x" and "x < p + 4096 * pg_num sc"
  shows "\<not> has_header w (x div 4096)"
proof -
  have p: "p mod 4096 = 0" "p + 4096 * pg_num sc \<le> 2 ^ 48" using assms(1) by (auto simp: fresh_pages_def)
  then have "x < 2 ^ 48" using assms(3) by linarith
  then show ?thesis using page_of_slab [OF p(1), of x "pg_num sc"] assms by (simp add: fresh_pages_def)
qed

lemma fresh_new_slab:
  assumes n: "fresh_pages sc w h p m pb b" and s: "slab_ok sc w g" and un: "uninits g = []"
  shows "new_slab sc w g h p m pb b" "h \<notin> owned g"
proof -
  have pos: "0 < pg_num sc" using s by (simp add: slab_ok_def config_ok_def)
  have other: "h \<noteq> k" if "k \<in> owned g" for k
  proof -
    have "inside sc w k (pdata (pgs w k))" using pos by (simp add: in_slab_def)
    then show ?thesis using owned_mapped(1) [OF s that] n unfolding fresh_pages_def by metis
  qed
  then show "h \<notin> owned g" by blast
  then have "h \<notin> set (all_slabs g)" using un by (auto simp: owned_def all_slabs_def)
  moreover have "apart (p, 4096 * pg_num sc) (pdata (pgs w k), 4096 * pg_num sc)" if k: "k \<in> owned g" for k
  proof (rule ccontr)
    assume "\<not> ?thesis"
    then have "inside sc w k (max p (pdata (pgs w k)))" "p \<le> max p (pdata (pgs w k))" "max p (pdata (pgs w k)) < p + 4096 * pg_num sc"
      using pos by (auto simp: apart_def in_slab_def)
    then show False using owned_mapped(2) [OF s k] fresh_pages_outside [OF n] by blast
  qed
  moreover have "mem (fl_os b) x = words w x" if "k \<in> owned g" "x \<in> set (frees g k)" for k x
  proof -
    have "inside sc w k x" using s that by (simp add: slab_ok_def base_ok_def page_ok_def)
    then show ?thesis using owned_mapped(2) [OF s that(1)] n by (simp add: fresh_pages_def)
  qed
  moreover have "radix_view (rd_tree b) (x div 4096) = int k" if "k \<in> owned g" "inside sc w k x" for k x
    using owned_mapped [OF s that] n by (simp add: fresh_pages_def)
  ultimately show "new_slab sc w g h p m pb b" using n by (simp add: fresh_pages_def new_slab_def)
qed

lemma class_miss_new:
  assumes idx: "idx < length (zslabs z)" and sc: "zslabs z ! idx = sc" and f: "class_fits sz sc" and un: "uninits g = []"
    and u: "unit_ok (zwords z) u xs []" and s: "slab_ok sc (zworld z) g" and h: "held_ok sc (zworld z) g (live @ xs)"
    and al: "is_pow2 algn" "\<forall>x \<in> set xs. \<not> algn dvd x" "algn \<le> 4096"
    and e: "empties g = []" and np: "partials g = [] \<or> algn \<noteq> 1" and n: "fresh_pages sc (zworld z) k p m pb b"
  shows "\<exists>u' sc' w' g' p. unit_allocate u z idx algn = Some (u', \<lparr>zslabs = (zslabs z)[idx := sc'], zworld = w'\<rparr>, p)
    \<and> algn dvd p \<and> class_ok sz sc' u' w' g' (p # live) \<and> class_step sc (zworld z) g sc' w' g'
    \<and> contents_kept sz live (zwords z) (words w')"
proof -
  let ?w = "zworld z" and ?N = "as_usize (pg_count sc)" and ?t = "as_usize (pg_align sc)"
  note nk = fresh_new_slab [OF n s un]
  obtain sc' w' g' where a: "allocate_batch_v2 sc ?w algn = Some (sc', w', p, ?N, Some ?t)"
    "slab_ok sc' w' g'" "fulls g' = fulls g @ [k]" "partials g' = partials g" "empties g' = []" "uninits g' = []"
    "frees g' = (frees g)(k := [])" "\<forall>j. pdata (pgs w' j) = (if j = k then p else pdata (pgs ?w j))" "same_class sc sc'"
    "headers_kept (insert k (owned g)) (pgs ?w) (pgs w')"
    "\<forall>j. pcounter (pgs w' j) = (if j = k then ?N else pcounter (pgs ?w j))" "words w' = mem (fl_os b)"
    "radix_view (rd_tree (backend w')) = fill (radix_view (rd_tree b)) (p div 4096) (pg_num sc) (int k)"
    using allocate_batch_new_ok [OF s e un np nk(1)] by metis
  have own: "owned g' = insert k (owned g)" using a(3-5) e by (auto simp: owned_def)
  have in_new: "inside sc' w' k x \<longleftrightarrow> p \<le> x \<and> x < p + 4096 * pg_num sc" for x
    using a(8,9) by (simp add: in_slab_def same_class_def)
  have st: "class_step sc ?w g sc' w' g'"
    unfolding class_step_def
  proof (intro conjI ballI allI impI)
    fix x assume x: "has_header ?w (x div 4096)"
    then have "\<not> (p div 4096 \<le> x div 4096 \<and> x div 4096 < p div 4096 + pg_num sc)" using n by (auto simp: fresh_pages_def)
    then show "radix_view (rd_tree (backend w')) (x div 4096) = radix_view (rd_tree (backend ?w)) (x div 4096)" "words w' x = words ?w x"
      using x n unfolding a(12,13) by (auto simp: fresh_pages_def fill_def)
  next
    fix j q assume "j \<in> owned g' - owned g"
    then have "j = k" using own by auto
    then show "radix_view (rd_tree (backend ?w)) q \<noteq> int j" using n by (simp add: fresh_pages_def)
  next
    fix j x assume "j \<in> owned g' - owned g" "inside sc' w' j x"
    then show "\<not> has_header ?w (x div 4096)" using own in_new fresh_pages_outside [OF n] by auto
  qed (use a own nk(2) in auto)
  have pk: "pdata (pgs w' k) = p" using a(8) by simp
  have Nt: "0 < ?N" "0 < ?t" using f class_fits_bounds(1) [OF f] by (auto simp: class_fits_def)
  obtain ys where ys: "length (p # ys) = ?N" "distinct (p # ys)" "set (p # ys) = grid sc w' k" "ys = uncut (p + ?t) ?t (length ys)"
    using whole_slab [OF Nt, of w' k] unfolding pk by metis
  have gr: "grid sc' w' k = grid sc w' k" by (rule grid_same [OF a(9)]) simp
  have out: "\<not> inside sc' w' k x" if x: "x \<in> set (live @ xs)" for x
  proof -
    obtain j where j: "j \<in> owned g" "x \<in> grid sc ?w j" by (rule held_place [OF h x])
    show ?thesis using owned_mapped(2) [OF s j(1) grid_inside(1) [OF f j(2)]] in_new fresh_pages_outside [OF n] by blast
  qed
  then have nil: "filter (inside sc' w' k) (live @ xs) = []" unfolding filter_empty_conv by blast
  have f': "class_fits sz sc'" using f class_fits_same [OF a(9)] by simp
  have keep: "words w' x = zwords z x" if y: "y \<in> set (live @ xs)" "y \<le> x" "x < y + sz" for x y
  proof -
    obtain j where j: "j \<in> owned g" "y \<in> grid sc ?w j" by (rule held_place [OF h y(1)])
    have "inside sc ?w j x" using grid_inside(2,3) [OF f j(2)] y(2,3) by (simp add: in_slab_def)
    then show ?thesis using owned_mapped(2) [OF s j(1)] n unfolding a(12) by (simp add: fresh_pages_def)
  qed
  have kept: "contents_kept sz live (zwords z) (words w')"
    unfolding contents_kept_def by (intro ballI allI impI, rule keep) auto
  have "\<exists>u'. unit_allocate u z idx algn = Some (u', \<lparr>zslabs = (zslabs z)[idx := sc'], zworld = w'\<rparr>, p)
    \<and> class_ok sz sc' u' w' g' (p # live)"
  proof (rule refill_class [where stride = "Some ?t" and ys = ys, OF idx sc f u s h al(1,2) _ a(2,6) st own a(7)])
    show "allocate_batch_v2 sc ?w algn = Some (sc', w', p, length (p # ys), Some ?t)" using a(1) ys(1) by simp
    show "pcounter (pgs w' k) = length (filter (inside sc' w' k) (live @ xs)) + length (p # ys)"
      using a(11) ys(1) unfolding nil by simp
    show "set (p # ys) \<subseteq> grid sc' w' k" unfolding gr ys(3) by simp
    show "set (p # ys) \<inter> set (live @ xs) = {}"
      using out grid_inside(1) [OF f'] unfolding ys(3) gr [symmetric] by blast
    show "\<forall>x \<in> set xs. words w' x = zwords z x"
      by (intro ballI, rule keep) (use f in \<open>auto simp: class_fits_def\<close>)
    show "case Some ?t of Some t \<Rightarrow> t = ?t \<and> ys = uncut (p + t) t (length ys) | None \<Rightarrow> xs = [] \<and> chain (words w') p (p # ys) 0"
      using ys(4) by simp
  qed (use a(11) ys(2) in simp_all)
  moreover have "algn dvd p" by (rule dvd_page [OF al(1,3)]) (use n in \<open>simp add: fresh_pages_def\<close>)
  ultimately show ?thesis using st kept by blast
qed


text \<open>The backend can give a new slab, whatever the program has stored in its objects.\<close>

definition pages_ready :: "sc_allocator \<Rightarrow> zone \<Rightarrow> bool" where
  "pages_ready sc z \<longleftrightarrow> (\<forall>m. (\<forall>x. \<not> has_header (zworld z) (x div 4096) \<longrightarrow> m x = zwords z x) \<longrightarrow>
     (\<exists>h p m' pb b. fresh_pages sc (zworld (set_words z m)) h p m' pb b))"

text \<open>An allocation of the class succeeds, gives an aligned object that nobody holds, and keeps the class.\<close>

lemma class_allocate:
  assumes idx: "idx < length (zslabs z)" and ok: "class_ok sz (zslabs z ! idx) u (zworld z) g live"
    and al: "is_pow2 algn" "algn \<le> 4096" and n: "empties g = [] \<Longrightarrow> pages_ready (zslabs z ! idx) z"
  shows "\<exists>u' z' sc' g' p. unit_allocate u z idx algn = Some (u', z', p) \<and> zslabs z' = (zslabs z)[idx := sc']
    \<and> algn dvd p \<and> class_ok sz sc' u' (zworld z') g' (p # live) \<and> class_step (zslabs z ! idx) (zworld z) g sc' (zworld z') g'
    \<and> contents_kept sz live (zwords z) (zwords z')"
proof -
  define sc where "sc = zslabs z ! idx"
  have f: "class_fits sz sc" and s: "slab_ok sc (zworld z) g" and un: "uninits g = []" using ok by (auto simp: class_ok_def sc_def)
  obtain xs bs where u: "unit_ok (zwords z) u xs bs" and h: "held_ok sc (zworld z) g (live @ xs @ bs)"
    using ok by (auto simp: class_ok_def sc_def)
  show ?thesis
  proof (cases "find (\<lambda>x. algn dvd x) (xs @ bs)")
    case (Some a)
    have "(zslabs z)[idx := sc] = zslabs z" by (simp add: sc_def)
    then show ?thesis using class_hit [OF f s un u h al(1) Some, of idx] unfolding sc_def [symmetric] by metis
  next
    case None
    obtain u1 z1 where c: "only_words (set (xs @ bs)) z z1" "unit_ok (zwords z1) u1 (rev bs @ xs) []"
      "unit_allocate u z idx algn = unit_allocate u1 z1 idx algn" using unit_allocate_uncut [OF u al(1) None] by blast
    have sub: "set (xs @ bs) \<subseteq> set (live @ xs @ bs)" by auto
    note w = only_words_world [OF c(1)]
    have s1: "slab_ok sc (zworld z1) g" by (rule slab_held_words [OF c(1) f s h sub])
    have h1: "held_ok sc (zworld z1) g (live @ rev bs @ xs)"
      by (rule held_perm [OF _ held_words [OF c(1) h]]) simp
    have i1: "idx < length (zslabs z1)" "zslabs z1 ! idx = sc" using idx w(1) by (simp_all add: sc_def)
    have no: "\<forall>x \<in> set (rev bs @ xs). \<not> algn dvd x" using None by (auto simp: find_None_iff)
    have places: "\<exists>k \<in> owned g. inside sc (zworld z) k x" if "x \<in> set (xs @ bs)" for x
    proof -
      have "x \<in> set (live @ xs @ bs)" using that by simp
      then obtain k where "k \<in> owned g" "x \<in> grid sc (zworld z) k" by (rule held_place [OF h])
      then show ?thesis using grid_inside(1) [OF f] by blast
    qed
    have "\<exists>u' sc' w' g' p. unit_allocate u1 z1 idx algn = Some (u', \<lparr>zslabs = (zslabs z1)[idx := sc'], zworld = w'\<rparr>, p)
      \<and> algn dvd p \<and> class_ok sz sc' u' w' g' (p # live) \<and> class_step sc (zworld z1) g sc' w' g'
      \<and> contents_kept sz live (zwords z1) (words w')"
    proof (cases "partials g = [] \<or> algn \<noteq> 1")
      case False
      then obtain k ps where p: "partials g = k # ps" "algn = 1" by (cases "partials g") auto
      then have e: "rev bs @ xs = []" using no by (cases "rev bs @ xs") auto
      have h2: "held_ok sc (zworld z1) g live" using h1 e by simp
      show ?thesis using class_miss_partial [OF i1 f un c(2) [unfolded e] s1 h2 p(1)] p(2) by simp
    next
      case np: True
      show ?thesis
      proof (cases "empties g")
        case (Cons k es)
        then show ?thesis by (rule class_miss_empty [OF i1 f un c(2) s1 h1 al(1) no al(2) _ np])
      next
        case Nil
        have "z1 = set_words z (zwords z1)" using c(1) by (simp add: only_words_def)
        moreover have "zwords z1 x = zwords z x" if "\<not> has_header (zworld z) (x div 4096)" for x
          using that places owned_mapped(2) [OF s] w(4) by blast
        ultimately obtain k p m' pb b where "fresh_pages sc (zworld z1) k p m' pb b"
          using n [OF Nil] unfolding pages_ready_def sc_def [symmetric] by metis
        then show ?thesis by (rule class_miss_new [OF i1 f un c(2) s1 h1 al(1) no al(2) Nil np])
      qed
    qed
    then obtain u' sc' w' g' p where r: "unit_allocate u1 z1 idx algn = Some (u', \<lparr>zslabs = (zslabs z1)[idx := sc'], zworld = w'\<rparr>, p)"
      "algn dvd p" "class_ok sz sc' u' w' g' (p # live)" "class_step sc (zworld z1) g sc' w' g'"
      "contents_kept sz live (zwords z1) (words w')" by blast
    have "contents_kept sz live (zwords z) (zwords z1)" by (rule held_contents_kept [OF f s h]) (use w(4) in blast)
    then have kept: "contents_kept sz live (zwords z) (words w')" using r(5) by (rule contents_kept_trans)
    have "class_step sc (zworld z) g sc' w' g'" by (rule class_step_words [OF c(1) places r(4)])
    then show ?thesis using r(1-3) c(3) w(1) kept unfolding sc_def [symmetric]
      by (intro exI [of _ u'] exI [of _ "\<lparr>zslabs = (zslabs z1)[idx := sc'], zworld = w'\<rparr>"] exI [of _ sc'] exI [of _ g'] exI [of _ p]) simp
  qed
qed

section \<open>Deallocation, flush and the program's writes\<close>

lemma class_deallocate:
  assumes ok: "class_ok sz sc u (zworld z) g (p # live)"
  shows "\<exists>u' z'. unit_deallocate u z idx p n = Some (u', z') \<and> zslabs z' = zslabs z
    \<and> class_ok sz sc u' (zworld z') g live \<and> class_step sc (zworld z) g sc (zworld z') g
    \<and> contents_kept sz live (zwords z) (zwords z')"
proof -
  have f: "class_fits sz sc" and s: "slab_ok sc (zworld z) g" and un: "uninits g = []" using ok by (auto simp: class_ok_def)
  obtain xs bs where u: "unit_ok (zwords z) u xs bs" and h: "held_ok sc (zworld z) g ((p # live) @ xs @ bs)"
    using ok by (auto simp: class_ok_def)
  have d: "p \<notin> set (xs @ bs)" using h by (auto simp: held_ok_def)
  have "p \<in> set ((p # live) @ xs @ bs)" by simp
  then obtain k where k: "k \<in> owned g" "p \<in> grid sc (zworld z) k" by (rule held_place [OF h])
  have p0: "p \<noteq> 0" using slab_pos(1) [OF s k(1)] grid_inside(3) [OF f k(2)] by simp
  have len: "length (p # xs @ bs) < 2 ^ 61" using held_few [OF f s h] by simp
  have r: "list_rep (zwords z) (tlist u) xs" and nx: "p \<notin> set xs" "length xs < 2 ^ 63 - 1" using u d len by (auto simp: unit_ok_def)
  let ?m = "(zwords z)(p := link (tlist u))"
  obtain l where l: "push_unchecked (zwords z) (tlist u) p = Some (?m, l)" "list_rep ?m l (p # xs)"
    by (rule push_rep [OF r p0 nx])
  let ?z = "set_words z ?m"
  have o: "only_words {p} z ?z" by (simp add: only_words_def)
  have sub: "{p} \<subseteq> set ((p # live) @ xs @ bs)" by simp
  have "held_ok sc (zworld z) g (live @ (p # xs) @ bs)" by (rule held_perm [OF _ h]) simp
  then have "held_ok sc (zworld ?z) g (live @ (p # xs) @ bs)" by (rule held_words [OF o])
  moreover have "unit_ok (zwords ?z) (u\<lparr>tlist := l\<rparr>) (p # xs) bs"
    using u l(2) d len unfolding unit_ok_def by auto
  moreover have "slab_ok sc (zworld ?z) g" by (rule slab_held_words [OF o f s h sub])
  ultimately have "class_ok sz sc (u\<lparr>tlist := l\<rparr>) (zworld ?z) g live" using f un unfolding class_ok_def by blast
  moreover have "unit_deallocate u z idx p n = Some (u\<lparr>tlist := l\<rparr>, ?z)" using l(1) by (simp add: unit_deallocate_def)
  moreover have "held_ok sc (zworld z) g (live @ p # xs @ bs)" by (rule held_perm [OF _ h]) simp
  then have "contents_kept sz live (zwords z) (zwords ?z)" by (rule held_contents_kept [OF f s]) simp
  ultimately show ?thesis using held_step_quiet [OF o f h sub] only_words_world(1) [OF o] by blast
qed

text \<open>The room a flush needs: each object may make a slab empty, and more than 2048 empty slabs are not kept.\<close>

definition flushable :: "sc_allocator \<Rightarrow> thread_cache_unit \<Rightarrow> bool" where
  "flushable sc u \<longleftrightarrow> empty_count sc + ll_length (tlist u) + nat (bump_count u) \<le> 2048"

lemma class_flush:
  assumes idx: "idx < length (zslabs z)" and ok: "class_ok sz (zslabs z ! idx) u (zworld z) g live"
    and few: "flushable (zslabs z ! idx) u"
  shows "\<exists>z' sc' g'. clean_up u z idx = Some (unit_new, z') \<and> zslabs z' = (zslabs z)[idx := sc']
    \<and> class_ok sz sc' unit_new (zworld z') g' live \<and> class_step (zslabs z ! idx) (zworld z) g sc' (zworld z') g'
    \<and> contents_kept sz live (zwords z) (zwords z')"
proof -
  define sc where "sc = zslabs z ! idx"
  have f: "class_fits sz sc" and s: "slab_ok sc (zworld z) g" and un: "uninits g = []" using ok by (auto simp: class_ok_def sc_def)
  obtain xs bs where u: "unit_ok (zwords z) u xs bs" and h: "held_ok sc (zworld z) g (live @ xs @ bs)"
    using ok by (auto simp: class_ok_def sc_def)
  have "length xs = ll_length (tlist u)" "length bs = nat (bump_count u)" using u by (auto simp: unit_ok_def list_rep_def)
  moreover have "empty_count sc = length (empties g)" using s by (simp add: slab_ok_def rings_ok_def)
  ultimately have room: "length (empties g) + length (xs @ bs) \<le> 2048" using few by (simp add: flushable_def sc_def)
  obtain z' sc' g' where c: "clean_up u z idx = Some (unit_new, z')" "zslabs z' = (zslabs z)[idx := sc']" "same_class sc sc'"
    "slab_ok sc' (zworld z') g'" "batch_result (4096 * pg_num sc) (zworld z) g (xs @ bs) (zworld z') g'"
    using clean_up_ok [OF idx s [unfolded sc_def] u held_batch [OF f s h, unfolded sc_def] room] unfolding sc_def by blast
  have "held_ok sc' (zworld z') g' live" by (rule held_given_back [OF h c(5,3) f s])
  moreover have "class_fits sz sc'" using f class_fits_same [OF c(3)] by simp
  moreover have "uninits g' = []" using c(5) un by (simp add: batch_result_def)
  ultimately have "class_ok sz sc' unit_new (zworld z') g' live" using c(4)
    unfolding class_ok_def by (auto intro!: exI [of _ "[]"])
  moreover have "class_step sc (zworld z) g sc' (zworld z') g'"
  proof (rule class_step_quiet [OF c(3)])
    fix x assume x: "\<forall>k \<in> owned g. \<not> inside sc (zworld z) k x"
    have "x \<notin> set (xs @ bs)"
    proof
      assume "x \<in> set (xs @ bs)"
      then have "x \<in> set (live @ xs @ bs)" by simp
      then obtain k where "k \<in> owned g" "x \<in> grid sc (zworld z) k" by (rule held_place [OF h])
      then show False using x grid_inside(1) [OF f] by blast
    qed
    then show "zwords z' x = zwords z x" using c(5) unfolding batch_result_def by blast
  qed (use c(5) in \<open>simp_all add: batch_result_def\<close>)
  moreover have "contents_kept sz live (zwords z) (zwords z')"
    by (rule held_contents_kept [OF f s h]) (use c(5) in \<open>auto simp: batch_result_def\<close>)
  ultimately show ?thesis using c(1,2) unfolding sc_def by blast
qed

lemma class_write:
  assumes ok: "class_ok sz sc u (zworld z) g live" and p: "p \<in> set live" and a: "p \<le> a" "a < p + sz"
  shows "class_ok sz sc u (zworld (set_words z ((zwords z)(a := v)))) g live"
    and "class_step sc (zworld z) g sc (zworld (set_words z ((zwords z)(a := v)))) g"
    and "contents_kept sz (remove1 p live) (zwords z) ((zwords z)(a := v))"
proof -
  let ?z = "set_words z ((zwords z)(a := v))"
  have f: "class_fits sz sc" and s: "slab_ok sc (zworld z) g" and un: "uninits g = []" using ok by (auto simp: class_ok_def)
  obtain xs bs where u: "unit_ok (zwords z) u xs bs" and h: "held_ok sc (zworld z) g (live @ xs @ bs)"
    using ok by (auto simp: class_ok_def)
  have o: "only_words {a} z ?z" by (simp add: only_words_def)
  have pl: "p \<in> set (live @ xs @ bs)" using p by simp
  then obtain k where k: "k \<in> owned g" "p \<in> grid sc (zworld z) k" "p \<notin> set (frees g k)" by (rule held_place [OF h])
  have at: "inside sc (zworld z) k a" using grid_inside(1,2) [OF f k(2)] a by (simp add: in_slab_def)
  have free: "a \<notin> set (frees g j)" if j: "j \<in> owned g" for j
  proof
    assume x: "a \<in> set (frees g j)"
    then have "a \<in> grid sc (zworld z) j" using h j by (auto simp: held_ok_def)
    moreover have "a \<noteq> p" using x held_not_free [OF f s h pl j] by auto
    ultimately show False using class_places_apart [OF f s k(1,2) j, of a] a by (auto simp: apart_def)
  qed
  have cached: "a \<notin> set xs"
  proof
    assume x: "a \<in> set xs"
    then have "a \<noteq> p" using p h by (auto simp: held_ok_def)
    moreover have "a \<in> set (live @ xs @ bs)" using x by simp
    ultimately show False using class_held_apart [OF f s h pl] a by (fastforce simp: apart_def)
  qed
  have "slab_ok sc (zworld ?z) g" using slab_ok_words [OF s o] free by blast
  moreover have "unit_ok (zwords ?z) u xs bs"
  proof -
    have "zwords z x = zwords ?z x" if "x \<in> set xs" for x using that cached by auto
    then have "list_rep (zwords ?z) (tlist u) xs" using u list_rep_cong unfolding unit_ok_def by blast
    then show ?thesis using u unfolding unit_ok_def by blast
  qed
  ultimately show "class_ok sz sc u (zworld ?z) g live" using f un held_words [OF o h] unfolding class_ok_def by blast
  show "class_step sc (zworld z) g sc (zworld ?z) g"
    by (rule class_step_quiet) (use at k(1) only_words_world [OF o] in auto)
  have "x \<noteq> a" if y: "y \<in> set (remove1 p live)" "y \<le> x" "x < y + sz" for x y
  proof -
    have "distinct live" using h by (simp add: held_ok_def)
    then have "y \<in> set live" "y \<noteq> p" using y(1) by auto
    then show ?thesis using class_held_apart [OF f s h pl, of y] y(2,3) a by (auto simp: apart_def)
  qed
  then show "contents_kept sz (remove1 p live) (zwords z) ((zwords z)(a := v))" by (simp add: contents_kept_def)
qed

end
