(* ===== verification/HeapRun.thy ===== *)
theory HeapRun
  imports ClassRun
begin

text \<open>
  The global allocator as a whole (\<open>cache/mod.rs\<close> over the thread cache, the zone, the slabs and the radix tree).
  A program allocates, reallocates and frees objects of all size classes, stores in them, and flushes its cache;
  \<open>running\<close> are the states it can reach. \<open>heap_ok\<close> puts the 63 classes side by side: each is well-formed
  (\<open>class_ok\<close>), and what a step of one class may change (\<open>class_step\<close>) leaves the others alone. So the objects of the
  program never overlap, whatever it stores in them, and no request panics.
\<close>

section \<open>All classes side by side\<close>

type_synonym objects = "(nat \<times> layout) list"

text \<open>The requests that go to the size classes.\<close>

definition small :: "layout \<Rightarrow> bool" where
  "small l \<longleftrightarrow> 0 < lsize l \<and> lsize l \<le> TC_MAX_SIZE \<and> is_pow2 (lalign l) \<and> lalign l \<le> 4096"

definition of_class :: "nat \<Rightarrow> objects \<Rightarrow> nat list" where
  "of_class k objs = map fst (filter (\<lambda>ob. get_size_class (lsize (snd ob)) = Some (Base k)) objs)"

definition class_index :: "nat \<Rightarrow> bool" where
  "class_index k \<longleftrightarrow> 0 < k \<and> k < 64"

abbreviation scs :: "heap_state \<Rightarrow> nat \<Rightarrow> sc_allocator" where
  "scs s k \<equiv> zslabs (zoned s) ! k"

abbreviation heap_world :: "heap_state \<Rightarrow> world" where
  "heap_world s \<equiv> zworld (zoned s)"

definition classes_apart :: "heap_state \<Rightarrow> (nat \<Rightarrow> slabs) \<Rightarrow> bool" where
  "classes_apart s G \<longleftrightarrow> (\<forall>j k. class_index j \<longrightarrow> class_index k \<longrightarrow> j \<noteq> k \<longrightarrow> (\<forall>h \<in> owned (G j). \<forall>h' \<in> owned (G k).
     h \<noteq> h' \<and> apart (pdata (pgs (heap_world s) h), 4096 * pg_num (scs s j)) (pdata (pgs (heap_world s) h'), 4096 * pg_num (scs s k))))"

definition heap_ok :: "heap_state \<Rightarrow> (nat \<Rightarrow> slabs) \<Rightarrow> objects \<Rightarrow> bool" where
  "heap_ok s G objs \<longleftrightarrow> length (tcache s) = 64 \<and> length (zslabs (zoned s)) = 64
     \<and> (\<forall>ob \<in> set objs. small (snd ob) \<and> fst ob \<noteq> 0 \<and> lalign (snd ob) dvd fst ob)
     \<and> (\<forall>k. class_index k \<longrightarrow>
          class_ok (TC_SIZE_ARRAY ! k) (scs s k) (tcache s ! k) (heap_world s) (G k) (of_class k objs))
     \<and> classes_apart s G"

lemma small_class:
  assumes "small l"
  obtains k where "get_size_class (lsize l) = Some (Base k)" "class_index k" "lsize l \<le> TC_SIZE_ARRAY ! k"
proof -
  have "lsize l \<le> TC_MAX_SIZE" using assms by (simp add: small_def)
  then show ?thesis by (rule class_of_small) (use assms that in \<open>auto simp: small_def class_index_def\<close>)
qed

lemma of_class_simps [simp]:
  "of_class k [] = []"
  "of_class k ((p, l) # objs) = (if get_size_class (lsize l) = Some (Base k) then p # of_class k objs else of_class k objs)"
  by (simp_all add: of_class_def)

lemma of_class_in: "(p, l) \<in> set objs \<Longrightarrow> get_size_class (lsize l) = Some (Base k) \<Longrightarrow> p \<in> set (of_class k objs)"
  unfolding of_class_def by force

lemma of_class_remove:
  assumes "(p, l) \<in> set objs" and "get_size_class (lsize l) = Some (Base k)"
  shows "mset (of_class k objs) = mset (p # of_class k (remove1 (p, l) objs))"
    and "j \<noteq> k \<Longrightarrow> of_class j (remove1 (p, l) objs) = of_class j objs"
  using assms by (induction objs) (auto simp: of_class_def)

lemma class_ok_perm:
  assumes "mset live = mset live'" and "class_ok sz sc u w g live"
  shows "class_ok sz sc u w g live'"
proof -
  obtain xs bs where u: "unit_ok (words w) u xs bs" and h: "held_ok sc w g (live @ xs @ bs)" using assms(2) by (auto simp: class_ok_def)
  have "held_ok sc w g (live' @ xs @ bs)" by (rule held_perm [OF _ h]) (use assms(1) in simp)
  then show ?thesis using assms(2) u by (auto simp: class_ok_def)
qed

section \<open>A step of one class\<close>

lemma class_ok_slab: "class_ok sz sc u w g live \<Longrightarrow> slab_ok sc w g \<and> class_fits sz sc"
  by (simp add: class_ok_def)

lemma first_address:
  assumes "slab_ok sc w g" and "h \<in> owned g"
  shows "inside sc w h (pdata (pgs w h))"
  using assms by (simp add: in_slab_def slab_ok_def config_ok_def)

lemma not_apart:
  assumes "\<not> apart (p, m) (q, n)" and "0 < m" and "0 < n"
  obtains x where "p \<le> x" "x < p + m" "q \<le> x" "x < q + n"
proof (rule that [of "max p q"])
qed (use assms in \<open>auto simp: apart_def\<close>)

lemma other_class:
  assumes k: "class_step sc w g sc' w' g'" and s: "slab_ok sc w g" and j: "slab_ok sj w gj" and hj: "h \<in> owned gj"
    and ap: "\<And>h'. h' \<in> owned g \<Longrightarrow> h \<noteq> h' \<and> apart (pdata (pgs w h), 4096 * pg_num sj) (pdata (pgs w h'), 4096 * pg_num sc)"
    and pos: "0 < pg_num sc'"
  shows "h \<notin> owned g'" and "pgs w' h = pgs w h"
    and "inside sj w h x \<Longrightarrow> words w' x = words w x \<and> radix_view (rd_tree (backend w')) (x div 4096) = int h"
    and "h' \<in> owned g' \<Longrightarrow> apart (pdata (pgs w' h), 4096 * pg_num sj) (pdata (pgs w' h'), 4096 * pg_num sc')"
proof -
  show n: "h \<notin> owned g'"
  proof
    assume "h \<in> owned g'"
    moreover have "h \<notin> owned g" using ap by blast
    ultimately have "\<And>q. radix_view (rd_tree (backend w)) q \<noteq> int h" using k unfolding class_step_def by blast
    then show False using owned_mapped(1) [OF j hj first_address [OF j hj]] by blast
  qed
  then show same: "pgs w' h = pgs w h" using k by (simp add: class_step_def headers_kept_def)
  show "words w' x = words w x \<and> radix_view (rd_tree (backend w')) (x div 4096) = int h" if x: "inside sj w h x"
  proof -
    have "\<not> inside sc w h' x" if "h' \<in> owned g" for h'
      using ap [OF that] x by (auto simp: apart_def in_slab_def)
    then show ?thesis using k owned_mapped [OF j hj x] unfolding class_step_def by metis
  qed
  show "apart (pdata (pgs w' h), 4096 * pg_num sj) (pdata (pgs w' h'), 4096 * pg_num sc')" if h': "h' \<in> owned g'"
  proof (cases "h' \<in> owned g")
    case True
    then show ?thesis using ap [OF True] k same by (simp add: class_step_def same_class_def)
  next
    case False
    show ?thesis
    proof (rule ccontr)
      assume "\<not> ?thesis"
      moreover have "0 < 4096 * pg_num sj" using j by (simp add: slab_ok_def config_ok_def)
      moreover have "0 < 4096 * pg_num sc'" using pos by simp
      ultimately obtain x where "inside sj w h x" "inside sc' w' h' x"
        unfolding same in_slab_def by (rule not_apart) blast
      then show False using k False h' owned_mapped(2) [OF j hj] unfolding class_step_def by blast
    qed
  qed
qed

lemma heap_ok_step:
  assumes ok: "heap_ok s G objs" and k: "class_index k"
    and c: "class_ok (TC_SIZE_ARRAY ! k) sc' u' (heap_world s') g' (of_class k objs')"
    and st: "class_step (scs s k) (heap_world s) (G k) sc' (heap_world s') g'"
    and s': "tcache s' = (tcache s)[k := u']" "zslabs (zoned s') = (zslabs (zoned s))[k := sc']"
    and o: "\<And>j. j \<noteq> k \<Longrightarrow> of_class j objs' = of_class j objs"
      "\<And>ob. ob \<in> set objs' \<Longrightarrow> small (snd ob) \<and> fst ob \<noteq> 0 \<and> lalign (snd ob) dvd fst ob"
  shows "heap_ok s' (G(k := g')) objs'"
proof -
  have k64: "k < 64" using k by (simp add: class_index_def)
  have len: "length (tcache s) = 64" "length (zslabs (zoned s)) = 64" using ok by (auto simp: heap_ok_def)
  have cls: "class_ok (TC_SIZE_ARRAY ! j) (scs s j) (tcache s ! j) (heap_world s) (G j) (of_class j objs)" if "class_index j" for j
    using ok that by (simp add: heap_ok_def)
  have scj: "scs s' j = (if j = k then sc' else scs s j)" "tcache s' ! j = (if j = k then u' else tcache s ! j)" for j
    using s' len k64 by (simp_all add: nth_list_update)
  have all_apart: "classes_apart s G" using ok by (simp add: heap_ok_def)
  have ap: "h \<noteq> h' \<and> apart (pdata (pgs (heap_world s) h), 4096 * pg_num (scs s i)) (pdata (pgs (heap_world s) h'), 4096 * pg_num (scs s j))"
    if "class_index i" "class_index j" "i \<noteq> j" "h \<in> owned (G i)" "h' \<in> owned (G j)" for i j h h'
    using all_apart that unfolding classes_apart_def by blast
  have pos: "0 < pg_num sc'" using class_ok_slab [OF c] by (simp add: class_fits_def)
  note sk = class_ok_slab [OF cls [OF k], THEN conjunct1]
  have oth1: "h \<notin> owned g'" "pgs (heap_world s') h = pgs (heap_world s) h"
    and oth2: "\<And>x. inside (scs s j) (heap_world s) h x \<Longrightarrow> words (heap_world s') x = words (heap_world s) x
      \<and> radix_view (rd_tree (backend (heap_world s'))) (x div 4096) = int h"
    and oth3: "\<And>h'. h' \<in> owned g' \<Longrightarrow>
      apart (pdata (pgs (heap_world s') h), 4096 * pg_num (scs s j)) (pdata (pgs (heap_world s') h'), 4096 * pg_num sc')"
    if j: "class_index j" "j \<noteq> k" and h: "h \<in> owned (G j)" for j h
  proof -
    note oc = other_class [OF st sk class_ok_slab [OF cls [OF j(1)], THEN conjunct1] h ap [OF j(1) k j(2) h] pos]
    show "h \<notin> owned g'" by (rule oc(1))
    show "pgs (heap_world s') h = pgs (heap_world s) h" by (rule oc(2))
    show "words (heap_world s') x = words (heap_world s) x \<and> radix_view (rd_tree (backend (heap_world s'))) (x div 4096) = int h"
      if "inside (scs s j) (heap_world s) h x" for x by (rule oc(3) [OF _ that])
    show "apart (pdata (pgs (heap_world s') h), 4096 * pg_num (scs s j)) (pdata (pgs (heap_world s') h'), 4096 * pg_num sc')"
      if "h' \<in> owned g'" for h' by (rule oc(4) [OF _ that])
  qed
  have "class_ok (TC_SIZE_ARRAY ! j) (scs s' j) (tcache s' ! j) (heap_world s') ((G(k := g')) j) (of_class j objs')"
    if j: "class_index j" for j
  proof (cases "j = k")
    case False
    have "class_ok (TC_SIZE_ARRAY ! j) (scs s j) (tcache s ! j) (heap_world s') (G j) (of_class j objs)"
      by (rule class_ok_frame [OF cls [OF j] oth1(2) [OF j False] oth2 [OF j False]])
    then show ?thesis using scj o(1) False by simp
  qed (use c scj in simp)
  moreover have "classes_apart s' (G(k := g'))"
  proof -
    have "h \<noteq> h' \<and> apart (pdata (pgs (heap_world s') h), 4096 * pg_num (scs s' i)) (pdata (pgs (heap_world s') h'), 4096 * pg_num (scs s' j))"
      if i: "class_index i" and j: "class_index j" and ij: "i \<noteq> j" and h: "h \<in> owned ((G(k := g')) i)" "h' \<in> owned ((G(k := g')) j)" for i j h h'
    proof -
      consider "i = k" "j \<noteq> k" | "j = k" "i \<noteq> k" | "i \<noteq> k" "j \<noteq> k" using ij by blast
      then show ?thesis
      proof cases
        case 1
        then show ?thesis using oth1(1) [OF j 1(2), of h'] oth3 [OF j 1(2), of h' h] h scj apart_sym by auto
      next
        case 2
        then show ?thesis using oth1(1) [OF i 2(2), of h] oth3 [OF i 2(2), of h h'] h scj by auto
      next
        case 3
        then show ?thesis using ap [OF i j ij, of h h'] oth1(2) [OF i 3(1), of h] oth1(2) [OF j 3(2), of h'] h scj by simp
      qed
    qed
    then show ?thesis unfolding classes_apart_def by blast
  qed
  ultimately show ?thesis using s' len o(2) by (simp add: heap_ok_def)
qed

text \<open>The words in the objects \<open>os\<close> stay as they are.\<close>

definition objects_kept :: "objects \<Rightarrow> heap_state \<Rightarrow> heap_state \<Rightarrow> bool" where
  "objects_kept os s s' \<longleftrightarrow> (\<forall>(p, l) \<in> set os. \<forall>x. p \<le> x \<and> x < p + lsize l \<longrightarrow> words (heap_world s') x = words (heap_world s) x)"

lemma objects_kept_refl: "objects_kept os s s"
  by (simp add: objects_kept_def)

lemma objects_kept_trans: "objects_kept os s s1 \<Longrightarrow> objects_kept os s1 s2 \<Longrightarrow> objects_kept os s s2"
  by (simp add: objects_kept_def case_prod_beta)

lemma objects_kept_subset: "objects_kept os s s' \<Longrightarrow> set os' \<subseteq> set os \<Longrightarrow> objects_kept os' s s'"
  unfolding objects_kept_def by blast

lemma objects_kept_world: "words (heap_world s1) = words (heap_world s) \<Longrightarrow> words (heap_world s1') = words (heap_world s') \<Longrightarrow>
    objects_kept os s1 s1' = objects_kept os s s'"
  by (simp add: objects_kept_def)

lemma class_place:
  assumes "class_ok sz sc u w g live" and "p \<in> set live"
  obtains h where "h \<in> owned g" "p \<in> grid sc w h"
proof -
  obtain xs bs where h: "held_ok sc w g (live @ xs @ bs)" using assms(1) by (auto simp: class_ok_def)
  have p: "p \<in> set (live @ xs @ bs)" using assms(2) by simp
  show ?thesis by (rule held_place [OF h p]) (rule that)
qed

lemma heap_kept_step:
  assumes ok: "heap_ok s G objs" and k: "class_index k"
    and st: "class_step (scs s k) (heap_world s) (G k) sc' (heap_world s') g'"
    and kp: "contents_kept (TC_SIZE_ARRAY ! k) (of_class k os) (words (heap_world s)) (words (heap_world s'))"
    and sub: "set os \<subseteq> set objs"
  shows "objects_kept os s s'"
  unfolding objects_kept_def
proof (intro ballI case_prodI2 allI impI)
  fix ob p l x assume "ob \<in> set os" "ob = (p, l)" and x: "p \<le> x \<and> x < p + lsize l"
  then have o: "(p, l) \<in> set os" "(p, l) \<in> set objs" using sub by auto
  then have "small l" using ok by (auto simp: heap_ok_def)
  then obtain j where j: "get_size_class (lsize l) = Some (Base j)" "class_index j" "lsize l \<le> TC_SIZE_ARRAY ! j"
    by (rule small_class)
  have cls: "class_ok (TC_SIZE_ARRAY ! i) (scs s i) (tcache s ! i) (heap_world s) (G i) (of_class i objs)" if "class_index i" for i
    using ok that by (simp add: heap_ok_def)
  note cj = cls [OF j(2)] and ck = cls [OF k]
  show "words (heap_world s') x = words (heap_world s) x"
  proof (cases "j = k")
    case True
    then show ?thesis using kp of_class_in [OF o(1) j(1)] x j(3) by (auto simp: contents_kept_def)
  next
    case False
    obtain h where h: "h \<in> owned (G j)" "p \<in> grid (scs s j) (heap_world s) h"
      by (rule class_place [OF cj of_class_in [OF o(2) j(1)]])
    have ap: "h \<noteq> h' \<and> apart (pdata (pgs (heap_world s) h), 4096 * pg_num (scs s j)) (pdata (pgs (heap_world s) h'), 4096 * pg_num (scs s k))"
      if "h' \<in> owned (G k)" for h'
      using ok j(2) k False h(1) that unfolding heap_ok_def classes_apart_def by blast
    have "0 < pg_num sc'" using st class_ok_slab [OF ck] by (auto simp: class_step_def same_class_def class_fits_def)
    note oc = other_class(3) [OF st class_ok_slab [OF ck, THEN conjunct1] class_ok_slab [OF cj, THEN conjunct1] h(1) ap this]
    have "class_fits (TC_SIZE_ARRAY ! j) (scs s j)" using class_ok_slab [OF cj] by simp
    note gi = grid_inside(2,3) [OF this h(2)]
    have "inside (scs s j) (heap_world s) h x" using gi x j(3) by (simp add: in_slab_def)
    then show ?thesis using oc by blast
  qed
qed

section \<open>The operations\<close>

lemma class_ok_nonzero: "class_ok sz sc u w g live \<Longrightarrow> p \<in> set live \<Longrightarrow> p \<noteq> 0"
proof -
  assume ok: "class_ok sz sc u w g live" and p: "p \<in> set live"
  obtain xs bs where h: "held_ok sc w g (live @ xs @ bs)" using ok by (auto simp: class_ok_def)
  have "p \<in> set (live @ xs @ bs)" using p by simp
  then obtain k where "k \<in> owned g" "p \<in> grid sc w k" by (rule held_place [OF h])
  then show "p \<noteq> 0" using slab_pos(1) grid_inside(3) class_ok_slab [OF ok] by fastforce
qed

lemma heap_ok_class:
  assumes "heap_ok s G objs" and "class_index k"
  shows "class_ok (TC_SIZE_ARRAY ! k) (scs s k) (tcache s ! k) (heap_world s) (G k) (of_class k objs)"
    and "k < length (tcache s)" and "k < length (zslabs (zoned s))" and "0 < k" and "k < 64"
  using assms by (auto simp: heap_ok_def class_index_def)

text \<open>When a request may need a new slab, the backend must have one.\<close>

definition backend_ready :: "heap_state \<Rightarrow> layout \<Rightarrow> bool" where
  "backend_ready s l \<longleftrightarrow> (\<forall>k. get_size_class (lsize l) = Some (Base k) \<longrightarrow>
     lalign l = 1 \<and> ll_length (tlist (tcache s ! k)) + nat (bump_count (tcache s ! k)) > 0
     \<or> empty_start (scs s k) \<noteq> 0 \<or> pages_ready (scs s k) (zoned s))"

lemma class_allocate_ready:
  assumes ok: "class_ok sz (zslabs z ! idx) u (zworld z) g live" and idx: "idx < length (zslabs z)"
    and al: "is_pow2 algn" "algn \<le> 4096"
    and r: "algn = 1 \<and> ll_length (tlist u) + nat (bump_count u) > 0 \<or> empty_start (zslabs z ! idx) \<noteq> 0 \<or> pages_ready (zslabs z ! idx) z"
  shows "\<exists>u' z' sc' g' p. unit_allocate u z idx algn = Some (u', z', p) \<and> zslabs z' = (zslabs z)[idx := sc']
    \<and> algn dvd p \<and> class_ok sz sc' u' (zworld z') g' (p # live) \<and> class_step (zslabs z ! idx) (zworld z) g sc' (zworld z') g'
    \<and> contents_kept sz live (zwords z) (zwords z')"
proof (cases "algn = 1 \<and> ll_length (tlist u) + nat (bump_count u) > 0")
  case False
  have "empties g = [] \<Longrightarrow> empty_start (zslabs z ! idx) = 0"
    using class_ok_slab [OF ok] by (simp add: slab_ok_def rings_ok_def first_def)
  then have "empties g = [] \<Longrightarrow> pages_ready (zslabs z ! idx) z" using r False by blast
  then show ?thesis by (rule class_allocate [OF idx ok al])
next
  case True
  obtain xs bs where u: "unit_ok (zwords z) u xs bs" and h: "held_ok (zslabs z ! idx) (zworld z) g (live @ xs @ bs)"
    using ok by (auto simp: class_ok_def)
  have "length xs = ll_length (tlist u)" "length bs = nat (bump_count u)" using u by (auto simp: unit_ok_def list_rep_def)
  then have "xs @ bs \<noteq> []" using True by auto
  then obtain a ys where a: "xs @ bs = a # ys" by (cases "xs @ bs") auto
  have f: "find (\<lambda>x. algn dvd x) (xs @ bs) = Some a" unfolding a using True by simp
  have "(zslabs z)[idx := zslabs z ! idx] = zslabs z" by simp
  moreover have "class_fits sz (zslabs z ! idx)" "slab_ok (zslabs z ! idx) (zworld z) g" "uninits g = []" using ok by (auto simp: class_ok_def)
  ultimately show ?thesis using class_hit [OF _ _ _ u h al(1) f, of sz idx] by metis
qed

lemma heap_alloc_ok:
  assumes ok: "heap_ok s G objs" and l: "small l" and r: "backend_ready s l"
  shows "\<exists>s' p G'. rust_alloc s l = Some (s', p) \<and> data s' = data s \<and> p \<noteq> 0 \<and> lalign l dvd p \<and> heap_ok s' G' ((p, l) # objs)
    \<and> objects_kept objs s s'"
proof -
  obtain k where k: "get_size_class (lsize l) = Some (Base k)" "class_index k" by (rule small_class [OF l])
  note hk = heap_ok_class [OF ok k(2)]
  have al: "is_pow2 (lalign l)" "lalign l \<le> 4096" using l by (auto simp: small_def)
  have rk: "lalign l = 1 \<and> ll_length (tlist (tcache s ! k)) + nat (bump_count (tcache s ! k)) > 0
    \<or> empty_start (scs s k) \<noteq> 0 \<or> pages_ready (scs s k) (zoned s)" using r k(1) by (simp add: backend_ready_def)
  obtain u' z' sc' g' p where a: "unit_allocate (tcache s ! k) (zoned s) k (lalign l) = Some (u', z', p)"
    "zslabs z' = (zslabs (zoned s))[k := sc']" "lalign l dvd p"
    "class_ok (TC_SIZE_ARRAY ! k) sc' u' (zworld z') g' (p # of_class k objs)"
    "class_step (scs s k) (heap_world s) (G k) sc' (zworld z') g'"
    "contents_kept (TC_SIZE_ARRAY ! k) (of_class k objs) (words (heap_world s)) (words (zworld z'))"
    using class_allocate_ready [OF hk(1,3) al rk] by blast
  let ?s = "s\<lparr>tcache := (tcache s)[k := u'], zoned := z'\<rparr>"
  have "rust_alloc s l = Some (?s, p)" using k(1) hk(2,4) a(1) by (simp add: rust_alloc_def tc_allocate_def)
  moreover have p: "p \<noteq> 0" by (rule class_ok_nonzero [OF a(4)]) simp
  moreover have "heap_ok ?s (G(k := g')) ((p, l) # objs)"
  proof (rule heap_ok_step [OF ok k(2), where sc' = sc' and u' = u'])
    show "small (snd ob) \<and> fst ob \<noteq> 0 \<and> lalign (snd ob) dvd fst ob" if "ob \<in> set ((p, l) # objs)" for ob
      using that ok l p a(3) by (auto simp: heap_ok_def)
  qed (use k a in auto)
  moreover have "objects_kept objs s ?s"
    by (rule heap_kept_step [OF ok k(2), where sc' = sc' and g' = g']) (use a in simp_all)
  ultimately show ?thesis using a(3) by (intro exI [of _ ?s] exI [of _ p] exI [of _ "G(k := g')"]) simp
qed

lemma heap_dealloc_ok:
  assumes ok: "heap_ok s G objs" and o: "(p, l) \<in> set objs"
  shows "\<exists>s' G'. rust_dealloc s p l = Some s' \<and> data s' = data s \<and> heap_ok s' G' (remove1 (p, l) objs)
    \<and> objects_kept (remove1 (p, l) objs) s s'"
proof -
  have l: "small l" using ok o by (auto simp: heap_ok_def)
  obtain k where k: "get_size_class (lsize l) = Some (Base k)" "class_index k" by (rule small_class [OF l])
  note hk = heap_ok_class [OF ok k(2)]
  have "class_ok (TC_SIZE_ARRAY ! k) (scs s k) (tcache s ! k) (zworld (zoned s)) (G k) (p # of_class k (remove1 (p, l) objs))"
    by (rule class_ok_perm [OF of_class_remove(1) [OF o k(1)] hk(1)])
  from class_deallocate [OF this, of k "SIZE_CLASSES ! k"] obtain u' z' where
    a: "unit_deallocate (tcache s ! k) (zoned s) k p (SIZE_CLASSES ! k) = Some (u', z')" "zslabs z' = zslabs (zoned s)"
    "class_ok (TC_SIZE_ARRAY ! k) (scs s k) u' (zworld z') (G k) (of_class k (remove1 (p, l) objs))"
    "class_step (scs s k) (heap_world s) (G k) (scs s k) (zworld z') (G k)"
    "contents_kept (TC_SIZE_ARRAY ! k) (of_class k (remove1 (p, l) objs)) (words (heap_world s)) (words (zworld z'))" by blast
  let ?s = "s\<lparr>tcache := (tcache s)[k := u'], zoned := z'\<rparr>"
  have "get_rounded_size_by_idx k = Some (SIZE_CLASSES ! k)"
    using hk(5) zone_first by (simp add: get_rounded_size_by_idx_def)
  then have "rust_dealloc s p l = Some ?s" using k(1) hk(2,4) a(1) by (simp add: rust_dealloc_def tc_deallocate_def)
  moreover have "heap_ok ?s (G(k := G k)) (remove1 (p, l) objs)"
  proof (rule heap_ok_step [OF ok k(2), where sc' = "scs s k" and u' = u'])
    show "zslabs (zoned ?s) = (zslabs (zoned s))[k := scs s k]" using a(2) by simp
    show "small (snd ob) \<and> fst ob \<noteq> 0 \<and> lalign (snd ob) dvd fst ob" if "ob \<in> set (remove1 (p, l) objs)" for ob
      using that ok set_remove1_subset [of "(p, l)" objs] by (auto simp: heap_ok_def)
  qed (use a of_class_remove(2) [OF o k(1)] in auto)
  moreover have "objects_kept (remove1 (p, l) objs) s ?s"
    by (rule heap_kept_step [OF ok k(2), where sc' = "scs s k" and g' = "G k"]) (use a set_remove1_subset [of "(p, l)" objs] in simp_all)
  ultimately show ?thesis by (intro exI [of _ ?s] exI [of _ "G(k := G k)"]) simp
qed

text \<open>The program stores a word in one of its objects.\<close>

definition store_word :: "heap_state \<Rightarrow> nat \<Rightarrow> nat \<Rightarrow> heap_state" where
  "store_word s a v = s\<lparr>zoned := set_words (zoned s) ((zwords (zoned s))(a := v))\<rparr>"

lemma heap_write_ok:
  assumes ok: "heap_ok s G objs" and o: "(p, l) \<in> set objs" and a: "p \<le> a" "a < p + lsize l"
  shows "heap_ok (store_word s a v) G objs" and "objects_kept (remove1 (p, l) objs) s (store_word s a v)"
proof -
  have l: "small l" using ok o by (auto simp: heap_ok_def)
  obtain k where k: "get_size_class (lsize l) = Some (Base k)" "class_index k" "lsize l \<le> TC_SIZE_ARRAY ! k"
    by (rule small_class [OF l])
  note hk = heap_ok_class [OF ok k(2)]
  let ?z = "set_words (zoned s) ((zwords (zoned s))(a := v))"
  have "a < p + TC_SIZE_ARRAY ! k" using a(2) k(3) by simp
  note w = class_write [OF hk(1) of_class_in [OF o k(1)] a(1) this, of v]
  have "heap_ok (store_word s a v) (G(k := G k)) objs"
    by (rule heap_ok_step [OF ok k(2), where sc' = "scs s k" and u' = "tcache s ! k"])
      (use w ok in \<open>auto simp: store_word_def set_words_def heap_ok_def\<close>)
  then show "heap_ok (store_word s a v) G objs" by simp
  have "set (of_class k (remove1 (p, l) objs)) = set (remove1 p (of_class k objs))"
    using of_class_remove(1) [OF o k(1)] by (metis mset_remove1 add_mset_diff_bothsides add_mset_remove_trivial mset.simps(2) set_mset_mset)
  then have "contents_kept (TC_SIZE_ARRAY ! k) (of_class k (remove1 (p, l) objs)) (zwords (zoned s)) ((zwords (zoned s))(a := v))"
    using w(3) by (simp add: contents_kept_def)
  then show "objects_kept (remove1 (p, l) objs) s (store_word s a v)"
    by (intro heap_kept_step [OF ok k(2), where sc' = "scs s k" and g' = "G k"])
      (use w(2) set_remove1_subset [of "(p, l)" objs] in \<open>simp_all add: store_word_def set_words_def\<close>)
qed

lemma heap_bytes_ok: "heap_ok (s\<lparr>data := d\<rparr>) G objs = heap_ok s G objs"
  by (simp add: heap_ok_def classes_apart_def)


text \<open>Flushing the cache empties the units one after the other.\<close>

lemma cleanup_from_ok:
  assumes "heap_ok s G objs" and "0 < idx" and "idx + n \<le> 64"
    and "\<forall>k. idx \<le> k \<and> k < idx + n \<longrightarrow> flushable (scs s k) (tcache s ! k)"
  shows "\<exists>us z G'. cleanup_from (tcache s) (zoned s) idx n = Some (us, z)
    \<and> heap_ok (s\<lparr>tcache := us, zoned := z\<rparr>) G' objs
    \<and> (\<forall>k < 64. us ! k = (if idx \<le> k \<and> k < idx + n then unit_new else tcache s ! k))
    \<and> objects_kept objs s (s\<lparr>tcache := us, zoned := z\<rparr>)"
  using assms
proof (induction n arbitrary: s G idx)
  case 0
  then show ?case by (intro exI [of _ "tcache s"] exI [of _ "zoned s"] exI [of _ G]) (simp add: objects_kept_refl)
next
  case (Suc n)
  have k: "class_index idx" using Suc.prems by (simp add: class_index_def)
  note hk = heap_ok_class [OF Suc.prems(1) k]
  have fl: "flushable (scs s idx) (tcache s ! idx)" using Suc.prems(4) by simp
  obtain z1 sc1 g1 where c: "clean_up (tcache s ! idx) (zoned s) idx = Some (unit_new, z1)"
    "zslabs z1 = (zslabs (zoned s))[idx := sc1]" "class_ok (TC_SIZE_ARRAY ! idx) sc1 unit_new (zworld z1) g1 (of_class idx objs)"
    "class_step (scs s idx) (heap_world s) (G idx) sc1 (zworld z1) g1"
    "contents_kept (TC_SIZE_ARRAY ! idx) (of_class idx objs) (words (heap_world s)) (words (zworld z1))"
    using class_flush [OF hk(3,1) fl] by blast
  let ?s = "s\<lparr>tcache := (tcache s)[idx := unit_new], zoned := z1\<rparr>"
  have ok1: "heap_ok ?s (G(idx := g1)) objs"
    by (rule heap_ok_step [OF Suc.prems(1) k, where sc' = sc1 and u' = unit_new])
      (use c Suc.prems(1) in \<open>auto simp: heap_ok_def\<close>)
  have kp1: "objects_kept objs s ?s"
    by (rule heap_kept_step [OF Suc.prems(1) k, where sc' = sc1 and g' = g1]) (use c in simp_all)
  have "\<forall>k. Suc idx \<le> k \<and> k < Suc idx + n \<longrightarrow> flushable (scs ?s k) (tcache ?s ! k)"
    using Suc.prems(4) c(2) by simp
  then obtain us z G' where r: "cleanup_from (tcache ?s) (zoned ?s) (Suc idx) n = Some (us, z)"
    "heap_ok (?s\<lparr>tcache := us, zoned := z\<rparr>) G' objs"
    "\<forall>k < 64. us ! k = (if Suc idx \<le> k \<and> k < Suc idx + n then unit_new else tcache ?s ! k)"
    "objects_kept objs ?s (?s\<lparr>tcache := us, zoned := z\<rparr>)"
    using Suc.IH [OF ok1, of "Suc idx"] Suc.prems(3) by auto
  have "cleanup_from (tcache s) (zoned s) idx (Suc n) = Some (us, z)" using hk(2) c(1) r(1) by simp
  moreover have "us ! j = (if idx \<le> j \<and> j < idx + Suc n then unit_new else tcache s ! j)" if "j < 64" for j
    using r(3) that hk(2) by (cases "j = idx") auto
  ultimately show ?case using r(2) objects_kept_trans [OF kp1 r(4)] by auto
qed

definition flush_ready :: "heap_state \<Rightarrow> bool" where
  "flush_ready s \<longleftrightarrow> (\<forall>k. class_index k \<longrightarrow> flushable (scs s k) (tcache s ! k))"

lemma heap_flush_ok:
  assumes ok: "heap_ok s G objs" and "flush_ready s"
  shows "\<exists>us z G'. cleanup_cache_unchecked (tcache s) (zoned s) = Some (us, z)
    \<and> heap_ok (s\<lparr>tcache := us, zoned := z\<rparr>) G' objs \<and> (\<forall>k. class_index k \<longrightarrow> us ! k = unit_new)
    \<and> objects_kept objs s (s\<lparr>tcache := us, zoned := z\<rparr>)"
proof -
  have len: "length (tcache s) = 64" using ok by (simp add: heap_ok_def)
  have "\<exists>us z G'. cleanup_from (tcache s) (zoned s) 1 63 = Some (us, z) \<and> heap_ok (s\<lparr>tcache := us, zoned := z\<rparr>) G' objs
    \<and> (\<forall>k < 64. us ! k = (if 1 \<le> k \<and> k < 1 + 63 then unit_new else tcache s ! k))
    \<and> objects_kept objs s (s\<lparr>tcache := us, zoned := z\<rparr>)"
    by (rule cleanup_from_ok [OF ok]) (use assms(2) in \<open>auto simp: flush_ready_def class_index_def\<close>)
  then show ?thesis by (auto simp: cleanup_cache_unchecked_def len class_index_def)
qed

section \<open>The objects do not overlap\<close>

lemma of_class_distinct:
  "distinct (of_class k objs) \<Longrightarrow> i < j \<Longrightarrow> j < length objs \<Longrightarrow> get_size_class (lsize (snd (objs ! i))) = Some (Base k) \<Longrightarrow>
    get_size_class (lsize (snd (objs ! j))) = Some (Base k) \<Longrightarrow> fst (objs ! i) \<noteq> fst (objs ! j)"
proof (induction objs arbitrary: i j)
  case (Cons ob objs)
  obtain j' where j: "j = Suc j'" using Cons.prems(2) by (cases j) auto
  obtain p l where ob: "ob = (p, l)" by (cases ob)
  have m: "objs ! j' \<in> set objs" using Cons.prems(3) j by simp
  show ?case
  proof (cases i)
    case 0
    have "fst (objs ! j') \<in> set (of_class k objs)"
      using of_class_in [of "fst (objs ! j')" "snd (objs ! j')" objs k] m Cons.prems(5) j by simp
    moreover have "fst ob \<notin> set (of_class k objs)" using Cons.prems(1,4) 0 ob by simp
    ultimately show ?thesis using 0 j by auto
  next
    case (Suc i')
    have "distinct (of_class k objs)" using Cons.prems(1) ob by (auto split: if_splits)
    then show ?thesis using Cons.IH [of i' j'] Cons.prems Suc j by simp
  qed
qed simp

lemma apart_smaller: "apart (p, m) (q, n) \<Longrightarrow> m' \<le> m \<Longrightarrow> n' \<le> n \<Longrightarrow> apart (p, m') (q, n')"
  by (auto simp: apart_def)

lemma heap_objects_apart:
  assumes ok: "heap_ok s G objs" and ij: "i < j" "j < length objs"
  shows "apart (fst (objs ! i), lsize (snd (objs ! i))) (fst (objs ! j), lsize (snd (objs ! j)))"
proof -
  obtain p l where x: "objs ! i = (p, l)" by (cases "objs ! i")
  obtain q m where y: "objs ! j = (q, m)" by (cases "objs ! j")
  have mem: "(p, l) \<in> set objs" "(q, m) \<in> set objs" using ij x y nth_mem by (metis less_trans)+
  then have sm: "small l" "small m" using ok by (auto simp: heap_ok_def)
  obtain a where a: "get_size_class (lsize l) = Some (Base a)" "class_index a" "lsize l \<le> TC_SIZE_ARRAY ! a"
    by (rule small_class [OF sm(1)])
  obtain b where b: "get_size_class (lsize m) = Some (Base b)" "class_index b" "lsize m \<le> TC_SIZE_ARRAY ! b"
    by (rule small_class [OF sm(2)])
  note ca = heap_ok_class(1) [OF ok a(2)] and cb = heap_ok_class(1) [OF ok b(2)]
  obtain h where h: "h \<in> owned (G a)" "p \<in> grid (scs s a) (heap_world s) h" by (rule class_place [OF ca of_class_in [OF mem(1) a(1)]])
  obtain k where k: "k \<in> owned (G b)" "q \<in> grid (scs s b) (heap_world s) k" by (rule class_place [OF cb of_class_in [OF mem(2) b(1)]])
  have fa: "class_fits (TC_SIZE_ARRAY ! a) (scs s a)" "slab_ok (scs s a) (heap_world s) (G a)"
    and fb: "class_fits (TC_SIZE_ARRAY ! b) (scs s b)" using class_ok_slab [OF ca] class_ok_slab [OF cb] by auto
  have "apart (p, TC_SIZE_ARRAY ! a) (q, TC_SIZE_ARRAY ! b)"
  proof (cases "a = b")
    case True
    have "distinct (of_class a objs)" using ca by (auto simp: class_ok_def held_ok_def)
    then have "p \<noteq> q" using of_class_distinct [of a objs i j] ij x y a(1) b(1) True by simp
    then show ?thesis using class_places_apart [OF fa h, of k q] k True by simp
  next
    case False
    have "apart (pdata (pgs (heap_world s) h), 4096 * pg_num (scs s a)) (pdata (pgs (heap_world s) k), 4096 * pg_num (scs s b))"
      using ok a(2) b(2) False h(1) k(1) unfolding heap_ok_def classes_apart_def by blast
    then show ?thesis using grid_inside [OF fa(1) h(2)] grid_inside [OF fb k(2)] by (auto simp: apart_def)
  qed
  then show ?thesis using apart_smaller a(3) b(3) x y by simp
qed


section \<open>Reallocation\<close>

definition resized :: "layout \<Rightarrow> nat \<Rightarrow> layout" where
  "resized l n = \<lparr>lsize = n, lalign = lalign l\<rparr>"

lemma heap_ok_renamed:
  assumes ok: "heap_ok s G objs" and m: "\<And>k. class_index k \<Longrightarrow> mset (of_class k objs') = mset (of_class k objs)"
    and o: "\<And>ob. ob \<in> set objs' \<Longrightarrow> small (snd ob) \<and> fst ob \<noteq> 0 \<and> lalign (snd ob) dvd fst ob"
  shows "heap_ok s G objs'"
proof -
  have "class_ok (TC_SIZE_ARRAY ! k) (scs s k) (tcache s ! k) (heap_world s) (G k) (of_class k objs')" if k: "class_index k" for k
    by (rule class_ok_perm [OF _ heap_ok_class(1) [OF ok k]]) (use m [OF k] in simp)
  then show ?thesis using ok o by (simp add: heap_ok_def)
qed

text \<open>The object stays where it is, with its new size.\<close>

lemma heap_resize_ok:
  assumes ok: "heap_ok s G objs" and o: "(p, l) \<in> set objs" and n: "small (resized l n)"
    and k: "get_size_class (lsize l) = Some (Base k)" "get_size_class n = Some (Base k)"
  shows "heap_ok s G ((p, resized l n) # remove1 (p, l) objs)"
proof (rule heap_ok_renamed [OF ok])
  show "mset (of_class j ((p, resized l n) # remove1 (p, l) objs)) = mset (of_class j objs)" for j
    using of_class_remove(1) [OF o k(1)] of_class_remove(2) [OF o k(1), of j] k(2) by (cases "j = k") (simp_all add: resized_def)
  show "small (snd ob) \<and> fst ob \<noteq> 0 \<and> lalign (snd ob) dvd fst ob"
    if "ob \<in> set ((p, resized l n) # remove1 (p, l) objs)" for ob
    using that n ok o set_remove1_subset [of "(p, l)" objs] by (auto simp: heap_ok_def resized_def)
qed

lemma heap_realloc_ok:
  assumes ok: "heap_ok s G objs" and o: "(p, l) \<in> set objs" and n: "small (resized l n)" and r: "backend_ready s (resized l n)"
  shows "\<exists>s' q G'. rust_realloc s p l n = Some (s', q) \<and> q \<noteq> 0 \<and> lalign l dvd q
    \<and> (\<forall>i < min (lsize l) n. data s' (q + i) = data s (p + i)) \<and> heap_ok s' G' ((q, resized l n) # remove1 (p, l) objs)
    \<and> objects_kept (remove1 (p, l) objs) s s'"
proof -
  have l: "small l" "p \<noteq> 0" "lalign l dvd p" using ok o by (auto simp: heap_ok_def)
  obtain k where k: "get_size_class (lsize l) = Some (Base k)" by (rule small_class [OF l(1)])
  obtain j where j: "get_size_class n = Some (Base j)" by (rule small_class [OF n]) (simp add: resized_def)
  show ?thesis
  proof (cases "k = j")
    case True
    then have "rust_realloc s p l n = Some (s, p)" using k j by (simp add: rust_realloc_def)
    then show ?thesis using heap_resize_ok [OF ok o n k] j True l objects_kept_refl by blast
  next
    case False
    obtain s1 q G1 where a: "rust_alloc s (resized l n) = Some (s1, q)" "data s1 = data s" "q \<noteq> 0" "lalign l dvd q"
      "heap_ok s1 G1 ((q, resized l n) # objs)" "objects_kept objs s s1"
      using heap_alloc_ok [OF ok n r] by (auto simp: resized_def)
    obtain i where i: "i < length objs" "objs ! i = (p, l)" using o by (auto simp: in_set_conv_nth)
    have "apart (q, n) (p, lsize l)"
      using heap_objects_apart [OF a(5), of 0 "Suc i"] i by (simp add: resized_def)
    then have ov: "p + min (lsize l) n \<le> q \<or> q + min (lsize l) n \<le> p" by (auto simp: apart_def)
    let ?m = "min (lsize l) n"
    let ?d = "\<lambda>x. if q \<le> x \<and> x < q + ?m then data s1 (p + (x - q)) else data s1 x"
    have cp: "copy_bytes (data s1) p q ?m = Some ?d" using ov by (simp add: copy_bytes_def ensure_def)
    have ok1: "heap_ok (s1\<lparr>data := ?d\<rparr>) G1 ((q, resized l n) # objs)" using a(5) by (simp add: heap_bytes_ok)
    have "(p, l) \<in> set ((q, resized l n) # objs)" using o by simp
    from heap_dealloc_ok [OF ok1 this] obtain s' G' where
      d: "rust_dealloc (s1\<lparr>data := ?d\<rparr>) p l = Some s'" "data s' = ?d" "heap_ok s' G' (remove1 (p, l) ((q, resized l n) # objs))"
      "objects_kept (remove1 (p, l) ((q, resized l n) # objs)) (s1\<lparr>data := ?d\<rparr>) s'"
      by auto
    have "lsize (resized l n) = n" by (simp add: resized_def)
    then have "resized l n \<noteq> l" using k j False by auto
    then have "heap_ok s' G' ((q, resized l n) # remove1 (p, l) objs)" using d(3) by simp
    moreover have "objects_kept (remove1 (p, l) objs) s s'"
    proof (rule objects_kept_trans)
      show "objects_kept (remove1 (p, l) objs) s s1" by (rule objects_kept_subset [OF a(6) set_remove1_subset])
      have "objects_kept (remove1 (p, l) objs) (s1\<lparr>data := ?d\<rparr>) s'"
        by (rule objects_kept_subset [OF d(4)]) (use \<open>resized l n \<noteq> l\<close> in auto)
      then show "objects_kept (remove1 (p, l) objs) s1 s'" by (simp add: objects_kept_def)
    qed
    moreover have "rust_realloc s p l n = Some (s', q)"
      using k j False a(1,3) cp d(1) by (simp add: rust_realloc_def resized_def Let_def)
    ultimately show ?thesis using a(2-4) d(2) ov by (intro exI [of _ s'] exI [of _ q] exI [of _ G']) auto
  qed
qed

section \<open>A running program\<close>

inductive running :: "heap_state \<Rightarrow> objects \<Rightarrow> bool" where
  start: "zone_new w = Some z \<Longrightarrow> running \<lparr>tcache = thread_cache_new, zoned = z, data = d\<rparr> []"
| alloc: "running s objs \<Longrightarrow> small l \<Longrightarrow> backend_ready s l \<Longrightarrow> rust_alloc s l = Some (s', p) \<Longrightarrow> running s' ((p, l) # objs)"
| dealloc: "running s objs \<Longrightarrow> (p, l) \<in> set objs \<Longrightarrow> rust_dealloc s p l = Some s' \<Longrightarrow> running s' (remove1 (p, l) objs)"
| realloc: "running s objs \<Longrightarrow> (p, l) \<in> set objs \<Longrightarrow> small (resized l n) \<Longrightarrow> backend_ready s (resized l n) \<Longrightarrow>
    rust_realloc s p l n = Some (s', q) \<Longrightarrow> running s' ((q, resized l n) # remove1 (p, l) objs)"
| write_word: "running s objs \<Longrightarrow> (p, l) \<in> set objs \<Longrightarrow> p \<le> a \<Longrightarrow> a + 8 \<le> p + lsize l \<Longrightarrow> running (store_word s a v) objs"
| write_bytes: "running s objs \<Longrightarrow> running (s\<lparr>data := d\<rparr>) objs"
| flush: "running s objs \<Longrightarrow> flush_ready s \<Longrightarrow> cleanup_cache_unchecked (tcache s) (zoned s) = Some (us, z) \<Longrightarrow>
    running (s\<lparr>tcache := us, zoned := z\<rparr>) objs"

text \<open>The state before the first request.\<close>

definition no_slabs :: slabs where
  "no_slabs = \<lparr>fulls = [], partials = [], empties = [], uninits = [], frees = \<lambda>_. []\<rparr>"

lemma fresh_class_ok:
  assumes f: "fresh_class k sc" and k: "class_index k"
  shows "class_ok (TC_SIZE_ARRAY ! k) sc unit_new w no_slabs []"
proof -
  have k': "0 < k" "k < 64" using k by (auto simp: class_index_def)
  have p: "pg_num sc = SIZE_CLASS_PAGES ! k" "0 < as_usize (pg_count sc)" "TC_SIZE_ARRAY ! k \<le> as_usize (pg_align sc)"
    "as_usize (pg_count sc) * as_usize (pg_align sc) \<le> 4096 * pg_num sc"
    using f k' by (auto simp: fresh_class_def)
  have c: "0 < TC_SIZE_ARRAY ! k" "TC_SIZE_ARRAY ! k \<le> 4096 * SIZE_CLASS_PAGES ! k" "SIZE_CLASS_PAGES ! k \<le> 2 ^ 12"
    using zone_class [OF k'] by (simp_all add: size_classes_eq)
  have pp: "0 < pg_num sc" using c(1,2) p(1) by (cases "pg_num sc") auto
  have fits: "class_fits (TC_SIZE_ARRAY ! k) sc" using p c pp by (simp add: class_fits_def)
  then have "config_ok sc" using class_fits_bounds(3) [OF fits] pp p(1,2) c(3) by (simp add: config_ok_def)
  then have "slab_ok sc w no_slabs"
    using f by (simp add: slab_ok_def rings_ok_def base_ok_def kinds_ok_def owned_def all_slabs_def first_def fresh_class_def
        pages.ring_at_def ring_def no_slabs_def)
  moreover have "held_ok sc w no_slabs ([] @ [] @ [])"
    by (simp add: held_ok_def owned_def no_slabs_def)
  ultimately show ?thesis using fits unfolding class_ok_def by (intro conjI exI [of _ "[]"]) (simp_all add: no_slabs_def)
qed

lemma running_ok: "running s objs \<Longrightarrow> \<exists>G. heap_ok s G objs"
proof (induction rule: running.induct)
  case (start w z d)
  have z: "zworld z = w" "length (zslabs z) = 64" "\<forall>k < 64. fresh_class k (zslabs z ! k)"
    using start zone_slabs_ok [of 0 64] by (auto simp: zone_new_def TOTAL_SIZE_CLASS_def)
  let ?G = "\<lambda>_. no_slabs"
  have "class_ok (TC_SIZE_ARRAY ! k) (zslabs z ! k) unit_new (zworld z) (?G k) []" if "class_index k" for k
    using fresh_class_ok z(3) that by (simp add: class_index_def)
  then have "heap_ok \<lparr>tcache = thread_cache_new, zoned = z, data = d\<rparr> ?G []"
    using z(2) by (simp add: heap_ok_def thread_cache_new_def TOTAL_SIZE_CLASS_def classes_apart_def owned_def class_index_def no_slabs_def)
  then show ?case by blast
next
  case (alloc s objs l s' p)
  then show ?case using heap_alloc_ok [of s _ objs l] by fastforce
next
  case (dealloc s objs p l s')
  then show ?case using heap_dealloc_ok [of s _ objs p l] by fastforce
next
  case (realloc s objs p l n s' q)
  then show ?case using heap_realloc_ok [of s _ objs p l n] by fastforce
next
  case (write_word s objs p l a v)
  then show ?case using heap_write_ok [of s _ objs p l a v] by fastforce
next
  case (write_bytes s objs d)
  then show ?case by (simp add: heap_bytes_ok)
next
  case (flush s objs us z)
  then show ?case using heap_flush_ok [of s _ objs] by fastforce
qed

text \<open>Whatever a program does with the global allocator, allocating, reallocating and freeing objects of any size up to
  28032 bytes, storing words inside its objects and flushing the cache of its thread, no two of the objects it holds
  overlap: from the tables of size classes to the links that freed objects hold, no block is handed out twice.\<close>

theorem running_objects_apart:
  assumes "running s objs" and "i < j" and "j < length objs"
  shows "apart (fst (objs ! i), lsize (snd (objs ! i))) (fst (objs ! j), lsize (snd (objs ! j)))"
  using running_ok [OF assms(1)] heap_objects_apart assms(2,3) by blast

text \<open>No request of a running program panics: an allocation for which the backend is ready gives a block that is not
  null and has the alignment asked for, every object can be freed, and the cache can be flushed, which empties all its
  units.\<close>

theorem running_requests_served:
  assumes "running s objs"
  shows "(\<forall>l. small l \<longrightarrow> backend_ready s l \<longrightarrow>
      (\<exists>s' p. rust_alloc s l = Some (s', p) \<and> p \<noteq> 0 \<and> lalign l dvd p \<and> running s' ((p, l) # objs)))
    \<and> (\<forall>(p, l) \<in> set objs. \<exists>s'. rust_dealloc s p l = Some s' \<and> running s' (remove1 (p, l) objs))
    \<and> (flush_ready s \<longrightarrow> (\<exists>us z. cleanup_cache_unchecked (tcache s) (zoned s) = Some (us, z)
        \<and> (\<forall>k. class_index k \<longrightarrow> us ! k = unit_new) \<and> running (s\<lparr>tcache := us, zoned := z\<rparr>) objs))"
proof -
  obtain G where ok: "heap_ok s G objs" using running_ok [OF assms] by blast
  have "\<exists>s' p. rust_alloc s l = Some (s', p) \<and> p \<noteq> 0 \<and> lalign l dvd p \<and> running s' ((p, l) # objs)"
    if "small l" "backend_ready s l" for l
    using heap_alloc_ok [OF ok that] running.alloc [OF assms that] by blast
  moreover have "\<exists>s'. rust_dealloc s p l = Some s' \<and> running s' (remove1 (p, l) objs)" if "(p, l) \<in> set objs" for p l
    using heap_dealloc_ok [OF ok that] running.dealloc [OF assms that] by blast
  moreover have "\<exists>us z. cleanup_cache_unchecked (tcache s) (zoned s) = Some (us, z)
        \<and> (\<forall>k. class_index k \<longrightarrow> us ! k = unit_new) \<and> running (s\<lparr>tcache := us, zoned := z\<rparr>) objs" if "flush_ready s"
    using heap_flush_ok [OF ok that] running.flush [OF assms that] by blast
  ultimately show ?thesis by blast
qed



section \<open>A program that runs\<close>

text \<open>Nothing leads to a header yet; \<open>m\<close> is the memory and \<open>mb\<close> what is left of the metadata.\<close>

definition start_world :: "machine \<Rightarrow> meta_bump \<Rightarrow> world" where
  "start_world m mb = (demo_world 0 0)\<lparr>backend := (backend (demo_world 0 0))\<lparr>rd_tree := \<lambda>_. None, fl_os := m, fl_meta := mb\<rparr>\<rparr>"

lemma start_no_header: "\<not> has_header (start_world m mb) q"
  by (simp add: has_header_def start_world_def radix_view_def)

lemma start_fresh_pages:
  assumes "pg_num sc = 1" and a: "answers m = answers demo_machine"
  shows "\<exists>h p m' pb b. fresh_pages sc (start_world m mb) h p m' pb b"
proof -
  have "\<exists>h m' pb. page_bump_alloc m page_bump_new OBJECT_PAGE_BYTES = Some (m', pb, h)
     \<and> 0 < h \<and> h < 2 ^ 48 \<and> answers m' = [0x9000000000]"
    using a by (simp add: page_bump_alloc_def page_bump_new_def OBJECT_PAGE_BYTES_def PB_DEFAULT_SIZE_def PAGE_SIZE_def os_mmap_def
        demo_machine_def usize_max_def Let_def)
  then obtain h m' pb where h: "page_bump_alloc m page_bump_new OBJECT_PAGE_BYTES = Some (m', pb, h)"
    "0 < h" "h < 2 ^ 48" "answers m' = [0x9000000000]" by blast
  let ?b = "(backend (start_world m mb))\<lparr>fl_os := m'\<rparr>"
  have ok: "fl_ok ?b (\<lambda>_. [])"
    by (simp add: fl_ok_def start_world_def demo_world_def demo_free_list_def head_of_def blocks_ok_def flags_ok_def radix_view_def)
  have "fl_alloc ?b 4096 = Some (fl_bump_alloc ?b 4096)" by (rule fl_alloc_none [OF ok]) simp_all
  then obtain b where b: "bsa_alloc ?b \<lparr>lsize = wmul PAGE_SIZE 1, lalign = 8\<rparr> = Some (b, 0x90FFFFF000)"
    using h(4) by (simp add: bsa_alloc_def fl_bump_alloc_def bump_alloc_def bump_init_def bump_round_def os_mmap_def ISIZE_MAX_def
      usize_max_def BUMP_DEFAULT_SIZE_def PAGE_SIZE_def start_world_def demo_world_def demo_free_list_def bump_new_def Let_def)
  have "radix_view (rd_tree (backend (start_world m mb))) q = 0" for q by (simp add: start_world_def radix_view_def)
  then have "fresh_pages sc (start_world m mb) h 0x90FFFFF000 m' pb b"
    using h b start_no_header assms by (simp add: fresh_pages_def start_world_def demo_world_def)
  then show ?thesis by blast
qed

lemma start_ready:
  assumes "pg_num sc = 1" and z: "zworld z = start_world m mb" and a: "answers m = answers demo_machine"
  shows "pages_ready sc z"
proof -
  have "set_words z m' = z" if "\<forall>x. \<not> has_header (zworld z) (x div 4096) \<longrightarrow> m' x = zwords z x" for m'
  proof -
    have "m' = zwords z" using that start_no_header unfolding z by blast
    then show ?thesis by simp
  qed
  then show ?thesis using start_fresh_pages [OF assms(1) a] unfolding pages_ready_def z by (metis z)
qed

lemma zone_slabs_nth:
  "zone_slabs idx n = Some items \<Longrightarrow> i < n \<Longrightarrow> idx + n \<le> 64 \<Longrightarrow>
    sc_new (SIZE_CLASSES ! (idx + i)) (SIZE_CLASS_PAGES ! (idx + i)) = Some (items ! i)"
proof (induction n arbitrary: idx i items)
  case (Suc n)
  have "idx < 64" using Suc.prems(3) by simp
  then obtain it rest where r: "sc_new (SIZE_CLASSES ! idx) (SIZE_CLASS_PAGES ! idx) = Some it" "zone_slabs (Suc idx) n = Some rest"
    "items = it # rest"
    using Suc.prems(1) zone_first by (auto simp: get_rounded_size_by_idx_def get_num_pages_by_idx_def bind_eq_Some_conv)
  then show ?case using Suc.IH [OF r(2), of "i - 1"] Suc.prems(2,3) by (cases i) auto
qed simp

definition start_layout :: layout where
  "start_layout = \<lparr>lsize = 8, lalign = 1\<rparr>"

lemma start_layout_facts: "small start_layout" "get_size_class (lsize start_layout) = Some (Base 1)" "lalign start_layout = 1"
proof -
  have "is_pow2 1" using is_pow2_power [of 0] by simp
  then show "small start_layout" by (simp add: small_def start_layout_def TC_MAX_SIZE_def)
  show "get_size_class (lsize start_layout) = Some (Base 1)"
    by (simp add: get_size_class_def get_sizeclass_tuple2_def aget_def IDX_ARRAY_def TC_SIZE_ARRAY_def start_layout_def)
qed (simp add: start_layout_def)

text \<open>The first request takes a new slab and leaves its other objects in the unit; the second is served from them.\<close>

lemma first_request:
  fixes d :: "nat \<Rightarrow> nat" and mb :: meta_bump
  assumes items: "zone_slabs 0 64 = Some items" and ms: "answers m = answers demo_machine"
  defines "s0 \<equiv> \<lparr>tcache = thread_cache_new, zoned = \<lparr>zslabs = items, zworld = start_world m mb\<rparr>, data = d\<rparr>"
  shows "\<exists>s p. backend_ready s0 start_layout \<and> rust_alloc s0 start_layout = Some (s, p) \<and> backend_ready s start_layout"
proof -
  have it: "length items = 64" "fresh_class 1 (items ! 1)" using items zone_slabs_ok [of 0 64] by auto
  define z where "z = \<lparr>zslabs = items, zworld = start_world m mb\<rparr>"
  have z: "zworld z = start_world m mb" "length (zslabs z) = 64" "zone_slabs 0 64 = Some (zslabs z)" "fresh_class 1 (zslabs z ! 1)"
    using items it by (simp_all add: z_def)
  have s0: "s0 = \<lparr>tcache = thread_cache_new, zoned = z, data = d\<rparr>" by (simp add: s0_def z_def)
  define sc where "sc = zslabs z ! 1"
  have "sc_new 8 1 = Some sc" using zone_slabs_nth [OF z(3), of 1] by (simp add: sc_def SIZE_CLASSES_def SIZE_CLASS_PAGES_def)
  then have c: "pg_num sc = 1" "as_usize (pg_count sc) = 512" using sc_new_fits [of 8 1] by auto
  have u0: "tcache s0 ! 1 = unit_new" by (simp add: s0 thread_cache_new_def TOTAL_SIZE_CLASS_def)
  have ready: "pages_ready (zslabs z ! 1) z" using start_ready [OF c(1) z(1) ms] by (simp add: sc_def)
  then have b0: "backend_ready s0 start_layout" using start_layout_facts(2) by (simp add: backend_ready_def s0)
  have i1: "class_index 1" by (simp add: class_index_def)
  have ok: "slab_ok sc (start_world m mb) no_slabs"
    using class_ok_slab [OF fresh_class_ok [OF z(4) i1, of "start_world m mb"]] unfolding sc_def by (rule conjunct1)
  obtain h p m' pb b where f: "fresh_pages sc (start_world m mb) h p m' pb b" using start_fresh_pages [OF c(1) ms] by blast
  have "new_slab sc (start_world m mb) no_slabs h p m' pb b" using fresh_new_slab(1) [OF f ok] by (simp add: no_slabs_def)
  from allocate_batch_new_ok [OF ok _ _ _ this, of 1] obtain sc' w' where
    a: "allocate_batch_v2 sc (start_world m mb) 1 = Some (sc', w', p, 512, Some (as_usize (pg_align sc)))"
    unfolding c(2) by (auto simp: no_slabs_def)
  have p0: "p \<noteq> 0" using f by (simp add: fresh_pages_def)
  let ?u = "\<lparr>tlist = linklist_new, bump_ptr = wadd p (as_usize (pg_align sc)), bump_count = as_i32 511,
    bump_unit = as_i32 (as_usize (pg_align sc))\<rparr>"
  let ?z = "\<lparr>zslabs = (zslabs z)[1 := sc'], zworld = w'\<rparr>"
  have "refill unit_new z 1 1 = Some (?u, ?z, p)"
    using a z(1,2) p0 by (simp add: refill_def allocate_batch_from_slab_def sc_def nonnull_def unit_new_def)
  moreover have "cut_aligned unit_new z 1 = Some (unit_new, z, 0)" by (subst cut_aligned.simps) (simp add: unit_new_def)
  ultimately have "unit_allocate unit_new z 1 1 = Some (?u, ?z, p)"
    by (simp add: unit_allocate_def) (simp add: unit_new_def linklist_new_def)
  moreover have len: "1 < length (tcache s0)" by (simp add: s0 thread_cache_new_def TOTAL_SIZE_CLASS_def)
  ultimately have al: "rust_alloc s0 start_layout = Some (s0\<lparr>tcache := (tcache s0)[1 := ?u], zoned := ?z\<rparr>, p)"
    using start_layout_facts(2,3) u0 by (simp add: rust_alloc_def tc_allocate_def s0)
  let ?s = "s0\<lparr>tcache := (tcache s0)[1 := ?u], zoned := ?z\<rparr>"
  have b1: "backend_ready ?s start_layout"
    using start_layout_facts(2,3) len by (simp add: backend_ready_def as_i32_def)
  show ?thesis using b0 al b1 by blast
qed

lemma one_object_run:
  "\<exists>s p. running s [(p, start_layout)] \<and> backend_ready s start_layout"
proof -
  obtain items where items: "zone_slabs 0 64 = Some items" using zone_slabs_ok [of 0 64] by auto
  let ?z = "\<lparr>zslabs = items, zworld = start_world demo_machine meta_bump_new\<rparr>"
  have "zone_new (start_world demo_machine meta_bump_new) = Some ?z" using items by (simp add: zone_new_def TOTAL_SIZE_CLASS_def)
  then have r: "running \<lparr>tcache = thread_cache_new, zoned = ?z, data = id\<rparr> []" by (rule running.start)
  show ?thesis
    using first_request [OF items refl, of meta_bump_new id] running.alloc [OF r start_layout_facts(1)] by blast
qed

lemma two_objects_run:
  "\<exists>s p q. running s [(q, start_layout), (p, start_layout)]"
proof -
  obtain s p where r: "running s [(p, start_layout)]" "backend_ready s start_layout" using one_object_run by blast
  obtain G where "heap_ok s G [(p, start_layout)]" using running_ok [OF r(1)] by blast
  from heap_alloc_ok [OF this start_layout_facts(1) r(2)] obtain s2 q where "rust_alloc s start_layout = Some (s2, q)" by blast
  then show ?thesis using running.alloc [OF r(1) start_layout_facts(1) r(2)] by blast
qed

theorem running_objects_apart_witness:
  "\<exists>s p q. running s [(q, start_layout), (p, start_layout)] \<and> apart (q, 8) (p, 8)"
proof -
  obtain s p q where r: "running s [(q, start_layout), (p, start_layout)]" using two_objects_run by blast
  have "apart (q, 8) (p, 8)" using running_objects_apart [OF r, of 0 1] by (simp add: start_layout_def)
  then show ?thesis using r by blast
qed

theorem running_requests_served_witness:
  "\<exists>s s' p q. running s [(q, start_layout), (p, start_layout)] \<and> rust_dealloc s q start_layout = Some s'"
proof -
  obtain s p q where r: "running s [(q, start_layout), (p, start_layout)]" using two_objects_run by blast
  have "\<exists>s'. rust_dealloc s q start_layout = Some s'" using running_requests_served [OF r] by auto
  then show ?thesis using r by blast
qed


end
