(* ===== verification/Threads.thy ===== *)
theory Threads
  imports HeapRun
begin

text \<open>
  The threads of a process (\<open>tls_static!\<close> in \<open>alloc_macros/src/allocator.rs\<close>, \<open>pal/sync.rs\<close>, the end of \<open>cache/thread_cache.rs\<close>).
  Each thread has its own cache, made on its first request and given back when it ends; all share the zone. Requests
  of different threads are interleaved in any order, each request being one step; a thread may free an object that
  another allocated.
\<close>

section \<open>Thread-local statics\<close>

text \<open>
  \<open>caches\<close> are the thread caches by their addresses, \<open>values\<close> the pointer \<open>GlobalTcache_VALUE\<close> of each thread, null before
  its first request. Of the library of threads: \<open>keys\<close> is the number of keys created, each with \<open>free_thread_cache\<close> as its
  destructor, and \<open>saved t k\<close> what thread \<open>t\<close> has stored under key \<open>k\<close>.
\<close>

record process =
  p_zone :: zone
  p_data :: "nat \<Rightarrow> nat"
  caches :: "nat \<Rightarrow> thread_cache_unit list"
  vals :: "nat list"
  tsd_initialized :: bool
  pkey :: nat
  keys :: nat
  saved :: "nat \<Rightarrow> nat \<Rightarrow> nat"

definition register_tls_key :: "process \<Rightarrow> process" where
  "register_tls_key P = P\<lparr>pkey := keys P, keys := keys P + 1\<rparr>"

definition save_tls :: "process \<Rightarrow> nat \<Rightarrow> nat \<Rightarrow> process" where
  "save_tls P t ptr = P\<lparr>saved := (saved P)(t := (saved P t)(pkey P := ptr))\<rparr>"

text \<open>The metadata of the backend, which \<open>MetadataAllocator\<close> serves from.\<close>

definition set_meta :: "zone \<Rightarrow> machine \<Rightarrow> meta_bump \<Rightarrow> zone" where
  "set_meta z m mb = z\<lparr>zworld := (zworld z)\<lparr>backend := (backend (zworld z))\<lparr>fl_os := m, fl_meta := mb\<rparr>\<rparr>\<rparr>"

definition cache_block :: "zone \<Rightarrow> machine \<times> meta_bump \<times> (alloc_error + nat \<times> nat)" where
  "cache_block z = meta_allocate (fl_os (backend (zworld z))) (fl_meta (backend (zworld z))) \<lparr>lsize = ALLOC_UNIT, lalign = 8\<rparr>"

text \<open>\<open>deref\<close> (and \<open>deref_mut\<close>, which has the same text); out of memory, \<open>Box::new_in\<close> aborts.\<close>

definition tls_deref :: "process \<Rightarrow> nat \<Rightarrow> process option" where
  "tls_deref P t =
     (if vals P ! t \<noteq> 0 then Some P
      else (case cache_block (p_zone P) of
          (m, mb, Inl e) \<Rightarrow> None
        | (m, mb, Inr (ptr, len)) \<Rightarrow>
            (let P = P\<lparr>p_zone := set_meta (p_zone P) m mb, caches := (caches P)(ptr := thread_cache_new),
                  vals := (vals P)[t := ptr]\<rparr>;
                 P = (if \<not> tsd_initialized P then (register_tls_key P)\<lparr>tsd_initialized := True\<rparr> else P)
             in Some (save_tls P t (vals P ! t)))))"

section \<open>The requests of a thread\<close>

definition heap_of :: "process \<Rightarrow> nat \<Rightarrow> heap_state" where
  "heap_of P t = \<lparr>tcache = caches P (vals P ! t), zoned = p_zone P, data = p_data P\<rparr>"

definition put_heap :: "process \<Rightarrow> nat \<Rightarrow> heap_state \<Rightarrow> process" where
  "put_heap P t s = P\<lparr>caches := (caches P)(vals P ! t := tcache s), p_zone := zoned s, p_data := data s\<rparr>"

definition thread_alloc :: "process \<Rightarrow> nat \<Rightarrow> layout \<Rightarrow> (process \<times> nat) option" where
  "thread_alloc P t l = do {
     P \<leftarrow> tls_deref P t;
     (s, p) \<leftarrow> rust_alloc (heap_of P t) l;
     Some (put_heap P t s, p) }"

definition thread_dealloc :: "process \<Rightarrow> nat \<Rightarrow> nat \<Rightarrow> layout \<Rightarrow> process option" where
  "thread_dealloc P t p l = do {
     P \<leftarrow> tls_deref P t;
     s \<leftarrow> rust_dealloc (heap_of P t) p l;
     Some (put_heap P t s) }"

text \<open>Only a request that moves the object looks for the cache.\<close>

definition thread_realloc :: "process \<Rightarrow> nat \<Rightarrow> nat \<Rightarrow> layout \<Rightarrow> nat \<Rightarrow> (process \<times> nat) option" where
  "thread_realloc P t p l n = do {
     old \<leftarrow> get_size_class (lsize l);
     new \<leftarrow> get_size_class n;
     if index old = index new then Some (P, p)
     else do {
       P \<leftarrow> tls_deref P t;
       (s, q) \<leftarrow> rust_realloc (heap_of P t) p l n;
       Some (put_heap P t s, q) } }"

text \<open>The end of a thread: the library calls the destructor with what is stored under the key. The pointer
  \<open>GlobalTcache_VALUE\<close> stays.\<close>

definition thread_exit :: "process \<Rightarrow> nat \<Rightarrow> process option" where
  "thread_exit P t =
     (let ptr = saved P t (pkey P) in
      if ptr = 0 then Some P
      else do {
        let P = P\<lparr>saved := (saved P)(t := (saved P t)(pkey P := 0))\<rparr>;
        (us, z) \<leftarrow> free_thread_cache (caches P ptr) (p_zone P) ptr;
        Some (P\<lparr>caches := (caches P)(ptr := us), p_zone := z\<rparr>) })"

definition process_new :: "nat \<Rightarrow> zone \<Rightarrow> (nat \<Rightarrow> nat) \<Rightarrow> process" where
  "process_new n z d = \<lparr>p_zone = z, p_data = d, caches = \<lambda>_. [], vals = replicate n 0, tsd_initialized = False,
     pkey = 0, keys = 0, saved = \<lambda>_ _. 0\<rparr>"

section \<open>The objects in the caches\<close>

text \<open>An object in a cache counts as one of the size of its class.\<close>

definition cached_layout :: "nat \<Rightarrow> layout" where
  "cached_layout k = \<lparr>lsize = TC_SIZE_ARRAY ! k, lalign = 1\<rparr>"

lemma cached_class:
  assumes "class_index k"
  shows "get_size_class (TC_SIZE_ARRAY ! k) = Some (Base k)" "small (cached_layout k)"
proof -
  have k: "0 < k" "k < 64" using assms by (auto simp: class_index_def)
  have s: "i < j \<Longrightarrow> j < 64 \<Longrightarrow> TC_SIZE_ARRAY ! i < TC_SIZE_ARRAY ! j" for i j
    using tc_sizes_sorted tc_lengths(2) by (simp add: sorted_wrt_iff_nth_less)
  have "TC_SIZE_ARRAY ! k \<le> TC_SIZE_ARRAY ! 63" using s [of k 63] k(2) by (cases "k = 63") auto
  then have top: "TC_SIZE_ARRAY ! k \<le> TC_MAX_SIZE" using tc_ends by (simp add: TC_MAX_SIZE_def)
  have "least_class TC_SIZE_ARRAY (TC_SIZE_ARRAY ! k) k"
    using k(2) s tc_lengths(2) by (simp add: least_class_def)
  moreover obtain j where "get_sizeclass_tuple2 (TC_SIZE_ARRAY ! k) = Some (Base j, TC_SIZE_ARRAY ! j)"
    "least_class TC_SIZE_ARRAY (TC_SIZE_ARRAY ! k) j" by (rule tuple2_least [OF top])
  ultimately show "get_size_class (TC_SIZE_ARRAY ! k) = Some (Base k)" using least_class_unique by (auto simp: get_size_class_def)
  have "0 < TC_SIZE_ARRAY ! k" using zone_class(1) [OF k] by (simp add: size_classes_eq)
  then show "small (cached_layout k)" using top is_pow2_power [of 0] by (simp add: small_def cached_layout_def)
qed

text \<open>The cache \<open>us\<close> holds the objects \<open>C\<close>.\<close>

definition cache_holds :: "(nat \<Rightarrow> nat) \<Rightarrow> thread_cache_unit list \<Rightarrow> objects \<Rightarrow> bool" where
  "cache_holds m us C \<longleftrightarrow> length us = 64
     \<and> (\<forall>k. class_index k \<longrightarrow> (\<exists>xs bs. unit_ok m (us ! k) xs bs \<and> mset (of_class k C) = mset (xs @ bs)))"

lemma of_class_append [simp]: "of_class k (xs @ ys) = of_class k xs @ of_class k ys"
  by (simp add: of_class_def)

lemma new_unit_holds: "unit_ok m unit_new xs bs = (xs = [] \<and> bs = [])"
  by (auto simp: unit_ok_def unit_new_def list_rep_def linklist_new_def)

lemma new_cache: "length thread_cache_new = 64" "k < 64 \<Longrightarrow> thread_cache_new ! k = unit_new"
  by (simp_all add: thread_cache_new_def TOTAL_SIZE_CLASS_def)

lemma new_cache_holds: "cache_holds m thread_cache_new []"
  by (auto simp: cache_holds_def new_cache class_index_def new_unit_holds)

lemma heap_ok_cache:
  "heap_ok (s\<lparr>tcache := us\<rparr>) G objs \<longleftrightarrow> length us = 64 \<and> length (zslabs (zoned s)) = 64
     \<and> (\<forall>ob \<in> set objs. small (snd ob) \<and> fst ob \<noteq> 0 \<and> lalign (snd ob) dvd fst ob)
     \<and> (\<forall>k. class_index k \<longrightarrow> class_ok (TC_SIZE_ARRAY ! k) (scs s k) (us ! k) (heap_world s) (G k) (of_class k objs))
     \<and> classes_apart s G"
  by (simp add: heap_ok_def classes_apart_def)

lemma class_ok_new_unit:
  "class_ok sz sc unit_new w g live \<longleftrightarrow> class_fits sz sc \<and> slab_ok sc w g \<and> uninits g = [] \<and> held_ok sc w g live"
  by (simp add: class_ok_def new_unit_holds)

lemma class_ok_unit:
  "class_ok sz sc u0 w g live0 \<Longrightarrow> unit_ok (words w) u xs bs \<Longrightarrow> held_ok sc w g (live @ xs @ bs) \<Longrightarrow> class_ok sz sc u w g live"
  unfolding class_ok_def by blast

lemma cache_absorb:
  assumes ok: "heap_ok (s\<lparr>tcache := thread_cache_new\<rparr>) G (objs @ C)" and c: "cache_holds (words (heap_world s)) us C"
  shows "heap_ok (s\<lparr>tcache := us\<rparr>) G objs"
proof -
  have "class_ok (TC_SIZE_ARRAY ! k) (scs s k) (us ! k) (heap_world s) (G k) (of_class k objs)" if k: "class_index k" for k
  proof -
    have o: "class_ok (TC_SIZE_ARRAY ! k) (scs s k) unit_new (heap_world s) (G k) (of_class k objs @ of_class k C)"
      using heap_ok_class(1) [OF ok k] new_cache(2) [of k] k by (simp add: class_index_def)
    obtain xs bs where u: "unit_ok (words (heap_world s)) (us ! k) xs bs" "mset (of_class k C) = mset (xs @ bs)"
      using c k unfolding cache_holds_def by blast
    have "held_ok (scs s k) (heap_world s) (G k) (of_class k objs @ of_class k C)"
      using o by (simp add: class_ok_new_unit)
    then have "held_ok (scs s k) (heap_world s) (G k) (of_class k objs @ xs @ bs)"
      by (rule held_perm [rotated]) (use u(2) in simp)
    then show ?thesis by (rule class_ok_unit [OF o u(1)])
  qed
  moreover have "length us = 64" using c by (simp add: cache_holds_def)
  ultimately show ?thesis using ok unfolding heap_ok_cache by simp
qed

lemma of_class_cached:
  assumes "class_index k" and "\<And>j. j \<in> set ks \<Longrightarrow> class_index j" and "distinct ks"
  shows "of_class k (concat (map (\<lambda>j. map (\<lambda>x. (x, cached_layout j)) (X j)) ks)) = (if k \<in> set ks then X k else [])"
  using assms(2,3)
proof (induction ks)
  case (Cons j ks)
  have "of_class k (map (\<lambda>x. (x, cached_layout j)) (X j)) = (if j = k then X j else [])"
    using cached_class(1) [of j] Cons.prems(1) by (auto simp: of_class_def cached_layout_def filter_map comp_def)
  then show ?case using Cons by auto
qed simp

lemma cache_release:
  assumes ok: "heap_ok s G objs"
  obtains C where "cache_holds (words (heap_world s)) (tcache s) C" "heap_ok (s\<lparr>tcache := thread_cache_new\<rparr>) G (objs @ C)"
proof -
  have "\<forall>k. \<exists>xs bs. class_index k \<longrightarrow> unit_ok (words (heap_world s)) (tcache s ! k) xs bs
      \<and> held_ok (scs s k) (heap_world s) (G k) (of_class k objs @ xs @ bs)"
    using ok unfolding heap_ok_def class_ok_def by blast
  then obtain XS BS where u: "\<And>k. class_index k \<Longrightarrow> unit_ok (words (heap_world s)) (tcache s ! k) (XS k) (BS k)
      \<and> held_ok (scs s k) (heap_world s) (G k) (of_class k objs @ XS k @ BS k)" by metis
  define C where "C = concat (map (\<lambda>j. map (\<lambda>x. (x, cached_layout j)) (XS j @ BS j)) [1..<64])"
  have in_range: "class_index j" if "j \<in> set [1..<64]" for j using that by (simp add: class_index_def)
  have cl: "of_class k C = XS k @ BS k" if k: "class_index k" for k
  proof -
    have "of_class k C = (if k \<in> set [1..<64] then XS k @ BS k else [])"
      unfolding C_def by (rule of_class_cached [OF k in_range distinct_upt])
    then show ?thesis using k by (simp add: class_index_def)
  qed
  have "cache_holds (words (heap_world s)) (tcache s) C"
    using u cl ok by (auto simp: cache_holds_def heap_ok_def)
  moreover have "class_ok (TC_SIZE_ARRAY ! k) (scs s k) unit_new (heap_world s) (G k) (of_class k (objs @ C))" if k: "class_index k" for k
    by (rule class_ok_unit [OF heap_ok_class(1) [OF ok k], where xs = "[]" and bs = "[]"])
      (use u [OF k] cl [OF k] in \<open>simp_all add: new_unit_holds\<close>)
  moreover have "small (snd ob) \<and> fst ob \<noteq> 0 \<and> lalign (snd ob) dvd fst ob" if "ob \<in> set C" for ob
  proof -
    have "ob \<in> (\<Union>j \<in> set [1..<64]. set (map (\<lambda>x. (x, cached_layout j)) (XS j @ BS j)))"
      using that unfolding C_def by (simp only: set_concat set_map image_image)
    then obtain k where "k \<in> set [1..<64]" "ob \<in> set (map (\<lambda>x. (x, cached_layout k)) (XS k @ BS k))" by blast
    then have k: "class_index k" "fst ob \<in> set (XS k @ BS k)" "snd ob = cached_layout k" using in_range [of k] by auto
    have "fst ob \<in> set (of_class k objs @ XS k @ BS k)" using k(2) by simp
    then obtain h where "h \<in> owned (G k)" "fst ob \<in> grid (scs s k) (heap_world s) h"
      using u [OF k(1)] held_place by metis
    then have "fst ob \<noteq> 0"
      using class_ok_slab [OF heap_ok_class(1) [OF ok k(1)]] slab_pos(1) grid_inside(3) by fastforce
    then show ?thesis using k(3) cached_class(2) [OF k(1)] by (simp add: cached_layout_def)
  qed
  then have "\<forall>ob \<in> set (objs @ C). small (snd ob) \<and> fst ob \<noteq> 0 \<and> lalign (snd ob) dvd fst ob"
    using ok by (auto simp: heap_ok_def)
  moreover have "thread_cache_new ! k = unit_new" if "class_index k" for k
    using that by (simp add: new_cache(2) class_index_def)
  moreover have "length (zslabs (zoned s)) = 64" "classes_apart s G" using ok by (auto simp: heap_ok_def)
  ultimately have "heap_ok (s\<lparr>tcache := thread_cache_new\<rparr>) G (objs @ C)"
    unfolding heap_ok_cache using new_cache(1) by metis
  then show ?thesis using that \<open>cache_holds _ _ C\<close> by blast
qed


lemma cache_holds_kept:
  assumes c: "cache_holds m us C" and k: "\<And>p l. (p, l) \<in> set C \<Longrightarrow> m' p = m p"
  shows "cache_holds m' us C"
  unfolding cache_holds_def
proof (intro conjI allI impI)
  show "length us = 64" using c by (simp add: cache_holds_def)
  fix j assume "class_index j"
  then obtain xs bs where u: "unit_ok m (us ! j) xs bs" "mset (of_class j C) = mset (xs @ bs)"
    using c unfolding cache_holds_def by blast
  have "m x = m' x" if "x \<in> set xs" for x
  proof -
    have "x \<in> set (of_class j C)" using that mset_eq_setD [OF u(2)] by simp
    then obtain l where "(x, l) \<in> set C" by (auto simp: of_class_def)
    then show ?thesis using k by simp
  qed
  then have "list_rep m' (tlist (us ! j)) xs" using u(1) list_rep_cong unfolding unit_ok_def by blast
  then have "unit_ok m' (us ! j) xs bs" using u(1) unfolding unit_ok_def by blast
  then show "\<exists>xs bs. unit_ok m' (us ! j) xs bs \<and> mset (of_class j C) = mset (xs @ bs)" using u(2) by blast
qed

lemma heap_ok_small: "heap_ok s G objs \<Longrightarrow> (p, l) \<in> set objs \<Longrightarrow> small l"
  unfolding heap_ok_def by fastforce

lemma heap_ok_mset:
  assumes "heap_ok s G objs" and m: "mset objs' = mset objs"
  shows "heap_ok s G objs'"
proof (rule heap_ok_renamed [OF assms(1)])
  show "mset (of_class k objs') = mset (of_class k objs)" for k using m by (simp add: of_class_def)
  show "small (snd ob) \<and> fst ob \<noteq> 0 \<and> lalign (snd ob) dvd fst ob" if "ob \<in> set objs'" for ob
    using that assms(1) mset_eq_setD [OF m] by (auto simp: heap_ok_def)
qed

section \<open>The invariant of a process\<close>

text \<open>The objects in all caches; \<open>C t\<close> are those of thread \<open>t\<close>.\<close>

definition all_cached :: "(nat \<Rightarrow> objects) \<Rightarrow> nat \<Rightarrow> objects" where
  "all_cached C n = concat (map C [0..<n])"

lemma all_cached_split: "t < n \<Longrightarrow> mset (all_cached C n) = mset (all_cached (C(t := [])) n) + mset (C t)"
  by (induction n) (auto simp: all_cached_def less_Suc_eq)

lemma all_cached_none [simp]: "all_cached (\<lambda>_. []) n = []"
  by (simp add: all_cached_def)

lemma all_cached_same: "n \<le> t \<Longrightarrow> all_cached (C(t := X)) n = all_cached C n"
  by (induction n) (auto simp: all_cached_def)

lemma all_cached_join: "t < n \<Longrightarrow> mset (all_cached (C(t := X)) n) = mset (all_cached (C(t := [])) n) + mset X"
  using all_cached_split [of t n "C(t := X)"] by simp

lemma in_all_cached: "u < n \<Longrightarrow> u \<noteq> t \<Longrightarrow> set (C u) \<subseteq> set (all_cached (C(t := [])) n)"
  by (auto simp: all_cached_def)

text \<open>The zone with no cache in front of it.\<close>

definition shared :: "process \<Rightarrow> heap_state" where
  "shared P = \<lparr>tcache = thread_cache_new, zoned = p_zone P, data = p_data P\<rparr>"

definition has_cache :: "process \<Rightarrow> nat set \<Rightarrow> nat \<Rightarrow> bool" where
  "has_cache P A t \<longleftrightarrow> t \<in> A \<and> vals P ! t \<noteq> 0"

text \<open>\<open>A\<close> are the threads that have not ended.\<close>

definition threads_ok :: "process \<Rightarrow> nat set \<Rightarrow> (nat \<Rightarrow> objects) \<Rightarrow> bool" where
  "threads_ok P A C \<longleftrightarrow> (\<forall>t \<in> A. t < length (vals P)) \<and> (\<forall>t < length (vals P). vals P ! t \<noteq> 0 \<longrightarrow> tsd_initialized P)
     \<and> (\<forall>t. has_cache P A t \<longrightarrow> cache_holds (zwords (p_zone P)) (caches P (vals P ! t)) (C t) \<and> saved P t (pkey P) = vals P ! t)
     \<and> (\<forall>t. \<not> has_cache P A t \<longrightarrow> C t = [])
     \<and> (\<forall>t \<in> A. vals P ! t = 0 \<longrightarrow> saved P t = (\<lambda>_. 0))
     \<and> (\<forall>t \<in> A. \<forall>u \<in> A. t \<noteq> u \<longrightarrow> vals P ! t \<noteq> 0 \<longrightarrow> vals P ! t \<noteq> vals P ! u)"

definition process_ok :: "process \<Rightarrow> nat set \<Rightarrow> (nat \<Rightarrow> slabs) \<Rightarrow> (nat \<Rightarrow> objects) \<Rightarrow> objects \<Rightarrow> bool" where
  "process_ok P A G C objs \<longleftrightarrow> heap_ok (shared P) G (objs @ all_cached C (length (vals P))) \<and> threads_ok P A C"

abbreviation other_cached :: "process \<Rightarrow> (nat \<Rightarrow> objects) \<Rightarrow> nat \<Rightarrow> objects" where
  "other_cached P C t \<equiv> all_cached (C(t := [])) (length (vals P))"

text \<open>For one thread, what the others cache are objects that somebody holds.\<close>

lemma heap_of_shared: "heap_of P t = (shared P)\<lparr>tcache := caches P (vals P ! t)\<rparr>"
  by (simp add: heap_of_def shared_def)

lemma thread_view:
  assumes "process_ok P A G C objs" and "has_cache P A t"
  shows "heap_ok (heap_of P t) G (objs @ other_cached P C t)"
proof -
  have t: "t < length (vals P)" and c: "cache_holds (zwords (p_zone P)) (caches P (vals P ! t)) (C t)"
    using assms by (auto simp: process_ok_def threads_ok_def has_cache_def)
  have "heap_ok (shared P) G ((objs @ other_cached P C t) @ C t)"
    by (rule heap_ok_mset [of _ _ "objs @ all_cached C (length (vals P))"])
      (use assms(1) all_cached_split [OF t, of C] in \<open>simp_all add: process_ok_def\<close>)
  then have "heap_ok ((shared P)\<lparr>tcache := thread_cache_new\<rparr>) G ((objs @ other_cached P C t) @ C t)" by (simp add: shared_def)
  from cache_absorb [OF this, of "caches P (vals P ! t)"] c show ?thesis by (simp add: heap_of_shared shared_def)
qed

lemma kept_words: "objects_kept os s s' \<Longrightarrow> (p, l) \<in> set os \<Longrightarrow> small l \<Longrightarrow> zwords (zoned s') p = zwords (zoned s) p"
  by (force simp: objects_kept_def small_def)

lemma thread_back:
  assumes ok: "process_ok P A G C objs" and t: "has_cache P A t"
    and s': "heap_ok s' G' (objs' @ other_cached P C t)" and k: "objects_kept (other_cached P C t) (heap_of P t) s'"
  shows "\<exists>C'. process_ok (put_heap P t s') A G' C' objs'"
proof -
  let ?P = "put_heap P t s'" and ?n = "length (vals P)"
  have lt: "t < ?n" and tA: "t \<in> A" "vals P ! t \<noteq> 0" using ok t by (auto simp: process_ok_def threads_ok_def has_cache_def)
  obtain D where D: "cache_holds (words (heap_world s')) (tcache s') D"
    "heap_ok (s'\<lparr>tcache := thread_cache_new\<rparr>) G' ((objs' @ other_cached P C t) @ D)" by (rule cache_release [OF s'])
  have sh: "shared ?P = s'\<lparr>tcache := thread_cache_new\<rparr>" by (simp add: shared_def put_heap_def)
  have "heap_ok (shared ?P) G' (objs' @ all_cached (C(t := D)) ?n)"
    unfolding sh by (rule heap_ok_mset [OF D(2)]) (use all_cached_join [OF lt, of C D] in simp)
  moreover have "threads_ok ?P A (C(t := D))"
  proof -
    have th: "threads_ok P A C" using ok by (simp add: process_ok_def)
    have hc: "has_cache ?P A = has_cache P A" by (simp add: has_cache_def put_heap_def fun_eq_iff)
    have "cache_holds (zwords (zoned s')) (caches ?P (vals P ! u)) (C u)" if u: "has_cache P A u" "u \<noteq> t" for u
    proof -
      have un: "u < ?n" "vals P ! u \<noteq> vals P ! t" using th u tA unfolding threads_ok_def has_cache_def by metis+
      have "cache_holds (zwords (p_zone P)) (caches P (vals P ! u)) (C u)" using th u(1) by (simp add: threads_ok_def)
      then have "cache_holds (zwords (zoned s')) (caches P (vals P ! u)) (C u)"
      proof (rule cache_holds_kept)
        fix p l assume "(p, l) \<in> set (C u)"
        then have "(p, l) \<in> set (other_cached P C t)" using in_all_cached [OF un(1) u(2)] by blast
        moreover from this have "small l" using heap_ok_small [OF s', of p l] by simp
        ultimately show "zwords (zoned s') p = zwords (p_zone P) p" using kept_words [OF k] by (simp add: heap_of_def)
      qed
      then show ?thesis using un(2) by (simp add: put_heap_def)
    qed
    then show ?thesis using th D(1) t hc unfolding threads_ok_def by (auto simp: put_heap_def)
  qed
  ultimately show ?thesis unfolding process_ok_def by (intro exI [of _ "C(t := D)"]) (simp add: put_heap_def)
qed


section \<open>The steps\<close>

text \<open>Other metadata: the pages that lead to a header keep their words.\<close>

lemma heap_ok_meta:
  assumes ok: "heap_ok s G objs" and m: "\<And>x. has_header (heap_world s) (x div 4096) \<Longrightarrow> mem m x = words (heap_world s) x"
  shows "heap_ok (s\<lparr>zoned := set_meta (zoned s) m mb\<rparr>) G objs"
    and "objects_kept objs s (s\<lparr>zoned := set_meta (zoned s) m mb\<rparr>)"
proof -
  let ?s = "s\<lparr>zoned := set_meta (zoned s) m mb\<rparr>"
  have w: "pgs (heap_world ?s) = pgs (heap_world s)" "words (heap_world ?s) = mem m"
    "rd_tree (backend (heap_world ?s)) = rd_tree (backend (heap_world s))" "scs ?s k = scs s k" for k
    by (simp_all add: set_meta_def)
  have "class_ok (TC_SIZE_ARRAY ! k) (scs ?s k) (tcache ?s ! k) (heap_world ?s) (G k) (of_class k objs)" if k: "class_index k" for k
  proof -
    note ck = heap_ok_class(1) [OF ok k]
    have "class_ok (TC_SIZE_ARRAY ! k) (scs s k) (tcache s ! k) (heap_world ?s) (G k) (of_class k objs)"
    proof (rule class_ok_frame [OF ck])
      fix h x assume "h \<in> owned (G k)" "inside (scs s k) (heap_world s) h x"
      with owned_mapped [OF class_ok_slab [OF ck, THEN conjunct1]]
      show "words (heap_world ?s) x = words (heap_world s) x
        \<and> radix_view (rd_tree (backend (heap_world ?s))) (x div 4096) = int h" unfolding w using m by blast
    qed (use w(1) in simp)
    then show ?thesis unfolding w(4) by simp
  qed
  moreover have "classes_apart ?s G" using ok unfolding heap_ok_def classes_apart_def w by blast
  moreover have "length (zslabs (zoned ?s)) = 64" using ok by (simp add: heap_ok_def set_meta_def)
  ultimately show "heap_ok ?s G objs" using ok unfolding heap_ok_def by simp
  show "objects_kept objs s ?s"
    unfolding objects_kept_def
  proof (intro ballI case_prodI2 allI impI)
    fix ob p l x assume "ob \<in> set objs" "ob = (p, l)" and x: "p \<le> x \<and> x < p + lsize l"
    then have o: "(p, l) \<in> set objs" by simp
    obtain j where j: "get_size_class (lsize l) = Some (Base j)" "class_index j" "lsize l \<le> TC_SIZE_ARRAY ! j"
      by (rule small_class [OF heap_ok_small [OF ok o]])
    note cj = heap_ok_class(1) [OF ok j(2)]
    obtain h where h: "h \<in> owned (G j)" "p \<in> grid (scs s j) (heap_world s) h"
      by (rule class_place [OF cj of_class_in [OF o j(1)]])
    have f: "class_fits (TC_SIZE_ARRAY ! j) (scs s j)" using class_ok_slab [OF cj] by simp
    have "inside (scs s j) (heap_world s) h x" using grid_inside(2,3) [OF f h(2)] x j(3) by (simp add: in_slab_def)
    then show "words (heap_world ?s) x = words (heap_world s) x"
      unfolding w using m owned_mapped(2) [OF class_ok_slab [OF cj, THEN conjunct1] h(1)] by blast
  qed
qed

text \<open>A thread needs a cache: \<open>META_BUMP\<close> gives it a block that no thread uses and that leaves the slabs alone.\<close>

definition thread_ready :: "process \<Rightarrow> nat set \<Rightarrow> nat \<Rightarrow> bool" where
  "thread_ready P A t \<longleftrightarrow> vals P ! t \<noteq> 0 \<or> (\<exists>m mb ptr len. cache_block (p_zone P) = (m, mb, Inr (ptr, len))
     \<and> (\<forall>u \<in> A. vals P ! u \<noteq> ptr) \<and> (\<forall>x. has_header (zworld (p_zone P)) (x div 4096) \<longrightarrow> mem m x = zwords (p_zone P) x))"

lemma cache_block_nonzero: "cache_block z = (m, mb, Inr (ptr, len)) \<Longrightarrow> ptr \<noteq> 0"
  by (auto simp: cache_block_def meta_allocate_def Let_def split: prod.splits if_splits)

lemma deref_ok:
  assumes ok: "process_ok P A G C objs" and t: "t \<in> A" and r: "thread_ready P A t"
  shows "\<exists>P'. tls_deref P t = Some P' \<and> process_ok P' A G C objs \<and> has_cache P' A t \<and> vals P' ! t \<noteq> 0
    \<and> p_data P' = p_data P \<and> objects_kept objs (shared P) (shared P')"
proof (cases "vals P ! t = 0")
  case False
  then show ?thesis using ok t by (simp add: tls_deref_def has_cache_def objects_kept_refl)
next
  case True
  obtain m mb ptr len where b: "cache_block (p_zone P) = (m, mb, Inr (ptr, len))" "\<forall>u \<in> A. vals P ! u \<noteq> ptr"
    "\<forall>x. has_header (zworld (p_zone P)) (x div 4096) \<longrightarrow> mem m x = zwords (p_zone P) x"
    using r True unfolding thread_ready_def by blast
  have p0: "ptr \<noteq> 0" by (rule cache_block_nonzero [OF b(1)])
  have th: "threads_ok P A C" and h: "heap_ok (shared P) G (objs @ all_cached C (length (vals P)))" using ok by (auto simp: process_ok_def)
  have lt: "t < length (vals P)" using th t by (simp add: threads_ok_def)
  obtain P' where P': "tls_deref P t = Some P'" by (simp add: tls_deref_def True b(1) Let_def)
  have f: "vals P' = (vals P)[t := ptr]" "caches P' = (caches P)(ptr := thread_cache_new)" "p_zone P' = set_meta (p_zone P) m mb"
    "p_data P' = p_data P" "tsd_initialized P'" "saved P' = (saved P)(t := (saved P t)(pkey P' := ptr))"
    "tsd_initialized P \<Longrightarrow> pkey P' = pkey P"
    using P' lt True b(1) by (auto simp: tls_deref_def register_tls_key_def save_tls_def Let_def split: if_splits)
  have sh: "shared P' = (shared P)\<lparr>zoned := set_meta (zoned (shared P)) m mb\<rparr>" by (simp add: shared_def f)
  have "\<And>x. has_header (heap_world (shared P)) (x div 4096) \<Longrightarrow> mem m x = words (heap_world (shared P)) x"
    using b(3) by (simp add: shared_def)
  note hm = heap_ok_meta [OF h this, of mb, folded sh]
  have hc: "has_cache P' A u \<longleftrightarrow> has_cache P A u \<or> u = t" for u
    using lt t True p0 by (cases "u = t") (auto simp: has_cache_def f)
  have old: "cache_holds (zwords (p_zone P')) (caches P' (vals P ! u)) (C u) \<and> saved P' u (pkey P') = vals P ! u"
    if u: "has_cache P A u" for u
  proof -
    have un: "u \<in> A" "vals P ! u \<noteq> 0" "u \<noteq> t" "u < length (vals P)" using u True th by (auto simp: has_cache_def threads_ok_def)
    have "tsd_initialized P" using th un(2,4) by (auto simp: threads_ok_def)
    moreover have c: "cache_holds (zwords (p_zone P)) (caches P (vals P ! u)) (C u)" "saved P u (pkey P) = vals P ! u"
      using th u by (auto simp: threads_ok_def)
    have "cache_holds (zwords (p_zone P')) (caches P (vals P ! u)) (C u)"
    proof (rule cache_holds_kept [OF c(1)])
      fix p l assume "(p, l) \<in> set (C u)"
      then have "(p, l) \<in> set (objs @ all_cached C (length (vals P)))" using un(4) by (auto simp: all_cached_def)
      then show "zwords (p_zone P') p = zwords (p_zone P) p"
        using kept_words [OF hm(2) _ heap_ok_small [OF h]] by (simp add: shared_def)
    qed
    moreover have "vals P ! u \<noteq> ptr" using b(2) un(1) by blast
    ultimately show ?thesis using c(2) un(3) f by simp
  qed
  have "threads_ok P' A C"
    unfolding threads_ok_def
  proof (intro conjI allI ballI impI)
    fix u assume u: "has_cache P' A u"
    have "C t = []" using th True by (simp add: threads_ok_def has_cache_def)
    then show "cache_holds (zwords (p_zone P')) (caches P' (vals P' ! u)) (C u)" "saved P' u (pkey P') = vals P' ! u"
      using u old [of u] new_cache_holds lt unfolding hc f(1) by (auto simp: f(2,6) nth_list_update)
  next
    fix u assume "\<not> has_cache P' A u"
    then show "C u = []" using th unfolding hc threads_ok_def by blast
  next
    fix u v assume uv: "u \<in> A" "v \<in> A" "u \<noteq> v" "vals P' ! u \<noteq> 0"
    have "\<forall>t \<in> A. \<forall>u \<in> A. t \<noteq> u \<longrightarrow> vals P ! t \<noteq> 0 \<longrightarrow> vals P ! t \<noteq> vals P ! u" using th by (simp add: threads_ok_def)
    then show "vals P' ! u \<noteq> vals P' ! v" using uv b(2) lt unfolding f(1) by (metis nth_list_update)
  qed (use th lt p0 t in \<open>auto simp: threads_ok_def f hc nth_list_update has_cache_def\<close>)
  then have "process_ok P' A G C objs" using hm(1) by (simp add: process_ok_def f)
  moreover have "objects_kept objs (shared P) (shared P')" by (rule objects_kept_subset [OF hm(2)]) auto
  ultimately show ?thesis using P' hc lt p0 by (intro exI [of _ P']) (simp add: f)
qed


text \<open>What a request may need besides the cache is what it needs of the backend.\<close>

definition request_ready :: "process \<Rightarrow> nat set \<Rightarrow> nat \<Rightarrow> layout \<Rightarrow> bool" where
  "request_ready P A t l \<longleftrightarrow> thread_ready P A t \<and> (\<forall>P'. tls_deref P t = Some P' \<longrightarrow> backend_ready (heap_of P' t) l)"

lemma shared_kept: "objects_kept os (heap_of P t) s' = objects_kept os (shared P) (shared (put_heap P t s'))"
  by (rule objects_kept_world) (simp_all add: shared_def heap_of_def put_heap_def)

lemma process_alloc_ok:
  assumes ok: "process_ok P A G C objs" and t: "t \<in> A" and l: "small l" and r: "request_ready P A t l"
  shows "\<exists>P' p G' C'. thread_alloc P t l = Some (P', p) \<and> p_data P' = p_data P \<and> p \<noteq> 0 \<and> lalign l dvd p
    \<and> process_ok P' A G' C' ((p, l) # objs) \<and> objects_kept objs (shared P) (shared P')"
proof -
  obtain P1 where P1: "tls_deref P t = Some P1" "process_ok P1 A G C objs" "has_cache P1 A t" "p_data P1 = p_data P"
    "objects_kept objs (shared P) (shared P1)" using deref_ok [OF ok t] r unfolding request_ready_def by blast
  have b: "backend_ready (heap_of P1 t) l" using r P1(1) by (simp add: request_ready_def)
  obtain s' p G' where a: "rust_alloc (heap_of P1 t) l = Some (s', p)" "data s' = data (heap_of P1 t)" "p \<noteq> 0" "lalign l dvd p"
    "heap_ok s' G' ((p, l) # objs @ other_cached P1 C t)" "objects_kept (objs @ other_cached P1 C t) (heap_of P1 t) s'"
    using heap_alloc_ok [OF thread_view [OF P1(2,3)] l b] by blast
  have k: "objects_kept objs (heap_of P1 t) s'" "objects_kept (other_cached P1 C t) (heap_of P1 t) s'"
    by (rule objects_kept_subset [OF a(6)], simp)+
  have "heap_ok s' G' (((p, l) # objs) @ other_cached P1 C t)" using a(5) by simp
  then obtain C' where "process_ok (put_heap P1 t s') A G' C' ((p, l) # objs)" using thread_back [OF P1(2,3) _ k(2)] by blast
  moreover have "thread_alloc P t l = Some (put_heap P1 t s', p)" using P1(1) a(1) by (simp add: thread_alloc_def)
  moreover have "objects_kept objs (shared P) (shared (put_heap P1 t s'))"
    using objects_kept_trans [OF P1(5)] k(1) by (simp add: shared_kept)
  ultimately show ?thesis using a(2-4) P1(4)
    by (intro exI [of _ "put_heap P1 t s'"] exI [of _ p] exI [of _ G'] exI [of _ C']) (simp add: put_heap_def heap_of_def)
qed

lemma process_dealloc_ok:
  assumes ok: "process_ok P A G C objs" and t: "t \<in> A" and o: "(p, l) \<in> set objs" and r: "thread_ready P A t"
  shows "\<exists>P' G' C'. thread_dealloc P t p l = Some P' \<and> p_data P' = p_data P
    \<and> process_ok P' A G' C' (remove1 (p, l) objs) \<and> objects_kept (remove1 (p, l) objs) (shared P) (shared P')"
proof -
  obtain P1 where P1: "tls_deref P t = Some P1" "process_ok P1 A G C objs" "has_cache P1 A t" "p_data P1 = p_data P"
    "objects_kept objs (shared P) (shared P1)" using deref_ok [OF ok t r] by blast
  have o': "(p, l) \<in> set (objs @ other_cached P1 C t)" using o by simp
  have rm: "remove1 (p, l) (objs @ other_cached P1 C t) = remove1 (p, l) objs @ other_cached P1 C t" using o by (simp add: remove1_append)
  obtain s' G' where a: "rust_dealloc (heap_of P1 t) p l = Some s'" "data s' = data (heap_of P1 t)"
    "heap_ok s' G' (remove1 (p, l) objs @ other_cached P1 C t)"
    "objects_kept (remove1 (p, l) objs @ other_cached P1 C t) (heap_of P1 t) s'"
    using heap_dealloc_ok [OF thread_view [OF P1(2,3)] o'] unfolding rm by blast
  have k: "objects_kept (remove1 (p, l) objs) (heap_of P1 t) s'" "objects_kept (other_cached P1 C t) (heap_of P1 t) s'"
    by (rule objects_kept_subset [OF a(4)], simp)+
  obtain C' where "process_ok (put_heap P1 t s') A G' C' (remove1 (p, l) objs)" using thread_back [OF P1(2,3) a(3) k(2)] by blast
  moreover have "thread_dealloc P t p l = Some (put_heap P1 t s')" using P1(1) a(1) by (simp add: thread_dealloc_def)
  moreover have "objects_kept (remove1 (p, l) objs) (shared P) (shared (put_heap P1 t s'))"
    using objects_kept_trans [OF objects_kept_subset [OF P1(5) set_remove1_subset]] k(1) by (simp add: shared_kept)
  ultimately show ?thesis using a(2) P1(4)
    by (intro exI [of _ "put_heap P1 t s'"] exI [of _ G'] exI [of _ C']) (simp add: put_heap_def heap_of_def)
qed

text \<open>The program stores a word in one of its objects.\<close>

definition store :: "process \<Rightarrow> nat \<Rightarrow> nat \<Rightarrow> process" where
  "store P a v = P\<lparr>p_zone := set_words (p_zone P) ((zwords (p_zone P))(a := v))\<rparr>"

lemma process_store_ok:
  assumes ok: "process_ok P A G C objs" and o: "(p, l) \<in> set objs" and a: "p \<le> a" "a < p + lsize l"
  shows "process_ok (store P a v) A G C objs" and "objects_kept (remove1 (p, l) objs) (shared P) (shared (store P a v))"
proof -
  let ?n = "length (vals P)" and ?P = "store P a v"
  have th: "threads_ok P A C" and h: "heap_ok (shared P) G (objs @ all_cached C ?n)" using ok by (auto simp: process_ok_def)
  have o': "(p, l) \<in> set (objs @ all_cached C ?n)" using o by simp
  have rm: "remove1 (p, l) (objs @ all_cached C ?n) = remove1 (p, l) objs @ all_cached C ?n" using o by (simp add: remove1_append)
  note w = heap_write_ok [OF h o' a, of v, unfolded rm]
  have sh: "shared ?P = store_word (shared P) a v" by (simp add: shared_def store_def store_word_def)
  have f: "vals ?P = vals P" "caches ?P = caches P" "saved ?P = saved P" "pkey ?P = pkey P" "tsd_initialized ?P = tsd_initialized P"
    by (simp_all add: store_def)
  have "cache_holds (zwords (p_zone ?P)) (caches P (vals P ! u)) (C u)" if u: "has_cache P A u" for u
  proof -
    have "u < ?n" using u th by (auto simp: has_cache_def threads_ok_def)
    have "cache_holds (zwords (p_zone P)) (caches P (vals P ! u)) (C u)" using th u by (simp add: threads_ok_def)
    then show ?thesis
    proof (rule cache_holds_kept)
      fix q m assume "(q, m) \<in> set (C u)"
      then have "(q, m) \<in> set (all_cached C ?n)" using \<open>u < ?n\<close> by (auto simp: all_cached_def)
      then show "zwords (p_zone ?P) q = zwords (p_zone P) q"
        using kept_words [OF w(2), of q m] heap_ok_small [OF h, of q m] unfolding sh [symmetric] by (simp add: shared_def)
    qed
  qed
  then have "threads_ok ?P A C" using th unfolding threads_ok_def has_cache_def f by blast
  then show "process_ok ?P A G C objs" using w(1) unfolding sh [symmetric] process_ok_def f by blast
  show "objects_kept (remove1 (p, l) objs) (shared P) (shared ?P)" unfolding sh by (rule objects_kept_subset [OF w(2)]) simp
qed


text \<open>The end of a thread needs what a flush needs, and that no slab has taken the pages of the cache.\<close>

definition exit_ready :: "process \<Rightarrow> nat \<Rightarrow> bool" where
  "exit_ready P t \<longleftrightarrow> vals P ! t = 0 \<or> flush_ready (heap_of P t)
     \<and> (\<forall>us z. cleanup_cache_unchecked (caches P (vals P ! t)) (p_zone P) = Some (us, z) \<longrightarrow>
         \<not> has_header (zworld z) (vals P ! t div 4096))"

lemma process_exit_ok:
  assumes ok: "process_ok P A G C objs" and t: "t \<in> A" and r: "exit_ready P t"
  shows "\<exists>P' G' C'. thread_exit P t = Some P' \<and> p_data P' = p_data P \<and> process_ok P' (A - {t}) G' C' objs
    \<and> objects_kept objs (shared P) (shared P')"
proof (cases "vals P ! t = 0")
  case True
  have "saved P t = (\<lambda>_. 0)" using ok t True by (simp add: process_ok_def threads_ok_def)
  moreover have "has_cache P (A - {t}) u = has_cache P A u" for u using True by (auto simp: has_cache_def)
  then have "process_ok P (A - {t}) G C objs" using ok unfolding process_ok_def threads_ok_def by simp
  ultimately show ?thesis by (simp add: thread_exit_def objects_kept_refl) blast
next
  case False
  let ?p = "vals P ! t" and ?n = "length (vals P)"
  have hc: "has_cache P A t" using t False by (simp add: has_cache_def)
  have th: "threads_ok P A C" using ok by (simp add: process_ok_def)
  have sv: "saved P t (pkey P) = ?p" and lt: "t < ?n" using th hc t by (auto simp: threads_ok_def)
  have fl: "flush_ready (heap_of P t)" using r False by (simp add: exit_ready_def)
  obtain us z G' where c: "cleanup_cache_unchecked (caches P ?p) (p_zone P) = Some (us, z)"
    "heap_ok ((heap_of P t)\<lparr>tcache := us, zoned := z\<rparr>) G' (objs @ other_cached P C t)" "\<forall>k. class_index k \<longrightarrow> us ! k = unit_new"
    "objects_kept (objs @ other_cached P C t) (heap_of P t) ((heap_of P t)\<lparr>tcache := us, zoned := z\<rparr>)"
    using heap_flush_ok [OF thread_view [OF ok hc] fl] by (auto simp: heap_of_def)
  have nh: "\<not> has_header (zworld z) (?p div 4096)" using r False c(1) unfolding exit_ready_def by blast
  let ?b = "backend (zworld z)"
  define m mb where "m = (fl_os ?b)\<lparr>mem := (mem (fl_os ?b))(?p := backup (fl_meta ?b))\<rparr>" and "mb = (fl_meta ?b)\<lparr>backup := ?p\<rparr>"
  define P' where "P' = P\<lparr>saved := (saved P)(t := (saved P t)(pkey P := 0)), caches := (caches P)(?p := us), p_zone := set_meta z m mb\<rparr>"
  have e: "thread_exit P t = Some P'"
    using c(1) False by (simp add: thread_exit_def sv free_thread_cache_def meta_bump_dealloc_def P'_def set_meta_def m_def mb_def Let_def)
  let ?s = "\<lparr>tcache = thread_cache_new, zoned = z, data = p_data P\<rparr>"
  have s1: "(heap_of P t)\<lparr>tcache := us, zoned := z\<rparr> = ?s\<lparr>tcache := us\<rparr>" by (simp add: heap_of_def)
  have nw: "thread_cache_new ! k = unit_new" if "class_index k" for k using that by (simp add: new_cache(2) class_index_def)
  have "heap_ok (?s\<lparr>tcache := thread_cache_new\<rparr>) G' (objs @ other_cached P C t)"
    using c(2,3) nw new_cache(1) unfolding s1 heap_ok_cache by metis
  then have h: "heap_ok ?s G' (objs @ other_cached P C t)" by simp
  have "mem m x = words (heap_world ?s) x" if "has_header (heap_world ?s) (x div 4096)" for x
    using that nh by (auto simp: m_def)
  note hm = heap_ok_meta [OF h this, of mb]
  have sh: "shared P' = ?s\<lparr>zoned := set_meta (zoned ?s) m mb\<rparr>" by (simp add: shared_def P'_def)
  have kept: "objects_kept (objs @ other_cached P C t) (shared P) (shared P')"
  proof (rule objects_kept_trans [OF _ hm(2) [folded sh]])
    show "objects_kept (objs @ other_cached P C t) (shared P) ?s"
      using c(4) by (simp add: objects_kept_def shared_def heap_of_def)
  qed
  have f: "vals P' = vals P" "pkey P' = pkey P" "tsd_initialized P' = tsd_initialized P" "caches P' = (caches P)(?p := us)"
    "u \<noteq> t \<Longrightarrow> saved P' u = saved P u" for u by (simp_all add: P'_def)
  have hc': "has_cache P' (A - {t}) u \<longleftrightarrow> has_cache P A u \<and> u \<noteq> t" for u by (auto simp: has_cache_def f)
  have old: "cache_holds (zwords (p_zone P')) (caches P' (vals P ! u)) (C u)" if u: "has_cache P A u" "u \<noteq> t" for u
  proof -
    have un: "u < ?n" "vals P ! u \<noteq> ?p" using th u t False unfolding threads_ok_def has_cache_def by metis+
    have "cache_holds (zwords (p_zone P)) (caches P (vals P ! u)) (C u)" using th u(1) by (simp add: threads_ok_def)
    then have "cache_holds (zwords (p_zone P')) (caches P (vals P ! u)) (C u)"
    proof (rule cache_holds_kept)
      fix q l assume "(q, l) \<in> set (C u)"
      then have "(q, l) \<in> set (objs @ other_cached P C t)" using in_all_cached [OF un(1) u(2)] by auto
      then show "zwords (p_zone P') q = zwords (p_zone P) q"
        using kept_words [OF kept, of q l] heap_ok_small [OF h, of q l] by (simp add: shared_def)
    qed
    then show ?thesis using un(2) by (simp add: f)
  qed
  have "threads_ok P' (A - {t}) (C(t := []))"
    unfolding threads_ok_def
  proof (intro conjI allI ballI impI)
    fix u assume u: "has_cache P' (A - {t}) u"
    then show "cache_holds (zwords (p_zone P')) (caches P' (vals P' ! u)) ((C(t := [])) u)" "saved P' u (pkey P') = vals P' ! u"
      using old [of u] th unfolding hc' by (auto simp: threads_ok_def f)
  next
    fix u assume "\<not> has_cache P' (A - {t}) u"
    then show "(C(t := [])) u = []" using th unfolding hc' threads_ok_def by auto
  next
    fix u v assume "u \<in> A - {t}" "v \<in> A - {t}" "u \<noteq> v" "vals P' ! u \<noteq> 0"
    then show "vals P' ! u \<noteq> vals P' ! v" using th unfolding threads_ok_def f by blast
  qed (use th in \<open>auto simp: threads_ok_def f\<close>)
  moreover have "heap_ok (shared P') G' (objs @ other_cached P C t)" unfolding sh by (rule hm(1))
  ultimately have "process_ok P' (A - {t}) G' (C(t := [])) objs" by (simp add: process_ok_def f)
  moreover have "objects_kept objs (shared P) (shared P')" by (rule objects_kept_subset [OF kept]) simp
  moreover have "p_data P' = p_data P" by (simp add: P'_def)
  ultimately show ?thesis using e by blast
qed


lemma process_realloc_ok:
  assumes ok: "process_ok P A G C objs" and t: "t \<in> A" and o: "(p, l) \<in> set objs" and n: "small (resized l n)"
    and r: "request_ready P A t (resized l n)"
  shows "\<exists>P' q G' C'. thread_realloc P t p l n = Some (P', q) \<and> q \<noteq> 0 \<and> lalign l dvd q
    \<and> (\<forall>i < min (lsize l) n. p_data P' (q + i) = p_data P (p + i))
    \<and> process_ok P' A G' C' ((q, resized l n) # remove1 (p, l) objs) \<and> objects_kept (remove1 (p, l) objs) (shared P) (shared P')"
proof -
  let ?rest = "all_cached C (length (vals P))"
  have h: "heap_ok (shared P) G (objs @ ?rest)" using ok by (simp add: process_ok_def)
  have o': "(p, l) \<in> set (objs @ ?rest)" using o by simp
  have rm: "remove1 (p, l) (objs @ xs) = remove1 (p, l) objs @ xs" for xs using o by (simp add: remove1_append)
  have l: "small l" "p \<noteq> 0" "lalign l dvd p" using h o' unfolding heap_ok_def by fastforce+
  obtain k where k: "get_size_class (lsize l) = Some (Base k)" by (rule small_class [OF l(1)])
  obtain j where j: "get_size_class n = Some (Base j)" by (rule small_class [OF n]) (simp add: resized_def)
  show ?thesis
  proof (cases "k = j")
    case True
    have "heap_ok (shared P) G (((p, resized l n) # remove1 (p, l) objs) @ ?rest)"
      using heap_resize_ok [OF h o' n k] j True rm by simp
    then have "process_ok P A G C ((p, resized l n) # remove1 (p, l) objs)" using ok by (simp add: process_ok_def)
    moreover have "thread_realloc P t p l n = Some (P, p)" using True k j by (simp add: thread_realloc_def)
    ultimately show ?thesis using l(2,3) objects_kept_refl by blast
  next
    case False
    obtain P1 where P1: "tls_deref P t = Some P1" "process_ok P1 A G C objs" "has_cache P1 A t" "p_data P1 = p_data P"
      "objects_kept objs (shared P) (shared P1)" using deref_ok [OF ok t] r unfolding request_ready_def by blast
    have b: "backend_ready (heap_of P1 t) (resized l n)" using r P1(1) by (simp add: request_ready_def)
    have o1: "(p, l) \<in> set (objs @ other_cached P1 C t)" using o by simp
    obtain s' q G' where a: "rust_realloc (heap_of P1 t) p l n = Some (s', q)" "q \<noteq> 0" "lalign l dvd q"
      "\<forall>i < min (lsize l) n. data s' (q + i) = data (heap_of P1 t) (p + i)"
      "heap_ok s' G' (((q, resized l n) # remove1 (p, l) objs) @ other_cached P1 C t)"
      "objects_kept (remove1 (p, l) objs @ other_cached P1 C t) (heap_of P1 t) s'"
      using heap_realloc_ok [OF thread_view [OF P1(2,3)] o1 n b] unfolding rm by auto
    have kp: "objects_kept (remove1 (p, l) objs) (heap_of P1 t) s'" "objects_kept (other_cached P1 C t) (heap_of P1 t) s'"
      by (rule objects_kept_subset [OF a(6)], simp)+
    obtain C' where c: "process_ok (put_heap P1 t s') A G' C' ((q, resized l n) # remove1 (p, l) objs)"
      using thread_back [OF P1(2,3) a(5) kp(2)] by blast
    have "thread_realloc P t p l n = Some (put_heap P1 t s', q)"
      using False k j P1(1) a(1) by (simp add: thread_realloc_def)
    moreover have "objects_kept (remove1 (p, l) objs) (shared P) (shared (put_heap P1 t s'))"
      using objects_kept_trans [OF objects_kept_subset [OF P1(5) set_remove1_subset]] kp(1) by (simp add: shared_kept)
    ultimately show ?thesis using a(2-4) c P1(4)
      by (intro exI [of _ "put_heap P1 t s'"] exI [of _ q] exI [of _ G'] exI [of _ C']) (simp add: put_heap_def heap_of_def)
  qed
qed

section \<open>A running process\<close>

text \<open>\<open>deref\<close> is a request that takes nothing from the zone, such as one of size 0.\<close>

inductive process_run :: "process \<Rightarrow> nat set \<Rightarrow> objects \<Rightarrow> bool" where
  boot: "zone_new w = Some z \<Longrightarrow> process_run (process_new n z d) {..<n} []"
| deref: "process_run P A objs \<Longrightarrow> t \<in> A \<Longrightarrow> thread_ready P A t \<Longrightarrow> tls_deref P t = Some P' \<Longrightarrow> process_run P' A objs"
| alloc: "process_run P A objs \<Longrightarrow> t \<in> A \<Longrightarrow> small l \<Longrightarrow> request_ready P A t l \<Longrightarrow> thread_alloc P t l = Some (P', p) \<Longrightarrow>
    process_run P' A ((p, l) # objs)"
| dealloc: "process_run P A objs \<Longrightarrow> t \<in> A \<Longrightarrow> (p, l) \<in> set objs \<Longrightarrow> thread_ready P A t \<Longrightarrow>
    thread_dealloc P t p l = Some P' \<Longrightarrow> process_run P' A (remove1 (p, l) objs)"
| realloc: "process_run P A objs \<Longrightarrow> t \<in> A \<Longrightarrow> (p, l) \<in> set objs \<Longrightarrow> small (resized l n) \<Longrightarrow> request_ready P A t (resized l n) \<Longrightarrow>
    thread_realloc P t p l n = Some (P', q) \<Longrightarrow> process_run P' A ((q, resized l n) # remove1 (p, l) objs)"
| write_word: "process_run P A objs \<Longrightarrow> (p, l) \<in> set objs \<Longrightarrow> p \<le> a \<Longrightarrow> a + 8 \<le> p + lsize l \<Longrightarrow> process_run (store P a v) A objs"
| write_bytes: "process_run P A objs \<Longrightarrow> process_run (P\<lparr>p_data := d\<rparr>) A objs"
| exit: "process_run P A objs \<Longrightarrow> t \<in> A \<Longrightarrow> exit_ready P t \<Longrightarrow> thread_exit P t = Some P' \<Longrightarrow> process_run P' (A - {t}) objs"

lemma process_bytes_ok: "process_ok P A G C objs \<Longrightarrow> process_ok (P\<lparr>p_data := d\<rparr>) A G C objs"
proof -
  have "shared (P\<lparr>p_data := d\<rparr>) = (shared P)\<lparr>data := d\<rparr>" by (simp add: shared_def)
  then show "process_ok P A G C objs \<Longrightarrow> process_ok (P\<lparr>p_data := d\<rparr>) A G C objs"
    by (simp add: process_ok_def heap_bytes_ok threads_ok_def has_cache_def)
qed

lemma process_new_ok:
  assumes "zone_new w = Some z"
  shows "\<exists>G. process_ok (process_new n z d) {..<n} G (\<lambda>_. []) []"
proof -
  have "running \<lparr>tcache = thread_cache_new, zoned = z, data = d\<rparr> []" by (rule running.start [OF assms])
  then obtain G where "heap_ok \<lparr>tcache = thread_cache_new, zoned = z, data = d\<rparr> G []" using running_ok by blast
  then have "heap_ok (shared (process_new n z d)) G ([] @ all_cached (\<lambda>_. []) n)"
    by (simp add: shared_def process_new_def all_cached_none)
  moreover have "threads_ok (process_new n z d) {..<n} (\<lambda>_. [])"
    by (auto simp: threads_ok_def process_new_def has_cache_def)
  ultimately show ?thesis unfolding process_ok_def by (auto simp: process_new_def)
qed

lemma process_run_ok: "process_run P A objs \<Longrightarrow> \<exists>G C. process_ok P A G C objs"
proof (induction rule: process_run.induct)
  case (boot w z n d)
  then show ?case using process_new_ok by blast
next
  case (deref P A objs t P')
  then obtain G C where "process_ok P A G C objs" by blast
  from deref_ok [OF this deref.hyps(2,3)] deref.hyps(4) show ?case by auto
next
  case (alloc P A objs t l P' p)
  then obtain G C where "process_ok P A G C objs" by blast
  from process_alloc_ok [OF this alloc.hyps(2-4)] alloc.hyps(5) show ?case by auto
next
  case (dealloc P A objs t p l P')
  then obtain G C where "process_ok P A G C objs" by blast
  from process_dealloc_ok [OF this dealloc.hyps(2-4)] dealloc.hyps(5) show ?case by auto
next
  case (realloc P A objs t p l n P' q)
  then obtain G C where "process_ok P A G C objs" by blast
  from process_realloc_ok [OF this realloc.hyps(2-5)] realloc.hyps(6) show ?case by auto
next
  case (write_word P A objs p l a v)
  then obtain G C where "process_ok P A G C objs" by blast
  from process_store_ok(1) [OF this write_word.hyps(2,3)] write_word.hyps(4) show ?case by auto
next
  case (write_bytes P A objs d)
  then show ?case using process_bytes_ok by blast
next
  case (exit P A objs t P')
  then obtain G C where "process_ok P A G C objs" by blast
  from process_exit_ok [OF this exit.hyps(2,3)] exit.hyps(4) show ?case by auto
qed




text \<open>C7: The end of a thread gives its cache back but leaves the pointer of the thread in place, so the next thread that makes a
  cache gets the same block: a request of the ended thread, as from a destructor that runs later, works on the cache of
  the other.\<close>

theorem ended_thread_shares_cache:
  assumes "process_run P A objs" and "t \<in> A" and "vals P ! t \<noteq> 0" and "thread_exit P t = Some P'"
    and "u < length (vals P)" and "vals P ! u = 0"
  shows "\<exists>P''. tls_deref P' u = Some P'' \<and> vals P'' ! u = vals P ! t \<and> vals P'' ! t = vals P ! t \<and> tls_deref P'' t = Some P''"
proof -
  obtain G C where ok: "process_ok P A G C objs" using process_run_ok [OF assms(1)] by blast
  let ?p = "vals P ! t"
  have sv: "saved P t (pkey P) = ?p" using ok assms(2,3) by (simp add: process_ok_def threads_ok_def has_cache_def)
  obtain us z where c: "cleanup_cache_unchecked (caches P ?p) (p_zone P) = Some (us, z)"
    using assms(3,4) by (auto simp: thread_exit_def sv free_thread_cache_def bind_eq_Some_conv Let_def)
  have f: "vals P' = vals P" "backup (fl_meta (backend (zworld (p_zone P')))) = ?p"
    using assms(3,4) c by (auto simp: thread_exit_def sv free_thread_cache_def meta_bump_dealloc_def Let_def)
  have "unit_round ALLOC_UNIT = ALLOC_UNIT" by (simp add: unit_round_unit unit_request_def ALLOC_UNIT_def)
  then obtain m mb where b: "cache_block (p_zone P') = (m, mb, Inr (?p, ALLOC_UNIT))"
    using f(2) assms(3) by (auto simp: cache_block_def meta_allocate_def meta_bump_alloc_def Let_def)
  have tu: "t \<noteq> u" using assms(3,6) by auto
  obtain P'' where P'': "tls_deref P' u = Some P''" using b by (simp add: tls_deref_def f(1) assms(6) Let_def)
  then have v: "vals P'' = (vals P)[u := ?p]"
    using b assms(5,6) by (auto simp: tls_deref_def f(1) register_tls_key_def save_tls_def Let_def split: if_splits)
  then have "tls_deref P'' t = Some P''" using tu assms(3) by (simp add: tls_deref_def)
  then show ?thesis using P'' v tu assms(5) by (intro exI [of _ P'']) simp
qed

section \<open>Two threads\<close>

text \<open>A machine whose first answer is the chunk of metadata.\<close>

definition boot_machine :: machine where
  "boot_machine = demo_machine\<lparr>answers := 0x8000000000 # answers demo_machine\<rparr>"

definition boot_zone :: "sc_allocator list \<Rightarrow> zone" where
  "boot_zone items = \<lparr>zslabs = items, zworld = start_world boot_machine meta_bump_new\<rparr>"

lemma boot_no_header: "\<not> has_header (zworld (boot_zone items)) q" "\<not> has_header (zworld (set_meta (boot_zone items) m mb)) q"
  by (simp_all add: boot_zone_def start_no_header) (simp add: set_meta_def has_header_def start_world_def radix_view_def)

lemma boot_block:
  obtains m mb where "cache_block (boot_zone items) = (m, mb, Inr (0x8003FFF800, ALLOC_UNIT))" "answers m = answers demo_machine"
    "mb_start mb = 0x8000000000" "mb_current mb = 0x8003FFF800" "backup mb = 0"
proof -
  have ur: "unit_round 2048 = 2048" using unit_round_unit [of 2048] by (simp add: unit_request_def ALLOC_UNIT_def)
  have "\<exists>m mb. cache_block (boot_zone items) = (m, mb, Inr (0x8003FFF800, ALLOC_UNIT)) \<and> answers m = answers demo_machine
      \<and> mb_start mb = 0x8000000000 \<and> mb_current mb = 0x8003FFF800 \<and> backup mb = 0"
    by (simp add: cache_block_def meta_allocate_def meta_bump_alloc_def sc_bump_alloc_def os_mmap_def boot_zone_def start_world_def
        boot_machine_def meta_bump_new_def ur ALLOC_UNIT_def MB_DEFAULT_SIZE_def usize_max_def demo_machine_def Let_def)
  then show ?thesis using that by blast
qed

text \<open>Thread 0 has a cache, thread 1 does not yet.\<close>

definition one_cache :: "sc_allocator list \<Rightarrow> machine \<Rightarrow> meta_bump \<Rightarrow> process" where
  "one_cache items m mb = \<lparr>p_zone = set_meta (boot_zone items) m mb, p_data = id,
     caches = (\<lambda>_. [])(0x8003FFF800 := thread_cache_new), vals = [0x8003FFF800, 0], tsd_initialized = True,
     pkey = 0, keys = 1, saved = (\<lambda>_ _. 0)(0 := (\<lambda>_. 0)(0 := 0x8003FFF800))\<rparr>"

lemma one_cache_run:
  assumes items: "zone_slabs 0 64 = Some items" and b: "cache_block (boot_zone items) = (m, mb, Inr (0x8003FFF800, ALLOC_UNIT))"
  shows "process_run (one_cache items m mb) {..<2} []"
proof -
  let ?P = "process_new 2 (boot_zone items) id"
  have "zone_new (start_world boot_machine meta_bump_new) = Some (boot_zone items)"
    using items by (simp add: zone_new_def TOTAL_SIZE_CLASS_def boot_zone_def)
  then have r: "process_run ?P {..<2} []" by (rule process_run.boot)
  have t: "thread_ready ?P {..<2} 0"
    using b boot_no_header(1) by (simp add: thread_ready_def process_new_def lessThan_Suc numeral_2_eq_2)
  have "tls_deref ?P 0 = Some (one_cache items m mb)"
    using b by (simp add: tls_deref_def process_new_def register_tls_key_def save_tls_def one_cache_def Let_def numeral_2_eq_2)
  from process_run.deref [OF r _ t this] show ?thesis by simp
qed

text \<open>A cache that was never used is given back as it is.\<close>

lemma clean_up_new: "clean_up unit_new z idx = Some (unit_new, z)"
  by (simp add: clean_up_def cut_all.simps) (simp add: unit_new_def linklist_new_def)

lemma cleanup_from_new:
  "idx + n \<le> 64 \<Longrightarrow> cleanup_from thread_cache_new z idx n = Some (thread_cache_new, z)"
proof (induction n arbitrary: idx)
  case (Suc n)
  have "thread_cache_new ! idx = unit_new" using new_cache(2) [of idx] Suc.prems by simp
  then have "thread_cache_new[idx := unit_new] = thread_cache_new" by (metis list_update_id)
  then show ?case using Suc new_cache by (simp add: clean_up_new)
qed simp

lemma two_threads_run:
  "\<exists>P p. process_run P {..<2} [(p, start_layout)] \<and> request_ready P {..<2} 0 start_layout
     \<and> vals P ! 0 \<noteq> 0 \<and> vals P ! 1 \<noteq> 0 \<and> vals P ! 0 \<noteq> vals P ! 1"
proof -
  obtain items where items: "zone_slabs 0 64 = Some items" using zone_slabs_ok [of 0 64] by auto
  obtain m mb where b: "cache_block (boot_zone items) = (m, mb, Inr (0x8003FFF800, ALLOC_UNIT))" "answers m = answers demo_machine"
    "mb_start mb = 0x8000000000" "mb_current mb = 0x8003FFF800" "backup mb = 0" by (rule boot_block)
  let ?P1 = "one_cache items m mb"
  have r1: "process_run ?P1 {..<2} []" by (rule one_cache_run [OF items b(1)])
  have ur: "unit_round 2048 = 2048" using unit_round_unit [of 2048] by (simp add: unit_request_def ALLOC_UNIT_def)
  have "\<exists>mb1. cache_block (p_zone ?P1) = (m, mb1, Inr (0x8003FFF000, ALLOC_UNIT))"
    using b(3-5) by (simp add: cache_block_def meta_allocate_def meta_bump_alloc_def sc_bump_alloc_def set_meta_def ur
        one_cache_def ALLOC_UNIT_def MB_DEFAULT_SIZE_def Let_def)
  then obtain mb1 where b1: "cache_block (p_zone ?P1) = (m, mb1, Inr (0x8003FFF000, ALLOC_UNIT))" by blast
  have t1: "thread_ready ?P1 {..<2} 1"
    using b1 boot_no_header(2) by (simp add: thread_ready_def one_cache_def lessThan_Suc numeral_2_eq_2)
  define P2 where "P2 = ?P1\<lparr>p_zone := set_meta (boot_zone items) m mb1, caches := (caches ?P1)(0x8003FFF000 := thread_cache_new),
    vals := [0x8003FFF800, 0x8003FFF000], saved := (saved ?P1)(1 := (\<lambda>_. 0)(0 := 0x8003FFF000))\<rparr>"
  have d1: "tls_deref ?P1 1 = Some P2"
    using b1 by (simp add: tls_deref_def one_cache_def save_tls_def P2_def Let_def set_meta_def)
  have r2: "process_run P2 {..<2} []" by (rule process_run.deref [OF r1 _ t1 d1]) simp
  have h2: "heap_of P2 0 = \<lparr>tcache = thread_cache_new, zoned = \<lparr>zslabs = items, zworld = start_world m mb1\<rparr>, data = id\<rparr>"
    by (simp add: heap_of_def P2_def one_cache_def set_meta_def boot_zone_def start_world_def)
  obtain s p where a: "backend_ready (heap_of P2 0) start_layout" "rust_alloc (heap_of P2 0) start_layout = Some (s, p)"
    "backend_ready s start_layout" using first_request [OF items b(2), of mb1 id] unfolding h2 by blast
  have d2: "tls_deref P2 0 = Some P2" by (simp add: tls_deref_def P2_def)
  have q2: "request_ready P2 {..<2} 0 start_layout" using a(1) d2 by (simp add: request_ready_def thread_ready_def P2_def)
  have al: "thread_alloc P2 0 start_layout = Some (put_heap P2 0 s, p)" using a(2) d2 by (simp add: thread_alloc_def)
  have r3: "process_run (put_heap P2 0 s) {..<2} [(p, start_layout)]"
    by (rule process_run.alloc [OF r2 _ start_layout_facts(1) q2 al]) simp
  have v: "vals (put_heap P2 0 s) = [0x8003FFF800, 0x8003FFF000]" by (simp add: put_heap_def P2_def)
  have "heap_of (put_heap P2 0 s) 0 = s" by (simp add: heap_of_def put_heap_def P2_def)
  then have "request_ready (put_heap P2 0 s) {..<2} 0 start_layout"
    using a(3) by (simp add: request_ready_def thread_ready_def tls_deref_def v)
  then show ?thesis using r3 v by (intro exI [of _ "put_heap P2 0 s"] exI [of _ p]) simp
qed


lemma two_threads_next:
  "\<exists>P P' p q. process_run P {..<2} [(p, start_layout)] \<and> request_ready P {..<2} 0 start_layout
     \<and> thread_alloc P 0 start_layout = Some (P', q) \<and> process_run P' {..<2} [(q, start_layout), (p, start_layout)]"
proof -
  obtain P p where r: "process_run P {..<2} [(p, start_layout)]" "request_ready P {..<2} 0 start_layout" using two_threads_run by blast
  obtain G C where ok: "process_ok P {..<2} G C [(p, start_layout)]" using process_run_ok [OF r(1)] by blast
  obtain P' q where a: "thread_alloc P 0 start_layout = Some (P', q)"
    using process_alloc_ok [OF ok _ start_layout_facts(1) r(2)] by auto
  have "process_run P' {..<2} [(q, start_layout), (p, start_layout)]"
    by (rule process_run.alloc [OF r(1) _ start_layout_facts(1) r(2) a]) simp
  then show ?thesis using r a by blast
qed



theorem ended_thread_shares_cache_witness:
  "\<exists>P P' P''. thread_exit P 0 = Some P' \<and> tls_deref P' 1 = Some P'' \<and> vals P'' = [0x8003FFF800, 0x8003FFF800]"
proof -
  obtain items where items: "zone_slabs 0 64 = Some items" using zone_slabs_ok [of 0 64] by auto
  obtain m mb where b: "cache_block (boot_zone items) = (m, mb, Inr (0x8003FFF800, ALLOC_UNIT))" by (rule boot_block)
  let ?P = "one_cache items m mb"
  have v: "vals ?P ! 0 = 0x8003FFF800" "vals ?P ! 1 = 0" "length (vals ?P) = 2" by (simp_all add: one_cache_def)
  have "cleanup_cache_unchecked thread_cache_new (p_zone ?P) = Some (thread_cache_new, p_zone ?P)"
    using cleanup_from_new [of 1 63] by (simp add: cleanup_cache_unchecked_def new_cache(1))
  then obtain P' where e: "thread_exit ?P 0 = Some P'"
    by (simp add: thread_exit_def one_cache_def free_thread_cache_def Let_def split_beta)
  have l: "length (vals P') = 2"
    using e by (auto simp: thread_exit_def one_cache_def bind_eq_Some_conv Let_def split: if_splits)
  obtain P'' where "tls_deref P' 1 = Some P''" "vals P'' ! 1 = 0x8003FFF800" "vals P'' ! 0 = 0x8003FFF800"
    using ended_thread_shares_cache [OF one_cache_run [OF items b] _ _ e, of 1] v by auto
  moreover have "length (vals P'') = 2"
    using calculation(1) l by (auto simp: tls_deref_def register_tls_key_def save_tls_def Let_def split: if_splits prod.splits sum.splits)
  ultimately have "vals P'' = [0x8003FFF800, 0x8003FFF800]"
    by (cases "vals P''"; cases "tl (vals P'')") (auto simp: numeral_2_eq_2)
  then show ?thesis using e \<open>tls_deref P' 1 = Some P''\<close> by blast
qed

end
