(* ===== verification/FixedHeap.thy ===== *)
theory FixedHeap
  imports Bump RadixTree
begin

text \<open>
  The layout of a heap of fixed size (\<open>sc/mod.rs\<close>, \<open>cache/mod.rs\<close> with the feature \<open>fixed_heap\<close>): \<open>init\<close> divides the
  range it is given among the allocators of \<open>Bump\<close> and the flat array of \<open>RadixTree\<close>, and \<open>extend\<close> adds memory at its end.
  The metadata lies at the start of the range: from its end downwards the thread cache, the zone, the slab headers and the
  words of the array. The sizes of the two objects are parameters; they are a word each where the layout does not depend
  on them.
\<close>

section \<open>State\<close>

text \<open>What is written into a place of its own.\<close>

datatype placed = New_thread_cache | New_zone

record fixed_heap =
  fh_meta :: meta_bump
  fh_bump :: bump
  fh_pages :: page_bump
  fh_tree :: array_node
  fh_placed :: "(nat \<times> placed) list"

definition fixed_heap_new :: fixed_heap where
  "fixed_heap_new = \<lparr>fh_meta = meta_bump_new, fh_bump = bump_new, fh_pages = page_bump_new, fh_tree = array_new, fh_placed = []\<rparr>"

text \<open>An allocation of the metadata allocator that must succeed.\<close>

definition fixed_take :: "fixed_heap \<Rightarrow> nat \<Rightarrow> (fixed_heap \<times> nat) option" where
  "fixed_take h sz = (case sc_bump_alloc_fixed (fh_meta h) sz of
       (m, Inr p) \<Rightarrow> Some (h\<lparr>fh_meta := m\<rparr>, p)
     | (m, Inl e) \<Rightarrow> None)"

section \<open>Operations\<close>

text \<open>\<open>tsz\<close> and \<open>zsz\<close> are the sizes of a thread cache and of the zone, \<open>words\<close> what the memory of the array holds.\<close>

definition sc_init_with_range ::
  "nat \<Rightarrow> nat \<Rightarrow> int list \<Rightarrow> fixed_heap \<Rightarrow> nat \<Rightarrow> nat \<Rightarrow> nat \<Rightarrow> fixed_heap option" where
  "sc_init_with_range tsz zsz words h start fin page_size = do {
     ensure (page_size \<noteq> 0);
     let page_count = wsub fin start div page_size;
     let total_metadata = wadd (wadd (wmul page_count (8 + OBJECT_PAGE_BYTES)) tsz) zsz;
     let meta_pages = wsub (wadd total_metadata page_size) 1 div page_size;
     let meta_end = wadd start (wmul page_size meta_pages);
     let h = h\<lparr>fh_meta := (fh_meta h)\<lparr>mb_start := start, mb_current := meta_end\<rparr>\<rparr>;
     let h = h\<lparr>fh_bump := bump_init_with_range (fh_bump h) meta_end fin\<rparr>;
     (h, tcache) \<leftarrow> fixed_take h tsz;
     let h = h\<lparr>fh_placed := fh_placed h @ [(tcache, New_thread_cache)]\<rparr>;
     (h, zone) \<leftarrow> fixed_take h zsz;
     let h = h\<lparr>fh_placed := fh_placed h @ [(zone, New_zone)]\<rparr>;
     let page_bump_end = mb_current (fh_meta h);
     (h, page_bump_start) \<leftarrow> fixed_take h (wmul page_count OBJECT_PAGE_BYTES);
     let h = h\<lparr>fh_pages := page_bump_init_with_range (fh_pages h) page_bump_start page_bump_end\<rparr>;
     (h, array) \<leftarrow> fixed_take h (wmul page_count 8);
     Some (h\<lparr>fh_tree := array_init_with_range (fh_tree h) start (array, words)\<rparr>) }"

text \<open>\<open>arr\<close> is the block that the backend gives for the longer array; the second result is the block that goes back to it.\<close>

definition sc_extend :: "fixed_heap \<Rightarrow> nat \<Rightarrow> nat \<Rightarrow> nat \<times> int list \<Rightarrow> (fixed_heap \<times> (nat \<times> nat) option) option" where
  "sc_extend h sz page_size arr = do {
     let (b, new_end) = bump_extend_with_range (fh_bump h) sz;
     let h = h\<lparr>fh_bump := b\<rparr>;
     ensure (page_size \<noteq> 0);
     (t, prev_rd_tree, prev_count) \<leftarrow> array_extend_with_range (fh_tree h) sz new_end page_size arr;
     let h = h\<lparr>fh_tree := t\<rparr>;
     let (p, ok) = page_bump_try_extend (fh_pages h) prev_rd_tree (wadd prev_rd_tree (wmul prev_count 8)) page_size;
     let h = h\<lparr>fh_pages := p\<rparr>;
     if \<not> ok then do {
       ensure (prev_rd_tree AND wsub page_size 1 = 0);
       let prev_size = align_down (wsub (wadd (wmul prev_count 8) page_size) 1) page_size;
       Some (h, Some (prev_rd_tree, prev_size)) }
     else Some (h, None) }"

text \<open>\<open>MetaBumpAlloc\<close> and \<open>RustAllocator\<close> pass on.\<close>

definition meta_init_with_range :: "nat \<Rightarrow> nat \<Rightarrow> int list \<Rightarrow> fixed_heap \<Rightarrow> nat \<Rightarrow> nat \<Rightarrow> nat \<Rightarrow> fixed_heap option" where
  "meta_init_with_range tsz zsz words h start fin page_size = sc_init_with_range tsz zsz words h start fin page_size"

definition meta_extend :: "fixed_heap \<Rightarrow> nat \<Rightarrow> nat \<Rightarrow> nat \<times> int list \<Rightarrow> (fixed_heap \<times> (nat \<times> nat) option) option" where
  "meta_extend h sz page_size arr = sc_extend h sz page_size arr"

definition rust_init :: "nat \<Rightarrow> nat \<Rightarrow> int list \<Rightarrow> fixed_heap \<Rightarrow> nat \<Rightarrow> nat \<Rightarrow> nat \<Rightarrow> fixed_heap option" where
  "rust_init tsz zsz words h heap_start heap_size page_size =
     meta_init_with_range tsz zsz words h heap_start (wadd heap_size heap_start) page_size"

definition rust_extend :: "fixed_heap \<Rightarrow> nat \<Rightarrow> nat \<Rightarrow> nat \<times> int list \<Rightarrow> (fixed_heap \<times> (nat \<times> nat) option) option" where
  "rust_extend h sz page_size arr = meta_extend h sz page_size arr"

section \<open>Initialisation\<close>

text \<open>The size of the metadata of \<open>n\<close> pages, and the end of the pages that hold it.\<close>

definition meta_bytes :: "nat \<Rightarrow> nat \<Rightarrow> nat \<Rightarrow> nat" where
  "meta_bytes tsz zsz n = n * 48 + tsz + zsz"

definition meta_top :: "nat \<Rightarrow> nat \<Rightarrow> nat \<Rightarrow> nat \<Rightarrow> nat \<Rightarrow> nat" where
  "meta_top tsz zsz start n page_size = start + page_size * ((meta_bytes tsz zsz n + page_size - 1) div page_size)"

lemma page_round_bounds:
  fixes ps :: nat
  assumes "0 < ps"
  shows "x \<le> ps * ((x + ps - 1) div ps)" and "ps * ((x + ps - 1) div ps) < x + ps"
proof -
  have "ps * ((x + ps - 1) div ps) + (x + ps - 1) mod ps = x + ps - 1" by (rule mult_div_mod_eq)
  moreover have "(x + ps - 1) mod ps < ps" using assms by simp
  ultimately show "x \<le> ps * ((x + ps - 1) div ps)" and "ps * ((x + ps - 1) div ps) < x + ps"
    using assms by linarith+
qed

lemma fixed_take_run:
  assumes "mb_start (fh_meta h) < mb_current (fh_meta h)" and "mb_current (fh_meta h) - mb_start (fh_meta h) \<le> MB_DEFAULT_SIZE"
    and "sz \<le> mb_current (fh_meta h)" and "mb_current (fh_meta h) < 2 ^ 64"
  shows "fixed_take h sz = Some (h\<lparr>fh_meta := (fh_meta h)\<lparr>mb_current := mb_current (fh_meta h) - sz\<rparr>\<rparr>, mb_current (fh_meta h) - sz)"
  using assms by (simp add: fixed_take_def sc_bump_alloc_fixed_def Let_def)

text \<open>The heap after a successful initialisation.\<close>

definition fixed_laid_out :: "nat \<Rightarrow> nat \<Rightarrow> int list \<Rightarrow> fixed_heap \<Rightarrow> nat \<Rightarrow> nat \<Rightarrow> nat \<Rightarrow> nat \<Rightarrow> fixed_heap" where
  "fixed_laid_out tsz zsz words h start fin n mtop = \<lparr>
     fh_meta = (fh_meta h)\<lparr>mb_start := start, mb_current := mtop - tsz - zsz - n * 40 - n * 8\<rparr>,
     fh_bump = \<lparr>check_point = fin, bcurrent = mtop\<rparr>,
     fh_pages = \<lparr>pb_start = mtop - tsz - zsz - n * 40, pb_current = mtop - tsz - zsz\<rparr>,
     fh_tree = (fh_tree h)\<lparr>an_base := start, an_nodes := Some (mtop - tsz - zsz - n * 40 - n * 8, words)\<rparr>,
     fh_placed = fh_placed h @ [(mtop - tsz, New_thread_cache), (mtop - tsz - zsz, New_zone)]\<rparr>"

lemma fixed_init_run:
  assumes n: "n = (fin - start) div page_size" and ps: "0 < page_size" "page_size < 2 ^ 32" and rng: "start \<le> fin" "fin < 2 ^ 48"
    and sz: "0 < tsz" "0 < zsz" "tsz < 2 ^ 32" "zsz < 2 ^ 32"
    and mtop: "mtop = meta_top tsz zsz start n page_size" "mtop - start \<le> MB_DEFAULT_SIZE" and n0: "0 < n"
  shows "sc_init_with_range tsz zsz words h start fin page_size = Some (fixed_laid_out tsz zsz words h start fin n mtop)"
proof -
  have nb: "n < 2 ^ 48" using n rng div_le_dividend [of "fin - start" page_size] by linarith
  have small: "wsub fin start = fin - start" "wmul n 48 = n * 48" "wadd (n * 48) tsz = n * 48 + tsz"
    "wadd (n * 48 + tsz) zsz = meta_bytes tsz zsz n" "wmul n 40 = n * 40" "wmul n 8 = n * 8"
    using rng nb sz by (simp_all add: meta_bytes_def)
  define mp where "mp = (meta_bytes tsz zsz n + page_size - 1) div page_size"
  have mb: "meta_bytes tsz zsz n < 2 ^ 54" using nb sz by (simp add: meta_bytes_def)
  have mp: "wsub (wadd (meta_bytes tsz zsz n) page_size) 1 div page_size = mp"
    using mb ps by (simp add: mp_def)
  have pm: "page_size * mp = mtop - start" "start \<le> mtop" using mtop by (simp_all add: meta_top_def mp_def)
  have le: "meta_bytes tsz zsz n \<le> mtop - start" using page_round_bounds(1) [OF ps(1), of "meta_bytes tsz zsz n"] pm by (simp add: mp_def)
  have tb: "mtop < 2 ^ 49" using mtop(2) pm(2) rng by (simp add: MB_DEFAULT_SIZE_def)
  have te: "wmul page_size mp = mtop - start" "wadd start (mtop - start) = mtop"
    using pm tb by (simp_all add: wmul_def)
  have room: "n * 48 + tsz + zsz \<le> mtop - start" using le by (simp add: meta_bytes_def)
  have tk: "fixed_take h' x = Some (h'\<lparr>fh_meta := (fh_meta h')\<lparr>mb_current := mb_current (fh_meta h') - x\<rparr>\<rparr>, mb_current (fh_meta h') - x)"
    if "mb_start (fh_meta h') = start" "start < mb_current (fh_meta h')" "mb_current (fh_meta h') \<le> mtop" "x \<le> mb_current (fh_meta h')" for h' x
    using that mtop(2) tb by (intro fixed_take_run) auto
  define c1 c2 c3 c4 where "c1 = mtop - tsz" and "c2 = mtop - tsz - zsz" and "c3 = mtop - tsz - zsz - n * 40"
    and "c4 = mtop - tsz - zsz - n * 40 - n * 8"
  have c: "start < c1" "start < c2" "start < c3" "c1 \<le> mtop" "c2 \<le> c1" "c3 \<le> c2" "mtop - tsz = c1" "c1 - zsz = c2"
      "c2 - n * 40 = c3" "c3 - n * 8 = c4" "tsz \<le> mtop" "zsz \<le> c1" "n * 40 \<le> c2" "n * 8 \<le> c3" "start < mtop"
    using room n0 sz by (simp_all add: c1_def c2_def c3_def c4_def)
  define h1 where "h1 = h\<lparr>fh_meta := (fh_meta h)\<lparr>mb_start := start, mb_current := mtop\<rparr>,
    fh_bump := \<lparr>check_point = fin, bcurrent = mtop\<rparr>\<rparr>"
  define h2 where "h2 = h1\<lparr>fh_meta := (fh_meta h1)\<lparr>mb_current := c1\<rparr>, fh_placed := fh_placed h1 @ [(c1, New_thread_cache)]\<rparr>"
  define h3 where "h3 = h2\<lparr>fh_meta := (fh_meta h2)\<lparr>mb_current := c2\<rparr>, fh_placed := fh_placed h2 @ [(c2, New_zone)]\<rparr>"
  define h4 where "h4 = h3\<lparr>fh_meta := (fh_meta h3)\<lparr>mb_current := c3\<rparr>, fh_pages := \<lparr>pb_start = c3, pb_current = c2\<rparr>\<rparr>"
  have s: "mb_start (fh_meta h1) = start" "mb_start (fh_meta h2) = start" "mb_start (fh_meta h3) = start" "mb_start (fh_meta h4) = start"
    "mb_current (fh_meta h1) = mtop" "mb_current (fh_meta h2) = c1" "mb_current (fh_meta h3) = c2" "mb_current (fh_meta h4) = c3"
    by (simp_all add: h1_def h2_def h3_def h4_def)
  have t: "fixed_take h1 tsz = Some (h1\<lparr>fh_meta := (fh_meta h1)\<lparr>mb_current := c1\<rparr>\<rparr>, c1)"
    "fixed_take h2 zsz = Some (h2\<lparr>fh_meta := (fh_meta h2)\<lparr>mb_current := c2\<rparr>\<rparr>, c2)"
    "fixed_take h3 (n * 40) = Some (h3\<lparr>fh_meta := (fh_meta h3)\<lparr>mb_current := c3\<rparr>\<rparr>, c3)"
    "fixed_take h4 (n * 8) = Some (h4\<lparr>fh_meta := (fh_meta h4)\<lparr>mb_current := c4\<rparr>\<rparr>, c4)"
    using tk [of h1 tsz] tk [of h2 zsz] tk [of h3 "n * 40"] tk [of h4 "n * 8"] c s by simp_all
  have d: "h\<lparr>fh_meta := (fh_meta h)\<lparr>mb_start := start, mb_current := mtop\<rparr>, fh_bump := \<lparr>check_point = fin, bcurrent = mtop\<rparr>\<rparr> = h1"
    "h1\<lparr>fh_meta := (fh_meta h1)\<lparr>mb_current := c1\<rparr>, fh_placed := fh_placed h1 @ [(c1, New_thread_cache)]\<rparr> = h2"
    "h2\<lparr>fh_meta := (fh_meta h2)\<lparr>mb_current := c2\<rparr>, fh_placed := fh_placed h2 @ [(c2, New_zone)]\<rparr> = h3"
    "h3\<lparr>fh_meta := (fh_meta h3)\<lparr>mb_current := c3\<rparr>, fh_pages := \<lparr>pb_start = c3, pb_current = c2\<rparr>\<rparr> = h4"
    by (simp_all only: h1_def h2_def h3_def h4_def)
  have "sc_init_with_range tsz zsz words h start fin page_size =
      Some (h4\<lparr>fh_meta := (fh_meta h4)\<lparr>mb_current := c4\<rparr>, fh_tree := (fh_tree h4)\<lparr>an_base := start, an_nodes := Some (c4, words)\<rparr>\<rparr>)"
    using ps(1)
    by (simp del: One_nat_def add: sc_init_with_range_def small mp te n [symmetric] OBJECT_PAGE_BYTES_def Let_def bump_init_with_range_def
        page_bump_init_with_range_def array_init_with_range_def t d s)
  also have "\<dots> = Some (fixed_laid_out tsz zsz words h start fin n mtop)"
    by (simp add: fixed_laid_out_def h1_def h2_def h3_def h4_def c1_def c2_def c3_def c4_def)
  finally show ?thesis .
qed


text \<open>The ranges that the parts of the heap own: the words of the array, the headers, the zone, the thread cache, the pages of
  the backend, and what is left for metadata.\<close>

definition fixed_ranges :: "nat \<Rightarrow> nat \<Rightarrow> nat \<Rightarrow> fixed_heap \<Rightarrow> (nat \<times> nat) list" where
  "fixed_ranges tsz zsz n h =
     [(mb_start (fh_meta h), mb_current (fh_meta h) - mb_start (fh_meta h)),
      (fst (the (an_nodes (fh_tree h))), n * 8),
      (pb_start (fh_pages h), pb_current (fh_pages h) - pb_start (fh_pages h))] @
     map (\<lambda>(p, k). (p, case k of New_thread_cache \<Rightarrow> tsz | New_zone \<Rightarrow> zsz)) (fh_placed h) @
     [(bcurrent (fh_bump h), check_point (fh_bump h) - bcurrent (fh_bump h))]"

text \<open>C36: When the metadata of a fixed heap fits in the heap and in 64 MiB, initialising the heap succeeds and divides it: the
  words of the page map, one for each page, the slab headers, one for each page, the zone, the thread cache, the pages of
  the backend and what is left for metadata lie in the heap and do not overlap.\<close>

theorem fixed_init_divides_the_heap:
  assumes n: "n = heap_size div page_size" "0 < n" and ps: "0 < page_size" "page_size < 2 ^ 32" and rng: "start + heap_size < 2 ^ 48"
    and sz: "0 < tsz" "0 < zsz" "tsz < 2 ^ 32" "zsz < 2 ^ 32"
    and meta: "meta_top tsz zsz start n page_size \<le> start + heap_size" "meta_top tsz zsz start n page_size - start \<le> MB_DEFAULT_SIZE"
  shows "\<exists>h. rust_init tsz zsz words fixed_heap_new start heap_size page_size = Some h \<and>
    sorted_wrt apart (fixed_ranges tsz zsz n h) \<and> (\<forall>r \<in> set (fixed_ranges tsz zsz n h). within r (start, heap_size)) \<and>
    pb_current (fh_pages h) = pb_start (fh_pages h) + n * 40 \<and> an_base (fh_tree h) = start"
proof -
  define m where "m = meta_top tsz zsz start n page_size"
  have w: "wadd heap_size start = start + heap_size" using rng by simp
  have run: "sc_init_with_range tsz zsz words fixed_heap_new start (start + heap_size) page_size =
      Some (fixed_laid_out tsz zsz words fixed_heap_new start (start + heap_size) n m)"
    using n ps rng sz meta(2) by (intro fixed_init_run) (simp_all add: m_def)
  have "start \<le> m" "meta_bytes tsz zsz n \<le> m - start"
    using page_round_bounds(1) [OF ps(1), of "meta_bytes tsz zsz n"] by (simp_all add: m_def meta_top_def)
  then have room: "start + n * 8 + n * 40 + tsz + zsz \<le> m" "m \<le> start + heap_size"
    using meta(1) by (simp_all add: meta_bytes_def m_def)
  define c2 c3 c4 where "c2 = m - tsz - zsz" and "c3 = c2 - n * 40" and "c4 = c3 - n * 8"
  have c: "m = c4 + n * 8 + n * 40 + zsz + tsz" "c3 = c4 + n * 8" "c2 = c4 + n * 8 + n * 40" "start \<le> c4" "m - tsz = c2 + zsz"
    using room by (simp_all add: c2_def c3_def c4_def)
  show ?thesis
    using run room(2) sz n(2) c(4)
    by (simp add: rust_init_def meta_init_with_range_def w fixed_ranges_def fixed_laid_out_def fixed_heap_new_def apart_def within_def
        flip: c2_def c3_def c4_def) (simp add: c(1,2,3))
qed


text \<open>A heap whose metadata takes more than 64 MiB cannot be initialised, however much room it has: the metadata allocator
  takes a chunk larger than its default size for a spent one, and \<open>init\<close> panics on its first request.\<close>

theorem fixed_init_large_panics:
  assumes n: "n = heap_size div page_size" and ps: "0 < page_size" "page_size < 2 ^ 32" and rng: "start + heap_size < 2 ^ 48"
    and sz: "tsz < 2 ^ 32" "zsz < 2 ^ 32" and meta: "MB_DEFAULT_SIZE < meta_top tsz zsz start n page_size - start"
  shows "rust_init tsz zsz words fixed_heap_new start heap_size page_size = None"
proof -
  have w: "wadd heap_size start = start + heap_size" "wsub (start + heap_size) start = heap_size" using rng by simp_all
  have nb: "n < 2 ^ 48" using n rng div_le_dividend [of heap_size page_size] by linarith
  have small: "wmul n 48 = n * 48" "wadd (n * 48) tsz = n * 48 + tsz" "wadd (n * 48 + tsz) zsz = meta_bytes tsz zsz n"
    using nb sz by (simp_all add: meta_bytes_def)
  define mp where "mp = (meta_bytes tsz zsz n + page_size - 1) div page_size"
  have mb: "meta_bytes tsz zsz n < 2 ^ 54" using nb sz by (simp add: meta_bytes_def)
  have mp: "wsub (wadd (meta_bytes tsz zsz n) page_size) 1 div page_size = mp"
    using mb ps by (simp add: mp_def)
  have "page_size * mp < 2 ^ 55"
    using page_round_bounds(2) [OF ps(1), of "meta_bytes tsz zsz n"] mb ps(2) by (simp add: mp_def)
  then have te: "wadd start (wmul page_size mp) = start + page_size * mp" using rng by simp
  have big: "MB_DEFAULT_SIZE < page_size * mp" using meta by (simp add: meta_top_def mp_def)
  show ?thesis
    using ps(1) big
    by (simp del: One_nat_def add: rust_init_def meta_init_with_range_def sc_init_with_range_def w small mp te n [symmetric]
        OBJECT_PAGE_BYTES_def Let_def fixed_take_def sc_bump_alloc_fixed_def)
qed

section \<open>Extension\<close>

text \<open>C40: The first extension of a fixed heap gives the words of the old page map to the allocator of headers and rounds the
  start down to a page: what was left of the metadata below these words then belongs to two allocators. A request for
  metadata that fits there is answered with memory in the chunk of the headers.\<close>

theorem fixed_extend_shares_metadata:
  assumes n: "n = heap_size div page_size" "0 < n" and ps: "is_pow2 page_size" "page_size < 2 ^ 32" and rng: "start + heap_size + ext < 2 ^ 48"
    and sz: "0 < tsz" "0 < zsz" "tsz < 2 ^ 32" "zsz < 2 ^ 32"
    and meta: "meta_top tsz zsz start n page_size \<le> start + heap_size" "meta_top tsz zsz start n page_size - start \<le> MB_DEFAULT_SIZE"
    and words: "length words = n" "n \<le> length ws" and start: "page_size dvd start"
    and init: "rust_init tsz zsz words fixed_heap_new start heap_size page_size = Some h"
    and req: "0 < x" "x \<le> mb_current (fh_meta h) - start"
  shows "\<exists>h' m p. rust_extend h ext page_size (arr, ws) = Some (h', None) \<and> sc_bump_alloc_fixed (fh_meta h') x = (m, Inr p) \<and>
    within (p, x) (pb_start (fh_pages h'), pb_current (fh_pages h') - pb_start (fh_pages h'))"
proof -
  define m where "m = meta_top tsz zsz start n page_size"
  have ps0: "0 < page_size" by (rule is_pow2_pos [OF ps(1)])
  have w: "wadd heap_size start = start + heap_size" using rng by simp
  have "sc_init_with_range tsz zsz words fixed_heap_new start (start + heap_size) page_size =
      Some (fixed_laid_out tsz zsz words fixed_heap_new start (start + heap_size) n m)"
    using n ps ps0 rng sz meta(2) by (intro fixed_init_run) (simp_all add: m_def)
  then have h: "h = fixed_laid_out tsz zsz words fixed_heap_new start (start + heap_size) n m"
    using init by (simp add: rust_init_def meta_init_with_range_def w)
  have mm: "start \<le> m" "meta_bytes tsz zsz n \<le> m - start" "m - start < meta_bytes tsz zsz n + page_size"
    using page_round_bounds [OF ps0, of "meta_bytes tsz zsz n"] by (simp_all add: m_def meta_top_def)
  define c where "c = m - tsz - zsz - n * 40 - n * 8"
  have c: "m - tsz - zsz - n * 40 = c + n * 8" "m - tsz - zsz = c + n * 8 + n * 40" "start \<le> c" "c - start < page_size" "m < 2 ^ 49"
    using mm meta rng by (simp_all add: c_def meta_bytes_def m_def)
  have down: "align_down c page_size = start"
  proof -
    obtain q where q: "start = page_size * q" using start by (auto simp: dvd_def)
    have "c div page_size = q" using c(3,4) q ps0 by (intro div_nat_eqI) (simp_all add: algebra_simps)
    then show ?thesis using align_down_eq [OF ps(1), of c] q by (simp add: mult.commute)
  qed
  have cnt: "wadd (start + heap_size) ext = start + heap_size + ext" "wsub (start + heap_size + ext) ext = start + heap_size"
      "wsub (start + heap_size) start = heap_size" "heap_size div page_size = n" using rng n by simp_all
  have hm: "mb_start (fh_meta h) = start" "mb_current (fh_meta h) = c" "fh_bump h = \<lparr>check_point = start + heap_size, bcurrent = m\<rparr>"
      "fh_pages h = \<lparr>pb_start = c + n * 8, pb_current = c + n * 8 + n * 40\<rparr>" "an_base (fh_tree h) = start"
      "an_nodes (fh_tree h) = Some (c, words)"
    using c(1,2) by (simp_all add: h fixed_laid_out_def c_def)
  have nb: "wmul n 8 = n * 8" "wadd c (n * 8) = c + n * 8" using c(1,2,5) mm(1) by (simp_all add: c_def)
  define h' where "h' = h\<lparr>fh_bump := \<lparr>check_point = start + heap_size + ext, bcurrent = m\<rparr>,
    fh_tree := (fh_tree h)\<lparr>an_nodes := Some (arr, words @ drop n ws)\<rparr>, fh_pages := (fh_pages h)\<lparr>pb_start := start\<rparr>\<rparr>"
  have "rust_extend h ext page_size (arr, ws) = Some (h', None)"
    using ps0 words
    by (simp add: rust_extend_def meta_extend_def sc_extend_def bump_extend_with_range_def Let_def hm cnt nb down
        array_extend_with_range_def page_bump_try_extend_def h'_def)
  moreover have "sc_bump_alloc_fixed (fh_meta h') x = ((fh_meta h')\<lparr>mb_current := c - x\<rparr>, Inr (c - x))"
  proof -
    have "start < c" "c - start \<le> MB_DEFAULT_SIZE" "x \<le> c" "c < 2 ^ 49"
      using req c(3,4,5) hm(2) meta(2) mm(1) by (simp_all add: c_def m_def)
    then show ?thesis by (simp add: h'_def hm(1,2) sc_bump_alloc_fixed_def Let_def)
  qed
  moreover have "within (c - x, x) (pb_start (fh_pages h'), pb_current (fh_pages h') - pb_start (fh_pages h'))"
    using req c(3) by (simp add: h'_def hm within_def)
  ultimately show ?thesis by blast
qed


section \<open>An example\<close>

lemma fixed_init_divides_the_heap_witness:
  "\<exists>h. rust_init 2048 30000 (replicate 1024 0) fixed_heap_new 0x100000 0x400000 4096 = Some h \<and>
    sorted_wrt apart (fixed_ranges 2048 30000 1024 h) \<and>
    (\<forall>r \<in> set (fixed_ranges 2048 30000 1024 h). within r (0x100000, 0x400000)) \<and>
    pb_current (fh_pages h) = pb_start (fh_pages h) + 1024 * 40 \<and> an_base (fh_tree h) = 0x100000"
  by (rule fixed_init_divides_the_heap) (simp_all add: meta_top_def meta_bytes_def MB_DEFAULT_SIZE_def)

lemma fixed_init_large_panics_witness:
  "rust_init 2048 30000 [] fixed_heap_new 0x100000 0x180000000 4096 = None"
proof -
  have "meta_bytes 2048 30000 1572864 = 75529520"
    by (simp add: meta_bytes_def)
  then show ?thesis
    by (intro fixed_init_large_panics [of 1572864]) (simp_all add: meta_top_def MB_DEFAULT_SIZE_def)
qed

lemma fixed_extend_shares_metadata_witness:
  "\<exists>h h' m p. rust_init 2048 30000 (replicate 1024 0) fixed_heap_new 0x100000 0x400000 4096 = Some h \<and>
    rust_extend h 0x1000 4096 (0x300000, replicate 1025 0) = Some (h', None) \<and>
    sc_bump_alloc_fixed (fh_meta h') 512 = (m, Inr p) \<and>
    within (p, 512) (pb_start (fh_pages h'), pb_current (fh_pages h') - pb_start (fh_pages h'))"
proof -
  let ?h = "fixed_laid_out 2048 30000 (replicate 1024 0) fixed_heap_new 0x100000 0x500000 1024 (meta_top 2048 30000 0x100000 1024 4096)"
  have init: "rust_init 2048 30000 (replicate 1024 0) fixed_heap_new 0x100000 0x400000 4096 = Some ?h"
    using fixed_init_run [of 1024 "0x500000" "0x100000" 4096 2048 30000 "meta_top 2048 30000 0x100000 1024 4096" "replicate 1024 0" fixed_heap_new]
    by (simp add: rust_init_def meta_init_with_range_def meta_top_def meta_bytes_def MB_DEFAULT_SIZE_def)
  have "\<exists>h' m p. rust_extend ?h 0x1000 4096 (0x300000, replicate 1025 0) = Some (h', None) \<and>
      sc_bump_alloc_fixed (fh_meta h') 512 = (m, Inr p) \<and>
      within (p, 512) (pb_start (fh_pages h'), pb_current (fh_pages h') - pb_start (fh_pages h'))"
  proof (rule fixed_extend_shares_metadata [OF _ _ _ _ _ _ _ _ _ _ _ _ _ _ init, where n = 1024])
    show "is_pow2 (4096 :: nat)" using is_pow2_power [of 12] by simp
  qed (simp_all add: meta_top_def meta_bytes_def MB_DEFAULT_SIZE_def fixed_laid_out_def)
  then show ?thesis using init by blast
qed

end
