(* ===== verification/Platform.thy ===== *)
theory Platform
  imports Threads FixedHeap
begin

text \<open>
  The thin layer between the allocator and the machine: memory of whole mappings (\<open>pal/sys_alloc.rs\<close>,
  \<open>collections/radix_tree_128.rs\<close>), two kernels without \<open>mmap\<close>, the thread-local statics of Windows (\<open>pal/sync.rs\<close>), pointer
  authentication (\<open>pal/arch/pac.rs\<close>), printing (\<open>pal/arch/print.rs\<close>) and the statics of a heap of fixed size (\<open>zone.rs\<close>,
  \<open>cache/thread_cache.rs\<close>). Instructions of the processor are parameters.
\<close>

section \<open>Whole mappings\<close>

text \<open>\<open>PageHeapBuilder\<close> has the fields of the heap that it builds.\<close>

definition page_heap_build :: "page_heap \<Rightarrow> page_heap" where
  "page_heap_build b = \<lparr>ph_read = ph_read b, ph_write = ph_write b, ph_exec = ph_exec b\<rparr>"

text \<open>Only a null pointer is taken for a failure.\<close>

definition page_heap_allocate :: "machine \<Rightarrow> page_heap \<Rightarrow> layout \<Rightarrow> (machine \<times> (alloc_error + nat \<times> nat)) option" where
  "page_heap_allocate m h l = do {
     let (m, ptr) = os_mmap m (lsize l);
     ensure (ptr \<noteq> 0);
     Some (m, Inr (ptr, lsize l)) }"

definition page_heap_deallocate :: "machine \<Rightarrow> nat \<Rightarrow> layout \<Rightarrow> machine" where
  "page_heap_deallocate m ptr l = os_munmap m ptr (lsize l)"

definition rd128_allocate :: "machine \<Rightarrow> layout \<Rightarrow> (machine \<times> (alloc_error + nat \<times> nat)) option" where
  "rd128_allocate m l = do {
     let (m, ptr) = os_mmap m (lsize l);
     let ptr = (if ptr = usize_max then 0 else ptr);
     ensure (ptr \<noteq> 0);
     Some (m, Inr (ptr, lsize l)) }"

definition rd128_deallocate :: "machine \<Rightarrow> nat \<Rightarrow> layout \<Rightarrow> machine" where
  "rd128_deallocate m ptr l = os_munmap m ptr (lsize l)"

text \<open>The operating system has no memory left.\<close>

definition out_of_memory :: "machine \<Rightarrow> bool" where
  "out_of_memory m \<longleftrightarrow> (case answers m of [] \<Rightarrow> True | p # ps \<Rightarrow> p = usize_max)"

text \<open>With memory left, \<open>PageHeap\<close> and \<open>RdTree128Alloc\<close> give the same fresh mapping of the size asked for. Without, the
  allocator of the large tree panics, as its comment wants, but the page heap reports success, with the failure value of
  \<open>mmap\<close> as the memory.\<close>

theorem page_heap_hides_failure:
  assumes "0 \<notin> set (answers m)"
  shows "(\<not> out_of_memory m \<longrightarrow> (\<exists>m' p. page_heap_allocate m h l = Some (m', Inr (p, lsize l))
      \<and> rd128_allocate m l = Some (m', Inr (p, lsize l)) \<and> mapped m' = (p, lsize l) # mapped m
      \<and> page_heap_deallocate m' p l = rd128_deallocate m' p l \<and> unmapped (page_heap_deallocate m' p l) = (p, lsize l) # unmapped m))
    \<and> (out_of_memory m \<longrightarrow> rd128_allocate m l = None
      \<and> (\<exists>m'. page_heap_allocate m h l = Some (m', Inr (usize_max, lsize l)) \<and> mapped m' = mapped m))"
proof (cases "answers m")
  case Nil
  then show ?thesis
    by (simp add: out_of_memory_def page_heap_allocate_def rd128_allocate_def os_mmap_def usize_max_def ensure_def)
next
  case (Cons p ps)
  then show ?thesis using assms
    by (auto simp: out_of_memory_def page_heap_allocate_def rd128_allocate_def page_heap_deallocate_def rd128_deallocate_def
        os_mmap_def os_munmap_def ensure_def usize_max_def)
qed

theorem page_heap_hides_failure_witness:
  "\<exists>m m'. page_heap_allocate m (page_heap_build page_heap_default) \<lparr>lsize = 4096, lalign = 8\<rparr> = Some (m', Inr (usize_max, 4096))"
proof -
  let ?m = "\<lparr>mem = \<lambda>_. 0, answers = [], mapped = [], unmapped = []\<rparr>"
  have "out_of_memory ?m" "0 \<notin> set (answers ?m)" by (simp_all add: out_of_memory_def)
  then show ?thesis using page_heap_hides_failure [of ?m "page_heap_build page_heap_default" "\<lparr>lsize = 4096, lalign = 8\<rparr>"] by fastforce
qed

section \<open>Kernels without mmap\<close>

definition blog_os_mmap :: "nat \<Rightarrow> nat option" where
  "blog_os_mmap req = do { ensure (req \<le> 100 * 1024); Some 0x444444440000 }"

definition PML4_SIZE :: nat where "PML4_SIZE = 0x0000008000000000"
definition PML4_MASK :: nat where "PML4_MASK = 0x0000ff8000000000"
definition RECURSIVE_PAGE_OFFSET :: nat where "RECURSIVE_PAGE_OFFSET = wsub 0 PML4_SIZE"
definition RECURSIVE_PAGE_PML4 :: nat where "RECURSIVE_PAGE_PML4 = (RECURSIVE_PAGE_OFFSET AND PML4_MASK) div PML4_SIZE"
definition KERNEL_OFFSET :: nat where "KERNEL_OFFSET = 0xFFFF800000000000"
definition KERNEL_PML4 :: nat where "KERNEL_PML4 = (KERNEL_OFFSET AND PML4_MASK) div PML4_SIZE"
definition KERNEL_HEAP_OFFSET :: nat where "KERNEL_HEAP_OFFSET = RECURSIVE_PAGE_OFFSET - PML4_SIZE"
definition KERNEL_HEAP_PML4 :: nat where "KERNEL_HEAP_PML4 = (KERNEL_HEAP_OFFSET AND PML4_MASK) div PML4_SIZE"
definition KERNEL_HEAP_SIZE :: nat where "KERNEL_HEAP_SIZE = 1024 * 1024"

definition redox_mmap :: "nat \<Rightarrow> nat option" where
  "redox_mmap req = do { ensure (req \<le> KERNEL_HEAP_SIZE); Some KERNEL_HEAP_OFFSET }"

text \<open>The constants are entries 511, 256 and 510 of the top page table.\<close>

lemma kernel_pml4: "RECURSIVE_PAGE_PML4 = 511" "KERNEL_PML4 = 256" "KERNEL_HEAP_PML4 = 510"
  by (simp_all add: RECURSIVE_PAGE_PML4_def KERNEL_PML4_def KERNEL_HEAP_PML4_def KERNEL_HEAP_OFFSET_def KERNEL_OFFSET_def
      RECURSIVE_PAGE_OFFSET_def PML4_SIZE_def PML4_MASK_def wsub_def)

text \<open>Both give the same memory to every request; neither has room for the radix tree, a node of which takes 2 MiB.\<close>

lemma kernel_mmap_again:
  "blog_os_mmap r = Some p \<Longrightarrow> blog_os_mmap r' = Some p' \<Longrightarrow> p = p'" "redox_mmap r = Some p \<Longrightarrow> redox_mmap r' = Some p' \<Longrightarrow> p = p'"
  by (auto simp: blog_os_mmap_def redox_mmap_def split: if_splits)

lemma kernel_mmap_no_tree: "blog_os_mmap (2 ^ 21) = None" "redox_mmap (2 ^ 21) = None"
  by (simp_all add: blog_os_mmap_def redox_mmap_def KERNEL_HEAP_SIZE_def ensure_def)

section \<open>Thread-local statics on Windows\<close>

text \<open>\<open>tc\<close> is the thread-local \<open>TCACHE\<close> of each thread.\<close>

definition win_save_tls :: "process \<Rightarrow> (nat \<Rightarrow> nat) \<Rightarrow> nat \<Rightarrow> nat \<Rightarrow> process \<times> (nat \<Rightarrow> nat)" where
  "win_save_tls P tc t ptr = (P\<lparr>saved := (saved P)(t := (saved P t)(pkey P := tc t))\<rparr>, tc(t := ptr))"

text \<open>On Windows \<open>save_tls\<close> stores the pointer it was given before, which on the only call of a thread is null: the end of the
  thread gives nothing back. With \<open>save_tls\<close> of Unix the end of the thread runs the destructor on the cache.\<close>

theorem windows_cache_not_released:
  assumes "ptr \<noteq> 0"
  shows "thread_exit (fst (win_save_tls P (\<lambda>_. 0) t ptr)) t = Some (fst (win_save_tls P (\<lambda>_. 0) t ptr))
    \<and> (\<forall>P'. thread_exit (save_tls P t ptr) t = Some P' \<longrightarrow>
        (\<exists>us z. free_thread_cache (caches P ptr) (p_zone P) ptr = Some (us, z) \<and> caches P' ptr = us \<and> p_zone P' = z))"
  using assms by (auto simp: thread_exit_def win_save_tls_def save_tls_def Let_def bind_eq_Some_conv)

theorem windows_cache_not_released_witness:
  "thread_exit (fst (win_save_tls (process_new 1 (boot_zone []) (\<lambda>_. 0)) (\<lambda>_. 0) 0 0x8003FFF800)) 0
     = Some (fst (win_save_tls (process_new 1 (boot_zone []) (\<lambda>_. 0)) (\<lambda>_. 0) 0 0x8003FFF800))"
  by (rule windows_cache_not_released [THEN conjunct1]) simp

section \<open>Pointer authentication\<close>

text \<open>The three instructions: signing a pointer for a context, authenticating it, and stripping its signature.\<close>

record pac_unit =
  pac_sign :: "nat \<Rightarrow> nat \<Rightarrow> nat"
  pac_auth :: "nat \<Rightarrow> nat \<Rightarrow> nat"
  pac_strip :: "nat \<Rightarrow> nat"

definition pacib :: "pac_unit \<Rightarrow> nat \<Rightarrow> nat \<Rightarrow> nat option" where
  "pacib U ptr context = do { ensure (ptr \<le> 2 ^ 40); Some (pac_sign U ptr context) }"

definition autib :: "pac_unit \<Rightarrow> nat \<Rightarrow> nat \<Rightarrow> nat" where
  "autib U ptr context = pac_auth U ptr context"

definition xpaci :: "pac_unit \<Rightarrow> nat \<Rightarrow> nat" where
  "xpaci U ptr = pac_strip U ptr"

definition strip_checked :: "pac_unit \<Rightarrow> nat \<Rightarrow> nat \<Rightarrow> nat option" where
  "strip_checked U ptr owner =
     (let unsigned = xpaci U ptr; auth_res = autib U ptr owner in if unsigned = auth_res then Some unsigned else None)"

text \<open>What the architecture documents: authentication gives the bare pointer for the right signature and an invalid pointer,
  never the bare one, for another.\<close>

definition pac_laws :: "pac_unit \<Rightarrow> bool" where
  "pac_laws U \<longleftrightarrow> (\<forall>p c. p \<le> 2 ^ 40 \<longrightarrow> pac_strip U (pac_sign U p c) = p)
     \<and> (\<forall>q c. pac_strip U q \<le> 2 ^ 40 \<longrightarrow> (pac_auth U q c = pac_strip U q \<longleftrightarrow> q = pac_sign U (pac_strip U q) c))"


text \<open>A unit whose signature is in the upper sixteen bits.\<close>

definition sum_unit :: pac_unit where
  "sum_unit = (let sign = (\<lambda>p c. p + 2 ^ 48 * ((p + c) mod 2 ^ 15)) in \<lparr>pac_sign = sign,
     pac_auth = (\<lambda>q c. if q = sign (q mod 2 ^ 48) c then q mod 2 ^ 48 else q mod 2 ^ 48 + 2 ^ 62), pac_strip = (\<lambda>q. q mod 2 ^ 48)\<rparr>)"


section \<open>Printing\<close>

text \<open>What has been written to the standard error, byte by byte. \<open>put_char\<close> writes the first byte of the word that holds the
  character, and ignores the answer of the system call.\<close>

definition put_char :: "nat list \<Rightarrow> nat \<Rightarrow> nat list" where
  "put_char out c = out @ [c mod 256]"

fun write_str :: "nat list \<Rightarrow> nat list \<Rightarrow> nat list" where
  "write_str out [] = out"
| "write_str out (c # cs) = write_str (put_char out c) cs"

text \<open>UTF-8.\<close>

definition utf8 :: "nat \<Rightarrow> nat list" where
  "utf8 c = (if c < 0x80 then [c]
     else if c < 0x800 then [0xC0 + c div 64, 0x80 + c mod 64]
     else if c < 0x10000 then [0xE0 + c div 4096, 0x80 + c div 64 mod 64, 0x80 + c mod 64]
     else [0xF0 + c div 262144, 0x80 + c div 4096 mod 64, 0x80 + c div 64 mod 64, 0x80 + c mod 64])"

lemma write_str_bytes: "write_str out s = out @ map (\<lambda>c. c mod 256) s"
  by (induction s arbitrary: out) (simp_all add: put_char_def)

lemma utf8_length: "length (concat (map utf8 s)) = length s \<longleftrightarrow> (\<forall>c \<in> set s. c < 0x80)" "length s \<le> length (concat (map utf8 s))"
  by (induction s) (auto simp: utf8_def)

text \<open>A string is printed as its UTF-8 exactly when it is ASCII.\<close>

theorem print_is_utf8_iff_ascii: "write_str out s = out @ concat (map utf8 s) \<longleftrightarrow> (\<forall>c \<in> set s. c < 0x80)"
proof
  assume "write_str out s = out @ concat (map utf8 s)"
  then have "length (map (\<lambda>c. c mod 256) s) = length (concat (map utf8 s))" by (simp add: write_str_bytes)
  then show "\<forall>c \<in> set s. c < 0x80" using utf8_length(1) [of s] by simp
next
  show "\<forall>c \<in> set s. c < 0x80 \<Longrightarrow> write_str out s = out @ concat (map utf8 s)"
    by (induction s arbitrary: out) (auto simp: write_str_bytes utf8_def)
qed

section \<open>Statics of a heap of fixed size\<close>

text \<open>\<open>GlobalTcache_ptr\<close> and \<open>GLOBAL_ZONE_ptr\<close>: what \<open>init\<close> placed last, null before.\<close>

definition fixed_ptr :: "fixed_heap \<Rightarrow> placed \<Rightarrow> nat" where
  "fixed_ptr h x = (case find (\<lambda>(p, y). y = x) (rev (fh_placed h)) of Some (p, y) \<Rightarrow> p | None \<Rightarrow> 0)"

definition fixed_deref :: "fixed_heap \<Rightarrow> placed \<Rightarrow> nat option" where
  "fixed_deref h x = do { ensure (fixed_ptr h x \<noteq> 0); Some (fixed_ptr h x) }"

definition fixed_tcache_deref :: "fixed_heap \<Rightarrow> nat option" where
  "fixed_tcache_deref h = fixed_deref h New_thread_cache"

definition fixed_zone_deref :: "fixed_heap \<Rightarrow> nat option" where
  "fixed_zone_deref h = fixed_deref h New_zone"

lemma fixed_deref_before_init: "fixed_tcache_deref fixed_heap_new = None" "fixed_zone_deref fixed_heap_new = None"
  by (simp_all add: fixed_tcache_deref_def fixed_zone_deref_def fixed_deref_def fixed_ptr_def fixed_heap_new_def ensure_def)

lemma fixed_deref_after_init:
  assumes "n = (fin - start) div page_size" "0 < page_size" "page_size < 2 ^ 32" "start \<le> fin" "fin < 2 ^ 48"
    and "0 < tsz" "0 < zsz" "tsz < 2 ^ 32" "zsz < 2 ^ 32" "0 < n"
    and m: "m = meta_top tsz zsz start n page_size" "m - start \<le> MB_DEFAULT_SIZE"
  shows "\<exists>h'. sc_init_with_range tsz zsz ws h start fin page_size = Some h' \<and> fixed_tcache_deref h' = Some (m - tsz)
    \<and> fixed_zone_deref h' = Some (m - tsz - zsz)"
proof -
  have "meta_bytes tsz zsz n \<le> m - start" "start \<le> m"
    using page_round_bounds(1) [of page_size "meta_bytes tsz zsz n"] assms(2) m(1) by (simp_all add: meta_top_def)
  then have "0 < m - tsz - zsz" using assms(10) by (simp add: meta_bytes_def)
  then have "fixed_tcache_deref (fixed_laid_out tsz zsz ws h start fin n m) = Some (m - tsz)"
    "fixed_zone_deref (fixed_laid_out tsz zsz ws h start fin n m) = Some (m - tsz - zsz)"
    by (simp_all add: fixed_tcache_deref_def fixed_zone_deref_def fixed_deref_def fixed_ptr_def fixed_laid_out_def ensure_def)
  then show ?thesis using fixed_init_run [OF assms(1-9) m assms(10), of ws h] by blast
qed

section \<open>Tags in the upper bits\<close>

definition get_upper_bits :: "nat \<Rightarrow> nat" where
  "get_upper_bits ptr = wshr ptr 48"

definition has_upper_bits :: "nat \<Rightarrow> bool" where
  "has_upper_bits ptr \<longleftrightarrow> wshr ptr 48 > 0"

text \<open>\<open>set_upper_bits\<close> computes the tagged pointer and drops it.\<close>

definition set_upper_bits :: "nat \<Rightarrow> nat \<Rightarrow> unit" where
  "set_upper_bits ptr tag = (let _ = wshl tag 48 OR ptr in ())"

section \<open>The queue of a thread\<close>

definition push_per_thread_queue :: "machine \<Rightarrow> nat \<Rightarrow> nat \<Rightarrow> machine" where
  "push_per_thread_queue m ptr sz = m\<lparr>mem := (mem m)(ptr := sz)\<rparr>"

definition pop_per_thread_queue :: "machine \<Rightarrow> (machine \<times> (nat \<times> nat) option) option" where
  "pop_per_thread_queue m = None"

end
