(* ===== verification/LazyStatic.thy ===== *)
theory LazyStatic
  imports RadixTree FreeList
begin

text \<open>
  Values made by the first thread that needs them: the statics of \<open>atomic_static!\<close> (\<open>alloc_macros/src/allocator.rs\<close>), the
  global radix tree and the nodes of the tree (\<open>collections/radix_tree.rs\<close>). A slot in shared memory is null until a
  thread installs its own pointer by compare-and-swap; a thread that comes too late disposes of its pointer and takes the
  other. Each access to the slot is one step, and the steps of any number of threads are interleaved in any order.
\<close>

section \<open>The protocol\<close>

text \<open>
  Where a thread is in the code: before the load; having read null, before making a value; before the exchange; having
  lost it, before disposing of its own; returned.
\<close>

datatype lazy_pc = Load | Make | Swap nat | Undo nat nat | Got nat

text \<open>\<open>slot\<close> is the atomic pointer, \<open>env\<close> what the values are made in, \<open>val_at\<close> the values by their addresses.\<close>

record ('s, 'v) lazy =
  slot :: nat
  env :: 's
  val_at :: "nat \<Rightarrow> 'v option"
  pcs :: "nat \<Rightarrow> lazy_pc"

definition lazy_step ::
  "('s \<Rightarrow> ('s \<times> nat) option) \<Rightarrow> ('s \<Rightarrow> nat \<Rightarrow> 's option) \<Rightarrow> 'v \<Rightarrow> nat \<Rightarrow> ('s, 'v) lazy \<Rightarrow> ('s, 'v) lazy option" where
  "lazy_step mk undo init t l = (case pcs l t of
       Load \<Rightarrow> Some (l\<lparr>pcs := (pcs l)(t := if slot l = 0 then Make else Got (slot l))\<rparr>)
     | Make \<Rightarrow> do {
         (s, p) \<leftarrow> mk (env l);
         Some (l\<lparr>env := s, val_at := (val_at l)(p \<mapsto> init), pcs := (pcs l)(t := Swap p)\<rparr>) }
     | Swap p \<Rightarrow>
         if slot l = 0 then do { ensure (p \<noteq> 0); Some (l\<lparr>slot := p, pcs := (pcs l)(t := Got p)\<rparr>) }
         else Some (l\<lparr>pcs := (pcs l)(t := Undo p (slot l))\<rparr>)
     | Undo p q \<Rightarrow> do {
         s \<leftarrow> undo (env l) p;
         Some (l\<lparr>env := s, val_at := (val_at l)(p := None), pcs := (pcs l)(t := Got q)\<rparr>) }
     | Got p \<Rightarrow> Some l)"

definition lazy_start :: "'s \<Rightarrow> ('s, 'v) lazy" where
  "lazy_start s = \<lparr>slot = 0, env = s, val_at = \<lambda>_. None, pcs = \<lambda>_. Load\<rparr>"

lemma start_pcs: "pcs (lazy_start s) = (\<lambda>_. Load)"
  by (simp add: lazy_start_def)

text \<open>A schedule is the list of the threads that take a step.\<close>

fun schedule_run :: "(nat \<Rightarrow> 'l \<Rightarrow> 'l option) \<Rightarrow> nat list \<Rightarrow> 'l \<Rightarrow> 'l option" where
  "schedule_run step [] l = Some l"
| "schedule_run step (t # ts) l = do { l \<leftarrow> step t l; schedule_run step ts l }"

section \<open>Its three uses\<close>

text \<open>A node of the radix tree: both kinds have \<open>2 ^ 18\<close> words.\<close>

definition NODE_BYTES :: nat where "NODE_BYTES = 2 ^ 21"

definition map_node :: "machine \<Rightarrow> (machine \<times> nat) option" where
  "map_node m = Some (os_mmap m NODE_BYTES)"

definition deallocate_node :: "machine \<Rightarrow> nat \<Rightarrow> machine option" where
  "deallocate_node m ptr = Some (os_munmap m ptr NODE_BYTES)"

text \<open>\<open>get_rd_tree\<close>, and the installation of a node in \<open>RadixNodeHead::insert\<close>.\<close>

definition get_rd_tree_step :: "nat \<Rightarrow> (machine, radix_tree) lazy \<Rightarrow> (machine, radix_tree) lazy option" where
  "get_rd_tree_step = lazy_step map_node deallocate_node (\<lambda>_. None)"

definition install_node_step :: "nat \<Rightarrow> (machine, bottom_node) lazy \<Rightarrow> (machine, bottom_node) lazy option" where
  "install_node_step = lazy_step map_node deallocate_node allocate_node"

text \<open>
  A static of \<open>sz\<close> bytes: the memory comes from \<open>META_BUMP\<close>, but the box that disposes of it belongs to the
  backend.
\<close>

definition static_make :: "nat \<Rightarrow> free_list \<Rightarrow> (free_list \<times> nat) option" where
  "static_make sz s = (let (m, mb, ptr) = meta_bump_alloc (fl_os s) (fl_meta s) sz in Some (s\<lparr>fl_os := m, fl_meta := mb\<rparr>, ptr))"

definition static_dispose :: "layout \<Rightarrow> free_list \<Rightarrow> nat \<Rightarrow> free_list option" where
  "static_dispose l s ptr = bsa_allocator_deallocate s ptr l"

definition static_deref :: "layout \<Rightarrow> 'v \<Rightarrow> nat \<Rightarrow> (free_list, 'v) lazy \<Rightarrow> (free_list, 'v) lazy option" where
  "static_deref l init = lazy_step (static_make (lsize l)) (static_dispose l) init"

definition static_deref_mut :: "layout \<Rightarrow> 'v \<Rightarrow> nat \<Rightarrow> (free_list, 'v) lazy \<Rightarrow> (free_list, 'v) lazy option" where
  "static_deref_mut l init = lazy_step (static_make (lsize l)) (static_dispose l) init"

section \<open>The contract\<close>

text \<open>The steps a thread still has to make.\<close>

fun left_steps :: "lazy_pc \<Rightarrow> nat" where
  "left_steps Load = 4"
| "left_steps Make = 3"
| "left_steps (Swap p) = 2"
| "left_steps (Undo p q) = 1"
| "left_steps (Got p) = 0"

text \<open>The pointer a thread has made and not installed.\<close>

fun own_ptr :: "lazy_pc \<Rightarrow> nat option" where
  "own_ptr (Swap p) = Some p"
| "own_ptr (Undo p q) = Some p"
| "own_ptr _ = None"

text \<open>
  What making and disposing must promise: as long as \<open>ready s k\<close> holds, \<open>k\<close> more values can be made; each is at a new address,
  not null; disposing takes back one that was given.
\<close>

locale installer =
  fixes mk :: "'s \<Rightarrow> ('s \<times> nat) option" and undo :: "'s \<Rightarrow> nat \<Rightarrow> 's option"
    and ready :: "'s \<Rightarrow> nat \<Rightarrow> bool" and given :: "'s \<Rightarrow> nat set"
  assumes mk_ok: "ready s (Suc k) \<Longrightarrow>
      \<exists>s' p. mk s = Some (s', p) \<and> p \<noteq> 0 \<and> p \<notin> given s \<and> given s' = insert p (given s) \<and> ready s' k"
    and undo_ok: "ready s k \<Longrightarrow> p \<in> given s \<Longrightarrow> \<exists>s'. undo s p = Some s' \<and> given s' = given s - {p} \<and> ready s' k"
    and ready_mono: "ready s (Suc k) \<Longrightarrow> ready s k"
begin

definition before_make :: "nat \<Rightarrow> (nat \<Rightarrow> lazy_pc) \<Rightarrow> nat" where
  "before_make n f = card {t. t < n \<and> 3 \<le> left_steps (f t)}"

definition slot_ok :: "'v \<Rightarrow> ('s, 'v) lazy \<Rightarrow> bool" where
  "slot_ok init l \<longleftrightarrow> slot l \<noteq> 0 \<longrightarrow> slot l \<in> given (env l) \<and> val_at l (slot l) = Some init"

definition thread_ok :: "nat set \<Rightarrow> 'v \<Rightarrow> ('s, 'v) lazy \<Rightarrow> lazy_pc \<Rightarrow> bool" where
  "thread_ok G init l c \<longleftrightarrow> (\<forall>p. own_ptr c = Some p \<longrightarrow> p \<noteq> 0 \<and> p \<in> given (env l) \<and> p \<noteq> slot l \<and> p \<notin> G \<and> val_at l p = Some init)
     \<and> (\<forall>p q. c = Undo p q \<longrightarrow> q = slot l \<and> q \<noteq> 0) \<and> (\<forall>q. c = Got q \<longrightarrow> q = slot l \<and> q \<noteq> 0)"

text \<open>What has been made since the start, when \<open>G\<close> was given, and has not been disposed of.\<close>

definition in_hand :: "nat \<Rightarrow> ('s, 'v) lazy \<Rightarrow> nat set" where
  "in_hand n l = {p. p = slot l \<and> p \<noteq> 0 \<or> (\<exists>t < n. own_ptr (pcs l t) = Some p)}"

definition lazy_inv :: "nat \<Rightarrow> nat set \<Rightarrow> 'v \<Rightarrow> ('s, 'v) lazy \<Rightarrow> bool" where
  "lazy_inv n G init l \<longleftrightarrow> ready (env l) (before_make n (pcs l)) \<and> slot_ok init l \<and> (\<forall>t < n. thread_ok G init l (pcs l t))
     \<and> (\<forall>t < n. \<forall>u < n. t \<noteq> u \<longrightarrow> own_ptr (pcs l t) \<noteq> None \<longrightarrow> own_ptr (pcs l t) \<noteq> own_ptr (pcs l u))
     \<and> given (env l) = G \<union> in_hand n l"

lemma before_make_go:
  assumes "t < n" and "3 \<le> left_steps (f t)" and "left_steps c < 3"
  shows "before_make n f = Suc (before_make n (f(t := c)))"
proof -
  have "{u. u < n \<and> 3 \<le> left_steps (f u)} = insert t {u. u < n \<and> 3 \<le> left_steps ((f(t := c)) u)}" using assms by auto
  moreover have "t \<notin> {u. u < n \<and> 3 \<le> left_steps ((f(t := c)) u)}" using assms(3) by simp
  ultimately show ?thesis by (simp add: before_make_def)
qed

lemma before_make_same:
  "(3 \<le> left_steps (f t)) = (3 \<le> left_steps c) \<Longrightarrow> before_make n (f(t := c)) = before_make n f"
  unfolding before_make_def by (intro arg_cong [where f = card]) auto

text \<open>Each step returns, keeps the invariant and brings the thread closer to its end.\<close>

lemma step_ok:
  assumes inv: "lazy_inv n G init l" and t: "t < n"
  shows "\<exists>l'. lazy_step mk undo init t l = Some l' \<and> lazy_inv n G init l'
    \<and> left_steps (pcs l' t) \<le> left_steps (pcs l t) - 1 \<and> (\<forall>u. u \<noteq> t \<longrightarrow> pcs l' u = pcs l u)"
proof -
  have r: "ready (env l) (before_make n (pcs l))" and sl: "slot_ok init l" and th: "\<And>u. u < n \<Longrightarrow> thread_ok G init l (pcs l u)"
    and ow: "\<And>u v. u < n \<Longrightarrow> v < n \<Longrightarrow> u \<noteq> v \<Longrightarrow> own_ptr (pcs l u) \<noteq> None \<Longrightarrow> own_ptr (pcs l u) \<noteq> own_ptr (pcs l v)"
    and gv: "given (env l) = G \<union> in_hand n l"
    using inv by (auto simp: lazy_inv_def)
  have hand: "in_hand n l = {p. p = slot l \<and> p \<noteq> 0 \<or> (\<exists>u < n. u \<noteq> t \<and> own_ptr (pcs l u) = Some p) \<or> own_ptr (pcs l t) = Some p}"
    using t by (auto simp: in_hand_def)
  have hand': "in_hand n l' = {p. p = slot l' \<and> p \<noteq> 0 \<or> (\<exists>u < n. u \<noteq> t \<and> own_ptr (pcs l u) = Some p) \<or> own_ptr c = Some p}"
    if "pcs l' = (pcs l)(t := c)" for l' :: "('s, 'v) lazy" and c using t that by (auto simp: in_hand_def)
  note tt = th [OF t]
  show ?thesis
  proof (cases "pcs l t")
    case Load
    let ?c = "if slot l = 0 then Make else Got (slot l)"
    let ?l = "l\<lparr>pcs := (pcs l)(t := ?c)\<rparr>"
    have "ready (env l) (before_make n ((pcs l)(t := ?c)))"
    proof (cases "slot l = 0")
      case False
      then show ?thesis using r ready_mono before_make_go [OF t, of "pcs l" ?c] Load by simp
    qed (use r before_make_same [of "pcs l" t Make n] Load in simp)
    moreover have "thread_ok G init ?l (pcs ?l u)" if u: "u < n" for u
      using th [OF u] by (cases "u = t") (auto simp: thread_ok_def)
    moreover have "own_ptr (pcs ?l u) \<noteq> own_ptr (pcs ?l v)"
      if "u < n" "v < n" "u \<noteq> v" "own_ptr (pcs ?l u) \<noteq> None" for u v
      using ow [OF that(1-3)] that by (cases "u = t"; cases "v = t") (auto split: if_splits)
    moreover have "in_hand n ?l = in_hand n l" using Load by (simp add: hand hand')
    ultimately have "lazy_inv n G init ?l" using sl gv by (simp add: lazy_inv_def slot_ok_def)
    then show ?thesis using Load by (simp add: lazy_step_def)
  next
    case Make
    have b: "before_make n (pcs l) = Suc (before_make n ((pcs l)(t := Swap p)))" for p
      by (rule before_make_go [OF t]) (simp_all add: Make)
    let ?k = "before_make n ((pcs l)(t := Swap 0))"
    have "ready (env l) (Suc ?k)" using r unfolding b [of 0] .
    from mk_ok [OF this] obtain s' p where m': "mk (env l) = Some (s', p)" "p \<noteq> 0" "p \<notin> given (env l)"
      "given s' = insert p (given (env l))" "ready s' ?k" by blast
    have "?k = before_make n ((pcs l)(t := Swap p))" using b [of 0] b [of p] by simp
    then have m: "mk (env l) = Some (s', p)" "p \<noteq> 0" "p \<notin> given (env l)" "given s' = insert p (given (env l))"
      "ready s' (before_make n ((pcs l)(t := Swap p)))" using m' by simp_all
    let ?l = "l\<lparr>env := s', val_at := (val_at l)(p \<mapsto> init), pcs := (pcs l)(t := Swap p)\<rparr>"
    have nG: "p \<notin> G" using m(3) gv by simp
    have np: "slot l \<noteq> p" "\<And>u q. u < n \<Longrightarrow> own_ptr (pcs l u) = Some q \<Longrightarrow> q \<noteq> p"
      using sl m(2,3) th by (auto simp: slot_ok_def thread_ok_def)
    have "thread_ok G init ?l (pcs ?l u)" if u: "u < n" for u
      using th [OF u] m(2,4) np(1) nG by (cases "u = t") (auto simp: thread_ok_def)
    moreover have "slot_ok init ?l" using sl m(4) np(1) by (simp add: slot_ok_def)
    moreover have "own_ptr (pcs ?l u) \<noteq> own_ptr (pcs ?l v)"
      if "u < n" "v < n" "u \<noteq> v" "own_ptr (pcs ?l u) \<noteq> None" for u v
      using ow [OF that(1-3)] np(2) [OF that(1)] np(2) [OF that(2)] that by (cases "u = t"; cases "v = t") (auto dest: sym)
    moreover have "in_hand n ?l = insert p (in_hand n l)" using Make m(2) by (auto simp: hand hand')
    ultimately have "lazy_inv n G init ?l" using m(4,5) gv by (simp add: lazy_inv_def)
    then show ?thesis using Make m(1) by (simp add: lazy_step_def)
  next
    case (Swap p)
    have p: "p \<noteq> 0" "p \<in> given (env l)" "p \<noteq> slot l" "val_at l p = Some init" "p \<notin> G" using tt Swap by (auto simp: thread_ok_def)
    have b: "before_make n ((pcs l)(t := c)) = before_make n (pcs l)" if "left_steps c < 3" for c
      by (rule before_make_same) (use that Swap in simp)
    show ?thesis
    proof (cases "slot l = 0")
      case True
      let ?l = "l\<lparr>slot := p, pcs := (pcs l)(t := Got p)\<rparr>"
      have "thread_ok G init ?l (pcs ?l u)" if u: "u < n" for u
      proof (cases "u = t")
        case False
        have "own_ptr (pcs l u) \<noteq> Some p" using ow [OF t u] False Swap by auto
        then show ?thesis using th [OF u] True False by (auto simp: thread_ok_def)
      qed (use p(1) in \<open>simp add: thread_ok_def\<close>)
      moreover have "own_ptr (pcs ?l u) \<noteq> own_ptr (pcs ?l v)"
        if "u < n" "v < n" "u \<noteq> v" "own_ptr (pcs ?l u) \<noteq> None" for u v
        using ow [OF that(1-3)] that by (cases "u = t"; cases "v = t") auto
      moreover have "in_hand n ?l = in_hand n l" using Swap True p(1) by (auto simp: hand hand')
      ultimately have "lazy_inv n G init ?l" using r b [of "Got p"] p(2,4) gv by (simp add: lazy_inv_def slot_ok_def)
      then show ?thesis using Swap True p(1) by (simp add: lazy_step_def)
    next
      case False
      let ?l = "l\<lparr>pcs := (pcs l)(t := Undo p (slot l))\<rparr>"
      have "thread_ok G init ?l (pcs ?l u)" if u: "u < n" for u
        using th [OF u] p False by (cases "u = t") (auto simp: thread_ok_def)
      moreover have "own_ptr (pcs ?l u) \<noteq> own_ptr (pcs ?l v)"
        if "u < n" "v < n" "u \<noteq> v" "own_ptr (pcs ?l u) \<noteq> None" for u v
        using ow [OF that(1-3)] ow [OF that(2,1)] that Swap by (cases "u = t"; cases "v = t") auto
      moreover have "in_hand n ?l = in_hand n l" using Swap by (simp add: hand hand')
      ultimately have "lazy_inv n G init ?l" using r b [of "Undo p (slot l)"] sl gv by (simp add: lazy_inv_def slot_ok_def)
      then show ?thesis using Swap False by (simp add: lazy_step_def)
    qed
  next
    case (Undo p q)
    have p: "p \<noteq> 0" "p \<in> given (env l)" "p \<noteq> slot l" "q = slot l" "q \<noteq> 0" using tt Undo by (auto simp: thread_ok_def)
    have b: "before_make n ((pcs l)(t := Got q)) = before_make n (pcs l)"
      by (rule before_make_same) (use Undo in simp)
    obtain s' where u': "undo (env l) p = Some s'" "given s' = given (env l) - {p}" "ready s' (before_make n (pcs l))"
      using undo_ok [OF r p(2)] by blast
    let ?l = "l\<lparr>env := s', val_at := (val_at l)(p := None), pcs := (pcs l)(t := Got q)\<rparr>"
    have "thread_ok G init ?l (pcs ?l u)" if u: "u < n" for u
    proof (cases "u = t")
      case False
      have "own_ptr (pcs l u) \<noteq> Some p" using ow [OF t u] False Undo by auto
      then show ?thesis using th [OF u] u'(2) False by (auto simp: thread_ok_def)
    qed (use p in \<open>simp add: thread_ok_def\<close>)
    moreover have "own_ptr (pcs ?l u) \<noteq> own_ptr (pcs ?l v)"
      if "u < n" "v < n" "u \<noteq> v" "own_ptr (pcs ?l u) \<noteq> None" for u v
      using ow [OF that(1-3)] that by (cases "u = t"; cases "v = t") auto
    moreover have "slot_ok init ?l" using sl u'(2) p(3) by (simp add: slot_ok_def)
    moreover have "in_hand n ?l = in_hand n l - {p}"
    proof -
      have "own_ptr (pcs l u) \<noteq> Some p" if "u < n" "u \<noteq> t" for u using ow [OF t that(1)] that(2) Undo by auto
      then show ?thesis using Undo p(3) by (auto simp: hand hand')
    qed
    moreover have "p \<notin> G" using tt Undo by (simp add: thread_ok_def)
    ultimately have "lazy_inv n G init ?l" using u'(2,3) b gv by (simp add: lazy_inv_def Un_Diff)
    then show ?thesis using Undo u'(1) by (simp add: lazy_step_def)
  next
    case (Got p)
    then show ?thesis using inv by (simp add: lazy_step_def)
  qed
qed

lemma start_inv:
  assumes "ready s n"
  shows "lazy_inv n (given s) init (lazy_start s)"
proof -
  have "before_make n (\<lambda>_. Load) = n" by (simp add: before_make_def)
  then show ?thesis using assms by (auto simp: lazy_inv_def lazy_start_def slot_ok_def thread_ok_def in_hand_def)
qed

text \<open>Every schedule returns, and a thread that took four steps has its value.\<close>

lemma schedule_ok:
  assumes "lazy_inv n G init l" and "set ts \<subseteq> {..<n}"
  shows "\<exists>l'. schedule_run (lazy_step mk undo init) ts l = Some l' \<and> lazy_inv n G init l'
    \<and> (\<forall>t. left_steps (pcs l' t) \<le> left_steps (pcs l t) - count_list ts t)"
  using assms
proof (induction ts arbitrary: l)
  case (Cons t ts)
  then obtain l1 where l1: "lazy_step mk undo init t l = Some l1" "lazy_inv n G init l1"
    "left_steps (pcs l1 t) \<le> left_steps (pcs l t) - 1" "\<forall>u. u \<noteq> t \<longrightarrow> pcs l1 u = pcs l u"
    using step_ok [of n G init l t] by auto
  obtain l2 where l2: "schedule_run (lazy_step mk undo init) ts l1 = Some l2" "lazy_inv n G init l2"
    "\<forall>u. left_steps (pcs l2 u) \<le> left_steps (pcs l1 u) - count_list ts u" using Cons.IH [OF l1(2)] Cons.prems by auto
  have "left_steps (pcs l2 u) \<le> left_steps (pcs l u) - count_list (t # ts) u" for u
    using spec [OF l2(3), of u] l1(3,4) by (cases "u = t") auto
  then show ?case using l1(1) l2(1,2) by auto
qed simp

lemma installed_once:
  assumes "ready s n" and "set ts \<subseteq> {..<n}"
  shows "\<exists>l. schedule_run (lazy_step mk undo init) ts (lazy_start s) = Some l
    \<and> (\<forall>t < n. 4 \<le> count_list ts t \<longrightarrow> pcs l t = Got (slot l))
    \<and> (\<forall>t < n. \<forall>p. pcs l t = Got p \<longrightarrow> p = slot l \<and> p \<noteq> 0 \<and> p \<in> given (env l) \<and> val_at l p = Some init)
    \<and> (0 < n \<longrightarrow> (\<forall>t < n. 4 \<le> count_list ts t) \<longrightarrow> given (env l) = insert (slot l) (given s))"
proof -
  obtain l where l: "schedule_run (lazy_step mk undo init) ts (lazy_start s) = Some l" "lazy_inv n (given s) init l"
    "\<forall>t. left_steps (pcs l t) \<le> left_steps Load - count_list ts t"
    using schedule_ok [OF start_inv [OF assms(1), of init] assms(2)] by (auto simp: start_pcs)
  have th: "thread_ok (given s) init l (pcs l t)" if "t < n" for t using l(2) that by (simp add: lazy_inv_def)
  have got: "p = slot l \<and> p \<noteq> 0 \<and> p \<in> given (env l) \<and> val_at l p = Some init" if "t < n" "pcs l t = Got p" for t p
    using th [OF that(1)] that(2) l(2) by (auto simp: thread_ok_def lazy_inv_def slot_ok_def)
  have done': "pcs l t = Got (slot l)" if "t < n" "4 \<le> count_list ts t" for t
  proof -
    have "left_steps (pcs l t) = 0" using spec [OF l(3), of t] that(2) by simp
    then obtain p where "pcs l t = Got p" by (cases "pcs l t") auto
    then show ?thesis using got [OF that(1)] by simp
  qed
  have all: "given (env l) = insert (slot l) (given s)" if "0 < n" "\<forall>t < n. 4 \<le> count_list ts t"
  proof -
    have d: "\<forall>t < n. pcs l t = Got (slot l)" using done' that(2) by blast
    then have "slot l \<noteq> 0" using got that(1) by blast
    then have "in_hand n l = {slot l}" using d by (auto simp: in_hand_def)
    then show ?thesis using l(2) by (simp add: lazy_inv_def)
  qed
  show ?thesis
  proof (intro exI [of _ l] conjI)
    show "\<forall>t < n. \<forall>p. pcs l t = Got p \<longrightarrow> p = slot l \<and> p \<noteq> 0 \<and> p \<in> given (env l) \<and> val_at l p = Some init"
      using got by blast
  qed (use l(1) done' all in simp_all)
qed

end

section \<open>Nodes of the radix tree\<close>

definition node_given :: "machine \<Rightarrow> nat set" where
  "node_given m = {p. (p, NODE_BYTES) \<in> set (mapped m) \<and> (p, NODE_BYTES) \<notin> set (unmapped m)}"

text \<open>The operating system can map \<open>k\<close> more nodes, each where nothing was mapped before.\<close>

definition node_ready :: "machine \<Rightarrow> nat \<Rightarrow> bool" where
  "node_ready m k \<longleftrightarrow> k \<le> length (answers m) \<and> distinct (answers m) \<and> set (unmapped m) \<subseteq> set (mapped m)
     \<and> (\<forall>p \<in> set (answers m). p \<noteq> 0 \<and> p \<noteq> usize_max \<and> (p, NODE_BYTES) \<notin> set (mapped m))"

interpretation nodes: installer map_node deallocate_node node_ready node_given
proof
  show "\<exists>s' p. map_node s = Some (s', p) \<and> p \<noteq> 0 \<and> p \<notin> node_given s \<and> node_given s' = insert p (node_given s) \<and> node_ready s' k"
    if r: "node_ready s (Suc k)" for s k
  proof -
    obtain p ps where a: "answers s = p # ps" using r by (cases "answers s") (auto simp: node_ready_def)
    then show ?thesis using r by (auto simp: map_node_def os_mmap_def node_ready_def node_given_def)
  qed
  show "\<exists>s'. deallocate_node s p = Some s' \<and> node_given s' = node_given s - {p} \<and> node_ready s' k"
    if "node_ready s k" "p \<in> node_given s" for s k p
    using that by (auto simp: deallocate_node_def os_munmap_def node_ready_def node_given_def)
  show "node_ready s (Suc k) \<Longrightarrow> node_ready s k" for s k by (simp add: node_ready_def)
qed


text \<open>When the operating system has no memory, the failure value of \<open>mmap\<close> is installed as the tree.\<close>

lemma failed_mmap_is_installed:
  assumes "answers m = []"
  shows "\<exists>l. schedule_run get_rd_tree_step [0, 0, 0] (lazy_start m) = Some l \<and> pcs l 0 = Got usize_max \<and> slot l = usize_max"
  using assms by (simp add: get_rd_tree_step_def lazy_step_def lazy_start_def map_node_def os_mmap_def usize_max_def ensure_def)


section \<open>Statics\<close>

lemma three_units:
  assumes "4096 < sz" and "sz \<le> 6144"
  shows "unit_round sz = 6144"
proof -
  have "(sz + 2047) div 2048 = 3" using assms by (intro div_nat_eqI) simp_all
  then show ?thesis using assms by (simp add: unit_round_def ALLOC_UNIT_def add.commute)
qed

lemma static_make_three:
  assumes "4096 < sz" and "sz \<le> 6144" and "mb_start (fl_meta s) < c" and "mb_current (fl_meta s) = c"
    and "c - mb_start (fl_meta s) \<le> MB_DEFAULT_SIZE" and "6144 \<le> c" and "c < 2 ^ 64"
  shows "static_make sz s = Some (s\<lparr>fl_meta := (fl_meta s)\<lparr>mb_current := c - 6144\<rparr>\<rparr>, c - 6144)"
  using assms by (simp add: static_make_def meta_bump_alloc_def sc_bump_alloc_def three_units ALLOC_UNIT_def Let_def)

lemma fl_ok_meta: "fl_ok (s\<lparr>fl_meta := mb\<rparr>) B = fl_ok s B"
  by (simp add: fl_ok_def)

text \<open>C5: Two threads that make a static of 4097 to 6144 bytes (the zone has 6144) at the same time end with the same pointer,
  but the loser's block, carved from \<open>META_BUMP\<close> right below the winner's, goes to the backend, which takes it for two whole pages:
  the next request for two pages gets memory that overlaps the static in use.\<close>

theorem static_loser_frees_live_value:
  assumes ok: "fl_ok s B" and mb: "mb_current (fl_meta s) = 4096 * e" "mb_start (fl_meta s) + 12288 < 4096 * e"
    "4096 * e - mb_start (fl_meta s) \<le> MB_DEFAULT_SIZE" and e: "3 < e" "e < 2 ^ 36" and cl: "clear_of B (e - 3) 1"
    and sz: "4096 < lsize l" "lsize l \<le> 6144"
  shows "\<exists>s' l'. schedule_run (static_deref l init) [0, 1, 0, 1, 0, 1, 1] (lazy_start s) = Some l'
    \<and> slot l' = 4096 * e - 6144 \<and> pcs l' 0 = Got (slot l') \<and> pcs l' 1 = Got (slot l')
    \<and> fl_alloc (env l') 8192 = Some (s', Inr (4096 * (e - 3))) \<and> \<not> apart (4096 * (e - 3), 8192) (slot l', lsize l)"
proof -
  let ?c = "4096 * e"
  let ?s1 = "s\<lparr>fl_meta := (fl_meta s)\<lparr>mb_current := ?c - 6144\<rparr>\<rparr>" and ?s2 = "s\<lparr>fl_meta := (fl_meta s)\<lparr>mb_current := ?c - 12288\<rparr>\<rparr>"
  have m1: "static_make (lsize l) s = Some (?s1, ?c - 6144)"
    by (rule static_make_three) (use sz mb e in auto)
  have m2: "static_make (lsize l) ?s1 = Some (?s2, ?c - 12288)"
    using static_make_three [OF sz, of ?s1 "?c - 6144"] mb e by simp
  have p: "?c - 12288 = (e - 3) * 4096" "(e - 3) * 4096 = 4096 * (e - 3)" using e by (simp_all add: diff_mult_distrib)
  have ok2: "fl_ok ?s2 B" using ok by (simp add: fl_ok_meta)
  have n: "(0::nat) < 2" "(2::nat) < 2 ^ 40" "(2 - 1) * 4096 < lsize l" "lsize l \<le> 2 * 4096" "0 < e - 3" "e - 3 + 2 < 2 ^ 36"
    "clear_of B (e - 3) (2 - 1)" using sz e cl by simp_all
  obtain s3 where s3: "fl_free ?s2 ((e - 3) * 4096) (lsize l) = Some s3" "fl_ok s3 (B(1 := (e - 3) # B 1))"
    using fl_free_never_coalesces [OF ok2 n] by auto
  have d: "static_dispose l ?s2 (?c - 12288) = Some s3"
    using s3(1) sz(1) unfolding p(1) by (simp add: static_dispose_def bsa_allocator_deallocate_def bsa_dealloc_def)
  have run: "\<exists>l'. schedule_run (static_deref l init) [0, 1, 0, 1, 0, 1, 1] (lazy_start s) = Some l' \<and> slot l' = ?c - 6144
      \<and> pcs l' 0 = Got (slot l') \<and> pcs l' 1 = Got (slot l') \<and> env l' = s3"
    using m1 m2 d e by (simp add: static_deref_def lazy_step_def lazy_start_def)
  obtain s4 where a: "remove_one s3 1 = Some (s4, Some ((e - 3) * 4096))"
    using remove_one_cons [OF s3(2), of 1 "e - 3" "B 1"] by auto
  have "page_index 8192 = 1" using page_index_eq [of 2 8192] by simp
  then have "fl_alloc s3 8192 = Some (s4, Inr (4096 * (e - 3)))"
    using a get_slice_ready [OF s3(2)] s3(2) by (simp add: fl_alloc_def fl_ok_def p(2))
  moreover have "\<not> apart (4096 * (e - 3), 8192) (?c - 6144, lsize l)" using e sz by (auto simp: apart_def)
  ultimately show ?thesis using run by metis
qed

theorem static_loser_frees_live_value_witness:
  "\<exists>s s' l'. schedule_run (static_deref \<lparr>lsize = 6144, lalign = 8\<rparr> ()) [0, 1, 0, 1, 0, 1, 1] (lazy_start s) = Some l'
    \<and> slot l' = 0x8003FFE800 \<and> fl_alloc (env l') 8192 = Some (s', Inr 0x8003FFD000)"
proof -
  define s where "s = demo_free_list\<lparr>fl_meta := \<lparr>mb_start = 0x8000000000, mb_current = 0x8004000000, backup = 0\<rparr>\<rparr>"
  have "fl_ok s (\<lambda>_. [])" using demo_free_list_ok by (simp add: s_def fl_ok_meta)
  from static_loser_frees_live_value [OF this, of "0x8004000" "\<lparr>lsize = 6144, lalign = 8\<rparr>" "()"]
  have "\<exists>s' l'. schedule_run (static_deref \<lparr>lsize = 6144, lalign = 8\<rparr> ()) [0, 1, 0, 1, 0, 1, 1] (lazy_start s) = Some l'
      \<and> slot l' = 0x8003FFE800 \<and> fl_alloc (env l') 8192 = Some (s', Inr 0x8003FFD000)"
    by (auto simp: s_def clear_of_def MB_DEFAULT_SIZE_def simp del: schedule_run.simps)
  then show ?thesis by blast
qed

end
