(* ===== verification/Locks.thy ===== *)
theory Locks
  imports UA_Prelude
begin

text \<open>
  The mutex around shared data (\<open>sync.rs\<close>, \<open>buddy_system/sync.rs\<close>) over the lock of the operating system
  (\<open>pal/sync.rs\<close>). The operations of the lock are parameters: they are calls of the library of threads. Each call, read
  and write is one step, and the steps of the threads are interleaved.
\<close>

section \<open>The mutex\<close>

text \<open>\<open>OsLock\<close> is the type \<open>'l\<close>; \<open>acquire t l\<close> is \<^term>\<open>None\<close> while the thread has to wait.\<close>

record 'l os_lock_ops =
  STATIC_INITIALIZER :: 'l
  SUPPORT_STATIC_INIT :: bool
  dynamic_initialize :: "'l \<Rightarrow> 'l"
  os_acquire :: "nat \<Rightarrow> 'l \<Rightarrow> 'l option"
  os_release :: "nat \<Rightarrow> 'l \<Rightarrow> 'l"

record ('l, 'd) pthread_mutex =
  m_lock :: 'l
  m_data :: 'd

definition mutex_new :: "'l os_lock_ops \<Rightarrow> 'd \<Rightarrow> ('l, 'd) pthread_mutex" where
  "mutex_new L user_data = \<lparr>m_lock = STATIC_INITIALIZER L, m_data = user_data\<rparr>"

text \<open>The version of the buddy heap initialises the lock at run time where the platform needs it.\<close>

definition buddy_mutex_new :: "'l os_lock_ops \<Rightarrow> 'd \<Rightarrow> ('l, 'd) pthread_mutex" where
  "buddy_mutex_new L user_data =
     (if SUPPORT_STATIC_INIT L then \<lparr>m_lock = STATIC_INITIALIZER L, m_data = user_data\<rparr>
      else (let lock = dynamic_initialize L (STATIC_INITIALIZER L) in \<lparr>m_lock = lock, m_data = user_data\<rparr>))"

definition mutex_lock :: "'l os_lock_ops \<Rightarrow> nat \<Rightarrow> ('l, 'd) pthread_mutex \<Rightarrow> ('l, 'd) pthread_mutex option" where
  "mutex_lock L t m = do { l \<leftarrow> os_acquire L t (m_lock m); Some (m\<lparr>m_lock := l\<rparr>) }"

definition guard_deref :: "('l, 'd) pthread_mutex \<Rightarrow> 'd" where
  "guard_deref m = m_data m"

definition guard_deref_mut :: "('l, 'd) pthread_mutex \<Rightarrow> 'd \<Rightarrow> ('l, 'd) pthread_mutex" where
  "guard_deref_mut m v = m\<lparr>m_data := v\<rparr>"

definition guard_drop :: "'l os_lock_ops \<Rightarrow> nat \<Rightarrow> ('l, 'd) pthread_mutex \<Rightarrow> ('l, 'd) pthread_mutex" where
  "guard_drop L t m = m\<lparr>m_lock := os_release L t (m_lock m)\<rparr>"

text \<open>What the library documents: a free lock can be taken, a taken one cannot, and its owner frees it.\<close>

definition lock_laws :: "'l os_lock_ops \<Rightarrow> ('l \<Rightarrow> nat option) \<Rightarrow> bool" where
  "lock_laws L owner \<longleftrightarrow> owner (STATIC_INITIALIZER L) = None
     \<and> (\<not> SUPPORT_STATIC_INIT L \<longrightarrow> owner (dynamic_initialize L (STATIC_INITIALIZER L)) = None)
     \<and> (\<forall>t l. owner l = None \<longrightarrow> (\<exists>l'. os_acquire L t l = Some l' \<and> owner l' = Some t))
     \<and> (\<forall>t l u. owner l = Some u \<longrightarrow> os_acquire L t l = None)
     \<and> (\<forall>t l. owner l = Some t \<longrightarrow> owner (os_release L t l) = None)"

section \<open>Threads that update the data\<close>

text \<open>
  A critical section takes the guard, reads the data, writes a new value computed from what it read, and drops the guard;
  \<open>f\<close> is the update it makes.
\<close>

datatype 'd cs_pc = Outside | Holding "'d \<Rightarrow> 'd" | Loaded "'d \<Rightarrow> 'd" 'd | Stored

record ('l, 'd) lock_state =
  mutex :: "('l, 'd) pthread_mutex"
  cs :: "nat \<Rightarrow> 'd cs_pc"
  log :: "(nat \<times> ('d \<Rightarrow> 'd)) list"

inductive lock_run :: "'l os_lock_ops \<Rightarrow> ('l, 'd) pthread_mutex \<Rightarrow> ('l, 'd) lock_state \<Rightarrow> bool" for L m0 where
  start: "lock_run L m0 \<lparr>mutex = m0, cs = \<lambda>_. Outside, log = []\<rparr>"
| enter: "lock_run L m0 s \<Longrightarrow> cs s t = Outside \<Longrightarrow> mutex_lock L t (mutex s) = Some m \<Longrightarrow>
    lock_run L m0 (s\<lparr>mutex := m, cs := (cs s)(t := Holding f)\<rparr>)"
| load: "lock_run L m0 s \<Longrightarrow> cs s t = Holding f \<Longrightarrow>
    lock_run L m0 (s\<lparr>cs := (cs s)(t := Loaded f (guard_deref (mutex s)))\<rparr>)"
| save: "lock_run L m0 s \<Longrightarrow> cs s t = Loaded f v \<Longrightarrow>
    lock_run L m0 (s\<lparr>mutex := guard_deref_mut (mutex s) (f v), cs := (cs s)(t := Stored), log := log s @ [(t, f)]\<rparr>)"
| leave: "lock_run L m0 s \<Longrightarrow> cs s t = Stored \<Longrightarrow>
    lock_run L m0 (s\<lparr>mutex := guard_drop L t (mutex s), cs := (cs s)(t := Outside)\<rparr>)"

definition lock_inv :: "('l \<Rightarrow> nat option) \<Rightarrow> 'd \<Rightarrow> ('l, 'd) lock_state \<Rightarrow> bool" where
  "lock_inv owner d s \<longleftrightarrow> (\<forall>t. cs s t \<noteq> Outside \<longleftrightarrow> owner (m_lock (mutex s)) = Some t)
     \<and> m_data (mutex s) = foldl (\<lambda>d (t, f). f d) d (log s) \<and> (\<forall>t f v. cs s t = Loaded f v \<longrightarrow> v = m_data (mutex s))"

lemma lock_run_inv:
  assumes "lock_laws L owner" and "lock_run L m0 s" and "owner (m_lock m0) = None"
  shows "lock_inv owner (m_data m0) s"
  using assms(2)
proof (induction rule: lock_run.induct)
  case start
  then show ?case using assms(3) by (simp add: lock_inv_def)
next
  case (enter s t m f)
  obtain l where l: "os_acquire L t (m_lock (mutex s)) = Some l" "m = (mutex s)\<lparr>m_lock := l\<rparr>"
    using enter.hyps(3) by (auto simp: mutex_lock_def bind_eq_Some_conv)
  then have "owner (m_lock (mutex s)) = None" using assms(1) unfolding lock_laws_def by (metis option.exhaust option.distinct(1))
  moreover from this have "owner l = Some t" using assms(1) l(1) unfolding lock_laws_def by (metis option.inject)
  ultimately show ?case using enter.IH l(2) by (auto simp: lock_inv_def)
next
  case (load s t f)
  then show ?case by (auto simp: lock_inv_def guard_deref_def)
next
  case (save s t f v)
  then have "owner (m_lock (mutex s)) = Some t" by (auto simp: lock_inv_def)
  then have "\<forall>u. u \<noteq> t \<longrightarrow> cs s u = Outside" using save.IH by (auto simp: lock_inv_def)
  then show ?case using save by (auto simp: lock_inv_def guard_deref_mut_def)
next
  case (leave s t)
  then have o: "owner (m_lock (mutex s)) = Some t" by (auto simp: lock_inv_def)
  then have "owner (os_release L t (m_lock (mutex s))) = None" using assms(1) by (simp add: lock_laws_def)
  then show ?case using leave.IH o by (auto simp: lock_inv_def guard_drop_def)
qed

text \<open>C6: Whatever the interleaving of threads that lock the mutex, read the data through the guard, write it and drop the
  guard, at most one thread is in a critical section, and the data is always the result of the completed updates, one
  after the other in the order in which they were made: no update is lost.\<close>

theorem lock_serializes:
  assumes "lock_laws L owner" and "lock_run L m0 s" and "m0 = mutex_new L d \<or> m0 = buddy_mutex_new L d"
  shows "m_data (mutex s) = foldl (\<lambda>d (t, f). f d) d (log s) \<and> (\<forall>t u. cs s t \<noteq> Outside \<longrightarrow> cs s u \<noteq> Outside \<longrightarrow> t = u)"
proof -
  have "owner (m_lock m0) = None" "m_data m0 = d"
    using assms(1,3) by (auto simp: lock_laws_def mutex_new_def buddy_mutex_new_def Let_def split: if_splits)
  then have "lock_inv owner d s" using lock_run_inv [OF assms(1,2)] by simp
  then show ?thesis unfolding lock_inv_def by (metis option.inject)
qed

text \<open>A lock that remembers its owner.\<close>

definition owner_lock :: "nat option os_lock_ops" where
  "owner_lock = \<lparr>STATIC_INITIALIZER = None, SUPPORT_STATIC_INIT = True, dynamic_initialize = id,
     os_acquire = (\<lambda>t l. if l = None then Some (Some t) else None), os_release = (\<lambda>t l. None)\<rparr>"

theorem lock_serializes_witness:
  "\<exists>s. lock_run owner_lock (mutex_new owner_lock (0 :: nat)) s \<and> log s = [(1, Suc)] \<and> m_data (mutex s) = 1"
proof -
  let ?m = "mutex_new owner_lock (0 :: nat)"
  let ?s = "\<lparr>mutex = ?m, cs = \<lambda>_. Outside, log = []\<rparr>"
  have e: "mutex_lock owner_lock 1 ?m = Some (?m\<lparr>m_lock := Some 1\<rparr>)" by (simp add: mutex_lock_def owner_lock_def mutex_new_def)
  have "lock_run owner_lock ?m (?s\<lparr>mutex := ?m\<lparr>m_lock := Some 1\<rparr>, cs := (cs ?s)(1 := Holding Suc)\<rparr>)"
    by (rule lock_run.enter [OF lock_run.start]) (simp_all add: e [simplified])
  from lock_run.save [OF lock_run.load [OF this, of 1 Suc], of 1 Suc 0]
  obtain s where s: "lock_run owner_lock ?m s" "log s = [(1, Suc)]" by (auto simp: guard_deref_def mutex_new_def)
  have "lock_laws owner_lock id" by (auto simp: lock_laws_def owner_lock_def)
  from lock_serializes [OF this s(1), of 0] s show ?thesis by auto
qed

end
