(* ===== verification/Rseq.thy ===== *)
theory Rseq
  imports UA_Prelude
begin

text \<open>
  Registration of restartable sequences (\<open>pal/os/linux_rseq.rs\<close>), on which the caches of a CPU rest. The kernel is a parameter:
  a system call takes its number and arguments, the state \<open>'k\<close> of the kernel and the thread's area, which the kernel
  writes, and gives a return code.
\<close>

section \<open>The area of a thread\<close>

definition RSEQ_CPU_ID_UNINITIALIZED :: int where "RSEQ_CPU_ID_UNINITIALIZED = -1"
definition RSEQ_CPU_ID_REGISTRATION_FAILED :: int where "RSEQ_CPU_ID_REGISTRATION_FAILED = -1"
definition RSEQ_FLAG_UNREGISTER :: nat where "RSEQ_FLAG_UNREGISTER = 1"
definition RSEQ_SIG :: nat where "RSEQ_SIG = 0x53053053"

record rseq_cs =
  version :: nat
  cs_flags :: nat
  start_ip :: nat
  post_commit_offset :: nat
  abort_ip :: nat

record rseq =
  r_cpu_id_start :: int
  r_cpu_id :: int
  r_ptr64 :: nat
  r_flags :: nat

definition rseq_new :: rseq where
  "rseq_new = \<lparr>r_cpu_id_start = 0, r_cpu_id = -1, r_ptr64 = 0, r_flags = 0\<rparr>"

text \<open>The extended area has padding and two numbers more.\<close>

record rseq2 = rseq +
  r_padding :: "nat list"
  r_numa_nod_id :: int
  r_vcpu_id :: int

definition rseq2_new :: rseq2 where
  "rseq2_new = \<lparr>r_cpu_id_start = 0, r_cpu_id = -1, r_ptr64 = 0, r_flags = 0, r_padding = [0, 0], r_numa_nod_id = 0, r_vcpu_id = 0\<rparr>"

text \<open>20 bytes, aligned to 32.\<close>

definition RSEQ_BYTES :: nat where "RSEQ_BYTES = 32"

section \<open>The calls\<close>

type_synonym 'k syscall4 = "nat \<Rightarrow> nat list \<Rightarrow> 'k \<times> rseq \<Rightarrow> ('k \<times> rseq) \<times> int"

definition sys_rseq :: "'k syscall4 \<Rightarrow> nat \<Rightarrow> nat \<Rightarrow> int \<Rightarrow> nat \<Rightarrow> 'k \<times> rseq \<Rightarrow> ('k \<times> rseq) \<times> int" where
  "sys_rseq syscall4 rseq rseq_len flags sig st = syscall4 334 [rseq, rseq_len, nat (flags mod 2 ^ 64), sig] st"

text \<open>\<open>a\<close> is the address of the thread's area. A failure panics.\<close>

definition register_current_thread :: "'k syscall4 \<Rightarrow> nat \<Rightarrow> 'k \<times> rseq \<Rightarrow> ('k \<times> rseq) option" where
  "register_current_thread K a st = (let (st, rc) = sys_rseq K a RSEQ_BYTES 0 RSEQ_SIG st in if rc \<noteq> 0 then None else Some st)"

definition unregister_current_thread :: "'k syscall4 \<Rightarrow> nat \<Rightarrow> 'k \<times> rseq \<Rightarrow> ('k \<times> rseq) option" where
  "unregister_current_thread K a st = (let (st, rc) = sys_rseq K a RSEQ_BYTES 1 RSEQ_SIG st in if rc \<noteq> 0 then None else Some st)"

definition rseq_cpu_id :: "'k \<times> rseq \<Rightarrow> int" where
  "rseq_cpu_id st = r_cpu_id (snd st)"

definition rseq_cpu_id_start :: "'k \<times> rseq \<Rightarrow> int" where
  "rseq_cpu_id_start st = r_cpu_id_start (snd st)"

definition is_registered :: "'k \<times> rseq \<Rightarrow> bool" where
  "is_registered st \<longleftrightarrow> rseq_cpu_id st \<ge> 0"

definition register_current_thread_checked :: "'k syscall4 \<Rightarrow> nat \<Rightarrow> 'k \<times> rseq \<Rightarrow> ('k \<times> rseq) option" where
  "register_current_thread_checked K a st = (if is_registered st then Some st else register_current_thread K a st)"

definition unregister_current_thread_checked :: "'k syscall4 \<Rightarrow> nat \<Rightarrow> 'k \<times> rseq \<Rightarrow> ('k \<times> rseq) option" where
  "unregister_current_thread_checked K a st = (if \<not> is_registered st then Some st else unregister_current_thread K a st)"

section \<open>What the kernel documents\<close>

text \<open>
  \<open>reg k\<close> is the area registered for the thread. Registering an area of the right size writes the number of the CPU into it;
  a second registration fails; unregistering the area resets the number.
\<close>

definition rseq_kernel :: "'k syscall4 \<Rightarrow> ('k \<Rightarrow> nat option) \<Rightarrow> bool" where
  "rseq_kernel K reg \<longleftrightarrow> (\<forall>k r a.
     (reg k = None \<longrightarrow> (\<exists>k' r'. K 334 [a, 32, 0, RSEQ_SIG] (k, r) = ((k', r'), 0) \<and> reg k' = Some a \<and> 0 \<le> r_cpu_id r'))
     \<and> (reg k \<noteq> None \<longrightarrow> snd (K 334 [a, 32, 0, RSEQ_SIG] (k, r)) < 0)
     \<and> (reg k = Some a \<longrightarrow> (\<exists>k' r'. K 334 [a, 32, 1, RSEQ_SIG] (k, r) = ((k', r'), 0) \<and> reg k' = None \<and> r_cpu_id r' = -1))
     \<and> (reg k \<noteq> Some a \<longrightarrow> snd (K 334 [a, 32, 1, RSEQ_SIG] (k, r)) < 0))"

text \<open>The number in the area tells whether the thread is registered.\<close>

definition rseq_agrees :: "('k \<Rightarrow> nat option) \<Rightarrow> nat \<Rightarrow> 'k \<times> rseq \<Rightarrow> bool" where
  "rseq_agrees reg a st \<longleftrightarrow> reg (fst st) = (if is_registered st then Some a else None)"

text \<open>C38: Restartable sequences are registered at most once for each thread: the checked calls never panic and can be repeated,
  they leave the thread registered and unregistered, and the unchecked calls panic exactly when the thread is already
  in the state they would bring about.\<close>

theorem rseq_registration:
  assumes K: "rseq_kernel K reg" and st: "rseq_agrees reg a st"
  shows "\<exists>s1 s2. register_current_thread_checked K a st = Some s1 \<and> is_registered s1 \<and> rseq_agrees reg a s1
    \<and> register_current_thread_checked K a s1 = Some s1 \<and> register_current_thread K a s1 = None
    \<and> unregister_current_thread_checked K a s1 = Some s2 \<and> \<not> is_registered s2 \<and> rseq_agrees reg a s2
    \<and> unregister_current_thread_checked K a s2 = Some s2 \<and> unregister_current_thread K a s2 = None
    \<and> (register_current_thread K a st = None \<longleftrightarrow> is_registered st)"
proof -
  have f: "nat (0 mod 2 ^ 64) = 0" "nat (1 mod 2 ^ 64) = 1" by simp_all
  have twice: "register_current_thread K a s = None" if "reg (fst s) \<noteq> None" for s
  proof -
    have "snd (K 334 [a, 32, 0, RSEQ_SIG] (fst s, snd s)) < 0" using K that unfolding rseq_kernel_def by blast
    then show ?thesis by (auto simp: register_current_thread_def sys_rseq_def RSEQ_BYTES_def f split: prod.splits)
  qed
  have un: "unregister_current_thread K a s = None" if "reg (fst s) \<noteq> Some a" for s
  proof -
    have "snd (K 334 [a, 32, 1, RSEQ_SIG] (fst s, snd s)) < 0" using K that unfolding rseq_kernel_def by blast
    then show ?thesis by (auto simp: unregister_current_thread_def sys_rseq_def RSEQ_BYTES_def f split: prod.splits)
  qed
  have K1: "\<exists>k' r'. K 334 [a, 32, 0, RSEQ_SIG] (k, r) = ((k', r'), 0) \<and> reg k' = Some a \<and> 0 \<le> r_cpu_id r'"
    if "reg k = None" for k r using K that unfolding rseq_kernel_def by blast
  have K2: "\<exists>k' r'. K 334 [a, 32, 1, RSEQ_SIG] (k, r) = ((k', r'), 0) \<and> reg k' = None \<and> r_cpu_id r' = -1"
    if "reg k = Some a" for k r using K that unfolding rseq_kernel_def by blast
  have on: "\<exists>s'. register_current_thread K a s = Some s' \<and> is_registered s' \<and> rseq_agrees reg a s'" if r0: "reg (fst s) = None" for s
  proof -
    obtain k r where s: "s = (k, r)" by (cases s)
    obtain k' r' where "K 334 [a, 32, 0, RSEQ_SIG] (k, r) = ((k', r'), 0)" "reg k' = Some a" "0 \<le> r_cpu_id r'"
      using K1 [of k r] r0 s by auto
    then show ?thesis by (simp add: s register_current_thread_def sys_rseq_def RSEQ_BYTES_def f rseq_agrees_def is_registered_def rseq_cpu_id_def)
  qed
  have off: "\<exists>s'. unregister_current_thread K a s = Some s' \<and> \<not> is_registered s' \<and> rseq_agrees reg a s'" if r0: "reg (fst s) = Some a" for s
  proof -
    obtain k r where s: "s = (k, r)" by (cases s)
    obtain k' r' where "K 334 [a, 32, 1, RSEQ_SIG] (k, r) = ((k', r'), 0)" "reg k' = None" "r_cpu_id r' = -1"
      using K2 [of k r] r0 s by auto
    then show ?thesis by (simp add: s unregister_current_thread_def sys_rseq_def RSEQ_BYTES_def f rseq_agrees_def is_registered_def rseq_cpu_id_def)
  qed
  obtain s1 where s1: "register_current_thread_checked K a st = Some s1" "is_registered s1" "rseq_agrees reg a s1"
    using on [of st] st by (cases "is_registered st") (auto simp: register_current_thread_checked_def rseq_agrees_def)
  obtain s2 where s2: "unregister_current_thread K a s1 = Some s2" "\<not> is_registered s2" "rseq_agrees reg a s2"
    using off [of s1] s1 by (auto simp: rseq_agrees_def)
  have "register_current_thread K a st = None \<longleftrightarrow> is_registered st"
    using on [of st] twice [of st] st by (cases "is_registered st") (auto simp: rseq_agrees_def)
  then show ?thesis
    using s1 s2 twice [of s1] un [of s2]
    by (intro exI [of _ s1] exI [of _ s2]) (simp add: register_current_thread_checked_def unregister_current_thread_checked_def rseq_agrees_def)
qed

text \<open>A kernel on CPU 3.\<close>

definition one_cpu_kernel :: "nat option syscall4" where
  "one_cpu_kernel nr args st = (let (k, r) = st; a = args ! 0 in
     if args ! 2 = 0 then (if k = None then ((Some a, r\<lparr>r_cpu_id := 3, r_cpu_id_start := 3\<rparr>), 0) else (st, -16))
     else (if k = Some a then ((None, r\<lparr>r_cpu_id := -1, r_cpu_id_start := 0\<rparr>), 0) else (st, -22)))"

theorem rseq_registration_witness:
  "\<exists>s. register_current_thread_checked one_cpu_kernel 64 (None, rseq_new) = Some s \<and> is_registered s"
proof -
  have "rseq_kernel one_cpu_kernel id" by (auto simp: rseq_kernel_def one_cpu_kernel_def)
  moreover have "rseq_agrees id 64 (None, rseq_new)" by (simp add: rseq_agrees_def is_registered_def rseq_cpu_id_def rseq_new_def)
  ultimately show ?thesis using rseq_registration by blast
qed

end
