(* ===== verification/Macros.thy ===== *)
theory Macros
  imports SizeClass
begin

text \<open>
  The procedural macros (\<open>alloc_macros/src/allocator.rs\<close>): what they read from the tokens of an invocation and the table of
  page counts that \<open>generate_num_pages!\<close> writes. The statics that the other two macros expand to are in \<open>LazyStatic\<close> and
  \<open>Threads\<close>. Tokens are those of \<open>proc_macro\<close>; groups and literals are given by their text.
\<close>

section \<open>Tokens\<close>

datatype token = TIdent string | TPunct char | TLiteral string | TGroup string

text \<open>\<open>try_ident\<close> consumes a token whatever it is.\<close>

fun try_ident :: "token list \<Rightarrow> string option \<times> token list" where
  "try_ident (TIdent s # it) = (Some s, it)"
| "try_ident (t # it) = (None, it)"
| "try_ident [] = (None, [])"

definition expect_ident :: "token list \<Rightarrow> (string \<times> token list) option" where
  "expect_ident it = (case try_ident it of (Some s, it) \<Rightarrow> Some (s, it) | (None, it) \<Rightarrow> None)"

fun expect_punct :: "token list \<Rightarrow> (char \<times> token list) option" where
  "expect_punct (TPunct c # it) = Some (c, it)"
| "expect_punct it = None"

fun expect_group :: "token list \<Rightarrow> (string \<times> token list) option" where
  "expect_group (TGroup s # it) = Some (s, it)"
| "expect_group it = None"

section \<open>The statics\<close>

record static_item =
  visibility :: string
  si_name :: string
  si_ty :: string
  init_expr :: string

definition parse_atomic_static :: "token list \<Rightarrow> static_item option" where
  "parse_atomic_static it = do {
     let (first, it) = try_ident it;
     first_ident \<leftarrow> first;
     (vis, it) \<leftarrow> (if first_ident = ''pub''
        then do { (s, it) \<leftarrow> expect_ident it; ensure (s = ''static''); Some (''pub'', it) }
        else Some ('''', it));
     (r, it) \<leftarrow> expect_ident it;
     ensure (r = ''ref'');
     (name, it) \<leftarrow> expect_ident it;
     (c, it) \<leftarrow> expect_punct it;
     ensure (c = CHR '':'');
     (ty, it) \<leftarrow> expect_ident it;
     (c, it) \<leftarrow> expect_punct it;
     ensure (c = CHR ''='');
     (e, it) \<leftarrow> expect_group it;
     (c, it) \<leftarrow> expect_punct it;
     ensure (c = CHR '';'');
     Some \<lparr>visibility = vis, si_name = name, si_ty = ty, init_expr = e\<rparr> }"

text \<open>The type, the name and the destructor of a thread-local static.\<close>

definition parse_tls_static :: "token list \<Rightarrow> (string \<times> string \<times> string) option" where
  "parse_tls_static it = do {
     (ty, it) \<leftarrow> expect_ident it;
     (name, it) \<leftarrow> expect_ident it;
     (c, it) \<leftarrow> expect_punct it;
     ensure (c = CHR '','');
     (f, it) \<leftarrow> expect_ident it;
     Some (ty, name, f) }"

text \<open>An invocation as the documentation gives it.\<close>

definition static_tokens :: "bool \<Rightarrow> string \<Rightarrow> string \<Rightarrow> string \<Rightarrow> token list" where
  "static_tokens public name ty e = (if public then [TIdent ''pub''] else []) @
     [TIdent ''static'', TIdent ''ref'', TIdent name, TPunct CHR '':'', TIdent ty, TPunct CHR ''='', TGroup e, TPunct CHR '';'']"

text \<open>The documented form is read as it is meant, with or without \<open>pub\<close>.\<close>

theorem atomic_static_roundtrip:
  "parse_atomic_static (static_tokens public name ty e @ rest)
     = Some \<lparr>visibility = if public then ''pub'' else '''', si_name = name, si_ty = ty, init_expr = e\<rparr>"
  by (simp add: parse_atomic_static_def static_tokens_def expect_ident_def)

text \<open>Without \<open>pub\<close> the first word is not looked at: anything stands for \<open>static\<close>.\<close>

lemma atomic_static_first_word:
  "w \<noteq> ''pub'' \<Longrightarrow> parse_atomic_static (TIdent w # it) = parse_atomic_static (TIdent ''static'' # it)"
  by (simp add: parse_atomic_static_def)

section \<open>Numbers as text\<close>

definition digit_val :: "char \<Rightarrow> nat option" where
  "digit_val c = (let v = of_char c in if 48 \<le> v \<and> v \<le> 57 then Some (v - 48) else None)"

fun parse_digits :: "nat \<Rightarrow> string \<Rightarrow> nat option" where
  "parse_digits acc [] = Some acc"
| "parse_digits acc (c # cs) = do {
     d \<leftarrow> digit_val c;
     let v = acc * 10 + d;
     ensure (v < 2 ^ 64);
     parse_digits v cs }"

text \<open>\<open>str::parse::<usize>\<close>: a sign \<open>+\<close> is allowed, no digits are an error.\<close>

definition parse_usize :: "string \<Rightarrow> nat option" where
  "parse_usize s = (case s of [] \<Rightarrow> None
     | c # cs \<Rightarrow> if c = CHR ''+'' \<and> cs \<noteq> [] then parse_digits 0 cs else parse_digits 0 s)"

fun decimal :: "nat \<Rightarrow> string" where
  "decimal n = (if n < 10 then [char_of (48 + n)] else decimal (n div 10) @ [char_of (48 + n mod 10)])"

declare decimal.simps [simp del]

lemma digit_val_digit: "d < 10 \<Longrightarrow> digit_val (char_of (48 + d)) = Some d"
  by (simp add: digit_val_def of_char_of)

lemma parse_digits_append:
  "parse_digits a (xs @ ys) = do { v \<leftarrow> parse_digits a xs; parse_digits v ys }"
  by (induction a xs rule: parse_digits.induct) (auto simp: Let_def bind_assoc split: option.splits bind_splits)

lemma parse_decimal_digits: "n < 2 ^ 64 \<Longrightarrow> parse_digits 0 (decimal n) = Some n"
proof (induction n rule: decimal.induct)
  case (1 n)
  show ?case
  proof (cases "n < 10")
    case True
    then show ?thesis using "1.prems" by (simp add: decimal.simps [of n] digit_val_digit)
  next
    case False
    then have "parse_digits 0 (decimal (n div 10)) = Some (n div 10)" using 1 by simp
    then show ?thesis using False "1.prems"
      by (subst decimal.simps) (simp add: parse_digits_append digit_val_digit)
  qed
qed

lemma decimal_head: "\<exists>d cs. d < 10 \<and> decimal n = char_of (48 + d :: nat) # cs"
proof (induction n rule: decimal.induct)
  case (1 n)
  then show ?case by (cases "n < 10") (auto simp: decimal.simps [of n])
qed

lemma parse_decimal: "n < 2 ^ 64 \<Longrightarrow> parse_usize (decimal n) = Some n"
proof -
  obtain d cs where d: "d < 10" "decimal n = char_of (48 + d :: nat) # cs" using decimal_head by blast
  have c: "of_char (char_of (48 + d :: nat) :: char) = (48 + d :: nat)" using d(1) by (simp add: of_char_of)
  have "char_of (48 + d :: nat) \<noteq> CHR ''+''"
  proof
    assume "char_of (48 + d :: nat) = CHR ''+''"
    then have "(of_char (CHR ''+'') :: nat) = 48 + d" using c by simp
    then show False by simp
  qed
  then show "n < 2 ^ 64 \<Longrightarrow> parse_usize (decimal n) = Some n" using parse_decimal_digits [of n] d(2) by (simp add: parse_usize_def)
qed

section \<open>The table of page counts\<close>

text \<open>The loop of \<open>generate_num_pages\<close> over the tokens: \<open>vals\<close> is the text of the elements, \<open>idx\<close> their number. Line breaks
  and indentation of the text, which is parsed again, are left out.\<close>

fun num_pages_loop :: "token list \<Rightarrow> string \<Rightarrow> nat \<Rightarrow> (string \<times> nat) option" where
  "num_pages_loop [] vals idx = Some (vals, idx)"
| "num_pages_loop (TLiteral s # it) vals idx = do {
     cl \<leftarrow> parse_usize s;
     l \<leftarrow> lcm_rs 4096 cl;
     num_pages_loop it (vals @ decimal (l div 4096) @ '', '') (idx + 1) }"
| "num_pages_loop (TPunct c # it) vals idx = num_pages_loop it vals idx"
| "num_pages_loop (t # it) vals idx = None"

definition num_pages_text :: "token list \<Rightarrow> string option" where
  "num_pages_text it = do {
     (vals, idx) \<leftarrow> num_pages_loop it '''' 0;
     Some (''const SIZE_CLASS_PAGES: [usize; '' @ decimal idx @ ''] = ['' @ vals @ ''];'') }"

definition sizes_tokens :: "nat list \<Rightarrow> token list" where
  "sizes_tokens cls = concat (map (\<lambda>cl. [TLiteral (decimal cl), TPunct CHR '','']) cls)"

lemma num_pages_loop_sizes:
  assumes "\<forall>cl \<in> set cls. cl < 2 ^ 64" and "generate_num_pages cls = Some ns"
  shows "num_pages_loop (sizes_tokens cls) vals idx = Some (vals @ concat (map (\<lambda>n. decimal n @ '', '') ns), idx + length ns)"
  using assms
proof (induction cls arbitrary: vals idx ns)
  case (Cons cl cls)
  then obtain l ns' where l: "lcm_rs 4096 cl = Some l" "generate_num_pages cls = Some ns'" "ns = l div 4096 # ns'"
    by (auto simp: bind_eq_Some_conv)
  then show ?case using Cons.IH [OF _ l(2)] Cons.prems(1) parse_decimal [of cl] by (simp add: sizes_tokens_def)
qed (simp add: sizes_tokens_def)



section \<open>Its use\<close>

text \<open>The mi table invokes the macro on its sizes, without a comma after the last.\<close>

definition MI_PAGES_TOKENS :: "token list" where
  "MI_PAGES_TOKENS = butlast (sizes_tokens MI_SIZE_ARRAY)"

lemma num_pages_loop_comma: "num_pages_loop (it @ [TPunct c]) vals idx = num_pages_loop it vals idx"
  by (induction it vals idx rule: num_pages_loop.induct) (auto split: bind_splits)

lemma sizes_tokens_comma: "cls \<noteq> [] \<Longrightarrow> sizes_tokens cls = butlast (sizes_tokens cls) @ [TPunct CHR '','']"
  by (induction cls) (auto simp: sizes_tokens_def)

lemma mi_pages_text:
  "num_pages_text MI_PAGES_TOKENS = num_pages_text (sizes_tokens MI_SIZE_ARRAY)"
proof -
  have "MI_SIZE_ARRAY \<noteq> []" by (simp add: MI_SIZE_ARRAY_def)
  from arg_cong [OF sizes_tokens_comma [OF this], of num_pages_text] show ?thesis
    by (simp add: MI_PAGES_TOKENS_def num_pages_text_def num_pages_loop_comma)
qed

definition mi_get_num_pages_by_idx :: "nat \<Rightarrow> nat option" where
  "mi_get_num_pages_by_idx idx = do { pages \<leftarrow> generate_num_pages MI_SIZE_ARRAY; aget pages idx }"

lemma mi_pages_fit: "idx < 46 \<Longrightarrow> \<exists>n. mi_get_num_pages_by_idx idx = Some n \<and> fits_exactly (MI_SIZE_ARRAY ! idx) n"
proof -
  obtain pages where p: "generate_num_pages MI_SIZE_ARRAY = Some pages" "list_all2 fits_exactly MI_SIZE_ARRAY pages"
    using generated_pages_fit [of MI_SIZE_ARRAY] by (auto simp: MI_SIZE_ARRAY_def)
  assume "idx < 46"
  then have "idx < length MI_SIZE_ARRAY" by (simp add: MI_SIZE_ARRAY_def)
  then show ?thesis using p list_all2_nthD [OF p(2)] list_all2_lengthD [OF p(2)] by (auto simp: mi_get_num_pages_by_idx_def aget_def)
qed

end
