(* ===== verification/SeparatePage.thy ===== *)
theory SeparatePage
  imports FreeList
begin

text \<open>
  The slabs of the older slab allocator (\<open>page/separate_page.rs\<close>): a header with a count and the address of the
  pages, and a field of bits, kept apart from it, that says which objects are handed out. Bit \<open>k mod 32\<close> of word
  \<open>k div 32\<close> is object \<open>k\<close>. The loops over words and bits are proved equal to a search through the object numbers.
\<close>

unbundle bit_operations_syntax

type_synonym bitfield = "32 word list"

definition u32_max :: "32 word" where "u32_max = - 1"

definition trailing_ones :: "32 word \<Rightarrow> nat" where
  "trailing_ones w = length (takeWhile (bit w) [0..<32])"

section \<open>The header\<close>

record sep_page =
  op_counter :: nat
  op_data :: nat

definition sp_new :: sep_page where
  "sp_new = \<lparr>op_counter = 0, op_data = 0\<rparr>"

definition sp_allocate_page :: "free_list \<Rightarrow> sep_page \<Rightarrow> nat \<Rightarrow> (free_list \<times> sep_page \<times> nat) option" where
  "sp_allocate_page b p pg_num = do {
     (b, ans) \<leftarrow> bsa_alloc b \<lparr>lsize = wmul PAGE_SIZE pg_num, lalign = 8\<rparr>;
     ensure (ans \<noteq> 0);
     Some (b, p\<lparr>op_data := ans\<rparr>, ans) }"

definition sp_get_data_ptr :: "sep_page \<Rightarrow> nat option" where
  "sp_get_data_ptr p = (if op_data p \<noteq> 0 then Some (op_data p) else None)"

definition sp_destroy_page :: "free_list \<Rightarrow> sep_page \<Rightarrow> nat \<Rightarrow> (free_list \<times> sep_page \<times> nat) option" where
  "sp_destroy_page b pg pg_num =
     (if op_data pg \<noteq> 0 then do {
        let p = op_data pg;
        b \<leftarrow> bsa_dealloc b p \<lparr>lsize = wmul PAGE_SIZE pg_num, lalign = 8\<rparr>;
        Some (b, pg\<lparr>op_data := 0\<rparr>, p) }
      else None)"

definition sp_is_inited :: "sep_page \<Rightarrow> bool" where
  "sp_is_inited p = (op_data p \<noteq> 0)"

definition sp_is_full :: "sep_page \<Rightarrow> nat \<Rightarrow> bool" where
  "sp_is_full p pg_count = (pg_count \<le> op_counter p)"

definition sp_is_empty :: "sep_page \<Rightarrow> bool" where
  "sp_is_empty p = (op_counter p = 0)"

section \<open>The search for a free object\<close>

text \<open>
  The inner loop of \<open>first_fit\<close>: \<^term>\<open>None\<close> when it runs out of bits, \<^term>\<open>Some None\<close> for its \<open>return None\<close>, and else
  the object, its address and the new value of the word.
\<close>

function ff_bits :: "nat \<Rightarrow> nat \<Rightarrow> 32 word \<Rightarrow> nat \<Rightarrow> nat \<Rightarrow> nat \<Rightarrow> nat \<Rightarrow> nat \<Rightarrow> (nat \<times> nat \<times> 32 word) option option" where
  "ff_bits base_addr align bitval base_idx pg_count pg_align pg_num first_free =
     (if first_free < 32 then
        (let idx = base_idx * 32 + first_free in
         if idx > pg_count then Some None
         else (let offset = wmul idx pg_align in
           if wadd offset pg_align > wmul PAGE_SIZE pg_num then Some None
           else (let addr = wadd base_addr offset;
                     alignment_ok = (addr AND (align - 1) = 0);
                     block_is_free = (bitval AND push_bit first_free 1 = 0)
             in if alignment_ok \<and> block_is_free then Some (Some (idx, addr, bitval OR push_bit first_free 1))
                else ff_bits base_addr align bitval base_idx pg_count pg_align pg_num (first_free + 1))))
      else None)"
  by pat_completeness auto
termination by (relation "measure (\<lambda>(ba, a, bv, bi, pc, pa, pn, f). 32 - f)") auto

declare ff_bits.simps [simp del]

fun ff_words :: "nat \<Rightarrow> nat \<Rightarrow> nat \<Rightarrow> nat \<Rightarrow> nat \<Rightarrow> nat \<Rightarrow> bitfield \<Rightarrow> (nat \<times> nat) option \<times> bitfield" where
  "ff_words base_addr align pg_count pg_align pg_num base_idx [] = (None, [])"
| "ff_words base_addr align pg_count pg_align pg_num base_idx (bitval # bvs) =
     (if bitval = u32_max
      then (let (r, bvs') = ff_words base_addr align pg_count pg_align pg_num (base_idx + 1) bvs in (r, bitval # bvs'))
      else (case ff_bits base_addr align bitval base_idx pg_count pg_align pg_num (trailing_ones bitval) of
          Some None \<Rightarrow> (None, bitval # bvs)
        | Some (Some (idx, addr, v)) \<Rightarrow> (Some (idx, addr), v # bvs)
        | None \<Rightarrow> (let (r, bvs') = ff_words base_addr align pg_count pg_align pg_num (base_idx + 1) bvs in (r, bitval # bvs'))))"

definition first_fit :: "nat \<Rightarrow> nat \<Rightarrow> bitfield \<Rightarrow> nat \<Rightarrow> nat \<Rightarrow> nat \<Rightarrow> (nat \<times> nat) option \<times> bitfield" where
  "first_fit base_addr align bf pg_count pg_align pg_num = ff_words base_addr align pg_count pg_align pg_num 0 bf"

definition sp_allocate :: "sep_page \<Rightarrow> nat \<Rightarrow> bitfield \<Rightarrow> nat \<Rightarrow> nat \<Rightarrow> nat \<Rightarrow> sep_page \<times> bitfield \<times> nat" where
  "sp_allocate p align bf pg_count pg_align pg_num =
     (if op_counter p \<ge> pg_count then (p, bf, 0)
      else (case first_fit (op_data p) align bf pg_count pg_align pg_num of
          (Some (_, addr), bf) \<Rightarrow> (p\<lparr>op_counter := op_counter p + 1\<rparr>, bf, addr)
        | (None, bf) \<Rightarrow> (p, bf, 0)))"

definition sp_allocate_all :: "sep_page \<Rightarrow> bitfield \<Rightarrow> nat \<Rightarrow> sep_page \<times> bitfield \<times> nat" where
  "sp_allocate_all p bf pg_count = (p\<lparr>op_counter := pg_count\<rparr>, map (\<lambda>_. u32_max) bf, op_data p)"

definition sp_deallocate :: "sep_page \<Rightarrow> nat \<Rightarrow> bitfield \<Rightarrow> nat \<Rightarrow> (sep_page \<times> bitfield \<times> (alloc_error + unit)) option" where
  "sp_deallocate p ptr bf pg_align = do {
     let base_addr = op_data p;
     let page_offset = wsub ptr base_addr;
     ensure (pg_align \<noteq> 0);
     let num = page_offset div pg_align;
     let idx = num div 32;
     let rem = num mod 32;
     bitval \<leftarrow> aget bf idx;
     if bitval AND push_bit rem 1 = 0 then Some (p, bf, Inl EDBFRE)
     else do {
       let newval = bitval AND NOT (push_bit rem 1);
       Some (p\<lparr>op_counter := wsub (op_counter p) 1\<rparr>, bf[idx := newval], Inr ()) } }"

text \<open>The loop of \<open>deallocate_batch\<close>, with its \<open>break\<close>.\<close>

fun free_objects :: "nat \<Rightarrow> nat \<Rightarrow> nat \<Rightarrow> nat list \<Rightarrow> bitfield \<Rightarrow> nat \<Rightarrow> (bitfield \<times> nat) option" where
  "free_objects base_addr pg_align pg_num [] bf ans = Some (bf, ans)"
| "free_objects base_addr pg_align pg_num (ptr # ptrs) bf ans =
     (if ptr < base_addr \<or> ptr - base_addr \<ge> wmul pg_num PAGE_SIZE then Some (bf, ans)
      else do {
        let page_offset = ptr - base_addr;
        ensure (pg_align \<noteq> 0);
        let num = page_offset div pg_align;
        let idx = num div 32;
        let rem = num AND 31;
        bitval \<leftarrow> aget bf idx;
        ensure (bitval AND push_bit rem 1 \<noteq> 0);
        free_objects base_addr pg_align pg_num ptrs (bf[idx := bitval AND NOT (push_bit rem 1)]) (ans + 1) })"

definition sp_deallocate_batch :: "sep_page \<Rightarrow> nat list \<Rightarrow> bitfield \<Rightarrow> nat \<Rightarrow> nat \<Rightarrow> (sep_page \<times> bitfield \<times> nat) option" where
  "sp_deallocate_batch p res_array bf pg_align pg_num = do {
     (bf, ans) \<leftarrow> free_objects (op_data p) pg_align pg_num res_array bf 0;
     Some (p\<lparr>op_counter := wsub (op_counter p) ans\<rparr>, bf, ans) }"

section \<open>Taking several objects\<close>

text \<open>
  The loops of \<open>allocate_batch\<close>; the state is the array of results, the number taken and the count of the header, and
  the flag says that the function returned from inside the loop.
\<close>

function ab_bits :: "nat \<Rightarrow> nat \<Rightarrow> nat \<Rightarrow> nat \<Rightarrow> nat \<Rightarrow> nat \<Rightarrow> 32 word \<Rightarrow> nat list \<Rightarrow> nat \<Rightarrow> nat \<Rightarrow> nat \<Rightarrow>
    (bool \<times> 32 word \<times> nat list \<times> nat \<times> nat) option" where
  "ab_bits dat start count pg_count pg_align base_idx bitval res allocated counter first_free =
     (if first_free < 32 then
        (let n = push_bit first_free 1 in
         if n AND bitval = 0 then
           (let idx = base_idx * 32 + first_free in
            if idx \<ge> pg_count then Some (True, bitval, res, allocated, counter)
            else do {
              let offset = wmul idx pg_align;
              let addr = wadd dat offset;
              res \<leftarrow> aset res (start + allocated) addr;
              let bitval = bitval OR push_bit first_free 1;
              let allocated = allocated + 1;
              let counter = counter + 1;
              if allocated \<ge> count then Some (True, bitval, res, allocated, counter)
              else ab_bits dat start count pg_count pg_align base_idx bitval res allocated counter (first_free + 1) })
         else ab_bits dat start count pg_count pg_align base_idx bitval res allocated counter (first_free + 1))
      else Some (False, bitval, res, allocated, counter))"
  by pat_completeness auto
termination by (relation "measure (\<lambda>(d, s, c, pc, pa, bi, bv, r, al, ct, f). 32 - f)") auto

declare ab_bits.simps [simp del]

fun ab_words :: "nat \<Rightarrow> nat \<Rightarrow> nat \<Rightarrow> nat \<Rightarrow> nat \<Rightarrow> nat \<Rightarrow> bitfield \<Rightarrow> nat list \<Rightarrow> nat \<Rightarrow> nat \<Rightarrow>
    (bitfield \<times> nat list \<times> nat \<times> nat) option" where
  "ab_words dat start count pg_count pg_align base_idx [] res allocated counter = Some ([], res, allocated, counter)"
| "ab_words dat start count pg_count pg_align base_idx (bitval # bvs) res allocated counter =
     (if bitval = u32_max then do {
        (bvs, res, allocated, counter) \<leftarrow> ab_words dat start count pg_count pg_align (base_idx + 1) bvs res allocated counter;
        Some (bitval # bvs, res, allocated, counter) }
      else do {
        (ret, bitval, res, allocated, counter) \<leftarrow>
          ab_bits dat start count pg_count pg_align base_idx bitval res allocated counter (trailing_ones bitval);
        if ret then Some (bitval # bvs, res, allocated, counter)
        else do {
          (bvs, res, allocated, counter) \<leftarrow> ab_words dat start count pg_count pg_align (base_idx + 1) bvs res allocated counter;
          Some (bitval # bvs, res, allocated, counter) } })"

definition sp_allocate_batch :: "sep_page \<Rightarrow> nat list \<Rightarrow> nat \<Rightarrow> nat \<Rightarrow> bitfield \<Rightarrow> nat \<Rightarrow> nat \<Rightarrow>
    (sep_page \<times> nat list \<times> bitfield \<times> nat) option" where
  "sp_allocate_batch p res_array start count bf pg_count pg_align = do {
     ensure (\<not> op_counter p \<ge> pg_count);
     (bf, res, allocated, counter) \<leftarrow>
       ab_words (op_data p) start count pg_count pg_align 0 bf res_array 0 (op_counter p);
     Some (p\<lparr>op_counter := counter\<rparr>, res, bf, allocated) }"

section \<open>The set of objects handed out\<close>

definition used :: "bitfield \<Rightarrow> nat \<Rightarrow> bool" where
  "used bf k \<longleftrightarrow> k < 32 * length bf \<and> bit (bf ! (k div 32)) (k mod 32)"

lemma bit_set_word: "j < 32 \<Longrightarrow> bit ((w :: 32 word) OR push_bit i 1) j \<longleftrightarrow> bit w j \<or> i = j"
  by (auto simp: bit_or_iff bit_exp_iff)

lemma bit_clear_word: "j < 32 \<Longrightarrow> bit ((w :: 32 word) AND NOT (push_bit i 1)) j \<longleftrightarrow> bit w j \<and> i \<noteq> j"
  by (auto simp: bit_and_iff bit_not_iff bit_exp_iff)

lemma bit_test_word: "i < 32 \<Longrightarrow> (w :: 32 word) AND push_bit i 1 = 0 \<longleftrightarrow> \<not> bit w i"
  by (simp add: push_bit_of_1 and_exp_eq_0_iff_not_bit)

lemma bit_test_word': "i < 32 \<Longrightarrow> push_bit i 1 AND (w :: 32 word) = 0 \<longleftrightarrow> \<not> bit w i"
  using bit_test_word by (simp add: and.commute)

lemma bit_u32_max: "j < 32 \<Longrightarrow> bit u32_max j"
  by (simp add: u32_max_def)

lemma trailing_ones_bits:
  "trailing_ones w \<le> 32" "i < trailing_ones w \<Longrightarrow> bit w i" "trailing_ones w < 32 \<or> w = u32_max"
proof -
  show "trailing_ones w \<le> 32"
    using length_takeWhile_le [of "bit w" "[0..<32]"] by (simp add: trailing_ones_def)
  show *: "bit w i" if "i < trailing_ones w" for i
  proof -
    have "takeWhile (bit w) [0..<32] ! i \<in> set (takeWhile (bit w) [0..<32])"
      using that by (intro nth_mem) (simp add: trailing_ones_def)
    moreover have "takeWhile (bit w) [0..<32] ! i = i"
      using that \<open>trailing_ones w \<le> 32\<close> takeWhile_nth [of i "bit w" "[0..<32]"] by (simp add: trailing_ones_def)
    ultimately show ?thesis by (auto dest: set_takeWhileD)
  qed
  have "w = u32_max" if "trailing_ones w = 32"
    using * that by (intro bit_word_eqI) (auto simp: u32_max_def)
  then show "trailing_ones w < 32 \<or> w = u32_max" using \<open>trailing_ones w \<le> 32\<close> by linarith
qed


lemma used_update:
  assumes "i < length bf" and "\<And>j. j < 32 \<Longrightarrow> bit v j = P j"
  shows "used (bf[i := v]) k = (if k div 32 = i \<and> k < 32 * length bf then P (k mod 32) else used bf k)"
  using assms by (auto simp: used_def nth_list_update)

lemma used_set:
  assumes "k < 32 * length bf"
  shows "used (bf[k div 32 := (bf ! (k div 32)) OR push_bit (k mod 32) 1]) x \<longleftrightarrow> used bf x \<or> x = k"
proof -
  have i: "k div 32 < length bf" using assms by auto
  have "x div 32 = k div 32 \<Longrightarrow> (k mod 32 = x mod 32) = (x = k)" by (metis div_mult_mod_eq)
  then show ?thesis using assms by (subst used_update [OF i bit_set_word]) (auto simp: used_def)
qed

lemma used_clear:
  assumes "k < 32 * length bf"
  shows "used (bf[k div 32 := (bf ! (k div 32)) AND NOT (push_bit (k mod 32) 1)]) x \<longleftrightarrow> used bf x \<and> x \<noteq> k"
proof -
  have i: "k div 32 < length bf" using assms by auto
  have "x div 32 = k div 32 \<Longrightarrow> (k mod 32 = x mod 32) = (x = k)" by (metis div_mult_mod_eq)
  then show ?thesis using assms by (subst used_update [OF i bit_clear_word]) (auto simp: used_def)
qed

text \<open>Clearing the bit just set restores the words.\<close>

lemma clear_set_word: "\<not> bit (w :: 32 word) i \<Longrightarrow> (w OR push_bit i 1) AND NOT (push_bit i 1) = w"
  by (rule bit_word_eqI) (auto simp: bit_or_iff bit_and_iff bit_not_iff bit_exp_iff)

section \<open>The search is a search through the numbers\<close>

text \<open>The bounds under which no address wraps around.\<close>

definition page_dims :: "nat \<Rightarrow> nat \<Rightarrow> nat \<Rightarrow> nat \<Rightarrow> bool" where
  "page_dims base pc pa pn \<longleftrightarrow> 0 < pa \<and> base + (pc + 1) * pa < 2 ^ 64 \<and> pn < 2 ^ 50"

definition room :: "nat \<Rightarrow> nat \<Rightarrow> nat \<Rightarrow> nat \<Rightarrow> bool" where
  "room pc pa pn k \<longleftrightarrow> k \<le> pc \<and> (k + 1) * pa \<le> 4096 * pn"

lemma room_mono: "room pc pa pn k \<Longrightarrow> j \<le> k \<Longrightarrow> room pc pa pn j"
  unfolding room_def by (metis Suc_eq_plus1 Suc_le_mono le_trans mult_le_mono1)

lemma ff_bits_step:
  assumes d: "page_dims base pc pa pn" and f: "f < 32" and al: "is_pow2 algn"
  shows "ff_bits base algn w b pc pa pn f =
    (if \<not> room pc pa pn (b * 32 + f) then Some None
     else if algn dvd base + (b * 32 + f) * pa \<and> \<not> bit w f
     then Some (Some (b * 32 + f, base + (b * 32 + f) * pa, w OR push_bit f 1))
     else ff_bits base algn w b pc pa pn (f + 1))"
proof (cases "b * 32 + f \<le> pc")
  case False
  then show ?thesis using f by (subst ff_bits.simps) (simp add: room_def Let_def)
next
  case True
  let ?k = "b * 32 + f"
  have "?k * pa \<le> pc * pa" using True by (rule mult_le_mono1)
  then have "base + (?k * pa + pa) \<le> base + (pc + 1) * pa" by simp
  then have w: "base + (?k * pa + pa) < 2 ^ 64" "4096 * pn < 2 ^ 64"
    using d by (auto simp: page_dims_def simp del: mult_Suc add_mult_distrib elim: le_less_trans)
  then have e: "wmul ?k pa = ?k * pa" "wadd (?k * pa) pa = (?k + 1) * pa" "wadd base (?k * pa) = base + ?k * pa"
    "wmul PAGE_SIZE pn = 4096 * pn" by (simp_all add: PAGE_SIZE_def)
  have "(base + ?k * pa) AND (algn - 1) = 0 \<longleftrightarrow> algn dvd base + ?k * pa"
    unfolding and_mask_mod [OF al] by (simp only: dvd_eq_mod_eq_0)
  then show ?thesis unfolding ff_bits.simps [of base algn w b pc pa pn f] Let_def e bit_test_word [OF f]
    using f True by (simp add: room_def not_le)
qed

text \<open>The first object that has room, is aligned and is free.\<close>

definition good :: "nat \<Rightarrow> nat \<Rightarrow> nat \<Rightarrow> nat \<Rightarrow> nat \<Rightarrow> (nat \<Rightarrow> bool) \<Rightarrow> nat \<Rightarrow> bool" where
  "good base algn pc pa pn u k \<longleftrightarrow> room pc pa pn k \<and> algn dvd base + k * pa \<and> \<not> u k"

lemma ff_bits_find:
  assumes d: "page_dims base pc pa pn" and al: "is_pow2 algn" and "f < 32"
  shows "ff_bits base algn w b pc pa pn f =
    (case find (\<lambda>i. good base algn pc pa pn (\<lambda>k. bit w (k - b * 32)) (b * 32 + i)) [f..<32] of
       Some i \<Rightarrow> Some (Some (b * 32 + i, base + (b * 32 + i) * pa, w OR push_bit i 1))
     | None \<Rightarrow> if room pc pa pn (b * 32 + 31) then None else Some None)"
  using assms(3)
proof (induction "32 - f" arbitrary: f rule: less_induct)
  case less
  have up: "[f..<32] = f # [f + 1..<32]" using less.prems by (simp add: upt_conv_Cons)
  have end': "ff_bits base algn w b pc pa pn 32 = None" by (subst ff_bits.simps) simp
  have out: "find (\<lambda>i. good base algn pc pa pn u (b * 32 + i)) xs = None"
    if "\<not> room pc pa pn (b * 32 + f)" "\<forall>i \<in> set xs. f \<le> i" for u xs
    using that room_mono [of pc pa pn] by (auto simp: find_None_iff good_def)
  have rest: "ff_bits base algn w b pc pa pn (f + 1) =
    (case find (\<lambda>i. good base algn pc pa pn (\<lambda>k. bit w (k - b * 32)) (b * 32 + i)) [f + 1..<32] of
       Some i \<Rightarrow> Some (Some (b * 32 + i, base + (b * 32 + i) * pa, w OR push_bit i 1))
     | None \<Rightarrow> if room pc pa pn (b * 32 + 31) then None else Some None)" if r: "room pc pa pn (b * 32 + f)"
  proof (cases "f + 1 < 32")
    case True
    then show ?thesis by (intro less.hyps) auto
  next
    case False
    then have "f = 31" using less.prems by simp
    then show ?thesis using end' r by simp
  qed
  show ?case
  proof (cases "room pc pa pn (b * 32 + f)")
    case False
    have "b * 32 + f \<le> b * 32 + 31" using less.prems by simp
    then have "\<not> room pc pa pn (b * 32 + 31)" using room_mono False by blast
    then show ?thesis using False out [OF False, of "[f..<32]"] by (simp add: ff_bits_step [OF d less.prems al])
  next
    case True
    then show ?thesis unfolding ff_bits_step [OF d less.prems al] up rest [OF True] by (simp add: good_def)
  qed
qed

text \<open>Word by word.\<close>

lemma word_range: "[32 * b..<32 * b + 32] = map (\<lambda>i. b * 32 + i) [0..<32]" for b :: nat
  by (rule nth_equalityI) auto

definition word_search :: "nat \<Rightarrow> nat \<Rightarrow> nat \<Rightarrow> nat \<Rightarrow> nat \<Rightarrow> nat \<Rightarrow> bitfield \<Rightarrow> nat option" where
  "word_search base algn pc pa pn b bvs =
     find (good base algn pc pa pn (\<lambda>k. bit (bvs ! (k div 32 - b)) (k mod 32))) [32 * b..<32 * b + 32 * length bvs]"

lemma word_search_Cons:
  "word_search base algn pc pa pn b (w # bvs) =
     (case find (\<lambda>i. good base algn pc pa pn (\<lambda>k. bit w (k - b * 32)) (b * 32 + i)) [trailing_ones w..<32] of
        Some i \<Rightarrow> Some (b * 32 + i)
      | None \<Rightarrow> word_search base algn pc pa pn (b + 1) bvs)"
proof -
  let ?g = "good base algn pc pa pn"
  have split: "[32 * b..<32 * b + 32 * length (w # bvs)]
      = [32 * b..<32 * b + 32] @ [32 * (b + 1)..<32 * (b + 1) + 32 * length bvs]"
    using upt_add_eq_append [of "32 * b" "32 * b + 32" "32 * length bvs"] by (simp add: algebra_simps)
  have d: "(b * 32 + i) div 32 = b" "(b * 32 + i) mod 32 = i" if "i < 32" for i using that by auto
  have "find (?g (\<lambda>k. bit ((w # bvs) ! (k div 32 - b)) (k mod 32))) [32 * b..<32 * b + 32]
      = map_option (\<lambda>i. b * 32 + i) (find (\<lambda>i. ?g (\<lambda>k. bit w (k - b * 32)) (b * 32 + i)) [0..<32])"
    unfolding word_range find_map_eq by (rule arg_cong [where f = "map_option _"], rule find_cong) (auto simp: good_def d)
  also have "find (\<lambda>i. ?g (\<lambda>k. bit w (k - b * 32)) (b * 32 + i)) [0..<32]
      = find (\<lambda>i. ?g (\<lambda>k. bit w (k - b * 32)) (b * 32 + i)) [trailing_ones w..<32]"
    using trailing_ones_bits by (intro find_skip) (auto simp: good_def)
  moreover have "find (?g (\<lambda>k. bit ((w # bvs) ! (k div 32 - b)) (k mod 32))) [32 * (b + 1)..<32 * (b + 1) + 32 * length bvs]
      = word_search base algn pc pa pn (b + 1) bvs"
  proof -
    have "k div 32 - b = Suc (k div 32 - (b + 1))" if "32 * (b + 1) \<le> k" for k using that by auto
    then show ?thesis unfolding word_search_def by (intro find_cong refl) (simp add: good_def)
  qed
  ultimately show ?thesis unfolding word_search_def [of base algn pc pa pn b] split find_append
    by (simp split: option.split)
qed

lemma ff_words_find:
  assumes d: "page_dims base pc pa pn" and al: "is_pow2 algn"
  shows "ff_words base algn pc pa pn b bvs = (case word_search base algn pc pa pn b bvs of
      None \<Rightarrow> (None, bvs)
    | Some k \<Rightarrow> (Some (k, base + k * pa), bvs[k div 32 - b := (bvs ! (k div 32 - b)) OR push_bit (k mod 32) 1]))"
proof (induction bvs arbitrary: b)
  case Nil
  then show ?case by (simp add: word_search_def)
next
  case (Cons w bvs)
  let ?P = "\<lambda>i. good base algn pc pa pn (\<lambda>k. bit w (k - b * 32)) (b * 32 + i)"
  have rest: "(let (r, bvs') = ff_words base algn pc pa pn (b + 1) bvs in (r, w # bvs')) =
    (case word_search base algn pc pa pn (b + 1) bvs of
      None \<Rightarrow> (None, w # bvs)
    | Some k \<Rightarrow> (Some (k, base + k * pa), (w # bvs)[k div 32 - b := ((w # bvs) ! (k div 32 - b)) OR push_bit (k mod 32) 1]))"
  proof (cases "word_search base algn pc pa pn (b + 1) bvs")
    case None
    then show ?thesis by (simp add: Cons.IH)
  next
    case (Some k)
    then have "32 * (b + 1) \<le> k" by (auto simp: word_search_def find_Some_iff)
    then have "k div 32 - b = Suc (k div 32 - (b + 1))" by auto
    then show ?thesis using Some by (simp add: Cons.IH)
  qed
  show ?case
  proof (cases "w = u32_max")
    case True
    then have "find ?P [trailing_ones w..<32] = None" by (auto simp: find_None_iff good_def bit_u32_max)
    then show ?thesis using True rest by (simp add: word_search_Cons)
  next
    case False
    then have t: "trailing_ones w < 32" using trailing_ones_bits(3) by blast
    show ?thesis
    proof (cases "find ?P [trailing_ones w..<32]")
      case (Some i)
      then have "i < 32" by (auto simp: find_Some_iff)
      then have "(b * 32 + i) div 32 = b" "(b * 32 + i) mod 32 = i" by auto
      then show ?thesis using False Some by (simp add: word_search_Cons ff_bits_find [OF d al t])
    next
      case None
      show ?thesis
      proof (cases "room pc pa pn (b * 32 + 31)")
        case True
        then show ?thesis using False None rest by (simp add: word_search_Cons ff_bits_find [OF d al t])
      next
        case r: False
        have "\<not> room pc pa pn k" if "32 * (b + 1) \<le> k" for k
        proof -
          have "b * 32 + 31 \<le> k" using that by simp
          then show ?thesis using r room_mono by blast
        qed
        then have "word_search base algn pc pa pn (b + 1) bvs = None"
          by (auto simp: word_search_def find_None_iff good_def)
        then show ?thesis using False None r by (simp add: word_search_Cons ff_bits_find [OF d al t])
      qed
    qed
  qed
qed

lemma first_fit_find:
  assumes "page_dims base pc pa pn" and "is_pow2 algn"
  shows "first_fit base algn bf pc pa pn = (case find (good base algn pc pa pn (used bf)) [0..<32 * length bf] of
      None \<Rightarrow> (None, bf)
    | Some k \<Rightarrow> (Some (k, base + k * pa), bf[k div 32 := (bf ! (k div 32)) OR push_bit (k mod 32) 1]))"
proof -
  have "word_search base algn pc pa pn 0 bf = find (good base algn pc pa pn (used bf)) [0..<32 * length bf]"
    unfolding word_search_def by (auto simp: good_def used_def intro!: find_cong)
  then show ?thesis unfolding first_fit_def ff_words_find [OF assms] by (simp only: diff_zero)
qed

text \<open>C27: The search word by word and bit by bit, which skips full words and leading ones and stops early, finds the first
  object, by number, that fits in the pages, is aligned and is free; it marks exactly that object, and when there is none
  it changes nothing.\<close>

theorem first_fit_is_linear_search:
  assumes "page_dims base pc pa pn" and "is_pow2 algn"
  shows "case find (\<lambda>k. k \<le> pc \<and> (k + 1) * pa \<le> 4096 * pn \<and> algn dvd base + k * pa \<and> \<not> used bf k) [0..<32 * length bf] of
      None \<Rightarrow> first_fit base algn bf pc pa pn = (None, bf)
    | Some k \<Rightarrow> (\<exists>bf'. first_fit base algn bf pc pa pn = (Some (k, base + k * pa), bf') \<and> length bf' = length bf
        \<and> (\<forall>x. used bf' x \<longleftrightarrow> used bf x \<or> x = k))"
proof -
  have g: "(\<lambda>k. k \<le> pc \<and> (k + 1) * pa \<le> 4096 * pn \<and> algn dvd base + k * pa \<and> \<not> used bf k) = good base algn pc pa pn (used bf)"
    by (rule ext) (simp add: good_def room_def)
  show ?thesis unfolding g
  proof (cases "find (good base algn pc pa pn (used bf)) [0..<32 * length bf]")
    case None
    then show "case find (good base algn pc pa pn (used bf)) [0..<32 * length bf] of
      None \<Rightarrow> first_fit base algn bf pc pa pn = (None, bf)
    | Some k \<Rightarrow> (\<exists>bf'. first_fit base algn bf pc pa pn = (Some (k, base + k * pa), bf') \<and> length bf' = length bf
        \<and> (\<forall>x. used bf' x \<longleftrightarrow> used bf x \<or> x = k))" by (simp add: first_fit_find [OF assms])
  next
    case (Some k)
    then have "k < 32 * length bf" by (auto simp: find_Some_iff)
    then show "case find (good base algn pc pa pn (used bf)) [0..<32 * length bf] of
      None \<Rightarrow> first_fit base algn bf pc pa pn = (None, bf)
    | Some k \<Rightarrow> (\<exists>bf'. first_fit base algn bf pc pa pn = (Some (k, base + k * pa), bf') \<and> length bf' = length bf
        \<and> (\<forall>x. used bf' x \<longleftrightarrow> used bf x \<or> x = k))" using Some used_set by (simp add: first_fit_find [OF assms])
  qed
qed

section \<open>The invariant of a slab\<close>

definition sp_ok :: "sep_page \<Rightarrow> bitfield \<Rightarrow> nat \<Rightarrow> nat \<Rightarrow> nat \<Rightarrow> bool" where
  "sp_ok p bf pc pa pn \<longleftrightarrow> page_dims (op_data p) pc pa pn \<and> 0 < op_data p \<and> pc \<le> 32 * length bf \<and> pc < 2 ^ 32
     \<and> pc * pa \<le> 4096 * pn \<and> 4096 * pn < (pc + 1) * pa \<and> op_counter p = card {k. k < pc \<and> used bf k}"

lemma room_iff: "sp_ok p bf pc pa pn \<Longrightarrow> room pc pa pn k \<longleftrightarrow> k < pc"
proof -
  assume ok: "sp_ok p bf pc pa pn"
  have "(k + 1) * pa \<le> 4096 * pn" if "k < pc"
  proof -
    have "(k + 1) * pa \<le> pc * pa" using that by (intro mult_le_mono1) simp
    then show ?thesis using ok by (simp add: sp_ok_def)
  qed
  moreover have "\<not> (k + 1) * pa \<le> 4096 * pn" if "k = pc" using ok that by (simp add: sp_ok_def)
  ultimately show ?thesis unfolding room_def by (metis le_less_linear less_imp_le nat_less_le)
qed

lemma finite_objects [simp]: "finite {k. k < (pc :: nat) \<and> P k}"
  by (rule finite_subset [of _ "{..<pc}"]) auto

lemma sp_ok_take:
  assumes ok: "sp_ok p bf pc pa pn" and k: "k < pc" "\<not> used bf k"
    and bf': "length bf' = length bf" "\<And>x. used bf' x \<longleftrightarrow> used bf x \<or> x = k"
  shows "sp_ok (p\<lparr>op_counter := op_counter p + 1\<rparr>) bf' pc pa pn"
proof -
  have "{x. x < pc \<and> used bf' x} = insert k {x. x < pc \<and> used bf x}" using k(1) bf'(2) by auto
  then have "card {x. x < pc \<and> used bf' x} = Suc (card {x. x < pc \<and> used bf x})" using k(2) by simp
  then show ?thesis using ok bf'(1) by (simp add: sp_ok_def)
qed

lemma sp_ok_release:
  assumes ok: "sp_ok p bf pc pa pn" and k: "k < pc" "used bf k"
    and bf': "length bf' = length bf" "\<And>x. used bf' x \<longleftrightarrow> used bf x \<and> x \<noteq> k"
  shows "sp_ok (p\<lparr>op_counter := op_counter p - 1\<rparr>) bf' pc pa pn" "0 < op_counter p"
proof -
  have "{x. x < pc \<and> used bf x} = insert k {x. x < pc \<and> used bf' x}" using k bf'(2) by auto
  then have "card {x. x < pc \<and> used bf x} = Suc (card {x. x < pc \<and> used bf' x})" using bf'(2) by simp
  then show "sp_ok (p\<lparr>op_counter := op_counter p - 1\<rparr>) bf' pc pa pn" "0 < op_counter p"
    using ok bf'(1) by (simp_all add: sp_ok_def)
qed

lemma counter_bound:
  assumes "sp_ok p bf pc pa pn"
  shows "op_counter p \<le> pc" "op_counter p < pc \<longleftrightarrow> (\<exists>k < pc. \<not> used bf k)"
proof -
  have c: "op_counter p = card {k. k < pc \<and> used bf k}" using assms by (simp add: sp_ok_def)
  have sub: "{k. k < pc \<and> used bf k} \<subseteq> {..<pc}" by auto
  show "op_counter p \<le> pc" using card_mono [OF _ sub] c by simp
  have "card {k. k < pc \<and> used bf k} = pc \<longleftrightarrow> {k. k < pc \<and> used bf k} = {..<pc}"
  proof
    assume "card {k. k < pc \<and> used bf k} = pc"
    then have "card {k. k < pc \<and> used bf k} = card {..<pc}" by simp
    then show "{k. k < pc \<and> used bf k} = {..<pc}" by (rule card_subset_eq [OF finite_lessThan sub])
  next
    assume "{k. k < pc \<and> used bf k} = {..<pc}"
    then show "card {k. k < pc \<and> used bf k} = pc" by (simp only: card_lessThan)
  qed
  also have "\<dots> \<longleftrightarrow> \<not> (\<exists>k < pc. \<not> used bf k)" by blast
  finally have "op_counter p = pc \<longleftrightarrow> \<not> (\<exists>k < pc. \<not> used bf k)" unfolding c .
  then show "op_counter p < pc \<longleftrightarrow> (\<exists>k < pc. \<not> used bf k)" using \<open>op_counter p \<le> pc\<close>
    by (simp add: less_le)
qed

lemma sp_allocate_ok:
  assumes ok: "sp_ok p bf pc pa pn" and al: "is_pow2 algn"
  shows "case find (\<lambda>k. algn dvd op_data p + k * pa \<and> \<not> used bf k) [0..<pc] of
      None \<Rightarrow> sp_allocate p algn bf pc pa pn = (p, bf, 0)
    | Some k \<Rightarrow> (\<exists>p' bf'. sp_allocate p algn bf pc pa pn = (p', bf', op_data p + k * pa) \<and> op_data p' = op_data p
        \<and> op_counter p' = op_counter p + 1 \<and> sp_ok p' bf' pc pa pn \<and> (\<forall>x. used bf' x \<longleftrightarrow> used bf x \<or> x = k))"
proof -
  let ?g = "good (op_data p) algn pc pa pn (used bf)" and ?h = "\<lambda>k. algn dvd op_data p + k * pa \<and> \<not> used bf k"
  have d: "page_dims (op_data p) pc pa pn" and len: "pc \<le> 32 * length bf" using ok by (auto simp: sp_ok_def)
  have split: "[0..<32 * length bf] = [0..<pc] @ [pc..<32 * length bf]"
    using len upt_add_eq_append [of 0 pc "32 * length bf - pc"] by simp
  have "find ?g [pc..<32 * length bf] = None" using room_iff [OF ok] by (auto simp: find_None_iff good_def)
  moreover have "find ?g [0..<pc] = find ?h [0..<pc]" using room_iff [OF ok] by (intro find_cong) (auto simp: good_def)
  ultimately have f: "find ?g [0..<32 * length bf] = find ?h [0..<pc]"
    unfolding split find_append by (simp split: option.split)
  show ?thesis
  proof (cases "find ?h [0..<pc]")
    case None
    then show ?thesis using f by (simp add: sp_allocate_def first_fit_find [OF d al])
  next
    case (Some k)
    then have k: "k < pc" "\<not> used bf k" by (auto simp: find_Some_iff)
    then have "op_counter p < pc" using counter_bound(2) [OF ok] by blast
    moreover have "k < 32 * length bf" using k(1) len by simp
    note u = used_set [OF this]
    ultimately show ?thesis using Some f sp_ok_take [OF ok k _ u]
      by (simp add: sp_allocate_def first_fit_find [OF d al] u)
  qed
qed

text \<open>An allocation from a slab never panics. It returns the first free object that is aligned, marks it, counts it and
  keeps the slab well formed, or returns null and changes nothing when no free object is aligned.\<close>

theorem sp_allocate_correct:
  assumes ok: "sp_ok p bf pc pa pn" and al: "is_pow2 algn"
  shows "case find (\<lambda>k. algn dvd op_data p + k * pa \<and> \<not> used bf k) [0..<pc] of
      None \<Rightarrow> sp_allocate p algn bf pc pa pn = (p, bf, 0)
    | Some k \<Rightarrow> (\<exists>p' bf'. sp_allocate p algn bf pc pa pn = (p', bf', op_data p + k * pa) \<and> op_data p' = op_data p
        \<and> op_counter p' = op_counter p + 1 \<and> sp_ok p' bf' pc pa pn \<and> (\<forall>x. used bf' x \<longleftrightarrow> used bf x \<or> x = k))"
  by (rule sp_allocate_ok [OF assms])

text \<open>The number of an object from its address.\<close>

lemma object_number:
  assumes "sp_ok p bf pc pa pn" and "k < pc"
  shows "wsub (op_data p + k * pa) (op_data p) = k * pa" "k * pa div pa = k" "0 < pa" "op_data p + k * pa < 2 ^ 64"
    "k div 32 < length bf"
proof -
  have pa: "0 < pa" and b: "op_data p + (pc + 1) * pa < 2 ^ 64" using assms(1) by (auto simp: sp_ok_def page_dims_def)
  have "k * pa \<le> (pc + 1) * pa" using assms(2) by (intro mult_le_mono1) simp
  then show lt: "op_data p + k * pa < 2 ^ 64" using b by linarith
  show "wsub (op_data p + k * pa) (op_data p) = k * pa" using lt by simp
  show "k * pa div pa = k" "0 < pa" using pa by simp_all
  show "k div 32 < length bf" using assms by (auto simp: sp_ok_def)
qed

lemma sp_deallocate_eq:
  assumes ok: "sp_ok p bf pc pa pn" and k: "k < pc"
  shows "sp_deallocate p (op_data p + k * pa) bf pa =
    (if used bf k then Some (p\<lparr>op_counter := op_counter p - 1\<rparr>, bf[k div 32 := (bf ! (k div 32)) AND NOT (push_bit (k mod 32) 1)], Inr ())
     else Some (p, bf, Inl EDBFRE))"
proof -
  note n = object_number [OF ok k]
  have u: "used bf k \<longleftrightarrow> bit (bf ! (k div 32)) (k mod 32)" using n(5) by (auto simp: used_def)
  have len: "k < 32 * length bf" using n(5) by auto
  have t: "bf ! (k div 32) AND push_bit (k mod 32) 1 = 0 \<longleftrightarrow> \<not> used bf k" unfolding u by (intro bit_test_word) simp
  show ?thesis
  proof (cases "used bf k")
    case False
    then show ?thesis unfolding sp_deallocate_def Let_def n(1,2) using n(3,5) t by (simp add: aget_def)
  next
    case True
    have "0 < op_counter p" by (rule sp_ok_release(2) [OF ok k True _ used_clear [OF len]]) simp
    moreover have "op_counter p < 2 ^ 64" using counter_bound(1) [OF ok] ok by (simp add: sp_ok_def)
    ultimately have "wsub (op_counter p) 1 = op_counter p - 1" by (intro wsub_exact) auto
    then show ?thesis unfolding sp_deallocate_def Let_def n(1,2) using n(3,5) t True by (simp add: aget_def)
  qed
qed

text \<open>Giving an object back unmarks exactly it and keeps the slab well formed. A second free of the same object is
  noticed: it is the error \<open>EDBFRE\<close> and changes nothing.\<close>

theorem sp_deallocate_correct:
  assumes ok: "sp_ok p bf pc pa pn" and k: "k < pc"
  shows "if used bf k
    then \<exists>p' bf'. sp_deallocate p (op_data p + k * pa) bf pa = Some (p', bf', Inr ()) \<and> sp_ok p' bf' pc pa pn
      \<and> op_counter p' + 1 = op_counter p \<and> (\<forall>x. used bf' x \<longleftrightarrow> used bf x \<and> x \<noteq> k)
      \<and> sp_deallocate p' (op_data p + k * pa) bf' pa = Some (p', bf', Inl EDBFRE)
    else sp_deallocate p (op_data p + k * pa) bf pa = Some (p, bf, Inl EDBFRE)"
proof (cases "used bf k")
  case False
  then show ?thesis by (simp add: sp_deallocate_eq [OF ok k])
next
  case True
  have len: "k < 32 * length bf" using k ok by (simp add: sp_ok_def)
  let ?bf = "bf[k div 32 := (bf ! (k div 32)) AND NOT (push_bit (k mod 32) 1)]"
  let ?p = "p\<lparr>op_counter := op_counter p - 1\<rparr>"
  note u = used_clear [OF len]
  have r: "sp_ok ?p ?bf pc pa pn" "0 < op_counter p" using sp_ok_release [OF ok k True _ u] by simp_all
  have "sp_deallocate ?p (op_data ?p + k * pa) ?bf pa = Some (?p, ?bf, Inl EDBFRE)"
    using sp_deallocate_eq [OF r(1) k] u by simp
  then show ?thesis using True r u by (simp add: sp_deallocate_eq [OF ok k])
qed

text \<open>Taking an object and giving it back restores the header and every bit of the field.\<close>

theorem sp_allocate_deallocate:
  assumes ok: "sp_ok p bf pc pa pn" and al: "is_pow2 algn" and a: "sp_allocate p algn bf pc pa pn = (p', bf', a)" "a \<noteq> 0"
  shows "sp_deallocate p' a bf' pa = Some (p, bf, Inr ())"
proof -
  have d: "page_dims (op_data p) pc pa pn" and len: "pc \<le> 32 * length bf" using ok by (auto simp: sp_ok_def)
  have nf: "\<not> pc \<le> op_counter p" using a by (auto simp: sp_allocate_def)
  let ?g = "good (op_data p) algn pc pa pn (used bf)"
  obtain k where k: "find ?g [0..<32 * length bf] = Some k"
    using a nf by (cases "find ?g [0..<32 * length bf]") (auto simp: sp_allocate_def first_fit_find [OF d al])
  then have "?g k" by (auto simp: find_Some_iff)
  then have kp: "k < pc" "\<not> used bf k" using room_iff [OF ok] by (auto simp: good_def)
  have kl: "k < 32 * length bf" using kp(1) len by simp
  let ?w = "bf ! (k div 32)"
  have e: "p' = p\<lparr>op_counter := op_counter p + 1\<rparr>" "bf' = bf[k div 32 := ?w OR push_bit (k mod 32) 1]" "a = op_data p + k * pa"
    using a(1) nf k by (auto simp: sp_allocate_def first_fit_find [OF d al])
  have ok': "sp_ok p' bf' pc pa pn" unfolding e using used_set [OF kl] by (intro sp_ok_take [OF ok kp]) auto
  have "used bf' k" unfolding e using used_set [OF kl] by simp
  moreover have "\<not> bit ?w (k mod 32)" using kp(2) kl by (auto simp: used_def)
  then have "bf'[k div 32 := (bf' ! (k div 32)) AND NOT (push_bit (k mod 32) 1)] = bf"
    unfolding e using kl clear_set_word by (auto simp: nth_list_update list_update_id)
  ultimately show ?thesis using sp_deallocate_eq [OF ok' kp(1)] by (simp add: e)
qed

section \<open>Batches\<close>

lemma and_31: "num AND 31 = num mod (32 :: nat)"
  using and_mask_mod [of 32 num] is_pow2_power [of 5] by simp

text \<open>What a batch of addresses is: objects of the slab, then perhaps an address outside it.\<close>

definition addrs :: "sep_page \<Rightarrow> nat \<Rightarrow> nat list \<Rightarrow> nat list" where
  "addrs p pa ks = map (\<lambda>k. op_data p + k * pa) ks"

lemma free_objects_ok:
  assumes "sp_ok p bf pc pa pn" and "distinct ks" and "\<forall>k \<in> set ks. k < pc \<and> used bf k"
    and "rest = [] \<or> hd rest < op_data p \<or> op_data p + pn * 4096 \<le> hd rest"
  shows "\<exists>bf'. free_objects (op_data p) pa pn (addrs p pa ks @ rest) bf ans = Some (bf', ans + length ks)
    \<and> length bf' = length bf \<and> (\<forall>x. used bf' x \<longleftrightarrow> used bf x \<and> x \<notin> set ks)
    \<and> sp_ok (p\<lparr>op_counter := op_counter p - length ks\<rparr>) bf' pc pa pn \<and> length ks \<le> op_counter p"
  using assms
proof (induction ks arbitrary: bf ans p)
  case Nil
  have "wmul pn PAGE_SIZE = pn * 4096" using Nil.prems(1) by (simp add: sp_ok_def page_dims_def PAGE_SIZE_def)
  then show ?case using Nil.prems by (cases rest) (auto simp: addrs_def)
next
  case (Cons k ks)
  have ok: "sp_ok p bf pc pa pn" and k: "k < pc" "used bf k" using Cons.prems by auto
  note n = object_number [OF ok k(1)]
  have kl: "k < 32 * length bf" using k(1) ok by (simp add: sp_ok_def)
  let ?w = "bf ! (k div 32)"
  let ?bf = "bf[k div 32 := ?w AND NOT (push_bit (k mod 32) 1)]" and ?p = "p\<lparr>op_counter := op_counter p - 1\<rparr>"
  note u = used_clear [OF kl]
  have r: "sp_ok ?p ?bf pc pa pn" "0 < op_counter p" using sp_ok_release [OF ok k _ u] by simp_all
  obtain bf' where i: "free_objects (op_data ?p) pa pn (addrs ?p pa ks @ rest) ?bf (ans + 1) = Some (bf', ans + 1 + length ks)"
    "length bf' = length ?bf" "\<forall>x. used bf' x \<longleftrightarrow> used ?bf x \<and> x \<notin> set ks"
    "sp_ok (?p\<lparr>op_counter := op_counter ?p - length ks\<rparr>) bf' pc pa pn" "length ks \<le> op_counter ?p"
    using Cons.IH [OF r(1), of "ans + 1"] Cons.prems u by auto
  have "k * pa < pn * 4096"
  proof -
    have "(k + 1) * pa \<le> pc * pa" using k(1) by (intro mult_le_mono1) simp
    then have "k * pa + pa \<le> 4096 * pn" using ok by (simp add: sp_ok_def)
    then show ?thesis using n(3) by linarith
  qed
  moreover have "wmul pn PAGE_SIZE = pn * 4096" using ok by (simp add: sp_ok_def page_dims_def PAGE_SIZE_def)
  moreover have "?w AND push_bit (k mod 32) 1 \<noteq> 0" using k(2) by (subst bit_test_word) (simp_all add: used_def)
  ultimately have step: "free_objects (op_data p) pa pn (addrs p pa (k # ks) @ rest) bf ans
      = free_objects (op_data p) pa pn (addrs p pa ks @ rest) ?bf (ans + 1)"
    using n(2,3,5) by (simp add: addrs_def and_31 aget_def Let_def ensure_def)
  have "addrs ?p pa ks = addrs p pa ks" by (simp add: addrs_def)
  then show ?case using i step u r(2) by (intro exI [of _ bf']) auto
qed

lemma sp_deallocate_batch_ok:
  assumes "sp_ok p bf pc pa pn" and "distinct ks" and "\<forall>k \<in> set ks. k < pc \<and> used bf k"
    and "rest = [] \<or> hd rest < op_data p \<or> op_data p + pn * 4096 \<le> hd rest"
  shows "\<exists>p' bf'. sp_deallocate_batch p (map (\<lambda>k. op_data p + k * pa) ks @ rest) bf pa pn = Some (p', bf', length ks)
    \<and> sp_ok p' bf' pc pa pn \<and> length bf' = length bf \<and> op_counter p' + length ks = op_counter p \<and> (\<forall>x. used bf' x \<longleftrightarrow> used bf x \<and> x \<notin> set ks)"
proof -
  obtain bf' where f: "free_objects (op_data p) pa pn (addrs p pa ks @ rest) bf 0 = Some (bf', 0 + length ks)"
    "length bf' = length bf" "\<forall>x. used bf' x \<longleftrightarrow> used bf x \<and> x \<notin> set ks" "sp_ok (p\<lparr>op_counter := op_counter p - length ks\<rparr>) bf' pc pa pn"
    "length ks \<le> op_counter p" using free_objects_ok [OF assms, of 0] by blast
  have "op_counter p < 2 ^ 64" using counter_bound(1) [OF assms(1)] assms(1) by (simp add: sp_ok_def)
  then have "wsub (op_counter p) (length ks) = op_counter p - length ks" using f(5) by simp
  then have "sp_deallocate_batch p (addrs p pa ks @ rest) bf pa pn = Some (p\<lparr>op_counter := op_counter p - length ks\<rparr>, bf', length ks)"
    using f(1) by (simp add: sp_deallocate_batch_def)
  then show ?thesis using f(2-5) unfolding addrs_def by simp
qed

text \<open>A batch that starts with distinct objects of the slab, all handed out, and then leaves the slab gives back exactly
  those objects; the number returned is where the rest of the batch starts.\<close>

theorem sp_deallocate_batch_correct:
  assumes "sp_ok p bf pc pa pn" and "distinct ks" and "\<forall>k \<in> set ks. k < pc \<and> used bf k"
    and "rest = [] \<or> hd rest < op_data p \<or> op_data p + pn * 4096 \<le> hd rest"
  shows "\<exists>p' bf'. sp_deallocate_batch p (map (\<lambda>k. op_data p + k * pa) ks @ rest) bf pa pn = Some (p', bf', length ks)
    \<and> sp_ok p' bf' pc pa pn \<and> op_counter p' + length ks = op_counter p \<and> (\<forall>x. used bf' x \<longleftrightarrow> used bf x \<and> x \<notin> set ks)"
  using sp_deallocate_batch_ok [OF assms] by blast

section \<open>Taking a batch\<close>

fun write_from :: "nat list \<Rightarrow> nat \<Rightarrow> nat list \<Rightarrow> nat list" where
  "write_from res i [] = res"
| "write_from res i (x # xs) = write_from (res[i := x]) (i + 1) xs"

lemma write_from_length [simp]: "length (write_from res i xs) = length res"
  by (induction xs arbitrary: res i) auto

lemma write_from_append: "write_from res i (xs @ ys) = write_from (write_from res i xs) (i + length xs) ys"
  by (induction xs arbitrary: res i) auto

lemma write_from_nth:
  "i + length xs \<le> length res \<Longrightarrow> j < length res \<Longrightarrow>
    write_from res i xs ! j = (if i \<le> j \<and> j < i + length xs then xs ! (j - i) else res ! j)"
proof (induction xs arbitrary: res i)
  case (Cons x xs)
  then show ?case by (auto simp: nth_list_update nth_Cons')
qed auto

definition word_free :: "32 word \<Rightarrow> nat \<Rightarrow> nat \<Rightarrow> nat \<Rightarrow> nat list" where
  "word_free w b pc f = filter (\<lambda>k. \<not> bit w (k - b * 32) \<and> k < pc) [b * 32 + f..<b * 32 + 32]"

lemma word_free_step:
  assumes "f < 32"
  shows "word_free w b pc f =
    (if \<not> bit w f \<and> b * 32 + f < pc then (b * 32 + f) # word_free w b pc (f + 1) else word_free w b pc (f + 1))"
  using assms by (simp add: word_free_def upt_conv_Cons)

lemma word_free_cong: "(\<And>i. f \<le> i \<Longrightarrow> i < 32 \<Longrightarrow> bit v i = bit w i) \<Longrightarrow> word_free v b pc f = word_free w b pc f"
  unfolding word_free_def by (intro filter_cong refl) auto

lemma word_free_end: "pc \<le> b * 32 + f \<Longrightarrow> word_free w b pc f = []"
  by (auto simp: word_free_def filter_empty_conv)

definition batch_of :: "nat \<Rightarrow> nat \<Rightarrow> (nat \<Rightarrow> nat) \<Rightarrow> nat list \<Rightarrow> nat \<Rightarrow> nat \<Rightarrow> nat list \<Rightarrow> nat list \<times> nat \<times> nat" where
  "batch_of start count addr res al ct ks = (write_from res (start + al) (map addr ks), al + length ks, ct + length ks)"

lemma batch_of_Cons:
  "batch_of start count addr res al ct (k # ks) = batch_of start count addr (res[start + al := addr k]) (al + 1) (ct + 1) ks"
  by (simp add: batch_of_def)

lemma batch_of_append:
  "batch_of start count addr res al ct (ks @ js) =
    (let (r, a, c) = batch_of start count addr res al ct ks in batch_of start count addr r a c js)"
  by (simp add: batch_of_def write_from_append ac_simps)

definition word_batch :: "nat \<Rightarrow> nat \<Rightarrow> nat \<Rightarrow> nat \<Rightarrow> nat \<Rightarrow> nat \<Rightarrow> 32 word \<Rightarrow> nat list \<Rightarrow> nat \<Rightarrow> nat \<Rightarrow> nat \<Rightarrow> nat list \<Rightarrow> nat list \<Rightarrow> bool" where
  "word_batch dat start count pc pa b w res al ct f fr ks \<longleftrightarrow> (\<exists>ret w'.
    ab_bits dat start count pc pa b w res al ct f = Some (ret, w', batch_of start count (\<lambda>k. dat + k * pa) res al ct ks)
    \<and> (\<forall>j < 32. bit w' j \<longleftrightarrow> bit w j \<or> b * 32 + j \<in> set ks)
    \<and> (if ret then al + length ks = count \<or> pc \<le> b * 32 + 32 else al + length ks < count \<and> ks = fr))"

lemma ab_bits_ok:
  assumes "f \<le> 32" and "al < count" and "start + count \<le> length res" and "dat + pc * pa < 2 ^ 64"
  shows "word_batch dat start count pc pa b w res al ct f (word_free w b pc f) (take (count - al) (word_free w b pc f))"
  using assms(1-3)
proof (induction "32 - f" arbitrary: f w res al ct)
  case 0
  then have "word_free w b pc f = []" "ab_bits dat start count pc pa b w res al ct f = Some (False, w, res, al, ct)"
    by (simp add: word_free_def, subst ab_bits.simps, simp)
  then show ?case unfolding word_batch_def using 0 by (intro exI [of _ False] exI [of _ w]) (simp add: batch_of_def)
next
  case (Suc n)
  then have f: "f < 32" by simp
  show ?case
  proof (cases "bit w f")
    case True
    then have st: "ab_bits dat start count pc pa b w res al ct f = ab_bits dat start count pc pa b w res al ct (f + 1)"
      using f by (subst ab_bits.simps) (simp add: bit_test_word' [simplified])
    have wf: "word_free w b pc f = word_free w b pc (f + 1)" using True word_free_step [OF f] by simp
    have "word_batch dat start count pc pa b w res al ct (f + 1) (word_free w b pc (f + 1)) (take (count - al) (word_free w b pc (f + 1)))"
      using Suc.hyps Suc.prems f by (intro Suc.hyps(1)) auto
    then show ?thesis unfolding word_batch_def st wf .
  next
    case free: False
    show ?thesis
    proof (cases "b * 32 + f < pc")
      case False
      then have "ab_bits dat start count pc pa b w res al ct f = Some (True, w, res, al, ct)"
        using f free by (subst ab_bits.simps) (simp add: bit_test_word' [simplified])
      then show ?thesis using False f Suc.prems unfolding word_batch_def
        by (intro exI [of _ True] exI [of _ w]) (simp add: word_free_end batch_of_def)
    next
      case True
      let ?k = "b * 32 + f" and ?addr = "\<lambda>k. dat + k * pa"
      let ?res = "res[start + al := ?addr ?k]" and ?w = "w OR push_bit f 1" and ?fr = "word_free w b pc (f + 1)"
      let ?ks = "take (count - (al + 1)) ?fr"
      have "?k * pa \<le> pc * pa" using True by (intro mult_le_mono1) simp
      then have b: "dat + ?k * pa < 2 ^ 64" "?k * pa < 2 ^ 64" using assms(4) by linarith+
      then have e: "wadd dat (wmul ?k pa) = ?addr ?k" by simp
      have s: "aset res (start + al) (?addr ?k) = Some ?res" using Suc.prems by (simp add: aset_def)
      have wf: "word_free w b pc f = ?k # ?fr" using True free word_free_step [OF f] by simp
      have tk: "take (count - al) (?k # ?fr) = ?k # ?ks" using Suc.prems(2) by (simp add: take_Cons')
      have bits: "\<forall>j < 32. bit ?w j \<longleftrightarrow> bit w j \<or> f = j" using bit_set_word by blast
      have body: "ab_bits dat start count pc pa b w res al ct f =
        (if al + 1 \<ge> count then Some (True, ?w, ?res, al + 1, ct + 1)
         else ab_bits dat start count pc pa b ?w ?res (al + 1) (ct + 1) (f + 1))"
        unfolding ab_bits.simps [of dat start count pc pa b w res al ct f] Let_def e s bit_test_word' [OF f]
        using f free True by simp
      show ?thesis
      proof (cases "al + 1 \<ge> count")
        case c: True
        then have "?ks = []" by simp
        then show ?thesis unfolding word_batch_def wf tk body batch_of_Cons using c bits Suc.prems(2)
          by (intro exI [of _ True] exI [of _ ?w]) (auto simp: batch_of_def)
      next
        case more: False
        have wf': "word_free ?w b pc (f + 1) = ?fr" using bits by (intro word_free_cong) auto
        have "word_batch dat start count pc pa b ?w ?res (al + 1) (ct + 1) (f + 1) (word_free ?w b pc (f + 1))
          (take (count - (al + 1)) (word_free ?w b pc (f + 1)))"
          using Suc.hyps Suc.prems f more by (intro Suc.hyps(1)) auto
        then obtain ret w' where i: "ab_bits dat start count pc pa b ?w ?res (al + 1) (ct + 1) (f + 1)
            = Some (ret, w', batch_of start count ?addr ?res (al + 1) (ct + 1) ?ks)"
          "\<forall>j < 32. bit w' j \<longleftrightarrow> bit ?w j \<or> b * 32 + j \<in> set ?ks"
          "if ret then al + 1 + length ?ks = count \<or> pc \<le> b * 32 + 32 else al + 1 + length ?ks < count \<and> ?ks = ?fr"
          unfolding word_batch_def wf' by blast
        have "\<forall>j < 32. bit w' j \<longleftrightarrow> bit w j \<or> ?k = b * 32 + j \<or> b * 32 + j \<in> set ?ks" using i(2) bits by auto
        then show ?thesis unfolding word_batch_def wf tk body batch_of_Cons if_not_P [OF more] i(1) using i(3)
          by (intro exI [of _ ret] exI [of _ w']) auto
      qed
    qed
  qed
qed

definition field_free :: "nat \<Rightarrow> bitfield \<Rightarrow> nat \<Rightarrow> nat list" where
  "field_free b bvs pc = filter (\<lambda>k. \<not> bit (bvs ! (k div 32 - b)) (k mod 32) \<and> k < pc) [32 * b..<32 * b + 32 * length bvs]"

lemma word_free_map: "word_free w b pc f = map (\<lambda>i. b * 32 + i) (filter (\<lambda>i. \<not> bit w i \<and> b * 32 + i < pc) [f..<32])"
proof -
  have "[b * 32 + f..<b * 32 + 32] = map (\<lambda>i. b * 32 + i) [f..<32]" by (rule nth_equalityI) auto
  then show ?thesis by (simp add: word_free_def filter_map comp_def)
qed

lemma field_free_Cons:
  "field_free b (w # bvs) pc = word_free w b pc (trailing_ones w) @ field_free (b + 1) bvs pc"
proof -
  have split: "[32 * b..<32 * b + 32 * length (w # bvs)] = map (\<lambda>i. b * 32 + i) [0..<32] @ [32 * (b + 1)..<32 * (b + 1) + 32 * length bvs]"
    unfolding word_range [symmetric]
    using upt_add_eq_append [of "32 * b" "32 * b + 32" "32 * length bvs"] by (simp add: algebra_simps)
  have d: "(b * 32 + i) div 32 = b" "(b * 32 + i) mod 32 = i" if "i < 32" for i using that by auto
  have "filter (\<lambda>k. \<not> bit ((w # bvs) ! (k div 32 - b)) (k mod 32) \<and> k < pc) (map (\<lambda>i. b * 32 + i) [0..<32])
      = map (\<lambda>i. b * 32 + i) (filter (\<lambda>i. \<not> bit w i \<and> b * 32 + i < pc) [0..<32])"
    unfolding filter_map by (rule arg_cong [where f = "map _"], rule filter_cong) (auto simp: d)
  also have "\<dots> = word_free w b pc (trailing_ones w)"
    unfolding word_free_map using trailing_ones_bits by (subst filter_skip) auto
  moreover have "filter (\<lambda>k. \<not> bit ((w # bvs) ! (k div 32 - b)) (k mod 32) \<and> k < pc) [32 * (b + 1)..<32 * (b + 1) + 32 * length bvs]
      = field_free (b + 1) bvs pc"
  proof -
    have "k div 32 - b = Suc (k div 32 - (b + 1))" if "32 * (b + 1) \<le> k" for k using that by auto
    then show ?thesis unfolding field_free_def by (intro filter_cong refl) simp
  qed
  ultimately show ?thesis unfolding field_free_def [of b] split by simp
qed

lemma field_free_end: "pc \<le> 32 * b \<Longrightarrow> field_free b bvs pc = []"
  by (auto simp: field_free_def filter_empty_conv)

lemma ab_words_ok:
  assumes "al < count" and "start + count \<le> length res" and "dat + pc * pa < 2 ^ 64"
  shows "\<exists>bvs'. ab_words dat start count pc pa b bvs res al ct =
      Some (bvs', batch_of start count (\<lambda>k. dat + k * pa) res al ct (take (count - al) (field_free b bvs pc)))
    \<and> length bvs' = length bvs \<and> (\<forall>i < length bvs. \<forall>j < 32. bit (bvs' ! i) j \<longleftrightarrow>
        bit (bvs ! i) j \<or> 32 * (b + i) + j \<in> set (take (count - al) (field_free b bvs pc)))"
  using assms(1,2)
proof (induction bvs arbitrary: b res al ct)
  case Nil
  then show ?case by (simp add: field_free_def batch_of_def)
next
  case (Cons w bvs)
  let ?addr = "\<lambda>k. dat + k * pa" and ?F = "field_free (b + 1) bvs pc" and ?fr = "word_free w b pc (trailing_ones w)"
  have later: "32 * (b + 1) \<le> k" if "k \<in> set ?F" for k using that by (auto simp: field_free_def)
  have here: "b * 32 \<le> k \<and> k < 32 * (b + 1)" if "k \<in> set ?fr" for k using that by (auto simp: word_free_def)
  have rest: "\<exists>bvs'. ab_words dat start count pc pa (b + 1) bvs res al ct =
      Some (bvs', batch_of start count ?addr res al ct (take (count - al) ?F))
    \<and> length bvs' = length bvs \<and> (\<forall>i < length bvs. \<forall>j < 32. bit (bvs' ! i) j \<longleftrightarrow>
        bit (bvs ! i) j \<or> 32 * (b + 1 + i) + j \<in> set (take (count - al) ?F))"
    if "al < count" "start + count \<le> length res" for res al ct by (rule Cons.IH [OF that])
  have fin: "\<exists>bvs'. ab_words dat start count pc pa b (w # bvs) res al ct =
      Some (bvs', batch_of start count ?addr res al ct (take (count - al) (field_free b (w # bvs) pc)))
    \<and> length bvs' = length (w # bvs) \<and> (\<forall>i < length (w # bvs). \<forall>j < 32. bit (bvs' ! i) j \<longleftrightarrow>
        bit ((w # bvs) ! i) j \<or> 32 * (b + i) + j \<in> set (take (count - al) (field_free b (w # bvs) pc)))"
    if e: "ab_words dat start count pc pa b (w # bvs) res al ct
        = Some (w' # bvs', batch_of start count ?addr res al ct (ks @ js))" and l: "length bvs' = length bvs"
      and tk: "take (count - al) (?fr @ ?F) = ks @ js" "set ks \<subseteq> set ?fr" "set js \<subseteq> set ?F"
      and w': "\<forall>j < 32. bit w' j \<longleftrightarrow> bit w j \<or> b * 32 + j \<in> set ks"
      and bv: "\<forall>i < length bvs. \<forall>j < 32. bit (bvs' ! i) j \<longleftrightarrow> bit (bvs ! i) j \<or> 32 * (b + 1 + i) + j \<in> set js"
    for w' bvs' ks js
  proof (intro exI conjI allI impI)
    show "ab_words dat start count pc pa b (w # bvs) res al ct =
      Some (w' # bvs', batch_of start count ?addr res al ct (take (count - al) (field_free b (w # bvs) pc)))"
      unfolding field_free_Cons tk(1) by (rule e)
    show "length (w' # bvs') = length (w # bvs)" using l by simp
    fix i j :: nat assume i: "i < length (w # bvs)" and j: "j < 32"
    show "bit ((w' # bvs') ! i) j \<longleftrightarrow> bit ((w # bvs) ! i) j
        \<or> 32 * (b + i) + j \<in> set (take (count - al) (field_free b (w # bvs) pc))"
    proof (cases i)
      case 0
      have "32 * b + j \<notin> set js" using tk(3) later [of "32 * b + j"] j by auto
      then show ?thesis unfolding field_free_Cons tk(1) using w' j 0 by (simp add: mult.commute)
    next
      case (Suc m)
      have "32 * (b + 1 + m) + j \<notin> set ks" using tk(2) here [of "32 * (b + 1 + m) + j"] by auto
      then show ?thesis unfolding field_free_Cons tk(1) using bv i j Suc by simp
    qed
  qed
  show ?case
  proof (cases "w = u32_max")
    case True
    then have "?fr = []" by (auto simp: word_free_map filter_empty_conv bit_u32_max)
    obtain bvs' where r: "ab_words dat start count pc pa (b + 1) bvs res al ct =
        Some (bvs', batch_of start count ?addr res al ct (take (count - al) ?F))" "length bvs' = length bvs"
      "\<forall>i < length bvs. \<forall>j < 32. bit (bvs' ! i) j \<longleftrightarrow> bit (bvs ! i) j \<or> 32 * (b + 1 + i) + j \<in> set (take (count - al) ?F)"
      using rest [OF Cons.prems, of ct] by blast
    show ?thesis
    proof (rule fin [where ks = "[]"])
      show "ab_words dat start count pc pa b (w # bvs) res al ct
        = Some (w # bvs', batch_of start count ?addr res al ct ([] @ take (count - al) ?F))"
        using r(1) True by (simp add: batch_of_def)
    qed (use r \<open>?fr = []\<close> in \<open>auto dest: in_set_takeD\<close>)
  next
    case False
    have "word_batch dat start count pc pa b w res al ct (trailing_ones w) ?fr (take (count - al) ?fr)"
      using trailing_ones_bits(1) Cons.prems assms(3) by (intro ab_bits_ok) auto
    then obtain ret w' where a: "ab_bits dat start count pc pa b w res al ct (trailing_ones w)
        = Some (ret, w', batch_of start count ?addr res al ct (take (count - al) ?fr))"
      "\<forall>j < 32. bit w' j \<longleftrightarrow> bit w j \<or> b * 32 + j \<in> set (take (count - al) ?fr)"
      "if ret then al + length (take (count - al) ?fr) = count \<or> pc \<le> b * 32 + 32
       else al + length (take (count - al) ?fr) < count \<and> take (count - al) ?fr = ?fr"
      unfolding word_batch_def by blast
    show ?thesis
    proof (cases ret)
      case True
      have tk: "take (count - al) (?fr @ ?F) = take (count - al) ?fr"
      proof (cases "pc \<le> b * 32 + 32")
        case True
        then have "?F = []" by (intro field_free_end) simp
        then show ?thesis by simp
      next
        case False
        then show ?thesis using a(3) \<open>ret\<close> by auto
      qed
      show ?thesis
      proof (rule fin [where js = "[]"])
        show "ab_words dat start count pc pa b (w # bvs) res al ct
          = Some (w' # bvs, batch_of start count ?addr res al ct (take (count - al) ?fr @ []))"
          using a(1) True False by (simp add: batch_of_def)
      qed (use a(2) tk in \<open>auto dest: in_set_takeD\<close>)
    next
      case go: False
      have al: "al + length ?fr < count" "take (count - al) ?fr = ?fr" using a(3) go by auto
      obtain res1 where b1: "batch_of start count ?addr res al ct ?fr = (res1, al + length ?fr, ct + length ?fr)"
        "length res1 = length res" by (simp add: batch_of_def)
      obtain bvs' where r: "ab_words dat start count pc pa (b + 1) bvs res1 (al + length ?fr) (ct + length ?fr) =
          Some (bvs', batch_of start count ?addr res1 (al + length ?fr) (ct + length ?fr) (take (count - (al + length ?fr)) ?F))"
        "length bvs' = length bvs"
        "\<forall>i < length bvs. \<forall>j < 32. bit (bvs' ! i) j \<longleftrightarrow> bit (bvs ! i) j
          \<or> 32 * (b + 1 + i) + j \<in> set (take (count - (al + length ?fr)) ?F)"
        using rest [OF al(1), of res1 "ct + length ?fr"] b1(2) Cons.prems by auto
      show ?thesis
      proof (rule fin)
        show "ab_words dat start count pc pa b (w # bvs) res al ct
          = Some (w' # bvs', batch_of start count ?addr res al ct (?fr @ take (count - (al + length ?fr)) ?F))"
          unfolding batch_of_append b1(1) Let_def prod.case using a(1) go False b1(1) r(1) al(2) by (simp split: prod.splits)
        show "take (count - al) (?fr @ ?F) = ?fr @ take (count - (al + length ?fr)) ?F" using al by simp
      qed (use a(2) al r in \<open>auto dest: in_set_takeD\<close>)
    qed
  qed
qed

lemma field_free_used: "pc \<le> 32 * length bf \<Longrightarrow> field_free 0 bf pc = filter (\<lambda>k. \<not> used bf k) [0..<pc]"
proof -
  assume pc: "pc \<le> 32 * length bf"
  have "[0..<32 * length bf] = [0..<pc] @ [pc..<32 * length bf]"
    using pc upt_add_eq_append [of 0 pc "32 * length bf - pc"] by simp
  then have "field_free 0 bf pc = filter (\<lambda>k. \<not> bit (bf ! (k div 32)) (k mod 32) \<and> k < pc) [0..<pc]"
    by (simp add: field_free_def filter_empty_conv)
  also have "\<dots> = filter (\<lambda>k. \<not> used bf k) [0..<pc]" using pc by (intro filter_cong) (auto simp: used_def)
  finally show ?thesis .
qed

lemma sp_ok_take_all:
  assumes ok: "sp_ok p bf pc pa pn" and ks: "distinct ks" "\<forall>k \<in> set ks. k < pc \<and> \<not> used bf k"
    and bf': "length bf' = length bf" "\<And>x. used bf' x \<longleftrightarrow> used bf x \<or> x \<in> set ks"
  shows "sp_ok (p\<lparr>op_counter := op_counter p + length ks\<rparr>) bf' pc pa pn"
proof -
  have "{x. x < pc \<and> used bf' x} = {x. x < pc \<and> used bf x} \<union> set ks" using ks(2) bf'(2) by auto
  moreover have "card ({x. x < pc \<and> used bf x} \<union> set ks) = card {x. x < pc \<and> used bf x} + card (set ks)"
    using ks(2) by (intro card_Un_disjoint) auto
  ultimately show ?thesis using ok bf'(1) distinct_card [OF ks(1)] by (simp add: sp_ok_def)
qed

text \<open>C28: A batch from a slab that is not full takes the first free objects in order, as many as were asked for or else all of
  them, writes their addresses from \<open>start\<close> on and nothing else, and keeps the slab well formed.\<close>

theorem sp_allocate_batch_correct:
  assumes ok: "sp_ok p bf pc pa pn" and "op_counter p < pc" and "0 < count" and "start + count \<le> length res"
    and "ks = take count (filter (\<lambda>k. \<not> used bf k) [0..<pc])"
  shows "\<exists>p' res' bf'. sp_allocate_batch p res start count bf pc pa = Some (p', res', bf', length ks)
    \<and> ks \<noteq> [] \<and> sp_ok p' bf' pc pa pn \<and> op_counter p' = op_counter p + length ks \<and> op_data p' = op_data p
    \<and> (\<forall>x. used bf' x \<longleftrightarrow> used bf x \<or> x \<in> set ks) \<and> length res' = length res
    \<and> (\<forall>j < length res. res' ! j = (if start \<le> j \<and> j < start + length ks then op_data p + ks ! (j - start) * pa else res ! j))"
proof -
  let ?addr = "\<lambda>k. op_data p + k * pa" and ?fr = "filter (\<lambda>k. \<not> used bf k) [0..<pc]"
  have pc: "pc \<le> 32 * length bf" using ok by (simp add: sp_ok_def)
  have dim: "op_data p + (pc + 1) * pa < 2 ^ 64" using ok by (simp add: sp_ok_def page_dims_def)
  moreover have "pc * pa \<le> (pc + 1) * pa" by (intro mult_le_mono1) simp
  ultimately have lt: "op_data p + pc * pa < 2 ^ 64" by linarith
  obtain bf' where a: "ab_words (op_data p) start count pc pa 0 bf res 0 (op_counter p) =
      Some (bf', batch_of start count ?addr res 0 (op_counter p) ks)" "length bf' = length bf"
    "\<forall>i < length bf. \<forall>j < 32. bit (bf' ! i) j \<longleftrightarrow> bit (bf ! i) j \<or> 32 * i + j \<in> set ks"
    using ab_words_ok [OF assms(3,4) lt, of 0 bf "op_counter p"] unfolding field_free_used [OF pc] assms(5) by auto
  have sub: "\<forall>k \<in> set ks. k < pc \<and> \<not> used bf k" using set_take_subset [of count ?fr] unfolding assms(5) by auto
  have u: "used bf' x \<longleftrightarrow> used bf x \<or> x \<in> set ks" for x
  proof (cases "x < 32 * length bf")
    case True
    then have "x div 32 < length bf" "x mod 32 < 32" "32 * (x div 32) + x mod 32 = x" by auto
    then show ?thesis using a(2,3) True unfolding used_def by metis
  next
    case False
    then show ?thesis using a(2) sub pc by (auto simp: used_def)
  qed
  have "\<exists>k < pc. \<not> used bf k" using counter_bound(2) [OF ok] assms(2) by blast
  then have "?fr \<noteq> []" by (auto simp: filter_empty_conv)
  then have ne: "ks \<noteq> []" using assms(3,5) by simp
  have len: "length ks \<le> count" using assms(5) by simp
  have "sp_allocate_batch p res start count bf pc pa = Some (p\<lparr>op_counter := op_counter p + length ks\<rparr>,
      write_from res start (map ?addr ks), bf', length ks)"
    using a(1) assms(2) by (simp add: sp_allocate_batch_def batch_of_def)
  moreover have "sp_ok (p\<lparr>op_counter := op_counter p + length ks\<rparr>) bf' pc pa pn"
    using sp_ok_take_all [OF ok _ sub a(2) u] assms(5) by simp
  ultimately show ?thesis using ne u len assms(4) by (auto simp: write_from_nth)
qed

section \<open>A concrete slab\<close>

text \<open>Forty objects of 100 bytes on one page, of which the objects 0 and 2 are handed out.\<close>

definition demo_page :: sep_page where "demo_page = \<lparr>op_counter = 2, op_data = 0x5000\<rparr>"
definition demo_field :: bitfield where "demo_field = [5, 0]"

lemma demo_used: "used demo_field k \<longleftrightarrow> k = 0 \<or> k = 2"
proof (cases "k < 32")
  case True
  have "(5 :: 32 word) = (0 OR push_bit 0 1) OR push_bit 2 1" by simp
  then have "bit (5 :: 32 word) k \<longleftrightarrow> k = 0 \<or> k = 2" using bit_set_word [OF True] by (metis bit_0_eq bot_apply bot_bool_def)
  then show ?thesis using True by (simp add: used_def demo_field_def)
next
  case False
  then show ?thesis by (auto simp: used_def demo_field_def nth_Cons')
qed

lemma demo_page_ok: "sp_ok demo_page demo_field 40 100 1"
proof -
  have "{k. k < 40 \<and> used demo_field k} = {0, 2}" unfolding demo_used by auto
  then show ?thesis by (simp add: sp_ok_def page_dims_def demo_page_def demo_field_def)
qed

lemma demo_find: "[0..<40] = 0 # 1 # 2 # 3 # [4..<40::nat]"
  by (simp add: upt_conv_Cons)

theorem first_fit_is_linear_search_witness:
  "\<exists>bf. first_fit 0x5000 8 demo_field 40 100 1 = (Some (4, 0x5190), bf) \<and> used bf 4"
proof -
  have "page_dims 0x5000 40 100 1" "is_pow2 (8 :: nat)" using is_pow2_power [of 3] by (simp_all add: page_dims_def)
  moreover have "find (\<lambda>k. k \<le> 40 \<and> (k + 1) * 100 \<le> 4096 * 1 \<and> (8 :: nat) dvd 0x5000 + k * 100 \<and> \<not> used demo_field k) [0..<32 * length demo_field] = Some 4"
    unfolding demo_used by (simp add: demo_field_def upt_conv_Cons)
  ultimately show ?thesis using first_fit_is_linear_search [of "0x5000" 40 100 1 8 demo_field] by auto
qed

theorem sp_allocate_correct_witness:
  "\<exists>p bf. sp_allocate demo_page 1 demo_field 40 100 1 = (p, bf, 0x5064) \<and> op_counter p = 3 \<and> used bf 1"
proof -
  have "find (\<lambda>k. (1 :: nat) dvd op_data demo_page + k * 100 \<and> \<not> used demo_field k) [0..<40] = Some 1"
    unfolding demo_used demo_find by simp
  then show ?thesis using sp_allocate_correct [OF demo_page_ok, of 1] is_pow2_power [of 0] by (auto simp: demo_page_def)
qed

theorem sp_deallocate_correct_witness:
  "\<exists>p bf. sp_deallocate demo_page (op_data demo_page + 2 * 100) demo_field 100 = Some (p, bf, Inr ())
    \<and> sp_deallocate p (op_data demo_page + 2 * 100) bf 100 = Some (p, bf, Inl EDBFRE)"
  using sp_deallocate_correct [OF demo_page_ok, of 2] by (auto simp: demo_used)

theorem sp_allocate_deallocate_witness:
  "\<exists>p bf a. sp_allocate demo_page 1 demo_field 40 100 1 = (p, bf, a) \<and> sp_deallocate p a bf 100 = Some (demo_page, demo_field, Inr ())"
proof -
  have one: "is_pow2 (1 :: nat)" using is_pow2_power [of 0] by simp
  have "find (\<lambda>k. k \<le> 40 \<and> (k + 1) * 100 \<le> 4096 * 1 \<and> (1 :: nat) dvd 0x5000 + k * 100 \<and> \<not> used demo_field k) [0..<32 * length demo_field] = Some 1"
    unfolding demo_used by (simp add: demo_field_def upt_conv_Cons)
  then have "find (good 0x5000 1 40 100 1 (used demo_field)) [0..<32 * length demo_field] = Some 1"
    by (simp add: good_def [abs_def] room_def ac_simps)
  then obtain p bf where a: "sp_allocate demo_page 1 demo_field 40 100 1 = (p, bf, 0x5064)"
    using first_fit_find [of "0x5000" 40 100 1 1 demo_field] one
    by (auto simp: sp_allocate_def demo_page_def page_dims_def)
  show ?thesis using a sp_allocate_deallocate [OF demo_page_ok one a] by auto
qed

theorem sp_deallocate_batch_correct_witness:
  "\<exists>p bf. sp_deallocate_batch demo_page (map (\<lambda>k. op_data demo_page + k * 100) [2, 0] @ [0x9000]) demo_field 100 1 = Some (p, bf, 2)
    \<and> op_counter p = 0"
  using sp_deallocate_batch_correct [OF demo_page_ok, of "[2, 0]" "[0x9000]"] by (auto simp: demo_used demo_page_def)

theorem sp_allocate_batch_correct_witness:
  "\<exists>p res bf. sp_allocate_batch demo_page [0, 0, 0] 1 2 demo_field 40 100 = Some (p, res, bf, 2) \<and> res ! 2 = op_data demo_page + 300"
proof -
  have c: "op_counter demo_page < 40" "(0 :: nat) < 2" "1 + 2 \<le> length [0, 0, 0 :: nat]" by (simp_all add: demo_page_def)
  have k: "[1, 3] = take 2 (filter (\<lambda>k. \<not> used demo_field k) [0..<40])" unfolding demo_used demo_find by simp
  obtain p res bf where r: "sp_allocate_batch demo_page [0, 0, 0] 1 2 demo_field 40 100 = Some (p, res, bf, length [1::nat, 3])"
    "\<forall>j < length [0, 0, 0 :: nat]. res ! j = (if 1 \<le> j \<and> j < 1 + length [1::nat, 3] then op_data demo_page + [1, 3] ! (j - 1) * 100 else [0, 0, 0] ! j)"
    using sp_allocate_batch_correct [OF demo_page_ok c k] by blast
  have "res ! 2 = op_data demo_page + 300" using r(2) [rule_format, of 2] by simp
  then show ?thesis using r(1) by auto
qed

end
