(* ===== verification/SeparateSlab.thy ===== *)
theory SeparateSlab
  imports SeparatePage CircList PageMap
begin

text \<open>
  The older slab allocator of one size class (\<open>sc/separate_sc.rs\<close>): its slabs are the items of an
  \<open>ArrayLinkedList\<close>, on four rings of indices with counts, and one vector holds the bit fields of all slabs, \<open>n\<close>
  words for each. The vectors are lists; their growth, which asks the backend for memory, is not modelled.
\<close>

record sep_allocator =
  ss_full_start :: nat
  ss_partial_start :: nat
  ss_empty_start :: nat
  ss_uninit_start :: nat
  ss_full_count :: nat
  ss_empty_count :: nat
  ss_partial_count :: nat
  ss_uninit_count :: nat
  ss_pg_num :: nat
  ss_pg_count :: nat
  ss_pg_align :: nat
  bitfields :: bitfield
  spages :: "sep_page array_list"

definition ss_empty :: "nat \<Rightarrow> nat \<Rightarrow> nat \<Rightarrow> sep_allocator" where
  "ss_empty pg_num pg_count pg_align = \<lparr>ss_full_start = 0, ss_partial_start = 0, ss_empty_start = 0, ss_uninit_start = 0,
     ss_full_count = 0, ss_empty_count = 0, ss_partial_count = 0, ss_uninit_count = 0, ss_pg_num = pg_num,
     ss_pg_count = pg_count, ss_pg_align = pg_align, bitfields = [], spages = all_new\<rparr>"

definition ss_new :: "nat \<Rightarrow> nat \<Rightarrow> sep_allocator option" where
  "ss_new class_size num_os_pages =
     (if class_size = 0 then Some (ss_empty 0 0 0)
      else do {
        let pg_count = wmul PAGE_SIZE num_os_pages div class_size;
        ensure (pg_count \<noteq> 0);
        let perfect_align = wmul PAGE_SIZE num_os_pages div pg_count;
        let diff_align = wsub perfect_align class_size;
        let min_align = (if next_power_of_two diff_align div 2 = 0 then 1 else next_power_of_two diff_align div 2);
        let rem = (if class_size mod min_align = 0 then class_size else wmul (class_size div min_align + 1) min_align);
        let algn = (if is_pow2 perfect_align then perfect_align else rem);
        Some (ss_empty num_os_pages pg_count algn) })"

section \<open>The rings\<close>

definition ss_remove_full :: "sep_allocator \<Rightarrow> nat \<Rightarrow> sep_allocator option" where
  "ss_remove_full sc idx = do {
     sc \<leftarrow> (if idx = ss_full_start sc then do { x \<leftarrow> all_get_next (spages sc) idx; Some (sc\<lparr>ss_full_start := x\<rparr>) } else Some sc);
     ps \<leftarrow> all_remove_node (spages sc) idx;
     Some (sc\<lparr>spages := ps, ss_full_count := wsub (ss_full_count sc) 1\<rparr>) }"

definition ss_insert_full :: "sep_allocator \<Rightarrow> nat \<Rightarrow> sep_allocator option" where
  "ss_insert_full sc idx = do {
     sc \<leftarrow> (if ss_full_count sc = 0
       then do { ps \<leftarrow> all_reset_links (spages sc) idx; Some (sc\<lparr>ss_full_start := idx, spages := ps\<rparr>) }
       else do { ps \<leftarrow> all_insert_to_prev (spages sc) (ss_full_start sc) idx; Some (sc\<lparr>spages := ps\<rparr>) });
     Some (sc\<lparr>ss_full_count := ss_full_count sc + 1\<rparr>) }"

definition ss_insert_partial :: "sep_allocator \<Rightarrow> nat \<Rightarrow> sep_allocator option" where
  "ss_insert_partial sc idx = do {
     sc \<leftarrow> (if ss_partial_count sc = 0
       then do { ps \<leftarrow> all_reset_links (spages sc) idx; Some (sc\<lparr>ss_partial_start := idx, spages := ps\<rparr>) }
       else do { ps \<leftarrow> all_insert_to_prev (spages sc) (ss_partial_start sc) idx; Some (sc\<lparr>spages := ps\<rparr>) });
     Some (sc\<lparr>ss_partial_count := ss_partial_count sc + 1\<rparr>) }"

definition ss_remove_partial :: "sep_allocator \<Rightarrow> nat \<Rightarrow> sep_allocator option" where
  "ss_remove_partial sc idx = do {
     sc \<leftarrow> (if idx = ss_partial_start sc then do { x \<leftarrow> all_get_next (spages sc) idx; Some (sc\<lparr>ss_partial_start := x\<rparr>) } else Some sc);
     ps \<leftarrow> all_remove_node (spages sc) idx;
     Some (sc\<lparr>spages := ps, ss_partial_count := wsub (ss_partial_count sc) 1\<rparr>) }"

definition ss_remove_uninit :: "sep_allocator \<Rightarrow> nat \<Rightarrow> sep_allocator option" where
  "ss_remove_uninit sc idx = do {
     sc \<leftarrow> (if idx = ss_uninit_start sc then do { x \<leftarrow> all_get_next (spages sc) idx; Some (sc\<lparr>ss_uninit_start := x\<rparr>) } else Some sc);
     ps \<leftarrow> all_remove_node (spages sc) idx;
     Some (sc\<lparr>spages := ps, ss_uninit_count := wsub (ss_uninit_count sc) 1\<rparr>) }"

text \<open>The number of words of a slab's bit field, the slice of slab \<open>idx\<close>, and the write through it.\<close>

definition ss_words :: "sep_allocator \<Rightarrow> nat" where
  "ss_words sc = wsub (wadd (ss_pg_count sc) 32) 1 div 32"

definition get_field :: "sep_allocator \<Rightarrow> nat \<Rightarrow> bitfield option" where
  "get_field sc idx = (let n = ss_words sc in do {
     ensure ((idx + 1) * n \<le> length (bitfields sc));
     Some (take n (drop (idx * n) (bitfields sc))) })"

definition put_field :: "sep_allocator \<Rightarrow> nat \<Rightarrow> bitfield \<Rightarrow> sep_allocator" where
  "put_field sc idx bf = (let n = ss_words sc in
     sc\<lparr>bitfields := take (idx * n) (bitfields sc) @ bf @ drop ((idx + 1) * n) (bitfields sc)\<rparr>)"

definition ss_get_uninit :: "sep_allocator \<Rightarrow> free_list \<Rightarrow> (sep_allocator \<times> free_list \<times> nat \<times> nat) option" where
  "ss_get_uninit sc b = do {
     let sc = (if ss_uninit_count sc = 0 then
         (let ps = all_push (spages sc) sp_new; n = ss_words sc; ix = wsub (all_len ps) 1
          in sc\<lparr>spages := ps, bitfields := bitfields sc @ replicate n 0, ss_uninit_start := ix,
               ss_uninit_count := ss_uninit_count sc + 1\<rparr>)
       else sc);
     let res = ss_uninit_start sc;
     sc \<leftarrow> ss_remove_uninit sc (ss_uninit_start sc);
     obj \<leftarrow> all_get (spages sc) res;
     (b, obj, ptr) \<leftarrow> sp_allocate_page b obj (ss_pg_num sc);
     ps \<leftarrow> all_get_mut (spages sc) res obj;
     Some (sc\<lparr>spages := ps\<rparr>, b, res, ptr) }"

definition ss_get_empty :: "sep_allocator \<Rightarrow> free_list \<Rightarrow> (sep_allocator \<times> free_list \<times> nat \<times> nat option) option" where
  "ss_get_empty sc b =
     (if ss_empty_count sc > 0 then do {
        let res = ss_empty_start sc;
        x \<leftarrow> all_get_next (spages sc) (ss_empty_start sc);
        ps \<leftarrow> all_remove_node (spages sc) res;
        Some (sc\<lparr>ss_empty_start := x, spages := ps, ss_empty_count := ss_empty_count sc - 1\<rparr>, b, res, None) }
      else do {
        (sc, b, idx, ptr) \<leftarrow> ss_get_uninit sc b;
        Some (sc, b, idx, Some ptr) })"

definition ss_back_uninit :: "sep_allocator \<Rightarrow> free_list \<Rightarrow> nat \<Rightarrow> (sep_allocator \<times> free_list \<times> nat) option" where
  "ss_back_uninit sc b idx = do {
     sc \<leftarrow> (if ss_uninit_count sc = 0
       then do { ps \<leftarrow> all_reset_links (spages sc) idx; Some (sc\<lparr>ss_uninit_start := idx, spages := ps\<rparr>) }
       else do { ps \<leftarrow> all_insert_to_prev (spages sc) (ss_uninit_start sc) idx; Some (sc\<lparr>spages := ps\<rparr>) });
     obj \<leftarrow> all_get (spages sc) idx;
     (b, obj, ptr) \<leftarrow> sp_destroy_page b obj (ss_pg_num sc);
     ps \<leftarrow> all_get_mut (spages sc) idx obj;
     Some (sc\<lparr>ss_uninit_count := ss_uninit_count sc + 1, spages := ps\<rparr>, b, ptr) }"

definition ss_try_back_ety :: "sep_allocator \<Rightarrow> nat \<Rightarrow> nat option option" where
  "ss_try_back_ety sc idx =
     (if ss_empty_count sc > 2048 then do {
        obj \<leftarrow> all_get (spages sc) idx;
        ptr \<leftarrow> sp_get_data_ptr obj;
        Some (Some ptr) }
      else Some None)"

definition ss_back_ety :: "sep_allocator \<Rightarrow> free_list \<Rightarrow> nat \<Rightarrow> (sep_allocator \<times> free_list \<times> nat option) option" where
  "ss_back_ety sc b idx =
     (if ss_empty_count sc > 2048 then do {
        (sc, b, ptr) \<leftarrow> ss_back_uninit sc b idx;
        Some (sc, b, Some ptr) }
      else do {
        sc \<leftarrow> (if ss_empty_count sc = 0
          then do { ps \<leftarrow> all_reset_links (spages sc) idx; Some (sc\<lparr>ss_empty_start := idx, spages := ps\<rparr>) }
          else do { ps \<leftarrow> all_insert_to_prev (spages sc) (ss_empty_start sc) idx; Some (sc\<lparr>spages := ps\<rparr>) });
        Some (sc\<lparr>ss_empty_count := ss_empty_count sc + 1\<rparr>, b, None) })"

text \<open>The radix tree holds the index plus one.\<close>

definition ss_handle_rd_tree_insert :: "sep_allocator \<Rightarrow> radix_tree \<Rightarrow> nat \<Rightarrow> nat \<Rightarrow> radix_tree option" where
  "ss_handle_rd_tree_insert sc ptr_map idx addr = handle_rd_tree_insert (radix_insert None) (ss_pg_num sc) ptr_map (idx + 1) addr"

definition ss_handle_rd_tree_remove :: "sep_allocator \<Rightarrow> radix_tree \<Rightarrow> nat \<Rightarrow> radix_tree option" where
  "ss_handle_rd_tree_remove sc ptr_map addr = handle_rd_tree_remove radix_remove (ss_pg_num sc) ptr_map addr"

section \<open>Allocation\<close>

text \<open>The call of \<open>ObjectPage::allocate\<close> on slab \<open>idx\<close>, which allocation makes in three places.\<close>

definition page_alloc_call :: "sep_allocator \<Rightarrow> nat \<Rightarrow> nat \<Rightarrow> (sep_allocator \<times> nat) option" where
  "page_alloc_call sc idx align = do {
     obj \<leftarrow> all_get (spages sc) idx;
     bf \<leftarrow> get_field sc idx;
     let (obj, bf, ptr) = sp_allocate obj align bf (ss_pg_count sc) (ss_pg_align sc) (ss_pg_num sc);
     ps \<leftarrow> all_get_mut (spages sc) idx obj;
     Some ((put_field sc idx bf)\<lparr>spages := ps\<rparr>, ptr) }"

definition full_now :: "sep_allocator \<Rightarrow> nat \<Rightarrow> bool option" where
  "full_now sc idx = do { obj \<leftarrow> all_get (spages sc) idx; Some (sp_is_full obj (ss_pg_count sc)) }"

text \<open>The loop over the ring of partial slabs, from \<open>head\<close>.\<close>

partial_function (option) ss_partial_walk :: "sep_allocator \<Rightarrow> nat \<Rightarrow> nat \<Rightarrow> (sep_allocator \<times> nat) option" where
  "ss_partial_walk sc align head = do {
     (sc, ptr) \<leftarrow> page_alloc_call sc head align;
     if ptr = 0 then do {
       head \<leftarrow> all_get_next (spages sc) head;
       if head = ss_partial_start sc then Some (sc, ptr) else ss_partial_walk sc align head }
     else do {
       full \<leftarrow> full_now sc head;
       if full then do {
         sc \<leftarrow> ss_remove_partial sc head;
         sc \<leftarrow> ss_insert_full sc head;
         Some (sc, ptr) }
       else Some (sc, ptr) } }"

definition ss_insert_by_count :: "sep_allocator \<Rightarrow> nat \<Rightarrow> sep_allocator option" where
  "ss_insert_by_count sc idx = do {
     full \<leftarrow> full_now sc idx;
     if full then ss_insert_full sc idx else ss_insert_partial sc idx }"

definition ss_register :: "sep_allocator \<Rightarrow> radix_tree \<Rightarrow> nat \<Rightarrow> nat option \<Rightarrow> radix_tree option" where
  "ss_register sc ptr_map idx new_page = (case new_page of
      Some addr \<Rightarrow> ss_handle_rd_tree_insert sc ptr_map idx addr
    | None \<Rightarrow> Some ptr_map)"

definition ss_allocate :: "sep_allocator \<Rightarrow> free_list \<Rightarrow> radix_tree \<Rightarrow> nat \<Rightarrow>
    (sep_allocator \<times> free_list \<times> radix_tree \<times> (alloc_error + nat)) option" where
  "ss_allocate sc b ptr_map align = do {
     (sc, ptr) \<leftarrow> (if ss_partial_count sc > 0 then ss_partial_walk sc align (ss_partial_start sc) else Some (sc, 0));
     if ptr \<noteq> 0 then Some (sc, b, ptr_map, Inr ptr)
     else do {
       (sc, b, idx, new_page) \<leftarrow> ss_get_empty sc b;
       (sc, ptr) \<leftarrow> page_alloc_call sc idx align;
       sc \<leftarrow> ss_insert_by_count sc idx;
       ptr_map \<leftarrow> ss_register sc ptr_map idx new_page;
       Some (sc, b, ptr_map, if ptr = 0 then Inl ENOMEM else Inr ptr) } }"

text \<open>The call of \<open>ObjectPage::allocate_batch\<close> and of \<open>allocate_all\<close> on slab \<open>idx\<close>.\<close>

definition page_batch_call :: "sep_allocator \<Rightarrow> nat \<Rightarrow> nat list \<Rightarrow> nat \<Rightarrow> nat \<Rightarrow> (sep_allocator \<times> nat list \<times> nat) option" where
  "page_batch_call sc idx res_array start count = do {
     obj \<leftarrow> all_get (spages sc) idx;
     bf \<leftarrow> get_field sc idx;
     (obj, res_array, bf, allocated) \<leftarrow> sp_allocate_batch obj res_array start count bf (ss_pg_count sc) (ss_pg_align sc);
     ps \<leftarrow> all_get_mut (spages sc) idx obj;
     Some ((put_field sc idx bf)\<lparr>spages := ps\<rparr>, res_array, allocated) }"

definition page_all_call :: "sep_allocator \<Rightarrow> nat \<Rightarrow> (sep_allocator \<times> nat) option" where
  "page_all_call sc idx = do {
     obj \<leftarrow> all_get (spages sc) idx;
     bf \<leftarrow> get_field sc idx;
     let (obj, bf, ptr) = sp_allocate_all obj bf (ss_pg_count sc);
     ps \<leftarrow> all_get_mut (spages sc) idx obj;
     Some ((put_field sc idx bf)\<lparr>spages := ps\<rparr>, ptr) }"

text \<open>The two loops of \<open>allocate_batch_v2\<close>; the flag says that the function returned inside the first.\<close>

partial_function (option) ss_batch_partial :: "sep_allocator \<Rightarrow> nat list \<Rightarrow> nat \<Rightarrow> nat \<Rightarrow>
    (bool \<times> sep_allocator \<times> nat list \<times> nat) option" where
  "ss_batch_partial sc res_array allocated count =
     (if ss_partial_count sc > 0 \<and> allocated < count then do {
        let cur_idx = ss_partial_start sc;
        (sc, res_array, got) \<leftarrow> page_batch_call sc cur_idx res_array allocated (count - allocated);
        full \<leftarrow> full_now sc cur_idx;
        sc \<leftarrow> (if full then do { sc \<leftarrow> ss_remove_partial sc cur_idx; ss_insert_full sc cur_idx } else Some sc);
        if allocated + got = count then Some (True, sc, res_array, allocated + got)
        else ss_batch_partial sc res_array (allocated + got) count }
      else Some (False, sc, res_array, allocated))"

fun write_stride :: "nat list \<Rightarrow> nat \<Rightarrow> nat \<Rightarrow> nat \<Rightarrow> nat \<Rightarrow> nat \<Rightarrow> nat list option" where
  "write_stride res start ptr stride i 0 = Some res"
| "write_stride res start ptr stride i (Suc n) = do {
     res \<leftarrow> aset res (start + i) (wadd ptr (wmul i stride));
     write_stride res start ptr stride (i + 1) n }"

partial_function (option) ss_batch_empty :: "sep_allocator \<Rightarrow> free_list \<Rightarrow> radix_tree \<Rightarrow> nat list \<Rightarrow> nat \<Rightarrow> nat \<Rightarrow>
    (sep_allocator \<times> free_list \<times> radix_tree \<times> nat list \<times> nat) option" where
  "ss_batch_empty sc b ptr_map res_array allocated count =
     (if allocated < count then do {
        (sc, b, idx, new_page) \<leftarrow> ss_get_empty sc b;
        (sc, res_array, allocated) \<leftarrow> (if count - allocated \<ge> ss_pg_count sc then do {
            (sc, ptr) \<leftarrow> page_all_call sc idx;
            res_array \<leftarrow> write_stride res_array allocated ptr (ss_pg_align sc) 0 (ss_pg_count sc);
            sc \<leftarrow> ss_insert_full sc idx;
            Some (sc, res_array, allocated + ss_pg_count sc) }
          else do {
            (sc, res_array, got) \<leftarrow> page_batch_call sc idx res_array allocated (count - allocated);
            sc \<leftarrow> ss_insert_partial sc idx;
            Some (sc, res_array, allocated + got) });
        ptr_map \<leftarrow> ss_register sc ptr_map idx new_page;
        ss_batch_empty sc b ptr_map res_array allocated count }
      else Some (sc, b, ptr_map, res_array, allocated))"

definition ss_allocate_batch_v2 :: "sep_allocator \<Rightarrow> free_list \<Rightarrow> radix_tree \<Rightarrow> nat list \<Rightarrow> nat \<Rightarrow>
    (sep_allocator \<times> free_list \<times> radix_tree \<times> nat list \<times> (alloc_error + nat)) option" where
  "ss_allocate_batch_v2 sc b ptr_map res_array count_p = do {
     let count = min count_p (length res_array);
     if count = 0 then Some (sc, b, ptr_map, res_array, Inl ESIZE)
     else do {
       (sc, b, ptr_map, r) \<leftarrow> ss_allocate sc b ptr_map 1;
       (case r of
          Inl e \<Rightarrow> None
        | Inr res \<Rightarrow> do {
            res_array \<leftarrow> aset res_array (count - 1) res;
            let count = count - 1;
            (ret, sc, res_array, allocated) \<leftarrow> ss_batch_partial sc res_array 0 count;
            if ret then Some (sc, b, ptr_map, res_array, Inr res)
            else do {
              (sc, b, ptr_map, res_array, allocated) \<leftarrow> ss_batch_empty sc b ptr_map res_array allocated count;
              ensure (allocated = count);
              Some (sc, b, ptr_map, res_array, Inr res) } }) } }"

definition ss_allocate_batch :: "sep_allocator \<Rightarrow> free_list \<Rightarrow> radix_tree \<Rightarrow> nat \<Rightarrow>
    (sep_allocator \<times> free_list \<times> radix_tree \<times> (alloc_error + nat) \<times> nat \<times> nat) option" where
  "ss_allocate_batch sc b ptr_map align = do {
     (sc, ptr) \<leftarrow> (if ss_partial_count sc > 0 then ss_partial_walk sc align (ss_partial_start sc) else Some (sc, 0));
     if ptr \<noteq> 0 then Some (sc, b, ptr_map, Inr ptr, ss_pg_align sc, 0)
     else do {
       (sc, b, idx, new_page) \<leftarrow> ss_get_empty sc b;
       (sc, ptr) \<leftarrow> page_all_call sc idx;
       sc \<leftarrow> ss_insert_by_count sc idx;
       ptr_map \<leftarrow> ss_register sc ptr_map idx new_page;
       Some (sc, b, ptr_map, if ptr = 0 then Inl ENOMEM else Inr ptr, ss_pg_align sc, ss_pg_count sc) } }"

section \<open>Deallocation\<close>

text \<open>The index that the radix tree holds for an address: a negative one panics.\<close>

definition ss_index_of :: "radix_tree \<Rightarrow> nat \<Rightarrow> nat option" where
  "ss_index_of ptr_map ptr = do {
     let page_vaddr = align_12k ptr;
     v \<leftarrow> radix_get_mut ptr_map (wshl page_vaddr 16);
     let idx = v - 1;
     ensure (idx \<ge> 0);
     Some (nat idx) }"

text \<open>The end of \<open>deallocate\<close> and of a turn of \<open>deallocate_batch\<close>: the slab moves to the ring it now belongs on.\<close>

definition ss_give_up :: "sep_allocator \<Rightarrow> free_list \<Rightarrow> radix_tree \<Rightarrow> nat \<Rightarrow> (sep_allocator \<times> free_list \<times> radix_tree) option" where
  "ss_give_up sc b ptr_map idx = do {
     found \<leftarrow> ss_try_back_ety sc idx;
     ptr_map \<leftarrow> (case found of Some p \<Rightarrow> ss_handle_rd_tree_remove sc ptr_map p | None \<Rightarrow> Some ptr_map);
     (sc, b, r) \<leftarrow> ss_back_ety sc b idx;
     Some (sc, b, ptr_map) }"

definition ss_settle :: "sep_allocator \<Rightarrow> free_list \<Rightarrow> radix_tree \<Rightarrow> nat \<Rightarrow> bool \<Rightarrow> (sep_allocator \<times> free_list \<times> radix_tree) option" where
  "ss_settle sc b ptr_map idx back_partial =
     (if back_partial then do {
        sc \<leftarrow> ss_remove_full sc idx;
        obj \<leftarrow> all_get (spages sc) idx;
        if sp_is_empty obj then ss_give_up sc b ptr_map idx
        else do { sc \<leftarrow> ss_insert_partial sc idx; Some (sc, b, ptr_map) } }
      else do {
        obj \<leftarrow> all_get (spages sc) idx;
        if sp_is_empty obj then do {
          sc \<leftarrow> ss_remove_partial sc idx;
          ss_give_up sc b ptr_map idx }
        else Some (sc, b, ptr_map) })"

definition ss_deallocate :: "sep_allocator \<Rightarrow> free_list \<Rightarrow> radix_tree \<Rightarrow> nat \<Rightarrow> (sep_allocator \<times> free_list \<times> radix_tree) option" where
  "ss_deallocate sc b ptr_map ptr = do {
     idx \<leftarrow> ss_index_of ptr_map ptr;
     obj \<leftarrow> all_get (spages sc) idx;
     let back_partial = sp_is_full obj (ss_pg_count sc);
     bf \<leftarrow> get_field sc idx;
     (obj, bf, r) \<leftarrow> sp_deallocate obj ptr bf (ss_pg_align sc);
     ensure (r = Inr ());
     ps \<leftarrow> all_get_mut (spages sc) idx obj;
     ss_settle ((put_field sc idx bf)\<lparr>spages := ps\<rparr>) b ptr_map idx back_partial }"

text \<open>The loop of \<open>deallocate_batch\<close>; an index that is negative as \<open>i64\<close> is out of range as \<open>usize\<close>.\<close>

partial_function (option) ss_dealloc_loop :: "sep_allocator \<Rightarrow> free_list \<Rightarrow> radix_tree \<Rightarrow> nat list \<Rightarrow> nat \<Rightarrow> nat \<Rightarrow>
    (sep_allocator \<times> free_list \<times> radix_tree) option" where
  "ss_dealloc_loop sc b ptr_map res_array deallocated count =
     (if deallocated < count then do {
        ptr \<leftarrow> aget res_array deallocated;
        idx \<leftarrow> ss_index_of ptr_map ptr;
        obj \<leftarrow> all_get (spages sc) idx;
        let back_partial = sp_is_full obj (ss_pg_count sc);
        bf \<leftarrow> get_field sc idx;
        (obj, bf, t) \<leftarrow> sp_deallocate_batch obj (drop deallocated res_array) bf (ss_pg_align sc) (ss_pg_num sc);
        ensure (t \<noteq> 0);
        ps \<leftarrow> all_get_mut (spages sc) idx obj;
        (sc, b, ptr_map) \<leftarrow> ss_settle ((put_field sc idx bf)\<lparr>spages := ps\<rparr>) b ptr_map idx back_partial;
        ss_dealloc_loop sc b ptr_map res_array (deallocated + t) count }
      else Some (sc, b, ptr_map))"

definition ss_deallocate_batch :: "sep_allocator \<Rightarrow> free_list \<Rightarrow> radix_tree \<Rightarrow> nat list \<Rightarrow> nat \<Rightarrow>
    (sep_allocator \<times> free_list \<times> radix_tree) option" where
  "ss_deallocate_batch sc b ptr_map res_array count_p = (let count = min count_p (length res_array) in
     if count = 0 then Some (sc, b, ptr_map) else ss_dealloc_loop sc b ptr_map res_array 0 count)"

section \<open>Slices of the bit fields\<close>

lemma ss_words_record [simp]:
  "ss_words (sc\<lparr>bitfields := x\<rparr>) = ss_words sc" "ss_words (sc\<lparr>spages := y\<rparr>) = ss_words sc"
  by (simp_all add: ss_words_def)

lemma get_field_iff: "get_field sc idx = Some bf \<longleftrightarrow>
    idx * ss_words sc + ss_words sc \<le> length (bitfields sc) \<and> bf = take (ss_words sc) (drop (idx * ss_words sc) (bitfields sc))"
  by (auto simp: get_field_def Let_def ensure_def add.commute)

lemma put_field_eq: "put_field sc idx bf = sc\<lparr>bitfields :=
    take (idx * ss_words sc) (bitfields sc) @ bf @ drop (idx * ss_words sc + ss_words sc) (bitfields sc)\<rparr>"
  by (simp add: put_field_def Let_def add.commute)

lemma slice_put_other:
  assumes "a + n \<le> length l" "length b = n" "m + n \<le> length l" "m + n \<le> a \<or> a + n \<le> m"
  shows "take n (drop m (take a l @ b @ drop (a + n) l)) = take n (drop m l)"
proof (rule nth_equalityI)
  have X: "length (take a l @ b @ drop (a + n) l) = length l" using assms(1,2) by simp
  show "length (take n (drop m (take a l @ b @ drop (a + n) l))) = length (take n (drop m l))"
    unfolding length_take length_drop X ..
  fix i assume "i < length (take n (drop m (take a l @ b @ drop (a + n) l)))"
  then have i: "i < n" unfolding length_take by (rule less_le_trans) (rule min.cobounded2)
  have "(take a l @ b @ drop (a + n) l) ! (m + i) = l ! (m + i)"
    using assms(4)
  proof
    assume "m + n \<le> a"
    then show ?thesis using i assms by (simp add: nth_append)
  next
    assume "a + n \<le> m"
    then have "\<not> m + i < a" "\<not> m + i - a < n" "a + n + (m + i - a - n) = m + i" by auto
    then show ?thesis using i assms(1-3) by (simp add: nth_append)
  qed
  then show "take n (drop m (take a l @ b @ drop (a + n) l)) ! i = take n (drop m l) ! i"
  proof -
    have ml: "m \<le> length (take a l @ b @ drop (a + n) l)" "m \<le> length l" using X assms(3) by linarith+
    show ?thesis unfolding nth_take [OF i] nth_drop [OF ml(1)] nth_drop [OF ml(2)] by fact
  qed
qed

lemma slice_apart:
  assumes "i \<noteq> (j :: nat)"
  shows "i * n + n \<le> j * n \<or> j * n + n \<le> i * n"
proof (cases "i < j")
  case True
  then have "(i + 1) * n \<le> j * n" by (intro mult_le_mono1) simp
  then show ?thesis by simp
next
  case False
  then have "(j + 1) * n \<le> i * n" using assms by (intro mult_le_mono1) simp
  then show ?thesis by simp
qed

lemma put_field:
  assumes "get_field sc idx = Some bf" and "length bf' = length bf"
  shows "length (bitfields (put_field sc idx bf')) = length (bitfields sc)"
    "get_field (put_field sc idx bf') idx = Some bf'"
    "j \<noteq> idx \<Longrightarrow> get_field (put_field sc idx bf') j = get_field sc j"
proof -
  let ?n = "ss_words sc" and ?l = "bitfields sc"
  have g: "idx * ?n + ?n \<le> length ?l" "length bf' = ?n" using assms by (auto simp: get_field_iff)
  show len: "length (bitfields (put_field sc idx bf')) = length ?l" using g by (simp add: put_field_eq)
  show "get_field (put_field sc idx bf') idx = Some bf'" using g by (simp add: put_field_eq get_field_iff)
  assume "j \<noteq> idx"
  then have ap: "j * ?n + ?n \<le> idx * ?n \<or> idx * ?n + ?n \<le> j * ?n" by (rule slice_apart)
  show "get_field (put_field sc idx bf') j = get_field sc j"
  proof (cases "j * ?n + ?n \<le> length ?l")
    case True
    then have "get_field sc j = Some (take ?n (drop (j * ?n) ?l))" by (simp add: get_field_iff)
    moreover have "get_field (put_field sc idx bf') j = Some (take ?n (drop (j * ?n) ?l))"
      using slice_put_other [OF g True ap] len True by (simp add: get_field_iff put_field_eq)
    ultimately show ?thesis by simp
  next
    case False
    then have "get_field sc j = None" "get_field (put_field sc idx bf') j = None"
      using len by (auto simp: get_field_def put_field_eq ensure_def Let_def add.commute)
    then show ?thesis by simp
  qed
qed

text \<open>Replacing the item of a node.\<close>

lemma set_item:
  assumes "all_get ps idx = Some v"
  obtains ps' where "\<And>v'. all_get_mut ps idx v' = Some (ps' v')" "\<And>v'. all_get (ps' v') idx = Some v'"
    "\<And>v' j. j \<noteq> idx \<Longrightarrow> all_get (ps' v') j = all_get ps j" "\<And>v' xs. arr_ring (ps' v') xs = arr_ring ps xs"
proof -
  obtain a b where p: "idx < length ps" "ps ! idx = (a, b, v)"
    using assms by (cases "ps ! idx") (auto simp: all_get_def aget_def split: if_splits)
  let ?f = "\<lambda>v'. ps[idx := (a, b, v')]"
  have "arr_next (?f v') = arr_next ps" "arr_prev (?f v') = arr_prev ps" for v'
    using p by (auto simp: arr_next_def arr_prev_def fun_eq_iff nth_list_update)
  then have "arr_ring (?f v') xs = arr_ring ps xs" for v' xs by (simp add: arr_ring_def)
  then show ?thesis using that [of ?f] p by (simp add: all_get_mut_def all_get_def aget_def)
qed

lemma arr_same_length: "map (snd \<circ> snd) ps' = map (snd \<circ> snd) ps \<Longrightarrow> length ps' = length ps"
  by (metis length_map)

section \<open>Giving objects back\<close>

text \<open>Slab \<open>idx\<close> with its header and bit field.\<close>

definition slab_at :: "sep_allocator \<Rightarrow> nat \<Rightarrow> sep_page \<Rightarrow> bitfield \<Rightarrow> bool" where
  "slab_at sc idx obj bf \<longleftrightarrow> all_get (spages sc) idx = Some obj \<and> get_field sc idx = Some bf
     \<and> sp_ok obj bf (ss_pg_count sc) (ss_pg_align sc) (ss_pg_num sc)"

text \<open>Two allocators with the same rings, and the same slabs but one.\<close>

definition only_slab :: "nat \<Rightarrow> sep_allocator \<Rightarrow> sep_allocator \<Rightarrow> bool" where
  "only_slab idx sc sc' \<longleftrightarrow> (\<forall>j. j \<noteq> idx \<longrightarrow> all_get (spages sc') j = all_get (spages sc) j \<and> get_field sc' j = get_field sc j)
     \<and> (\<forall>xs. arr_ring (spages sc') xs = arr_ring (spages sc) xs)
     \<and> sc' = sc\<lparr>spages := spages sc', bitfields := bitfields sc'\<rparr>"

lemma write_slab:
  assumes "slab_at sc idx obj bf" and "length bf' = length bf"
    and "sp_ok obj' bf' (ss_pg_count sc) (ss_pg_align sc) (ss_pg_num sc)"
  obtains ps where "all_get_mut (spages sc) idx obj' = Some ps"
    "slab_at ((put_field sc idx bf')\<lparr>spages := ps\<rparr>) idx obj' bf'" "only_slab idx sc ((put_field sc idx bf')\<lparr>spages := ps\<rparr>)"
proof -
  have a: "all_get (spages sc) idx = Some obj" "get_field sc idx = Some bf" using assms(1) by (auto simp: slab_at_def)
  obtain ps where ps: "\<And>v. all_get_mut (spages sc) idx v = Some (ps v)" "\<And>v. all_get (ps v) idx = Some v"
    "\<And>v j. j \<noteq> idx \<Longrightarrow> all_get (ps v) j = all_get (spages sc) j" "\<And>v xs. arr_ring (ps v) xs = arr_ring (spages sc) xs"
    by (rule set_item [OF a(1)]) (rule that)
  have f: "get_field ((put_field sc idx bf')\<lparr>spages := x\<rparr>) j = get_field (put_field sc idx bf') j" for x j
    by (simp add: get_field_def)
  show ?thesis
  proof (rule that)
    show "all_get_mut (spages sc) idx obj' = Some (ps obj')" by (rule ps(1))
    show "slab_at ((put_field sc idx bf')\<lparr>spages := ps obj'\<rparr>) idx obj' bf'"
      using ps(2) put_field(2) [OF a(2) assms(2)] assms(3) f by (simp add: slab_at_def put_field_eq)
    show "only_slab idx sc ((put_field sc idx bf')\<lparr>spages := ps obj'\<rparr>)"
      using ps(3,4) put_field(3) [OF a(2) assms(2)] f by (simp add: only_slab_def put_field_eq)
  qed
qed

text \<open>\<open>deallocate\<close> of an object finds its slab through the radix tree. If the object is not handed out, so that this is a
  double free, it panics; if it is, and the slab has others but is not full, the object is unmarked and counted off,
  and no other slab, no ring and not the radix tree changes.\<close>

theorem ss_deallocate_object:
  assumes "ss_index_of t (op_data obj + k * ss_pg_align sc) = Some idx" and s: "slab_at sc idx obj bf" and k: "k < ss_pg_count sc"
    and part: "1 < op_counter obj" "op_counter obj < ss_pg_count sc"
  shows "if used bf k
    then \<exists>sc' obj' bf'. ss_deallocate sc b t (op_data obj + k * ss_pg_align sc) = Some (sc', b, t) \<and> slab_at sc' idx obj' bf'
      \<and> op_counter obj' + 1 = op_counter obj \<and> (\<forall>x. used bf' x \<longleftrightarrow> used bf x \<and> x \<noteq> k) \<and> only_slab idx sc sc'
    else ss_deallocate sc b t (op_data obj + k * ss_pg_align sc) = None"
proof -
  have a: "all_get (spages sc) idx = Some obj" "get_field sc idx = Some bf"
    and ok: "sp_ok obj bf (ss_pg_count sc) (ss_pg_align sc) (ss_pg_num sc)" using s by (auto simp: slab_at_def)
  note d = sp_deallocate_eq [OF ok k]
  show ?thesis
  proof (cases "used bf k")
    case False
    then show ?thesis using assms(1) a d by (simp add: ss_deallocate_def ensure_def Let_def)
  next
    case True
    have kl: "k < 32 * length bf" using k ok by (simp add: sp_ok_def)
    let ?bf = "bf[k div 32 := (bf ! (k div 32)) AND NOT (push_bit (k mod 32) 1)]"
    let ?obj = "obj\<lparr>op_counter := op_counter obj - 1\<rparr>"
    note u = used_clear [OF kl]
    have r: "sp_ok ?obj ?bf (ss_pg_count sc) (ss_pg_align sc) (ss_pg_num sc)"
      using sp_ok_release [OF ok k True _ u] by simp
    obtain ps where w: "all_get_mut (spages sc) idx ?obj = Some ps"
      "slab_at ((put_field sc idx ?bf)\<lparr>spages := ps\<rparr>) idx ?obj ?bf" "only_slab idx sc ((put_field sc idx ?bf)\<lparr>spages := ps\<rparr>)"
      by (rule write_slab [OF s _ r]) simp
    let ?sc = "(put_field sc idx ?bf)\<lparr>spages := ps\<rparr>"
    have nf: "\<not> sp_is_full obj (ss_pg_count sc)" "\<not> sp_is_empty ?obj" using part by (simp_all add: sp_is_full_def sp_is_empty_def)
    have g: "all_get ps idx = Some ?obj" using w(2) by (simp add: slab_at_def)
    have "ss_settle ?sc b t idx False = Some (?sc, b, t)"
      using g nf(2) by (simp add: ss_settle_def)
    then have "ss_deallocate sc b t (op_data obj + k * ss_pg_align sc) = Some (?sc, b, t)"
      using assms(1) a d True w(1) nf(1) by (simp add: ss_deallocate_def ensure_def Let_def)
    then show ?thesis using w(2,3) u True part(1)
      by (simp del: used_clear) (intro exI [of _ ?sc] exI [of _ ?obj] exI [of _ ?bf], simp)
  qed
qed

text \<open>\<open>deallocate_batch\<close> passes the whole rest of the array to the slab, not the part that \<open>count_p\<close> leaves: with
  any count from 1 on, all the objects of the array that lie in the slab are given back.\<close>

theorem ss_deallocate_batch_ignores_count:
  assumes "ss_index_of t (op_data obj + hd ks * ss_pg_align sc) = Some idx" and s: "slab_at sc idx obj bf"
    and ks: "distinct ks" "\<forall>k \<in> set ks. k < ss_pg_count sc \<and> used bf k" and c: "0 < c" "c \<le> length ks"
    and part: "length ks < op_counter obj" "op_counter obj < ss_pg_count sc"
  shows "\<exists>sc' obj' bf'. ss_deallocate_batch sc b t (map (\<lambda>k. op_data obj + k * ss_pg_align sc) ks) c = Some (sc', b, t)
    \<and> slab_at sc' idx obj' bf' \<and> op_counter obj' + length ks = op_counter obj
    \<and> (\<forall>x. used bf' x \<longleftrightarrow> used bf x \<and> x \<notin> set ks) \<and> only_slab idx sc sc'"
proof -
  let ?as = "map (\<lambda>k. op_data obj + k * ss_pg_align sc) ks"
  have a: "all_get (spages sc) idx = Some obj" "get_field sc idx = Some bf"
    and ok: "sp_ok obj bf (ss_pg_count sc) (ss_pg_align sc) (ss_pg_num sc)" using s by (auto simp: slab_at_def)
  obtain obj' bf' where d: "sp_deallocate_batch obj ?as bf (ss_pg_align sc) (ss_pg_num sc) = Some (obj', bf', length ks)"
    "sp_ok obj' bf' (ss_pg_count sc) (ss_pg_align sc) (ss_pg_num sc)" "length bf' = length bf"
    "op_counter obj' + length ks = op_counter obj" "\<forall>x. used bf' x \<longleftrightarrow> used bf x \<and> x \<notin> set ks"
    using sp_deallocate_batch_ok [OF ok ks, of "[]"] by auto
  obtain ps where w: "all_get_mut (spages sc) idx obj' = Some ps"
    "slab_at ((put_field sc idx bf')\<lparr>spages := ps\<rparr>) idx obj' bf'" "only_slab idx sc ((put_field sc idx bf')\<lparr>spages := ps\<rparr>)"
    by (rule write_slab [OF s d(3,2)]) (rule that)
  let ?sc = "(put_field sc idx bf')\<lparr>spages := ps\<rparr>"
  have nf: "\<not> sp_is_full obj (ss_pg_count sc)" "\<not> sp_is_empty obj'" using part d(4) by (auto simp: sp_is_full_def sp_is_empty_def)
  have "all_get ps idx = Some obj'" using w(2) by (simp add: slab_at_def)
  then have st: "ss_settle ?sc b t idx False = Some (?sc, b, t)" using nf(2) by (simp add: ss_settle_def)
  have ne: "ks \<noteq> []" using c by auto
  then have h: "aget ?as 0 = Some (op_data obj + hd ks * ss_pg_align sc)" by (cases ks) (simp_all add: aget_def)
  have fin: "ss_dealloc_loop ?sc b t ?as (length ks) c = Some (?sc, b, t)"
    using c by (subst ss_dealloc_loop.simps) simp
  have "ss_dealloc_loop sc b t ?as 0 c = Some (?sc, b, t)"
    using c ne h assms(1) a d(1) nf(1) w(1) st fin by (subst ss_dealloc_loop.simps) (simp add: Let_def ensure_def hd_conv_nth)
  then have "ss_deallocate_batch sc b t ?as c = Some (?sc, b, t)"
    using c by (simp add: ss_deallocate_batch_def Let_def min_def)
  then show ?thesis using w(2,3) d(4,5) by (intro exI [of _ ?sc] exI [of _ obj'] exI [of _ bf']) simp
qed

section \<open>Taking objects\<close>

text \<open>Taking the head of a ring off, and putting a node at its end.\<close>

lemma ring_take_head:
  assumes "arr_ring ps (x # xs)"
  obtains ps' where "all_get_next ps x = Some (if xs = [] then x else hd xs)" "all_remove_node ps x = Some ps'" "arr_ring ps' xs"
    "map (snd \<circ> snd) ps' = map (snd \<circ> snd) ps" "arr.links_kept (set (x # xs)) ps ps'" "length ps' = length ps"
proof -
  have v: "x < length ps" using assms by (simp add: arr_ring_def)
  have rg: "ring (arr_next ps) (arr_prev ps) (x # xs)" using assms by (simp add: arr_ring_def)
  have n: "all_get_next ps x = Some (if xs = [] then x else hd xs)"
    using arr_get_next [of ps x] v rg ring_head(1) [OF rg] by (auto simp: arr_valid_def)
  show ?thesis
  proof (cases "xs = []")
    case False
    have r: "arr_ring ps ([] @ x # xs)" "[] @ xs \<noteq> []" using assms False by simp_all
    obtain ps' where "all_remove_node ps x = Some ps'" "arr_ring ps' ([] @ xs)"
      "map (snd \<circ> snd) ps' = map (snd \<circ> snd) ps" "arr.links_kept (set ([] @ x # xs)) ps ps'"
      by (rule all_remove_node_ring [OF r]) (rule that)
    then show ?thesis using that [of ps'] n arr_same_length [of ps' ps] by simp
  next
    case True
    then have self: "arr_next ps x = x" "arr_prev ps x = x" using rg by auto
    have "arr_valid ps x" using v by (simp add: arr_valid_def)
    then obtain p1 p2 where w: "all_set_prev ps x x = Some p1" "arr_valid p1 = arr_valid ps" "all_set_next p1 x x = Some p2"
      "arr.ring_at p2 [x]" "arr.links_kept {x} ps p2" using arr.self_link_calls by metis
    have "arr_valid p2 x" using w(5) v by (simp add: arr.links_kept_def arr_valid_def)
    then obtain p3 p4 where w2: "all_set_prev p2 x x = Some p3" "all_set_next p3 x x = Some p4"
      "arr.ring_at p4 [x]" "arr.links_kept {x} p2 p4" using arr.self_link_calls by metis
    have "all_remove_node ps x = Some p4"
      using w w2 self arr_get_next [of ps x] arr_get_prev [of ps x] v by (simp add: all_remove_node_def arr_valid_def)
    moreover have "map (snd \<circ> snd) p4 = map (snd \<circ> snd) ps"
      using arr_items(1) [OF w(1)] arr_items(2) [OF w(3)] arr_items(1) [OF w2(1)] arr_items(2) [OF w2(2)] by simp
    moreover have "arr.links_kept (set (x # xs)) ps p4" using w(5) w2(4) by (auto simp: arr.links_kept_def)
    ultimately show ?thesis using that [of p4] n True arr_same_length [of p4 ps]
      by (simp add: arr_ring_def ring_def)
  qed
qed

lemma all_get_items: "all_get ps i = aget (map (snd \<circ> snd) ps) i"
  by (auto simp: all_get_def aget_def split_def)

lemma reset_links_ok:
  assumes "x < length ps"
  obtains ps' where "all_reset_links ps x = Some ps'" "arr_ring ps' [x]" "map (snd \<circ> snd) ps' = map (snd \<circ> snd) ps"
proof -
  have "arr_valid ps x" using assms by (simp add: arr_valid_def)
  then obtain p1 p2 where w: "all_set_prev ps x x = Some p1" "all_set_next p1 x x = Some p2" "arr.ring_at p2 [x]"
    using arr.self_link_calls by metis
  then show ?thesis using that [of p2] arr_items(1) [OF w(1)] arr_items(2) [OF w(2)]
    by (simp add: all_reset_links_def arr_ring_at)
qed

text \<open>C26: When no partial slab is left and the empty slab that is taken has no object with the alignment,
  \<open>allocate\<close> reports that memory is out, and the slab, with none of its objects handed out, is now on the ring of partial slabs.\<close>

theorem ss_allocate_misfiles_empty_slab:
  assumes p: "ss_partial_count sc = 0" and e: "ss_empty_start sc = h" "ss_empty_count sc = length (h # es)" "arr_ring (spages sc) (h # es)"
    and s: "slab_at sc h obj bf" "op_counter obj = 0" "0 < ss_pg_count sc"
    and al: "is_pow2 algn" "\<forall>k < ss_pg_count sc. \<not> algn dvd op_data obj + k * ss_pg_align sc"
  shows "\<exists>sc' obj' bf'. ss_allocate sc b t algn = Some (sc', b, t, Inl ENOMEM) \<and> slab_at sc' h obj' bf' \<and> sp_is_empty obj'
    \<and> ss_partial_start sc' = h \<and> ss_partial_count sc' = 1 \<and> arr_ring (spages sc') [h] \<and> ss_empty_count sc' = length es"
proof -
  let ?pc = "ss_pg_count sc" and ?pa = "ss_pg_align sc" and ?pn = "ss_pg_num sc"
  have a: "all_get (spages sc) h = Some obj" "get_field sc h = Some bf" and ok: "sp_ok obj bf ?pc ?pa ?pn"
    using s by (auto simp: slab_at_def)
  obtain ps1 where r: "all_get_next (spages sc) h = Some (if es = [] then h else hd es)" "all_remove_node (spages sc) h = Some ps1"
    "map (snd \<circ> snd) ps1 = map (snd \<circ> snd) (spages sc)" "length ps1 = length (spages sc)"
    by (rule ring_take_head [OF e(3)]) (rule that)
  let ?sc1 = "sc\<lparr>ss_empty_start := if es = [] then h else hd es, spages := ps1, ss_empty_count := length es\<rparr>"
  have ge: "ss_get_empty sc b = Some (?sc1, b, h, None)" using e(1,2) r(1,2) by (simp add: ss_get_empty_def)
  have g1: "all_get ps1 h = Some obj" using a(1) r(3) by (simp add: all_get_items)
  have gf: "get_field (sc\<lparr>ss_empty_start := x, spages := y, ss_empty_count := z\<rparr>) j = get_field sc j" for x y z j
    by (simp add: get_field_def ss_words_def)
  have s1: "slab_at ?sc1 h obj bf" using g1 gf a(2) ok by (simp add: slab_at_def)
  obtain ps2 where w: "all_get_mut (spages ?sc1) h obj = Some ps2" "slab_at ((put_field ?sc1 h bf)\<lparr>spages := ps2\<rparr>) h obj bf"
    by (rule write_slab [OF s1 refl]) (use ok in auto)
  let ?sc2 = "(put_field ?sc1 h bf)\<lparr>spages := ps2\<rparr>"
  have "find (\<lambda>k. algn dvd op_data obj + k * ?pa \<and> \<not> used bf k) [0..<?pc] = None" using al(2) by (auto simp: find_None_iff)
  then have "sp_allocate obj algn bf ?pc ?pa ?pn = (obj, bf, 0)" using sp_allocate_ok [OF ok al(1)] by simp
  then have pa: "page_alloc_call ?sc1 h algn = Some (?sc2, 0)"
    using g1 gf a(2) w(1) by (simp add: page_alloc_call_def)
  have g2: "all_get ps2 h = Some obj" "h < length ps2" using w(2) by (auto simp: slab_at_def all_get_def aget_def split: if_splits)
  obtain ps3 where l: "all_reset_links ps2 h = Some ps3" "arr_ring ps3 [h]" "map (snd \<circ> snd) ps3 = map (snd \<circ> snd) ps2"
    by (rule reset_links_ok [OF g2(2)]) (rule that)
  let ?sc3 = "?sc2\<lparr>ss_partial_start := h, spages := ps3, ss_partial_count := 1\<rparr>"
  have "\<not> sp_is_full obj ?pc" using s(2,3) by (simp add: sp_is_full_def)
  then have ins: "ss_insert_by_count ?sc2 h = Some ?sc3"
    using g2(1) l(1) p by (simp add: ss_insert_by_count_def full_now_def ss_insert_partial_def put_field_eq)
  have "ss_allocate sc b t algn = Some (?sc3, b, t, Inl ENOMEM)"
    using p ge pa ins by (simp add: ss_allocate_def ss_register_def)
  moreover have "get_field ?sc3 h = get_field ?sc2 h" by (simp add: get_field_def ss_words_def)
  then have "slab_at ?sc3 h obj bf" using w(2) l(3) g2(1) by (simp add: slab_at_def all_get_items put_field_eq)
  moreover have "sp_is_empty obj" using s(2) by (simp add: sp_is_empty_def)
  ultimately show ?thesis using l(2)
    by (intro exI [of _ ?sc3] exI [of _ obj] exI [of _ bf]) (simp add: put_field_eq)
qed

section \<open>A concrete allocator\<close>

text \<open>One slab of forty objects of 100 bytes, on the partial ring or on the empty one, registered under index 0 + 1.\<close>

definition demo_sep :: "sep_page \<Rightarrow> bitfield \<Rightarrow> nat \<Rightarrow> sep_allocator" where
  "demo_sep obj bf empties = (ss_empty 1 40 100)\<lparr>ss_empty_count := empties, ss_partial_count := 1 - empties,
     bitfields := bf, spages := [(0, 0, obj)]\<rparr>"

definition demo_tree :: radix_tree where
  "demo_tree = (\<lambda>_. None)(0 := Some ((\<lambda>_. 0)(5 := 1)))"

lemma demo_sep_fields:
  "ss_pg_count (demo_sep obj bf n) = 40" "ss_pg_align (demo_sep obj bf n) = 100" "ss_pg_num (demo_sep obj bf n) = 1"
  "spages (demo_sep obj bf n) = [(0, 0, obj)]" "bitfields (demo_sep obj bf n) = bf" "ss_words (demo_sep obj bf n) = 2"
  by (simp_all add: demo_sep_def ss_empty_def ss_words_def)

lemma demo_slab_at:
  assumes "length bf = 2" and "sp_ok obj bf 40 100 1"
  shows "slab_at (demo_sep obj bf n) 0 obj bf"
  using assms by (simp add: slab_at_def get_field_def demo_sep_fields all_get_def aget_def)

lemma demo_index:
  assumes "k < 40"
  shows "ss_index_of demo_tree (0x5000 + k * 100) = Some 0"
proof -
  let ?x = "0x5000 + k * 100"
  have "?x < 2 ^ 48" using assms by simp
  moreover have "?x div 4096 = 5" using assms by (intro div_nat_eqI) simp_all
  ultimately have "radix_get_mut demo_tree (wshl (align_12k ?x) 16) = Some 1"
    by (simp only: radix_get_address) (simp add: demo_tree_def radix_view_def)
  then show ?thesis by (simp add: ss_index_of_def Let_def)
qed

theorem ss_deallocate_object_witness:
  "ss_deallocate (demo_sep \<lparr>op_counter = 2, op_data = 0x5000\<rparr> demo_field 0) demo_free_list demo_tree (0x5000 + 1 * 100) = None"
proof -
  have f: "length demo_field = 2" by (simp add: demo_field_def)
  show ?thesis
    using ss_deallocate_object [OF _ demo_slab_at [OF f demo_page_ok, of 0], of demo_tree 1 demo_free_list] demo_index [of 1]
    by (simp add: demo_sep_fields demo_page_def demo_used)
qed

text \<open>The objects 0, 1 and 2 are handed out.\<close>

lemma used_three: "used [7, 0] k \<longleftrightarrow> k < 3"
proof (cases "k < 32")
  case True
  have "(7 :: 32 word) = mask 3" by (simp add: mask_eq_exp_minus_1)
  then have "bit (7 :: 32 word) k \<longleftrightarrow> k < 3" using True by (simp only: bit_mask_iff) simp
  then show ?thesis using True by (simp add: used_def)
next
  case False
  then show ?thesis by (auto simp: used_def nth_Cons')
qed

lemma three_ok: "sp_ok \<lparr>op_counter = 3, op_data = 0x5000\<rparr> [7, 0] 40 100 1"
proof -
  have "{k. k < 40 \<and> used [7, 0] k} = {0, 1, 2}" unfolding used_three by auto
  then show ?thesis by (simp add: sp_ok_def page_dims_def)
qed

theorem ss_deallocate_batch_ignores_count_witness:
  "\<exists>sc' obj' bf'. ss_deallocate_batch (demo_sep \<lparr>op_counter = 3, op_data = 0x5000\<rparr> [7, 0] 0) demo_free_list demo_tree [0x5064, 0x50C8] 1
     = Some (sc', demo_free_list, demo_tree) \<and> slab_at sc' 0 obj' bf' \<and> op_counter obj' = 1"
proof -
  let ?obj = "\<lparr>op_counter = 3, op_data = 0x5000\<rparr>"
  have s: "slab_at (demo_sep ?obj [7, 0] 0) 0 ?obj [7, 0]" by (rule demo_slab_at [OF _ three_ok]) simp
  show ?thesis
    using ss_deallocate_batch_ignores_count [OF _ s, of demo_tree "[1, 2]" 1 demo_free_list] demo_index [of 1]
    by (simp add: demo_sep_fields used_three) blast
qed

lemma unused_field: "\<not> used [0, 0] k"
  by (simp add: used_def nth_Cons')

theorem ss_allocate_misfiles_empty_slab_witness:
  "\<exists>sc' obj' bf'. ss_allocate (demo_sep \<lparr>op_counter = 0, op_data = 0x5000\<rparr> [0, 0] 1) demo_free_list demo_tree 8192
     = Some (sc', demo_free_list, demo_tree, Inl ENOMEM) \<and> slab_at sc' 0 obj' bf' \<and> sp_is_empty obj' \<and> ss_partial_count sc' = 1"
proof -
  let ?obj = "\<lparr>op_counter = 0, op_data = 0x5000\<rparr>"
  let ?sc = "demo_sep ?obj [0, 0] 1"
  have ok: "sp_ok ?obj [0, 0] 40 100 1" by (simp add: sp_ok_def page_dims_def unused_field)
  have s: "slab_at ?sc 0 ?obj [0, 0]" by (rule demo_slab_at [OF _ ok]) simp
  have p: "ss_partial_count ?sc = 0" "ss_empty_start ?sc = 0" "ss_empty_count ?sc = length (0 # ([] :: nat list))"
    by (simp_all add: demo_sep_def ss_empty_def)
  have r: "arr_ring (spages ?sc) (0 # [])" by (simp add: demo_sep_fields arr_ring_def ring_def arr_next_def arr_prev_def)
  have "\<not> 8192 dvd op_data ?obj + k * 100" if "k < 40" for k
  proof
    assume "8192 dvd op_data ?obj + k * 100"
    then obtain q where "20480 + k * 100 = 8192 * q" by (auto elim: dvdE)
    moreover have "8192 * q \<le> 8192 * 2 \<or> 8192 * 3 \<le> 8192 * q" by (simp only: mult_le_cancel1) linarith
    ultimately show False using that by linarith
  qed
  then have al: "is_pow2 (8192 :: nat)" "\<forall>k < ss_pg_count ?sc. \<not> 8192 dvd op_data ?obj + k * ss_pg_align ?sc"
    using is_pow2_power [of 13] by (simp_all add: demo_sep_fields)
  have z: "op_counter ?obj = 0" "0 < ss_pg_count ?sc" by (simp_all add: demo_sep_fields)
  show ?thesis using ss_allocate_misfiles_empty_slab [OF p r s z al] by blast
qed

end
