(* ===== verification/Mpmc.thy ===== *)
theory Mpmc
  imports UA_Prelude
begin

text \<open>
  The bounded queue of many producers and many consumers (\<open>mpmc.rs\<close>), a ring of cells, each with a sequence number
  that says which position of the stream may use it next.

  A thread is a program counter and \<open>pc_step\<close> performs one access to the shared memory, in the order of the code. Two
  semantics are built from it: \<open>enqueue\<close> and \<open>dequeue\<close> run one thread to its end, and \<open>reach\<close> interleaves any number of
  threads. Memory is sequentially consistent; the acquire and release orderings of the code are what entitles one to
  that. A cell that was never written holds \<open>None\<close>, and to read it is undefined.
\<close>

section \<open>The queue\<close>

text \<open>The constants of \<open>Assert\<close>: a difference of \<open>usize\<close> below zero does not compile.\<close>

definition const_sub :: "nat \<Rightarrow> nat \<Rightarrow> nat option" where
  "const_sub l r = (if r \<le> l then Some (l - r) else None)"

definition assert_greater :: "nat \<Rightarrow> nat \<Rightarrow> nat option" where
  "assert_greater l r = do { d \<leftarrow> const_sub l r; const_sub d 1 }"

definition assert_power_of_two :: "nat \<Rightarrow> nat option" where
  "assert_power_of_two l = do { d \<leftarrow> const_sub l 1; const_sub 0 (l AND d) }"

record 'a mpmc_cell =
  cell_data :: "'a option"
  sequence :: nat

definition cell_new :: "nat \<Rightarrow> 'a mpmc_cell" where
  "cell_new sq = \<lparr>cell_data = None, sequence = sq\<rparr>"

record 'a mpmc_queue =
  mq_buffer :: "'a mpmc_cell list"
  dequeue_pos :: nat
  enqueue_pos :: nat

text \<open>The loop of \<open>new\<close> numbers the cells.\<close>

function number_cells :: "nat \<Rightarrow> 'a mpmc_cell list \<Rightarrow> 'a mpmc_cell list" where
  "number_cells cell_count cells =
     (if cell_count < length cells then number_cells (cell_count + 1) (cells[cell_count := cell_new cell_count]) else cells)"
  by auto
termination by (relation "measure (\<lambda>(c, cells). length cells - c)") auto

declare number_cells.simps [simp del]

definition mpmc_new :: "nat \<Rightarrow> 'a mpmc_queue option" where
  "mpmc_new n = do {
     d \<leftarrow> assert_greater n 1;
     d \<leftarrow> assert_greater n 0;
     d \<leftarrow> assert_power_of_two n;
     ensure (n < usize_range - 1);
     Some \<lparr>mq_buffer = number_cells 0 (replicate n (cell_new 0)), dequeue_pos = 0, enqueue_pos = 0\<rparr> }"

section \<open>The steps of a thread\<close>

text \<open>\<open>(a as i8).wrapping_sub(b as i8)\<close>.\<close>

definition i8_diff :: "nat \<Rightarrow> nat \<Rightarrow> int" where
  "i8_diff a b = sint (of_nat a - of_nat b :: 8 word)"

text \<open>Where a thread is: about to load the position, to look at the cell, to claim the position by the
  compare-and-swap, to read or write the cell, to publish its sequence number, or done.\<close>

datatype 'a mpmc_pc =
    DeqLoad | DeqLook nat | DeqClaim nat | DeqRead nat | DeqPublish nat 'a | DeqDone "'a option"
  | EnqLoad 'a | EnqLook nat 'a | EnqClaim nat 'a | EnqWrite nat 'a | EnqPublish nat 'a | EnqDone "'a + unit"

fun pc_done :: "'a mpmc_pc \<Rightarrow> bool" where
  "pc_done (DeqDone r) = True"
| "pc_done (EnqDone r) = True"
| "pc_done _ = False"

definition set_cell :: "nat \<Rightarrow> 'a mpmc_cell \<Rightarrow> 'a mpmc_queue \<Rightarrow> 'a mpmc_queue" where
  "set_cell i c q = q\<lparr>mq_buffer := (mq_buffer q)[i := c]\<rparr>"

fun pc_step :: "nat \<Rightarrow> 'a mpmc_queue \<Rightarrow> 'a mpmc_pc \<Rightarrow> ('a mpmc_queue \<times> 'a mpmc_pc) option" where
  "pc_step msk q DeqLoad = Some (q, DeqLook (dequeue_pos q))"
| "pc_step msk q (DeqLook pos) = do {
     cell \<leftarrow> aget (mq_buffer q) (pos AND msk);
     let dif = i8_diff (sequence cell) (wadd pos 1);
     Some (q, if dif = 0 then DeqClaim pos else if dif < 0 then DeqDone None else DeqLoad) }"
| "pc_step msk q (DeqClaim pos) =
     Some (if dequeue_pos q = pos then (q\<lparr>dequeue_pos := wadd pos 1\<rparr>, DeqRead pos) else (q, DeqLook pos))"
| "pc_step msk q (DeqRead pos) = do {
     cell \<leftarrow> aget (mq_buffer q) (pos AND msk);
     x \<leftarrow> cell_data cell;
     Some (q, DeqPublish pos x) }"
| "pc_step msk q (DeqPublish pos x) = do {
     cell \<leftarrow> aget (mq_buffer q) (pos AND msk);
     Some (set_cell (pos AND msk) (cell\<lparr>sequence := wadd (wadd pos msk) 1\<rparr>) q, DeqDone (Some x)) }"
| "pc_step msk q (EnqLoad x) = Some (q, EnqLook (enqueue_pos q) x)"
| "pc_step msk q (EnqLook pos x) = do {
     cell \<leftarrow> aget (mq_buffer q) (pos AND msk);
     let dif = i8_diff (sequence cell) pos;
     Some (q, if dif = 0 then EnqClaim pos x else if dif < 0 then EnqDone (Inl x) else EnqLoad x) }"
| "pc_step msk q (EnqClaim pos x) =
     Some (if enqueue_pos q = pos then (q\<lparr>enqueue_pos := wadd pos 1\<rparr>, EnqWrite pos x) else (q, EnqLook pos x))"
| "pc_step msk q (EnqWrite pos x) = do {
     cell \<leftarrow> aget (mq_buffer q) (pos AND msk);
     Some (set_cell (pos AND msk) (cell\<lparr>cell_data := Some x\<rparr>) q, EnqPublish pos x) }"
| "pc_step msk q (EnqPublish pos x) = do {
     cell \<leftarrow> aget (mq_buffer q) (pos AND msk);
     Some (set_cell (pos AND msk) (cell\<lparr>sequence := wadd pos 1\<rparr>) q, EnqDone (Inr ())) }"
| "pc_step msk q (DeqDone r) = Some (q, DeqDone r)"
| "pc_step msk q (EnqDone r) = Some (q, EnqDone r)"

section \<open>One thread\<close>

text \<open>The run of a thread alone, which may spin for ever.\<close>

partial_function (option) run_pc :: "nat \<Rightarrow> 'a mpmc_queue \<Rightarrow> 'a mpmc_pc \<Rightarrow> ('a mpmc_queue \<times> 'a mpmc_pc) option" where
  "run_pc msk q pc = (if pc_done pc then Some (q, pc) else do {
     (q, pc) \<leftarrow> pc_step msk q pc;
     run_pc msk q pc })"

definition mq_mask :: "'a mpmc_queue \<Rightarrow> nat" where
  "mq_mask q = length (mq_buffer q) - 1"

fun deq_result :: "'a mpmc_pc \<Rightarrow> 'a option option" where
  "deq_result (DeqDone r) = Some r"
| "deq_result _ = None"

fun enq_result :: "'a mpmc_pc \<Rightarrow> ('a + unit) option" where
  "enq_result (EnqDone r) = Some r"
| "enq_result _ = None"

definition mq_dequeue :: "'a mpmc_queue \<Rightarrow> ('a mpmc_queue \<times> 'a option) option" where
  "mq_dequeue q = do { (q', pc) \<leftarrow> run_pc (mq_mask q) q DeqLoad; r \<leftarrow> deq_result pc; Some (q', r) }"

definition mq_enqueue :: "'a mpmc_queue \<Rightarrow> 'a \<Rightarrow> ('a mpmc_queue \<times> ('a + unit)) option" where
  "mq_enqueue q x = do { (q', pc) \<leftarrow> run_pc (mq_mask q) q (EnqLoad x); r \<leftarrow> enq_result pc; Some (q', r) }"

section \<open>Many threads\<close>

text \<open>The state of the queue with all its threads, a thread being identified by a number.\<close>

record 'a mpmc_sys =
  sys_queue :: "'a mpmc_queue"
  sys_pc :: "nat \<Rightarrow> 'a mpmc_pc"

text \<open>What a step adds to the history: a claim of \<open>enqueue\<close> appends its item to the items put, and a read of \<open>dequeue\<close>
  adds the position and the item to those got.\<close>

fun put_of :: "'a mpmc_pc \<Rightarrow> 'a mpmc_pc \<Rightarrow> 'a list" where
  "put_of (EnqClaim p x) (EnqWrite p' x') = [x]"
| "put_of _ _ = []"

fun got_of :: "'a mpmc_pc \<Rightarrow> (nat \<times> 'a) list" where
  "got_of (DeqPublish p x) = [(p, x)]"
| "got_of _ = []"

definition sys_init :: "'a mpmc_queue \<Rightarrow> 'a mpmc_sys" where
  "sys_init q = \<lparr>sys_queue = q, sys_pc = (\<lambda>_. DeqDone None)\<rparr>"

fun is_call :: "'a mpmc_pc \<Rightarrow> bool" where
  "is_call DeqLoad = True"
| "is_call (EnqLoad x) = True"
| "is_call _ = False"

text \<open>A thread that is done may call again; a step is one access of any thread; \<open>compare_exchange_weak\<close> may fail
  without a reason.\<close>

inductive mpmc_reach :: "nat \<Rightarrow> 'a mpmc_sys \<Rightarrow> 'a list \<Rightarrow> (nat \<times> 'a) list \<Rightarrow> bool" for n where
  init: "mpmc_new n = Some q \<Longrightarrow> mpmc_reach n (sys_init q) [] []"
| call: "mpmc_reach n s puts gots \<Longrightarrow> pc_done (sys_pc s t) \<Longrightarrow> is_call pc
    \<Longrightarrow> mpmc_reach n (s\<lparr>sys_pc := (sys_pc s)(t := pc)\<rparr>) puts gots"
| step: "mpmc_reach n s puts gots \<Longrightarrow> pc_step (n - 1) (sys_queue s) (sys_pc s t) = Some (q', pc')
    \<Longrightarrow> mpmc_reach n \<lparr>sys_queue = q', sys_pc = (sys_pc s)(t := pc')\<rparr> (puts @ put_of (sys_pc s t) pc') (gots @ got_of (sys_pc s t))"
| weak_deq: "mpmc_reach n s puts gots \<Longrightarrow> sys_pc s t = DeqClaim pos
    \<Longrightarrow> mpmc_reach n (s\<lparr>sys_pc := (sys_pc s)(t := DeqLook pos)\<rparr>) puts gots"
| weak_enq: "mpmc_reach n s puts gots \<Longrightarrow> sys_pc s t = EnqClaim pos x
    \<Longrightarrow> mpmc_reach n (s\<lparr>sys_pc := (sys_pc s)(t := EnqLook pos x)\<rparr>) puts gots"

section \<open>Numbers\<close>

lemma i8_diff_small:
  assumes "- 128 \<le> int a - int b" and "int a - int b < 128"
  shows "i8_diff a b = int a - int b"
proof -
  have e: "(of_nat a - of_nat b :: 8 word) = word_of_int (int a - int b)" by simp
  have "i8_diff a b = signed_take_bit 7 (int a - int b)" unfolding i8_diff_def e sint_sbintrunc' by simp
  also have "\<dots> = int a - int b" using assms by (intro signed_take_bit_int_eq_self) simp_all
  finally show ?thesis .
qed

lemma and_pred_zero: "0 < n \<Longrightarrow> n AND (n - 1) = 0 \<Longrightarrow> is_pow2 (n :: nat)"
proof (induction n rule: less_induct)
  case (less n)
  show ?case
  proof (cases "n = 1")
    case True
    then show ?thesis using is_pow2_power [of 0] by simp
  next
    case False
    then have n: "n \<noteq> 0" "n - 1 \<noteq> 0" using less.prems(1) by auto
    have u: "(n mod 2) * ((n - 1) mod 2) + 2 * ((n div 2) AND ((n - 1) div 2)) = 0"
      using less.prems(2) n by (subst (asm) and_nat_unfold) simp
    show ?thesis
    proof (cases "even n")
      case True
      then obtain k where k: "n = 2 * k" by (elim evenE)
      then have "(n - 1) div 2 = k - 1" "n div 2 = k" "0 < k" "k < n" using n by auto
      then have "is_pow2 k" using u less.IH [of k] by simp
      then show ?thesis using k by (metis is_pow2_iff power_Suc)
    next
      case odd: False
      then obtain k where k: "n = 2 * k + 1" by (elim oddE)
      then have "(n - 1) div 2 = k" "n div 2 = k" by auto
      then have "k = 0" using u by simp
      then show ?thesis using k False by simp
    qed
  qed
qed

lemma number_cells_eq:
  "k \<le> length cells \<Longrightarrow> number_cells k cells = take k cells @ map cell_new [k..<length cells]"
proof (induction k cells rule: number_cells.induct)
  case (1 k cells)
  show ?case
  proof (cases "k < length cells")
    case True
    have "number_cells k cells = number_cells (k + 1) (cells[k := cell_new k])" using True by (subst number_cells.simps) simp
    also have "\<dots> = take (k + 1) (cells[k := cell_new k]) @ map cell_new [k + 1..<length cells]" using 1 True by simp
    also have "\<dots> = take k cells @ map cell_new [k..<length cells]" using True by (simp add: take_Suc_conv_app_nth upt_conv_Cons)
    finally show ?thesis .
  next
    case False
    then show ?thesis using "1.prems" by (subst number_cells.simps) simp
  qed
qed

lemma mpmc_new_Some:
  assumes "mpmc_new n = Some q"
  shows "is_pow2 n \<and> 2 \<le> n \<and> q = \<lparr>mq_buffer = map cell_new [0..<n], dequeue_pos = 0, enqueue_pos = 0\<rparr>"
  using assms and_pred_zero [of n] number_cells_eq [of 0 "replicate n (cell_new 0)"]
  by (auto simp: mpmc_new_def assert_greater_def assert_power_of_two_def const_sub_def bind_eq_Some_conv split: if_splits)

section \<open>The shared invariant\<close>

text \<open>The cell of a position.\<close>

definition cell_of :: "nat \<Rightarrow> 'a mpmc_queue \<Rightarrow> nat \<Rightarrow> 'a mpmc_cell" where
  "cell_of n q p = mq_buffer q ! (p mod n)"

lemma cell_of_update [simp]:
  "cell_of n (q\<lparr>enqueue_pos := k\<rparr>) p = cell_of n q p" "cell_of n (q\<lparr>dequeue_pos := k\<rparr>) p = cell_of n q p"
  by (simp_all add: cell_of_def)

text \<open>\<open>W\<close> holds the positions claimed by \<open>enqueue\<close> and not yet published, \<open>R\<close> those claimed by \<open>dequeue\<close>. A position among
  the last \<open>n\<close> owns its cell, whose sequence number tells which of its four phases it is in.\<close>

definition mq_bounds :: "nat \<Rightarrow> 'a mpmc_queue \<Rightarrow> nat set \<Rightarrow> nat set \<Rightarrow> 'a list \<Rightarrow> bool" where
  "mq_bounds n q W R puts \<longleftrightarrow> length (mq_buffer q) = n \<and> enqueue_pos q = length puts
     \<and> dequeue_pos q \<le> length puts \<and> length puts \<le> dequeue_pos q + n
     \<and> (\<forall>p \<in> W. dequeue_pos q \<le> p \<and> p < length puts) \<and> (\<forall>p \<in> R. p < dequeue_pos q \<and> length puts \<le> p + n)"

definition cell_ok :: "nat \<Rightarrow> 'a mpmc_queue \<Rightarrow> nat set \<Rightarrow> nat set \<Rightarrow> 'a list \<Rightarrow> nat \<Rightarrow> bool" where
  "cell_ok n q W R puts p \<longleftrightarrow>
     sequence (cell_of n q p) = (if p \<in> W then p else if dequeue_pos q \<le> p \<or> p \<in> R then p + 1 else p + n)
     \<and> (p \<notin> W \<longrightarrow> dequeue_pos q \<le> p \<or> p \<in> R \<longrightarrow> cell_data (cell_of n q p) = Some (puts ! p))"

definition mq_core :: "nat \<Rightarrow> 'a mpmc_queue \<Rightarrow> nat set \<Rightarrow> nat set \<Rightarrow> 'a list \<Rightarrow> bool" where
  "mq_core n q W R puts \<longleftrightarrow> mq_bounds n q W R puts
     \<and> (\<forall>p < length puts. length puts \<le> p + n \<longrightarrow> cell_ok n q W R puts p)
     \<and> (\<forall>p < n. length puts \<le> p \<longrightarrow> sequence (cell_of n q p) = p)"

lemma core_parts:
  assumes "mq_core n q W R puts"
  shows core_bounds: "mq_bounds n q W R puts"
    and core_cell: "p < length puts \<Longrightarrow> length puts \<le> p + n \<Longrightarrow> cell_ok n q W R puts p"
    and core_fresh: "p < n \<Longrightarrow> length puts \<le> p \<Longrightarrow> sequence (cell_of n q p) = p"
  using assms by (simp_all add: mq_core_def)

lemma bounds_parts:
  assumes "mq_bounds n q W R puts"
  shows "length (mq_buffer q) = n" "enqueue_pos q = length puts" "dequeue_pos q \<le> length puts"
    "length puts \<le> dequeue_pos q + n" "p \<in> W \<Longrightarrow> dequeue_pos q \<le> p" "p \<in> W \<Longrightarrow> p < length puts"
    "p \<in> R \<Longrightarrow> p < dequeue_pos q" "p \<in> R \<Longrightarrow> length puts \<le> p + n"
  using assms by (auto simp: mq_bounds_def)

definition slot_free :: "nat \<Rightarrow> 'a mpmc_queue \<Rightarrow> nat set \<Rightarrow> bool" where
  "slot_free n q R \<longleftrightarrow> (\<forall>p. p + n = enqueue_pos q \<longrightarrow> p < dequeue_pos q \<and> p \<notin> R)"

lemma window_inj:
  assumes "p mod n = p' mod n" "p < e" "e \<le> p + n" "p' < e" "e \<le> p' + n"
  shows "p = (p' :: nat)"
proof (rule ccontr)
  assume ne: "p \<noteq> p'"
  have *: False if "a < b" "b < a + n" "a mod n = b mod n" for a b :: nat
  proof -
    have "n dvd b - a" using that(1,3) by (metis mod_eq_dvd_iff_nat less_imp_le)
    then show False using that(1,2) by (auto dest: dvd_imp_le)
  qed
  show False using * [of p p'] * [of p' p] ne assms by linarith
qed

lemma slot_free_sequence:
  assumes c: "mq_core n q W R puts" and f: "slot_free n q R" and n: "0 < n"
  shows "sequence (cell_of n q (length puts)) = length puts" and "length puts + 1 \<le> dequeue_pos q + n"
proof -
  note b = bounds_parts [OF core_bounds [OF c]]
  let ?e = "length puts"
  have "sequence (cell_of n q ?e) = ?e \<and> ?e + 1 \<le> dequeue_pos q + n"
  proof (cases "?e < n")
    case True
    then show ?thesis using core_fresh [OF c] by simp
  next
    case False
    define p where "p = ?e - n"
    then have p: "p + n = ?e" "p < ?e" using n False by auto
    then have "cell_of n q ?e = cell_of n q p" unfolding cell_of_def by (metis mod_add_self2)
    moreover have d: "p < dequeue_pos q" "p \<notin> R" using f p b(2) by (auto simp: slot_free_def)
    moreover have "p \<notin> W" using d(1) b(5) by (auto simp: not_less [symmetric])
    ultimately show ?thesis using core_cell [OF c, of p] p by (simp add: cell_ok_def)
  qed
  then show "sequence (cell_of n q ?e) = ?e" "?e + 1 \<le> dequeue_pos q + n" by auto
qed

lemma core_claim_enq:
  assumes c: "mq_core n q W R puts" and f: "slot_free n q R" and n: "0 < n"
  shows "mq_core n (q\<lparr>enqueue_pos := length puts + 1\<rparr>) (insert (length puts) W) R (puts @ [x])"
proof -
  note b = bounds_parts [OF core_bounds [OF c]] and s = slot_free_sequence [OF c f n]
  let ?e = "length puts" and ?q = "q\<lparr>enqueue_pos := length puts + 1\<rparr>"
  have "?e + 1 \<le> p + n" if "p \<in> R" for p
  proof -
    have "p + n \<noteq> ?e" using f that b(2) by (auto simp: slot_free_def)
    then show ?thesis using b(8) [OF that] by simp
  qed
  then have "mq_bounds n ?q (insert ?e W) R (puts @ [x])" using b s(2) by (auto simp: mq_bounds_def intro: less_SucI)
  moreover have "cell_ok n ?q (insert ?e W) R (puts @ [x]) p" if "p < ?e + 1" "?e + 1 \<le> p + n" for p
  proof (cases "p = ?e")
    case True
    then show ?thesis using s(1) by (simp add: cell_ok_def)
  next
    case False
    then show ?thesis using core_cell [OF c, of p] that by (simp add: cell_ok_def nth_append)
  qed
  ultimately show ?thesis using core_fresh [OF c] by (simp add: mq_core_def)
qed

lemma set_cell_of:
  assumes "length (mq_buffer q) = n" "0 < n"
  shows "cell_of n (set_cell (p mod n) cl q) p' = (if p mod n = p' mod n then cl else cell_of n q p')"
  using assms by (auto simp: cell_of_def set_cell_def nth_list_update)

lemma set_cell_simps [simp]: "dequeue_pos (set_cell i cl q) = dequeue_pos q" "enqueue_pos (set_cell i cl q) = enqueue_pos q"
  "length (mq_buffer (set_cell i cl q)) = length (mq_buffer q)"
  by (simp_all add: set_cell_def)

text \<open>A write to the cell of a claimed position: its data, and its sequence number, once by each side.\<close>

lemma core_write:
  assumes c: "mq_core n q W R puts" and n: "0 < n" and p: "p \<in> W"
  shows "mq_core n (set_cell (p mod n) ((cell_of n q p)\<lparr>cell_data := d\<rparr>) q) W R puts"
proof -
  note b = bounds_parts [OF core_bounds [OF c]]
  let ?q = "set_cell (p mod n) ((cell_of n q p)\<lparr>cell_data := d\<rparr>) q"
  have ce: "cell_of n ?q k = (if p mod n = k mod n then (cell_of n q k)\<lparr>cell_data := d\<rparr> else cell_of n q k)" for k
    using set_cell_of [OF b(1) n] by (simp add: cell_of_def)
  have p': "p < length puts" "length puts \<le> p + n" using b(4) b(5,6) [of p] p by auto
  have "cell_ok n ?q W R puts k" if "k < length puts" "length puts \<le> k + n" for k
    using core_cell [OF c that] window_inj [OF _ p' that] p by (auto simp: cell_ok_def ce)
  moreover have "mq_bounds n ?q W R puts" using core_bounds [OF c] by (simp add: mq_bounds_def)
  ultimately show ?thesis using core_fresh [OF c] by (simp add: mq_core_def ce)
qed

lemma core_publish_enq:
  assumes c: "mq_core n q W R puts" and n: "0 < n" and p: "p \<in> W" and d: "cell_data (cell_of n q p) = Some (puts ! p)"
  shows "mq_core n (set_cell (p mod n) ((cell_of n q p)\<lparr>sequence := Suc p\<rparr>) q) (W - {p}) R puts"
proof -
  note b = bounds_parts [OF core_bounds [OF c]]
  let ?q = "set_cell (p mod n) ((cell_of n q p)\<lparr>sequence := Suc p\<rparr>) q"
  have ce: "cell_of n ?q k = (if p mod n = k mod n then (cell_of n q k)\<lparr>sequence := Suc p\<rparr> else cell_of n q k)" for k
    using set_cell_of [OF b(1) n] by (simp add: cell_of_def)
  have p': "p < length puts" "length puts \<le> p + n" "dequeue_pos q \<le> p" using b(4) b(5,6) [of p] p by auto
  have "cell_ok n ?q (W - {p}) R puts k" if "k < length puts" "length puts \<le> k + n" for k
    using core_cell [OF c that] window_inj [OF _ p'(1,2) that] p'(3) d by (auto simp: cell_ok_def ce)
  moreover have "mq_bounds n ?q (W - {p}) R puts" using core_bounds [OF c] by (simp add: mq_bounds_def)
  moreover have "sequence (cell_of n ?q k) = k" if "k < n" "length puts \<le> k" for k
  proof -
    have "p mod n \<noteq> k mod n" using that p'(1) by simp
    then show ?thesis using core_fresh [OF c that] by (simp add: ce)
  qed
  ultimately show ?thesis by (simp add: mq_core_def)
qed

lemma core_claim_deq:
  assumes c: "mq_core n q W R puts" and d: "dequeue_pos q < length puts" "dequeue_pos q \<notin> W"
  shows "mq_core n (q\<lparr>dequeue_pos := dequeue_pos q + 1\<rparr>) W (insert (dequeue_pos q) R) puts"
proof -
  note b = bounds_parts [OF core_bounds [OF c]]
  let ?q = "q\<lparr>dequeue_pos := dequeue_pos q + 1\<rparr>"
  have "dequeue_pos q + 1 \<le> p" if "p \<in> W" for p using b(5) [OF that] d(2) that by (auto simp: Suc_le_eq le_less)
  then have "mq_bounds n ?q W (insert (dequeue_pos q) R) puts" using b d by (auto simp: mq_bounds_def intro: less_SucI)
  moreover have "cell_ok n ?q W (insert (dequeue_pos q) R) puts p" if "p < length puts" "length puts \<le> p + n" for p
  proof -
    have "dequeue_pos q + 1 \<le> p \<or> p = dequeue_pos q \<longleftrightarrow> dequeue_pos q \<le> p" by auto
    then show ?thesis using core_cell [OF c that] by (auto simp: cell_ok_def)
  qed
  ultimately show ?thesis using core_fresh [OF c] by (simp add: mq_core_def)
qed

lemma core_publish_deq:
  assumes c: "mq_core n q W R puts" and n: "0 < n" and p: "p \<in> R"
  shows "mq_core n (set_cell (p mod n) ((cell_of n q p)\<lparr>sequence := p + n\<rparr>) q) W (R - {p}) puts"
proof -
  note b = bounds_parts [OF core_bounds [OF c]]
  let ?q = "set_cell (p mod n) ((cell_of n q p)\<lparr>sequence := p + n\<rparr>) q"
  have ce: "cell_of n ?q k = (if p mod n = k mod n then (cell_of n q k)\<lparr>sequence := p + n\<rparr> else cell_of n q k)" for k
    using set_cell_of [OF b(1) n] by (simp add: cell_of_def)
  have p': "p < length puts" "length puts \<le> p + n" "p < dequeue_pos q" using b(3) b(7,8) [of p] p by auto
  have w: "p \<notin> W" using b(5) [of p] p'(3) by auto
  have "cell_ok n ?q W (R - {p}) puts k" if "k < length puts" "length puts \<le> k + n" for k
    using core_cell [OF c that] window_inj [OF _ p'(1,2) that] p'(3) w by (auto simp: cell_ok_def ce)
  moreover have "mq_bounds n ?q W (R - {p}) puts" using core_bounds [OF c] by (simp add: mq_bounds_def)
  moreover have "sequence (cell_of n ?q k) = k" if "k < n" "length puts \<le> k" for k
  proof -
    have "p mod n \<noteq> k mod n" using that p'(1) by simp
    then show ?thesis using core_fresh [OF c that] by (simp add: ce)
  qed
  ultimately show ?thesis by (simp add: mq_core_def)
qed

section \<open>The threads\<close>

fun writing :: "'a mpmc_pc \<Rightarrow> nat option" where
  "writing (EnqWrite p x) = Some p"
| "writing (EnqPublish p x) = Some p"
| "writing _ = None"

fun reading :: "'a mpmc_pc \<Rightarrow> nat option" where
  "reading (DeqRead p) = Some p"
| "reading (DeqPublish p x) = Some p"
| "reading _ = None"

text \<open>The positions that the threads hold, one at most each, and that no two of them hold the same.\<close>

definition held :: "(nat \<Rightarrow> nat option) \<Rightarrow> nat set" where
  "held f = {p. \<exists>t. f t = Some p}"

definition one_holder :: "(nat \<Rightarrow> nat option) \<Rightarrow> bool" where
  "one_holder f \<longleftrightarrow> (\<forall>t u p. f t = Some p \<longrightarrow> f u = Some p \<longrightarrow> t = u)"

lemma held_upd: "one_holder f \<Longrightarrow> held (f(t := v)) = held f - set_option (f t) \<union> set_option v"
  unfolding held_def one_holder_def by (cases v) (auto split: if_splits)

lemma held_same: "v = f t \<Longrightarrow> held (f(t := v)) = held f"
  by simp

lemma one_holder_upd: "one_holder f \<Longrightarrow> (\<And>p. v = Some p \<Longrightarrow> f t \<noteq> Some p \<Longrightarrow> p \<notin> held f) \<Longrightarrow> one_holder (f(t := v))"
  unfolding held_def one_holder_def by (simp split: if_splits) metis

abbreviation writers :: "(nat \<Rightarrow> 'a mpmc_pc) \<Rightarrow> nat set" where
  "writers pcs \<equiv> held (writing \<circ> pcs)"

abbreviation readers :: "(nat \<Rightarrow> 'a mpmc_pc) \<Rightarrow> nat set" where
  "readers pcs \<equiv> held (reading \<circ> pcs)"

text \<open>What a thread knows at each point, in a queue with the writers \<open>W\<close> and the readers \<open>R\<close>.\<close>

fun pc_inv :: "nat \<Rightarrow> 'a mpmc_queue \<Rightarrow> nat set \<Rightarrow> nat set \<Rightarrow> 'a list \<Rightarrow> nat set \<Rightarrow> 'a mpmc_pc \<Rightarrow> bool" where
  "pc_inv n q W R puts G (DeqLook pos) = (pos \<le> dequeue_pos q)"
| "pc_inv n q W R puts G (DeqClaim pos) = (pos \<le> dequeue_pos q \<and> (dequeue_pos q = pos \<longrightarrow> pos < enqueue_pos q \<and> pos \<notin> W))"
| "pc_inv n q W R puts G (DeqRead pos) = (pos \<notin> G)"
| "pc_inv n q W R puts G (DeqPublish pos x) = (pos \<notin> G \<and> puts ! pos = x)"
| "pc_inv n q W R puts G (EnqLook pos x) = (pos \<le> enqueue_pos q)"
| "pc_inv n q W R puts G (EnqClaim pos x) = (pos \<le> enqueue_pos q \<and> (enqueue_pos q = pos \<longrightarrow> slot_free n q R))"
| "pc_inv n q W R puts G (EnqWrite pos x) = (puts ! pos = x)"
| "pc_inv n q W R puts G (EnqPublish pos x) = (puts ! pos = x \<and> cell_data (cell_of n q pos) = Some x)"
| "pc_inv n q W R puts G _ = True"

text \<open>Each position that was claimed by \<open>dequeue\<close> has been got once, with the item put there, or is being read.\<close>

definition mq_got :: "'a mpmc_queue \<Rightarrow> nat set \<Rightarrow> 'a list \<Rightarrow> (nat \<times> 'a) list \<Rightarrow> bool" where
  "mq_got q R puts gots \<longleftrightarrow> distinct (map fst gots) \<and> (\<forall>(p, x) \<in> set gots. p < dequeue_pos q \<and> puts ! p = x)
     \<and> fst ` set gots \<union> R = {..<dequeue_pos q}"

definition mq_inv :: "nat \<Rightarrow> 'a mpmc_queue \<Rightarrow> (nat \<Rightarrow> 'a mpmc_pc) \<Rightarrow> 'a list \<Rightarrow> (nat \<times> 'a) list \<Rightarrow> bool" where
  "mq_inv n q pcs puts gots \<longleftrightarrow> mq_core n q (writers pcs) (readers pcs) puts \<and> one_holder (writing \<circ> pcs) \<and> one_holder (reading \<circ> pcs)
     \<and> (\<forall>t. pc_inv n q (writers pcs) (readers pcs) puts (fst ` set gots) (pcs t)) \<and> mq_got q (readers pcs) puts gots"

lemma mq_inv_parts:
  assumes "mq_inv n q pcs puts gots"
  shows "mq_core n q (writers pcs) (readers pcs) puts" "one_holder (writing \<circ> pcs)" "one_holder (reading \<circ> pcs)"
    "pc_inv n q (writers pcs) (readers pcs) puts (fst ` set gots) (pcs t)" "mq_got q (readers pcs) puts gots"
  using assms by (auto simp: mq_inv_def)

text \<open>A step that changes nothing shared.\<close>

lemma inv_local:
  assumes i: "mq_inv n q pcs puts gots" and w: "writing pc = writing (pcs t)" "reading pc = reading (pcs t)"
    and p: "pc_inv n q (writers pcs) (readers pcs) puts (fst ` set gots) pc"
  shows "mq_inv n q (pcs(t := pc)) puts gots"
proof -
  have e: "writing \<circ> pcs(t := pc) = writing \<circ> pcs" "reading \<circ> pcs(t := pc) = reading \<circ> pcs" using w by auto
  show ?thesis using i p unfolding mq_inv_def e by simp
qed

text \<open>A step that changes the queue: the shared invariant, what the thread knows, and what each other thread knows.\<close>

lemma inv_step:
  assumes i: "mq_inv n q pcs puts gots"
    and W: "writers (pcs(t := pc)) = W'" and R: "readers (pcs(t := pc)) = R'"
    and a: "\<And>p. writing pc = Some p \<Longrightarrow> writing (pcs t) \<noteq> Some p \<Longrightarrow> p \<notin> writers pcs"
      "\<And>p. reading pc = Some p \<Longrightarrow> reading (pcs t) \<noteq> Some p \<Longrightarrow> p \<notin> readers pcs"
    and c: "mq_core n q' W' R' puts'" "mq_got q' R' puts' gots'"
    and p: "pc_inv n q' W' R' puts' (fst ` set gots') pc"
    and o: "\<And>u. u \<noteq> t \<Longrightarrow> pc_inv n q' W' R' puts' (fst ` set gots') (pcs u)"
  shows "mq_inv n q' (pcs(t := pc)) puts' gots'"
proof -
  note m = mq_inv_parts [OF i]
  have "one_holder (writing \<circ> pcs(t := pc))" using one_holder_upd [OF m(2), of "writing pc" t] a(1) by (simp add: fun_upd_comp)
  moreover have "one_holder (reading \<circ> pcs(t := pc))" using one_holder_upd [OF m(3), of "reading pc" t] a(2) by (simp add: fun_upd_comp)
  ultimately show ?thesis using c p o unfolding mq_inv_def W R by simp
qed

lemma held_in: "f t = Some p \<Longrightarrow> p \<in> held f"
  by (auto simp: held_def)

lemma held_apart: "one_holder f \<Longrightarrow> f t = Some p \<Longrightarrow> u \<noteq> t \<Longrightarrow> f u \<noteq> Some p"
  by (auto simp: one_holder_def)

lemma writers_upd: "one_holder (writing \<circ> pcs) \<Longrightarrow> writers (pcs(t := pc)) = writers pcs - set_option (writing (pcs t)) \<union> set_option (writing pc)"
  using held_upd [of "writing \<circ> pcs"] by (simp add: fun_upd_comp)

lemma readers_upd: "one_holder (reading \<circ> pcs) \<Longrightarrow> readers (pcs(t := pc)) = readers pcs - set_option (reading (pcs t)) \<union> set_option (reading pc)"
  using held_upd [of "reading \<circ> pcs"] by (simp add: fun_upd_comp)

lemma inv_holders:
  assumes i: "mq_inv n q pcs puts gots"
  shows "writing (pcs u) = Some p \<Longrightarrow> p < length puts" and "writing (pcs u) = Some p \<Longrightarrow> dequeue_pos q \<le> p"
    and "reading (pcs u) = Some p \<Longrightarrow> p < dequeue_pos q" and "reading (pcs u) = Some p \<Longrightarrow> p < length puts"
proof -
  note b = bounds_parts [OF core_bounds [OF mq_inv_parts(1) [OF i]]]
  show "p < length puts" "dequeue_pos q \<le> p" if "writing (pcs u) = Some p"
    using b(5,6) [of p] held_in [of "writing \<circ> pcs" u p] that by simp_all
  show "p < dequeue_pos q" if "reading (pcs u) = Some p" for p
    using b(7) [of p] held_in [of "reading \<circ> pcs" u p] that by simp
  from this [of p] show "p < length puts" if "reading (pcs u) = Some p" using b(3) that by simp
qed

lemma inv_claim_enq:
  assumes i: "mq_inv n q pcs puts gots" and t: "pcs t = EnqClaim (enqueue_pos q) x" and n: "0 < n"
  shows "mq_inv n (q\<lparr>enqueue_pos := enqueue_pos q + 1\<rparr>) (pcs(t := EnqWrite (enqueue_pos q) x)) (puts @ [x]) gots"
proof -
  note m = mq_inv_parts [OF i] and b = bounds_parts [OF core_bounds [OF mq_inv_parts(1) [OF i]]]
  have f: "slot_free n q (readers pcs)" using m(4) [of t] t by simp
  have e: "length puts \<notin> writers pcs" using b(6) [of "length puts"] by auto
  show ?thesis unfolding b(2)
  proof (rule inv_step [OF i, where W' = "insert (length puts) (writers pcs)" and R' = "readers pcs"])
    show "mq_core n (q\<lparr>enqueue_pos := length puts + 1\<rparr>) (insert (length puts) (writers pcs)) (readers pcs) (puts @ [x])"
      by (rule core_claim_enq [OF m(1) f n])
    have "p < length puts" if "p < dequeue_pos q" for p using b(3) that by simp
    then show "mq_got (q\<lparr>enqueue_pos := length puts + 1\<rparr>) (readers pcs) (puts @ [x]) gots"
      using m(5) by (auto simp: mq_got_def nth_append)
    show "pc_inv n (q\<lparr>enqueue_pos := length puts + 1\<rparr>) (insert (length puts) (writers pcs)) (readers pcs) (puts @ [x]) (fst ` set gots) (pcs u)"
      if "u \<noteq> t" for u
      using m(4) [of u] inv_holders [OF i, of u] b(2) by (cases "pcs u") (auto simp: nth_append)
  qed (use t e in \<open>simp_all add: writers_upd [OF m(2)] readers_upd [OF m(3)]\<close>)
qed

lemma inv_claim_deq:
  assumes i: "mq_inv n q pcs puts gots" and t: "pcs t = DeqClaim (dequeue_pos q)"
  shows "mq_inv n (q\<lparr>dequeue_pos := dequeue_pos q + 1\<rparr>) (pcs(t := DeqRead (dequeue_pos q))) puts gots"
proof -
  let ?d = "dequeue_pos q"
  note m = mq_inv_parts [OF i] and b = bounds_parts [OF core_bounds [OF mq_inv_parts(1) [OF i]]]
  have d: "?d < length puts" "?d \<notin> writers pcs" using m(4) [of t] t b(2) by simp_all
  have r: "?d \<notin> readers pcs" using b(7) [of ?d] by auto
  show ?thesis
  proof (rule inv_step [OF i, where W' = "writers pcs" and R' = "insert ?d (readers pcs)"])
    show "mq_core n (q\<lparr>dequeue_pos := ?d + 1\<rparr>) (writers pcs) (insert ?d (readers pcs)) puts"
      by (rule core_claim_deq [OF m(1) d])
    show "mq_got (q\<lparr>dequeue_pos := ?d + 1\<rparr>) (insert ?d (readers pcs)) puts gots"
      using m(5) by (auto simp: mq_got_def lessThan_Suc)
    show "pc_inv n (q\<lparr>dequeue_pos := ?d + 1\<rparr>) (writers pcs) (insert ?d (readers pcs)) puts (fst ` set gots) (pcs u)" if "u \<noteq> t" for u
      using m(4) [of u] by (cases "pcs u") (auto simp: slot_free_def)
    show "pc_inv n (q\<lparr>dequeue_pos := ?d + 1\<rparr>) (writers pcs) (insert ?d (readers pcs)) puts (fst ` set gots) (DeqRead ?d)"
      using m(5) by (auto simp: mq_got_def)
  qed (use t r in \<open>simp_all add: writers_upd [OF m(2)] readers_upd [OF m(3)]\<close>)
qed

lemma inv_write:
  assumes i: "mq_inv n q pcs puts gots" and t: "pcs t = EnqWrite p x" and n: "0 < n"
  shows "mq_inv n (set_cell (p mod n) ((cell_of n q p)\<lparr>cell_data := Some x\<rparr>) q) (pcs(t := EnqPublish p x)) puts gots"
proof -
  note m = mq_inv_parts [OF i] and b = bounds_parts [OF core_bounds [OF mq_inv_parts(1) [OF i]]]
  let ?q = "set_cell (p mod n) ((cell_of n q p)\<lparr>cell_data := Some x\<rparr>) q"
  have w: "p \<in> writers pcs" using held_in [of "writing \<circ> pcs" t p] t by simp
  have win: "k < length puts \<and> length puts \<le> k + n" if "k \<in> writers pcs" for k
    using b(4) b(5,6) [OF that] by auto
  have ce: "cell_of n ?q k = (if p mod n = k mod n then (cell_of n q p)\<lparr>cell_data := Some x\<rparr> else cell_of n q k)" for k
    using set_cell_of [OF b(1) n] by simp
  show ?thesis
  proof (rule inv_step [OF i, where W' = "writers pcs" and R' = "readers pcs"])
    show "mq_core n ?q (writers pcs) (readers pcs) puts" by (rule core_write [OF m(1) n w])
    show "mq_got ?q (readers pcs) puts gots" using m(5) by (simp add: mq_got_def)
    show "pc_inv n ?q (writers pcs) (readers pcs) puts (fst ` set gots) (pcs u)" if "u \<noteq> t" for u
    proof (cases "\<exists>p' y. pcs u = EnqPublish p' y")
      case True
      then obtain p' y where u: "pcs u = EnqPublish p' y" by blast
      then have "p' \<in> writers pcs" using held_in [of "writing \<circ> pcs" u p'] by simp
      moreover have "p' \<noteq> p" using held_apart [OF m(2), of t p u] t u that by simp
      ultimately have "p mod n \<noteq> p' mod n" using window_inj [of p n p' "length puts"] win w by blast
      then show ?thesis using m(4) [of u] u by (simp add: ce)
    next
      case False
      then show ?thesis using m(4) [of u] by (cases "pcs u") (auto simp: slot_free_def)
    qed
    show "pc_inv n ?q (writers pcs) (readers pcs) puts (fst ` set gots) (EnqPublish p x)"
      using m(4) [of t] t by (simp add: ce)
  qed (use t w in \<open>auto simp: writers_upd [OF m(2)] readers_upd [OF m(3)]\<close>)
qed

lemma inv_publish_enq:
  assumes i: "mq_inv n q pcs puts gots" and t: "pcs t = EnqPublish p x" and n: "0 < n"
  shows "mq_inv n (set_cell (p mod n) ((cell_of n q p)\<lparr>sequence := p + 1\<rparr>) q) (pcs(t := EnqDone (Inr ()))) puts gots"
proof -
  note m = mq_inv_parts [OF i] and b = bounds_parts [OF core_bounds [OF mq_inv_parts(1) [OF i]]]
  let ?q = "set_cell (p mod n) ((cell_of n q p)\<lparr>sequence := p + 1\<rparr>) q"
  have w: "p \<in> writers pcs" using held_in [of "writing \<circ> pcs" t p] t by simp
  have d: "cell_data (cell_of n q p) = Some (puts ! p)" using m(4) [of t] t by simp
  have ce: "cell_data (cell_of n ?q k) = cell_data (cell_of n q k)" for k
    using set_cell_of [OF b(1) n, of p _ k] by (simp add: cell_of_def)
  show ?thesis
  proof (rule inv_step [OF i, where W' = "writers pcs - {p}" and R' = "readers pcs"])
    show "mq_core n ?q (writers pcs - {p}) (readers pcs) puts" using core_publish_enq [OF m(1) n w d] by simp
    show "mq_got ?q (readers pcs) puts gots" using m(5) by (simp add: mq_got_def)
    show "pc_inv n ?q (writers pcs - {p}) (readers pcs) puts (fst ` set gots) (pcs u)" if "u \<noteq> t" for u
      using m(4) [of u] ce by (cases "pcs u") (auto simp: slot_free_def)
  qed (use t in \<open>simp_all add: writers_upd [OF m(2)] readers_upd [OF m(3)]\<close>)
qed

lemma inv_publish_deq:
  assumes i: "mq_inv n q pcs puts gots" and t: "pcs t = DeqPublish p x" and n: "0 < n"
  shows "mq_inv n (set_cell (p mod n) ((cell_of n q p)\<lparr>sequence := p + n\<rparr>) q) (pcs(t := DeqDone (Some x))) puts (gots @ [(p, x)])"
proof -
  note m = mq_inv_parts [OF i] and b = bounds_parts [OF core_bounds [OF mq_inv_parts(1) [OF i]]]
  let ?q = "set_cell (p mod n) ((cell_of n q p)\<lparr>sequence := p + n\<rparr>) q"
  have r: "p \<in> readers pcs" using held_in [of "reading \<circ> pcs" t p] t by simp
  have ce: "cell_data (cell_of n ?q k) = cell_data (cell_of n q k)" for k
    using set_cell_of [OF b(1) n, of p _ k] by (simp add: cell_of_def)
  have g: "p \<notin> fst ` set gots" "puts ! p = x" using m(4) [of t] t by simp_all
  show ?thesis
  proof (rule inv_step [OF i, where W' = "writers pcs" and R' = "readers pcs - {p}"])
    show "mq_core n ?q (writers pcs) (readers pcs - {p}) puts" by (rule core_publish_deq [OF m(1) n r])
    show "mq_got ?q (readers pcs - {p}) puts (gots @ [(p, x)])"
      using m(5) g b(7) [OF r] r by (auto simp: mq_got_def)
    show "pc_inv n ?q (writers pcs) (readers pcs - {p}) puts (fst ` set (gots @ [(p, x)])) (pcs u)" if "u \<noteq> t" for u
      using m(4) [of u] ce held_apart [OF m(3), of t p u] t that by (cases "pcs u") (auto simp: slot_free_def)
  qed (use t in \<open>simp_all add: writers_upd [OF m(2)] readers_upd [OF m(3)]\<close>)
qed

section \<open>A look at a cell\<close>

text \<open>With at most 128 cells the comparison of the low bytes tells the phases of a cell one_holder.\<close>

lemma look_deq:
  assumes c: "mq_core n q W R puts" and n: "0 < n" "n \<le> 128"
    and z: "i8_diff (sequence (cell_of n q (dequeue_pos q))) (dequeue_pos q + 1) = 0"
  shows "dequeue_pos q < enqueue_pos q \<and> dequeue_pos q \<notin> W"
proof -
  let ?d = "dequeue_pos q"
  note b = bounds_parts [OF core_bounds [OF c]]
  have d0: "sequence (cell_of n q ?d) \<noteq> ?d" using z i8_diff_small [of ?d "?d + 1"] by auto
  show ?thesis
  proof (cases "?d < length puts")
    case True
    then show ?thesis using core_cell [OF c True b(4)] d0 b(2) by (auto simp: cell_ok_def)
  next
    case False
    then have e: "length puts = ?d" using b(3) by simp
    then have "n \<le> ?d" using core_fresh [OF c, of ?d] d0 by (auto simp: not_less [symmetric])
    define p where "p = ?d - n"
    have p: "?d = p + n" "p < ?d" using \<open>n \<le> ?d\<close> n by (auto simp: p_def)
    then have "cell_of n q ?d = cell_of n q p" unfolding cell_of_def by (metis mod_add_self2)
    moreover have "p \<notin> W" using b(5) [of p] p by auto
    moreover have "cell_ok n q W R puts p" using core_cell [OF c, of p] p e by simp
    ultimately have "sequence (cell_of n q ?d) = p + 1" using d0 p by (auto simp: cell_ok_def split: if_splits)
    moreover have "i8_diff (p + 1) (?d + 1) = - int n" using i8_diff_small [of "p + 1" "?d + 1"] p n by simp
    ultimately show ?thesis using z n by simp
  qed
qed

lemma look_enq:
  assumes c: "mq_core n q W R puts" and n: "2 \<le> n" "n \<le> 128"
    and z: "i8_diff (sequence (cell_of n q (enqueue_pos q))) (enqueue_pos q) = 0"
  shows "slot_free n q R"
  unfolding slot_free_def
proof (intro allI impI)
  fix p assume p: "p + n = enqueue_pos q"
  note b = bounds_parts [OF core_bounds [OF c]]
  have "cell_of n q (enqueue_pos q) = cell_of n q p" unfolding cell_of_def p [symmetric] by simp
  moreover have "cell_ok n q W R puts p" using core_cell [OF c, of p] p b(2) n by simp
  moreover have "i8_diff p (enqueue_pos q) = - int n" "i8_diff (p + 1) (enqueue_pos q) = 1 - int n"
    using i8_diff_small [of p "enqueue_pos q"] i8_diff_small [of "p + 1" "enqueue_pos q"] p n by simp_all
  ultimately have "p \<notin> W" "\<not> (dequeue_pos q \<le> p \<or> p \<in> R)" using z n by (auto simp: cell_ok_def split: if_splits)
  then show "p < dequeue_pos q \<and> p \<notin> R" by simp
qed

section \<open>Every step keeps the invariant\<close>

lemma cell_get:
  assumes "is_pow2 n" "length (mq_buffer q) = n" "0 < n"
  shows "aget (mq_buffer q) (p AND (n - 1)) = Some (cell_of n q p)"
  using assms by (simp only: and_mask_mod) (simp add: cell_of_def)

lemma inv_read_some:
  assumes i: "mq_inv n q pcs puts gots" and t: "reading (pcs t) = Some p"
  shows "cell_data (cell_of n q p) = Some (puts ! p)"
proof -
  note m = mq_inv_parts [OF i] and b = bounds_parts [OF core_bounds [OF mq_inv_parts(1) [OF i]]]
  have r: "p \<in> readers pcs" using held_in [of "reading \<circ> pcs" t p] t by simp
  have "p < length puts" "length puts \<le> p + n" "p \<notin> writers pcs" using b(3) b(7,8) [OF r] b(5) [of p] by auto
  then show ?thesis using core_cell [OF m(1)] r by (simp add: cell_ok_def)
qed

lemma inv_pc_step:
  assumes i: "mq_inv n q pcs puts gots" and n: "is_pow2 n" "2 \<le> n" "n \<le> 128"
    and s: "pc_step (n - 1) q (pcs t) = Some (q', pc')" and r: "length (puts @ put_of (pcs t) pc') + n < 2 ^ 64"
  shows "mq_inv n q' (pcs(t := pc')) (puts @ put_of (pcs t) pc') (gots @ got_of (pcs t))"
proof -
  note m = mq_inv_parts [OF i] and b = bounds_parts [OF core_bounds [OF mq_inv_parts(1) [OF i]]]
  have n0: "0 < n" using n(2) by simp
  note cg = cell_get [OF n(1) b(1) n0] and am = and_mask_mod [OF n(1), unfolded One_nat_def]
  have lt: "length puts + n < 2 ^ 64" using r by simp
  have small: "wadd p 1 = p + 1" "wadd (wadd p (n - 1)) 1 = p + n" if "p < length puts" for p
    using that lt n0 by simp_all
  note local = inv_local [OF i, of _ t]
  show ?thesis
  proof (cases "pcs t")
    case DeqLoad
    then show ?thesis using s local by auto
  next
    case (DeqLook p)
    have "i8_diff (sequence (cell_of n q p)) (wadd p 1) = 0 \<Longrightarrow> pc_inv n q (writers pcs) (readers pcs) puts (fst ` set gots) (DeqClaim p)"
      using look_deq [OF m(1) n0 n(3)] m(4) [of t] DeqLook b(3) lt n0 by auto
    then show ?thesis using DeqLook s local cg [of p] by (auto simp: Let_def split: if_splits)
  next
    case (DeqClaim p)
    show ?thesis
    proof (cases "dequeue_pos q = p")
      case True
      have "wadd p 1 = p + 1" using True b(3) lt n0 by simp
      then show ?thesis using inv_claim_deq [OF i, of t] DeqClaim True s by auto
    next
      case False
      then show ?thesis using DeqClaim s local [of "DeqLook p"] m(4) [of t] by auto
    qed
  next
    case (DeqRead p)
    then show ?thesis using s cg [of p] inv_read_some [OF i, of t p] local m(4) [of t] by auto
  next
    case (DeqPublish p x)
    have "p < length puts" using inv_holders(4) [OF i, of t p] DeqPublish by simp
    then show ?thesis using inv_publish_deq [OF i DeqPublish n0] DeqPublish s cg [of p] small(2) [of p] by (auto simp: am)
  next
    case (DeqDone r)
    have "pcs(t := DeqDone r) = pcs" using DeqDone by (metis fun_upd_triv)
    moreover have "q' = q" "pc' = DeqDone r" using s DeqDone by simp_all
    ultimately show ?thesis using i DeqDone by simp
  next
    case (EnqLoad x)
    then show ?thesis using s local by auto
  next
    case (EnqLook p x)
    have "i8_diff (sequence (cell_of n q p)) p = 0 \<Longrightarrow> pc_inv n q (writers pcs) (readers pcs) puts (fst ` set gots) (EnqClaim p x)"
      using look_enq [OF m(1) n(2,3)] m(4) [of t] EnqLook by auto
    then show ?thesis using EnqLook s local cg [of p] by (auto simp: Let_def split: if_splits)
  next
    case (EnqClaim p x)
    show ?thesis
    proof (cases "enqueue_pos q = p")
      case True
      have "wadd p 1 = p + 1" using True b(2) lt n0 by simp
      then show ?thesis using inv_claim_enq [OF i, of t x] EnqClaim True s n0 by auto
    next
      case False
      then show ?thesis using EnqClaim s local [of "EnqLook p x"] m(4) [of t] by auto
    qed
  next
    case (EnqWrite p x)
    then show ?thesis using inv_write [OF i EnqWrite n0] s cg [of p] by (auto simp: am)
  next
    case (EnqPublish p x)
    have "p < length puts" using inv_holders(1) [OF i, of t p] EnqPublish by simp
    then show ?thesis using inv_publish_enq [OF i EnqPublish n0] EnqPublish s cg [of p] small(1) [of p] by (auto simp: am)
  next
    case (EnqDone r)
    have "pcs(t := EnqDone r) = pcs" using EnqDone by (metis fun_upd_triv)
    moreover have "q' = q" "pc' = EnqDone r" using s EnqDone by simp_all
    ultimately show ?thesis using i EnqDone by simp
  qed
qed

lemma inv_init:
  assumes "mpmc_new n = Some q"
  shows "mq_inv n q (\<lambda>_. DeqDone None) [] []"
proof -
  have q: "q = \<lparr>mq_buffer = map cell_new [0..<n], dequeue_pos = 0, enqueue_pos = 0\<rparr>" using mpmc_new_Some [OF assms] by simp
  have h: "held (writing \<circ> (\<lambda>_. DeqDone None)) = {}" "held (reading \<circ> (\<lambda>_. DeqDone None)) = {}" by (simp_all add: held_def)
  have "mq_core n q {} {} []" by (auto simp: q mq_core_def mq_bounds_def cell_of_def cell_new_def)
  then show ?thesis unfolding mq_inv_def h by (simp add: one_holder_def mq_got_def q)
qed

lemma inv_new_pc:
  assumes i: "mq_inv n q pcs puts gots" and w: "writing (pcs t) = None" "reading (pcs t) = None"
    and p: "writing pc = None" "reading pc = None" "pc_inv n q (writers pcs) (readers pcs) puts (fst ` set gots) pc"
  shows "mq_inv n q (pcs(t := pc)) puts gots"
  using inv_local [OF i, of pc t] w p by simp

lemma reach_inv:
  assumes "mpmc_reach n s puts gots"
  shows "is_pow2 n \<and> 2 \<le> n \<and> (n \<le> 128 \<longrightarrow> length puts + n < 2 ^ 64 \<longrightarrow> mq_inv n (sys_queue s) (sys_pc s) puts gots)"
  using assms
proof (induction rule: mpmc_reach.induct)
  case (init q)
  then show ?case using mpmc_new_Some [OF init] inv_init [OF init] by (simp add: sys_init_def)
next
  case (call s puts gots t pc)
  have "writing (sys_pc s t) = None" "reading (sys_pc s t) = None" using call.hyps(2) by (cases "sys_pc s t"; simp)+
  moreover have "writing pc = None" "reading pc = None" "pc_inv n (sys_queue s) W R puts G pc" for W R G
    using call.hyps(3) by (cases pc; simp)+
  ultimately show ?case using call.IH inv_new_pc [of n "sys_queue s" "sys_pc s" puts gots t pc] by (simp add: fun_upd_def)
next
  case (step s puts gots t q' pc')
  then show ?case using inv_pc_step [of n "sys_queue s" "sys_pc s" puts gots t q' pc'] by (simp add: fun_upd_def)
next
  case (weak_deq s puts gots t pos)
  have "mq_inv n (sys_queue s) ((sys_pc s)(t := DeqLook pos)) puts gots" if i: "mq_inv n (sys_queue s) (sys_pc s) puts gots"
    using inv_new_pc [OF i, of t "DeqLook pos"] mq_inv_parts(4) [OF i, of t] weak_deq.hyps by simp
  then show ?case using weak_deq.IH by (simp add: fun_upd_def)
next
  case (weak_enq s puts gots t pos x)
  have "mq_inv n (sys_queue s) ((sys_pc s)(t := EnqLook pos x)) puts gots" if i: "mq_inv n (sys_queue s) (sys_pc s) puts gots"
    using inv_new_pc [OF i, of t "EnqLook pos x"] mq_inv_parts(4) [OF i, of t] weak_enq.hyps by simp
  then show ?case using weak_enq.IH by (simp add: fun_upd_def)
qed

lemma inv_pc_step_defined:
  assumes i: "mq_inv n q pcs puts gots" and n: "is_pow2 n" "2 \<le> n"
  shows "pc_step (n - 1) q (pcs t) \<noteq> None"
proof -
  have n0: "0 < n" using n(2) by simp
  note cg = cell_get [OF n(1) bounds_parts(1) [OF core_bounds [OF mq_inv_parts(1) [OF i]]] n0]
  show ?thesis using cg inv_read_some [OF i, of t] by (cases "pcs t") (auto simp: Let_def)
qed

text \<open>C9: For a queue of at most 128 cells, however the accesses of any number of threads interleave and however often the
  weak exchange fails, as long as the count of the items put and the capacity stay below \<open>2 ^ 64\<close>: a thread that dequeues gets the
  item put at its position, no position is got twice, every position claimed has been got or is being read, the queue never
  holds more than its capacity, and no step reads a cell that was not written or indexes out of the buffer.\<close>

theorem mpmc_concurrent_fifo:
  assumes "mpmc_reach n s puts gots" and "n \<le> 128" and "length puts + n < 2 ^ 64"
  shows "(\<forall>(p, x) \<in> set gots. p < length puts \<and> puts ! p = x) \<and> distinct (map fst gots)
    \<and> fst ` set gots \<union> readers (sys_pc s) = {..<dequeue_pos (sys_queue s)}
    \<and> dequeue_pos (sys_queue s) \<le> length puts \<and> length puts \<le> dequeue_pos (sys_queue s) + n
    \<and> (\<forall>t. pc_step (n - 1) (sys_queue s) (sys_pc s t) \<noteq> None)"
proof -
  have i: "mq_inv n (sys_queue s) (sys_pc s) puts gots" and n: "is_pow2 n" "2 \<le> n" using reach_inv [OF assms(1)] assms(2,3) by auto
  note b = bounds_parts [OF core_bounds [OF mq_inv_parts(1) [OF i]]]
  show ?thesis using mq_inv_parts(5) [OF i] b(3,4) inv_pc_step_defined [OF i n] by (auto simp: mq_got_def)
qed

section \<open>One thread refines a bounded list\<close>

lemma pow2_dvd_range:
  assumes "is_pow2 n" and "n < 2 ^ 64"
  shows "n dvd 2 ^ 64"
proof -
  obtain k where k: "n = 2 ^ k" using assms(1) by (auto simp: is_pow2_iff)
  then have "k < 64" using assms(2) power_strict_increasing_iff [of "2 :: nat" k 64] by simp
  then show ?thesis unfolding k by (intro le_imp_power_dvd) simp
qed

lemma i8_diff_mod: "i8_diff (a mod 2 ^ 64) (b mod 2 ^ 64) = i8_diff a b"
proof -
  have m: "(of_nat (c mod 2 ^ 64) :: 8 word) = of_nat c" for c
  proof -
    have "(256 :: nat) dvd 2 ^ 64" by simp
    then have "c mod 2 ^ 64 mod 256 = c mod (256 :: nat)" by (rule mod_mod_cancel)
    then show ?thesis by (intro word_of_nat_eq_iff [THEN iffD2]) (simp add: take_bit_eq_mod)
  qed
  show ?thesis unfolding i8_diff_def m ..
qed

text \<open>The queue holds \<open>xs\<close>. The positions wrap, and the cells follow, since the capacity divides \<open>2 ^ 64\<close>.\<close>

definition mq_rep :: "nat \<Rightarrow> 'a mpmc_queue \<Rightarrow> 'a list \<Rightarrow> bool" where
  "mq_rep n q xs \<longleftrightarrow> length (mq_buffer q) = n \<and> is_pow2 n \<and> 2 \<le> n \<and> n < 2 ^ 64 \<and> length xs \<le> n
     \<and> dequeue_pos q < 2 ^ 64 \<and> enqueue_pos q = (dequeue_pos q + length xs) mod 2 ^ 64
     \<and> (\<forall>k < length xs. cell_of n q (dequeue_pos q + k) = \<lparr>cell_data = Some (xs ! k), sequence = (dequeue_pos q + k + 1) mod 2 ^ 64\<rparr>)
     \<and> (\<forall>k < n. length xs \<le> k \<longrightarrow> sequence (cell_of n q (dequeue_pos q + k)) = (dequeue_pos q + k) mod 2 ^ 64)"

lemma mq_rep_parts:
  assumes "mq_rep n q xs"
  shows "length (mq_buffer q) = n" "is_pow2 n" "2 \<le> n" "n < 2 ^ 64" "length xs \<le> n" "dequeue_pos q < 2 ^ 64"
    "enqueue_pos q = (dequeue_pos q + length xs) mod 2 ^ 64" "mq_mask q = n - 1"
    "k < length xs \<Longrightarrow> cell_of n q (dequeue_pos q + k) = \<lparr>cell_data = Some (xs ! k), sequence = (dequeue_pos q + k + 1) mod 2 ^ 64\<rparr>"
    "k < n \<Longrightarrow> length xs \<le> k \<Longrightarrow> sequence (cell_of n q (dequeue_pos q + k)) = (dequeue_pos q + k) mod 2 ^ 64"
  using assms by (simp_all add: mq_rep_def mq_mask_def)

lemma cell_of_mod: "n dvd m \<Longrightarrow> cell_of n q (p mod m) = cell_of n q p"
  by (simp add: cell_of_def mod_mod_cancel)

lemma rep_get:
  assumes r: "mq_rep n q xs"
  shows "aget (mq_buffer q) (p mod 2 ^ 64 AND (n - 1)) = Some (cell_of n q p)" and "p mod 2 ^ 64 AND (n - 1) = p mod n"
proof -
  note m = mq_rep_parts [OF r]
  have d: "n dvd 2 ^ 64" by (rule pow2_dvd_range [OF m(2,4)])
  have "0 < n" using m(3) by simp
  then show "aget (mq_buffer q) (p mod 2 ^ 64 AND (n - 1)) = Some (cell_of n q p)"
    using cell_get [OF m(2,1), of "p mod 2 ^ 64"] cell_of_mod [OF d, of q p] by simp
  show "p mod 2 ^ 64 AND (n - 1) = p mod n" using and_mask_mod [OF m(2), of "p mod 2 ^ 64"] d by (simp add: mod_mod_cancel)
qed

lemma run_pc_step: "\<not> pc_done pc \<Longrightarrow> pc_step msk q pc = Some (q', pc') \<Longrightarrow> run_pc msk q pc = run_pc msk q' pc'"
  by (subst run_pc.simps) simp

lemma run_pc_done: "pc_done pc \<Longrightarrow> run_pc msk q pc = Some (q, pc)"
  by (subst run_pc.simps) simp

lemma rep_offsets_apart:
  assumes "i < n" "j < n" "i \<noteq> j"
  shows "(d + i) mod n \<noteq> (d + j) mod (n :: nat)"
proof
  assume "(d + i) mod n = (d + j) mod n"
  then have "d + i = d + j" using window_inj [of "d + i" n "d + j" "d + n"] assms by simp
  then show False using assms(3) by simp
qed

lemma wadd_mod: "wadd (a mod 2 ^ 64) b = (a + b) mod 2 ^ 64"
  by (simp add: wadd_def mod_simps)

lemma mq_enqueue_room:
  assumes r: "mq_rep n q xs" and l: "length xs < n"
  shows "\<exists>q'. mq_enqueue q x = Some (q', Inr ()) \<and> mq_rep n q' (xs @ [x])"
proof -
  note m = mq_rep_parts [OF r]
  let ?d = "dequeue_pos q" let ?p = "?d + length xs" let ?e = "?p mod 2 ^ 64" let ?i = "?p mod n"
  have n0: "0 < n" using m(3) by simp
  have s: "sequence (cell_of n q ?p) = ?e" using m(10) [of "length xs"] l by simp
  let ?q1 = "q\<lparr>enqueue_pos := wadd ?e 1\<rparr>"
  let ?c1 = "(cell_of n q ?p)\<lparr>cell_data := Some x\<rparr>" let ?c2 = "?c1\<lparr>sequence := wadd ?e 1\<rparr>"
  let ?q2 = "set_cell ?i ?c1 ?q1" let ?q3 = "set_cell ?i ?c2 ?q2"
  have z: "i8_diff ?e ?e = 0" by (simp add: i8_diff_def)
  have g1: "aget (mq_buffer ?q1) (?e AND (n - 1)) = Some (cell_of n q ?p)" using rep_get(1) [OF r, of ?p] by simp
  have g2: "aget (mq_buffer ?q2) (?e AND (n - 1)) = Some ?c1"
    using m(1) n0 unfolding rep_get(2) [OF r, of ?p] by (simp add: set_cell_def)
  have "run_pc (n - 1) q (EnqLoad x) = run_pc (n - 1) q (EnqLook ?e x)" by (rule run_pc_step) (simp_all add: m(7))
  also have "\<dots> = run_pc (n - 1) q (EnqClaim ?e x)"
    by (rule run_pc_step) (use rep_get(1) [OF r, of ?p] s z in \<open>simp_all\<close>)
  also have "\<dots> = run_pc (n - 1) ?q1 (EnqWrite ?e x)" by (rule run_pc_step) (simp_all add: m(7))
  also have "\<dots> = run_pc (n - 1) ?q2 (EnqPublish ?e x)"
    by (rule run_pc_step) (use g1 rep_get(2) [OF r, of ?p] in \<open>simp_all\<close>)
  also have "\<dots> = run_pc (n - 1) ?q3 (EnqDone (Inr ()))"
    by (rule run_pc_step) (use g2 rep_get(2) [OF r, of ?p] in \<open>simp_all\<close>)
  also have "\<dots> = Some (?q3, EnqDone (Inr ()))" by (rule run_pc_done) simp
  finally have run: "mq_enqueue q x = Some (?q3, Inr ())" by (simp add: mq_enqueue_def m(8))
  have ce: "cell_of n ?q3 (?d + k) = (if k = length xs then ?c2 else cell_of n q (?d + k))" if "k < n" for k
    using set_cell_of [of ?q2 n ?p ?c2 "?d + k"] set_cell_of [of ?q1 n ?p ?c1 "?d + k"] m(1) n0
      rep_offsets_apart [OF that l, of ?d] by auto
  have "mq_rep n ?q3 (xs @ [x])" unfolding mq_rep_def
  proof (intro conjI allI impI)
    fix k assume k: "k < length (xs @ [x])"
    show "cell_of n ?q3 (dequeue_pos ?q3 + k) = \<lparr>cell_data = Some ((xs @ [x]) ! k), sequence = (dequeue_pos ?q3 + k + 1) mod 2 ^ 64\<rparr>"
      using ce [of k] k l m(9) [of k] wadd_mod [of ?p 1] by (auto simp: nth_append less_Suc_eq)
  next
    fix k assume k: "k < n" "length (xs @ [x]) \<le> k"
    show "sequence (cell_of n ?q3 (dequeue_pos ?q3 + k)) = (dequeue_pos ?q3 + k) mod 2 ^ 64"
      using ce [of k] k m(10) [of k] by simp
  next
    show "enqueue_pos ?q3 = (dequeue_pos ?q3 + length (xs @ [x])) mod 2 ^ 64" using wadd_mod [of ?p 1] by simp
  qed (use m(1-6) l in simp_all)
  then show ?thesis using run by blast
qed

lemma mq_dequeue_some:
  assumes r: "mq_rep n q (x # xs)"
  shows "\<exists>q'. mq_dequeue q = Some (q', Some x) \<and> mq_rep n q' xs"
proof -
  note m = mq_rep_parts [OF r]
  let ?d = "dequeue_pos q" let ?i = "?d mod n"
  have n0: "0 < n" using m(3) by simp
  have dm: "?d mod 2 ^ 64 = ?d" using m(6) by simp
  note g = rep_get [OF r, of ?d, unfolded dm]
  have c: "cell_of n q ?d = \<lparr>cell_data = Some x, sequence = (?d + 1) mod 2 ^ 64\<rparr>" using m(9) [of 0] by simp
  let ?q1 = "q\<lparr>dequeue_pos := wadd ?d 1\<rparr>"
  let ?s = "wadd (wadd ?d (n - 1)) 1"
  let ?c2 = "(cell_of n q ?d)\<lparr>sequence := ?s\<rparr>" let ?q2 = "set_cell ?i ?c2 ?q1"
  have w1: "wadd ?d 1 = (?d + 1) mod 2 ^ 64" by (simp add: wadd_def)
  have w2: "?s = (?d + n) mod 2 ^ 64" using n0 unfolding wadd_def mod_add_left_eq by (simp add: add.assoc)
  have z: "i8_diff ((?d + 1) mod 2 ^ 64) (wadd ?d 1) = 0" unfolding w1 by (simp add: i8_diff_def)
  have "run_pc (n - 1) q DeqLoad = run_pc (n - 1) q (DeqLook ?d)" by (rule run_pc_step) simp_all
  also have "\<dots> = run_pc (n - 1) q (DeqClaim ?d)"
    by (rule run_pc_step) (use g(1) c z in \<open>simp_all\<close>)
  also have "\<dots> = run_pc (n - 1) ?q1 (DeqRead ?d)" by (rule run_pc_step) simp_all
  also have "\<dots> = run_pc (n - 1) ?q1 (DeqPublish ?d x)" by (rule run_pc_step) (use g(1) c in \<open>simp_all\<close>)
  also have "\<dots> = run_pc (n - 1) ?q2 (DeqDone (Some x))" by (rule run_pc_step) (use g in \<open>simp_all\<close>)
  also have "\<dots> = Some (?q2, DeqDone (Some x))" by (rule run_pc_done) simp
  finally have run: "mq_dequeue q = Some (?q2, Some x)" by (simp add: mq_dequeue_def m(8))
  have dv: "n dvd 2 ^ 64" by (rule pow2_dvd_range [OF m(2,4)])
  have at: "cell_of n ?q2 (wadd ?d 1 + k) = cell_of n ?q2 (?d + Suc k)" for k
  proof -
    have "wadd ?d 1 mod n = (?d + 1) mod n" unfolding w1 by (rule mod_mod_cancel [OF dv])
    then show ?thesis unfolding cell_of_def by (metis add.assoc mod_add_left_eq plus_1_eq_Suc)
  qed
  have ce: "cell_of n ?q2 (?d + Suc k) = (if Suc k = n then ?c2 else cell_of n q (?d + Suc k))" if "Suc k \<le> n" for k
  proof (cases "Suc k = n")
    case True
    then have "?d mod n = (?d + Suc k) mod n" by simp
    then show ?thesis using set_cell_of [of ?q1 n ?d ?c2 "?d + Suc k"] m(1) n0 True by simp
  next
    case False
    then have "?d mod n \<noteq> (?d + Suc k) mod n" using rep_offsets_apart [of 0 n "Suc k" ?d] n0 that by simp
    then show ?thesis using set_cell_of [of ?q1 n ?d ?c2 "?d + Suc k"] m(1) n0 False by simp
  qed
  have sw: "(wadd ?d 1 + k) mod 2 ^ 64 = (?d + Suc k) mod 2 ^ 64" for k unfolding w1 mod_add_left_eq by simp
  have "mq_rep n ?q2 xs" unfolding mq_rep_def
  proof (intro conjI allI impI)
    fix k assume k: "k < length xs"
    have "(wadd ?d 1 + k + 1) mod 2 ^ 64 = (?d + Suc k + 1) mod 2 ^ 64" using sw [of "k + 1"] by simp
    then show "cell_of n ?q2 (dequeue_pos ?q2 + k) = \<lparr>cell_data = Some (xs ! k), sequence = (dequeue_pos ?q2 + k + 1) mod 2 ^ 64\<rparr>"
      using ce [of k] k m(5) m(9) [of "Suc k"] at [of k] by auto
  next
    fix k assume k: "k < n" "length xs \<le> k"
    show "sequence (cell_of n ?q2 (dequeue_pos ?q2 + k)) = (dequeue_pos ?q2 + k) mod 2 ^ 64"
    proof (cases "Suc k = n")
      case True
      then show ?thesis using ce [of k] at [of k] sw [of k] w2 by simp
    next
      case False
      then show ?thesis using ce [of k] at [of k] sw [of k] k m(10) [of "Suc k"] by simp
    qed
  next
    show "enqueue_pos ?q2 = (dequeue_pos ?q2 + length xs) mod 2 ^ 64" using m(7) sw [of "length xs"] by simp
  qed (use m(1-6) in simp_all)
  then show ?thesis using run by blast
qed

lemma mq_dequeue_none:
  assumes r: "mq_rep n q []"
  shows "mq_dequeue q = Some (q, None)"
proof -
  note m = mq_rep_parts [OF r]
  let ?d = "dequeue_pos q"
  have dm: "?d mod 2 ^ 64 = ?d" using m(6) by simp
  note g = rep_get [OF r, of ?d, unfolded dm]
  have s: "sequence (cell_of n q ?d) = ?d mod 2 ^ 64" using m(10) [of 0] m(3) by simp
  have z: "i8_diff (?d mod 2 ^ 64) (wadd ?d 1) = -1"
    using i8_diff_mod [of ?d "?d + 1"] i8_diff_small [of ?d "?d + 1"] by (simp add: wadd_def)
  have "run_pc (n - 1) q DeqLoad = run_pc (n - 1) q (DeqLook ?d)" by (rule run_pc_step) simp_all
  also have "\<dots> = run_pc (n - 1) q (DeqDone None)" by (rule run_pc_step) (use g(1) s z in \<open>simp_all\<close>)
  also have "\<dots> = Some (q, DeqDone None)" by (rule run_pc_done) simp
  finally show ?thesis by (simp add: mq_dequeue_def m(8))
qed

text \<open>A thread that never leaves a set of program counters does not return.\<close>

lemma run_pc_stuck:
  assumes "\<And>pc. P pc \<Longrightarrow> \<not> pc_done pc \<and> (\<exists>pc'. pc_step msk q pc = Some (q, pc') \<and> P pc')" and "P pc"
  shows "run_pc msk q pc = None"
proof -
  let ?Q = "\<lambda>m q' pc r. m = msk \<longrightarrow> q' = q \<longrightarrow> \<not> P pc"
  have "?Q msk q pc r" if "run_pc msk q pc = Some r" for r
  proof (rule run_pc.raw_induct [of ?Q, OF _ that], intro impI notI)
    fix rec :: "nat \<Rightarrow> 'a mpmc_queue \<Rightarrow> 'a mpmc_pc \<Rightarrow> ('a mpmc_queue \<times> 'a mpmc_pc) option" and m q' pc r
    assume IH: "\<And>m q' pc r. rec m q' pc = Some r \<Longrightarrow> ?Q m q' pc r"
      and eq: "(if pc_done pc then Some (q', pc) else do { (q', pc) \<leftarrow> pc_step m q' pc; rec m q' pc }) = Some r"
      and e: "m = msk" "q' = q" and p: "P pc"
    from assms(1) [OF p] obtain pc' where s: "\<not> pc_done pc" "pc_step msk q pc = Some (q, pc')" "P pc'" by blast
    then show False using IH [of msk q pc' r] eq e by simp
  qed
  then show ?thesis using assms(2) by (cases "run_pc msk q pc") auto
qed

lemma of_nat_large:
  assumes "is_pow2 n" and "\<not> n \<le> 128"
  shows "(of_nat n :: 8 word) = 0"
proof -
  obtain k where k: "n = 2 ^ k" using assms(1) by (auto simp: is_pow2_iff)
  have "8 \<le> k"
  proof (rule ccontr)
    assume "\<not> 8 \<le> k"
    then have "(2 :: nat) ^ k \<le> 2 ^ 7" by (intro power_increasing) simp_all
    then show False using k assms(2) by simp
  qed
  then have "(2 :: nat) ^ 8 dvd n" unfolding k by (rule le_imp_power_dvd)
  then show ?thesis by (simp add: word_of_nat_eq_0_iff)
qed

lemma mq_enqueue_full:
  assumes r: "mq_rep n q xs" and l: "length xs = n"
  shows "mq_enqueue q x = (if n \<le> 128 then Some (q, Inl x) else None)"
proof -
  note m = mq_rep_parts [OF r]
  let ?d = "dequeue_pos q" let ?p = "?d + n" let ?e = "?p mod 2 ^ 64"
  have E: "enqueue_pos q = ?e" using m(7) l by simp
  have c: "sequence (cell_of n q ?p) = (?d + 1) mod 2 ^ 64" using m(9) [of 0] m(3) l by (simp add: cell_of_def)
  have dif: "i8_diff ((?d + 1) mod 2 ^ 64) ?e = (if n \<le> 128 then 1 - int n else 1)"
  proof (cases "n \<le> 128")
    case True
    then show ?thesis unfolding i8_diff_mod using i8_diff_small [of "?d + 1" ?p] m(3) by simp
  next
    case False
    then have "(of_nat ?p :: 8 word) = of_nat ?d" using of_nat_large [OF m(2)] by simp
    then have "i8_diff (?d + 1) ?p = i8_diff (?d + 1) ?d" by (simp add: i8_diff_def)
    then show ?thesis unfolding i8_diff_mod using i8_diff_small [of "?d + 1" ?d] False by simp
  qed
  have look: "pc_step (n - 1) q (EnqLook ?e x) = Some (q, if n \<le> 128 then EnqDone (Inl x) else EnqLoad x)"
    using rep_get(1) [OF r, of ?p] c dif m(3) by simp
  show ?thesis
  proof (cases "n \<le> 128")
    case True
    have "run_pc (n - 1) q (EnqLoad x) = run_pc (n - 1) q (EnqLook ?e x)" by (rule run_pc_step) (simp_all add: E)
    also have "\<dots> = run_pc (n - 1) q (EnqDone (Inl x))" by (rule run_pc_step) (use look True in \<open>simp_all\<close>)
    also have "\<dots> = Some (q, EnqDone (Inl x))" by (rule run_pc_done) simp
    finally show ?thesis using True by (simp add: mq_enqueue_def m(8))
  next
    case False
    have "run_pc (n - 1) q (EnqLoad x) = None"
      by (rule run_pc_stuck [of "\<lambda>pc. pc = EnqLoad x \<or> pc = EnqLook ?e x"]) (use look False E in \<open>auto\<close>)
    then show ?thesis using False by (simp add: mq_enqueue_def m(8))
  qed
qed

text \<open>C29: One thread at a time: \<open>enqueue\<close> puts its item behind the others while there is room, at whatever place the
  positions have reached, their wrap past \<open>2 ^ 64\<close> included. Of a full queue it hands the item back when the capacity is at
  most 128, and it spins for ever when the capacity is larger, since it compares the low bytes only.\<close>

theorem mq_enqueue_refines:
  assumes "mq_rep n q xs"
  shows "if length xs < n then \<exists>q'. mq_enqueue q x = Some (q', Inr ()) \<and> mq_rep n q' (xs @ [x])
    else mq_enqueue q x = (if n \<le> 128 then Some (q, Inl x) else None)"
  using mq_enqueue_room [OF assms] mq_enqueue_full [OF assms] mq_rep_parts(5) [OF assms] by auto

text \<open>One thread at a time: \<open>dequeue\<close> takes the oldest item, and says that there is none exactly when the queue is
  empty; it always returns.\<close>

theorem mq_dequeue_refines:
  assumes "mq_rep n q xs"
  shows "case xs of [] \<Rightarrow> mq_dequeue q = Some (q, None)
    | y # ys \<Rightarrow> \<exists>q'. mq_dequeue q = Some (q', Some y) \<and> mq_rep n q' ys"
  using mq_dequeue_some mq_dequeue_none assms by (auto split: list.split)

section \<open>Runs of the threads\<close>

lemma reach_call:
  assumes "mpmc_reach n \<lparr>sys_queue = q, sys_pc = pcs\<rparr> puts gots" "pc_done (pcs t)" "is_call pc"
  shows "mpmc_reach n \<lparr>sys_queue = q, sys_pc = pcs(t := pc)\<rparr> puts gots"
  using mpmc_reach.call [OF assms(1), of t pc] assms by simp

lemma reach_step:
  assumes "mpmc_reach n \<lparr>sys_queue = q, sys_pc = pcs(t := pc)\<rparr> puts gots" "pc_step (n - 1) q pc = Some (q', pc')"
  shows "mpmc_reach n \<lparr>sys_queue = q', sys_pc = pcs(t := pc')\<rparr> (puts @ put_of pc pc') (gots @ got_of pc)"
  using mpmc_reach.step [OF assms(1), of t q' pc'] assms(2) by simp

text \<open>A thread claims the next position for its item, and goes on to the end.\<close>

lemma reach_claims:
  assumes r: "mpmc_reach n \<lparr>sys_queue = q, sys_pc = pcs\<rparr> puts gots" "pc_done (pcs t)"
    and n: "is_pow2 n" "0 < n" "length (mq_buffer q) = n" "enqueue_pos q + 1 < 2 ^ 64"
    and z: "i8_diff (sequence (cell_of n q (enqueue_pos q))) (enqueue_pos q) = 0"
  shows "mpmc_reach n \<lparr>sys_queue = q\<lparr>enqueue_pos := enqueue_pos q + 1\<rparr>, sys_pc = pcs(t := EnqWrite (enqueue_pos q) x)\<rparr> (puts @ [x]) gots"
proof -
  let ?e = "enqueue_pos q"
  have w: "wadd ?e 1 = ?e + 1" using n(4) by simp
  have r1: "mpmc_reach n \<lparr>sys_queue = q, sys_pc = pcs(t := EnqLoad x)\<rparr> puts gots" by (rule reach_call [OF r]) simp
  have "mpmc_reach n \<lparr>sys_queue = q, sys_pc = pcs(t := EnqLook ?e x)\<rparr> puts gots"
    using reach_step [OF r1, of q "EnqLook ?e x"] by simp
  then have "mpmc_reach n \<lparr>sys_queue = q, sys_pc = pcs(t := EnqClaim ?e x)\<rparr> puts gots"
    using reach_step [of n q pcs t "EnqLook ?e x" puts gots q "EnqClaim ?e x"] cell_get [OF n(1,3,2), of ?e] z by simp
  then show ?thesis
    using reach_step [of n q pcs t "EnqClaim ?e x" puts gots "q\<lparr>enqueue_pos := ?e + 1\<rparr>" "EnqWrite ?e x"] w by simp
qed

lemma reach_enqueues:
  assumes r: "mpmc_reach n \<lparr>sys_queue = q, sys_pc = pcs\<rparr> puts gots" "pc_done (pcs t)"
    and n: "is_pow2 n" "0 < n" "length (mq_buffer q) = n" "enqueue_pos q + 1 < 2 ^ 64"
    and z: "i8_diff (sequence (cell_of n q (enqueue_pos q))) (enqueue_pos q) = 0"
  shows "mpmc_reach n \<lparr>sys_queue = set_cell (enqueue_pos q mod n) \<lparr>cell_data = Some x, sequence = enqueue_pos q + 1\<rparr> (q\<lparr>enqueue_pos := enqueue_pos q + 1\<rparr>),
    sys_pc = pcs(t := EnqDone (Inr ()))\<rparr> (puts @ [x]) gots"
proof -
  let ?e = "enqueue_pos q" let ?q1 = "q\<lparr>enqueue_pos := ?e + 1\<rparr>" let ?i = "?e mod n"
  let ?c1 = "(cell_of n q ?e)\<lparr>cell_data := Some x\<rparr>" let ?q2 = "set_cell ?i ?c1 ?q1"
  let ?c2 = "?c1\<lparr>sequence := ?e + 1\<rparr>"
  have w: "wadd ?e 1 = ?e + 1" using n(4) by simp
  note am = and_mask_mod [OF n(1), of ?e]
  have g1: "aget (mq_buffer ?q1) (?e AND (n - 1)) = Some (cell_of n q ?e)" using cell_get [OF n(1,3,2), of ?e] by simp
  have g2: "aget (mq_buffer ?q2) (?e AND (n - 1)) = Some ?c1" using n(2,3) unfolding am by (simp add: set_cell_def)
  have "mpmc_reach n \<lparr>sys_queue = ?q2, sys_pc = pcs(t := EnqPublish ?e x)\<rparr> (puts @ [x]) gots"
    using reach_step [OF reach_claims [OF r n z, of x], of ?q2 "EnqPublish ?e x"] g1 am by simp
  then have "mpmc_reach n \<lparr>sys_queue = set_cell ?i ?c2 ?q2, sys_pc = pcs(t := EnqDone (Inr ()))\<rparr> (puts @ [x]) gots"
    using reach_step [of n ?q2 pcs t "EnqPublish ?e x" "puts @ [x]" gots "set_cell ?i ?c2 ?q2" "EnqDone (Inr ())"] g2 am w by simp
  moreover have "set_cell ?i ?c2 ?q2 = set_cell ?i \<lparr>cell_data = Some x, sequence = ?e + 1\<rparr> ?q1"
    by (cases "cell_of n q ?e") (simp add: set_cell_def)
  ultimately show ?thesis by simp
qed

text \<open>One thread stops after it has claimed position 0, and another goes once around the ring.\<close>

definition stalled_round :: "nat \<Rightarrow> 'a \<Rightarrow> nat \<Rightarrow> 'a mpmc_queue \<Rightarrow> (nat \<Rightarrow> 'a mpmc_pc) \<Rightarrow> 'a list \<Rightarrow> bool" where
  "stalled_round n x k q pcs puts \<longleftrightarrow> mpmc_reach n \<lparr>sys_queue = q, sys_pc = pcs\<rparr> puts [] \<and> pcs 0 = EnqWrite 0 x \<and> pc_done (pcs 1)
    \<and> length (mq_buffer q) = n \<and> enqueue_pos q = k \<and> sequence (mq_buffer q ! 0) = 0
    \<and> (\<forall>i. k \<le> i \<longrightarrow> i < n \<longrightarrow> sequence (mq_buffer q ! i) = i)"

lemma reach_round:
  assumes new: "mpmc_new n = Some (q0 :: 'a mpmc_queue)" and n: "n + 2 < 2 ^ 64" and k: "1 \<le> k" "k \<le> n"
  shows "\<exists>q pcs puts. stalled_round n (x :: 'a) k q pcs puts"
  using k
proof (induction k rule: nat_induct_at_least)
  case base
  have N: "is_pow2 n" "2 \<le> n" and q0: "q0 = \<lparr>mq_buffer = map cell_new [0..<n], dequeue_pos = 0, enqueue_pos = 0\<rparr>"
    using mpmc_new_Some [OF new] by auto
  let ?pcs = "\<lambda>_. DeqDone None"
  have r: "mpmc_reach n \<lparr>sys_queue = q0, sys_pc = ?pcs\<rparr> [] []" using mpmc_reach.init [OF new] by (simp add: sys_init_def)
  have "mpmc_reach n \<lparr>sys_queue = q0\<lparr>enqueue_pos := 1\<rparr>, sys_pc = ?pcs(0 := EnqWrite 0 x)\<rparr> [x] []"
    using reach_claims [OF r _ N(1), of 0 x] N(2) by (simp add: q0 cell_of_def cell_new_def i8_diff_def)
  then have "stalled_round n x 1 (q0\<lparr>enqueue_pos := 1\<rparr>) (?pcs(0 := EnqWrite 0 x)) [x]"
    using N(2) by (simp add: stalled_round_def q0 cell_new_def)
  then show ?case by blast
next
  case (Suc k)
  then obtain q pcs puts where S: "stalled_round n x k q pcs puts" by auto
  have N: "is_pow2 n" "2 \<le> n" using mpmc_new_Some [OF new] by auto
  have k: "k < n" "1 \<le> k" using Suc.prems Suc.hyps by auto
  have z: "i8_diff (sequence (cell_of n q (enqueue_pos q))) (enqueue_pos q) = 0"
    using S k by (simp add: stalled_round_def cell_of_def i8_diff_def)
  have r: "mpmc_reach n \<lparr>sys_queue = q, sys_pc = pcs\<rparr> puts []" "pc_done (pcs 1)" "length (mq_buffer q) = n" "enqueue_pos q = k"
    using S by (simp_all add: stalled_round_def)
  let ?q = "set_cell k \<lparr>cell_data = Some x, sequence = k + 1\<rparr> (q\<lparr>enqueue_pos := k + 1\<rparr>)"
  have "mpmc_reach n \<lparr>sys_queue = ?q, sys_pc = pcs(1 := EnqDone (Inr ()))\<rparr> (puts @ [x]) []"
    using reach_enqueues [OF r(1,2) N(1) _ r(3) _ z, of x] r(4) k n by simp
  then have "stalled_round n x (Suc k) ?q (pcs(1 := EnqDone (Inr ()))) (puts @ [x])"
    using S k by (auto simp: stalled_round_def set_cell_def nth_list_update)
  then show ?case by blast
qed

text \<open>C30: A queue of more than 128 cells is not safe: a thread that stops after it has claimed position 0 can meet, one round
  later, a second thread that has claimed position \<open>n\<close>; both are about to write the cell 0, since their sequence numbers
  agree in the low byte.\<close>

theorem mpmc_large_two_writers:
  assumes new: "mpmc_new n = Some (q0 :: 'a mpmc_queue)" and n: "128 < n" "n + 2 < 2 ^ 64"
  shows "\<exists>s puts. mpmc_reach n s puts [] \<and> sys_pc s 0 = EnqWrite 0 (x :: 'a) \<and> sys_pc s 1 = EnqWrite n y
    \<and> 0 AND (n - 1) = n AND (n - 1)"
proof -
  have N: "is_pow2 n" "2 \<le> n" using mpmc_new_Some [OF new] by auto
  obtain q pcs puts where S: "stalled_round n x n q pcs puts" using reach_round [OF new n(2), of n x] N(2) by auto
  then have r: "mpmc_reach n \<lparr>sys_queue = q, sys_pc = pcs\<rparr> puts []" "pc_done (pcs 1)" "length (mq_buffer q) = n"
    and e: "enqueue_pos q = n" "sequence (mq_buffer q ! 0) = 0" "pcs 0 = EnqWrite 0 x"
    by (simp_all add: stalled_round_def)
  have "i8_diff (sequence (cell_of n q (enqueue_pos q))) (enqueue_pos q) = 0"
    using e of_nat_large [OF N(1)] n(1) by (simp add: cell_of_def i8_diff_def)
  then have "mpmc_reach n \<lparr>sys_queue = q\<lparr>enqueue_pos := n + 1\<rparr>, sys_pc = pcs(1 := EnqWrite n y)\<rparr> (puts @ [y]) []"
    using reach_claims [OF r(1,2) N(1) _ r(3), of y] e(1) N(2) n(2) by simp
  moreover have "0 AND (n - 1) = n AND (n - 1)" using and_mask_mod [OF N(1), of n] and_mask_mod [OF N(1), of 0] by simp
  ultimately show ?thesis using e(3)
    by (intro exI [of _ "\<lparr>sys_queue = q\<lparr>enqueue_pos := n + 1\<rparr>, sys_pc = pcs(1 := EnqWrite n y)\<rparr>"] exI [of _ "puts @ [y]"]) simp
qed

section \<open>Concrete queues\<close>

text \<open>Two cells, and two items of which one has been taken.\<close>

lemma mpmc_new_2: "mpmc_new 2 = Some \<lparr>mq_buffer = [cell_new 0, cell_new 1], dequeue_pos = 0, enqueue_pos = 0\<rparr>"
  by (simp add: mpmc_new_def assert_greater_def assert_power_of_two_def const_sub_def number_cells_eq upt_rec)

definition demo_queue :: "nat mpmc_queue" where
  "demo_queue = \<lparr>mq_buffer = [\<lparr>cell_data = Some 5, sequence = 2 ^ 64 - 1\<rparr>, \<lparr>cell_data = Some 6, sequence = 0\<rparr>],
     dequeue_pos = 2 ^ 64 - 2, enqueue_pos = 0\<rparr>"

lemma demo_queue_rep: "mq_rep 2 demo_queue [5, 6]"
proof -
  have "is_pow2 (2 :: nat)" using is_pow2_power [of 1] by simp
  moreover have "cell_of 2 demo_queue (dequeue_pos demo_queue + k) = \<lparr>cell_data = Some ([5, 6] ! k),
     sequence = (dequeue_pos demo_queue + k + 1) mod 2 ^ 64\<rparr>" if "k < 2" for k
    using that by (auto simp: less_2_cases_iff demo_queue_def cell_of_def)
  ultimately show ?thesis by (auto simp: mq_rep_def demo_queue_def)
qed

theorem mq_enqueue_refines_witness: "mq_enqueue demo_queue 7 = Some (demo_queue, Inl 7)"
  using mq_enqueue_refines [OF demo_queue_rep, of 7] by simp

theorem mq_dequeue_refines_witness: "\<exists>q'. mq_dequeue demo_queue = Some (q', Some 5) \<and> mq_rep 2 q' [6]"
  using mq_dequeue_refines [OF demo_queue_rep] by simp

lemma small_ring: "is_pow2 (2 :: nat)"
  using is_pow2_power [of 1] by simp

theorem mpmc_concurrent_fifo_witness:
  "\<exists>s. mpmc_reach 2 s [5 :: nat] [] \<and> sys_pc s 0 = EnqDone (Inr ()) \<and> length [5 :: nat] \<le> dequeue_pos (sys_queue s) + 2"
proof -
  have "mpmc_reach 2 \<lparr>sys_queue = \<lparr>mq_buffer = [cell_new 0, cell_new 1 :: nat mpmc_cell], dequeue_pos = 0, enqueue_pos = 0\<rparr>,
    sys_pc = (\<lambda>_. DeqDone None)\<rparr> [] []"
    using mpmc_reach.init [OF mpmc_new_2] by (simp add: sys_init_def)
  from reach_enqueues [OF this _ small_ring, where t = 0 and x = 5]
  obtain s where s: "mpmc_reach 2 s [5 :: nat] []" "sys_pc s 0 = EnqDone (Inr ())"
    by (auto simp: cell_of_def cell_new_def i8_diff_def)
  show ?thesis using s mpmc_concurrent_fifo [OF s(1)] by (intro exI [of _ s]) simp
qed

lemma mpmc_new_256: "mpmc_new 256 = Some \<lparr>mq_buffer = map cell_new [0..<256], dequeue_pos = 0, enqueue_pos = 0\<rparr>"
  by (simp add: mpmc_new_def assert_greater_def assert_power_of_two_def const_sub_def number_cells_eq)

theorem mpmc_large_two_writers_witness:
  "\<exists>s puts. mpmc_reach 256 s puts [] \<and> sys_pc s 0 = EnqWrite 0 (5 :: nat) \<and> sys_pc s 1 = EnqWrite 256 6"
  using mpmc_large_two_writers [OF mpmc_new_256, of 5 6] by auto

end
