(* ===== verification/PerCpu.thy ===== *)
theory PerCpu
  imports SizeClass
begin

text \<open>
  The per-CPU arrays of \<open>collections/concurrent.rs\<close> and the cache of objects built on them.

  Each CPU has a region of \<open>2 ^ 18\<close> bytes: a header for each size class, packed in a word as four 16-bit fields, and
  behind the headers the slots. The restartable sequences of \<open>push\<close> and \<open>pop\<close> are modelled by what their instructions do
  to memory from the load of the CPU number to the commit, on one CPU and without interruption, which is what the kernel
  promises. The CPU on which a thread runs may change between two such points: \<open>pm_sched\<close> gives it at each of them.
  Memory outside the regions is undefined (\<open>None\<close>).
\<close>

section \<open>Headers\<close>

record flat_header =
  fh_current :: nat
  fh_end_copy :: nat
  fh_begin :: nat
  fh_end :: nat

definition hdr_from :: "nat \<Rightarrow> flat_header" where
  "hdr_from hdr = (let current = hdr AND 0xffff; end_copy = wshr hdr 16 AND 0xffff;
      begin = wshr hdr 32 AND 0xffff; fin = wshr hdr 48 AND 0xffff
    in \<lparr>fh_current = current mod 2 ^ 16, fh_end_copy = end_copy mod 2 ^ 16, fh_begin = begin mod 2 ^ 16, fh_end = fin mod 2 ^ 16\<rparr>)"

definition hdr_into :: "flat_header \<Rightarrow> nat" where
  "hdr_into hdr = (let res = 0; res = wadd res (wshl (fh_end hdr) 48); res = wadd res (wshl (fh_begin hdr) 32);
      res = wadd res (wshl (fh_end_copy hdr) 16) in wadd res (fh_current hdr))"

definition hdr_new :: "nat \<Rightarrow> nat \<Rightarrow> nat \<Rightarrow> nat \<Rightarrow> flat_header" where
  "hdr_new current end_copy begin fin = \<lparr>fh_current = current mod 2 ^ 16, fh_end_copy = end_copy mod 2 ^ 16,
     fh_begin = begin mod 2 ^ 16, fh_end = fin mod 2 ^ 16\<rparr>"

definition hdr_is_locked :: "flat_header \<Rightarrow> bool" where
  "hdr_is_locked h \<longleftrightarrow> fh_begin h = 0xffff"

definition hdr_lock :: "flat_header \<Rightarrow> flat_header" where
  "hdr_lock h = h\<lparr>fh_begin := 0xffff, fh_end := 0\<rparr>"

definition locked_header :: flat_header where
  "locked_header = \<lparr>fh_current = 0, fh_end_copy = 0, fh_begin = 0xffff, fh_end = 0\<rparr>"

definition inner_values :: "flat_header \<Rightarrow> nat \<times> nat \<times> nat \<times> nat" where
  "inner_values h = (fh_current h, fh_end_copy h, fh_begin h, fh_end h)"

section \<open>The memory of the arrays\<close>

record percpu_mem =
  pm_base :: nat
  pm_ncpu :: nat
  pm_word :: "nat \<Rightarrow> nat"
  pm_sched :: "nat \<Rightarrow> nat"
  pm_time :: nat

text \<open>\<open>SHIFT\<close>, and the words of a region.\<close>

definition SHIFT :: nat where "SHIFT = 18"

definition REGION :: nat where "REGION = 2 ^ SHIFT div 8"

definition pm_read :: "percpu_mem \<Rightarrow> nat \<Rightarrow> nat option" where
  "pm_read m i = (if i < pm_ncpu m * REGION then Some (pm_word m i) else None)"

definition pm_write :: "percpu_mem \<Rightarrow> nat \<Rightarrow> nat \<Rightarrow> percpu_mem option" where
  "pm_write m i v = (if i < pm_ncpu m * REGION then Some (m\<lparr>pm_word := (pm_word m)(i := v)\<rparr>) else None)"

text \<open>The CPU of the next point of the run; \<open>cpu_id()\<close> is such a point, too.\<close>

definition pm_here :: "percpu_mem \<Rightarrow> nat \<times> percpu_mem" where
  "pm_here m = (pm_sched m (pm_time m), m\<lparr>pm_time := pm_time m + 1\<rparr>)"

text \<open>\<open>word ptr [h + 2 * k]\<close> of a header, and the store to its first field.\<close>

definition halfword :: "nat \<Rightarrow> nat \<Rightarrow> nat" where
  "halfword h k = h div 2 ^ (16 * k) mod 2 ^ 16"

definition set_current :: "nat \<Rightarrow> nat \<Rightarrow> nat" where
  "set_current h v = h div 2 ^ 16 * 2 ^ 16 + v mod 2 ^ 16"

section \<open>The restartable sequences\<close>

text \<open>The registers before and after: a difference of one means that the item was stored.\<close>

definition rseq_push_tx :: "percpu_mem \<Rightarrow> nat \<Rightarrow> nat \<Rightarrow> nat \<Rightarrow> (percpu_mem \<times> nat \<times> nat) option" where
  "rseq_push_tx m cpu cl item = do {
     let r10 = cpu * REGION;
     h \<leftarrow> pm_read m (r10 + cl);
     let r11 = halfword h 0;
     if halfword h 3 \<le> r11 then Some (m, r11, r11)
     else do {
       m \<leftarrow> pm_write m (r10 + r11) item;
       h \<leftarrow> pm_read m (r10 + cl);
       m \<leftarrow> pm_write m (r10 + cl) (set_current h (r11 + 1));
       Some (m, r11, r11 + 1) } }"

text \<open>The first of the two loads is the target of a prefetch; it must lie in memory.\<close>

definition rseq_pop_tx :: "percpu_mem \<Rightarrow> nat \<Rightarrow> nat \<Rightarrow> (percpu_mem \<times> nat \<times> nat \<times> nat option) option" where
  "rseq_pop_tx m cpu cl = do {
     let scratch = cpu * REGION;
     h \<leftarrow> pm_read m (scratch + cl);
     let current = halfword h 0;
     if current \<le> halfword h 2 then Some (m, current, current, None)
     else do {
       ensure (2 \<le> scratch + current);
       target \<leftarrow> pm_read m (scratch + current - 2);
       res \<leftarrow> pm_read m (scratch + current - 1);
       m \<leftarrow> pm_write m (scratch + cl) (set_current h (current - 1));
       Some (m, current, current - 1, Some res) } }"

section \<open>The arrays\<close>

text \<open>\<open>HDR_SIZE\<close>, \<open>DATALEN\<close> and \<open>initial_capacity\<close> for the instance in use, one list for each of the size classes.\<close>

definition HDR_SIZE :: nat where "HDR_SIZE = 8 * TOTAL_SIZE_CLASS"

definition DATALEN :: nat where "DATALEN = (2 ^ SHIFT - 8 * TOTAL_SIZE_CLASS) div 8"

definition initial_capacity :: nat where
  "initial_capacity = wsub (DATALEN div 8 div TOTAL_SIZE_CLASS) 1"

text \<open>A region that was just created holds zeroes, headers and data.\<close>

definition pa_new :: "nat \<Rightarrow> nat \<Rightarrow> (nat \<Rightarrow> nat) \<Rightarrow> percpu_mem" where
  "pa_new base ncpu sched = \<lparr>pm_base = base, pm_ncpu = ncpu, pm_word = (\<lambda>_. 0), pm_sched = sched, pm_time = 0\<rparr>"

text \<open>The two loops of \<open>init\<close>, for the region of a CPU.\<close>

fun lock_headers :: "nat list \<Rightarrow> nat \<Rightarrow> percpu_mem \<Rightarrow> percpu_mem option" where
  "lock_headers [] cpu m = Some m"
| "lock_headers (i # is) cpu m = do {
     w \<leftarrow> pm_read m (cpu * REGION + i);
     let hdr = hdr_lock (hdr_from w);
     m \<leftarrow> pm_write m (cpu * REGION + i) (hdr_into hdr);
     lock_headers is cpu m }"

fun init_headers :: "nat list \<Rightarrow> nat \<Rightarrow> nat \<Rightarrow> nat \<Rightarrow> percpu_mem \<Rightarrow> percpu_mem option" where
  "init_headers [] cpu cap byte_used m = Some m"
| "init_headers (cl # cls) cpu cap byte_used m = do {
     let current_addr = pm_base m + cpu * 2 ^ SHIFT + byte_used;
     m \<leftarrow> (if cap \<noteq> 0 then pm_write m (cpu * REGION + byte_used div 8) current_addr else Some m);
     let offset = byte_used div 8;
     let byte_used = byte_used + cap * 8;
     m \<leftarrow> pm_write m (cpu * REGION + cl) (hdr_into (hdr_new offset (offset + cap) offset (offset + cap)));
     init_headers cls cpu cap byte_used m }"

definition flat_init :: "nat \<Rightarrow> percpu_mem \<Rightarrow> percpu_mem option" where
  "flat_init cpu m = do {
     m \<leftarrow> lock_headers [0..<TOTAL_SIZE_CLASS] cpu m;
     init_headers [0..<TOTAL_SIZE_CLASS] cpu initial_capacity HDR_SIZE m }"

fun flat_init_all :: "nat list \<Rightarrow> percpu_mem \<Rightarrow> percpu_mem option" where
  "flat_init_all [] m = Some m"
| "flat_init_all (i # is) m = do { m \<leftarrow> flat_init i m; flat_init_all is m }"

definition pa_init :: "percpu_mem \<Rightarrow> percpu_mem option" where
  "pa_init m = flat_init_all [0..<pm_ncpu m] m"

section \<open>The cache over them\<close>

text \<open>
  The zone that the caches of \<open>concurrent.rs\<close> and \<open>cpu_cache.rs\<close> call is of an earlier version, which is not in the
  repository: its slab allocators fill an array with a batch and take one back. It is a parameter, the record of its
  operations over a state \<open>'z\<close>.
\<close>

record 'z zone_api =
  za_batch :: "'z \<Rightarrow> nat \<Rightarrow> nat list \<Rightarrow> nat \<Rightarrow> ('z \<times> nat list \<times> (alloc_error + nat)) option"
  za_free_batch :: "'z \<Rightarrow> nat \<Rightarrow> nat list \<Rightarrow> nat \<Rightarrow> ('z \<times> (alloc_error + unit)) option"
  za_slab :: "'z \<Rightarrow> nat \<Rightarrow> nat \<Rightarrow> ('z \<times> (alloc_error + nat)) option"
  za_alloc :: "'z \<Rightarrow> nat \<Rightarrow> nat \<Rightarrow> ('z \<times> (alloc_error + nat)) option"
  za_dealloc :: "'z \<Rightarrow> nat \<Rightarrow> nat \<Rightarrow> 'z option"

record 'z cpu_state =
  cs_mem :: percpu_mem
  cs_zone :: 'z

text \<open>\<open>push\<close> and \<open>pop\<close> with the handler that is called with the number of the CPU on overflow or underflow.\<close>

definition pa_push :: "'z cpu_state \<Rightarrow> nat \<Rightarrow> nat \<Rightarrow> (nat \<Rightarrow> 'z cpu_state \<Rightarrow> ('z cpu_state \<times> (alloc_error + unit)) option) \<Rightarrow>
    ('z cpu_state \<times> (alloc_error + unit)) option" where
  "pa_push s idx val err_handler = do {
     let (cpu, m) = pm_here (cs_mem s);
     (m, before, r11) \<leftarrow> rseq_push_tx m cpu idx val;
     let s = s\<lparr>cs_mem := m\<rparr>;
     if r11 = before + 1 then do { ensure (val \<noteq> 0); Some (s, Inr ()) }
     else err_handler cpu s }"

definition pa_pop :: "'z cpu_state \<Rightarrow> nat \<Rightarrow> (nat \<Rightarrow> 'z cpu_state \<Rightarrow> ('z cpu_state \<times> (alloc_error + nat)) option) \<Rightarrow>
    ('z cpu_state \<times> (alloc_error + nat)) option" where
  "pa_pop s idx err_handler = do {
     let (cpu, m) = pm_here (cs_mem s);
     (m, before, current, res) \<leftarrow> rseq_pop_tx m cpu idx;
     let s = s\<lparr>cs_mem := m\<rparr>;
     if current + 1 \<noteq> before then err_handler cpu s
     else do { r \<leftarrow> res; Some (s, Inr r) } }"

definition CAP :: nat where "CAP = 128"

text \<open>The loop of the refill: it passes the item where \<open>push\<close> takes the index of the class.\<close>

function pc_refill_loop :: "'z cpu_state \<Rightarrow> nat list \<Rightarrow> nat \<Rightarrow> nat \<Rightarrow> ('z cpu_state \<times> nat) option" where
  "pc_refill_loop s batch idx cur =
     (if cur < CAP then do {
        item \<leftarrow> aget batch (cur - 1);
        (s, r) \<leftarrow> pa_push s item idx (\<lambda>_ s. Some (s, Inl ECPU));
        case r of Inl e \<Rightarrow> Some (s, cur) | Inr _ \<Rightarrow> pc_refill_loop s batch idx (cur + 1) }
      else Some (s, cur))"
  by auto
termination by (relation "measure (\<lambda>(s, b, i, cur). CAP - cur)") auto

declare pc_refill_loop.simps [simp del]

text \<open>\<open>expect\<close> and \<open>unwrap\<close> of a result.\<close>

fun unwrap :: "alloc_error + 'a \<Rightarrow> 'a option" where
  "unwrap (Inr x) = Some x"
| "unwrap (Inl e) = None"

definition pc_one :: "'z zone_api \<Rightarrow> nat \<Rightarrow> nat \<Rightarrow> 'z cpu_state \<Rightarrow> ('z cpu_state \<times> (alloc_error + nat)) option" where
  "pc_one Z idx algn s = do {
     (z, r) \<leftarrow> za_slab Z (cs_zone s) idx algn;
     p \<leftarrow> unwrap r;
     Some (s\<lparr>cs_zone := z\<rparr>, Inr p) }"

definition pc_refill :: "'z zone_api \<Rightarrow> nat \<Rightarrow> nat \<Rightarrow> nat \<Rightarrow> 'z cpu_state \<Rightarrow> ('z cpu_state \<times> (alloc_error + nat)) option" where
  "pc_refill Z idx algn cpu s = do {
     let (here, m) = pm_here (cs_mem s);
     let s = s\<lparr>cs_mem := m\<rparr>;
     if here = cpu then do {
       (z, batch, res) \<leftarrow> za_batch Z (cs_zone s) idx (replicate 512 0) CAP;
       let s = s\<lparr>cs_zone := z\<rparr>;
       (case res of
          Inr ptr \<Rightarrow> do {
            (s, cur) \<leftarrow> pc_refill_loop s batch idx 1;
            s \<leftarrow> (if cur < CAP then do {
                (z, r) \<leftarrow> za_free_batch Z (cs_zone s) idx (drop cur batch) (128 - cur);
                u \<leftarrow> unwrap r;
                Some (s\<lparr>cs_zone := z\<rparr>) }
              else Some s);
            Some (s, Inr ptr) }
        | Inl e \<Rightarrow> pc_one Z idx algn s) }
     else pc_one Z idx algn s }"

definition pc_allocate :: "'z zone_api \<Rightarrow> 'z cpu_state \<Rightarrow> layout \<Rightarrow> ('z cpu_state \<times> (alloc_error + nat)) option" where
  "pc_allocate Z s l = do {
     cls \<leftarrow> get_size_class (lsize l);
     (case cls of
        Base idx \<Rightarrow> do {
          (s, r) \<leftarrow> pa_pop s idx (pc_refill Z idx (lalign l));
          ret \<leftarrow> unwrap r;
          ensure (ret \<noteq> 0);
          Some (s, Inr ret) }
      | Large _ \<Rightarrow> do {
          (z, r) \<leftarrow> za_alloc Z (cs_zone s) (lsize l) (lalign l);
          Some (s\<lparr>cs_zone := z\<rparr>, r) }) }"

text \<open>The loop of the overflow handler of \<open>deallocate\<close>, which pops into the batch behind the pointer to free.\<close>

function pc_drain_loop :: "'z cpu_state \<Rightarrow> nat list \<Rightarrow> nat \<Rightarrow> nat \<Rightarrow> ('z cpu_state \<times> nat list \<times> nat) option" where
  "pc_drain_loop s batch idx cur =
     (if cur < CAP then do {
        (s, r) \<leftarrow> pa_pop s idx (\<lambda>_ s. Some (s, Inl ECPU));
        (case r of
           Inr p \<Rightarrow> do { batch \<leftarrow> aset batch cur p; pc_drain_loop s batch idx (cur + 1) }
         | Inl e \<Rightarrow> Some (s, batch, cur)) }
      else Some (s, batch, cur))"
  by auto
termination by (relation "measure (\<lambda>(s, b, i, cur). CAP - cur)") auto

declare pc_drain_loop.simps [simp del]

definition pc_evict :: "'z zone_api \<Rightarrow> nat \<Rightarrow> nat \<Rightarrow> nat \<Rightarrow> 'z cpu_state \<Rightarrow> ('z cpu_state \<times> (alloc_error + unit)) option" where
  "pc_evict Z idx ptr cpu s = do {
     let (here, m) = pm_here (cs_mem s);
     let s = s\<lparr>cs_mem := m\<rparr>;
     if here = cpu then do {
       (s, batch, cur) \<leftarrow> pc_drain_loop s ((replicate 512 0)[0 := ptr]) idx 1;
       if cur < CAP then do {
         (z, r) \<leftarrow> za_free_batch Z (cs_zone s) idx batch cur;
         u \<leftarrow> unwrap r;
         Some (s\<lparr>cs_zone := z\<rparr>, Inr ()) }
       else Some (s, Inr ()) }
     else Some (s, Inr ()) }"

definition pc_deallocate :: "'z zone_api \<Rightarrow> 'z cpu_state \<Rightarrow> nat \<Rightarrow> layout \<Rightarrow> 'z cpu_state option" where
  "pc_deallocate Z s ptr l = do {
     cls \<leftarrow> get_size_class (lsize l);
     (case cls of
        Base idx \<Rightarrow> do {
          (s, r) \<leftarrow> pa_push s idx ptr (pc_evict Z idx ptr);
          u \<leftarrow> unwrap r;
          Some s }
      | Large req_sz \<Rightarrow> do {
          z \<leftarrow> za_dealloc Z (cs_zone s) ptr req_sz;
          Some (s\<lparr>cs_zone := z\<rparr>) }) }"

definition pc_new :: "nat \<Rightarrow> (nat \<Rightarrow> nat) \<Rightarrow> 'z \<Rightarrow> 'z cpu_state" where
  "pc_new base sched z = \<lparr>cs_mem = pa_new base 16 sched, cs_zone = z\<rparr>"

definition pc_init :: "'z cpu_state \<Rightarrow> 'z cpu_state option" where
  "pc_init s = do { m \<leftarrow> pa_init (cs_mem s); Some (s\<lparr>cs_mem := m\<rparr>) }"

section \<open>Packing\<close>

lemma and_ffff: "x AND 0xffff = x mod 2 ^ 16" for x :: nat
  using and_mask_mod [OF is_pow2_power, of x 16] by simp

lemma wshr_div: "k < 64 \<Longrightarrow> wshr x k = x div 2 ^ k"
  by (simp add: wshr_def drop_bit_eq_div)

lemma wshl_mult: "k < 64 \<Longrightarrow> x * 2 ^ k < 2 ^ 64 \<Longrightarrow> wshl x k = x * 2 ^ k"
  by (simp add: wshl_def push_bit_eq_mult)

lemma hdr_from_fields:
  "hdr_from w = \<lparr>fh_current = halfword w 0, fh_end_copy = halfword w 1, fh_begin = halfword w 2, fh_end = halfword w 3\<rparr>"
  unfolding hdr_from_def Let_def and_ffff by (simp add: wshr_div halfword_def)

definition hdr_fits :: "flat_header \<Rightarrow> bool" where
  "hdr_fits h \<longleftrightarrow> fh_current h < 2 ^ 16 \<and> fh_end_copy h < 2 ^ 16 \<and> fh_begin h < 2 ^ 16 \<and> fh_end h < 2 ^ 16"

lemma hdr_into_sum:
  assumes "hdr_fits h"
  shows "hdr_into h = ((fh_end h * 2 ^ 16 + fh_begin h) * 2 ^ 16 + fh_end_copy h) * 2 ^ 16 + fh_current h"
proof -
  have f: "fh_current h < 65536" "fh_end_copy h < 65536" "fh_begin h < 65536" "fh_end h < 65536" using assms by (simp_all add: hdr_fits_def)
  have w: "wshl (fh_end h) 48 = fh_end h * 2 ^ 48" "wshl (fh_begin h) 32 = fh_begin h * 2 ^ 32" "wshl (fh_end_copy h) 16 = fh_end_copy h * 2 ^ 16"
    using f by (intro wshl_mult; simp)+
  have "fh_end h * 2 ^ 48 + fh_begin h * 2 ^ 32 + fh_end_copy h * 2 ^ 16 + fh_current h < 2 ^ 64" using f by simp
  then show ?thesis unfolding hdr_into_def Let_def w by simp
qed

lemma halfword_0: "c < 2 ^ 16 \<Longrightarrow> halfword (x * 2 ^ 16 + c) 0 = c"
  by (simp add: halfword_def)

lemma halfword_digits: "halfword w 1 = halfword (w div 2 ^ 16) 0" "halfword w 2 = halfword (w div 2 ^ 16 div 2 ^ 16) 0"
  "halfword w 3 = halfword (w div 2 ^ 16 div 2 ^ 16 div 2 ^ 16) 0"
  by (simp_all add: halfword_def div_mult2_eq [symmetric])

lemma halfword_last: "w < 2 ^ 16 \<Longrightarrow> halfword w 0 = w"
  by (simp add: halfword_def)

lemma halfword_sum:
  assumes "c < 2 ^ 16" "e < 2 ^ 16" "b < 2 ^ 16" "f < 2 ^ 16"
    and h: "h = ((f * 2 ^ 16 + b) * 2 ^ 16 + e) * 2 ^ 16 + c"
  shows "halfword h 0 = c" "halfword h 1 = e" "halfword h 2 = b" "halfword h 3 = f"
proof -
  have d: "(x * 2 ^ 16 + c) div 2 ^ 16 = x" if "c < 2 ^ 16" for x c :: nat using that by simp
  show "halfword h 0 = c" unfolding h by (rule halfword_0 [OF assms(1)])
  show "halfword h 1 = e" unfolding h halfword_digits d [OF assms(1)] by (rule halfword_0 [OF assms(2)])
  show "halfword h 2 = b" unfolding h halfword_digits d [OF assms(1)] d [OF assms(2)] by (rule halfword_0 [OF assms(3)])
  show "halfword h 3 = f" unfolding h halfword_digits d [OF assms(1)] d [OF assms(2)] d [OF assms(3)] by (rule halfword_last [OF assms(4)])
qed

lemma word_halfwords:
  assumes "w < 2 ^ 64"
  shows "w = ((halfword w 3 * 2 ^ 16 + halfword w 2) * 2 ^ 16 + halfword w 1) * 2 ^ 16 + halfword w 0"
proof -
  let ?w1 = "w div 2 ^ 16" let ?w2 = "?w1 div 2 ^ 16" let ?w3 = "?w2 div 2 ^ 16"
  have "?w3 = w div 2 ^ 48" by (simp add: div_mult2_eq [symmetric])
  then have "?w3 < 2 ^ 16" using assms by (simp add: less_mult_imp_div_less)
  then have "halfword w 3 = ?w3" unfolding halfword_digits by (rule halfword_last)
  moreover have "halfword w 2 = ?w2 mod 2 ^ 16" "halfword w 1 = ?w1 mod 2 ^ 16" "halfword w 0 = w mod 2 ^ 16"
    unfolding halfword_digits by (simp_all add: halfword_def)
  moreover have "?w3 * 2 ^ 16 + ?w2 mod 2 ^ 16 = ?w2" "?w2 * 2 ^ 16 + ?w1 mod 2 ^ 16 = ?w1" "?w1 * 2 ^ 16 + w mod 2 ^ 16 = w"
    by (rule div_mult_mod_eq)+
  ultimately show ?thesis by simp
qed

lemma halfword_less: "halfword w k < 2 ^ 16"
  by (simp add: halfword_def)

text \<open>A header and the word that holds it determine each other: packing and unpacking are inverse for every header of
  16-bit fields and for every word.\<close>

theorem flat_header_roundtrip:
  shows "(hdr_fits h \<longrightarrow> hdr_from (hdr_into h) = h) \<and> (w < 2 ^ 64 \<longrightarrow> hdr_into (hdr_from w) = w)"
proof (intro conjI impI)
  assume h: "hdr_fits h"
  then show "hdr_from (hdr_into h) = h"
    using halfword_sum [OF _ _ _ _ hdr_into_sum [OF h]] by (simp add: hdr_from_fields hdr_fits_def)
next
  assume w: "w < 2 ^ 64"
  have "hdr_fits (hdr_from w)" by (simp add: hdr_fits_def hdr_from_fields halfword_def)
  then show "hdr_into (hdr_from w) = w" using word_halfwords [OF w] by (simp add: hdr_into_sum hdr_from_fields)
qed

section \<open>The regions as stacks\<close>

definition loc :: "nat \<Rightarrow> nat \<Rightarrow> nat" where
  "loc cpu i = cpu * REGION + i"

lemma REGION_val: "REGION = 32768"
  by (simp add: REGION_def SHIFT_def)

lemma loc_eq: "i < REGION \<Longrightarrow> j < REGION \<Longrightarrow> loc c i = loc d j \<longleftrightarrow> c = d \<and> i = j"
proof
  assume ij: "i < REGION" "j < REGION" and e: "loc c i = loc d j"
  have "loc c i div REGION = c" "loc d j div REGION = d" using ij by (simp_all add: loc_def)
  then show "c = d \<and> i = j" using e by (auto simp: loc_def)
qed simp

lemma loc_less: "c < n \<Longrightarrow> i < REGION \<Longrightarrow> loc c i < n * REGION"
proof -
  assume "c < n" "i < REGION"
  then have "loc c i < (c + 1) * REGION" by (simp add: loc_def)
  also have "\<dots> \<le> n * REGION" using \<open>c < n\<close> by (intro mult_right_mono) simp_all
  finally show ?thesis .
qed

text \<open>The first slot of a class, when each of the \<open>n\<close> classes has \<open>cap\<close> slots behind the \<open>n\<close> headers.\<close>

definition first_slot :: "nat \<Rightarrow> nat \<Rightarrow> nat \<Rightarrow> nat" where
  "first_slot n cap cl = n + cap * cl"

lemma first_slot_mono: "cl < cl' \<Longrightarrow> first_slot n cap cl + cap \<le> first_slot n cap cl'"
proof -
  assume "cl < cl'"
  then have "cap * (cl + 1) \<le> cap * cl'" by (intro mult_left_mono) simp_all
  then show ?thesis by (simp add: first_slot_def)
qed

lemma first_slot_end: "cl < n \<Longrightarrow> first_slot n cap cl + cap \<le> first_slot n cap n"
  by (rule first_slot_mono)

text \<open>Every header delimits the slots of its class, and counts how many of them are in use.\<close>

definition hdr_at :: "percpu_mem \<Rightarrow> nat \<Rightarrow> nat \<Rightarrow> nat" where
  "hdr_at m cpu cl = pm_word m (loc cpu cl)"

definition pm_layout :: "nat \<Rightarrow> nat \<Rightarrow> percpu_mem \<Rightarrow> bool" where
  "pm_layout n cap m \<longleftrightarrow> 2 \<le> n \<and> first_slot n cap n \<le> REGION \<and> (\<forall>cpu < pm_ncpu m. \<forall>cl < n.
     halfword (hdr_at m cpu cl) 2 = first_slot n cap cl \<and> halfword (hdr_at m cpu cl) 3 = first_slot n cap cl + cap
     \<and> first_slot n cap cl \<le> halfword (hdr_at m cpu cl) 0 \<and> halfword (hdr_at m cpu cl) 0 \<le> first_slot n cap cl + cap)"

definition cpu_stack :: "nat \<Rightarrow> nat \<Rightarrow> percpu_mem \<Rightarrow> nat \<Rightarrow> nat \<Rightarrow> nat list" where
  "cpu_stack n cap m cpu cl = map (\<lambda>k. pm_word m (loc cpu (first_slot n cap cl + k)))
     [0..<halfword (hdr_at m cpu cl) 0 - first_slot n cap cl]"

text \<open>Two memories that differ in the stack of one class of one CPU.\<close>

definition stack_changed :: "nat \<Rightarrow> nat \<Rightarrow> percpu_mem \<Rightarrow> percpu_mem \<Rightarrow> nat \<Rightarrow> nat \<Rightarrow> nat list \<Rightarrow> bool" where
  "stack_changed n cap m m' cpu cl st \<longleftrightarrow> pm_layout n cap m' \<and> pm_ncpu m' = pm_ncpu m \<and> pm_sched m' = pm_sched m
     \<and> pm_base m' = pm_base m
     \<and> (\<forall>c < pm_ncpu m. \<forall>k < n. cpu_stack n cap m' c k = (if c = cpu \<and> k = cl then st else cpu_stack n cap m c k))"

lemma layout_parts:
  assumes "pm_layout n cap m" "cpu < pm_ncpu m" "cl < n"
  shows "halfword (hdr_at m cpu cl) 2 = first_slot n cap cl" "halfword (hdr_at m cpu cl) 3 = first_slot n cap cl + cap"
    "first_slot n cap cl \<le> halfword (hdr_at m cpu cl) 0" "halfword (hdr_at m cpu cl) 0 \<le> first_slot n cap cl + cap"
    "2 \<le> n" "cl < REGION" "n \<le> first_slot n cap cl" "first_slot n cap cl + cap \<le> REGION"
proof -
  have "n \<le> REGION" "first_slot n cap n \<le> REGION" using assms(1) by (auto simp: pm_layout_def first_slot_def)
  then show "cl < REGION" "n \<le> first_slot n cap cl" "first_slot n cap cl + cap \<le> REGION"
    using assms(3) first_slot_end [OF assms(3), of cap] by (auto simp: first_slot_def)
qed (use assms in \<open>simp_all add: pm_layout_def\<close>)

lemma pm_read_loc: "c < pm_ncpu m \<Longrightarrow> i < REGION \<Longrightarrow> pm_read m (loc c i) = Some (pm_word m (loc c i))"
  by (simp add: pm_read_def loc_less)

lemma pm_write_loc: "c < pm_ncpu m \<Longrightarrow> i < REGION \<Longrightarrow> pm_write m (loc c i) v = Some (m\<lparr>pm_word := (pm_word m)(loc c i := v)\<rparr>)"
  by (simp add: pm_write_def loc_less)

lemma halfword_set_current: "halfword (set_current h v) 2 = halfword h 2" "halfword (set_current h v) 3 = halfword h 3"
  by (simp_all add: set_current_def halfword_digits)

lemma halfword_set_current_0: "v < 2 ^ 16 \<Longrightarrow> halfword (set_current h v) 0 = v"
  by (simp add: set_current_def halfword_def)

text \<open>A header that only counts differently, and a slot above the old count or the new one that may have changed.\<close>

lemma stack_update:
  assumes L: "pm_layout n cap m" and c: "cpu < pm_ncpu m" "cl < n"
    and v: "first_slot n cap cl \<le> v" "v \<le> first_slot n cap cl + cap"
    and j: "first_slot n cap cl \<le> j" "j < first_slot n cap cl + cap"
    and m': "m' = m\<lparr>pm_word := (pm_word m)(loc cpu j := x, loc cpu cl := set_current (hdr_at m cpu cl) v)\<rparr>"
    and st: "st = map (\<lambda>k. if first_slot n cap cl + k = j then x else pm_word m (loc cpu (first_slot n cap cl + k))) [0..<v - first_slot n cap cl]"
  shows "stack_changed n cap m m' cpu cl st"
proof -
  note p = layout_parts [OF L c]
  have v16: "v < 2 ^ 16" using v p(8) by (simp add: REGION_val)
  have jR: "j < REGION" "cl < REGION" "j \<noteq> cl" using j p c by auto
  have h: "hdr_at m' c' k = (if c' = cpu \<and> k = cl then set_current (hdr_at m cpu cl) v else hdr_at m c' k)" if "k < n" for c' k
  proof -
    have "k < REGION" "k \<noteq> j" using that j p by auto
    then show ?thesis using jR loc_eq [of k j c' cpu] loc_eq [of k cl c' cpu] by (auto simp: m' hdr_at_def)
  qed
  have L': "pm_layout n cap m'"
    unfolding pm_layout_def
  proof (intro conjI allI impI)
    fix c' k assume k: "c' < pm_ncpu m'" "k < n"
    then have k': "c' < pm_ncpu m" by (simp add: m')
    note q = layout_parts [OF L k' k(2)]
    show "halfword (hdr_at m' c' k) 2 = first_slot n cap k" "halfword (hdr_at m' c' k) 3 = first_slot n cap k + cap"
      "first_slot n cap k \<le> halfword (hdr_at m' c' k) 0" "halfword (hdr_at m' c' k) 0 \<le> first_slot n cap k + cap"
      using q v halfword_set_current_0 [OF v16] p(1,2) by (simp_all add: h k halfword_set_current)
  qed (use L in \<open>simp_all add: pm_layout_def\<close>)
  have w: "pm_word m' (loc c' i) = (if c' = cpu \<and> i = j then x else pm_word m (loc c' i))" if "n \<le> i" "i < REGION" for c' i
    using that jR c(2) loc_eq [of i j c' cpu] loc_eq [of i cl c' cpu] by (auto simp: m')
  have "cpu_stack n cap m' c' k = (if c' = cpu \<and> k = cl then st else cpu_stack n cap m c' k)" if k: "c' < pm_ncpu m" "k < n" for c' k
  proof (cases "c' = cpu \<and> k = cl")
    case True
    have "pm_word m' (loc cpu (first_slot n cap cl + i)) = (if first_slot n cap cl + i = j then x else pm_word m (loc cpu (first_slot n cap cl + i)))"
      if "i < v - first_slot n cap cl" for i
      using w [of "first_slot n cap cl + i" cpu] that v p by auto
    then show ?thesis using True halfword_set_current_0 [OF v16] c(2) by (auto simp: cpu_stack_def h st)
  next
    case False
    note q = layout_parts [OF L k]
    have "pm_word m' (loc c' (first_slot n cap k + i)) = pm_word m (loc c' (first_slot n cap k + i))"
      if i: "i < halfword (hdr_at m c' k) 0 - first_slot n cap k" for i
    proof -
      have "\<not> (c' = cpu \<and> first_slot n cap k + i = j)"
      proof
        assume e: "c' = cpu \<and> first_slot n cap k + i = j"
        then have "k \<noteq> cl" using False by simp
        then show False using e j i q(4) first_slot_mono [of k cl n cap] first_slot_mono [of cl k n cap] by (cases "k < cl") auto
      qed
      then show ?thesis using w [of "first_slot n cap k + i" c'] i q by auto
    qed
    then show ?thesis using False k by (auto simp: cpu_stack_def h)
  qed
  then show ?thesis using L' by (simp add: stack_changed_def m')
qed

lemma cpu_stack_length:
  "pm_layout n cap m \<Longrightarrow> cpu < pm_ncpu m \<Longrightarrow> cl < n \<Longrightarrow> halfword (hdr_at m cpu cl) 0 = first_slot n cap cl + length (cpu_stack n cap m cpu cl)"
  using layout_parts(3) by (simp add: cpu_stack_def)

text \<open>\<open>push\<close> on a CPU appends the item to the stack of its class and changes nothing else; of a full stack it leaves the
  count as it was, which the caller takes for an overflow.\<close>

lemma rseq_push_ok:
  assumes L: "pm_layout n cap m" and c: "cpu < pm_ncpu m" "cl < n"
  shows "let st = cpu_stack n cap m cpu cl; b = first_slot n cap cl + length st in
    if length st < cap then \<exists>m'. rseq_push_tx m cpu cl item = Some (m', b, b + 1) \<and> stack_changed n cap m m' cpu cl (st @ [item])
    else rseq_push_tx m cpu cl item = Some (m, b, b)"
proof -
  note p = layout_parts [OF L c]
  let ?st = "cpu_stack n cap m cpu cl" let ?b = "first_slot n cap cl + length ?st"
  have hb: "halfword (hdr_at m cpu cl) 0 = ?b" by (rule cpu_stack_length [OF L c])
  have rd: "pm_read m (cpu * REGION + cl) = Some (hdr_at m cpu cl)" using pm_read_loc [OF c(1) p(6)] by (simp add: hdr_at_def loc_def)
  show ?thesis
  proof (cases "length ?st < cap")
    case True
    let ?m1 = "m\<lparr>pm_word := (pm_word m)(loc cpu ?b := item)\<rparr>"
    have bR: "?b < REGION" "?b \<noteq> cl" using True p c by auto
    let ?m2 = "m\<lparr>pm_word := (pm_word m)(loc cpu ?b := item, loc cpu cl := set_current (hdr_at m cpu cl) (?b + 1))\<rparr>"
    have w1: "pm_write m (cpu * REGION + ?b) item = Some ?m1" using pm_write_loc [OF c(1) bR(1)] by (simp add: loc_def)
    have r2: "pm_read ?m1 (cpu * REGION + cl) = Some (hdr_at m cpu cl)"
      using pm_read_loc [of cpu ?m1 cl] c(1) p(6) bR loc_eq [OF p(6) bR(1), of cpu cpu] by (simp add: hdr_at_def loc_def)
    have w2: "pm_write ?m1 (cpu * REGION + cl) v = Some (?m1\<lparr>pm_word := (pm_word ?m1)(loc cpu cl := v)\<rparr>)" for v
      using pm_write_loc [of cpu ?m1 cl v] c(1) p(6) by (simp add: loc_def)
    have "rseq_push_tx m cpu cl item = Some (?m2, ?b, ?b + 1)"
      unfolding rseq_push_tx_def Let_def rd bind.bind_lunit hb p(2) w1 r2 w2 using True by simp
    moreover have "stack_changed n cap m ?m2 cpu cl (?st @ [item])"
    proof (rule stack_update [OF L c _ _ _ _ refl, of "?b + 1" ?b])
      have "?st = map (\<lambda>k. pm_word m (loc cpu (first_slot n cap cl + k))) [0..<length ?st]" by (simp add: cpu_stack_def)
      moreover have "map (\<lambda>k. if first_slot n cap cl + k = ?b then item else pm_word m (loc cpu (first_slot n cap cl + k))) [0..<length ?st]
        = map (\<lambda>k. pm_word m (loc cpu (first_slot n cap cl + k))) [0..<length ?st]" by (intro map_cong) auto
      ultimately show "?st @ [item] = map (\<lambda>k. if first_slot n cap cl + k = ?b then item else pm_word m (loc cpu (first_slot n cap cl + k)))
        [0..<?b + 1 - first_slot n cap cl]" by (simp add: Suc_diff_le)
    qed (use True in simp_all)
    ultimately show ?thesis using True by (auto simp: Let_def)
  next
    case False
    then have "rseq_push_tx m cpu cl item = Some (m, ?b, ?b)"
      unfolding rseq_push_tx_def Let_def rd bind.bind_lunit hb p(2) by simp
    then show ?thesis using False by (simp add: Let_def)
  qed
qed

text \<open>\<open>pop\<close> on a CPU takes the item that was pushed last on its class and changes nothing else; of an empty stack it
  leaves the count as it was, which the caller takes for an underflow.\<close>

lemma rseq_pop_ok:
  assumes L: "pm_layout n cap m" and c: "cpu < pm_ncpu m" "cl < n"
  shows "let st = cpu_stack n cap m cpu cl; b = first_slot n cap cl + length st in
    if st = [] then rseq_pop_tx m cpu cl = Some (m, b, b, None)
    else \<exists>m'. rseq_pop_tx m cpu cl = Some (m', b, b - 1, Some (last st)) \<and> stack_changed n cap m m' cpu cl (butlast st)"
proof -
  note p = layout_parts [OF L c]
  let ?st = "cpu_stack n cap m cpu cl" let ?b = "first_slot n cap cl + length ?st"
  have hb: "halfword (hdr_at m cpu cl) 0 = ?b" by (rule cpu_stack_length [OF L c])
  have rd: "pm_read m (cpu * REGION + cl) = Some (hdr_at m cpu cl)" using pm_read_loc [OF c(1) p(6)] by (simp add: hdr_at_def loc_def)
  show ?thesis
  proof (cases "?st = []")
    case True
    then have "rseq_pop_tx m cpu cl = Some (m, ?b, ?b, None)"
      unfolding rseq_pop_tx_def Let_def rd bind.bind_lunit hb p(1) by simp
    then show ?thesis using True by (simp add: Let_def)
  next
    case False
    then have len: "0 < length ?st" by simp
    define k where "k = length ?st - 1"
    have k: "length ?st = k + 1" using len by (simp add: k_def)
    let ?j = "first_slot n cap cl + k"
    have b: "?b = ?j + 1" using k by simp
    have jR: "?j < REGION" "?j - 1 < REGION" using p k hb by auto
    have j2: "2 \<le> cpu * REGION + ?b" using b p by simp
    have e1: "cpu * REGION + ?b - 2 = loc cpu (?j - 1)" "cpu * REGION + ?b - 1 = loc cpu ?j"
      using b p(5,7) by (simp_all add: loc_def)
    have st: "?st = map (\<lambda>i. pm_word m (loc cpu (first_slot n cap cl + i))) [0..<k + 1]" using hb k by (simp add: cpu_stack_def)
    have last: "last ?st = pm_word m (loc cpu ?j)" unfolding st by simp
    let ?x = "pm_word m (loc cpu ?j)"
    let ?m2 = "m\<lparr>pm_word := (pm_word m)(loc cpu ?j := ?x, loc cpu cl := set_current (hdr_at m cpu cl) ?j)\<rparr>"
    have w: "pm_write m (cpu * REGION + cl) (set_current (hdr_at m cpu cl) ?j) = Some ?m2"
      using pm_write_loc [OF c(1) p(6)] by (simp add: loc_def)
    have gt: "\<not> ?b \<le> first_slot n cap cl" using k by simp
    have "rseq_pop_tx m cpu cl = Some (?m2, ?b, ?b - 1, Some ?x)"
      unfolding rseq_pop_tx_def Let_def rd bind.bind_lunit hb p(1) if_not_P [OF gt] ensure_bind if_P [OF j2] e1
        pm_read_loc [OF c(1) jR(1)] pm_read_loc [OF c(1) jR(2)] using w b by simp
    moreover have "stack_changed n cap m ?m2 cpu cl (butlast ?st)"
    proof (rule stack_update [OF L c _ _ _ _ refl])
      show "butlast ?st = map (\<lambda>i. if first_slot n cap cl + i = ?j then ?x else pm_word m (loc cpu (first_slot n cap cl + i)))
        [0..<?j - first_slot n cap cl]" unfolding st by simp
    qed (use k hb p(4) in simp_all)
    ultimately show ?thesis using False last by (auto simp: Let_def)
  qed
qed

section \<open>The initial layout\<close>

definition mem_frame :: "percpu_mem \<Rightarrow> percpu_mem \<Rightarrow> bool" where
  "mem_frame m m' \<longleftrightarrow> pm_ncpu m' = pm_ncpu m \<and> pm_base m' = pm_base m \<and> pm_sched m' = pm_sched m \<and> pm_time m' = pm_time m"

definition other_cpus :: "nat \<Rightarrow> percpu_mem \<Rightarrow> percpu_mem \<Rightarrow> bool" where
  "other_cpus cpu m m' \<longleftrightarrow> (\<forall>c i. c \<noteq> cpu \<longrightarrow> i < REGION \<longrightarrow> pm_word m' (loc c i) = pm_word m (loc c i))"

lemma frame_refl [simp]: "mem_frame m m" "other_cpus cpu m m"
  by (simp_all add: mem_frame_def other_cpus_def)

lemma frame_trans: "mem_frame m m1 \<Longrightarrow> mem_frame m1 m2 \<Longrightarrow> mem_frame m m2"
  "other_cpus cpu m m1 \<Longrightarrow> other_cpus cpu m1 m2 \<Longrightarrow> other_cpus cpu m m2"
  by (simp_all add: mem_frame_def other_cpus_def)

lemma frame_write: "i < REGION \<Longrightarrow> mem_frame m (m\<lparr>pm_word := (pm_word m)(loc cpu i := v)\<rparr>)"
  "i < REGION \<Longrightarrow> other_cpus cpu m (m\<lparr>pm_word := (pm_word m)(loc cpu i := v)\<rparr>)"
  by (auto simp: mem_frame_def other_cpus_def loc_eq)

definition first_header :: "nat \<Rightarrow> nat \<Rightarrow> nat \<Rightarrow> nat" where
  "first_header n cap cl = (let f = first_slot n cap cl in hdr_into (hdr_new f (f + cap) f (f + cap)))"

lemma first_header_fields:
  assumes "first_slot n cap cl + cap < 2 ^ 16"
  shows "halfword (first_header n cap cl) 0 = first_slot n cap cl" "halfword (first_header n cap cl) 2 = first_slot n cap cl"
    "halfword (first_header n cap cl) 3 = first_slot n cap cl + cap"
proof -
  let ?h = "hdr_new (first_slot n cap cl) (first_slot n cap cl + cap) (first_slot n cap cl) (first_slot n cap cl + cap)"
  have f: "hdr_fits ?h" by (simp add: hdr_fits_def hdr_new_def)
  show "halfword (first_header n cap cl) 0 = first_slot n cap cl" "halfword (first_header n cap cl) 2 = first_slot n cap cl"
    "halfword (first_header n cap cl) 3 = first_slot n cap cl + cap"
    using halfword_sum [OF _ _ _ _ hdr_into_sum [OF f]] assms by (simp_all add: first_header_def hdr_new_def Let_def)
qed

lemma init_headers_ok:
  assumes "k \<le> n" and R: "first_slot n cap n \<le> REGION" and c: "cpu < pm_ncpu m"
  shows "\<exists>m'. init_headers [k..<n] cpu cap (8 * first_slot n cap k) m = Some m' \<and> mem_frame m m' \<and> other_cpus cpu m m'
    \<and> (\<forall>cl < n. hdr_at m' cpu cl = (if k \<le> cl then first_header n cap cl else hdr_at m cpu cl))"
  using assms(1) c
proof (induction "n - k" arbitrary: k m)
  case 0
  then show ?case by (intro exI [of _ m]) simp
next
  case (Suc d)
  then have k: "k < n" and dk: "d = n - (k + 1)" by simp_all
  let ?f = "first_slot n cap k"
  have fR: "n \<le> ?f" "?f + cap \<le> REGION" "k < REGION" using first_slot_end [OF k, of cap] R k by (auto simp: first_slot_def)
  have next_f: "8 * ?f + cap * 8 = 8 * first_slot n cap (k + 1)" by (simp add: first_slot_def algebra_simps)
  define m1 where "m1 = (if cap \<noteq> 0 then m\<lparr>pm_word := (pm_word m)(loc cpu ?f := pm_base m + cpu * 2 ^ SHIFT + 8 * ?f)\<rparr> else m)"
  have fR1: "?f < REGION" if "cap \<noteq> 0" using fR that by simp
  have w1: "(if cap \<noteq> 0 then pm_write m (cpu * REGION + 8 * ?f div 8) (pm_base m + cpu * 2 ^ SHIFT + 8 * ?f) else Some m) = Some m1"
    using pm_write_loc [OF Suc.prems(2) fR1] by (simp add: m1_def loc_def)
  have fr1: "mem_frame m m1" "other_cpus cpu m m1" using frame_write [OF fR1] by (simp_all add: m1_def)
  have h1: "hdr_at m1 cpu cl = hdr_at m cpu cl" if "cl < n" for cl
    using that fR fR1 loc_eq [of cl ?f cpu cpu] by (auto simp: m1_def hdr_at_def)
  let ?m2 = "m1\<lparr>pm_word := (pm_word m1)(loc cpu k := first_header n cap k)\<rparr>"
  have c1: "cpu < pm_ncpu m1" using fr1(1) Suc.prems(2) by (simp add: mem_frame_def)
  have w2: "pm_write m1 (cpu * REGION + k) (hdr_into (hdr_new ?f (?f + cap) ?f (?f + cap))) = Some ?m2"
    using pm_write_loc [OF c1 fR(3)] by (simp add: loc_def first_header_def Let_def)
  have fr2: "mem_frame m1 ?m2" "other_cpus cpu m1 ?m2" using frame_write [OF fR(3)] by simp_all
  have h2: "hdr_at ?m2 cpu cl = (if cl = k then first_header n cap k else hdr_at m1 cpu cl)" if "cl < n" for cl
    using that fR loc_eq [of cl k cpu cpu] k by (auto simp: hdr_at_def)
  have "init_headers [k..<n] cpu cap (8 * ?f) m = init_headers [k + 1..<n] cpu cap (8 * first_slot n cap (k + 1)) ?m2"
    unfolding upt_conv_Cons [OF k] init_headers.simps Let_def w1 bind.bind_lunit next_f using w2 by simp
  moreover obtain m' where m': "init_headers [k + 1..<n] cpu cap (8 * first_slot n cap (k + 1)) ?m2 = Some m'" "mem_frame ?m2 m'"
    "other_cpus cpu ?m2 m'" "\<forall>cl < n. hdr_at m' cpu cl = (if k + 1 \<le> cl then first_header n cap cl else hdr_at ?m2 cpu cl)"
    using Suc.hyps(1) [OF dk, of ?m2] k c1 by auto
  moreover have "mem_frame m m'" "other_cpus cpu m m'" using frame_trans fr1 fr2 m'(2,3) by blast+
  moreover have "\<forall>cl < n. hdr_at m' cpu cl = (if k \<le> cl then first_header n cap cl else hdr_at m cpu cl)"
    using m'(4) h1 h2 k by (auto simp: le_eq_less_or_eq Suc_le_eq)
  ultimately show ?case by auto
qed

lemma lock_headers_ok:
  assumes c: "cpu < pm_ncpu m" and i: "\<forall>i \<in> set is. i < REGION"
  shows "\<exists>m'. lock_headers is cpu m = Some m' \<and> mem_frame m m' \<and> other_cpus cpu m m'"
  using assms
proof (induction "is" arbitrary: m)
  case (Cons a "is")
  let ?m1 = "m\<lparr>pm_word := (pm_word m)(loc cpu a := hdr_into (hdr_lock (hdr_from (pm_word m (loc cpu a)))))\<rparr>"
  have a: "a < REGION" using Cons.prems by simp
  have fr: "mem_frame m ?m1" "other_cpus cpu m ?m1" using frame_write [OF a] by simp_all
  have c1: "cpu < pm_ncpu ?m1" using Cons.prems(1) by simp
  obtain m' where m': "lock_headers is cpu ?m1 = Some m'" "mem_frame ?m1 m'" "other_cpus cpu ?m1 m'"
    using Cons.IH [OF c1] Cons.prems(2) by auto
  then have "lock_headers (a # is) cpu m = Some m'"
    using pm_read_loc [OF Cons.prems(1) a] pm_write_loc [OF Cons.prems(1) a] by (simp add: loc_def)
  then show ?case using m' frame_trans(1) [OF fr(1) m'(2)] frame_trans(2) [OF fr(2) m'(3)] by blast
qed simp

definition cpu_inited :: "nat \<Rightarrow> nat \<Rightarrow> percpu_mem \<Rightarrow> nat \<Rightarrow> bool" where
  "cpu_inited n cap m cpu \<longleftrightarrow> (\<forall>cl < n. hdr_at m cpu cl = first_header n cap cl)"

lemma inited_layout:
  assumes "\<forall>cpu < pm_ncpu m. cpu_inited n cap m cpu" and R: "2 \<le> n" "first_slot n cap n \<le> REGION"
  shows "pm_layout n cap m" and "cpu < pm_ncpu m \<Longrightarrow> cl < n \<Longrightarrow> cpu_stack n cap m cpu cl = []"
proof -
  have f: "first_slot n cap cl + cap < 2 ^ 16" if "cl < n" for cl
    using first_slot_end [OF that, of cap] R(2) by (simp add: REGION_val)
  show "pm_layout n cap m" using assms first_header_fields [OF f] by (simp add: pm_layout_def cpu_inited_def)
  show "cpu_stack n cap m cpu cl = []" if "cpu < pm_ncpu m" "cl < n"
    using assms(1) that first_header_fields(1) [OF f [OF that(2)]] by (simp add: cpu_stack_def cpu_inited_def)
qed

lemma inited_kept:
  assumes "other_cpus cpu m m'" "c \<noteq> cpu" "n \<le> REGION" "cpu_inited n cap m c"
  shows "cpu_inited n cap m' c"
  using assms by (auto simp: cpu_inited_def hdr_at_def other_cpus_def)

lemma capacity_val: "initial_capacity = 62" "HDR_SIZE = 8 * first_slot 64 62 0" "first_slot 64 62 64 \<le> REGION" "TOTAL_SIZE_CLASS = 64"
  by (simp_all add: initial_capacity_def HDR_SIZE_def DATALEN_def TOTAL_SIZE_CLASS_def SHIFT_def first_slot_def REGION_val)

lemma flat_init_ok:
  assumes c: "cpu < pm_ncpu m"
  shows "\<exists>m'. flat_init cpu m = Some m' \<and> mem_frame m m' \<and> other_cpus cpu m m' \<and> cpu_inited 64 62 m' cpu"
proof -
  obtain m1 where m1: "lock_headers [0..<64] cpu m = Some m1" "mem_frame m m1" "other_cpus cpu m m1"
    using lock_headers_ok [OF c, of "[0..<64]"] by (auto simp: REGION_val)
  have c1: "cpu < pm_ncpu m1" using m1(2) c by (simp add: mem_frame_def)
  obtain m2 where m2: "init_headers [0..<64] cpu 62 (8 * first_slot 64 62 0) m1 = Some m2" "mem_frame m1 m2" "other_cpus cpu m1 m2"
    "\<forall>cl < 64. hdr_at m2 cpu cl = first_header 64 62 cl"
    using init_headers_ok [OF _ capacity_val(3) c1, of 0] by auto
  then show ?thesis using m1 frame_trans(1) [OF m1(2) m2(2)] frame_trans(2) [OF m1(3) m2(3)]
    by (simp add: flat_init_def capacity_val cpu_inited_def)
qed

lemma flat_init_all_ok:
  assumes "distinct cs" and "\<forall>c \<in> set cs. c < pm_ncpu m"
  shows "\<exists>m'. flat_init_all cs m = Some m' \<and> mem_frame m m' \<and> (\<forall>c \<in> set cs. cpu_inited 64 62 m' c)
    \<and> (\<forall>c. c \<notin> set cs \<longrightarrow> cpu_inited 64 62 m c \<longrightarrow> cpu_inited 64 62 m' c)"
  using assms
proof (induction cs arbitrary: m)
  case (Cons a cs)
  obtain m1 where m1: "flat_init a m = Some m1" "mem_frame m m1" "other_cpus a m m1" "cpu_inited 64 62 m1 a"
    using flat_init_ok [of a m] Cons.prems(2) by auto
  have "\<forall>c \<in> set cs. c < pm_ncpu m1" using Cons.prems(2) m1(2) by (simp add: mem_frame_def)
  then obtain m2 where m2: "flat_init_all cs m1 = Some m2" "mem_frame m1 m2" "\<forall>c \<in> set cs. cpu_inited 64 62 m2 c"
    "\<forall>c. c \<notin> set cs \<longrightarrow> cpu_inited 64 62 m1 c \<longrightarrow> cpu_inited 64 62 m2 c"
    using Cons.IH [of m1] Cons.prems(1) by auto
  have "cpu_inited 64 62 m1 c" if "c \<noteq> a" "cpu_inited 64 62 m c" for c
    using inited_kept [OF m1(3) that(1) _ that(2)] by (simp add: REGION_val)
  then show ?case using m1(1,4) m2 frame_trans(1) [OF m1(2) m2(2)] Cons.prems(1) by (intro exI [of _ m2]) auto
qed simp

text \<open>\<open>init\<close> gives each of the 64 classes of each CPU 62 slots of its own (not 519, as the comment computes), within the
  region, and leaves every stack empty and no header locked.\<close>

theorem pa_init_layout:
  "\<exists>m'. pa_init m = Some m' \<and> mem_frame m m' \<and> initial_capacity = 62 \<and> pm_layout TOTAL_SIZE_CLASS initial_capacity m'
    \<and> (\<forall>cpu < pm_ncpu m. \<forall>cl < TOTAL_SIZE_CLASS. cpu_stack TOTAL_SIZE_CLASS initial_capacity m' cpu cl = []
        \<and> \<not> hdr_is_locked (hdr_from (hdr_at m' cpu cl)))"
proof -
  obtain m' where m': "flat_init_all [0..<pm_ncpu m] m = Some m'" "mem_frame m m'" "\<forall>c < pm_ncpu m. cpu_inited 64 62 m' c"
    using flat_init_all_ok [of "[0..<pm_ncpu m]" m] by auto
  then have i: "\<forall>c < pm_ncpu m'. cpu_inited 64 62 m' c" by (simp add: mem_frame_def)
  note L = inited_layout [OF i _ capacity_val(3)]
  have "\<not> hdr_is_locked (hdr_from (hdr_at m' cpu cl))" if "cpu < pm_ncpu m" "cl < 64" for cpu cl
  proof -
    have L': "pm_layout 64 62 m'" by (rule L(1)) simp
    have c: "cpu < pm_ncpu m'" using that m'(2) by (simp add: mem_frame_def)
    show ?thesis using layout_parts(1,8) [OF L' c that(2)] by (simp add: hdr_is_locked_def hdr_from_fields REGION_val)
  qed
  then show ?thesis using m' L by (auto simp: pa_init_def capacity_val mem_frame_def)
qed

section \<open>The operations of the cache\<close>

lemma time_simps [simp]:
  "pm_layout n cap (m\<lparr>pm_time := k\<rparr>) = pm_layout n cap m" "cpu_stack n cap (m\<lparr>pm_time := k\<rparr>) = cpu_stack n cap m"
  by (simp_all add: pm_layout_def hdr_at_def cpu_stack_def fun_eq_iff)

lemma stack_changed_time: "stack_changed n cap (m\<lparr>pm_time := k\<rparr>) m' cpu cl st = stack_changed n cap m m' cpu cl st"
  by (simp add: stack_changed_def)

text \<open>A restartable sequence is no point at which the CPU changes.\<close>

lemma rseq_push_time: "rseq_push_tx m cpu cl item = Some (m', b, r) \<Longrightarrow> pm_time m' = pm_time m"
  by (auto simp: rseq_push_tx_def Let_def pm_write_def bind_eq_Some_conv split: if_splits)

lemma rseq_pop_time: "rseq_pop_tx m cpu cl = Some (m', b, r, x) \<Longrightarrow> pm_time m' = pm_time m"
  by (auto simp: rseq_pop_tx_def Let_def pm_write_def bind_eq_Some_conv split: if_splits)

lemma stack_changed_same:
  "pm_layout n cap m \<Longrightarrow> stack_changed n cap m (m\<lparr>pm_time := k\<rparr>) cpu cl (cpu_stack n cap m cpu cl)"
  by (simp add: stack_changed_def)

lemma stack_changed_trans:
  "stack_changed n cap m m1 cpu cl st1 \<Longrightarrow> stack_changed n cap m1 m2 cpu cl st2 \<Longrightarrow> stack_changed n cap m m2 cpu cl st2"
  by (simp add: stack_changed_def)

lemma stack_changed_now: "stack_changed n cap m m' cpu cl st \<Longrightarrow> cpu < pm_ncpu m \<Longrightarrow> cl < n \<Longrightarrow> cpu_stack n cap m' cpu cl = st"
  by (simp add: stack_changed_def)

abbreviation layout64 :: "percpu_mem \<Rightarrow> bool" where
  "layout64 m \<equiv> pm_layout 64 62 m"

abbreviation stack64 :: "percpu_mem \<Rightarrow> nat \<Rightarrow> nat \<Rightarrow> nat list" where
  "stack64 m cpu cl \<equiv> cpu_stack 64 62 m cpu cl"

lemma pa_pop_cases:
  assumes L: "layout64 (cs_mem s)" and c: "pm_sched (cs_mem s) (pm_time (cs_mem s)) = cpu" "cpu < pm_ncpu (cs_mem s)" "idx < 64"
  defines "m1 \<equiv> (cs_mem s)\<lparr>pm_time := pm_time (cs_mem s) + 1\<rparr>"
  shows "stack64 (cs_mem s) cpu idx = [] \<Longrightarrow> pa_pop s idx h = h cpu (s\<lparr>cs_mem := m1\<rparr>)"
    and "stack64 (cs_mem s) cpu idx \<noteq> [] \<Longrightarrow> \<exists>m'. pa_pop s idx h = Some (s\<lparr>cs_mem := m'\<rparr>, Inr (last (stack64 (cs_mem s) cpu idx)))
      \<and> stack_changed 64 62 (cs_mem s) m' cpu idx (butlast (stack64 (cs_mem s) cpu idx))"
proof -
  have L1: "layout64 m1" "cpu < pm_ncpu m1" using L c by (simp_all add: m1_def)
  note r = rseq_pop_ok [OF L1 c(3), unfolded Let_def]
  have st: "stack64 m1 cpu idx = stack64 (cs_mem s) cpu idx" by (simp add: m1_def)
  have here: "pm_here (cs_mem s) = (cpu, m1)" using c(1) by (simp add: pm_here_def m1_def)
  show "pa_pop s idx h = h cpu (s\<lparr>cs_mem := m1\<rparr>)" if "stack64 (cs_mem s) cpu idx = []"
    using r that st by (simp add: pa_pop_def here)
  show "\<exists>m'. pa_pop s idx h = Some (s\<lparr>cs_mem := m'\<rparr>, Inr (last (stack64 (cs_mem s) cpu idx)))
      \<and> stack_changed 64 62 (cs_mem s) m' cpu idx (butlast (stack64 (cs_mem s) cpu idx))" if ne: "stack64 (cs_mem s) cpu idx \<noteq> []"
  proof -
    have "0 < first_slot 64 62 idx + length (stack64 m1 cpu idx)" by (simp add: first_slot_def)
    then show ?thesis using r ne st stack_changed_time [of 64 62 _ "cs_mem s"] by (auto simp: pa_pop_def here m1_def)
  qed
qed

lemma pa_push_cases:
  assumes L: "layout64 (cs_mem s)" and c: "pm_sched (cs_mem s) (pm_time (cs_mem s)) = cpu" "cpu < pm_ncpu (cs_mem s)" "idx < 64"
    and v: "val \<noteq> 0"
  defines "m1 \<equiv> (cs_mem s)\<lparr>pm_time := pm_time (cs_mem s) + 1\<rparr>"
  shows "\<not> length (stack64 (cs_mem s) cpu idx) < 62 \<Longrightarrow> pa_push s idx val h = h cpu (s\<lparr>cs_mem := m1\<rparr>)"
    and "length (stack64 (cs_mem s) cpu idx) < 62 \<Longrightarrow> \<exists>m'. pa_push s idx val h = Some (s\<lparr>cs_mem := m'\<rparr>, Inr ())
      \<and> stack_changed 64 62 (cs_mem s) m' cpu idx (stack64 (cs_mem s) cpu idx @ [val])"
proof -
  have L1: "layout64 m1" "cpu < pm_ncpu m1" using L c by (simp_all add: m1_def)
  note r = rseq_push_ok [OF L1 c(3), of val, unfolded Let_def]
  have st: "stack64 m1 cpu idx = stack64 (cs_mem s) cpu idx" by (simp add: m1_def)
  have here: "pm_here (cs_mem s) = (cpu, m1)" using c(1) by (simp add: pm_here_def m1_def)
  show "pa_push s idx val h = h cpu (s\<lparr>cs_mem := m1\<rparr>)" if "\<not> length (stack64 (cs_mem s) cpu idx) < 62"
    using r that st by (simp add: pa_push_def here)
  show "\<exists>m'. pa_push s idx val h = Some (s\<lparr>cs_mem := m'\<rparr>, Inr ())
      \<and> stack_changed 64 62 (cs_mem s) m' cpu idx (stack64 (cs_mem s) cpu idx @ [val])" if "length (stack64 (cs_mem s) cpu idx) < 62"
    using r that st v stack_changed_time [of 64 62 _ "cs_mem s"] by (auto simp: pa_push_def here m1_def)
qed

text \<open>Where the cache of the CPU holds an object of the class, \<open>allocate\<close> hands out the one that was freed last, whatever
  alignment the layout asks for, and nothing else changes.\<close>

theorem pc_allocate_hit:
  assumes L: "layout64 (cs_mem s)" and c: "pm_sched (cs_mem s) (pm_time (cs_mem s)) = cpu" "cpu < pm_ncpu (cs_mem s)" "idx < 64"
    and k: "get_size_class (lsize l) = Some (Base idx)" and st: "stack64 (cs_mem s) cpu idx = xs @ [x]" "x \<noteq> 0"
  shows "\<exists>m'. pc_allocate Z s l = Some (s\<lparr>cs_mem := m'\<rparr>, Inr x) \<and> stack_changed 64 62 (cs_mem s) m' cpu idx xs"
proof -
  obtain m' where "pa_pop s idx (pc_refill Z idx (lalign l)) = Some (s\<lparr>cs_mem := m'\<rparr>, Inr x)"
    "stack_changed 64 62 (cs_mem s) m' cpu idx xs"
    using pa_pop_cases(2) [OF L c, of "pc_refill Z idx (lalign l)"] st by auto
  then show ?thesis using k st(2) by (intro exI [of _ m']) (simp add: pc_allocate_def)
qed

text \<open>Where the cache of the CPU is empty and the zone gives a batch, \<open>allocate\<close> goes wrong at the first object that it
  caches: \<open>push\<close> gets the object for the class and the class for the object, and addresses a header outside the array.\<close>

theorem pc_allocate_refill_crash:
  assumes L: "layout64 (cs_mem s)" and c: "\<forall>t. pm_sched (cs_mem s) t = cpu" "cpu < pm_ncpu (cs_mem s)" "idx < 64"
    and k: "get_size_class (lsize l) = Some (Base idx)" and st: "stack64 (cs_mem s) cpu idx = []"
    and z: "za_batch Z (cs_zone s) idx (replicate 512 0) CAP = Some (z', p # ps, Inr ptr)" and p: "pm_ncpu (cs_mem s) * REGION \<le> p"
  shows "pc_allocate Z s l = None"
proof -
  let ?m = "\<lambda>k. (cs_mem s)\<lparr>pm_time := k\<rparr>"
  have "pa_pop s idx (pc_refill Z idx (lalign l)) = pc_refill Z idx (lalign l) cpu (s\<lparr>cs_mem := ?m (pm_time (cs_mem s) + 1)\<rparr>)"
    using pa_pop_cases(1) [OF L _ c(2,3) st] c(1) by simp
  moreover have "pa_push s' p idx h = None" if "cs_mem s' = ?m k" for s' :: "'a cpu_state" and k h
  proof -
    have "\<not> cpu * REGION + p < pm_ncpu (cs_mem s) * REGION" using p by simp
    then show ?thesis using that c(1) by (simp add: pa_push_def pm_here_def rseq_push_tx_def pm_read_def)
  qed
  then have "pc_refill_loop (s\<lparr>cs_mem := ?m k, cs_zone := z'\<rparr>) (p # ps) idx 1 = None" for k
    by (subst pc_refill_loop.simps) (simp add: CAP_def)
  ultimately show ?thesis using k z c(1) by (simp add: pc_allocate_def pc_refill_def pm_here_def)
qed

text \<open>\<open>deallocate\<close> puts the object on the stack of its class while there is room. Of a full stack it loses the object when
  the thread has moved to another CPU in the meantime: the call succeeds, and neither a stack nor the zone has it.\<close>

theorem pc_deallocate_loses_object:
  assumes L: "layout64 (cs_mem s)" and c: "pm_sched (cs_mem s) (pm_time (cs_mem s)) = cpu" "cpu < pm_ncpu (cs_mem s)" "idx < 64"
    and k: "get_size_class (lsize l) = Some (Base idx)" and p: "p \<noteq> 0"
  shows "if length (stack64 (cs_mem s) cpu idx) < 62
    then \<exists>m'. pc_deallocate Z s p l = Some (s\<lparr>cs_mem := m'\<rparr>) \<and> stack_changed 64 62 (cs_mem s) m' cpu idx (stack64 (cs_mem s) cpu idx @ [p])
    else pm_sched (cs_mem s) (pm_time (cs_mem s) + 1) \<noteq> cpu \<longrightarrow>
      pc_deallocate Z s p l = Some (s\<lparr>cs_mem := (cs_mem s)\<lparr>pm_time := pm_time (cs_mem s) + 2\<rparr>\<rparr>)"
proof (cases "length (stack64 (cs_mem s) cpu idx) < 62")
  case True
  then obtain m' where "pa_push s idx p (pc_evict Z idx p) = Some (s\<lparr>cs_mem := m'\<rparr>, Inr ())"
    "stack_changed 64 62 (cs_mem s) m' cpu idx (stack64 (cs_mem s) cpu idx @ [p])"
    using pa_push_cases(2) [OF L c p, of "pc_evict Z idx p"] by auto
  then have "pc_deallocate Z s p l = Some (s\<lparr>cs_mem := m'\<rparr>)
    \<and> stack_changed 64 62 (cs_mem s) m' cpu idx (stack64 (cs_mem s) cpu idx @ [p])" using k by (simp add: pc_deallocate_def)
  then show ?thesis unfolding if_P [OF True] by blast
next
  case False
  then have "pa_push s idx p (pc_evict Z idx p) = pc_evict Z idx p cpu (s\<lparr>cs_mem := (cs_mem s)\<lparr>pm_time := pm_time (cs_mem s) + 1\<rparr>\<rparr>)"
    using pa_push_cases(1) [OF L c p] by simp
  then show ?thesis using False k by (simp add: pc_deallocate_def pc_evict_def pm_here_def)
qed

text \<open>The loop of the overflow handler pops the whole stack, the last item first.\<close>

lemma pc_drain_loop_ok:
  assumes "layout64 (cs_mem s)" and "\<forall>t. pm_sched (cs_mem s) t = cpu" and c: "idx < 64" and "cpu < pm_ncpu (cs_mem s)"
    and "stack64 (cs_mem s) cpu idx = st" and "cur + length st < 128" and "length batch = 512"
  shows "\<exists>m'. pc_drain_loop s batch idx cur = Some (s\<lparr>cs_mem := m'\<rparr>, take cur batch @ rev st @ drop (cur + length st) batch, cur + length st)
    \<and> stack_changed 64 62 (cs_mem s) m' cpu idx []"
  using assms(1,2,4-)
proof (induction st arbitrary: s batch cur rule: rev_induct)
  case Nil
  let ?m = "(cs_mem s)\<lparr>pm_time := pm_time (cs_mem s) + 1\<rparr>"
  have "pa_pop s idx h = h cpu (s\<lparr>cs_mem := ?m\<rparr>)" for h using pa_pop_cases(1) [OF Nil(1) _ Nil(3) c] Nil(2,4) by simp
  then have "pc_drain_loop s batch idx cur = Some (s\<lparr>cs_mem := ?m\<rparr>, batch, cur)"
    using Nil(5) by (subst pc_drain_loop.simps) (simp add: CAP_def)
  moreover have "stack_changed 64 62 (cs_mem s) ?m cpu idx []" using stack_changed_same [OF Nil(1), of _ cpu idx] Nil(4) by simp
  ultimately show ?case by (intro exI [of _ ?m]) simp
next
  case (snoc x st)
  let ?h = "\<lambda>(_ :: nat) s. Some (s :: 'a cpu_state, Inl ECPU)"
  obtain m1 where m1: "pa_pop s idx ?h = Some (s\<lparr>cs_mem := m1\<rparr>, Inr x)" "stack_changed 64 62 (cs_mem s) m1 cpu idx st"
    using pa_pop_cases(2) [OF snoc(2) _ snoc(4) c, of ?h] snoc(3,5) by auto
  have m1': "layout64 m1" "\<forall>t. pm_sched m1 t = cpu" "cpu < pm_ncpu m1" "stack64 m1 cpu idx = st"
    using m1(2) snoc(3,4) c by (auto simp: stack_changed_def)
  have cur: "cur < 512" "cur < 128" using snoc(6) by simp_all
  obtain m' where m': "pc_drain_loop (s\<lparr>cs_mem := m1\<rparr>) (batch[cur := x]) idx (cur + 1) =
      Some (s\<lparr>cs_mem := m'\<rparr>, take (cur + 1) (batch[cur := x]) @ rev st @ drop (cur + 1 + length st) (batch[cur := x]), cur + 1 + length st)"
    "stack_changed 64 62 m1 m' cpu idx []"
    using snoc.IH [of "s\<lparr>cs_mem := m1\<rparr>" "cur + 1" "batch[cur := x]"] m1' snoc(6,7) by auto
  have "pc_drain_loop s batch idx cur = pc_drain_loop (s\<lparr>cs_mem := m1\<rparr>) (batch[cur := x]) idx (cur + 1)"
    using m1(1) cur snoc(7) by (subst pc_drain_loop.simps) (simp add: CAP_def)
  moreover have "take (cur + 1) (batch[cur := x]) = take cur batch @ [x]" using cur snoc(7) by (simp add: take_Suc_conv_app_nth)
  moreover have "drop (cur + 1 + length st) (batch[cur := x]) = drop (cur + length (st @ [x])) batch" by simp
  ultimately show ?case using m' stack_changed_trans [OF m1(2) m'(2)] by (intro exI [of _ m']) simp
qed

text \<open>On an overflow, with the thread still on its CPU, \<open>deallocate\<close> gives the object and all the objects of the full
  stack back to the zone in one batch, and the stack is then empty.\<close>

theorem pc_deallocate_overflow:
  assumes L: "layout64 (cs_mem s)" and c: "\<forall>t. pm_sched (cs_mem s) t = cpu" "cpu < pm_ncpu (cs_mem s)" "idx < 64"
    and k: "get_size_class (lsize l) = Some (Base idx)" and p: "p \<noteq> 0" and st: "stack64 (cs_mem s) cpu idx = st" "length st = 62"
    and z: "za_free_batch Z (cs_zone s) idx (p # rev st @ replicate 449 0) 63 = Some (z', Inr ())"
  shows "\<exists>m'. pc_deallocate Z s p l = Some (s\<lparr>cs_mem := m', cs_zone := z'\<rparr>) \<and> stack_changed 64 62 (cs_mem s) m' cpu idx []"
proof -
  let ?s = "\<lambda>k. s\<lparr>cs_mem := (cs_mem s)\<lparr>pm_time := k\<rparr>\<rparr>" let ?t = "pm_time (cs_mem s)"
  have push: "pa_push s idx p (pc_evict Z idx p) = pc_evict Z idx p cpu (?s (?t + 1))"
    using pa_push_cases(1) [OF L _ c(2,3) p] c(1) st by simp
  let ?b = "(replicate 512 0)[0 := p]"
  obtain m' where m': "pc_drain_loop (?s (?t + 2)) ?b idx 1 = Some ((?s (?t + 2))\<lparr>cs_mem := m'\<rparr>, take 1 ?b @ rev st @ drop (1 + length st) ?b, 1 + length st)"
    "stack_changed 64 62 (cs_mem (?s (?t + 2))) m' cpu idx []"
    using pc_drain_loop_ok [of "?s (?t + 2)" cpu idx st 1 ?b] L c st by auto
  have "take 1 ?b @ rev st @ drop (1 + length st) ?b = p # rev st @ replicate 449 0" using st(2) by (simp add: drop_update_cancel take_Suc_conv_app_nth)
  then have "pc_evict Z idx p cpu (?s (?t + 1)) = Some (s\<lparr>cs_mem := m', cs_zone := z'\<rparr>, Inr ())"
    using m'(1) st(2) z c(1) by (simp add: pc_evict_def pm_here_def CAP_def)
  then show ?thesis using push k m'(2) stack_changed_time [of 64 62 _ "cs_mem s"] by (intro exI [of _ m']) (simp add: pc_deallocate_def)
qed

section \<open>A concrete array\<close>

text \<open>One CPU, with \<open>cnt cl\<close> objects in class \<open>cl\<close> and \<open>slot i\<close> in slot \<open>i\<close>. The thread moves to CPU \<open>later\<close> after its first point.\<close>

definition built_header :: "nat \<Rightarrow> nat \<Rightarrow> (nat \<Rightarrow> nat) \<Rightarrow> nat \<Rightarrow> nat" where
  "built_header n cap cnt cl = (let f = first_slot n cap cl in hdr_into (hdr_new (f + cnt cl) (f + cap) f (f + cap)))"

definition built_mem :: "nat \<Rightarrow> nat \<Rightarrow> (nat \<Rightarrow> nat) \<Rightarrow> (nat \<Rightarrow> nat) \<Rightarrow> nat \<Rightarrow> percpu_mem" where
  "built_mem n cap cnt slot later = \<lparr>pm_base = 0x100000, pm_ncpu = 1, pm_word = (\<lambda>i. if i < n then built_header n cap cnt i else slot i),
     pm_sched = (\<lambda>t. if t = 0 then 0 else later), pm_time = 0\<rparr>"

lemma built_ok:
  assumes n: "2 \<le> n" "first_slot n cap n \<le> REGION" and cnt: "\<And>cl. cl < n \<Longrightarrow> cnt cl \<le> cap"
  shows built_layout: "pm_layout n cap (built_mem n cap cnt slot later)"
    and built_stack: "cl < n \<Longrightarrow> cpu_stack n cap (built_mem n cap cnt slot later) 0 cl = map (\<lambda>j. slot (first_slot n cap cl + j)) [0..<cnt cl]"
proof -
  let ?m = "built_mem n cap cnt slot later"
  have h: "hdr_at ?m 0 cl = built_header n cap cnt cl" if "cl < n" for cl using that by (simp add: hdr_at_def built_mem_def loc_def)
  have f: "halfword (built_header n cap cnt cl) 0 = first_slot n cap cl + cnt cl" "halfword (built_header n cap cnt cl) 2 = first_slot n cap cl"
    "halfword (built_header n cap cnt cl) 3 = first_slot n cap cl + cap" if cl: "cl < n" for cl
  proof -
    let ?h = "hdr_new (first_slot n cap cl + cnt cl) (first_slot n cap cl + cap) (first_slot n cap cl) (first_slot n cap cl + cap)"
    have fits: "hdr_fits ?h" by (simp add: hdr_fits_def hdr_new_def)
    have "first_slot n cap cl + cap < 2 ^ 16" using first_slot_end [OF cl, of cap] n(2) by (simp add: REGION_val)
    then show "halfword (built_header n cap cnt cl) 0 = first_slot n cap cl + cnt cl" "halfword (built_header n cap cnt cl) 2 = first_slot n cap cl"
      "halfword (built_header n cap cnt cl) 3 = first_slot n cap cl + cap"
      using halfword_sum [OF _ _ _ _ hdr_into_sum [OF fits]] cnt [OF cl] by (simp_all add: built_header_def hdr_new_def Let_def)
  qed
  have "pm_ncpu ?m = 1" by (simp add: built_mem_def)
  then show "pm_layout n cap ?m" using f n cnt by (simp add: pm_layout_def h)
  show "cpu_stack n cap ?m 0 cl = map (\<lambda>j. slot (first_slot n cap cl + j)) [0..<cnt cl]" if cl: "cl < n"
  proof -
    have "pm_word ?m (loc 0 (first_slot n cap cl + j)) = slot (first_slot n cap cl + j)" for j by (simp add: built_mem_def loc_def first_slot_def)
    then show ?thesis using f(1) [OF cl] by (simp add: cpu_stack_def h [OF cl])
  qed
qed

text \<open>Class 1 of 64 has \<open>k\<close> objects, and each slot holds its own number.\<close>

definition demo_percpu :: "nat \<Rightarrow> nat \<Rightarrow> percpu_mem" where
  "demo_percpu k later = built_mem 64 62 (\<lambda>cl. if cl = 1 then k else 0) (\<lambda>i. i) later"

lemma demo_percpu_layout: "k \<le> 62 \<Longrightarrow> layout64 (demo_percpu k later)"
  unfolding demo_percpu_def by (rule built_layout) (simp_all add: capacity_val)

lemma demo_percpu_stack:
  assumes "k \<le> 62" "cl < 64"
  shows "stack64 (demo_percpu k later) 0 cl = (if cl = 1 then map (\<lambda>j. 126 + j) [0..<k] else [])"
  unfolding demo_percpu_def by (subst built_stack) (use assms in \<open>simp_all add: capacity_val first_slot_def REGION_val\<close>)

lemma demo_percpu_points: "pm_sched (demo_percpu k later) (pm_time (demo_percpu k later)) = 0" "0 < pm_ncpu (demo_percpu k later)"
  "pm_sched (demo_percpu k 0) t = 0" "pm_sched (demo_percpu k later) (pm_time (demo_percpu k later) + 1) = later"
  "pm_ncpu (demo_percpu k later) = 1"
  by (simp_all add: demo_percpu_def built_mem_def)

lemma class_8: "get_size_class 8 = Some (Base 1)"
  by (simp add: get_size_class_def get_sizeclass_tuple2_def IDX_ARRAY_def TC_SIZE_ARRAY_def wshr_def aget_def drop_bit_eq_div)

definition demo_layout8 :: layout where "demo_layout8 = \<lparr>lsize = 8, lalign = 8\<rparr>"

text \<open>A zone that gives the batch it is asked for from 0x7f0000000000 on, and takes everything back.\<close>

definition demo_zone :: "nat zone_api" where
  "demo_zone = \<lparr>za_batch = (\<lambda>z idx arr n. Some (z, 0x7f0000000000 # map (\<lambda>i. 0x7f0000000000 + 8 * i) [1..<length arr], Inr 0x7f0000000000)),
     za_free_batch = (\<lambda>z idx arr n. Some (z + n, Inr ())), za_slab = (\<lambda>z idx algn. Some (z, Inl ENOMEM)),
     za_alloc = (\<lambda>z sz algn. Some (z, Inl ENOMEM)), za_dealloc = (\<lambda>z p sz. Some z)\<rparr>"

theorem flat_header_roundtrip_witness: "hdr_from (hdr_into locked_header) = locked_header \<and> hdr_into (hdr_from 0x0067004500230012) = 0x0067004500230012"
  using flat_header_roundtrip [of locked_header "0x0067004500230012"] by (simp add: hdr_fits_def locked_header_def)

definition demo_cpu_state :: "nat \<Rightarrow> nat \<Rightarrow> nat cpu_state" where
  "demo_cpu_state k later = \<lparr>cs_mem = demo_percpu k later, cs_zone = 0\<rparr>"

lemma demo_cpu_fields: "cs_mem (demo_cpu_state k later) = demo_percpu k later" "cs_zone (demo_cpu_state k later) = 0"
  by (simp_all add: demo_cpu_state_def)

theorem pc_allocate_hit_witness:
  "\<exists>m'. pc_allocate demo_zone (demo_cpu_state 2 0) demo_layout8 = Some ((demo_cpu_state 2 0)\<lparr>cs_mem := m'\<rparr>, Inr 127)
     \<and> stack_changed 64 62 (demo_percpu 2 0) m' 0 1 [126]"
  using pc_allocate_hit [of "demo_cpu_state 2 0" 0 1 demo_layout8 "[126]" 127 demo_zone] class_8
  by (simp add: demo_cpu_fields demo_percpu_layout demo_percpu_points demo_percpu_stack demo_layout8_def upt_rec)

theorem pc_allocate_refill_crash_witness: "pc_allocate demo_zone (demo_cpu_state 0 0) demo_layout8 = None"
proof (rule pc_allocate_refill_crash [where cpu = 0 and idx = 1])
  show "za_batch demo_zone (cs_zone (demo_cpu_state 0 0)) 1 (replicate 512 0) CAP
    = Some (0, 0x7f0000000000 # map (\<lambda>i. 0x7f0000000000 + 8 * i) [1..<512], Inr 0x7f0000000000)"
    by (simp only: demo_zone_def zone_api.simps demo_cpu_fields length_replicate)
qed (use class_8 in \<open>simp_all add: demo_cpu_fields demo_percpu_layout demo_percpu_points demo_percpu_stack demo_layout8_def REGION_val\<close>)

theorem pc_deallocate_loses_object_witness:
  "pc_deallocate demo_zone (demo_cpu_state 62 5) 0x7f0000000000 demo_layout8 =
     Some ((demo_cpu_state 62 5)\<lparr>cs_mem := (demo_percpu 62 5)\<lparr>pm_time := 2\<rparr>\<rparr>)"
proof -
  have "pm_time (demo_percpu 62 5) = 0" "pm_sched (demo_percpu 62 5) 0 = 0" by (simp_all add: demo_percpu_def built_mem_def)
  then show ?thesis
    using pc_deallocate_loses_object [of "demo_cpu_state 62 5" 0 1 demo_layout8 "0x7f0000000000" demo_zone] class_8 demo_percpu_points(4) [of 62 5]
    by (simp add: demo_cpu_fields demo_percpu_layout demo_percpu_points demo_percpu_stack demo_layout8_def numeral_2_eq_2)
qed

theorem pc_deallocate_overflow_witness:
  "\<exists>m'. pc_deallocate demo_zone (demo_cpu_state 62 0) 0x7f0000000000 demo_layout8 = Some ((demo_cpu_state 62 0)\<lparr>cs_mem := m', cs_zone := 63\<rparr>)
     \<and> stack_changed 64 62 (demo_percpu 62 0) m' 0 1 []"
  using pc_deallocate_overflow [of "demo_cpu_state 62 0" 0 1 demo_layout8 "0x7f0000000000" "map (\<lambda>j. 126 + j) [0..<62]" demo_zone 63] class_8
  by (simp add: demo_cpu_fields demo_percpu_layout demo_percpu_points demo_percpu_stack demo_layout8_def demo_zone_def)

end
