(* ===== verification/CpuCache.thy ===== *)
theory CpuCache
  imports FreeList PerCpu
begin

text \<open>
  The per-CPU cache of \<open>cache/cpu_cache.rs\<close>: 63 classes of 500 slots in the region of each CPU, over the restartable
  sequences of \<open>PerCpu\<close>, whose instructions the two files share. The zone is the parameter described there.
\<close>

section \<open>Headers and slabs\<close>

definition CC_NUM_CLASSES :: nat where "CC_NUM_CLASSES = 63"

definition CC_HDR_SIZE :: nat where "CC_HDR_SIZE = 8 * CC_NUM_CLASSES"

definition CWND :: nat where "CWND = 64"

type_synonym cc_header = flat_header

definition cch_new :: "nat \<Rightarrow> nat \<Rightarrow> nat \<Rightarrow> nat \<Rightarrow> cc_header" where
  "cch_new current end_copy begin fin = \<lparr>fh_current = current mod 2 ^ 16, fh_end_copy = end_copy mod 2 ^ 16,
     fh_begin = begin mod 2 ^ 16, fh_end = fin mod 2 ^ 16\<rparr>"

definition cch_is_locked :: "cc_header \<Rightarrow> bool" where
  "cch_is_locked h \<longleftrightarrow> fh_begin h = 0xffff"

definition cch_lock :: "cc_header \<Rightarrow> cc_header" where
  "cch_lock h = h\<lparr>fh_begin := 0xffff, fh_end := 0\<rparr>"

definition cch_locked_header :: cc_header where
  "cch_locked_header = \<lparr>fh_current = 0, fh_end_copy = 0, fh_begin = 0xffff, fh_end = 0\<rparr>"

definition cch_inner_values :: "cc_header \<Rightarrow> nat \<times> nat \<times> nat \<times> nat" where
  "cch_inner_values h = (fh_current h, fh_end_copy h, fh_begin h, fh_end h)"

definition cch_from :: "nat \<Rightarrow> cc_header" where
  "cch_from hdr = (let current = hdr AND 0xffff; end_copy = wshr hdr 16 AND 0xffff;
      begin = wshr hdr 32 AND 0xffff; fin = wshr hdr 48 AND 0xffff
    in \<lparr>fh_current = current mod 2 ^ 16, fh_end_copy = end_copy mod 2 ^ 16, fh_begin = begin mod 2 ^ 16, fh_end = fin mod 2 ^ 16\<rparr>)"

definition cch_into :: "cc_header \<Rightarrow> nat" where
  "cch_into hdr = (let res = 0; res = wadd res (wshl (fh_end hdr) 48); res = wadd res (wshl (fh_begin hdr) 32);
      res = wadd res (wshl (fh_end_copy hdr) 16) in wadd res (fh_current hdr))"

definition ccs_new :: "nat \<Rightarrow> nat \<Rightarrow> (nat \<Rightarrow> nat) \<Rightarrow> percpu_mem" where
  "ccs_new base ncpu sched = \<lparr>pm_base = base, pm_ncpu = ncpu, pm_word = (\<lambda>_. 0), pm_sched = sched, pm_time = 0\<rparr>"

definition ccs_get_capacity :: "nat \<Rightarrow> nat" where
  "ccs_get_capacity cl = 500"

text \<open>The two loops of \<open>init_cpu\<close>: a locked header panics; the second returns the bytes used.\<close>

fun ccs_lock_loop :: "nat list \<Rightarrow> nat \<Rightarrow> percpu_mem \<Rightarrow> percpu_mem option" where
  "ccs_lock_loop [] cpu m = Some m"
| "ccs_lock_loop (cl # cls) cpu m = do {
     w \<leftarrow> pm_read m (cpu * REGION + cl);
     let hdr = cch_from w;
     ensure (\<not> cch_is_locked hdr);
     m \<leftarrow> pm_write m (cpu * REGION + cl) (cch_into (cch_lock hdr));
     ccs_lock_loop cls cpu m }"

fun ccs_slot_loop :: "nat list \<Rightarrow> nat \<Rightarrow> nat \<Rightarrow> percpu_mem \<Rightarrow> (percpu_mem \<times> nat) option" where
  "ccs_slot_loop [] cpu byte_used m = Some (m, byte_used)"
| "ccs_slot_loop (cl # cls) cpu byte_used m = do {
     let current_addr = pm_base m + cpu * 2 ^ SHIFT + byte_used;
     let cap = ccs_get_capacity cl;
     m \<leftarrow> (if cap \<noteq> 0 then pm_write m (cpu * REGION + byte_used div 8) current_addr else Some m);
     let offset = byte_used div 8;
     let byte_used = byte_used + cap * 8;
     m \<leftarrow> pm_write m (cpu * REGION + cl) (cch_into (cch_new offset (offset + cap) offset (offset + cap)));
     ccs_slot_loop cls cpu byte_used m }"

definition ccs_init_cpu :: "percpu_mem \<Rightarrow> nat \<Rightarrow> percpu_mem option" where
  "ccs_init_cpu m cpu = do {
     m \<leftarrow> ccs_lock_loop [0..<CC_NUM_CLASSES] cpu m;
     (m, byte_used) \<leftarrow> ccs_slot_loop [0..<CC_NUM_CLASSES] cpu CC_HDR_SIZE m;
     ensure (byte_used \<le> 2 ^ SHIFT);
     Some m }"

fun ccs_init_loop :: "nat list \<Rightarrow> percpu_mem \<Rightarrow> percpu_mem option" where
  "ccs_init_loop [] m = Some m"
| "ccs_init_loop (i # is) m = do { m \<leftarrow> ccs_init_cpu m i; ccs_init_loop is m }"

definition ccs_init :: "percpu_mem \<Rightarrow> percpu_mem option" where
  "ccs_init m = ccs_init_loop [0..<pm_ncpu m] m"

section \<open>Push and pop\<close>

text \<open>\<open>Err\<close> holds the number of the CPU.\<close>

definition ccs_pop :: "percpu_mem \<Rightarrow> nat \<Rightarrow> (percpu_mem \<times> (nat + nat)) option" where
  "ccs_pop m cl = do {
     let (cpu, m) = pm_here m;
     (m, before, current, res) \<leftarrow> rseq_pop_tx m cpu cl;
     if current + 1 \<noteq> before then do { ensure (cpu \<le> pm_ncpu m); Some (m, Inl cpu) }
     else do { r \<leftarrow> res; ensure (r \<noteq> 0); Some (m, Inr r) } }"

definition ccs_push :: "percpu_mem \<Rightarrow> nat \<Rightarrow> nat \<Rightarrow> (percpu_mem \<times> (nat + unit)) option" where
  "ccs_push m ptr cl = do {
     let (cpu, m) = pm_here m;
     (m, before, r11) \<leftarrow> rseq_push_tx m cpu cl ptr;
     if r11 = before + 1 then do { ensure (ptr \<noteq> 0); Some (m, Inr ()) }
     else Some (m, Inl cpu) }"

text \<open>\<open>start\<close> is \<open>start_idx\<close>.\<close>

function push_batch_loop :: "percpu_mem \<Rightarrow> nat list \<Rightarrow> nat \<Rightarrow> nat \<Rightarrow> nat \<Rightarrow> nat \<Rightarrow> (percpu_mem \<times> nat) option" where
  "push_batch_loop m batch cl len start n =
     (if n < len then do {
        ptr \<leftarrow> aget batch (n - start);
        (m, res) \<leftarrow> ccs_push m ptr cl;
        (case res of Inr u \<Rightarrow> push_batch_loop m batch cl len start (n + 1) | Inl cpu \<Rightarrow> Some (m, n)) }
      else Some (m, n))"
  by auto
termination by (relation "measure (\<lambda>(m, b, c, len, s, n). len - n)") auto

declare push_batch_loop.simps [simp del]

definition push_batch :: "percpu_mem \<Rightarrow> nat list \<Rightarrow> nat \<Rightarrow> nat \<Rightarrow> nat \<Rightarrow> (percpu_mem \<times> nat) option" where
  "push_batch m batch cl len start = push_batch_loop m batch cl len start start"

function pop_batch_loop :: "percpu_mem \<Rightarrow> nat list \<Rightarrow> nat \<Rightarrow> nat \<Rightarrow> nat \<Rightarrow> (percpu_mem \<times> nat list \<times> nat) option" where
  "pop_batch_loop m batch cl len n =
     (if n < len then do {
        (m, ptr) \<leftarrow> ccs_pop m cl;
        (case ptr of
           Inr p \<Rightarrow> do { batch \<leftarrow> aset batch n p; pop_batch_loop m batch cl len (n + 1) }
         | Inl cpu \<Rightarrow> Some (m, batch, n)) }
      else Some (m, batch, n))"
  by auto
termination by (relation "measure (\<lambda>(m, b, c, len, n). len - n)") auto

declare pop_batch_loop.simps [simp del]

definition pop_batch :: "percpu_mem \<Rightarrow> nat list \<Rightarrow> nat \<Rightarrow> nat \<Rightarrow> nat \<Rightarrow> (percpu_mem \<times> nat list \<times> nat) option" where
  "pop_batch m batch cl len start = pop_batch_loop m batch cl len start"

section \<open>Allocation\<close>

definition cc_alloc_from_zone :: "'z zone_api \<Rightarrow> 'z cpu_state \<Rightarrow> nat \<Rightarrow> nat \<Rightarrow> ('z cpu_state \<times> (alloc_error + nat)) option" where
  "cc_alloc_from_zone Z s sz algn = do {
     (z, r) \<leftarrow> za_alloc Z (cs_zone s) sz algn;
     Some (s\<lparr>cs_zone := z\<rparr>, r) }"

definition cc_dealloc_to_zone :: "'z zone_api \<Rightarrow> 'z cpu_state \<Rightarrow> nat \<Rightarrow> nat \<Rightarrow> 'z cpu_state option" where
  "cc_dealloc_to_zone Z s ptr sz = do {
     z \<leftarrow> za_dealloc Z (cs_zone s) ptr sz;
     Some (s\<lparr>cs_zone := z\<rparr>) }"

text \<open>The call of \<open>deallocate_batch_to_slab\<close> with its \<open>expect\<close>.\<close>

definition cc_give_back :: "'z zone_api \<Rightarrow> 'z cpu_state \<Rightarrow> nat \<Rightarrow> nat list \<Rightarrow> nat \<Rightarrow> 'z cpu_state option" where
  "cc_give_back Z s idx batch count = do {
     (z, r) \<leftarrow> za_free_batch Z (cs_zone s) idx batch count;
     u \<leftarrow> unwrap r;
     Some (s\<lparr>cs_zone := z\<rparr>) }"

definition refill_cache :: "'z zone_api \<Rightarrow> 'z cpu_state \<Rightarrow> nat \<Rightarrow> nat \<Rightarrow> ('z cpu_state \<times> nat option) option" where
  "refill_cache Z s cpu idx = do {
     let batch_size = CWND;
     let (here, m) = pm_here (cs_mem s);
     let s = s\<lparr>cs_mem := m\<rparr>;
     if here = cpu then do {
       (z, batch, ans) \<leftarrow> za_batch Z (cs_zone s) idx (replicate 512 0) batch_size;
       let s = s\<lparr>cs_zone := z\<rparr>;
       (case ans of
          Inr p \<Rightarrow> do {
            (m, n) \<leftarrow> push_batch (cs_mem s) batch idx batch_size 1;
            let s = s\<lparr>cs_mem := m\<rparr>;
            s \<leftarrow> (if n < batch_size then cc_give_back Z s idx (drop n batch) (batch_size - n) else Some s);
            b \<leftarrow> aget batch 0;
            Some (s, Some b) }
        | Inl e \<Rightarrow> Some (s, None)) }
     else Some (s, None) }"

definition evict_cache :: "'z zone_api \<Rightarrow> 'z cpu_state \<Rightarrow> nat \<Rightarrow> nat \<Rightarrow> nat \<Rightarrow> ('z cpu_state \<times> unit option) option" where
  "evict_cache Z s ptr cpu idx = do {
     let batch_size = CWND;
     let (here, m) = pm_here (cs_mem s);
     let s = s\<lparr>cs_mem := m\<rparr>;
     if here = cpu then do {
       (m, batch, n) \<leftarrow> pop_batch (cs_mem s) ((replicate 512 0)[0 := ptr]) idx (batch_size - 1) 1;
       s \<leftarrow> cc_give_back Z (s\<lparr>cs_mem := m\<rparr>) idx batch n;
       Some (s, Some ()) }
     else Some (s, None) }"

definition cc_deallocate :: "'z zone_api \<Rightarrow> 'z cpu_state \<Rightarrow> nat \<Rightarrow> layout \<Rightarrow> 'z cpu_state option" where
  "cc_deallocate Z s ptr l = do {
     cls \<leftarrow> get_size_class (lsize l);
     (case cls of
        Base idx \<Rightarrow> do {
          (m, result) \<leftarrow> ccs_push (cs_mem s) ptr idx;
          let s = s\<lparr>cs_mem := m\<rparr>;
          (case result of
             Inl cpu \<Rightarrow> do {
               (s, evict_res) \<leftarrow> evict_cache Z s ptr cpu idx;
               if evict_res = None then cc_dealloc_to_zone Z s ptr (lsize l) else Some s }
           | Inr u \<Rightarrow> Some s) }
      | Large sz \<Rightarrow> cc_dealloc_to_zone Z s ptr (lsize l)) }"

definition cc_allocate :: "'z zone_api \<Rightarrow> 'z cpu_state \<Rightarrow> layout \<Rightarrow> ('z cpu_state \<times> (alloc_error + nat)) option" where
  "cc_allocate Z s l = do {
     cls \<leftarrow> get_size_class (lsize l);
     let algn = lalign l;
     (case cls of
        Base idx \<Rightarrow> do {
          (m, result) \<leftarrow> ccs_pop (cs_mem s) idx;
          let s = s\<lparr>cs_mem := m\<rparr>;
          (case result of
             Inl cpu \<Rightarrow> do {
               (s, r) \<leftarrow> refill_cache Z s cpu idx;
               (case r of
                  Some ptr \<Rightarrow> do { ensure (ptr \<noteq> 0); Some (s, Inr ptr) }
                | None \<Rightarrow> cc_alloc_from_zone Z s (lsize l) algn) }
           | Inr inner_ptr \<Rightarrow>
               if inner_ptr AND (algn - 1) \<noteq> 0 then do {
                 s \<leftarrow> cc_deallocate Z s inner_ptr l;
                 cc_alloc_from_zone Z s (lsize l) algn }
               else Some (s, Inr inner_ptr)) }
      | Large sz \<Rightarrow> cc_alloc_from_zone Z s (lsize l) algn) }"

section \<open>The global cache\<close>

text \<open>
  \<open>GLOBAL_CCACHE\<close>: the first use takes the slabs from the backend and initialises them; what the fresh memory holds is
  the parameter \<open>words\<close>. No other thread creates the cache at the same time. \<open>api\<close> is \<open>GlobalAlloc\<close> and \<open>Allocator\<close> of \<open>CpuCache\<close>.
\<close>

record 'z global_ccache =
  gc_state :: "'z cpu_state option"
  gc_zone :: 'z
  gc_backend :: free_list

definition cc_global :: "nat \<Rightarrow> (nat \<Rightarrow> nat) \<Rightarrow> (nat \<Rightarrow> nat) \<Rightarrow> 'z global_ccache \<Rightarrow> ('z global_ccache \<times> 'z cpu_state) option" where
  "cc_global ncpu sched words g = (case gc_state g of
       Some s \<Rightarrow> Some (g, s)
     | None \<Rightarrow> do {
         (b, init_ptr) \<leftarrow> bsa_alloc (gc_backend g) \<lparr>lsize = ncpu * 2 ^ SHIFT, lalign = 16\<rparr>;
         ensure (init_ptr \<noteq> 0);
         m \<leftarrow> ccs_init \<lparr>pm_base = init_ptr, pm_ncpu = ncpu, pm_word = words, pm_sched = sched, pm_time = 0\<rparr>;
         let s = \<lparr>cs_mem = m, cs_zone = gc_zone g\<rparr>;
         Some (g\<lparr>gc_backend := b, gc_state := Some s\<rparr>, s) })"

definition cc_api_alloc :: "'z zone_api \<Rightarrow> nat \<Rightarrow> (nat \<Rightarrow> nat) \<Rightarrow> (nat \<Rightarrow> nat) \<Rightarrow> 'z global_ccache \<Rightarrow> layout \<Rightarrow> ('z global_ccache \<times> nat) option" where
  "cc_api_alloc Z ncpu sched words g l = do {
     (g, s) \<leftarrow> cc_global ncpu sched words g;
     (s, r) \<leftarrow> cc_allocate Z s l;
     Some (g\<lparr>gc_state := Some s\<rparr>, case r of Inr p \<Rightarrow> p | Inl e \<Rightarrow> 0) }"

definition cc_api_dealloc :: "'z zone_api \<Rightarrow> nat \<Rightarrow> (nat \<Rightarrow> nat) \<Rightarrow> (nat \<Rightarrow> nat) \<Rightarrow> 'z global_ccache \<Rightarrow> nat \<Rightarrow> layout \<Rightarrow> 'z global_ccache option" where
  "cc_api_dealloc Z ncpu sched words g ptr l = do {
     ensure (ptr \<noteq> 0);
     (g, s) \<leftarrow> cc_global ncpu sched words g;
     s \<leftarrow> cc_deallocate Z s ptr l;
     Some (g\<lparr>gc_state := Some s\<rparr>) }"

definition cc_api_allocate :: "'z zone_api \<Rightarrow> nat \<Rightarrow> (nat \<Rightarrow> nat) \<Rightarrow> (nat \<Rightarrow> nat) \<Rightarrow> 'z global_ccache \<Rightarrow> layout \<Rightarrow> ('z global_ccache \<times> nat \<times> nat) option" where
  "cc_api_allocate Z ncpu sched words g l = do {
     (g, p) \<leftarrow> cc_api_alloc Z ncpu sched words g l;
     ensure (p \<noteq> 0);
     Some (g, p, lsize l) }"

definition cc_api_deallocate :: "'z zone_api \<Rightarrow> nat \<Rightarrow> (nat \<Rightarrow> nat) \<Rightarrow> (nat \<Rightarrow> nat) \<Rightarrow> 'z global_ccache \<Rightarrow> nat \<Rightarrow> layout \<Rightarrow> 'z global_ccache option" where
  "cc_api_deallocate Z ncpu sched words g ptr l = do {
     (g, s) \<leftarrow> cc_global ncpu sched words g;
     s \<leftarrow> cc_deallocate Z s ptr l;
     Some (g\<lparr>gc_state := Some s\<rparr>) }"

section \<open>Initialisation\<close>

lemma cch_eqs [simp]: "cch_from = hdr_from" "cch_into = hdr_into" "cch_new = hdr_new" "cch_lock = hdr_lock" "cch_is_locked = hdr_is_locked"
  by (simp_all add: fun_eq_iff cch_from_def hdr_from_def cch_into_def hdr_into_def cch_new_def hdr_new_def cch_lock_def hdr_lock_def
    cch_is_locked_def hdr_is_locked_def)

lemma ccs_slot_loop_eq:
  "ccs_slot_loop cls cpu bu m = map_option (\<lambda>m'. (m', bu + length cls * 4000)) (init_headers cls cpu 500 bu m)"
proof (induction cls arbitrary: bu m)
  case (Cons cl cls)
  show ?case
    by (cases "pm_write m (cpu * REGION + bu div 8) (pm_base m + cpu * 2 ^ SHIFT + bu)"; cases "pm_write (the (pm_write m (cpu * REGION + bu div 8)
      (pm_base m + cpu * 2 ^ SHIFT + bu))) (cpu * REGION + cl) (hdr_into (hdr_new (bu div 8) (bu div 8 + 500) (bu div 8) (bu div 8 + 500)))")
      (simp_all add: ccs_get_capacity_def Let_def Cons.IH add.assoc)
qed simp

definition cpu_unlocked :: "percpu_mem \<Rightarrow> nat \<Rightarrow> bool" where
  "cpu_unlocked m cpu \<longleftrightarrow> (\<forall>cl < 63. halfword (hdr_at m cpu cl) 2 \<noteq> 0xffff)"

lemma ccs_lock_loop_ok:
  assumes c: "cpu < pm_ncpu m" and i: "\<forall>i \<in> set is. i < REGION \<and> halfword (hdr_at m cpu i) 2 \<noteq> 0xffff" "distinct is"
  shows "\<exists>m'. ccs_lock_loop is cpu m = Some m' \<and> mem_frame m m' \<and> other_cpus cpu m m'"
  using assms
proof (induction "is" arbitrary: m)
  case (Cons a "is")
  let ?m1 = "m\<lparr>pm_word := (pm_word m)(loc cpu a := hdr_into (hdr_lock (hdr_from (pm_word m (loc cpu a)))))\<rparr>"
  have a: "a < REGION" "halfword (hdr_at m cpu a) 2 \<noteq> 0xffff" using Cons.prems by simp_all
  have fr: "mem_frame m ?m1" "other_cpus cpu m ?m1" using frame_write [OF a(1)] by simp_all
  have c1: "cpu < pm_ncpu ?m1" using Cons.prems(1) by simp
  have "hdr_at ?m1 cpu i = hdr_at m cpu i" if "i \<in> set is" for i
    using that Cons.prems(2,3) loc_eq [of i a cpu cpu] a(1) by (auto simp: hdr_at_def)
  then obtain m' where m': "ccs_lock_loop is cpu ?m1 = Some m'" "mem_frame ?m1 m'" "other_cpus cpu ?m1 m'"
    using Cons.IH [OF c1] Cons.prems(2,3) by auto
  then have "ccs_lock_loop (a # is) cpu m = Some m'"
    using pm_read_loc [OF Cons.prems(1) a(1)] pm_write_loc [OF Cons.prems(1) a(1)] a(2)
    by (simp add: loc_def hdr_is_locked_def hdr_from_fields hdr_at_def)
  then show ?case using m' frame_trans(1) [OF fr(1) m'(2)] frame_trans(2) [OF fr(2) m'(3)] by blast
qed simp

lemma cc_capacity: "CC_HDR_SIZE = 8 * first_slot 63 500 0" "first_slot 63 500 63 \<le> REGION" "CC_NUM_CLASSES = 63"
  "CC_HDR_SIZE + 63 * 4000 \<le> 2 ^ SHIFT"
  by (simp_all add: CC_HDR_SIZE_def CC_NUM_CLASSES_def first_slot_def REGION_val SHIFT_def)

lemma ccs_init_cpu_ok:
  assumes c: "cpu < pm_ncpu m" and u: "cpu_unlocked m cpu"
  shows "\<exists>m'. ccs_init_cpu m cpu = Some m' \<and> mem_frame m m' \<and> other_cpus cpu m m' \<and> cpu_inited 63 500 m' cpu"
proof -
  have "\<forall>i \<in> set [0..<63]. i < REGION \<and> halfword (hdr_at m cpu i) 2 \<noteq> 0xffff" using u by (auto simp: cpu_unlocked_def REGION_val)
  then obtain m1 where m1: "ccs_lock_loop [0..<63] cpu m = Some m1" "mem_frame m m1" "other_cpus cpu m m1"
    using ccs_lock_loop_ok [OF c, of "[0..<63]"] by (auto simp del: upt_rec_numeral)
  have c1: "cpu < pm_ncpu m1" using m1(2) c by (simp add: mem_frame_def)
  obtain m2 where m2: "init_headers [0..<63] cpu 500 (8 * first_slot 63 500 0) m1 = Some m2" "mem_frame m1 m2" "other_cpus cpu m1 m2"
    "\<forall>cl < 63. hdr_at m2 cpu cl = first_header 63 500 cl"
    using init_headers_ok [OF _ cc_capacity(2) c1, of 0] by auto
  have "ccs_slot_loop [0..<63] cpu CC_HDR_SIZE m1 = Some (m2, CC_HDR_SIZE + 63 * 4000)"
    unfolding ccs_slot_loop_eq using m2(1) by (simp add: cc_capacity(1) del: upt_rec_numeral)
  then have "ccs_init_cpu m cpu = Some m2" using m1(1) cc_capacity(4) by (simp add: ccs_init_cpu_def cc_capacity(3) del: upt_rec_numeral)
  then show ?thesis using m2(4) frame_trans(1) [OF m1(2) m2(2)] frame_trans(2) [OF m1(3) m2(3)] by (simp add: cpu_inited_def)
qed

lemma ccs_init_loop_ok:
  assumes "distinct cs" and "\<forall>c \<in> set cs. c < pm_ncpu m \<and> cpu_unlocked m c"
  shows "\<exists>m'. ccs_init_loop cs m = Some m' \<and> mem_frame m m' \<and> (\<forall>c \<in> set cs. cpu_inited 63 500 m' c)
    \<and> (\<forall>c. c \<notin> set cs \<longrightarrow> cpu_inited 63 500 m c \<longrightarrow> cpu_inited 63 500 m' c)"
  using assms
proof (induction cs arbitrary: m)
  case (Cons a cs)
  obtain m1 where m1: "ccs_init_cpu m a = Some m1" "mem_frame m m1" "other_cpus a m m1" "cpu_inited 63 500 m1 a"
    using ccs_init_cpu_ok [of a m] Cons.prems(2) by auto
  have h: "hdr_at m1 c cl = hdr_at m c cl" if "c \<noteq> a" "cl < 63" for c cl using m1(3) that by (simp add: other_cpus_def hdr_at_def REGION_val)
  then have "cpu_unlocked m1 c = cpu_unlocked m c" if "c \<noteq> a" for c using that by (simp add: cpu_unlocked_def)
  then have "c < pm_ncpu m1 \<and> cpu_unlocked m1 c" if "c \<in> set cs" for c
  proof -
    have "c \<noteq> a" using that Cons.prems(1) by auto
    then show ?thesis using that Cons.prems(2) m1(2) \<open>\<And>c. c \<noteq> a \<Longrightarrow> cpu_unlocked m1 c = cpu_unlocked m c\<close> by (simp add: mem_frame_def)
  qed
  then obtain m2 where m2: "ccs_init_loop cs m1 = Some m2" "mem_frame m1 m2" "\<forall>c \<in> set cs. cpu_inited 63 500 m2 c"
    "\<forall>c. c \<notin> set cs \<longrightarrow> cpu_inited 63 500 m1 c \<longrightarrow> cpu_inited 63 500 m2 c"
    using Cons.IH [of m1] Cons.prems(1) by auto
  have "cpu_inited 63 500 m1 c" if "c \<noteq> a" "cpu_inited 63 500 m c" for c
    using inited_kept [OF m1(3) that(1) _ that(2)] by (simp add: REGION_val)
  then show ?case using m1(1,4) m2 frame_trans(1) [OF m1(2) m2(2)] Cons.prems(1) by (intro exI [of _ m2]) auto
qed simp

abbreviation cc_layout :: "percpu_mem \<Rightarrow> bool" where
  "cc_layout m \<equiv> pm_layout 63 500 m"

abbreviation cc_stack :: "percpu_mem \<Rightarrow> nat \<Rightarrow> nat \<Rightarrow> nat list" where
  "cc_stack m cpu cl \<equiv> cpu_stack 63 500 m cpu cl"

lemma ccs_init_fresh:
  assumes "\<forall>c < pm_ncpu m. cpu_unlocked m c"
  shows "\<exists>m'. ccs_init m = Some m' \<and> mem_frame m m' \<and> cc_layout m' \<and> (\<forall>cpu < pm_ncpu m. \<forall>cl < 63. cc_stack m' cpu cl = [])"
proof -
  obtain m' where m': "ccs_init_loop [0..<pm_ncpu m] m = Some m'" "mem_frame m m'" "\<forall>c < pm_ncpu m. cpu_inited 63 500 m' c"
    using ccs_init_loop_ok [of "[0..<pm_ncpu m]" m] assms by auto
  then have i: "\<forall>c < pm_ncpu m'. cpu_inited 63 500 m' c" by (simp add: mem_frame_def)
  show ?thesis using m' inited_layout [OF i _ cc_capacity(2)] by (auto simp: ccs_init_def mem_frame_def)
qed

text \<open>\<open>init\<close> on memory with no locked header gives each of the 63 classes of each CPU 500 slots of its own, all of them
  within the region (so the assertion at its end holds), and every stack is empty. The memory that the backend hands
  out for the cache may hold anything; a word whose third field is 0xffff makes it panic.\<close>

theorem ccs_init_layout:
  assumes "\<forall>c < pm_ncpu m. cpu_unlocked m c"
  shows "\<exists>m'. ccs_init m = Some m' \<and> mem_frame m m' \<and> cc_layout m' \<and> (\<forall>cpu < pm_ncpu m. \<forall>cl < CC_NUM_CLASSES. cc_stack m' cpu cl = [])"
  using ccs_init_fresh [OF assms] by (simp add: cc_capacity(3))

section \<open>What the operations do\<close>

lemma ccs_pop_cases:
  assumes L: "cc_layout m" and c: "pm_sched m (pm_time m) = cpu" "cpu < pm_ncpu m" "idx < 63"
  shows "cc_stack m cpu idx = [] \<Longrightarrow> ccs_pop m idx = Some (m\<lparr>pm_time := pm_time m + 1\<rparr>, Inl cpu)"
    and "cc_stack m cpu idx \<noteq> [] \<Longrightarrow> last (cc_stack m cpu idx) \<noteq> 0 \<Longrightarrow>
      \<exists>m'. ccs_pop m idx = Some (m', Inr (last (cc_stack m cpu idx))) \<and> stack_changed 63 500 m m' cpu idx (butlast (cc_stack m cpu idx))
        \<and> pm_time m' = pm_time m + 1"
proof -
  let ?m1 = "m\<lparr>pm_time := pm_time m + 1\<rparr>"
  have L1: "cc_layout ?m1" "cpu < pm_ncpu ?m1" using L c by simp_all
  note r = rseq_pop_ok [OF L1 c(3), unfolded Let_def]
  have here: "pm_here m = (cpu, ?m1)" using c(1) by (simp add: pm_here_def)
  show "ccs_pop m idx = Some (?m1, Inl cpu)" if "cc_stack m cpu idx = []"
    using r that c(2) by (simp add: ccs_pop_def here)
  show "\<exists>m'. ccs_pop m idx = Some (m', Inr (last (cc_stack m cpu idx))) \<and> stack_changed 63 500 m m' cpu idx (butlast (cc_stack m cpu idx))
    \<and> pm_time m' = pm_time m + 1" if ne: "cc_stack m cpu idx \<noteq> []" "last (cc_stack m cpu idx) \<noteq> 0"
  proof -
    have "0 < first_slot 63 500 idx + length (cc_stack ?m1 cpu idx)" by (simp add: first_slot_def)
    moreover obtain m' where m': "rseq_pop_tx ?m1 cpu idx = Some (m', first_slot 63 500 idx + length (cc_stack ?m1 cpu idx),
      first_slot 63 500 idx + length (cc_stack ?m1 cpu idx) - 1, Some (last (cc_stack m cpu idx)))"
      "stack_changed 63 500 ?m1 m' cpu idx (butlast (cc_stack m cpu idx))" using r ne(1) by auto
    moreover have "pm_time m' = pm_time m + 1" using rseq_pop_time [OF m'(1)] by simp
    ultimately show ?thesis using ne(2) stack_changed_time [of 63 500 _ m] by (intro exI [of _ m']) (simp add: ccs_pop_def here)
  qed
qed

lemma ccs_push_cases:
  assumes L: "cc_layout m" and c: "pm_sched m (pm_time m) = cpu" "cpu < pm_ncpu m" "idx < 63" and v: "ptr \<noteq> 0"
  shows "\<not> length (cc_stack m cpu idx) < 500 \<Longrightarrow> ccs_push m ptr idx = Some (m\<lparr>pm_time := pm_time m + 1\<rparr>, Inl cpu)"
    and "length (cc_stack m cpu idx) < 500 \<Longrightarrow>
      \<exists>m'. ccs_push m ptr idx = Some (m', Inr ()) \<and> stack_changed 63 500 m m' cpu idx (cc_stack m cpu idx @ [ptr]) \<and> pm_time m' = pm_time m + 1"
proof -
  let ?m1 = "m\<lparr>pm_time := pm_time m + 1\<rparr>"
  have L1: "cc_layout ?m1" "cpu < pm_ncpu ?m1" using L c by simp_all
  note r = rseq_push_ok [OF L1 c(3), of ptr, unfolded Let_def]
  have here: "pm_here m = (cpu, ?m1)" using c(1) by (simp add: pm_here_def)
  show "ccs_push m ptr idx = Some (?m1, Inl cpu)" if "\<not> length (cc_stack m cpu idx) < 500"
    using r that by (simp add: ccs_push_def here)
  show "\<exists>m'. ccs_push m ptr idx = Some (m', Inr ()) \<and> stack_changed 63 500 m m' cpu idx (cc_stack m cpu idx @ [ptr]) \<and> pm_time m' = pm_time m + 1"
    if l: "length (cc_stack m cpu idx) < 500"
  proof -
    let ?b = "first_slot 63 500 idx + length (cc_stack ?m1 cpu idx)"
    obtain m' where m': "rseq_push_tx ?m1 cpu idx ptr = Some (m', ?b, ?b + 1)"
      "stack_changed 63 500 ?m1 m' cpu idx (cc_stack m cpu idx @ [ptr])" using r l by auto
    moreover have "pm_time m' = pm_time m + 1" using rseq_push_time [OF m'(1)] by simp
    ultimately show ?thesis using v stack_changed_time [of 63 500 _ m] by (intro exI [of _ m']) (simp add: ccs_push_def here)
  qed
qed

section \<open>Runs of pushes and pops\<close>

text \<open>
  The contract of the array of slabs: a family of bounded stacks, one for each CPU and class, on which each operation
  acts at the CPU where it runs. \<open>time\<close> counts the operations.
\<close>

datatype slab_op = Push nat nat | Pop nat

fun slab_run :: "slab_op list \<Rightarrow> percpu_mem \<Rightarrow> (percpu_mem \<times> (nat + nat) list) option" where
  "slab_run [] m = Some (m, [])"
| "slab_run (Push ptr cl # ops) m = do {
     (m, r) \<leftarrow> ccs_push m ptr cl;
     (m, rs) \<leftarrow> slab_run ops m;
     Some (m, map_sum id (\<lambda>_. ptr) r # rs) }"
| "slab_run (Pop cl # ops) m = do {
     (m, r) \<leftarrow> ccs_pop m cl;
     (m, rs) \<leftarrow> slab_run ops m;
     Some (m, r # rs) }"

fun stacks_step :: "slab_op \<Rightarrow> nat \<Rightarrow> (nat \<Rightarrow> nat \<Rightarrow> nat list) \<Rightarrow> (nat \<Rightarrow> nat \<Rightarrow> nat list) \<times> (nat + nat)" where
  "stacks_step (Push ptr cl) cpu f = (if length (f cpu cl) < 500 then (f(cpu := (f cpu)(cl := f cpu cl @ [ptr])), Inr ptr) else (f, Inl cpu))"
| "stacks_step (Pop cl) cpu f = (if f cpu cl = [] then (f, Inl cpu) else (f(cpu := (f cpu)(cl := butlast (f cpu cl))), Inr (last (f cpu cl))))"

fun stacks_run :: "slab_op list \<Rightarrow> (nat \<Rightarrow> nat) \<Rightarrow> nat \<Rightarrow> (nat \<Rightarrow> nat \<Rightarrow> nat list) \<Rightarrow> (nat \<Rightarrow> nat \<Rightarrow> nat list) \<times> (nat + nat) list" where
  "stacks_run [] sched time f = (f, [])"
| "stacks_run (op # ops) sched time f = (let (f, r) = stacks_step op (sched time) f; (f, rs) = stacks_run ops sched (time + 1) f
     in (f, r # rs))"

definition valid_op :: "slab_op \<Rightarrow> bool" where
  "valid_op op = (case op of Push ptr cl \<Rightarrow> ptr \<noteq> 0 \<and> cl < 63 | Pop cl \<Rightarrow> cl < 63)"

text \<open>The memory holds the stacks \<open>f\<close>, and no null pointer is on them.\<close>

definition slabs_hold :: "percpu_mem \<Rightarrow> (nat \<Rightarrow> nat \<Rightarrow> nat list) \<Rightarrow> bool" where
  "slabs_hold m f \<longleftrightarrow> cc_layout m \<and> (\<forall>cpu < pm_ncpu m. \<forall>cl < 63. cc_stack m cpu cl = f cpu cl \<and> 0 \<notin> set (f cpu cl))"

lemma slabs_hold_changed:
  assumes "slabs_hold m f" and "stack_changed 63 500 m m' cpu cl st" and "0 \<notin> set st"
  shows "slabs_hold m' (f(cpu := (f cpu)(cl := st)))"
  using assms by (simp add: slabs_hold_def stack_changed_def)

lemma slabs_hold_time: "slabs_hold m f \<Longrightarrow> slabs_hold (m\<lparr>pm_time := k\<rparr>) f"
  by (simp add: slabs_hold_def)

lemma slab_step_ok:
  assumes h: "slabs_hold m f" and c: "pm_sched m (pm_time m) < pm_ncpu m" and v: "valid_op op"
  shows "\<exists>m'. (\<forall>ops. slab_run (op # ops) m = map_option (map_prod id ((#) (snd (stacks_step op (pm_sched m (pm_time m)) f)))) (slab_run ops m'))
    \<and> slabs_hold m' (fst (stacks_step op (pm_sched m (pm_time m)) f))
    \<and> pm_sched m' = pm_sched m \<and> pm_time m' = pm_time m + 1 \<and> pm_ncpu m' = pm_ncpu m"
proof -
  let ?cpu = "pm_sched m (pm_time m)"
  have L: "cc_layout m" and st: "\<And>cl. cl < 63 \<Longrightarrow> cc_stack m ?cpu cl = f ?cpu cl \<and> 0 \<notin> set (f ?cpu cl)"
    using h c by (auto simp: slabs_hold_def)
  have run: "do { (m, rs) \<leftarrow> x; Some (m, r # rs) } = map_option (map_prod id ((#) r)) x" for x :: "(percpu_mem \<times> (nat + nat) list) option" and r
    by (cases x) auto
  show ?thesis
  proof (cases op)
    case (Push ptr cl)
    have p: "ptr \<noteq> 0" "cl < 63" using v Push by (simp_all add: valid_op_def)
    note cases = ccs_push_cases [OF L refl c p(2,1)]
    show ?thesis
    proof (cases "length (f ?cpu cl) < 500")
      case True
      obtain m' where m': "ccs_push m ptr cl = Some (m', Inr ())" "stack_changed 63 500 m m' ?cpu cl (f ?cpu cl @ [ptr])" "pm_time m' = pm_time m + 1"
        using cases(2) st [OF p(2)] True by auto
      have "slabs_hold m' (f(?cpu := (f ?cpu)(cl := f ?cpu cl @ [ptr])))"
        by (rule slabs_hold_changed [OF h m'(2)]) (use st [OF p(2)] p(1) in simp)
      then show ?thesis using m' True Push by (intro exI [of _ m']) (simp add: run stack_changed_def)
    next
      case False
      then show ?thesis using cases(1) st [OF p(2)] Push slabs_hold_time [OF h]
        by (intro exI [of _ "m\<lparr>pm_time := pm_time m + 1\<rparr>"]) (simp add: run)
    qed
  next
    case (Pop cl)
    have p: "cl < 63" using v Pop by (simp add: valid_op_def)
    note cases = ccs_pop_cases [OF L refl c p]
    show ?thesis
    proof (cases "f ?cpu cl = []")
      case True
      then show ?thesis using cases(1) st [OF p] Pop slabs_hold_time [OF h]
        by (intro exI [of _ "m\<lparr>pm_time := pm_time m + 1\<rparr>"]) (simp add: run)
    next
      case False
      then have "last (f ?cpu cl) \<noteq> 0" using st [OF p] last_in_set [OF False] by metis
      then obtain m' where m': "ccs_pop m cl = Some (m', Inr (last (f ?cpu cl)))" "stack_changed 63 500 m m' ?cpu cl (butlast (f ?cpu cl))" "pm_time m' = pm_time m + 1"
        using cases(2) st [OF p] False by auto
      have "slabs_hold m' (f(?cpu := (f ?cpu)(cl := butlast (f ?cpu cl))))"
        by (rule slabs_hold_changed [OF h m'(2)]) (use st [OF p] in_set_butlastD [of 0 "f ?cpu cl"] in auto)
      then show ?thesis using m' False Pop by (intro exI [of _ m']) (simp add: run stack_changed_def)
    qed
  qed
qed


section \<open>Refill, overflow and the missing class\<close>

text \<open>The refill loop pushes the batch from its first entry, although that one is handed out.\<close>

lemma push_batch_loop_ok:
  assumes "cc_layout m" and "\<forall>t. pm_sched m t = cpu" and c: "idx < 63" and "cpu < pm_ncpu m"
    and "cc_stack m cpu idx = st" and "start \<le> k" "k \<le> len" "len - start \<le> length batch" "length st + (len - k) \<le> 500"
    and nz: "\<forall>p \<in> set batch. p \<noteq> 0"
  shows "\<exists>m'. push_batch_loop m batch idx len start k = Some (m', len) \<and>
    stack_changed 63 500 m m' cpu idx (st @ take (len - k) (drop (k - start) batch))"
  using assms(1,2,4-9)
proof (induction "len - k" arbitrary: m st k)
  case 0
  then show ?case using stack_changed_same [of 63 500 m "pm_time m" cpu idx] by (subst push_batch_loop.simps) simp
next
  case (Suc d)
  then have k: "k < len" and d: "d = len - (k + 1)" by simp_all
  have i: "k - start < length batch" using Suc.prems(5,7) k by simp
  let ?p = "batch ! (k - start)"
  have p: "?p \<noteq> 0" using nz i by simp
  have room: "length st < 500" using Suc.prems(8) k by linarith
  obtain m1 where m1: "ccs_push m ?p idx = Some (m1, Inr ())" "stack_changed 63 500 m m1 cpu idx (st @ [?p])"
    using ccs_push_cases(2) [OF Suc.prems(1) _ Suc.prems(3) c p] Suc.prems(2,4) room by auto
  have room1: "length (st @ [?p]) + (len - (k + 1)) \<le> 500" using Suc.prems(8) k by simp
  have m1': "cc_layout m1" "\<forall>t. pm_sched m1 t = cpu" "cpu < pm_ncpu m1" "cc_stack m1 cpu idx = st @ [?p]"
    using m1(2) Suc.prems(2,3) c by (auto simp: stack_changed_def)
  obtain m' where m': "push_batch_loop m1 batch idx len start (k + 1) = Some (m', len)"
    "stack_changed 63 500 m1 m' cpu idx ((st @ [?p]) @ take (len - (k + 1)) (drop (k + 1 - start) batch))"
    using Suc.hyps(1) [OF d m1' _ _ Suc.prems(7) room1] Suc.prems(5) k by auto
  have "push_batch_loop m batch idx len start k = push_batch_loop m1 batch idx len start (k + 1)"
    using m1(1) k i by (subst push_batch_loop.simps) simp
  moreover have "take (len - k) (drop (k - start) batch) = ?p # take (len - (k + 1)) (drop (k + 1 - start) batch)"
  proof -
    have "len - k = Suc (len - (k + 1))" "k + 1 - start = Suc (k - start)" using k Suc.prems(5) by simp_all
    then show ?thesis using i by (simp add: Cons_nth_drop_Suc [symmetric])
  qed
  ultimately show ?case using m' stack_changed_trans [OF m1(2) m'(2)] by (intro exI [of _ m']) simp
qed


text \<open>Where the stack holds an object with the alignment, \<open>allocate\<close> hands it out and nothing else changes. An object
  without it goes back to its place, and the request goes to the zone.\<close>

theorem cc_allocate_checks_alignment:
  assumes L: "cc_layout (cs_mem s)" and c: "\<forall>t. pm_sched (cs_mem s) t = cpu" "cpu < pm_ncpu (cs_mem s)" "idx < 63"
    and k: "get_size_class (lsize l) = Some (Base idx)" and al: "is_pow2 (lalign l)" and st: "cc_stack (cs_mem s) cpu idx = xs @ [x]" "x \<noteq> 0"
  shows "if lalign l dvd x then \<exists>m'. cc_allocate Z s l = Some (s\<lparr>cs_mem := m'\<rparr>, Inr x) \<and> stack_changed 63 500 (cs_mem s) m' cpu idx xs
    else \<exists>m'. cc_allocate Z s l = cc_alloc_from_zone Z (s\<lparr>cs_mem := m'\<rparr>) (lsize l) (lalign l)
      \<and> stack_changed 63 500 (cs_mem s) m' cpu idx (xs @ [x])"
proof -
  obtain m1 where m1: "ccs_pop (cs_mem s) idx = Some (m1, Inr x)" "stack_changed 63 500 (cs_mem s) m1 cpu idx xs"
    using ccs_pop_cases(2) [OF L _ c(2,3)] c(1) st by auto
  have a: "x AND (lalign l - 1) = 0 \<longleftrightarrow> lalign l dvd x" using and_mask_mod [OF al, of x] by (simp add: dvd_eq_mod_eq_0)
  show ?thesis
  proof (cases "lalign l dvd x")
    case True
    then have "cc_allocate Z s l = Some (s\<lparr>cs_mem := m1\<rparr>, Inr x)" using k m1(1) a by (simp add: cc_allocate_def)
    then show ?thesis unfolding if_P [OF True] using m1(2) by blast
  next
    case False
    have m1': "cc_layout m1" "\<forall>t. pm_sched m1 t = cpu" "cpu < pm_ncpu m1" "cc_stack m1 cpu idx = xs"
      using m1(2) c by (auto simp: stack_changed_def)
    have "length (cc_stack (cs_mem s) cpu idx) \<le> 500" using layout_parts(4) [OF L c(2,3)] cpu_stack_length [OF L c(2,3)] by simp
    then have room: "length (cc_stack m1 cpu idx) < 500" using st(1) m1'(4) by simp
    obtain m2 where m2: "ccs_push m1 x idx = Some (m2, Inr ())" "stack_changed 63 500 m1 m2 cpu idx (xs @ [x])"
      using ccs_push_cases(2) [OF m1'(1) _ m1'(3) c(3) st(2) room] m1'(2,4) by auto
    have "cc_deallocate Z (s\<lparr>cs_mem := m1\<rparr>) x l = Some (s\<lparr>cs_mem := m2\<rparr>)" using k m2(1) by (simp add: cc_deallocate_def)
    then have "cc_allocate Z s l = cc_alloc_from_zone Z (s\<lparr>cs_mem := m2\<rparr>) (lsize l) (lalign l)"
      using k m1(1) a False by (simp add: cc_allocate_def)
    then show ?thesis unfolding if_not_P [OF False] using stack_changed_trans [OF m1(2) m2(2)] by blast
  qed
qed

text \<open>The loop of \<open>pop_batch\<close>, on a stack with enough objects.\<close>

lemma pop_batch_loop_ok:
  assumes "cc_layout m" and "\<forall>t. pm_sched m t = cpu" and c: "idx < 63" and "cpu < pm_ncpu m"
    and "cc_stack m cpu idx = xs @ st" and "\<forall>p \<in> set st. p \<noteq> 0" and "k + length st = len" and "len \<le> length batch"
  shows "\<exists>m'. pop_batch_loop m batch idx len k = Some (m', take k batch @ rev st @ drop len batch, len)
    \<and> stack_changed 63 500 m m' cpu idx xs"
  using assms(1,2,4-)
proof (induction st arbitrary: m batch k rule: rev_induct)
  case Nil
  then show ?case using stack_changed_same [of 63 500 m "pm_time m" cpu idx] by (subst pop_batch_loop.simps) simp
next
  case (snoc x st)
  obtain m1 where m1: "ccs_pop m idx = Some (m1, Inr x)" "stack_changed 63 500 m m1 cpu idx (xs @ st)"
    using ccs_pop_cases(2) [OF snoc(2) _ snoc(4) c] snoc(3,5,6) by (auto simp: butlast_append)
  have m1': "cc_layout m1" "\<forall>t. pm_sched m1 t = cpu" "cpu < pm_ncpu m1" "cc_stack m1 cpu idx = xs @ st"
    using m1(2) snoc(3,4) c by (auto simp: stack_changed_def)
  have k: "k < len" "k < length batch" using snoc(7,8) by simp_all
  obtain m' where m': "pop_batch_loop m1 (batch[k := x]) idx len (k + 1) = Some (m', take (k + 1) (batch[k := x]) @ rev st @ drop len (batch[k := x]), len)"
    "stack_changed 63 500 m1 m' cpu idx xs"
    using snoc.IH [OF m1', of "k + 1" "batch[k := x]"] snoc(6,7,8) by auto
  have "pop_batch_loop m batch idx len k = pop_batch_loop m1 (batch[k := x]) idx len (k + 1)"
    using m1(1) k by (subst pop_batch_loop.simps) simp
  moreover have "take (k + 1) (batch[k := x]) = take k batch @ [x]" using k by (simp add: take_Suc_conv_app_nth)
  moreover have "drop len (batch[k := x]) = drop len batch" using k by simp
  ultimately show ?case using m' stack_changed_trans [OF m1(2) m'(2)] by (intro exI [of _ m']) simp
qed

text \<open>On a full stack, with the thread still on its CPU, \<open>deallocate\<close> gives the object and the 62 objects freed last back
  to the zone in one batch of 63, and keeps the others.\<close>

theorem cc_deallocate_overflow:
  assumes L: "cc_layout (cs_mem s)" and c: "\<forall>t. pm_sched (cs_mem s) t = cpu" "cpu < pm_ncpu (cs_mem s)" "idx < 63"
    and k: "get_size_class (lsize l) = Some (Base idx)" and p: "p \<noteq> 0"
    and st: "cc_stack (cs_mem s) cpu idx = xs @ st" "length xs = 438" "length st = 62" "\<forall>p \<in> set st. p \<noteq> 0"
    and z: "za_free_batch Z (cs_zone s) idx (p # rev st @ replicate 449 0) 63 = Some (z', Inr ())"
  shows "\<exists>m'. cc_deallocate Z s p l = Some (s\<lparr>cs_mem := m', cs_zone := z'\<rparr>) \<and> stack_changed 63 500 (cs_mem s) m' cpu idx xs"
proof -
  let ?m = "\<lambda>k. (cs_mem s)\<lparr>pm_time := k\<rparr>" let ?t = "pm_time (cs_mem s)" let ?b = "(replicate 512 0)[0 := p]"
  have push: "ccs_push (cs_mem s) p idx = Some (?m (?t + 1), Inl cpu)" using ccs_push_cases(1) [OF L _ c(2,3) p] c(1) st by simp
  obtain m' where m': "pop_batch_loop (?m (?t + 2)) ?b idx 63 1 = Some (m', take 1 ?b @ rev st @ drop 63 ?b, 63)"
    "stack_changed 63 500 (?m (?t + 2)) m' cpu idx xs"
    using pop_batch_loop_ok [of "?m (?t + 2)" cpu idx xs st 1 63 ?b] L c st by auto
  have "take 1 ?b @ rev st @ drop 63 ?b = p # rev st @ replicate 449 0" by (simp add: drop_update_cancel take_Suc_conv_app_nth)
  then have "evict_cache Z (s\<lparr>cs_mem := ?m (?t + 1)\<rparr>) p cpu idx = Some (s\<lparr>cs_mem := m', cs_zone := z'\<rparr>, Some ())"
    using m'(1) z c(1) by (simp add: evict_cache_def pm_here_def CWND_def pop_batch_def cc_give_back_def)
  then have "cc_deallocate Z s p l = Some (s\<lparr>cs_mem := m', cs_zone := z'\<rparr>)" using push k by (simp add: cc_deallocate_def)
  then show ?thesis using m'(2) stack_changed_time [of 63 500 _ "cs_mem s"] by auto
qed

text \<open>A request above 24576 bytes has class 63, which has no header: \<open>allocate\<close> takes the first slot of class 0, where
  \<open>deallocate\<close> puts a pointer, for the header, and can hand out any word of the region, here the one below the slot that
  the low 16 bits of that pointer number.\<close>

theorem cc_class_63_reads_a_slot:
  assumes L: "cc_layout (cs_mem s)" and c: "pm_sched (cs_mem s) (pm_time (cs_mem s)) = cpu" "cpu < pm_ncpu (cs_mem s)"
    and k: "get_size_class (lsize l) = Some (Base 63)" and st: "cc_stack (cs_mem s) cpu 0 = q # xs"
    and h: "halfword q 2 < halfword q 0" "2 \<le> halfword q 0" "halfword q 0 < REGION"
    and r: "r = pm_word (cs_mem s) (loc cpu (halfword q 0 - 1))" "r \<noteq> 0" "lalign l = 1"
  shows "\<exists>m'. cc_allocate Z s l = Some (s\<lparr>cs_mem := m'\<rparr>, Inr r)"
proof -
  let ?m = "(cs_mem s)\<lparr>pm_time := pm_time (cs_mem s) + 1\<rparr>"
  have c1: "cpu < pm_ncpu ?m" using c(2) by simp
  have n: "0 < halfword (hdr_at (cs_mem s) cpu 0) 0 - first_slot 63 500 0" using arg_cong [OF st, of length] by (simp add: cpu_stack_def)
  have q: "pm_word (cs_mem s) (loc cpu 63) = q"
    using arg_cong [OF st, of hd] n by (simp add: cpu_stack_def hd_map first_slot_def)
  have i: "63 < REGION" "halfword q 0 - 2 < REGION" "halfword q 0 - 1 < REGION" using h(3) by (simp_all add: REGION_val)
  have e: "cpu * REGION + halfword q 0 - 2 = loc cpu (halfword q 0 - 2)" "cpu * REGION + halfword q 0 - 1 = loc cpu (halfword q 0 - 1)"
    "cpu * REGION + 63 = loc cpu 63" using h(2) by (simp_all add: loc_def)
  obtain m' where "rseq_pop_tx ?m cpu 63 = Some (m', halfword q 0, halfword q 0 - 1, Some r)"
    using h r(1) q pm_read_loc [OF c1 i(1)] pm_read_loc [OF c1 i(2)] pm_read_loc [OF c1 i(3)] pm_write_loc [OF c1 i(1)]
    by (simp add: rseq_pop_tx_def Let_def e [unfolded One_nat_def])
  then have "ccs_pop (cs_mem s) 63 = Some (m', Inr r)" using h(2) r(2) c(1) by (simp add: ccs_pop_def pm_here_def)
  then show ?thesis using k r(3) by (auto simp: cc_allocate_def)
qed

section \<open>A concrete cache\<close>

text \<open>One CPU; class 1 has \<open>k\<close> objects, class 0 has one, and each slot holds its own number, but for the first.\<close>

definition demo_cc :: "nat \<Rightarrow> nat cpu_state" where
  "demo_cc k = \<lparr>cs_mem = built_mem 63 500 (\<lambda>cl. if cl = 1 then k else if cl = 0 then 1 else 0) (\<lambda>i. if i = 63 then 0x7f0000007fe0 else i) 0, cs_zone = 0\<rparr>"

lemma demo_cc_layout: "k \<le> 500 \<Longrightarrow> cc_layout (cs_mem (demo_cc k))"
  unfolding demo_cc_def cpu_state.simps by (rule built_layout) (simp_all add: cc_capacity)

lemma demo_cc_stack:
  assumes "k \<le> 500"
  shows "cc_stack (cs_mem (demo_cc k)) 0 1 = map (\<lambda>j. 563 + j) [0..<k]" "cc_stack (cs_mem (demo_cc k)) 0 0 = [0x7f0000007fe0]"
  unfolding demo_cc_def cpu_state.simps by (subst built_stack; use assms in \<open>simp add: cc_capacity first_slot_def REGION_val\<close>)+

lemma demo_cc_points: "pm_sched (cs_mem (demo_cc k)) t = 0" "pm_ncpu (cs_mem (demo_cc k)) = 1" "cs_zone (demo_cc k) = 0"
  by (simp_all add: demo_cc_def built_mem_def)

lemma class_28032: "get_size_class 28032 = Some (Base 63)"
  by (simp add: get_size_class_def get_sizeclass_tuple2_def IDX_ARRAY_def TC_SIZE_ARRAY_def TC_MAX_SIZE_def wshr_def aget_def drop_bit_eq_div)

theorem ccs_init_layout_witness:
  "\<exists>m'. ccs_init (ccs_new 0x100000 2 (\<lambda>_. 0)) = Some m' \<and> cc_layout m' \<and> cc_stack m' 1 62 = []"
proof -
  have "\<forall>c < pm_ncpu (ccs_new 0x100000 2 (\<lambda>_. 0)). cpu_unlocked (ccs_new 0x100000 2 (\<lambda>_. 0)) c"
    by (simp add: cpu_unlocked_def ccs_new_def hdr_at_def halfword_def)
  from ccs_init_layout [OF this] show ?thesis by (auto simp: ccs_new_def CC_NUM_CLASSES_def)
qed



theorem cc_allocate_checks_alignment_witness:
  "\<exists>m'. cc_allocate demo_zone (demo_cc 2) demo_layout8 = cc_alloc_from_zone demo_zone ((demo_cc 2)\<lparr>cs_mem := m'\<rparr>) 8 8"
proof -
  have st: "cc_stack (cs_mem (demo_cc 2)) 0 1 = [563] @ [564]" using demo_cc_stack(1) [of 2] by (simp add: upt_rec)
  have k: "get_size_class (lsize demo_layout8) = Some (Base 1)" "is_pow2 (lalign demo_layout8)" "\<not> lalign demo_layout8 dvd 564"
    using class_8 is_pow2_power [of 3] by (simp_all add: demo_layout8_def)
  have L: "cc_layout (cs_mem (demo_cc 2))" by (rule demo_cc_layout) simp
  show ?thesis using cc_allocate_checks_alignment [OF L _ _ _ k(1,2) st, of demo_zone] k(3) demo_cc_points(1,2)
    by (auto simp: demo_layout8_def)
qed

theorem cc_deallocate_overflow_witness:
  "\<exists>m'. cc_deallocate demo_zone (demo_cc 500) 0x7f0000000000 demo_layout8 = Some ((demo_cc 500)\<lparr>cs_mem := m', cs_zone := 63\<rparr>)
     \<and> stack_changed 63 500 (cs_mem (demo_cc 500)) m' 0 1 (map (\<lambda>j. 563 + j) [0..<438])"
proof -
  have "[0..<500] = [0..<438] @ [438..<500]" using upt_add_eq_append [of 0 438 62] by simp
  then have st: "cc_stack (cs_mem (demo_cc 500)) 0 1 = map (\<lambda>j. 563 + j) [0..<438] @ map (\<lambda>j. 563 + j) [438..<500]"
    using demo_cc_stack(1) [of 500] by (simp del: upt_rec_numeral)
  have z: "za_free_batch demo_zone (cs_zone (demo_cc 500)) 1 b 63 = Some (63, Inr ())" for b by (simp add: demo_zone_def demo_cc_points)
  have k: "get_size_class (lsize demo_layout8) = Some (Base 1)" using class_8 by (simp add: demo_layout8_def)
  show ?thesis using cc_deallocate_overflow [OF demo_cc_layout _ _ _ k _ st _ _ _ z, of "0x7f0000000000"] demo_cc_points(1,2)
    by (simp del: upt_rec_numeral)
qed

theorem cc_class_63_reads_a_slot_witness:
  "\<exists>m'. cc_allocate demo_zone (demo_cc 0) \<lparr>lsize = 28032, lalign = 1\<rparr> = Some ((demo_cc 0)\<lparr>cs_mem := m'\<rparr>, Inr 32735)"
proof -
  let ?q = "0x7f0000007fe0 :: nat"
  have h: "halfword ?q 0 = 32736" "halfword ?q 2 = 32512" by (simp_all add: halfword_def)
  have r: "32735 = pm_word (cs_mem (demo_cc 0)) (loc 0 (halfword ?q 0 - 1))" unfolding h by (simp add: demo_cc_def built_mem_def loc_def)
  have L: "cc_layout (cs_mem (demo_cc 0))" by (rule demo_cc_layout) simp
  have st: "cc_stack (cs_mem (demo_cc 0)) 0 0 = ?q # []" using demo_cc_stack(2) [of 0] by simp
  have k: "get_size_class (lsize \<lparr>lsize = 28032, lalign = 1\<rparr>) = Some (Base 63)" using class_28032 by simp
  show ?thesis using cc_class_63_reads_a_slot [OF L demo_cc_points(1) _ k st _ _ _ r, of demo_zone] h REGION_val demo_cc_points(2) by (simp del: One_nat_def)
qed

end
