(* ===== verification/ThreadMemCache.thy ===== *)
theory ThreadMemCache
  imports FreeList PerCpu "HOL-Library.Multiset"
begin

text \<open>
  The thread cache in one block of memory (\<open>cache/thread_mem_cache.rs\<close>): 14 pages, at whose start lie two arrays of 64
  16-bit numbers and behind them the slots. The slots of class \<open>idx\<close> are those from \<open>head[idx - 1]\<close> to \<open>head[idx]\<close>, and
  \<open>list[idx]\<close> is the first one that is free. The zone that the file calls is of an earlier version: the parameter of
  \<open>PerCpu\<close>, \<open>za_alloc\<close> and \<open>za_dealloc\<close> standing for \<open>allocate_large\<close> and \<open>deallocate_large\<close>.
\<close>

section \<open>The block\<close>

record 'z mem_cache =
  mc_head :: "nat list"
  mc_list :: "nat list"
  mc_mem :: "nat list"
  mc_zone :: 'z

text \<open>16-bit arithmetic wraps.\<close>

definition sub16 :: "nat \<Rightarrow> nat \<Rightarrow> nat" where
  "sub16 a b = (a + 2 ^ 16 - b) mod 2 ^ 16"

definition add16 :: "nat \<Rightarrow> nat \<Rightarrow> nat" where
  "add16 a b = (a + b) mod 2 ^ 16"

text \<open>\<open>get_self\<close>: the words below 32 are the arrays, which no access through it is meant to reach.\<close>

definition slot_read :: "'z mem_cache \<Rightarrow> nat \<Rightarrow> nat option" where
  "slot_read s i = do { ensure (32 \<le> i); aget (mc_mem s) i }"

definition slot_write :: "'z mem_cache \<Rightarrow> nat \<Rightarrow> nat \<Rightarrow> 'z mem_cache option" where
  "slot_write s i v = do { ensure (32 \<le> i); m \<leftarrow> aset (mc_mem s) i v; Some (s\<lparr>mc_mem := m\<rparr>) }"

definition set_list :: "'z mem_cache \<Rightarrow> nat \<Rightarrow> nat \<Rightarrow> 'z mem_cache option" where
  "set_list s cl v = do { l \<leftarrow> aset (mc_list s) cl v; Some (s\<lparr>mc_list := l\<rparr>) }"

definition mc_slice :: "'z mem_cache \<Rightarrow> nat \<Rightarrow> nat \<Rightarrow> nat list option" where
  "mc_slice s start fin = do {
     ensure (32 \<le> start);
     ensure (start + sub16 fin start \<le> length (mc_mem s));
     Some (take (sub16 fin start) (drop start (mc_mem s))) }"

text \<open>What a call wrote into a slice.\<close>

definition put_slice_back :: "'z mem_cache \<Rightarrow> nat \<Rightarrow> nat list \<Rightarrow> 'z mem_cache" where
  "put_slice_back s start arr = s\<lparr>mc_mem := take start (mc_mem s) @ arr @ drop (start + length arr) (mc_mem s)\<rparr>"

fun mc_init_loop :: "nat list \<Rightarrow> nat \<Rightarrow> 'z mem_cache \<Rightarrow> ('z mem_cache \<times> nat) option" where
  "mc_init_loop [] base s = Some (s, base)"
| "mc_init_loop (i # is) base s = do {
     cursize \<leftarrow> get_rounded_size_by_idx i;
     page \<leftarrow> get_num_pages_by_idx i;
     ensure (cursize \<noteq> 0);
     let num = page * 4096 div cursize * 2;
     h \<leftarrow> aset (mc_head s) (i - 1) (base mod 2 ^ 16);
     l \<leftarrow> aset (mc_list s) i (base mod 2 ^ 16);
     mc_init_loop is (base + num) (s\<lparr>mc_head := h, mc_list := l\<rparr>) }"

definition mc_init :: "'z mem_cache \<Rightarrow> 'z mem_cache option" where
  "mc_init s = do {
     let base = 2 * (64 div 4 + 1);
     (s, base) \<leftarrow> mc_init_loop [1..<64] base s;
     h \<leftarrow> aset (mc_head s) (64 - 1) (base mod 2 ^ 16);
     ensure (base \<le> 14 * 512);
     Some (s\<lparr>mc_head := h\<rparr>) }"

section \<open>Operations\<close>

fun mc_cleanup_loop :: "'z zone_api \<Rightarrow> nat list \<Rightarrow> 'z mem_cache \<Rightarrow> 'z mem_cache option" where
  "mc_cleanup_loop Z [] s = Some s"
| "mc_cleanup_loop Z (idx # is) s = do {
     start \<leftarrow> aget (mc_head s) (idx - 1);
     fin \<leftarrow> aget (mc_list s) idx;
     s \<leftarrow> (if fin > start then do {
         arr \<leftarrow> mc_slice s start fin;
         (z, r) \<leftarrow> za_free_batch Z (mc_zone s) idx arr (sub16 fin start);
         u \<leftarrow> unwrap r;
         Some (s\<lparr>mc_zone := z\<rparr>) }
       else Some s);
     mc_cleanup_loop Z is s }"

definition mc_cleanup_cache :: "'z zone_api \<Rightarrow> 'z mem_cache \<Rightarrow> 'z mem_cache option" where
  "mc_cleanup_cache Z s = mc_cleanup_loop Z [1..<64] s"

definition mc_push :: "'z mem_cache \<Rightarrow> nat \<Rightarrow> nat \<Rightarrow> ('z mem_cache \<times> bool) option" where
  "mc_push s ptr cl = do {
     cnt \<leftarrow> aget (mc_list s) cl;
     h \<leftarrow> aget (mc_head s) cl;
     if cnt \<ge> h then Some (s, False)
     else do {
       s \<leftarrow> slot_write s cnt ptr;
       s \<leftarrow> set_list s cl (add16 cnt 1);
       ensure (add16 cnt 1 \<le> h);
       Some (s, True) } }"

definition mc_pop_fast :: "'z mem_cache \<Rightarrow> nat \<Rightarrow> nat \<Rightarrow> ('z mem_cache \<times> nat) option" where
  "mc_pop_fast s cl algn = do {
     cnt \<leftarrow> aget (mc_list s) cl;
     let i = sub16 cnt 1;
     h \<leftarrow> aget (mc_head s) (wsub cl 1);
     if cnt \<ge> h \<and> algn = 1 then do {
       ans \<leftarrow> slot_read s i;
       s \<leftarrow> set_list s cl (sub16 cnt 1);
       Some (s, ans) }
     else Some (s, 0) }"

partial_function (option) mc_pop_loop :: "'z mem_cache \<Rightarrow> nat \<Rightarrow> nat \<Rightarrow> nat \<Rightarrow> nat \<Rightarrow> ('z mem_cache \<times> nat) option" where
  "mc_pop_loop s cl algn cnt i = do {
     h \<leftarrow> aget (mc_head s) (wsub cl 1);
     if i \<ge> h then do {
       ans \<leftarrow> slot_read s i;
       if ans AND (algn - 1) = 0 then do {
         top \<leftarrow> slot_read s (sub16 cnt 1);
         s \<leftarrow> slot_write s i top;
         c \<leftarrow> aget (mc_list s) cl;
         s \<leftarrow> set_list s cl (sub16 c 1);
         Some (s, ans) }
       else mc_pop_loop s cl algn cnt (sub16 i 1) }
     else Some (s, 0) }"

definition mc_pop_aligned :: "'z mem_cache \<Rightarrow> nat \<Rightarrow> nat \<Rightarrow> ('z mem_cache \<times> nat) option" where
  "mc_pop_aligned s cl algn = do { cnt \<leftarrow> aget (mc_list s) cl; mc_pop_loop s cl algn cnt (sub16 cnt 1) }"

definition mc_alloc_slowpath :: "'z zone_api \<Rightarrow> 'z mem_cache \<Rightarrow> nat \<Rightarrow> nat \<Rightarrow> ('z mem_cache \<times> (alloc_error + nat)) option" where
  "mc_alloc_slowpath Z s idx algn = do {
     (s, result) \<leftarrow> mc_pop_aligned s idx algn;
     if result = 0 then do {
       fin \<leftarrow> aget (mc_list s) idx;
       ed \<leftarrow> aget (mc_head s) idx;
       ensure (sub16 ed fin > 0);
       st \<leftarrow> aget (mc_head s) (wsub idx 1);
       arr \<leftarrow> mc_slice s fin ed;
       let n = min (sub16 ed st div 2) (sub16 ed fin);
       (z, arr, ans) \<leftarrow> za_batch Z (mc_zone s) idx arr n;
       let s = (put_slice_back s fin arr)\<lparr>mc_zone := z\<rparr>;
       (case ans of
          Inr p \<Rightarrow> do {
            c \<leftarrow> aget (mc_list s) idx;
            s \<leftarrow> set_list s idx (add16 c (wsub n 1 mod 2 ^ 16));
            c \<leftarrow> aget (mc_list s) idx;
            a \<leftarrow> slot_read s c;
            ensure (a \<noteq> 0);
            Some (s, Inr a) }
        | Inl e \<Rightarrow> Some (s, Inl ENOMEM)) }
     else Some (s, Inr result) }"

definition mc_alloc_from_zone :: "'z zone_api \<Rightarrow> 'z mem_cache \<Rightarrow> nat \<Rightarrow> nat \<Rightarrow> ('z mem_cache \<times> (alloc_error + nat)) option" where
  "mc_alloc_from_zone Z s sz algn = do { (z, r) \<leftarrow> za_alloc Z (mc_zone s) sz algn; Some (s\<lparr>mc_zone := z\<rparr>, r) }"

definition mc_dealloc_to_zone :: "'z zone_api \<Rightarrow> 'z mem_cache \<Rightarrow> nat \<Rightarrow> nat \<Rightarrow> 'z mem_cache option" where
  "mc_dealloc_to_zone Z s ptr sz = do { z \<leftarrow> za_dealloc Z (mc_zone s) ptr sz; Some (s\<lparr>mc_zone := z\<rparr>) }"

definition mc_allocate :: "'z zone_api \<Rightarrow> 'z mem_cache \<Rightarrow> layout \<Rightarrow> ('z mem_cache \<times> (alloc_error + nat)) option" where
  "mc_allocate Z s l = do {
     cls \<leftarrow> get_size_class (lsize l);
     let algn = lalign l;
     (case cls of
        Base idx \<Rightarrow> do {
          cnt \<leftarrow> aget (mc_list s) idx;
          h \<leftarrow> aget (mc_head s) (wsub idx 1);
          if cnt > h \<and> algn = 1 then do {
            ans \<leftarrow> slot_read s (sub16 cnt 1);
            s \<leftarrow> set_list s idx (sub16 cnt 1);
            ensure (ans \<noteq> 0);
            Some (s, Inr ans) }
          else mc_alloc_slowpath Z s idx algn }
      | Large sz \<Rightarrow> mc_alloc_from_zone Z s (lsize l) algn) }"

definition mc_deallocate :: "'z zone_api \<Rightarrow> 'z mem_cache \<Rightarrow> nat \<Rightarrow> layout \<Rightarrow> 'z mem_cache option" where
  "mc_deallocate Z s ptr l = do {
     cls \<leftarrow> get_size_class (lsize l);
     (case cls of
        Base idx \<Rightarrow> do {
          (s, ok) \<leftarrow> mc_push s ptr idx;
          if ok then Some s
          else do {
            fin \<leftarrow> aget (mc_list s) idx;
            st \<leftarrow> aget (mc_head s) (wsub idx 1);
            ed \<leftarrow> aget (mc_head s) idx;
            let start = sub16 fin (sub16 ed st div 2);
            ensure (start \<ge> st);
            arr \<leftarrow> mc_slice s start fin;
            (z, ans) \<leftarrow> za_free_batch Z (mc_zone s) idx arr (sub16 ed st div 2);
            let s = s\<lparr>mc_zone := z\<rparr>;
            (case ans of
               Inr u \<Rightarrow> do {
                 c \<leftarrow> aget (mc_list s) idx;
                 s \<leftarrow> set_list s idx (sub16 c (sub16 (sub16 ed st div 2) 1));
                 c \<leftarrow> aget (mc_list s) idx;
                 slot_write s (sub16 c 1) ptr }
             | Inl e \<Rightarrow> Some s) } }
      | Large sz \<Rightarrow> mc_dealloc_to_zone Z s ptr (lsize l)) }"

text \<open>\<open>free_thread_cache\<close>, called at the end of a thread: the block at \<open>p\<close> goes back to the backend.\<close>

definition mc_free_thread_cache :: "'z zone_api \<Rightarrow> free_list \<Rightarrow> nat \<Rightarrow> 'z mem_cache \<Rightarrow> (free_list \<times> 'z) option" where
  "mc_free_thread_cache Z b p s = do {
     s \<leftarrow> mc_cleanup_cache Z s;
     b \<leftarrow> bsa_dealloc b p \<lparr>lsize = 14 * PAGE_SIZE, lalign = 1\<rparr>;
     Some (b, mc_zone s) }"


section \<open>The layout of the block\<close>

text \<open>
  Well-formed: the slots of the classes lie one behind the other between the arrays and the end of the block, and the
  first free slot of a class is one of its own or the first of the next class.
\<close>

definition mc_ok :: "'z mem_cache \<Rightarrow> bool" where
  "mc_ok s \<longleftrightarrow> length (mc_head s) = 64 \<and> length (mc_list s) = 64 \<and> length (mc_mem s) = 14 * 512 \<and>
     34 \<le> mc_head s ! 0 \<and> mc_head s ! 63 \<le> 14 * 512 \<and>
     (\<forall>i. 0 < i \<and> i < 64 \<longrightarrow> mc_head s ! (i - 1) \<le> mc_list s ! i \<and> mc_list s ! i \<le> mc_head s ! i)"

text \<open>The objects a class holds, the last one on top.\<close>

definition mc_stack :: "'z mem_cache \<Rightarrow> nat \<Rightarrow> nat list" where
  "mc_stack s i = map ((!) (mc_mem s)) [mc_head s ! (i - 1)..<mc_list s ! i]"

lemma sub16_exact [simp]: "b \<le> a \<Longrightarrow> a < 65536 \<Longrightarrow> sub16 a b = a - b"
  by (simp add: sub16_def mod_if)

lemma add16_exact [simp]: "a + b < 65536 \<Longrightarrow> add16 a b = a + b"
  by (simp add: add16_def)

lemma mc_okD:
  assumes "mc_ok s"
  shows "length (mc_head s) = 64" and "length (mc_list s) = 64" and "length (mc_mem s) = 7168"
    and "34 \<le> mc_head s ! 0" and "mc_head s ! 63 \<le> 7168"
    and "0 < i \<Longrightarrow> i < 64 \<Longrightarrow> mc_head s ! (i - 1) \<le> mc_list s ! i"
    and "0 < i \<Longrightarrow> i < 64 \<Longrightarrow> mc_list s ! i \<le> mc_head s ! i"
  using assms by (auto simp: mc_ok_def)

lemma mc_head_mono:
  assumes "mc_ok s" and "i \<le> j" and "j < 64"
  shows "mc_head s ! i \<le> mc_head s ! j"
  using assms(2,3)
proof (induction rule: dec_induct)
  case (step n)
  have "mc_head s ! n \<le> mc_head s ! Suc n"
    using mc_okD(6) [OF assms(1), of "Suc n"] mc_okD(7) [OF assms(1), of "Suc n"] step.prems by simp
  with step show ?case by simp
qed simp

lemma mc_bounds:
  assumes ok: "mc_ok s" and i: "0 < i" "i < 64"
  shows "34 \<le> mc_head s ! (i - 1)" and "mc_head s ! (i - 1) \<le> mc_list s ! i" and "mc_list s ! i \<le> mc_head s ! i"
    and "mc_head s ! i \<le> 7168"
proof -
  show "34 \<le> mc_head s ! (i - 1)"
    using mc_okD(4) [OF ok] mc_head_mono [OF ok, of 0 "i - 1"] i by (metis diff_le_self le_trans le_less_trans zero_le)
  show "mc_head s ! (i - 1) \<le> mc_list s ! i" by (rule mc_okD(6) [OF ok i])
  show "mc_list s ! i \<le> mc_head s ! i" by (rule mc_okD(7) [OF ok i])
  show "mc_head s ! i \<le> 7168"
    using mc_okD(5) [OF ok] mc_head_mono [OF ok, of i 63] i by simp
qed

lemma mc_apart:
  assumes ok: "mc_ok s" and i: "0 < i" "i < 64" and j: "0 < j" "j < 64" "j \<noteq> i"
  shows "mc_head s ! j \<le> mc_head s ! (i - 1) \<or> mc_head s ! i \<le> mc_head s ! (j - 1)"
proof (cases "j < i")
  case True
  then show ?thesis using mc_head_mono [OF ok, of j "i - 1"] i by simp
next
  case False
  then show ?thesis using mc_head_mono [OF ok, of i "j - 1"] j by simp
qed

text \<open>A change of the slots and of the count of one class leaves the others alone.\<close>

lemma mc_update:
  assumes ok: "mc_ok s" and i: "0 < i" "i < 64"
    and h: "mc_head s' = mc_head s" and l: "mc_list s' = (mc_list s)[i := n]"
    and n: "mc_head s ! (i - 1) \<le> n" "n \<le> mc_head s ! i"
    and m: "length (mc_mem s') = length (mc_mem s)"
      "\<And>k. k < mc_head s ! (i - 1) \<or> mc_head s ! i \<le> k \<Longrightarrow> k < 7168 \<Longrightarrow> mc_mem s' ! k = mc_mem s ! k"
  shows "mc_ok s'" and "0 < j \<Longrightarrow> j < 64 \<Longrightarrow> j \<noteq> i \<Longrightarrow> mc_stack s' j = mc_stack s j"
proof -
  show "mc_ok s'"
    using ok i n m(1) by (auto simp: mc_ok_def h l nth_list_update)
  assume j: "0 < j" "j < 64" "j \<noteq> i"
  have "mc_mem s' ! k = mc_mem s ! k" if "mc_head s ! (j - 1) \<le> k" "k < mc_list s ! j" for k
    using mc_apart [OF ok i j] mc_bounds(3,4) [OF ok j(1,2)] that by (intro m(2)) linarith+
  then show "mc_stack s' j = mc_stack s j"
    using j by (simp add: mc_stack_def h l)
qed

lemma map_nth_slice: "b \<le> length xs \<Longrightarrow> map ((!) xs) [a..<b] = take (b - a) (drop a xs)"
  by (intro nth_equalityI) auto

lemma mc_stack_length: "length (mc_stack s i) = mc_list s ! i - mc_head s ! (i - 1)"
  by (simp add: mc_stack_def)

lemma mc_stack_take:
  assumes "mc_ok s" and "0 < i" and "i < 64"
  shows "mc_stack s i = take (mc_list s ! i - mc_head s ! (i - 1)) (drop (mc_head s ! (i - 1)) (mc_mem s))"
  using mc_bounds [OF assms] mc_okD(3) [OF assms(1)] by (simp add: mc_stack_def map_nth_slice)

section \<open>Initialisation\<close>

text \<open>The number of slots of a class.\<close>

definition mc_cap :: "nat \<Rightarrow> nat" where
  "mc_cap i = SIZE_CLASS_PAGES ! i * 4096 div SIZE_CLASSES ! i * 2"

lemma mc_init_loop_run:
  assumes "1 \<le> a" and "a \<le> 64" and "length (mc_head s) = 64" and "length (mc_list s) = 64"
    and "base + sum mc_cap {a..<64} < 65536" and "\<forall>i\<in>{1..<64}. SIZE_CLASSES ! i \<noteq> 0"
    and "length SIZE_CLASSES = 64" and "length SIZE_CLASS_PAGES = 64"
  shows "\<exists>h l. mc_init_loop [a..<64] base s = Some (s\<lparr>mc_head := h, mc_list := l\<rparr>, base + sum mc_cap {a..<64}) \<and>
    length h = 64 \<and> length l = 64 \<and>
    (\<forall>i. a \<le> i \<and> i < 64 \<longrightarrow> h ! (i - 1) = base + sum mc_cap {a..<i} \<and> l ! i = base + sum mc_cap {a..<i}) \<and>
    (\<forall>i. i < a - 1 \<longrightarrow> h ! i = mc_head s ! i) \<and> (\<forall>i. i < a \<longrightarrow> l ! i = mc_list s ! i)"
  using assms(1-5)
proof (induction "64 - a" arbitrary: a base s)
  case 0
  then show ?case by (intro exI [of _ "mc_head s"] exI [of _ "mc_list s"]) auto
next
  case (Suc n)
  have a: "a < 64" using Suc.hyps(2) by simp
  have split: "sum mc_cap {a..<64} = mc_cap a + sum mc_cap {Suc a..<64}"
    using a by (simp add: sum.atLeast_Suc_lessThan)
  define s1 where "s1 = s\<lparr>mc_head := (mc_head s)[a - 1 := base], mc_list := (mc_list s)[a := base]\<rparr>"
  have one: "mc_init_loop [a..<64] base s = mc_init_loop [Suc a..<64] (base + mc_cap a) s1"
    using a Suc.prems assms(6-8)
    by (simp add: upt_rec [of a] get_rounded_size_by_idx_def get_num_pages_by_idx_def mc_cap_def s1_def)
  have "\<exists>h l. mc_init_loop [Suc a..<64] (base + mc_cap a) s1 =
      Some (s1\<lparr>mc_head := h, mc_list := l\<rparr>, base + mc_cap a + sum mc_cap {Suc a..<64}) \<and>
    length h = 64 \<and> length l = 64 \<and>
    (\<forall>i. Suc a \<le> i \<and> i < 64 \<longrightarrow> h ! (i - 1) = base + mc_cap a + sum mc_cap {Suc a..<i} \<and>
      l ! i = base + mc_cap a + sum mc_cap {Suc a..<i}) \<and>
    (\<forall>i. i < Suc a - 1 \<longrightarrow> h ! i = mc_head s1 ! i) \<and> (\<forall>i. i < Suc a \<longrightarrow> l ! i = mc_list s1 ! i)"
    using Suc.prems a split by (intro Suc.hyps(1)) (use Suc.hyps(2) in \<open>auto simp: s1_def\<close>)
  then obtain h l where r: "mc_init_loop [Suc a..<64] (base + mc_cap a) s1 =
      Some (s1\<lparr>mc_head := h, mc_list := l\<rparr>, base + mc_cap a + sum mc_cap {Suc a..<64})"
    and len: "length h = 64" "length l = 64"
    and above: "\<And>i. Suc a \<le> i \<Longrightarrow> i < 64 \<Longrightarrow> h ! (i - 1) = base + mc_cap a + sum mc_cap {Suc a..<i} \<and>
      l ! i = base + mc_cap a + sum mc_cap {Suc a..<i}"
    and below: "\<And>i. i < a \<Longrightarrow> h ! i = mc_head s1 ! i" "\<And>i. i < Suc a \<Longrightarrow> l ! i = mc_list s1 ! i" by auto
  show ?case
  proof (rule exI [of _ h], rule exI [of _ l], intro conjI allI impI)
    show "mc_init_loop [a..<64] base s = Some (s\<lparr>mc_head := h, mc_list := l\<rparr>, base + sum mc_cap {a..<64})"
      by (simp add: one r split) (simp add: s1_def)
    fix i :: nat
    assume i: "a \<le> i \<and> i < 64"
    show "h ! (i - 1) = base + sum mc_cap {a..<i}" and "l ! i = base + sum mc_cap {a..<i}"
      using i above [of i] below(1) [of "a - 1"] below(2) [of a] Suc.prems
      by (cases "i = a"; simp add: s1_def sum.atLeast_Suc_lessThan [of a])+
  next
    fix i :: nat
    show "i < a - 1 \<Longrightarrow> h ! i = mc_head s ! i" and "i < a \<Longrightarrow> l ! i = mc_list s ! i"
      using below(1) [of i] below(2) [of i] by (auto simp: s1_def)
  qed (use len in auto)
qed

lemma mc_tables: "\<forall>i\<in>{1..<64}. SIZE_CLASSES ! i \<noteq> 0" "length SIZE_CLASSES = 64" "length SIZE_CLASS_PAGES = 64"
proof -
  show len: "length SIZE_CLASSES = 64" "length SIZE_CLASS_PAGES = 64"
    by (simp_all add: SIZE_CLASSES_def SIZE_CLASS_PAGES_def)
  have "\<forall>x\<in>set (tl SIZE_CLASSES). x \<noteq> 0"
    by (simp add: SIZE_CLASSES_def)
  then have "SIZE_CLASSES ! Suc i \<noteq> 0" if "i < 63" for i
    using that len by (auto simp: in_set_conv_nth nth_tl)
  moreover have "\<exists>k. i = Suc k \<and> k < 63" if "i \<in> {1..<64}" for i
    using that by (cases i) auto
  ultimately show "\<forall>i\<in>{1..<64}. SIZE_CLASSES ! i \<noteq> 0" by blast
qed

lemma mc_cap_sum: "sum mc_cap {1..<64} = 5596"
proof -
  have "map mc_cap [1..<64] = map (\<lambda>(c, p). p * 4096 div c * 2) (zip (tl SIZE_CLASSES) (tl SIZE_CLASS_PAGES))"
    using mc_tables(2,3) by (intro nth_equalityI) (auto simp: mc_cap_def nth_tl simp del: upt_rec_numeral)
  also have "sum_list \<dots> = 5596"
    by (simp add: SIZE_CLASSES_def SIZE_CLASS_PAGES_def)
  finally have "sum_list (map mc_cap [1..<64]) = 5596"
    by simp
  then show ?thesis by (simp add: interv_sum_list_conv_sum_set_nat del: upt_rec_numeral)
qed


lemma mc_init_run:
  assumes "length (mc_head s) = 64" and "length (mc_list s) = 64" and "length (mc_mem s) = 14 * 512"
  shows "\<exists>s'. mc_init s = Some s' \<and> mc_ok s' \<and> mc_zone s' = mc_zone s \<and>
    (\<forall>i. 0 < i \<and> i < 64 \<longrightarrow> mc_stack s' i = [] \<and> mc_head s' ! i - mc_head s' ! (i - 1) = mc_cap i)"
proof -
  have "\<exists>h l. mc_init_loop [1..<64] 34 s = Some (s\<lparr>mc_head := h, mc_list := l\<rparr>, 34 + sum mc_cap {1..<64}) \<and>
    length h = 64 \<and> length l = 64 \<and>
    (\<forall>i. 1 \<le> i \<and> i < 64 \<longrightarrow> h ! (i - 1) = 34 + sum mc_cap {1..<i} \<and> l ! i = 34 + sum mc_cap {1..<i}) \<and>
    (\<forall>i. i < 1 - 1 \<longrightarrow> h ! i = mc_head s ! i) \<and> (\<forall>i. i < 1 \<longrightarrow> l ! i = mc_list s ! i)"
    by (rule mc_init_loop_run) (use assms mc_tables in \<open>simp_all add: mc_cap_sum del: One_nat_def\<close>)
  then obtain h l where r: "mc_init_loop [1..<64] 34 s = Some (s\<lparr>mc_head := h, mc_list := l\<rparr>, 5630)"
    and len: "length h = 64" "length l = 64"
    and at: "\<And>i. 1 \<le> i \<Longrightarrow> i < 64 \<Longrightarrow> h ! (i - 1) = 34 + sum mc_cap {1..<i} \<and> l ! i = 34 + sum mc_cap {1..<i}"
    unfolding mc_cap_sum by auto
  define s' where "s' = s\<lparr>mc_head := h[63 := 5630], mc_list := l\<rparr>"
  have "mc_init s = Some s'"
    using len r by (simp add: mc_init_def s'_def del: upt_rec_numeral)
  moreover have top: "mc_head s' ! i = 34 + sum mc_cap {1..<Suc i}" if "i < 64" for i
    using that len at [of "Suc i"] mc_cap_sum by (cases "i = 63") (simp_all add: s'_def)
  have bot: "mc_head s' ! (i - 1) = 34 + sum mc_cap {1..<i} \<and> mc_list s' ! i = 34 + sum mc_cap {1..<i}"
    if "0 < i" "i < 64" for i
    using that top [of "i - 1"] at [of i] by (simp add: s'_def)
  moreover have "mc_ok s'"
    using assms len top [of 0] top [of 63] mc_cap_sum bot top unfolding mc_ok_def by (auto simp: s'_def)
  moreover have "mc_stack s' i = [] \<and> mc_head s' ! i - mc_head s' ! (i - 1) = mc_cap i" if "0 < i" "i < 64" for i
    using that bot [of i] top [of i] by (simp add: mc_stack_def)
  moreover have "mc_zone s' = mc_zone s"
    by (simp add: s'_def)
  ultimately show ?thesis by blast
qed

text \<open>Initialising the block of a thread cache never trips its bound: every class gets its own range of slots, twice
  the objects of one slab of it, the ranges lie behind the two arrays, apart from each other and inside the 14 pages, and
  every class is empty.\<close>

lemma mc_init_fresh:
  assumes "length (mc_head s) = 64" and "length (mc_list s) = 64" and "length (mc_mem s) = 14 * 512"
  shows "\<exists>s'. mc_init s = Some s' \<and> mc_ok s' \<and> mc_zone s' = mc_zone s \<and>
    (\<forall>i. 0 < i \<and> i < 64 \<longrightarrow> mc_stack s' i = [] \<and>
      mc_head s' ! i - mc_head s' ! (i - 1) = SIZE_CLASS_PAGES ! i * 4096 div SIZE_CLASSES ! i * 2)"
  using mc_init_run [OF assms] by (simp add: mc_cap_def)

definition mc_demo0 :: "nat mem_cache" where
  "mc_demo0 = \<lparr>mc_head = replicate 64 0, mc_list = replicate 64 0, mc_mem = replicate 7168 0, mc_zone = 0\<rparr>"

lemma mc_demo0_lengths:
  "length (mc_head mc_demo0) = 64" "length (mc_list mc_demo0) = 64" "length (mc_mem mc_demo0) = 14 * 512"
  by (simp_all add: mc_demo0_def)

lemma mc_init_fresh_witness:
  "\<exists>s'. mc_init mc_demo0 = Some s' \<and> mc_ok s' \<and> mc_zone s' = mc_zone mc_demo0 \<and>
    (\<forall>i. 0 < i \<and> i < 64 \<longrightarrow> mc_stack s' i = [] \<and>
      mc_head s' ! i - mc_head s' ! (i - 1) = SIZE_CLASS_PAGES ! i * 4096 div SIZE_CLASSES ! i * 2)"
  by (rule mc_init_fresh [OF mc_demo0_lengths])

section \<open>Taking an object\<close>

text \<open>The search from the top for an aligned object.\<close>

lemma mc_pop_search:
  assumes ok: "mc_ok s" and i: "0 < idx" "idx < 64"
    and n: "n \<le> length (mc_stack s idx)" and k: "k = mc_head s ! (idx - 1) + n"
  shows "mc_pop_loop s idx algn (mc_list s ! idx) (k - 1) =
    (let js = filter (\<lambda>j. mc_stack s idx ! j AND (algn - 1) = 0) [0..<n] in
     if js = [] then Some (s, 0)
     else Some (s\<lparr>mc_mem := (mc_mem s)[mc_head s ! (idx - 1) + last js := mc_mem s ! (mc_list s ! idx - 1)],
           mc_list := (mc_list s)[idx := mc_list s ! idx - 1]\<rparr>, mc_stack s idx ! last js))"
  using n k
proof (induction n arbitrary: k)
  case 0
  note b = mc_bounds [OF ok i]
  have "\<not> mc_head s ! (idx - 1) \<le> mc_head s ! (idx - 1) - 1"
    using b(1) by linarith
  then show ?case
    using 0 b i mc_okD(1,2) [OF ok] by (subst mc_pop_loop.simps) (simp del: One_nat_def)
next
  case (Suc n)
  note b = mc_bounds [OF ok i] and len = mc_okD(1-3) [OF ok]
  have k: "k - 1 = mc_head s ! (idx - 1) + n" "n < length (mc_stack s idx)" and kl: "k - 1 < mc_list s ! idx"
    using Suc.prems b by (simp_all add: mc_stack_length)
  have obj: "mc_mem s ! (k - 1) = mc_stack s idx ! n"
    using k by (simp add: mc_stack_def)
  have rd: "slot_read s (k - 1) = Some (mc_stack s idx ! n)"
    using obj b kl k len by (simp add: slot_read_def)
  have top: "slot_read s (mc_list s ! idx - 1) = Some (mc_mem s ! (mc_list s ! idx - 1))"
    using b kl k len by (simp add: slot_read_def)
  show ?case
  proof (cases "mc_stack s idx ! n AND (algn - 1) = 0")
    case True
    then show ?thesis
      using Suc.prems k kl b i len rd top
      by (subst mc_pop_loop.simps) (simp add: slot_write_def set_list_def)
  next
    case False
    have "mc_pop_loop s idx algn (mc_list s ! idx) (k - 1) = mc_pop_loop s idx algn (mc_list s ! idx) (k - 1 - 1)"
      using Suc.prems k kl b i len rd False by (subst mc_pop_loop.simps) simp
    also have "\<dots> = (let js = filter (\<lambda>j. mc_stack s idx ! j AND (algn - 1) = 0) [0..<n] in
     if js = [] then Some (s, 0)
     else Some (s\<lparr>mc_mem := (mc_mem s)[mc_head s ! (idx - 1) + last js := mc_mem s ! (mc_list s ! idx - 1)],
           mc_list := (mc_list s)[idx := mc_list s ! idx - 1]\<rparr>, mc_stack s idx ! last js))"
      using Suc.prems by (intro Suc.IH) auto
    finally show ?thesis
      using False by simp
  qed
qed


lemma mc_head_before:
  assumes "mc_ok s" and "0 < idx" and "idx < 64"
  shows "wsub idx 1 = idx - 1" and "idx - 1 < length (mc_head s)" and "idx < length (mc_head s)" and "idx < length (mc_list s)"
  using assms mc_okD(1,2) [OF assms(1)] by simp_all

lemma mset_butlast_update:
  assumes "j < length xs"
  shows "mset (butlast (xs[j := last xs])) = mset xs - {#xs ! j#}"
proof (cases "j = length xs - 1")
  case True
  then show ?thesis
    using assms by (metis append_butlast_last_id butlast_list_update diff_union_swap last_conv_nth length_0_conv
        list_update_id list_update_length mset_append mset_single_iff add_diff_cancel_right' not_less_zero
        mset.simps(1,2) union_mset_add_mset_right)
next
  case False
  then obtain ys x where xs: "xs = ys @ [x]"
    using assms by (metis list.size(3) not_less_zero rev_exhaust)
  then show ?thesis
    using assms False by (simp add: butlast_append list_update_append mset_update nth_append)
qed


text \<open>The top object moves into the hole, and the count shrinks.\<close>

lemma mc_take_out:
  assumes ok: "mc_ok s" and i: "0 < idx" "idx < 64" and j: "j < length (mc_stack s idx)"
    and s': "s' = s\<lparr>mc_mem := (mc_mem s)[mc_head s ! (idx - 1) + j := mc_mem s ! (mc_list s ! idx - 1)],
      mc_list := (mc_list s)[idx := mc_list s ! idx - 1]\<rparr>"
  shows "mset (mc_stack s' idx) = mset (mc_stack s idx) - {#mc_stack s idx ! j#}" and "mc_ok s'"
    and "0 < k \<Longrightarrow> k < 64 \<Longrightarrow> k \<noteq> idx \<Longrightarrow> mc_stack s' k = mc_stack s k"
proof -
  note b = mc_bounds [OF ok i] and len = mc_okD(1-3) [OF ok]
  have jl: "mc_head s ! (idx - 1) + j < mc_list s ! idx"
    using j b(2) by (simp add: mc_stack_length)
  have "mc_stack s' idx = butlast ((mc_stack s idx)[j := last (mc_stack s idx)])"
  proof (rule nth_equalityI)
    show "length (mc_stack s' idx) = length (butlast ((mc_stack s idx)[j := last (mc_stack s idx)]))"
      using i len by (simp add: mc_stack_length s')
    fix m
    assume m: "m < length (mc_stack s' idx)"
    then have ml: "mc_head s ! (idx - 1) + m < mc_list s ! idx - 1" "m < length (mc_stack s idx) - 1"
      using i len by (simp_all add: mc_stack_length s')
    have "mc_stack s' idx ! m = mc_mem s' ! (mc_head s ! (idx - 1) + m)"
      using m i len by (simp add: mc_stack_def s')
    moreover have "last (mc_stack s idx) = mc_mem s ! (mc_list s ! idx - 1)"
      using jl b by (simp add: mc_stack_def last_map)
    moreover have "mc_stack s idx ! m = mc_mem s ! (mc_head s ! (idx - 1) + m)"
      using ml by (simp add: mc_stack_def)
    ultimately show "mc_stack s' idx ! m = butlast ((mc_stack s idx)[j := last (mc_stack s idx)]) ! m"
      using ml jl b len j by (simp add: s' nth_butlast nth_list_update)
  qed
  then show "mset (mc_stack s' idx) = mset (mc_stack s idx) - {#mc_stack s idx ! j#}"
    using j by (simp add: mset_butlast_update)
  have n: "mc_head s ! (idx - 1) \<le> mc_list s ! idx - 1" "mc_list s ! idx - 1 \<le> mc_head s ! idx"
    using jl b by linarith+
  have m: "mc_mem s' ! q = mc_mem s ! q" if "q < mc_head s ! (idx - 1) \<or> mc_head s ! idx \<le> q" for q
    using that jl b by (auto simp: s' nth_list_update)
  have h: "mc_head s' = mc_head s" "mc_list s' = (mc_list s)[idx := mc_list s ! idx - 1]"
    "length (mc_mem s') = length (mc_mem s)" by (simp_all add: s')
  show "mc_ok s'" by (rule mc_update(1) [OF ok i h(1,2) n h(3) m])
  show "0 < k \<Longrightarrow> k < 64 \<Longrightarrow> k \<noteq> idx \<Longrightarrow> mc_stack s' k = mc_stack s k"
    by (rule mc_update(2) [OF ok i h(1,2) n h(3) m])
qed

lemma mc_pop_aligned_run:
  assumes ok: "mc_ok s" and i: "0 < idx" "idx < 64"
  shows "mc_pop_aligned s idx algn =
    (let js = filter (\<lambda>j. mc_stack s idx ! j AND (algn - 1) = 0) [0..<length (mc_stack s idx)] in
     if js = [] then Some (s, 0)
     else Some (s\<lparr>mc_mem := (mc_mem s)[mc_head s ! (idx - 1) + last js := mc_mem s ! (mc_list s ! idx - 1)],
           mc_list := (mc_list s)[idx := mc_list s ! idx - 1]\<rparr>, mc_stack s idx ! last js))"
proof -
  note b = mc_bounds [OF ok i]
  have "mc_pop_aligned s idx algn = mc_pop_loop s idx algn (mc_list s ! idx) (mc_list s ! idx - 1)"
    using b mc_head_before [OF ok i] by (simp add: mc_pop_aligned_def)
  also have "\<dots> = (let js = filter (\<lambda>j. mc_stack s idx ! j AND (algn - 1) = 0) [0..<length (mc_stack s idx)] in
     if js = [] then Some (s, 0)
     else Some (s\<lparr>mc_mem := (mc_mem s)[mc_head s ! (idx - 1) + last js := mc_mem s ! (mc_list s ! idx - 1)],
           mc_list := (mc_list s)[idx := mc_list s ! idx - 1]\<rparr>, mc_stack s idx ! last js))"
    by (rule mc_pop_search [OF ok i]) (use b in \<open>simp_all add: mc_stack_length\<close>)
  finally show ?thesis .
qed

text \<open>An object that the cache holds and that is aligned as the request asks is served from the cache: an allocation
  takes one such object out of the stack of its class, and changes neither the other classes nor the zone.\<close>

lemma mc_allocate_hit:
  assumes ok: "mc_ok s" and c: "get_size_class (lsize l) = Some (Base idx)" and i: "0 < idx" "idx < 64"
    and al: "\<exists>x\<in>set (mc_stack s idx). x AND (lalign l - 1) = 0" and nz: "0 \<notin> set (mc_stack s idx)"
  shows "\<exists>s' x. mc_allocate Z s l = Some (s', Inr x) \<and> x \<in> set (mc_stack s idx) \<and> x AND (lalign l - 1) = 0 \<and>
    mset (mc_stack s' idx) = mset (mc_stack s idx) - {#x#} \<and> mc_ok s' \<and> mc_zone s' = mc_zone s \<and>
    (\<forall>k. 0 < k \<and> k < 64 \<and> k \<noteq> idx \<longrightarrow> mc_stack s' k = mc_stack s k)"
proof -
  note b = mc_bounds [OF ok i] and len = mc_okD(1-3) [OF ok] and hb = mc_head_before [OF ok i]
  have ne: "mc_head s ! (idx - 1) < mc_list s ! idx"
    using al by (auto simp: mc_stack_def)
  define js where "js = filter (\<lambda>j. mc_stack s idx ! j AND (lalign l - 1) = 0) [0..<length (mc_stack s idx)]"
  define j where "j = (if lalign l = 1 then length (mc_stack s idx) - 1 else last js)"
  from al obtain y where "y \<in> set (mc_stack s idx)" "y AND (lalign l - 1) = 0" by blast
  then obtain q where "q < length (mc_stack s idx)" "mc_stack s idx ! q AND (lalign l - 1) = 0"
    by (metis in_set_conv_nth)
  then have "q \<in> set js" by (simp add: js_def)
  then have js: "js \<noteq> []" by auto
  then have "last js \<in> set js" by simp
  then have j: "j < length (mc_stack s idx)" "mc_stack s idx ! j AND (lalign l - 1) = 0"
    using ne by (auto simp: j_def js_def mc_stack_length)
  have x: "mc_stack s idx ! j \<in> set (mc_stack s idx)" using j(1) by simp
  with nz have x0: "mc_stack s idx ! j \<noteq> 0" by metis
  define s' where "s' = s\<lparr>mc_mem := (mc_mem s)[mc_head s ! (idx - 1) + j := mc_mem s ! (mc_list s ! idx - 1)],
      mc_list := (mc_list s)[idx := mc_list s ! idx - 1]\<rparr>"
  have "mc_allocate Z s l = Some (s', Inr (mc_stack s idx ! j))"
  proof (cases "lalign l = 1")
    case True
    have jt: "mc_head s ! (idx - 1) + j = mc_list s ! idx - 1"
      using True ne by (simp add: j_def mc_stack_length)
    then have "mc_stack s idx ! j = mc_mem s ! (mc_list s ! idx - 1)"
      using j(1) by (simp add: mc_stack_def)
    moreover from this have "slot_read s (mc_list s ! idx - 1) = Some (mc_stack s idx ! j)"
      using ne b len by (simp add: slot_read_def)
    ultimately show ?thesis
      using True c b ne x0 hb jt by (simp add: mc_allocate_def set_list_def s'_def)
  next
    case False
    then show ?thesis
      using c b x0 js hb mc_pop_aligned_run [OF ok i, of "lalign l", folded js_def]
      by (simp add: mc_allocate_def mc_alloc_slowpath_def s'_def j_def)
  qed
  then show ?thesis
    using mc_take_out [OF ok i j(1) s'_def] x j(2) by (intro exI [of _ s'] exI [of _ "mc_stack s idx ! j"]) (auto simp: s'_def)
qed


lemma mc_no_hit:
  assumes ok: "mc_ok s" and i: "0 < idx" "idx < 64" and al: "\<forall>x\<in>set (mc_stack s idx). x AND (lalign l - 1) \<noteq> 0"
    and c: "get_size_class (lsize l) = Some (Base idx)"
  shows "mc_allocate Z s l = mc_alloc_slowpath Z s idx (lalign l)" and "mc_pop_aligned s idx (lalign l) = Some (s, 0)"
proof -
  have "lalign l = 1 \<Longrightarrow> mc_stack s idx = []"
    using al by (cases "mc_stack s idx") auto
  then have "\<not> (mc_head s ! (idx - 1) < mc_list s ! idx \<and> lalign l = 1)"
    by (auto simp: mc_stack_def)
  then show "mc_allocate Z s l = mc_alloc_slowpath Z s idx (lalign l)"
    using c mc_head_before [OF ok i] by (auto simp: mc_allocate_def)
  have "filter (\<lambda>j. mc_stack s idx ! j AND (lalign l - 1) = 0) [0..<length (mc_stack s idx)] = []"
    using al by (auto simp: filter_empty_conv)
  then show "mc_pop_aligned s idx (lalign l) = Some (s, 0)"
    by (simp add: mc_pop_aligned_run [OF ok i])
qed

text \<open>A class after a batch was written behind its objects and \<open>k\<close> of it were taken in.\<close>

definition mc_filled :: "'z mem_cache \<Rightarrow> nat \<Rightarrow> nat list \<Rightarrow> nat \<Rightarrow> 'z mem_cache" where
  "mc_filled s idx arr k = (let L = mc_list s ! idx in
     s\<lparr>mc_mem := take L (mc_mem s) @ arr @ drop (L + length arr) (mc_mem s), mc_list := (mc_list s)[idx := L + k]\<rparr>)"

lemma mc_filled_mem:
  assumes ok: "mc_ok s" and i: "0 < idx" "idx < 64" and arr: "mc_list s ! idx + length arr = mc_head s ! idx"
  shows "length (mc_mem (mc_filled s idx arr k)) = 7168"
    and "q < 7168 \<Longrightarrow> mc_mem (mc_filled s idx arr k) ! q =
      (if mc_list s ! idx \<le> q \<and> q < mc_head s ! idx then arr ! (q - mc_list s ! idx) else mc_mem s ! q)"
  using arr mc_bounds [OF ok i] mc_okD(3) [OF ok] by (auto simp: mc_filled_def Let_def nth_append)

lemma mc_filled_ok:
  assumes ok: "mc_ok s" and i: "0 < idx" "idx < 64" and arr: "mc_list s ! idx + length arr = mc_head s ! idx" and k: "k \<le> length arr"
  shows "mc_ok (mc_filled s idx arr k)" and "mc_stack (mc_filled s idx arr k) idx = mc_stack s idx @ take k arr"
    and "0 < j \<Longrightarrow> j < 64 \<Longrightarrow> j \<noteq> idx \<Longrightarrow> mc_stack (mc_filled s idx arr k) j = mc_stack s j"
proof -
  note b = mc_bounds [OF ok i] and len = mc_okD(1-3) [OF ok] and mem = mc_filled_mem(2) [OF ok i arr, where k = k]
  define s' where "s' = mc_filled s idx arr k"
  have sh: "mc_head s' = mc_head s" "mc_list s' = (mc_list s)[idx := mc_list s ! idx + k]"
    by (simp_all add: s'_def mc_filled_def Let_def)
  have same: "mc_mem s' ! q = mc_mem s ! q" if "q < mc_head s ! (idx - 1) \<or> mc_head s ! idx \<le> q" "q < 7168" for q
    using that mem [of q] b by (auto simp: s'_def)
  have up: "mc_head s ! (idx - 1) \<le> mc_list s ! idx + k" "mc_list s ! idx + k \<le> mc_head s ! idx" "length (mc_mem s') = length (mc_mem s)"
    using b k arr len mc_filled_mem(1) [OF ok i arr, where k = k] by (simp_all add: s'_def)
  show "mc_ok (mc_filled s idx arr k)"
    using mc_update(1) [OF ok i sh up same] by (simp add: s'_def)
  show "0 < j \<Longrightarrow> j < 64 \<Longrightarrow> j \<noteq> idx \<Longrightarrow> mc_stack (mc_filled s idx arr k) j = mc_stack s j"
    using mc_update(2) [OF ok i sh up same] by (simp add: s'_def)
  obtain d where d: "mc_list s ! idx = mc_head s ! (idx - 1) + d" using b(2) by (auto simp: le_iff_add)
  have "map ((!) (mc_mem s')) [mc_head s ! (idx - 1)..<mc_list s ! idx + k] =
      map ((!) (mc_mem s')) [mc_head s ! (idx - 1)..<mc_list s ! idx] @ map ((!) (mc_mem s')) [mc_list s ! idx..<mc_list s ! idx + k]"
    by (simp only: upt_add_eq_append [OF b(2)] map_append)
  also have "map ((!) (mc_mem s')) [mc_head s ! (idx - 1)..<mc_list s ! idx] = mc_stack s idx"
    using b mem by (simp add: mc_stack_def s'_def)
  also have "map ((!) (mc_mem s')) [mc_list s ! idx..<mc_list s ! idx + k] = take k arr"
    using b k arr mem by (intro nth_equalityI) (auto simp: s'_def)
  finally show "mc_stack (mc_filled s idx arr k) idx = mc_stack s idx @ take k arr"
    using i len by (simp add: mc_stack_def sh flip: s'_def)
qed

text \<open>Without an aligned object the cache takes a batch for half of its slots, or for those that are free, from the
  zone. The caller gets the last object of the batch, whatever its alignment, and the others are stacked on the objects
  the class held.\<close>

lemma mc_refill:
  assumes ok: "mc_ok s" and c: "get_size_class (lsize l) = Some (Base idx)" and i: "0 < idx" "idx < 64"
    and al: "\<forall>x\<in>set (mc_stack s idx). x AND (lalign l - 1) \<noteq> 0"
    and room: "mc_list s ! idx < mc_head s ! idx" and cap: "2 \<le> mc_head s ! idx - mc_head s ! (idx - 1)"
    and n: "n = min ((mc_head s ! idx - mc_head s ! (idx - 1)) div 2) (mc_head s ! idx - mc_list s ! idx)"
    and zone: "za_batch Z (mc_zone s) idx (take (mc_head s ! idx - mc_list s ! idx) (drop (mc_list s ! idx) (mc_mem s))) n =
      Some (z, arr, Inr p)"
    and arr: "length arr = mc_head s ! idx - mc_list s ! idx" "arr ! (n - 1) \<noteq> 0"
  shows "\<exists>s'. mc_allocate Z s l = Some (s', Inr (arr ! (n - 1))) \<and> mc_ok s' \<and> mc_zone s' = z \<and>
    mc_stack s' idx = mc_stack s idx @ take (n - 1) arr \<and>
    (\<forall>k. 0 < k \<and> k < 64 \<and> k \<noteq> idx \<longrightarrow> mc_stack s' k = mc_stack s k)"
proof -
  note b = mc_bounds [OF ok i] and len = mc_okD(1-3) [OF ok] and hb = mc_head_before [OF ok i]
  define L H where "L = mc_list s ! idx" and "H = mc_head s ! idx"
  have LH: "L < H" "H \<le> 7168" "34 \<le> L" and n0: "0 < n" "n \<le> H - L"
    using room b cap n by (simp_all add: L_def H_def)
  have arr': "mc_list s ! idx + length arr = mc_head s ! idx"
    using arr(1) room by simp
  define s' where "s' = (mc_filled s idx arr (n - 1))\<lparr>mc_zone := z\<rparr>"
  have sl: "mc_slice s L H = Some (take (H - L) (drop L (mc_mem s)))"
    using LH len by (simp add: mc_slice_def)
  have s16: "sub16 H (mc_head s ! (idx - 1)) = H - mc_head s ! (idx - 1)" "sub16 H L = H - L"
    using LH b by (intro sub16_exact; simp add: L_def H_def)+
  have half: "min (sub16 H (mc_head s ! (idx - 1)) div 2) (H - L) = n"
    unfolding s16 using n by (simp_all only: L_def H_def)
  have small: "wsub n 1 = n - 1" "(n - 1) mod 65536 = n - 1" "add16 L (n - 1) = L + (n - 1)"
    using n0 LH by (auto intro!: wsub_exact add16_exact mod_less)
  have at: "aget (mc_list s) idx = Some L" "aget (mc_head s) idx = Some H"
    "aget (mc_head s) (wsub idx 1) = Some (mc_head s ! (idx - 1))" "aget (mc_list s') idx = Some (L + (n - 1))"
    using hb by (simp_all add: L_def H_def s'_def mc_filled_def Let_def)
  have wr: "mc_list (put_slice_back s L arr) = mc_list s"
    "set_list ((put_slice_back s L arr)\<lparr>mc_zone := z\<rparr>) idx (L + (n - 1)) = Some s'"
    using hb by (simp_all add: set_list_def put_slice_back_def s'_def mc_filled_def L_def Let_def)
  have "L + (n - 1) < H" using n0 LH by linarith
  then have "slot_read s' (L + (n - 1)) = Some (arr ! (n - 1))"
    using LH mc_filled_mem(1) [OF ok i arr', where k = "n - 1"] mc_filled_mem(2) [OF ok i arr', where k = "n - 1" and q = "L + (n - 1)"]
    by (simp add: slot_read_def s'_def flip: L_def H_def del: One_nat_def)
  then have "mc_alloc_slowpath Z s idx (lalign l) = Some (s', Inr (arr ! (n - 1)))"
    unfolding mc_alloc_slowpath_def mc_no_hit(2) [OF ok i al c] Let_def
    using zone [folded L_def H_def] LH arr(2)
    by (simp del: One_nat_def add: at half s16(2) small sl wr)
  moreover have "n - 1 \<le> length arr" using n0 arr(1) by (simp add: L_def H_def)
  ultimately show ?thesis
    using mc_no_hit(1) [OF ok i al c] mc_filled_ok [OF ok i arr', of "n - 1"]
    by (intro exI [of _ s']) (simp add: s'_def mc_ok_def mc_stack_def)
qed

text \<open>A thread cache whose class is full of objects, none of them aligned as the request asks, panics on the request: it
  asserts that there is a free slot to fill, before it turns to the zone.\<close>

lemma mc_full_misaligned_panics:
  assumes ok: "mc_ok s" and c: "get_size_class (lsize l) = Some (Base idx)" and i: "0 < idx" "idx < 64"
    and al: "\<forall>x\<in>set (mc_stack s idx). x AND (lalign l - 1) \<noteq> 0"
    and full: "mc_list s ! idx = mc_head s ! idx"
  shows "mc_allocate Z s l = None"
  using mc_no_hit [OF ok i al c] mc_head_before [OF ok i] full mc_bounds(4) [OF ok i]
  by (simp add: mc_alloc_slowpath_def)


section \<open>Giving an object back\<close>

text \<open>An object given back to a class with a free slot is stacked on the others of its class; nothing else changes, and
  the zone is not called.\<close>

lemma mc_deallocate_push:
  assumes ok: "mc_ok s" and c: "get_size_class (lsize l) = Some (Base idx)" and i: "0 < idx" "idx < 64"
    and room: "mc_list s ! idx < mc_head s ! idx"
  shows "\<exists>s'. mc_deallocate Z s p l = Some s' \<and> mc_ok s' \<and> mc_zone s' = mc_zone s \<and>
    mc_stack s' idx = mc_stack s idx @ [p] \<and>
    (\<forall>k. 0 < k \<and> k < 64 \<and> k \<noteq> idx \<longrightarrow> mc_stack s' k = mc_stack s k)"
proof -
  note b = mc_bounds [OF ok i] and len = mc_okD(1-3) [OF ok] and hb = mc_head_before [OF ok i]
  define L where "L = mc_list s ! idx"
  have L: "L < mc_head s ! idx" "34 \<le> L" "L < 7168" "mc_head s ! (idx - 1) \<le> L"
    using room b by (simp_all add: L_def)
  define s' where "s' = s\<lparr>mc_mem := (mc_mem s)[L := p], mc_list := (mc_list s)[idx := L + 1]\<rparr>"
  have "mc_push s p idx = Some (s', True)"
    using L hb len by (simp add: mc_push_def slot_write_def set_list_def s'_def L_def [symmetric])
  then have "mc_deallocate Z s p l = Some s'"
    using c by (simp add: mc_deallocate_def)
  moreover have "mc_stack s' idx = mc_stack s idx @ [p]"
    using L len hb by (auto simp: mc_stack_def s'_def L_def [symmetric])
  moreover have up: "mc_head s' = mc_head s" "mc_list s' = (mc_list s)[idx := L + 1]" "mc_head s ! (idx - 1) \<le> L + 1"
    "L + 1 \<le> mc_head s ! idx" "length (mc_mem s') = length (mc_mem s)"
    using L by (simp_all add: s'_def)
  have same: "mc_mem s' ! q = mc_mem s ! q" if "q < mc_head s ! (idx - 1) \<or> mc_head s ! idx \<le> q" for q
    using that L by (auto simp: s'_def nth_list_update)
  ultimately show ?thesis
    using mc_update [OF ok i up same] by (intro exI [of _ s']) (simp add: s'_def)
qed

text \<open>An object given back to a full class makes room first: the newest half of the class goes to the zone in one batch,
  the older half stays, and the object is put on top of it.\<close>

lemma mc_deallocate_overflow:
  assumes ok: "mc_ok s" and c: "get_size_class (lsize l) = Some (Base idx)" and i: "0 < idx" "idx < 64"
    and full: "mc_list s ! idx = mc_head s ! idx" and cap: "length (mc_stack s idx) = 2 * h" "0 < h"
    and zone: "za_free_batch Z (mc_zone s) idx (drop h (mc_stack s idx)) h = Some (z, Inr ())"
  shows "\<exists>s'. mc_deallocate Z s p l = Some s' \<and> mc_ok s' \<and> mc_zone s' = z \<and>
    mc_stack s' idx = take h (mc_stack s idx) @ [p] \<and>
    (\<forall>k. 0 < k \<and> k < 64 \<and> k \<noteq> idx \<longrightarrow> mc_stack s' k = mc_stack s k)"
proof -
  note b = mc_bounds [OF ok i] and len = mc_okD(1-3) [OF ok] and hb = mc_head_before [OF ok i]
  define B H where "B = mc_head s ! (idx - 1)" and "H = mc_head s ! idx"
  have H: "H = B + 2 * h" "34 \<le> B" "H \<le> 7168" and L: "mc_list s ! idx = H"
    using b cap full by (simp_all add: mc_stack_length B_def H_def)
  have s16: "sub16 H B = 2 * h" "sub16 H h = B + h" "sub16 h 1 = h - 1" "sub16 H (h - 1) = B + h + 1"
    "sub16 H (B + h) = h" "sub16 (B + h + 1) 1 = B + h"
    using H(1,3) cap(2) by simp_all
  have at: "aget (mc_list s) idx = Some H" "aget (mc_head s) idx = Some H" "aget (mc_head s) (wsub idx 1) = Some B"
    using hb L by (simp_all add: B_def H_def)
  have push: "mc_push s p idx = Some (s, False)"
    using at by (simp add: mc_push_def)
  have sl: "mc_slice s (B + h) H = Some (drop h (mc_stack s idx))"
  proof -
    have "drop h (mc_stack s idx) = take h (drop (B + h) (mc_mem s))"
      using H len unfolding mc_stack_take [OF ok i] B_def [symmetric] L by (simp add: drop_take add.commute)
    then show ?thesis using H len s16(5) by (simp add: mc_slice_def)
  qed
  define s1 where "s1 = s\<lparr>mc_zone := z, mc_list := (mc_list s)[idx := B + h + 1]\<rparr>"
  define s' where "s' = s1\<lparr>mc_mem := (mc_mem s)[B + h := p]\<rparr>"
  have st: "set_list (s\<lparr>mc_zone := z\<rparr>) idx (B + h + 1) = Some s1" "aget (mc_list s1) idx = Some (B + h + 1)"
    using hb by (simp_all add: set_list_def s1_def)
  have wr: "slot_write s1 (B + h) p = Some s'"
    using H len cap(2) by (simp add: slot_write_def s'_def s1_def)
  have "mc_deallocate Z s p l = Some s'"
    using c push at s16 sl zone st wr H(2)
    by (simp del: One_nat_def add: mc_deallocate_def Let_def)
  moreover have "mc_stack s' idx = take h (mc_stack s idx) @ [p]"
  proof (rule nth_equalityI)
    have old: "mc_stack s idx = map ((!) (mc_mem s)) [B..<B + 2 * h]" and mem: "mc_mem s' = (mc_mem s)[B + h := p]"
      by (simp_all only: mc_stack_def B_def L H(1)) (simp add: s'_def s1_def B_def)
    have new: "mc_stack s' idx = map ((!) (mc_mem s')) [B..<B + h + 1]"
      using hb(4) by (simp add: mc_stack_def s'_def s1_def B_def)
    show "length (mc_stack s' idx) = length (take h (mc_stack s idx) @ [p])"
      using hb cap by (simp add: mc_stack_length s'_def s1_def B_def)
    fix m
    assume "m < length (mc_stack s' idx)"
    then have "m \<le> h" using hb by (simp add: mc_stack_length s'_def s1_def B_def)
    then show "mc_stack s' idx ! m = (take h (mc_stack s idx) @ [p]) ! m"
      using hb(4) cap len H unfolding old new by (simp add: mem nth_append nth_list_update)
  qed
  moreover have up: "mc_head s' = mc_head s" "mc_list s' = (mc_list s)[idx := B + h + 1]" "mc_head s ! (idx - 1) \<le> B + h + 1"
    "B + h + 1 \<le> mc_head s ! idx" "length (mc_mem s') = length (mc_mem s)"
    using H cap(2) b by (simp_all add: s'_def s1_def B_def H_def)
  have same: "mc_mem s' ! q = mc_mem s ! q" if "q < mc_head s ! (idx - 1) \<or> mc_head s ! idx \<le> q" for q
  proof -
    have "q \<noteq> B + h" using that H cap(2) by (auto simp: B_def H_def)
    then show ?thesis by (simp add: s'_def s1_def)
  qed
  ultimately show ?thesis
    using mc_update [OF ok i up same] by (intro exI [of _ s']) (simp add: s'_def s1_def)
qed


section \<open>An example\<close>

text \<open>Class 1 (8 bytes) owns the slots from 34 to 38 and holds the addresses 4096 and 4104; the zone counts the batches it
  served.\<close>

definition mc_demo :: "nat list \<Rightarrow> nat mem_cache" where
  "mc_demo st = \<lparr>mc_head = 34 # replicate 63 38, mc_list = (34 # replicate 63 38)[1 := 34 + length st],
    mc_mem = (replicate 34 0 @ st) @ replicate (7134 - length st) 0, mc_zone = 0\<rparr>"

definition mc_demo_zone :: "nat zone_api" where
  "mc_demo_zone = \<lparr>za_batch = \<lambda>z idx arr n. Some (z + 1, map (\<lambda>k. 8192 + 8 * k) [0..<length arr], Inr 8192),
    za_free_batch = \<lambda>z idx arr n. Some (z + 10, Inr ()), za_slab = \<lambda>z idx a. Some (z, Inl ENOMEM),
    za_alloc = \<lambda>z sz a. Some (z, Inl ENOMEM), za_dealloc = \<lambda>z p sz. Some z\<rparr>"

lemma mc_demo_ok: "length st \<le> 4 \<Longrightarrow> mc_ok (mc_demo st)"
  by (auto simp: mc_ok_def mc_demo_def nth_Cons' nth_list_update)

lemma mc_demo_stack: "length st \<le> 4 \<Longrightarrow> mc_stack (mc_demo st) 1 = st"
  by (intro nth_equalityI) (auto simp: mc_stack_def mc_demo_def nth_append nth_list_update)

lemma mc_class_1: "get_size_class 8 = Some (Base 1)"
  by (simp add: get_size_class_def get_sizeclass_tuple2_def IDX_ARRAY_def TC_SIZE_ARRAY_def wshr_def aget_def drop_bit_eq_div)

lemma mc_allocate_hit_witness:
  "\<exists>s' x. mc_allocate mc_demo_zone (mc_demo [4096, 4104]) \<lparr>lsize = 8, lalign = 16\<rparr> = Some (s', Inr x) \<and>
    x \<in> set (mc_stack (mc_demo [4096, 4104]) 1) \<and> x AND (16 - 1) = 0 \<and>
    mset (mc_stack s' 1) = mset (mc_stack (mc_demo [4096, 4104]) 1) - {#x#} \<and> mc_ok s' \<and>
    mc_zone s' = mc_zone (mc_demo [4096, 4104]) \<and>
    (\<forall>k. 0 < k \<and> k < 64 \<and> k \<noteq> 1 \<longrightarrow> mc_stack s' k = mc_stack (mc_demo [4096, 4104]) k)"
proof -
  have al: "\<exists>x\<in>set (mc_stack (mc_demo [4096, 4104]) 1). x AND (lalign \<lparr>lsize = 8, lalign = 16\<rparr> - 1) = 0"
    by (subst mc_demo_stack) simp_all
  have nz: "0 \<notin> set (mc_stack (mc_demo [4096, 4104]) 1)"
    by (subst mc_demo_stack) simp_all
  show ?thesis
    using mc_allocate_hit [of "mc_demo [4096, 4104]" "\<lparr>lsize = 8, lalign = 16\<rparr>" 1, OF mc_demo_ok _ _ _ al nz] mc_class_1
    by simp
qed

lemma mc_refill_witness:
  "\<exists>s'. mc_allocate mc_demo_zone (mc_demo [4104]) \<lparr>lsize = 8, lalign = 16\<rparr> = Some (s', Inr 8200) \<and> mc_ok s' \<and> mc_zone s' = 1 \<and>
    mc_stack s' 1 = [4104, 8192] \<and> (\<forall>k. 0 < k \<and> k < 64 \<and> k \<noteq> 1 \<longrightarrow> mc_stack s' k = mc_stack (mc_demo [4104]) k)"
proof -
  have al: "\<forall>x\<in>set (mc_stack (mc_demo [4104]) 1). x AND (lalign \<lparr>lsize = 8, lalign = 16\<rparr> - 1) \<noteq> 0"
    by (subst mc_demo_stack) simp_all
  have n: "2 = min ((mc_head (mc_demo [4104]) ! 1 - mc_head (mc_demo [4104]) ! (1 - 1)) div 2)
      (mc_head (mc_demo [4104]) ! 1 - mc_list (mc_demo [4104]) ! 1)"
    by (simp add: mc_demo_def)
  have "\<exists>s'. mc_allocate mc_demo_zone (mc_demo [4104]) \<lparr>lsize = 8, lalign = 16\<rparr> =
        Some (s', Inr ([8192, 8200, 8208] ! (2 - 1))) \<and> mc_ok s' \<and> mc_zone s' = 1 \<and>
      mc_stack s' 1 = mc_stack (mc_demo [4104]) 1 @ take (2 - 1) [8192, 8200, 8208] \<and>
      (\<forall>k. 0 < k \<and> k < 64 \<and> k \<noteq> 1 \<longrightarrow> mc_stack s' k = mc_stack (mc_demo [4104]) k)"
    by (rule mc_refill [OF mc_demo_ok _ _ _ al _ _ n, where p = 8192])
      (simp_all add: mc_class_1 [unfolded One_nat_def] mc_demo_def mc_demo_zone_def upt_rec)
  then show ?thesis using mc_demo_stack [of "[4104]"] by simp
qed

lemma mc_full_misaligned_panics_witness:
  "mc_allocate mc_demo_zone (mc_demo [4104, 4120, 4136, 4152]) \<lparr>lsize = 8, lalign = 16\<rparr> = None"
proof -
  have al: "\<forall>x\<in>set (mc_stack (mc_demo [4104, 4120, 4136, 4152]) 1). x AND (lalign \<lparr>lsize = 8, lalign = 16\<rparr> - 1) \<noteq> 0"
    by (subst mc_demo_stack) simp_all
  show ?thesis
    by (rule mc_full_misaligned_panics [OF mc_demo_ok _ _ _ al])
      (simp_all add: mc_class_1 [unfolded One_nat_def] mc_demo_def)
qed

lemma mc_deallocate_push_witness:
  "\<exists>s'. mc_deallocate mc_demo_zone (mc_demo [4096]) 4104 \<lparr>lsize = 8, lalign = 8\<rparr> = Some s' \<and> mc_ok s' \<and>
    mc_zone s' = mc_zone (mc_demo [4096]) \<and> mc_stack s' 1 = mc_stack (mc_demo [4096]) 1 @ [4104] \<and>
    (\<forall>k. 0 < k \<and> k < 64 \<and> k \<noteq> 1 \<longrightarrow> mc_stack s' k = mc_stack (mc_demo [4096]) k)"
  by (rule mc_deallocate_push [OF mc_demo_ok]) (simp_all add: mc_class_1 [unfolded One_nat_def] mc_demo_def)

lemma mc_deallocate_overflow_witness:
  "\<exists>s'. mc_deallocate mc_demo_zone (mc_demo [1, 2, 3, 4]) 5 \<lparr>lsize = 8, lalign = 8\<rparr> = Some s' \<and> mc_ok s' \<and> mc_zone s' = 10 \<and>
    mc_stack s' 1 = take 2 (mc_stack (mc_demo [1, 2, 3, 4]) 1) @ [5] \<and>
    (\<forall>k. 0 < k \<and> k < 64 \<and> k \<noteq> 1 \<longrightarrow> mc_stack s' k = mc_stack (mc_demo [1, 2, 3, 4]) k)"
proof (rule mc_deallocate_overflow [OF mc_demo_ok])
  show "length (mc_stack (mc_demo [1, 2, 3, 4]) 1) = 2 * 2"
    by (subst mc_demo_stack) simp_all
qed (simp_all add: mc_class_1 [unfolded One_nat_def] mc_demo_def mc_demo_zone_def)

section \<open>The layout stays\<close>

text \<open>The block keeps its layout, and every class has at least two slots.\<close>

definition mc_wf :: "'z mem_cache \<Rightarrow> bool" where
  "mc_wf s \<longleftrightarrow> mc_ok s \<and> (\<forall>i. 0 < i \<and> i < 64 \<longrightarrow> mc_head s ! (i - 1) + 2 \<le> mc_head s ! i)"

lemma mc_wfD: "mc_wf s \<Longrightarrow> mc_ok s" "mc_wf s \<Longrightarrow> 0 < i \<Longrightarrow> i < 64 \<Longrightarrow> mc_head s ! (i - 1) + 2 \<le> mc_head s ! i"
  by (simp_all add: mc_wf_def)

text \<open>A step that moves the count of one class inside its range keeps the form, whatever it writes into the slots.\<close>

lemma mc_wf_move:
  assumes wf: "mc_wf s" and h: "mc_head s' = mc_head s" and l: "mc_list s' = (mc_list s)[i := n]"
    and m: "length (mc_mem s') = length (mc_mem s)"
    and n: "0 < i \<Longrightarrow> i < 64 \<Longrightarrow> mc_head s ! (i - 1) \<le> n \<and> n \<le> mc_head s ! i"
  shows "mc_wf s'"
proof -
  have "mc_head s ! (j - 1) \<le> (mc_list s)[i := n] ! j \<and> (mc_list s)[i := n] ! j \<le> mc_head s ! j" if "0 < j" "j < 64" for j
    using that n mc_bounds(2,3) [OF mc_wfD(1) [OF wf] that] mc_okD(2) [OF mc_wfD(1) [OF wf]] by (cases "j = i") auto
  then show ?thesis
    using wf unfolding mc_wf_def mc_ok_def h l m by auto
qed

lemma mc_wf_same:
  assumes "mc_wf s" and "mc_head s' = mc_head s" and "mc_list s' = mc_list s" and "length (mc_mem s') = length (mc_mem s)"
  shows "mc_wf s'"
  using assms unfolding mc_wf_def mc_ok_def by metis

lemma slot_write_shape: "slot_write s i v = Some s' \<Longrightarrow>
  mc_head s' = mc_head s \<and> mc_list s' = mc_list s \<and> length (mc_mem s') = length (mc_mem s)"
  by (auto simp: slot_write_def aset_Some Option.bind_eq_Some_conv split: if_splits)

lemma set_list_shape: "set_list s i v = Some s' \<Longrightarrow>
  mc_head s' = mc_head s \<and> mc_list s' = (mc_list s)[i := v] \<and> mc_mem s' = mc_mem s"
  by (auto simp: set_list_def aset_Some Option.bind_eq_Some_conv)

lemma mc_class_range:
  assumes "aget xs (wsub idx 1) = Some h" and "aget ys idx = Some l" and "length ys = 64" and "length xs = 64"
  shows "0 < idx \<and> idx < 64"
  using assms by (cases "idx = 0") (auto simp: aget_Some wsub_def)

lemma mc_pop_range:
  assumes "mc_ok s" and "mc_pop_aligned s idx algn = Some (s', r)"
  shows "0 < idx \<and> idx < 64"
  using assms(2) mc_okD(1,2) [OF assms(1)] mc_class_range [of "mc_head s" idx _ "mc_list s"]
  by (auto simp: mc_pop_aligned_def Option.bind_eq_Some_conv mc_pop_loop.simps [of s idx])

lemma mc_pop_aligned_wf:
  assumes wf: "mc_wf s" and p: "mc_pop_aligned s idx algn = Some (s', r)"
  shows "mc_wf s' \<and> mc_head s' = mc_head s"
proof -
  note ok = mc_wfD(1) [OF wf]
  have i: "0 < idx" "idx < 64" using mc_pop_range [OF ok p] by auto
  define js where "js = filter (\<lambda>j. mc_stack s idx ! j AND (algn - 1) = 0) [0..<length (mc_stack s idx)]"
  show ?thesis
  proof (cases "js = []")
    case True
    then show ?thesis using p wf by (simp add: mc_pop_aligned_run [OF ok i, of algn, folded js_def])
  next
    case False
    then have "last js \<in> set js" by simp
    then have j: "last js < length (mc_stack s idx)" by (simp add: js_def)
    have s': "s' = s\<lparr>mc_mem := (mc_mem s)[mc_head s ! (idx - 1) + last js := mc_mem s ! (mc_list s ! idx - 1)],
        mc_list := (mc_list s)[idx := mc_list s ! idx - 1]\<rparr>"
      using p False by (simp add: mc_pop_aligned_run [OF ok i, of algn, folded js_def])
    show ?thesis
      using mc_take_out(2) [OF ok i j s'] wf by (simp add: mc_wf_def s')
  qed
qed

lemma mc_slowpath_wf:
  assumes wf: "mc_wf s" and p: "mc_alloc_slowpath Z s idx algn = Some (s', r)"
    and Z: "\<And>z i arr n z' arr' a. za_batch Z z i arr n = Some (z', arr', a) \<Longrightarrow> length arr' = length arr"
  shows "mc_wf s' \<and> mc_head s' = mc_head s"
proof -
  obtain s1 x where p1: "mc_pop_aligned s idx algn = Some (s1, x)"
    using p by (auto simp: mc_alloc_slowpath_def Option.bind_eq_Some_conv)
  have i: "0 < idx" "idx < 64" using mc_pop_range [OF mc_wfD(1) [OF wf] p1] by auto
  have w1: "mc_wf s1" "mc_head s1 = mc_head s" using mc_pop_aligned_wf [OF wf p1] by auto
  note b = mc_bounds [OF mc_wfD(1) [OF w1(1)] i] and cap = mc_wfD(2) [OF w1(1) i] and hb = mc_head_before [OF mc_wfD(1) [OF w1(1)] i]
  show ?thesis
  proof (cases "x = 0")
    case False
    then show ?thesis using p p1 w1 by (simp add: mc_alloc_slowpath_def)
  next
    case True
    define L H B where "L = mc_list s1 ! idx" and "H = mc_head s1 ! idx" and "B = mc_head s1 ! (idx - 1)"
    have LH: "B \<le> L" "L \<le> H" "H \<le> 7168" "B + 2 \<le> H" using b cap by (simp_all add: L_def H_def B_def)
    have sub: "sub16 H L = H - L" "sub16 H B = H - B" using LH by simp_all
    define n where "n = min ((H - B) div 2) (H - L)"
    have at: "aget (mc_list s1) idx = Some L" "aget (mc_head s1) idx = Some H" "aget (mc_head s1) (wsub idx 1) = Some B"
      using hb by (simp_all add: L_def H_def B_def)
    obtain arr z arr' ans where room: "L < H" and arr: "mc_slice s1 L H = Some arr"
      and call: "za_batch Z (mc_zone s1) idx arr n = Some (z, arr', ans)"
      using p p1 True at sub by (auto simp: mc_alloc_slowpath_def Option.bind_eq_Some_conv n_def Let_def split: if_splits)
    define s2 where "s2 = (put_slice_back s1 L arr')\<lparr>mc_zone := z\<rparr>"
    have len: "length arr' = H - L"
      using Z [OF call] arr sub LH by (auto simp: mc_slice_def mc_okD(3) [OF mc_wfD(1) [OF w1(1)]] split: if_splits)
    have s2: "mc_head s2 = mc_head s1" "mc_list s2 = mc_list s1" "length (mc_mem s2) = length (mc_mem s1)"
      using len LH mc_okD(3) [OF mc_wfD(1) [OF w1(1)]] by (simp_all add: s2_def put_slice_back_def)
    show ?thesis
    proof (cases ans)
      case (Inl e)
      then have "s' = s2"
        using p p1 True at sub arr call room by (simp add: mc_alloc_slowpath_def n_def s2_def)
      then show ?thesis using mc_wf_same [OF w1(1) s2] s2(1) w1(2) by simp
    next
      case (Inr q)
      have psb: "mc_list (put_slice_back s1 L arr') = mc_list s1" by (simp add: put_slice_back_def)
      have n: "0 < n" "n \<le> H - L" using LH room by (simp_all add: n_def)
      have n1: "add16 L (wsub n 1 mod 2 ^ 16) = L + (n - 1)"
        using n LH by (subst wsub_exact) (auto intro: trans [OF arg_cong [of _ _ "add16 L", OF mod_less]])
      have "set_list s2 idx (L + (n - 1)) = Some s'"
        using p p1 True at sub arr call room Inr n1 s2(2) psb
        by (auto simp: mc_alloc_slowpath_def n_def [symmetric] s2_def [symmetric] Option.bind_eq_Some_conv Let_def split: if_splits)
      note sh = set_list_shape [OF this]
      have "B \<le> L + (n - 1) \<and> L + (n - 1) \<le> H" using n LH by linarith
      then have "mc_wf s'"
        by (intro mc_wf_move [OF w1(1), of s' idx "L + (n - 1)"]) (use sh s2 in \<open>simp_all add: L_def H_def B_def\<close>)
      then show ?thesis using sh s2 w1(2) by simp
    qed
  qed
qed


lemma mc_deallocate_wf:
  assumes wf: "mc_wf s" and d: "mc_deallocate Z s p l = Some s'"
  shows "mc_wf s' \<and> mc_head s' = mc_head s"
proof -
  note ok = mc_wfD(1) [OF wf]
  obtain c where c: "get_size_class (lsize l) = Some c"
    using d by (auto simp: mc_deallocate_def Option.bind_eq_Some_conv)
  show ?thesis
  proof (cases c)
    case (Large sz)
    then have "mc_head s' = mc_head s \<and> mc_list s' = mc_list s \<and> mc_mem s' = mc_mem s"
      using d c by (auto simp: mc_deallocate_def mc_dealloc_to_zone_def Option.bind_eq_Some_conv)
    then show ?thesis using mc_wf_same [OF wf, of s'] by simp
  next
    case (Base idx)
    obtain s1 b where p1: "mc_push s p idx = Some (s1, b)"
      using d c Base by (auto simp: mc_deallocate_def Option.bind_eq_Some_conv)
    then have rng: "idx < 64"
      using mc_okD(1,2) [OF ok] by (auto simp: mc_push_def Option.bind_eq_Some_conv aget_Some)
    define L H where "L = mc_list s ! idx" and "H = mc_head s ! idx"
    have at: "aget (mc_list s) idx = Some L" "aget (mc_head s) idx = Some H"
      using rng mc_okD(1,2) [OF ok] by (simp_all add: L_def H_def)
    show ?thesis
    proof (cases "H \<le> L")
      case False
      then obtain s0 where w: "slot_write s L p = Some s0" and st: "set_list s0 idx (add16 L 1) = Some s1" and b: "b" "add16 L 1 \<le> H"
        using p1 at by (auto simp: mc_push_def Option.bind_eq_Some_conv split: if_splits)
      have "s' = s1" using d c Base p1 b by (simp add: mc_deallocate_def)
      moreover have "mc_wf s1"
      proof (rule mc_wf_move [OF wf])
        show "mc_head s1 = mc_head s" "mc_list s1 = (mc_list s)[idx := add16 L 1]" "length (mc_mem s1) = length (mc_mem s)"
          using slot_write_shape [OF w] set_list_shape [OF st] by simp_all
        assume i: "0 < idx" "idx < 64"
        have "add16 L 1 = L + 1"
          using False mc_bounds(4) [OF ok i] by (intro add16_exact) (simp add: H_def)
        then show "mc_head s ! (idx - 1) \<le> add16 L 1 \<and> add16 L 1 \<le> mc_head s ! idx"
          using mc_bounds(2) [OF ok i] False by (simp add: L_def H_def)
      qed
      ultimately show ?thesis using slot_write_shape [OF w] set_list_shape [OF st] by simp
    next
      case True
      then have p2: "mc_push s p idx = Some (s, False)" using at by (simp add: mc_push_def)
      obtain B where B: "aget (mc_head s) (wsub idx 1) = Some B"
        using d c Base p2 at by (auto simp: mc_deallocate_def Option.bind_eq_Some_conv)
      then have i: "0 < idx" "idx < 64"
        using mc_class_range [OF B at(1)] mc_okD(1,2) [OF ok] by auto
      have Bh: "B = mc_head s ! (idx - 1)" using B mc_head_before [OF ok i] by simp
      have LH: "L = H" "H \<le> 7168" "B + 2 \<le> H"
        using True mc_bounds [OF ok i] mc_wfD(2) [OF wf i] by (simp_all add: L_def H_def Bh)
      define h where "h = (H - B) div 2"
      have h: "0 < h" "B + h \<le> H" using LH by (simp_all add: h_def)
      have sub: "sub16 H B = H - B" "sub16 H h = H - h" "sub16 h 1 = h - 1" "sub16 H (h - 1) = H - (h - 1)"
        using LH h by simp_all
      obtain arr z ans where call: "mc_slice s (H - h) H = Some arr" "za_free_batch Z (mc_zone s) idx arr h = Some (z, ans)"
        and st: "B \<le> H - h"
        using d c Base p2 at B LH(1) sub
        by (auto simp: mc_deallocate_def Option.bind_eq_Some_conv Let_def h_def [symmetric] split: if_splits)
      show ?thesis
      proof (cases ans)
        case (Inl e)
        then have "s' = s\<lparr>mc_zone := z\<rparr>"
          using d c Base p2 at B LH(1) sub call st by (simp add: mc_deallocate_def h_def [symmetric])
        then show ?thesis using mc_wf_same [OF wf, of s'] by simp
      next
        case (Inr u)
        obtain s2 x where s2: "set_list (s\<lparr>mc_zone := z\<rparr>) idx (H - (h - 1)) = Some s2" and w: "slot_write s2 x p = Some s'"
          using d c Base p2 at B LH(1) sub call st Inr
          by (auto simp: mc_deallocate_def Option.bind_eq_Some_conv Let_def h_def [symmetric])
        have sh: "mc_head s' = mc_head s" "mc_list s' = (mc_list s)[idx := H - (h - 1)]" "length (mc_mem s') = length (mc_mem s)"
          using slot_write_shape [OF w] set_list_shape [OF s2] by simp_all
        have "B \<le> H - (h - 1) \<and> H - (h - 1) \<le> H" using h by linarith
        then have "mc_wf s'"
          by (intro mc_wf_move [OF wf sh]) (simp add: Bh H_def)
        then show ?thesis using sh(1) by simp
      qed
    qed
  qed
qed

lemma mc_allocate_wf:
  assumes wf: "mc_wf s" and a: "mc_allocate Z s l = Some (s', r)"
    and Z: "\<And>z i arr n z' arr' a. za_batch Z z i arr n = Some (z', arr', a) \<Longrightarrow> length arr' = length arr"
  shows "mc_wf s' \<and> mc_head s' = mc_head s"
proof -
  note ok = mc_wfD(1) [OF wf]
  obtain c where c: "get_size_class (lsize l) = Some c"
    using a by (auto simp: mc_allocate_def Option.bind_eq_Some_conv)
  show ?thesis
  proof (cases c)
    case (Large sz)
    then have "mc_head s' = mc_head s \<and> mc_list s' = mc_list s \<and> mc_mem s' = mc_mem s"
      using a c by (auto simp: mc_allocate_def mc_alloc_from_zone_def Option.bind_eq_Some_conv)
    then show ?thesis using mc_wf_same [OF wf, of s'] by simp
  next
    case (Base idx)
    obtain L B where at: "aget (mc_list s) idx = Some L" "aget (mc_head s) (wsub idx 1) = Some B"
      using a c Base by (auto simp: mc_allocate_def Let_def Option.bind_eq_Some_conv)
    have i: "0 < idx" "idx < 64"
      using mc_class_range [OF at(2) at(1)] mc_okD(1,2) [OF ok] by auto
    have LB: "L = mc_list s ! idx" "B = mc_head s ! (idx - 1)"
      using at mc_head_before [OF ok i] by simp_all
    show ?thesis
    proof (cases "B < L \<and> lalign l = 1")
      case False
      then have "mc_alloc_slowpath Z s idx (lalign l) = Some (s', r)"
        using a c Base at by (auto simp: mc_allocate_def)
      then show ?thesis by (rule mc_slowpath_wf [OF wf _ Z])
    next
      case True
      have L: "sub16 L 1 = L - 1" using True mc_bounds [OF ok i] by (simp add: LB)
      have s: "set_list s idx (L - 1) = Some s'"
        using a c Base at True L by (auto simp: mc_allocate_def Option.bind_eq_Some_conv split: if_splits)
      have "mc_wf s'"
        by (rule mc_wf_move [OF wf, of s' idx "L - 1"])
          (use set_list_shape [OF s] True mc_bounds [OF ok i] in \<open>auto simp: LB\<close>)
      then show ?thesis using set_list_shape [OF s] by simp
    qed
  qed
qed

text \<open>A run of requests: an allocation for a layout, or an object given back with its layout.\<close>

datatype mc_op = Request layout | Give_back nat layout

fun mc_step :: "'z zone_api \<Rightarrow> mc_op \<Rightarrow> 'z mem_cache \<Rightarrow> 'z mem_cache option" where
  "mc_step Z (Request l) s = map_option fst (mc_allocate Z s l)"
| "mc_step Z (Give_back p l) s = mc_deallocate Z s p l"

fun mc_run :: "'z zone_api \<Rightarrow> mc_op list \<Rightarrow> 'z mem_cache \<Rightarrow> 'z mem_cache option" where
  "mc_run Z [] s = Some s"
| "mc_run Z (a # as) s = do { s \<leftarrow> mc_step Z a s; mc_run Z as s }"

lemma mc_run_wf:
  assumes Z: "\<And>z i arr n z' arr' a. za_batch Z z i arr n = Some (z', arr', a) \<Longrightarrow> length arr' = length arr"
  shows "mc_wf s \<Longrightarrow> mc_run Z as s = Some s' \<Longrightarrow> mc_wf s' \<and> mc_head s' = mc_head s"
proof (induction as arbitrary: s)
  case (Cons a as)
  then obtain s1 where s1: "mc_step Z a s = Some s1" and r: "mc_run Z as s1 = Some s'"
    by (auto simp: Option.bind_eq_Some_conv)
  have "mc_wf s1 \<and> mc_head s1 = mc_head s"
    using s1 Cons.prems(1) Z mc_allocate_wf [of s Z _ s1] mc_deallocate_wf [of s Z _ _ s1] by (cases a) fastforce+
  then show ?case using Cons.IH [OF _ r] by simp
qed simp

lemma mc_cap_2:
  assumes "0 < i" and "i < 64"
  shows "2 \<le> mc_cap i"
proof -
  have "\<forall>(c, p) \<in> set (zip (tl SIZE_CLASSES) (tl SIZE_CLASS_PAGES)). 0 < c \<and> c \<le> p * 4096"
    by (simp add: SIZE_CLASSES_def SIZE_CLASS_PAGES_def)
  moreover have "(tl SIZE_CLASSES ! (i - 1), tl SIZE_CLASS_PAGES ! (i - 1)) \<in> set (zip (tl SIZE_CLASSES) (tl SIZE_CLASS_PAGES))"
    using assms mc_tables(2,3) by (force simp: in_set_zip)
  ultimately have "0 < SIZE_CLASSES ! i \<and> SIZE_CLASSES ! i \<le> SIZE_CLASS_PAGES ! i * 4096"
    using assms mc_tables(2,3) by (auto simp: nth_tl)
  then have "1 \<le> SIZE_CLASS_PAGES ! i * 4096 div SIZE_CLASSES ! i"
    using div_le_mono [of "SIZE_CLASSES ! i" "SIZE_CLASS_PAGES ! i * 4096" "SIZE_CLASSES ! i"] by simp
  then show ?thesis by (simp add: mc_cap_def)
qed


lemma mc_class_large: "get_size_class 1048576 = Some (Large 1048576)"
  by (simp add: get_size_class_def get_sizeclass_tuple2_def TC_MAX_SIZE_def)


end
