(* ===== verification/ThreadArrayCache.thy ===== *)
theory ThreadArrayCache
  imports FreeList SizeClass "HOL-Library.Multiset"
begin

text \<open>
  The thread cache of vectors (\<open>cache/thread_array_cache.rs\<close>): for each class a vector of free objects. The zone that the
  file calls is of an earlier version and a parameter here, and so is \<open>IDX_NP\<close>, the table of batch sizes that the build
  writes into a file.
\<close>

section \<open>Vectors\<close>

text \<open>The elements and the capacity. \<open>reserve\<close> doubles the capacity, or takes what is needed if that is more.\<close>

record vec =
  items :: "nat list"
  vcap :: nat

definition vec_new :: vec where
  "vec_new = \<lparr>items = [], vcap = 0\<rparr>"

definition vec_reserve :: "vec \<Rightarrow> nat \<Rightarrow> vec" where
  "vec_reserve v n = (if vcap v - length (items v) < n
     then v\<lparr>vcap := max 4 (max (2 * vcap v) (length (items v) + n))\<rparr> else v)"

definition vec_resize :: "vec \<Rightarrow> nat \<Rightarrow> nat \<Rightarrow> vec" where
  "vec_resize v n x = (if length (items v) \<le> n
     then (let v = vec_reserve v (n - length (items v)) in v\<lparr>items := items v @ replicate (n - length (items v)) x\<rparr>)
     else v\<lparr>items := take n (items v)\<rparr>)"

definition vec_swap_remove :: "vec \<Rightarrow> nat \<Rightarrow> (vec \<times> nat) option" where
  "vec_swap_remove v i = (if i < length (items v)
     then Some (v\<lparr>items := butlast ((items v)[i := last (items v)])\<rparr>, items v ! i) else None)"

text \<open>A write past the elements, which is undefined outside the capacity, after \<open>set_len\<close>.\<close>

definition vec_write_end :: "vec \<Rightarrow> nat \<Rightarrow> vec option" where
  "vec_write_end v x = do { ensure (length (items v) < vcap v); Some (v\<lparr>items := items v @ [x]\<rparr>) }"

definition vec_set_len :: "vec \<Rightarrow> nat \<Rightarrow> vec option" where
  "vec_set_len v n = do { ensure (n \<le> length (items v)); Some (v\<lparr>items := take n (items v)\<rparr>) }"

definition vec_shrink_to_fit :: "vec \<Rightarrow> vec" where
  "vec_shrink_to_fit v = v\<lparr>vcap := min (vcap v) (length (items v))\<rparr>"

section \<open>State\<close>

text \<open>The zone of this version: its errors are texts, which nothing looks at.\<close>

record 'z vec_zone =
  vz_dealloc_batch :: "'z \<Rightarrow> nat list \<Rightarrow> nat \<Rightarrow> layout \<Rightarrow> size_class \<times> nat \<Rightarrow> ('z \<times> (unit + unit)) option"
  vz_alloc_batch :: "'z \<Rightarrow> layout \<Rightarrow> size_class \<times> nat \<Rightarrow> nat list \<Rightarrow> nat \<Rightarrow> ('z \<times> nat list \<times> (unit + nat)) option"
  vz_alloc :: "'z \<Rightarrow> layout \<Rightarrow> size_class \<times> nat \<Rightarrow> ('z \<times> (unit + nat)) option"
  vz_dealloc :: "'z \<Rightarrow> nat \<Rightarrow> layout \<Rightarrow> size_class \<times> nat \<Rightarrow> ('z \<times> (unit + unit)) option"
  vz_batch :: "'z \<Rightarrow> layout \<Rightarrow> size_class \<times> nat \<Rightarrow> ('z \<times> (unit + nat) \<times> nat \<times> nat) option"

record 'z vec_cache =
  vc_list :: "vec list"
  vc_zone :: 'z

definition vc_put :: "'z vec_cache \<Rightarrow> nat \<Rightarrow> vec \<Rightarrow> 'z vec_cache" where
  "vc_put s cl v = s\<lparr>vc_list := (vc_list s)[cl := v]\<rparr>"

text \<open>The number of vectors.\<close>

definition NUM_SIZE_CLASSES :: nat where "NUM_SIZE_CLASSES = 63"

section \<open>Operations\<close>

fun vc_cleanup_loop :: "'z vec_zone \<Rightarrow> nat list \<Rightarrow> 'z vec_cache \<Rightarrow> 'z vec_cache option" where
  "vc_cleanup_loop Z [] s = Some s"
| "vc_cleanup_loop Z (idx # is) s = do {
     list \<leftarrow> aget (vc_list s) idx;
     let cnt = length (items list);
     sz \<leftarrow> get_size_from_idx idx;
     l \<leftarrow> layout_from_size_align sz 1;
     (z, r) \<leftarrow> vz_dealloc_batch Z (vc_zone s) (items list) cnt l (Base idx, sz);
     u \<leftarrow> (case r of Inr u \<Rightarrow> Some u | Inl e \<Rightarrow> None);
     list \<leftarrow> vec_set_len list 0;
     vc_cleanup_loop Z is ((vc_put s idx (vec_shrink_to_fit list))\<lparr>vc_zone := z\<rparr>) }"

definition vc_cleanup_cache :: "'z vec_zone \<Rightarrow> 'z vec_cache \<Rightarrow> 'z vec_cache option" where
  "vc_cleanup_cache Z s = vc_cleanup_loop Z [0..<length (vc_list s)] s"

definition vc_push :: "nat list \<Rightarrow> 'z vec_cache \<Rightarrow> nat \<Rightarrow> nat \<Rightarrow> ('z vec_cache \<times> bool) option" where
  "vc_push idx_np s ptr cl = do {
     freelist \<leftarrow> aget (vc_list s) cl;
     np \<leftarrow> aget idx_np cl;
     if length (items freelist) \<ge> np * 2 then Some (s, False)
     else do {
       let freelist = (if vcap freelist = length (items freelist) then vec_reserve freelist (PAGE_SIZE div 8) else freelist);
       freelist \<leftarrow> vec_write_end freelist ptr;
       ensure (length (items freelist) < PAGE_SIZE div 4 + 1);
       Some (vc_put s cl freelist, True) } }"

definition vc_pop_aligned :: "'z vec_cache \<Rightarrow> nat \<Rightarrow> nat \<Rightarrow> ('z vec_cache \<times> nat) option" where
  "vc_pop_aligned s cl algn = do {
     freelist \<leftarrow> aget (vc_list s) cl;
     (case find (\<lambda>i. items freelist ! i AND (algn - 1) = 0) [0..<length (items freelist)] of
        Some i \<Rightarrow> do {
          (freelist, x) \<leftarrow> vec_swap_remove freelist i;
          Some (vc_put s cl freelist, x) }
      | None \<Rightarrow> Some (s, 0)) }"

definition vc_alloc_from_zone :: "'z vec_zone \<Rightarrow> 'z vec_cache \<Rightarrow> layout \<Rightarrow> size_class \<times> nat \<Rightarrow> ('z vec_cache \<times> (unit + nat)) option" where
  "vc_alloc_from_zone Z s l cl = do { (z, r) \<leftarrow> vz_alloc Z (vc_zone s) l cl; Some (s\<lparr>vc_zone := z\<rparr>, r) }"

definition vc_alloc_batch_from_zone ::
  "'z vec_zone \<Rightarrow> 'z vec_cache \<Rightarrow> layout \<Rightarrow> size_class \<times> nat \<Rightarrow> ('z vec_cache \<times> (unit + nat) \<times> nat \<times> nat) option" where
  "vc_alloc_batch_from_zone Z s l cl = do { (z, r) \<leftarrow> vz_batch Z (vc_zone s) l cl; Some (s\<lparr>vc_zone := z\<rparr>, r) }"

definition vc_dealloc_to_zone :: "'z vec_zone \<Rightarrow> 'z vec_cache \<Rightarrow> nat \<Rightarrow> layout \<Rightarrow> size_class \<times> nat \<Rightarrow> 'z vec_cache option" where
  "vc_dealloc_to_zone Z s ptr l cl = do {
     (z, r) \<leftarrow> vz_dealloc Z (vc_zone s) ptr l cl;
     u \<leftarrow> (case r of Inr u \<Rightarrow> Some u | Inl e \<Rightarrow> None);
     Some (s\<lparr>vc_zone := z\<rparr>) }"

definition vc_allocate :: "'z vec_zone \<Rightarrow> nat list \<Rightarrow> 'z vec_cache \<Rightarrow> layout \<Rightarrow> ('z vec_cache \<times> (unit + nat)) option" where
  "vc_allocate Z idx_np s l = do {
     (cls, sz) \<leftarrow> get_index_and_size (lsize l);
     new_layout \<leftarrow> layout_from_size_align sz (lalign l);
     (case cls of
        Base idx \<Rightarrow> do {
          (s, result) \<leftarrow> vc_pop_aligned s idx (lalign l);
          if result = 0 then do {
            freelist \<leftarrow> aget (vc_list s) idx;
            np \<leftarrow> aget idx_np idx;
            let original_len = length (items freelist);
            let freelist = (if vcap freelist - original_len < np then vec_reserve freelist (PAGE_SIZE div 8) else freelist);
            let freelist = vec_resize freelist (original_len + np) 0;
            (z, arr, ans) \<leftarrow> vz_alloc_batch Z (vc_zone s) l (cls, sz) (drop original_len (items freelist)) np;
            let freelist = freelist\<lparr>items := take original_len (items freelist) @ arr\<rparr>;
            freelist \<leftarrow> (case ans of
                Inr p \<Rightarrow> do { (freelist, x) \<leftarrow> vec_swap_remove freelist original_len; Some freelist }
              | Inl e \<Rightarrow> Some freelist);
            Some ((vc_put s idx freelist)\<lparr>vc_zone := z\<rparr>, ans) }
          else Some (s, Inr result) }
      | Large k \<Rightarrow> vc_alloc_from_zone Z s new_layout (cls, sz)) }"

definition vc_deallocate :: "'z vec_zone \<Rightarrow> nat list \<Rightarrow> 'z vec_cache \<Rightarrow> nat \<Rightarrow> layout \<Rightarrow> 'z vec_cache option" where
  "vc_deallocate Z idx_np s ptr l = do {
     (cls, sz) \<leftarrow> get_index_and_size (lsize l);
     new_layout \<leftarrow> layout_from_size_align sz (lalign l);
     (case cls of
        Base idx \<Rightarrow> do {
          (s, ok) \<leftarrow> vc_push idx_np s ptr idx;
          if ok then Some s
          else do {
            freelist \<leftarrow> aget (vc_list s) idx;
            np \<leftarrow> aget idx_np idx;
            let original_len = length (items freelist);
            ensure (np \<le> original_len);
            (z, ans) \<leftarrow> vz_dealloc_batch Z (vc_zone s) (drop (original_len - np) (items freelist)) np l (cls, sz);
            let s = s\<lparr>vc_zone := z\<rparr>;
            (case ans of
               Inr u \<Rightarrow> do {
                 freelist \<leftarrow> vec_set_len freelist (original_len - np);
                 (s, pushed) \<leftarrow> vc_push idx_np (vc_put s idx freelist) ptr idx;
                 Some s }
             | Inl e \<Rightarrow> Some s) } }
      | Large k \<Rightarrow> vc_dealloc_to_zone Z s ptr new_layout (cls, sz)) }"

section \<open>The cache of a thread\<close>

text \<open>\<open>TCACHE\<close>, null at first, and whether the key of its destructor was made. The zeroed block is taken for empty vectors;
  \<open>keyed\<close> is the block that the key holds for the thread.\<close>

record 'z thread_tls =
  tl_cache :: "(nat \<times> 'z vec_cache) option"
  tl_initialized :: bool
  tl_keyed :: "nat option"
  tl_backend :: free_list

definition vc_get_thread_cache :: "'z \<Rightarrow> nat \<Rightarrow> 'z thread_tls \<Rightarrow> ('z thread_tls \<times> (nat \<times> 'z vec_cache)) option" where
  "vc_get_thread_cache z bytes t = (case tl_cache t of
     Some c \<Rightarrow> Some (t, c)
   | None \<Rightarrow> do {
       (b, p) \<leftarrow> bsa_alloc (tl_backend t) \<lparr>lsize = bytes, lalign = 1\<rparr>;
       ensure (p \<noteq> 0);
       let c = (p, \<lparr>vc_list = replicate NUM_SIZE_CLASSES vec_new, vc_zone = z\<rparr>);
       Some (t\<lparr>tl_cache := Some c, tl_initialized := True, tl_keyed := Some p, tl_backend := b\<rparr>, c) })"

definition vc_free_thread_cache :: "'z vec_zone \<Rightarrow> nat \<Rightarrow> free_list \<Rightarrow> nat \<times> 'z vec_cache \<Rightarrow> (free_list \<times> 'z) option" where
  "vc_free_thread_cache Z bytes b c = do {
     s \<leftarrow> vc_cleanup_cache Z (snd c);
     b \<leftarrow> bsa_dealloc b (fst c) \<lparr>lsize = bytes, lalign = 16\<rparr>;
     Some (b, vc_zone s) }"


section \<open>Requests\<close>

text \<open>No vector holds more than its capacity.\<close>

definition vecs_ok :: "'z vec_cache \<Rightarrow> bool" where
  "vecs_ok s \<longleftrightarrow> (\<forall>v \<in> set (vc_list s). length (items v) \<le> vcap v)"

definition vc_stack :: "'z vec_cache \<Rightarrow> nat \<Rightarrow> nat list" where
  "vc_stack s i = items (vc_list s ! i)"

lemma vecs_ok_put: "vecs_ok s \<Longrightarrow> length (items v) \<le> vcap v \<Longrightarrow> vecs_ok (vc_put s i v)"
  by (auto simp: vecs_ok_def vc_put_def dest: set_update_subset_insert [THEN subsetD])

lemma vecs_ok_at: "vecs_ok s \<Longrightarrow> i < length (vc_list s) \<Longrightarrow> length (items (vc_list s ! i)) \<le> vcap (vc_list s ! i)"
  by (simp add: vecs_ok_def)

lemma vecs_ok_zone [simp]: "vecs_ok (s\<lparr>vc_zone := z\<rparr>) = vecs_ok s"
  by (simp add: vecs_ok_def)

lemma vec_reserve_room: "length (items v) \<le> vcap v \<Longrightarrow> length (items v) + n \<le> vcap (vec_reserve v n) \<and> items (vec_reserve v n) = items v"
  by (auto simp: vec_reserve_def)

lemma vec_resize_ok:
  assumes "length (items v) \<le> vcap v"
  shows "items (vec_resize v (length (items v) + n) 0) = items v @ replicate n 0"
    and "length (items (vec_resize v (length (items v) + n) 0)) \<le> vcap (vec_resize v (length (items v) + n) 0)"
  using vec_reserve_room [OF assms, of n] by (simp_all add: vec_resize_def Let_def)

lemma vec_swap_remove_ok:
  assumes "i < length (items v)"
  shows "\<exists>v'. vec_swap_remove v i = Some (v', items v ! i) \<and> mset (items v') = mset (items v) - {#items v ! i#} \<and>
    vcap v' = vcap v \<and> length (items v') = length (items v) - 1"
proof -
  have "mset (butlast ((items v)[i := last (items v)])) = mset (items v) - {#items v ! i#}"
  proof (cases "items v" rule: rev_cases)
    case (snoc ys x)
    then show ?thesis
      using assms by (cases "i = length ys") (auto simp: list_update_append mset_update nth_append)
  qed (use assms in simp)
  then show ?thesis using assms by (simp add: vec_swap_remove_def)
qed

lemma vc_pop_aligned_hit:
  assumes ok: "vecs_ok s" and i: "i < length (vc_list s)" and al: "\<exists>x \<in> set (vc_stack s i). x AND (algn - 1) = 0"
  shows "\<exists>s' x. vc_pop_aligned s i algn = Some (s', x) \<and> x \<in> set (vc_stack s i) \<and> x AND (algn - 1) = 0 \<and>
    mset (vc_stack s' i) = mset (vc_stack s i) - {#x#} \<and> vecs_ok s' \<and> vc_zone s' = vc_zone s \<and>
    (\<forall>k. k \<noteq> i \<longrightarrow> vc_stack s' k = vc_stack s k)"
proof -
  define v where "v = vc_list s ! i"
  from al obtain y where "y \<in> set (items v)" "y AND (algn - 1) = 0" by (auto simp: vc_stack_def v_def)
  then obtain q where "q < length (items v)" "items v ! q AND (algn - 1) = 0" by (metis in_set_conv_nth)
  then have "find (\<lambda>j. items v ! j AND (algn - 1) = 0) [0..<length (items v)] \<noteq> None"
    by (auto simp: find_None_iff)
  then obtain j where f: "find (\<lambda>j. items v ! j AND (algn - 1) = 0) [0..<length (items v)] = Some j" by auto
  then have j: "j < length (items v)" "items v ! j AND (algn - 1) = 0"
    by (auto simp: find_Some_iff)
  obtain v' where v': "vec_swap_remove v j = Some (v', items v ! j)" "mset (items v') = mset (items v) - {#items v ! j#}"
      "vcap v' = vcap v" "length (items v') = length (items v) - 1"
    using vec_swap_remove_ok [OF j(1)] by auto
  have "vc_pop_aligned s i algn = Some (vc_put s i v', items v ! j)"
    using f v'(1) i by (simp add: vc_pop_aligned_def v_def)
  moreover have "vecs_ok (vc_put s i v')"
    using v'(3,4) vecs_ok_at [OF ok i] by (intro vecs_ok_put [OF ok]) (simp add: v_def)
  ultimately show ?thesis
    using j v'(2) i by (intro exI [of _ "vc_put s i v'"] exI [of _ "items v ! j"]) (auto simp: vc_stack_def vc_put_def v_def)
qed

lemma vc_pop_aligned_miss:
  assumes "i < length (vc_list s)" and "\<forall>x \<in> set (vc_stack s i). x AND (algn - 1) \<noteq> 0"
  shows "vc_pop_aligned s i algn = Some (s, 0)"
proof -
  have "find (\<lambda>j. items (vc_list s ! i) ! j AND (algn - 1) = 0) [0..<length (items (vc_list s ! i))] = None"
    using assms(2) by (auto simp: find_None_iff vc_stack_def)
  then show ?thesis using assms(1) by (simp add: vc_pop_aligned_def)
qed

text \<open>An aligned object of the class is taken out of its vector and returned; the other classes and the zone are not
  touched.\<close>

lemma vc_allocate_hit:
  assumes ok: "vecs_ok s" and i: "i < length (vc_list s)" and c: "get_index_and_size (lsize l) = Some (Base i, sz)"
    and lay: "layout_from_size_align sz (lalign l) \<noteq> None"
    and al: "\<exists>x \<in> set (vc_stack s i). x AND (lalign l - 1) = 0" and nz: "0 \<notin> set (vc_stack s i)"
  shows "\<exists>s' x. vc_allocate Z np s l = Some (s', Inr x) \<and> x \<in> set (vc_stack s i) \<and> x AND (lalign l - 1) = 0 \<and>
    mset (vc_stack s' i) = mset (vc_stack s i) - {#x#} \<and> vecs_ok s' \<and> vc_zone s' = vc_zone s \<and>
    (\<forall>k. k \<noteq> i \<longrightarrow> vc_stack s' k = vc_stack s k)"
proof -
  obtain s' x where p: "vc_pop_aligned s i (lalign l) = Some (s', x)" "x \<in> set (vc_stack s i)" "x AND (lalign l - 1) = 0"
      "mset (vc_stack s' i) = mset (vc_stack s i) - {#x#}" "vecs_ok s'" "vc_zone s' = vc_zone s"
      "\<forall>k. k \<noteq> i \<longrightarrow> vc_stack s' k = vc_stack s k"
    using vc_pop_aligned_hit [OF ok i al] by auto
  moreover have "x \<noteq> 0" using p(2) nz by metis
  ultimately show ?thesis
    using c lay by (intro exI [of _ s'] exI [of _ x]) (auto simp: vc_allocate_def)
qed

text \<open>What a miss asks of the zone.\<close>

lemma vc_allocate_miss:
  assumes ok: "vecs_ok s" and i: "i < length (vc_list s)" and c: "get_index_and_size (lsize l) = Some (Base i, sz)"
    and lay: "layout_from_size_align sz (lalign l) \<noteq> None" and n: "aget np i = Some n"
    and al: "\<forall>x \<in> set (vc_stack s i). x AND (lalign l - 1) \<noteq> 0"
    and zone: "vz_alloc_batch Z (vc_zone s) l (Base i, sz) (replicate n 0) n = Some (z, arr, ans)" and arr: "length arr = n"
  shows "\<exists>v. items v = vc_stack s i @ arr \<and> length (items v) \<le> vcap v \<and> vc_allocate Z np s l =
    do { v \<leftarrow> (case ans of Inr p \<Rightarrow> do { (v, x) \<leftarrow> vec_swap_remove v (length (vc_stack s i)); Some v } | Inl e \<Rightarrow> Some v);
         Some ((vc_put s i v)\<lparr>vc_zone := z\<rparr>, ans) }"
proof -
  define v where "v = vc_list s ! i"
  have vok: "length (items v) \<le> vcap v" using vecs_ok_at [OF ok i] by (simp add: v_def)
  define v1 where "v1 = (if vcap v - length (items v) < n then vec_reserve v (PAGE_SIZE div 8) else v)"
  have v1: "items v1 = items v" "length (items v1) \<le> vcap v1"
    using vec_reserve_room [OF vok, of "PAGE_SIZE div 8"] vok by (auto simp: v1_def)
  define v2 where "v2 = vec_resize v1 (length (items v) + n) 0"
  have v2: "items v2 = items v @ replicate n 0" "length (items v2) \<le> vcap v2"
    using vec_resize_ok [OF v1(2), of n] v1(1) by (simp_all add: v2_def)
  define v3 where "v3 = v2\<lparr>items := items v @ arr\<rparr>"
  have "items v3 = vc_stack s i @ arr" "length (items v3) \<le> vcap v3"
    using v2 arr by (simp_all add: v3_def vc_stack_def v_def)
  moreover have "vc_allocate Z np s l =
      do { v \<leftarrow> (case ans of Inr p \<Rightarrow> do { (v, x) \<leftarrow> vec_swap_remove v3 (length (vc_stack s i)); Some v } | Inl e \<Rightarrow> Some v3);
           Some ((vc_put s i v)\<lparr>vc_zone := z\<rparr>, ans) }"
    using c lay n zone i vc_pop_aligned_miss [OF i al] v2(1) [unfolded v2_def v1_def v_def]
    by (cases ans) (auto simp: vc_allocate_def Let_def v3_def v2_def v1_def v_def vc_stack_def split del: if_split cong del: if_weak_cong)
  ultimately show ?thesis by blast
qed

text \<open>A miss that the zone answers with a batch stacks the batch, without the object that is handed out, on the objects of
  the class.\<close>

lemma vc_allocate_refills:
  assumes "vecs_ok s" and "i < length (vc_list s)" and "get_index_and_size (lsize l) = Some (Base i, sz)"
    and "layout_from_size_align sz (lalign l) \<noteq> None" and "aget np i = Some n" and "0 < n"
    and "\<forall>x \<in> set (vc_stack s i). x AND (lalign l - 1) \<noteq> 0"
    and "vz_alloc_batch Z (vc_zone s) l (Base i, sz) (replicate n 0) n = Some (z, arr, Inr (arr ! 0))" and "length arr = n"
  shows "\<exists>s'. vc_allocate Z np s l = Some (s', Inr (arr ! 0)) \<and> vecs_ok s' \<and> vc_zone s' = z \<and>
    mset (vc_stack s' i) + {#arr ! 0#} = mset (vc_stack s i) + mset arr \<and> (\<forall>k. k \<noteq> i \<longrightarrow> vc_stack s' k = vc_stack s k)"
proof -
  obtain v where v: "items v = vc_stack s i @ arr" "length (items v) \<le> vcap v"
    and run: "vc_allocate Z np s l = do { v \<leftarrow> do { (v, x) \<leftarrow> vec_swap_remove v (length (vc_stack s i)); Some v };
         Some ((vc_put s i v)\<lparr>vc_zone := z\<rparr>, Inr (arr ! 0)) }"
    using vc_allocate_miss [OF assms(1-5,7-9)] by auto
  have "length (vc_stack s i) < length (items v)" "items v ! length (vc_stack s i) = arr ! 0" "arr \<noteq> []"
    using assms(6,9) v(1) by (auto simp: nth_append)
  then obtain v' where v': "vec_swap_remove v (length (vc_stack s i)) = Some (v', arr ! 0)"
      "mset (items v') = mset (items v) - {#arr ! 0#}" "vcap v' = vcap v" "length (items v') = length (items v) - 1"
    using vec_swap_remove_ok [of "length (vc_stack s i)" v] by auto
  have "arr ! 0 \<in># mset arr" using \<open>arr \<noteq> []\<close> by simp
  then have "mset (items v') + {#arr ! 0#} = mset (vc_stack s i) + mset arr"
    by (simp add: v'(2) v(1))
  moreover have "vecs_ok (vc_put s i v')"
    using v(2) v'(3,4) by (intro vecs_ok_put [OF assms(1)]) simp
  ultimately show ?thesis
    using run v'(1) assms(2) by (auto simp: vc_stack_def vc_put_def)
qed

text \<open>A miss that the zone cannot answer reports the error and leaves as many null objects as a batch has in the vector of
  the class: each of a later request that finds one takes it for a miss, and a later overflow or the end of the thread
  hands them to the zone.\<close>

lemma vc_failed_refill_keeps_nulls:
  assumes "vecs_ok s" and "i < length (vc_list s)" and "get_index_and_size (lsize l) = Some (Base i, sz)"
    and "layout_from_size_align sz (lalign l) \<noteq> None" and "aget np i = Some n"
    and "\<forall>x \<in> set (vc_stack s i). x AND (lalign l - 1) \<noteq> 0"
    and "vz_alloc_batch Z (vc_zone s) l (Base i, sz) (replicate n 0) n = Some (z, replicate n 0, Inl e)"
  shows "\<exists>s'. vc_allocate Z np s l = Some (s', Inl e) \<and> vc_stack s' i = vc_stack s i @ replicate n 0"
proof -
  obtain v where "items v = vc_stack s i @ replicate n 0" "vc_allocate Z np s l = Some ((vc_put s i v)\<lparr>vc_zone := z\<rparr>, Inl e)"
    using vc_allocate_miss [OF assms] by auto
  then show ?thesis using assms(2) by (auto simp: vc_stack_def vc_put_def)
qed

text \<open>There are 63 vectors and 64 size classes: a request of the largest class panics, and so does giving back an object
  of it.\<close>

lemma vc_class_63_panics:
  assumes "length (vc_list s) = NUM_SIZE_CLASSES" and "get_index_and_size (lsize l) = Some (Base 63, sz)"
  shows "vc_allocate Z np s l = None \<and> vc_deallocate Z np s p l = None"
  using assms
  by (cases "layout_from_size_align sz (lalign l)")
    (simp_all add: vc_allocate_def vc_deallocate_def vc_pop_aligned_def vc_push_def NUM_SIZE_CLASSES_def)


section \<open>Giving an object back\<close>

lemma vc_push_ok:
  assumes ok: "vecs_ok s" and i: "i < length (vc_list s)" and n: "aget np i = Some n" "2 * n \<le> 1024"
    and room: "length (vc_stack s i) < 2 * n"
  shows "\<exists>s'. vc_push np s p i = Some (s', True) \<and> vecs_ok s' \<and> vc_zone s' = vc_zone s \<and> vc_stack s' i = vc_stack s i @ [p] \<and>
    (\<forall>k. k \<noteq> i \<longrightarrow> vc_stack s' k = vc_stack s k)"
proof -
  define v where "v = vc_list s ! i"
  have vok: "length (items v) \<le> vcap v" using vecs_ok_at [OF ok i] by (simp add: v_def)
  define v1 where "v1 = (if vcap v = length (items v) then vec_reserve v (PAGE_SIZE div 8) else v)"
  have v1: "items v1 = items v" "length (items v1) < vcap v1"
    using vec_reserve_room [OF vok, of "PAGE_SIZE div 8"] vok by (auto simp: v1_def PAGE_SIZE_def)
  define v2 where "v2 = v1\<lparr>items := items v @ [p]\<rparr>"
  have "vc_push np s p i = Some (vc_put s i v2, True)"
    using i n room v1
    by (simp add: vc_push_def vec_write_end_def v_def [symmetric] Let_def v1_def [symmetric] vc_stack_def v2_def PAGE_SIZE_def split del: if_split)
  moreover have "vecs_ok (vc_put s i v2)"
    using v1 by (intro vecs_ok_put [OF ok]) (simp add: v2_def)
  ultimately show ?thesis
    using i by (intro exI [of _ "vc_put s i v2"]) (auto simp: vc_stack_def vc_put_def v2_def v_def)
qed

text \<open>An object given back is pushed on the vector of its class; when the vector is full, with two batches, the newer batch
  goes to the zone first. No write leaves the capacity of a vector.\<close>

lemma vc_deallocate_correct:
  assumes ok: "vecs_ok s" and i: "i < length (vc_list s)" and c: "get_index_and_size (lsize l) = Some (Base i, sz)"
    and lay: "layout_from_size_align sz (lalign l) \<noteq> None" and n: "aget np i = Some n" "0 < n" "2 * n \<le> 1024"
    and len: "length (vc_stack s i) \<le> 2 * n"
    and zone: "vz_dealloc_batch Z (vc_zone s) (drop n (vc_stack s i)) n l (Base i, sz) = Some (z, Inr ())"
  shows "\<exists>s'. vc_deallocate Z np s p l = Some s' \<and> vecs_ok s' \<and> (\<forall>k. k \<noteq> i \<longrightarrow> vc_stack s' k = vc_stack s k) \<and>
    (if length (vc_stack s i) < 2 * n then vc_stack s' i = vc_stack s i @ [p] \<and> vc_zone s' = vc_zone s
     else vc_stack s' i = take n (vc_stack s i) @ [p] \<and> vc_zone s' = z)"
proof (cases "length (vc_stack s i) < 2 * n")
  case True
  then show ?thesis
    using vc_push_ok [OF ok i n(1,3) True, of p] c lay by (auto simp: vc_deallocate_def)
next
  case False
  then have full: "length (vc_stack s i) = 2 * n" using len by simp
  have p1: "vc_push np s p i = Some (s, False)"
    using full i n(1) by (simp add: vc_push_def vc_stack_def)
  define v where "v = (vc_list s ! i)\<lparr>items := take n (vc_stack s i)\<rparr>"
  define s1 where "s1 = vc_put (s\<lparr>vc_zone := z\<rparr>) i v"
  have "vecs_ok s1"
    using vecs_ok_at [OF ok i] ok full by (auto simp: s1_def v_def vc_stack_def intro!: vecs_ok_put)
  moreover have "i < length (vc_list s1)" "vc_stack s1 i = take n (vc_stack s i)" "vc_zone s1 = z"
    "\<forall>k. k \<noteq> i \<longrightarrow> vc_stack s1 k = vc_stack s k"
    using i by (simp_all add: s1_def vc_put_def v_def vc_stack_def)
  ultimately obtain s' where s': "vc_push np s1 p i = Some (s', True)" "vecs_ok s'" "vc_zone s' = z"
      "vc_stack s' i = take n (vc_stack s i) @ [p]" "\<forall>k. k \<noteq> i \<longrightarrow> vc_stack s' k = vc_stack s k"
    using vc_push_ok [of s1 i np n p] n full by auto
  have "vc_deallocate Z np s p l = Some s'"
    using c lay p1 i n(1) full zone s'(1)
    by (auto simp: vc_deallocate_def vc_stack_def vec_set_len_def Let_def v_def s1_def)
  then show ?thesis using s' False by auto
qed

section \<open>Examples\<close>

definition vc_demo :: "nat list \<Rightarrow> nat vec_cache" where
  "vc_demo st = \<lparr>vc_list = (replicate 63 vec_new)[1 := \<lparr>items = st, vcap = length st\<rparr>], vc_zone = 0\<rparr>"

definition vc_demo_zone :: "bool \<Rightarrow> nat vec_zone" where
  "vc_demo_zone full = \<lparr>vz_dealloc_batch = \<lambda>z arr n l c. Some (z + 10, Inr ()),
    vz_alloc_batch = \<lambda>z l c arr n. (if full then Some (z, arr, Inl ()) else Some (z + 1, [64, 80], Inr 64)),
    vz_alloc = \<lambda>z l c. Some (z, Inl ()), vz_dealloc = \<lambda>z p l c. Some (z, Inr ()),
    vz_batch = \<lambda>z l c. Some (z, Inl (), 0, 0)\<rparr>"

lemma vc_demo_ok: "vecs_ok (vc_demo st)"
  by (auto simp: vecs_ok_def vc_demo_def vec_new_def dest: set_update_subset_insert [THEN subsetD])

lemma vc_demo_simps: "length (vc_list (vc_demo st)) = 63" "vc_stack (vc_demo st) 1 = st" "vc_zone (vc_demo st) = 0"
  by (simp_all add: vc_demo_def vc_stack_def)

lemma vc_class_8: "get_index_and_size 8 = Some (Base 1, 8)" "get_index_and_size 25000 = Some (Base 63, 28032)"
  by (simp_all add: get_index_and_size_def get_sizeclass_tuple2_def IDX_ARRAY_def TC_SIZE_ARRAY_def TC_MAX_SIZE_def wshr_def aget_def drop_bit_eq_div)

lemma vc_layout_8:
  "layout_from_size_align 8 16 = Some \<lparr>lsize = 8, lalign = 16\<rparr>" "layout_from_size_align 8 8 = Some \<lparr>lsize = 8, lalign = 8\<rparr>"
  using is_pow2_power [of 4] is_pow2_power [of 3] by (simp_all add: layout_from_size_align_def)

lemma vc_failed_refill_keeps_nulls_witness:
  "\<exists>s'. vc_allocate (vc_demo_zone True) (replicate 63 2) (vc_demo [72]) \<lparr>lsize = 8, lalign = 16\<rparr> = Some (s', Inl ()) \<and>
    vc_stack s' 1 = vc_stack (vc_demo [72]) 1 @ replicate 2 0"
  by (rule vc_failed_refill_keeps_nulls [OF vc_demo_ok, where sz = 8])
    (simp_all add: vc_demo_simps [unfolded One_nat_def] vc_class_8 [unfolded One_nat_def] vc_layout_8 vc_demo_zone_def)

lemma vc_allocate_refills_witness:
  "\<exists>s'. vc_allocate (vc_demo_zone False) (replicate 63 2) (vc_demo [72]) \<lparr>lsize = 8, lalign = 16\<rparr> = Some (s', Inr ([64, 80] ! 0)) \<and>
    vecs_ok s' \<and> vc_zone s' = 1 \<and> mset (vc_stack s' 1) + {#[64, 80] ! 0#} = mset (vc_stack (vc_demo [72]) 1) + mset [64, 80] \<and>
    (\<forall>k. k \<noteq> 1 \<longrightarrow> vc_stack s' k = vc_stack (vc_demo [72]) k)"
  by (rule vc_allocate_refills [OF vc_demo_ok, where sz = 8])
    (simp_all add: vc_demo_simps [unfolded One_nat_def] vc_class_8 [unfolded One_nat_def] vc_layout_8 vc_demo_zone_def)

lemma vc_allocate_hit_witness:
  "\<exists>s' x. vc_allocate (vc_demo_zone False) [] (vc_demo [72, 80]) \<lparr>lsize = 8, lalign = 16\<rparr> = Some (s', Inr x) \<and>
    x \<in> set (vc_stack (vc_demo [72, 80]) 1) \<and> x AND (lalign \<lparr>lsize = 8, lalign = 16\<rparr> - 1) = 0 \<and>
    mset (vc_stack s' 1) = mset (vc_stack (vc_demo [72, 80]) 1) - {#x#} \<and> vecs_ok s' \<and> vc_zone s' = vc_zone (vc_demo [72, 80]) \<and>
    (\<forall>k. k \<noteq> 1 \<longrightarrow> vc_stack s' k = vc_stack (vc_demo [72, 80]) k)"
  by (rule vc_allocate_hit [OF vc_demo_ok, where sz = 8])
    (simp_all add: vc_demo_simps [unfolded One_nat_def] vc_class_8 [unfolded One_nat_def] vc_layout_8)

lemma vc_class_63_panics_witness:
  "vc_allocate (vc_demo_zone False) [] (vc_demo []) \<lparr>lsize = 25000, lalign = 8\<rparr> = None \<and>
    vc_deallocate (vc_demo_zone False) [] (vc_demo []) 64 \<lparr>lsize = 25000, lalign = 8\<rparr> = None"
  by (rule vc_class_63_panics) (simp_all add: vc_demo_simps vc_class_8 NUM_SIZE_CLASSES_def)

lemma vc_deallocate_correct_witness:
  "\<exists>s'. vc_deallocate (vc_demo_zone False) (replicate 63 2) (vc_demo [64, 72, 80, 88]) 96 \<lparr>lsize = 8, lalign = 8\<rparr> = Some s' \<and> vecs_ok s' \<and>
    vc_stack s' 1 = [64, 72, 96]"
proof -
  have "\<exists>s'. vc_deallocate (vc_demo_zone False) (replicate 63 2) (vc_demo [64, 72, 80, 88]) 96 \<lparr>lsize = 8, lalign = 8\<rparr> = Some s' \<and> vecs_ok s' \<and>
      (\<forall>k. k \<noteq> 1 \<longrightarrow> vc_stack s' k = vc_stack (vc_demo [64, 72, 80, 88]) k) \<and>
      (if length (vc_stack (vc_demo [64, 72, 80, 88]) 1) < 2 * 2
       then vc_stack s' 1 = vc_stack (vc_demo [64, 72, 80, 88]) 1 @ [96] \<and> vc_zone s' = vc_zone (vc_demo [64, 72, 80, 88])
       else vc_stack s' 1 = take 2 (vc_stack (vc_demo [64, 72, 80, 88]) 1) @ [96] \<and> vc_zone s' = 10)"
    by (rule vc_deallocate_correct [OF vc_demo_ok, where sz = 8])
      (simp_all add: vc_demo_simps [unfolded One_nat_def] vc_class_8 [unfolded One_nat_def] vc_layout_8 vc_demo_zone_def)
  then show ?thesis by (auto simp: vc_demo_simps [unfolded One_nat_def])
qed

end
