(* ===== verification/Arena.thy ===== *)
theory Arena
  imports Machine "HOL-Library.Multiset"
begin

text \<open>
  The arenas of \<open>arena/mod.rs\<close>: objects are handed out one after the other from chunks that grow, and go all at once.

  The memory of the chunks comes from the allocator below, as the list of the addresses it will answer with; an empty
  list is its failure, which aborts. \<open>TypedArena\<close> holds objects of one type, which \<open>elem_type\<close> describes, and a store from
  addresses to objects; \<open>DroplessArena\<close> holds bytes.
\<close>

section \<open>Chunks\<close>

definition ARENA_PAGE :: nat where "ARENA_PAGE = 4096"

definition HUGE_PAGE :: nat where "HUGE_PAGE = 2 * 1024 * 1024"

text \<open>\<open>el_dangling\<close> is the address that stands for memory of no bytes, the alignment of the type.\<close>

record elem_type =
  el_size :: nat
  el_drops :: bool
  el_dangling :: nat

record arena_chunk =
  ch_base :: nat
  ch_len :: nat
  ch_entries :: nat

text \<open>\<open>new\<close>, with the addresses that are left; a chunk above \<open>isize::MAX\<close> bytes panics.\<close>

definition chunk_new :: "elem_type \<Rightarrow> nat \<Rightarrow> nat list \<Rightarrow> (arena_chunk \<times> nat list) option" where
  "chunk_new el cap addrs = do {
     ensure (cap * el_size el < 2 ^ 63);
     if cap * el_size el = 0 then Some (\<lparr>ch_base = el_dangling el, ch_len = cap, ch_entries = 0\<rparr>, addrs)
     else (case addrs of [] \<Rightarrow> None | p # ps \<Rightarrow> Some (\<lparr>ch_base = p, ch_len = cap, ch_entries = 0\<rparr>, ps)) }"

definition chunk_start :: "arena_chunk \<Rightarrow> nat" where
  "chunk_start c = ch_base c"

definition chunk_end :: "elem_type \<Rightarrow> arena_chunk \<Rightarrow> nat" where
  "chunk_end el c = (if el_size el = 0 then 2 ^ 64 - 1 else wadd (chunk_start c) (wmul (ch_len c) (el_size el)))"

fun read_all :: "(nat \<Rightarrow> 'a option) \<Rightarrow> nat list \<Rightarrow> 'a list option" where
  "read_all st [] = Some []"
| "read_all st (a # as) = do { x \<leftarrow> st a; xs \<leftarrow> read_all st as; Some (x # xs) }"

text \<open>The addresses of the first \<open>k\<close> objects from \<open>p\<close> on.\<close>

definition places :: "elem_type \<Rightarrow> nat \<Rightarrow> nat \<Rightarrow> nat list" where
  "places el p k = map (\<lambda>i. p + i * el_size el) [0..<k]"

text \<open>\<open>destroy\<close> returns the store without the objects it drops, and them; dropping what was not written is undefined.\<close>

definition chunk_destroy :: "elem_type \<Rightarrow> (nat \<Rightarrow> 'a option) \<Rightarrow> arena_chunk \<Rightarrow> nat \<Rightarrow> ((nat \<Rightarrow> 'a option) \<times> 'a list) option" where
  "chunk_destroy el st c len = (if el_drops el then do {
       ensure (len \<le> ch_len c);
       xs \<leftarrow> read_all st (places el (chunk_start c) len);
       Some (\<lambda>a. if a \<in> set (places el (chunk_start c) len) then None else st a, xs) }
     else Some (st, []))"

section \<open>The typed arena\<close>

record 'a typed_arena =
  ta_ptr :: nat
  ta_end :: nat
  ta_chunks :: "arena_chunk list"
  ta_store :: "nat \<Rightarrow> 'a option"
  ta_answers :: "nat list"

definition ta_default :: "nat list \<Rightarrow> 'a typed_arena" where
  "ta_default addrs = \<lparr>ta_ptr = 0, ta_end = 0, ta_chunks = [], ta_store = (\<lambda>_. None), ta_answers = addrs\<rparr>"

definition ta_grow :: "elem_type \<Rightarrow> nat \<Rightarrow> 'a typed_arena \<Rightarrow> 'a typed_arena option" where
  "ta_grow el additional s = do {
     let elem_size = max 1 (el_size el);
     (chunks, new_cap) \<leftarrow> (if ta_chunks s = [] then Some ([], ARENA_PAGE div elem_size)
       else do {
         let last_chunk = last (ta_chunks s);
         last_chunk \<leftarrow> (if el_drops el then do {
             let used_bytes = wsub (ta_ptr s) (chunk_start last_chunk);
             ensure (el_size el \<noteq> 0);
             Some (last_chunk\<lparr>ch_entries := used_bytes div el_size el\<rparr>) }
           else Some last_chunk);
         let new_cap = min (ch_len last_chunk) (HUGE_PAGE div elem_size div 2);
         Some (butlast (ta_chunks s) @ [last_chunk], new_cap * 2) });
     let new_cap = max additional new_cap;
     (c, addrs) \<leftarrow> chunk_new el new_cap (ta_answers s);
     Some (s\<lparr>ta_ptr := chunk_start c, ta_end := chunk_end el c, ta_chunks := chunks @ [c], ta_answers := addrs\<rparr>) }"

definition ta_alloc :: "elem_type \<Rightarrow> 'a \<Rightarrow> 'a typed_arena \<Rightarrow> ('a typed_arena \<times> nat) option" where
  "ta_alloc el x s = do {
     s \<leftarrow> (if ta_ptr s = ta_end s then ta_grow el 1 s else Some s);
     if el_size el = 0 then do {
       let s = s\<lparr>ta_ptr := wadd (ta_ptr s) 1\<rparr>;
       let p = el_dangling el;
       Some (s\<lparr>ta_store := (ta_store s)(p \<mapsto> x)\<rparr>, p) }
     else do {
       let p = ta_ptr s;
       let s = s\<lparr>ta_ptr := wadd (ta_ptr s) (el_size el)\<rparr>;
       Some (s\<lparr>ta_store := (ta_store s)(p \<mapsto> x)\<rparr>, p) } }"

definition can_allocate :: "elem_type \<Rightarrow> nat \<Rightarrow> 'a typed_arena \<Rightarrow> bool option" where
  "can_allocate el additional s = do {
     let available_bytes = wsub (ta_end s) (ta_ptr s);
     ensure (additional * el_size el < 2 ^ 64);
     Some (available_bytes \<ge> additional * el_size el) }"

definition ensure_capacity :: "elem_type \<Rightarrow> nat \<Rightarrow> 'a typed_arena \<Rightarrow> 'a typed_arena option" where
  "ensure_capacity el additional s = do {
     ok \<leftarrow> can_allocate el additional s;
     if ok then Some s
     else do {
       s \<leftarrow> ta_grow el additional s;
       ok \<leftarrow> can_allocate el additional s;
       ensure ok;
       Some s } }"

definition alloc_raw_slice :: "elem_type \<Rightarrow> nat \<Rightarrow> 'a typed_arena \<Rightarrow> ('a typed_arena \<times> nat) option" where
  "alloc_raw_slice el len s = do {
     ensure (el_size el \<noteq> 0);
     ensure (len \<noteq> 0);
     s \<leftarrow> ensure_capacity el len s;
     let start_ptr = ta_ptr s;
     Some (s\<lparr>ta_ptr := wadd start_ptr (wmul len (el_size el))\<rparr>, start_ptr) }"

text \<open>The copy of a slice into the arena.\<close>

fun copy_objects :: "elem_type \<Rightarrow> nat \<Rightarrow> 'a list \<Rightarrow> (nat \<Rightarrow> 'a option) \<Rightarrow> nat \<Rightarrow> 'a option" where
  "copy_objects el p [] st = st"
| "copy_objects el p (x # xs) st = copy_objects el (p + el_size el) xs (st(p \<mapsto> x))"

text \<open>\<open>alloc_from_iter\<close>: of an array, a \<open>Vec\<close> and a \<open>SmallVec\<close>, and of any other iterator, which is collected first. The
  result is the slice, an address and a length.\<close>

definition iter_alloc :: "elem_type \<Rightarrow> 'a list \<Rightarrow> 'a typed_arena \<Rightarrow> ('a typed_arena \<times> nat \<times> nat) option" where
  "iter_alloc el xs s = (let len = length xs in
     if len = 0 then Some (s, el_dangling el, 0)
     else do {
       (s, start_ptr) \<leftarrow> alloc_raw_slice el len s;
       Some (s\<lparr>ta_store := copy_objects el start_ptr xs (ta_store s)\<rparr>, start_ptr, len) })"

definition ta_alloc_from_iter :: "elem_type \<Rightarrow> 'a list \<Rightarrow> 'a typed_arena \<Rightarrow> ('a typed_arena \<times> nat \<times> nat) option" where
  "ta_alloc_from_iter el xs s = do { ensure (el_size el \<noteq> 0); iter_alloc el xs s }"

definition clear_last_chunk :: "elem_type \<Rightarrow> arena_chunk \<Rightarrow> 'a typed_arena \<Rightarrow> ('a typed_arena \<times> 'a list) option" where
  "clear_last_chunk el c s = do {
     let start = chunk_start c;
     let fin = ta_ptr s;
     let diff = (if el_size el = 0 then wsub fin start else wsub fin start div el_size el);
     (st, xs) \<leftarrow> chunk_destroy el (ta_store s) c diff;
     Some (s\<lparr>ta_store := st, ta_ptr := chunk_start c\<rparr>, xs) }"

fun destroy_all :: "elem_type \<Rightarrow> arena_chunk list \<Rightarrow> (nat \<Rightarrow> 'a option) \<Rightarrow> ((nat \<Rightarrow> 'a option) \<times> 'a list) option" where
  "destroy_all el [] st = Some (st, [])"
| "destroy_all el (c # cs) st = do {
     (st, xs) \<leftarrow> chunk_destroy el st c (ch_entries c);
     (st, ys) \<leftarrow> destroy_all el cs st;
     Some (st, xs @ ys) }"

text \<open>\<open>drop\<close> returns the objects dropped, in order.\<close>

definition ta_drop :: "elem_type \<Rightarrow> 'a typed_arena \<Rightarrow> 'a list option" where
  "ta_drop el s = (if ta_chunks s = [] then Some []
     else do {
       (s, xs) \<leftarrow> clear_last_chunk el (last (ta_chunks s)) (s\<lparr>ta_chunks := butlast (ta_chunks s)\<rparr>);
       (st, ys) \<leftarrow> destroy_all el (ta_chunks s) (ta_store s);
       Some (xs @ ys) })"

section \<open>The dropless arena\<close>

record dropless =
  da_start :: nat
  da_end :: nat
  da_chunks :: "arena_chunk list"
  da_bytes :: "nat \<Rightarrow> 8 word"
  da_answers :: "nat list"

definition byte_type :: elem_type where
  "byte_type = \<lparr>el_size = 1, el_drops = False, el_dangling = 1\<rparr>"

definition da_default :: "nat list \<Rightarrow> dropless" where
  "da_default addrs = \<lparr>da_start = 0, da_end = 0, da_chunks = [], da_bytes = (\<lambda>_. 0), da_answers = addrs\<rparr>"

definition da_grow :: "nat \<Rightarrow> dropless \<Rightarrow> dropless option" where
  "da_grow additional s = do {
     let new_cap = (if da_chunks s = [] then ARENA_PAGE else min (ch_len (last (da_chunks s))) (HUGE_PAGE div 2) * 2);
     let new_cap = max additional new_cap;
     (c, addrs) \<leftarrow> chunk_new byte_type new_cap (da_answers s);
     Some (s\<lparr>da_start := chunk_start c, da_end := chunk_end byte_type c, da_chunks := da_chunks s @ [c], da_answers := addrs\<rparr>) }"

definition alloc_raw_without_grow :: "layout \<Rightarrow> dropless \<Rightarrow> (dropless \<times> nat) option" where
  "alloc_raw_without_grow l s = (
     let start = da_start s; fin = da_end s in
     if fin < lsize l then None
     else let new_end = align_down (fin - lsize l) (lalign l) in
       if start \<le> new_end then Some (s\<lparr>da_end := new_end\<rparr>, new_end) else None)"

text \<open>The loop of \<open>alloc_raw\<close>, which may never end.\<close>

partial_function (option) alloc_raw_loop :: "layout \<Rightarrow> dropless \<Rightarrow> (dropless \<times> nat) option" where
  "alloc_raw_loop l s = (case alloc_raw_without_grow l s of
       Some r \<Rightarrow> Some r
     | None \<Rightarrow> do { s \<leftarrow> da_grow (lsize l) s; alloc_raw_loop l s })"

definition alloc_raw :: "layout \<Rightarrow> dropless \<Rightarrow> (dropless \<times> nat) option" where
  "alloc_raw l s = do { ensure (lsize l \<noteq> 0); alloc_raw_loop l s }"

text \<open>The bytes of an object written at an address.\<close>

definition write_object :: "nat \<Rightarrow> 8 word list \<Rightarrow> (nat \<Rightarrow> 8 word) \<Rightarrow> nat \<Rightarrow> 8 word" where
  "write_object p bs m = (\<lambda>a. if p \<le> a \<and> a < p + length bs then bs ! (a - p) else m a)"

text \<open>Objects of a type of \<open>sz\<close> bytes with an alignment; \<open>needs_drop\<close> is a parameter. \<open>size_of_val\<close> of a slice is the
  product.\<close>

definition da_alloc :: "bool \<Rightarrow> nat \<Rightarrow> 8 word list \<Rightarrow> dropless \<Rightarrow> (dropless \<times> nat) option" where
  "da_alloc needs_drop algn x s = do {
     ensure (\<not> needs_drop);
     (s, p) \<leftarrow> alloc_raw \<lparr>lsize = length x, lalign = algn\<rparr> s;
     Some (s\<lparr>da_bytes := write_object p x (da_bytes s)\<rparr>, p) }"

definition da_alloc_slice :: "bool \<Rightarrow> nat \<Rightarrow> nat \<Rightarrow> 8 word list list \<Rightarrow> dropless \<Rightarrow> (dropless \<times> nat \<times> nat) option" where
  "da_alloc_slice needs_drop sz algn xs s = do {
     ensure (\<not> needs_drop);
     ensure (sz \<noteq> 0);
     ensure (xs \<noteq> []);
     (s, p) \<leftarrow> alloc_raw \<lparr>lsize = length xs * sz, lalign = algn\<rparr> s;
     Some (s\<lparr>da_bytes := write_object p (concat xs) (da_bytes s)\<rparr>, p, length xs) }"

text \<open>\<open>write_from_iter\<close>: the iterator is the list of what it still yields.\<close>

fun write_from_iter :: "nat \<Rightarrow> 8 word list list \<Rightarrow> nat \<Rightarrow> nat \<Rightarrow> nat \<Rightarrow> (nat \<Rightarrow> 8 word) \<Rightarrow> (nat \<Rightarrow> 8 word) \<times> nat" where
  "write_from_iter sz [] len p i m = (m, i)"
| "write_from_iter sz (x # xs) len p i m = (if i \<ge> len then (m, i)
     else write_from_iter sz xs len p (i + 1) (write_object (p + i * sz) x m))"

text \<open>\<open>hint\<close> is what \<open>size_hint\<close> of the iterator addrs. \<open>Layout::array\<close> fails above \<open>isize::MAX\<close> bytes.\<close>

definition da_alloc_from_iter :: "bool \<Rightarrow> nat \<Rightarrow> nat \<Rightarrow> 8 word list list \<Rightarrow> nat \<times> nat option \<Rightarrow> dropless \<Rightarrow> (dropless \<times> nat \<times> nat) option" where
  "da_alloc_from_iter needs_drop sz algn xs hint s = do {
     ensure (sz \<noteq> 0);
     ensure (\<not> needs_drop);
     if snd hint = Some (fst hint) then (
       let len = fst hint in
       if len = 0 then Some (s, algn, 0)
       else do {
         ensure (len * sz < 2 ^ 63);
         (s, p) \<leftarrow> alloc_raw \<lparr>lsize = len * sz, lalign = algn\<rparr> s;
         let (m, n) = write_from_iter sz xs len p 0 (da_bytes s);
         Some (s\<lparr>da_bytes := m\<rparr>, p, n) })
     else if xs = [] then Some (s, algn, 0)
     else do {
       (s, p) \<leftarrow> alloc_raw \<lparr>lsize = length xs * sz, lalign = algn\<rparr> s;
       Some (s\<lparr>da_bytes := write_object p (concat xs) (da_bytes s)\<rparr>, p, length xs) } }"

section \<open>The arena of a program\<close>

text \<open>\<open>declare_arena\<close> with one type in its list: an object that needs dropping goes to the typed arena, any other to the
  dropless one, as the bytes that \<open>enc\<close> gives.\<close>

record 'a arena =
  ar_dropless :: dropless
  ar_typed :: "'a typed_arena"

definition ar_alloc :: "elem_type \<Rightarrow> ('a \<Rightarrow> 8 word list) \<Rightarrow> 'a \<Rightarrow> 'a arena \<Rightarrow> ('a arena \<times> nat) option" where
  "ar_alloc el enc x s = (if \<not> el_drops el then do {
       (d, p) \<leftarrow> da_alloc (el_drops el) (el_dangling el) (enc x) (ar_dropless s);
       Some (s\<lparr>ar_dropless := d\<rparr>, p) }
     else do {
       (t, p) \<leftarrow> ta_alloc el x (ar_typed s);
       Some (s\<lparr>ar_typed := t\<rparr>, p) })"

definition ar_alloc_slice :: "elem_type \<Rightarrow> ('a \<Rightarrow> 8 word list) \<Rightarrow> 'a list \<Rightarrow> 'a arena \<Rightarrow> ('a arena \<times> nat \<times> nat) option" where
  "ar_alloc_slice el enc xs s = (if xs = [] then Some (s, el_dangling el, 0) else do {
     (d, p) \<leftarrow> da_alloc_slice (el_drops el) (el_size el) (el_dangling el) (map enc xs) (ar_dropless s);
     Some (s\<lparr>ar_dropless := d\<rparr>, p) })"

definition ar_alloc_from_iter :: "elem_type \<Rightarrow> ('a \<Rightarrow> 8 word list) \<Rightarrow> 'a list \<Rightarrow> nat \<times> nat option \<Rightarrow> 'a arena \<Rightarrow> ('a arena \<times> nat \<times> nat) option" where
  "ar_alloc_from_iter el enc xs hint s = (if \<not> el_drops el then do {
       (d, p) \<leftarrow> da_alloc_from_iter (el_drops el) (el_size el) (el_dangling el) (map enc xs) hint (ar_dropless s);
       Some (s\<lparr>ar_dropless := d\<rparr>, p) }
     else do {
       (t, p) \<leftarrow> ta_alloc_from_iter el xs (ar_typed s);
       Some (s\<lparr>ar_typed := t\<rparr>, p) })"

section \<open>Reading and writing places\<close>

lemma read_all_append: "read_all st (as @ bs) = do { xs \<leftarrow> read_all st as; ys \<leftarrow> read_all st bs; Some (xs @ ys) }"
  by (induction as) (auto split: bind_splits)

lemma read_all_cong: "(\<And>a. a \<in> set as \<Longrightarrow> st a = st' a) \<Longrightarrow> read_all st as = read_all st' as"
  by (induction as) auto

lemma places_0 [simp]: "places el p 0 = []"
  by (simp add: places_def)

lemma places_Suc: "places el p (Suc k) = p # places el (p + el_size el) k"
  by (simp add: places_def upt_conv_Cons map_Suc_upt [symmetric] add.assoc del: upt_Suc)

lemma places_add: "places el p (j + k) = places el p j @ places el (p + j * el_size el) k"
  by (induction j arbitrary: p) (simp_all add: places_Suc add.assoc)

lemma in_places: "a \<in> set (places el p k) \<longleftrightarrow> (\<exists>i < k. a = p + i * el_size el)"
  by (auto simp: places_def)

lemma copy_objects_other: "a \<notin> set (places el p (length xs)) \<Longrightarrow> copy_objects el p xs st a = st a"
  by (induction xs arbitrary: p st) (auto simp: places_Suc)

lemma places_above: "0 < el_size el \<Longrightarrow> a \<in> set (places el (p + el_size el) k) \<Longrightarrow> a \<noteq> p"
  by (auto simp: in_places)

lemma copy_objects_read: "0 < el_size el \<Longrightarrow> read_all (copy_objects el p xs st) (places el p (length xs)) = Some xs"
proof (induction xs arbitrary: p st)
  case (Cons x xs)
  have "p \<notin> set (places el (p + el_size el) (length xs))" using places_above [OF Cons.prems] by blast
  then have "copy_objects el (p + el_size el) xs (st(p \<mapsto> x)) p = Some x" using copy_objects_other by fastforce
  then show ?case using Cons by (simp add: places_Suc)
qed simp

section \<open>What the typed arena holds\<close>

definition chunk_range :: "elem_type \<Rightarrow> arena_chunk \<Rightarrow> nat \<times> nat" where
  "chunk_range el c = (ch_base c, ch_len c * el_size el)"

text \<open>What the allocator below promises of the blocks that it gives.\<close>

definition chunks_apart :: "elem_type \<Rightarrow> arena_chunk list \<Rightarrow> bool" where
  "chunks_apart el cs \<longleftrightarrow> sorted_wrt apart (map (chunk_range el) cs)"

definition last_count :: "elem_type \<Rightarrow> 'a typed_arena \<Rightarrow> nat" where
  "last_count el s = (ta_ptr s - ch_base (last (ta_chunks s))) div el_size el"

definition chunk_filled :: "elem_type \<Rightarrow> arena_chunk \<Rightarrow> nat list" where
  "chunk_filled el c = places el (ch_base c) (ch_entries c)"

definition filled :: "elem_type \<Rightarrow> 'a typed_arena \<Rightarrow> nat list" where
  "filled el s = (if ta_chunks s = [] then [] else concat (map (chunk_filled el) (butlast (ta_chunks s)))
     @ places el (ch_base (last (ta_chunks s))) (last_count el s))"

definition ta_inv :: "elem_type \<Rightarrow> 'a typed_arena \<Rightarrow> 'a list \<Rightarrow> bool" where
  "ta_inv el s xs \<longleftrightarrow> (\<forall>c \<in> set (ta_chunks s). ch_base c + ch_len c * el_size el < 2 ^ 64)
     \<and> (\<forall>c \<in> set (butlast (ta_chunks s)). ch_entries c \<le> ch_len c)
     \<and> (if ta_chunks s = [] then ta_ptr s = 0 \<and> ta_end s = 0 \<and> xs = []
        else let c = last (ta_chunks s) in ta_ptr s = ch_base c + last_count el s * el_size el \<and> last_count el s \<le> ch_len c
          \<and> ta_end s = ch_base c + ch_len c * el_size el)
     \<and> (chunks_apart el (ta_chunks s) \<longrightarrow> read_all (ta_store s) (filled el s) = Some xs)"

lemma chunks_apart_snoc: "chunks_apart el (cs @ [c]) \<longleftrightarrow> chunks_apart el cs \<and> (\<forall>d \<in> set cs. apart (chunk_range el d) (chunk_range el c))"
  by (simp add: chunks_apart_def sorted_wrt_append)

lemma filled_in_chunk:
  assumes "0 < el_size el" and "k \<le> ch_len c" and "a \<in> set (places el (ch_base c) k)"
  shows "within (a, el_size el) (chunk_range el c)"
proof -
  obtain i where i: "i < k" "a = ch_base c + i * el_size el" using assms(3) by (auto simp: in_places)
  then have "(i + 1) * el_size el \<le> ch_len c * el_size el" using assms(2) by (intro mult_le_mono1) simp
  then show ?thesis using i by (simp add: within_def chunk_range_def)
qed

text \<open>Places of chunks that lie apart are other places.\<close>

lemma apart_places:
  assumes "0 < el_size el" and "apart (chunk_range el c) (chunk_range el d)" and "within (a, el_size el) (chunk_range el c)"
    and "within (b, el_size el) (chunk_range el d)"
  shows "apart (a, el_size el) (b, el_size el)" "a \<noteq> b"
  using assms by (auto simp: apart_def within_def)

lemma butlast_apart:
  assumes "chunks_apart el cs" and "cs \<noteq> []" and "c \<in> set (butlast cs)"
  shows "apart (chunk_range el c) (chunk_range el (last cs))"
proof -
  have "chunks_apart el (butlast cs @ [last cs])" using assms(1,2) by simp
  then show ?thesis using assms(3) by (simp add: chunks_apart_snoc)
qed

lemma in_filled:
  assumes "a \<in> set (filled el s)"
  obtains c where "c \<in> set (butlast (ta_chunks s))" "a \<in> set (places el (ch_base c) (ch_entries c))"
  | "ta_chunks s \<noteq> []" "a \<in> set (places el (ch_base (last (ta_chunks s))) (last_count el s))"
  using assms by (auto simp: filled_def chunk_filled_def split: if_splits)

lemma ta_inv_parts:
  assumes "ta_inv el s xs" and "ta_chunks s \<noteq> []"
  shows "ta_ptr s = ch_base (last (ta_chunks s)) + last_count el s * el_size el" "last_count el s \<le> ch_len (last (ta_chunks s))"
    "ta_end s = ch_base (last (ta_chunks s)) + ch_len (last (ta_chunks s)) * el_size el"
    "ch_base (last (ta_chunks s)) + ch_len (last (ta_chunks s)) * el_size el < 2 ^ 64"
  using assms by (auto simp: ta_inv_def Let_def)

lemma ta_inv_bounds:
  assumes "ta_inv el s xs" and "ta_chunks s \<noteq> []"
  shows "ch_base (last (ta_chunks s)) \<le> ta_ptr s" "ta_ptr s \<le> ta_end s" "ta_end s < 2 ^ 64"
  using ta_inv_parts [OF assms] mult_le_mono1 [of "last_count el s" "ch_len (last (ta_chunks s))" "el_size el"] by linarith+

lemma ta_put_ok:
  assumes inv: "ta_inv el s xs" and c: "ta_chunks s \<noteq> []" and e: "0 < el_size el"
    and room: "last_count el s + length ys \<le> ch_len (last (ta_chunks s))"
  defines "s' \<equiv> s\<lparr>ta_ptr := ta_ptr s + length ys * el_size el, ta_store := copy_objects el (ta_ptr s) ys (ta_store s)\<rparr>"
  shows "ta_inv el s' (xs @ ys)" "filled el s' = filled el s @ places el (ta_ptr s) (length ys)"
proof -
  note p = ta_inv_parts [OF inv c]
  let ?c = "last (ta_chunks s)"
  have cs: "ta_chunks s' = ta_chunks s" by (simp add: s'_def)
  have k: "last_count el s' = last_count el s + length ys"
  proof -
    have "last_count el s' = (ta_ptr s + length ys * el_size el - ch_base ?c) div el_size el" unfolding last_count_def s'_def by simp
    then show ?thesis using p(1) e by (simp add: add_mult_distrib [symmetric])
  qed
  show f: "filled el s' = filled el s @ places el (ta_ptr s) (length ys)"
    using c by (simp add: filled_def cs k places_add p(1))
  have "read_all (ta_store s') (filled el s') = Some (xs @ ys)" if ap: "chunks_apart el (ta_chunks s)"
  proof -
    have "ta_store s a = ta_store s' a" if "a \<in> set (filled el s)" for a
    proof -
      have "a \<notin> set (places el (ta_ptr s) (length ys))"
      proof
        assume b: "a \<in> set (places el (ta_ptr s) (length ys))"
        have w: "within (a, el_size el) (chunk_range el ?c)"
        proof (rule filled_in_chunk [OF e])
          show "a \<in> set (places el (ch_base ?c) (last_count el s + length ys))" using b p(1) by (simp add: places_add)
        qed (rule room)
        from \<open>a \<in> set (filled el s)\<close> show False
        proof (cases rule: in_filled)
          case (1 d)
          then have "ch_entries d \<le> ch_len d" using inv by (simp add: ta_inv_def)
          then have "within (a, el_size el) (chunk_range el d)" using filled_in_chunk [OF e _ 1(2)] by simp
          then show False using apart_places(2) [OF e butlast_apart [OF ap c 1(1)] _ w] by blast
        next
          case 2
          then show False using b p(1) e by (auto simp: in_places add_mult_distrib [symmetric])
        qed
      qed
      then show ?thesis by (simp add: s'_def copy_objects_other)
    qed
    then have "read_all (ta_store s') (filled el s) = Some xs"
      using read_all_cong [of "filled el s" "ta_store s" "ta_store s'"] inv ap by (simp add: ta_inv_def)
    moreover have "read_all (ta_store s') (places el (ta_ptr s) (length ys)) = Some ys"
      using copy_objects_read [OF e] by (simp add: s'_def)
    ultimately show ?thesis by (simp add: f read_all_append)
  qed
  then show "ta_inv el s' (xs @ ys)"
    using inv c room k p by (simp add: ta_inv_def cs Let_def) (simp add: s'_def add_mult_distrib)
qed

lemma cap_bound:
  assumes "0 < e"
  shows "max a (min n (HUGE_PAGE div e div 2) * 2) * e \<le> max (a * e) HUGE_PAGE" "max a (ARENA_PAGE div e) * e \<le> max (a * e) HUGE_PAGE"
proof -
  have "min n (HUGE_PAGE div e div 2) * 2 \<le> HUGE_PAGE div e" by simp
  then have "min n (HUGE_PAGE div e div 2) * 2 * e \<le> HUGE_PAGE"
    by (meson div_times_less_eq_dividend le_trans mult_le_mono1)
  then show "max a (min n (HUGE_PAGE div e div 2) * 2) * e \<le> max (a * e) HUGE_PAGE" unfolding nat_mult_max_left by (rule max.mono [OF order_refl])
  have "ARENA_PAGE div e * e \<le> HUGE_PAGE" by (rule order_trans [OF div_times_less_eq_dividend]) (simp add: ARENA_PAGE_def HUGE_PAGE_def)
  then show "max a (ARENA_PAGE div e) * e \<le> max (a * e) HUGE_PAGE" unfolding nat_mult_max_left by (rule max.mono [OF order_refl])
qed

lemma ta_grow_ok:
  assumes inv: "ta_inv el s xs" and e: "0 < el_size el" "el_drops el" and ad: "ta_answers s = p # ps" "p < 2 ^ 62"
    and n: "0 < n" "n * el_size el < 2 ^ 62"
  shows "\<exists>s'. ta_grow el n s = Some s' \<and> ta_inv el s' xs \<and> ta_chunks s' \<noteq> [] \<and> ta_answers s' = ps \<and> filled el s' = filled el s
    \<and> last_count el s' = 0 \<and> n \<le> ch_len (last (ta_chunks s'))"
proof -
  define cap0 where "cap0 = (if ta_chunks s = [] then ARENA_PAGE div el_size el
    else min (ch_len (last (ta_chunks s))) (HUGE_PAGE div el_size el div 2) * 2)"
  define cap where "cap = max n cap0"
  define old where "old = (if ta_chunks s = [] then [] else butlast (ta_chunks s) @ [(last (ta_chunks s))\<lparr>ch_entries := last_count el s\<rparr>])"
  define c where "c = \<lparr>ch_base = p, ch_len = cap, ch_entries = 0\<rparr>"
  define s' where "s' = s\<lparr>ta_ptr := p, ta_end := p + cap * el_size el, ta_chunks := old @ [c], ta_answers := ps\<rparr>"
  have "cap * el_size el \<le> max (n * el_size el) HUGE_PAGE" using cap_bound [OF e(1)] by (simp add: cap_def cap0_def)
  then have cap: "cap * el_size el < 2 ^ 62" using n(2) by (simp add: HUGE_PAGE_def)
  have "n \<le> cap" by (simp add: cap_def)
  then have new: "chunk_new el cap (ta_answers s) = Some (c, ps)" using cap e(1) ad(1) n(1) by (simp add: chunk_new_def c_def)
  have ce: "chunk_end el c = p + cap * el_size el" using cap ad(2) e(1) by (simp add: chunk_end_def chunk_start_def c_def)
  have "wsub (ta_ptr s) (ch_base (last (ta_chunks s))) div el_size el = last_count el s" if "ta_chunks s \<noteq> []"
    using ta_inv_bounds [OF inv that] by (simp add: last_count_def)
  moreover have "max 1 (el_size el) = el_size el" using e(1) by simp
  ultimately have g: "ta_grow el n s = Some s'"
    using e new ce by (cases "ta_chunks s = []") (simp_all add: ta_grow_def Let_def chunk_start_def cap_def cap0_def old_def s'_def c_def)
  have k: "last_count el s' = 0" by (simp add: last_count_def s'_def c_def)
  have f: "filled el s' = filled el s" by (simp add: filled_def k) (simp add: s'_def old_def chunk_filled_def butlast_append)
  have "chunks_apart el (ta_chunks s') \<Longrightarrow> chunks_apart el (ta_chunks s)"
  proof -
    assume "chunks_apart el (ta_chunks s')"
    then have "chunks_apart el old" by (simp add: chunks_apart_snoc s'_def)
    moreover have "map (chunk_range el) old = map (chunk_range el) (ta_chunks s)"
      by (cases "ta_chunks s" rule: rev_cases) (simp_all add: chunk_range_def old_def)
    ultimately show ?thesis by (simp add: chunks_apart_def)
  qed
  moreover have "\<forall>c \<in> set old. ch_base c + ch_len c * el_size el < 2 ^ 64 \<and> ch_entries c \<le> ch_len c"
    using inv ta_inv_parts [OF inv] by (auto simp: ta_inv_def old_def dest: in_set_butlastD)
  moreover have "read_all (ta_store s) (filled el s) = Some xs" if "chunks_apart el (ta_chunks s)" using inv that by (simp add: ta_inv_def)
  ultimately have "ta_inv el s' xs"
    using cap ad(2) by (simp add: ta_inv_def Let_def f k) (simp add: s'_def c_def)
  then show ?thesis using g f k \<open>n \<le> cap\<close> by (intro exI [of _ s']) (simp add: s'_def c_def)
qed

section \<open>Runs of the typed arena\<close>

datatype 'a arena_op = One 'a | Many "'a list"

fun op_objects :: "'a arena_op \<Rightarrow> 'a list" where
  "op_objects (One x) = [x]"
| "op_objects (Many xs) = xs"

text \<open>A step returns the places of the objects it allocated.\<close>

fun ta_step :: "elem_type \<Rightarrow> 'a arena_op \<Rightarrow> 'a typed_arena \<Rightarrow> ('a typed_arena \<times> nat list) option" where
  "ta_step el (One x) s = do { (s, p) \<leftarrow> ta_alloc el x s; Some (s, [p]) }"
| "ta_step el (Many xs) s = do { (s, p, n) \<leftarrow> ta_alloc_from_iter el xs s; Some (s, places el p n) }"

fun ta_run :: "elem_type \<Rightarrow> 'a arena_op list \<Rightarrow> 'a typed_arena \<Rightarrow> ('a typed_arena \<times> nat list) option" where
  "ta_run el [] s = Some (s, [])"
| "ta_run el (op # ops) s = do { (s, as) \<leftarrow> ta_step el op s; (s, bs) \<leftarrow> ta_run el ops s; Some (s, as @ bs) }"

lemma arena_room_iff:
  assumes "ta_inv el s xs" and "ta_chunks s \<noteq> []" and "0 < el_size el"
  shows "n * el_size el \<le> wsub (ta_end s) (ta_ptr s) \<longleftrightarrow> last_count el s + n \<le> ch_len (last (ta_chunks s))"
proof -
  note p = ta_inv_parts [OF assms(1,2)] note b = ta_inv_bounds [OF assms(1,2)]
  have "n * el_size el \<le> wsub (ta_end s) (ta_ptr s) \<longleftrightarrow> (last_count el s + n) * el_size el \<le> ch_len (last (ta_chunks s)) * el_size el"
    using p b by (simp add: add_mult_distrib Nat.le_diff_conv2 [OF mult_le_mono1 [OF p(2)]] add.commute)
  then show ?thesis using assms(3) by simp
qed

lemma put_slice:
  assumes inv: "ta_inv el s xs" "ta_chunks s \<noteq> []" "0 < el_size el" and room: "last_count el s + length ys \<le> ch_len (last (ta_chunks s))"
  shows "wadd (ta_ptr s) (wmul (length ys) (el_size el)) = ta_ptr s + length ys * el_size el"
proof -
  have "length ys * el_size el \<le> ta_end s - ta_ptr s"
    using arena_room_iff [OF inv, of "length ys"] room ta_inv_bounds [OF inv(1,2)] by simp
  then show ?thesis using ta_inv_bounds [OF inv(1,2)] by simp
qed

lemma ta_step_ok:
  assumes inv: "ta_inv el s xs" and e: "0 < el_size el" "el_drops el" and ad: "ta_answers s = p # ps" "p < 2 ^ 62"
    and n: "length (op_objects op) * el_size el < 2 ^ 62" "el_size el < 2 ^ 62"
  shows "\<exists>s' as. ta_step el op s = Some (s', as) \<and> ta_inv el s' (xs @ op_objects op) \<and> filled el s' = filled el s @ as
    \<and> (ta_answers s' = p # ps \<or> ta_answers s' = ps)"
proof -
  have put: "\<exists>s'. s' = t\<lparr>ta_ptr := wadd (ta_ptr t) (wmul (length ys) (el_size el)), ta_store := copy_objects el (ta_ptr t) ys (ta_store t)\<rparr>
      \<and> ta_inv el s' (xs @ ys) \<and> filled el s' = filled el s @ places el (ta_ptr t) (length ys) \<and> ta_answers s' = ta_answers t"
    if t: "ta_inv el t xs" "ta_chunks t \<noteq> []" "last_count el t + length ys \<le> ch_len (last (ta_chunks t))" "filled el t = filled el s" for t ys
    using ta_put_ok [OF t(1,2) e(1) t(3)] t(4) put_slice [OF t(1,2) e(1) t(3)] by simp
  show ?thesis
  proof (cases op)
    case (One x)
    obtain t where t: "(if ta_ptr s = ta_end s then ta_grow el 1 s else Some s) = Some t" "ta_inv el t xs" "ta_chunks t \<noteq> []"
      "last_count el t + length [x] \<le> ch_len (last (ta_chunks t))" "filled el t = filled el s" "ta_answers t = p # ps \<or> ta_answers t = ps"
    proof (cases "ta_ptr s = ta_end s")
      case True
      then show ?thesis using ta_grow_ok [OF inv e ad, of 1] n(2) that by auto
    next
      case False
      then have c: "ta_chunks s \<noteq> []" using inv by (auto simp: ta_inv_def)
      then have "last_count el s \<noteq> ch_len (last (ta_chunks s))" using ta_inv_parts [OF inv c] False by auto
      then show ?thesis using that [of s] ta_inv_parts(2) [OF inv c] inv c False ad(1) by simp
    qed
    have "wmul (Suc 0) (el_size el) = el_size el" using n(2) by simp
    with put [OF t(2-5)] t(1,6) show ?thesis using One e(1)
      by (auto simp: ta_alloc_def places_def Let_def)
  next
    case (Many ys)
    show ?thesis
    proof (cases "ys = []")
      case True
      then show ?thesis using Many inv e(1) ad(1) by (simp add: ta_alloc_from_iter_def iter_alloc_def)
    next
      case False
      have l: "length ys * el_size el < 2 ^ 64" using n(1) Many by simp
      obtain t where t: "ensure_capacity el (length ys) s = Some t" "ta_inv el t xs" "ta_chunks t \<noteq> []"
        "last_count el t + length ys \<le> ch_len (last (ta_chunks t))" "filled el t = filled el s" "ta_answers t = p # ps \<or> ta_answers t = ps"
      proof (cases "ta_chunks s \<noteq> [] \<and> last_count el s + length ys \<le> ch_len (last (ta_chunks s))")
        case True
        then show ?thesis using that [of s] arena_room_iff [OF inv _ e(1), of "length ys"] l ad(1) inv
          by (simp add: ensure_capacity_def can_allocate_def)
      next
        case no: False
        have "\<not> length ys * el_size el \<le> wsub (ta_end s) (ta_ptr s)"
          using no arena_room_iff [OF inv _ e(1), of "length ys"] inv False e(1) by (cases "ta_chunks s = []") (auto simp: ta_inv_def)
        moreover obtain t where t: "ta_grow el (length ys) s = Some t" "ta_inv el t xs" "ta_chunks t \<noteq> []" "ta_answers t = ps"
          "filled el t = filled el s" "last_count el t = 0" "length ys \<le> ch_len (last (ta_chunks t))"
          using ta_grow_ok [OF inv e ad, of "length ys"] False n(1) Many by auto
        moreover have "length ys * el_size el \<le> wsub (ta_end t) (ta_ptr t)" using arena_room_iff [OF t(2,3) e(1), of "length ys"] t(6,7) by simp
        ultimately show ?thesis using that [of t] l by (simp add: ensure_capacity_def can_allocate_def)
      qed
      from put [OF t(2-5)] t(1,6) show ?thesis using Many e(1) False
        by (auto simp: ta_alloc_from_iter_def iter_alloc_def alloc_raw_slice_def Let_def)
    qed
  qed
qed

lemma ta_run_ok:
  assumes "ta_inv el s xs" and e: "0 < el_size el" "el_drops el" "el_size el < 2 ^ 62" and "length ops \<le> length (ta_answers s)"
    and "\<forall>p \<in> set (ta_answers s). p < 2 ^ 62" and "\<forall>op \<in> set ops. length (op_objects op) * el_size el < 2 ^ 62"
  shows "\<exists>s' as. ta_run el ops s = Some (s', as) \<and> ta_inv el s' (xs @ concat (map op_objects ops)) \<and> filled el s' = filled el s @ as"
  using assms(1,5-)
proof (induction ops arbitrary: s xs)
  case (Cons op ops)
  obtain p ps where ps: "ta_answers s = p # ps" using Cons.prems(2) by (cases "ta_answers s") auto
  obtain s1 as where s1: "ta_step el op s = Some (s1, as)" "ta_inv el s1 (xs @ op_objects op)" "filled el s1 = filled el s @ as"
    "ta_answers s1 = p # ps \<or> ta_answers s1 = ps"
    using ta_step_ok [OF Cons.prems(1) e(1,2) ps, of op] Cons.prems e(3) ps by auto
  then obtain s' bs where "ta_run el ops s1 = Some (s', bs)" "ta_inv el s' ((xs @ op_objects op) @ concat (map op_objects ops))"
    "filled el s' = filled el s1 @ bs"
    using Cons.IH [OF s1(2)] Cons.prems(2-4) ps by auto
  then show ?case using s1 by simp
qed simp

section \<open>No two objects overlap, and each is dropped once\<close>

text \<open>The chunks with the count of the last one filled in.\<close>

definition closed_chunks :: "elem_type \<Rightarrow> 'a typed_arena \<Rightarrow> arena_chunk list" where
  "closed_chunks el s = (if ta_chunks s = [] then []
     else butlast (ta_chunks s) @ [(last (ta_chunks s))\<lparr>ch_entries := last_count el s\<rparr>])"

lemma closed_chunks_ok:
  assumes "ta_inv el s xs"
  shows "filled el s = concat (map (chunk_filled el) (closed_chunks el s))"
    "chunks_apart el (closed_chunks el s) \<longleftrightarrow> chunks_apart el (ta_chunks s)"
    "\<forall>c \<in> set (closed_chunks el s). ch_entries c \<le> ch_len c"
    "chunk_range el ` set (closed_chunks el s) = chunk_range el ` set (ta_chunks s)"
proof -
  show "filled el s = concat (map (chunk_filled el) (closed_chunks el s))" by (simp add: filled_def closed_chunks_def chunk_filled_def)
  have m: "map (chunk_range el) (closed_chunks el s) = map (chunk_range el) (ta_chunks s)"
    by (cases "ta_chunks s" rule: rev_cases) (simp_all add: closed_chunks_def chunk_range_def)
  then show "chunks_apart el (closed_chunks el s) \<longleftrightarrow> chunks_apart el (ta_chunks s)" by (simp add: chunks_apart_def)
  show "chunk_range el ` set (closed_chunks el s) = chunk_range el ` set (ta_chunks s)" using arg_cong [OF m, of set] by simp
  show "\<forall>c \<in> set (closed_chunks el s). ch_entries c \<le> ch_len c"
    using assms ta_inv_parts(2) [OF assms] by (auto simp: closed_chunks_def ta_inv_def)
qed

lemma in_chunk_filled:
  assumes "0 < el_size el" and "ch_entries c \<le> ch_len c" and "a \<in> set (chunk_filled el c)"
  shows "within (a, el_size el) (chunk_range el c)"
  using filled_in_chunk [OF assms(1,2)] assms(3) by (simp add: chunk_filled_def)

lemma places_apart: "sorted_wrt apart (map (\<lambda>a. (a, el_size el)) (places el p k))"
proof -
  have "apart (p + i * el_size el, el_size el) (p + j * el_size el, el_size el)" if "i < j" for i j
  proof -
    have "(i + 1) * el_size el \<le> j * el_size el" using that by (intro mult_le_mono1) simp
    then show ?thesis by (simp add: apart_def)
  qed
  then show ?thesis by (simp add: places_def sorted_wrt_iff_nth_less)
qed

lemma chunks_filled_apart:
  assumes e: "0 < el_size el"
  shows "chunks_apart el cs \<Longrightarrow> \<forall>c \<in> set cs. ch_entries c \<le> ch_len c \<Longrightarrow>
    sorted_wrt apart (map (\<lambda>a. (a, el_size el)) (concat (map (chunk_filled el) cs)))"
proof (induction cs)
  case (Cons c cs)
  have "apart (a, el_size el) (b, el_size el)" if "a \<in> set (chunk_filled el c)" "d \<in> set cs" "b \<in> set (chunk_filled el d)" for a b d
  proof (rule apart_places(1) [OF e])
    show "apart (chunk_range el c) (chunk_range el d)" using Cons.prems(1) that(2) by (simp add: chunks_apart_def)
  qed (use in_chunk_filled [OF e] Cons.prems(2) that in auto)
  moreover have "sorted_wrt apart (map (\<lambda>a. (a, el_size el)) (concat (map (chunk_filled el) cs)))"
    using Cons by (simp add: chunks_apart_def)
  ultimately show ?case using places_apart [of el "ch_base c" "ch_entries c"]
    by (auto simp: sorted_wrt_append chunk_filled_def [of el c])
qed simp

lemma destroy_all_ok:
  assumes e: "0 < el_size el" "el_drops el"
  shows "chunks_apart el cs \<Longrightarrow> \<forall>c \<in> set cs. ch_entries c \<le> ch_len c \<Longrightarrow> read_all st (concat (map (chunk_filled el) cs)) = Some ys \<Longrightarrow>
    \<exists>st'. destroy_all el cs st = Some (st', ys)"
proof (induction cs arbitrary: st ys)
  case (Cons c cs)
  obtain y1 y2 where y: "read_all st (chunk_filled el c) = Some y1" "read_all st (concat (map (chunk_filled el) cs)) = Some y2" "ys = y1 @ y2"
    using Cons.prems(3) by (auto simp: read_all_append bind_eq_Some_conv)
  define st1 where "st1 = (\<lambda>a. if a \<in> set (chunk_filled el c) then None else st a)"
  have d: "chunk_destroy el st c (ch_entries c) = Some (st1, y1)"
    using Cons.prems(2) y(1) e(2) by (simp add: chunk_destroy_def st1_def chunk_filled_def chunk_start_def)
  have "read_all st1 (concat (map (chunk_filled el) cs)) = Some y2"
  proof -
    have "st a = st1 a" if "d \<in> set cs" "a \<in> set (chunk_filled el d)" for d a
    proof -
      have "a \<notin> set (chunk_filled el c)"
        using apart_places(2) [OF e(1), of c d a a] in_chunk_filled [OF e(1), of c a] in_chunk_filled [OF e(1), of d a] Cons.prems(1,2) that
        by (auto simp: chunks_apart_def)
      then show ?thesis by (simp add: st1_def)
    qed
    then have "read_all st (concat (map (chunk_filled el) cs)) = read_all st1 (concat (map (chunk_filled el) cs))"
      by (intro read_all_cong) auto
    then show ?thesis using y(2) by simp
  qed
  then show ?case using Cons.IH [of st1 y2] Cons.prems d y(3) by (auto simp: chunks_apart_def)
qed simp

lemma ta_drop_ok:
  assumes inv: "ta_inv el s xs" and e: "0 < el_size el" "el_drops el" and ap: "chunks_apart el (ta_chunks s)"
  shows "\<exists>ys. ta_drop el s = Some ys \<and> mset ys = mset xs"
proof (cases "ta_chunks s = []")
  case True
  then show ?thesis using inv by (simp add: ta_drop_def ta_inv_def)
next
  case False
  let ?c = "last (ta_chunks s)" let ?cs = "butlast (ta_chunks s)"
  have cap: "chunks_apart el (?c # ?cs)"
  proof -
    have "chunks_apart el ?cs" using ap False chunks_apart_snoc [of el ?cs ?c] by simp
    then show ?thesis using butlast_apart [OF ap False] by (auto simp: chunks_apart_def apart_sym [of "chunk_range el ?c"])
  qed
  obtain y1 y2 where y: "read_all (ta_store s) (concat (map (chunk_filled el) ?cs)) = Some y1"
    "read_all (ta_store s) (places el (ch_base ?c) (last_count el s)) = Some y2" "xs = y1 @ y2"
    using inv ap False by (auto simp: ta_inv_def filled_def read_all_append bind_eq_Some_conv)
  let ?d = "?c\<lparr>ch_entries := last_count el s\<rparr>"
  have r: "read_all (ta_store s) (concat (map (chunk_filled el) (?d # ?cs))) = Some (y2 @ y1)"
    using y(1,2) by (simp add: read_all_append chunk_filled_def [of el ?d])
  have "chunks_apart el (?d # ?cs)" using cap by (simp add: chunks_apart_def chunk_range_def)
  moreover have "\<forall>c \<in> set (?d # ?cs). ch_entries c \<le> ch_len c" using inv ta_inv_parts(2) [OF inv False] by (simp add: ta_inv_def)
  ultimately obtain st' where st': "destroy_all el (?d # ?cs) (ta_store s) = Some (st', y2 @ y1)"
    using destroy_all_ok [OF e _ _ r] by blast
  then obtain st1 ya yb where st1: "chunk_destroy el (ta_store s) ?d (last_count el s) = Some (st1, ya)" "destroy_all el ?cs st1 = Some (st', yb)"
    "y2 @ y1 = ya @ yb" by (auto simp: bind_eq_Some_conv)
  moreover have "chunk_destroy el (ta_store s) ?c (last_count el s) = chunk_destroy el (ta_store s) ?d (last_count el s)"
    by (simp add: chunk_destroy_def chunk_start_def)
  moreover have "wsub (ta_ptr s) (chunk_start ?c) div el_size el = last_count el s"
    using ta_inv_bounds [OF inv False] by (simp add: last_count_def chunk_start_def)
  ultimately have "ta_drop el s = Some (ya @ yb)"
    using False e by (simp add: ta_drop_def clear_last_chunk_def Let_def)
  moreover have "mset (ya @ yb) = mset xs" using st1(3) y(3) by (metis mset_append union_commute)
  ultimately show ?thesis by blast
qed



lemma zero_sized_run:
  assumes z: "el_size el = 0" and d: "el_dangling el + k + m < 2 ^ 64 - 1"
    and s: "ta_ptr s = el_dangling el + k" "ta_end s = 2 ^ 64 - 1"
  shows "\<exists>st. ta_run el (replicate m (One x)) s = Some (s\<lparr>ta_ptr := el_dangling el + k + m, ta_store := st\<rparr>, replicate m (el_dangling el))"
  using d s
proof (induction m arbitrary: k s)
  case 0
  then show ?case by (intro exI [of _ "ta_store s"]) simp
next
  case (Suc m)
  let ?s = "s\<lparr>ta_ptr := el_dangling el + (k + 1), ta_store := (ta_store s)(el_dangling el \<mapsto> x)\<rparr>"
  have "ta_alloc el x s = Some (?s, el_dangling el)" using Suc.prems z by (simp add: ta_alloc_def Let_def)
  moreover obtain st where "ta_run el (replicate m (One x)) ?s = Some (?s\<lparr>ta_ptr := el_dangling el + (k + 1) + m, ta_store := st\<rparr>, replicate m (el_dangling el))"
    using Suc.IH [of "k + 1" ?s] Suc.prems by auto
  ultimately show ?case by (intro exI [of _ st]) simp
qed

text \<open>An arena of zero-sized objects that need dropping cannot be dropped once it holds more than 4096 of them: there is
  one chunk of 4096 entries, and \<open>destroy\<close> slices it to the number of objects. The comment in the code takes it that such
  a type has nothing to drop.\<close>

theorem zero_sized_drop_panics:
  fixes x :: 'a
  assumes el: "el_size el = 0" "el_drops el" and n: "4096 < n" "el_dangling el + n < 2 ^ 64 - 1"
  shows "\<exists>s as. ta_run el (replicate n (One x)) (ta_default addrs) = Some (s, as) \<and> ta_drop el s = None"
proof -
  let ?d = "el_dangling el" let ?c = "\<lparr>ch_base = ?d, ch_len = 4096, ch_entries = 0\<rparr>"
  let ?s = "(ta_default addrs)\<lparr>ta_ptr := ?d + 1, ta_end := 2 ^ 64 - 1, ta_chunks := [?c], ta_store := [?d \<mapsto> x]\<rparr>"
  obtain m where m: "n = Suc m" using n(1) by (cases n) auto
  have "ta_grow el 1 (ta_default addrs :: 'a typed_arena) = Some ((ta_default addrs)\<lparr>ta_ptr := ?d, ta_end := 2 ^ 64 - 1, ta_chunks := [?c]\<rparr>)"
    using el by (simp add: ta_grow_def ta_default_def chunk_new_def chunk_start_def chunk_end_def ARENA_PAGE_def)
  then have a: "ta_alloc el x (ta_default addrs) = Some (?s, ?d)"
    using el n by (simp add: ta_alloc_def ta_default_def Let_def)
  obtain st where "ta_run el (replicate m (One x)) ?s = Some (?s\<lparr>ta_ptr := ?d + 1 + m, ta_store := st\<rparr>, replicate m ?d)"
    using zero_sized_run [OF el(1), of 1 m ?s x] n m by auto
  then have "ta_run el (replicate n (One x)) (ta_default addrs) = Some (?s\<lparr>ta_ptr := ?d + 1 + m, ta_store := st\<rparr>, replicate n ?d)"
    using a m by simp
  moreover have "ta_drop el (?s\<lparr>ta_ptr := ?d + 1 + m, ta_store := st\<rparr>) = None"
    using el n m by (simp add: ta_drop_def clear_last_chunk_def chunk_destroy_def chunk_start_def Let_def)
  ultimately show ?thesis by blast
qed

section \<open>Runs of the dropless arena\<close>

definition da_fresh :: "dropless \<Rightarrow> bool" where
  "da_fresh s \<longleftrightarrow> da_chunks s \<noteq> [] \<and> da_end s = da_start s + ch_len (last (da_chunks s))"

definition da_inv :: "dropless \<Rightarrow> (nat \<times> nat) list \<Rightarrow> bool" where
  "da_inv s given \<longleftrightarrow> (if da_chunks s = [] then da_start s = 0 \<and> da_end s = 0 \<and> given = []
       else da_start s = ch_base (last (da_chunks s)) \<and> da_start s \<le> da_end s
         \<and> da_end s \<le> ch_base (last (da_chunks s)) + ch_len (last (da_chunks s)))
     \<and> (\<forall>c \<in> set (da_chunks s). ARENA_PAGE \<le> ch_len c \<and> ch_base c + ch_len c < 2 ^ 64)
     \<and> (\<forall>r \<in> set given. \<exists>c \<in> set (da_chunks s). within r (chunk_range byte_type c))
     \<and> (chunks_apart byte_type (da_chunks s) \<longrightarrow> sorted_wrt apart given
         \<and> (\<forall>r \<in> set given. apart (da_start s, da_end s - da_start s) r))"

lemma byte_range: "chunk_range byte_type c = (ch_base c, ch_len c)"
  by (simp add: chunk_range_def byte_type_def)

lemma da_grow_ok:
  assumes inv: "da_inv s given" and ad: "da_answers s = p # ps" "p < 2 ^ 62" and n: "n < 2 ^ 62"
  shows "\<exists>s'. da_grow n s = Some s' \<and> da_inv s' given \<and> da_fresh s' \<and> da_answers s' = ps \<and> n \<le> ch_len (last (da_chunks s'))
    \<and> (da_chunks s \<noteq> [] \<longrightarrow> min (2 * ch_len (last (da_chunks s))) HUGE_PAGE \<le> ch_len (last (da_chunks s')))"
proof -
  define cap0 where "cap0 = (if da_chunks s = [] then ARENA_PAGE else min (ch_len (last (da_chunks s))) (HUGE_PAGE div 2) * 2)"
  define cap where "cap = max n cap0"
  define c where "c = \<lparr>ch_base = p, ch_len = cap, ch_entries = 0\<rparr>"
  define s' where "s' = s\<lparr>da_start := p, da_end := p + cap, da_chunks := da_chunks s @ [c], da_answers := ps\<rparr>"
  have "cap0 \<le> HUGE_PAGE" by (simp add: cap0_def ARENA_PAGE_def HUGE_PAGE_def)
  then have cap: "cap < 2 ^ 62" using n by (simp add: cap_def HUGE_PAGE_def)
  have "da_chunks s \<noteq> [] \<Longrightarrow> ARENA_PAGE \<le> ch_len (last (da_chunks s))" using inv by (auto simp: da_inv_def)
  then have pg: "ARENA_PAGE \<le> cap" by (auto simp: cap_def cap0_def ARENA_PAGE_def HUGE_PAGE_def max_def min_def)
  then have new: "chunk_new byte_type cap (da_answers s) = Some (c, ps)" using cap ad(1) by (simp add: chunk_new_def c_def byte_type_def ARENA_PAGE_def)
  have ce: "chunk_end byte_type c = p + cap" using cap ad(2) by (simp add: chunk_end_def chunk_start_def c_def byte_type_def)
  have g: "da_grow n s = Some s'" using new ce by (simp add: da_grow_def cap_def cap0_def Let_def s'_def chunk_start_def c_def)
  have "da_inv s' given"
    unfolding da_inv_def
  proof (intro conjI impI)
    assume ap: "chunks_apart byte_type (da_chunks s')"
    then have "chunks_apart byte_type (da_chunks s)" and new_apart: "\<forall>d \<in> set (da_chunks s). apart (chunk_range byte_type d) (p, cap)"
      by (simp_all add: s'_def chunks_apart_snoc byte_range c_def)
    then show "sorted_wrt apart given" using inv by (simp add: da_inv_def)
    show "\<forall>r \<in> set given. apart (da_start s', da_end s' - da_start s') r"
    proof
      fix r assume "r \<in> set given"
      then obtain d where "d \<in> set (da_chunks s)" "within r (chunk_range byte_type d)" using inv by (auto simp: da_inv_def)
      then show "apart (da_start s', da_end s' - da_start s') r" using new_apart by (fastforce simp: s'_def apart_def within_def)
    qed
  next
    show "\<forall>r \<in> set given. \<exists>c \<in> set (da_chunks s'). within r (chunk_range byte_type c)" using inv by (auto simp: da_inv_def s'_def)
  next
    show "\<forall>c \<in> set (da_chunks s'). ARENA_PAGE \<le> ch_len c \<and> ch_base c + ch_len c < 2 ^ 64"
      using inv pg cap ad(2) by (auto simp: da_inv_def s'_def c_def)
  qed (simp add: s'_def c_def)
  moreover have "min (2 * ch_len (last (da_chunks s))) HUGE_PAGE \<le> cap" if "da_chunks s \<noteq> []"
    using that by (auto simp: cap_def cap0_def HUGE_PAGE_def)
  ultimately show ?thesis using g by (intro exI [of _ s']) (simp add: s'_def da_fresh_def c_def cap_def)
qed

lemma without_grow_ok:
  assumes inv: "da_inv s given" and l: "is_pow2 (lalign l)" "0 < lsize l" and a: "alloc_raw_without_grow l s = Some (s', p)"
  shows "da_inv s' ((p, lsize l) # given)" "lalign l dvd p" "da_answers s' = da_answers s" "da_chunks s' = da_chunks s"
proof -
  have f: "lsize l \<le> da_end s" and p: "p = align_down (da_end s - lsize l) (lalign l)" "da_start s \<le> p" "s' = s\<lparr>da_end := p\<rparr>"
    using a by (auto simp: alloc_raw_without_grow_def Let_def split: if_splits)
  have c: "da_chunks s \<noteq> []" using inv f l(2) by (auto simp: da_inv_def)
  have pe: "p + lsize l \<le> da_end s" using align_down_le [OF l(1), of "da_end s - lsize l"] f p(1) by linarith
  show "lalign l dvd p" using align_down_dvd [OF l(1)] p(1) by simp
  show "da_answers s' = da_answers s" "da_chunks s' = da_chunks s" using p(3) by simp_all
  have "within (p, lsize l) (chunk_range byte_type (last (da_chunks s)))"
    using inv c pe p(2) by (auto simp: within_def byte_range da_inv_def)
  then have w: "\<exists>c \<in> set (da_chunks s). within (p, lsize l) (chunk_range byte_type c)" using c by (meson last_in_set)
  have "apart (p, lsize l) r \<and> apart (da_start s, p - da_start s) r" if "apart (da_start s, da_end s - da_start s) r" for r
    using that pe p(2) by (auto simp: apart_def)
  moreover have "apart (da_start s, p - da_start s) (p, lsize l)" using p(2) by (simp add: apart_def)
  ultimately show "da_inv s' ((p, lsize l) # given)"
    using inv c w p(2,3) pe by (auto simp: da_inv_def)
qed

lemma fresh_fits:
  assumes "da_inv s given" and "da_fresh s" and "is_pow2 (lalign l)" and "lsize l + lalign l \<le> ch_len (last (da_chunks s)) + 1"
  shows "alloc_raw_without_grow l s \<noteq> None"
proof -
  have "da_end s = da_start s + ch_len (last (da_chunks s))" using assms(2) by (simp add: da_fresh_def)
  moreover have "da_end s - lsize l < align_down (da_end s - lsize l) (lalign l) + lalign l" by (rule align_down_gt [OF assms(3)])
  moreover have "0 < lalign l" by (rule is_pow2_pos [OF assms(3)])
  ultimately have "lsize l \<le> da_end s" "da_start s \<le> align_down (da_end s - lsize l) (lalign l)" using assms(4) by linarith+
  then show ?thesis by (simp add: alloc_raw_without_grow_def Let_def)
qed

definition da_small :: "layout \<Rightarrow> bool" where
  "da_small l \<longleftrightarrow> is_pow2 (lalign l) \<and> 0 < lsize l \<and> lsize l + lalign l \<le> HUGE_PAGE + 1"

lemma da_small_less: "da_small l \<Longrightarrow> lsize l < 2 ^ 62"
  by (simp add: da_small_def HUGE_PAGE_def)

text \<open>What a request brings about, with at most \<open>j\<close> new chunks.\<close>

definition da_served :: "layout \<Rightarrow> dropless \<Rightarrow> (nat \<times> nat) list \<Rightarrow> nat \<Rightarrow> (dropless \<times> nat) option \<Rightarrow> bool" where
  "da_served l s given j r \<longleftrightarrow> (\<exists>s' p k. r = Some (s', p) \<and> da_inv s' ((p, lsize l) # given) \<and> lalign l dvd p \<and> k \<le> j
     \<and> da_answers s' = drop k (da_answers s))"

lemma served_at_once:
  assumes "da_inv s given" and "da_small l" and "alloc_raw_without_grow l s \<noteq> None"
  shows "da_served l s given j (alloc_raw_loop l s)"
proof -
  obtain s' p where a: "alloc_raw_without_grow l s = Some (s', p)" using assms(3) by auto
  then have "alloc_raw_loop l s = Some (s', p)" by (simp add: alloc_raw_loop.simps)
  then show ?thesis using without_grow_ok [OF assms(1) _ _ a] assms(2) unfolding da_served_def da_small_def
    by (intro exI [of _ s'] exI [of _ p] exI [of _ 0]) simp
qed

lemma served_after_grow:
  assumes "alloc_raw_without_grow l s = None" and "da_grow (lsize l) s = Some s1" and "da_answers s = x # da_answers s1"
    and "da_served l s1 given j (alloc_raw_loop l s1)"
  shows "da_served l s given (Suc j) (alloc_raw_loop l s)"
proof -
  obtain s' p k where r: "alloc_raw_loop l s1 = Some (s', p)" "da_inv s' ((p, lsize l) # given)" "lalign l dvd p" "k \<le> j"
    "da_answers s' = drop k (da_answers s1)" using assms(4) by (auto simp: da_served_def)
  have "alloc_raw_loop l s = Some (s', p)" using assms(1,2) r(1) by (subst alloc_raw_loop.simps) simp
  then show ?thesis using r assms(3) unfolding da_served_def by (intro exI [of _ s'] exI [of _ p] exI [of _ "Suc k"]) simp
qed

lemma loop_fresh:
  assumes "da_inv s given" and "da_fresh s" and l: "da_small l" and "HUGE_PAGE \<le> 2 ^ j * ch_len (last (da_chunks s))"
    and "j \<le> length (da_answers s)" and "\<forall>p \<in> set (da_answers s). p < 2 ^ 62"
  shows "da_served l s given j (alloc_raw_loop l s)"
  using assms(1,2,4-)
proof (induction j arbitrary: s)
  case 0
  then show ?case using fresh_fits [OF 0(1,2), of l] l by (intro served_at_once [OF 0(1) l]) (simp add: da_small_def)
next
  case (Suc j)
  show ?case
  proof (cases "alloc_raw_without_grow l s")
    case (Some r)
    then show ?thesis by (intro served_at_once [OF Suc.prems(1) l]) simp
  next
    case None
    obtain p ps where ps: "da_answers s = p # ps" "p < 2 ^ 62" using Suc.prems(4,5) by (cases "da_answers s") auto
    obtain s1 where s1: "da_grow (lsize l) s = Some s1" "da_inv s1 given" "da_fresh s1" "da_answers s1 = ps"
      "min (2 * ch_len (last (da_chunks s))) HUGE_PAGE \<le> ch_len (last (da_chunks s1))"
      using da_grow_ok [OF Suc.prems(1) ps da_small_less [OF l]] Suc.prems(2) by (auto simp: da_fresh_def)
    have "HUGE_PAGE \<le> 2 ^ j * ch_len (last (da_chunks s1))"
    proof (cases "2 * ch_len (last (da_chunks s)) \<le> HUGE_PAGE")
      case True
      then have "2 ^ j * (2 * ch_len (last (da_chunks s))) \<le> 2 ^ j * ch_len (last (da_chunks s1))" using s1(5) by (intro mult_le_mono2) simp
      moreover have "2 ^ Suc j * ch_len (last (da_chunks s)) = 2 ^ j * (2 * ch_len (last (da_chunks s)))" by simp
      ultimately show ?thesis using Suc.prems(3) by linarith
    next
      case False
      then have "1 * HUGE_PAGE \<le> 2 ^ j * ch_len (last (da_chunks s1))" using s1(5) by (intro mult_le_mono) simp_all
      then show ?thesis by simp
    qed
    then show ?thesis using Suc.IH [OF s1(2,3)] Suc.prems(4,5) ps(1) s1(4) by (intro served_after_grow [OF None s1(1)]) simp_all
  qed
qed

lemma alloc_raw_served:
  assumes inv: "da_inv s given" and l: "da_small l" and ad: "10 \<le> length (da_answers s)" "\<forall>p \<in> set (da_answers s). p < 2 ^ 62"
  shows "da_served l s given 10 (alloc_raw l s)"
proof -
  have "da_served l s given (Suc 9) (alloc_raw_loop l s)"
  proof (cases "alloc_raw_without_grow l s")
    case (Some r)
    then show ?thesis by (intro served_at_once [OF inv l]) simp
  next
    case None
    obtain p ps where ps: "da_answers s = p # ps" "p < 2 ^ 62" using ad by (cases "da_answers s") auto
    obtain s1 where s1: "da_grow (lsize l) s = Some s1" "da_inv s1 given" "da_fresh s1" "da_answers s1 = ps"
      using da_grow_ok [OF inv ps da_small_less [OF l]] by auto
    have "ARENA_PAGE \<le> ch_len (last (da_chunks s1))" using s1(2,3) by (auto simp: da_inv_def da_fresh_def)
    then have "HUGE_PAGE \<le> 2 ^ 9 * ch_len (last (da_chunks s1))" by (simp add: ARENA_PAGE_def HUGE_PAGE_def)
    then show ?thesis using ad ps(1) s1(4) by (intro served_after_grow [OF None s1(1)] loop_fresh [OF s1(2,3) l]) simp_all
  qed
  then show ?thesis using l by (simp add: alloc_raw_def da_small_def)
qed

fun da_run :: "layout list \<Rightarrow> dropless \<Rightarrow> (dropless \<times> nat list) option" where
  "da_run [] s = Some (s, [])"
| "da_run (l # ls) s = do { (s, p) \<leftarrow> alloc_raw l s; (s, ps) \<leftarrow> da_run ls s; Some (s, p # ps) }"

lemma da_run_ok:
  assumes "da_inv s given" and "\<forall>l \<in> set ls. da_small l" and "10 * length ls \<le> length (da_answers s)" and "\<forall>p \<in> set (da_answers s). p < 2 ^ 62"
  shows "\<exists>s' ps. da_run ls s = Some (s', ps) \<and> da_inv s' (rev (zip ps (map lsize ls)) @ given) \<and> list_all2 (\<lambda>l p. lalign l dvd p) ls ps"
  using assms
proof (induction ls arbitrary: s given)
  case (Cons l ls)
  obtain s1 p k where s1: "alloc_raw l s = Some (s1, p)" "da_inv s1 ((p, lsize l) # given)" "lalign l dvd p" "k \<le> 10"
    "da_answers s1 = drop k (da_answers s)"
    using alloc_raw_served [OF Cons.prems(1), of l] Cons.prems(2-4) by (auto simp: da_served_def)
  have "10 * length ls \<le> length (da_answers s1)" "\<forall>p \<in> set (da_answers s1). p < 2 ^ 62"
    using Cons.prems(3,4) s1(4,5) by (auto dest: in_set_dropD)
  then obtain s' ps where "da_run ls s1 = Some (s', ps)" "da_inv s' (rev (zip ps (map lsize ls)) @ (p, lsize l) # given)"
    "list_all2 (\<lambda>l p. lalign l dvd p) ls ps"
    using Cons.IH [OF s1(2)] Cons.prems(2) by auto
  then show ?case using s1(1,3) by simp
qed simp


lemma grow_huge:
  assumes sz: "HUGE_PAGE \<le> lsize l" "lsize l < 2 ^ 62" and p: "da_answers s = p # ps" "p < 2 ^ 62" "\<not> lalign l dvd p" and a: "is_pow2 (lalign l)"
  shows "\<exists>s'. da_grow (lsize l) s = Some s' \<and> alloc_raw_without_grow l s' = None \<and> da_answers s' = ps \<and>
    length (da_chunks s') = Suc (length (da_chunks s))"
proof -
  let ?c = "\<lparr>ch_base = p, ch_len = lsize l, ch_entries = 0\<rparr>"
  let ?s = "s\<lparr>da_start := p, da_end := p + lsize l, da_chunks := da_chunks s @ [?c], da_answers := ps\<rparr>"
  have "max (lsize l) (if da_chunks s = [] then ARENA_PAGE else min (ch_len (last (da_chunks s))) (HUGE_PAGE div 2) * 2) = lsize l"
    using sz(1) by (simp add: ARENA_PAGE_def HUGE_PAGE_def)
  moreover have "chunk_new byte_type (lsize l) (p # ps) = Some (?c, ps)" using sz by (simp add: chunk_new_def byte_type_def HUGE_PAGE_def)
  moreover have "chunk_end byte_type ?c = p + lsize l" using sz p(2) by (simp add: chunk_end_def chunk_start_def byte_type_def)
  ultimately have "da_grow (lsize l) s = Some ?s" using p(1) by (simp add: da_grow_def Let_def chunk_start_def)
  moreover have "align_down p (lalign l) < p"
    using align_down_le [OF a, of p] align_down_dvd [OF a, of p] p(3) by (cases "align_down p (lalign l) = p") auto
  then have "alloc_raw_without_grow l ?s = None" by (simp add: alloc_raw_without_grow_def Let_def)
  ultimately show ?thesis by (intro exI [of _ ?s]) simp
qed

lemma spin_loop:
  assumes "HUGE_PAGE \<le> lsize l" "lsize l < 2 ^ 62" "is_pow2 (lalign l)"
  shows "alloc_raw_without_grow l s = None \<Longrightarrow> \<forall>p \<in> set (da_answers s). p < 2 ^ 62 \<and> \<not> lalign l dvd p \<Longrightarrow>
    k \<le> length (da_answers s) \<Longrightarrow> \<exists>s'. alloc_raw_loop l s = alloc_raw_loop l s' \<and> alloc_raw_without_grow l s' = None \<and>
      length (da_chunks s') = length (da_chunks s) + k \<and> da_answers s' = drop k (da_answers s)"
proof (induction k arbitrary: s)
  case (Suc k)
  then obtain p ps where ps: "da_answers s = p # ps" by (cases "da_answers s") auto
  obtain s1 where s1: "da_grow (lsize l) s = Some s1" "alloc_raw_without_grow l s1 = None" "da_answers s1 = ps"
      "length (da_chunks s1) = Suc (length (da_chunks s))"
    using grow_huge [OF assms(1,2) ps _ _ assms(3)] Suc.prems(2) ps by auto
  have "alloc_raw_loop l s = alloc_raw_loop l s1"
    using Suc.prems(1) s1(1) by (subst alloc_raw_loop.simps) simp
  then show ?case
    using Suc.IH [OF s1(2)] Suc.prems(2,3) s1(3,4) ps by auto
qed auto

text \<open>C18: A request of a huge page or more whose alignment the new chunks do not happen to have is never answered: a chunk is
  exactly as large as the request, rounding down to the alignment leaves it, and the loop goes on with one chunk more,
  through all the chunks that memory has; then it panics.\<close>

theorem dropless_arena_spins:
  assumes "HUGE_PAGE \<le> lsize l" and "lsize l < 2 ^ 62" and "is_pow2 (lalign l)" and "\<forall>p \<in> set addrs. p < 2 ^ 62 \<and> \<not> lalign l dvd p"
  shows "(\<forall>k \<le> length addrs. \<exists>s. alloc_raw l (da_default addrs) = alloc_raw_loop l s \<and> length (da_chunks s) = k \<and> da_answers s = drop k addrs)
    \<and> alloc_raw l (da_default addrs) = None"
proof -
  have l0: "alloc_raw l (da_default addrs) = alloc_raw_loop l (da_default addrs)"
    using assms(1) by (simp add: alloc_raw_def HUGE_PAGE_def)
  have "alloc_raw_without_grow l (da_default addrs) = None"
    using assms(1) by (simp add: alloc_raw_without_grow_def da_default_def HUGE_PAGE_def)
  from spin_loop [OF assms(1-3) this] have
    spin: "\<exists>s. alloc_raw_loop l (da_default addrs) = alloc_raw_loop l s \<and> alloc_raw_without_grow l s = None \<and>
      length (da_chunks s) = k \<and> da_answers s = drop k addrs" if "k \<le> length addrs" for k
    using assms(4) that by (simp add: da_default_def)
  obtain s where s: "alloc_raw_loop l (da_default addrs) = alloc_raw_loop l s" "alloc_raw_without_grow l s = None" "da_answers s = []"
    using spin [of "length addrs"] by auto
  have "da_grow (lsize l) s = None"
    using s(3) assms(1) by (simp add: da_grow_def Let_def chunk_new_def byte_type_def HUGE_PAGE_def)
  then have "alloc_raw_loop l s = None" using s(2) by (subst alloc_raw_loop.simps) simp
  then show ?thesis using spin s(1) l0 by auto
qed

section \<open>Slices from an iterator\<close>

lemma write_object_nil [simp]: "write_object p [] m = m"
  by (auto simp: write_object_def fun_eq_iff)

lemma write_object_append: "write_object p (x @ y) m = write_object (p + length x) y (write_object p x m)"
  by (auto simp: write_object_def fun_eq_iff nth_append)

lemma write_from_iter_eq:
  assumes "\<forall>x \<in> set xs. length x = sz"
  shows "i \<le> len \<Longrightarrow> write_from_iter sz xs len p i m = (write_object (p + i * sz) (concat (take (len - i) xs)) m, i + min (len - i) (length xs))"
  using assms
proof (induction xs arbitrary: i m)
  case Nil
  then show ?case by simp
next
  case (Cons x xs)
  show ?case
  proof (cases "len \<le> i")
    case True
    then show ?thesis using Cons.prems(1) by simp
  next
    case False
    then have "len - i = Suc (len - Suc i)" by simp
    then show ?thesis using Cons False by (simp add: write_object_append ac_simps)
  qed
qed

text \<open>\<open>alloc_from_iter\<close> with an exact size hint takes no more objects than the hint says and returns as many as the iterator
  gave, so an iterator that yields less than it promised costs the room but hands out no uninitialised object.\<close>

theorem from_iter_keeps_to_its_hint:
  assumes xs: "\<forall>x \<in> set xs. length x = sz" and k: "0 < sz" "0 < k" "k * sz < 2 ^ 63"
    and a: "alloc_raw \<lparr>lsize = k * sz, lalign = algn\<rparr> s = Some (s', p)"
  shows "da_alloc_from_iter False sz algn xs (k, Some k) s
    = Some (s'\<lparr>da_bytes := write_object p (concat (take k xs)) (da_bytes s')\<rparr>, p, min k (length xs))"
  using k a write_from_iter_eq [OF xs, of 0 k p] by (simp add: da_alloc_from_iter_def Let_def)

section \<open>Concrete arenas\<close>

definition demo_elem :: "nat \<Rightarrow> elem_type" where
  "demo_elem sz = \<lparr>el_size = sz, el_drops = True, el_dangling = 8\<rparr>"

lemma demo_typed_run:
  "\<exists>s. ta_run (demo_elem 8) [One (1 :: nat), Many [2, 3]] (ta_default [0x10000, 0x20000]) = Some (s, [0x10000, 0x10008, 0x10010])
    \<and> ta_chunks s = [\<lparr>ch_base = 0x10000, ch_len = 512, ch_entries = 0\<rparr>]"
  by (simp add: demo_elem_def ta_default_def ta_alloc_def ta_grow_def chunk_new_def chunk_start_def chunk_end_def ARENA_PAGE_def Let_def
    ta_alloc_from_iter_def iter_alloc_def alloc_raw_slice_def ensure_capacity_def can_allocate_def places_def)



theorem zero_sized_drop_panics_witness:
  "\<exists>s as. ta_run (demo_elem 0) (replicate 5000 (One ())) (ta_default []) = Some (s, as) \<and> ta_drop (demo_elem 0) s = None"
  by (rule zero_sized_drop_panics) (simp_all add: demo_elem_def)


theorem dropless_arena_spins_witness:
  "\<exists>s. alloc_raw \<lparr>lsize = 0x200000, lalign = 64\<rparr> (da_default (replicate 100 0x10010)) = alloc_raw_loop \<lparr>lsize = 0x200000, lalign = 64\<rparr> s
    \<and> length (da_chunks s) = 80"
proof -
  have "is_pow2 (64 :: nat)" using is_pow2_power [of 6] by simp
  then have "(\<forall>k \<le> length (replicate 100 (0x10010 :: nat)). \<exists>s. alloc_raw \<lparr>lsize = 0x200000, lalign = 64\<rparr> (da_default (replicate 100 0x10010)) =
        alloc_raw_loop \<lparr>lsize = 0x200000, lalign = 64\<rparr> s \<and> length (da_chunks s) = k \<and> da_answers s = drop k (replicate 100 0x10010))
      \<and> alloc_raw \<lparr>lsize = 0x200000, lalign = 64\<rparr> (da_default (replicate 100 0x10010)) = None"
    by (intro dropless_arena_spins) (simp_all add: HUGE_PAGE_def)
  moreover have "80 \<le> length (replicate 100 (0x10010 :: nat))" by simp
  ultimately show ?thesis by blast
qed

theorem from_iter_keeps_to_its_hint_witness:
  "\<exists>s' p. da_alloc_from_iter False 1 1 [[1], [2]] (3, Some 3) (da_default [0x10000]) = Some (s', p, 2)"
proof -
  let ?l = "\<lparr>lsize = 3 * 1, lalign = 1\<rparr>"
  have "\<exists>s' p. alloc_raw ?l (da_default [0x10000]) = Some (s', p)"
    by (simp add: alloc_raw_def alloc_raw_loop.simps alloc_raw_without_grow_def da_default_def da_grow_def chunk_new_def chunk_start_def
      chunk_end_def byte_type_def ARENA_PAGE_def Let_def align_down_def)
  then obtain s' p where a: "alloc_raw ?l (da_default [0x10000]) = Some (s', p)" by blast
  show ?thesis using from_iter_keeps_to_its_hint [OF _ _ _ _ a, of "[[1], [2]]"] by auto
qed

end
