(* ===== verification/SimdBitmap.thy ===== *)
theory SimdBitmap
  imports UA_Prelude
begin

text \<open>
  The bitmap of 512 bits with its prefix sums (\<open>bitmap_alloc/simd_bitmap.rs\<close>) and the page of 4 KiB on it
  (\<open>bitmap_alloc/bitmap_heap.rs\<close>). A 512-bit register is the list of its eight 64-bit lanes; the intrinsics that the
  code uses are defined by what the processor documents of them.
\<close>

section \<open>Registers\<close>

type_synonym m512i = "64 word list"

text \<open>The pieces of a lane, bytes or 16-bit words, lowest first.\<close>

definition lane_split :: "64 word \<Rightarrow> 'b::len word list" where
  "lane_split w = map (\<lambda>i. ucast (drop_bit (i * LENGTH('b)) w)) [0..<64 div LENGTH('b)]"

definition lane_join :: "'b::len word list \<Rightarrow> 64 word" where
  "lane_join ps = foldr (\<lambda>p w. push_bit LENGTH('b) w OR ucast p) ps 0"

definition mm512_set_epi64 :: "64 word \<Rightarrow> 64 word \<Rightarrow> 64 word \<Rightarrow> 64 word \<Rightarrow> 64 word \<Rightarrow> 64 word \<Rightarrow> 64 word \<Rightarrow> 64 word \<Rightarrow> m512i" where
  "mm512_set_epi64 e7 e6 e5 e4 e3 e2 e1 e0 = [e0, e1, e2, e3, e4, e5, e6, e7]"

definition mm512_set1_epi8 :: "8 word \<Rightarrow> m512i" where
  "mm512_set1_epi8 b = replicate 8 (lane_join (replicate 8 b))"

definition mm512_setzero_si512 :: m512i where
  "mm512_setzero_si512 = replicate 8 0"

definition mm512_and_epi64 :: "m512i \<Rightarrow> m512i \<Rightarrow> m512i" where
  "mm512_and_epi64 x y = map2 (AND) x y"

definition mm512_add_epi64 :: "m512i \<Rightarrow> m512i \<Rightarrow> m512i" where
  "mm512_add_epi64 x y = map2 (+) x y"

definition mm512_add_epi8 :: "m512i \<Rightarrow> m512i \<Rightarrow> m512i" where
  "mm512_add_epi8 x y = map2 (\<lambda>a b. lane_join (map2 (+) (lane_split a :: 8 word list) (lane_split b))) x y"

definition mm512_sub_epi8 :: "m512i \<Rightarrow> m512i \<Rightarrow> m512i" where
  "mm512_sub_epi8 x y = map2 (\<lambda>a b. lane_join (map2 (-) (lane_split a :: 8 word list) (lane_split b))) x y"

definition mm512_srli_epi16 :: "m512i \<Rightarrow> nat \<Rightarrow> m512i" where
  "mm512_srli_epi16 x k = map (\<lambda>a. lane_join (map (drop_bit k) (lane_split a :: 16 word list))) x"

text \<open>Sums of absolute differences of the bytes of each lane.\<close>

definition mm512_sad_epu8 :: "m512i \<Rightarrow> m512i \<Rightarrow> m512i" where
  "mm512_sad_epu8 x y = map2 (\<lambda>a b. sum_list (map2 (\<lambda>p q. ucast (if p \<le> q then q - p else p - q)) (lane_split a :: 8 word list) (lane_split b))) x y"

text \<open>Lane \<open>j\<close> is the lane of \<open>a\<close> that the low bits of \<open>idx\<close> number, or zero where the mask has no bit.\<close>

definition mm512_maskz_permutexvar_epi64 :: "8 word \<Rightarrow> m512i \<Rightarrow> m512i \<Rightarrow> m512i" where
  "mm512_maskz_permutexvar_epi64 k idx a = map (\<lambda>j. if bit k j then a ! unat (idx ! j AND 7) else 0) [0..<8]"

definition mm512_cmple_epi64_mask :: "m512i \<Rightarrow> m512i \<Rightarrow> 8 word" where
  "mm512_cmple_epi64_mask x y = horner_sum of_bool 2 (map2 (\<le>s) x y)"

text \<open>\<open>pdep\<close> puts the low bits of \<open>src\<close> at the places of the bits of \<open>msk\<close>; \<open>tzcnt\<close> of 0 is 64.\<close>

fun pdep_bits :: "nat list \<Rightarrow> nat \<Rightarrow> 64 word \<Rightarrow> 64 word \<Rightarrow> 64 word" where
  "pdep_bits [] k src msk = 0"
| "pdep_bits (i # is) k src msk = (if bit msk i then (if bit src k then push_bit i 1 else 0) OR pdep_bits is (k + 1) src msk
     else pdep_bits is k src msk)"

definition pdep_u64 :: "64 word \<Rightarrow> 64 word \<Rightarrow> 64 word" where
  "pdep_u64 src msk = pdep_bits [0..<64] 0 src msk"

definition tzcnt_u64 :: "64 word \<Rightarrow> nat" where
  "tzcnt_u64 x = length (takeWhile (\<lambda>i. \<not> bit x i) [0..<64])"

section \<open>The bitmap\<close>

definition lt_cnt :: "nat list" where
  "lt_cnt = [0, 1, 1, 2, 1, 2, 2, 3, 1, 2, 2, 3, 2, 3, 3, 4, 1, 2, 2, 3, 2, 3, 3, 4, 2, 3, 3, 4, 3, 4, 4, 5,
     1, 2, 2, 3, 2, 3, 3, 4, 2, 3, 3, 4, 3, 4, 4, 5, 2, 3, 3, 4, 3, 4, 4, 5, 3, 4, 4, 5, 4, 5, 5, 6,
     1, 2, 2, 3, 2, 3, 3, 4, 2, 3, 3, 4, 3, 4, 4, 5, 2, 3, 3, 4, 3, 4, 4, 5, 3, 4, 4, 5, 4, 5, 5, 6,
     2, 3, 3, 4, 3, 4, 4, 5, 3, 4, 4, 5, 4, 5, 5, 6, 3, 4, 4, 5, 4, 5, 5, 6, 4, 5, 5, 6, 5, 6, 6, 7,
     1, 2, 2, 3, 2, 3, 3, 4, 2, 3, 3, 4, 3, 4, 4, 5, 2, 3, 3, 4, 3, 4, 4, 5, 3, 4, 4, 5, 4, 5, 5, 6,
     2, 3, 3, 4, 3, 4, 4, 5, 3, 4, 4, 5, 4, 5, 5, 6, 3, 4, 4, 5, 4, 5, 5, 6, 4, 5, 5, 6, 5, 6, 6, 7,
     2, 3, 3, 4, 3, 4, 4, 5, 3, 4, 4, 5, 4, 5, 5, 6, 3, 4, 4, 5, 4, 5, 5, 6, 4, 5, 5, 6, 5, 6, 6, 7,
     3, 4, 4, 5, 4, 5, 5, 6, 4, 5, 5, 6, 5, 6, 6, 7, 4, 5, 5, 6, 5, 6, 6, 7, 5, 6, 6, 7, 6, 7, 7, 8]"

definition prefixsum_m512i :: "m512i \<Rightarrow> m512i" where
  "prefixsum_m512i x = (let
     i1 = mm512_set_epi64 6 5 4 3 2 1 0 7;
     i2 = mm512_set_epi64 5 4 3 2 1 0 7 6;
     i3 = mm512_set_epi64 3 2 1 0 7 6 5 4;
     x = mm512_add_epi64 x (mm512_maskz_permutexvar_epi64 0b11111110 i1 x);
     x = mm512_add_epi64 x (mm512_maskz_permutexvar_epi64 0b11111100 i2 x)
   in mm512_add_epi64 x (mm512_maskz_permutexvar_epi64 0b11110000 i3 x))"

definition popcnt_m512i :: "m512i \<Rightarrow> m512i" where
  "popcnt_m512i v = (let
     m1 = mm512_set1_epi8 0x55; m2 = mm512_set1_epi8 0x33; m4 = mm512_set1_epi8 0x0f;
     b = mm512_and_epi64 (mm512_srli_epi16 v 1) m1;
     t1 = mm512_sub_epi8 v b;
     a = mm512_and_epi64 t1 m2;
     b = mm512_and_epi64 (mm512_srli_epi16 t1 2) m2;
     t2 = mm512_add_epi8 a b;
     t3 = mm512_add_epi8 t2 (mm512_srli_epi16 t2 4);
     t3 = mm512_and_epi64 t3 m4
   in mm512_sad_epu8 t3 mm512_setzero_si512)"

definition select_u64 :: "64 word \<Rightarrow> 64 word \<Rightarrow> 64 word" where
  "select_u64 x i = of_nat (tzcnt_u64 (pdep_u64 (push_bit (unat i mod 64) 1) x))"

record simd_bitmap =
  prefix_sum :: "64 word list"
  simd_bits :: "64 word list"

definition simd_new :: simd_bitmap where
  "simd_new = \<lparr>prefix_sum = replicate 8 0, simd_bits = replicate 8 0\<rparr>"

definition real_size :: "simd_bitmap \<Rightarrow> 64 word option" where
  "real_size b = aget (prefix_sum b) 7"

definition simd_is_full :: "simd_bitmap \<Rightarrow> bool option" where
  "simd_is_full b = do { n \<leftarrow> aget (prefix_sum b) 7; Some (n = 512) }"

definition simd_fill_zero :: "simd_bitmap \<Rightarrow> simd_bitmap" where
  "simd_fill_zero b = \<lparr>prefix_sum = map (\<lambda>_. 0) (prefix_sum b), simd_bits = map (\<lambda>_. 0) (simd_bits b)\<rparr>"

definition simd_get :: "simd_bitmap \<Rightarrow> nat \<Rightarrow> bool option" where
  "simd_get b n = do { w \<leftarrow> aget (simd_bits b) (n div 64); Some (w AND push_bit (n mod 64) 1 \<noteq> 0) }"

definition compute_prefix_sum :: "simd_bitmap \<Rightarrow> simd_bitmap" where
  "compute_prefix_sum b = b\<lparr>prefix_sum := prefixsum_m512i (popcnt_m512i (simd_bits b))\<rparr>"

definition simd_flip :: "simd_bitmap \<Rightarrow> nat \<Rightarrow> simd_bitmap option" where
  "simd_flip b n = do {
     let w = n div 64;
     let offset = n AND 63;
     x \<leftarrow> aget (simd_bits b) w;
     bits \<leftarrow> aset (simd_bits b) w (x XOR push_bit offset 1);
     Some (compute_prefix_sum (b\<lparr>simd_bits := bits\<rparr>)) }"

text \<open>\<open>sums\<close> holds what the store through its pointer puts there.\<close>

definition simd_select :: "simd_bitmap \<Rightarrow> 64 word \<Rightarrow> 64 word option" where
  "simd_select b k = do {
     let msums = prefix_sum b;
     let mk = mm512_set_epi64 k k k k k k k k;
     let mask = mm512_cmple_epi64_mask msums mk;
     i \<leftarrow> aget lt_cnt (unat mask);
     let sums = 0 # msums;
     x \<leftarrow> aget (simd_bits b) i;
     s \<leftarrow> aget sums i;
     let idx = k - s;
     Some (of_nat i * 64 + select_u64 x idx) }"

definition index_fs :: "simd_bitmap \<Rightarrow> 64 word option" where
  "index_fs b = simd_select b 0"

section \<open>The page of 4 KiB\<close>

definition FOUR_K :: nat where "FOUR_K = 2 ^ 12"

record allocable_page =
  ap_bitmap :: simd_bitmap
  ap_data :: "8 word list"

definition ap_new :: allocable_page where
  "ap_new = \<lparr>ap_bitmap = simd_new, ap_data = replicate (FOUR_K - 128) 0\<rparr>"

definition ap_fill_zero :: "allocable_page \<Rightarrow> allocable_page" where
  "ap_fill_zero p = \<lparr>ap_bitmap = simd_fill_zero (ap_bitmap p), ap_data = map (\<lambda>_. 0) (ap_data p)\<rparr>"

definition ap_reset :: "allocable_page \<Rightarrow> allocable_page" where
  "ap_reset p = ap_fill_zero p"

definition get_first_free_bit :: "allocable_page \<Rightarrow> 64 word option" where
  "get_first_free_bit p = (let unaviable_bits = 128 div 8 in simd_select (ap_bitmap p) unaviable_bits)"

definition claim_first_free_bit :: "allocable_page \<Rightarrow> (allocable_page \<times> 64 word) option" where
  "claim_first_free_bit p = do {
     bitidx \<leftarrow> get_first_free_bit p;
     b \<leftarrow> simd_flip (ap_bitmap p) (unat bitidx);
     Some (p\<lparr>ap_bitmap := b\<rparr>, bitidx) }"

definition ap_flip_bit :: "allocable_page \<Rightarrow> nat \<Rightarrow> allocable_page option" where
  "ap_flip_bit p idx = do { b \<leftarrow> simd_flip (ap_bitmap p) idx; Some (p\<lparr>ap_bitmap := b\<rparr>) }"

definition ap_get_bit :: "allocable_page \<Rightarrow> nat \<Rightarrow> bool option" where
  "ap_get_bit p idx = simd_get (ap_bitmap p) idx"

definition ap_unset_bit :: "allocable_page \<Rightarrow> nat \<Rightarrow> allocable_page option" where
  "ap_unset_bit p index = do { b \<leftarrow> ap_get_bit p index; ensure b; ap_flip_bit p index }"

definition ap_size :: nat where "ap_size = FOUR_K"

definition ap_is_full :: "allocable_page \<Rightarrow> bool option" where
  "ap_is_full p = do { n \<leftarrow> real_size (ap_bitmap p); Some (n = 512 - 16) }"

section \<open>Lanes and their pieces\<close>

lemma lane_split_length [simp]: "length (lane_split w :: 'b::len word list) = 64 div LENGTH('b)"
  by (simp add: lane_split_def)

lemma lane_split_bit:
  assumes "i < 64 div LENGTH('b)" and "j < LENGTH('b::len)"
  shows "bit ((lane_split w :: 'b word list) ! i) j \<longleftrightarrow> bit w (i * LENGTH('b) + j)"
  using assms by (simp add: lane_split_def bit_simps)

lemma lane_join_bit:
  assumes "length ps * LENGTH('b) \<le> 64"
  shows "bit (lane_join (ps :: 'b::len word list)) n \<longleftrightarrow> n div LENGTH('b) < length ps \<and> bit (ps ! (n div LENGTH('b))) (n mod LENGTH('b))"
  using assms
proof (induction ps arbitrary: n)
  case (Cons p ps)
  have j: "lane_join (p # ps) = push_bit LENGTH('b) (lane_join ps) OR ucast p" by (simp add: lane_join_def)
  show ?case
  proof (cases "n < LENGTH('b)")
    case True
    then show ?thesis using Cons.prems by (auto simp: j bit_simps)
  next
    case False
    define k where "k = n - LENGTH('b)"
    have n: "n = LENGTH('b) + k" using False by (simp add: k_def)
    have u: "\<not> bit (ucast p :: 64 word) n" using False by (auto simp: bit_simps dest: bit_imp_le_length)
    have l: "n < 64" if "k div LENGTH('b) < length ps"
    proof -
      have "k < length ps * LENGTH('b)" using that by (simp add: div_less_iff_less_mult)
      then show "n < 64" using Cons.prems n by simp
    qed
    have "bit (lane_join (p # ps)) n \<longleftrightarrow> n < 64 \<and> bit (lane_join ps) k"
      using u False by (simp add: j bit_or_iff bit_push_bit_iff k_def)
    also have "\<dots> \<longleftrightarrow> k div LENGTH('b) < length ps \<and> bit (ps ! (k div LENGTH('b))) (k mod LENGTH('b))"
      using Cons.IH [of k] Cons.prems l by auto
    also have "\<dots> \<longleftrightarrow> n div LENGTH('b) < length (p # ps) \<and> bit ((p # ps) ! (n div LENGTH('b))) (n mod LENGTH('b))"
      by (simp add: n div_add_self1)
    finally show ?thesis .
  qed
qed (simp add: lane_join_def)

lemma lane_split_join:
  assumes "length ps = 64 div LENGTH('b)" "64 div LENGTH('b) * LENGTH('b) = 64"
  shows "lane_split (lane_join ps) = (ps :: 'b::len word list)"
proof (rule nth_equalityI)
  fix i assume i: "i < length (lane_split (lane_join ps) :: 'b word list)"
  then have "bit ((lane_split (lane_join ps) :: 'b word list) ! i) j \<longleftrightarrow> bit (ps ! i) j" if "j < LENGTH('b)" for j
    using assms that by (simp add: lane_split_bit lane_join_bit)
  then show "(lane_split (lane_join ps) :: 'b word list) ! i = ps ! i" by (intro bit_word_eqI) simp
qed (use assms in simp)

section \<open>Counting bits\<close>

abbreviation bytes :: "64 word \<Rightarrow> 8 word list" where
  "bytes \<equiv> lane_split"

lemma bytes_join [simp]: "length ps = 8 \<Longrightarrow> bytes (lane_join ps) = ps"
  by (rule lane_split_join) simp_all

lemma bytes_and: "i < 8 \<Longrightarrow> bytes (a AND b) ! i = (bytes a ! i) AND (bytes b ! i)"
  by (intro bit_word_eqI) (simp add: lane_split_bit bit_and_iff)

text \<open>A shift of 16-bit pieces shifts each byte, apart from the bits that come in from the byte above.\<close>

lemma srli_byte:
  assumes i: "i < 8" and m: "\<And>j. bit m j \<Longrightarrow> j + k < 8"
  shows "bytes (lane_join (map (drop_bit k) (lane_split a :: 16 word list))) ! i AND m = drop_bit k (bytes a ! i) AND m"
proof (rule bit_word_eqI)
  fix j assume j: "j < LENGTH(8)"
  show "bit (bytes (lane_join (map (drop_bit k) (lane_split a :: 16 word list))) ! i AND m) j \<longleftrightarrow> bit (drop_bit k (bytes a ! i) AND m) j"
  proof (cases "bit m j")
    case True
    then have jk: "j + k < 8" by (rule m)
    define q r where "q = (i * 8 + j) div 16" and "r = (i * 8 + j) mod 16"
    have qr: "i * 8 + j = q * 16 + r" "q < 4" using i jk by (simp_all add: q_def r_def less_mult_imp_div_less)
    have "r mod 8 = j" "r < 16" using jk by (simp_all add: r_def mod_mod_cancel)
    then have "r < 16" "r div 8 \<le> 1" "r = 8 * (r div 8) + j" by (simp_all, metis mult_div_mod_eq)
    then have rk: "r + k < 16" using jk by linarith
    let ?s = "lane_join (map (drop_bit k) (lane_split a :: 16 word list))"
    have d: "(q * 16 + r) div 16 = q" "(q * 16 + r) mod 16 = r" using \<open>r < 16\<close> by simp_all
    have "bit (bytes ?s ! i) j \<longleftrightarrow> bit ?s (q * 16 + r)"
      using lane_split_bit [where 'b = 8, of i j ?s] i jk qr(1) by simp
    also have "\<dots> \<longleftrightarrow> bit ((lane_split a :: 16 word list) ! q) (r + k)"
      using lane_join_bit [of "map (drop_bit k) (lane_split a :: 16 word list)" "q * 16 + r"] qr(2) d by (simp add: bit_drop_bit_eq add.commute)
    also have "\<dots> \<longleftrightarrow> bit (bytes a ! i) (j + k)"
      using lane_split_bit [where 'b = 16, of q "r + k" a] lane_split_bit [where 'b = 8, of i "j + k" a] qr rk i jk
      by (simp add: add.assoc [symmetric])
    finally show ?thesis using True by (simp add: bit_and_iff bit_drop_bit_eq add.commute)
  qed (simp add: bit_and_iff)
qed

definition swar :: "8 word \<Rightarrow> 8 word" where
  "swar b = (let t1 = b - (drop_bit 1 b AND 0x55); t2 = (t1 AND 0x33) + (drop_bit 2 t1 AND 0x33) in (t2 + drop_bit 4 t2) AND 0x0f)"

definition bit_count :: "'a::len word \<Rightarrow> nat" where
  "bit_count w = length (filter (bit w) [0..<LENGTH('a)])"



lemma swar_bools: "swar (horner_sum of_bool 2 [a, b, c, d, e, f, g, h]) = of_nat (length (filter id [a, b, c, d, e, f, g, h]))"
  by (cases a; cases b; cases c; cases d; cases e; cases f; cases g; cases h) (simp_all add: swar_def)

lemma upt_8: "[0..<8] = [0, 1, 2, 3, 4, 5, 6, 7]"
  by (simp add: upt_rec)

lemma swar_count: "swar b = of_nat (bit_count b)"
proof -
  have "horner_sum of_bool 2 (map (bit b) [0..<8]) = b"
    using horner_sum_bit_eq_take_bit [of b 8] take_bit_word_eq_self [of 8 b] by simp
  then have "swar b = of_nat (length (filter id (map (bit b) [0..<8])))"
    using swar_bools [of "bit b 0" "bit b 1" "bit b 2" "bit b 3" "bit b 4" "bit b 5" "bit b 6" "bit b 7"] by (simp add: upt_8)
  then show ?thesis by (simp add: bit_count_def filter_map o_def)
qed

lemma bit_count_le: "bit_count (w :: 'a::len word) \<le> LENGTH('a)"
  by (simp add: bit_count_def order_trans [OF length_filter_le])

text \<open>The bits of a lane are those of its bytes.\<close>

lemma bit_count_bytes: "bit_count (a :: 64 word) = sum_list (map bit_count (bytes a))"
proof -
  have u: "[0..<64] = concat (map (\<lambda>i. map (\<lambda>j. i * 8 + j) [0..<8]) [0..<8])" by (simp add: upt_rec)
  have "length (filter (bit a) (map (\<lambda>j. i * 8 + j) [0..<8])) = bit_count (bytes a ! i)" if "i < 8" for i
  proof -
    have "filter (\<lambda>j. bit (bytes a ! i) j) [0..<8] = filter (\<lambda>j. bit a (i * 8 + j)) [0..<8]"
      using that by (intro filter_cong) (simp_all add: lane_split_bit)
    then show ?thesis by (simp add: bit_count_def filter_map o_def)
  qed
  then have "map (\<lambda>i. length (filter (bit a) (map (\<lambda>j. i * 8 + j) [0..<8]))) [0..<8] = map (\<lambda>i. bit_count (bytes a ! i)) [0..<8]"
    by (simp del: upt_rec_numeral map_map)
  moreover have "map (\<lambda>i. bit_count (bytes a ! i)) [0..<8] = map bit_count (bytes a)"
    by (rule nth_equalityI) (simp_all del: upt_rec_numeral)
  ultimately show ?thesis
    unfolding bit_count_def [of a] using u by (simp add: filter_concat length_concat o_def del: upt_rec_numeral)
qed

lemma popcnt_length: "length (popcnt_m512i v) = length v" if "length v = 8"
  using that by (simp add: popcnt_m512i_def Let_def mm512_sad_epu8_def mm512_and_epi64_def mm512_add_epi8_def mm512_sub_epi8_def
    mm512_srli_epi16_def mm512_set1_epi8_def mm512_setzero_si512_def)

lemma and_low_nibble: "(x + y) AND 0x0f = (x + (y AND 0x0f)) AND (0x0f :: 8 word)"
proof -
  have m: "w AND 15 = take_bit 4 w" for w :: int by (simp add: take_bit_eq_mask mask_eq_exp_minus_1)
  show ?thesis by transfer (simp add: m take_bit_eq_mod mod_simps)
qed

text \<open>The masks have no bit where a shift brings one in from the byte above.\<close>

lemma mask_room:
  "bit (0x55 :: 8 word) j \<Longrightarrow> j + 1 < 8" "bit (0x33 :: 8 word) j \<Longrightarrow> j + 2 < 8" "bit (0x0f :: 8 word) j \<Longrightarrow> j + 4 < 8"
proof -
  have c: "bit w j \<Longrightarrow> j < 4 \<or> j = 4 \<or> j = 5 \<or> j = 6 \<or> j = 7" for w :: "8 word" using bit_imp_le_length [of w j] by auto
  show "bit (0x55 :: 8 word) j \<Longrightarrow> j + 1 < 8" "bit (0x33 :: 8 word) j \<Longrightarrow> j + 2 < 8" "bit (0x0f :: 8 word) j \<Longrightarrow> j + 4 < 8"
    using c [of "0x55"] c [of "0x33"] c [of "0x0f"] by auto
qed

lemma srli_masked:
  assumes "i < 8"
  shows "bytes (lane_join (map (drop_bit 1) (lane_split a :: 16 word list))) ! i AND 0x55 = drop_bit 1 (bytes a ! i) AND 0x55"
    "bytes (lane_join (map (drop_bit 2) (lane_split a :: 16 word list))) ! i AND 0x33 = drop_bit 2 (bytes a ! i) AND 0x33"
    "bytes (lane_join (map (drop_bit 4) (lane_split a :: 16 word list))) ! i AND 0x0f = drop_bit 4 (bytes a ! i) AND 0x0f"
  by (rule srli_byte [OF assms], erule mask_room)+

text \<open>\<open>popcnt_m512i\<close> counts the bits of each lane.\<close>

lemma popcnt_lane:
  assumes v: "length v = 8" and i: "i < 8"
  shows "popcnt_m512i v ! i = of_nat (bit_count (v ! i))"
proof -
  let ?srl = "\<lambda>k a. lane_join (map (drop_bit k) (lane_split a :: 16 word list))"
  let ?m = "\<lambda>b. lane_join (replicate 8 b :: 8 word list)"
  define a where "a = v ! i"
  define t1 where "t1 = lane_join (map2 (-) (bytes a) (bytes (?srl 1 a AND ?m 0x55)))"
  define t2 where "t2 = lane_join (map2 (+) (bytes (t1 AND ?m 0x33)) (bytes (?srl 2 t1 AND ?m 0x33)))"
  define t3 where "t3 = lane_join (map2 (+) (bytes t2) (bytes (?srl 4 t2))) AND ?m 0x0f"
  have pop: "popcnt_m512i v ! i = sum_list (map2 (\<lambda>p q. ucast (if p \<le> q then q - p else p - q)) (bytes t3) (bytes 0))"
    using v i by (simp add: popcnt_m512i_def Let_def mm512_sad_epu8_def mm512_and_epi64_def mm512_add_epi8_def mm512_sub_epi8_def
      mm512_srli_epi16_def mm512_set1_epi8_def mm512_setzero_si512_def t1_def t2_def t3_def a_def)
  have byte: "bytes t3 ! j = swar (bytes a ! j)" if j: "j < 8" for j
  proof -
    have m: "bytes (?m b) ! j = b" for b using j by simp
    have b1: "bytes t1 ! j = bytes a ! j - (drop_bit 1 (bytes a ! j) AND 0x55)"
      using j srli_masked(1) [OF j, of a] by (simp add: t1_def bytes_and m)
    have b2: "bytes t2 ! j = (bytes t1 ! j AND 0x33) + (drop_bit 2 (bytes t1 ! j) AND 0x33)"
      using j srli_masked(2) [OF j, of t1] by (simp add: t2_def bytes_and m)
    have "bytes t3 ! j = (bytes t2 ! j + (bytes (?srl 4 t2) ! j AND 0x0f)) AND 0x0f"
      using j by (simp add: t3_def bytes_and m and_low_nibble [symmetric])
    also have "\<dots> = (bytes t2 ! j + drop_bit 4 (bytes t2 ! j)) AND 0x0f"
      unfolding srli_masked(3) [OF j, of t2] by (rule and_low_nibble [symmetric])
    finally show ?thesis by (simp add: swar_def Let_def b1 b2)
  qed
  have z: "bytes 0 = replicate 8 0" by (rule nth_equalityI) (simp_all add: lane_split_def)
  have "map2 (\<lambda>p q. ucast (if p \<le> q then q - p else p - q)) (bytes t3) (bytes 0) = map (\<lambda>b. of_nat (bit_count b) :: 64 word) (bytes a)"
  proof (rule nth_equalityI)
    fix j assume "j < length (map2 (\<lambda>p q. ucast (if p \<le> q then q - p else p - q) :: 64 word) (bytes t3) (bytes 0))"
    then have j: "j < 8" by simp
    have c: "bit_count (bytes a ! j) < 256" using bit_count_le [of "bytes a ! j"] by simp
    have "ucast (bytes t3 ! j) = (of_nat (bit_count (bytes a ! j)) :: 64 word)"
      unfolding byte [OF j] swar_count using c by (simp add: unsigned_of_nat take_bit_nat_eq_self)
    then show "map2 (\<lambda>p q. ucast (if p \<le> q then q - p else p - q)) (bytes t3) (bytes 0) ! j = map (\<lambda>b. of_nat (bit_count b) :: 64 word) (bytes a) ! j"
      using j by (auto simp: z)
  qed simp
  then have "popcnt_m512i v ! i = sum_list (map (\<lambda>b. of_nat (bit_count b)) (bytes a))" using pop by simp
  moreover have "sum_list (map (\<lambda>b. of_nat (bit_count b) :: 64 word) xs) = of_nat (sum_list (map bit_count xs))" for xs :: "8 word list"
    by (induction xs) simp_all
  ultimately show ?thesis by (simp add: bit_count_bytes a_def)
qed

section \<open>Prefix sums\<close>

definition lane_sum :: "64 word list \<Rightarrow> nat \<Rightarrow> nat" where
  "lane_sum ws j = sum_list (map bit_count (take j ws))"

lemma lane_sum_Suc: "j < length ws \<Longrightarrow> lane_sum ws (Suc j) = lane_sum ws j + bit_count (ws ! j)"
  by (simp add: lane_sum_def take_Suc_conv_app_nth)

lemma lane_sum_0 [simp]: "lane_sum ws 0 = 0"
  by (simp add: lane_sum_def)

lemma lane_sum_mono: "i \<le> j \<Longrightarrow> lane_sum ws i \<le> lane_sum ws j"
proof (induction j rule: dec_induct)
  case (step n)
  have "lane_sum ws n \<le> lane_sum ws (Suc n)" by (cases "n < length ws") (simp_all add: lane_sum_Suc, simp add: lane_sum_def)
  then show ?case using step.IH by simp
qed simp

lemma lane_sum_le: "lane_sum ws j \<le> 64 * j"
proof (induction j)
  case (Suc j)
  have "lane_sum ws (Suc j) \<le> lane_sum ws j + 64"
    using bit_count_le [of "ws ! j"] by (cases "j < length ws") (simp_all add: lane_sum_Suc, simp add: lane_sum_def)
  then show ?case using Suc by simp
qed simp

lemma permute_lanes:
  "mm512_maskz_permutexvar_epi64 k (mm512_set_epi64 6 5 4 3 2 1 0 7) y = map (\<lambda>j. if bit k j then y ! ((j + 7) mod 8) else 0) [0..<8]"
  "mm512_maskz_permutexvar_epi64 k (mm512_set_epi64 5 4 3 2 1 0 7 6) y = map (\<lambda>j. if bit k j then y ! ((j + 6) mod 8) else 0) [0..<8]"
  "mm512_maskz_permutexvar_epi64 k (mm512_set_epi64 3 2 1 0 7 6 5 4) y = map (\<lambda>j. if bit k j then y ! ((j + 4) mod 8) else 0) [0..<8]"
  by (simp_all add: mm512_maskz_permutexvar_epi64_def mm512_set_epi64_def upt_8)

text \<open>Three shifts by one, two and four lanes add up all the lanes below.\<close>

lemma prefixsum_lanes:
  assumes "length x = 8" and "j < 8"
  shows "prefixsum_m512i x ! j = sum_list (take (Suc j) x)"
proof -
  obtain a b c d e f g h where x: "x = [a, b, c, d, e, f, g, h]"
    using assms(1) by (auto simp: numeral_eq_Suc length_Suc_conv)
  have "prefixsum_m512i x = [a, a + b, a + b + c, a + b + c + d, a + b + c + d + e, a + b + c + d + e + f, a + b + c + d + e + f + g,
      a + b + c + d + e + f + g + h]"
    unfolding x prefixsum_m512i_def Let_def permute_lanes by (simp add: mm512_add_epi64_def upt_8 algebra_simps)
  moreover have "j = 0 \<or> j = 1 \<or> j = 2 \<or> j = 3 \<or> j = 4 \<or> j = 5 \<or> j = 6 \<or> j = 7" using assms(2) by linarith
  ultimately show ?thesis unfolding x by (auto simp: algebra_simps)
qed

lemma prefixsum_length [simp]: "length x = 8 \<Longrightarrow> length (prefixsum_m512i x) = 8"
  by (simp add: prefixsum_m512i_def Let_def mm512_set_epi64_def mm512_maskz_permutexvar_epi64_def mm512_add_epi64_def)

definition simd_ok :: "simd_bitmap \<Rightarrow> bool" where
  "simd_ok b \<longleftrightarrow> length (simd_bits b) = 8 \<and> prefix_sum b = map (\<lambda>j. of_nat (lane_sum (simd_bits b) (Suc j))) [0..<8]"

lemma compute_prefix_sum_ok:
  assumes "length (simd_bits b) = 8"
  shows "simd_ok (compute_prefix_sum b)" "simd_bits (compute_prefix_sum b) = simd_bits b"
proof -
  have l: "length (popcnt_m512i (simd_bits b)) = 8" using popcnt_length assms by simp
  have "popcnt_m512i (simd_bits b) = map (\<lambda>w. of_nat (bit_count w)) (simd_bits b)"
    by (rule nth_equalityI) (use assms l popcnt_lane in simp_all)
  moreover have "sum_list (map (\<lambda>w. of_nat (bit_count w) :: 64 word) xs) = of_nat (sum_list (map bit_count xs))" for xs :: "64 word list"
    by (induction xs) simp_all
  ultimately have "prefixsum_m512i (popcnt_m512i (simd_bits b)) ! j = of_nat (lane_sum (simd_bits b) (Suc j))" if "j < 8" for j
    using prefixsum_lanes [OF l that] by (simp add: take_map lane_sum_def)
  then show "simd_ok (compute_prefix_sum b)" using assms l
    by (auto simp: simd_ok_def compute_prefix_sum_def intro!: nth_equalityI)
qed (simp add: compute_prefix_sum_def)

text \<open>The set that the bitmap stands for.\<close>

definition bit_at :: "simd_bitmap \<Rightarrow> nat \<Rightarrow> bool" where
  "bit_at b n \<longleftrightarrow> bit (simd_bits b ! (n div 64)) (n mod 64)"

definition bits_set :: "simd_bitmap \<Rightarrow> nat list" where
  "bits_set b = filter (bit_at b) [0..<512]"

lemma bits_set_mem [simp]: "n \<in> set (bits_set b) \<longleftrightarrow> n < 512 \<and> bit_at b n"
  by (auto simp: bits_set_def)

lemma simd_get_eq: "length (simd_bits b) = 8 \<Longrightarrow> simd_get b n = (if n < 512 then Some (bit_at b n) else None)"
  by (auto simp: simd_get_def bit_at_def push_bit_of_1 and_exp_eq_0_iff_not_bit less_mult_imp_div_less)

text \<open>\<open>flip\<close> turns over exactly the bit it is given and keeps the prefix sums those of the bits, which the vector
  instructions recompute; of a number from 512 on it panics.\<close>

theorem simd_flip_correct:
  assumes "simd_ok b"
  shows "if n < 512 then \<exists>b'. simd_flip b n = Some b' \<and> simd_ok b' \<and> (\<forall>k < 512. bit_at b' k \<longleftrightarrow> (bit_at b k \<noteq> (k = n)))
    else simd_flip b n = None"
proof (cases "n < 512")
  case True
  have l: "length (simd_bits b) = 8" using assms by (simp add: simd_ok_def)
  have w: "n div 64 < 8" "n AND 63 = n mod 64" using True and_mask_mod [OF is_pow2_power [of 6], of n] by auto
  define bits where "bits = (simd_bits b)[n div 64 := simd_bits b ! (n div 64) XOR push_bit (n mod 64) 1]"
  let ?b = "compute_prefix_sum (b\<lparr>simd_bits := bits\<rparr>)"
  have lb: "length bits = 8" using l by (simp add: bits_def)
  have "simd_flip b n = Some ?b" using w l by (simp add: simd_flip_def Let_def bits_def)
  moreover have "bit_at ?b k \<longleftrightarrow> (bit_at b k \<noteq> (k = n))" if k: "k < 512" for k
  proof (cases "k div 64 = n div 64")
    case True
    then have "k = n \<longleftrightarrow> k mod 64 = n mod 64" using div_mult_mod_eq [of k 64] div_mult_mod_eq [of n 64] by auto
    then show ?thesis using True w l lb compute_prefix_sum_ok(2) [of "b\<lparr>simd_bits := bits\<rparr>"]
      by (auto simp: bit_at_def bits_def bit_xor_iff bit_exp_iff)
  next
    case False
    then show ?thesis using lb compute_prefix_sum_ok(2) [of "b\<lparr>simd_bits := bits\<rparr>"] by (auto simp: bit_at_def bits_def)
  qed
  ultimately show ?thesis using True compute_prefix_sum_ok(1) [of "b\<lparr>simd_bits := bits\<rparr>"] lb by auto
next
  case False
  then have "8 \<le> n div 64" by simp
  then show ?thesis using False assms by (simp add: simd_flip_def simd_ok_def)
qed

section \<open>The search for a bit\<close>

lemma pdep_one_bit:
  "sorted is \<Longrightarrow> distinct is \<Longrightarrow> set is \<subseteq> {..<64} \<Longrightarrow> m < 64 \<Longrightarrow>
   pdep_bits is k (2 ^ m) msk = (if k \<le> m \<and> m - k < length (filter (bit msk) is) then 2 ^ (filter (bit msk) is ! (m - k)) else 0)"
proof (induction "is" arbitrary: k)
  case (Cons i "is")
  have IH: "pdep_bits is k (2 ^ m) msk = (if k \<le> m \<and> m - k < length (filter (bit msk) is)
      then 2 ^ (filter (bit msk) is ! (m - k)) else 0)" for k
    using Cons by simp
  show ?case
  proof (cases "bit msk i")
    case True
    have b: "bit (2 ^ m :: 64 word) k \<longleftrightarrow> k = m" using Cons.prems by (auto simp: bit_exp_iff)
    consider "k = m" | "k < m" | "m < k" by linarith
    then show ?thesis
    proof cases
      case 2
      then have "m - k = Suc (m - Suc k)" by simp
      then show ?thesis using True b 2 by (simp add: IH)
    qed (use True b in \<open>simp_all add: IH\<close>)
  qed (simp add: IH)
qed simp

lemma tzcnt_push: "p < 64 \<Longrightarrow> tzcnt_u64 (2 ^ p) = p"
proof -
  assume p: "p < 64"
  have "[0..<64] = [0..<p] @ p # [Suc p..<64]" using p upt_add_eq_append [of 0 p "64 - p"] by (simp add: upt_rec [of p 64] del: upt_rec_numeral)
  moreover have "takeWhile (\<lambda>i. \<not> bit (2 ^ p :: 64 word) i) [0..<p] = [0..<p]"
    by (auto simp: takeWhile_eq_all_conv bit_exp_iff)
  moreover have "bit (2 ^ p :: 64 word) p" using p by (simp add: bit_exp_iff)
  ultimately have "takeWhile (\<lambda>i. \<not> bit (2 ^ p :: 64 word) i) [0..<64] = [0..<p]"
    by (simp add: takeWhile_append2 takeWhile_append del: upt_rec_numeral)
  then show ?thesis by (simp add: tzcnt_u64_def del: upt_rec_numeral)
qed

text \<open>\<open>select_u64\<close> finds the bit of a lane that has \<open>k\<close> bits below.\<close>

lemma select_u64_nth:
  assumes k: "k < bit_count x"
  shows "select_u64 x (of_nat k) = of_nat (filter (bit x) [0..<64] ! k)"
proof -
  have k64: "k < 64" using k bit_count_le [of x] by simp
  then have u: "unat (of_nat k :: 64 word) mod 64 = k" by (simp add: unat_of_nat take_bit_nat_eq_self)
  have l: "k < length (filter (bit x) [0..<64])" using k by (simp add: bit_count_def)
  then have "filter (bit x) [0..<64] ! k \<in> set (filter (bit x) [0..<64])" by (rule nth_mem)
  then have p: "filter (bit x) [0..<64] ! k < 64" by simp
  have "pdep_u64 (2 ^ k) x = 2 ^ (filter (bit x) [0..<64] ! k)"
    using pdep_one_bit [of "[0..<64]" k 0 x] k64 l by (simp add: pdep_u64_def lessThan_atLeast0 del: upt_rec_numeral)
  then show ?thesis using tzcnt_push [OF p] by (simp add: select_u64_def u del: upt_rec_numeral)
qed

lemma sint_small: "n < 2 ^ 63 \<Longrightarrow> sint (of_nat n :: 64 word) = int n"
  by (simp add: signed_of_nat signed_take_bit_int_eq_self)

lemma lt_cnt_mask: "i \<le> 8 \<Longrightarrow> aget lt_cnt (unat (horner_sum of_bool 2 (map (\<lambda>j. j < i) [0..<8]) :: 8 word)) = Some i"
proof -
  assume "i \<le> 8"
  then have "i = 0 \<or> i = 1 \<or> i = 2 \<or> i = 3 \<or> i = 4 \<or> i = 5 \<or> i = 6 \<or> i = 7 \<or> i = 8" by linarith
  then show ?thesis by (elim disjE) (simp_all add: upt_8 lt_cnt_def aget_def)
qed

text \<open>The lane where the bit lies is the number of lanes whose sum is not above \<open>k\<close>.\<close>

lemma lane_of:
  assumes "\<And>j. j < 8 \<Longrightarrow> c j \<le> c (Suc j)"
  obtains i where "i \<le> 8" "\<And>j. j < 8 \<Longrightarrow> c (Suc j) \<le> k \<longleftrightarrow> j < i" "0 < i \<Longrightarrow> c i \<le> k" "i < 8 \<Longrightarrow> k < (c (Suc i) :: nat)"
proof -
  have mono: "c i \<le> c j" if "i \<le> j" "j \<le> 8" for i j using that assms by (induction j rule: dec_induct) (auto intro: order_trans)
  define i where "i = (LEAST j. j = 8 \<or> k < c (Suc j))"
  have i: "i = 8 \<or> k < c (Suc i)" unfolding i_def by (rule LeastI [of _ 8]) simp
  have less: "c (Suc j) \<le> k" if "j < i" for j using not_less_Least [of j "\<lambda>j. j = 8 \<or> k < c (Suc j)"] that by (simp add: i_def not_less)
  have i8: "i \<le> 8" unfolding i_def by (rule Least_le) simp
  have "c (Suc j) \<le> k \<longleftrightarrow> j < i" if "j < 8" for j
  proof
    assume a: "c (Suc j) \<le> k"
    show "j < i"
    proof (rule ccontr)
      assume "\<not> j < i"
      then have "c (Suc i) \<le> c (Suc j)" "i < 8" using mono [of "Suc i" "Suc j"] that by simp_all
      then show False using a i by simp
    qed
  qed (rule less)
  moreover have "c i \<le> k" if "0 < i" using less [of "i - 1"] that by simp
  moreover have "k < c (Suc i)" if "i < 8" using i that by simp
  ultimately show thesis by (rule that [OF i8])
qed

lemma lane_range: "[64 * i..<64 * i + 64] = map ((+) (64 * i)) [0..<64]"
  by (rule nth_equalityI) (simp_all del: upt_rec_numeral)

text \<open>Bits below a lane, and those of the lane.\<close>

lemma lane_split_positions:
  assumes l: "length ws = 8" and i: "i < 8"
  shows "\<exists>rest. filter (\<lambda>n. bit (ws ! (n div 64)) (n mod 64)) [0..<512] = filter (\<lambda>n. bit (ws ! (n div 64)) (n mod 64)) [0..<64 * i]
    @ map ((+) (64 * i)) (filter (bit (ws ! i)) [0..<64]) @ rest"
proof -
  let ?P = "\<lambda>n. bit (ws ! (n div 64)) (n mod 64)"
  have "[0..<512] = [0..<64 * i] @ [64 * i..<64 * i + 64] @ [64 * i + 64..<512]"
    using upt_add_eq_append [of 0 "64 * i" "512 - 64 * i"] upt_add_eq_append [of "64 * i" "64 * i + 64" "512 - (64 * i + 64)"] i by simp
  moreover have "filter ?P (map ((+) (64 * i)) [0..<64]) = map ((+) (64 * i)) (filter (bit (ws ! i)) [0..<64])"
    by (auto simp: filter_map o_def simp del: upt_rec_numeral intro!: filter_cong arg_cong [where f = "map _"])
  ultimately show ?thesis by (simp add: lane_range del: upt_rec_numeral)
qed

lemma lane_sum_positions:
  "i \<le> 8 \<Longrightarrow> length ws = 8 \<Longrightarrow> length (filter (\<lambda>n. bit (ws ! (n div 64)) (n mod 64)) [0..<64 * i]) = lane_sum ws i"
proof (induction i)
  case (Suc i)
  have "[0..<64 * Suc i] = [0..<64 * i] @ map ((+) (64 * i)) [0..<64]"
    using upt_add_eq_append [of 0 "64 * i" 64] by (simp add: lane_range [symmetric] add.commute del: upt_rec_numeral)
  moreover have "length (filter (\<lambda>n. bit (ws ! (n div 64)) (n mod 64)) (map ((+) (64 * i)) [0..<64])) = bit_count (ws ! i)"
    by (auto simp: bit_count_def filter_map o_def simp del: upt_rec_numeral intro!: filter_cong arg_cong [where f = length])
  ultimately show ?case using Suc by (simp add: lane_sum_Suc del: upt_rec_numeral)
qed simp

text \<open>C15: \<open>select(k)\<close> returns the number of the set bit that has exactly \<open>k\<close> set bits below it, so the \<open>k\<close>-th member of
  the set; where there are no more than \<open>k\<close> it indexes past the last word and panics.\<close>

theorem simd_select_kth:
  assumes ok: "simd_ok b" and k: "k < 2 ^ 63"
  shows "simd_select b (of_nat k) = (if k < length (bits_set b) then Some (of_nat (bits_set b ! k)) else None)"
proof -
  let ?c = "lane_sum (simd_bits b)" let ?k = "of_nat k :: 64 word"
  have l: "length (simd_bits b) = 8" and pre: "prefix_sum b = map (\<lambda>j. of_nat (?c (Suc j))) [0..<8]" using ok by (simp_all add: simd_ok_def)
  obtain i where i: "i \<le> 8" "\<And>j. j < 8 \<Longrightarrow> ?c (Suc j) \<le> k \<longleftrightarrow> j < i" "0 < i \<Longrightarrow> ?c i \<le> k" "i < 8 \<Longrightarrow> k < ?c (Suc i)"
    using lane_of [of ?c k] lane_sum_mono [of _ _ "simd_bits b"] by (metis le_SucI order_refl)
  have "map2 (\<le>s) (prefix_sum b) (replicate 8 ?k) = map (\<lambda>j. j < i) [0..<8]"
  proof (rule nth_equalityI)
    fix j assume "j < length (map2 (\<le>s) (prefix_sum b) (replicate 8 ?k))"
    then have j: "j < 8" by (simp add: pre)
    have "?c (Suc j) < 2 ^ 63" using lane_sum_le [of "simd_bits b" "Suc j"] j by simp
    then show "map2 (\<le>s) (prefix_sum b) (replicate 8 ?k) ! j = map (\<lambda>j. j < i) [0..<8] ! j"
      using j i(2) [OF j] sint_small [OF k] sint_small [of "?c (Suc j)"] by (simp add: pre word_sle_eq del: upt_rec_numeral)
  qed (simp add: pre)
  then have m: "aget lt_cnt (unat (mm512_cmple_epi64_mask (prefix_sum b) (mm512_set_epi64 ?k ?k ?k ?k ?k ?k ?k ?k))) = Some i"
    using lt_cnt_mask [OF i(1)] by (simp add: mm512_cmple_epi64_mask_def mm512_set_epi64_def numeral_eq_Suc del: upt_rec_numeral)
  have lp: "length (prefix_sum b) = 8" by (simp add: pre)
  have len: "length (bits_set b) = ?c 8" using lane_sum_positions [of 8 "simd_bits b"] l by (simp add: bits_set_def bit_at_def [abs_def] del: upt_rec_numeral)
  show ?thesis
  proof (cases "i < 8")
    case False
    then have "?c 8 \<le> k" using i by simp
    then show ?thesis using False len l by (simp add: simd_select_def Let_def m)
  next
    case True
    have ci: "?c i \<le> k" using i(3) by (cases "i = 0") simp_all
    have k8: "k < length (bits_set b)" using len i(4) [OF True] lane_sum_mono [of "Suc i" 8 "simd_bits b"] True by simp
    obtain rest where r: "bits_set b = filter (bit_at b) [0..<64 * i] @ map ((+) (64 * i)) (filter (bit (simd_bits b ! i)) [0..<64]) @ rest"
      using lane_split_positions [OF l True] by (auto simp: bits_set_def bit_at_def [abs_def])
    have li: "length (filter (bit_at b) [0..<64 * i]) = ?c i" using lane_sum_positions [OF i(1) l] by (simp add: bit_at_def [abs_def])
    have d: "k - ?c i < bit_count (simd_bits b ! i)" using i(4) [OF True] True l ci by (simp add: lane_sum_Suc)
    then have nth: "bits_set b ! k = 64 * i + filter (bit (simd_bits b ! i)) [0..<64] ! (k - ?c i)"
      using ci unfolding r by (simp add: nth_append li bit_count_def del: upt_rec_numeral)
    have s: "(0 # prefix_sum b) ! i = of_nat (?c i)" using True by (cases i) (simp_all add: pre del: upt_rec_numeral)
    have idx: "?k - of_nat (?c i) = of_nat (k - ?c i)" using ci by (simp add: of_nat_diff)
    have "simd_select b ?k = Some (of_nat i * 64 + select_u64 (simd_bits b ! i) (of_nat (k - ?c i)))"
      using True l s idx lp by (simp add: simd_select_def Let_def m)
    then show ?thesis using k8 by (simp add: select_u64_nth [OF d] nth mult.commute del: upt_rec_numeral)
  qed
qed

section \<open>The page\<close>

lemma bits_set_nth: "k < length (bits_set b) \<Longrightarrow> bits_set b ! k < 512 \<and> bit_at b (bits_set b ! k)"
  using nth_mem [of k "bits_set b"] by simp

text \<open>\<open>claim_first_free_bit\<close> looks for a set bit, not for a clear one: a page with at most 16 bits set, a new one for
  example, panics; of any other the claim takes the 17th bit in use, as if it were free, and clears it.\<close>

theorem claim_takes_a_used_bit:
  assumes "simd_ok (ap_bitmap p)"
  shows "if length (bits_set (ap_bitmap p)) \<le> 16 then claim_first_free_bit p = None
    else \<exists>p' n. claim_first_free_bit p = Some (p', of_nat n) \<and> n < 512 \<and> bit_at (ap_bitmap p) n \<and> \<not> bit_at (ap_bitmap p') n
      \<and> simd_ok (ap_bitmap p')"
proof (cases "length (bits_set (ap_bitmap p)) \<le> 16")
  case True
  then show ?thesis using simd_select_kth [OF assms, of 16] by (simp add: claim_first_free_bit_def get_first_free_bit_def)
next
  case False
  let ?n = "bits_set (ap_bitmap p) ! 16"
  have n: "?n < 512" "bit_at (ap_bitmap p) ?n" using bits_set_nth [of 16 "ap_bitmap p"] False by simp_all
  obtain b where b: "simd_flip (ap_bitmap p) ?n = Some b" "simd_ok b" "\<not> bit_at b ?n"
    using simd_flip_correct [OF assms, of ?n] n by auto
  have "unat (of_nat ?n :: 64 word) = ?n" using n(1) by (simp add: unat_of_nat take_bit_nat_eq_self)
  then have "claim_first_free_bit p = Some (p\<lparr>ap_bitmap := b\<rparr>, of_nat ?n)"
    using simd_select_kth [OF assms, of 16] False b(1) by (simp add: claim_first_free_bit_def get_first_free_bit_def)
  then show ?thesis using False b n by (intro if_not_P [THEN iffD2] exI [of _ "p\<lparr>ap_bitmap := b\<rparr>"] exI [of _ ?n]) auto
qed

section \<open>Concrete bitmaps\<close>

lemma simd_new_ok: "simd_ok simd_new"
  by (auto simp: simd_ok_def simd_new_def lane_sum_def bit_count_def sum_list_replicate intro!: nth_equalityI)

definition demo_simd :: "64 word \<Rightarrow> 64 word \<Rightarrow> simd_bitmap" where
  "demo_simd w v = compute_prefix_sum \<lparr>prefix_sum = replicate 8 0, simd_bits = [w, 0, 0, 0, 0, 0, 0, v]\<rparr>"

lemma demo_simd_ok: "simd_ok (demo_simd w v)"
  unfolding demo_simd_def by (rule compute_prefix_sum_ok(1)) simp

lemma demo_simd_bit: "n < 512 \<Longrightarrow> bit_at (demo_simd w v) n \<longleftrightarrow> n < 64 \<and> bit w n \<or> 448 \<le> n \<and> bit v (n - 448)"
proof -
  assume n: "n < 512"
  obtain q r where qr: "n = 64 * q + r" "r < 64" by (metis mod_less_divisor mult_div_mod_eq zero_less_numeral)
  then have "q = 0 \<or> q = 1 \<or> q = 2 \<or> q = 3 \<or> q = 4 \<or> q = 5 \<or> q = 6 \<or> q = 7" using n by linarith
  moreover have "bit_at (demo_simd w v) n \<longleftrightarrow> bit ([w, 0, 0, 0, 0, 0, 0, v] ! q) r"
    using compute_prefix_sum_ok(2) [of "\<lparr>prefix_sum = replicate 8 0, simd_bits = [w, 0, 0, 0, 0, 0, 0, v]\<rparr>"] qr(2)
    unfolding qr(1) by (simp add: bit_at_def demo_simd_def)
  ultimately show ?thesis using qr(2) unfolding qr(1) by (elim disjE) simp_all
qed

lemma bits_set_unique:
  assumes "sorted ns" "distinct ns" and "{n. n < 512 \<and> bit_at b n} = set ns"
  shows "bits_set b = ns"
proof (rule sorted_distinct_set_unique)
  show "set (bits_set b) = set ns" unfolding assms(3) [symmetric] by auto
qed (use assms in \<open>simp_all add: bits_set_def sorted_wrt_filter del: upt_rec_numeral\<close>)

theorem simd_flip_correct_witness:
  "\<exists>b'. simd_flip (demo_simd 1 0) 64 = Some b' \<and> simd_ok b' \<and> bit_at b' 0 \<and> bit_at b' 64 \<and> \<not> bit_at b' 511"
proof -
  obtain b' where "simd_flip (demo_simd 1 0) 64 = Some b'" "simd_ok b'" "\<And>k. k < 512 \<Longrightarrow> bit_at b' k \<longleftrightarrow> (bit_at (demo_simd 1 0) k \<noteq> (k = 64))"
    using simd_flip_correct [OF demo_simd_ok, of 64 1 0] by auto
  then show ?thesis by (intro exI [of _ b']) (simp add: demo_simd_bit)
qed

theorem simd_select_kth_witness:
  "simd_select (demo_simd (2 ^ 2) (2 ^ 63)) 0 = Some 2 \<and> simd_select (demo_simd (2 ^ 2) (2 ^ 63)) 1 = Some 511
    \<and> simd_select (demo_simd (2 ^ 2) (2 ^ 63)) 2 = None"
proof -
  have b: "k < 64 \<Longrightarrow> bit (2 ^ k :: 64 word) n \<longleftrightarrow> n = k" for k n by (auto simp: bit_exp_iff)
  have b2: "bit (2 ^ 2 :: 64 word) n \<longleftrightarrow> n = 2" "bit (2 ^ 63 :: 64 word) n \<longleftrightarrow> n = 63" for n by (rule b, simp)+
  have "{n. n < 512 \<and> bit_at (demo_simd (2 ^ 2) (2 ^ 63)) n} = set [2, 511]"
  proof (rule set_eqI)
    fix n
    have "n < 512 \<and> bit_at (demo_simd (2 ^ 2) (2 ^ 63)) n \<longleftrightarrow> n < 512 \<and> (n < 64 \<and> n = 2 \<or> 448 \<le> n \<and> n - 448 = 63)"
      using demo_simd_bit [of n "2 ^ 2" "2 ^ 63"] b2 by blast
    also have "\<dots> \<longleftrightarrow> n \<in> set [2, 511]" by auto
    finally show "n \<in> {n. n < 512 \<and> bit_at (demo_simd (2 ^ 2) (2 ^ 63)) n} \<longleftrightarrow> n \<in> set [2, 511]" by (simp only: mem_Collect_eq)
  qed
  then have "bits_set (demo_simd (2 ^ 2) (2 ^ 63)) = [2, 511]" by (intro bits_set_unique) simp_all
  then show ?thesis
    using simd_select_kth [OF demo_simd_ok [of "2 ^ 2" "2 ^ 63"], of 0] simd_select_kth [OF demo_simd_ok [of "2 ^ 2" "2 ^ 63"], of 1]
      simd_select_kth [OF demo_simd_ok [of "2 ^ 2" "2 ^ 63"], of 2] by simp
qed

theorem claim_takes_a_used_bit_witness:
  "\<exists>p' n. claim_first_free_bit (ap_new\<lparr>ap_bitmap := demo_simd (mask 20) 0\<rparr>) = Some (p', of_nat n) \<and> n < 512 \<and> claim_first_free_bit ap_new = None"
proof -
  let ?p = "ap_new\<lparr>ap_bitmap := demo_simd (mask 20) 0\<rparr>"
  have "{n. n < 512 \<and> bit_at (demo_simd (mask 20) 0) n} = set [0..<20]"
    by (auto simp: demo_simd_bit bit_mask_iff simp del: upt_rec_numeral)
  then have "bits_set (demo_simd (mask 20) 0) = [0..<20]" by (intro bits_set_unique) (simp_all del: upt_rec_numeral)
  then have "length (bits_set (ap_bitmap ?p)) = 20" by simp
  moreover have "bits_set (ap_bitmap ap_new) = []"
    by (intro bits_set_unique) (auto simp: ap_new_def simd_new_def bit_at_def less_mult_imp_div_less)
  ultimately show ?thesis
    using claim_takes_a_used_bit [of ?p] claim_takes_a_used_bit [of ap_new] demo_simd_ok simd_new_ok by (auto simp: ap_new_def)
qed

end
