(* ===== verification/Bitmap.thy ===== *)
theory Bitmap
  imports UA_Prelude
begin

text \<open>
  Bits in bytes and the trees of sums of \<open>bitmap_alloc/bitmap.rs\<close>. The trees keep node \<open>i\<close> above nodes \<open>2 i\<close> and
  \<open>2 i + 1\<close>, with the elements from \<open>N\<close> on; an operation walks up from both ends of its interval. A walk whose ends
  never become siblings is endless, which is \<open>None\<close> here, like a panic.
\<close>

section \<open>Bits in bytes\<close>

type_synonym raw_bitmap = "8 word list"

definition raw_new :: "nat \<Rightarrow> raw_bitmap" where
  "raw_new n = replicate n 0"

definition raw_get_bit :: "raw_bitmap \<Rightarrow> nat \<Rightarrow> bool option" where
  "raw_get_bit bits n = do { w \<leftarrow> aget bits (n div 8); Some (w AND push_bit (n mod 8) 1 \<noteq> 0) }"

definition raw_set_bit :: "raw_bitmap \<Rightarrow> nat \<Rightarrow> raw_bitmap option" where
  "raw_set_bit bits n = do { w \<leftarrow> aget bits (n div 8); aset bits (n div 8) (w OR push_bit (n mod 8) 1) }"

definition raw_unset_bit :: "raw_bitmap \<Rightarrow> nat \<Rightarrow> raw_bitmap option" where
  "raw_unset_bit bits n = do { w \<leftarrow> aget bits (n div 8); aset bits (n div 8) (w AND NOT (push_bit (n mod 8) 1)) }"

section \<open>The lazy tree\<close>

record lazy_tree =
  lt_tag :: "32 word list"
  lt_sum :: "32 word list"
  lt_num :: "32 word list"

text \<open>The constant \<open>ln\<close>. An underflow in it stops the build of every operation that uses it.\<close>

definition lz_ln :: "nat \<Rightarrow> nat option" where
  "lz_ln n = do {
     ensure (1 \<le> n);
     let lz = leading_zeros (n - 1);
     ensure (lz \<le> 31);
     Some (31 - lz + 1) }"

definition lz_apply :: "lazy_tree \<Rightarrow> nat \<Rightarrow> 32 word \<Rightarrow> lazy_tree option" where
  "lz_apply t i v = do {
     s \<leftarrow> aget (lt_sum t) i;
     k \<leftarrow> aget (lt_num t) i;
     sums \<leftarrow> aset (lt_sum t) i (s + k * v);
     g \<leftarrow> aget (lt_tag t) i;
     tags \<leftarrow> aset (lt_tag t) i (g + v);
     Some (t\<lparr>lt_sum := sums, lt_tag := tags\<rparr>) }"

fun lz_untag_loop :: "nat \<Rightarrow> lazy_tree \<Rightarrow> nat \<Rightarrow> lazy_tree option" where
  "lz_untag_loop 0 t i = Some t"
| "lz_untag_loop (Suc h) t i = do {
     let j = wshr i (Suc h);
     t \<leftarrow> (if j = 0 then Some t else do {
       g \<leftarrow> aget (lt_tag t) j;
       if g = 0 then Some t
       else do {
         t \<leftarrow> lz_apply t (2 * j) g;
         g \<leftarrow> aget (lt_tag t) j;
         t \<leftarrow> lz_apply t (2 * j + 1) g;
         tags \<leftarrow> aset (lt_tag t) j 0;
         Some (t\<lparr>lt_tag := tags\<rparr>) } });
     lz_untag_loop h t i }"

definition lz_untag :: "nat \<Rightarrow> lazy_tree \<Rightarrow> nat \<Rightarrow> lazy_tree option" where
  "lz_untag n t i = do { h \<leftarrow> lz_ln n; lz_untag_loop h t i }"

definition lz_mconcat :: "lazy_tree \<Rightarrow> nat \<Rightarrow> lazy_tree option" where
  "lz_mconcat t l = do {
     a \<leftarrow> aget (lt_sum t) l;
     b \<leftarrow> aget (lt_sum t) (l XOR 1);
     sums \<leftarrow> aset (lt_sum t) (wshr l 1) (a + b);
     Some (t\<lparr>lt_sum := sums\<rparr>) }"

partial_function (option) lz_add_loop :: "lazy_tree \<Rightarrow> nat \<Rightarrow> nat \<Rightarrow> 32 word \<Rightarrow> bool \<Rightarrow> bool \<Rightarrow> (lazy_tree \<times> nat) option" where
  "lz_add_loop t l r v lf rf = (if l XOR r XOR 1 = 0 then Some (t, l) else do {
     t \<leftarrow> (if even l then lz_apply t (l XOR 1) v else Some t);
     let lf = (lf \<or> even l);
     t \<leftarrow> (if odd r then lz_apply t (r XOR 1) v else Some t);
     let rf = (rf \<or> odd r);
     t \<leftarrow> (if lf \<and> l > 1 then lz_mconcat t l else Some t);
     t \<leftarrow> (if rf then lz_mconcat t r else Some t);
     lz_add_loop t (wshr l 1) (wshr r 1) v lf rf })"

function lz_up_loop :: "lazy_tree \<Rightarrow> nat \<Rightarrow> lazy_tree option" where
  "lz_up_loop t l = (if l > 1 then do { t \<leftarrow> lz_mconcat t l; lz_up_loop t (wshr l 1) } else Some t)"
  by auto
termination by (relation "measure snd") (simp_all add: wshr_def drop_bit_Suc)

declare lz_up_loop.simps [simp del]

definition lz_add :: "nat \<Rightarrow> lazy_tree \<Rightarrow> nat \<Rightarrow> nat \<Rightarrow> 32 word \<Rightarrow> lazy_tree option" where
  "lz_add n t l r v = do {
     let l = wsub (wadd l n) 1;
     let r = wadd r n;
     t \<leftarrow> lz_untag n t (wadd l 1);
     t \<leftarrow> lz_untag n t (wsub r 1);
     (t, l) \<leftarrow> lz_add_loop t l r v False False;
     lz_up_loop t l }"

partial_function (option) lz_sum_loop :: "lazy_tree \<Rightarrow> nat \<Rightarrow> nat \<Rightarrow> 32 word \<Rightarrow> 32 word \<Rightarrow> (32 word \<times> 32 word) option" where
  "lz_sum_loop t l r ls rs = (if l XOR r XOR 1 = 0 then Some (ls, rs) else do {
     ls \<leftarrow> (if even l then do { s \<leftarrow> aget (lt_sum t) (l XOR 1); Some (ls + s) } else Some ls);
     rs \<leftarrow> (if odd r then do { s \<leftarrow> aget (lt_sum t) (r XOR 1); Some (s + rs) } else Some rs);
     lz_sum_loop t (wshr l 1) (wshr r 1) ls rs })"

definition lz_get_sum :: "nat \<Rightarrow> lazy_tree \<Rightarrow> nat \<Rightarrow> nat \<Rightarrow> (lazy_tree \<times> 32 word) option" where
  "lz_get_sum n t l r = do {
     let l = wsub (wadd l n) 1;
     let r = wadd r n;
     t \<leftarrow> lz_untag n t (wadd l 1);
     t \<leftarrow> lz_untag n t (wsub r 1);
     (ls, rs) \<leftarrow> lz_sum_loop t l r 0 0;
     Some (t, ls + rs) }"

section \<open>The commutative tree\<close>

record comm_tree =
  ct_tag :: "32 word list"
  ct_sum :: "32 word list"

definition ct_new :: "nat \<Rightarrow> comm_tree" where
  "ct_new n = \<lparr>ct_tag = replicate (2 * n) 0, ct_sum = replicate (2 * n) 0\<rparr>"

definition ct_sum_plus :: "comm_tree \<Rightarrow> nat \<Rightarrow> 32 word \<Rightarrow> comm_tree option" where
  "ct_sum_plus t i v = do { s \<leftarrow> aget (ct_sum t) i; sums \<leftarrow> aset (ct_sum t) i (s + v); Some (t\<lparr>ct_sum := sums\<rparr>) }"

definition ct_tag_plus :: "comm_tree \<Rightarrow> nat \<Rightarrow> 32 word \<Rightarrow> comm_tree option" where
  "ct_tag_plus t i v = do { g \<leftarrow> aget (ct_tag t) i; tags \<leftarrow> aset (ct_tag t) i (g + v); Some (t\<lparr>ct_tag := tags\<rparr>) }"

partial_function (option) ct_add_loop :: "comm_tree \<Rightarrow> nat \<Rightarrow> nat \<Rightarrow> 32 word \<Rightarrow> 32 word \<Rightarrow> 32 word \<Rightarrow> 32 word
    \<Rightarrow> (comm_tree \<times> nat \<times> nat \<times> 32 word \<times> 32 word) option" where
  "ct_add_loop t l r v lc rc k = (if l XOR r XOR 1 = 0 then Some (t, l, r, lc, rc) else do {
     t \<leftarrow> (if even l then do { t \<leftarrow> ct_sum_plus t (l XOR 1) (v * k); ct_tag_plus t (l XOR 1) v } else Some t);
     let lc = (if even l then lc + k else lc);
     t \<leftarrow> (if odd r then do { t \<leftarrow> ct_sum_plus t (r XOR 1) (v * k); ct_tag_plus t (r XOR 1) v } else Some t);
     let rc = (if odd r then rc + k else rc);
     t \<leftarrow> ct_sum_plus t (wshr l 1) (v * lc);
     t \<leftarrow> ct_sum_plus t (wshr r 1) (v * rc);
     ct_add_loop t (wshr l 1) (wshr r 1) v lc rc (push_bit 1 k) })"

function ct_up_loop :: "comm_tree \<Rightarrow> nat \<Rightarrow> nat \<Rightarrow> 32 word \<Rightarrow> 32 word \<Rightarrow> 32 word \<Rightarrow> comm_tree option" where
  "ct_up_loop t l r v lc rc = (if l > 1 then do {
     t \<leftarrow> ct_sum_plus t l (v * lc);
     t \<leftarrow> ct_sum_plus t r (v * rc);
     ct_up_loop t (wshr l 1) (wshr r 1) v lc rc } else Some t)"
  by auto
termination by (relation "measure (\<lambda>(t, l, r, v, lc, rc). l)") (simp_all add: wshr_def drop_bit_Suc)

declare ct_up_loop.simps [simp del]

definition ct_add :: "nat \<Rightarrow> comm_tree \<Rightarrow> nat \<Rightarrow> nat \<Rightarrow> 32 word \<Rightarrow> comm_tree option" where
  "ct_add n t l r v = do {
     (t, l, r, lc, rc) \<leftarrow> ct_add_loop t (wsub (wadd l n) 1) (wadd r n) v 0 0 1;
     ct_up_loop t l r v lc rc }"

partial_function (option) ct_sum_loop :: "comm_tree \<Rightarrow> nat \<Rightarrow> nat \<Rightarrow> 32 word \<Rightarrow> 32 word \<Rightarrow> 32 word \<Rightarrow> 32 word
    \<Rightarrow> (nat \<times> nat \<times> 32 word \<times> 32 word \<times> 32 word) option" where
  "ct_sum_loop t l r ans lc rc k = (if l XOR r XOR 1 = 0 then Some (l, r, ans, lc, rc) else do {
     ans \<leftarrow> (if even l then do { s \<leftarrow> aget (ct_sum t) (l XOR 1); Some (ans + s) } else Some ans);
     let lc = (if even l then lc + k else lc);
     ans \<leftarrow> (if odd r then do { s \<leftarrow> aget (ct_sum t) (r XOR 1); Some (ans + s) } else Some ans);
     let rc = (if odd r then rc + k else rc);
     gl \<leftarrow> aget (ct_tag t) (wshr l 1);
     gr \<leftarrow> aget (ct_tag t) (wshr r 1);
     ct_sum_loop t (wshr l 1) (wshr r 1) (ans + (gl * lc + gr * rc)) lc rc (push_bit 1 k) })"

function ct_tags_loop :: "comm_tree \<Rightarrow> nat \<Rightarrow> nat \<Rightarrow> 32 word \<Rightarrow> 32 word \<Rightarrow> 32 word \<Rightarrow> 32 word option" where
  "ct_tags_loop t l r ans lc rc = (if l > 1 then do {
     gl \<leftarrow> aget (ct_tag t) l;
     gr \<leftarrow> aget (ct_tag t) r;
     ct_tags_loop t (wshr l 1) (wshr r 1) (ans + (gl * lc + gr * rc)) lc rc } else Some ans)"
  by auto
termination by (relation "measure (\<lambda>(t, l, r, ans, lc, rc). l)") (simp_all add: wshr_def drop_bit_Suc)

declare ct_tags_loop.simps [simp del]

definition ct_get_sum :: "nat \<Rightarrow> comm_tree \<Rightarrow> nat \<Rightarrow> nat \<Rightarrow> 32 word option" where
  "ct_get_sum n t l r = do {
     (l, r, ans, lc, rc) \<leftarrow> ct_sum_loop t (wsub (wadd l n) 1) (wadd r n) 0 0 0 1;
     ct_tags_loop t l r ans lc rc }"

section \<open>Sums over a bitmap\<close>

text \<open>\<open>cs_bytes\<close> is the parameter \<open>N\<close>, the bytes of the bitmap.\<close>

record compressed_sum =
  cs_sum :: "8 word list"
  cs_bmp :: raw_bitmap

definition cs_new :: "nat \<Rightarrow> compressed_sum" where
  "cs_new n = \<lparr>cs_sum = replicate (n * 8) 0, cs_bmp = raw_new n\<rparr>"

definition cs_get :: "nat \<Rightarrow> compressed_sum \<Rightarrow> nat \<Rightarrow> 8 word option" where
  "cs_get n s idx = (if idx < n * 8 then aget (cs_sum s) idx
     else do { b \<leftarrow> raw_get_bit (cs_bmp s) (idx - n * 8); Some (of_bool b) })"

definition cs_set :: "nat \<Rightarrow> compressed_sum \<Rightarrow> nat \<Rightarrow> 8 word \<Rightarrow> compressed_sum option" where
  "cs_set n s idx val = (if idx < n * 8 then do { sums \<leftarrow> aset (cs_sum s) idx val; Some (s\<lparr>cs_sum := sums\<rparr>) }
     else do {
       bmp \<leftarrow> (if val = 1 then raw_set_bit (cs_bmp s) (idx - n * 8)
         else if val = 0 then raw_unset_bit (cs_bmp s) (idx - n * 8) else Some (cs_bmp s));
       ensure False;
       Some (s\<lparr>cs_bmp := bmp\<rparr>) })"

definition cs_add :: "nat \<Rightarrow> compressed_sum \<Rightarrow> nat \<Rightarrow> 8 word \<Rightarrow> compressed_sum option" where
  "cs_add n s idx val = (if idx < n * 8 then do {
       x \<leftarrow> aget (cs_sum s) idx;
       sums \<leftarrow> aset (cs_sum s) idx (x + val);
       Some (s\<lparr>cs_sum := sums\<rparr>) }
     else do {
       bmp \<leftarrow> (if val = 1 then do {
           old \<leftarrow> cs_get n s idx;
           ensure (old = 0);
           raw_set_bit (cs_bmp s) (idx - n * 8) }
         else Some (cs_bmp s));
       ensure False;
       Some (s\<lparr>cs_bmp := bmp\<rparr>) })"

record comm_bitmap =
  cb_tag :: "8 word list"
  cb_sum :: compressed_sum

definition cb_new :: "nat \<Rightarrow> comm_bitmap" where
  "cb_new n = \<lparr>cb_tag = replicate (n * 16) 0, cb_sum = cs_new n\<rparr>"

definition cb_sum_add :: "nat \<Rightarrow> comm_bitmap \<Rightarrow> nat \<Rightarrow> 8 word \<Rightarrow> comm_bitmap option" where
  "cb_sum_add n b i v = do { s \<leftarrow> cs_add n (cb_sum b) i v; Some (b\<lparr>cb_sum := s\<rparr>) }"

definition cb_tag_plus :: "comm_bitmap \<Rightarrow> nat \<Rightarrow> 8 word \<Rightarrow> comm_bitmap option" where
  "cb_tag_plus b i v = do { g \<leftarrow> aget (cb_tag b) i; tags \<leftarrow> aset (cb_tag b) i (g + v); Some (b\<lparr>cb_tag := tags\<rparr>) }"

partial_function (option) cb_add_loop :: "nat \<Rightarrow> comm_bitmap \<Rightarrow> nat \<Rightarrow> nat \<Rightarrow> 8 word \<Rightarrow> 8 word \<Rightarrow> 8 word \<Rightarrow> 8 word \<Rightarrow> comm_bitmap option" where
  "cb_add_loop n b l r v lc rc k = (if l XOR r XOR 1 = 0 then Some b else do {
     b \<leftarrow> (if even l then do { b \<leftarrow> cb_sum_add n b (l XOR 1) (v * k); cb_tag_plus b (l XOR 1) v } else Some b);
     let lc = (if even l then lc + k else lc);
     b \<leftarrow> (if odd r then do { b \<leftarrow> cb_sum_add n b (r XOR 1) (v * k); cb_tag_plus b (r XOR 1) v } else Some b);
     let rc = (if odd r then rc + k else rc);
     b \<leftarrow> cb_sum_add n b (wshr l 1) (v * lc);
     b \<leftarrow> cb_sum_add n b (wshr r 1) (v * rc);
     cb_add_loop n b (wshr l 1) (wshr r 1) v lc rc (push_bit 1 k) })"

definition cb_add :: "nat \<Rightarrow> comm_bitmap \<Rightarrow> nat \<Rightarrow> nat \<Rightarrow> 8 word \<Rightarrow> comm_bitmap option" where
  "cb_add n b l r v = do {
     ensure (v \<le> 1);
     cb_add_loop n b (wsub (wadd l (n * 8)) 1) (wadd r (n * 8)) v 0 0 1 }"

partial_function (option) cb_sum_loop :: "nat \<Rightarrow> comm_bitmap \<Rightarrow> nat \<Rightarrow> nat \<Rightarrow> 8 word \<Rightarrow> 8 word \<Rightarrow> 8 word \<Rightarrow> 8 word
    \<Rightarrow> (nat \<times> nat \<times> 8 word \<times> 8 word \<times> 8 word) option" where
  "cb_sum_loop n b l r ans lc rc k = (if l XOR r XOR 1 = 0 then Some (l, r, ans, lc, rc) else do {
     ans \<leftarrow> (if even l then do { s \<leftarrow> cs_get n (cb_sum b) (l XOR 1); Some (ans + s) } else Some ans);
     let lc = (if even l then lc + k else lc);
     ans \<leftarrow> (if odd r then do { s \<leftarrow> cs_get n (cb_sum b) (r XOR 1); Some (ans + s) } else Some ans);
     let rc = (if odd r then rc + k else rc);
     gl \<leftarrow> aget (cb_tag b) (wshr l 1);
     gr \<leftarrow> aget (cb_tag b) (wshr r 1);
     cb_sum_loop n b (wshr l 1) (wshr r 1) (ans + (gl * lc + gr * rc)) lc rc (push_bit 1 k) })"

function cb_tags_loop :: "comm_bitmap \<Rightarrow> nat \<Rightarrow> nat \<Rightarrow> 8 word \<Rightarrow> 8 word \<Rightarrow> 8 word \<Rightarrow> 8 word option" where
  "cb_tags_loop b l r ans lc rc = (if l > 1 then do {
     gl \<leftarrow> aget (cb_tag b) l;
     gr \<leftarrow> aget (cb_tag b) r;
     cb_tags_loop b (wshr l 1) (wshr r 1) (ans + (gl * lc + gr * rc)) lc rc } else Some ans)"
  by auto
termination by (relation "measure (\<lambda>(t, l, r, ans, lc, rc). l)") (simp_all add: wshr_def drop_bit_Suc)

declare cb_tags_loop.simps [simp del]

definition cb_get_sum :: "nat \<Rightarrow> comm_bitmap \<Rightarrow> nat \<Rightarrow> nat \<Rightarrow> 8 word option" where
  "cb_get_sum n b l r = do {
     (l, r, ans, lc, rc) \<leftarrow> cb_sum_loop n b (wsub (wadd l n) 1) (wadd r n) 0 0 0 1;
     cb_tags_loop b l r ans lc rc }"

section \<open>The bitmap is a set\<close>

definition raw_at :: "raw_bitmap \<Rightarrow> nat \<Rightarrow> bool" where
  "raw_at bits n \<longleftrightarrow> bit (bits ! (n div 8)) (n mod 8)"

lemma same_place: "k div 8 = n div 8 \<Longrightarrow> k mod 8 = n mod 8 \<longleftrightarrow> k = (n :: nat)"
  using div_mult_mod_eq [of k 8] div_mult_mod_eq [of n 8] by auto

lemma raw_at_update:
  assumes "n div 8 < length bits" and "\<And>j. j < 8 \<Longrightarrow> bit w j \<longleftrightarrow> (if j = n mod 8 then v else bit (bits ! (n div 8)) j)"
  shows "raw_at (bits[n div 8 := w]) k \<longleftrightarrow> (if k = n then v else raw_at bits k)"
proof (cases "k div 8 = n div 8")
  case True
  then show ?thesis using assms same_place [OF True] by (auto simp: raw_at_def)
next
  case False
  then show ?thesis by (auto simp: raw_at_def)
qed

text \<open>A raw bitmap of \<open>N\<close> bytes is a set of numbers below \<open>8 N\<close>: \<open>get_bit\<close> tests membership, \<open>set_bit\<close> inserts,
  \<open>unset_bit\<close> removes, nothing else changes, and a number that is too large panics.\<close>

theorem raw_bitmap_is_a_set:
  "if n < 8 * length bits then raw_get_bit bits n = Some (raw_at bits n)
      \<and> (\<exists>b'. raw_set_bit bits n = Some b' \<and> length b' = length bits \<and> (\<forall>k. raw_at b' k \<longleftrightarrow> k = n \<or> raw_at bits k))
      \<and> (\<exists>b'. raw_unset_bit bits n = Some b' \<and> length b' = length bits \<and> (\<forall>k. raw_at b' k \<longleftrightarrow> k \<noteq> n \<and> raw_at bits k))
    else raw_get_bit bits n = None \<and> raw_set_bit bits n = None \<and> raw_unset_bit bits n = None"
proof (cases "n < 8 * length bits")
  case True
  then have d: "n div 8 < length bits" by (simp add: less_mult_imp_div_less mult.commute)
  let ?w = "bits ! (n div 8)"
  have "raw_get_bit bits n = Some (raw_at bits n)"
    using d by (simp add: raw_get_bit_def raw_at_def push_bit_of_1 and_exp_eq_0_iff_not_bit)
  moreover have "raw_at (bits[n div 8 := ?w OR push_bit (n mod 8) 1]) k \<longleftrightarrow> (if k = n then True else raw_at bits k)" for k
    by (rule raw_at_update [OF d]) (auto simp: bit_or_iff bit_exp_iff)
  moreover have "raw_at (bits[n div 8 := ?w AND NOT (push_bit (n mod 8) 1)]) k \<longleftrightarrow> (if k = n then False else raw_at bits k)" for k
    by (rule raw_at_update [OF d]) (auto simp: bit_and_iff bit_not_iff bit_exp_iff)
  ultimately show ?thesis using True d by (simp add: raw_set_bit_def raw_unset_bit_def)
next
  case False
  then have "length bits \<le> n div 8" by simp
  then show ?thesis using False by (simp add: raw_get_bit_def raw_set_bit_def raw_unset_bit_def)
qed

section \<open>The trees\<close>

text \<open>The constant \<open>ln\<close> of \<open>LazySegTree\<close> subtracts the leading zeros of a 64-bit number from 31: for every size up to
  \<open>2 ^ 32\<close> this underflows, so no operation of the tree can be used.\<close>

theorem lazy_tree_unusable:
  assumes "n \<le> 2 ^ 32"
  shows "lz_add n t l r v = None \<and> lz_get_sum n t l r = None"
proof -
  have "bit_length (n - 1) \<le> 32" using assms by (intro bit_length_le) simp
  then have "\<not> 64 - bit_length (n - 1) \<le> 31" by linarith
  then have "lz_ln n = None" by (simp add: lz_ln_def leading_zeros_def Let_def)
  then show ?thesis by (simp add: lz_add_def lz_get_sum_def lz_untag_def Let_def)
qed

text \<open>One element of four is counted twice by \<open>get_sum\<close> of the commutative tree, and not at all in the sum of the
  whole range: on the way up \<open>add\<close> visits the node where the two walks meet a second time, and never the root.\<close>

theorem comm_tree_counts_wrong:
  "\<exists>t. ct_add 4 (ct_new 4) 1 2 1 = Some t \<and> ct_get_sum 4 t 1 2 = Some 1 \<and> ct_get_sum 4 t 0 2 = Some 2 \<and> ct_get_sum 4 t 0 4 = Some 0"
proof -
  let ?t = "\<lparr>ct_tag = [0, 0, 0, 0, 0, 1, 0, 0], ct_sum = [0, 0, 2, 0, 0, 1, 0, 0]\<rparr>"
  note steps = wshr_def ct_sum_plus_def ct_tag_plus_def aget_def aset_def Let_def
  have new: "ct_new 4 = \<lparr>ct_tag = [0, 0, 0, 0, 0, 0, 0, 0], ct_sum = [0, 0, 0, 0, 0, 0, 0, 0]\<rparr>" by (simp add: ct_new_def numeral_eq_Suc)
  have "ct_add_loop (ct_new 4) 4 6 1 0 0 1 = Some (\<lparr>ct_tag = [0, 0, 0, 0, 0, 1, 0, 0], ct_sum = [0, 0, 1, 0, 0, 1, 0, 0]\<rparr>, 2, 3, 1, 0)"
    unfolding new by (subst ct_add_loop.simps, subst ct_add_loop.simps) (simp add: steps)
  then have "ct_add 4 (ct_new 4) 1 2 1 = Some ?t" by (simp add: ct_add_def steps ct_up_loop.simps)
  moreover have "ct_sum_loop ?t 4 6 0 0 0 1 = Some (2, 3, 1, 1, 0)" by (subst ct_sum_loop.simps, subst ct_sum_loop.simps) (simp add: steps)
  moreover have "ct_sum_loop ?t 3 6 0 0 0 1 = Some (0, 1, 2, 0, 2)"
    by (subst ct_sum_loop.simps, subst ct_sum_loop.simps, subst ct_sum_loop.simps) (simp add: steps)
  moreover have "ct_sum_loop ?t 3 8 0 0 0 1 = Some (0, 1, 0, 4, 0)"
    by (subst ct_sum_loop.simps, subst ct_sum_loop.simps, subst ct_sum_loop.simps, subst ct_sum_loop.simps) (simp add: steps)
  ultimately show ?thesis by (intro exI [of _ ?t]) (simp add: ct_get_sum_def ct_tags_loop.simps steps)
qed

lemma sibling_iff: "a XOR b XOR 1 = 0 \<longleftrightarrow> b = a XOR (1 :: nat)"
  by (auto simp: bit_eq_iff bit_xor_iff)

lemma xor_1_nat: "even a \<Longrightarrow> a XOR 1 = a + (1 :: nat)" "odd a \<Longrightarrow> a XOR 1 = a - (1 :: nat)"
  by (simp_all add: xor_Suc_0_eq)

text \<open>\<open>add\<close> of the commutative bitmap panics as soon as an end of its interval is odd: the walk then adds to a leaf,
  and adding to a leaf always reaches \<open>unreachable!\<close>.\<close>

theorem comm_bitmap_add_panics:
  assumes "l < r" and "r \<le> n * 8" and "n < 2 ^ 60" and "odd l \<or> odd r"
  shows "cb_add n b l r v = None"
proof -
  let ?l = "l + n * 8 - 1" let ?r = "r + n * 8"
  have leaf: "cb_sum_add n b i x = None" if "n * 8 \<le> i" for i x using that by (simp add: cb_sum_add_def cs_add_def)
  have w: "wsub (wadd l (n * 8)) 1 = ?l" "wadd r (n * 8) = ?r" using assms by (simp_all add: wsub_exact)
  have "0 < n" using assms(1,2) by (cases n) auto
  then have "?l XOR 1 \<le> l + n * 8" using xor_1_nat [of ?l] by (cases "even ?l") auto
  then have s: "?l XOR ?r XOR 1 \<noteq> 0" unfolding sibling_iff using assms(1) by linarith
  have "cb_add_loop n b ?l ?r v 0 0 1 = None"
  proof (cases "odd l")
    case True
    then have e: "even ?l" by simp
    then have "?l XOR 1 = l + n * 8" using xor_1_nat(1) [OF e] True by (simp add: Suc_diff_1 odd_pos)
    then show ?thesis by (subst cb_add_loop.simps) (simp only: s e if_True if_False leaf [of "l + n * 8"] le_add2 bind.bind_lzero)
  next
    case False
    then have o: "odd r" "\<not> even ?l" using assms by auto
    then have "?r XOR 1 = r - 1 + n * 8" using xor_1_nat(2) [of ?r] odd_pos [OF o(1)] by simp
    then have "cb_sum_add n b (?r XOR 1) x = None" for x using leaf [of "?r XOR 1"] by simp
    then show ?thesis using o(1) by (subst cb_add_loop.simps) (simp only: s o(2) if_True if_False Let_def bind.bind_lunit bind.bind_lzero, simp)
  qed
  then show ?thesis by (simp add: cb_add_def w [unfolded One_nat_def])
qed

section \<open>Concrete inputs\<close>

theorem raw_bitmap_is_a_set_witness:
  "\<exists>b'. raw_set_bit (raw_new 64) 12 = Some b' \<and> raw_at b' 12 \<and> \<not> raw_at b' 3 \<and> raw_get_bit (raw_new 64) 512 = None"
proof -
  have l: "length (raw_new 64) = 64" and z: "\<not> raw_at (raw_new 64) 3" by (simp_all add: raw_new_def raw_at_def)
  obtain b' where "raw_set_bit (raw_new 64) 12 = Some b'" "\<And>k. raw_at b' k \<longleftrightarrow> k = 12 \<or> raw_at (raw_new 64) k"
    using raw_bitmap_is_a_set [of 12 "raw_new 64"] by (auto simp: l)
  then show ?thesis using z raw_bitmap_is_a_set [of 512 "raw_new 64"] by (simp add: l)
qed

theorem lazy_tree_unusable_witness: "lz_add 512 t 3 5 1 = None \<and> lz_get_sum 512 t 3 5 = None"
  by (rule lazy_tree_unusable) simp

theorem comm_bitmap_add_panics_witness: "cb_add 64 (cb_new 64) 3 4 1 = None"
  by (rule comm_bitmap_add_panics) simp_all

end
