(* ===== verification/Spec2Isabelle.thy ===== *)
theory Spec2Isabelle
  imports SizeClass BuddySystem RadixTree Platform LazyStatic Locks Rseq Macros SeparateSlab Mpmc CpuCache
    ThreadMemCache ThreadArrayCache FixedHeap Arena SimdBitmap Bitmap
begin

text \<open>
  A verification library of UniAlloc, a memory allocator in Rust.

  \<^bold>\<open>The program.\<close> \<open>RustAllocator\<close> is the global allocator. A request goes to a thread cache, which keeps for each
  size class a list of free objects and what is left of a batch; an empty cache takes a batch from the zone, which
  has one slab allocator for each class; a slab allocator cuts runs of pages into objects and keeps its pages on
  five rings; pages come from the backend, lists of free blocks by size in front of a bump allocator that maps
  memory. A radix tree maps a page to the header of its slab. Beside this path stand a buddy heap and other
  allocators that the build leaves out but the repository holds.

  \<^bold>\<open>Theories.\<close> Each models one part, in the order of the code, from data to operations, and then proves it.
  \<^item> \<open>UA_Prelude\<close>: panics and errors as values, wrapping \<open>usize\<close> arithmetic, bit tricks, layouts (\<open>error.rs\<close>).
  \<^item> \<open>SizeClass\<close>: the three tables and their lookups (\<open>size_class/\<close>), the page counts of the macro crate
    (\<open>alloc_macros/\<close>) and the tables of \<open>build.rs\<close>. A lookup is proved to be the least class that holds the request.
  \<^item> \<open>BuddyTree\<close>: the complete tree of buddies in an array of bytes (\<open>buddy_system/buddy.rs\<close>), refined to a datatype of
    trees whose nodes are free, used or split: allocation, deallocation and their round trip are proved on it.
  \<^item> \<open>BuddySystem\<close>: the heap of several trees (\<open>buddy_system/heap.rs\<close>), with what \<open>alloc\<close>, \<open>dealloc\<close> and \<open>realloc\<close>
    promise of the ranges in use.
  \<^item> \<open>CircList\<close>: rings with two links for each node. The locale \<open>linked_store\<close> is the contract; it is interpreted on
    \<open>ArrayLinkedList\<close> (\<open>collections/linklist.rs\<close>) here and on the slab headers in \<open>Slab\<close>.
  \<^item> \<open>PageMap\<close>: what the slab allocator asks of a map from pages to slabs, as the locale \<open>page_map\<close>.
  \<^item> \<open>RadixTree\<close>: the two-level tree and the flat array (\<open>collections/radix_tree.rs\<close>), both interpretations of that
    locale, and the six-level tree of 128-bit keys (\<open>collections/radix_tree_128.rs\<close>).
  \<^item> \<open>Machine\<close>: memory as words, the operating system as the list of its coming answers (\<open>pal/sys_alloc.rs\<close>).
  \<^item> \<open>Linklist\<close>: the list threaded through free objects (\<open>mm/linklist.rs\<close>).
  \<^item> \<open>Bump\<close>: three bump allocators (\<open>freelist/bump.rs\<close>, \<open>page/mod.rs\<close>, \<open>sc/mod.rs\<close>) under one locale,
    \<open>bump_allocator\<close>: in a run no two requests overlap.
  \<^item> \<open>FreeList\<close>: the backend (\<open>freelist/mod.rs\<close>).
  \<^item> \<open>Slab\<close>: slab headers (\<open>page/efficient_page.rs\<close>) and the slab allocator (\<open>sc/efficient_sc.rs\<close>).
  \<^item> \<open>ThreadCache\<close>: the zone (\<open>zone.rs\<close>), the thread cache (\<open>cache/thread_cache.rs\<close>) and the global allocator
    (\<open>cache/mod.rs\<close>): objects move between a cache and the slabs without loss.
  \<^item> \<open>ClassRun\<close>: one size class as a whole, its slabs, its unit of the cache and the objects the program holds: each object
    of a slab is in exactly one place, and allocation, deallocation, flush and the program's own stores keep it so.
  \<^item> \<open>HeapRun\<close>: the 63 classes side by side. \<open>running\<close> are the states a program reaches that allocates, reallocates, frees,
    stores words in its objects and flushes its cache, with objects of up to 28032 bytes aligned to at most 4096: its
    objects never overlap and no request panics. A request that needs new pages assumes of the backend that it gives a
    fresh header and fresh pages and leaves the pages in use alone, which is what \<open>FreeList\<close> and \<open>Bump\<close> prove of it; a flush
    assumes that at most 2048 empty slabs wait in a class.
  \<^item> \<open>Threads\<close>: a process of many threads (\<open>tls_static!\<close> in \<open>alloc_macros/src/allocator.rs\<close>, \<open>pal/sync.rs\<close>): each makes its cache
    on its first request and gives it back at its end, all share the zone, and any of them frees any object. \<open>process_run\<close> are
    the states such a process reaches; its objects never overlap, keep their words, and no request panics. A first
    request assumes that the metadata allocator gives a block that no other thread has; the end of a thread assumes the bound of
    a flush and that no slab took pages from the chunk of metadata.
  \<^item> \<open>LazyStatic\<close>: values made by the first thread that needs them, by compare-and-swap: \<open>atomic_static!\<close>, the radix tree and
    its nodes. The locale \<open>installer\<close> is the contract of what is made; on the tree every thread ends with the same value
    after four steps of its own; on a static the loser's block goes to the wrong allocator.
  \<^item> \<open>Locks\<close>: the mutex and its guard (\<open>sync.rs\<close>, \<open>buddy_system/sync.rs\<close>) over the lock of the operating system, a parameter:
    updates under the lock are serial.
  \<^item> \<open>Rseq\<close>: the registration of restartable sequences (\<open>pal/os/linux_rseq.rs\<close>) over the system call, a parameter.
  \<^item> \<open>Macros\<close>: what the procedural macros read from their tokens, and the table that \<open>generate_num_pages!\<close> writes.
  \<^item> \<open>Platform\<close>: whole mappings and their failures, the heaps of two kernels, thread-local statics on Windows, pointer
    authentication (\<open>pal/arch/pac.rs\<close>), printing, and the statics of a heap of fixed size.
  \<^item> \<open>SeparatePage\<close>: slab pages with a bit field of their objects in use (\<open>page/separate_page.rs\<close>): the search for an
    object is the linear search of the field, and each operation is stated over the set of objects in use.
  \<^item> \<open>SeparateSlab\<close>: the older slab allocator over an array of such pages (\<open>sc/separate_sc.rs\<close>).
  \<^item> \<open>Mpmc\<close>: the bounded queue (\<open>mpmc.rs\<close>). A step is one access to shared memory; the interleavings of any number of
    threads keep an invariant of cells and claims, and one thread alone refines a bounded list.
  \<^item> \<open>PerCpu\<close>: the arrays of a CPU (\<open>collections/concurrent.rs\<close>), whose restartable sequences are refined to stacks, and
    the cache on them. The thread may move to another CPU between two sequences.
  \<^item> \<open>CpuCache\<close>: the per-CPU cache (\<open>cache/cpu_cache.rs\<close>). A run of pushes and pops, on any schedule of the thread over the
    CPUs, refines a family of bounded stacks; refilling hands the first object of a batch out and also keeps it.
  \<^item> \<open>ThreadMemCache\<close>: the thread cache in one block of memory (\<open>cache/thread_mem_cache.rs\<close>): the layout of the block is
    kept by every run of requests; hits, refills and overflows are stated over the multiset of a class.
  \<^item> \<open>ThreadArrayCache\<close>: the thread cache of vectors (\<open>cache/thread_array_cache.rs\<close>), with hits, refills, overflows and what a
    failed refill leaves behind.
  \<^item> \<open>FixedHeap\<close>: the heap of fixed size (\<open>sc/mod.rs\<close>, \<open>cache/mod.rs\<close>): how its range is divided among the allocators of \<open>Bump\<close>
    and the flat array of \<open>RadixTree\<close>, and what an extension does to this division.
  \<^item> \<open>Arena\<close>: the typed and the dropless arena and their union (\<open>arena/mod.rs\<close>): each object is stored apart from the others,
    keeps its value and is dropped once; which requests the dropless arena serves, and one it never answers.
  \<^item> \<open>SimdBitmap\<close>: the bitmap in one 512-bit register with its prefix sums (\<open>bitmap_alloc/simd_bitmap.rs\<close>), the vector
    instructions being lists of lanes: \<open>select\<close> is proved to find the bit of a given rank; the page that uses it
    (\<open>bitmap_alloc/bitmap_heap.rs\<close>).
  \<^item> \<open>Bitmap\<close>: the raw bitmap and the three trees of sums (\<open>bitmap_alloc/bitmap.rs\<close>), with the defects of the trees.

  \<^bold>\<open>Conventions.\<close> A \<open>usize\<close> is a natural number below \<open>2 ^ 64\<close> and its arithmetic wraps, as in a release build. A panic,
  a failed assertion, an index out of range and undefined behaviour are \<open>None\<close>; the program's own errors are values.
  Memory is a map from addresses to words. Pointers to headers are numbers. Threads are interleaved access by
  access in \<open>Mpmc\<close>, \<open>LazyStatic\<close> and \<open>Locks\<close>, over sequentially consistent memory, and request by request in \<open>Threads\<close>; elsewhere one
  thread runs: a lock is free when it is taken and a compare-and-swap succeeds.

  \<^bold>\<open>Loops.\<close> A loop that counts is recursion with a measure; a walk along links in memory, which is endless on a cyclic
  memory, is a \<open>partial_function\<close> into \<open>option\<close>, and each property about it proves that it returns.

  \<^bold>\<open>Not modelled.\<close> Interleavings within one request of the global allocator, weak memory, the interruption of a restartable
  sequence (it runs as a whole, as the kernel promises), the assembly of system calls and of pointer authentication, whose
  instructions are parameters, the printing and parsing of the text of the macros, the calls of Windows for locks and memory,
  the background thread (a loop that sleeps), and the benchmarks and kernel module around the allocator. The list of
  pages of \<open>bitmap_heap.rs\<close>, whose only operation treats the address of a local variable as a page.
\<close>

end
